(* ===== verification/Prelude.thy ===== *)
theory Prelude
  imports Main "HOL-Library.Word"
begin

unbundle bit_operations_syntax

text \<open>
  Shared vocabulary of the development: the C integer types at their widths, the
  overwrite of a byte range (\<open>memcpy\<close> into a buffer), big-endian values of byte lists,
  and the arithmetic lemmas on words that every component uses. Nothing here models a
  particular source file; the lemma collections feed the component theories:
  \<^item> \<open>word_nat\<close>: reading word comparisons and arithmetic over the naturals;
  \<^item> \<open>wire_defs\<close>: definitions of the small wire operations, unfolded in codec proofs.
\<close>

type_synonym u8 = "8 word"
type_synonym u16 = "16 word"
type_synonym u32 = "32 word"
type_synonym u64 = "64 word"

named_theorems word_nat
named_theorems wire_defs

text \<open>\<open>memcpy (d + off, bs, length bs)\<close> on the bytes \<open>d\<close>: the range is replaced.\<close>

definition overwrite :: "nat \<Rightarrow> 'a list \<Rightarrow> 'a list \<Rightarrow> 'a list" where
  "overwrite off bs d = take off d @ bs @ drop (off + length bs) d"

text \<open>The number a big-endian byte string denotes, and its bytes at a given width.\<close>

definition be_nat :: "u8 list \<Rightarrow> nat" where
  "be_nat bs = foldl (\<lambda>v b. 256 * v + unat b) 0 bs"

fun be_bytes :: "nat \<Rightarrow> nat \<Rightarrow> u8 list" where
  "be_bytes 0 v = []"
| "be_bytes (Suc n) v = be_bytes n (v div 256) @ [of_nat (v mod 256)]"

subsection \<open>Overwriting\<close>

lemma length_overwrite [simp]:
  "off + length bs \<le> length d \<Longrightarrow> length (overwrite off bs d) = length d"
  by (simp add: overwrite_def)

lemma overwrite_Nil [simp]: "overwrite off [] d = d"
  by (simp add: overwrite_def)

lemma overwrite_append:
  "off + length bs + length cs \<le> length d \<Longrightarrow>
   overwrite (off + length bs) cs (overwrite off bs d) = overwrite off (bs @ cs) d"
  by (simp add: overwrite_def add.commute add.left_commute)

lemma take_overwrite:
  "off + length bs \<le> length d \<Longrightarrow>
   take (off + length bs) (overwrite off bs d) = take off d @ bs"
  by (simp add: overwrite_def)

lemma take_overwrite_before:
  "n \<le> off \<Longrightarrow> off + length bs \<le> length d \<Longrightarrow> take n (overwrite off bs d) = take n d"
  by (simp add: overwrite_def min_def)

lemma nth_overwrite:
  "off + length bs \<le> length d \<Longrightarrow> i < length d \<Longrightarrow>
   overwrite off bs d ! i =
     (if off \<le> i \<and> i < off + length bs then bs ! (i - off) else d ! i)"
  by (auto simp: overwrite_def nth_append)

subsection \<open>Big-endian byte strings\<close>

lemma be_nat_foldl: "foldl (\<lambda>v b. 256 * v + unat (b::u8)) a bs = a * 256 ^ length bs + be_nat bs"
proof (induction bs arbitrary: a)
  case (Cons b bs)
  from Cons [of "256 * a + unat b"] Cons [of "unat b"] show ?case
    by (simp add: be_nat_def algebra_simps)
qed (simp add: be_nat_def)

lemma be_nat_Nil [simp]: "be_nat [] = 0"
  by (simp add: be_nat_def)

lemma be_nat_Cons [simp]: "be_nat (b # bs) = unat b * 256 ^ length bs + be_nat bs"
  using be_nat_foldl [of "unat b" bs] by (simp add: be_nat_def)

lemma be_nat_snoc [simp]: "be_nat (bs @ [b]) = 256 * be_nat bs + unat b"
  by (simp add: be_nat_def)

lemma be_nat_append: "be_nat (bs @ cs) = be_nat bs * 256 ^ length cs + be_nat cs"
  by (induction bs) (simp_all add: algebra_simps power_add)

lemma unat_u8_less: "unat (b::u8) < 256"
  using unsigned_less [of b, where 'a = nat] by simp

lemma unat_u8_of_nat_mod [simp]: "unat (of_nat (v mod 256) :: u8) = v mod 256"
  by (simp add: unat_of_nat)

lemma be_nat_less: "be_nat bs < 256 ^ length bs"
proof (induction bs rule: rev_induct)
  case (snoc b bs)
  then have "Suc (be_nat bs) \<le> 256 ^ length bs" by simp
  then have "256 * Suc (be_nat bs) \<le> 256 * 256 ^ length bs" by simp
  moreover have "unat b < 256" by (rule unat_u8_less)
  ultimately show ?case by simp
qed simp

lemma length_be_bytes [simp]: "length (be_bytes n v) = n"
  by (induction n arbitrary: v) simp_all

lemma be_nat_be_bytes: "be_nat (be_bytes n v) = v mod 256 ^ n"
proof (induction n arbitrary: v)
  case (Suc n)
  have "256 * (v div 256 mod 256 ^ n) + v mod 256 = v mod (256 * 256 ^ n)"
    by (simp add: mod_mult2_eq)
  with Suc show ?case by simp
qed simp

lemma be_nat_be_bytes_id [simp]: "v < 256 ^ n \<Longrightarrow> be_nat (be_bytes n v) = v"
  by (simp add: be_nat_be_bytes)

lemma be_bytes_be_nat [simp]: "be_bytes (length bs) (be_nat bs) = bs"
proof (induction bs rule: rev_induct)
  case (snoc b bs)
  have "(256 * be_nat bs + unat b) div 256 = be_nat bs" by (simp add: unat_u8_less)
  moreover have "(256 * be_nat bs + unat b) mod 256 = unat b" by (simp add: unat_u8_less)
  ultimately show ?case using snoc by simp
qed simp

lemma be_bytes_digits:
  "be_bytes n v = map (\<lambda>i. of_nat (v div 256 ^ (n - Suc i) mod 256)) [0..<n]"
proof (induction n arbitrary: v)
  case (Suc n)
  have "v div 256 div 256 ^ (n - Suc i) = v div 256 ^ (n - i)" if "i < n" for i
    using that by (simp add: div_mult2_eq [symmetric] power_Suc [symmetric] Suc_diff_Suc
        del: power_Suc)
  then show ?case
    by (simp add: Suc)
qed simp

subsection \<open>Words over the naturals\<close>

lemma unat_u64_less: "unat (x::u64) < 18446744073709551616"
  using unsigned_less [of x, where 'a = nat] by simp

lemma unat_u32_less: "unat (x::32 word) < 4294967296"
  using unsigned_less [of x, where 'a = nat] by simp

lemma unat_sub_le [word_nat]: "(b::'a::len word) \<le> a \<Longrightarrow> unat (a - b) = unat a - unat b"
  by (simp add: unat_sub)

lemma unat_add_of_nat [word_nat]:
  "unat (a::u64) + n < 2 ^ 64 \<Longrightarrow> unat (a + of_nat n) = unat a + n"
  by (simp add: unat_word_ariths unat_of_nat)

lemma unat_add_no_wrap [word_nat]:
  "unat (a::u64) + unat b < 2 ^ 64 \<Longrightarrow> unat (a + b) = unat a + unat b"
  by (simp add: unat_word_ariths)

lemma unat_of_nat_u64: "n < 2 ^ 64 \<Longrightarrow> unat (of_nat n :: u64) = n"
  by (simp add: unat_of_nat)

lemma word_of_nat_eqI: "unat (x::'a::len word) = n \<Longrightarrow> x = of_nat n"
  by auto

lemma or_eq_add: "(a::'a::len word) AND b = 0 \<Longrightarrow> a OR b = a + b"
  by (simp add: disjunctive_add_eq_or)

lemma unat_ucast_u8:
  "8 \<le> LENGTH('a::len) \<Longrightarrow> unat (ucast (b::u8) :: 'a word) = unat b"
proof -
  assume "8 \<le> LENGTH('a)"
  then have "(256::nat) \<le> 2 ^ LENGTH('a)"
    using power_increasing [of 8 "LENGTH('a)" "2::nat"] by simp
  with unat_u8_less [of b] show ?thesis
    by (simp add: unsigned_ucast_eq take_bit_eq_mod)
qed

lemma unat_ucast_u8_u64 [simp]: "unat (ucast (b::u8) :: u64) = unat b"
  by (simp add: unat_ucast_u8)

lemma unat_ucast_u32 [simp]: "unat (ucast (len::32 word) :: u64) = unat len"
  by (simp add: unsigned_ucast_eq take_bit_nat_eq_self_iff less_trans [OF unsigned_less])

text \<open>One step of a big-endian accumulation, \<open>(v << 8) | b\<close>, is \<open>256 v + b\<close> while it fits.\<close>

abbreviation shift_or :: "'a::len word \<Rightarrow> u8 \<Rightarrow> 'a word" where
  "shift_or v b \<equiv> push_bit 8 v OR ucast b"

lemma unat_shift_or:
  assumes "256 * unat (v::'a::len word) + 255 < 2 ^ LENGTH('a)"
  shows "unat (shift_or v b) = 256 * unat v + unat b"
proof -
  have len: "8 \<le> LENGTH('a)"
  proof (rule ccontr)
    assume "\<not> 8 \<le> LENGTH('a)"
    then have "(2::nat) ^ LENGTH('a) \<le> 2 ^ 7" by (intro power_increasing) simp_all
    with assms show False by simp
  qed
  have "push_bit 8 v AND ucast b = (0::'a word)"
    by (rule bit_word_eqI) (auto simp: bit_simps dest: bit_imp_le_length)
  then have "shift_or v b = push_bit 8 v + ucast b"
    by (rule or_eq_add)
  moreover have "unat (push_bit 8 v) = 256 * unat v"
    using assms unsigned_push_bit_eq [of 8 v, where 'a = nat]
    by (simp add: push_bit_eq_mult take_bit_eq_mod)
  ultimately show ?thesis
    using assms unat_u8_less [of b]
    by (simp add: unat_word_ariths unat_ucast_u8 [OF len])
qed

lemma unat_foldl_shift_or:
  assumes "(unat (v::'a::len word) + 1) * 256 ^ length bs \<le> 2 ^ LENGTH('a)"
  shows "unat (foldl shift_or v bs) = unat v * 256 ^ length bs + be_nat bs"
  using assms
proof (induction bs arbitrary: v)
  case (Cons b bs)
  have "(256 * unat v + 256) * 1 \<le> (256 * unat v + 256) * 256 ^ length bs"
    by (intro mult_le_mono2) simp
  also have "\<dots> \<le> 2 ^ LENGTH('a)"
    using Cons.prems by (simp add: algebra_simps)
  finally have step: "unat (shift_or v b) = 256 * unat v + unat b"
    by (intro unat_shift_or) simp
  have "(unat (shift_or v b) + 1) * 256 ^ length bs \<le> (256 * unat v + 256) * 256 ^ length bs"
    using unat_u8_less [of b] by (intro mult_le_mono1) (simp add: step)
  with Cons.prems have "(unat (shift_or v b) + 1) * 256 ^ length bs \<le> 2 ^ LENGTH('a)"
    by (simp add: algebra_simps)
  from Cons.IH [OF this] show ?case
    by (simp add: step algebra_simps)
qed simp

lemma unat_shiftr: "unat (drop_bit k (v::'a::len word)) = unat v div 2 ^ k"
proof -
  have "unat (drop_bit k v) = drop_bit k (unat v)"
    by (simp only: unsigned_drop_bit_eq take_bit_nat_eq_self [OF unsigned_less])
  then show ?thesis by (simp add: drop_bit_eq_div)
qed

lemma unat_shiftl:
  "unat (v::'a::len word) * 2 ^ k < 2 ^ LENGTH('a) \<Longrightarrow> unat (push_bit k v) = unat v * 2 ^ k"
proof -
  assume "unat v * 2 ^ k < 2 ^ LENGTH('a)"
  then have "take_bit LENGTH('a) (push_bit k (unat v)) = unat v * 2 ^ k"
    by (simp add: push_bit_eq_mult take_bit_nat_eq_self)
  then show ?thesis by (simp only: unsigned_push_bit_eq)
qed

lemma take_bit_word_id: "unat (v::'a::len word) < 2 ^ k \<Longrightarrow> take_bit k v = v"
  by (simp only: word_unat_eq_iff unsigned_take_bit_eq take_bit_nat_eq_self)

text \<open>One stored byte, \<open>(v >> k) & 0xFF\<close>, is a digit of the value in base 256.\<close>

lemma ucast_byte:
  "8 \<le> LENGTH('a::len) \<Longrightarrow>
   (ucast (drop_bit k (v::'a word) AND 0xFF) :: u8) = of_nat (unat v div 2 ^ k mod 256)"
proof -
  assume len: "8 \<le> LENGTH('a)"
  have mask: "(0xFF :: 'a word) = mask 8"
    by (simp add: mask_eq_exp_minus_1)
  have "drop_bit k v AND 0xFF = take_bit 8 (drop_bit k v)"
    unfolding mask by (simp add: take_bit_eq_mask)
  then have "unat (drop_bit k v AND 0xFF) = take_bit 8 (drop_bit k (unat v))"
    by (simp only: unsigned_take_bit_eq unsigned_drop_bit_eq
        take_bit_nat_eq_self [OF unsigned_less])
  then have "unat (drop_bit k v AND 0xFF) = unat v div 2 ^ k mod 256"
    by (simp add: take_bit_eq_mod drop_bit_eq_div)
  then show ?thesis
    by (metis of_nat_unat)
qed

lemma ucast_low_byte:
  "8 \<le> LENGTH('a::len) \<Longrightarrow> (ucast ((v::'a word) AND 0xFF) :: u8) = of_nat (unat v mod 256)"
  using ucast_byte [of 0 v] by simp

end
