(* ===== verification/Wire_Core.thy ===== *)
theory Wire_Core
  imports Prelude
begin

text \<open>
  The core layer of the C99 library (\<open>C99/src/core\<close>): status codes, checked integer
  arithmetic, big-endian loads and stores, the read cursor and the two-pass writer.

  \<open>size_t\<close> and \<open>uint64_t\<close> are 64-bit words, so that every subtraction and addition of
  the code wraps as the machine's does. A byte range behind a \<open>const uint8_t *\<close> is the
  list of its bytes and a pointer that may be NULL is an option. Structures the code
  receives by pointer and changes in place are passed and returned by value; the guards
  that refuse a NULL structure or out-parameter pointer have no counterpart, since a value
  is always there.
\<close>

subsection \<open>Status codes (status.h)\<close>

datatype wt_status =
    WT_OK
  | WT_ERR_INVALID_ARGUMENT
  | WT_ERR_OUT_OF_MEMORY
  | WT_ERR_TIMEOUT
  | WT_ERR_PROTOCOL
  | WT_ERR_TLS
  | WT_ERR_CLOSED
  | WT_ERR_AGAIN
  | WT_ERR_TRUNCATED
  | WT_ERR_LIMIT
  | WT_ERR_OVERFLOW
  | WT_ERR_STATE
  | WT_ERR_TRUST
  | WT_ERR_UNSUPPORTED
  | WT_ERR_AUTHENTICATION
  | WT_ERR_IO

text \<open>An operation that writes its out-parameter only on \<open>WT_OK\<close>: a status or a value.\<close>

type_synonym 'a wt_result = "wt_status + 'a"

subsection \<open>Checked arithmetic (checked.c)\<close>

definition wt_checked_add_u64 :: "u64 \<Rightarrow> u64 \<Rightarrow> u64 wt_result" where
  "wt_checked_add_u64 a b = (if b > (- 1) - a then Inl WT_ERR_OVERFLOW else Inr (a + b))"

definition wt_checked_add_size :: "u64 \<Rightarrow> u64 \<Rightarrow> u64 wt_result" where
  "wt_checked_add_size a b = (if b > (- 1) - a then Inl WT_ERR_OVERFLOW else Inr (a + b))"

definition wt_checked_sub_u64 :: "u64 \<Rightarrow> u64 \<Rightarrow> u64 wt_result" where
  "wt_checked_sub_u64 a b = (if b > a then Inl WT_ERR_OVERFLOW else Inr (a - b))"

definition wt_checked_sub_size :: "u64 \<Rightarrow> u64 \<Rightarrow> u64 wt_result" where
  "wt_checked_sub_size a b = (if b > a then Inl WT_ERR_OVERFLOW else Inr (a - b))"

definition wt_checked_mul_u64 :: "u64 \<Rightarrow> u64 \<Rightarrow> u64 wt_result" where
  "wt_checked_mul_u64 a b =
     (if a \<noteq> 0 \<and> b > (- 1) div a then Inl WT_ERR_OVERFLOW else Inr (a * b))"

definition wt_checked_mul_size :: "u64 \<Rightarrow> u64 \<Rightarrow> u64 wt_result" where
  "wt_checked_mul_size a b =
     (if a \<noteq> 0 \<and> b > (- 1) div a then Inl WT_ERR_OVERFLOW else Inr (a * b))"

definition wt_checked_narrow_u64_to_u32 :: "u64 \<Rightarrow> u32 wt_result" where
  "wt_checked_narrow_u64_to_u32 v = (if v > 0xFFFFFFFF then Inl WT_ERR_OVERFLOW else Inr (ucast v))"

definition wt_checked_narrow_u64_to_size :: "u64 \<Rightarrow> u64 wt_result" where
  "wt_checked_narrow_u64_to_size v = (if v > - 1 then Inl WT_ERR_OVERFLOW else Inr v)"

definition wt_checked_narrow_size_to_u32 :: "u64 \<Rightarrow> u32 wt_result" where
  "wt_checked_narrow_size_to_u32 v = (if v > 0xFFFFFFFF then Inl WT_ERR_OVERFLOW else Inr (ucast v))"

subsection \<open>Big-endian loads and stores (endian.c)\<close>

definition wt_load_be16 :: "u8 list \<Rightarrow> u16" where
  "wt_load_be16 p = push_bit 8 (ucast (p ! 0)) OR ucast (p ! 1)"

definition wt_load_be24 :: "u8 list \<Rightarrow> u32" where
  "wt_load_be24 p = push_bit 16 (ucast (p ! 0)) OR push_bit 8 (ucast (p ! 1)) OR ucast (p ! 2)"

definition wt_load_be32 :: "u8 list \<Rightarrow> u32" where
  "wt_load_be32 p =
     push_bit 24 (ucast (p ! 0)) OR push_bit 16 (ucast (p ! 1)) OR
     push_bit 8 (ucast (p ! 2)) OR ucast (p ! 3)"

definition wt_load_be64 :: "u8 list \<Rightarrow> u64" where
  "wt_load_be64 p =
     push_bit 56 (ucast (p ! 0)) OR push_bit 48 (ucast (p ! 1)) OR push_bit 40 (ucast (p ! 2)) OR
     push_bit 32 (ucast (p ! 3)) OR push_bit 24 (ucast (p ! 4)) OR push_bit 16 (ucast (p ! 5)) OR
     push_bit 8 (ucast (p ! 6)) OR ucast (p ! 7)"

definition wt_store_be16 :: "u16 \<Rightarrow> u8 list" where
  "wt_store_be16 v = [ucast (drop_bit 8 v AND 0xFF), ucast (v AND 0xFF)]"

definition wt_store_be24 :: "u32 \<Rightarrow> u8 list" where
  "wt_store_be24 v =
     [ucast (drop_bit 16 v AND 0xFF), ucast (drop_bit 8 v AND 0xFF), ucast (v AND 0xFF)]"

definition wt_store_be32 :: "u32 \<Rightarrow> u8 list" where
  "wt_store_be32 v =
     [ucast (drop_bit 24 v AND 0xFF), ucast (drop_bit 16 v AND 0xFF),
      ucast (drop_bit 8 v AND 0xFF), ucast (v AND 0xFF)]"

definition wt_store_be64 :: "u64 \<Rightarrow> u8 list" where
  "wt_store_be64 v =
     [ucast (drop_bit 56 v AND 0xFF), ucast (drop_bit 48 v AND 0xFF),
      ucast (drop_bit 40 v AND 0xFF), ucast (drop_bit 32 v AND 0xFF),
      ucast (drop_bit 24 v AND 0xFF), ucast (drop_bit 16 v AND 0xFF),
      ucast (drop_bit 8 v AND 0xFF), ucast (v AND 0xFF)]"

subsection \<open>The read cursor (cursor.c)\<close>

record wt_cursor =
  cur_data :: "u8 list option"
  cur_len :: u64
  cur_offset :: u64
  cur_failed :: bool

definition wt_cursor_init :: "u8 list option \<Rightarrow> u64 \<Rightarrow> wt_cursor" where
  "wt_cursor_init d n =
     \<lparr>cur_data = d, cur_len = (if d = None then 0 else n), cur_offset = 0, cur_failed = False\<rparr>"

definition wt_cursor_remaining :: "wt_cursor \<Rightarrow> u64" where
  "wt_cursor_remaining c = (if cur_failed c then 0 else cur_len c - cur_offset c)"

definition wt_cursor_at_end :: "wt_cursor \<Rightarrow> bool" where
  "wt_cursor_at_end c = (if cur_failed c then False else cur_offset c = cur_len c)"

definition wt_cursor_failed :: "wt_cursor \<Rightarrow> bool" where
  "wt_cursor_failed c = cur_failed c"

definition wt_cursor_take :: "wt_cursor \<Rightarrow> u64 \<Rightarrow> u8 list option \<times> wt_cursor" where
  "wt_cursor_take c n =
     (if cur_failed c then (None, c)
      else if n > cur_len c - cur_offset c then (None, c\<lparr>cur_failed := True\<rparr>)
      else (map_option (\<lambda>d. take (unat n) (drop (unat (cur_offset c)) d)) (cur_data c),
            c\<lparr>cur_offset := cur_offset c + n\<rparr>))"

definition wt_cursor_u8 :: "wt_cursor \<Rightarrow> u8 \<times> wt_cursor" where
  "wt_cursor_u8 c =
     (case wt_cursor_take c 1 of (p, c') \<Rightarrow> (case p of None \<Rightarrow> 0 | Some bs \<Rightarrow> bs ! 0, c'))"

definition wt_cursor_u16 :: "wt_cursor \<Rightarrow> u16 \<times> wt_cursor" where
  "wt_cursor_u16 c =
     (case wt_cursor_take c 2 of (p, c') \<Rightarrow> (case p of None \<Rightarrow> 0 | Some bs \<Rightarrow> wt_load_be16 bs, c'))"

definition wt_cursor_u24 :: "wt_cursor \<Rightarrow> u32 \<times> wt_cursor" where
  "wt_cursor_u24 c =
     (case wt_cursor_take c 3 of (p, c') \<Rightarrow> (case p of None \<Rightarrow> 0 | Some bs \<Rightarrow> wt_load_be24 bs, c'))"

definition wt_cursor_u32 :: "wt_cursor \<Rightarrow> u32 \<times> wt_cursor" where
  "wt_cursor_u32 c =
     (case wt_cursor_take c 4 of (p, c') \<Rightarrow> (case p of None \<Rightarrow> 0 | Some bs \<Rightarrow> wt_load_be32 bs, c'))"

definition wt_cursor_u64 :: "wt_cursor \<Rightarrow> u64 \<times> wt_cursor" where
  "wt_cursor_u64 c =
     (case wt_cursor_take c 8 of (p, c') \<Rightarrow> (case p of None \<Rightarrow> 0 | Some bs \<Rightarrow> wt_load_be64 bs, c'))"

definition wt_cursor_bytes :: "wt_cursor \<Rightarrow> u64 \<Rightarrow> u8 list option \<times> wt_cursor" where
  "wt_cursor_bytes c n = wt_cursor_take c n"

definition wt_cursor_skip :: "wt_cursor \<Rightarrow> u64 \<Rightarrow> wt_status \<times> wt_cursor" where
  "wt_cursor_skip c n =
     (case wt_cursor_take c n of
        (None, c') \<Rightarrow> (WT_ERR_TRUNCATED, c')
      | (Some _, c') \<Rightarrow> (WT_OK, c'))"

text \<open>\<open>wt_cursor_rest\<close> returns the pointer to the unread bytes and stores their number.\<close>

definition wt_cursor_rest :: "wt_cursor \<Rightarrow> u8 list option \<times> u64" where
  "wt_cursor_rest c =
     (if cur_failed c then (None, 0)
      else (map_option (\<lambda>d. drop (unat (cur_offset c)) d) (cur_data c), cur_len c - cur_offset c))"

subsection \<open>The two-pass writer (writer.c)\<close>

text \<open>
  A writer with \<open>wr_copy\<close> set owns the destination bytes \<open>wr_data\<close>; a measuring writer
  has no destination (a NULL \<open>data\<close>, here the empty list).
\<close>

record wt_writer =
  wr_data :: "u8 list"
  wr_cap :: u64
  wr_offset :: u64
  wr_copy :: bool
  wr_overflow :: bool

definition WT_WRITER_MEASURE_CAPACITY :: u64 where
  "WT_WRITER_MEASURE_CAPACITY = 1048576"

definition wt_writer_init :: "u8 list option \<Rightarrow> u64 \<Rightarrow> wt_writer" where
  "wt_writer_init d cap =
     \<lparr>wr_data = (case d of None \<Rightarrow> [] | Some bs \<Rightarrow> bs),
      wr_cap = (if d = None then 0 else cap),
      wr_offset = 0,
      wr_copy = (d \<noteq> None),
      wr_overflow = (d = None \<and> cap \<noteq> 0)\<rparr>"

definition wt_writer_measure :: wt_writer where
  "wt_writer_measure =
     \<lparr>wr_data = [], wr_cap = WT_WRITER_MEASURE_CAPACITY, wr_offset = 0, wr_copy = False,
      wr_overflow = False\<rparr>"

definition wt_writer_offset :: "wt_writer \<Rightarrow> u64" where
  "wt_writer_offset w = wr_offset w"

definition wt_writer_ok :: "wt_writer \<Rightarrow> bool" where
  "wt_writer_ok w \<longleftrightarrow> \<not> wr_overflow w"

definition wt_writer_is_measuring :: "wt_writer \<Rightarrow> bool" where
  "wt_writer_is_measuring w \<longleftrightarrow> \<not> wr_copy w"

definition wt_writer_put :: "u8 list \<Rightarrow> wt_writer \<Rightarrow> wt_writer" where
  "wt_writer_put bs w =
     (if wr_overflow w then w
      else if length bs > unat (wr_cap w - wr_offset w) then w\<lparr>wr_overflow := True\<rparr>
      else w\<lparr>wr_data := (if wr_copy w \<and> length bs \<noteq> 0
                         then overwrite (unat (wr_offset w)) bs (wr_data w) else wr_data w),
             wr_offset := wr_offset w + of_nat (length bs)\<rparr>)"

definition wt_writer_u8 :: "u8 \<Rightarrow> wt_writer \<Rightarrow> wt_writer" where
  "wt_writer_u8 v = wt_writer_put [v]"

definition wt_writer_u16 :: "u16 \<Rightarrow> wt_writer \<Rightarrow> wt_writer" where
  "wt_writer_u16 v = wt_writer_put (wt_store_be16 v)"

definition wt_writer_u24 :: "u32 \<Rightarrow> wt_writer \<Rightarrow> wt_writer" where
  "wt_writer_u24 v = wt_writer_put (wt_store_be24 v)"

definition wt_writer_u32 :: "u32 \<Rightarrow> wt_writer \<Rightarrow> wt_writer" where
  "wt_writer_u32 v = wt_writer_put (wt_store_be32 v)"

definition wt_writer_u64 :: "u64 \<Rightarrow> wt_writer \<Rightarrow> wt_writer" where
  "wt_writer_u64 v = wt_writer_put (wt_store_be64 v)"

definition wt_writer_bytes :: "u8 list \<Rightarrow> wt_writer \<Rightarrow> wt_writer" where
  "wt_writer_bytes bs = wt_writer_put bs"

text \<open>\<open>wt_writer_reserve\<close> returns the pointer into the destination, here its offset.\<close>

definition wt_writer_reserve :: "u64 \<Rightarrow> wt_writer \<Rightarrow> u64 option \<times> wt_writer" where
  "wt_writer_reserve n w =
     (if wr_overflow w then (None, w)
      else if n > wr_cap w - wr_offset w then (None, w\<lparr>wr_overflow := True\<rparr>)
      else if \<not> wr_copy w then (None, w\<lparr>wr_offset := wr_offset w + n\<rparr>)
      else (Some (wr_offset w), w\<lparr>wr_offset := wr_offset w + n\<rparr>))"

definition wt_writer_patch :: "u64 \<Rightarrow> u8 list \<Rightarrow> wt_writer \<Rightarrow> wt_status \<times> wt_writer" where
  "wt_writer_patch off bs w =
     (if wr_overflow w then (WT_ERR_LIMIT, w)
      else if \<not> wr_copy w then (WT_ERR_LIMIT, w)
      else if off > wr_offset w \<or> length bs > unat (wr_offset w - off)
      then (WT_ERR_INVALID_ARGUMENT, w)
      else (WT_OK, w\<lparr>wr_data := overwrite (unat off) bs (wr_data w)\<rparr>))"

subsection \<open>Invariants\<close>

text \<open>
  The safety argument of \<open>cursor.c\<close>: the offset never passes the length, and the length
  never passes the bytes behind the pointer.
\<close>

definition cursor_inv :: "wt_cursor \<Rightarrow> bool" where
  "cursor_inv c \<longleftrightarrow>
     cur_offset c \<le> cur_len c \<and>
     (case cur_data c of None \<Rightarrow> cur_len c = 0 | Some d \<Rightarrow> unat (cur_len c) \<le> length d)"

text \<open>The bytes a cursor has not read yet.\<close>

definition cursor_view :: "wt_cursor \<Rightarrow> u8 list" where
  "cursor_view c =
     (case cur_data c of None \<Rightarrow> []
      | Some d \<Rightarrow> drop (unat (cur_offset c)) (take (unat (cur_len c)) d))"

definition writer_inv :: "wt_writer \<Rightarrow> bool" where
  "writer_inv w \<longleftrightarrow>
     wr_offset w \<le> wr_cap w \<and> (wr_copy w \<longrightarrow> unat (wr_cap w) \<le> length (wr_data w))"

text \<open>The bytes a copying writer has produced so far.\<close>

definition writer_out :: "wt_writer \<Rightarrow> u8 list" where
  "writer_out w = take (unat (wr_offset w)) (wr_data w)"

lemmas [wire_defs] =
  wt_writer_u8_def wt_writer_u16_def wt_writer_u24_def wt_writer_u32_def wt_writer_u64_def
  wt_writer_bytes_def wt_cursor_bytes_def


subsection \<open>Big-endian lemmas\<close>

lemma length_wt_store [simp]:
  "length (wt_store_be16 a) = 2" "length (wt_store_be24 b) = 3"
  "length (wt_store_be32 b) = 4" "length (wt_store_be64 c) = 8"
  by (simp_all add: wt_store_be16_def wt_store_be24_def wt_store_be32_def wt_store_be64_def)

lemma list_cases_length:
  "length p = 2 \<Longrightarrow> p = [p ! 0, p ! 1]"
  "length p = 3 \<Longrightarrow> p = [p ! 0, p ! 1, p ! 2]"
  "length p = 4 \<Longrightarrow> p = [p ! 0, p ! 1, p ! 2, p ! 3]"
  "length p = 8 \<Longrightarrow> p = [p ! 0, p ! 1, p ! 2, p ! 3, p ! 4, p ! 5, p ! 6, p ! 7]"
  by (simp_all add: list_eq_iff_nth_eq less_Suc_eq numeral_eq_Suc)

lemma wt_load_foldl:
  "length p = 2 \<Longrightarrow> wt_load_be16 p = foldl shift_or 0 p"
  "length p = 3 \<Longrightarrow> wt_load_be24 p = foldl shift_or 0 p"
  "length p = 4 \<Longrightarrow> wt_load_be32 p = foldl shift_or 0 p"
  "length p = 8 \<Longrightarrow> wt_load_be64 p = foldl shift_or 0 p"
  by (subst (2) list_cases_length, assumption,
      simp add: wt_load_be16_def wt_load_be24_def wt_load_be32_def wt_load_be64_def
        or.assoc)+

lemma unat_wt_load:
  "length p = 2 \<Longrightarrow> unat (wt_load_be16 p) = be_nat p"
  "length p = 3 \<Longrightarrow> unat (wt_load_be24 p) = be_nat p"
  "length p = 4 \<Longrightarrow> unat (wt_load_be32 p) = be_nat p"
  "length p = 8 \<Longrightarrow> unat (wt_load_be64 p) = be_nat p"
  by (simp_all add: wt_load_foldl unat_foldl_shift_or)

lemma wt_store_be_bytes:
  "wt_store_be16 a = be_bytes 2 (unat a)"
  "wt_store_be24 b = be_bytes 3 (unat b)"
  "wt_store_be32 b = be_bytes 4 (unat b)"
  "wt_store_be64 c = be_bytes 8 (unat c)"
  by (simp_all add: wt_store_be16_def wt_store_be24_def wt_store_be32_def wt_store_be64_def
      ucast_low_byte unat_shiftr be_bytes_digits upt_rec)

lemma narrow_u64_to_size [simp]: "wt_checked_narrow_u64_to_size v = Inr v"
proof -
  have "\<not> (- 1 < v)" by (simp add: not_less)
  then show ?thesis by (simp add: wt_checked_narrow_u64_to_size_def)
qed

subsection \<open>Cursor lemmas\<close>

lemma cursor_inv_init:
  "(case d of None \<Rightarrow> True | Some bs \<Rightarrow> unat n \<le> length bs) \<Longrightarrow> cursor_inv (wt_cursor_init d n)"
  by (simp add: cursor_inv_def wt_cursor_init_def split: option.splits)

lemma cursor_view_init [simp]:
  "cursor_view (wt_cursor_init (Some bs) n) = take (unat n) bs"
  by (simp add: cursor_view_def wt_cursor_init_def)

lemma length_cursor_view:
  "cursor_inv c \<Longrightarrow> length (cursor_view c) = unat (cur_len c) - unat (cur_offset c)"
  by (auto simp: cursor_inv_def cursor_view_def split: option.splits)

lemma cursor_remaining_view:
  "cursor_inv c \<Longrightarrow> \<not> cur_failed c \<Longrightarrow> unat (wt_cursor_remaining c) = length (cursor_view c)"
  by (simp add: wt_cursor_remaining_def length_cursor_view)
    (simp add: cursor_inv_def unat_sub_le)

lemma cursor_fits_iff:
  "cursor_inv c \<Longrightarrow> n > cur_len c - cur_offset c \<longleftrightarrow> length (cursor_view c) < unat n"
  by (simp add: word_less_nat_alt length_cursor_view cursor_inv_def unat_sub_le)

lemma unat_cursor_advance:
  "cursor_inv c \<Longrightarrow> unat n \<le> length (cursor_view c) \<Longrightarrow>
   unat (cur_offset c + n) = unat (cur_offset c) + unat n"
  using unat_u64_less [of "cur_len c"]
  by (intro unat_add_no_wrap)
    (auto simp: length_cursor_view cursor_inv_def word_le_nat_alt)

lemma cursor_advance_inv:
  "cursor_inv c \<Longrightarrow> unat n \<le> length (cursor_view c) \<Longrightarrow>
   cursor_inv (c\<lparr>cur_offset := cur_offset c + n\<rparr>)"
  using unat_cursor_advance [of c n]
  by (auto simp: cursor_inv_def length_cursor_view word_le_nat_alt split: option.splits)

lemma cursor_advance_view:
  "cursor_inv c \<Longrightarrow> unat n \<le> length (cursor_view c) \<Longrightarrow>
   cursor_view (c\<lparr>cur_offset := cur_offset c + n\<rparr>) = drop (unat n) (cursor_view c)"
  using unat_cursor_advance [of c n]
  by (auto simp: cursor_view_def add.commute split: option.splits)

lemma cursor_take_ok:
  assumes "cursor_inv c" "\<not> cur_failed c" "cur_data c \<noteq> None" "unat n \<le> length (cursor_view c)"
  shows "wt_cursor_take c n =
    (Some (take (unat n) (cursor_view c)), c\<lparr>cur_offset := cur_offset c + n\<rparr>)"
proof -
  have "unat (cur_offset c) + unat n \<le> unat (cur_len c)"
    using assms by (auto simp: length_cursor_view cursor_inv_def word_le_nat_alt)
  then show ?thesis
    using assms by (auto simp: wt_cursor_take_def cursor_fits_iff cursor_view_def
        take_drop min_def split: option.splits)
qed

lemma cursor_take_fail:
  "cursor_inv c \<Longrightarrow> \<not> cur_failed c \<Longrightarrow> length (cursor_view c) < unat n \<Longrightarrow>
   wt_cursor_take c n = (None, c\<lparr>cur_failed := True\<rparr>)"
  by (simp add: wt_cursor_take_def cursor_fits_iff)

lemma cursor_take_failed [simp]: "cur_failed c \<Longrightarrow> wt_cursor_take c n = (None, c)"
  by (simp add: wt_cursor_take_def)

lemma cursor_view_failed_upd [simp]:
  "cursor_view (c\<lparr>cur_failed := b\<rparr>) = cursor_view c"
  "cursor_inv (c\<lparr>cur_failed := b\<rparr>) = cursor_inv c"
  by (simp_all add: cursor_view_def cursor_inv_def split: option.splits)

lemma cursor_null_view: "cursor_inv c \<Longrightarrow> cur_data c = None \<Longrightarrow> cursor_view c = [] \<and> cur_offset c = 0"
  by (auto simp: cursor_view_def cursor_inv_def)

subsection \<open>Writer lemmas\<close>

lemma writer_inv_init:
  "(case d of None \<Rightarrow> True | Some bs \<Rightarrow> unat cap \<le> length bs) \<Longrightarrow> writer_inv (wt_writer_init d cap)"
  by (simp add: writer_inv_def wt_writer_init_def split: option.splits)

lemma writer_inv_measure: "writer_inv wt_writer_measure"
  by (simp add: writer_inv_def wt_writer_measure_def)

lemma writer_room:
  "writer_inv w \<Longrightarrow> unat (wr_cap w - wr_offset w) = unat (wr_cap w) - unat (wr_offset w)"
  by (simp add: writer_inv_def unat_sub_le)

lemma writer_put_overflow [simp]: "wr_overflow w \<Longrightarrow> wt_writer_put bs w = w"
  by (simp add: wt_writer_put_def)

lemma writer_put_full:
  "writer_inv w \<Longrightarrow> \<not> wr_overflow w \<Longrightarrow> unat (wr_cap w) - unat (wr_offset w) < length bs \<Longrightarrow>
   wt_writer_put bs w = w\<lparr>wr_overflow := True\<rparr>"
  by (simp add: wt_writer_put_def writer_room)

lemma writer_offset_advance:
  "writer_inv w \<Longrightarrow> n \<le> unat (wr_cap w) - unat (wr_offset w) \<Longrightarrow>
   unat (wr_offset w + of_nat n) = unat (wr_offset w) + n"
  using unat_u64_less [of "wr_cap w"]
  by (intro unat_add_of_nat) (auto simp: writer_inv_def word_le_nat_alt)

lemma writer_put_fits:
  assumes "writer_inv w" "\<not> wr_overflow w" "length bs \<le> unat (wr_cap w) - unat (wr_offset w)"
  shows "wt_writer_put bs w =
    w\<lparr>wr_data := (if wr_copy w then overwrite (unat (wr_offset w)) bs (wr_data w) else wr_data w),
      wr_offset := wr_offset w + of_nat (length bs)\<rparr>"
  using assms by (simp add: wt_writer_put_def writer_room)

lemma writer_inv_put: "writer_inv w \<Longrightarrow> writer_inv (wt_writer_put bs w)"
proof (cases "wr_overflow w")
  case False
  assume inv: "writer_inv w"
  show ?thesis
  proof (cases "length bs \<le> unat (wr_cap w) - unat (wr_offset w)")
    case True
    with inv have fit: "unat (wr_offset w) + length bs \<le> unat (wr_cap w)"
      by (auto simp: writer_inv_def word_le_nat_alt)
    with inv have "wr_copy w \<Longrightarrow> unat (wr_offset w) + length bs \<le> length (wr_data w)"
      by (simp add: writer_inv_def)
    with True inv False writer_offset_advance [OF inv True] fit show ?thesis
      by (auto simp: writer_put_fits writer_inv_def word_le_nat_alt)
  qed (use inv False in \<open>simp add: writer_put_full writer_inv_def\<close>)
qed simp

lemma writer_put_frame [simp]:
  "wr_cap (wt_writer_put bs w) = wr_cap w" "wr_copy (wt_writer_put bs w) = wr_copy w"
  by (simp_all add: wt_writer_put_def)

lemma writer_put_length_data:
  assumes "writer_inv w"
  shows "length (wr_data (wt_writer_put bs w)) = length (wr_data w)"
proof -
  have "unat (wr_offset w) + length bs \<le> length (wr_data w)"
    if "wr_copy w" "length bs \<le> unat (wr_cap w - wr_offset w)"
    using that assms by (auto simp: writer_room writer_inv_def word_le_nat_alt)
  then show ?thesis
    by (simp add: wt_writer_put_def)
qed

lemma writer_put_append:
  assumes inv: "writer_inv w" and fits: "length (as @ bs) \<le> unat (wr_cap w) - unat (wr_offset w)"
  shows "wt_writer_put bs (wt_writer_put as w) = wt_writer_put (as @ bs) w"
proof (cases "wr_overflow w")
  case False
  from fits have a: "length as \<le> unat (wr_cap w) - unat (wr_offset w)" by simp
  note inv' = writer_inv_put [OF inv, of as]
  have data: "wr_copy w \<Longrightarrow> unat (wr_offset w) + length as + length bs \<le> length (wr_data w)"
    using inv fits by (auto simp: writer_inv_def word_le_nat_alt)
  show ?thesis
    using False inv inv' fits a data
    by (simp add: writer_put_fits writer_offset_advance overwrite_append add.assoc)
qed simp

end
