(* ===== verification/Codec.thy ===== *)
theory Codec
  imports Wire_Core
begin

text \<open>
  The interface between the cursor and writer of the core layer and the codecs built on
  them. A decoder is a \<open>wt_reader\<close>: it takes a cursor and returns a status or a value
  together with the cursor as it left it (an \<open>xreader\<close> carries more than a status on failure). \<open>rbind\<close> is the C sequence
  "read, return the status if it is not WT_OK, go on". Two relations carry the codec proofs:
  \<^item> \<open>reads m bs x\<close>: wherever the unread bytes begin with \<open>bs\<close>, the decoder \<open>m\<close> returns
    \<open>x\<close> and consumes exactly \<open>bs\<close>;
  \<^item> \<open>writes e bs\<close>: the encoder \<open>e\<close> appends exactly \<open>bs\<close>, or leaves the writer overflowed.
  Both compose (\<open>reads_bind\<close>, \<open>writes_comp\<close>). The locales \<open>wire_codec\<close> and
  \<open>wire_encoder\<close> state what a wire format promises to its clients; each codec theory
  interprets them on its own functions.
\<close>

text \<open>Introduction rules that run a decoder over the bytes of its own format, field by field.\<close>

named_theorems reads_intros

type_synonym ('e, 'a) xreader = "wt_cursor \<Rightarrow> ('e + 'a) \<times> wt_cursor"
type_synonym 'a wt_reader = "(wt_status, 'a) xreader"

definition rreturn :: "'a \<Rightarrow> ('e, 'a) xreader" where
  "rreturn x = (\<lambda>c. (Inr x, c))"

definition rfail :: "'e \<Rightarrow> ('e, 'a) xreader" where
  "rfail e = (\<lambda>c. (Inl e, c))"

definition rbind :: "('e, 'a) xreader \<Rightarrow> ('a \<Rightarrow> ('e, 'b) xreader) \<Rightarrow> ('e, 'b) xreader" where
  "rbind m f = (\<lambda>c. case m c of (Inl e, c') \<Rightarrow> (Inl e, c') | (Inr x, c') \<Rightarrow> f x c')"

text \<open>A view of the next \<open>n\<close> bytes where a NULL view is answered with \<open>WT_ERR_TRUNCATED\<close>.\<close>

definition rbytes :: "u64 \<Rightarrow> u8 list wt_reader" where
  "rbytes n = (\<lambda>c. case wt_cursor_bytes c n of
      (None, c') \<Rightarrow> (Inl WT_ERR_TRUNCATED, c')
    | (Some bs, c') \<Rightarrow> (Inr bs, c'))"

definition cursor_ready :: "wt_cursor \<Rightarrow> bool" where
  "cursor_ready c \<longleftrightarrow> cursor_inv c \<and> \<not> cur_failed c \<and> cur_data c \<noteq> None"

definition cursor_advance :: "wt_cursor \<Rightarrow> nat \<Rightarrow> wt_cursor" where
  "cursor_advance c n = c\<lparr>cur_offset := cur_offset c + of_nat n\<rparr>"

text \<open>A cursor at the start of a byte string.\<close>

definition cursor_of :: "u8 list \<Rightarrow> wt_cursor" where
  "cursor_of bs = wt_cursor_init (Some bs) (of_nat (length bs))"

definition reads :: "('e, 'a) xreader \<Rightarrow> u8 list \<Rightarrow> 'a \<Rightarrow> bool" where
  "reads m bs x \<longleftrightarrow>
     (\<forall>c rest. cursor_ready c \<and> cursor_view c = bs @ rest \<longrightarrow>
        m c = (Inr x, cursor_advance c (length bs)))"

text \<open>What every decoder may do to its cursor: move forward inside the same bytes.\<close>

definition cursor_step :: "wt_cursor \<Rightarrow> wt_cursor \<Rightarrow> bool" where
  "cursor_step c c' \<longleftrightarrow>
     cursor_inv c' \<and> cur_data c' = cur_data c \<and> cur_len c' = cur_len c \<and>
     cur_offset c \<le> cur_offset c' \<and> (cur_failed c \<longrightarrow> cur_failed c')"

definition reader_safe :: "('e, 'a) xreader \<Rightarrow> bool" where
  "reader_safe m \<longleftrightarrow> (\<forall>c. cursor_inv c \<longrightarrow> cursor_step c (snd (m c)))"

text \<open>No reader ever gives bytes back: what is left never grows, which is what its loops end by.\<close>

definition reader_shrinks :: "('e, 'a) xreader \<Rightarrow> bool" where
  "reader_shrinks m \<longleftrightarrow> (\<forall>c. wt_cursor_remaining (snd (m c)) \<le> wt_cursor_remaining c)"

text \<open>What a decoder guarantees of every value it returns.\<close>

definition yields :: "('e, 'a) xreader \<Rightarrow> ('a \<Rightarrow> bool) \<Rightarrow> bool" where
  "yields m P \<longleftrightarrow> (\<forall>c x c'. cursor_inv c \<and> m c = (Inr x, c') \<longrightarrow> P x)"

definition fails_with :: "('e, 'a) xreader \<Rightarrow> ('e \<Rightarrow> bool) \<Rightarrow> bool" where
  "fails_with m P \<longleftrightarrow> (\<forall>c e c'. m c = (Inl e, c') \<longrightarrow> P e)"

definition writes :: "(wt_writer \<Rightarrow> wt_writer) \<Rightarrow> u8 list \<Rightarrow> bool" where
  "writes e bs \<longleftrightarrow>
     (\<forall>w. writer_inv w \<longrightarrow>
        (if wr_overflow w then e w = w
         else if length bs \<le> unat (wr_cap w) - unat (wr_offset w) then e w = wt_writer_put bs w
         else wr_overflow (e w) \<and> writer_inv (e w) \<and> wr_cap (e w) = wr_cap w \<and>
              wr_copy (e w) = wr_copy w \<and> length (wr_data (e w)) = length (wr_data w) \<and>
              drop (unat (wr_cap w)) (wr_data (e w)) = drop (unat (wr_cap w)) (wr_data w)))"

text \<open>A sequence of writes, as consecutive statements, and the status an encoder returns after it.\<close>

definition emit :: "(wt_writer \<Rightarrow> wt_writer) list \<Rightarrow> wt_writer \<Rightarrow> wt_writer" where
  "emit fs w = fold (\<lambda>f w. f w) fs w"

definition writer_status :: "wt_writer \<Rightarrow> wt_status" where
  "writer_status w = (if wt_writer_ok w then WT_OK else WT_ERR_LIMIT)"

text \<open>\<open>n\<close> structures read one after the other.\<close>

fun decode_n :: "('e, 'a) xreader \<Rightarrow> nat \<Rightarrow> ('e, 'a list) xreader" where
  "decode_n m 0 = rreturn []"
| "decode_n m (Suc n) = rbind m (\<lambda>x. rbind (decode_n m n) (\<lambda>xs. rreturn (x # xs)))"

subsection \<open>Cursor steps\<close>

lemma cursor_step_refl [simp]: "cursor_inv c \<Longrightarrow> cursor_step c c"
  by (simp add: cursor_step_def)

lemma cursor_step_trans: "cursor_step a b \<Longrightarrow> cursor_step b c \<Longrightarrow> cursor_step a c"
  by (auto simp: cursor_step_def)

lemma cursor_step_inv: "cursor_step c c' \<Longrightarrow> cursor_inv c'"
  by (simp add: cursor_step_def)

lemma cursor_step_view:
  assumes "cursor_inv c" "cursor_step c c'"
  shows "cursor_view c = take (unat (cur_offset c') - unat (cur_offset c)) (cursor_view c) @ cursor_view c'"
proof -
  have "cursor_view c' = drop (unat (cur_offset c') - unat (cur_offset c)) (cursor_view c)"
    using assms by (auto simp: cursor_step_def cursor_view_def word_le_nat_alt split: option.splits)
  then show ?thesis by simp
qed

lemma cursor_step_length:
  "cursor_inv c \<Longrightarrow> cursor_step c c' \<Longrightarrow> length (cursor_view c') \<le> length (cursor_view c)"
  by (auto simp: cursor_step_def length_cursor_view word_le_nat_alt)

lemma cursor_step_take: "cursor_inv c \<Longrightarrow> cursor_step c (snd (wt_cursor_take c n))"
proof (cases "cur_failed c \<or> n > cur_len c - cur_offset c")
  case False
  assume inv: "cursor_inv c"
  with False have "unat n \<le> length (cursor_view c)"
    using cursor_fits_iff [OF inv, of n] by auto
  with inv False show ?thesis
    using unat_cursor_advance [of c n] cursor_advance_inv [of c n]
    by (simp add: cursor_step_def wt_cursor_take_def word_le_nat_alt)
qed (auto simp: cursor_step_def wt_cursor_take_def)

lemma cursor_take_Some:
  assumes "cursor_inv c" "wt_cursor_take c n = (Some bs, c')"
  shows "length bs = unat n" "cursor_view c = bs @ cursor_view c'"
    "\<not> cur_failed c" "\<not> cur_failed c'" "cur_data c \<noteq> None"
proof -
  from assms have ok: "\<not> cur_failed c" "cur_data c \<noteq> None" "unat n \<le> length (cursor_view c)"
    using cursor_fits_iff [OF assms(1), of n]
    by (auto simp: wt_cursor_take_def not_less split: if_splits)
  with assms have "bs = take (unat n) (cursor_view c)" "c' = c\<lparr>cur_offset := cur_offset c + n\<rparr>"
    using cursor_take_ok [OF assms(1), of n] by auto
  with ok show "length bs = unat n" "cursor_view c = bs @ cursor_view c'"
    "\<not> cur_failed c" "\<not> cur_failed c'" "cur_data c \<noteq> None"
    using cursor_advance_view [OF assms(1), of n] by auto
qed

lemma cursor_take_None:
  assumes "cursor_inv c" "wt_cursor_take c n = (None, c')"
  shows "cursor_view c' = cursor_view c" "cur_data c \<noteq> None \<Longrightarrow> cur_failed c'"
proof -
  have "cur_failed c \<or> c' = c\<lparr>cur_failed := True\<rparr> \<or> cur_data c = None"
    using assms by (auto simp: wt_cursor_take_def split: if_splits)
  moreover have "cur_failed c \<Longrightarrow> c' = c" using assms by simp
  moreover have "cur_data c = None \<Longrightarrow> cursor_view c' = cursor_view c"
    using assms by (auto simp: wt_cursor_take_def cursor_view_def split: if_splits)
  ultimately show "cursor_view c' = cursor_view c" "cur_data c \<noteq> None \<Longrightarrow> cur_failed c'"
    by auto
qed

lemma cursor_ready_of [simp]: "length bs < 2 ^ 64 \<Longrightarrow> cursor_ready (cursor_of bs)"
  by (simp add: cursor_ready_def cursor_of_def cursor_inv_def wt_cursor_init_def unat_of_nat_u64)

lemma cursor_view_of [simp]: "length bs < 2 ^ 64 \<Longrightarrow> cursor_view (cursor_of bs) = bs"
  by (simp add: cursor_of_def unat_of_nat_u64)

lemma cursor_advance_0 [simp]: "cursor_advance c 0 = c"
  by (simp add: cursor_advance_def)

lemma cursor_advance_add: "cursor_advance (cursor_advance c m) n = cursor_advance c (m + n)"
  by (simp add: cursor_advance_def add.assoc)

lemma cursor_ready_advance:
  assumes "cursor_ready c" "n \<le> length (cursor_view c)"
  shows "cursor_ready (cursor_advance c n)" "cursor_view (cursor_advance c n) = drop n (cursor_view c)"
proof -
  have "n < 2 ^ 64"
    using assms unat_u64_less [of "cur_len c"]
    by (auto simp: cursor_ready_def length_cursor_view)
  with assms cursor_advance_inv [of c "of_nat n"] cursor_advance_view [of c "of_nat n"]
  show "cursor_ready (cursor_advance c n)" "cursor_view (cursor_advance c n) = drop n (cursor_view c)"
    by (auto simp: cursor_ready_def cursor_advance_def unat_of_nat_u64)
qed

lemma cursor_view_less: "cursor_inv c \<Longrightarrow> length (cursor_view c) < 2 ^ 64"
  using unat_u64_less [of "cur_len c"] by (simp add: length_cursor_view)

lemma cursor_take_advance:
  assumes "cursor_ready c" "n \<le> length (cursor_view c)"
  shows "wt_cursor_take c (of_nat n) = (Some (take n (cursor_view c)), cursor_advance c n)"
proof -
  have "unat (of_nat n :: u64) = n"
    using assms cursor_view_less [of c] by (intro unat_of_nat_u64) (simp add: cursor_ready_def)
  with assms cursor_take_ok [of c "of_nat n"] show ?thesis
    by (simp add: cursor_ready_def cursor_advance_def)
qed

lemma cursor_take_short:
  assumes "cursor_ready c" "length (cursor_view c) < n" "n < 2 ^ 64"
  shows "wt_cursor_take c (of_nat n) = (None, c\<lparr>cur_failed := True\<rparr>)"
  using assms cursor_take_fail [of c "of_nat n"] unat_of_nat_u64 [of n]
  by (simp add: cursor_ready_def)

subsection \<open>The reading calculus\<close>

lemma readsD: "reads m bs x \<Longrightarrow> cursor_ready c \<Longrightarrow> cursor_view c = bs @ rest \<Longrightarrow>
    m c = (Inr x, cursor_advance c (length bs))"
  by (simp add: reads_def)

lemma reads_of: "reads m bs x \<Longrightarrow> length (bs @ rest) < 2 ^ 64 \<Longrightarrow>
    m (cursor_of (bs @ rest)) = (Inr x, cursor_advance (cursor_of (bs @ rest)) (length bs))"
  by (rule readsD [of m bs x _ rest]) auto

lemma reads_return [simp]: "reads (rreturn x) [] x"
  by (simp add: reads_def rreturn_def)

lemma rbind_return [simp]: "rbind (rreturn x) f = f x"
  by (simp add: rbind_def rreturn_def)

lemma reads_bind:
  assumes "reads m as x" "reads (f x) bs y"
  shows "reads (rbind m f) (as @ bs) y"
  unfolding reads_def
proof (intro allI impI)
  fix c rest assume c: "cursor_ready c \<and> cursor_view c = (as @ bs) @ rest"
  then have "m c = (Inr x, cursor_advance c (length as))"
    using readsD [OF assms(1), of c "bs @ rest"] by simp
  moreover have "f x (cursor_advance c (length as)) =
      (Inr y, cursor_advance (cursor_advance c (length as)) (length bs))"
    using c cursor_ready_advance [of c "length as"] by (intro readsD [OF assms(2), of _ rest]) auto
  ultimately show "rbind m f c = (Inr y, cursor_advance c (length (as @ bs)))"
    by (simp add: rbind_def cursor_advance_add)
qed

lemma reads_bindI: "reads m as x \<Longrightarrow> reads (f x) bs y \<Longrightarrow> cs = as @ bs \<Longrightarrow> reads (rbind m f) cs y"
  by (simp add: reads_bind)

lemma reads_returnI [reads_intros]: "x = y \<Longrightarrow> reads (rreturn x) [] y"
  by simp

lemma reads_bind_end: "reads m bs x \<Longrightarrow> reads (f x) [] y \<Longrightarrow> reads (rbind m f) bs y"
  by (rule reads_bindI [of m bs x f "[]"]) simp_all

lemma reads_bytes: "length bs < 2 ^ 64 \<Longrightarrow> reads (rbytes (of_nat (length bs))) bs bs"
  by (simp add: reads_def rbytes_def wt_cursor_bytes_def cursor_take_advance)

lemma reads_unique:
  assumes "reads m as x" "reads m bs y" "as @ r = bs @ s" "length (as @ r) < 2 ^ 64"
  shows "x = y \<and> as = bs \<and> r = s"
proof -
  from assms(1,4) have 1: "m (cursor_of (as @ r)) = (Inr x, cursor_advance (cursor_of (as @ r)) (length as))"
    by (rule reads_of)
  from assms(2-4) have 2: "m (cursor_of (as @ r)) = (Inr y, cursor_advance (cursor_of (as @ r)) (length bs))"
    using reads_of [of m bs y s] by simp
  have "cursor_advance (cursor_of (as @ r)) (length as) = cursor_advance (cursor_of (as @ r)) (length bs)"
    using 1 2 by simp
  then have "(of_nat (length as) :: u64) = of_nat (length bs)"
    by (simp add: cursor_advance_def cursor_of_def wt_cursor_init_def)
  moreover have "length as < 2 ^ 64" "length bs < 2 ^ 64"
    using assms(4) arg_cong [OF assms(3), of length] by auto
  ultimately have "length as = length bs"
    by (metis unat_of_nat_u64)
  with 1 2 assms(3) show ?thesis by simp
qed

subsection \<open>Memory safety of readers\<close>

lemma reader_safeD: "reader_safe m \<Longrightarrow> cursor_inv c \<Longrightarrow> cursor_step c (snd (m c))"
  by (simp add: reader_safe_def)

lemma reader_safe_return [simp]: "reader_safe (rreturn x)" "reader_safe (rfail e)"
  by (simp_all add: reader_safe_def rreturn_def rfail_def)

lemma reader_safe_bind:
  assumes "reader_safe m" "\<And>x. reader_safe (f x)"
  shows "reader_safe (rbind m f)"
  unfolding reader_safe_def
proof (intro allI impI)
  fix c assume c: "cursor_inv c"
  obtain r c' where m: "m c = (r, c')" by fastforce
  with reader_safeD [OF assms(1) c] have step: "cursor_step c c'" by simp
  show "cursor_step c (snd (rbind m f c))"
  proof (cases r)
    case (Inr x)
    from reader_safeD [OF assms(2) cursor_step_inv [OF step], of x] step
    show ?thesis by (auto simp: rbind_def m Inr intro: cursor_step_trans)
  qed (simp add: rbind_def m step)
qed

lemma reader_safe_bytes [simp]: "reader_safe (rbytes n)"
  unfolding reader_safe_def
proof (intro allI impI)
  fix c assume "cursor_inv c"
  from cursor_step_take [OF this, of n] show "cursor_step c (snd (rbytes n c))"
    by (auto simp: rbytes_def wt_cursor_bytes_def split: prod.splits option.splits)
qed

lemma reader_safe_if [simp]: "reader_safe a \<Longrightarrow> reader_safe b \<Longrightarrow> reader_safe (if p then a else b)"
  by simp

lemma reader_safe_suffix:
  "reader_safe m \<Longrightarrow> cursor_inv c \<Longrightarrow> m c = (r, c') \<Longrightarrow> \<exists>pre. cursor_view c = pre @ cursor_view c'"
  using reader_safeD [of m c] cursor_step_view [of c c'] by auto

subsection \<open>Progress of readers\<close>

lemma cursor_take_shrinks: "wt_cursor_remaining (snd (wt_cursor_take c n)) \<le> wt_cursor_remaining c"
  using unat_sub_le [of n "cur_len c - cur_offset c"]
  by (auto simp: wt_cursor_take_def wt_cursor_remaining_def word_le_nat_alt diff_diff_eq
      word_less_nat_alt not_less)

lemma cursor_take_shrinks_strict:
  assumes "wt_cursor_remaining c \<noteq> 0" "n \<noteq> 0"
  shows "wt_cursor_remaining (snd (wt_cursor_take c n)) < wt_cursor_remaining c"
proof -
  have "unat n > 0" "unat (cur_len c - cur_offset c) > 0"
    using assms by (simp_all add: unat_gt_0 wt_cursor_remaining_def split: if_splits)
  with assms unat_sub_le [of n "cur_len c - cur_offset c"] show ?thesis
    by (auto simp: wt_cursor_take_def wt_cursor_remaining_def word_less_nat_alt word_le_nat_alt
        diff_diff_eq not_less split: if_splits)
qed

lemma reader_shrinksD: "reader_shrinks m \<Longrightarrow> m c = (r, c') \<Longrightarrow> wt_cursor_remaining c' \<le> wt_cursor_remaining c"
  by (auto simp: reader_shrinks_def dest: spec [of _ c])

lemma reader_shrinks_return [simp]: "reader_shrinks (rreturn x)" "reader_shrinks (rfail e)"
  by (simp_all add: reader_shrinks_def rreturn_def rfail_def)

lemma reader_shrinks_bind:
  assumes "reader_shrinks m" "\<And>x. reader_shrinks (f x)"
  shows "reader_shrinks (rbind m f)"
  unfolding reader_shrinks_def
proof
  fix c
  obtain r c' where m: "m c = (r, c')" by fastforce
  note le = reader_shrinksD [OF assms(1) m]
  show "wt_cursor_remaining (snd (rbind m f c)) \<le> wt_cursor_remaining c"
  proof (cases r)
    case (Inr x)
    have "wt_cursor_remaining (snd (f x c')) \<le> wt_cursor_remaining c'"
      using assms(2) [of x] by (simp add: reader_shrinks_def)
    with le show ?thesis by (simp add: rbind_def m Inr)
  qed (simp add: rbind_def m le)
qed

lemma reader_shrinks_if [simp]: "reader_shrinks a \<Longrightarrow> reader_shrinks b \<Longrightarrow> reader_shrinks (if p then a else b)"
  by simp

subsection \<open>What readers return\<close>

lemma yieldsD: "yields m P \<Longrightarrow> cursor_inv c \<Longrightarrow> m c = (Inr x, c') \<Longrightarrow> P x"
  by (auto simp: yields_def)

lemma yields_return [simp]: "yields (rreturn x) P \<longleftrightarrow> P x" "yields (rfail e) P"
  using cursor_ready_of [of "[]"] by (auto simp: yields_def rreturn_def rfail_def cursor_ready_def)

lemma yields_True [simp]: "yields m (\<lambda>_. True)"
  by (simp add: yields_def)

lemma yields_bind:
  assumes "yields m P" "reader_safe m" "\<And>x. P x \<Longrightarrow> yields (f x) Q"
  shows "yields (rbind m f) Q"
  unfolding yields_def
proof (intro allI impI)
  fix c y c' assume c: "cursor_inv c \<and> rbind m f c = (Inr y, c')"
  obtain r c1 where m: "m c = (r, c1)" by fastforce
  with c obtain x where r: "r = Inr x" and f: "f x c1 = (Inr y, c')"
    by (cases r) (auto simp: rbind_def)
  have "cursor_inv c1"
    using reader_safeD [OF assms(2), of c] c m by (simp add: cursor_step_def)
  moreover have "P x" using assms(1) c m r by (auto simp: yields_def)
  ultimately show "Q y" using assms(3) f by (auto simp: yields_def)
qed

lemma yields_bind_any: "reader_safe m \<Longrightarrow> (\<And>x. yields (f x) Q) \<Longrightarrow> yields (rbind m f) Q"
  by (rule yields_bind [OF yields_True])

lemma yields_if: "(p \<Longrightarrow> yields a Q) \<Longrightarrow> (\<not> p \<Longrightarrow> yields b Q) \<Longrightarrow> yields (if p then a else b) Q"
  by simp

lemma fails_withD: "fails_with m P \<Longrightarrow> m c = (Inl e, c') \<Longrightarrow> P e"
  by (auto simp: fails_with_def)

lemma fails_with_return [simp]: "fails_with (rreturn x) P" "fails_with (rfail e) P \<longleftrightarrow> P e"
  by (auto simp: fails_with_def rreturn_def rfail_def)

lemma fails_with_bind: "fails_with m P \<Longrightarrow> (\<And>x. fails_with (f x) P) \<Longrightarrow> fails_with (rbind m f) P"
  by (auto simp: fails_with_def rbind_def split: prod.splits sum.splits)

subsection \<open>The writing calculus\<close>

lemma writes_put [simp]: "writes (wt_writer_put bs) bs"
  by (simp add: writes_def writer_put_full writer_inv_put) (simp add: writer_inv_def)

lemma writes_id [simp]: "writes (\<lambda>w. w) []"
  by (simp add: writes_def wt_writer_put_def)

lemma writes_guard:
  assumes "writes e bs" "\<And>w. \<not> wr_overflow w \<Longrightarrow> g w = e w" "\<And>w. wr_overflow w \<Longrightarrow> g w = w"
  shows "writes g bs"
  using assms by (simp add: writes_def)

lemma writes_bytes [simp]: "writes (wt_writer_bytes bs) bs"
  by (simp add: wt_writer_bytes_def)

lemma writes_comp:
  assumes a: "writes e as" and b: "writes f bs"
  shows "writes (\<lambda>w. f (e w)) (as @ bs)"
  unfolding writes_def
proof (intro allI impI)
  fix w assume inv: "writer_inv w"
  let ?room = "unat (wr_cap w) - unat (wr_offset w)"
  show "if wr_overflow w then f (e w) = w
    else if length (as @ bs) \<le> ?room then f (e w) = wt_writer_put (as @ bs) w
    else wr_overflow (f (e w)) \<and> writer_inv (f (e w)) \<and> wr_cap (f (e w)) = wr_cap w \<and>
      wr_copy (f (e w)) = wr_copy w \<and> length (wr_data (f (e w))) = length (wr_data w) \<and>
      drop (unat (wr_cap w)) (wr_data (f (e w))) = drop (unat (wr_cap w)) (wr_data w)"
  proof (cases "\<not> wr_overflow w \<and> length as \<le> ?room")
    case True
    then have e: "e w = wt_writer_put as w" using a inv by (simp add: writes_def)
    have off: "unat (wr_offset (e w)) = unat (wr_offset w) + length as"
      using True inv by (simp add: e writer_put_fits writer_offset_advance)
    have "\<not> wr_overflow (e w)" using True inv by (simp add: e writer_put_fits)
    moreover have "wr_cap (e w) = wr_cap w" "wr_copy (e w) = wr_copy w" by (simp_all add: e)
    moreover have "writer_inv (e w)" using inv by (simp add: e writer_inv_put)
    moreover have "length (wr_data (e w)) = length (wr_data w)"
      using inv by (simp add: e writer_put_length_data)
    moreover have "drop (unat (wr_cap w)) (wr_data (e w)) = drop (unat (wr_cap w)) (wr_data w)"
      using True inv by (auto simp: e writer_put_fits overwrite_def writer_inv_def word_le_nat_alt)
    moreover have "\<not> wr_overflow w" using True by simp
    moreover have "wt_writer_put bs (e w) = wt_writer_put (as @ bs) w"
      if "length (as @ bs) \<le> ?room"
      using that inv by (simp add: e writer_put_append)
    moreover have "length bs \<le> unat (wr_cap w) - unat (wr_offset (e w)) \<longleftrightarrow> length (as @ bs) \<le> ?room"
      using True off by auto
    ultimately show ?thesis
      using b [unfolded writes_def, rule_format, of "e w"]
      by (cases "length (as @ bs) \<le> ?room") (simp_all add: not_le)
  next
    case False
    then show ?thesis using a b inv by (auto simp: writes_def)
  qed
qed

lemmas writesD = writes_def [THEN iffD1, rule_format]

lemma writes_fits:
  assumes "writes e bs" "writer_inv w" "\<not> wr_overflow w"
    "length bs \<le> unat (wr_cap w) - unat (wr_offset w)"
  shows "e w = wt_writer_put bs w" "wt_writer_ok (e w)"
    "unat (wt_writer_offset (e w)) = unat (wr_offset w) + length bs"
    "wr_copy w \<Longrightarrow> writer_out (e w) = writer_out w @ bs"
proof -
  show e: "e w = wt_writer_put bs w" using assms by (simp add: writes_def)
  from assms have e': "e w = w\<lparr>wr_data := (if wr_copy w then overwrite (unat (wr_offset w)) bs (wr_data w)
      else wr_data w), wr_offset := wr_offset w + of_nat (length bs)\<rparr>"
    by (simp add: e writer_put_fits)
  show "wt_writer_ok (e w)" using assms(3) by (simp add: e' wt_writer_ok_def)
  show off: "unat (wt_writer_offset (e w)) = unat (wr_offset w) + length bs"
    using assms by (simp add: e' wt_writer_offset_def writer_offset_advance)
  assume "wr_copy w"
  moreover with assms have "unat (wr_offset w) + length bs \<le> length (wr_data w)"
    by (auto simp: writer_inv_def word_le_nat_alt)
  ultimately show "writer_out (e w) = writer_out w @ bs"
    using assms by (simp add: writer_out_def e' writer_offset_advance take_overwrite)
qed

lemma writes_ok_iff:
  "writes e bs \<Longrightarrow> writer_inv w \<Longrightarrow>
   wt_writer_ok (e w) \<longleftrightarrow> wt_writer_ok w \<and> length bs \<le> unat (wr_cap w) - unat (wr_offset w)"
  using writes_fits(2) [of e bs w] writesD [of e bs w]
  by (cases "wr_overflow w"; cases "length bs \<le> unat (wr_cap w) - unat (wr_offset w)")
    (simp_all add: wt_writer_ok_def)

lemma writes_safe:
  assumes "writes e bs" "writer_inv w"
  shows "writer_inv (e w)" "length (wr_data (e w)) = length (wr_data w)"
    "drop (unat (wr_cap w)) (wr_data (e w)) = drop (unat (wr_cap w)) (wr_data w)"
proof -
  have "drop (unat (wr_cap w)) (wr_data (wt_writer_put bs w)) = drop (unat (wr_cap w)) (wr_data w)"
    if "\<not> wr_overflow w" "length bs \<le> unat (wr_cap w) - unat (wr_offset w)"
    using that assms(2)
    by (auto simp: writer_put_fits overwrite_def writer_inv_def word_le_nat_alt)
  with assms(2) writer_inv_put [of w bs] writer_put_length_data [of w bs] writesD [OF assms]
  show "writer_inv (e w)" "length (wr_data (e w)) = length (wr_data w)"
    "drop (unat (wr_cap w)) (wr_data (e w)) = drop (unat (wr_cap w)) (wr_data w)"
    by (auto split: if_splits)
qed

lemma writes_fold: "writes (\<lambda>w. fold wt_writer_put bss w) (concat bss)"
proof (induction bss)
  case (Cons bs bss)
  from writes_comp [OF writes_put Cons] show ?case by (simp add: comp_def)
qed simp

lemma emit_simps [simp]: "emit [] w = w" "emit (f # fs) w = emit fs (f w)"
  by (simp_all add: emit_def)

lemma writes_emit: "list_all2 writes fs bss \<Longrightarrow> writes (emit fs) (concat bss)"
proof (induction fs bss rule: list_all2_induct)
  case Nil
  show ?case using writes_id by (simp add: emit_def)
next
  case (Cons f fs bs bss)
  from writes_comp [OF Cons.hyps(1) Cons.IH] show ?case by simp
qed

lemma writes_measure:
  assumes "writes e bs"
  shows "wt_writer_ok (e wt_writer_measure) \<longleftrightarrow> length bs \<le> 2 ^ 20"
    "wt_writer_ok (e wt_writer_measure) \<Longrightarrow>
     unat (wt_writer_offset (e wt_writer_measure)) = length bs"
proof -
  show ok: "wt_writer_ok (e wt_writer_measure) \<longleftrightarrow> length bs \<le> 2 ^ 20"
    using writes_ok_iff [OF assms writer_inv_measure]
    by (simp add: wt_writer_measure_def WT_WRITER_MEASURE_CAPACITY_def wt_writer_ok_def)
  show "unat (wt_writer_offset (e wt_writer_measure)) = length bs"
    if "wt_writer_ok (e wt_writer_measure)"
    using that writes_fits(3) [OF assms writer_inv_measure]
    by (simp add: ok) (simp add: wt_writer_measure_def WT_WRITER_MEASURE_CAPACITY_def)
qed

lemma writes_init:
  assumes "writes e bs" "unat cap \<le> length d"
  shows "wt_writer_ok (e (wt_writer_init (Some d) cap)) \<longleftrightarrow> length bs \<le> unat cap"
    "length bs \<le> unat cap \<Longrightarrow> writer_out (e (wt_writer_init (Some d) cap)) = bs"
    "length bs \<le> unat cap \<Longrightarrow>
      unat (wt_writer_offset (e (wt_writer_init (Some d) cap))) = length bs"
proof -
  let ?w = "wt_writer_init (Some d) cap"
  have w: "writer_inv ?w" "\<not> wr_overflow ?w" "wr_copy ?w" "wr_offset ?w = 0" "wr_cap ?w = cap"
    using assms(2) by (simp_all add: writer_inv_def wt_writer_init_def)
  show "wt_writer_ok (e ?w) \<longleftrightarrow> length bs \<le> unat cap"
    using w writes_ok_iff [OF assms(1) w(1)] by (simp add: wt_writer_ok_def)
  assume "length bs \<le> unat cap"
  with w writes_fits(3,4) [OF assms(1) w(1,2)]
  show "writer_out (e ?w) = bs" "unat (wt_writer_offset (e ?w)) = length bs"
    by (simp_all add: writer_out_def)
qed

subsection \<open>Interfaces of the wire formats\<close>

text \<open>What a decoder promises to its callers.\<close>

locale wire_codec =
  fixes enc :: "'a \<Rightarrow> u8 list"
    and dec :: "('e, 'a) xreader"
    and valid :: "'a \<Rightarrow> bool"
  assumes dec_enc: "valid x \<Longrightarrow> reads dec (enc x) x"
    and dec_safe: "reader_safe dec"
begin

lemma enc_prefix_free:
  "valid x \<Longrightarrow> valid y \<Longrightarrow> enc x @ r = enc y @ s \<Longrightarrow> length (enc x @ r) < 2 ^ 64 \<Longrightarrow>
   x = y \<and> r = s"
  using reads_unique [OF dec_enc dec_enc] by blast

lemma enc_injective:
  "valid x \<Longrightarrow> valid y \<Longrightarrow> enc x = enc y \<Longrightarrow> length (enc x) < 2 ^ 64 \<Longrightarrow> x = y"
  using enc_prefix_free [of x y "[]" "[]"] by simp

lemma decode_n_concat: "list_all valid xs \<Longrightarrow> reads (decode_n dec (length xs)) (concat (map enc xs)) xs"
proof (induction xs)
  case (Cons x xs)
  then have "reads (decode_n dec (length xs)) (concat (map enc xs)) xs" by simp
  from reads_bind [of _ _ _ "\<lambda>ys. rreturn (x # ys)", OF this reads_return]
  have "reads (rbind (decode_n dec (length xs)) (\<lambda>ys. rreturn (x # ys))) (concat (map enc xs)) (x # xs)"
    by simp
  then show ?case
    using Cons.prems by (auto intro: reads_bind dec_enc)
qed simp

lemma decode_whole:
  "valid x \<Longrightarrow> length (enc x) < 2 ^ 64 \<Longrightarrow> fst (dec (cursor_of (enc x))) = Inr x"
  using reads_of [OF dec_enc, of x "[]"] by simp

end

text \<open>What an encoder promises: it appends the format's bytes, in both writer modes.\<close>

locale wire_encoder =
  fixes encode :: "'a \<Rightarrow> wt_writer \<Rightarrow> wt_writer"
    and enc :: "'a \<Rightarrow> u8 list"
    and valid :: "'a \<Rightarrow> bool"
  assumes encode_writes: "valid x \<Longrightarrow> writes (encode x) (enc x)"
begin

lemma two_pass:
  assumes "valid x" "wt_writer_ok (encode x wt_writer_measure)"
    and "n = wt_writer_offset (encode x wt_writer_measure)" "unat n \<le> length d"
  shows "wt_writer_ok (encode x (wt_writer_init (Some d) n))"
    "wt_writer_offset (encode x (wt_writer_init (Some d) n)) = n"
    "writer_out (encode x (wt_writer_init (Some d) n)) = enc x"
proof -
  note w = encode_writes [OF assms(1)]
  have n: "unat n = length (enc x)"
    using writes_measure(2) [OF w assms(2)] assms(3) by simp
  with writes_init [OF w assms(4)] show "wt_writer_ok (encode x (wt_writer_init (Some d) n))"
    "writer_out (encode x (wt_writer_init (Some d) n)) = enc x"
    "wt_writer_offset (encode x (wt_writer_init (Some d) n)) = n"
    by (simp_all add: word_unat_eq_iff)
qed

lemma encode_ok_iff:
  "valid x \<Longrightarrow> unat cap \<le> length d \<Longrightarrow>
   wt_writer_ok (encode x (wt_writer_init (Some d) cap)) \<longleftrightarrow> length (enc x) \<le> unat cap"
  by (rule writes_init(1) [OF encode_writes])

end

text \<open>A format with both halves: what one side writes the other side reads.\<close>

locale wire_format =
  wire_codec enc dec valid + wire_encoder encode enc valid
  for enc :: "'a \<Rightarrow> u8 list" and dec :: "('e, 'a) xreader" and valid :: "'a \<Rightarrow> bool"
    and encode :: "'a \<Rightarrow> wt_writer \<Rightarrow> wt_writer"
begin

lemma round_trip:
  assumes "valid x" "unat cap \<le> length d" "wt_writer_ok (encode x (wt_writer_init (Some d) cap))"
  shows "fst (dec (cursor_of (writer_out (encode x (wt_writer_init (Some d) cap))))) = Inr x"
proof -
  have len: "length (enc x) \<le> unat cap"
    using assms encode_ok_iff by simp
  with assms(1,2) have "writer_out (encode x (wt_writer_init (Some d) cap)) = enc x"
    by (intro writes_init(2) [OF encode_writes])
  with decode_whole [OF assms(1)] len unat_u64_less [of cap] show ?thesis
    by simp
qed

end

subsection \<open>Properties of the core layer\<close>

text \<open>A read from a cursor never leaves the bytes behind it. From a cursor that satisfies the
  invariant of cursor.c, a read of \<open>n\<close> bytes either returns exactly the next \<open>n\<close> unread bytes and
  moves past them, or returns NULL and consumes nothing; the invariant, the buffer and its length
  are kept in both cases, and a NULL for a non-NULL buffer marks the cursor failed for good.\<close>

lemma wt_cursor_take_in_bounds:
  assumes "cursor_inv c" and "wt_cursor_take c n = (p, c')"
  shows "cursor_inv c' \<and> cur_data c' = cur_data c \<and> cur_len c' = cur_len c \<and>
    (case p of
       Some bs \<Rightarrow> length bs = unat n \<and> \<not> cur_failed c' \<and> cursor_view c = bs @ cursor_view c'
     | None \<Rightarrow> cursor_view c' = cursor_view c \<and> (cur_data c \<noteq> None \<longrightarrow> cur_failed c'))"
proof -
  have step: "cursor_step c c'"
    using cursor_step_take [OF assms(1), of n] assms(2) by simp
  show ?thesis
  proof (cases p)
    case None
    with step cursor_take_None [OF assms(1), of n c'] assms(2) show ?thesis
      by (simp add: cursor_step_def)
  next
    case (Some bs)
    with step cursor_take_Some [OF assms(1), of n bs c'] assms(2) show ?thesis
      by (simp add: cursor_step_def)
  qed
qed

text \<open>The two-pass writer. For any sequence of writes, a writer over a destination of \<open>cap\<close>
  bytes never touches a byte at or past \<open>cap\<close>; it stays ok exactly when the whole sequence fits, and
  then its output is the concatenation of the writes. A measuring writer run over the same sequence
  reports exactly that length, so the two passes agree.\<close>

lemma wt_writer_two_pass:
  assumes "unat cap \<le> length d"
  shows "let w = fold wt_writer_put bss (wt_writer_init (Some d) cap);
      m = fold wt_writer_put bss wt_writer_measure in
      length (wr_data w) = length d \<and>
      drop (unat cap) (wr_data w) = drop (unat cap) d \<and>
      (wt_writer_ok w \<longleftrightarrow> length (concat bss) \<le> unat cap) \<and>
      (wt_writer_ok w \<longrightarrow> writer_out w = concat bss) \<and>
      (wt_writer_ok w \<and> wt_writer_ok m \<longrightarrow> wt_writer_offset w = wt_writer_offset m)"
proof -
  let ?w = "fold wt_writer_put bss (wt_writer_init (Some d) cap)"
    and ?m = "fold wt_writer_put bss wt_writer_measure"
  have inv: "writer_inv (wt_writer_init (Some d) cap)"
    using assms by (simp add: writer_inv_init)
  have "length (wr_data ?w) = length d" "drop (unat cap) (wr_data ?w) = drop (unat cap) d"
    using writes_safe(2,3) [OF writes_fold inv, of bss] by (simp_all add: wt_writer_init_def)
  moreover note init = writes_init [OF writes_fold assms, of bss]
  have "wt_writer_offset ?w = wt_writer_offset ?m" if "wt_writer_ok ?w" "wt_writer_ok ?m"
    using that init(1,3) writes_measure(2) [OF writes_fold, of bss]
    by (simp add: word_unat_eq_iff)
  ultimately show ?thesis using init by (simp add: Let_def)
qed

end
