(* ===== verification/Varint.thy ===== *)
theory Varint
  imports Codec
begin

text \<open>
  QUIC variable-length integers (\<open>C99/src/quic/varint.c\<close>). The encoder writes the shortest
  form; the decoder accepts every form and reports its size, which the frame parser compares
  with the shortest one. A size in bytes is a natural number here: it is 0, 1, 2, 4 or 8.
\<close>

definition WT_QUIC_VARINT_MAX :: u64 where
  "WT_QUIC_VARINT_MAX = 0x3fffffffffffffff"

definition wt_quic_varint_size :: "u64 \<Rightarrow> nat" where
  "wt_quic_varint_size v =
     (if v < 64 then 1 else if v < 16384 then 2 else if v < 1073741824 then 4
      else if v \<le> WT_QUIC_VARINT_MAX then 8 else 0)"

text \<open>The bytes written to \<open>out\<close>; the empty list stands for the refusal, a result of 0.\<close>

definition wt_quic_varint_encode :: "u64 \<Rightarrow> nat \<Rightarrow> u8 list" where
  "wt_quic_varint_encode v capacity =
     (let size = wt_quic_varint_size v in
      if size = 0 \<or> capacity < size then []
      else if size = 1 then [ucast (v AND 0x3F)]
      else if size = 2 then wt_store_be16 (ucast (v OR 0x4000))
      else if size = 4 then wt_store_be32 (ucast (v OR 0x80000000))
      else wt_store_be64 (v OR 0xC000000000000000))"

definition wt_quic_writer_varint :: "u64 \<Rightarrow> wt_writer \<Rightarrow> nat \<times> wt_writer" where
  "wt_quic_writer_varint v w =
     (let bytes = wt_quic_varint_encode v 8 in
      if length bytes = 0 then (0, w\<lparr>wr_overflow := True\<rparr>)
      else (length bytes, wt_writer_bytes bytes w))"

definition wt_quic_varint_decode_sized :: "(u64 \<times> nat) wt_reader" where
  "wt_quic_varint_decode_sized c =
     (if wt_cursor_remaining c = 0 then (Inl WT_ERR_TRUNCATED, c)
      else
        let (first, c1) = wt_cursor_u8 c;
            size = 2 ^ unat (drop_bit 6 first);
            v = ucast (first AND 0x3F)
        in if size > 1 then
             (case wt_cursor_bytes c1 (of_nat (size - 1)) of
                (None, c2) \<Rightarrow> (Inl WT_ERR_TRUNCATED, c2)
              | (Some rest, c2) \<Rightarrow> (Inr (foldl shift_or v rest, size), c2))
           else (Inr (v, size), c1))"

definition wt_quic_varint_decode :: "u64 wt_reader" where
  "wt_quic_varint_decode c =
     (case wt_quic_varint_decode_sized c of
        (Inl e, c') \<Rightarrow> (Inl e, c')
      | (Inr (v, _), c') \<Rightarrow> (Inr v, c'))"

definition wt_quic_varint_is_minimal :: "u64 \<Rightarrow> nat \<Rightarrow> bool" where
  "wt_quic_varint_is_minimal v n \<longleftrightarrow> wt_quic_varint_size v = n"

text \<open>The encoder without its return value, as every caller that ignores it uses it.\<close>

abbreviation put_varint :: "u64 \<Rightarrow> wt_writer \<Rightarrow> wt_writer" where
  "put_varint v w \<equiv> snd (wt_quic_writer_varint v w)"

text \<open>The shortest encoding of a value.\<close>

definition varint_bytes :: "u64 \<Rightarrow> u8 list" where
  "varint_bytes v = wt_quic_varint_encode v 8"

definition varint_valid :: "u64 \<Rightarrow> bool" where
  "varint_valid v \<longleftrightarrow> v \<le> WT_QUIC_VARINT_MAX"

subsection \<open>The encoder\<close>

lemma or_push_bit_high:
  assumes "unat (v::'a::len word) < 2 ^ k"
  shows "v OR push_bit k x = v + push_bit k x"
proof (rule or_eq_add, rule bit_word_eqI)
  fix n assume "n < LENGTH('a)"
  have "take_bit k v = v"
    using assms by (rule take_bit_word_id)
  then have "\<not> bit v n" if "k \<le> n"
    using that by (metis bit_take_bit_iff not_le)
  then show "bit (v AND push_bit k x) n \<longleftrightarrow> bit 0 n"
    by (auto simp: bit_simps)
qed

lemma varint_valid_unat: "varint_valid v \<longleftrightarrow> unat v < 2 ^ 62"
  by (auto simp: varint_valid_def WT_QUIC_VARINT_MAX_def word_le_nat_alt)

lemma varint_size_nat:
  "wt_quic_varint_size v =
     (if unat v < 2 ^ 6 then 1 else if unat v < 2 ^ 14 then 2 else if unat v < 2 ^ 30 then 4
      else if unat v < 2 ^ 62 then 8 else 0)"
  using varint_valid_unat [of v]
  by (simp add: wt_quic_varint_size_def word_less_nat_alt varint_valid_def)

lemma varint_size_pos: "varint_valid v \<longleftrightarrow> wt_quic_varint_size v \<noteq> 0"
  by (simp add: varint_size_nat varint_valid_unat)

lemma varint_size_le: "wt_quic_varint_size v \<le> 8"
  by (simp add: wt_quic_varint_size_def)

text \<open>The four encodings are the big-endian bytes of the value with the length prefix on top.\<close>

lemma varint_bytes_be:
  assumes "varint_valid v"
  obtains k where "k < 4" "wt_quic_varint_size v = 2 ^ k"
    "varint_bytes v = be_bytes (2 ^ k) (unat v + k * 64 * 256 ^ (2 ^ k - 1))"
    "unat v < 64 * 256 ^ (2 ^ k - 1)"
proof -
  have or16: "unat (ucast (v OR 0x4000) :: u16) = unat v + 16384" if "unat v < 2 ^ 14"
    using or_push_bit_high [OF that, of 1] that
    by (simp add: unsigned_ucast_eq take_bit_eq_mod unat_word_ariths)
  have or32: "unat (ucast (v OR 0x80000000) :: u32) = unat v + 2147483648" if "unat v < 2 ^ 30"
    using or_push_bit_high [of v 31 1] that
    by (simp add: unsigned_ucast_eq take_bit_eq_mod unat_word_ariths)
  have or64: "unat (v OR 0xC000000000000000) = unat v + 13835058055282163712" if "unat v < 2 ^ 62"
    using or_push_bit_high [of v 62 3] that by (simp add: unat_word_ariths)
  have lo: "ucast (v AND 0x3F) = (of_nat (unat v) :: u8)" if "unat v < 2 ^ 6"
  proof -
    have "v AND 0x3F = take_bit 6 v" by (simp add: take_bit_eq_mask mask_eq_exp_minus_1)
    also have "\<dots> = v" using that by (rule take_bit_word_id)
    finally show ?thesis by (metis of_nat_unat)
  qed
  consider "unat v < 2 ^ 6" | "2 ^ 6 \<le> unat v" "unat v < 2 ^ 14" |
    "2 ^ 14 \<le> unat v" "unat v < 2 ^ 30" | "2 ^ 30 \<le> unat v" "unat v < 2 ^ 62"
    using assms by (fastforce simp: varint_valid_unat)
  then show thesis
  proof cases
    case 1
    with that [of 0] lo show thesis
      by (simp add: varint_bytes_def wt_quic_varint_encode_def varint_size_nat Let_def)
  next
    case 2
    with that [of 1] or16 show thesis
      by (simp add: varint_bytes_def wt_quic_varint_encode_def varint_size_nat Let_def wt_store_be_bytes)
  next
    case 3
    with that [of 2] or32 show thesis
      by (simp add: varint_bytes_def wt_quic_varint_encode_def varint_size_nat Let_def wt_store_be_bytes)
  next
    case 4
    with that [of 3] or64 show thesis
      by (simp add: varint_bytes_def wt_quic_varint_encode_def varint_size_nat Let_def wt_store_be_bytes)
  qed
qed

lemma length_varint_bytes: "varint_valid v \<Longrightarrow> length (varint_bytes v) = wt_quic_varint_size v"
  by (erule varint_bytes_be) simp

lemma varint_bytes_nonempty: "varint_valid v \<Longrightarrow> varint_bytes v \<noteq> []"
  using length_varint_bytes [of v] by (auto simp: varint_size_pos)

lemma put_varint_valid: "varint_valid v \<Longrightarrow> put_varint v w = wt_writer_put (varint_bytes v) w"
  using varint_bytes_nonempty [of v]
  by (simp add: wt_quic_writer_varint_def varint_bytes_def wt_writer_bytes_def Let_def)

lemma put_varint_invalid: "\<not> varint_valid v \<Longrightarrow> put_varint v w = w\<lparr>wr_overflow := True\<rparr>"
  by (simp add: wt_quic_writer_varint_def wt_quic_varint_encode_def varint_size_pos Let_def)

lemma writes_varint: "varint_valid v \<Longrightarrow> writes (put_varint v) (varint_bytes v)"
  using writes_put [of "varint_bytes v"] by (simp add: put_varint_valid)

subsection \<open>The decoder\<close>

text \<open>
  What the decoder does on a cursor with unread bytes: it looks at the two top bits of the first
  byte, needs \<open>2 ^ prefix\<close> bytes in all, and reads their value without the prefix.
\<close>

definition varint_value :: "u8 list \<Rightarrow> nat" where
  "varint_value bs = unat (hd bs) mod 64 * 256 ^ (length bs - 1) + be_nat (tl bs)"

lemma varint_prefix: "unat (drop_bit 6 (b::u8)) = unat b div 64" "unat (b AND 0x3F) = unat b mod 64"
proof -
  show "unat (drop_bit 6 b) = unat b div 64" by (simp add: unat_shiftr)
  have "b AND 0x3F = take_bit 6 b" by (simp add: take_bit_eq_mask mask_eq_exp_minus_1)
  then have "unat (b AND 0x3F) = take_bit 6 (unat b)" by (simp only: unsigned_take_bit_eq)
  then show "unat (b AND 0x3F) = unat b mod 64" by (simp add: take_bit_eq_mod)
qed

lemma varint_prefix_bound: "unat (b::u8) div 64 < 4"
  using unat_u8_less [of b] by simp

lemma varint_foldl:
  assumes "length rest = 2 ^ (unat b div 64) - 1"
  shows "unat (foldl shift_or (ucast (b AND 0x3F) :: u64) rest) = varint_value (b # rest)"
proof -
  have "(2::nat) ^ (unat b div 64) \<le> 2 ^ 3"
    using varint_prefix_bound [of b] by (intro power_increasing) auto
  then have "length rest \<le> 7" using assms by simp
  then have "(256::nat) ^ length rest \<le> 256 ^ 7" by (intro power_increasing) auto
  then have "64 * (256::nat) ^ length rest \<le> 2 ^ 64" by simp
  moreover have "(unat b mod 64 + 1) * 256 ^ length rest \<le> 64 * 256 ^ length rest"
    by (intro mult_le_mono1) (simp add: Suc_le_eq)
  ultimately have "(unat b mod 64 + 1) * 256 ^ length rest \<le> 2 ^ 64"
    by (rule order_trans [rotated])
  then show ?thesis
    by (subst unat_foldl_shift_or) (simp_all add: varint_prefix varint_value_def)
qed

lemma varint_decode_cases:
  assumes "cursor_ready c" "cursor_view c = b # bs"
  defines "n \<equiv> (2::nat) ^ (unat b div 64)"
  shows "wt_quic_varint_decode_sized c =
    (if n - 1 \<le> length bs
     then (Inr (of_nat (varint_value (take n (b # bs))), n), cursor_advance c n)
     else (Inl WT_ERR_TRUNCATED, (cursor_advance c (Suc 0))\<lparr>cur_failed := True\<rparr>))"
proof -
  let ?c = "cursor_advance c (Suc 0)"
  have pos: "n = Suc (n - 1)" by (simp add: n_def)
  have rem: "wt_cursor_remaining c \<noteq> 0"
    using assms cursor_remaining_view [of c] by (auto simp: cursor_ready_def)
  have u8: "wt_cursor_u8 c = (b, ?c)"
    using assms by (simp add: wt_cursor_u8_def cursor_ready_def cursor_take_ok cursor_advance_def)
  have ready: "cursor_ready ?c" "cursor_view ?c = bs"
    using cursor_ready_advance [OF assms(1), of "Suc 0"] assms(2) by simp_all
  have n8: "n \<le> 2 ^ 3"
    unfolding n_def using varint_prefix_bound [of b] by (intro power_increasing) auto
  have val: "foldl shift_or (ucast (b AND 0x3F) :: u64) (take (n - 1) bs)
      = of_nat (varint_value (b # take (n - 1) bs))" if "n - 1 \<le> length bs"
  proof -
    have "unat (foldl shift_or (ucast (b AND 0x3F) :: u64) (take (n - 1) bs))
        = varint_value (b # take (n - 1) bs)"
      using varint_foldl [of "take (n - 1) bs" b] that by (simp add: n_def)
    then show ?thesis by (rule word_of_nat_eqI)
  qed
  have tk: "take n (b # bs) = b # take (n - 1) bs" by (subst pos) simp
  show ?thesis
  proof (cases "n - 1 \<le> length bs")
    case True
    have "wt_cursor_bytes ?c (of_nat (n - 1)) = (Some (take (n - 1) bs), cursor_advance c n)"
      using cursor_take_advance [OF ready(1), of "n - 1"] True pos
      by (simp add: wt_cursor_bytes_def ready(2) cursor_advance_add)
    moreover have "\<not> n > 1 \<Longrightarrow> n = Suc 0" using pos by linarith
    ultimately show ?thesis
      using True rem u8 val tk by (cases "n > 1") (auto simp: wt_quic_varint_decode_sized_def varint_prefix n_def [symmetric]
          varint_value_def Let_def)
  next
    case False
    then have "wt_cursor_bytes ?c (of_nat (n - 1)) = (None, ?c\<lparr>cur_failed := True\<rparr>)"
      using cursor_take_short [OF ready(1), of "n - 1"] n8
      by (simp add: wt_cursor_bytes_def ready(2))
    with False rem u8 show ?thesis
      by (simp add: wt_quic_varint_decode_sized_def varint_prefix n_def [symmetric] Let_def)
  qed
qed

lemma reads_varint_sized:
  assumes "varint_valid v"
  shows "reads wt_quic_varint_decode_sized (varint_bytes v) (v, wt_quic_varint_size v)"
proof -
  obtain k where k: "k < 4" "wt_quic_varint_size v = 2 ^ k"
    "varint_bytes v = be_bytes (2 ^ k) (unat v + k * 64 * 256 ^ (2 ^ k - 1))"
    "unat v < 64 * 256 ^ (2 ^ k - 1)"
    using varint_bytes_be [OF assms] .
  define m where "m = (2::nat) ^ k - 1"
  have km: "2 ^ k = Suc m" by (simp add: m_def)
  obtain b rest where br: "varint_bytes v = b # rest"
    using varint_bytes_nonempty [OF assms] by (cases "varint_bytes v") auto
  have len: "length rest = m" using arg_cong [OF br, of length] by (simp add: k(3) km)
  have "unat v + k * 64 * 256 ^ m < 256 ^ Suc m"
  proof -
    have "unat v + k * 64 * 256 ^ m < 64 * 256 ^ m + k * 64 * 256 ^ m" using k(4) by (simp add: m_def)
    also have "\<dots> = (64 + k * 64) * 256 ^ m" by (simp add: algebra_simps)
    also have "\<dots> \<le> 256 * 256 ^ m" using k(1) by (intro mult_le_mono1) simp
    finally show ?thesis by simp
  qed
  then have val: "unat b * 256 ^ m + be_nat rest = unat v + k * 64 * 256 ^ m"
    using arg_cong [OF br, of be_nat] by (simp add: k(3) km len)
  have r: "be_nat rest < 256 ^ m" using be_nat_less [of rest] by (simp add: len)
  have "unat b = (unat b * 256 ^ m + be_nat rest) div 256 ^ m" using r by simp
  also have "\<dots> = unat v div 256 ^ m + k * 64" by (simp add: val)
  finally have b: "unat b = unat v div 256 ^ m + k * 64" .
  have lo: "unat v div 256 ^ m < 64"
    using k(4) by (simp add: less_mult_imp_div_less m_def mult.commute)
  have "unat b div 64 = k" "unat b mod 64 = unat v div 256 ^ m" using b lo by simp_all
  moreover have "be_nat rest = unat v mod 256 ^ m"
    using arg_cong [OF val, of "\<lambda>x. x mod 256 ^ m"] r by simp
  ultimately have "varint_value (b # rest) = unat v"
    by (simp add: varint_value_def len div_mult_mod_eq)
  with \<open>unat b div 64 = k\<close> len km br show ?thesis
    unfolding reads_def by (auto simp: varint_decode_cases k(2))
qed

lemma reads_varint: "varint_valid v \<Longrightarrow> reads wt_quic_varint_decode (varint_bytes v) v"
  using reads_varint_sized [of v]
  by (auto simp: reads_def wt_quic_varint_decode_def split: prod.splits)

lemma varint_value_less: "bs \<noteq> [] \<Longrightarrow> varint_value bs < 64 * 256 ^ (length bs - 1)"
proof (cases bs)
  case (Cons b r)
  have "varint_value bs < (unat b mod 64 + 1) * 256 ^ length r"
    using be_nat_less [of r] by (simp add: varint_value_def Cons)
  also have "\<dots> \<le> 64 * 256 ^ length r" by (intro mult_le_mono1) (simp add: Suc_le_eq)
  finally show ?thesis by (simp add: Cons)
qed simp

lemma varint_size_least: "unat v < 64 * 256 ^ (n - 1) \<Longrightarrow> n \<in> {1, 2, 4, 8} \<Longrightarrow>
    varint_valid v \<and> wt_quic_varint_size v \<le> n"
  by (auto simp: varint_valid_unat varint_size_nat)

lemma varint_decode_Inr:
  assumes "cursor_inv c" "wt_quic_varint_decode_sized c = (Inr (v, n), c')"
  obtains bs where "cursor_view c = bs @ cursor_view c'" "length bs = n" "n \<in> {1, 2, 4, 8}"
    "varint_valid v" "wt_quic_varint_size v \<le> n" "unat v = varint_value bs"
    "cursor_ready c" "c' = cursor_advance c n" "cursor_ready c'"
proof -
  from assms have "wt_cursor_remaining c \<noteq> 0"
    by (auto simp: wt_quic_varint_decode_sized_def split: if_splits)
  then have nf: "\<not> cur_failed c" by (auto simp: wt_cursor_remaining_def)
  with \<open>wt_cursor_remaining c \<noteq> 0\<close> cursor_remaining_view [OF assms(1)]
  obtain b bs where v: "cursor_view c = b # bs" by (cases "cursor_view c") (auto simp: unat_eq_0)
  then have ready: "cursor_ready c"
    using assms(1) nf by (auto simp: cursor_ready_def cursor_view_def split: option.splits)
  let ?n = "(2::nat) ^ (unat b div 64)"
  from assms(2) varint_decode_cases [OF ready v]
  have n: "n = ?n" "?n - 1 \<le> length bs" and v': "v = of_nat (varint_value (take n (b # bs)))"
    and c': "c' = cursor_advance c n"
    by (auto split: if_splits)
  have "unat b div 64 \<in> {0, 1, 2, 3}" using varint_prefix_bound [of b] by auto
  with n have n4: "n \<in> {1, 2, 4, 8}" by auto
  have len: "length (take n (b # bs)) = n" using n by auto
  have "varint_value (take n (b # bs)) < 64 * 256 ^ (n - 1)"
    using varint_value_less [of "take n (b # bs)"] len n4 by auto
  moreover from this n4 have "varint_value (take n (b # bs)) < 2 ^ 64" by auto
  then have uv: "unat v = varint_value (take n (b # bs))"
    by (simp add: v' unat_of_nat_u64 del: take_Suc_Cons)
  ultimately have "varint_valid v \<and> wt_quic_varint_size v \<le> n"
    using varint_size_least [OF _ n4, of v] by simp
  with that [of "take n (b # bs)"] len n4 uv ready c' v n
    cursor_ready_advance [OF ready, of n] show thesis by auto
qed

lemma varint_decode_Inl:
  "wt_quic_varint_decode_sized c = (Inl e, c') \<Longrightarrow> e = WT_ERR_TRUNCATED"
  by (auto simp: wt_quic_varint_decode_sized_def Let_def split: if_splits prod.splits option.splits)

lemma reader_safe_varint_sized [simp]: "reader_safe wt_quic_varint_decode_sized"
  unfolding reader_safe_def
proof (intro allI impI)
  fix c assume inv: "cursor_inv c"
  obtain b c1 where u: "wt_cursor_u8 c = (b, c1)" by fastforce
  then have s1: "cursor_step c c1"
    using cursor_step_take [OF inv, of 1] by (auto simp: wt_cursor_u8_def split: prod.splits)
  obtain p c2 where t: "wt_cursor_bytes c1 (of_nat (2 ^ unat (drop_bit 6 b) - 1)) = (p, c2)" by fastforce
  then have "cursor_step c1 c2"
    using cursor_step_take [OF cursor_step_inv [OF s1]] unfolding wt_cursor_bytes_def by (metis snd_conv)
  with s1 have s2: "cursor_step c c2" by (rule cursor_step_trans)
  show "cursor_step c (snd (wt_quic_varint_decode_sized c))"
    using inv s1 s2 t by (cases p) (simp_all add: wt_quic_varint_decode_sized_def u Let_def)
qed

lemma reader_safe_varint [simp]: "reader_safe wt_quic_varint_decode"
  unfolding reader_safe_def
proof (intro allI impI)
  fix c assume "cursor_inv c"
  from reader_safeD [OF reader_safe_varint_sized this]
  show "cursor_step c (snd (wt_quic_varint_decode c))"
    by (auto simp: wt_quic_varint_decode_def split: prod.splits sum.splits)
qed

lemma varint_sized_take:
  assumes "wt_quic_varint_decode_sized c = (r, c')" "wt_cursor_remaining c \<noteq> 0"
  shows "c' = snd (wt_cursor_take c 1) \<or>
    (\<exists>n. c' = snd (wt_cursor_take (snd (wt_cursor_take c 1)) n))"
  using assms by (auto simp: wt_quic_varint_decode_sized_def wt_cursor_u8_def wt_cursor_bytes_def
      Let_def split: if_splits prod.splits option.splits) (metis snd_conv)+

lemma varint_sized_progress:
  assumes "wt_quic_varint_decode_sized c = (r, c')"
  shows "c' = c \<and> r = Inl WT_ERR_TRUNCATED \<or> wt_cursor_remaining c' < wt_cursor_remaining c"
proof (cases "wt_cursor_remaining c = 0")
  case False
  with varint_sized_take [OF assms False] cursor_take_shrinks_strict [of c 1]
    cursor_take_shrinks [of "snd (wt_cursor_take c 1)"] show ?thesis
    by (auto intro: le_less_trans)
qed (use assms in \<open>simp add: wt_quic_varint_decode_sized_def\<close>)

lemma reader_shrinks_varint_sized [simp]: "reader_shrinks wt_quic_varint_decode_sized"
  unfolding reader_shrinks_def
  using varint_sized_progress by (metis order_refl less_imp_le prod.collapse)

lemma reader_shrinks_varint [simp]: "reader_shrinks wt_quic_varint_decode"
  unfolding reader_shrinks_def wt_quic_varint_decode_def
  by (auto split: prod.splits sum.splits intro: reader_shrinksD [OF reader_shrinks_varint_sized])

lemma yields_varint: "yields wt_quic_varint_decode varint_valid"
  unfolding yields_def wt_quic_varint_decode_def
  by (auto split: prod.splits sum.splits elim: varint_decode_Inr)

subsection \<open>Wire images as lists of fields\<close>

text \<open>Most formats above are sequences of integers and byte strings.\<close>

datatype wire_field = VARINT u64 | BYTES "u8 list"

fun field_bytes :: "wire_field \<Rightarrow> u8 list" where
  "field_bytes (VARINT v) = varint_bytes v"
| "field_bytes (BYTES bs) = bs"

fun put_field :: "wire_field \<Rightarrow> wt_writer \<Rightarrow> wt_writer" where
  "put_field (VARINT v) = put_varint v"
| "put_field (BYTES bs) = wt_writer_bytes bs"

fun field_valid :: "wire_field \<Rightarrow> bool" where
  "field_valid (VARINT v) = varint_valid v"
| "field_valid (BYTES bs) = True"

definition fields_bytes :: "wire_field list \<Rightarrow> u8 list" where
  "fields_bytes fs = concat (map field_bytes fs)"

definition put_fields :: "wire_field list \<Rightarrow> wt_writer \<Rightarrow> wt_writer" where
  "put_fields fs = emit (map put_field fs)"

abbreviation bytes_fields :: "u8 list \<Rightarrow> wire_field list" where
  "bytes_fields bs \<equiv> [VARINT (of_nat (length bs)), BYTES bs]"

definition bytes_valid :: "u8 list \<Rightarrow> bool" where
  "bytes_valid bs \<longleftrightarrow> length bs < 2 ^ 62"

lemma fields_bytes_simps [simp]:
  "fields_bytes [] = []" "fields_bytes (f # fs) = field_bytes f @ fields_bytes fs"
  "fields_bytes (fs @ gs) = fields_bytes fs @ fields_bytes gs"
  by (simp_all add: fields_bytes_def)

lemma put_fields_simps [simp]:
  "put_fields [] w = w" "put_fields (f # fs) w = put_fields fs (put_field f w)"
  "put_fields (fs @ gs) w = put_fields gs (put_fields fs w)"
  by (simp_all add: put_fields_def emit_def)

lemma writes_fields: "list_all field_valid fs \<Longrightarrow> writes (put_fields fs) (fields_bytes fs)"
proof (induction fs)
  case Nil
  then show ?case using writes_id by (simp add: writes_def)
next
  case (Cons f fs)
  then have "writes (put_field f) (field_bytes f)"
    by (cases f) (simp_all add: writes_varint)
  from writes_comp [OF this, of "put_fields fs"] Cons show ?case by simp
qed

lemma varint_valid_length: "bytes_valid bs \<Longrightarrow> varint_valid (of_nat (length bs))"
  by (simp add: bytes_valid_def varint_valid_unat unat_of_nat_u64)

interpretation varint: wire_format varint_bytes wt_quic_varint_decode varint_valid put_varint
  by unfold_locales (simp_all add: reads_varint writes_varint)

subsection \<open>Properties\<close>

text \<open>Round trip of the variable-length integers. For every value the wire can carry, the
  encoder produces the shortest form, and the decoder reads that value and that size back from the
  encoding followed by any bytes, consuming exactly the encoding; a value above \<open>2^62 - 1\<close> is refused
  by overflowing the writer.\<close>

lemma wt_quic_varint_round_trip:
  assumes "length rest < 2 ^ 63"
  shows "(v \<le> WT_QUIC_VARINT_MAX \<longrightarrow>
      wt_quic_varint_decode_sized (cursor_of (wt_quic_varint_encode v 8 @ rest)) =
        (Inr (v, wt_quic_varint_size v),
         cursor_advance (cursor_of (wt_quic_varint_encode v 8 @ rest)) (wt_quic_varint_size v)) \<and>
      wt_quic_varint_is_minimal v (length (wt_quic_varint_encode v 8))) \<and>
    (v > WT_QUIC_VARINT_MAX \<longrightarrow> wt_quic_writer_varint v w = (0, w\<lparr>wr_overflow := True\<rparr>))"
proof -
  have 1: "wt_quic_varint_decode_sized (cursor_of (varint_bytes v @ rest)) =
        (Inr (v, wt_quic_varint_size v),
         cursor_advance (cursor_of (varint_bytes v @ rest)) (wt_quic_varint_size v)) \<and>
      wt_quic_varint_is_minimal v (length (varint_bytes v))" if "v \<le> WT_QUIC_VARINT_MAX"
  proof -
    from that have val: "varint_valid v" by (simp add: varint_valid_def)
    have "length (varint_bytes v @ rest) < 2 ^ 64"
      using assms varint_size_le [of v] length_varint_bytes [OF val] by simp
    from reads_of [OF reads_varint_sized [OF val] this] length_varint_bytes [OF val] show ?thesis
      by (simp add: wt_quic_varint_is_minimal_def)
  qed
  have 2: "wt_quic_writer_varint v w = (0, w\<lparr>wr_overflow := True\<rparr>)" if "v > WT_QUIC_VARINT_MAX"
  proof -
    from that have "wt_quic_varint_size v = 0"
      using varint_size_pos [of v] by (auto simp: varint_valid_def)
    then show ?thesis
      by (simp add: wt_quic_writer_varint_def wt_quic_varint_encode_def)
  qed
  from 1 2 show ?thesis by (simp add: varint_bytes_def)
qed

text \<open>Decoding a variable-length integer is safe on every input. From any well-formed cursor,
  either the bytes run out and the status is \<open>WT_ERR_TRUNCATED\<close>, or the decoder consumes exactly the
  1, 2, 4 or 8 bytes it reports, and returns a value below \<open>2^62\<close> whose shortest encoding is no longer
  than what was read.\<close>

lemma wt_quic_varint_decode_bounds:
  assumes "cursor_inv c" "wt_quic_varint_decode_sized c = (r, c')"
  shows "cursor_inv c' \<and>
    (case r of
       Inl e \<Rightarrow> e = WT_ERR_TRUNCATED
     | Inr (v, n) \<Rightarrow> n \<in> {1, 2, 4, 8} \<and> v \<le> WT_QUIC_VARINT_MAX \<and> wt_quic_varint_size v \<le> n \<and>
         (\<exists>bs. length bs = n \<and> cursor_view c = bs @ cursor_view c'))"
proof -
  have "cursor_inv c'"
    using reader_safeD [OF reader_safe_varint_sized assms(1)] assms(2) by (simp add: cursor_step_def)
  moreover have "n \<in> {1, 2, 4, 8} \<and> v \<le> WT_QUIC_VARINT_MAX \<and> wt_quic_varint_size v \<le> n \<and>
      (\<exists>bs. length bs = n \<and> cursor_view c = bs @ cursor_view c')" if "r = Inr (v, n)" for v n
    using varint_decode_Inr [OF assms(1), of v n c'] assms(2) that
    unfolding varint_valid_def by metis
  ultimately show ?thesis
    using assms varint_decode_Inl by (auto split: sum.splits)
qed

end
