(* ===== verification/Packet_Number.thy ===== *)
theory Packet_Number
  imports Varint
begin

text \<open>
  Packet number truncation and reconstruction (\<open>C99/src/quic/packet_number.c\<close>): the sender picks
  the fewest bytes that let the peer reconstruct the number, the receiver picks the candidate
  nearest to its expectation. All arithmetic is on 64-bit words, as in the code.
\<close>

definition WT_QUIC_PACKET_NUMBER_MAX :: u64 where
  "WT_QUIC_PACKET_NUMBER_MAX = WT_QUIC_VARINT_MAX"

definition wt_quic_packet_number_window :: "nat \<Rightarrow> u64" where
  "wt_quic_packet_number_window byte_count =
     (if byte_count = 0 \<or> byte_count > 4 then 0 else push_bit (byte_count * 8) 1)"

text \<open>The loop over the widths 1 to 3, and the last width after it.\<close>

fun packet_number_size_loop :: "u64 \<Rightarrow> nat list \<Rightarrow> nat" where
  "packet_number_size_loop delta [] =
     (if delta < wt_quic_packet_number_window 4 div 2 then 4 else 0)"
| "packet_number_size_loop delta (n # ns) =
     (if delta < wt_quic_packet_number_window n div 2 then n
      else packet_number_size_loop delta ns)"

definition wt_quic_packet_number_size :: "u64 \<Rightarrow> u64 \<Rightarrow> nat" where
  "wt_quic_packet_number_size packet_number largest_acknowledged =
     (if packet_number \<le> largest_acknowledged then 0
      else packet_number_size_loop (packet_number - (largest_acknowledged + 1)) [1, 2, 3])"

text \<open>The bytes stored in \<open>out\<close>; the empty list stands for the refusal, a result of 0.\<close>

definition wt_quic_packet_number_encode :: "u64 \<Rightarrow> nat \<Rightarrow> u8 list" where
  "wt_quic_packet_number_encode packet_number byte_count =
     (if byte_count = 0 \<or> byte_count > 4 then []
      else if byte_count = 1 then [ucast (packet_number AND 0xFF)]
      else if byte_count = 2 then wt_store_be16 (ucast (packet_number AND 0xFFFF))
      else if byte_count = 3 then wt_store_be24 (ucast (packet_number AND 0xFFFFFF))
      else wt_store_be32 (ucast (packet_number AND 0xFFFFFFFF)))"

definition wt_quic_packet_number_decode :: "u64 \<Rightarrow> nat \<Rightarrow> u64 \<Rightarrow> u64" where
  "wt_quic_packet_number_decode truncated byte_count largest_received =
     (if byte_count = 0 \<or> byte_count > 4 then 0
      else
        let expected = largest_received + 1;
            window = wt_quic_packet_number_window byte_count;
            half = window div 2;
            msk = window - 1
        in if truncated > msk then 0
           else
             let candidate = (expected AND NOT msk) OR truncated
             in if candidate + half \<le> expected \<and> candidate < push_bit 62 1 - window
                then candidate + window
                else if candidate > expected + half \<and> candidate \<ge> window
                then candidate - window
                else candidate)"

subsection \<open>Arithmetic of the window\<close>

lemma packet_window_nat:
  "1 \<le> n \<Longrightarrow> n \<le> 4 \<Longrightarrow> unat (wt_quic_packet_number_window n) = 256 ^ n"
proof -
  assume "1 \<le> n" "n \<le> 4"
  then consider "n = 1" | "n = 2" | "n = 3" | "n = 4" by linarith
  then show ?thesis by cases (simp_all add: wt_quic_packet_number_window_def)
qed

lemma packet_window_le: "n \<le> 4 \<Longrightarrow> (256::nat) ^ n \<le> 2 ^ 32"
  using power_increasing [of n 4 "256::nat"] by simp

lemma packet_half_nat:
  "1 \<le> n \<Longrightarrow> n \<le> 4 \<Longrightarrow> unat (wt_quic_packet_number_window n div 2) = 256 ^ n div 2"
  using packet_window_nat [of n] by (simp add: unat_div_distrib)

lemma packet_mask: "1 \<le> n \<Longrightarrow> n \<le> 4 \<Longrightarrow> wt_quic_packet_number_window n - 1 = mask (8 * n)"
  by (simp add: wt_quic_packet_number_window_def mask_eq_exp_minus_1 push_bit_eq_mult mult.commute)

lemma candidate_nat:
  assumes "unat (t::u64) < 2 ^ k" "k \<le> 64"
  shows "unat ((e AND NOT (mask k)) OR t) = unat e div 2 ^ k * 2 ^ k + unat t"
proof -
  let ?q = "unat e div 2 ^ k"
  have "unat e < 2 ^ (64 - k) * 2 ^ k"
    using unat_u64_less [of e] assms(2) by (simp add: power_add [symmetric])
  then have "Suc ?q \<le> 2 ^ (64 - k)" by (simp add: less_mult_imp_div_less Suc_le_eq)
  then have "Suc ?q * 2 ^ k \<le> 2 ^ (64 - k) * 2 ^ k" by (rule mult_le_mono1)
  then have room: "?q * 2 ^ k + unat t < 2 ^ 64"
    using assms by (simp add: power_add [symmetric])
  have e: "e AND NOT (mask k) = push_bit k (drop_bit k e)"
    by (rule bit_word_eqI) (auto simp: bit_simps)
  have "unat (push_bit k (drop_bit k e)) = ?q * 2 ^ k"
    using room by (subst unat_shiftl) (simp_all add: unat_shiftr)
  moreover have "(e AND NOT (mask k)) OR t = t + push_bit k (drop_bit k e)"
    using or_push_bit_high [OF assms(1), of "drop_bit k e"] by (simp add: e or.commute)
  ultimately show ?thesis
    using room unat_add_no_wrap [of t "push_bit k (drop_bit k e)"] by simp
qed

text \<open>
  The reconstruction over the naturals: the candidate in the epoch of the expectation, moved by one
  window when it is further than half a window away.
\<close>

lemma packet_number_decode_nat:
  assumes n: "1 \<le> n" "n \<le> 4" and t: "unat t < 256 ^ n" and lr: "unat lr < 2 ^ 62"
  defines "W \<equiv> 256 ^ n" and "E \<equiv> unat lr + 1"
  defines "C \<equiv> E div W * W + unat t"
  shows "unat (wt_quic_packet_number_decode t n lr) =
    (if C + W div 2 \<le> E \<and> C < 2 ^ 62 - W then C + W
     else if C > E + W div 2 \<and> C \<ge> W then C - W else C)"
proof -
  have W: "W \<le> 2 ^ 32" "W = 2 ^ (8 * n)" "0 < W"
    using packet_window_le [OF n(2)] by (simp_all add: W_def power_mult)
  have win: "unat (wt_quic_packet_number_window n) = W" "unat (wt_quic_packet_number_window n div 2) = W div 2"
    using packet_window_nat [OF n] packet_half_nat [OF n] by (simp_all add: W_def)
  have e: "unat (lr + 1) = E" using lr unat_add_no_wrap [of lr 1] by (simp add: E_def)
  have c: "unat ((lr + 1 AND NOT (mask (8 * n))) OR t) = C"
    using candidate_nat [of t "8 * n" "lr + 1"] t n by (simp add: e C_def W(2) [symmetric] W_def [symmetric])
  have "E < 2 ^ 62 + 1" using lr by (simp add: E_def)
  moreover have "E div W * W \<le> E" by simp
  ultimately have Cb: "C < 2 ^ 62 + 1 + 2 ^ 32" "E < 2 ^ 62 + 1"
    using t W(1) unfolding C_def W_def [symmetric] by linarith+
  have "unat (((lr + 1 AND NOT (mask (8 * n))) OR t) + wt_quic_packet_number_window n) = C + W"
    "unat (((lr + 1 AND NOT (mask (8 * n))) OR t) + wt_quic_packet_number_window n div 2) = C + W div 2"
    "unat (lr + 1 + wt_quic_packet_number_window n div 2) = E + W div 2"
    using Cb W(1) unat_add_no_wrap [of "(lr + 1 AND NOT (mask (8 * n))) OR t"]
      unat_add_no_wrap [of "lr + 1"]
    by (simp_all add: c e win)
  moreover have "\<not> t > wt_quic_packet_number_window n - 1"
  proof -
    have "unat (wt_quic_packet_number_window n - 1) = W - 1"
      using win(1) W(3) by (subst unat_sub_le) (auto simp: word_le_nat_alt)
    then show ?thesis using t W(3) by (simp add: not_less word_le_nat_alt W_def)
  qed
  moreover have "unat (push_bit 62 1 - wt_quic_packet_number_window n) = 2 ^ 62 - W"
    using win(1) W(1) by (subst unat_sub_le) (auto simp: word_le_nat_alt)
  moreover have "C \<ge> W \<Longrightarrow> unat (((lr + 1 AND NOT (mask (8 * n))) OR t) - wt_quic_packet_number_window n) = C - W"
    using win(1) c by (subst unat_sub_le) (auto simp: word_le_nat_alt)
  ultimately show ?thesis
    using n c e win packet_mask [OF n]
    by (simp add: wt_quic_packet_number_decode_def Let_def word_le_nat_alt word_less_nat_alt)
qed

text \<open>Within half a window of the expectation there is exactly one number with given low bits.\<close>

lemma packet_number_nearest:
  fixes W E p t :: nat
  assumes W: "even W" "0 < W" and near: "E < p + W div 2" "p \<le> E + W div 2" and p: "p < 2 ^ 62"
    and t: "t = p mod W"
  defines "C \<equiv> E div W * W + t"
  shows "(if C + W div 2 \<le> E \<and> C < 2 ^ 62 - W then C + W
     else if C > E + W div 2 \<and> C \<ge> W then C - W else C) = p"
proof -
  define q e r where "q = E div W" and "e = E mod W" and "r = p div W"
  have E: "E = q * W + e" "e < W" and p': "p = r * W + t" "t < W"
    using W(2) by (simp_all add: q_def e_def r_def t)
  have C: "C = q * W + t" by (simp add: C_def q_def)
  obtain h where h: "W = 2 * h" using W(1) by blast
  have "r < q + 2" 
  proof (rule ccontr)
    assume "\<not> r < q + 2"
    then have "(q + 2) * W \<le> r * W" by (intro mult_le_mono1) simp
    with E p' near h show False by (simp add: algebra_simps)
  qed
  moreover have "q < r + 2"
  proof (rule ccontr)
    assume "\<not> q < r + 2"
    then have "(r + 2) * W \<le> q * W" by (intro mult_le_mono1) simp
    with E p' near h show False by (simp add: algebra_simps)
  qed
  ultimately consider "r = q" | "r = Suc q" | "q = Suc r" by linarith
  then show ?thesis
    by cases (use E p' near h C p in \<open>simp_all add: algebra_simps\<close>)
qed

lemma packet_number_decode_near:
  assumes n: "1 \<le> n" "n \<le> 4" and lr: "unat lr < 2 ^ 62" and p: "unat pn < 2 ^ 62"
    and near: "unat lr + 1 < unat pn + 256 ^ n div 2" "unat pn \<le> unat lr + 1 + 256 ^ n div 2"
    and t: "unat t = unat pn mod 256 ^ n"
  shows "wt_quic_packet_number_decode t n lr = pn"
proof -
  have "unat t < 256 ^ n" using t by simp
  from packet_number_decode_nat [OF n this lr]
  have "unat (wt_quic_packet_number_decode t n lr) = unat pn"
    using packet_number_nearest [of "256 ^ n" "unat lr + 1" "unat pn" "unat t"] near p t n
    by simp
  then show ?thesis by (simp add: word_unat_eq_iff)
qed

lemma packet_number_encode_nat:
  assumes "1 \<le> n" "n \<le> 4"
  shows "wt_quic_packet_number_encode pn n = be_bytes n (unat pn mod 256 ^ n)"
proof -
  have and_mask: "pn AND mask k = take_bit k pn" for k by (simp add: take_bit_eq_mask)
  have tb: "unat (take_bit k pn) = unat pn mod 2 ^ k" for k
  proof -
    have "unat (take_bit k pn) = take_bit k (unat pn)" by (simp only: unsigned_take_bit_eq)
    then show ?thesis by (simp add: take_bit_eq_mod)
  qed
  have m: "(0xFF :: u64) = mask 8" "(0xFFFF :: u64) = mask 16" "(0xFFFFFF :: u64) = mask 24"
    "(0xFFFFFFFF :: u64) = mask 32" by (simp_all add: mask_eq_exp_minus_1)
  have u: "unat (pn AND 0xFFFF) = unat pn mod 65536" "unat (pn AND 0xFFFFFF) = unat pn mod 16777216"
    "unat (pn AND 0xFFFFFFFF) = unat pn mod 4294967296"
    unfolding m and_mask tb by simp_all
  consider "n = 1" | "n = 2" | "n = 3" | "n = 4" using assms by linarith
  then show ?thesis
    by cases (simp_all add: wt_quic_packet_number_encode_def wt_store_be_bytes unsigned_ucast_eq
        take_bit_eq_mod u ucast_low_byte)
qed

lemma packet_size_loop:
  "packet_number_size_loop d ns = n \<Longrightarrow> set ns \<subseteq> {1, 2, 3} \<Longrightarrow> n \<noteq> 0 \<Longrightarrow>
   1 \<le> n \<and> n \<le> 4 \<and> unat d < 256 ^ n div 2"
proof (induction ns)
  case Nil
  then show ?case
    using packet_half_nat [of 4] by (auto simp: word_less_nat_alt split: if_splits)
next
  case (Cons m ns)
  then have "1 \<le> m" "m \<le> 4" by auto
  with Cons packet_half_nat [of m] show ?case
    by (auto simp: word_less_nat_alt split: if_splits)
qed

subsection \<open>Properties\<close>

text \<open>C11: Packet number truncation loses nothing. When the sender chooses the width for \<open>pn\<close> from the
  largest number the peer acknowledged, the peer reconstructs exactly \<open>pn\<close> from the truncated
  bytes, whatever it has received since, as long as its largest received number is at least the
  acknowledged one and less than half a window past \<open>pn\<close>.\<close>

theorem wt_quic_packet_number_round_trip:
  assumes "wt_quic_packet_number_size pn la = n" "n \<noteq> 0"
    and "pn \<le> WT_QUIC_PACKET_NUMBER_MAX" "lr \<le> WT_QUIC_PACKET_NUMBER_MAX"
    and "la \<le> lr" "unat lr + 1 < unat pn + unat (wt_quic_packet_number_window n div 2)"
  shows "length (wt_quic_packet_number_encode pn n) = n \<and>
    wt_quic_packet_number_decode (of_nat (be_nat (wt_quic_packet_number_encode pn n))) n lr = pn"
proof -
  from assms(1,2) have gt: "\<not> pn \<le> la"
    and "packet_number_size_loop (pn - (la + 1)) [1, 2, 3] = n"
    by (auto simp: wt_quic_packet_number_size_def split: if_splits)
  with packet_size_loop [of "pn - (la + 1)" "[1, 2, 3]" n] assms(2)
  have n: "1 \<le> n" "n \<le> 4" and d: "unat (pn - (la + 1)) < 256 ^ n div 2" by auto
  have max: "unat pn < 2 ^ 62" "unat lr < 2 ^ 62"
    using assms(3,4) by (simp_all add: WT_QUIC_PACKET_NUMBER_MAX_def WT_QUIC_VARINT_MAX_def word_le_nat_alt)
  have la: "unat (la + 1) = unat la + 1"
    using gt unat_u64_less [of pn] unat_add_no_wrap [of la 1] by (simp add: word_le_nat_alt)
  have "unat (pn - (la + 1)) = unat pn - (unat la + 1)"
    using gt la by (subst unat_sub_le) (simp_all add: word_le_nat_alt)
  with d assms(5) have up: "unat pn \<le> unat lr + 1 + 256 ^ n div 2"
    by (simp add: word_le_nat_alt)
  have t: "unat pn mod 256 ^ n < 2 ^ 64" 
    using order_le_less_trans [OF mod_less_eq_dividend unat_u64_less] by simp
  show ?thesis
    using packet_number_decode_near [OF n max(2,1), of "of_nat (unat pn mod 256 ^ n)"]
      assms(6) up packet_half_nat [OF n] n
    by (simp add: packet_number_encode_nat be_nat_be_bytes_id unat_of_nat_u64 [OF t])
qed

theorem wt_quic_packet_number_round_trip_witness:
  "wt_quic_packet_number_size 0xac5c02 0xabe8b3 = 2 \<and>
   wt_quic_packet_number_encode 0xac5c02 2 = [0x5c, 0x02] \<and>
   wt_quic_packet_number_decode 0x5c02 2 0xabe8b3 = 0xac5c02"
proof -
  have s: "wt_quic_packet_number_size 0xac5c02 0xabe8b3 = 2" by code_simp
  have e: "wt_quic_packet_number_encode 0xac5c02 2 = [0x5c, 0x02]" by code_simp
  from wt_quic_packet_number_round_trip [OF s, of "0xabe8b3"] s e show ?thesis
    by (simp add: WT_QUIC_PACKET_NUMBER_MAX_def WT_QUIC_VARINT_MAX_def wt_quic_packet_number_window_def)
qed

end
