(* ===== verification/Quic_Frame.thy ===== *)
theory Quic_Frame
  imports Varint
begin

text \<open>
  The QUIC frame codec (\<open>C99/src/quic/frame.c\<close>, \<open>frame_encode.c\<close>, \<open>frame_names.c\<close> and
  \<open>error.c\<close>). A frame is a value of \<open>wt_quic_frame\<close>, one constructor per \<open>kind\<close> of the C
  structure with the members of its union arm; a view of bytes with its length is a byte list.
  The decoder's failure carries the status together with the transport error code the C function
  stores through \<open>out_error\<close> (\<open>None\<close> where it stores nothing).
\<close>

subsection \<open>Transport error codes (error.h)\<close>

type_synonym wt_quic_error = u64

abbreviation WT_QUIC_NO_ERROR :: wt_quic_error where "WT_QUIC_NO_ERROR \<equiv> 0x00"
abbreviation WT_QUIC_INTERNAL_ERROR :: wt_quic_error where "WT_QUIC_INTERNAL_ERROR \<equiv> 0x01"
abbreviation WT_QUIC_CONNECTION_REFUSED :: wt_quic_error where "WT_QUIC_CONNECTION_REFUSED \<equiv> 0x02"
abbreviation WT_QUIC_FLOW_CONTROL_ERROR :: wt_quic_error where "WT_QUIC_FLOW_CONTROL_ERROR \<equiv> 0x03"
abbreviation WT_QUIC_STREAM_LIMIT_ERROR :: wt_quic_error where "WT_QUIC_STREAM_LIMIT_ERROR \<equiv> 0x04"
abbreviation WT_QUIC_STREAM_STATE_ERROR :: wt_quic_error where "WT_QUIC_STREAM_STATE_ERROR \<equiv> 0x05"
abbreviation WT_QUIC_FINAL_SIZE_ERROR :: wt_quic_error where "WT_QUIC_FINAL_SIZE_ERROR \<equiv> 0x06"
abbreviation WT_QUIC_FRAME_ENCODING_ERROR :: wt_quic_error where "WT_QUIC_FRAME_ENCODING_ERROR \<equiv> 0x07"
abbreviation WT_QUIC_TRANSPORT_PARAMETER_ERROR :: wt_quic_error where
  "WT_QUIC_TRANSPORT_PARAMETER_ERROR \<equiv> 0x08"
abbreviation WT_QUIC_CONNECTION_ID_LIMIT_ERROR :: wt_quic_error where
  "WT_QUIC_CONNECTION_ID_LIMIT_ERROR \<equiv> 0x09"
abbreviation WT_QUIC_PROTOCOL_VIOLATION :: wt_quic_error where "WT_QUIC_PROTOCOL_VIOLATION \<equiv> 0x0a"
abbreviation WT_QUIC_INVALID_TOKEN :: wt_quic_error where "WT_QUIC_INVALID_TOKEN \<equiv> 0x0b"
abbreviation WT_QUIC_APPLICATION_ERROR :: wt_quic_error where "WT_QUIC_APPLICATION_ERROR \<equiv> 0x0c"
abbreviation WT_QUIC_CRYPTO_BUFFER_EXCEEDED :: wt_quic_error where
  "WT_QUIC_CRYPTO_BUFFER_EXCEEDED \<equiv> 0x0d"
abbreviation WT_QUIC_KEY_UPDATE_ERROR :: wt_quic_error where "WT_QUIC_KEY_UPDATE_ERROR \<equiv> 0x0e"
abbreviation WT_QUIC_AEAD_LIMIT_REACHED :: wt_quic_error where "WT_QUIC_AEAD_LIMIT_REACHED \<equiv> 0x0f"
abbreviation WT_QUIC_NO_VIABLE_PATH :: wt_quic_error where "WT_QUIC_NO_VIABLE_PATH \<equiv> 0x10"
abbreviation WT_QUIC_CRYPTO_ERROR_BASE :: wt_quic_error where "WT_QUIC_CRYPTO_ERROR_BASE \<equiv> 0x0100"
abbreviation WT_QUIC_CRYPTO_ERROR_LAST :: wt_quic_error where "WT_QUIC_CRYPTO_ERROR_LAST \<equiv> 0x01ff"

definition wt_quic_crypto_error :: "u8 \<Rightarrow> wt_quic_error" where
  "wt_quic_crypto_error tls_alert = WT_QUIC_CRYPTO_ERROR_BASE OR ucast tls_alert"

definition wt_quic_error_is_crypto :: "wt_quic_error \<Rightarrow> bool" where
  "wt_quic_error_is_crypto e \<longleftrightarrow> e \<ge> WT_QUIC_CRYPTO_ERROR_BASE \<and> e \<le> WT_QUIC_CRYPTO_ERROR_LAST"

definition wt_quic_error_name :: "wt_quic_error \<Rightarrow> string" where
  "wt_quic_error_name e =
     (if e = WT_QUIC_NO_ERROR then ''no-error''
      else if e = WT_QUIC_INTERNAL_ERROR then ''internal-error''
      else if e = WT_QUIC_CONNECTION_REFUSED then ''connection-refused''
      else if e = WT_QUIC_FLOW_CONTROL_ERROR then ''flow-control-error''
      else if e = WT_QUIC_STREAM_LIMIT_ERROR then ''stream-limit-error''
      else if e = WT_QUIC_STREAM_STATE_ERROR then ''stream-state-error''
      else if e = WT_QUIC_FINAL_SIZE_ERROR then ''final-size-error''
      else if e = WT_QUIC_FRAME_ENCODING_ERROR then ''frame-encoding-error''
      else if e = WT_QUIC_TRANSPORT_PARAMETER_ERROR then ''transport-parameter-error''
      else if e = WT_QUIC_CONNECTION_ID_LIMIT_ERROR then ''connection-id-limit-error''
      else if e = WT_QUIC_PROTOCOL_VIOLATION then ''protocol-violation''
      else if e = WT_QUIC_INVALID_TOKEN then ''invalid-token''
      else if e = WT_QUIC_APPLICATION_ERROR then ''application-error''
      else if e = WT_QUIC_CRYPTO_BUFFER_EXCEEDED then ''crypto-buffer-exceeded''
      else if e = WT_QUIC_KEY_UPDATE_ERROR then ''key-update-error''
      else if e = WT_QUIC_AEAD_LIMIT_REACHED then ''aead-limit-reached''
      else if e = WT_QUIC_NO_VIABLE_PATH then ''no-viable-path''
      else if wt_quic_error_is_crypto e then ''crypto'' else ''unknown'')"

subsection \<open>Frames (frame.h)\<close>

abbreviation WT_QUIC_FRAME_PADDING :: u64 where "WT_QUIC_FRAME_PADDING \<equiv> 0x00"
abbreviation WT_QUIC_FRAME_PING :: u64 where "WT_QUIC_FRAME_PING \<equiv> 0x01"
abbreviation WT_QUIC_FRAME_ACK :: u64 where "WT_QUIC_FRAME_ACK \<equiv> 0x02"
abbreviation WT_QUIC_FRAME_ACK_ECN :: u64 where "WT_QUIC_FRAME_ACK_ECN \<equiv> 0x03"
abbreviation WT_QUIC_FRAME_RESET_STREAM :: u64 where "WT_QUIC_FRAME_RESET_STREAM \<equiv> 0x04"
abbreviation WT_QUIC_FRAME_STOP_SENDING :: u64 where "WT_QUIC_FRAME_STOP_SENDING \<equiv> 0x05"
abbreviation WT_QUIC_FRAME_CRYPTO :: u64 where "WT_QUIC_FRAME_CRYPTO \<equiv> 0x06"
abbreviation WT_QUIC_FRAME_NEW_TOKEN :: u64 where "WT_QUIC_FRAME_NEW_TOKEN \<equiv> 0x07"
abbreviation WT_QUIC_FRAME_STREAM_BASE :: u64 where "WT_QUIC_FRAME_STREAM_BASE \<equiv> 0x08"
abbreviation WT_QUIC_FRAME_STREAM_LAST :: u64 where "WT_QUIC_FRAME_STREAM_LAST \<equiv> 0x0f"
abbreviation WT_QUIC_FRAME_MAX_DATA :: u64 where "WT_QUIC_FRAME_MAX_DATA \<equiv> 0x10"
abbreviation WT_QUIC_FRAME_MAX_STREAM_DATA :: u64 where "WT_QUIC_FRAME_MAX_STREAM_DATA \<equiv> 0x11"
abbreviation WT_QUIC_FRAME_MAX_STREAMS_BIDI :: u64 where "WT_QUIC_FRAME_MAX_STREAMS_BIDI \<equiv> 0x12"
abbreviation WT_QUIC_FRAME_MAX_STREAMS_UNI :: u64 where "WT_QUIC_FRAME_MAX_STREAMS_UNI \<equiv> 0x13"
abbreviation WT_QUIC_FRAME_DATA_BLOCKED :: u64 where "WT_QUIC_FRAME_DATA_BLOCKED \<equiv> 0x14"
abbreviation WT_QUIC_FRAME_STREAM_DATA_BLOCKED :: u64 where "WT_QUIC_FRAME_STREAM_DATA_BLOCKED \<equiv> 0x15"
abbreviation WT_QUIC_FRAME_STREAMS_BLOCKED_BIDI :: u64 where "WT_QUIC_FRAME_STREAMS_BLOCKED_BIDI \<equiv> 0x16"
abbreviation WT_QUIC_FRAME_STREAMS_BLOCKED_UNI :: u64 where "WT_QUIC_FRAME_STREAMS_BLOCKED_UNI \<equiv> 0x17"
abbreviation WT_QUIC_FRAME_NEW_CONNECTION_ID :: u64 where "WT_QUIC_FRAME_NEW_CONNECTION_ID \<equiv> 0x18"
abbreviation WT_QUIC_FRAME_RETIRE_CONNECTION_ID :: u64 where "WT_QUIC_FRAME_RETIRE_CONNECTION_ID \<equiv> 0x19"
abbreviation WT_QUIC_FRAME_PATH_CHALLENGE :: u64 where "WT_QUIC_FRAME_PATH_CHALLENGE \<equiv> 0x1a"
abbreviation WT_QUIC_FRAME_PATH_RESPONSE :: u64 where "WT_QUIC_FRAME_PATH_RESPONSE \<equiv> 0x1b"
abbreviation WT_QUIC_FRAME_CONNECTION_CLOSE_TRANSPORT :: u64 where
  "WT_QUIC_FRAME_CONNECTION_CLOSE_TRANSPORT \<equiv> 0x1c"
abbreviation WT_QUIC_FRAME_CONNECTION_CLOSE_APPLICATION :: u64 where
  "WT_QUIC_FRAME_CONNECTION_CLOSE_APPLICATION \<equiv> 0x1d"
abbreviation WT_QUIC_FRAME_HANDSHAKE_DONE :: u64 where "WT_QUIC_FRAME_HANDSHAKE_DONE \<equiv> 0x1e"
abbreviation WT_QUIC_FRAME_RESET_STREAM_AT :: u64 where "WT_QUIC_FRAME_RESET_STREAM_AT \<equiv> 0x24"
abbreviation WT_QUIC_FRAME_DATAGRAM :: u64 where "WT_QUIC_FRAME_DATAGRAM \<equiv> 0x30"
abbreviation WT_QUIC_FRAME_DATAGRAM_LEN :: u64 where "WT_QUIC_FRAME_DATAGRAM_LEN \<equiv> 0x31"

abbreviation WT_QUIC_STREAM_FLAG_FIN :: u8 where "WT_QUIC_STREAM_FLAG_FIN \<equiv> 0x01"
abbreviation WT_QUIC_STREAM_FLAG_LEN :: u8 where "WT_QUIC_STREAM_FLAG_LEN \<equiv> 0x02"
abbreviation WT_QUIC_STREAM_FLAG_OFF :: u8 where "WT_QUIC_STREAM_FLAG_OFF \<equiv> 0x04"

abbreviation WT_QUIC_MAX_CONNECTION_ID_LENGTH :: nat where "WT_QUIC_MAX_CONNECTION_ID_LENGTH \<equiv> 20"
abbreviation WT_QUIC_STATELESS_RESET_TOKEN_LENGTH :: nat where
  "WT_QUIC_STATELESS_RESET_TOKEN_LENGTH \<equiv> 16"
abbreviation WT_QUIC_PATH_CHALLENGE_LENGTH :: nat where "WT_QUIC_PATH_CHALLENGE_LENGTH \<equiv> 8"

datatype wt_quic_stream_direction = WT_QUIC_STREAM_BIDIRECTIONAL | WT_QUIC_STREAM_UNIDIRECTIONAL

record wt_quic_ack_range =
  range_gap :: u64
  range_length :: u64

record ack_arm =
  ack_largest :: u64
  ack_delay :: u64
  ack_first_range :: u64
  ack_ranges_bytes :: "u8 list"
  ack_range_count :: u64
  ack_has_ecn :: bool
  ack_ect0 :: u64
  ack_ect1 :: u64
  ack_ecn_ce :: u64

record stream_arm =
  stm_id :: u64
  stm_offset :: u64
  stm_has_offset :: bool
  stm_fin :: bool
  stm_has_length :: bool
  stm_data :: "u8 list"

record close_arm =
  close_has_frame_type :: bool
  close_error_code :: u64
  close_frame_type :: u64
  close_reason :: "u8 list"

text \<open>
  The arguments of the other arms, in the order of the C members: RESET_STREAM id, error code, final
  size; RESET_STREAM_AT the same and the reliable size; STOP_SENDING id, error code; CRYPTO offset,
  data; NEW_TOKEN token; MAX_STREAM_DATA id, maximum; STREAM_DATA_BLOCKED id, offset;
  NEW_CONNECTION_ID sequence, retire-prior-to, connection ID, stateless reset token.
\<close>

datatype wt_quic_frame =
    FRAME_PADDING
  | FRAME_PING
  | FRAME_ACK ack_arm
  | FRAME_RESET_STREAM u64 u64 u64
  | FRAME_STOP_SENDING u64 u64
  | FRAME_CRYPTO u64 "u8 list"
  | FRAME_NEW_TOKEN "u8 list"
  | FRAME_STREAM stream_arm
  | FRAME_MAX_DATA u64
  | FRAME_MAX_STREAM_DATA u64 u64
  | FRAME_MAX_STREAMS wt_quic_stream_direction u64
  | FRAME_DATA_BLOCKED u64
  | FRAME_STREAM_DATA_BLOCKED u64 u64
  | FRAME_STREAMS_BLOCKED wt_quic_stream_direction u64
  | FRAME_NEW_CONNECTION_ID u64 u64 "u8 list" "u8 list"
  | FRAME_RETIRE_CONNECTION_ID u64
  | FRAME_PATH_CHALLENGE "u8 list"
  | FRAME_PATH_RESPONSE "u8 list"
  | FRAME_CONNECTION_CLOSE_TRANSPORT close_arm
  | FRAME_CONNECTION_CLOSE_APPLICATION close_arm
  | FRAME_HANDSHAKE_DONE
  | FRAME_RESET_STREAM_AT u64 u64 u64 u64
  | FRAME_DATAGRAM "u8 list"

fun wt_quic_frame_kind_name :: "wt_quic_frame \<Rightarrow> string" where
  "wt_quic_frame_kind_name FRAME_PADDING = ''padding''"
| "wt_quic_frame_kind_name FRAME_PING = ''ping''"
| "wt_quic_frame_kind_name (FRAME_ACK _) = ''ack''"
| "wt_quic_frame_kind_name (FRAME_RESET_STREAM _ _ _) = ''reset-stream''"
| "wt_quic_frame_kind_name (FRAME_STOP_SENDING _ _) = ''stop-sending''"
| "wt_quic_frame_kind_name (FRAME_CRYPTO _ _) = ''crypto''"
| "wt_quic_frame_kind_name (FRAME_NEW_TOKEN _) = ''new-token''"
| "wt_quic_frame_kind_name (FRAME_STREAM _) = ''stream''"
| "wt_quic_frame_kind_name (FRAME_MAX_DATA _) = ''max-data''"
| "wt_quic_frame_kind_name (FRAME_MAX_STREAM_DATA _ _) = ''max-stream-data''"
| "wt_quic_frame_kind_name (FRAME_MAX_STREAMS _ _) = ''max-streams''"
| "wt_quic_frame_kind_name (FRAME_DATA_BLOCKED _) = ''data-blocked''"
| "wt_quic_frame_kind_name (FRAME_STREAM_DATA_BLOCKED _ _) = ''stream-data-blocked''"
| "wt_quic_frame_kind_name (FRAME_STREAMS_BLOCKED _ _) = ''streams-blocked''"
| "wt_quic_frame_kind_name (FRAME_NEW_CONNECTION_ID _ _ _ _) = ''new-connection-id''"
| "wt_quic_frame_kind_name (FRAME_RETIRE_CONNECTION_ID _) = ''retire-connection-id''"
| "wt_quic_frame_kind_name (FRAME_PATH_CHALLENGE _) = ''path-challenge''"
| "wt_quic_frame_kind_name (FRAME_PATH_RESPONSE _) = ''path-response''"
| "wt_quic_frame_kind_name (FRAME_CONNECTION_CLOSE_TRANSPORT _) = ''connection-close''"
| "wt_quic_frame_kind_name (FRAME_CONNECTION_CLOSE_APPLICATION _) = ''connection-close-application''"
| "wt_quic_frame_kind_name FRAME_HANDSHAKE_DONE = ''handshake-done''"
| "wt_quic_frame_kind_name (FRAME_RESET_STREAM_AT _ _ _ _) = ''reset-stream-at''"
| "wt_quic_frame_kind_name (FRAME_DATAGRAM _) = ''datagram''"

subsection \<open>Decoding (frame.c)\<close>

type_synonym frame_fail = "wt_status \<times> wt_quic_error option"
type_synonym 'a frame_reader = "(frame_fail, 'a) xreader"

definition wt_quic_take :: "u64 \<Rightarrow> u8 list frame_reader" where
  "wt_quic_take n c =
     (case wt_checked_narrow_u64_to_size n of
        Inl _ \<Rightarrow> (Inl (WT_ERR_OVERFLOW, None), c)
      | Inr narrowed \<Rightarrow>
          if narrowed > wt_cursor_remaining c then (Inl (WT_ERR_TRUNCATED, None), c)
          else (case wt_cursor_bytes c narrowed of
                  (p, c') \<Rightarrow> (Inr (case p of None \<Rightarrow> [] | Some bs \<Rightarrow> bs), c')))"

definition wt_quic_read_varint :: "u64 frame_reader" where
  "wt_quic_read_varint c =
     (case wt_quic_varint_decode c of
        (Inl _, c') \<Rightarrow> (Inl (WT_ERR_TRUNCATED, None), c')
      | (Inr v, c') \<Rightarrow> (Inr v, c'))"

definition wt_quic_decode_fail :: "wt_quic_error \<Rightarrow> 'a frame_reader" where
  "wt_quic_decode_fail code = rfail (WT_ERR_PROTOCOL, Some code)"

text \<open>A view whose NULL is answered with \<open>WT_ERR_TRUNCATED\<close>.\<close>

definition frame_bytes_view :: "nat \<Rightarrow> u8 list frame_reader" where
  "frame_bytes_view n c =
     (case wt_cursor_bytes c (of_nat n) of
        (None, c') \<Rightarrow> (Inl (WT_ERR_TRUNCATED, None), c')
      | (Some bs, c') \<Rightarrow> (Inr bs, c'))"

text \<open>
  The walk over the ranges of an ACK frame: each round starts a probe cursor behind the bytes already
  accounted for, reads a gap and a length, and adds what the probe consumed.
\<close>

fun ack_ranges_walk :: "nat \<Rightarrow> u8 list option \<Rightarrow> u64 \<Rightarrow> u64 \<Rightarrow> u64 option" where
  "ack_ranges_walk 0 rest available consumed = Some consumed"
| "ack_ranges_walk (Suc n) rest available consumed =
     (let probe = wt_cursor_init (map_option (drop (unat consumed)) rest) (available - consumed) in
      case rbind wt_quic_read_varint (\<lambda>gap. wt_quic_read_varint) probe of
        (Inl _, _) \<Rightarrow> None
      | (Inr _, probe') \<Rightarrow> ack_ranges_walk n rest available (consumed + cur_offset probe'))"

definition decode_ack_ranges :: "u64 \<Rightarrow> u8 list frame_reader" where
  "decode_ack_ranges range_count c =
     (case wt_cursor_rest c of
        (rest, available) \<Rightarrow>
          (case ack_ranges_walk (unat range_count) rest available 0 of
             None \<Rightarrow> (Inl (WT_ERR_TRUNCATED, None), c)
           | Some consumed \<Rightarrow>
               (Inr (case rest of None \<Rightarrow> [] | Some bs \<Rightarrow> take (unat consumed) bs),
                snd (wt_cursor_skip c consumed))))"

definition decode_ack :: "bool \<Rightarrow> wt_quic_frame frame_reader" where
  "decode_ack ecn =
     rbind wt_quic_read_varint (\<lambda>largest.
     rbind wt_quic_read_varint (\<lambda>delay.
     rbind wt_quic_read_varint (\<lambda>range_count.
     rbind wt_quic_read_varint (\<lambda>first_range.
     rbind (decode_ack_ranges range_count) (\<lambda>ranges.
     if ecn then
       rbind wt_quic_read_varint (\<lambda>ect0.
       rbind wt_quic_read_varint (\<lambda>ect1.
       rbind wt_quic_read_varint (\<lambda>ecn_ce.
         rreturn (FRAME_ACK \<lparr>ack_largest = largest, ack_delay = delay, ack_first_range = first_range,
           ack_ranges_bytes = ranges, ack_range_count = range_count, ack_has_ecn = True,
           ack_ect0 = ect0, ack_ect1 = ect1, ack_ecn_ce = ecn_ce\<rparr>))))
     else
       rreturn (FRAME_ACK \<lparr>ack_largest = largest, ack_delay = delay, ack_first_range = first_range,
         ack_ranges_bytes = ranges, ack_range_count = range_count, ack_has_ecn = False,
         ack_ect0 = 0, ack_ect1 = 0, ack_ecn_ce = 0\<rparr>))))))"

definition decode_new_connection_id :: "wt_quic_frame frame_reader" where
  "decode_new_connection_id =
     rbind wt_quic_read_varint (\<lambda>sequence.
     rbind wt_quic_read_varint (\<lambda>retire_prior_to.
     rbind (frame_bytes_view 1) (\<lambda>at.
     let len = at ! 0 in
     if len < 1 \<or> unat len > WT_QUIC_MAX_CONNECTION_ID_LENGTH
     then wt_quic_decode_fail WT_QUIC_FRAME_ENCODING_ERROR
     else
       rbind (frame_bytes_view (unat len)) (\<lambda>connection_id.
       rbind (frame_bytes_view WT_QUIC_STATELESS_RESET_TOKEN_LENGTH) (\<lambda>token.
       if retire_prior_to > sequence then wt_quic_decode_fail WT_QUIC_FRAME_ENCODING_ERROR
       else rreturn (FRAME_NEW_CONNECTION_ID sequence retire_prior_to connection_id token))))))"

definition decode_connection_close :: "bool \<Rightarrow> wt_quic_frame frame_reader" where
  "decode_connection_close transport =
     rbind wt_quic_read_varint (\<lambda>error_code.
     rbind (if transport then wt_quic_read_varint else rreturn 0) (\<lambda>frame_type.
     rbind wt_quic_read_varint (\<lambda>reason_length.
     rbind (wt_quic_take reason_length) (\<lambda>reason.
     let close = \<lparr>close_has_frame_type = transport, close_error_code = error_code,
                  close_frame_type = frame_type, close_reason = reason\<rparr> in
     rreturn (if transport then FRAME_CONNECTION_CLOSE_TRANSPORT close
              else FRAME_CONNECTION_CLOSE_APPLICATION close)))))"

text \<open>The rest of the packet as the data of a frame without a length.\<close>

definition decode_rest :: "u8 list frame_reader" where
  "decode_rest c =
     (case wt_cursor_rest c of
        (rest, remaining) \<Rightarrow>
          (Inr (case rest of None \<Rightarrow> [] | Some bs \<Rightarrow> take (unat remaining) bs),
           if remaining \<noteq> 0 then snd (wt_cursor_skip c remaining) else c))"

definition decode_stream :: "u64 \<Rightarrow> wt_quic_frame frame_reader" where
  "decode_stream type =
     (let flags = (ucast (type AND 0x07) :: u8);
          has_offset = (flags AND WT_QUIC_STREAM_FLAG_OFF \<noteq> 0);
          has_length = (flags AND WT_QUIC_STREAM_FLAG_LEN \<noteq> 0);
          fin = (flags AND WT_QUIC_STREAM_FLAG_FIN \<noteq> 0)
      in rbind wt_quic_read_varint (\<lambda>id.
         rbind (if has_offset then wt_quic_read_varint else rreturn 0) (\<lambda>offset.
         rbind (if has_length then rbind wt_quic_read_varint wt_quic_take else decode_rest) (\<lambda>data.
         rreturn (FRAME_STREAM \<lparr>stm_id = id, stm_offset = offset, stm_has_offset = has_offset,
           stm_fin = fin, stm_has_length = has_length, stm_data = data\<rparr>)))))"

definition stream_limit :: u64 where
  "stream_limit = push_bit 60 1"

definition wt_quic_frame_body :: "u64 \<Rightarrow> wt_quic_frame frame_reader" where
  "wt_quic_frame_body type =
     (if type = WT_QUIC_FRAME_PADDING then rreturn FRAME_PADDING
      else if type = WT_QUIC_FRAME_PING then rreturn FRAME_PING
      else if type = WT_QUIC_FRAME_ACK \<or> type = WT_QUIC_FRAME_ACK_ECN
      then decode_ack (type = WT_QUIC_FRAME_ACK_ECN)
      else if type = WT_QUIC_FRAME_RESET_STREAM then
        rbind wt_quic_read_varint (\<lambda>id. rbind wt_quic_read_varint (\<lambda>code.
        rbind wt_quic_read_varint (\<lambda>final_size. rreturn (FRAME_RESET_STREAM id code final_size))))
      else if type = WT_QUIC_FRAME_RESET_STREAM_AT then
        rbind wt_quic_read_varint (\<lambda>id. rbind wt_quic_read_varint (\<lambda>code.
        rbind wt_quic_read_varint (\<lambda>final_size. rbind wt_quic_read_varint (\<lambda>reliable_size.
        if reliable_size > final_size then wt_quic_decode_fail WT_QUIC_FRAME_ENCODING_ERROR
        else rreturn (FRAME_RESET_STREAM_AT id code final_size reliable_size)))))
      else if type = WT_QUIC_FRAME_STOP_SENDING then
        rbind wt_quic_read_varint (\<lambda>id. rbind wt_quic_read_varint (\<lambda>code.
        rreturn (FRAME_STOP_SENDING id code)))
      else if type = WT_QUIC_FRAME_CRYPTO then
        rbind wt_quic_read_varint (\<lambda>offset. rbind wt_quic_read_varint (\<lambda>len.
        rbind (wt_quic_take len) (\<lambda>data. rreturn (FRAME_CRYPTO offset data))))
      else if type = WT_QUIC_FRAME_NEW_TOKEN then
        rbind wt_quic_read_varint (\<lambda>len.
        if len = 0 then wt_quic_decode_fail WT_QUIC_FRAME_ENCODING_ERROR
        else rbind (wt_quic_take len) (\<lambda>token. rreturn (FRAME_NEW_TOKEN token)))
      else if type = WT_QUIC_FRAME_MAX_DATA then
        rbind wt_quic_read_varint (\<lambda>maximum. rreturn (FRAME_MAX_DATA maximum))
      else if type = WT_QUIC_FRAME_MAX_STREAM_DATA then
        rbind wt_quic_read_varint (\<lambda>id. rbind wt_quic_read_varint (\<lambda>maximum.
        rreturn (FRAME_MAX_STREAM_DATA id maximum)))
      else if type = WT_QUIC_FRAME_MAX_STREAMS_BIDI \<or> type = WT_QUIC_FRAME_MAX_STREAMS_UNI then
        rbind wt_quic_read_varint (\<lambda>maximum.
        if maximum > stream_limit then wt_quic_decode_fail WT_QUIC_FRAME_ENCODING_ERROR
        else rreturn (FRAME_MAX_STREAMS
          (if type = WT_QUIC_FRAME_MAX_STREAMS_BIDI then WT_QUIC_STREAM_BIDIRECTIONAL
           else WT_QUIC_STREAM_UNIDIRECTIONAL) maximum))
      else if type = WT_QUIC_FRAME_DATA_BLOCKED then
        rbind wt_quic_read_varint (\<lambda>maximum. rreturn (FRAME_DATA_BLOCKED maximum))
      else if type = WT_QUIC_FRAME_STREAM_DATA_BLOCKED then
        rbind wt_quic_read_varint (\<lambda>id. rbind wt_quic_read_varint (\<lambda>offset.
        rreturn (FRAME_STREAM_DATA_BLOCKED id offset)))
      else if type = WT_QUIC_FRAME_STREAMS_BLOCKED_BIDI \<or> type = WT_QUIC_FRAME_STREAMS_BLOCKED_UNI then
        rbind wt_quic_read_varint (\<lambda>maximum.
        if maximum > stream_limit then wt_quic_decode_fail WT_QUIC_FRAME_ENCODING_ERROR
        else rreturn (FRAME_STREAMS_BLOCKED
          (if type = WT_QUIC_FRAME_STREAMS_BLOCKED_BIDI then WT_QUIC_STREAM_BIDIRECTIONAL
           else WT_QUIC_STREAM_UNIDIRECTIONAL) maximum))
      else if type = WT_QUIC_FRAME_NEW_CONNECTION_ID then decode_new_connection_id
      else if type = WT_QUIC_FRAME_RETIRE_CONNECTION_ID then
        rbind wt_quic_read_varint (\<lambda>sequence. rreturn (FRAME_RETIRE_CONNECTION_ID sequence))
      else if type = WT_QUIC_FRAME_PATH_CHALLENGE then
        rbind (frame_bytes_view WT_QUIC_PATH_CHALLENGE_LENGTH) (\<lambda>data. rreturn (FRAME_PATH_CHALLENGE data))
      else if type = WT_QUIC_FRAME_PATH_RESPONSE then
        rbind (frame_bytes_view WT_QUIC_PATH_CHALLENGE_LENGTH) (\<lambda>data. rreturn (FRAME_PATH_RESPONSE data))
      else if type = WT_QUIC_FRAME_CONNECTION_CLOSE_TRANSPORT \<or>
              type = WT_QUIC_FRAME_CONNECTION_CLOSE_APPLICATION then
        decode_connection_close (type = WT_QUIC_FRAME_CONNECTION_CLOSE_TRANSPORT)
      else if type = WT_QUIC_FRAME_HANDSHAKE_DONE then rreturn FRAME_HANDSHAKE_DONE
      else if type = WT_QUIC_FRAME_DATAGRAM then
        rbind decode_rest (\<lambda>data. rreturn (FRAME_DATAGRAM data))
      else if type = WT_QUIC_FRAME_DATAGRAM_LEN then
        rbind wt_quic_read_varint (\<lambda>len. rbind (wt_quic_take len) (\<lambda>data. rreturn (FRAME_DATAGRAM data)))
      else if type \<ge> WT_QUIC_FRAME_STREAM_BASE \<and> type \<le> WT_QUIC_FRAME_STREAM_LAST
      then decode_stream type
      else wt_quic_decode_fail WT_QUIC_FRAME_ENCODING_ERROR)"

definition wt_quic_frame_decode :: "wt_quic_frame frame_reader" where
  "wt_quic_frame_decode c =
     (case wt_quic_varint_decode_sized c of
        (Inl _, c') \<Rightarrow> (Inl (WT_ERR_TRUNCATED, None), c')
      | (Inr (type, type_size), c') \<Rightarrow>
          if \<not> wt_quic_varint_is_minimal type type_size
          then wt_quic_decode_fail WT_QUIC_PROTOCOL_VIOLATION c'
          else wt_quic_frame_body type c')"

text \<open>The loop of \<open>wt_quic_frame_ack_range_at\<close>: read \<open>index + 1\<close> pairs, keep the last.\<close>

fun ack_range_loop :: "nat \<Rightarrow> wt_quic_ack_range wt_reader" where
  "ack_range_loop i =
     rbind wt_quic_varint_decode (\<lambda>gap. rbind wt_quic_varint_decode (\<lambda>len.
       case i of 0 \<Rightarrow> rreturn \<lparr>range_gap = gap, range_length = len\<rparr> | Suc j \<Rightarrow> ack_range_loop j))"

declare ack_range_loop.simps [simp del]

definition wt_quic_frame_ack_range_at :: "wt_quic_frame \<Rightarrow> u64 \<Rightarrow> wt_quic_ack_range wt_result" where
  "wt_quic_frame_ack_range_at frame index =
     (case frame of
        FRAME_ACK ack \<Rightarrow>
          if index \<ge> ack_range_count ack then Inl WT_ERR_INVALID_ARGUMENT
          else (case fst (ack_range_loop (unat index) (cursor_of (ack_ranges_bytes ack))) of
                  Inl _ \<Rightarrow> Inl WT_ERR_TRUNCATED
                | Inr rng \<Rightarrow> Inr rng)
      | _ \<Rightarrow> Inl WT_ERR_INVALID_ARGUMENT)"

subsection \<open>Encoding (frame_encode.c)\<close>

definition wt_quic_encode_fail :: wt_status where
  "wt_quic_encode_fail = WT_ERR_INVALID_ARGUMENT"

text \<open>An encoder that ends in \<open>return wt_writer_ok(w) ? WT_OK : WT_ERR_LIMIT\<close>.\<close>

definition emit_status :: "(wt_writer \<Rightarrow> wt_writer) list \<Rightarrow> wt_writer \<Rightarrow> wt_status \<times> wt_writer" where
  "emit_status fs w = (let w' = emit fs w in (writer_status w', w'))"

text \<open>The loop over the ranges of an ACK frame from index \<open>i\<close>, with \<open>n\<close> ranges to go.\<close>

fun encode_ack_ranges :: "wt_quic_frame \<Rightarrow> nat \<Rightarrow> u64 \<Rightarrow> wt_writer \<Rightarrow> wt_status \<times> wt_writer" where
  "encode_ack_ranges frame 0 i w = (WT_OK, w)"
| "encode_ack_ranges frame (Suc n) i w =
     (case wt_quic_frame_ack_range_at frame i of
        Inl _ \<Rightarrow> (wt_quic_encode_fail, w)
      | Inr rng \<Rightarrow>
          encode_ack_ranges frame n (i + 1)
            (emit [put_varint (range_gap rng), put_varint (range_length rng)] w))"

definition encode_ack :: "ack_arm \<Rightarrow> wt_writer \<Rightarrow> wt_status \<times> wt_writer" where
  "encode_ack ack w =
     (case encode_ack_ranges (FRAME_ACK ack) (unat (ack_range_count ack)) 0
         (emit [put_varint (if ack_has_ecn ack then WT_QUIC_FRAME_ACK_ECN else WT_QUIC_FRAME_ACK),
            put_varint (ack_largest ack), put_varint (ack_delay ack),
            put_varint (ack_range_count ack), put_varint (ack_first_range ack)] w) of
        (status, w1) \<Rightarrow>
          if status \<noteq> WT_OK then (status, w1)
          else emit_status
            (if ack_has_ecn ack
             then [put_varint (ack_ect0 ack), put_varint (ack_ect1 ack), put_varint (ack_ecn_ce ack)]
             else []) w1)"

definition stream_flags :: "stream_arm \<Rightarrow> u8" where
  "stream_flags s =
     (let f0 = 0;
          f1 = (if stm_has_offset s then f0 OR WT_QUIC_STREAM_FLAG_OFF else f0);
          f2 = (if stm_has_length s then f1 OR WT_QUIC_STREAM_FLAG_LEN else f1)
      in if stm_fin s then f2 OR WT_QUIC_STREAM_FLAG_FIN else f2)"

definition encode_stream :: "stream_arm \<Rightarrow> wt_writer \<Rightarrow> wt_status \<times> wt_writer" where
  "encode_stream s =
     emit_status
       ([put_varint (WT_QUIC_FRAME_STREAM_BASE OR ucast (stream_flags s)), put_varint (stm_id s)] @
        (if stm_has_offset s then [put_varint (stm_offset s)] else []) @
        (if stm_has_length s then [put_varint (of_nat (length (stm_data s)))] else []) @
        [wt_writer_bytes (stm_data s)])"

definition encode_connection_close :: "bool \<Rightarrow> close_arm \<Rightarrow> wt_writer \<Rightarrow> wt_status \<times> wt_writer" where
  "encode_connection_close transport close w =
     (let w1 = emit [put_varint (if transport then WT_QUIC_FRAME_CONNECTION_CLOSE_TRANSPORT
                                 else WT_QUIC_FRAME_CONNECTION_CLOSE_APPLICATION),
                     put_varint (close_error_code close)] w;
          rest = [put_varint (of_nat (length (close_reason close))),
                  wt_writer_bytes (close_reason close)]
      in if close_has_frame_type close then
           if \<not> transport then (wt_quic_encode_fail, w1)
           else emit_status (put_varint (close_frame_type close) # rest) w1
         else if transport then emit_status (put_varint 0 # rest) w1
         else emit_status rest w1)"

text \<open>
  The three frames without a body return \<open>WT_OK\<close> whatever the writer did. The stateless reset token
  and the path data are arrays of fixed length in C: exactly that many bytes are written.
\<close>

definition wt_quic_frame_encode :: "wt_quic_frame \<Rightarrow> wt_writer \<Rightarrow> wt_status \<times> wt_writer" where
  "wt_quic_frame_encode frame w =
     (if wr_overflow w then (WT_ERR_LIMIT, w)
      else case frame of
        FRAME_PADDING \<Rightarrow> (WT_OK, put_varint WT_QUIC_FRAME_PADDING w)
      | FRAME_PING \<Rightarrow> (WT_OK, put_varint WT_QUIC_FRAME_PING w)
      | FRAME_ACK ack \<Rightarrow> encode_ack ack w
      | FRAME_CRYPTO offset data \<Rightarrow>
          emit_status [put_varint WT_QUIC_FRAME_CRYPTO, put_varint offset,
            put_varint (of_nat (length data)), wt_writer_bytes data] w
      | FRAME_NEW_TOKEN token \<Rightarrow>
          if length token = 0 then (wt_quic_encode_fail, w)
          else emit_status [put_varint WT_QUIC_FRAME_NEW_TOKEN, put_varint (of_nat (length token)),
            wt_writer_bytes token] w
      | FRAME_STREAM s \<Rightarrow> encode_stream s w
      | FRAME_RESET_STREAM sid code final_size \<Rightarrow>
          emit_status [put_varint WT_QUIC_FRAME_RESET_STREAM, put_varint sid, put_varint code,
            put_varint final_size] w
      | FRAME_RESET_STREAM_AT sid code final_size reliable_size \<Rightarrow>
          if reliable_size > final_size then (wt_quic_encode_fail, w)
          else emit_status [put_varint WT_QUIC_FRAME_RESET_STREAM_AT, put_varint sid, put_varint code,
            put_varint final_size, put_varint reliable_size] w
      | FRAME_STOP_SENDING sid code \<Rightarrow>
          emit_status [put_varint WT_QUIC_FRAME_STOP_SENDING, put_varint sid, put_varint code] w
      | FRAME_MAX_DATA maximum \<Rightarrow>
          emit_status [put_varint WT_QUIC_FRAME_MAX_DATA, put_varint maximum] w
      | FRAME_MAX_STREAM_DATA sid maximum \<Rightarrow>
          emit_status [put_varint WT_QUIC_FRAME_MAX_STREAM_DATA, put_varint sid, put_varint maximum] w
      | FRAME_MAX_STREAMS direction maximum \<Rightarrow>
          emit_status [put_varint (if direction = WT_QUIC_STREAM_BIDIRECTIONAL
              then WT_QUIC_FRAME_MAX_STREAMS_BIDI else WT_QUIC_FRAME_MAX_STREAMS_UNI),
            put_varint maximum] w
      | FRAME_DATA_BLOCKED maximum \<Rightarrow>
          emit_status [put_varint WT_QUIC_FRAME_DATA_BLOCKED, put_varint maximum] w
      | FRAME_STREAM_DATA_BLOCKED sid offset \<Rightarrow>
          emit_status [put_varint WT_QUIC_FRAME_STREAM_DATA_BLOCKED, put_varint sid, put_varint offset] w
      | FRAME_STREAMS_BLOCKED direction maximum \<Rightarrow>
          emit_status [put_varint (if direction = WT_QUIC_STREAM_BIDIRECTIONAL
              then WT_QUIC_FRAME_STREAMS_BLOCKED_BIDI else WT_QUIC_FRAME_STREAMS_BLOCKED_UNI),
            put_varint maximum] w
      | FRAME_NEW_CONNECTION_ID sequence retire_prior_to connection_id token \<Rightarrow>
          if length connection_id < 1 \<or> length connection_id > WT_QUIC_MAX_CONNECTION_ID_LENGTH
          then (wt_quic_encode_fail, w)
          else if retire_prior_to > sequence then (wt_quic_encode_fail, w)
          else emit_status [put_varint WT_QUIC_FRAME_NEW_CONNECTION_ID, put_varint sequence,
            put_varint retire_prior_to, wt_writer_u8 (of_nat (length connection_id)),
            wt_writer_bytes connection_id,
            wt_writer_bytes (take WT_QUIC_STATELESS_RESET_TOKEN_LENGTH token)] w
      | FRAME_RETIRE_CONNECTION_ID sequence \<Rightarrow>
          emit_status [put_varint WT_QUIC_FRAME_RETIRE_CONNECTION_ID, put_varint sequence] w
      | FRAME_PATH_CHALLENGE data \<Rightarrow>
          emit_status [put_varint WT_QUIC_FRAME_PATH_CHALLENGE,
            wt_writer_bytes (take WT_QUIC_PATH_CHALLENGE_LENGTH data)] w
      | FRAME_PATH_RESPONSE data \<Rightarrow>
          emit_status [put_varint WT_QUIC_FRAME_PATH_RESPONSE,
            wt_writer_bytes (take WT_QUIC_PATH_CHALLENGE_LENGTH data)] w
      | FRAME_CONNECTION_CLOSE_TRANSPORT close \<Rightarrow> encode_connection_close True close w
      | FRAME_CONNECTION_CLOSE_APPLICATION close \<Rightarrow> encode_connection_close False close w
      | FRAME_HANDSHAKE_DONE \<Rightarrow> (WT_OK, put_varint WT_QUIC_FRAME_HANDSHAKE_DONE w)
      | FRAME_DATAGRAM data \<Rightarrow>
          emit_status [put_varint WT_QUIC_FRAME_DATAGRAM_LEN, put_varint (of_nat (length data)),
            wt_writer_bytes data] w)"

subsection \<open>Safety and progress of the decoder\<close>

lemma reader_safe_take [simp]: "reader_safe (wt_quic_take n)"
  unfolding reader_safe_def
proof (intro allI impI)
  fix c assume "cursor_inv c"
  with cursor_step_take [OF this] show "cursor_step c (snd (wt_quic_take n c))"
    by (auto simp: wt_quic_take_def wt_cursor_bytes_def split: prod.splits) (metis snd_conv)
qed

lemma reader_safe_read_varint [simp]: "reader_safe wt_quic_read_varint"
  using reader_safe_varint
  by (auto simp: reader_safe_def wt_quic_read_varint_def split: prod.splits sum.splits)

lemma reader_safe_view [simp]: "reader_safe (frame_bytes_view n)"
  unfolding reader_safe_def
proof (intro allI impI)
  fix c assume "cursor_inv c"
  from cursor_step_take [OF this, of "of_nat n"] show "cursor_step c (snd (frame_bytes_view n c))"
    by (auto simp: frame_bytes_view_def wt_cursor_bytes_def split: prod.splits option.splits)
qed

lemma cursor_step_skip: "cursor_inv c \<Longrightarrow> cursor_step c (snd (wt_cursor_skip c n))"
  using cursor_step_take [of c n] by (auto simp: wt_cursor_skip_def split: prod.splits option.splits)

lemma reader_safe_ack_ranges [simp]: "reader_safe (decode_ack_ranges n)"
  by (auto simp: reader_safe_def decode_ack_ranges_def cursor_step_skip split: prod.splits option.splits)

lemma reader_safe_rest [simp]: "reader_safe decode_rest"
  by (auto simp: reader_safe_def decode_rest_def cursor_step_skip split: prod.splits)

lemma reader_safe_decode_fail [simp]: "reader_safe (wt_quic_decode_fail e)"
  by (simp add: wt_quic_decode_fail_def)

lemma reader_safe_frame_body [simp]: "reader_safe (wt_quic_frame_body type)"
  by (simp add: wt_quic_frame_body_def decode_ack_def decode_new_connection_id_def
      decode_connection_close_def decode_stream_def Let_def reader_safe_bind)

lemma reader_safe_frame_decode [simp]: "reader_safe wt_quic_frame_decode"
  unfolding reader_safe_def
proof (intro allI impI)
  fix c assume inv: "cursor_inv c"
  obtain r c' where d: "wt_quic_varint_decode_sized c = (r, c')" by fastforce
  with reader_safeD [OF reader_safe_varint_sized inv] have step: "cursor_step c c'" by simp
  have "cursor_step c' (snd (m c'))" if "reader_safe m" for m :: "wt_quic_frame frame_reader"
    using reader_safeD [OF that cursor_step_inv [OF step]] .
  with step cursor_step_trans [OF step] d show "cursor_step c (snd (wt_quic_frame_decode c))"
    by (auto simp: wt_quic_frame_decode_def split: sum.splits)
qed

lemma cursor_skip_shrinks: "wt_cursor_remaining (snd (wt_cursor_skip c n)) \<le> wt_cursor_remaining c"
  using cursor_take_shrinks [of c n] by (auto simp: wt_cursor_skip_def split: prod.splits option.splits)

lemma reader_shrinks_take [simp]: "reader_shrinks (wt_quic_take n)"
  unfolding reader_shrinks_def
proof
  fix c
  show "wt_cursor_remaining (snd (wt_quic_take n c)) \<le> wt_cursor_remaining c"
    using cursor_take_shrinks [of c]
    by (auto simp: wt_quic_take_def wt_cursor_bytes_def split: sum.splits prod.splits) (metis snd_conv)
qed

lemma reader_shrinks_read_varint [simp]: "reader_shrinks wt_quic_read_varint"
  unfolding reader_shrinks_def wt_quic_read_varint_def
  by (auto split: prod.splits sum.splits intro: reader_shrinksD [OF reader_shrinks_varint])

lemma reader_shrinks_view [simp]: "reader_shrinks (frame_bytes_view n)"
  unfolding reader_shrinks_def
proof
  fix c
  from cursor_take_shrinks [of c "of_nat n"]
  show "wt_cursor_remaining (snd (frame_bytes_view n c)) \<le> wt_cursor_remaining c"
    by (auto simp: frame_bytes_view_def wt_cursor_bytes_def split: prod.splits option.splits)
qed

lemma reader_shrinks_ack_ranges [simp]: "reader_shrinks (decode_ack_ranges n)"
  by (auto simp: reader_shrinks_def decode_ack_ranges_def cursor_skip_shrinks split: prod.splits option.splits)

lemma reader_shrinks_rest [simp]: "reader_shrinks decode_rest"
  by (auto simp: reader_shrinks_def decode_rest_def cursor_skip_shrinks split: prod.splits)

lemma reader_shrinks_frame_body [simp]: "reader_shrinks (wt_quic_frame_body type)"
  by (simp add: wt_quic_frame_body_def decode_ack_def decode_new_connection_id_def
      decode_connection_close_def decode_stream_def wt_quic_decode_fail_def Let_def reader_shrinks_bind)

lemma frame_decode_progress:
  assumes "wt_quic_frame_decode c = (Inr frame, c')"
  shows "wt_cursor_remaining c' < wt_cursor_remaining c"
proof -
  from assms obtain type n c1 where d: "wt_quic_varint_decode_sized c = (Inr (type, n), c1)"
    and body: "wt_quic_frame_body type c1 = (Inr frame, c')"
    by (auto simp: wt_quic_frame_decode_def wt_quic_decode_fail_def rfail_def
        split: prod.splits sum.splits if_splits)
  from varint_sized_progress [OF d] have "wt_cursor_remaining c1 < wt_cursor_remaining c" by simp
  with reader_shrinksD [OF reader_shrinks_frame_body body] show ?thesis by (rule le_less_trans)
qed

subsection \<open>Decoding a whole packet payload\<close>

text \<open>The visitor is the caller's callback: it sees each frame and its own context, which it may
  change, and stops the loop with any status but \<open>WT_OK\<close>. A NULL visitor is the one that returns
  \<open>WT_OK\<close> and leaves the context alone.\<close>

type_synonym 's frame_visitor = "'s \<Rightarrow> wt_quic_frame \<Rightarrow> wt_status \<times> 's"

function frames_loop :: "'s frame_visitor \<Rightarrow> wt_cursor \<Rightarrow> 's \<Rightarrow> frame_fail \<times> 's" where
  "frames_loop visit c ctx =
     (if wt_cursor_remaining c > 0 then
        (case wt_quic_frame_decode c of
           (Inl e, c') \<Rightarrow> (e, ctx)
         | (Inr frame, c') \<Rightarrow>
             (case visit ctx frame of
                (status, ctx') \<Rightarrow>
                  if status \<noteq> WT_OK then ((status, None), ctx') else frames_loop visit c' ctx'))
      else ((WT_OK, None), ctx))"
  by pat_completeness auto
termination
  by (relation "measure (\<lambda>(_, c, _). unat (wt_cursor_remaining c))")
    (auto simp: word_less_nat_alt [symmetric] intro: frame_decode_progress [OF sym])

declare frames_loop.simps [simp del]

definition wt_quic_frames_decode :: "'s frame_visitor \<Rightarrow> u8 list option \<Rightarrow> u64 \<Rightarrow> 's \<Rightarrow> frame_fail \<times> 's" where
  "wt_quic_frames_decode visit data len ctx =
     (if data = None \<and> len \<noteq> 0 then ((WT_ERR_INVALID_ARGUMENT, None), ctx)
      else frames_loop visit (wt_cursor_init data len) ctx)"

subsection \<open>The wire image of a frame\<close>

definition ack_range_bytes :: "wt_quic_ack_range list \<Rightarrow> u8 list" where
  "ack_range_bytes rs = concat (map (\<lambda>r. varint_bytes (range_gap r) @ varint_bytes (range_length r)) rs)"

definition ack_range_valid :: "wt_quic_ack_range \<Rightarrow> bool" where
  "ack_range_valid r \<longleftrightarrow> varint_valid (range_gap r) \<and> varint_valid (range_length r)"

fun frame_type :: "wt_quic_frame \<Rightarrow> u64" where
  "frame_type FRAME_PADDING = 0x00"
| "frame_type FRAME_PING = 0x01"
| "frame_type (FRAME_ACK ack) = (if ack_has_ecn ack then 0x03 else 0x02)"
| "frame_type (FRAME_RESET_STREAM _ _ _) = 0x04"
| "frame_type (FRAME_STOP_SENDING _ _) = 0x05"
| "frame_type (FRAME_CRYPTO _ _) = 0x06"
| "frame_type (FRAME_NEW_TOKEN _) = 0x07"
| "frame_type (FRAME_STREAM s) = 0x08 + (if stm_has_offset s then 4 else 0) +
     (if stm_has_length s then 2 else 0) + (if stm_fin s then 1 else 0)"
| "frame_type (FRAME_MAX_DATA _) = 0x10"
| "frame_type (FRAME_MAX_STREAM_DATA _ _) = 0x11"
| "frame_type (FRAME_MAX_STREAMS d _) = (if d = WT_QUIC_STREAM_BIDIRECTIONAL then 0x12 else 0x13)"
| "frame_type (FRAME_DATA_BLOCKED _) = 0x14"
| "frame_type (FRAME_STREAM_DATA_BLOCKED _ _) = 0x15"
| "frame_type (FRAME_STREAMS_BLOCKED d _) = (if d = WT_QUIC_STREAM_BIDIRECTIONAL then 0x16 else 0x17)"
| "frame_type (FRAME_NEW_CONNECTION_ID _ _ _ _) = 0x18"
| "frame_type (FRAME_RETIRE_CONNECTION_ID _) = 0x19"
| "frame_type (FRAME_PATH_CHALLENGE _) = 0x1a"
| "frame_type (FRAME_PATH_RESPONSE _) = 0x1b"
| "frame_type (FRAME_CONNECTION_CLOSE_TRANSPORT _) = 0x1c"
| "frame_type (FRAME_CONNECTION_CLOSE_APPLICATION _) = 0x1d"
| "frame_type FRAME_HANDSHAKE_DONE = 0x1e"
| "frame_type (FRAME_RESET_STREAM_AT _ _ _ _) = 0x24"
| "frame_type (FRAME_DATAGRAM _) = 0x31"

fun frame_fields :: "wt_quic_frame \<Rightarrow> wire_field list" where
  "frame_fields (FRAME_ACK ack) =
     [VARINT (ack_largest ack), VARINT (ack_delay ack), VARINT (ack_range_count ack),
      VARINT (ack_first_range ack), BYTES (ack_ranges_bytes ack)] @
     (if ack_has_ecn ack
      then [VARINT (ack_ect0 ack), VARINT (ack_ect1 ack), VARINT (ack_ecn_ce ack)] else [])"
| "frame_fields (FRAME_RESET_STREAM a b c) = [VARINT a, VARINT b, VARINT c]"
| "frame_fields (FRAME_STOP_SENDING a b) = [VARINT a, VARINT b]"
| "frame_fields (FRAME_CRYPTO off data) = VARINT off # bytes_fields data"
| "frame_fields (FRAME_NEW_TOKEN token) = bytes_fields token"
| "frame_fields (FRAME_STREAM s) =
     [VARINT (stm_id s)] @ (if stm_has_offset s then [VARINT (stm_offset s)] else []) @
     (if stm_has_length s then bytes_fields (stm_data s) else [BYTES (stm_data s)])"
| "frame_fields (FRAME_MAX_DATA m) = [VARINT m]"
| "frame_fields (FRAME_MAX_STREAM_DATA a m) = [VARINT a, VARINT m]"
| "frame_fields (FRAME_MAX_STREAMS d m) = [VARINT m]"
| "frame_fields (FRAME_DATA_BLOCKED m) = [VARINT m]"
| "frame_fields (FRAME_STREAM_DATA_BLOCKED a m) = [VARINT a, VARINT m]"
| "frame_fields (FRAME_STREAMS_BLOCKED d m) = [VARINT m]"
| "frame_fields (FRAME_NEW_CONNECTION_ID a b cid token) =
     [VARINT a, VARINT b, BYTES [of_nat (length cid)], BYTES cid, BYTES token]"
| "frame_fields (FRAME_RETIRE_CONNECTION_ID a) = [VARINT a]"
| "frame_fields (FRAME_PATH_CHALLENGE data) = [BYTES data]"
| "frame_fields (FRAME_PATH_RESPONSE data) = [BYTES data]"
| "frame_fields (FRAME_CONNECTION_CLOSE_TRANSPORT c) =
     [VARINT (close_error_code c), VARINT (close_frame_type c)] @ bytes_fields (close_reason c)"
| "frame_fields (FRAME_CONNECTION_CLOSE_APPLICATION c) =
     VARINT (close_error_code c) # bytes_fields (close_reason c)"
| "frame_fields (FRAME_RESET_STREAM_AT a b c d) = [VARINT a, VARINT b, VARINT c, VARINT d]"
| "frame_fields (FRAME_DATAGRAM data) = bytes_fields data"
| "frame_fields _ = []"

abbreviation frame_payload :: "wt_quic_frame \<Rightarrow> u8 list" where
  "frame_payload frame \<equiv> fields_bytes (frame_fields frame)"

definition frame_bytes :: "wt_quic_frame \<Rightarrow> u8 list" where
  "frame_bytes frame = varint_bytes (frame_type frame) @ frame_payload frame"

text \<open>
  The frames the wire can carry in a form that names its own end: every number fits a variable-length
  integer, the fields a form does not have are zero, and a STREAM frame has its length.
\<close>

fun frame_valid :: "wt_quic_frame \<Rightarrow> bool" where
  "frame_valid (FRAME_ACK ack) \<longleftrightarrow>
     varint_valid (ack_largest ack) \<and> varint_valid (ack_delay ack) \<and>
     varint_valid (ack_range_count ack) \<and> varint_valid (ack_first_range ack) \<and>
     (\<exists>rs. list_all ack_range_valid rs \<and> length (ack_range_bytes rs) < 2 ^ 62 \<and>
        ack_ranges_bytes ack = ack_range_bytes rs \<and> unat (ack_range_count ack) = length rs) \<and>
     varint_valid (ack_ect0 ack) \<and> varint_valid (ack_ect1 ack) \<and> varint_valid (ack_ecn_ce ack) \<and>
     (\<not> ack_has_ecn ack \<longrightarrow> ack_ect0 ack = 0 \<and> ack_ect1 ack = 0 \<and> ack_ecn_ce ack = 0)"
| "frame_valid (FRAME_RESET_STREAM a b c) \<longleftrightarrow> varint_valid a \<and> varint_valid b \<and> varint_valid c"
| "frame_valid (FRAME_STOP_SENDING a b) \<longleftrightarrow> varint_valid a \<and> varint_valid b"
| "frame_valid (FRAME_CRYPTO off data) \<longleftrightarrow> varint_valid off \<and> bytes_valid data"
| "frame_valid (FRAME_NEW_TOKEN token) \<longleftrightarrow> token \<noteq> [] \<and> bytes_valid token"
| "frame_valid (FRAME_STREAM s) \<longleftrightarrow>
     varint_valid (stm_id s) \<and> varint_valid (stm_offset s) \<and> bytes_valid (stm_data s) \<and>
     stm_has_length s \<and> (\<not> stm_has_offset s \<longrightarrow> stm_offset s = 0)"
| "frame_valid (FRAME_MAX_DATA m) \<longleftrightarrow> varint_valid m"
| "frame_valid (FRAME_MAX_STREAM_DATA a m) \<longleftrightarrow> varint_valid a \<and> varint_valid m"
| "frame_valid (FRAME_MAX_STREAMS d m) \<longleftrightarrow> m \<le> stream_limit"
| "frame_valid (FRAME_DATA_BLOCKED m) \<longleftrightarrow> varint_valid m"
| "frame_valid (FRAME_STREAM_DATA_BLOCKED a m) \<longleftrightarrow> varint_valid a \<and> varint_valid m"
| "frame_valid (FRAME_STREAMS_BLOCKED d m) \<longleftrightarrow> m \<le> stream_limit"
| "frame_valid (FRAME_NEW_CONNECTION_ID a b cid token) \<longleftrightarrow>
     varint_valid a \<and> varint_valid b \<and> b \<le> a \<and> 1 \<le> length cid \<and> length cid \<le> 20 \<and> length token = 16"
| "frame_valid (FRAME_RETIRE_CONNECTION_ID a) \<longleftrightarrow> varint_valid a"
| "frame_valid (FRAME_PATH_CHALLENGE data) \<longleftrightarrow> length data = 8"
| "frame_valid (FRAME_PATH_RESPONSE data) \<longleftrightarrow> length data = 8"
| "frame_valid (FRAME_CONNECTION_CLOSE_TRANSPORT c) \<longleftrightarrow>
     close_has_frame_type c \<and> varint_valid (close_error_code c) \<and> varint_valid (close_frame_type c) \<and>
     bytes_valid (close_reason c)"
| "frame_valid (FRAME_CONNECTION_CLOSE_APPLICATION c) \<longleftrightarrow>
     \<not> close_has_frame_type c \<and> varint_valid (close_error_code c) \<and> close_frame_type c = 0 \<and>
     bytes_valid (close_reason c)"
| "frame_valid (FRAME_RESET_STREAM_AT a b c d) \<longleftrightarrow>
     varint_valid a \<and> varint_valid b \<and> varint_valid c \<and> varint_valid d \<and> d \<le> c"
| "frame_valid (FRAME_DATAGRAM data) \<longleftrightarrow> bytes_valid data"
| "frame_valid _ \<longleftrightarrow> True"

subsection \<open>The decoder reads the wire image\<close>

lemma reads_read_varint: "varint_valid v \<Longrightarrow> reads wt_quic_read_varint (varint_bytes v) v"
  using reads_varint [of v]
  by (auto simp: reads_def wt_quic_read_varint_def split: prod.splits)

lemma reads_take: "bytes_valid bs \<Longrightarrow> reads (wt_quic_take (of_nat (length bs))) bs bs"
  by (auto simp: reads_def wt_quic_take_def bytes_valid_def
      wt_cursor_bytes_def cursor_take_advance cursor_remaining_view cursor_ready_def word_less_nat_alt
      unat_of_nat_u64 split: sum.splits)

lemma reads_view: "length bs < 2 ^ 64 \<Longrightarrow> reads (frame_bytes_view (length bs)) bs bs"
  by (simp add: reads_def frame_bytes_view_def wt_cursor_bytes_def cursor_take_advance)

lemma reads_varint_take:
  "bytes_valid bs \<Longrightarrow> reads (rbind wt_quic_read_varint wt_quic_take) (varint_bytes (of_nat (length bs)) @ bs) bs"
  using reads_bind [of wt_quic_read_varint _ _ wt_quic_take, OF reads_read_varint reads_take]
  by (simp add: varint_valid_length)

lemma ack_range_bytes_simps [simp]:
  "ack_range_bytes [] = []"
  "ack_range_bytes (r # rs) =
     (varint_bytes (range_gap r) @ varint_bytes (range_length r)) @ ack_range_bytes rs"
  by (simp_all add: ack_range_bytes_def)

lemma cursor_probe:
  assumes "take (unat avail) d = pre @ bs" "unat avail \<le> length d" "unat consumed = length pre"
  shows "cursor_ready (wt_cursor_init (Some (drop (unat consumed) d)) (avail - consumed))"
    "cursor_view (wt_cursor_init (Some (drop (unat consumed) d)) (avail - consumed)) = bs"
proof -
  have len: "unat avail = length pre + length bs"
    using arg_cong [OF assms(1), of length] assms(2) by simp
  then have u: "unat (avail - consumed) = length bs"
    using assms(3) by (simp add: unat_sub_le word_le_nat_alt)
  show "cursor_ready (wt_cursor_init (Some (drop (unat consumed) d)) (avail - consumed))"
    using assms(2,3) len u by (simp add: cursor_ready_def cursor_inv_def wt_cursor_init_def)
  have "take (length bs) (drop (length pre) d) = drop (length pre) (take (unat avail) d)"
    by (simp add: len take_drop add.commute)
  then show "cursor_view (wt_cursor_init (Some (drop (unat consumed) d)) (avail - consumed)) = bs"
    by (simp add: u assms(1,3))
qed

lemma ack_ranges_walk_bytes:
  assumes "list_all ack_range_valid rs" "take (unat avail) d = pre @ ack_range_bytes rs @ rest"
    "unat avail \<le> length d" "unat consumed = length pre"
  shows "ack_ranges_walk (length rs) (Some d) avail consumed =
    Some (consumed + of_nat (length (ack_range_bytes rs)))"
  using assms
proof (induction rs arbitrary: pre consumed)
  case (Cons r rs)
  let ?b = "varint_bytes (range_gap r) @ varint_bytes (range_length r)"
  let ?probe = "wt_cursor_init (Some (drop (unat consumed) d)) (avail - consumed)"
  have ready: "cursor_ready ?probe" "cursor_view ?probe = ?b @ ack_range_bytes rs @ rest"
    using cursor_probe [OF _ Cons.prems(3,4)] Cons.prems(2) by simp_all
  have "reads (rbind wt_quic_read_varint (\<lambda>gap. wt_quic_read_varint)) ?b (range_length r)"
    using Cons.prems(1) by (intro reads_bind [of _ _ "range_gap r"] reads_read_varint)
      (simp_all add: ack_range_valid_def)
  from readsD [OF this ready]
  have step: "rbind wt_quic_read_varint (\<lambda>gap. wt_quic_read_varint) ?probe =
      (Inr (range_length r), cursor_advance ?probe (length ?b))" .
  have off: "cur_offset (cursor_advance ?probe (length ?b)) = of_nat (length ?b)"
    by (simp add: cursor_advance_def wt_cursor_init_def)
  have "length (pre @ ?b) < 2 ^ 64"
    using arg_cong [OF Cons.prems(2), of length] unat_u64_less [of avail] by simp
  then have "unat (consumed + of_nat (length ?b)) = length (pre @ ?b)"
    using Cons.prems(4) by (simp add: unat_add_of_nat del: of_nat_add)
  from Cons.IH [OF _ _ Cons.prems(3) this] Cons.prems(1,2)
  have "ack_ranges_walk (length rs) (Some d) avail (consumed + of_nat (length ?b)) =
      Some (consumed + of_nat (length ?b) + of_nat (length (ack_range_bytes rs)))" by simp
  with step off show ?case by (simp add: Let_def add.assoc)
qed simp

lemma reads_ack_ranges:
  assumes "list_all ack_range_valid rs" "unat n = length rs"
  shows "reads (decode_ack_ranges n) (ack_range_bytes rs) (ack_range_bytes rs)"
  unfolding reads_def
proof (intro allI impI)
  fix c rest assume c: "cursor_ready c \<and> cursor_view c = ack_range_bytes rs @ rest"
  let ?k = "length (ack_range_bytes rs)"
  from c obtain d where d: "cur_data c = Some d" and inv: "cursor_inv c" and ok: "\<not> cur_failed c"
    by (auto simp: cursor_ready_def)
  let ?d = "drop (unat (cur_offset c)) d" and ?a = "cur_len c - cur_offset c"
  have r: "wt_cursor_rest c = (Some ?d, ?a)" using d ok by (simp add: wt_cursor_rest_def)
  have a: "unat ?a = length (cursor_view c)"
    using cursor_remaining_view [OF inv ok] ok by (simp add: wt_cursor_remaining_def)
  have view: "take (unat ?a) ?d = cursor_view c" "unat ?a \<le> length ?d"
    using inv d a by (auto simp: length_cursor_view cursor_view_def cursor_inv_def drop_take)
  have "ack_ranges_walk (unat n) (Some ?d) ?a 0 = Some (of_nat ?k)"
    using ack_ranges_walk_bytes [OF assms(1), of ?a ?d "[]" rest 0] c view assms(2) by simp
  moreover have "?k < 2 ^ 64" using cursor_view_less [OF inv] c by simp
  then have "take (unat (of_nat ?k :: u64)) ?d = ack_range_bytes rs"
    using c view a by (metis append_eq_conv_conj length_append min.absorb1 le_add1 take_take unat_of_nat_u64)
  moreover have "snd (wt_cursor_skip c (of_nat ?k)) = cursor_advance c ?k"
    using c by (simp add: wt_cursor_skip_def cursor_take_advance)
  ultimately show "decode_ack_ranges n c = (Inr (ack_range_bytes rs), cursor_advance c ?k)"
    by (simp add: decode_ack_ranges_def r)
qed

text \<open>Field by field: the rules that run the body of a decoder over the wire image.\<close>

lemma reads_varint_field [reads_intros]:
  "varint_valid v \<Longrightarrow> reads (f v) bs y \<Longrightarrow> reads (rbind wt_quic_read_varint f) (varint_bytes v @ bs) y"
  "varint_valid v \<Longrightarrow> reads (f v) [] y \<Longrightarrow> reads (rbind wt_quic_read_varint f) (varint_bytes v) y"
  by (erule reads_bind [OF reads_read_varint] reads_bind_end [OF reads_read_varint], assumption)+

lemma reads_take_field [reads_intros]:
  "bytes_valid ds \<Longrightarrow> reads (f ds) [] y \<Longrightarrow> reads (rbind (wt_quic_take (of_nat (length ds))) f) ds y"
  by (erule reads_bind_end [OF reads_take])

lemma reads_varint_take_field [reads_intros]:
  "bytes_valid ds \<Longrightarrow> reads (f ds) [] y \<Longrightarrow>
   reads (rbind (rbind wt_quic_read_varint wt_quic_take) f) (varint_bytes (of_nat (length ds)) @ ds) y"
  by (erule reads_bind_end [OF reads_varint_take])

lemma reads_view_field:
  "length ds = n \<Longrightarrow> n < 2 ^ 64 \<Longrightarrow> reads (f ds) bs y \<Longrightarrow> reads (rbind (frame_bytes_view n) f) (ds @ bs) y"
  "length ds = n \<Longrightarrow> n < 2 ^ 64 \<Longrightarrow> reads (f ds) [] y \<Longrightarrow> reads (rbind (frame_bytes_view n) f) ds y"
  using reads_bind [OF reads_view, of ds f bs y] reads_bind_end [OF reads_view, of ds f y] by auto

lemma reads_byte_field [reads_intros]:
  "reads (f [b]) bs y \<Longrightarrow> reads (rbind (frame_bytes_view (Suc 0)) f) (b # bs) y"
  using reads_view_field(1) [of "[b]" "Suc 0" f bs y] by simp

lemma reads_ack_ranges_field [reads_intros]:
  "list_all ack_range_valid rs \<Longrightarrow> unat n = length rs \<Longrightarrow> reads (f (ack_range_bytes rs)) bs y \<Longrightarrow>
   reads (rbind (decode_ack_ranges n) f) (ack_range_bytes rs @ bs) y"
  "list_all ack_range_valid rs \<Longrightarrow> unat n = length rs \<Longrightarrow> reads (f (ack_range_bytes rs)) [] y \<Longrightarrow>
   reads (rbind (decode_ack_ranges n) f) (ack_range_bytes rs) y"
  by (erule reads_bind [OF reads_ack_ranges] reads_bind_end [OF reads_ack_ranges], assumption+)+

lemma reads_decode_ack:
  "frame_valid (FRAME_ACK ack) \<Longrightarrow>
   reads (decode_ack (ack_has_ecn ack)) (frame_payload (FRAME_ACK ack)) (FRAME_ACK ack)"
  unfolding decode_ack_def by (cases "ack_has_ecn ack") (auto intro!: reads_intros)

lemma reads_decode_new_connection_id:
  assumes "frame_valid (FRAME_NEW_CONNECTION_ID a b cid token)"
  shows "reads decode_new_connection_id (frame_payload (FRAME_NEW_CONNECTION_ID a b cid token))
    (FRAME_NEW_CONNECTION_ID a b cid token)"
proof -
  have len: "unat (of_nat (length cid) :: u8) = length cid"
    using assms by (simp add: unat_of_nat)
  moreover have "length cid \<noteq> 0" using assms by auto
  ultimately have pos: "\<not> (of_nat (length cid) :: u8) < 1"
    by (simp add: word_less_nat_alt)
  show ?thesis
    unfolding decode_new_connection_id_def
    using assms len pos
    by (auto simp: Let_def leD intro!: reads_intros reads_view_field(1) [where ds = cid]
        reads_view_field(2) [where ds = token])
qed

lemma reads_decode_connection_close:
  "frame_valid (FRAME_CONNECTION_CLOSE_TRANSPORT c) \<Longrightarrow>
   reads (decode_connection_close True) (frame_payload (FRAME_CONNECTION_CLOSE_TRANSPORT c))
     (FRAME_CONNECTION_CLOSE_TRANSPORT c)"
  "frame_valid (FRAME_CONNECTION_CLOSE_APPLICATION c) \<Longrightarrow>
   reads (decode_connection_close False) (frame_payload (FRAME_CONNECTION_CLOSE_APPLICATION c))
     (FRAME_CONNECTION_CLOSE_APPLICATION c)"
  unfolding decode_connection_close_def
  by (auto simp: Let_def varint_valid_length intro!: reads_intros)

lemma reads_decode_stream:
  "frame_valid (FRAME_STREAM s) \<Longrightarrow>
   reads (decode_stream (frame_type (FRAME_STREAM s))) (frame_payload (FRAME_STREAM s)) (FRAME_STREAM s)"
  unfolding decode_stream_def Let_def
  by (cases "stm_has_offset s"; cases "stm_fin s") (auto intro!: reads_intros)

lemma stream_type_range:
  assumes "stm_has_length s"
  shows "wt_quic_frame_body (frame_type (FRAME_STREAM s)) = decode_stream (frame_type (FRAME_STREAM s))"
  using assms by (cases "stm_has_offset s"; cases "stm_fin s") (simp_all add: wt_quic_frame_body_def)

lemma stream_limit_valid: "m \<le> stream_limit \<Longrightarrow> varint_valid m"
  by (simp add: stream_limit_def varint_valid_unat word_le_nat_alt)

lemma reads_frame_body:
  assumes "frame_valid frame"
  shows "reads (wt_quic_frame_body (frame_type frame)) (frame_payload frame) frame"
proof (cases frame)
  case (FRAME_ACK ack)
  with reads_decode_ack [of ack] assms [unfolded FRAME_ACK] show ?thesis
    by (cases "ack_has_ecn ack") (simp_all add: wt_quic_frame_body_def del: frame_valid.simps)
next
  case (FRAME_STREAM s)
  with assms reads_decode_stream [of s] stream_type_range [of s] show ?thesis by simp
next
  case (FRAME_NEW_CONNECTION_ID a b cid token)
  with assms reads_decode_new_connection_id [of a b cid token] show ?thesis
    by (simp add: wt_quic_frame_body_def)
next
  case (FRAME_CONNECTION_CLOSE_TRANSPORT c)
  with assms reads_decode_connection_close(1) [of c] show ?thesis
    by (simp add: wt_quic_frame_body_def)
next
  case (FRAME_CONNECTION_CLOSE_APPLICATION c)
  with assms reads_decode_connection_close(2) [of c] show ?thesis
    by (simp add: wt_quic_frame_body_def)
next
  case (FRAME_MAX_STREAMS d m)
  with assms stream_limit_valid [of m] show ?thesis
    by (cases d) (auto simp: wt_quic_frame_body_def not_less intro!: reads_intros)
next
  case (FRAME_STREAMS_BLOCKED d m)
  with assms stream_limit_valid [of m] show ?thesis
    by (cases d) (auto simp: wt_quic_frame_body_def not_less intro!: reads_intros)
next
  case (FRAME_NEW_TOKEN token)
  with assms have "(of_nat (length token) :: u64) \<noteq> 0"
    by (simp add: bytes_valid_def word_unat_eq_iff unat_of_nat_u64)
  with FRAME_NEW_TOKEN assms show ?thesis
    by (auto simp: wt_quic_frame_body_def varint_valid_length intro!: reads_intros)
qed (use assms in \<open>auto simp: wt_quic_frame_body_def varint_valid_length not_less
    intro!: reads_intros reads_view_field(2)\<close>)

lemma frame_type_small: "frame_type frame < 64"
  by (cases frame) simp_all

lemma reads_frame_decode:
  assumes "frame_valid frame"
  shows "reads wt_quic_frame_decode (frame_bytes frame) frame"
proof -
  have v: "varint_valid (frame_type frame)" "wt_quic_varint_size (frame_type frame) = 1"
    using frame_type_small [of frame]
    by (simp_all add: varint_valid_unat word_less_nat_alt wt_quic_varint_size_def)
  have eq: "wt_quic_frame_decode c = wt_quic_frame_body (frame_type frame) c'"
    if "wt_quic_varint_decode_sized c = (Inr (frame_type frame, 1), c')" for c c'
    using that v(2) by (simp add: wt_quic_frame_decode_def wt_quic_varint_is_minimal_def)
  show ?thesis
    unfolding reads_def
  proof (intro allI impI)
    fix c rest assume c: "cursor_ready c \<and> cursor_view c = frame_bytes frame @ rest"
    let ?n = "length (varint_bytes (frame_type frame))"
    have ready: "cursor_ready c"
      and view: "cursor_view c = varint_bytes (frame_type frame) @ frame_payload frame @ rest"
      using c by (simp_all add: frame_bytes_def)
    then have "wt_quic_frame_decode c = wt_quic_frame_body (frame_type frame) (cursor_advance c ?n)"
      using eq [of c] readsD [OF reads_varint_sized [OF v(1)], of c "frame_payload frame @ rest"] v(2)
      by simp
    also have "\<dots> = (Inr frame, cursor_advance (cursor_advance c ?n) (length (frame_payload frame)))"
      using cursor_ready_advance [OF ready, of ?n] view
      by (intro readsD [OF reads_frame_body [OF assms], of _ rest]) simp_all
    finally show "wt_quic_frame_decode c = (Inr frame, cursor_advance c (length (frame_bytes frame)))"
      by (simp add: cursor_advance_add frame_bytes_def)
  qed
qed

subsection \<open>The encoder writes the wire image\<close>

lemma reads_ack_range_loop:
  "list_all ack_range_valid rs \<Longrightarrow> k < length rs \<Longrightarrow>
   reads (ack_range_loop k) (ack_range_bytes (take (Suc k) rs)) (rs ! k)"
proof (induction k arbitrary: rs)
  case 0
  then obtain r rs' where rs: "rs = r # rs'" by (cases rs) auto
  show ?case
    using 0 unfolding rs ack_range_loop.simps [of 0]
    by (auto simp: ack_range_valid_def
        intro!: reads_bind [OF reads_varint] reads_bind_end [OF reads_varint] reads_intros)
next
  case (Suc k)
  then obtain r rs' where rs: "rs = r # rs'" by (cases rs) auto
  with Suc.IH [of rs'] Suc.prems
  have "reads (ack_range_loop k) (ack_range_bytes (take (Suc k) rs')) (rs' ! k)" by simp
  then show ?case
    using Suc.prems unfolding rs ack_range_loop.simps [of "Suc k"]
    by (auto simp: ack_range_valid_def intro!: reads_bind [OF reads_varint])
qed

lemma ack_range_at_nth:
  assumes "list_all ack_range_valid rs" "length (ack_range_bytes rs) < 2 ^ 62"
    "ack_ranges_bytes ack = ack_range_bytes rs" "unat (ack_range_count ack) = length rs"
    "k < length rs"
  shows "wt_quic_frame_ack_range_at (FRAME_ACK ack) (of_nat k) = Inr (rs ! k)"
proof -
  have k: "unat (of_nat k :: u64) = k"
    using assms(4,5) unat_u64_less [of "ack_range_count ack"] by (intro unat_of_nat_u64) simp
  have split: "ack_range_bytes rs = ack_range_bytes (take (Suc k) rs) @ ack_range_bytes (drop (Suc k) rs)"
    by (simp add: ack_range_bytes_def flip: concat_append map_append)
  have "fst (ack_range_loop k (cursor_of (ack_range_bytes rs))) = Inr (rs ! k)"
    using reads_of [OF reads_ack_range_loop [OF assms(1,5)], of "ack_range_bytes (drop (Suc k) rs)"]
      assms(2) unfolding split [symmetric] by simp
  moreover have "\<not> ack_range_count ack \<le> of_nat k"
    using assms(4,5) k by (simp add: word_le_nat_alt)
  ultimately show ?thesis
    by (simp add: wt_quic_frame_ack_range_at_def assms(3) k)
qed

definition put_range :: "wt_quic_ack_range \<Rightarrow> wt_writer \<Rightarrow> wt_writer" where
  "put_range r = emit [put_varint (range_gap r), put_varint (range_length r)]"

lemma writes_range: "ack_range_valid r \<Longrightarrow>
    writes (put_range r) (varint_bytes (range_gap r) @ varint_bytes (range_length r))"
  using writes_emit [of "[put_varint (range_gap r), put_varint (range_length r)]"
      "[varint_bytes (range_gap r), varint_bytes (range_length r)]"]
  by (simp add: put_range_def ack_range_valid_def writes_varint)

lemma encode_ack_ranges_eq:
  assumes "\<And>k. k < length rs \<Longrightarrow> wt_quic_frame_ack_range_at frame (of_nat k) = Inr (rs ! k)"
  shows "n + j = length rs \<Longrightarrow>
    encode_ack_ranges frame n (of_nat j) w = (WT_OK, emit (map put_range (drop j rs)) w)"
proof (induction n arbitrary: j w)
  case (Suc n)
  then have "j < length rs" by simp
  then have "drop j rs = rs ! j # drop (Suc j) rs" by (simp add: Cons_nth_drop_Suc)
  with Suc.IH [of "Suc j"] Suc.prems assms [OF \<open>j < length rs\<close>] show ?case
    by (simp add: put_range_def add.commute)
qed simp

text \<open>
  The body of the encoder, past the overflow test, runs \<open>e\<close>, and reports \<open>WT_OK\<close> when the writer is
  still good after it.
\<close>

definition encodes :: "wt_quic_frame \<Rightarrow> (wt_writer \<Rightarrow> wt_writer) \<Rightarrow> bool" where
  "encodes frame e \<longleftrightarrow>
     (\<forall>w. \<not> wr_overflow w \<longrightarrow> snd (wt_quic_frame_encode frame w) = e w \<and>
       (wt_writer_ok (e w) \<longrightarrow> fst (wt_quic_frame_encode frame w) = WT_OK))"

lemma writes_ranges: "list_all ack_range_valid rs \<Longrightarrow> writes (emit (map put_range rs)) (ack_range_bytes rs)"
proof (induction rs)
  case Nil
  then show ?case using writes_id by (simp add: writes_def)
next
  case (Cons r rs)
  from writes_comp [OF writes_range, of r "emit (map put_range rs)"] Cons show ?case by simp
qed

lemma encodes_ack:
  assumes "frame_valid (FRAME_ACK ack)"
  obtains e where "encodes (FRAME_ACK ack) e" "writes e (frame_bytes (FRAME_ACK ack))"
proof -
  from assms obtain rs where rs: "list_all ack_range_valid rs" "length (ack_range_bytes rs) < 2 ^ 62"
    "ack_ranges_bytes ack = ack_range_bytes rs" "unat (ack_range_count ack) = length rs" by auto
  define start where "start = [VARINT (frame_type (FRAME_ACK ack)), VARINT (ack_largest ack),
    VARINT (ack_delay ack), VARINT (ack_range_count ack), VARINT (ack_first_range ack)]"
  define ecn where "ecn = (if ack_has_ecn ack
    then [VARINT (ack_ect0 ack), VARINT (ack_ect1 ack), VARINT (ack_ecn_ce ack)] else [])"
  let ?e = "\<lambda>w. put_fields ecn (emit (map put_range rs) (put_fields start w))"
  have loop: "encode_ack_ranges (FRAME_ACK ack) (unat (ack_range_count ack)) 0 w =
      (WT_OK, emit (map put_range rs) w)" for w
    using encode_ack_ranges_eq [OF ack_range_at_nth [OF rs], of "length rs" 0 w] rs(4) by simp
  have "encodes (FRAME_ACK ack) ?e"
    by (simp add: encodes_def wt_quic_frame_encode_def encode_ack_def loop start_def ecn_def
        emit_status_def Let_def writer_status_def)
  moreover have "list_all field_valid start" "list_all field_valid ecn"
    using assms by (simp_all add: start_def ecn_def varint_valid_unat)
  then have "writes ?e (fields_bytes start @ ack_range_bytes rs @ fields_bytes ecn)"
    using writes_comp [OF writes_fields [of start] writes_comp [OF writes_ranges writes_fields [of ecn]]] rs(1)
    by simp
  then have "writes ?e (frame_bytes (FRAME_ACK ack))"
    by (simp add: start_def ecn_def frame_bytes_def rs(3))
  ultimately show thesis by (rule that)
qed

lemma stream_type_flags:
  "stm_has_length s \<Longrightarrow>
   WT_QUIC_FRAME_STREAM_BASE OR ucast (stream_flags s) = frame_type (FRAME_STREAM s)"
  by (cases "stm_has_offset s"; cases "stm_fin s") (simp_all add: stream_flags_def Let_def)

lemma frame_fields_valid: "frame_valid frame \<Longrightarrow> list_all field_valid (frame_fields frame)"
  by (cases frame) (auto simp: varint_valid_length stream_limit_valid)

lemma encodes_fields:
  assumes "frame_valid frame" "\<And>ack. frame \<noteq> FRAME_ACK ack"
  shows "encodes frame (put_fields (VARINT (frame_type frame) # frame_fields frame))"
proof (cases frame)
  case (FRAME_STREAM s)
  with assms show ?thesis
    using stream_type_flags [of s]
    by (cases "stm_has_offset s") (auto simp: encodes_def wt_quic_frame_encode_def emit_status_def Let_def
        writer_status_def encode_stream_def simp del: frame_type.simps)
next
  case (FRAME_NEW_CONNECTION_ID a b cid token)
  with assms show ?thesis
    by (auto simp: encodes_def wt_quic_frame_encode_def emit_status_def Let_def writer_status_def
        wt_writer_u8_def wt_writer_bytes_def leD)
qed (use assms in \<open>auto simp: encodes_def wt_quic_frame_encode_def emit_status_def Let_def
    writer_status_def encode_connection_close_def leD\<close>)

lemma encodes_frame:
  assumes "frame_valid frame"
  obtains e where "encodes frame e" "writes e (frame_bytes frame)"
proof (cases "\<exists>ack. frame = FRAME_ACK ack")
  case False
  have "varint_valid (frame_type frame)"
    using frame_type_small [of frame] by (simp add: varint_valid_unat word_less_nat_alt)
  with frame_fields_valid [OF assms]
  have "writes (put_fields (VARINT (frame_type frame) # frame_fields frame)) (frame_bytes frame)"
    using writes_fields [of "VARINT (frame_type frame) # frame_fields frame"]
    by (simp add: frame_bytes_def)
  with False encodes_fields [OF assms] that show thesis by blast
qed (use assms encodes_ack that in blast)

lemma emit_status_writes:
  "list_all2 writes fs bss \<Longrightarrow> writes (\<lambda>w. snd (emit_status fs w)) (concat bss)"
  using writes_emit [of fs bss] by (simp add: emit_status_def Let_def del: emit_simps)

lemma emit_status_fst: "fst (emit_status fs w) = writer_status (snd (emit_status fs w))"
  by (simp add: emit_status_def Let_def)

lemma writes_frame: "frame_valid frame \<Longrightarrow> writes (\<lambda>w. snd (wt_quic_frame_encode frame w)) (frame_bytes frame)"
  by (erule encodes_frame, erule writes_guard) (simp_all add: encodes_def wt_quic_frame_encode_def)

lemma frame_encode_status:
  assumes "frame_valid frame" "wt_writer_ok (snd (wt_quic_frame_encode frame w))"
  shows "fst (wt_quic_frame_encode frame w) = WT_OK"
proof -
  obtain e where e: "encodes frame e" using encodes_frame [OF assms(1)] .
  show ?thesis
  proof (cases "wr_overflow w")
    case True
    with assms(2) show ?thesis by (simp add: wt_quic_frame_encode_def wt_writer_ok_def)
  qed (use e assms(2) in \<open>simp add: encodes_def\<close>)
qed

interpretation quic_frame: wire_format frame_bytes wt_quic_frame_decode frame_valid
  "\<lambda>frame w. snd (wt_quic_frame_encode frame w)"
  by unfold_locales (simp_all add: reads_frame_decode writes_frame)

subsection \<open>What the decoder accepts\<close>

text \<open>
  The limits of RFC 9000 a decoded frame satisfies whatever bytes it came from, and the fields that
  the form on the wire does not have.
\<close>

fun frame_wf :: "wt_quic_frame \<Rightarrow> bool" where
  "frame_wf (FRAME_ACK ack) \<longleftrightarrow>
     varint_valid (ack_largest ack) \<and> varint_valid (ack_delay ack) \<and>
     varint_valid (ack_range_count ack) \<and> varint_valid (ack_first_range ack) \<and>
     (\<not> ack_has_ecn ack \<longrightarrow> ack_ect0 ack = 0 \<and> ack_ect1 ack = 0 \<and> ack_ecn_ce ack = 0)"
| "frame_wf (FRAME_RESET_STREAM a b c) \<longleftrightarrow> varint_valid a \<and> varint_valid b \<and> varint_valid c"
| "frame_wf (FRAME_STOP_SENDING a b) \<longleftrightarrow> varint_valid a \<and> varint_valid b"
| "frame_wf (FRAME_CRYPTO off data) \<longleftrightarrow> varint_valid off \<and> bytes_valid data"
| "frame_wf (FRAME_NEW_TOKEN token) \<longleftrightarrow> token \<noteq> [] \<and> bytes_valid token"
| "frame_wf (FRAME_STREAM s) \<longleftrightarrow>
     varint_valid (stm_id s) \<and> varint_valid (stm_offset s) \<and>
     (\<not> stm_has_offset s \<longrightarrow> stm_offset s = 0) \<and> (stm_has_length s \<longrightarrow> bytes_valid (stm_data s))"
| "frame_wf (FRAME_MAX_DATA m) \<longleftrightarrow> varint_valid m"
| "frame_wf (FRAME_MAX_STREAM_DATA a m) \<longleftrightarrow> varint_valid a \<and> varint_valid m"
| "frame_wf (FRAME_MAX_STREAMS d m) \<longleftrightarrow> unat m \<le> 2 ^ 60"
| "frame_wf (FRAME_DATA_BLOCKED m) \<longleftrightarrow> varint_valid m"
| "frame_wf (FRAME_STREAM_DATA_BLOCKED a m) \<longleftrightarrow> varint_valid a \<and> varint_valid m"
| "frame_wf (FRAME_STREAMS_BLOCKED d m) \<longleftrightarrow> unat m \<le> 2 ^ 60"
| "frame_wf (FRAME_NEW_CONNECTION_ID a b cid token) \<longleftrightarrow>
     varint_valid a \<and> varint_valid b \<and> b \<le> a \<and> 1 \<le> length cid \<and> length cid \<le> 20 \<and> length token = 16"
| "frame_wf (FRAME_RETIRE_CONNECTION_ID a) \<longleftrightarrow> varint_valid a"
| "frame_wf (FRAME_PATH_CHALLENGE data) \<longleftrightarrow> length data = 8"
| "frame_wf (FRAME_PATH_RESPONSE data) \<longleftrightarrow> length data = 8"
| "frame_wf (FRAME_CONNECTION_CLOSE_TRANSPORT c) \<longleftrightarrow>
     close_has_frame_type c \<and> varint_valid (close_error_code c) \<and> varint_valid (close_frame_type c) \<and>
     bytes_valid (close_reason c)"
| "frame_wf (FRAME_CONNECTION_CLOSE_APPLICATION c) \<longleftrightarrow>
     \<not> close_has_frame_type c \<and> varint_valid (close_error_code c) \<and> close_frame_type c = 0 \<and>
     bytes_valid (close_reason c)"
| "frame_wf (FRAME_RESET_STREAM_AT a b c d) \<longleftrightarrow>
     varint_valid a \<and> varint_valid b \<and> varint_valid c \<and> varint_valid d \<and> d \<le> c"
| "frame_wf _ \<longleftrightarrow> True"

lemma yields_read_varint: "yields wt_quic_read_varint varint_valid"
  using yields_varint by (auto simp: yields_def wt_quic_read_varint_def split: prod.splits sum.splits)

lemma yields_take: "yields (wt_quic_take n) (\<lambda>bs. length bs = unat n)"
  unfolding yields_def
proof (intro allI impI)
  fix c bs c' assume a: "cursor_inv c \<and> wt_quic_take n c = (Inr bs, c')"
  then obtain p where p: "wt_cursor_take c n = (p, c')" "bs = (case p of None \<Rightarrow> [] | Some bs \<Rightarrow> bs)"
    and le: "n \<le> wt_cursor_remaining c"
    by (auto simp: wt_quic_take_def wt_cursor_bytes_def not_less split: if_splits prod.splits)
  show "length bs = unat n"
  proof (cases p)
    case (Some bs')
    with p cursor_take_Some(1) [of c n bs' c'] a show ?thesis by simp
  next
    case None
    then have "n = 0"
      using p(1) le a by (auto simp: wt_cursor_take_def wt_cursor_remaining_def cursor_inv_def split: if_splits)
    with None p(2) show ?thesis by simp
  qed
qed

lemma yields_view: "n < 2 ^ 64 \<Longrightarrow> yields (frame_bytes_view n) (\<lambda>bs. length bs = n)"
  unfolding yields_def frame_bytes_view_def wt_cursor_bytes_def
  by (auto simp: unat_of_nat_u64 dest: cursor_take_Some(1) split: prod.splits option.splits)

lemma yields_view_u8: "yields (frame_bytes_view (unat (b :: u8))) (\<lambda>bs. length bs = unat b)"
  using unat_u8_less [of b] by (intro yields_view) simp

lemmas yields_field = yields_bind [OF yields_read_varint reader_safe_read_varint]
  yields_bind [OF yields_take reader_safe_take]

lemma bytes_valid_taken: "varint_valid n \<Longrightarrow> length bs = unat n \<Longrightarrow> bytes_valid bs"
  by (simp add: bytes_valid_def varint_valid_unat)

lemma yields_decode_ack: "yields (decode_ack ecn) frame_wf"
  unfolding decode_ack_def
  by (intro yields_field yields_bind_any [OF reader_safe_ack_ranges] yields_if) auto

lemma yields_decode_new_connection_id: "yields decode_new_connection_id frame_wf"
  unfolding decode_new_connection_id_def Let_def
  by (intro yields_field yields_bind [OF yields_view_u8 reader_safe_view]
      yields_bind [OF yields_view reader_safe_view] yields_if)
    (auto simp: wt_quic_decode_fail_def not_less word_le_nat_alt Suc_le_eq unat_gt_0)

lemma yields_decode_connection_close: "yields (decode_connection_close t) frame_wf"
  unfolding decode_connection_close_def Let_def
  by (cases t) (auto intro!: yields_field bytes_valid_taken)

lemma yields_varint_take: "yields (rbind wt_quic_read_varint wt_quic_take) bytes_valid"
proof (rule yields_field)
  fix n assume "varint_valid n"
  with yields_take [of n] show "yields (wt_quic_take n) bytes_valid"
    by (auto simp: yields_def intro: bytes_valid_taken)
qed

lemma varint_valid_0 [simp]: "varint_valid 0"
  by (simp add: varint_valid_unat)

lemma yields_decode_stream: "yields (decode_stream type) frame_wf"
  unfolding decode_stream_def Let_def
  by (auto intro!: yields_field yields_bind [OF yields_varint_take]
      yields_bind_any [OF reader_safe_rest] reader_safe_bind)

lemma yields_frame_body: "yields (wt_quic_frame_body type) frame_wf"
  unfolding wt_quic_frame_body_def wt_quic_decode_fail_def
  by (intro yields_if yields_field yields_decode_ack yields_decode_new_connection_id
      yields_decode_connection_close yields_decode_stream yields_bind [OF yields_view reader_safe_view]
      yields_bind_any [OF reader_safe_rest])
    (auto simp: stream_limit_def not_less word_le_nat_alt unat_eq_0 intro: bytes_valid_taken)

lemma yields_frame_decode: "yields wt_quic_frame_decode frame_wf"
  unfolding yields_def
proof (intro allI impI)
  fix c frame c' assume a: "cursor_inv c \<and> wt_quic_frame_decode c = (Inr frame, c')"
  then obtain type n c1 where d: "wt_quic_varint_decode_sized c = (Inr (type, n), c1)"
    and b: "wt_quic_frame_body type c1 = (Inr frame, c')"
    by (auto simp: wt_quic_frame_decode_def wt_quic_decode_fail_def rfail_def
        split: prod.splits sum.splits if_splits)
  have "cursor_inv c1" using reader_safeD [OF reader_safe_varint_sized] a d by (metis cursor_step_inv snd_conv)
  with yieldsD [OF yields_frame_body _ b] show "frame_wf frame" .
qed

definition frame_fail_ok :: "frame_fail \<Rightarrow> bool" where
  "frame_fail_ok e \<longleftrightarrow> e = (WT_ERR_TRUNCATED, None) \<or>
     e \<in> {(WT_ERR_PROTOCOL, Some WT_QUIC_FRAME_ENCODING_ERROR), (WT_ERR_PROTOCOL, Some WT_QUIC_PROTOCOL_VIOLATION)}"

lemma fails_fields [simp]:
  "fails_with wt_quic_read_varint frame_fail_ok" "fails_with (wt_quic_take n) frame_fail_ok"
  "fails_with (frame_bytes_view k) frame_fail_ok" "fails_with (decode_ack_ranges n) frame_fail_ok"
  "fails_with decode_rest frame_fail_ok" "fails_with (wt_quic_decode_fail WT_QUIC_FRAME_ENCODING_ERROR) frame_fail_ok"
  by (auto simp: fails_with_def frame_fail_ok_def wt_quic_read_varint_def wt_quic_take_def
      frame_bytes_view_def decode_ack_ranges_def decode_rest_def wt_quic_decode_fail_def rfail_def
      split: prod.splits sum.splits option.splits if_splits)

lemma fails_frame_body: "fails_with (wt_quic_frame_body type) frame_fail_ok"
  by (simp add: wt_quic_frame_body_def decode_ack_def decode_new_connection_id_def
      decode_connection_close_def decode_stream_def Let_def fails_with_bind)

lemma fails_frame_decode: "fails_with wt_quic_frame_decode frame_fail_ok"
  unfolding fails_with_def wt_quic_frame_decode_def
  by (auto split: prod.splits sum.splits if_splits intro: fails_withD [OF fails_frame_body])
    (simp_all add: frame_fail_ok_def wt_quic_decode_fail_def rfail_def)

subsection \<open>The payload loop visits the frames in order\<close>

text \<open>The abstract visit: each frame in turn, up to the first refusal.\<close>

fun visit_all :: "'s frame_visitor \<Rightarrow> wt_quic_frame list \<Rightarrow> 's \<Rightarrow> frame_fail \<times> 's" where
  "visit_all visit [] ctx = ((WT_OK, None), ctx)"
| "visit_all visit (f # fs) ctx =
     (case visit ctx f of (status, ctx') \<Rightarrow>
        if status \<noteq> WT_OK then ((status, None), ctx') else visit_all visit fs ctx')"

lemma frames_loop_visits:
  assumes "list_all frame_valid fs" "cursor_ready c" "cursor_view c = concat (map frame_bytes fs)"
  shows "frames_loop visit c ctx = visit_all visit fs ctx"
  using assms
proof (induction fs arbitrary: c ctx)
  case Nil
  then have "wt_cursor_remaining c = 0"
    using cursor_remaining_view [of c] by (simp add: cursor_ready_def unat_eq_0)
  then show ?case by (simp add: frames_loop.simps)
next
  case (Cons f fs)
  let ?c = "cursor_advance c (length (frame_bytes f))"
  have d: "wt_quic_frame_decode c = (Inr f, ?c)"
    using Cons.prems by (intro readsD [OF reads_frame_decode, of f c "concat (map frame_bytes fs)"]) simp_all
  have "wt_cursor_remaining c > 0"
    using frame_decode_progress [OF d] by (rule le_less_trans [rotated]) simp
  moreover have "cursor_ready ?c" "cursor_view ?c = concat (map frame_bytes fs)"
    using cursor_ready_advance [of c "length (frame_bytes f)"] Cons.prems by simp_all
  ultimately show ?case
    using Cons.IH [of ?c] Cons.prems(1) d
    by (subst frames_loop.simps) (simp split: prod.splits)
qed

subsection \<open>Properties\<close>

text \<open>C3: Round trip of the QUIC frames. Encoding any frame that delimits itself on the wire (a STREAM
  frame with its length, ACK ranges in their shortest form) into a buffer of \<open>cap\<close> bytes either
  succeeds with \<open>WT_OK\<close> when its wire image fits, and then decoding what was written, followed by any
  other bytes, returns the same frame and consumes exactly the written bytes; or leaves the writer
  overflowed when it does not fit.\<close>

theorem wt_quic_frame_round_trip:
  assumes "frame_valid frame" "unat cap \<le> length d" "length rest < 2 ^ 62" "unat cap < 2 ^ 63"
    and "wt_quic_frame_encode frame (wt_writer_init (Some d) cap) = (status, w)"
  shows "(wt_writer_ok w \<longleftrightarrow> length (frame_bytes frame) \<le> unat cap) \<and>
    (wt_writer_ok w \<longrightarrow>
       status = WT_OK \<and>
       wt_quic_frame_decode (cursor_of (writer_out w @ rest)) =
         (Inr frame, cursor_advance (cursor_of (writer_out w @ rest)) (unat (wt_writer_offset w))))"
proof -
  note init = writes_init [OF writes_frame [OF assms(1)] assms(2), unfolded assms(5) snd_conv]
  have "status = WT_OK" if "wt_writer_ok w"
    using frame_encode_status [OF assms(1), of "wt_writer_init (Some d) cap"] that assms(5) by simp
  moreover have "wt_quic_frame_decode (cursor_of (frame_bytes frame @ rest)) =
      (Inr frame, cursor_advance (cursor_of (frame_bytes frame @ rest)) (length (frame_bytes frame)))"
    if "length (frame_bytes frame) \<le> unat cap"
    using reads_of [OF reads_frame_decode [OF assms(1)], of rest] that assms(3,4) by simp
  ultimately show ?thesis using init by auto
qed

theorem wt_quic_frame_round_trip_witness:
  "frame_valid (FRAME_MAX_STREAM_DATA 4 1000) \<and>
   fst (wt_quic_frame_decode (cursor_of (writer_out (snd (wt_quic_frame_encode (FRAME_MAX_STREAM_DATA 4 1000)
     (wt_writer_init (Some [0, 0, 0, 0]) 4))) @ [1]))) = Inr (FRAME_MAX_STREAM_DATA 4 1000)"
proof -
  have v: "frame_valid (FRAME_MAX_STREAM_DATA 4 1000)" by (simp add: varint_valid_unat)
  obtain status w where e: "wt_quic_frame_encode (FRAME_MAX_STREAM_DATA 4 1000)
     (wt_writer_init (Some [0, 0, 0, 0]) 4) = (status, w)" by fastforce
  have len: "length (frame_bytes (FRAME_MAX_STREAM_DATA 4 1000)) \<le> unat (4 :: u64)"
    by (simp add: frame_bytes_def length_varint_bytes varint_valid_unat wt_quic_varint_size_def)
  have "fst (wt_quic_frame_decode (cursor_of (writer_out w @ [1]))) = Inr (FRAME_MAX_STREAM_DATA 4 1000)"
    using wt_quic_frame_round_trip [OF v _ _ _ e, of "[1]"] len by simp
  with v e show ?thesis by simp
qed

text \<open>C8: The frame decoder on arbitrary bytes. From any well-formed cursor it stays inside the
  buffer; when it returns a frame it has consumed at least one byte and the frame satisfies every
  limit the decoder enforces (connection ID length, retire-prior-to, stream count at most \<open>2^60\<close>,
  reliable size, a non-empty token, fixed-size tokens and path data, every integer below \<open>2^62\<close>); when
  it fails the status is \<open>WT_ERR_TRUNCATED\<close> or \<open>WT_ERR_PROTOCOL\<close>, and a transport error code comes
  exactly with the latter.\<close>

theorem wt_quic_frame_decode_sound:
  assumes "cursor_inv c" "wt_quic_frame_decode c = (r, c')"
  shows "cursor_inv c' \<and> (\<exists>pre. cursor_view c = pre @ cursor_view c') \<and>
    (case r of
       Inl (status, err) \<Rightarrow> status = WT_ERR_TRUNCATED \<and> err = None \<or>
         status = WT_ERR_PROTOCOL \<and> err \<in> {Some WT_QUIC_FRAME_ENCODING_ERROR, Some WT_QUIC_PROTOCOL_VIOLATION}
     | Inr frame \<Rightarrow> frame_wf frame \<and> wt_cursor_remaining c' < wt_cursor_remaining c)"
proof -
  have "cursor_inv c'" "\<exists>pre. cursor_view c = pre @ cursor_view c'"
    using reader_safeD [OF reader_safe_frame_decode assms(1)] assms
      reader_safe_suffix [OF reader_safe_frame_decode assms] by (simp_all add: cursor_step_def)
  moreover have "frame_fail_ok e" if "r = Inl e" for e
    using fails_withD [OF fails_frame_decode] assms(2) that by simp
  moreover have "frame_wf frame \<and> wt_cursor_remaining c' < wt_cursor_remaining c" if "r = Inr frame" for frame
    using yieldsD [OF yields_frame_decode assms(1)] frame_decode_progress assms(2) that by simp
  ultimately show ?thesis
    by (auto simp: frame_fail_ok_def split: sum.splits)
qed

theorem wt_quic_frame_decode_sound_witness:
  "cursor_inv (cursor_of [0x18, 0x05, 0x06, 0x00]) \<and>
   (\<exists>c'. wt_quic_frame_decode (cursor_of [0x18, 0x05, 0x06, 0x00]) =
      (Inl (WT_ERR_PROTOCOL, Some WT_QUIC_FRAME_ENCODING_ERROR), c') \<and> cursor_inv c')"
proof -
  have inv: "cursor_inv (cursor_of [0x18, 0x05, 0x06, 0x00])"
    using cursor_ready_of [of "[0x18, 0x05, 0x06, 0x00]"] by (simp add: cursor_ready_def)
  obtain c' where d: "wt_quic_frame_decode (cursor_of [0x18, 0x05, 0x06, 0x00]) =
      (Inl (WT_ERR_PROTOCOL, Some WT_QUIC_FRAME_ENCODING_ERROR), c')"
    by (simp add: wt_quic_frame_decode_def wt_quic_varint_decode_sized_def wt_quic_frame_body_def
        decode_new_connection_id_def rbind_def wt_quic_read_varint_def wt_quic_varint_decode_def
        frame_bytes_view_def wt_quic_decode_fail_def rfail_def cursor_of_def wt_cursor_init_def
        wt_cursor_remaining_def wt_cursor_u8_def wt_cursor_take_def wt_cursor_bytes_def
        wt_quic_varint_is_minimal_def wt_quic_varint_size_def drop_bit_eq_div)
  from wt_quic_frame_decode_sound [OF inv d] inv d show ?thesis by simp
qed

text \<open>C9: The payload loop refines the abstract visit. On a packet payload that is the concatenation
  of the wire images of some self-delimiting frames, \<open>wt_quic_frames_decode\<close> hands exactly these frames to the visitor,
  in order, and stops at the first status that is not \<open>WT_OK\<close>, which it returns.\<close>

theorem wt_quic_frames_decode_visits:
  assumes "list_all frame_valid fs" "length (concat (map frame_bytes fs)) < 2 ^ 64"
  shows "wt_quic_frames_decode visit (Some (concat (map frame_bytes fs)))
      (of_nat (length (concat (map frame_bytes fs)))) ctx = visit_all visit fs ctx"
  using frames_loop_visits [OF assms(1), of "cursor_of (concat (map frame_bytes fs))" visit ctx] assms(2)
  by (simp add: wt_quic_frames_decode_def cursor_of_def [symmetric])

theorem wt_quic_frames_decode_visits_witness:
  "wt_quic_frames_decode (\<lambda>n f. (if f = FRAME_PING then WT_OK else WT_ERR_STATE, Suc n))
     (Some (concat (map frame_bytes [FRAME_PING, FRAME_PADDING, FRAME_PING])))
     (of_nat (length (concat (map frame_bytes [FRAME_PING, FRAME_PADDING, FRAME_PING])))) (0 :: nat) =
   ((WT_ERR_STATE, None), 2)"
proof -
  have v: "list_all frame_valid [FRAME_PING, FRAME_PADDING, FRAME_PING]" by simp
  have l: "length (concat (map frame_bytes [FRAME_PING, FRAME_PADDING, FRAME_PING])) < 2 ^ 64"
    by (simp add: frame_bytes_def length_varint_bytes varint_valid_unat wt_quic_varint_size_def)
  show ?thesis unfolding wt_quic_frames_decode_visits [OF v l] by simp
qed

end
