(* ===== verification/Pn_Space.thy ===== *)
theory Pn_Space
  imports Packet_Number Quic_Frame
begin

text \<open>
  What one packet number space remembers (\<open>C99/src/quic/pn_space.c\<close>): the set of received packet
  numbers as at most 32 ranges, largest first, and the ACK frame built from it; the round trip time
  estimator; the send counter and the acknowledgement watermark. The array \<open>ranges\<close> with its
  \<open>count\<close> is the list of its first \<open>count\<close> entries, the only ones the code reads.
\<close>

subsection \<open>The received set\<close>

definition WT_QUIC_RECEIVED_RANGES_MAX :: nat where
  "WT_QUIC_RECEIVED_RANGES_MAX = 32"

record wt_quic_received_range =
  rr_smallest :: u64
  rr_largest :: u64

record wt_quic_ack_state =
  as_ranges :: "wt_quic_received_range list"
  as_has_largest :: bool
  as_largest_received :: u64
  as_ack_eliciting_since_ack :: u64
  as_ack_pending :: bool

definition wt_quic_ack_state_init :: wt_quic_ack_state where
  "wt_quic_ack_state_init =
     \<lparr>as_ranges = [], as_has_largest = False, as_largest_received = 0,
      as_ack_eliciting_since_ack = 0, as_ack_pending = False\<rparr>"

definition wt_quic_ack_contains :: "wt_quic_ack_state \<Rightarrow> u64 \<Rightarrow> bool" where
  "wt_quic_ack_contains st pn \<longleftrightarrow>
     list_ex (\<lambda>r. pn \<ge> rr_smallest r \<and> pn \<le> rr_largest r) (as_ranges st)"

definition drop_oldest :: "wt_quic_received_range list \<Rightarrow> wt_quic_received_range list" where
  "drop_oldest rs = (if length rs = 0 then rs else take (length rs - 1) rs)"

text \<open>The search loop: the first index whose largest is below the packet number, or the count.\<close>

fun insertion_point :: "u64 \<Rightarrow> wt_quic_received_range list \<Rightarrow> nat" where
  "insertion_point pn [] = 0"
| "insertion_point pn (r # rs) = (if pn > rr_largest r then 0 else Suc (insertion_point pn rs))"

definition record_ranges :: "u64 \<Rightarrow> wt_quic_received_range list \<Rightarrow> wt_quic_received_range list" where
  "record_ranges pn rs =
     (let at = insertion_point pn rs;
          joins_above = (at > 0 \<and> rr_smallest (rs ! (at - 1)) = pn + 1);
          joins_below = (at < length rs \<and> rr_largest (rs ! at) = pn - 1)
      in if joins_above \<and> joins_below then
           take (at - 1) rs @ [(rs ! (at - 1))\<lparr>rr_smallest := rr_smallest (rs ! at)\<rparr>] @ drop (at + 1) rs
         else if joins_above then rs[at - 1 := (rs ! (at - 1))\<lparr>rr_smallest := pn\<rparr>]
         else if joins_below then rs[at := (rs ! at)\<lparr>rr_largest := pn\<rparr>]
         else
           let rs' = (if length rs = WT_QUIC_RECEIVED_RANGES_MAX then drop_oldest rs else rs);
               at' = (if length rs = WT_QUIC_RECEIVED_RANGES_MAX \<and> at > length rs' then length rs' else at)
           in take at' rs' @ [\<lparr>rr_smallest = pn, rr_largest = pn\<rparr>] @ drop at' rs')"

definition wt_quic_ack_record :: "wt_quic_ack_state \<Rightarrow> u64 \<Rightarrow> bool \<Rightarrow> wt_quic_ack_state" where
  "wt_quic_ack_record st pn ack_eliciting =
     (if wt_quic_ack_contains st pn then st
      else
        let st1 = st\<lparr>as_ranges := record_ranges pn (as_ranges st)\<rparr>;
            st2 = (if \<not> as_has_largest st1 \<or> pn > as_largest_received st1
                   then st1\<lparr>as_largest_received := pn, as_has_largest := True\<rparr> else st1);
            st3 = st2\<lparr>as_ack_pending := True\<rparr>
        in if ack_eliciting
           then st3\<lparr>as_ack_eliciting_since_ack := as_ack_eliciting_since_ack st3 + 1\<rparr> else st3)"

text \<open>The loop over the ranges after the first, from the smallest number of the previous one.\<close>

fun build_ranges :: "u64 \<Rightarrow> wt_quic_received_range list \<Rightarrow> wt_writer \<Rightarrow> wt_writer" where
  "build_ranges previous_smallest [] w = w"
| "build_ranges previous_smallest (r # rs) w =
     build_ranges (rr_smallest r) rs
       (emit [put_varint (previous_smallest - rr_largest r - 2),
              put_varint (rr_largest r - rr_smallest r)] w)"

text \<open>
  \<open>wt_quic_ack_build\<close> into the caller's array \<open>range_bytes\<close>: on success the frame, which views the bytes
  written there, with the array as it is left; the length the C function stores is that of the view.
\<close>

definition wt_quic_ack_build ::
  "wt_quic_ack_state \<Rightarrow> u64 \<Rightarrow> u8 list \<Rightarrow> u64 \<Rightarrow> (wt_quic_frame \<times> u8 list) wt_result" where
  "wt_quic_ack_build st delay range_bytes range_capacity =
     (if \<not> as_has_largest st \<or> length (as_ranges st) = 0 then Inl WT_ERR_STATE
      else
        let r0 = as_ranges st ! 0;
            w = build_ranges (rr_smallest r0) (drop 1 (as_ranges st))
                  (wt_writer_init (Some range_bytes) range_capacity)
        in if \<not> wt_writer_ok w then Inl WT_ERR_LIMIT
           else Inr (FRAME_ACK
             \<lparr>ack_largest = rr_largest r0, ack_delay = delay,
              ack_first_range = rr_largest r0 - rr_smallest r0,
              ack_ranges_bytes = take (unat (wt_writer_offset w)) (wr_data w),
              ack_range_count = of_nat (length (as_ranges st)) - 1, ack_has_ecn = False,
              ack_ect0 = 0, ack_ect1 = 0, ack_ecn_ce = 0\<rparr>, wr_data w))"

definition wt_quic_ack_sent :: "wt_quic_ack_state \<Rightarrow> wt_quic_ack_state" where
  "wt_quic_ack_sent st = st\<lparr>as_ack_pending := False, as_ack_eliciting_since_ack := 0\<rparr>"

definition wt_quic_ack_should_send :: "wt_quic_ack_state \<Rightarrow> bool" where
  "wt_quic_ack_should_send st =
     (if \<not> as_ack_pending st then False
      else if as_ack_eliciting_since_ack st \<ge> 2 then True
      else if length (as_ranges st) > 1 then True
      else False)"

fun has_gap_from :: "wt_quic_received_range list \<Rightarrow> bool" where
  "has_gap_from (a # b # rs) = (if rr_smallest a > rr_largest b + 1 then True else has_gap_from (b # rs))"
| "has_gap_from _ = False"

definition wt_quic_ack_has_gap :: "wt_quic_ack_state \<Rightarrow> bool" where
  "wt_quic_ack_has_gap st = has_gap_from (as_ranges st)"

definition wt_quic_ack_received_count :: "wt_quic_ack_state \<Rightarrow> u64" where
  "wt_quic_ack_received_count st =
     foldl (\<lambda>total r. total + (rr_largest r - rr_smallest r + 1)) 0 (as_ranges st)"

subsection \<open>Round trip time\<close>

definition WT_QUIC_TIMER_GRANULARITY :: u64 where "WT_QUIC_TIMER_GRANULARITY = 1000"

record wt_quic_rtt =
  rtt_latest :: u64
  rtt_smoothed :: u64
  rtt_rttvar :: u64
  rtt_min_rtt :: u64
  rtt_has_sample :: bool

definition wt_quic_rtt_init :: wt_quic_rtt where
  "wt_quic_rtt_init =
     \<lparr>rtt_latest = 0, rtt_smoothed = 0, rtt_rttvar = 0, rtt_min_rtt = 0, rtt_has_sample = False\<rparr>"

definition rtt_adjusted :: "wt_quic_rtt \<Rightarrow> u64 \<Rightarrow> u64 \<Rightarrow> u64 \<Rightarrow> bool \<Rightarrow> u64" where
  "rtt_adjusted rtt latest_rtt delay max_ack_delay handshake_confirmed =
     (if handshake_confirmed \<and> latest_rtt \<ge> rtt_min_rtt rtt + delay then
        let capped = (if delay > max_ack_delay then max_ack_delay else delay) in
        if latest_rtt > capped then latest_rtt - capped else latest_rtt
      else latest_rtt)"

definition wt_quic_rtt_update :: "wt_quic_rtt \<Rightarrow> u64 \<Rightarrow> u64 \<Rightarrow> u64 \<Rightarrow> bool \<Rightarrow> wt_quic_rtt" where
  "wt_quic_rtt_update rtt latest_rtt delay max_ack_delay handshake_confirmed =
     (let rtt1 = rtt\<lparr>rtt_latest := latest_rtt\<rparr>;
          rtt2 = (if \<not> rtt_has_sample rtt1 \<or> latest_rtt < rtt_min_rtt rtt1
                  then rtt1\<lparr>rtt_min_rtt := latest_rtt\<rparr> else rtt1);
          adjusted = rtt_adjusted rtt2 latest_rtt delay max_ack_delay handshake_confirmed
      in if \<not> rtt_has_sample rtt2
         then rtt2\<lparr>rtt_smoothed := adjusted, rtt_rttvar := adjusted div 2, rtt_has_sample := True\<rparr>
         else
           let difference = (if rtt_smoothed rtt2 > adjusted then rtt_smoothed rtt2 - adjusted
                             else adjusted - rtt_smoothed rtt2)
           in rtt2\<lparr>rtt_rttvar := (3 * rtt_rttvar rtt2 + difference) div 4,
                   rtt_smoothed := (7 * rtt_smoothed rtt2 + adjusted) div 8\<rparr>)"

definition wt_quic_rtt_pto :: "wt_quic_rtt \<Rightarrow> u64 \<Rightarrow> u64 wt_result" where
  "wt_quic_rtt_pto rtt max_ack_delay =
     (if \<not> rtt_has_sample rtt then Inl WT_ERR_STATE
      else
        let v = 4 * rtt_rttvar rtt;
            variation = (if v < WT_QUIC_TIMER_GRANULARITY then WT_QUIC_TIMER_GRANULARITY else v)
        in Inr (rtt_smoothed rtt + variation + max_ack_delay))"

subsection \<open>The space\<close>

record wt_quic_pn_space =
  pns_next_send :: u64
  pns_has_largest_acked :: bool
  pns_largest_acked :: u64
  pns_has_sent :: bool
  pns_received :: wt_quic_ack_state
  pns_rtt :: wt_quic_rtt

definition wt_quic_pn_space_init :: wt_quic_pn_space where
  "wt_quic_pn_space_init =
     \<lparr>pns_next_send = 0, pns_has_largest_acked = False, pns_largest_acked = 0, pns_has_sent = False,
      pns_received = wt_quic_ack_state_init, pns_rtt = wt_quic_rtt_init\<rparr>"

definition wt_quic_pn_space_next :: "wt_quic_pn_space \<Rightarrow> u64 wt_result \<times> wt_quic_pn_space" where
  "wt_quic_pn_space_next space =
     (if pns_has_sent space \<and> pns_next_send space > WT_QUIC_PACKET_NUMBER_MAX
      then (Inl WT_ERR_OVERFLOW, space)
      else (Inr (pns_next_send space),
            space\<lparr>pns_next_send := pns_next_send space + 1, pns_has_sent := True\<rparr>))"

definition wt_quic_pn_space_on_ack :: "wt_quic_pn_space \<Rightarrow> u64 \<Rightarrow> wt_status \<times> wt_quic_pn_space" where
  "wt_quic_pn_space_on_ack space largest =
     (if pns_has_largest_acked space \<and> largest < pns_largest_acked space then (WT_ERR_STATE, space)
      else (WT_OK, space\<lparr>pns_largest_acked := largest, pns_has_largest_acked := True\<rparr>))"

definition wt_quic_pn_space_first_in_flight :: "wt_quic_pn_space \<Rightarrow> u64" where
  "wt_quic_pn_space_first_in_flight space =
     (if \<not> pns_has_largest_acked space then 0 else pns_largest_acked space + 1)"

subsection \<open>The set the ranges stand for\<close>

definition range_set :: "wt_quic_received_range \<Rightarrow> nat set" where
  "range_set r = {unat (rr_smallest r)..unat (rr_largest r)}"

definition ranges_set :: "wt_quic_received_range list \<Rightarrow> nat set" where
  "ranges_set rs = (\<Union>r\<in>set rs. range_set r)"

text \<open>Every range is non-empty, and between two neighbours at least one number is missing.\<close>

definition range_above :: "wt_quic_received_range \<Rightarrow> wt_quic_received_range \<Rightarrow> bool" where
  "range_above a b \<longleftrightarrow> unat (rr_largest b) + 1 < unat (rr_smallest a)"

definition ranges_ok :: "wt_quic_received_range list \<Rightarrow> bool" where
  "ranges_ok rs \<longleftrightarrow> list_all (\<lambda>r. rr_smallest r \<le> rr_largest r) rs \<and> sorted_wrt range_above rs"

definition received_set :: "wt_quic_ack_state \<Rightarrow> nat set" where
  "received_set st = ranges_set (as_ranges st)"

definition ack_inv :: "wt_quic_ack_state \<Rightarrow> bool" where
  "ack_inv st \<longleftrightarrow>
     ranges_ok (as_ranges st) \<and> length (as_ranges st) \<le> WT_QUIC_RECEIVED_RANGES_MAX \<and>
     (as_has_largest st \<longleftrightarrow> as_ranges st \<noteq> []) \<and>
     (as_ranges st \<noteq> [] \<longrightarrow> as_largest_received st = rr_largest (hd (as_ranges st)))"

lemma ranges_set_simps [simp]:
  "ranges_set [] = {}" "ranges_set (r # rs) = range_set r \<union> ranges_set rs"
  "ranges_set (rs @ qs) = ranges_set rs \<union> ranges_set qs"
  by (auto simp: ranges_set_def)

lemma ranges_ok_append:
  "ranges_ok (ps @ qs) \<longleftrightarrow> ranges_ok ps \<and> ranges_ok qs \<and> (\<forall>p\<in>set ps. \<forall>q\<in>set qs. range_above p q)"
  by (auto simp: ranges_ok_def sorted_wrt_append)

lemma ranges_ok_Cons:
  "ranges_ok (r # rs) \<longleftrightarrow> rr_smallest r \<le> rr_largest r \<and> ranges_ok rs \<and> (\<forall>q\<in>set rs. range_above r q)"
  by (auto simp: ranges_ok_def)

lemma ranges_ok_Nil [simp]: "ranges_ok []"
  by (simp add: ranges_ok_def)

lemma ack_contains_set: "wt_quic_ack_contains st pn \<longleftrightarrow> unat pn \<in> received_set st"
  by (auto simp: wt_quic_ack_contains_def received_set_def ranges_set_def range_set_def list_ex_iff
      word_le_nat_alt)

lemma insertion_point_le: "insertion_point pn rs \<le> length rs"
  by (induction rs) auto

lemma insertion_point_take: "\<forall>r\<in>set (take (insertion_point pn rs) rs). pn \<le> rr_largest r"
  by (induction rs) auto

lemma insertion_point_drop:
  "drop (insertion_point pn rs) rs = q # qs \<Longrightarrow> rr_largest q < pn"
  by (induction rs) (auto split: if_splits)

text \<open>The ranges above and below a packet number that is not recorded.\<close>

lemma insertion_split:
  assumes "ranges_ok rs" "unat pn \<notin> ranges_set rs"
  obtains ps qs where "rs = ps @ qs" "insertion_point pn rs = length ps"
    "\<forall>p\<in>set ps. unat pn < unat (rr_smallest p)" "\<forall>q\<in>set qs. unat (rr_largest q) < unat pn"
proof
  let ?k = "insertion_point pn rs"
  let ?ps = "take ?k rs" and ?qs = "drop ?k rs"
  show "rs = ?ps @ ?qs" by simp
  show "?k = length ?ps" using insertion_point_le [of pn rs] by simp
  have "unat pn \<notin> range_set r" if "r \<in> set rs" for r
    using assms(2) that by (auto simp: ranges_set_def)
  then have "unat pn < unat (rr_smallest r)" if "r \<in> set rs" "unat pn \<le> unat (rr_largest r)" for r
    using that by (force simp: range_set_def)
  then show "\<forall>p\<in>set ?ps. unat pn < unat (rr_smallest p)"
    using insertion_point_take [of pn rs] by (auto simp: word_le_nat_alt dest: in_set_takeD)
  show "\<forall>q\<in>set ?qs. unat (rr_largest q) < unat pn"
  proof (cases ?qs)
    case (Cons q qs)
    have "ranges_ok (?ps @ q # qs)" using assms(1) Cons by (metis append_take_drop_id)
    then have "rr_smallest q \<le> rr_largest q" "\<forall>r\<in>set qs. range_above q r"
      by (auto simp: ranges_ok_append ranges_ok_Cons)
    moreover have "rr_largest q < pn" using insertion_point_drop [OF Cons] .
    ultimately show ?thesis
      by (fastforce simp: Cons range_above_def word_less_nat_alt word_le_nat_alt)
  qed simp
qed

lemma joins_above_nat:
  "unat pn < unat (s :: u64) \<Longrightarrow> s = pn + 1 \<longleftrightarrow> unat s = unat pn + 1"
  using unat_add_no_wrap [of pn 1] unat_u64_less [of s] by (auto simp: word_unat_eq_iff)

lemma joins_below_nat:
  "unat (l :: u64) < unat pn \<Longrightarrow> l = pn - 1 \<longleftrightarrow> unat pn = unat l + 1"
  using unat_sub_le [of 1 pn] by (auto simp: word_unat_eq_iff word_le_nat_alt)

text \<open>The four ways a new packet number enters the list.\<close>

lemma drop_oldest_butlast: "drop_oldest rs = butlast rs"
  by (simp add: drop_oldest_def butlast_conv_take)

lemma record_ranges_eq:
  assumes "insertion_point pn (ps @ qs) = length ps"
  shows "record_ranges pn (ps @ qs) =
    (let ja = (ps \<noteq> [] \<and> rr_smallest (last ps) = pn + 1);
         jb = (qs \<noteq> [] \<and> rr_largest (hd qs) = pn - 1);
         new = \<lparr>rr_smallest = pn, rr_largest = pn\<rparr>
     in if ja \<and> jb then butlast ps @ [(last ps)\<lparr>rr_smallest := rr_smallest (hd qs)\<rparr>] @ tl qs
        else if ja then butlast ps @ [(last ps)\<lparr>rr_smallest := pn\<rparr>] @ qs
        else if jb then ps @ [(hd qs)\<lparr>rr_largest := pn\<rparr>] @ tl qs
        else if length (ps @ qs) = WT_QUIC_RECEIVED_RANGES_MAX
        then (if qs = [] then butlast ps @ [new] else ps @ [new] @ butlast qs)
        else ps @ [new] @ qs)"
  using assms
  by (cases ps rule: rev_cases; cases qs)
    (simp_all add: record_ranges_def Let_def drop_oldest_butlast nth_append list_update_append
      WT_QUIC_RECEIVED_RANGES_MAX_def butlast_append)

lemma record_ranges_cases:
  assumes ok: "ranges_ok (ps @ qs)" and at: "insertion_point pn (ps @ qs) = length ps"
    and above: "\<forall>p\<in>set ps. unat pn < unat (rr_smallest p)"
    and below: "\<forall>q\<in>set qs. unat (rr_largest q) < unat pn"
  obtains
    (both) ps' p q qs' where "ps = ps' @ [p]" "qs = q # qs'"
      "unat (rr_smallest p) = unat pn + 1" "unat pn = unat (rr_largest q) + 1"
      "record_ranges pn (ps @ qs) = ps' @ [p\<lparr>rr_smallest := rr_smallest q\<rparr>] @ qs'"
  | (joins_above) ps' p where "ps = ps' @ [p]" "unat (rr_smallest p) = unat pn + 1"
      "\<forall>q\<in>set qs. unat (rr_largest q) + 1 < unat pn"
      "record_ranges pn (ps @ qs) = ps' @ [p\<lparr>rr_smallest := pn\<rparr>] @ qs"
  | (joins_below) q qs' where "qs = q # qs'" "unat pn = unat (rr_largest q) + 1"
      "\<forall>p\<in>set ps. unat pn + 1 < unat (rr_smallest p)"
      "record_ranges pn (ps @ qs) = ps @ [q\<lparr>rr_largest := pn\<rparr>] @ qs'"
  | (alone) ps' qs' where "\<forall>p\<in>set ps. unat pn + 1 < unat (rr_smallest p)"
      "\<forall>q\<in>set qs. unat (rr_largest q) + 1 < unat pn"
      "record_ranges pn (ps @ qs) = ps' @ [\<lparr>rr_smallest = pn, rr_largest = pn\<rparr>] @ qs'"
      "ps' @ qs' = (if length (ps @ qs) = WT_QUIC_RECEIVED_RANGES_MAX then butlast (ps @ qs) else ps @ qs)"
      "set ps' \<subseteq> set ps" "set qs' \<subseteq> set qs" "ps \<noteq> [] \<Longrightarrow> ps' \<noteq> [] \<and> hd ps' = hd ps"
proof -
  let ?ja = "ps \<noteq> [] \<and> rr_smallest (last ps) = pn + 1"
  let ?jb = "qs \<noteq> [] \<and> rr_largest (hd qs) = pn - 1"
  note rec = record_ranges_eq [OF at, unfolded Let_def]
  have na: "\<forall>p\<in>set ps. unat pn + 1 < unat (rr_smallest p)" if "\<not> ?ja"
  proof (cases ps rule: rev_cases)
    case (snoc ps' p)
    with that above have "unat pn + 1 < unat (rr_smallest p)"
      using joins_above_nat [of pn "rr_smallest p"] by auto
    moreover have "\<forall>a\<in>set ps'. unat (rr_smallest p) \<le> unat (rr_smallest a)"
      using ok by (auto simp: snoc ranges_ok_append ranges_ok_Cons range_above_def word_le_nat_alt)
    ultimately show ?thesis by (auto simp: snoc)
  qed simp
  have nb: "\<forall>q\<in>set qs. unat (rr_largest q) + 1 < unat pn" if "\<not> ?jb"
  proof (cases qs)
    case (Cons q qs')
    with that below have "unat (rr_largest q) + 1 < unat pn"
      using joins_below_nat [of "rr_largest q" pn] by auto
    moreover have "\<forall>b\<in>set qs'. unat (rr_largest b) \<le> unat (rr_largest q)"
      using ok by (auto simp: Cons ranges_ok_append ranges_ok_Cons range_above_def word_le_nat_alt)
    ultimately show ?thesis by (auto simp: Cons)
  qed simp
  have ja: "unat (rr_smallest (last ps)) = unat pn + 1" if ?ja
    using that above last_in_set [of ps] joins_above_nat [of pn "rr_smallest (last ps)"] by blast
  have jb: "unat pn = unat (rr_largest (hd qs)) + 1" if ?jb
    using that below hd_in_set [of qs] joins_below_nat [of "rr_largest (hd qs)" pn] by blast
  consider "?ja" "?jb" | "?ja" "\<not> ?jb" | "\<not> ?ja" "?jb" | "\<not> ?ja" "\<not> ?jb" by blast
  then show thesis
  proof cases
    case 1
    then show thesis using rec ja jb by (intro both [of "butlast ps" "last ps" "hd qs" "tl qs"]) auto
  next
    case 2
    then show thesis using rec ja nb by (intro joins_above [of "butlast ps" "last ps"]) auto
  next
    case 3
    then show thesis using rec jb na by (intro joins_below [of "hd qs" "tl qs"]) auto
  next
    case 4
    let ?full = "length (ps @ qs) = WT_QUIC_RECEIVED_RANGES_MAX"
    let ?ps = "if ?full \<and> qs = [] then butlast ps else ps" and ?qs = "if ?full then butlast qs else qs"
    show thesis
    proof (rule alone [of ?ps ?qs])
      show "record_ranges pn (ps @ qs) = ?ps @ [\<lparr>rr_smallest = pn, rr_largest = pn\<rparr>] @ ?qs"
        using 4 rec by auto
      show "ps \<noteq> [] \<Longrightarrow> ?ps \<noteq> [] \<and> hd ?ps = hd ps"
        by (cases ps rule: rev_cases) (auto simp: WT_QUIC_RECEIVED_RANGES_MAX_def hd_append)
    qed (use 4 na nb in \<open>auto simp: butlast_append dest: in_set_butlastD\<close>)
  qed
qed

lemma record_keeps_ok:
  assumes "ranges_ok (ps @ qs)" "insertion_point pn (ps @ qs) = length ps"
    "\<forall>p\<in>set ps. unat pn < unat (rr_smallest p)" "\<forall>q\<in>set qs. unat (rr_largest q) < unat pn"
  shows "ranges_ok (record_ranges pn (ps @ qs))"
  using assms
proof (cases rule: record_ranges_cases)
  case (both ps' p q qs')
  with assms(1) show ?thesis
    by (fastforce simp: ranges_ok_append ranges_ok_Cons range_above_def word_le_nat_alt)
next
  case (joins_above ps' p)
  with assms(1) show ?thesis
    by (fastforce simp: ranges_ok_append ranges_ok_Cons range_above_def word_le_nat_alt)
next
  case (joins_below q qs')
  with assms(1) show ?thesis
    by (fastforce simp: ranges_ok_append ranges_ok_Cons range_above_def word_le_nat_alt)
next
  case (alone ps' qs')
  have "ranges_ok (ps' @ qs')"
    using assms(1) by (cases "ps @ qs" rule: rev_cases) (auto simp: alone(4) ranges_ok_append)
  moreover have "\<forall>p\<in>set ps'. unat pn + 1 < unat (rr_smallest p)"
    "\<forall>q\<in>set qs'. unat (rr_largest q) + 1 < unat pn"
    using alone(1,2,5,6) by auto
  ultimately show ?thesis
    unfolding alone(3) by (auto simp: ranges_ok_append ranges_ok_Cons range_above_def)
qed

lemma record_set:
  assumes "ranges_ok (ps @ qs)" "insertion_point pn (ps @ qs) = length ps"
    "\<forall>p\<in>set ps. unat pn < unat (rr_smallest p)" "\<forall>q\<in>set qs. unat (rr_largest q) < unat pn"
  shows "ranges_set (record_ranges pn (ps @ qs)) = insert (unat pn) (ranges_set (ps @ qs)) \<or>
    length (ps @ qs) = WT_QUIC_RECEIVED_RANGES_MAX \<and>
    ranges_set (record_ranges pn (ps @ qs)) = insert (unat pn) (ranges_set (butlast (ps @ qs)))"
  using assms
proof (cases rule: record_ranges_cases)
  case (both ps' p q qs')
  with assms(1) have "range_set (p\<lparr>rr_smallest := rr_smallest q\<rparr>) = insert (unat pn) (range_set p \<union> range_set q)"
    by (auto simp: range_set_def ranges_ok_append ranges_ok_Cons word_le_nat_alt)
  with both show ?thesis by auto
next
  case (joins_above ps' p)
  with assms(1) have "range_set (p\<lparr>rr_smallest := pn\<rparr>) = insert (unat pn) (range_set p)"
    by (auto simp: range_set_def ranges_ok_append ranges_ok_Cons word_le_nat_alt)
  with joins_above show ?thesis by auto
next
  case (joins_below q qs')
  with assms(1) have "range_set (q\<lparr>rr_largest := pn\<rparr>) = insert (unat pn) (range_set q)"
    by (auto simp: range_set_def ranges_ok_append ranges_ok_Cons word_le_nat_alt)
  with joins_below show ?thesis by auto
next
  case (alone ps' qs')
  have "range_set \<lparr>rr_smallest = pn, rr_largest = pn\<rparr> = {unat pn}" by (auto simp: range_set_def)
  then have "ranges_set (record_ranges pn (ps @ qs)) = insert (unat pn) (ranges_set (ps' @ qs'))"
    using alone(3) by auto
  then show ?thesis unfolding alone(4) by simp
qed

lemma record_length:
  assumes "ranges_ok (ps @ qs)" "insertion_point pn (ps @ qs) = length ps"
    "\<forall>p\<in>set ps. unat pn < unat (rr_smallest p)" "\<forall>q\<in>set qs. unat (rr_largest q) < unat pn"
  shows "record_ranges pn (ps @ qs) \<noteq> [] \<and>
    (length (ps @ qs) \<le> WT_QUIC_RECEIVED_RANGES_MAX \<longrightarrow>
     length (record_ranges pn (ps @ qs)) \<le> WT_QUIC_RECEIVED_RANGES_MAX)"
  using assms
proof (cases rule: record_ranges_cases)
  case (alone ps' qs')
  have "length ps' + length qs' =
      (if length (ps @ qs) = WT_QUIC_RECEIVED_RANGES_MAX then length (ps @ qs) - 1 else length (ps @ qs))"
    using arg_cong [OF alone(4), of length] by (simp split: if_splits)
  with alone(3) show ?thesis by (auto simp: WT_QUIC_RECEIVED_RANGES_MAX_def)
qed auto

lemma record_largest:
  assumes "ranges_ok (ps @ qs)" "insertion_point pn (ps @ qs) = length ps"
    "\<forall>p\<in>set ps. unat pn < unat (rr_smallest p)" "\<forall>q\<in>set qs. unat (rr_largest q) < unat pn"
  shows "rr_largest (hd (record_ranges pn (ps @ qs))) =
    (if ps @ qs = [] then pn else max pn (rr_largest (hd (ps @ qs))))"
proof -
  have top: "pn < rr_largest (hd ps)" if "ps \<noteq> []"
    using assms(1,3) that hd_in_set [OF that]
    by (cases ps) (auto simp: ranges_ok_Cons word_less_nat_alt word_le_nat_alt)
  have low: "rr_largest (hd qs) < pn" if "qs \<noteq> []"
    using assms(4) that by (cases qs) (auto simp: word_less_nat_alt)
  show ?thesis
    using assms
  proof (cases rule: record_ranges_cases)
    case (both ps' p q qs')
    with top show ?thesis by (cases ps') auto
  next
    case (joins_above ps' p)
    with top show ?thesis by (cases ps') auto
  next
    case (joins_below q qs')
    with top low show ?thesis by (cases ps) (auto simp: max_def)
  next
    case (alone ps' qs')
    show ?thesis
    proof (cases ps)
      case Nil
      with alone low show ?thesis by (cases qs) (auto simp: max_def)
    qed (use alone top in \<open>auto simp: hd_append max_def\<close>)
  qed
qed

text \<open>The effect of recording a packet, on the invariant and on the set.\<close>

lemma ack_inv_init: "ack_inv wt_quic_ack_state_init" "received_set wt_quic_ack_state_init = {}"
  by (simp_all add: ack_inv_def wt_quic_ack_state_init_def received_set_def)

lemma as_ranges_record:
  "as_ranges (wt_quic_ack_record st pn e) =
     (if wt_quic_ack_contains st pn then as_ranges st else record_ranges pn (as_ranges st))"
  by (simp add: wt_quic_ack_record_def Let_def)

lemma ack_record_split:
  assumes "ack_inv st" "\<not> wt_quic_ack_contains st pn"
  obtains ps qs where "as_ranges st = ps @ qs" "ranges_ok (ps @ qs)"
    "insertion_point pn (ps @ qs) = length ps"
    "\<forall>p\<in>set ps. unat pn < unat (rr_smallest p)" "\<forall>q\<in>set qs. unat (rr_largest q) < unat pn"
  using insertion_split [of "as_ranges st" pn] assms
  by (metis ack_contains_set ack_inv_def received_set_def)

lemma ack_record_inv:
  assumes "ack_inv st"
  shows "ack_inv (wt_quic_ack_record st pn e)"
proof (cases "wt_quic_ack_contains st pn")
  case True
  with assms show ?thesis by (simp add: wt_quic_ack_record_def)
next
  case False
  obtain ps qs where *: "as_ranges st = ps @ qs" and r: "ranges_ok (ps @ qs)"
    "insertion_point pn (ps @ qs) = length ps"
    "\<forall>p\<in>set ps. unat pn < unat (rr_smallest p)" "\<forall>q\<in>set qs. unat (rr_largest q) < unat pn"
    using ack_record_split [OF assms False] .
  from assms False record_keeps_ok [OF r] record_length [OF r] record_largest [OF r]
  show ?thesis
    by (auto simp: ack_inv_def wt_quic_ack_record_def Let_def * max_def split: if_splits)
qed

lemma ack_record_set:
  assumes "ack_inv st"
  shows "received_set (wt_quic_ack_record st pn e) = insert (unat pn) (received_set st) \<or>
    length (as_ranges st) = WT_QUIC_RECEIVED_RANGES_MAX \<and>
    received_set (wt_quic_ack_record st pn e) = insert (unat pn) (ranges_set (butlast (as_ranges st)))"
proof (cases "wt_quic_ack_contains st pn")
  case True
  then show ?thesis by (simp add: wt_quic_ack_record_def insert_absorb ack_contains_set [symmetric])
next
  case False
  obtain ps qs where *: "as_ranges st = ps @ qs" and r: "ranges_ok (ps @ qs)"
    "insertion_point pn (ps @ qs) = length ps"
    "\<forall>p\<in>set ps. unat pn < unat (rr_smallest p)" "\<forall>q\<in>set qs. unat (rr_largest q) < unat pn"
    using ack_record_split [OF assms False] .
  from record_set [OF r] False show ?thesis
    by (simp add: received_set_def as_ranges_record *)
qed

subsection \<open>The ACK frame\<close>

text \<open>
  What an ACK frame acknowledges (RFC 9000 section 19.3.1): the first range ends at the largest
  acknowledged number, and each following one ends two and the gap below the start of the previous.
\<close>

fun ack_covers :: "nat \<Rightarrow> nat \<Rightarrow> wt_quic_ack_range list \<Rightarrow> nat set" where
  "ack_covers largest len [] = {largest - len..largest}"
| "ack_covers largest len (r # rs) =
     {largest - len..largest} \<union>
     ack_covers (largest - len - unat (range_gap r) - 2) (unat (range_length r)) rs"

text \<open>The set of a frame, its ranges read with the accessor of the frame codec.\<close>

definition ack_frame_ranges :: "ack_arm \<Rightarrow> wt_quic_ack_range list" where
  "ack_frame_ranges ack =
     map (\<lambda>i. projr (wt_quic_frame_ack_range_at (FRAME_ACK ack) (of_nat i))) [0..<unat (ack_range_count ack)]"

definition ack_frame_set :: "ack_arm \<Rightarrow> nat set" where
  "ack_frame_set ack =
     ack_covers (unat (ack_largest ack)) (unat (ack_first_range ack)) (ack_frame_ranges ack)"

fun wire_ranges :: "u64 \<Rightarrow> wt_quic_received_range list \<Rightarrow> wt_quic_ack_range list" where
  "wire_ranges previous_smallest [] = []"
| "wire_ranges previous_smallest (r # rs) =
     \<lparr>range_gap = previous_smallest - rr_largest r - 2, range_length = rr_largest r - rr_smallest r\<rparr> #
     wire_ranges (rr_smallest r) rs"

lemma length_wire_ranges [simp]: "length (wire_ranges p rs) = length rs"
  by (induction rs arbitrary: p) auto

lemma wire_gap:
  assumes "unat (l :: u64) + 1 < unat s"
  shows "unat (s - l - 2) = unat s - unat l - 2"
proof -
  have "unat (s - l) = unat s - unat l" using assms by (intro unat_sub_le) (simp add: word_le_nat_alt)
  with assms unat_sub_le [of 2 "s - l"] show ?thesis by (simp add: word_le_nat_alt)
qed

lemma wire_ranges_valid:
  "ranges_ok (r # rs) \<Longrightarrow> varint_valid (rr_largest r) \<Longrightarrow> list_all ack_range_valid (wire_ranges (rr_smallest r) rs)"
proof (induction rs arbitrary: r)
  case (Cons q rs)
  then have ab: "unat (rr_largest q) + 1 < unat (rr_smallest r)" and ok: "ranges_ok (q # rs)"
    and q: "unat (rr_smallest q) \<le> unat (rr_largest q)" and r: "unat (rr_smallest r) < 2 ^ 62"
    by (auto simp: ranges_ok_Cons range_above_def word_le_nat_alt varint_valid_unat)
  then have "varint_valid (rr_largest q)" by (simp add: varint_valid_unat)
  with Cons.IH [OF ok] wire_gap [OF ab] r q show ?case
    by (simp add: ack_range_valid_def varint_valid_unat unat_sub_le word_le_nat_alt less_imp_diff_less)
qed simp

lemma ack_covers_wire:
  "ranges_ok (r # rs) \<Longrightarrow>
   ack_covers (unat (rr_largest r)) (unat (rr_largest r - rr_smallest r)) (wire_ranges (rr_smallest r) rs) =
   ranges_set (r # rs)"
proof (induction rs arbitrary: r)
  case Nil
  then show ?case by (simp add: ranges_ok_Cons range_set_def unat_sub_le word_le_nat_alt)
next
  case (Cons q rs)
  then have ab: "unat (rr_largest q) + 1 < unat (rr_smallest r)" and ok: "ranges_ok (q # rs)"
    and r: "unat (rr_smallest r) \<le> unat (rr_largest r)"
    by (auto simp: ranges_ok_Cons range_above_def word_le_nat_alt)
  then have "unat (rr_smallest r) - (unat (rr_smallest r) - unat (rr_largest q) - 2) - 2 = unat (rr_largest q)"
    by simp
  with Cons.IH [OF ok] wire_gap [OF ab] r show ?case
    by (simp add: unat_sub_le word_le_nat_alt range_set_def)
qed

lemma writes_build_ranges:
  "list_all ack_range_valid (wire_ranges p rs) \<Longrightarrow> writes (build_ranges p rs) (ack_range_bytes (wire_ranges p rs))"
proof (induction rs arbitrary: p)
  case Nil
  then show ?case using writes_id by (simp add: writes_def)
next
  case (Cons r rs)
  from Cons.prems have v: "ack_range_valid (hd (wire_ranges p (r # rs)))"
    "list_all ack_range_valid (wire_ranges (rr_smallest r) rs)" by simp_all
  from writes_comp [OF writes_range [OF v(1)] Cons.IH [OF v(2)]] show ?case
    by (simp add: put_range_def)
qed

lemma ack_range_bytes_length:
  "list_all ack_range_valid rs \<Longrightarrow> length (ack_range_bytes rs) \<le> 16 * length rs"
proof (induction rs)
  case (Cons r rs)
  then show ?case
    using varint_size_le [of "range_gap r"] varint_size_le [of "range_length r"]
    by (simp add: ack_range_valid_def length_varint_bytes)
qed simp

lemma ack_build_frame:
  assumes "ack_inv st" "as_ranges st = r # rs" "rr_largest r \<le> WT_QUIC_PACKET_NUMBER_MAX"
    "delay \<le> WT_QUIC_VARINT_MAX" "unat cap \<le> length d"
  defines "bs \<equiv> ack_range_bytes (wire_ranges (rr_smallest r) rs)"
  defines "ack \<equiv> \<lparr>ack_largest = rr_largest r, ack_delay = delay,
    ack_first_range = rr_largest r - rr_smallest r, ack_ranges_bytes = bs,
    ack_range_count = of_nat (length rs), ack_has_ecn = False, ack_ect0 = 0, ack_ect1 = 0, ack_ecn_ce = 0\<rparr>"
  shows "frame_valid (FRAME_ACK ack)" "ack_frame_set ack = received_set st"
    "length bs \<le> 496"
    "wt_quic_ack_build st delay d cap =
       (if length bs \<le> unat cap
        then Inr (FRAME_ACK ack, wr_data (build_ranges (rr_smallest r) rs (wt_writer_init (Some d) cap)))
        else Inl WT_ERR_LIMIT)"
proof -
  have ok: "ranges_ok (r # rs)" and n: "length rs \<le> 31" and hl: "as_has_largest st"
    using assms(1,2) by (auto simp: ack_inv_def WT_QUIC_RECEIVED_RANGES_MAX_def)
  have big: "varint_valid (rr_largest r)" "varint_valid delay"
    using assms(3,4) by (simp_all add: varint_valid_def WT_QUIC_PACKET_NUMBER_MAX_def)
  note v = wire_ranges_valid [OF ok big(1)]
  have rsm: "rr_smallest r \<le> rr_largest r" using ok by (simp add: ranges_ok_Cons)
  show len: "length bs \<le> 496"
    using ack_range_bytes_length [OF v] n by (simp add: bs_def)
  have cnt: "unat (of_nat (length rs) :: u64) = length rs" using n by (intro unat_of_nat_u64) simp
  then show "frame_valid (FRAME_ACK ack)"
    using v big rsm len n
    by (auto simp: ack_def bs_def varint_valid_unat unat_sub_le less_imp_diff_less
        intro!: exI [of _ "wire_ranges (rr_smallest r) rs"])
  have "ack_frame_ranges ack = wire_ranges (rr_smallest r) rs"
    using ack_range_at_nth [OF v, of ack] len cnt
    by (intro nth_equalityI) (simp_all add: ack_frame_ranges_def ack_def bs_def)
  then show "ack_frame_set ack = received_set st"
    using ack_covers_wire [OF ok] by (simp add: ack_frame_set_def ack_def received_set_def assms(2))
  note w = writes_init [OF writes_build_ranges [OF v] assms(5), folded bs_def]
  have "(of_nat (length (as_ranges st)) :: u64) - 1 = of_nat (length rs)" by (simp add: assms(2))
  with w hl show "wt_quic_ack_build st delay d cap =
       (if length bs \<le> unat cap
        then Inr (FRAME_ACK ack, wr_data (build_ranges (rr_smallest r) rs (wt_writer_init (Some d) cap)))
        else Inl WT_ERR_LIMIT)"
    by (simp add: wt_quic_ack_build_def Let_def assms(2) ack_def writer_out_def wt_writer_offset_def)
qed

subsection \<open>Properties\<close>

text \<open>C4: Recording packets never acknowledges one that did not arrive. For any sequence of arrivals
  from the initial state the ranges stay in canonical form (at most 32, largest first, separated by
  gaps, the largest number first), and every number they contain is the number of a packet in the
  sequence; the last packet recorded is always contained.\<close>

theorem wt_quic_ack_record_sound:
  "let st = foldl (\<lambda>st (pn, e). wt_quic_ack_record st pn e) wt_quic_ack_state_init pns in
   ack_inv st \<and> received_set st \<subseteq> unat ` fst ` set pns \<and>
   (pns = [] \<or> wt_quic_ack_contains st (fst (last pns)))"
proof (induction pns rule: rev_induct)
  case Nil
  then show ?case by (simp add: ack_inv_init)
next
  case (snoc x pns)
  obtain pn e where x: "x = (pn, e)" by fastforce
  define st where "st = foldl (\<lambda>st (pn, e). wt_quic_ack_record st pn e) wt_quic_ack_state_init pns"
  have IH: "ack_inv st" "received_set st \<subseteq> unat ` fst ` set pns"
    using snoc by (simp_all add: st_def Let_def)
  have "ranges_set (butlast (as_ranges st)) \<subseteq> received_set st"
    by (auto simp: received_set_def ranges_set_def dest: in_set_butlastD)
  with ack_record_set [OF IH(1), of pn e] IH
  have "received_set (wt_quic_ack_record st pn e) \<subseteq> insert (unat pn) (unat ` fst ` set pns)"
    "unat pn \<in> received_set (wt_quic_ack_record st pn e)"
    by auto
  with ack_record_inv [OF IH(1), of pn e] show ?case
    by (simp add: x Let_def ack_contains_set flip: st_def)
qed

text \<open>One arrival. Recording a packet keeps the canonical form; the set grows by exactly that
  packet number, except when all 32 ranges are in use and the packet touches none of them: then the
  range holding the smallest numbers is given up and everything else is kept.\<close>

lemma wt_quic_ack_record_step:
  assumes "ack_inv st"
  shows "ack_inv (wt_quic_ack_record st pn e) \<and>
    (received_set (wt_quic_ack_record st pn e) = insert (unat pn) (received_set st) \<or>
     length (as_ranges st) = WT_QUIC_RECEIVED_RANGES_MAX \<and>
     received_set (wt_quic_ack_record st pn e) = insert (unat pn) (ranges_set (butlast (as_ranges st))))"
  using ack_record_inv [OF assms] ack_record_set [OF assms] by simp

text \<open>C5: The ACK frame describes exactly what was received. From a canonical, non-empty state whose
  packet numbers are below \<open>2^62\<close>, the frame built for a range buffer that is large enough (496 bytes
  always are) is encodable, and the set a peer reads out of it, first range and further ranges with
  their gaps, equals the received set; a buffer that is too small gives \<open>WT_ERR_LIMIT\<close> and no frame.\<close>

theorem wt_quic_ack_build_exact:
  assumes "ack_inv st" "as_ranges st \<noteq> []" "as_largest_received st \<le> WT_QUIC_PACKET_NUMBER_MAX"
    "delay \<le> WT_QUIC_VARINT_MAX" "unat cap \<le> length d"
  shows "case wt_quic_ack_build st delay d cap of
      Inl status \<Rightarrow> status = WT_ERR_LIMIT \<and> unat cap < 496
    | Inr (frame, d') \<Rightarrow> frame_valid frame \<and> (\<exists>ack. frame = FRAME_ACK ack \<and> ack_frame_set ack = received_set st)"
proof -
  obtain r rs where r: "as_ranges st = r # rs" using assms(2) by (cases "as_ranges st") auto
  with assms(1,3) have "rr_largest r \<le> WT_QUIC_PACKET_NUMBER_MAX" by (simp add: ack_inv_def)
  from ack_build_frame [OF assms(1) r this assms(4,5)] show ?thesis by auto
qed

theorem wt_quic_ack_build_exact_witness:
  "\<exists>ack d'. wt_quic_ack_build (wt_quic_ack_record (wt_quic_ack_record wt_quic_ack_state_init 7 True) 3 True) 0 [0, 0] 2 =
     Inr (FRAME_ACK ack, d') \<and> ack_frame_set ack = {3, 7}"
proof -
  let ?st = "wt_quic_ack_record (wt_quic_ack_record wt_quic_ack_state_init 7 True) 3 True"
  have st: "?st = \<lparr>as_ranges = [\<lparr>rr_smallest = 7, rr_largest = 7\<rparr>, \<lparr>rr_smallest = 3, rr_largest = 3\<rparr>],
      as_has_largest = True, as_largest_received = 7, as_ack_eliciting_since_ack = 2, as_ack_pending = True\<rparr>"
    by (simp add: wt_quic_ack_record_def wt_quic_ack_contains_def record_ranges_def wt_quic_ack_state_init_def
        WT_QUIC_RECEIVED_RANGES_MAX_def)
  have inv: "ack_inv ?st" by (intro ack_record_inv ack_inv_init)
  have b: "\<exists>f. wt_quic_ack_build ?st 0 [0, 0] 2 = Inr f"
    by (simp add: st wt_quic_ack_build_def Let_def put_varint_valid varint_valid_unat varint_bytes_def
        wt_quic_varint_encode_def wt_quic_varint_size_def wt_writer_put_def wt_writer_init_def wt_writer_ok_def)
  have set: "received_set ?st = {3, 7}"
    by (auto simp: st received_set_def range_set_def)
  from wt_quic_ack_build_exact [OF inv, of 0 2 "[0, 0]"] b set show ?thesis
    by (auto simp: st WT_QUIC_PACKET_NUMBER_MAX_def WT_QUIC_VARINT_MAX_def)
qed

definition pn_after :: "nat \<Rightarrow> wt_quic_pn_space" where
  "pn_after k = ((\<lambda>space. snd (wt_quic_pn_space_next space)) ^^ k) wt_quic_pn_space_init"

lemma pn_after_state:
  "pns_next_send (pn_after k) = of_nat (min k (2 ^ 62)) \<and> (pns_has_sent (pn_after k) \<longleftrightarrow> k \<noteq> 0)"
proof (induction k)
  case 0
  then show ?case by (simp add: pn_after_def wt_quic_pn_space_init_def)
next
  case (Suc k)
  have u: "unat (of_nat (min k (2 ^ 62)) :: u64) = min k (2 ^ 62)"
    by (intro unat_of_nat_u64) (simp add: min_def)
  have "pn_after (Suc k) = snd (wt_quic_pn_space_next (pn_after k))" by (simp add: pn_after_def)
  moreover have "pns_next_send (pn_after k) > WT_QUIC_PACKET_NUMBER_MAX \<longleftrightarrow> 2 ^ 62 \<le> k"
    using Suc u by (auto simp: word_less_nat_alt WT_QUIC_PACKET_NUMBER_MAX_def WT_QUIC_VARINT_MAX_def min_def)
  ultimately show ?case
    using Suc by (auto simp: wt_quic_pn_space_next_def min_def)
qed

text \<open>Packet numbers are never reused. In a fresh space the \<open>k\<close>-th call returns packet number \<open>k\<close>
  for every \<open>k\<close> below \<open>2^62\<close>, and every call after that is refused with \<open>WT_ERR_OVERFLOW\<close> and hands
  out nothing.\<close>

lemma wt_quic_pn_space_next_fresh:
  "fst (wt_quic_pn_space_next (pn_after k)) =
     (if k < 2 ^ 62 then Inr (of_nat k) else Inl WT_ERR_OVERFLOW)"
proof -
  have u: "unat (of_nat (min k (2 ^ 62)) :: u64) = min k (2 ^ 62)"
    by (intro unat_of_nat_u64) (simp add: min_def)
  have "pns_next_send (pn_after k) > WT_QUIC_PACKET_NUMBER_MAX \<longleftrightarrow> 2 ^ 62 \<le> k"
    using pn_after_state [of k] u
    by (auto simp: word_less_nat_alt WT_QUIC_PACKET_NUMBER_MAX_def WT_QUIC_VARINT_MAX_def min_def)
  with pn_after_state [of k] show ?thesis
    by (auto simp: wt_quic_pn_space_next_def min_def)
qed

text \<open>The estimator state after samples below \<open>2^60\<close> microseconds.\<close>

definition rtt_inv :: "wt_quic_rtt \<Rightarrow> bool" where
  "rtt_inv rtt \<longleftrightarrow> (rtt_has_sample rtt \<longrightarrow>
     unat (rtt_min_rtt rtt) \<le> unat (rtt_smoothed rtt) \<and>
     unat (rtt_smoothed rtt) < 2 ^ 60 \<and> unat (rtt_rttvar rtt) < 2 ^ 60)"

lemma rtt_adjusted_bounds:
  assumes "unat (rtt_min_rtt rtt) \<le> unat latest" "unat latest < 2 ^ 60" "unat delay < 2 ^ 63"
  shows "unat (rtt_min_rtt rtt) \<le> unat (rtt_adjusted rtt latest delay mad conf) \<and>
    unat (rtt_adjusted rtt latest delay mad conf) \<le> unat latest"
proof -
  have "unat (rtt_min_rtt rtt + delay) = unat (rtt_min_rtt rtt) + unat delay"
    using assms by (intro unat_add_no_wrap) simp
  then show ?thesis
    using assms by (auto simp: rtt_adjusted_def Let_def word_le_nat_alt word_less_nat_alt unat_sub_le)
qed

lemma rtt_weighted:
  assumes "unat (a :: u64) < 2 ^ 60" "unat b < 2 ^ 60"
  shows "unat ((7 * a + b) div 8) = (7 * unat a + unat b) div 8"
    "unat ((3 * a + b) div 4) = (3 * unat a + unat b) div 4"
proof -
  have "unat (7 * a) = 7 * unat a" "unat (3 * a) = 3 * unat a"
    using assms by (simp_all add: unat_word_ariths)
  then have "unat (7 * a + b) = 7 * unat a + unat b" "unat (3 * a + b) = 3 * unat a + unat b"
    using assms unat_add_no_wrap [of "7 * a" b] unat_add_no_wrap [of "3 * a" b] by simp_all
  then show "unat ((7 * a + b) div 8) = (7 * unat a + unat b) div 8"
    "unat ((3 * a + b) div 4) = (3 * unat a + unat b) div 4"
    by (simp_all add: unat_div)
qed

text \<open>The round trip estimator neither overflows nor undercuts the network. With samples below
  \<open>2^60\<close> microseconds an update keeps the smoothed value at or above the smallest sample seen, whatever
  delay the peer reports; the smallest sample never rises; after the first sample the smoothed value
  is exactly seven eighths of the old one and one eighth of the adjusted sample, rounded down, with no
  wrap-around.\<close>

lemma wt_quic_rtt_update_bounds:
  assumes "rtt_inv rtt" "unat latest < 2 ^ 60" "unat delay < 2 ^ 63"
    and rtt': "rtt' = wt_quic_rtt_update rtt latest delay max_delay confirmed"
  shows "rtt_inv rtt' \<and> rtt_has_sample rtt' \<and> rtt_latest rtt' = latest \<and>
    rtt_min_rtt rtt' = (if rtt_has_sample rtt then min (rtt_min_rtt rtt) latest else latest) \<and>
    (\<exists>adjusted. unat (rtt_min_rtt rtt') \<le> adjusted \<and> adjusted \<le> unat latest \<and>
       unat (rtt_smoothed rtt') =
         (if rtt_has_sample rtt then (7 * unat (rtt_smoothed rtt) + adjusted) div 8 else adjusted))"
proof -
  define m where "m = (if rtt_has_sample rtt then min (rtt_min_rtt rtt) latest else latest)"
  define r where "r = rtt\<lparr>rtt_latest := latest, rtt_min_rtt := m\<rparr>"
  define a where "a = rtt_adjusted r latest delay max_delay confirmed"
  define d where "d = (if rtt_smoothed rtt > a then rtt_smoothed rtt - a else a - rtt_smoothed rtt)"
  have "unat (rtt_min_rtt r) \<le> unat latest"
    by (auto simp: r_def m_def min_def word_le_nat_alt)
  from rtt_adjusted_bounds [OF this assms(2,3), of max_delay confirmed] assms(2)
  have a: "unat m \<le> unat a" "unat a \<le> unat latest" "unat a < 2 ^ 60" by (simp_all add: a_def r_def)
  have upd: "rtt' = (if rtt_has_sample rtt
      then r\<lparr>rtt_rttvar := (3 * rtt_rttvar rtt + d) div 4, rtt_smoothed := (7 * rtt_smoothed rtt + a) div 8\<rparr>
      else r\<lparr>rtt_smoothed := a, rtt_rttvar := a div 2, rtt_has_sample := True\<rparr>)"
    by (auto simp: rtt' wt_quic_rtt_update_def Let_def min_def not_less r_def m_def a_def d_def)
  show ?thesis
  proof (cases "rtt_has_sample rtt")
    case True
    then have s: "unat (rtt_smoothed rtt) < 2 ^ 60" "unat (rtt_rttvar rtt) < 2 ^ 60"
      "unat (rtt_min_rtt rtt) \<le> unat (rtt_smoothed rtt)"
      using assms(1) by (simp_all add: rtt_inv_def)
    have d: "unat d < 2 ^ 60"
      using s a by (auto simp: d_def unat_sub_le word_less_nat_alt less_imp_diff_less word_le_nat_alt not_less)
    have "unat m \<le> unat (rtt_smoothed rtt)"
      using s(3) True by (auto simp: m_def min_def word_le_nat_alt)
    with a have "unat m \<le> (7 * unat (rtt_smoothed rtt) + unat a) div 8" by linarith
    with True a s d rtt_weighted(1) [OF s(1) a(3)] rtt_weighted(2) [OF s(2) d] show ?thesis
      by (auto simp: upd rtt_inv_def r_def m_def intro!: exI [of _ "unat a"])
  next
    case False
    with a show ?thesis
      by (auto simp: upd rtt_inv_def r_def m_def unat_div intro!: exI [of _ "unat a"])
  qed
qed

end
