(* ===== verification/Stream.thy ===== *)
theory Stream
  imports Wire_Core
begin

text \<open>
  Stream state machines, flow control and the stream table (\<open>C99/src/quic/stream.c\<close>). An operation
  that mutates a structure takes it and returns the status with the structure as it leaves it; the
  C flags (\<open>int\<close> used as 0 or 1) are booleans. The receiver's entry point \<open>wt_quic_stream_on_data\<close> also
  returns what the C code stores through \<open>out_credit\<close> and \<open>in_order\<close>.
\<close>

subsection \<open>Connection flow control\<close>

record wt_quic_flow =
  fl_peer_max_data :: u64
  fl_data_sent :: u64
  fl_max_data :: u64
  fl_data_received :: u64
  fl_window :: u64

definition wt_quic_flow_init :: "u64 \<Rightarrow> u64 \<Rightarrow> wt_quic_flow" where
  "wt_quic_flow_init initial_max_data peer_initial_max_data =
     \<lparr>fl_peer_max_data = peer_initial_max_data, fl_data_sent = 0, fl_max_data = initial_max_data,
      fl_data_received = 0, fl_window = initial_max_data div 2\<rparr>"

definition wt_quic_flow_send_allowance :: "wt_quic_flow \<Rightarrow> u64" where
  "wt_quic_flow_send_allowance flow =
     (if fl_data_sent flow \<ge> fl_peer_max_data flow then 0 else fl_peer_max_data flow - fl_data_sent flow)"

definition wt_quic_flow_can_send :: "wt_quic_flow \<Rightarrow> u64 \<Rightarrow> bool" where
  "wt_quic_flow_can_send flow len \<longleftrightarrow> wt_quic_flow_send_allowance flow \<ge> len"

definition wt_quic_flow_on_sent :: "wt_quic_flow \<Rightarrow> u64 \<Rightarrow> wt_status \<times> wt_quic_flow" where
  "wt_quic_flow_on_sent flow len =
     (if \<not> wt_quic_flow_can_send flow len then (WT_ERR_STATE, flow)
      else (WT_OK, flow\<lparr>fl_data_sent := fl_data_sent flow + len\<rparr>))"

definition wt_quic_flow_on_max_data :: "wt_quic_flow \<Rightarrow> u64 \<Rightarrow> wt_status \<times> wt_quic_flow" where
  "wt_quic_flow_on_max_data flow new_max =
     (if new_max < fl_peer_max_data flow then (WT_ERR_PROTOCOL, flow)
      else (WT_OK, flow\<lparr>fl_peer_max_data := new_max\<rparr>))"

definition wt_quic_flow_on_received :: "wt_quic_flow \<Rightarrow> u64 \<Rightarrow> wt_status \<times> wt_quic_flow" where
  "wt_quic_flow_on_received flow len =
     (if len > fl_max_data flow - fl_data_received flow then (WT_ERR_PROTOCOL, flow)
      else (WT_OK, flow\<lparr>fl_data_received := fl_data_received flow + len\<rparr>))"

definition wt_quic_flow_should_extend :: "wt_quic_flow \<Rightarrow> bool" where
  "wt_quic_flow_should_extend flow \<longleftrightarrow> fl_data_received flow \<ge> fl_max_data flow"

definition wt_quic_flow_next_max_data :: "wt_quic_flow \<Rightarrow> u64" where
  "wt_quic_flow_next_max_data flow = fl_data_received flow + fl_window flow"

definition wt_quic_flow_on_max_data_sent :: "wt_quic_flow \<Rightarrow> u64 \<Rightarrow> wt_quic_flow" where
  "wt_quic_flow_on_max_data_sent flow new_max =
     (if new_max > fl_max_data flow then flow\<lparr>fl_max_data := new_max\<rparr> else flow)"

subsection \<open>One stream\<close>

datatype wt_quic_send_state = WT_QUIC_SEND_READY | WT_QUIC_SEND_SEND | WT_QUIC_SEND_DATA_SENT
  | WT_QUIC_SEND_DATA_RECVD | WT_QUIC_SEND_RESET_SENT | WT_QUIC_SEND_RESET_RECVD

datatype wt_quic_recv_state = WT_QUIC_RECV_RECV | WT_QUIC_RECV_SIZE_KNOWN | WT_QUIC_RECV_DATA_RECVD
  | WT_QUIC_RECV_DATA_READ | WT_QUIC_RECV_RESET_RECVD | WT_QUIC_RECV_RESET_READ

record wt_quic_stream =
  st_id :: u64
  st_initiated_by_us :: bool
  st_bidirectional :: bool
  st_send_state :: wt_quic_send_state
  st_recv_state :: wt_quic_recv_state
  st_send_offset :: u64
  st_send_acked :: u64
  st_final_size :: u64
  st_has_final_size :: bool
  st_fin_sent :: bool
  st_peer_max_stream_data :: u64
  st_recv_offset :: u64
  st_recv_highest :: u64
  st_recv_final_size :: u64
  st_has_recv_final_size :: bool
  st_max_stream_data :: u64
  st_window :: u64
  st_sent_stop_sending :: bool
  st_peer_reset :: bool
  st_peer_error_code :: u64
  st_peer_reliable_size :: u64
  st_peer_reset_at :: bool

definition wt_quic_stream_init :: "u64 \<Rightarrow> bool \<Rightarrow> bool \<Rightarrow> u64 \<Rightarrow> u64 \<Rightarrow> wt_quic_stream" where
  "wt_quic_stream_init id' initiated_by_us bidirectional max_stream_data peer_max_stream_data =
     \<lparr>st_id = id', st_initiated_by_us = initiated_by_us, st_bidirectional = bidirectional,
      st_send_state = WT_QUIC_SEND_READY, st_recv_state = WT_QUIC_RECV_RECV,
      st_send_offset = 0, st_send_acked = 0, st_final_size = 0, st_has_final_size = False,
      st_fin_sent = False, st_peer_max_stream_data = peer_max_stream_data,
      st_recv_offset = 0, st_recv_highest = 0, st_recv_final_size = 0, st_has_recv_final_size = False,
      st_max_stream_data = max_stream_data, st_window = max_stream_data div 2,
      st_sent_stop_sending = False, st_peer_reset = False, st_peer_error_code = 0,
      st_peer_reliable_size = 0, st_peer_reset_at = False\<rparr>"

definition wt_quic_stream_send_finished :: "wt_quic_stream \<Rightarrow> bool" where
  "wt_quic_stream_send_finished s \<longleftrightarrow>
     st_send_state s = WT_QUIC_SEND_DATA_SENT \<or> st_send_state s = WT_QUIC_SEND_DATA_RECVD \<or>
     st_send_state s = WT_QUIC_SEND_RESET_SENT \<or> st_send_state s = WT_QUIC_SEND_RESET_RECVD"

definition wt_quic_stream_recv_finished :: "wt_quic_stream \<Rightarrow> bool" where
  "wt_quic_stream_recv_finished s \<longleftrightarrow>
     st_recv_state s = WT_QUIC_RECV_DATA_READ \<or> st_recv_state s = WT_QUIC_RECV_RESET_READ"

definition wt_quic_stream_complete :: "wt_quic_stream \<Rightarrow> bool" where
  "wt_quic_stream_complete s \<longleftrightarrow> wt_quic_stream_send_finished s \<and> wt_quic_stream_recv_finished s"

definition wt_quic_stream_on_data_sent :: "wt_quic_stream \<Rightarrow> u64 \<Rightarrow> wt_status \<times> wt_quic_stream" where
  "wt_quic_stream_on_data_sent s len =
     (if wt_quic_stream_send_finished s then (WT_ERR_STATE, s)
      else
        let s1 = (if st_send_state s = WT_QUIC_SEND_READY \<and> len \<noteq> 0
                  then s\<lparr>st_send_state := WT_QUIC_SEND_SEND\<rparr> else s)
        in (WT_OK, s1\<lparr>st_send_offset := st_send_offset s1 + len\<rparr>))"

definition wt_quic_stream_on_fin_sent :: "wt_quic_stream \<Rightarrow> wt_status \<times> wt_quic_stream" where
  "wt_quic_stream_on_fin_sent s =
     (if st_fin_sent s \<or> wt_quic_stream_send_finished s then (WT_ERR_STATE, s)
      else (WT_OK, s\<lparr>st_fin_sent := True, st_final_size := st_send_offset s, st_has_final_size := True,
                     st_send_state := WT_QUIC_SEND_DATA_SENT\<rparr>))"

definition wt_quic_stream_on_ack :: "wt_quic_stream \<Rightarrow> u64 \<Rightarrow> wt_quic_stream" where
  "wt_quic_stream_on_ack s acknowledged =
     (let s1 = (if acknowledged > st_send_acked s then s\<lparr>st_send_acked := acknowledged\<rparr> else s);
          s2 = (if st_send_state s1 = WT_QUIC_SEND_DATA_SENT \<and> st_has_final_size s1 \<and>
                   st_send_acked s1 \<ge> st_final_size s1
                then s1\<lparr>st_send_state := WT_QUIC_SEND_DATA_RECVD\<rparr> else s1)
      in if st_send_state s2 = WT_QUIC_SEND_RESET_SENT \<and> st_send_acked s2 \<ge> st_final_size s2
         then s2\<lparr>st_send_state := WT_QUIC_SEND_RESET_RECVD\<rparr> else s2)"

definition wt_quic_stream_on_reset_sent :: "wt_quic_stream \<Rightarrow> u64 \<Rightarrow> wt_status \<times> wt_quic_stream" where
  "wt_quic_stream_on_reset_sent s error_code =
     (if wt_quic_stream_send_finished s then (WT_ERR_STATE, s)
      else (WT_OK, s\<lparr>st_final_size := st_send_offset s, st_has_final_size := True,
                     st_send_state := WT_QUIC_SEND_RESET_SENT\<rparr>))"

definition check_final_size :: "wt_quic_stream \<Rightarrow> u64 \<Rightarrow> wt_status \<times> wt_quic_stream" where
  "check_final_size s final_size =
     (if st_has_recv_final_size s \<and> st_recv_final_size s \<noteq> final_size then (WT_ERR_PROTOCOL, s)
      else if st_recv_highest s > final_size then (WT_ERR_PROTOCOL, s)
      else
        let s1 = s\<lparr>st_recv_final_size := final_size, st_has_recv_final_size := True\<rparr>
        in (WT_OK,
            if st_recv_state s1 = WT_QUIC_RECV_RECV then
              let s2 = s1\<lparr>st_recv_state := WT_QUIC_RECV_SIZE_KNOWN\<rparr>
              in if st_recv_offset s2 \<ge> final_size
                 then s2\<lparr>st_recv_state := WT_QUIC_RECV_DATA_RECVD\<rparr> else s2
            else s1))"

definition wt_quic_stream_on_reset_received ::
  "wt_quic_stream \<Rightarrow> u64 \<Rightarrow> u64 \<Rightarrow> wt_status \<times> wt_quic_stream" where
  "wt_quic_stream_on_reset_received s error_code final_size =
     (case check_final_size s final_size of (status, s1) \<Rightarrow>
        if status \<noteq> WT_OK then (status, s1)
        else (WT_OK, s1\<lparr>st_peer_reset := True, st_peer_error_code := error_code,
                        st_recv_state := WT_QUIC_RECV_RESET_RECVD\<rparr>))"

definition wt_quic_stream_on_reset_at_received ::
  "wt_quic_stream \<Rightarrow> u64 \<Rightarrow> u64 \<Rightarrow> u64 \<Rightarrow> wt_status \<times> wt_quic_stream" where
  "wt_quic_stream_on_reset_at_received s error_code final_size reliable_size =
     (if reliable_size > final_size then (WT_ERR_PROTOCOL, s)
      else if st_peer_reset s \<and> \<not> st_peer_reset_at s then (WT_ERR_STATE, s)
      else case check_final_size s final_size of (status, s1) \<Rightarrow>
        if status \<noteq> WT_OK then (status, s1)
        else if st_peer_reset_at s1 then
          if st_peer_error_code s1 \<noteq> error_code then (WT_ERR_PROTOCOL, s1)
          else if reliable_size \<ge> st_peer_reliable_size s1 then (WT_OK, s1)
          else (WT_OK, s1\<lparr>st_peer_reliable_size := reliable_size\<rparr>)
        else (WT_OK, s1\<lparr>st_peer_reset := True, st_peer_reset_at := True, st_peer_error_code := error_code,
                        st_peer_reliable_size := reliable_size,
                        st_recv_state := WT_QUIC_RECV_RESET_RECVD\<rparr>))"

definition wt_quic_stream_on_stop_sending :: "wt_quic_stream \<Rightarrow> u64 \<Rightarrow> wt_quic_stream" where
  "wt_quic_stream_on_stop_sending s error_code =
     (let s1 = s\<lparr>st_sent_stop_sending := True\<rparr>
      in if \<not> wt_quic_stream_send_finished s1
         then s1\<lparr>st_final_size := st_send_offset s1, st_has_final_size := True,
                 st_send_state := WT_QUIC_SEND_RESET_SENT\<rparr>
         else s1)"

definition wt_quic_stream_on_max_stream_data :: "wt_quic_stream \<Rightarrow> u64 \<Rightarrow> wt_status \<times> wt_quic_stream" where
  "wt_quic_stream_on_max_stream_data s new_max =
     (if new_max < st_peer_max_stream_data s then (WT_ERR_PROTOCOL, s)
      else (WT_OK, s\<lparr>st_peer_max_stream_data := new_max\<rparr>))"

definition wt_quic_stream_send_allowance :: "wt_quic_stream \<Rightarrow> wt_quic_flow \<Rightarrow> u64" where
  "wt_quic_stream_send_allowance s flow =
     (if wt_quic_stream_send_finished s then 0
      else
        let stream_allowance = (if st_send_offset s \<ge> st_peer_max_stream_data s then 0
                                else st_peer_max_stream_data s - st_send_offset s);
            connection_allowance = wt_quic_flow_send_allowance flow
        in if stream_allowance < connection_allowance then stream_allowance else connection_allowance)"

definition wt_quic_stream_can_send :: "wt_quic_stream \<Rightarrow> wt_quic_flow \<Rightarrow> u64 \<Rightarrow> bool" where
  "wt_quic_stream_can_send s flow len \<longleftrightarrow> wt_quic_stream_send_allowance s flow \<ge> len"

record on_data_result =
  od_status :: wt_status
  od_stream :: wt_quic_stream
  od_flow :: wt_quic_flow
  od_credit :: u64
  od_in_order :: bool

text \<open>The part of \<open>wt_quic_stream_on_data\<close> after the connection's flow control accepted the credit.\<close>

definition on_data_accept :: "wt_quic_stream \<Rightarrow> u64 \<Rightarrow> bool \<Rightarrow> wt_status \<times> wt_quic_stream" where
  "on_data_accept s end' fin =
     (let s1 = (if end' > st_recv_highest s then s\<lparr>st_recv_highest := end'\<rparr> else s);
          (status, s2) = (if fin then check_final_size s1 end' else (WT_OK, s1))
      in if status \<noteq> WT_OK then (status, s2)
         else (WT_OK,
           if st_has_recv_final_size s2 \<and> st_recv_highest s2 \<ge> st_recv_final_size s2 \<and>
              st_recv_state s2 = WT_QUIC_RECV_SIZE_KNOWN
           then s2\<lparr>st_recv_state := WT_QUIC_RECV_DATA_RECVD\<rparr> else s2))"

definition wt_quic_stream_on_data ::
  "wt_quic_stream \<Rightarrow> wt_quic_flow \<Rightarrow> u64 \<Rightarrow> u64 \<Rightarrow> bool \<Rightarrow> on_data_result" where
  "wt_quic_stream_on_data s flow offset len fin =
     (let refuse = (\<lambda>e. \<lparr>od_status = e, od_stream = s, od_flow = flow, od_credit = 0, od_in_order = False\<rparr>);
          end' = offset + len;
          credit = (if end' > st_recv_highest s then end' - st_recv_highest s else 0)
      in if wt_quic_stream_recv_finished s \<and> (len \<noteq> 0 \<or> fin) then refuse WT_ERR_STATE
         else if offset > - 1 - len then refuse WT_ERR_PROTOCOL
         else if st_has_recv_final_size s \<and> end' > st_recv_final_size s then refuse WT_ERR_PROTOCOL
         else if st_has_recv_final_size s \<and> fin \<and> end' \<noteq> st_recv_final_size s then refuse WT_ERR_PROTOCOL
         else if st_recv_highest s + credit > st_max_stream_data s then refuse WT_ERR_PROTOCOL
         else case wt_quic_flow_on_received flow credit of (status, flow1) \<Rightarrow>
           if status \<noteq> WT_OK
           then \<lparr>od_status = status, od_stream = s, od_flow = flow1, od_credit = 0, od_in_order = False\<rparr>
           else case on_data_accept s end' fin of (status, s1) \<Rightarrow>
             \<lparr>od_status = status, od_stream = s1, od_flow = flow1, od_credit = credit,
              od_in_order = (offset = st_recv_offset s)\<rparr>)"

definition wt_quic_stream_on_data_read :: "wt_quic_stream \<Rightarrow> u64 \<Rightarrow> wt_status \<times> wt_quic_stream" where
  "wt_quic_stream_on_data_read s len =
     (if st_recv_state s = WT_QUIC_RECV_RESET_RECVD \<or> st_recv_state s = WT_QUIC_RECV_RESET_READ
      then (WT_ERR_STATE, s)
      else if len > st_recv_highest s - st_recv_offset s then (WT_ERR_INVALID_ARGUMENT, s)
      else
        let s1 = s\<lparr>st_recv_offset := st_recv_offset s + len\<rparr>
        in (WT_OK, if st_recv_state s1 = WT_QUIC_RECV_DATA_RECVD \<and> st_recv_offset s1 \<ge> st_recv_final_size s1
                   then s1\<lparr>st_recv_state := WT_QUIC_RECV_DATA_READ\<rparr> else s1))"

definition wt_quic_stream_on_reset_read :: "wt_quic_stream \<Rightarrow> wt_status \<times> wt_quic_stream" where
  "wt_quic_stream_on_reset_read s =
     (if st_recv_state s \<noteq> WT_QUIC_RECV_RESET_RECVD then (WT_ERR_STATE, s)
      else (WT_OK, s\<lparr>st_recv_state := WT_QUIC_RECV_RESET_READ\<rparr>))"

definition wt_quic_stream_should_extend :: "wt_quic_stream \<Rightarrow> bool" where
  "wt_quic_stream_should_extend s \<longleftrightarrow> st_recv_highest s \<ge> st_max_stream_data s"

definition wt_quic_stream_next_max_stream_data :: "wt_quic_stream \<Rightarrow> u64" where
  "wt_quic_stream_next_max_stream_data s = st_recv_highest s + st_window s"

definition wt_quic_stream_on_max_stream_data_sent :: "wt_quic_stream \<Rightarrow> u64 \<Rightarrow> wt_quic_stream" where
  "wt_quic_stream_on_max_stream_data_sent s new_max =
     (if new_max > st_max_stream_data s then s\<lparr>st_max_stream_data := new_max\<rparr> else s)"

fun wt_quic_send_state_name :: "wt_quic_send_state \<Rightarrow> string" where
  "wt_quic_send_state_name WT_QUIC_SEND_READY = ''ready''"
| "wt_quic_send_state_name WT_QUIC_SEND_SEND = ''send''"
| "wt_quic_send_state_name WT_QUIC_SEND_DATA_SENT = ''data-sent''"
| "wt_quic_send_state_name WT_QUIC_SEND_DATA_RECVD = ''data-received''"
| "wt_quic_send_state_name WT_QUIC_SEND_RESET_SENT = ''reset-sent''"
| "wt_quic_send_state_name WT_QUIC_SEND_RESET_RECVD = ''reset-received''"

fun wt_quic_recv_state_name :: "wt_quic_recv_state \<Rightarrow> string" where
  "wt_quic_recv_state_name WT_QUIC_RECV_RECV = ''recv''"
| "wt_quic_recv_state_name WT_QUIC_RECV_SIZE_KNOWN = ''size-known''"
| "wt_quic_recv_state_name WT_QUIC_RECV_DATA_RECVD = ''data-received''"
| "wt_quic_recv_state_name WT_QUIC_RECV_DATA_READ = ''data-read''"
| "wt_quic_recv_state_name WT_QUIC_RECV_RESET_RECVD = ''reset-received''"
| "wt_quic_recv_state_name WT_QUIC_RECV_RESET_READ = ''reset-read''"

subsection \<open>Stream numbers\<close>

definition wt_quic_stream_id_index :: "u64 \<Rightarrow> u64" where
  "wt_quic_stream_id_index stream_id = drop_bit 2 stream_id"

definition wt_quic_stream_id_from_client :: "u64 \<Rightarrow> bool" where
  "wt_quic_stream_id_from_client stream_id \<longleftrightarrow> stream_id AND 0x01 = 0"

definition wt_quic_stream_id_is_bidirectional :: "u64 \<Rightarrow> bool" where
  "wt_quic_stream_id_is_bidirectional stream_id \<longleftrightarrow> stream_id AND 0x02 = 0"

definition wt_quic_stream_id_make :: "bool \<Rightarrow> bool \<Rightarrow> u64 \<Rightarrow> u64" where
  "wt_quic_stream_id_make from_client bidirectional index =
     (let i0 = push_bit 2 index;
          i1 = (if \<not> from_client then i0 OR 0x01 else i0)
      in if \<not> bidirectional then i1 OR 0x02 else i1)"

subsection \<open>Events and the step function\<close>

text \<open>Everything that can happen to a stream and to the connection's flow control, one call each.\<close>

datatype stream_event =
    Data_Sent u64 | Fin_Sent | Ack_Arrived u64 | Reset_Sent u64
  | Reset_Received u64 u64 | Reset_At_Received u64 u64 u64 | Stop_Sending_Received u64
  | Max_Stream_Data_Received u64 | Data_Received u64 u64 bool | Data_Read u64 | Reset_Read
  | Max_Stream_Data_Sent u64
  | Flow_Sent u64 | Flow_Max_Data_Received u64 | Flow_Other_Stream_Received u64 | Flow_Max_Data_Sent u64

fun stream_step :: "stream_event \<Rightarrow> wt_quic_stream \<times> wt_quic_flow \<Rightarrow> wt_status \<times> wt_quic_stream \<times> wt_quic_flow" where
  "stream_step (Data_Sent n) (s, fl) = (case wt_quic_stream_on_data_sent s n of (e, s') \<Rightarrow> (e, s', fl))"
| "stream_step Fin_Sent (s, fl) = (case wt_quic_stream_on_fin_sent s of (e, s') \<Rightarrow> (e, s', fl))"
| "stream_step (Ack_Arrived a) (s, fl) = (WT_OK, wt_quic_stream_on_ack s a, fl)"
| "stream_step (Reset_Sent c) (s, fl) = (case wt_quic_stream_on_reset_sent s c of (e, s') \<Rightarrow> (e, s', fl))"
| "stream_step (Reset_Received c f) (s, fl) =
     (case wt_quic_stream_on_reset_received s c f of (e, s') \<Rightarrow> (e, s', fl))"
| "stream_step (Reset_At_Received c f r) (s, fl) =
     (case wt_quic_stream_on_reset_at_received s c f r of (e, s') \<Rightarrow> (e, s', fl))"
| "stream_step (Stop_Sending_Received c) (s, fl) = (WT_OK, wt_quic_stream_on_stop_sending s c, fl)"
| "stream_step (Max_Stream_Data_Received m) (s, fl) =
     (case wt_quic_stream_on_max_stream_data s m of (e, s') \<Rightarrow> (e, s', fl))"
| "stream_step (Data_Received off n fin) (s, fl) =
     (let r = wt_quic_stream_on_data s fl off n fin in (od_status r, od_stream r, od_flow r))"
| "stream_step (Data_Read n) (s, fl) = (case wt_quic_stream_on_data_read s n of (e, s') \<Rightarrow> (e, s', fl))"
| "stream_step Reset_Read (s, fl) = (case wt_quic_stream_on_reset_read s of (e, s') \<Rightarrow> (e, s', fl))"
| "stream_step (Max_Stream_Data_Sent m) (s, fl) = (WT_OK, wt_quic_stream_on_max_stream_data_sent s m, fl)"
| "stream_step (Flow_Sent n) (s, fl) = (case wt_quic_flow_on_sent fl n of (e, fl') \<Rightarrow> (e, s, fl'))"
| "stream_step (Flow_Max_Data_Received m) (s, fl) = (case wt_quic_flow_on_max_data fl m of (e, fl') \<Rightarrow> (e, s, fl'))"
| "stream_step (Flow_Other_Stream_Received n) (s, fl) =
     (case wt_quic_flow_on_received fl n of (e, fl') \<Rightarrow> (e, s, fl'))"
| "stream_step (Flow_Max_Data_Sent m) (s, fl) = (WT_OK, s, wt_quic_flow_on_max_data_sent fl m)"

definition stream_run :: "stream_event list \<Rightarrow> wt_quic_stream \<times> wt_quic_flow \<Rightarrow> wt_quic_stream \<times> wt_quic_flow" where
  "stream_run es x = foldl (\<lambda>x e. snd (stream_step e x)) x es"

subsection \<open>Invariants\<close>

definition flow_inv :: "wt_quic_flow \<Rightarrow> bool" where
  "flow_inv fl \<longleftrightarrow> fl_data_sent fl \<le> fl_peer_max_data fl \<and> fl_data_received fl \<le> fl_max_data fl"

definition recv_inv :: "wt_quic_stream \<Rightarrow> bool" where
  "recv_inv s \<longleftrightarrow>
     st_recv_offset s \<le> st_recv_highest s \<and> st_recv_highest s \<le> st_max_stream_data s \<and>
     (st_has_recv_final_size s \<longleftrightarrow> st_recv_state s \<noteq> WT_QUIC_RECV_RECV) \<and>
     (st_has_recv_final_size s \<longrightarrow> st_recv_highest s \<le> st_recv_final_size s) \<and>
     (st_recv_state s = WT_QUIC_RECV_DATA_RECVD \<longrightarrow> st_recv_highest s = st_recv_final_size s) \<and>
     (st_recv_state s = WT_QUIC_RECV_DATA_READ \<longrightarrow> st_recv_offset s = st_recv_final_size s) \<and>
     (st_peer_reset s \<longleftrightarrow> st_recv_state s \<in> {WT_QUIC_RECV_RESET_RECVD, WT_QUIC_RECV_RESET_READ}) \<and>
     (st_peer_reset_at s \<longrightarrow> st_peer_reset s \<and> st_peer_reliable_size s \<le> st_recv_final_size s)"

definition send_inv :: "wt_quic_stream \<Rightarrow> bool" where
  "send_inv s \<longleftrightarrow>
     (st_send_state s = WT_QUIC_SEND_READY \<longrightarrow> st_send_offset s = 0) \<and>
     (wt_quic_stream_send_finished s \<longleftrightarrow> st_has_final_size s) \<and>
     (st_has_final_size s \<longrightarrow> st_final_size s = st_send_offset s) \<and>
     (st_fin_sent s \<longleftrightarrow> st_send_state s \<in> {WT_QUIC_SEND_DATA_SENT, WT_QUIC_SEND_DATA_RECVD}) \<and>
     (st_send_state s \<in> {WT_QUIC_SEND_DATA_RECVD, WT_QUIC_SEND_RESET_RECVD} \<longrightarrow> st_send_acked s \<ge> st_final_size s)"

definition stream_inv :: "wt_quic_stream \<times> wt_quic_flow \<Rightarrow> bool" where
  "stream_inv x \<longleftrightarrow> send_inv (fst x) \<and> recv_inv (fst x) \<and> flow_inv (snd x)"

lemmas send_ops = wt_quic_stream_on_data_sent_def wt_quic_stream_on_fin_sent_def wt_quic_stream_on_ack_def
  wt_quic_stream_on_reset_sent_def wt_quic_stream_on_stop_sending_def wt_quic_stream_on_max_stream_data_def

lemmas recv_ops = check_final_size_def wt_quic_stream_on_reset_received_def
  wt_quic_stream_on_reset_at_received_def wt_quic_stream_on_data_read_def wt_quic_stream_on_reset_read_def
  wt_quic_stream_on_max_stream_data_sent_def

lemmas flow_ops = wt_quic_flow_on_sent_def wt_quic_flow_on_max_data_def wt_quic_flow_on_received_def
  wt_quic_flow_on_max_data_sent_def wt_quic_flow_can_send_def wt_quic_flow_send_allowance_def

subsection \<open>Flow control\<close>

lemma word_add_le:
  "(a :: u64) \<le> m \<Longrightarrow> n \<le> m - a \<Longrightarrow> a + n \<le> m" "(a :: u64) \<le> m \<Longrightarrow> n \<le> m - a \<Longrightarrow> unat (a + n) = unat a + unat n"
proof -
  assume a: "a \<le> m" "n \<le> m - a"
  then have "unat a + unat n \<le> unat m"
    using unat_sub_le [of a m] by (auto simp: word_le_nat_alt)
  moreover from this show "unat (a + n) = unat a + unat n"
    using unat_u64_less [of m] by (intro unat_add_no_wrap) simp
  ultimately show "a + n \<le> m" by (simp add: word_le_nat_alt)
qed

lemma flow_inv_on_sent: "flow_inv fl \<Longrightarrow> flow_inv (snd (wt_quic_flow_on_sent fl n))"
  using word_add_le(1) [of "fl_data_sent fl" "fl_peer_max_data fl" n]
  by (auto simp: flow_inv_def flow_ops)

lemma flow_inv_on_received: "flow_inv fl \<Longrightarrow> flow_inv (snd (wt_quic_flow_on_received fl n))"
  using word_add_le(1) [of "fl_data_received fl" "fl_max_data fl" n]
  by (auto simp: flow_inv_def flow_ops not_less)

lemma flow_inv_limits:
  "flow_inv fl \<Longrightarrow> flow_inv (snd (wt_quic_flow_on_max_data fl m))"
  "flow_inv fl \<Longrightarrow> flow_inv (wt_quic_flow_on_max_data_sent fl m)"
  by (auto simp: flow_inv_def flow_ops)

subsection \<open>The send half\<close>

lemma send_inv_ops:
  assumes "send_inv s"
  shows "send_inv (snd (wt_quic_stream_on_data_sent s n))" "send_inv (snd (wt_quic_stream_on_fin_sent s))"
    "send_inv (wt_quic_stream_on_ack s a)" "send_inv (snd (wt_quic_stream_on_reset_sent s c))"
    "send_inv (wt_quic_stream_on_stop_sending s c)" "send_inv (snd (wt_quic_stream_on_max_stream_data s m))"
  using assms by (cases "st_send_state s"; auto simp: send_inv_def send_ops Let_def wt_quic_stream_send_finished_def)+

text \<open>The two halves do not share a field.\<close>

lemma recv_inv_frame [simp]:
  "recv_inv (s\<lparr>st_send_state := a\<rparr>) = recv_inv s" "recv_inv (s\<lparr>st_send_offset := b\<rparr>) = recv_inv s"
  "recv_inv (s\<lparr>st_send_acked := b\<rparr>) = recv_inv s" "recv_inv (s\<lparr>st_final_size := b\<rparr>) = recv_inv s"
  "recv_inv (s\<lparr>st_has_final_size := c\<rparr>) = recv_inv s" "recv_inv (s\<lparr>st_fin_sent := c\<rparr>) = recv_inv s"
  "recv_inv (s\<lparr>st_peer_max_stream_data := b\<rparr>) = recv_inv s"
  "recv_inv (s\<lparr>st_sent_stop_sending := c\<rparr>) = recv_inv s"
  by (simp_all add: recv_inv_def)

lemma send_inv_frame [simp]:
  "send_inv (s\<lparr>st_recv_state := a\<rparr>) = send_inv s" "send_inv (s\<lparr>st_recv_offset := b\<rparr>) = send_inv s"
  "send_inv (s\<lparr>st_recv_highest := b\<rparr>) = send_inv s" "send_inv (s\<lparr>st_recv_final_size := b\<rparr>) = send_inv s"
  "send_inv (s\<lparr>st_has_recv_final_size := c\<rparr>) = send_inv s" "send_inv (s\<lparr>st_max_stream_data := b\<rparr>) = send_inv s"
  "send_inv (s\<lparr>st_peer_reset := c\<rparr>) = send_inv s" "send_inv (s\<lparr>st_peer_error_code := b\<rparr>) = send_inv s"
  "send_inv (s\<lparr>st_peer_reliable_size := b\<rparr>) = send_inv s" "send_inv (s\<lparr>st_peer_reset_at := c\<rparr>) = send_inv s"
  by (simp_all add: send_inv_def wt_quic_stream_send_finished_def)

lemma recv_inv_send_ops:
  assumes "recv_inv s"
  shows "recv_inv (snd (wt_quic_stream_on_data_sent s n))" "recv_inv (snd (wt_quic_stream_on_fin_sent s))"
    "recv_inv (wt_quic_stream_on_ack s a)" "recv_inv (snd (wt_quic_stream_on_reset_sent s c))"
    "recv_inv (wt_quic_stream_on_stop_sending s c)" "recv_inv (snd (wt_quic_stream_on_max_stream_data s m))"
  using assms by (simp_all add: send_ops Let_def)

subsection \<open>The receive half\<close>

lemma check_final_size_ok:
  assumes "recv_inv s" "check_final_size s f = (e, s')"
  shows "recv_inv s' \<and> (e \<noteq> WT_OK \<longrightarrow> s' = s) \<and>
    (e = WT_OK \<longrightarrow> st_has_recv_final_size s' \<and> st_recv_final_size s' = f)"
  using assms by (cases "st_recv_state s")
    (auto simp: check_final_size_def recv_inv_def Let_def not_less split: if_splits)

lemma check_final_size_send [simp]: "send_inv (snd (check_final_size s f)) = send_inv s"
  by (simp add: check_final_size_def Let_def)

lemma check_final_size_frame [simp]:
  "st_recv_highest (snd (check_final_size s f)) = st_recv_highest s"
  "st_recv_offset (snd (check_final_size s f)) = st_recv_offset s"
  "st_max_stream_data (snd (check_final_size s f)) = st_max_stream_data s"
  "st_peer_reset (snd (check_final_size s f)) = st_peer_reset s"
  "st_peer_reset_at (snd (check_final_size s f)) = st_peer_reset_at s"
  by (simp_all add: check_final_size_def Let_def)

lemma reset_received_inv:
  assumes "recv_inv s"
  shows "recv_inv (snd (wt_quic_stream_on_reset_received s c f))"
proof -
  obtain e s1 where d: "check_final_size s f = (e, s1)" by fastforce
  note ok = check_final_size_ok [OF assms d]
  show ?thesis
  proof (cases "e = WT_OK")
    case True
    then show ?thesis
      using ok d by (auto simp: wt_quic_stream_on_reset_received_def recv_inv_def)
  qed (use ok d in \<open>auto simp: wt_quic_stream_on_reset_received_def\<close>)
qed

lemma reset_at_received_inv:
  assumes "recv_inv s"
  shows "recv_inv (snd (wt_quic_stream_on_reset_at_received s c f r))"
proof -
  obtain e s1 where d: "check_final_size s f = (e, s1)" by fastforce
  note ok = check_final_size_ok [OF assms d]
  show ?thesis
  proof (cases "e = WT_OK")
    case True
    then show ?thesis
      using ok d assms by (auto simp: wt_quic_stream_on_reset_at_received_def recv_inv_def not_less)
  qed (use ok d assms in \<open>simp add: wt_quic_stream_on_reset_at_received_def\<close>)
qed

lemma recv_reads_inv:
  assumes "recv_inv s"
  shows "recv_inv (snd (wt_quic_stream_on_data_read s n))" "recv_inv (snd (wt_quic_stream_on_reset_read s))"
    "recv_inv (wt_quic_stream_on_max_stream_data_sent s m)"
  using assms word_add_le(1) [of "st_recv_offset s" "st_recv_highest s" n]
  by (auto simp: recv_ops recv_inv_def Let_def not_less)

text \<open>What the receiver's entry point does, on the natural numbers.\<close>

lemma recv_inv_advance:
  assumes "recv_inv s" "end' \<le> st_max_stream_data s" "st_has_recv_final_size s \<Longrightarrow> end' \<le> st_recv_final_size s"
    "st_recv_highest s \<le> end'"
  shows "recv_inv (s\<lparr>st_recv_highest := end'\<rparr>)"
  using assms by (auto simp: recv_inv_def)

lemma recv_inv_complete:
  assumes "recv_inv s" "st_recv_state s = WT_QUIC_RECV_SIZE_KNOWN" "st_recv_highest s \<ge> st_recv_final_size s"
  shows "recv_inv (s\<lparr>st_recv_state := WT_QUIC_RECV_DATA_RECVD\<rparr>)"
  using assms by (auto simp: recv_inv_def)

lemma on_data_accept_ok:
  assumes "recv_inv s" "end' \<le> st_max_stream_data s"
    "st_has_recv_final_size s \<Longrightarrow> end' \<le> st_recv_final_size s \<and> (fin \<longrightarrow> end' = st_recv_final_size s)"
    "on_data_accept s end' fin = (e, s')"
  shows "recv_inv s'" "e \<noteq> WT_OK \<Longrightarrow> s' = s \<and> end' < st_recv_highest s"
    "e = WT_OK \<Longrightarrow> st_recv_highest s' = max (st_recv_highest s) end' \<and> st_recv_offset s' = st_recv_offset s \<and>
       (fin \<longrightarrow> st_has_recv_final_size s' \<and> st_recv_final_size s' = end')"
proof -
  define s1 where "s1 = (if end' > st_recv_highest s then s\<lparr>st_recv_highest := end'\<rparr> else s)"
  obtain e2 s2 where c: "(if fin then check_final_size s1 end' else (WT_OK, s1)) = (e2, s2)" by fastforce
  have hi: "st_recv_highest s1 = max (st_recv_highest s) end'" "st_recv_offset s1 = st_recv_offset s"
    by (simp_all add: s1_def max_def not_less antisym)
  have inv1: "recv_inv s1"
  proof (cases "end' > st_recv_highest s")
    case True
    with recv_inv_advance [OF assms(1,2)] assms(3) show ?thesis by (simp add: s1_def)
  qed (simp add: s1_def assms(1))
  have s2: "recv_inv s2" "e2 \<noteq> WT_OK \<Longrightarrow> fin \<and> s2 = s1"
    "fin \<Longrightarrow> e2 = WT_OK \<Longrightarrow> st_has_recv_final_size s2 \<and> st_recv_final_size s2 = end'"
    using c check_final_size_ok [OF inv1, of end' e2 s2] inv1 by (auto split: if_splits)
  have "s2 = (if fin then snd (check_final_size s1 end') else s1)"
    using c by (auto split: if_splits)
  then have fr: "st_recv_highest s2 = st_recv_highest s1" "st_recv_offset s2 = st_recv_offset s1" by simp_all
  have bad: "s1 = s \<and> end' < st_recv_highest s" if "e2 \<noteq> WT_OK"
  proof -
    from that c have "check_final_size s1 end' = (e2, s2)" by (simp split: if_splits)
    with that have "st_has_recv_final_size s \<and> st_recv_final_size s \<noteq> end' \<or> st_recv_highest s1 > end'"
      by (auto simp: check_final_size_def s1_def Let_def split: if_splits)
    with that c assms(3) have "st_recv_highest s1 > end'" by (auto split: if_splits)
    then show ?thesis using hi(1) by (auto simp: s1_def max_def split: if_splits)
  qed
  have res: "on_data_accept s end' fin = (if e2 \<noteq> WT_OK then (e2, s2) else (WT_OK,
      if st_has_recv_final_size s2 \<and> st_recv_highest s2 \<ge> st_recv_final_size s2 \<and>
         st_recv_state s2 = WT_QUIC_RECV_SIZE_KNOWN
      then s2\<lparr>st_recv_state := WT_QUIC_RECV_DATA_RECVD\<rparr> else s2))"
    by (simp add: on_data_accept_def Let_def c flip: s1_def)
  show "recv_inv s'"
    using assms(4) res s2(1) recv_inv_complete [OF s2(1)] by (simp split: if_splits)
  show "e \<noteq> WT_OK \<Longrightarrow> s' = s \<and> end' < st_recv_highest s"
    using assms(4) res s2(2) bad by (simp split: if_splits)
  show "e = WT_OK \<Longrightarrow> st_recv_highest s' = max (st_recv_highest s) end' \<and> st_recv_offset s' = st_recv_offset s \<and>
       (fin \<longrightarrow> st_has_recv_final_size s' \<and> st_recv_final_size s' = end')"
    using assms(4) res s2(3) fr hi by (auto split: if_splits)
qed

lemma offset_fits: "\<not> (off > - 1 - n) \<Longrightarrow> unat off + unat (n :: u64) < 2 ^ 64 \<and> unat (off + n) = unat off + unat n"
proof -
  assume "\<not> (off > - 1 - n)"
  then have "unat off \<le> unat (- 1 - n)" by (simp add: word_less_nat_alt)
  also have "unat (- 1 - n) = unat (- 1 :: u64) - unat n" by (intro unat_sub_le) simp
  also have "unat (- 1 :: u64) = 2 ^ 64 - 1"
    by (simp add: unsigned_minus_1_eq_mask mask_eq_exp_minus_1)
  finally have "unat off + unat n < 2 ^ 64" using unat_u64_less [of n] by simp
  then show ?thesis using unat_add_no_wrap [of off n] by simp
qed

lemma on_data_accepted:
  assumes "recv_inv s" "flow_inv fl" "r = wt_quic_stream_on_data s fl off n fin"
  obtains (refused) "od_status r \<noteq> WT_OK" "od_stream r = s" "od_flow r = fl" "od_credit r = 0"
  | (accepted) credit where "unat off + unat n < 2 ^ 64" "unat (off + n) = unat off + unat n"
      "st_recv_highest s + credit = max (st_recv_highest s) (off + n)"
      "unat credit = max (unat (st_recv_highest s)) (unat (off + n)) - unat (st_recv_highest s)"
      "off + n \<le> st_max_stream_data s"
      "st_has_recv_final_size s \<Longrightarrow> off + n \<le> st_recv_final_size s \<and> (fin \<longrightarrow> off + n = st_recv_final_size s)"
      "credit \<le> fl_max_data fl - fl_data_received fl"
      "od_flow r = fl\<lparr>fl_data_received := fl_data_received fl + credit\<rparr>" "od_credit r = credit"
      "on_data_accept s (off + n) fin = (od_status r, od_stream r)"
proof -
  define e where "e = off + n"
  define h where "h = st_recv_highest s"
  define credit where "credit = (if e > h then e - h else 0)"
  have tot: "h + credit = max h e" by (auto simp: credit_def max_def)
  have cr: "unat credit = max (unat h) (unat e) - unat h"
    by (auto simp: credit_def max_def unat_sub_le word_less_nat_alt word_le_nat_alt)
  let ?no = "\<lambda>c. \<lparr>od_status = c, od_stream = s, od_flow = fl, od_credit = 0, od_in_order = False\<rparr>"
  have r: "r = (if wt_quic_stream_recv_finished s \<and> (n \<noteq> 0 \<or> fin) then ?no WT_ERR_STATE
      else if off > - 1 - n then ?no WT_ERR_PROTOCOL
      else if st_has_recv_final_size s \<and> e > st_recv_final_size s then ?no WT_ERR_PROTOCOL
      else if st_has_recv_final_size s \<and> fin \<and> e \<noteq> st_recv_final_size s then ?no WT_ERR_PROTOCOL
      else if max h e > st_max_stream_data s then ?no WT_ERR_PROTOCOL
      else if credit > fl_max_data fl - fl_data_received fl then ?no WT_ERR_PROTOCOL
      else case on_data_accept s e fin of (c, s1) \<Rightarrow>
        \<lparr>od_status = c, od_stream = s1, od_flow = fl\<lparr>fl_data_received := fl_data_received fl + credit\<rparr>,
         od_credit = credit, od_in_order = (off = st_recv_offset s)\<rparr>)"
    unfolding assms(3) wt_quic_stream_on_data_def Let_def wt_quic_flow_on_received_def
      e_def [symmetric] h_def [symmetric] credit_def [symmetric] tot
    by auto
  show thesis
  proof (cases "\<not> (wt_quic_stream_recv_finished s \<and> (n \<noteq> 0 \<or> fin)) \<and> \<not> off > - 1 - n \<and>
      \<not> (st_has_recv_final_size s \<and> e > st_recv_final_size s) \<and>
      \<not> (st_has_recv_final_size s \<and> fin \<and> e \<noteq> st_recv_final_size s) \<and>
      \<not> max h e > st_max_stream_data s \<and> \<not> credit > fl_max_data fl - fl_data_received fl")
    case True
    obtain c s1 where acc: "on_data_accept s e fin = (c, s1)" by fastforce
    have "r = \<lparr>od_status = c, od_stream = s1, od_flow = fl\<lparr>fl_data_received := fl_data_received fl + credit\<rparr>,
         od_credit = credit, od_in_order = (off = st_recv_offset s)\<rparr>"
      using r True acc by auto
    with True cr tot acc offset_fits [of n off] show thesis
      by (intro accepted [of credit]) (auto simp: not_less e_def h_def)
  next
    case False
    then have "\<exists>c. c \<noteq> WT_OK \<and> r = ?no c" by (subst r) (auto split: if_splits)
    with refused show thesis by auto
  qed
qed

text \<open>
  The receiver's entry point, on the natural numbers: refused frames change nothing; an accepted one
  moves the highest offset to the end of the frame at most, and the connection pays exactly for that.
\<close>

lemma on_data_cases:
  assumes "recv_inv s" "flow_inv fl" "r = wt_quic_stream_on_data s fl off n fin"
  shows "recv_inv (od_stream r) \<and> flow_inv (od_flow r) \<and>
    (if od_status r = WT_OK
     then unat off + unat n < 2 ^ 64 \<and>
       unat (st_recv_highest (od_stream r)) = max (unat (st_recv_highest s)) (unat off + unat n) \<and>
       unat (fl_data_received (od_flow r)) = unat (fl_data_received fl) + unat (od_credit r) \<and>
       unat (od_credit r) = unat (st_recv_highest (od_stream r)) - unat (st_recv_highest s) \<and>
       (fin \<longrightarrow> st_has_recv_final_size (od_stream r) \<and>
          unat (st_recv_final_size (od_stream r)) = unat off + unat n)
     else od_stream r = s \<and> od_flow r = fl \<and> od_credit r = 0)"
  using assms
proof (cases rule: on_data_accepted)
  case refused
  with assms show ?thesis by simp
next
  case (accepted credit)
  have fl: "flow_inv (od_flow r)" "unat (fl_data_received (od_flow r)) = unat (fl_data_received fl) + unat credit"
    using assms(2) word_add_le [of "fl_data_received fl" "fl_max_data fl" credit] accepted(7,8)
    by (auto simp: flow_inv_def)
  note acc = on_data_accept_ok [OF assms(1) accepted(5) accepted(6) accepted(10)]
  show ?thesis
  proof (cases "od_status r = WT_OK")
    case True
    then have "unat (st_recv_highest (od_stream r)) = max (unat (st_recv_highest s)) (unat off + unat n)"
      using acc(3) accepted(2) by (auto simp: max_def word_le_nat_alt)
    then show ?thesis
      using True acc(1,3) fl accepted(1,2,4,9) by auto
  next
    case False
    with acc(2) have s: "od_stream r = s" "off + n < st_recv_highest s" by simp_all
    then have "credit = 0" using accepted(4) by (simp add: word_less_nat_alt word_unat_eq_iff)
    with False s fl acc(1) accepted(8,9) show ?thesis by simp
  qed
qed

subsection \<open>All steps\<close>

lemma stream_inv_init: "stream_inv (wt_quic_stream_init i us bidi m pm, wt_quic_flow_init a b)"
  by (simp add: stream_inv_def send_inv_def recv_inv_def flow_inv_def wt_quic_stream_init_def
      wt_quic_flow_init_def wt_quic_stream_send_finished_def)

lemma send_inv_recv_ops:
  assumes "send_inv s"
  shows "send_inv (snd (wt_quic_stream_on_reset_received s c f))"
    "send_inv (snd (wt_quic_stream_on_reset_at_received s c f r))"
    "send_inv (snd (wt_quic_stream_on_data_read s n))" "send_inv (snd (wt_quic_stream_on_reset_read s))"
    "send_inv (wt_quic_stream_on_max_stream_data_sent s m)"
    "send_inv (snd (on_data_accept s e fin))"
    "send_inv (od_stream (wt_quic_stream_on_data s fl off n fin))"
proof -
  have chk: "check_final_size s' f' = (x, y) \<Longrightarrow> send_inv s' \<Longrightarrow> send_inv y" for s' f' x y
    using check_final_size_send [of s' f'] by simp
  show "send_inv (snd (wt_quic_stream_on_reset_received s c f))"
    "send_inv (snd (wt_quic_stream_on_reset_at_received s c f r))"
    using assms by (auto simp: wt_quic_stream_on_reset_received_def wt_quic_stream_on_reset_at_received_def
        split: prod.splits dest: chk)
  show "send_inv (snd (wt_quic_stream_on_data_read s n))" "send_inv (snd (wt_quic_stream_on_reset_read s))"
    "send_inv (wt_quic_stream_on_max_stream_data_sent s m)"
    using assms by (simp_all add: recv_ops Let_def)
  show acc: "send_inv (snd (on_data_accept s e fin))" for e
    using assms by (auto simp: on_data_accept_def Let_def split: prod.splits if_splits dest: chk)
  show "send_inv (od_stream (wt_quic_stream_on_data s fl off n fin))"
    using assms acc [of "off + n"]
    by (auto simp: wt_quic_stream_on_data_def Let_def split: prod.splits)
qed

lemma stream_step_inv: "stream_inv x \<Longrightarrow> stream_inv (snd (stream_step e x))"
proof -
  assume inv: "stream_inv x"
  obtain s fl where x: "x = (s, fl)" by fastforce
  from inv have s: "send_inv s" "recv_inv s" "flow_inv fl" by (simp_all add: stream_inv_def x)
  note ops = send_inv_ops [OF s(1)] send_inv_recv_ops [OF s(1)] recv_inv_send_ops [OF s(2)]
    reset_received_inv [OF s(2)] reset_at_received_inv [OF s(2)] recv_reads_inv [OF s(2)]
    flow_inv_on_sent [OF s(3)] flow_inv_on_received [OF s(3)] flow_inv_limits [OF s(3)]
    on_data_cases [OF s(2,3) refl]
  show ?thesis
    by (cases e) (use s ops in \<open>simp_all add: x stream_inv_def Let_def split_beta\<close>)
qed

lemma stream_run_simps [simp]:
  "stream_run [] x = x" "stream_run (es @ [e]) x = snd (stream_step e (stream_run es x))"
  by (simp_all add: stream_run_def)

lemma stream_run_inv: "stream_inv x \<Longrightarrow> stream_inv (stream_run es x)"
  by (induction es rule: rev_induct) (simp_all add: stream_step_inv)

text \<open>The size the peer has claimed never changes.\<close>

definition final_size_fixed :: "wt_quic_stream \<Rightarrow> wt_quic_stream \<Rightarrow> bool" where
  "final_size_fixed s s' \<longleftrightarrow> (st_has_recv_final_size s \<longrightarrow>
     st_has_recv_final_size s' \<and> st_recv_final_size s' = st_recv_final_size s)"

lemma final_size_refl [simp]: "final_size_fixed s s"
  by (simp add: final_size_fixed_def)

lemma final_size_check: "final_size_fixed s (snd (check_final_size s f))"
  by (simp add: final_size_fixed_def check_final_size_def Let_def)

lemma final_size_accept: "final_size_fixed s (snd (on_data_accept s e fin))"
proof -
  let ?s1 = "if e > st_recv_highest s then s\<lparr>st_recv_highest := e\<rparr> else s"
  have "final_size_fixed s (snd (check_final_size ?s1 e))"
    using final_size_check [of ?s1 e] by (auto simp: final_size_fixed_def)
  then show ?thesis
    by (auto simp: on_data_accept_def final_size_fixed_def Let_def split: prod.splits if_splits)
qed

lemma final_size_step: "final_size_fixed (fst x) (fst (snd (stream_step e x)))"
proof -
  obtain s fl where x: "x = (s, fl)" by fastforce
  have chk: "check_final_size s f = (c, s1) \<Longrightarrow> final_size_fixed s s1" for f c s1
    using final_size_check [of s f] by simp
  have acc: "on_data_accept s k fin = (c, s1) \<Longrightarrow> final_size_fixed s s1" for k fin c s1
    using final_size_accept [of s k fin] by simp
  show ?thesis
    unfolding x
  proof (cases e)
    case (Data_Received off n fin)
    then show "final_size_fixed (fst (s, fl)) (fst (snd (stream_step e (s, fl))))"
      using acc by (auto simp: wt_quic_stream_on_data_def Let_def split: prod.splits)
  next
    case (Reset_Received c f)
    then show "final_size_fixed (fst (s, fl)) (fst (snd (stream_step e (s, fl))))"
      using chk by (auto simp: wt_quic_stream_on_reset_received_def final_size_fixed_def split: prod.splits)
  next
    case (Reset_At_Received c f r)
    then show "final_size_fixed (fst (s, fl)) (fst (snd (stream_step e (s, fl))))"
      using chk by (auto simp: wt_quic_stream_on_reset_at_received_def final_size_fixed_def split: prod.splits)
  qed (auto simp: final_size_fixed_def send_ops wt_quic_stream_on_data_read_def
      wt_quic_stream_on_reset_read_def wt_quic_stream_on_max_stream_data_sent_def Let_def split: prod.splits if_splits)
qed

subsection \<open>The state machines of RFC 9000 section 3\<close>

inductive send_edge :: "wt_quic_send_state \<Rightarrow> wt_quic_send_state \<Rightarrow> bool" where
  "send_edge WT_QUIC_SEND_READY WT_QUIC_SEND_SEND"
| "send_edge WT_QUIC_SEND_READY WT_QUIC_SEND_DATA_SENT"
| "send_edge WT_QUIC_SEND_SEND WT_QUIC_SEND_DATA_SENT"
| "send_edge WT_QUIC_SEND_READY WT_QUIC_SEND_RESET_SENT"
| "send_edge WT_QUIC_SEND_SEND WT_QUIC_SEND_RESET_SENT"
| "send_edge WT_QUIC_SEND_DATA_SENT WT_QUIC_SEND_DATA_RECVD"
| "send_edge WT_QUIC_SEND_RESET_SENT WT_QUIC_SEND_RESET_RECVD"

inductive recv_edge :: "wt_quic_recv_state \<Rightarrow> wt_quic_recv_state \<Rightarrow> bool" where
  "recv_edge WT_QUIC_RECV_RECV WT_QUIC_RECV_SIZE_KNOWN"
| "recv_edge WT_QUIC_RECV_RECV WT_QUIC_RECV_DATA_RECVD"
| "recv_edge WT_QUIC_RECV_SIZE_KNOWN WT_QUIC_RECV_DATA_RECVD"
| "recv_edge WT_QUIC_RECV_DATA_RECVD WT_QUIC_RECV_DATA_READ"
| "recv_edge WT_QUIC_RECV_RESET_RECVD WT_QUIC_RECV_RESET_READ"
| "recv_edge r WT_QUIC_RECV_RESET_RECVD"

declare send_edge.intros [intro] recv_edge.intros [intro]

inductive_simps send_edge_from [simp]:
  "send_edge WT_QUIC_SEND_READY y" "send_edge WT_QUIC_SEND_SEND y" "send_edge WT_QUIC_SEND_DATA_SENT y"
  "send_edge WT_QUIC_SEND_DATA_RECVD y" "send_edge WT_QUIC_SEND_RESET_SENT y"
  "send_edge WT_QUIC_SEND_RESET_RECVD y"

inductive_cases recv_edgeE: "recv_edge x y"

lemmas recv_moves [intro] = recv_edge.intros [THEN r_into_rtranclp [of recv_edge]]

lemma send_state_step:
  "st_send_state (fst (snd (stream_step e x))) = st_send_state (fst x) \<or>
   send_edge (st_send_state (fst x)) (st_send_state (fst (snd (stream_step e x))))"
proof -
  obtain s fl where x: "x = (s, fl)" by fastforce
  have chk: "st_send_state (snd (check_final_size s' f)) = st_send_state s'" for s' f
    by (simp add: check_final_size_def Let_def)
  have chk': "check_final_size s' f = (c, s1) \<Longrightarrow> st_send_state s1 = st_send_state s'" for s' f c s1
    using chk [of s' f] by simp
  have acc: "on_data_accept s k fin = (c, s1) \<Longrightarrow> st_send_state s1 = st_send_state s" for k fin c s1
    by (auto simp: on_data_accept_def Let_def split: prod.splits if_splits dest: chk')
  show ?thesis
    unfolding x
    by (cases e; cases "st_send_state s")
      (auto simp: send_ops wt_quic_stream_on_data_read_def wt_quic_stream_on_reset_read_def
        wt_quic_stream_on_max_stream_data_sent_def wt_quic_stream_on_reset_received_def
        wt_quic_stream_on_reset_at_received_def wt_quic_stream_on_data_def wt_quic_stream_send_finished_def
        Let_def split: prod.splits if_splits dest: chk' acc)
qed

lemma recv_state_check:
  "check_final_size s f = (c, s1) \<Longrightarrow> recv_edge\<^sup>*\<^sup>* (st_recv_state s) (st_recv_state s1)"
  by (auto simp: check_final_size_def Let_def split: if_splits)

lemma recv_state_accept:
  assumes "on_data_accept s k fin = (c, s1)"
  shows "recv_edge\<^sup>*\<^sup>* (st_recv_state s) (st_recv_state s1)"
proof -
  define s0 where "s0 = (if k > st_recv_highest s then s\<lparr>st_recv_highest := k\<rparr> else s)"
  obtain c2 s2 where c2: "(if fin then check_final_size s0 k else (WT_OK, s0)) = (c2, s2)" by fastforce
  have "recv_edge\<^sup>*\<^sup>* (st_recv_state s0) (st_recv_state s2)"
    using c2 recv_state_check [of s0 k c2 s2] by (auto split: if_splits)
  moreover have "st_recv_state s0 = st_recv_state s" by (simp add: s0_def)
  moreover have "s1 = s2 \<or> st_recv_state s2 = WT_QUIC_RECV_SIZE_KNOWN \<and> st_recv_state s1 = WT_QUIC_RECV_DATA_RECVD"
    using assms c2 by (auto simp: on_data_accept_def Let_def s0_def [symmetric] split: if_splits)
  moreover have "recv_edge\<^sup>*\<^sup>* a WT_QUIC_RECV_DATA_RECVD" if "recv_edge\<^sup>*\<^sup>* a WT_QUIC_RECV_SIZE_KNOWN" for a
    using that by (rule rtranclp.rtrancl_into_rtrancl) (rule recv_edge.intros(3))
  ultimately show ?thesis by auto
qed

lemma recv_state_step:
  "recv_edge\<^sup>*\<^sup>* (st_recv_state (fst x)) (st_recv_state (fst (snd (stream_step e x))))"
proof -
  obtain s fl where x: "x = (s, fl)" by fastforce
  show ?thesis
    unfolding x by (cases e) (auto simp: send_ops wt_quic_stream_on_data_read_def wt_quic_stream_on_reset_read_def
      wt_quic_stream_on_max_stream_data_sent_def wt_quic_stream_on_reset_received_def wt_quic_stream_on_data_def
      wt_quic_stream_on_reset_at_received_def Let_def split: prod.splits if_splits
      dest: recv_state_check recv_state_accept)
qed

subsection \<open>Stream numbers\<close>

lemma stream_id_bits:
  "bit (wt_quic_stream_id_make c b i) n \<longleftrightarrow>
     (if n = 0 then \<not> c else if n = 1 then \<not> b else n < 64 \<and> bit i (n - 2))"
  by (auto simp: wt_quic_stream_id_make_def bit_simps Let_def)

lemma stream_id_flags:
  "wt_quic_stream_id_from_client x \<longleftrightarrow> \<not> bit x 0" "wt_quic_stream_id_is_bidirectional x \<longleftrightarrow> \<not> bit x 1"
proof -
  have "x AND 2 ^ n = 0 \<longleftrightarrow> \<not> bit x n" for n by (rule and_exp_eq_0_iff_not_bit)
  from this [of 0] this [of 1] show "wt_quic_stream_id_from_client x \<longleftrightarrow> \<not> bit x 0" "wt_quic_stream_id_is_bidirectional x \<longleftrightarrow> \<not> bit x 1"
    by (simp_all add: wt_quic_stream_id_from_client_def wt_quic_stream_id_is_bidirectional_def)
qed

lemma stream_id_make_index:
  assumes "unat i < 2 ^ 62"
  shows "wt_quic_stream_id_index (wt_quic_stream_id_make c b i) = i"
proof -
  have "bit i n \<Longrightarrow> n < 62" for n
    using take_bit_word_id [OF assms] by (metis bit_take_bit_iff)
  then show ?thesis
    by (intro bit_eqI) (auto simp: wt_quic_stream_id_index_def bit_drop_bit_eq stream_id_bits)
qed

lemma stream_id_make_inj:
  "wt_quic_stream_id_make c b i = wt_quic_stream_id_make c b j \<Longrightarrow> unat i < 2 ^ 62 \<Longrightarrow> unat j < 2 ^ 62 \<Longrightarrow> i = j"
  by (metis stream_id_make_index)

subsection \<open>Properties of streams and flow control\<close>

text \<open>C1: The stream and flow control invariant holds in every reachable state. Whatever frames arrive
  and whatever the endpoint does, in any order and however many calls are refused: the connection never
  exceeds the peer's limit nor accepts past its own; delivered data never passes received data, which
  never passes the advertised limit nor the final size; the send half knows its final size exactly when
  it is finished, and that size is what was sent; a half is in a reset state exactly when a reset
  arrived.\<close>

theorem wt_quic_stream_invariant:
  "stream_inv (stream_run es (wt_quic_stream_init i us bidi max_data peer_max, wt_quic_flow_init m pm))"
  by (rule stream_run_inv [OF stream_inv_init])

text \<open>C2: Receiving stream data is atomic and exactly accounted. In a state satisfying the invariant a
  STREAM frame is either refused, and then stream and connection accounting are untouched, or accepted,
  and then its end does not overflow, the highest offset becomes the maximum of the old one and that
  end, the connection is charged exactly the advance of the highest offset (nothing for a
  retransmission), and a FIN fixes the final size at the end of the frame.\<close>

theorem wt_quic_stream_on_data_exact:
  assumes "recv_inv s" "flow_inv fl" "r = wt_quic_stream_on_data s fl off n fin"
  shows "if od_status r = WT_OK
     then unat (st_recv_highest (od_stream r)) = max (unat (st_recv_highest s)) (unat off + unat n) \<and>
       unat (fl_data_received (od_flow r)) = unat (fl_data_received fl) +
         (unat (st_recv_highest (od_stream r)) - unat (st_recv_highest s)) \<and>
       unat (st_recv_highest (od_stream r)) \<le> unat (st_max_stream_data s) \<and>
       unat (fl_data_received (od_flow r)) \<le> unat (fl_max_data fl) \<and>
       (fin \<longrightarrow> st_has_recv_final_size (od_stream r) \<and>
          unat (st_recv_final_size (od_stream r)) = unat off + unat n)
     else od_stream r = s \<and> od_flow r = fl \<and> od_credit r = 0"
proof -
  have lim: "st_max_stream_data (od_stream r) = st_max_stream_data s \<and> fl_max_data (od_flow r) = fl_max_data fl"
    using assms
  proof (cases rule: on_data_accepted)
    case (accepted credit)
    have "st_max_stream_data (snd (on_data_accept s (off + n) fin)) = st_max_stream_data s"
      by (simp add: on_data_accept_def Let_def split_beta)
    with accepted(8,10) show ?thesis by simp
  qed simp
  note res = on_data_cases [OF assms]
  then have "st_recv_highest (od_stream r) \<le> st_max_stream_data s" "fl_data_received (od_flow r) \<le> fl_max_data fl"
    using lim by (simp_all add: recv_inv_def flow_inv_def)
  with res show ?thesis
    by (simp add: word_le_nat_alt split: if_splits)
qed

theorem wt_quic_stream_on_data_exact_witness:
  "let s = wt_quic_stream_init 4 False True 100 100; fl = wt_quic_flow_init 1000 1000;
       r = wt_quic_stream_on_data s fl 10 20 True in
   recv_inv s \<and> flow_inv fl \<and> unat (fl_data_received (od_flow r)) = 30 \<and>
   unat (st_recv_final_size (od_stream r)) = 30"
proof -
  let ?s = "wt_quic_stream_init 4 False True 100 100" and ?fl = "wt_quic_flow_init 1000 1000"
  let ?r = "wt_quic_stream_on_data ?s ?fl 10 20 True"
  have i: "recv_inv ?s" "flow_inv ?fl"
    using stream_inv_init [of 4 False True 100 100 1000 1000] by (simp_all add: stream_inv_def)
  have ok: "od_status ?r = WT_OK"
    by (simp add: wt_quic_stream_on_data_def wt_quic_stream_init_def wt_quic_flow_init_def on_data_accept_def
        check_final_size_def wt_quic_flow_on_received_def wt_quic_stream_recv_finished_def)
  from wt_quic_stream_on_data_exact [OF i refl, of 10 20 True] i ok show ?thesis
    by (simp add: Let_def wt_quic_stream_init_def wt_quic_flow_init_def)
qed

text \<open>The final size of a stream, once known, never changes: no later frame and no later call, in any
  order, alters or forgets it.\<close>

lemma wt_quic_stream_final_size_fixed:
  assumes "st_has_recv_final_size (fst x)"
  shows "st_has_recv_final_size (fst (stream_run es x)) \<and>
    st_recv_final_size (fst (stream_run es x)) = st_recv_final_size (fst x)"
proof (induction es rule: rev_induct)
  case (snoc e es)
  with final_size_step [of "stream_run es x" e] show ?case by (simp add: final_size_fixed_def)
qed (simp add: assms)

text \<open>Every call moves both halves along the edges of their state machines (RFC 9000 figures 2 and
  3, with a reset entering Reset Recvd from any receive state): the send half takes at most one edge of
  its machine, the receive half a path of its own.\<close>

lemma wt_quic_stream_transitions:
  "(st_send_state (fst (snd (stream_step e x))) = st_send_state (fst x) \<or>
    send_edge (st_send_state (fst x)) (st_send_state (fst (snd (stream_step e x))))) \<and>
   recv_edge\<^sup>*\<^sup>* (st_recv_state (fst x)) (st_recv_state (fst (snd (stream_step e x))))"
  using send_state_step recv_state_step by blast

text \<open>Sending within the allowance never exceeds either limit of the peer. When the length is at
  most \<open>wt_quic_stream_send_allowance\<close> and not zero, recording it succeeds on the stream and on the
  connection, adds exactly that length to both, and leaves both within what the peer advertised.\<close>

lemma wt_quic_stream_send_within_limits:
  assumes "flow_inv fl" "wt_quic_stream_can_send s fl n" "n \<noteq> 0"
  shows "fst (wt_quic_stream_on_data_sent s n) = WT_OK \<and> fst (wt_quic_flow_on_sent fl n) = WT_OK \<and>
    (let s' = snd (wt_quic_stream_on_data_sent s n); fl' = snd (wt_quic_flow_on_sent fl n) in
     unat (st_send_offset s') = unat (st_send_offset s) + unat n \<and>
     st_send_offset s' \<le> st_peer_max_stream_data s' \<and>
     unat (fl_data_sent fl') = unat (fl_data_sent fl) + unat n \<and>
     fl_data_sent fl' \<le> fl_peer_max_data fl')"
proof -
  have n0: "0 < n" using assms(3) by (simp add: word_neq_0_conv)
  have nf: "\<not> wt_quic_stream_send_finished s"
    using assms(2) n0 by (auto simp: wt_quic_stream_can_send_def wt_quic_stream_send_allowance_def)
  then have "n \<le> (if st_send_offset s \<ge> st_peer_max_stream_data s then 0 else st_peer_max_stream_data s - st_send_offset s)"
    "n \<le> wt_quic_flow_send_allowance fl"
    using assms(2) by (auto simp: wt_quic_stream_can_send_def wt_quic_stream_send_allowance_def Let_def
        word_gt_0 split: if_splits)
  then have st: "st_send_offset s \<le> st_peer_max_stream_data s" "n \<le> st_peer_max_stream_data s - st_send_offset s"
    and fl: "fl_data_sent fl \<le> fl_peer_max_data fl" "n \<le> fl_peer_max_data fl - fl_data_sent fl"
    using n0 by (auto simp: wt_quic_flow_send_allowance_def split: if_splits)
  show ?thesis
    using nf \<open>n \<le> wt_quic_flow_send_allowance fl\<close> word_add_le [OF st] word_add_le [OF fl]
    by (auto simp: wt_quic_stream_on_data_sent_def wt_quic_flow_on_sent_def wt_quic_flow_can_send_def Let_def)
qed

text \<open>The packing of stream numbers is a bijection. A number built from initiator, direction and an
  index below \<open>2^62\<close> yields these three back, and every number is built from what it yields.\<close>

lemma wt_quic_stream_id_round_trip:
  "(unat i < 2 ^ 62 \<longrightarrow>
     wt_quic_stream_id_from_client (wt_quic_stream_id_make c b i) = c \<and>
     wt_quic_stream_id_is_bidirectional (wt_quic_stream_id_make c b i) = b \<and>
     wt_quic_stream_id_index (wt_quic_stream_id_make c b i) = i) \<and>
   wt_quic_stream_id_make (wt_quic_stream_id_from_client x) (wt_quic_stream_id_is_bidirectional x)
     (wt_quic_stream_id_index x) = x"
proof -
  note 1 = stream_id_make_index [of i c b]
  have "bit (wt_quic_stream_id_make (wt_quic_stream_id_from_client x) (wt_quic_stream_id_is_bidirectional x)
     (wt_quic_stream_id_index x)) n = bit x n" if "n < 64" for n
  proof -
    consider "n = 0" | "n = 1" | m where "n = 2 + m" using le_Suc_ex [of 2 n] by fastforce
    then show ?thesis
      using that by cases (auto simp: stream_id_bits stream_id_flags wt_quic_stream_id_index_def bit_drop_bit_eq)
  qed
  then have 2: "wt_quic_stream_id_make (wt_quic_stream_id_from_client x) (wt_quic_stream_id_is_bidirectional x)
     (wt_quic_stream_id_index x) = x"
    by (intro bit_word_eqI) simp
  from 1 2 show ?thesis by (simp add: stream_id_flags stream_id_bits)
qed

text \<open>
  A RESET_STREAM that repeats the known final size takes a receive half that was already finished back
  to Reset Recvd: the stream is no longer complete, although both of its halves were.
\<close>

lemma reset_reopens_finished_stream:
  assumes "recv_inv s" "st_recv_state s = WT_QUIC_RECV_DATA_READ" "st_recv_final_size s = f"
  shows "fst (wt_quic_stream_on_reset_received s c f) = WT_OK \<and> wt_quic_stream_recv_finished s \<and>
    \<not> wt_quic_stream_recv_finished (snd (wt_quic_stream_on_reset_received s c f))"
  using assms by (auto simp: wt_quic_stream_on_reset_received_def check_final_size_def
      wt_quic_stream_recv_finished_def recv_inv_def)

end
