(* ===== verification/Stream_Table.thy ===== *)
theory Stream_Table
  imports Stream
begin

text \<open>
  The bounded table of a connection's streams (\<open>C99/src/quic/stream.c\<close>, from
  \<open>wt_quic_stream_table_init\<close>). The two arrays \<open>streams\<close> and \<open>used\<close> are lists of the same fixed
  length; a pointer into \<open>streams\<close> is the stream it points at. The locale \<open>stream_registry\<close> states what
  a connection relies on; it is interpreted on the functions of the table.
\<close>

definition WT_QUIC_STREAM_TABLE_MAX :: nat where
  "WT_QUIC_STREAM_TABLE_MAX = 32"

record wt_quic_stream_table =
  tb_streams :: "wt_quic_stream list"
  tb_used :: "bool list"
  tb_count :: nat
  tb_opened_by_us_bidi :: u64
  tb_opened_by_us_uni :: u64
  tb_opened_by_peer_bidi :: u64
  tb_opened_by_peer_uni :: u64

definition wt_quic_stream_table_init :: wt_quic_stream_table where
  "wt_quic_stream_table_init =
     \<lparr>tb_streams = replicate WT_QUIC_STREAM_TABLE_MAX (wt_quic_stream_init 0 False False 0 0),
      tb_used = replicate WT_QUIC_STREAM_TABLE_MAX False, tb_count = 0,
      tb_opened_by_us_bidi = 0, tb_opened_by_us_uni = 0,
      tb_opened_by_peer_bidi = 0, tb_opened_by_peer_uni = 0\<rparr>"

text \<open>The first index from \<open>i\<close> on that satisfies a test, or the size of the table.\<close>

function slot_from :: "(nat \<Rightarrow> bool) \<Rightarrow> nat \<Rightarrow> nat" where
  "slot_from P i = (if i < WT_QUIC_STREAM_TABLE_MAX then (if P i then i else slot_from P (i + 1))
                    else WT_QUIC_STREAM_TABLE_MAX)"
  by pat_completeness auto
termination by (relation "measure (\<lambda>(_, i). WT_QUIC_STREAM_TABLE_MAX - i)") auto

declare slot_from.simps [simp del]

definition table_slot :: "wt_quic_stream_table \<Rightarrow> u64 \<Rightarrow> nat" where
  "table_slot t stream_id = slot_from (\<lambda>i. tb_used t ! i \<and> st_id (tb_streams t ! i) = stream_id) 0"

definition opened_count :: "wt_quic_stream_table \<Rightarrow> bool \<Rightarrow> bool \<Rightarrow> u64" where
  "opened_count t by_us bidirectional =
     (if by_us then (if bidirectional then tb_opened_by_us_bidi t else tb_opened_by_us_uni t)
      else (if bidirectional then tb_opened_by_peer_bidi t else tb_opened_by_peer_uni t))"

definition count_opened :: "bool \<Rightarrow> bool \<Rightarrow> wt_quic_stream_table \<Rightarrow> wt_quic_stream_table" where
  "count_opened by_us bidirectional t =
     (if by_us then
        if bidirectional then t\<lparr>tb_opened_by_us_bidi := tb_opened_by_us_bidi t + 1\<rparr>
        else t\<lparr>tb_opened_by_us_uni := tb_opened_by_us_uni t + 1\<rparr>
      else
        if bidirectional then t\<lparr>tb_opened_by_peer_bidi := tb_opened_by_peer_bidi t + 1\<rparr>
        else t\<lparr>tb_opened_by_peer_uni := tb_opened_by_peer_uni t + 1\<rparr>)"

text \<open>One round of the sweep that reclaims the slots of complete streams.\<close>

definition reclaim_slot :: "nat \<Rightarrow> wt_quic_stream_table \<times> nat \<Rightarrow> wt_quic_stream_table \<times> nat" where
  "reclaim_slot i x =
     (case x of (t, slot) \<Rightarrow>
        if tb_used t ! i \<and> wt_quic_stream_complete (tb_streams t ! i)
        then (t\<lparr>tb_used := (tb_used t)[i := False], tb_count := tb_count t - 1\<rparr>,
              if slot = WT_QUIC_STREAM_TABLE_MAX then i else slot)
        else (t, slot))"

definition reclaim :: "wt_quic_stream_table \<Rightarrow> wt_quic_stream_table \<times> nat" where
  "reclaim t = fold reclaim_slot [0..<WT_QUIC_STREAM_TABLE_MAX] (t, WT_QUIC_STREAM_TABLE_MAX)"

definition wt_quic_stream_table_open ::
  "wt_quic_stream_table \<Rightarrow> u64 \<Rightarrow> bool \<Rightarrow> u64 \<Rightarrow> wt_status \<times> wt_quic_stream_table" where
  "wt_quic_stream_table_open t stream_id initiated_by_us limit =
     (if table_slot t stream_id \<noteq> WT_QUIC_STREAM_TABLE_MAX then (WT_ERR_STATE, t)
      else
        let bidirectional = wt_quic_stream_id_is_bidirectional stream_id in
        if opened_count t initiated_by_us bidirectional \<ge> limit then (WT_ERR_LIMIT, t)
        else
          let free = slot_from (\<lambda>i. \<not> tb_used t ! i) 0;
              (t1, slot) = (if free = WT_QUIC_STREAM_TABLE_MAX then reclaim t else (t, free))
          in if slot = WT_QUIC_STREAM_TABLE_MAX then (WT_ERR_LIMIT, t1)
             else
               let t2 = t1\<lparr>tb_streams := (tb_streams t1)[slot :=
                             wt_quic_stream_init stream_id initiated_by_us bidirectional 0 0],
                           tb_used := (tb_used t1)[slot := True]\<rparr>;
                   t3 = count_opened initiated_by_us bidirectional t2
               in (WT_OK, t3\<lparr>tb_count := tb_count t3 + 1\<rparr>))"

definition wt_quic_stream_table_find :: "wt_quic_stream_table \<Rightarrow> u64 \<Rightarrow> wt_quic_stream option" where
  "wt_quic_stream_table_find t stream_id =
     (let slot = table_slot t stream_id in
      if slot = WT_QUIC_STREAM_TABLE_MAX then None else Some (tb_streams t ! slot))"

definition wt_quic_stream_table_close :: "wt_quic_stream_table \<Rightarrow> u64 \<Rightarrow> wt_status \<times> wt_quic_stream_table" where
  "wt_quic_stream_table_close t stream_id =
     (let slot = table_slot t stream_id in
      if slot = WT_QUIC_STREAM_TABLE_MAX then (WT_ERR_STATE, t)
      else if \<not> wt_quic_stream_complete (tb_streams t ! slot) then (WT_ERR_STATE, t)
      else (WT_OK, t\<lparr>tb_used := (tb_used t)[slot := False], tb_count := tb_count t - 1\<rparr>))"

definition wt_quic_stream_table_at :: "wt_quic_stream_table \<Rightarrow> nat \<Rightarrow> wt_quic_stream option" where
  "wt_quic_stream_table_at t index =
     (if index \<ge> WT_QUIC_STREAM_TABLE_MAX then None
      else if tb_used t ! index then Some (tb_streams t ! index) else None)"

definition wt_quic_stream_table_count :: "wt_quic_stream_table \<Rightarrow> nat" where
  "wt_quic_stream_table_count t = tb_count t"

definition wt_quic_stream_table_opened_by_us :: "wt_quic_stream_table \<Rightarrow> bool \<Rightarrow> u64" where
  "wt_quic_stream_table_opened_by_us t bidirectional =
     (if bidirectional then tb_opened_by_us_bidi t else tb_opened_by_us_uni t)"

definition wt_quic_stream_table_opened_by_peer :: "wt_quic_stream_table \<Rightarrow> bool \<Rightarrow> u64" where
  "wt_quic_stream_table_opened_by_peer t bidirectional =
     (if bidirectional then tb_opened_by_peer_bidi t else tb_opened_by_peer_uni t)"

text \<open>A write through the pointer \<open>wt_quic_stream_table_find\<close> returns: the slot's stream is replaced by
  its new value, which keeps the stream number.\<close>

definition table_write :: "wt_quic_stream_table \<Rightarrow> u64 \<Rightarrow> (wt_quic_stream \<Rightarrow> wt_quic_stream) \<Rightarrow> wt_quic_stream_table" where
  "table_write t stream_id f =
     (let slot = table_slot t stream_id in
      if slot = WT_QUIC_STREAM_TABLE_MAX then t
      else t\<lparr>tb_streams := (tb_streams t)[slot := f (tb_streams t ! slot)]\<rparr>)"

subsection \<open>Invariant\<close>

definition live_slots :: "wt_quic_stream_table \<Rightarrow> nat set" where
  "live_slots t = {i. i < WT_QUIC_STREAM_TABLE_MAX \<and> tb_used t ! i}"

definition table_inv :: "wt_quic_stream_table \<Rightarrow> bool" where
  "table_inv t \<longleftrightarrow>
     length (tb_streams t) = WT_QUIC_STREAM_TABLE_MAX \<and> length (tb_used t) = WT_QUIC_STREAM_TABLE_MAX \<and>
     tb_count t = card (live_slots t) \<and> inj_on (\<lambda>i. st_id (tb_streams t ! i)) (live_slots t)"

lemma slot_from_spec:
  "i \<le> WT_QUIC_STREAM_TABLE_MAX \<Longrightarrow> i \<le> slot_from P i \<and> slot_from P i \<le> WT_QUIC_STREAM_TABLE_MAX \<and>
   (slot_from P i < WT_QUIC_STREAM_TABLE_MAX \<longrightarrow> P (slot_from P i)) \<and>
   (slot_from P i = WT_QUIC_STREAM_TABLE_MAX \<longrightarrow> (\<forall>j. i \<le> j \<and> j < WT_QUIC_STREAM_TABLE_MAX \<longrightarrow> \<not> P j))"
proof (induction P i rule: slot_from.induct)
  case (1 P i)
  show ?case
  proof (cases "i < WT_QUIC_STREAM_TABLE_MAX \<and> \<not> P i")
    case True
    then have eq: "slot_from P i = slot_from P (i + 1)" by (simp add: slot_from.simps [of P i])
    from True 1 have IH: "i + 1 \<le> slot_from P (i + 1)" "slot_from P (i + 1) \<le> WT_QUIC_STREAM_TABLE_MAX"
      "slot_from P (i + 1) < WT_QUIC_STREAM_TABLE_MAX \<longrightarrow> P (slot_from P (i + 1))"
      "slot_from P (i + 1) = WT_QUIC_STREAM_TABLE_MAX \<longrightarrow>
         (\<forall>j. i + 1 \<le> j \<and> j < WT_QUIC_STREAM_TABLE_MAX \<longrightarrow> \<not> P j)" by auto
    have "\<not> P j" if "slot_from P (i + 1) = WT_QUIC_STREAM_TABLE_MAX" "i \<le> j" "j < WT_QUIC_STREAM_TABLE_MAX" for j
      using IH(4) that True by (cases "j = i") auto
    with IH show ?thesis unfolding eq by simp
  qed (use 1(2) in \<open>auto simp: slot_from.simps [of P i]\<close>)
qed

lemma table_slot_cases:
  assumes "table_inv t"
  obtains (absent) "table_slot t x = WT_QUIC_STREAM_TABLE_MAX" "\<forall>i\<in>live_slots t. st_id (tb_streams t ! i) \<noteq> x"
  | (present) i where "table_slot t x = i" "i \<in> live_slots t" "i < WT_QUIC_STREAM_TABLE_MAX"
      "st_id (tb_streams t ! i) = x" "\<And>j. j \<in> live_slots t \<Longrightarrow> st_id (tb_streams t ! j) = x \<Longrightarrow> j = i"
proof -
  let ?P = "\<lambda>i. tb_used t ! i \<and> st_id (tb_streams t ! i) = x"
  note spec = slot_from_spec [of 0 ?P]
  show thesis
  proof (cases "table_slot t x = WT_QUIC_STREAM_TABLE_MAX")
    case True
    with spec show thesis by (intro absent) (auto simp: table_slot_def live_slots_def)
  next
    case False
    with spec have "table_slot t x \<in> live_slots t" "st_id (tb_streams t ! table_slot t x) = x"
      by (auto simp: table_slot_def live_slots_def)
    with assms False show thesis
      by (intro present [of "table_slot t x"]) (auto simp: table_inv_def live_slots_def inj_on_def)
  qed
qed

text \<open>Finding a stream by its number is looking it up among the live slots.\<close>

lemma table_find_iff:
  assumes "table_inv t"
  shows "wt_quic_stream_table_find t x = Some s \<longleftrightarrow>
     (\<exists>i\<in>live_slots t. st_id (tb_streams t ! i) = x \<and> tb_streams t ! i = s)"
proof (cases rule: table_slot_cases [OF assms, of x])
  case 1
  then show ?thesis by (simp add: wt_quic_stream_table_find_def)
next
  case (2 i)
  from 2(1,3) have "wt_quic_stream_table_find t x = Some (tb_streams t ! i)"
    by (simp add: wt_quic_stream_table_find_def)
  with 2(2,4) show ?thesis by (auto dest: 2(5))
qed

lemma table_find_None:
  assumes "table_inv t"
  shows "wt_quic_stream_table_find t x = None \<longleftrightarrow> (\<forall>i\<in>live_slots t. st_id (tb_streams t ! i) \<noteq> x)"
proof (cases rule: table_slot_cases [OF assms, of x])
  case 1
  then show ?thesis by (simp add: wt_quic_stream_table_find_def)
next
  case (2 i)
  from 2(1-4) show ?thesis by (auto simp: wt_quic_stream_table_find_def)
qed

lemma table_inv_init: "table_inv wt_quic_stream_table_init"
proof -
  have "live_slots wt_quic_stream_table_init = {}"
    by (auto simp: live_slots_def wt_quic_stream_table_init_def)
  then show ?thesis by (simp add: table_inv_def wt_quic_stream_table_init_def)
qed

lemma table_slot_init [simp]:
  "table_slot wt_quic_stream_table_init x = WT_QUIC_STREAM_TABLE_MAX"
  "slot_from (\<lambda>i. \<not> tb_used wt_quic_stream_table_init ! i) 0 = 0"
proof -
  have "live_slots wt_quic_stream_table_init = {}"
    by (auto simp: live_slots_def wt_quic_stream_table_init_def)
  then have "wt_quic_stream_table_find wt_quic_stream_table_init x = None"
    by (simp add: table_find_None [OF table_inv_init])
  then show "table_slot wt_quic_stream_table_init x = WT_QUIC_STREAM_TABLE_MAX"
    by (simp add: wt_quic_stream_table_find_def Let_def split: if_splits)
  show "slot_from (\<lambda>i. \<not> tb_used wt_quic_stream_table_init ! i) 0 = 0"
    by (simp add: slot_from.simps [of _ 0] WT_QUIC_STREAM_TABLE_MAX_def wt_quic_stream_table_init_def)
qed

lemma table_open_init:
  "0 < limit \<Longrightarrow> \<exists>t'. wt_quic_stream_table_open wt_quic_stream_table_init x us limit = (WT_OK, t')"
  by (simp add: wt_quic_stream_table_open_def Let_def opened_count_def not_le)
    (simp add: wt_quic_stream_table_init_def WT_QUIC_STREAM_TABLE_MAX_def not_le)

lemma live_slots_finite [simp]: "finite (live_slots t)"
  by (simp add: live_slots_def)

lemma live_slots_less: "i \<in> live_slots t \<Longrightarrow> i < WT_QUIC_STREAM_TABLE_MAX"
  by (simp add: live_slots_def)

text \<open>Freeing one live slot.\<close>

definition free_slot :: "nat \<Rightarrow> wt_quic_stream_table \<Rightarrow> wt_quic_stream_table" where
  "free_slot i t = t\<lparr>tb_used := (tb_used t)[i := False], tb_count := tb_count t - 1\<rparr>"

lemma free_slot_live:
  assumes "table_inv t" "i < WT_QUIC_STREAM_TABLE_MAX"
  shows "live_slots (free_slot i t) = live_slots t - {i}"
  using assms by (auto simp: live_slots_def free_slot_def table_inv_def nth_list_update)

lemma free_slot_inv:
  assumes "table_inv t" "i \<in> live_slots t"
  shows "table_inv (free_slot i t)"
proof -
  note live = free_slot_live [OF assms(1) live_slots_less [OF assms(2)]]
  have "tb_count (free_slot i t) = card (live_slots (free_slot i t))"
    using assms unfolding live by (simp add: free_slot_def table_inv_def)
  moreover have "inj_on (\<lambda>j. st_id (tb_streams t ! j)) (live_slots t - {i})"
    using assms(1) by (auto simp: table_inv_def intro: inj_on_diff)
  ultimately show ?thesis
    using assms(1) live by (simp add: table_inv_def) (simp add: free_slot_def)
qed

lemma opened_count_free [simp]: "opened_count (free_slot n t) a b = opened_count t a b"
  by (simp add: free_slot_def opened_count_def)

text \<open>Using a slot that is not live.\<close>

definition use_slot :: "nat \<Rightarrow> wt_quic_stream \<Rightarrow> wt_quic_stream_table \<Rightarrow> wt_quic_stream_table" where
  "use_slot i s t = t\<lparr>tb_streams := (tb_streams t)[i := s], tb_used := (tb_used t)[i := True],
     tb_count := tb_count t + 1\<rparr>"

lemma use_slot_live:
  assumes "table_inv t" "i < WT_QUIC_STREAM_TABLE_MAX"
  shows "live_slots (use_slot i s t) = insert i (live_slots t)"
  using assms by (auto simp: live_slots_def use_slot_def table_inv_def nth_list_update)

lemma use_slot_streams:
  assumes "table_inv t" "i < WT_QUIC_STREAM_TABLE_MAX"
  shows "tb_streams (use_slot i s t) ! j = (if j = i then s else tb_streams t ! j)"
  using assms by (simp add: use_slot_def table_inv_def nth_list_update)

lemma use_slot_inv:
  assumes "table_inv t" "i < WT_QUIC_STREAM_TABLE_MAX" "i \<notin> live_slots t"
    "\<forall>j\<in>live_slots t. st_id (tb_streams t ! j) \<noteq> st_id s"
  shows "table_inv (use_slot i s t)"
proof -
  have "inj_on (\<lambda>j. st_id (tb_streams (use_slot i s t) ! j)) (insert i (live_slots t))"
    using assms unfolding use_slot_streams [OF assms(1,2)] by (auto simp: inj_on_def table_inv_def)
  moreover have "tb_count (use_slot i s t) = card (insert i (live_slots t))"
    using assms by (simp add: use_slot_def table_inv_def)
  ultimately show ?thesis
    using assms(1) use_slot_live [OF assms(1,2)] by (simp add: table_inv_def) (simp add: use_slot_def)
qed

text \<open>The sweep frees exactly the slots of the complete streams.\<close>

definition complete_slots :: "wt_quic_stream_table \<Rightarrow> nat set" where
  "complete_slots t = {i\<in>live_slots t. wt_quic_stream_complete (tb_streams t ! i)}"

lemma reclaim_steps:
  assumes "table_inv t" "n \<le> WT_QUIC_STREAM_TABLE_MAX"
  shows "\<exists>t' slot. fold reclaim_slot [0..<n] (t, WT_QUIC_STREAM_TABLE_MAX) = (t', slot) \<and> table_inv t' \<and>
    tb_streams t' = tb_streams t \<and> live_slots t' = live_slots t - {i\<in>complete_slots t. i < n} \<and>
    (\<forall>a b. opened_count t' a b = opened_count t a b) \<and>
    (slot = WT_QUIC_STREAM_TABLE_MAX \<and> {i\<in>complete_slots t. i < n} = {} \<and> t' = t \<or> slot \<in> {i\<in>complete_slots t. i < n})"
  using assms(2)
proof (induction n)
  case 0
  then show ?case using assms(1) by simp
next
  case (Suc n)
  then obtain t' slot where IH: "fold reclaim_slot [0..<n] (t, WT_QUIC_STREAM_TABLE_MAX) = (t', slot)" "table_inv t'"
    "tb_streams t' = tb_streams t" "live_slots t' = live_slots t - {i\<in>complete_slots t. i < n}"
    "\<forall>a b. opened_count t' a b = opened_count t a b"
    "slot = WT_QUIC_STREAM_TABLE_MAX \<and> {i\<in>complete_slots t. i < n} = {} \<and> t' = t \<or> slot \<in> {i\<in>complete_slots t. i < n}"
    by auto
  have n: "n < WT_QUIC_STREAM_TABLE_MAX" using Suc.prems by simp
  have used: "tb_used t' ! n \<longleftrightarrow> n \<in> live_slots t"
    using IH(4) n by (auto simp: live_slots_def)
  show ?case
  proof (cases "n \<in> complete_slots t")
    case True
    then have step: "reclaim_slot n (t', slot) =
        (free_slot n t', if slot = WT_QUIC_STREAM_TABLE_MAX then n else slot)"
      using used IH(3) by (simp add: reclaim_slot_def complete_slots_def free_slot_def)
    have set: "{i\<in>complete_slots t. i < Suc n} = insert n {i\<in>complete_slots t. i < n}"
      using True by (auto simp: less_Suc_eq)
    have live: "n \<in> live_slots t'" using True IH(4) by (simp add: complete_slots_def)
    have "\<forall>a b. opened_count (free_slot n t') a b = opened_count t a b"
      using IH(5) by simp
    with IH step free_slot_inv [OF IH(2) live] free_slot_live [OF IH(2) n] n show ?thesis
      unfolding set by (auto simp: free_slot_def)
  next
    case False
    then have "reclaim_slot n (t', slot) = (t', slot)"
      using used IH(3) by (auto simp: reclaim_slot_def complete_slots_def)
    moreover have "{i\<in>complete_slots t. i < Suc n} = {i\<in>complete_slots t. i < n}"
      using False by (auto simp: less_Suc_eq)
    ultimately show ?thesis using IH by auto
  qed
qed

lemma reclaim_spec:
  assumes "table_inv t" "reclaim t = (t', slot)"
  shows "table_inv t'" "tb_streams t' = tb_streams t" "live_slots t' = live_slots t - complete_slots t"
    "opened_count t' a b = opened_count t a b"
    "slot = WT_QUIC_STREAM_TABLE_MAX \<and> t' = t \<or> slot < WT_QUIC_STREAM_TABLE_MAX \<and> slot \<notin> live_slots t'"
proof -
  have "{i\<in>complete_slots t. i < WT_QUIC_STREAM_TABLE_MAX} = complete_slots t"
    by (auto simp: complete_slots_def live_slots_def)
  with reclaim_steps [OF assms(1) order_refl] assms(2)
  show "table_inv t'" "tb_streams t' = tb_streams t" "live_slots t' = live_slots t - complete_slots t"
    "opened_count t' a b = opened_count t a b"
    "slot = WT_QUIC_STREAM_TABLE_MAX \<and> t' = t \<or> slot < WT_QUIC_STREAM_TABLE_MAX \<and> slot \<notin> live_slots t'"
    by (auto simp: reclaim_def complete_slots_def live_slots_def)
qed

subsection \<open>Opening and closing\<close>

text \<open>
  The effect of a successful open: a fresh stream in a slot of \<open>t1\<close>, which is the table itself or the
  table after the sweep, with the counter of its class advanced.
\<close>

lemma table_open_cases:
  assumes "table_inv t" "wt_quic_stream_table_open t x us limit = (e, t')"
  obtains (refused) "e \<noteq> WT_OK" "t' = t"
  | (opened) t1 slot where "e = WT_OK" "table_inv t1" "tb_streams t1 = tb_streams t"
      "live_slots t - complete_slots t \<subseteq> live_slots t1" "live_slots t1 \<subseteq> live_slots t"
      "\<forall>i\<in>live_slots t. st_id (tb_streams t ! i) \<noteq> x"
      "slot < WT_QUIC_STREAM_TABLE_MAX" "slot \<notin> live_slots t1"
      "opened_count t us (wt_quic_stream_id_is_bidirectional x) < limit"
      "\<And>a b. opened_count t1 a b = opened_count t a b"
      "t' = count_opened us (wt_quic_stream_id_is_bidirectional x)
              (use_slot slot (wt_quic_stream_init x us (wt_quic_stream_id_is_bidirectional x) 0 0) t1)"
proof -
  define bidi where "bidi = wt_quic_stream_id_is_bidirectional x"
  define free where "free = slot_from (\<lambda>i. \<not> tb_used t ! i) 0"
  obtain t1 slot where ts: "(if free = WT_QUIC_STREAM_TABLE_MAX then reclaim t else (t, free)) = (t1, slot)"
    by fastforce
  have free: "free = WT_QUIC_STREAM_TABLE_MAX \<or> free < WT_QUIC_STREAM_TABLE_MAX \<and> free \<notin> live_slots t"
    using slot_from_spec [of 0 "\<lambda>i. \<not> tb_used t ! i"] by (auto simp: free_def live_slots_def)
  have t1: "table_inv t1 \<and> tb_streams t1 = tb_streams t \<and> (\<forall>a b. opened_count t1 a b = opened_count t a b) \<and>
    live_slots t - complete_slots t \<subseteq> live_slots t1 \<and> live_slots t1 \<subseteq> live_slots t \<and>
    (slot = WT_QUIC_STREAM_TABLE_MAX \<and> t1 = t \<or> slot < WT_QUIC_STREAM_TABLE_MAX \<and> slot \<notin> live_slots t1)"
  proof (cases "free = WT_QUIC_STREAM_TABLE_MAX")
    case True
    with ts have r: "reclaim t = (t1, slot)" by simp
    show ?thesis using reclaim_spec [OF assms(1) r] by blast
  next
    case False
    with ts have "t1 = t" "slot = free" by simp_all
    with free False assms(1) show ?thesis by simp
  qed
  have open_eq: "(e, t') = (if table_slot t x \<noteq> WT_QUIC_STREAM_TABLE_MAX then (WT_ERR_STATE, t)
      else if opened_count t us bidi \<ge> limit then (WT_ERR_LIMIT, t)
      else if slot = WT_QUIC_STREAM_TABLE_MAX then (WT_ERR_LIMIT, t1)
      else (WT_OK, count_opened us bidi (use_slot slot (wt_quic_stream_init x us bidi 0 0) t1)))"
    unfolding assms(2) [symmetric] wt_quic_stream_table_open_def Let_def bidi_def [symmetric]
      free_def [symmetric] ts
    by (simp add: use_slot_def count_opened_def)
  show thesis
  proof (cases "table_slot t x = WT_QUIC_STREAM_TABLE_MAX \<and> opened_count t us bidi < limit \<and>
      slot \<noteq> WT_QUIC_STREAM_TABLE_MAX")
    case True
    then have "wt_quic_stream_table_find t x = None" by (simp add: wt_quic_stream_table_find_def)
    then have "\<forall>i\<in>live_slots t. st_id (tb_streams t ! i) \<noteq> x"
      by (simp add: table_find_None [OF assms(1)])
    moreover have "\<not> limit \<le> opened_count t us bidi" using True by (simp add: not_le)
    with True have "e = WT_OK"
      "t' = count_opened us bidi (use_slot slot (wt_quic_stream_init x us bidi 0 0) t1)"
      using open_eq by simp_all
    ultimately show thesis
      using True t1 by (intro opened [of t1 slot]) (simp_all add: bidi_def)
  next
    case False
    then have "e \<noteq> WT_OK \<and> t' = t"
      using t1 open_eq by (simp add: not_less split: if_splits)
    then show thesis by (intro refused) simp_all
  qed
qed

lemma count_opened_frame [simp]:
  "tb_streams (count_opened a b t) = tb_streams t" "tb_used (count_opened a b t) = tb_used t"
  "tb_count (count_opened a b t) = tb_count t" "live_slots (count_opened a b t) = live_slots t"
  "table_inv (count_opened a b t) = table_inv t"
  by (simp_all add: count_opened_def live_slots_def table_inv_def)

lemma opened_count_opened:
  "opened_count (count_opened a b t) c d = (if c = a \<and> d = b then opened_count t c d + 1 else opened_count t c d)"
  by (auto simp: count_opened_def opened_count_def)

lemma opened_count_use [simp]: "opened_count (use_slot i s t) a b = opened_count t a b"
  by (simp add: use_slot_def opened_count_def)

lemma table_open_inv:
  assumes "table_inv t"
  shows "table_inv (snd (wt_quic_stream_table_open t x us limit))"
proof -
  obtain e t' where o: "wt_quic_stream_table_open t x us limit = (e, t')" by fastforce
  from assms o show ?thesis
  proof (cases rule: table_open_cases)
    case (opened t1 slot)
    have "\<forall>j\<in>live_slots t1. st_id (tb_streams t1 ! j) \<noteq> x" using opened(3,5,6) by auto
    with use_slot_inv [OF opened(2,7,8)] o opened(11) show ?thesis
      by (simp add: wt_quic_stream_init_def)
  qed (use assms o in simp)
qed

lemma table_open_find:
  assumes "table_inv t" "wt_quic_stream_table_open t x us limit = (WT_OK, t')"
  shows "wt_quic_stream_table_find t x = None"
    "wt_quic_stream_table_find t' x = Some (wt_quic_stream_init x us (wt_quic_stream_id_is_bidirectional x) 0 0)"
    "y \<noteq> x \<Longrightarrow> wt_quic_stream_table_find t' y = Some s \<Longrightarrow> wt_quic_stream_table_find t y = Some s"
    "wt_quic_stream_table_find t y = Some s \<Longrightarrow> \<not> wt_quic_stream_complete s \<Longrightarrow>
      wt_quic_stream_table_find t' y = Some s"
    "opened_count t' a b = opened_count t a b +
      (if a = us \<and> b = wt_quic_stream_id_is_bidirectional x then 1 else 0)"
    "opened_count t us (wt_quic_stream_id_is_bidirectional x) < limit"
proof -
  let ?s = "wt_quic_stream_init x us (wt_quic_stream_id_is_bidirectional x) 0 0"
  have inv': "table_inv t'" using table_open_inv [OF assms(1)] assms(2) by (metis snd_conv)
  obtain t1 slot where o: "table_inv t1" "tb_streams t1 = tb_streams t"
    "live_slots t - complete_slots t \<subseteq> live_slots t1" "live_slots t1 \<subseteq> live_slots t"
    "\<forall>i\<in>live_slots t. st_id (tb_streams t ! i) \<noteq> x" "slot < WT_QUIC_STREAM_TABLE_MAX" "slot \<notin> live_slots t1"
    "opened_count t us (wt_quic_stream_id_is_bidirectional x) < limit"
    "\<And>a b. opened_count t1 a b = opened_count t a b"
    "t' = count_opened us (wt_quic_stream_id_is_bidirectional x) (use_slot slot ?s t1)"
    using assms by (cases rule: table_open_cases) auto
  have live: "live_slots t' = insert slot (live_slots t1)"
    and str: "tb_streams t' ! j = (if j = slot then ?s else tb_streams t ! j)" for j
    using use_slot_live [OF o(1,6)] use_slot_streams [OF o(1,6)] o(2,10) by simp_all
  have id: "st_id ?s = x" by (simp add: wt_quic_stream_init_def)
  show "wt_quic_stream_table_find t x = None" using o(5) table_find_None [OF assms(1)] by simp
  show "wt_quic_stream_table_find t' x = Some ?s"
    unfolding table_find_iff [OF inv'] live str by (auto simp: id)
  show "wt_quic_stream_table_find t y = Some s" if "y \<noteq> x" "wt_quic_stream_table_find t' y = Some s"
    using that o(4) unfolding table_find_iff [OF inv'] table_find_iff [OF assms(1)] live str
    by (auto simp: id split: if_splits)
  show "wt_quic_stream_table_find t' y = Some s"
    if "wt_quic_stream_table_find t y = Some s" "\<not> wt_quic_stream_complete s"
  proof -
    from that(1) obtain i where i: "i \<in> live_slots t" "st_id (tb_streams t ! i) = y" "tb_streams t ! i = s"
      unfolding table_find_iff [OF assms(1)] by auto
    with that(2) o(3,7) have "i \<in> live_slots t1" by (auto simp: complete_slots_def)
    with o(7) i show ?thesis unfolding table_find_iff [OF inv'] live str by auto
  qed
  show "opened_count t' a b = opened_count t a b +
      (if a = us \<and> b = wt_quic_stream_id_is_bidirectional x then 1 else 0)"
    by (simp add: o(9,10) opened_count_opened)
  show "opened_count t us (wt_quic_stream_id_is_bidirectional x) < limit" by (rule o(8))
qed

lemma table_open_refused:
  assumes "table_inv t" "wt_quic_stream_table_open t x us limit = (e, t')" "e \<noteq> WT_OK"
  shows "t' = t"
  using assms(1,2) by (cases rule: table_open_cases) (use assms(3) in auto)

lemma table_close_cases:
  assumes "table_inv t" "wt_quic_stream_table_close t x = (e, t')"
  obtains (refused) "e \<noteq> WT_OK" "t' = t"
  | (closed) i where "e = WT_OK" "t' = free_slot i t" "i \<in> live_slots t" "st_id (tb_streams t ! i) = x"
      "wt_quic_stream_complete (tb_streams t ! i)"
proof (cases rule: table_slot_cases [OF assms(1), of x])
  case 1
  with assms(2) show thesis by (intro refused) (auto simp: wt_quic_stream_table_close_def)
next
  case (2 i)
  have "(e, t') = (if wt_quic_stream_complete (tb_streams t ! i) then (WT_OK, free_slot i t) else (WT_ERR_STATE, t))"
    using assms(2) 2(1,3) by (simp add: wt_quic_stream_table_close_def free_slot_def split: if_splits)
  with closed [of i] refused 2(2,4) show thesis by (auto split: if_splits)
qed

lemma table_close_inv:
  assumes "table_inv t"
  shows "table_inv (snd (wt_quic_stream_table_close t x))"
proof -
  obtain e t' where c: "wt_quic_stream_table_close t x = (e, t')" by fastforce
  from assms c show ?thesis
    by (cases rule: table_close_cases) (use assms c free_slot_inv [OF assms] in auto)
qed

lemma table_close_refused:
  assumes "table_inv t" "wt_quic_stream_table_close t x = (e, t')" "e \<noteq> WT_OK"
  shows "t' = t"
  using assms(1,2) by (cases rule: table_close_cases) (use assms(3) in auto)

lemma table_close_find:
  assumes "table_inv t" "wt_quic_stream_table_close t x = (WT_OK, t')"
  shows "wt_quic_stream_table_find t' x = None" "y \<noteq> x \<Longrightarrow> wt_quic_stream_table_find t' y = wt_quic_stream_table_find t y"
    "\<exists>s. wt_quic_stream_table_find t x = Some s \<and> wt_quic_stream_complete s"
    "opened_count t' a b = opened_count t a b"
proof -
  obtain i where c: "t' = free_slot i t" "i \<in> live_slots t" "st_id (tb_streams t ! i) = x"
    "wt_quic_stream_complete (tb_streams t ! i)"
    using assms by (cases rule: table_close_cases) auto
  have inv': "table_inv t'" and live: "live_slots t' = live_slots t - {i}" and str: "tb_streams t' = tb_streams t"
    using free_slot_inv [OF assms(1) c(2)] free_slot_live [OF assms(1) live_slots_less [OF c(2)]] c(1)
    by (simp_all add: free_slot_def)
  have inj: "j = i" if "j \<in> live_slots t" "st_id (tb_streams t ! j) = x" for j
    using assms(1) c(2,3) that by (auto simp: table_inv_def inj_on_def)
  show "wt_quic_stream_table_find t' x = None"
    unfolding table_find_None [OF inv'] live str using inj by auto
  show "wt_quic_stream_table_find t' y = wt_quic_stream_table_find t y" if "y \<noteq> x"
  proof (cases "wt_quic_stream_table_find t y")
    case None
    then have "\<forall>j\<in>live_slots t'. st_id (tb_streams t' ! j) \<noteq> y"
      by (simp add: table_find_None [OF assms(1)] live str)
    with None show ?thesis by (simp add: table_find_None [OF inv', symmetric])
  next
    case (Some s)
    then obtain j where "j \<in> live_slots t" "st_id (tb_streams t ! j) = y" "tb_streams t ! j = s"
      unfolding table_find_iff [OF assms(1)] by auto
    with that c(3) show ?thesis
      unfolding Some table_find_iff [OF inv'] live str by auto
  qed
  show "\<exists>s. wt_quic_stream_table_find t x = Some s \<and> wt_quic_stream_complete s"
    using c table_find_iff [OF assms(1)] by auto
  show "opened_count t' a b = opened_count t a b" by (simp add: c(1))
qed

subsection \<open>What a connection relies on\<close>

datatype table_op = Open u64 bool u64 | Close u64

locale stream_registry =
  fixes inv :: "'t \<Rightarrow> bool"
    and lookup :: "'t \<Rightarrow> u64 \<Rightarrow> wt_quic_stream option"
    and opn :: "'t \<Rightarrow> u64 \<Rightarrow> bool \<Rightarrow> u64 \<Rightarrow> wt_status \<times> 't"
    and cls :: "'t \<Rightarrow> u64 \<Rightarrow> wt_status \<times> 't"
    and counter :: "'t \<Rightarrow> bool \<Rightarrow> bool \<Rightarrow> u64"
  assumes opn_inv: "inv t \<Longrightarrow> inv (snd (opn t x us l))"
    and opn_refused: "inv t \<Longrightarrow> opn t x us l = (e, t') \<Longrightarrow> e \<noteq> WT_OK \<Longrightarrow> t' = t"
    and opn_keeps: "inv t \<Longrightarrow> opn t x us l = (WT_OK, t') \<Longrightarrow> lookup t y = Some s \<Longrightarrow>
      \<not> wt_quic_stream_complete s \<Longrightarrow> lookup t' y = Some s"
    and opn_counter: "inv t \<Longrightarrow> opn t x us l = (WT_OK, t') \<Longrightarrow> counter t' a b = counter t a b +
      (if a = us \<and> b = wt_quic_stream_id_is_bidirectional x then 1 else 0)"
    and opn_limit: "inv t \<Longrightarrow> opn t x us l = (WT_OK, t') \<Longrightarrow>
      counter t us (wt_quic_stream_id_is_bidirectional x) < l"
    and cls_inv: "inv t \<Longrightarrow> inv (snd (cls t x))"
    and cls_refused: "inv t \<Longrightarrow> cls t x = (e, t') \<Longrightarrow> e \<noteq> WT_OK \<Longrightarrow> t' = t"
    and cls_keeps: "inv t \<Longrightarrow> cls t x = (WT_OK, t') \<Longrightarrow> lookup t y = Some s \<Longrightarrow>
      \<not> wt_quic_stream_complete s \<Longrightarrow> lookup t' y = Some s"
    and cls_counter: "inv t \<Longrightarrow> cls t x = (WT_OK, t') \<Longrightarrow> counter t' a b = counter t a b"
begin

fun step :: "table_op \<Rightarrow> 't \<Rightarrow> 't" where
  "step (Open x us l) t = snd (opn t x us l)"
| "step (Close x) t = snd (cls t x)"

lemma step_inv: "inv t \<Longrightarrow> inv (step op t)"
  by (cases op) (simp_all add: opn_inv cls_inv)

lemma step_keeps:
  assumes "inv t" "lookup t y = Some s" "\<not> wt_quic_stream_complete s"
  shows "lookup (step op t) y = Some s"
proof (cases op)
  case (Open x us l)
  obtain e t' where "opn t x us l = (e, t')" by fastforce
  with assms opn_keeps [of t x us l t' y s] opn_refused [of t x us l e t'] Open show ?thesis
    by (cases "e = WT_OK") auto
next
  case (Close x)
  obtain e t' where "cls t x = (e, t')" by fastforce
  with assms cls_keeps [of t x t' y s] cls_refused [of t x e t'] Close show ?thesis
    by (cases "e = WT_OK") auto
qed

lemma run_keeps:
  assumes "inv t" "lookup t y = Some s" "\<not> wt_quic_stream_complete s"
  shows "inv (fold step ops t) \<and> lookup (fold step ops t) y = Some s"
  using assms by (induction ops arbitrary: t) (simp_all add: step_inv step_keeps)

text \<open>A counter moves by one or not at all, and only below the limit of the call.\<close>

lemma step_counter:
  assumes "inv t" "\<forall>x us l. op = Open x us l \<longrightarrow> unat l \<le> 2 ^ 60"
  shows "unat (counter (step op t) a b) = unat (counter t a b) \<or>
    unat (counter (step op t) a b) = unat (counter t a b) + 1 \<and> unat (counter (step op t) a b) \<le> 2 ^ 60"
proof (cases op)
  case (Open x us l)
  obtain e t' where o: "opn t x us l = (e, t')" by fastforce
  show ?thesis
  proof (cases "e = WT_OK \<and> a = us \<and> b = wt_quic_stream_id_is_bidirectional x")
    case True
    with o opn_counter [OF assms(1), of x us l t' a b] opn_limit [OF assms(1), of x us l t']
    have c: "counter t' a b = counter t a b + 1" "counter t a b < l" by auto
    moreover have "unat l \<le> 2 ^ 60" using assms(2) Open by simp
    ultimately have "unat (counter t a b) + 1 \<le> 2 ^ 60" by (simp add: word_less_nat_alt)
    then show ?thesis using c(1) Open o unat_add_no_wrap [of "counter t a b" 1] by simp
  next
    case False
    with o opn_counter [OF assms(1), of x us l t' a b] opn_refused [OF assms(1) o] Open show ?thesis
      by (cases "e = WT_OK") auto
  qed
next
  case (Close x)
  obtain e t' where "cls t x = (e, t')" by fastforce
  with cls_counter [OF assms(1), of x t' a b] cls_refused [OF assms(1), of x e t'] Close show ?thesis
    by (cases "e = WT_OK") auto
qed

lemma run_counter:
  assumes "inv t" "\<forall>x us l. Open x us l \<in> set ops \<longrightarrow> unat l \<le> 2 ^ 60"
  shows "unat (counter t a b) \<le> unat (counter (fold step ops t) a b) \<and>
    unat (counter (fold step ops t) a b) \<le> max (unat (counter t a b)) (2 ^ 60)"
  using assms
proof (induction ops arbitrary: t)
  case (Cons op ops)
  from Cons.prems have 1: "unat (counter t a b) \<le> unat (counter (step op t) a b)"
    "unat (counter (step op t) a b) \<le> max (unat (counter t a b)) (2 ^ 60)"
    using step_counter [of t op a b] by auto
  have "unat (counter (step op t) a b) \<le> unat (counter (fold step ops (step op t)) a b) \<and>
    unat (counter (fold step ops (step op t)) a b) \<le> max (unat (counter (step op t) a b)) (2 ^ 60)"
    using Cons.prems by (intro Cons.IH step_inv) auto
  with 1 show ?case by auto
qed simp

end

interpretation stream_table: stream_registry table_inv wt_quic_stream_table_find wt_quic_stream_table_open
  wt_quic_stream_table_close opened_count
proof (unfold_locales, goal_cases)
  case 1 then show ?case by (rule table_open_inv)
next
  case 2 then show ?case by (rule table_open_refused)
next
  case 3 then show ?case by (rule table_open_find(4))
next
  case 4 then show ?case by (rule table_open_find(5))
next
  case 5 then show ?case by (rule table_open_find(6))
next
  case 6 then show ?case by (rule table_close_inv)
next
  case 7 then show ?case by (rule table_close_refused)
next
  case (8 t x t' y s)
  then show ?case using table_close_find [of t x t'] by (cases "y = x") auto
next
  case 9 then show ?case by (rule table_close_find(4))
qed

subsection \<open>Properties of the table\<close>

text \<open>The run of a sequence of calls over the table's own functions.\<close>

fun table_step :: "table_op \<Rightarrow> wt_quic_stream_table \<Rightarrow> wt_quic_stream_table" where
  "table_step (Open x us l) t = snd (wt_quic_stream_table_open t x us l)"
| "table_step (Close x) t = snd (wt_quic_stream_table_close t x)"

lemma table_step_eq: "stream_table.step = table_step"
proof (intro ext)
  fix op t show "stream_table.step op t = table_step op t" by (cases op) simp_all
qed

text \<open>Opening a stream. From a well-formed table a call either is refused and changes nothing, or
  succeeds below the opener's limit: then the number was not in use, it now finds a stream in its
  initial state, the counter of its class is one higher and no other counter moved, and every stream
  that was found and is not complete is still found unchanged; streams are lost only if complete, and
  none appears besides the new one.\<close>

lemma wt_quic_stream_table_open_correct:
  assumes "table_inv t" "wt_quic_stream_table_open t x us limit = (e, t')"
  shows "table_inv t' \<and>
    (if e = WT_OK
     then wt_quic_stream_table_find t x = None \<and>
       wt_quic_stream_table_find t' x = Some (wt_quic_stream_init x us (wt_quic_stream_id_is_bidirectional x) 0 0) \<and>
       (\<forall>y s. wt_quic_stream_table_find t y = Some s \<and> \<not> wt_quic_stream_complete s \<longrightarrow>
          wt_quic_stream_table_find t' y = Some s) \<and>
       (\<forall>y s. y \<noteq> x \<and> wt_quic_stream_table_find t' y = Some s \<longrightarrow> wt_quic_stream_table_find t y = Some s) \<and>
       (\<forall>a b. opened_count t' a b = opened_count t a b +
          (if a = us \<and> b = wt_quic_stream_id_is_bidirectional x then 1 else 0)) \<and>
       opened_count t us (wt_quic_stream_id_is_bidirectional x) < limit
     else t' = t)"
proof -
  have "table_inv t'" using table_open_inv [OF assms(1), of x us limit] assms(2) by simp
  with table_open_find [OF assms(1), of x us limit t'] table_open_refused [OF assms] assms(2) show ?thesis
    by auto
qed

text \<open>C6: No live stream is ever forgotten. A stream that is found and not complete is found unchanged
  after any sequence of opens, which sweep a full table, and closes.\<close>

theorem wt_quic_stream_table_keeps_live:
  assumes "table_inv t" "wt_quic_stream_table_find t y = Some s" "\<not> wt_quic_stream_complete s"
  shows "wt_quic_stream_table_find (fold table_step ops t) y = Some s"
  using stream_table.run_keeps [OF assms, of ops] by (simp add: table_step_eq)

theorem wt_quic_stream_table_keeps_live_witness:
  "wt_quic_stream_table_find (fold table_step [Close 5, Open 9 False 10, Close 5]
     (use_slot 0 (wt_quic_stream_init 5 False True 0 0) wt_quic_stream_table_init)) 5 =
   Some (wt_quic_stream_init 5 False True 0 0)"
proof -
  let ?s = "wt_quic_stream_init 5 False True 0 0"
  let ?t = "use_slot 0 ?s wt_quic_stream_table_init"
  have 0: "0 < WT_QUIC_STREAM_TABLE_MAX" "0 \<notin> live_slots wt_quic_stream_table_init"
    "\<forall>j\<in>live_slots wt_quic_stream_table_init. st_id (tb_streams wt_quic_stream_table_init ! j) \<noteq> st_id ?s"
    by (auto simp: live_slots_def wt_quic_stream_table_init_def WT_QUIC_STREAM_TABLE_MAX_def)
  have inv: "table_inv ?t" by (rule use_slot_inv [OF table_inv_init 0])
  have f: "wt_quic_stream_table_find ?t 5 = Some ?s"
    unfolding table_find_iff [OF inv] use_slot_live [OF table_inv_init 0(1)] use_slot_streams [OF table_inv_init 0(1)]
    by (simp add: wt_quic_stream_init_def)
  have "\<not> wt_quic_stream_complete ?s"
    by (simp add: wt_quic_stream_complete_def wt_quic_stream_send_finished_def wt_quic_stream_init_def)
  from wt_quic_stream_table_keeps_live [OF inv f this] show ?thesis by blast
qed

text \<open>C7: Stream numbers are never reused. Let an endpoint open a stream under the number built from its
  class and the counter of that class, with limits of at most \<open>2^60\<close>. After any further sequence of calls the number built the same way
  from the counter is a different one, however many slots were reclaimed.\<close>

theorem wt_quic_stream_table_no_reuse:
  assumes "table_inv t" "x = wt_quic_stream_id_make c b (opened_count t us b)"
    "wt_quic_stream_table_open t x us limit = (WT_OK, t')" "unat limit \<le> 2 ^ 60"
    "\<forall>y u l. Open y u l \<in> set ops \<longrightarrow> unat l \<le> 2 ^ 60"
  shows "unat (opened_count (fold table_step ops t') us b) > unat (opened_count t us b) \<and>
    wt_quic_stream_id_make c b (opened_count (fold table_step ops t') us b) \<noteq> x"
proof -
  let ?n = "opened_count t us b" and ?m = "opened_count (fold table_step ops t') us b"
  have b: "wt_quic_stream_id_is_bidirectional x = b"
    by (simp add: assms(2) stream_id_flags stream_id_bits)
  have lim: "unat ?n < 2 ^ 60"
    using table_open_find(6) [OF assms(1,3)] assms(4) b by (simp add: word_less_nat_alt)
  have "unat (opened_count t' us b) = unat ?n + 1"
    using table_open_find(5) [OF assms(1,3), of us b] b unat_add_no_wrap [of ?n 1] lim by simp
  moreover have inv': "table_inv t'" using table_open_inv [OF assms(1), of x us limit] assms(3) by simp
  then have "unat (opened_count t' us b) \<le> unat ?m" "unat ?m \<le> max (unat (opened_count t' us b)) (2 ^ 60)"
    using stream_table.run_counter [OF inv' assms(5), of us b] by (simp_all add: table_step_eq)
  ultimately have less: "unat ?n < unat ?m" "unat ?m \<le> 2 ^ 60" using lim by auto
  have "wt_quic_stream_id_make c b ?m \<noteq> wt_quic_stream_id_make c b ?n"
  proof
    assume eq: "wt_quic_stream_id_make c b ?m = wt_quic_stream_id_make c b ?n"
    have "?m = ?n" using stream_id_make_inj [OF eq] less lim by simp
    with less show False by simp
  qed
  with less show ?thesis by (simp add: assms(2))
qed

theorem wt_quic_stream_table_no_reuse_witness:
  "\<exists>t'. wt_quic_stream_table_open wt_quic_stream_table_init
        (wt_quic_stream_id_make True True (opened_count wt_quic_stream_table_init True True)) True 10 = (WT_OK, t') \<and>
     wt_quic_stream_id_make True True (opened_count (fold table_step [Open 4 True 10, Close 0] t') True True) \<noteq>
       wt_quic_stream_id_make True True 0"
proof -
  have z: "opened_count wt_quic_stream_table_init True True = 0"
    by (simp add: opened_count_def wt_quic_stream_table_init_def)
  let ?x = "wt_quic_stream_id_make True True (opened_count wt_quic_stream_table_init True True)"
  obtain t' where o: "wt_quic_stream_table_open wt_quic_stream_table_init ?x True 10 = (WT_OK, t')"
    using table_open_init [of 10 ?x True] by auto
  from wt_quic_stream_table_no_reuse [OF table_inv_init refl o, of "[Open 4 True 10, Close 0]"] o z
  show ?thesis by auto
qed

end
