(* ===== verification/Crypto_Stream.thy ===== *)
theory Crypto_Stream
  imports Wire_Core
begin

text \<open>
  The CRYPTO stream (\<open>C99/src/quic/crypto_stream.c\<close>): a bounded reassembly window with an arrival
  bitmap on the receive side, and the buffer of produced handshake bytes on the send side.
  Positions inside the two fixed buffers are naturals (they are below 4096); stream offsets are
  64-bit words. The receive half is refined to a partial map from stream offsets to bytes.
\<close>

definition WT_QUIC_CRYPTO_BUFFER_MAX :: nat where
  "WT_QUIC_CRYPTO_BUFFER_MAX = 4096"

definition WT_QUIC_CRYPTO_BUFFER_WORDS :: nat where
  "WT_QUIC_CRYPTO_BUFFER_WORDS = WT_QUIC_CRYPTO_BUFFER_MAX div 8"

definition WT_QUIC_CRYPTO_MAX_OFFSET :: u64 where
  "WT_QUIC_CRYPTO_MAX_OFFSET = push_bit 62 1 - 1"

record wt_quic_crypto_recv =
  cr_read_offset :: u64
  cr_length :: nat
  cr_has_received :: bool
  cr_data :: "u8 list"
  cr_arrived :: "u8 list"

record wt_quic_crypto_send =
  cs_next_offset :: u64
  cs_base_offset :: u64
  cs_length :: nat
  cs_data :: "u8 list"

subsection \<open>The receive half\<close>

definition arrived_bit :: "nat \<Rightarrow> u8" where
  "arrived_bit index = push_bit (index mod 8) 1"

definition byte_arrived :: "wt_quic_crypto_recv \<Rightarrow> nat \<Rightarrow> bool" where
  "byte_arrived recv index \<longleftrightarrow> cr_arrived recv ! (index div 8) AND arrived_bit index \<noteq> 0"

definition bitmap_set :: "u8 list \<Rightarrow> nat \<Rightarrow> u8 list" where
  "bitmap_set bm index = bm[index div 8 := bm ! (index div 8) OR arrived_bit index]"

definition mark_arrived :: "wt_quic_crypto_recv \<Rightarrow> nat \<Rightarrow> wt_quic_crypto_recv" where
  "mark_arrived recv index = recv\<lparr>cr_arrived := bitmap_set (cr_arrived recv) index\<rparr>"

definition wt_quic_crypto_recv_init :: wt_quic_crypto_recv where
  "wt_quic_crypto_recv_init =
     \<lparr>cr_read_offset = 0, cr_length = 0, cr_has_received = False,
      cr_data = replicate WT_QUIC_CRYPTO_BUFFER_MAX 0,
      cr_arrived = replicate WT_QUIC_CRYPTO_BUFFER_WORDS 0\<rparr>"

text \<open>The copy loop: one byte and one bit of the bitmap per iteration.\<close>

fun insert_bytes :: "nat \<Rightarrow> u8 list \<Rightarrow> wt_quic_crypto_recv \<Rightarrow> wt_quic_crypto_recv" where
  "insert_bytes at [] recv = recv"
| "insert_bytes at (b # bs) recv =
     insert_bytes (Suc at) bs (mark_arrived (recv\<lparr>cr_data := (cr_data recv)[at := b]\<rparr>) at)"

definition insert_window :: "wt_quic_crypto_recv \<Rightarrow> u64 \<Rightarrow> u8 list \<Rightarrow> wt_status \<times> wt_quic_crypto_recv" where
  "insert_window recv offset bs =
     (if offset - cr_read_offset recv \<ge> of_nat WT_QUIC_CRYPTO_BUFFER_MAX then (WT_ERR_LIMIT, recv)
      else
        let start = unat (offset - cr_read_offset recv)
        in if length bs > WT_QUIC_CRYPTO_BUFFER_MAX - start then (WT_ERR_LIMIT, recv)
           else
             let r = insert_bytes start bs recv;
                 r = (if start + length bs > cr_length r then r\<lparr>cr_length := start + length bs\<rparr> else r)
             in (WT_OK, r\<lparr>cr_has_received := True\<rparr>))"

definition wt_quic_crypto_recv_insert ::
  "wt_quic_crypto_recv \<Rightarrow> u64 \<Rightarrow> u8 list option \<Rightarrow> u64 \<Rightarrow> wt_status \<times> wt_quic_crypto_recv" where
  "wt_quic_crypto_recv_insert recv offset data len =
     (if data = None \<and> len \<noteq> 0 then (WT_ERR_INVALID_ARGUMENT, recv)
      else if len = 0 then (WT_OK, recv)
      else if offset > WT_QUIC_CRYPTO_MAX_OFFSET - len then (WT_ERR_OVERFLOW, recv)
      else if offset + len \<le> cr_read_offset recv then (WT_OK, recv)
      else
        let bs = take (unat len) (the data)
        in if offset < cr_read_offset recv
           then insert_window recv (cr_read_offset recv) (drop (unat (cr_read_offset recv - offset)) bs)
           else insert_window recv offset bs)"

function available_from :: "wt_quic_crypto_recv \<Rightarrow> nat \<Rightarrow> nat" where
  "available_from recv n =
     (if n < cr_length recv \<and> byte_arrived recv n then available_from recv (Suc n) else n)"
  by pat_completeness auto
termination by (relation "measure (\<lambda>(recv, n). cr_length recv - n)") auto

declare available_from.simps [simp del]

text \<open>The count and the bytes \<open>*out_data\<close> points at (NULL when there are none).\<close>

definition wt_quic_crypto_recv_available :: "wt_quic_crypto_recv \<Rightarrow> nat \<times> u8 list option" where
  "wt_quic_crypto_recv_available recv =
     (let available = available_from recv 0
      in (available, if available \<noteq> 0 then Some (take available (cr_data recv)) else None))"

definition shifted_bitmap :: "wt_quic_crypto_recv \<Rightarrow> nat \<Rightarrow> u8 list" where
  "shifted_bitmap recv len =
     foldl (\<lambda>shifted b. if byte_arrived recv b then bitmap_set shifted (b - len) else shifted)
       (replicate WT_QUIC_CRYPTO_BUFFER_WORDS 0) [len..<cr_length recv]"

definition wt_quic_crypto_recv_consume ::
  "wt_quic_crypto_recv \<Rightarrow> nat \<Rightarrow> wt_status \<times> wt_quic_crypto_recv" where
  "wt_quic_crypto_recv_consume recv len =
     (if len > cr_length recv then (WT_ERR_INVALID_ARGUMENT, recv)
      else if len = 0 then (WT_OK, recv)
      else (WT_OK, recv\<lparr>cr_data := overwrite 0 (take (cr_length recv - len) (drop len (cr_data recv))) (cr_data recv),
                        cr_arrived := shifted_bitmap recv len,
                        cr_length := cr_length recv - len,
                        cr_read_offset := cr_read_offset recv + of_nat len\<rparr>))"

definition wt_quic_crypto_recv_has_gap :: "wt_quic_crypto_recv \<Rightarrow> bool" where
  "wt_quic_crypto_recv_has_gap recv \<longleftrightarrow> fst (wt_quic_crypto_recv_available recv) < cr_length recv"

definition wt_quic_crypto_recv_read_offset :: "wt_quic_crypto_recv \<Rightarrow> u64" where
  "wt_quic_crypto_recv_read_offset recv = cr_read_offset recv"

subsection \<open>The send half\<close>

definition wt_quic_crypto_send_init :: wt_quic_crypto_send where
  "wt_quic_crypto_send_init =
     \<lparr>cs_next_offset = 0, cs_base_offset = 0, cs_length = 0,
      cs_data = replicate WT_QUIC_CRYPTO_BUFFER_MAX 0\<rparr>"

definition wt_quic_crypto_send_append ::
  "wt_quic_crypto_send \<Rightarrow> u8 list option \<Rightarrow> nat \<Rightarrow> wt_status \<times> wt_quic_crypto_send" where
  "wt_quic_crypto_send_append send data len =
     (if data = None \<and> len \<noteq> 0 then (WT_ERR_INVALID_ARGUMENT, send)
      else if len = 0 then (WT_OK, send)
      else if len > WT_QUIC_CRYPTO_BUFFER_MAX - cs_length send then (WT_ERR_LIMIT, send)
      else (WT_OK, send\<lparr>cs_data := overwrite (cs_length send) (take len (the data)) (cs_data send),
                        cs_length := cs_length send + len\<rparr>))"

text \<open>The offset, and the bytes from \<open>*out_data\<close> of length \<open>*out_length\<close>.\<close>

definition wt_quic_crypto_send_next ::
  "wt_quic_crypto_send \<Rightarrow> nat \<Rightarrow> (u64 \<times> u8 list) wt_result" where
  "wt_quic_crypto_send_next send max_length =
     (if cs_next_offset send < cs_base_offset send then Inl WT_ERR_STATE
      else
        let unsent = unat (cs_next_offset send - cs_base_offset send)
        in if unsent \<ge> cs_length send then Inl WT_ERR_STATE
           else
             let out_length = cs_length send - unsent;
                 out_length = (if out_length > max_length then max_length else out_length)
             in Inr (cs_next_offset send, take out_length (drop unsent (cs_data send))))"

text \<open>
  \<open>send->length - unsent\<close> is an unsigned subtraction: it wraps when more than everything held
  counts as sent, so it is taken over 64-bit words.
\<close>

definition wt_quic_crypto_send_advance ::
  "wt_quic_crypto_send \<Rightarrow> u64 \<Rightarrow> wt_status \<times> wt_quic_crypto_send" where
  "wt_quic_crypto_send_advance send len =
     (if cs_next_offset send < cs_base_offset send then (WT_ERR_STATE, send)
      else if len > of_nat (cs_length send) - (cs_next_offset send - cs_base_offset send)
      then (WT_ERR_INVALID_ARGUMENT, send)
      else (WT_OK, send\<lparr>cs_next_offset := cs_next_offset send + len\<rparr>))"

definition wt_quic_crypto_send_retransmit ::
  "wt_quic_crypto_send \<Rightarrow> u64 \<Rightarrow> nat \<Rightarrow> u8 list wt_result" where
  "wt_quic_crypto_send_retransmit send offset len =
     (if offset \<ge> cs_next_offset send then Inl WT_ERR_INVALID_ARGUMENT
      else if offset < cs_base_offset send then Inl WT_ERR_STATE
      else
        let start = unat (offset - cs_base_offset send)
        in if start \<ge> cs_length send \<or> len > cs_length send - start then Inl WT_ERR_STATE
           else Inr (take len (drop start (cs_data send))))"

definition wt_quic_crypto_send_pending :: "wt_quic_crypto_send \<Rightarrow> bool" where
  "wt_quic_crypto_send_pending send \<longleftrightarrow>
     (if cs_next_offset send < cs_base_offset send then False
      else unat (cs_next_offset send - cs_base_offset send) < cs_length send)"

lemmas crypto_limits = WT_QUIC_CRYPTO_BUFFER_MAX_def WT_QUIC_CRYPTO_BUFFER_WORDS_def


subsection \<open>The bitmap\<close>

definition has_bit :: "u8 list \<Rightarrow> nat \<Rightarrow> bool" where
  "has_bit bm i \<longleftrightarrow> bit (bm ! (i div 8)) (i mod 8)"

lemma byte_arrived_bit: "byte_arrived r i \<longleftrightarrow> has_bit (cr_arrived r) i"
proof -
  have "(w::u8) AND push_bit k 1 \<noteq> 0 \<longleftrightarrow> bit w k" if "k < 8" for w k
    by (metis and_exp_eq_0_iff_not_bit push_bit_of_1)
  then show ?thesis
    by (simp add: byte_arrived_def has_bit_def arrived_bit_def)
qed

lemma has_bit_set:
  assumes "j div 8 < length bm"
  shows "has_bit (bitmap_set bm j) i \<longleftrightarrow> i = j \<or> has_bit bm i"
proof (cases "i div 8 = j div 8")
  case True
  then have "i = j \<longleftrightarrow> i mod 8 = j mod 8"
    by (metis div_mult_mod_eq)
  with True assms show ?thesis
    by (auto simp: has_bit_def bitmap_set_def arrived_bit_def bit_simps)
next
  case False
  then have "i \<noteq> j" by auto
  with False show ?thesis
    by (simp add: has_bit_def bitmap_set_def)
qed

lemma length_bitmap_set [simp]: "length (bitmap_set bm i) = length bm"
  by (simp add: bitmap_set_def)

lemma has_bit_replicate [simp]: "i < 8 * n \<Longrightarrow> \<not> has_bit (replicate n 0) i"
  by (simp add: has_bit_def)

lemma has_bit_foldl_set:
  assumes "\<forall>b\<in>set bs. (b - n) div 8 < length bm"
  shows "has_bit (foldl (\<lambda>m b. if P b then bitmap_set m (b - n) else m) bm bs) i \<longleftrightarrow>
           has_bit bm i \<or> (\<exists>b\<in>set bs. P b \<and> b - n = i)"
  using assms by (induction bs arbitrary: bm) (auto simp: has_bit_set)

lemma length_foldl_set [simp]:
  "length (foldl (\<lambda>m b. if P b then bitmap_set m (f b) else m) bm bs) = length bm"
  by (induction bs arbitrary: bm) auto

subsection \<open>Invariant and abstraction of the receive half\<close>

definition recv_ok :: "wt_quic_crypto_recv \<Rightarrow> bool" where
  "recv_ok r \<longleftrightarrow>
     length (cr_data r) = WT_QUIC_CRYPTO_BUFFER_MAX \<and>
     length (cr_arrived r) = WT_QUIC_CRYPTO_BUFFER_WORDS \<and>
     cr_length r \<le> WT_QUIC_CRYPTO_BUFFER_MAX \<and>
     (\<forall>i. byte_arrived r i \<longrightarrow> i < WT_QUIC_CRYPTO_BUFFER_MAX \<longrightarrow> i < cr_length r) \<and>
     unat (cr_read_offset r) + cr_length r \<le> unat WT_QUIC_CRYPTO_MAX_OFFSET"

text \<open>The bytes held, by stream offset.\<close>

definition recv_map :: "wt_quic_crypto_recv \<Rightarrow> nat \<rightharpoonup> u8" where
  "recv_map r = (\<lambda>off.
     if unat (cr_read_offset r) \<le> off \<and> off - unat (cr_read_offset r) < WT_QUIC_CRYPTO_BUFFER_MAX \<and>
        byte_arrived r (off - unat (cr_read_offset r))
     then Some (cr_data r ! (off - unat (cr_read_offset r))) else None)"

text \<open>A run of bytes at an offset, as a map.\<close>

definition chunk_map :: "nat \<Rightarrow> u8 list \<Rightarrow> nat \<rightharpoonup> u8" where
  "chunk_map off bs = (\<lambda>i. if off \<le> i \<and> i < off + length bs then Some (bs ! (i - off)) else None)"

lemma recv_ok_init: "recv_ok wt_quic_crypto_recv_init"
  by (auto simp: recv_ok_def wt_quic_crypto_recv_init_def byte_arrived_bit crypto_limits
      WT_QUIC_CRYPTO_MAX_OFFSET_def)

lemma cr_read_offset_init: "cr_read_offset wt_quic_crypto_recv_init = 0"
  by (simp add: wt_quic_crypto_recv_init_def)

lemma recv_map_init: "recv_map wt_quic_crypto_recv_init = Map.empty"
  by (auto simp: recv_map_def wt_quic_crypto_recv_init_def byte_arrived_bit crypto_limits fun_eq_iff)

lemma insert_bytes_fields [simp]:
  "cr_read_offset (insert_bytes at bs r) = cr_read_offset r"
  "cr_length (insert_bytes at bs r) = cr_length r"
  "length (cr_data (insert_bytes at bs r)) = length (cr_data r)"
  "length (cr_arrived (insert_bytes at bs r)) = length (cr_arrived r)"
  by (induction at bs r rule: insert_bytes.induct) (simp_all add: mark_arrived_def)

lemma insert_bytes_data:
  "at + length bs \<le> length (cr_data r) \<Longrightarrow> cr_data (insert_bytes at bs r) = overwrite at bs (cr_data r)"
proof (induction at bs r rule: insert_bytes.induct)
  case (2 at b bs recv)
  then show ?case
    by (simp add: mark_arrived_def overwrite_def upd_conv_take_nth_drop add.commute)
qed simp

lemma insert_bytes_arrived:
  "at + length bs \<le> 8 * length (cr_arrived r) \<Longrightarrow>
   byte_arrived (insert_bytes at bs r) i \<longleftrightarrow> (at \<le> i \<and> i < at + length bs) \<or> byte_arrived r i"
proof (induction at bs r rule: insert_bytes.induct)
  case (2 at b bs recv)
  then have "at div 8 < length (cr_arrived recv)" by auto
  with 2 show ?case
    by (auto simp: mark_arrived_def byte_arrived_bit has_bit_set)
qed auto

lemma insert_window_ok:
  assumes ok: "recv_ok r" and le: "cr_read_offset r \<le> off"
    and fits: "unat off + length bs \<le> unat WT_QUIC_CRYPTO_MAX_OFFSET"
  shows "unat off + length bs \<le> unat (cr_read_offset r) + WT_QUIC_CRYPTO_BUFFER_MAX \<and> bs \<noteq> [] \<Longrightarrow>
           fst (insert_window r off bs) = WT_OK \<and> recv_ok (snd (insert_window r off bs)) \<and>
           cr_read_offset (snd (insert_window r off bs)) = cr_read_offset r \<and>
           recv_map (snd (insert_window r off bs)) = recv_map r ++ chunk_map (unat off) bs"
    and "unat off + length bs > unat (cr_read_offset r) + WT_QUIC_CRYPTO_BUFFER_MAX \<Longrightarrow>
           insert_window r off bs = (WT_ERR_LIMIT, r)"
proof -
  define start where "start = unat (off - cr_read_offset r)"
  have st: "start + unat (cr_read_offset r) = unat off"
    using le by (simp add: start_def unat_sub_le word_le_nat_alt)
  have lim: "off - cr_read_offset r \<ge> of_nat WT_QUIC_CRYPTO_BUFFER_MAX \<longleftrightarrow> start \<ge> WT_QUIC_CRYPTO_BUFFER_MAX"
    by (simp add: start_def word_le_nat_alt crypto_limits)
  show "insert_window r off bs = (WT_ERR_LIMIT, r)"
    if "unat off + length bs > unat (cr_read_offset r) + WT_QUIC_CRYPTO_BUFFER_MAX"
    using that st by (auto simp: insert_window_def lim Let_def start_def [symmetric])
  assume h: "unat off + length bs \<le> unat (cr_read_offset r) + WT_QUIC_CRYPTO_BUFFER_MAX \<and> bs \<noteq> []"
  then have room: "start + length bs \<le> WT_QUIC_CRYPTO_BUFFER_MAX" "start < WT_QUIC_CRYPTO_BUFFER_MAX"
    using st by (cases bs; simp)+
  define r1 where "r1 = insert_bytes start bs r"
  define r2 where "r2 = r1\<lparr>cr_length := max (start + length bs) (cr_length r), cr_has_received := True\<rparr>"
  have res: "insert_window r off bs = (WT_OK, r2)"
    using room by (simp add: insert_window_def lim Let_def start_def [symmetric] r2_def r1_def max_def)
  have data: "cr_data r2 = overwrite start bs (cr_data r)"
    using ok room by (simp add: r2_def r1_def insert_bytes_data recv_ok_def)
  have arr: "byte_arrived r2 i \<longleftrightarrow> (start \<le> i \<and> i < start + length bs) \<or> byte_arrived r i" for i
    using ok room insert_bytes_arrived [of start bs r i]
    by (simp add: r2_def r1_def recv_ok_def byte_arrived_bit crypto_limits)
  have ro: "cr_read_offset r2 = cr_read_offset r"
    by (simp add: r2_def r1_def)
  have "recv_ok r2"
    using ok room fits st arr by (auto simp: recv_ok_def r2_def r1_def crypto_limits max_def)
  moreover have "recv_map r2 off' = (recv_map r ++ chunk_map (unat off) bs) off'" for off'
    using ok room st [symmetric]
    by (auto simp: recv_map_def map_add_def chunk_map_def data arr ro nth_overwrite recv_ok_def add.commute)
  ultimately show "fst (insert_window r off bs) = WT_OK \<and> recv_ok (snd (insert_window r off bs)) \<and>
           cr_read_offset (snd (insert_window r off bs)) = cr_read_offset r \<and>
           recv_map (snd (insert_window r off bs)) = recv_map r ++ chunk_map (unat off) bs"
    by (auto simp: res r2_def r1_def)
qed

lemma chunk_map_drop:
  "off \<le> n \<Longrightarrow> chunk_map n (drop (n - off) bs) = (chunk_map off bs) |` {n..}"
  by (auto simp: chunk_map_def restrict_map_def fun_eq_iff)

lemma max_offset_unat: "unat WT_QUIC_CRYPTO_MAX_OFFSET = 4611686018427387903"
  by (simp add: WT_QUIC_CRYPTO_MAX_OFFSET_def)

text \<open>An insertion is silently complete, refused, or stores the part at or above the read offset.\<close>

lemma recv_insert_cases:
  fixes off :: u64
  assumes ok: "recv_ok r" and len: "unat len \<le> length bs" "unat len \<le> unat WT_QUIC_CRYPTO_MAX_OFFSET"
  defines "res \<equiv> wt_quic_crypto_recv_insert r off (Some bs) len"
  shows "unat off + unat len > unat WT_QUIC_CRYPTO_MAX_OFFSET \<and> len \<noteq> 0 \<Longrightarrow> res = (WT_ERR_OVERFLOW, r)"
    and "unat off + unat len \<le> unat WT_QUIC_CRYPTO_MAX_OFFSET \<and>
         unat off + unat len > unat (cr_read_offset r) + WT_QUIC_CRYPTO_BUFFER_MAX \<and> len \<noteq> 0 \<Longrightarrow>
         res = (WT_ERR_LIMIT, r)"
    and "len = 0 \<or> (unat off + unat len \<le> unat WT_QUIC_CRYPTO_MAX_OFFSET \<and>
         unat off + unat len \<le> unat (cr_read_offset r) + WT_QUIC_CRYPTO_BUFFER_MAX) \<Longrightarrow>
         fst res = WT_OK \<and> recv_ok (snd res) \<and> cr_read_offset (snd res) = cr_read_offset r \<and>
         recv_map (snd res) =
           recv_map r ++ ((chunk_map (unat off) (take (unat len) bs)) |` {unat (cr_read_offset r)..})"
proof -
  have ovf: "off > WT_QUIC_CRYPTO_MAX_OFFSET - len \<longleftrightarrow> unat off + unat len > unat WT_QUIC_CRYPTO_MAX_OFFSET"
    using len by (simp add: word_less_nat_alt unat_sub_le word_le_nat_alt less_diff_conv2)
  have le_ro: "off + len \<le> cr_read_offset r \<longleftrightarrow> unat off + unat len \<le> unat (cr_read_offset r)"
    if "unat off + unat len \<le> unat WT_QUIC_CRYPTO_MAX_OFFSET"
    using that by (simp add: word_le_nat_alt unat_add_no_wrap max_offset_unat)
  have sk: "unat (cr_read_offset r - off) = unat (cr_read_offset r) - unat off" if "off \<le> cr_read_offset r"
    using that by (rule unat_sub_le)
  have nz: "unat len > 0" if "len \<noteq> 0"
    using that by (simp add: unat_gt_0)
  define old where "old \<longleftrightarrow> off < cr_read_offset r"
  define off' where "off' = (if old then cr_read_offset r else off)"
  define bs' where "bs' = drop (unat off' - unat off) (take (unat len) bs)"
  have off': "off \<le> off'" "cr_read_offset r \<le> off'"
    by (auto simp: off'_def old_def not_less)
  show "res = (WT_ERR_OVERFLOW, r)" if "unat off + unat len > unat WT_QUIC_CRYPTO_MAX_OFFSET \<and> len \<noteq> 0"
    using that by (simp add: res_def wt_quic_crypto_recv_insert_def ovf)
  have step: "res = insert_window r off' bs'"
    if "len \<noteq> 0" "unat off + unat len \<le> unat WT_QUIC_CRYPTO_MAX_OFFSET"
       "\<not> unat off + unat len \<le> unat (cr_read_offset r)"
    using that by (auto simp: res_def wt_quic_crypto_recv_insert_def ovf le_ro Let_def off'_def old_def bs'_def sk)
  have len': "unat off' + length bs' = unat off + unat len" if "\<not> unat off + unat len \<le> unat (cr_read_offset r)"
    using that len off' by (auto simp: bs'_def off'_def old_def word_less_nat_alt min_def)
  show "res = (WT_ERR_LIMIT, r)"
    if "unat off + unat len \<le> unat WT_QUIC_CRYPTO_MAX_OFFSET \<and>
         unat off + unat len > unat (cr_read_offset r) + WT_QUIC_CRYPTO_BUFFER_MAX \<and> len \<noteq> 0"
    using that len' insert_window_ok(2) [OF ok off'(2), of bs'] by (simp add: step)
  have old_map: "recv_map r ++ ((chunk_map (unat off) (take (unat len) bs)) |` {unat (cr_read_offset r)..}) =
      recv_map r" if "len = 0 \<or> unat off + unat len \<le> unat (cr_read_offset r)"
    using that by (auto simp: chunk_map_def map_add_def restrict_map_def fun_eq_iff)
  assume h: "len = 0 \<or> (unat off + unat len \<le> unat WT_QUIC_CRYPTO_MAX_OFFSET \<and>
         unat off + unat len \<le> unat (cr_read_offset r) + WT_QUIC_CRYPTO_BUFFER_MAX)"
  show "fst res = WT_OK \<and> recv_ok (snd res) \<and> cr_read_offset (snd res) = cr_read_offset r \<and>
         recv_map (snd res) =
           recv_map r ++ ((chunk_map (unat off) (take (unat len) bs)) |` {unat (cr_read_offset r)..})"
  proof (cases "len = 0 \<or> unat off + unat len \<le> unat (cr_read_offset r)")
    case True
    then have "res = (WT_OK, r)"
      using h by (auto simp: res_def wt_quic_crypto_recv_insert_def ovf le_ro)
    with True ok show ?thesis by (simp add: old_map)
  next
    case False
    then have ne: "bs' \<noteq> []" using len' off' nz by (cases bs') (auto simp: off'_def split: if_splits)
    have "chunk_map (unat off') bs' = (chunk_map (unat off) (take (unat len) bs)) |` {unat off'..}"
      unfolding bs'_def using off' by (intro chunk_map_drop) (simp add: word_le_nat_alt)
    also have "\<dots> = (chunk_map (unat off) (take (unat len) bs)) |` {unat (cr_read_offset r)..}"
      by (auto simp: off'_def old_def chunk_map_def restrict_map_def fun_eq_iff word_less_nat_alt)
    finally show ?thesis
      using False h ne len' insert_window_ok(1) [OF ok off'(2), of bs'] by (simp add: step)
  qed
qed

lemma available_from_spec:
  "n \<le> cr_length r \<Longrightarrow>
   n \<le> available_from r n \<and> available_from r n \<le> cr_length r \<and>
   (\<forall>i. n \<le> i \<and> i < available_from r n \<longrightarrow> byte_arrived r i) \<and>
   (available_from r n < cr_length r \<longrightarrow> \<not> byte_arrived r (available_from r n))"
proof (induction r n rule: available_from.induct)
  case (1 r n)
  show ?case
  proof (cases "n < cr_length r \<and> byte_arrived r n")
    case True
    then have "available_from r n = available_from r (Suc n)"
      by (simp add: available_from.simps [of r n])
    moreover have "byte_arrived r i" if "n \<le> i" "i < available_from r (Suc n)" for i
      using 1(1) [OF True] True that by (cases "i = n") auto
    ultimately show ?thesis using 1(1) [OF True] True by auto
  next
    case False
    then have "available_from r n = n" by (auto simp: available_from.simps [of r n])
    with False 1(2) show ?thesis by auto
  qed
qed

lemma recv_map_dom:
  "recv_ok r \<Longrightarrow> off \<in> dom (recv_map r) \<longleftrightarrow>
     unat (cr_read_offset r) \<le> off \<and> off < unat (cr_read_offset r) + cr_length r \<and>
     byte_arrived r (off - unat (cr_read_offset r))"
  by (auto simp: recv_map_def recv_ok_def split: if_splits)

text \<open>What is available is the longest run of held bytes from the read offset.\<close>

lemma recv_available_spec:
  assumes ok: "recv_ok r" and av: "wt_quic_crypto_recv_available r = (n, p)"
  shows "n \<le> cr_length r"
    and "(case p of None \<Rightarrow> [] | Some bs \<Rightarrow> bs) = take n (cr_data r)"
    and "\<And>i. i < n \<Longrightarrow> recv_map r (unat (cr_read_offset r) + i) = Some (cr_data r ! i)"
    and "recv_map r (unat (cr_read_offset r) + n) = None"
proof -
  have n: "n = available_from r 0" and p: "p = (if n \<noteq> 0 then Some (take n (cr_data r)) else None)"
    using av by (auto simp: wt_quic_crypto_recv_available_def Let_def)
  note sp = available_from_spec [of 0 r, folded n]
  show "n \<le> cr_length r" using sp by simp
  show "(case p of None \<Rightarrow> [] | Some bs \<Rightarrow> bs) = take n (cr_data r)" by (simp add: p)
  show "recv_map r (unat (cr_read_offset r) + i) = Some (cr_data r ! i)" if "i < n" for i
    using that sp ok by (simp add: recv_map_def recv_ok_def)
  show "recv_map r (unat (cr_read_offset r) + n) = None"
    using sp ok by (auto simp: recv_map_def recv_ok_def)
qed

lemma shifted_bitmap_arrived:
  assumes "recv_ok r" "i < WT_QUIC_CRYPTO_BUFFER_MAX"
  shows "has_bit (shifted_bitmap r n) i \<longleftrightarrow> n + i < cr_length r \<and> byte_arrived r (n + i)"
proof -
  have "\<forall>b\<in>set [n..<cr_length r]. (b - n) div 8 < length (replicate WT_QUIC_CRYPTO_BUFFER_WORDS (0::u8))"
    using assms by (auto simp: recv_ok_def crypto_limits)
  from has_bit_foldl_set [OF this, of "byte_arrived r" i]
  have "has_bit (shifted_bitmap r n) i \<longleftrightarrow> (\<exists>b\<in>set [n..<cr_length r]. byte_arrived r b \<and> b - n = i)"
    using assms(2) by (simp add: shifted_bitmap_def crypto_limits)
  also have "\<dots> \<longleftrightarrow> n + i < cr_length r \<and> byte_arrived r (n + i)"
    by (auto intro: bexI [of _ "n + i"])
  finally show ?thesis .
qed

lemma recv_consume_spec:
  assumes ok: "recv_ok r" and n: "n \<le> cr_length r"
  defines "res \<equiv> wt_quic_crypto_recv_consume r n"
  shows "fst res = WT_OK" "recv_ok (snd res)"
    and "unat (cr_read_offset (snd res)) = unat (cr_read_offset r) + n"
    and "recv_map (snd res) = recv_map r |` {unat (cr_read_offset r) + n..}"
proof -
  define r' where "r' = r\<lparr>cr_data := overwrite 0 (take (cr_length r - n) (drop n (cr_data r))) (cr_data r),
      cr_arrived := shifted_bitmap r n, cr_length := cr_length r - n,
      cr_read_offset := cr_read_offset r + of_nat n\<rparr>"
  have ro: "unat (cr_read_offset r') = unat (cr_read_offset r) + n"
    using ok n by (simp add: r'_def recv_ok_def max_offset_unat unat_add_of_nat)
  have arr: "byte_arrived r' i \<longleftrightarrow> n + i < cr_length r \<and> byte_arrived r (n + i)"
    if "i < WT_QUIC_CRYPTO_BUFFER_MAX" for i
    using shifted_bitmap_arrived [OF ok that, of n] by (simp add: byte_arrived_bit r'_def)
  have data: "cr_data r' ! i = cr_data r ! (n + i)" if "n + i < cr_length r" for i
    using that ok by (auto simp: r'_def nth_overwrite recv_ok_def)
  have len: "length (cr_data r') = length (cr_data r)" "length (cr_arrived r') = WT_QUIC_CRYPTO_BUFFER_WORDS"
    using ok n by (simp_all add: r'_def recv_ok_def shifted_bitmap_def)
  have ok': "recv_ok r'"
    unfolding recv_ok_def ro len
    using ok n arr by (auto simp: recv_ok_def r'_def)
  have zero: "recv_map r |` {unat (cr_read_offset r)..} = recv_map r"
    by (auto simp: recv_map_def restrict_map_def fun_eq_iff)
  have "recv_map r' off = (recv_map r |` {unat (cr_read_offset r) + n..}) off" for off
  proof (cases "unat (cr_read_offset r) + n \<le> off")
    case True
    define i where "i = off - (unat (cr_read_offset r) + n)"
    have i: "off = unat (cr_read_offset r) + n + i" "off - unat (cr_read_offset r) = n + i"
      using True by (simp_all add: i_def)
    then show ?thesis
      using ok by (auto simp: recv_map_def ro arr data recv_ok_def)
  qed (simp add: recv_map_def ro)
  then have "recv_map r' = recv_map r |` {unat (cr_read_offset r) + n..}" by blast
  moreover have "res = (if n = 0 then (WT_OK, r) else (WT_OK, r'))"
    using n by (auto simp: res_def wt_quic_crypto_recv_consume_def r'_def)
  ultimately show "fst res = WT_OK" "recv_ok (snd res)"
    "unat (cr_read_offset (snd res)) = unat (cr_read_offset r) + n"
    "recv_map (snd res) = recv_map r |` {unat (cr_read_offset r) + n..}"
    using ok ok' ro zero by simp_all
qed

subsection \<open>Runs of the receive half\<close>

text \<open>
  The peer's handshake bytes are a fixed function of the stream offset; a frame carries a segment of
  them. A run interleaves arriving frames, in any order and overlapping, with deliveries that take
  everything available and consume it. The run records the bytes delivered and the offsets of the
  frames the buffer accepted.
\<close>

datatype recv_op = ARRIVE u64 u32 | DELIVER

record recv_run =
  rr_recv :: wt_quic_crypto_recv
  rr_out :: "u8 list"
  rr_accepted :: "nat set"

definition segment :: "(nat \<Rightarrow> u8) \<Rightarrow> u64 \<Rightarrow> u32 \<Rightarrow> u8 list" where
  "segment S off len = map S [unat off..<unat off + unat len]"

fun recv_run_step :: "(nat \<Rightarrow> u8) \<Rightarrow> recv_run \<Rightarrow> recv_op \<Rightarrow> recv_run" where
  "recv_run_step S x (ARRIVE off len) =
     (case wt_quic_crypto_recv_insert (rr_recv x) off (Some (segment S off len)) (ucast len) of
        (st, r) \<Rightarrow> x\<lparr>rr_recv := r,
                      rr_accepted := rr_accepted x \<union>
                        (if st = WT_OK then {unat off..<unat off + unat len} else {})\<rparr>)"
| "recv_run_step S x DELIVER =
     (case wt_quic_crypto_recv_available (rr_recv x) of
        (n, p) \<Rightarrow> x\<lparr>rr_recv := snd (wt_quic_crypto_recv_consume (rr_recv x) n),
                    rr_out := rr_out x @ (case p of None \<Rightarrow> [] | Some bs \<Rightarrow> bs)\<rparr>)"

declare recv_run_step.simps [simp del]

definition recv_run_of :: "(nat \<Rightarrow> u8) \<Rightarrow> recv_op list \<Rightarrow> recv_run" where
  "recv_run_of S ops =
     foldl (recv_run_step S) \<lparr>rr_recv = wt_quic_crypto_recv_init, rr_out = [], rr_accepted = {}\<rparr> ops"

definition run_inv :: "(nat \<Rightarrow> u8) \<Rightarrow> recv_run \<Rightarrow> bool" where
  "run_inv S x \<longleftrightarrow>
     recv_ok (rr_recv x) \<and>
     rr_out x = map S [0..<unat (cr_read_offset (rr_recv x))] \<and>
     recv_map (rr_recv x) \<subseteq>\<^sub>m (Some \<circ> S) \<and>
     rr_accepted x = {..<unat (cr_read_offset (rr_recv x))} \<union> dom (recv_map (rr_recv x))"

lemma map_leD: "m \<subseteq>\<^sub>m m' \<Longrightarrow> m x = Some y \<Longrightarrow> m' x = Some y"
  by (force simp: map_le_def)

lemma chunk_map_segment: "chunk_map (unat off) (segment S off len) = (Some \<circ> S) |` {unat off..<unat off + unat len}"
  by (auto simp: chunk_map_def segment_def restrict_map_def fun_eq_iff)

lemma length_segment [simp]: "length (segment S off len) = unat len"
  by (simp add: segment_def)

lemma run_inv_arrive:
  assumes "run_inv S x"
  shows "run_inv S (recv_run_step S x (ARRIVE off len))"
proof -
  define r where "r = rr_recv x"
  define res where "res = wt_quic_crypto_recv_insert r off (Some (segment S off len)) (ucast len)"
  define fits where "fits \<longleftrightarrow> ucast len = (0::u64) \<or> (unat off + unat len \<le> unat WT_QUIC_CRYPTO_MAX_OFFSET \<and>
         unat off + unat len \<le> unat (cr_read_offset r) + WT_QUIC_CRYPTO_BUFFER_MAX)"
  have ok: "recv_ok r" and sub: "recv_map r \<subseteq>\<^sub>m (Some \<circ> S)"
    using assms by (simp_all add: run_inv_def r_def)
  have small: "unat (ucast len :: u64) \<le> unat WT_QUIC_CRYPTO_MAX_OFFSET"
    using unat_u32_less [of len] by (simp add: max_offset_unat)
  note cases = recv_insert_cases [OF ok _ small, of "segment S off len" off, folded res_def, simplified]
  have step: "recv_run_step S x (ARRIVE off len) = x\<lparr>rr_recv := snd res, rr_accepted := rr_accepted x \<union>
      (if fst res = WT_OK then {unat off..<unat off + unat len} else {})\<rparr>"
    by (simp add: recv_run_step.simps res_def r_def split: prod.split)
  show ?thesis
  proof (cases fits)
    case False
    then have "fst res \<noteq> WT_OK \<and> snd res = r"
      using cases(1,2)
      by (cases "unat off + unat len \<le> unat WT_QUIC_CRYPTO_MAX_OFFSET") (auto simp: fits_def not_le)
    with assms show ?thesis by (simp add: step run_inv_def r_def)
  next
    case True
    then have r': "fst res = WT_OK" "recv_ok (snd res)" "cr_read_offset (snd res) = cr_read_offset r"
      "recv_map (snd res) = recv_map r ++ ((Some \<circ> S) |` ({unat off..<unat off + unat len} \<inter> {unat (cr_read_offset r)..}))"
      using cases(3) by (auto simp: fits_def chunk_map_segment)
    have "recv_map (snd res) \<subseteq>\<^sub>m (Some \<circ> S)"
      using sub by (auto simp: r' map_le_def map_add_def restrict_map_def dom_def split: option.splits if_splits)
    with assms r' show ?thesis
      by (auto simp: step run_inv_def r_def)
  qed
qed

lemma run_inv_deliver:
  assumes "run_inv S x"
  shows "run_inv S (recv_run_step S x DELIVER)"
    and "{..<n} \<subseteq> rr_accepted x \<Longrightarrow> n \<le> length (rr_out (recv_run_step S x DELIVER))"
    and "rr_accepted (recv_run_step S x DELIVER) = rr_accepted x"
proof -
  define r where "r = rr_recv x"
  obtain k p where av: "wt_quic_crypto_recv_available r = (k, p)" by (rule prod.exhaust)
  have ok: "recv_ok r" and sub: "recv_map r \<subseteq>\<^sub>m (Some \<circ> S)" and out: "rr_out x = map S [0..<unat (cr_read_offset r)]"
    and acc: "rr_accepted x = {..<unat (cr_read_offset r)} \<union> dom (recv_map r)"
    using assms by (simp_all add: run_inv_def r_def)
  note a = recv_available_spec [OF ok av]
  note c = recv_consume_spec [OF ok a(1)]
  have held: "S (unat (cr_read_offset r) + i) = cr_data r ! i" if "i < k" for i
    using map_leD [OF sub a(3) [OF that]] by simp
  have "length (cr_data r) \<ge> k" using ok a(1) by (simp add: recv_ok_def)
  then have "map S [unat (cr_read_offset r)..<unat (cr_read_offset r) + k] = take k (cr_data r)"
    by (intro nth_equalityI) (simp_all add: held)
  then have del: "map S [0..<unat (cr_read_offset r) + k] = map S [0..<unat (cr_read_offset r)] @ take k (cr_data r)"
    by (simp add: upt_add_eq_append [of 0])
  have step: "recv_run_step S x DELIVER = x\<lparr>rr_recv := snd (wt_quic_crypto_recv_consume r k),
      rr_out := map S [0..<unat (cr_read_offset r) + k]\<rparr>"
    using av by (simp add: recv_run_step.simps r_def [symmetric] a(2) out del)
  have "{..<unat (cr_read_offset r)} \<union> dom (recv_map r) =
      {..<unat (cr_read_offset r) + k} \<union> dom (recv_map r |` {unat (cr_read_offset r) + k..})"
  proof -
    have "off \<in> dom (recv_map r)" if "unat (cr_read_offset r) \<le> off" "off < unat (cr_read_offset r) + k" for off
      using a(3) [of "off - unat (cr_read_offset r)"] that by auto
    then show ?thesis by (auto simp: not_less restrict_map_def dom_def split: if_splits)
  qed
  moreover have "recv_map r |` {unat (cr_read_offset r) + k..} \<subseteq>\<^sub>m (Some \<circ> S)"
    using sub by (auto simp: map_le_def)
  ultimately show "run_inv S (recv_run_step S x DELIVER)"
    using c acc by (simp add: run_inv_def step)
  show "rr_accepted (recv_run_step S x DELIVER) = rr_accepted x" by (simp add: step)
  show "n \<le> length (rr_out (recv_run_step S x DELIVER))" if "{..<n} \<subseteq> rr_accepted x"
  proof (rule ccontr)
    assume "\<not> n \<le> length (rr_out (recv_run_step S x DELIVER))"
    then have "unat (cr_read_offset r) + k < n" by (simp add: step)
    with that have "unat (cr_read_offset r) + k \<in> rr_accepted x" by auto
    then have "unat (cr_read_offset r) + k \<in> dom (recv_map r)" by (simp add: acc)
    with a(4) show False by auto
  qed
qed

lemma arrive_accepted:
  assumes "run_inv S x" "unat off + unat len \<le> WT_QUIC_CRYPTO_BUFFER_MAX"
  shows "rr_accepted (recv_run_step S x (ARRIVE off len)) =
           rr_accepted x \<union> {unat off..<unat off + unat len}"
  using assms recv_insert_cases(3) [of "rr_recv x" "ucast len" "segment S off len" off]
  by (auto simp: run_inv_def recv_run_step.simps max_offset_unat crypto_limits split: prod.splits)

lemma run_inv_run: "run_inv S (recv_run_of S ops)"
proof (induction ops rule: rev_induct)
  case Nil
  show ?case by (simp add: recv_run_of_def run_inv_def recv_ok_init recv_map_init)
      (simp add: wt_quic_crypto_recv_init_def)
next
  case (snoc op ops)
  then show ?case
    by (cases op) (simp_all add: recv_run_of_def run_inv_arrive run_inv_deliver)
qed

subsection \<open>The send half\<close>

definition send_ok :: "wt_quic_crypto_send \<Rightarrow> bool" where
  "send_ok s \<longleftrightarrow>
     cs_base_offset s = 0 \<and> length (cs_data s) = WT_QUIC_CRYPTO_BUFFER_MAX \<and>
     cs_length s \<le> WT_QUIC_CRYPTO_BUFFER_MAX \<and> unat (cs_next_offset s) \<le> cs_length s"

text \<open>The handshake bytes appended so far.\<close>

definition send_bytes :: "wt_quic_crypto_send \<Rightarrow> u8 list" where
  "send_bytes s = take (cs_length s) (cs_data s)"

lemma send_init_ok: "send_ok wt_quic_crypto_send_init" "send_bytes wt_quic_crypto_send_init = []"
  by (simp_all add: send_ok_def send_bytes_def wt_quic_crypto_send_init_def)

lemma send_append_spec:
  assumes "send_ok s" "wt_quic_crypto_send_append s (Some bs) (length bs) = (st, s')"
  shows "st = WT_OK \<and> send_ok s' \<and> send_bytes s' = send_bytes s @ bs \<and> cs_next_offset s' = cs_next_offset s \<or>
         st = WT_ERR_LIMIT \<and> s' = s \<and> length (send_bytes s) + length bs > WT_QUIC_CRYPTO_BUFFER_MAX"
  using assms
  by (auto simp: wt_quic_crypto_send_append_def send_ok_def send_bytes_def overwrite_def min_def
      split: if_splits)

lemma send_next_spec:
  assumes "send_ok s"
  shows "wt_quic_crypto_send_next s m =
           (if unat (cs_next_offset s) < cs_length s
            then Inr (cs_next_offset s, take m (drop (unat (cs_next_offset s)) (send_bytes s)))
            else Inl WT_ERR_STATE)"
  using assms
  by (auto simp: wt_quic_crypto_send_next_def send_ok_def send_bytes_def Let_def drop_take min_def)

lemma send_advance_spec:
  assumes "send_ok s" "unat n \<le> cs_length s - unat (cs_next_offset s)"
  shows "wt_quic_crypto_send_advance s n = (WT_OK, s\<lparr>cs_next_offset := cs_next_offset s + n\<rparr>)"
    and "unat (cs_next_offset s + n) = unat (cs_next_offset s) + unat n"
    and "send_ok (s\<lparr>cs_next_offset := cs_next_offset s + n\<rparr>)"
proof -
  have c: "unat (of_nat (cs_length s) :: u64) = cs_length s" "cs_length s \<le> 4096"
    using assms(1) by (simp_all add: send_ok_def crypto_limits unat_of_nat_u64)
  show sum: "unat (cs_next_offset s + n) = unat (cs_next_offset s) + unat n"
    using assms c(2) by (intro unat_add_no_wrap) (simp add: send_ok_def, linarith)
  show "wt_quic_crypto_send_advance s n = (WT_OK, s\<lparr>cs_next_offset := cs_next_offset s + n\<rparr>)"
    using assms c by (simp add: wt_quic_crypto_send_advance_def send_ok_def word_less_nat_alt unat_sub_le word_le_nat_alt)
  show "send_ok (s\<lparr>cs_next_offset := cs_next_offset s + n\<rparr>)"
    using assms sum by (auto simp: send_ok_def)
qed

text \<open>
  Runs of the send half: TLS appends messages, and each transmission hands out the next range (at most
  \<open>m\<close> bytes) and advances over it. The run records the bytes appended and the bytes sent.
\<close>

datatype send_op = APPEND "u8 list" | TRANSMIT nat

record send_run =
  sr_send :: wt_quic_crypto_send
  sr_appended :: "u8 list"
  sr_sent :: "u8 list"

fun send_run_step :: "send_run \<Rightarrow> send_op \<Rightarrow> send_run" where
  "send_run_step x (APPEND bs) =
     (case wt_quic_crypto_send_append (sr_send x) (Some bs) (length bs) of
        (st, s) \<Rightarrow> x\<lparr>sr_send := s, sr_appended := sr_appended x @ (if st = WT_OK then bs else [])\<rparr>)"
| "send_run_step x (TRANSMIT m) =
     (case wt_quic_crypto_send_next (sr_send x) m of
        Inl _ \<Rightarrow> x
      | Inr (off, bs) \<Rightarrow>
          x\<lparr>sr_send := snd (wt_quic_crypto_send_advance (sr_send x) (of_nat (length bs))),
             sr_sent := sr_sent x @ bs\<rparr>)"

definition send_run_of :: "send_op list \<Rightarrow> send_run" where
  "send_run_of ops =
     foldl send_run_step \<lparr>sr_send = wt_quic_crypto_send_init, sr_appended = [], sr_sent = []\<rparr> ops"

definition send_run_inv :: "send_run \<Rightarrow> bool" where
  "send_run_inv x \<longleftrightarrow> send_ok (sr_send x) \<and> sr_appended x = send_bytes (sr_send x) \<and>
     sr_sent x = take (unat (cs_next_offset (sr_send x))) (send_bytes (sr_send x))"

lemma length_send_bytes: "send_ok s \<Longrightarrow> length (send_bytes s) = cs_length s"
  by (simp add: send_ok_def send_bytes_def)

lemma send_run_inv_transmit:
  assumes "send_run_inv x"
  shows "send_run_inv (send_run_step x (TRANSMIT m))"
proof -
  define s where "s = sr_send x"
  define bs where "bs = take m (drop (unat (cs_next_offset s)) (send_bytes s))"
  have ok: "send_ok s" using assms by (simp add: send_run_inv_def s_def)
  have len: "length bs \<le> cs_length s - unat (cs_next_offset s)"
    using length_send_bytes [OF ok] by (simp add: bs_def)
  have "cs_length s \<le> 4096" using ok by (simp add: send_ok_def crypto_limits)
  with len have n: "unat (of_nat (length bs) :: u64) = length bs"
    by (simp add: unat_of_nat_u64)
  note adv = send_advance_spec [OF ok, of "of_nat (length bs)", unfolded n, OF len]
  show ?thesis
  proof (cases "unat (cs_next_offset s) < cs_length s")
    case True
    then have "send_run_step x (TRANSMIT m) =
        x\<lparr>sr_send := s\<lparr>cs_next_offset := cs_next_offset s + of_nat (length bs)\<rparr>, sr_sent := sr_sent x @ bs\<rparr>"
      using send_next_spec [OF ok, of m] adv(1) by (simp add: s_def [symmetric] bs_def [symmetric])
    moreover have "take (unat (cs_next_offset s) + length bs) (send_bytes s) =
        take (unat (cs_next_offset s)) (send_bytes s) @ bs"
      by (simp add: take_add bs_def min_def)
    ultimately show ?thesis
      using assms adv(2,3) by (simp add: send_run_inv_def s_def send_bytes_def)
  next
    case False
    then show ?thesis
      using assms send_next_spec [OF ok, of m] by (simp add: s_def [symmetric])
  qed
qed

lemma send_run_inv_append:
  assumes "send_run_inv x"
  shows "send_run_inv (send_run_step x (APPEND bs))"
proof -
  obtain st s' where r: "wt_quic_crypto_send_append (sr_send x) (Some bs) (length bs) = (st, s')"
    by (rule prod.exhaust)
  have ok: "send_ok (sr_send x)" using assms by (simp add: send_run_inv_def)
  with send_append_spec [OF ok r] length_send_bytes [OF ok] assms show ?thesis
    by (auto simp: r send_run_inv_def send_ok_def)
qed

lemma send_run_inv_run: "send_run_inv (send_run_of ops)"
proof (induction ops rule: rev_induct)
  case Nil
  show ?case by (simp add: send_run_of_def send_run_inv_def send_init_ok)
next
  case (snoc op ops)
  then show ?case
    by (cases op) (simp_all add: send_run_of_def send_run_inv_append send_run_inv_transmit
        del: send_run_step.simps)
qed

lemma send_retransmit_spec:
  assumes "send_ok s" "unat off + n \<le> unat (cs_next_offset s)" "n > 0"
  shows "wt_quic_crypto_send_retransmit s off n = Inr (take n (drop (unat off) (send_bytes s)))"
  using assms
  by (auto simp: wt_quic_crypto_send_retransmit_def send_ok_def send_bytes_def word_le_nat_alt Let_def
      drop_take min_def)

subsection \<open>Properties\<close>

lemma wt_quic_crypto_recv_in_order_parts:
  fixes S :: "nat \<Rightarrow> u8" and ops :: "recv_op list"
  defines "run \<equiv> recv_run_of S ops"
  shows "rr_out run = map S [0..<unat (wt_quic_crypto_recv_read_offset (rr_recv run))]"
    and "{..<length (rr_out run)} \<subseteq> rr_accepted run"
    and "{..<n} \<subseteq> rr_accepted run \<Longrightarrow> n \<le> length (rr_out (recv_run_of S (ops @ [DELIVER])))"
proof -
  note inv = run_inv_run [of S ops, folded run_def]
  show "rr_out run = map S [0..<unat (wt_quic_crypto_recv_read_offset (rr_recv run))]"
    "{..<length (rr_out run)} \<subseteq> rr_accepted run"
    using inv by (auto simp: run_inv_def wt_quic_crypto_recv_read_offset_def)
  show "n \<le> length (rr_out (recv_run_of S (ops @ [DELIVER])))" if "{..<n} \<subseteq> rr_accepted run"
    using run_inv_deliver(2) [OF inv that] by (simp add: run_def recv_run_of_def)
qed

text \<open>C12: Whatever the order, overlap and repetition of the arriving CRYPTO frames, and however deliveries
  are interleaved with them, the bytes handed to TLS are exactly the first bytes of the peer's stream,
  in order and each once; nothing is delivered that no accepted frame carried, and once every byte
  below \<open>n\<close> has been accepted, the next delivery completes the first \<open>n\<close> bytes.\<close>

theorem wt_quic_crypto_recv_in_order:
  fixes S :: "nat \<Rightarrow> u8" and ops :: "recv_op list"
  defines "run \<equiv> recv_run_of S ops"
  shows "(rr_out run = map S [0..<unat (wt_quic_crypto_recv_read_offset (rr_recv run))]) \<and>
    ({..<length (rr_out run)} \<subseteq> rr_accepted run) \<and>
    ({..<n} \<subseteq> rr_accepted run \<longrightarrow> n \<le> length (rr_out (recv_run_of S (ops @ [DELIVER]))))"
  unfolding run_def using wt_quic_crypto_recv_in_order_parts by blast

theorem wt_quic_crypto_recv_in_order_witness:
  "\<exists>S ops n. n > 0 \<and> {..<n} \<subseteq> rr_accepted (recv_run_of S ops) \<and>
     n \<le> length (rr_out (recv_run_of S (ops @ [DELIVER])))"
proof (intro exI conjI)
  let ?ops = "[ARRIVE 2 2, ARRIVE 0 3]"
  show "(4::nat) > 0" by simp
  show a: "{..<4} \<subseteq> rr_accepted (recv_run_of of_nat ?ops)"
    using run_inv_run [of of_nat "[]"] run_inv_run [of of_nat "[ARRIVE 2 2]"]
    by (auto simp: recv_run_of_def arrive_accepted crypto_limits)
  show "4 \<le> length (rr_out (recv_run_of of_nat (?ops @ [DELIVER])))"
    using a by (rule wt_quic_crypto_recv_in_order [THEN conjunct2, THEN conjunct2, THEN mp])
qed

text \<open>An arriving CRYPTO frame is refused with the buffer untouched when its end lies beyond the
  protocol's last offset (overflow) or beyond the window of 4096 bytes from the read offset (limit);
  otherwise it is accepted and the buffer holds, by stream offset, what it held before overridden by the
  part of the frame at or above the read offset.\<close>

lemma wt_quic_crypto_recv_insert_refines:
  assumes "recv_ok r" "unat len \<le> length bs" "unat len \<le> unat WT_QUIC_CRYPTO_MAX_OFFSET"
    and "wt_quic_crypto_recv_insert r off (Some bs) len = (st, r')"
  shows "if len \<noteq> 0 \<and> unat off + unat len > unat WT_QUIC_CRYPTO_MAX_OFFSET
         then st = WT_ERR_OVERFLOW \<and> r' = r
         else if len \<noteq> 0 \<and> unat off + unat len > unat (cr_read_offset r) + WT_QUIC_CRYPTO_BUFFER_MAX
         then st = WT_ERR_LIMIT \<and> r' = r
         else st = WT_OK \<and> recv_ok r' \<and> cr_read_offset r' = cr_read_offset r \<and>
              recv_map r' = recv_map r ++
                ((chunk_map (unat off) (take (unat len) bs)) |` {unat (cr_read_offset r)..})"
  using recv_insert_cases [OF assms(1-3), of off, unfolded assms(4)] by auto

lemma wt_quic_crypto_send_in_order_parts:
  fixes ops :: "send_op list"
  defines "run \<equiv> send_run_of ops"
  shows "sr_sent run = take (length (sr_sent run)) (sr_appended run)"
    and "wt_quic_crypto_send_pending (sr_send run) \<longleftrightarrow> sr_sent run \<noteq> sr_appended run"
    and "n > 0 \<and> unat off + n \<le> length (sr_sent run) \<Longrightarrow>
         wt_quic_crypto_send_retransmit (sr_send run) off n = Inr (take n (drop (unat off) (sr_sent run)))"
proof -
  note inv = send_run_inv_run [of ops, folded run_def]
  then have ok: "send_ok (sr_send run)" by (simp add: send_run_inv_def)
  have len: "length (sr_sent run) = unat (cs_next_offset (sr_send run))"
    using inv length_send_bytes [OF ok] ok by (simp add: send_run_inv_def send_ok_def)
  show "sr_sent run = take (length (sr_sent run)) (sr_appended run)"
    using inv len by (simp add: send_run_inv_def)
  show "wt_quic_crypto_send_pending (sr_send run) \<longleftrightarrow> sr_sent run \<noteq> sr_appended run"
    using inv length_send_bytes [OF ok]
    by (auto simp: send_run_inv_def wt_quic_crypto_send_pending_def send_ok_def)
  show "wt_quic_crypto_send_retransmit (sr_send run) off n = Inr (take n (drop (unat off) (sr_sent run)))"
    if "n > 0 \<and> unat off + n \<le> length (sr_sent run)"
    using that send_retransmit_spec [OF ok, of off n] inv
    by (auto simp: len send_run_inv_def drop_take)
qed

text \<open>The CRYPTO bytes sent for the first time are, concatenated, always a prefix of the handshake bytes
  TLS produced, each sent once and in order; everything has been sent exactly when nothing is pending;
  and any range already sent can be fetched again for retransmission with the same bytes.\<close>

lemma wt_quic_crypto_send_in_order:
  fixes ops :: "send_op list"
  defines "run \<equiv> send_run_of ops"
  shows "(sr_sent run = take (length (sr_sent run)) (sr_appended run)) \<and>
    (wt_quic_crypto_send_pending (sr_send run) \<longleftrightarrow> sr_sent run \<noteq> sr_appended run) \<and>
    (n > 0 \<and> unat off + n \<le> length (sr_sent run) \<longrightarrow>
         wt_quic_crypto_send_retransmit (sr_send run) off n = Inr (take n (drop (unat off) (sr_sent run))))"
  unfolding run_def using wt_quic_crypto_send_in_order_parts by blast

end
