(* ===== verification/Congestion.thy ===== *)
theory Congestion
  imports Wire_Core
begin

text \<open>
  The NewReno congestion controller (\<open>C99/src/quic/congestion.c\<close>). All quantities are 64-bit words,
  so the increments wrap as in the code; the properties state the bounds under which they do not.
\<close>

definition WT_QUIC_INITIAL_WINDOW_PACKETS :: u64 where "WT_QUIC_INITIAL_WINDOW_PACKETS = 10"
definition WT_QUIC_MINIMUM_WINDOW_PACKETS :: u64 where "WT_QUIC_MINIMUM_WINDOW_PACKETS = 2"
definition WT_QUIC_INITIAL_WINDOW_MAX :: u64 where "WT_QUIC_INITIAL_WINDOW_MAX = 14720"
definition WT_QUIC_LOSS_REDUCTION_DENOMINATOR :: u64 where "WT_QUIC_LOSS_REDUCTION_DENOMINATOR = 2"

record wt_quic_congestion =
  cc_cwnd :: u64
  cc_max_datagram_size :: u64
  cc_ssthresh :: u64
  cc_recovery_start_time :: u64
  cc_in_recovery :: bool

definition wt_quic_congestion_initial_window :: "u64 \<Rightarrow> u64" where
  "wt_quic_congestion_initial_window max_datagram_size =
     (let ten_packets = WT_QUIC_INITIAL_WINDOW_PACKETS * max_datagram_size;
          floor = WT_QUIC_MINIMUM_WINDOW_PACKETS * max_datagram_size;
          bound = (if floor > WT_QUIC_INITIAL_WINDOW_MAX then floor else WT_QUIC_INITIAL_WINDOW_MAX)
      in if ten_packets < bound then ten_packets else bound)"

definition wt_quic_congestion_minimum_window :: "u64 \<Rightarrow> u64" where
  "wt_quic_congestion_minimum_window max_datagram_size =
     WT_QUIC_MINIMUM_WINDOW_PACKETS * max_datagram_size"

definition wt_quic_congestion_init :: "u64 \<Rightarrow> wt_quic_congestion" where
  "wt_quic_congestion_init max_datagram_size =
     (let mds = (if max_datagram_size = 0 then 1200 else max_datagram_size)
      in \<lparr>cc_cwnd = wt_quic_congestion_initial_window mds, cc_max_datagram_size = mds,
          cc_ssthresh = - 1, cc_recovery_start_time = 0, cc_in_recovery = False\<rparr>)"

definition wt_quic_congestion_window :: "wt_quic_congestion \<Rightarrow> u64" where
  "wt_quic_congestion_window c = cc_cwnd c"

definition wt_quic_congestion_ssthresh :: "wt_quic_congestion \<Rightarrow> u64" where
  "wt_quic_congestion_ssthresh c = cc_ssthresh c"

definition wt_quic_congestion_in_recovery :: "wt_quic_congestion \<Rightarrow> bool" where
  "wt_quic_congestion_in_recovery c = cc_in_recovery c"

definition wt_quic_congestion_in_slow_start :: "wt_quic_congestion \<Rightarrow> bool" where
  "wt_quic_congestion_in_slow_start c \<longleftrightarrow> cc_cwnd c < cc_ssthresh c"

definition wt_quic_congestion_in_recovery_at :: "wt_quic_congestion \<Rightarrow> u64 \<Rightarrow> bool" where
  "wt_quic_congestion_in_recovery_at c time_sent =
     (if \<not> cc_in_recovery c then False else time_sent \<le> cc_recovery_start_time c)"

definition wt_quic_congestion_on_ack ::
  "wt_quic_congestion \<Rightarrow> u64 \<Rightarrow> u64 \<Rightarrow> wt_status \<times> wt_quic_congestion" where
  "wt_quic_congestion_on_ack c bytes_acked time_sent =
     (if wt_quic_congestion_in_recovery_at c time_sent then (WT_OK, c)
      else if cc_cwnd c < cc_ssthresh c then (WT_OK, c\<lparr>cc_cwnd := cc_cwnd c + bytes_acked\<rparr>)
      else
        let increase = (cc_max_datagram_size c * bytes_acked) div cc_cwnd c;
            increase = (if increase > bytes_acked then bytes_acked else increase)
        in (WT_OK, c\<lparr>cc_cwnd := cc_cwnd c + increase\<rparr>))"

definition wt_quic_congestion_on_loss ::
  "wt_quic_congestion \<Rightarrow> u64 \<Rightarrow> u64 \<Rightarrow> wt_status \<times> wt_quic_congestion" where
  "wt_quic_congestion_on_loss c time_sent now =
     (if wt_quic_congestion_in_recovery_at c time_sent then (WT_OK, c)
      else
        let c1 = c\<lparr>cc_ssthresh := cc_cwnd c div WT_QUIC_LOSS_REDUCTION_DENOMINATOR\<rparr>;
            reduced = cc_ssthresh c1;
            floor = wt_quic_congestion_minimum_window (cc_max_datagram_size c1);
            reduced = (if reduced < floor then floor else reduced);
            c2 = (if reduced < cc_cwnd c1 then c1\<lparr>cc_cwnd := reduced\<rparr> else c1)
        in (WT_OK, c2\<lparr>cc_in_recovery := True, cc_recovery_start_time := now\<rparr>))"

definition wt_quic_congestion_on_persistent_congestion ::
  "wt_quic_congestion \<Rightarrow> u64 \<Rightarrow> wt_status \<times> wt_quic_congestion" where
  "wt_quic_congestion_on_persistent_congestion c now =
     (let c1 = c\<lparr>cc_cwnd := wt_quic_congestion_minimum_window (cc_max_datagram_size c)\<rparr>
      in (WT_OK, c1\<lparr>cc_ssthresh := cc_cwnd c1, cc_in_recovery := True, cc_recovery_start_time := now\<rparr>))"

definition wt_quic_congestion_can_send :: "wt_quic_congestion \<Rightarrow> u64 \<Rightarrow> bool" where
  "wt_quic_congestion_can_send c bytes_in_flight \<longleftrightarrow> bytes_in_flight < cc_cwnd c"

lemmas congestion_constants =
  WT_QUIC_INITIAL_WINDOW_PACKETS_def WT_QUIC_MINIMUM_WINDOW_PACKETS_def
  WT_QUIC_INITIAL_WINDOW_MAX_def WT_QUIC_LOSS_REDUCTION_DENOMINATOR_def

subsection \<open>Runs of the controller\<close>

datatype congestion_event = ACKED u64 u64 | LOST u64 u64 | PERSISTENT u64

fun congestion_step :: "wt_quic_congestion \<Rightarrow> congestion_event \<Rightarrow> wt_quic_congestion" where
  "congestion_step c (ACKED n t) = snd (wt_quic_congestion_on_ack c n t)"
| "congestion_step c (LOST t now) = snd (wt_quic_congestion_on_loss c t now)"
| "congestion_step c (PERSISTENT now) = snd (wt_quic_congestion_on_persistent_congestion c now)"

fun acked_bytes :: "congestion_event \<Rightarrow> nat" where
  "acked_bytes (ACKED n t) = unat n"
| "acked_bytes _ = 0"

text \<open>The window lies between two datagrams and everything that was ever granted.\<close>

definition congestion_inv :: "nat \<Rightarrow> nat \<Rightarrow> wt_quic_congestion \<Rightarrow> bool" where
  "congestion_inv mds granted c \<longleftrightarrow>
     unat (cc_max_datagram_size c) = mds \<and> 2 * mds \<le> unat (cc_cwnd c) \<and> unat (cc_cwnd c) \<le> granted"

lemma minimum_window_unat:
  "unat mds \<le> 65535 \<Longrightarrow> unat (wt_quic_congestion_minimum_window mds) = 2 * unat mds"
  by (simp add: wt_quic_congestion_minimum_window_def congestion_constants unat_word_ariths)

lemma initial_window_unat:
  "unat mds \<le> 65535 \<Longrightarrow>
   unat (wt_quic_congestion_initial_window mds) = min (10 * unat mds) (max (2 * unat mds) 14720)"
proof -
  assume h: "unat mds \<le> 65535"
  then have "unat (10 * mds) = 10 * unat mds" "unat (2 * mds) = 2 * unat mds"
    by (simp_all add: unat_word_ariths)
  then show ?thesis
    by (auto simp: wt_quic_congestion_initial_window_def congestion_constants word_less_nat_alt Let_def
        min_def max_def)
qed

text \<open>An acknowledgement never adds more to the window than the bytes it acknowledges.\<close>

lemma on_ack_window:
  obtains inc where "snd (wt_quic_congestion_on_ack c n t) = c\<lparr>cc_cwnd := cc_cwnd c + inc\<rparr>" "inc \<le> n"
proof (cases "wt_quic_congestion_in_recovery_at c t")
  case True
  then show thesis by (intro that [of 0]) (simp_all add: wt_quic_congestion_on_ack_def)
next
  case False
  then show thesis
    by (intro that [of "if cc_cwnd c < cc_ssthresh c then n
                        else min n (cc_max_datagram_size c * n div cc_cwnd c)"])
      (auto simp: wt_quic_congestion_on_ack_def Let_def min_def not_le)
qed

lemma congestion_inv_step:
  assumes inv: "congestion_inv mds granted c" and mds: "mds \<le> 65535"
    and room: "granted + acked_bytes e < 2 ^ 64"
  shows "congestion_inv mds (granted + acked_bytes e) (congestion_step c e)"
proof (cases e)
  case (ACKED n t)
  obtain inc where inc: "snd (wt_quic_congestion_on_ack c n t) = c\<lparr>cc_cwnd := cc_cwnd c + inc\<rparr>" "inc \<le> n"
    by (rule on_ack_window)
  then have "unat inc \<le> unat n" by (simp add: word_le_nat_alt)
  moreover have "unat (cc_cwnd c + inc) = unat (cc_cwnd c) + unat inc"
    using inv room ACKED \<open>unat inc \<le> unat n\<close> by (intro unat_add_no_wrap) (simp add: congestion_inv_def)
  ultimately show ?thesis
    using inv ACKED inc by (simp add: congestion_inv_def)
next
  case (LOST t now)
  have floor: "unat (wt_quic_congestion_minimum_window (cc_max_datagram_size c)) = 2 * mds"
    using inv mds by (simp add: minimum_window_unat congestion_inv_def)
  show ?thesis
    using inv LOST floor
    by (auto simp: congestion_inv_def wt_quic_congestion_on_loss_def Let_def word_less_nat_alt
        congestion_constants unat_div)
next
  case (PERSISTENT now)
  have floor: "unat (wt_quic_congestion_minimum_window (cc_max_datagram_size c)) = 2 * mds"
    using inv mds by (simp add: minimum_window_unat congestion_inv_def)
  show ?thesis
    using inv PERSISTENT floor
    by (simp add: congestion_inv_def wt_quic_congestion_on_persistent_congestion_def Let_def)
qed

lemma congestion_inv_run:
  assumes "congestion_inv mds granted c" "mds \<le> 65535"
    and "granted + sum_list (map acked_bytes es) < 2 ^ 64"
  shows "congestion_inv mds (granted + sum_list (map acked_bytes es)) (foldl congestion_step c es)"
  using assms
proof (induction es arbitrary: c granted)
  case (Cons e es)
  from Cons.prems have "congestion_inv mds (granted + acked_bytes e) (congestion_step c e)"
    by (intro congestion_inv_step) simp_all
  from Cons.IH [OF this] Cons.prems show ?case
    by (simp add: add.assoc)
qed simp

lemma congestion_inv_init:
  assumes "unat mds \<le> 65535" "mds \<noteq> 0"
  shows "congestion_inv (unat mds) (unat (wt_quic_congestion_initial_window mds)) (wt_quic_congestion_init mds)"
  using assms by (simp add: congestion_inv_def wt_quic_congestion_init_def initial_window_unat)

subsection \<open>Properties\<close>

lemma wt_quic_congestion_window_bounds_parts:
  fixes mds :: u64 and es :: "congestion_event list"
  defines "c \<equiv> foldl congestion_step (wt_quic_congestion_init mds) es"
    and "granted \<equiv> unat (wt_quic_congestion_initial_window mds) + sum_list (map acked_bytes es)"
  assumes "0 < unat mds" "unat mds \<le> 65535" "granted < 2 ^ 64"
  shows "2 * unat mds \<le> unat (wt_quic_congestion_window c) \<and> unat (wt_quic_congestion_window c) \<le> granted"
    and "unat in_flight < 2 * unat mds \<Longrightarrow> wt_quic_congestion_can_send c in_flight"
proof -
  have "congestion_inv (unat mds) granted c"
    unfolding c_def granted_def using assms(3-5)
    by (intro congestion_inv_run congestion_inv_init) (auto simp: granted_def)
  then show "2 * unat mds \<le> unat (wt_quic_congestion_window c) \<and> unat (wt_quic_congestion_window c) \<le> granted"
    "unat in_flight < 2 * unat mds \<Longrightarrow> wt_quic_congestion_can_send c in_flight"
    by (auto simp: congestion_inv_def wt_quic_congestion_window_def wt_quic_congestion_can_send_def
        word_less_nat_alt)
qed

text \<open>C15: Over any history of acknowledgements, losses and persistent congestion, as long as the initial
  window and the acknowledged bytes together stay below \<open>2^64\<close>, the congestion window never falls below
  two datagrams and never exceeds the initial window plus the bytes acknowledged; in particular an
  endpoint with fewer than two datagrams in flight may always send.\<close>

theorem wt_quic_congestion_window_bounds:
  fixes mds :: u64 and es :: "congestion_event list"
  defines "c \<equiv> foldl congestion_step (wt_quic_congestion_init mds) es"
    and "granted \<equiv> unat (wt_quic_congestion_initial_window mds) + sum_list (map acked_bytes es)"
  assumes "0 < unat mds" "unat mds \<le> 65535" "granted < 2 ^ 64"
  shows "(2 * unat mds \<le> unat (wt_quic_congestion_window c) \<and> unat (wt_quic_congestion_window c) \<le> granted) \<and>
    (unat in_flight < 2 * unat mds \<longrightarrow> wt_quic_congestion_can_send c in_flight)"
  unfolding c_def granted_def using wt_quic_congestion_window_bounds_parts [OF assms(3,4) assms(5) [unfolded granted_def]] by blast

theorem wt_quic_congestion_window_bounds_witness:
  "wt_quic_congestion_can_send
     (foldl congestion_step (wt_quic_congestion_init 1200)
        [ACKED 1200 5, LOST 7 9, LOST 8 10, PERSISTENT 20, ACKED 1200 30]) 2399"
  by (rule wt_quic_congestion_window_bounds [THEN conjunct2, THEN mp])
    (simp_all add: wt_quic_congestion_initial_window_def congestion_constants Let_def)

lemma wt_quic_congestion_burst_once_parts:
  assumes "\<not> wt_quic_congestion_in_recovery_at c t"
    and "unat (cc_max_datagram_size c) \<le> 65535" "2 * unat (cc_max_datagram_size c) \<le> unat (cc_cwnd c)"
    and "\<forall>e \<in> set burst. (\<exists>n s. e = ACKED n s \<and> s \<le> now) \<or> (\<exists>s n. e = LOST s n \<and> s \<le> now)"
  shows "unat (wt_quic_congestion_window (foldl congestion_step c (LOST t now # burst))) =
           max (unat (cc_cwnd c) div 2) (2 * unat (cc_max_datagram_size c))"
    and "foldl congestion_step c (LOST t now # burst) = congestion_step c (LOST t now)"
proof -
  define c' where "c' = congestion_step c (LOST t now)"
  have rec: "cc_in_recovery c'" "cc_recovery_start_time c' = now"
    using assms(1) by (simp_all add: c'_def wt_quic_congestion_on_loss_def Let_def)
  have floor: "unat (wt_quic_congestion_minimum_window (cc_max_datagram_size c)) =
      2 * unat (cc_max_datagram_size c)"
    using assms(2) by (rule minimum_window_unat)
  have win: "unat (cc_cwnd c') = max (unat (cc_cwnd c) div 2) (2 * unat (cc_max_datagram_size c))"
    using assms(1,3) floor
    by (auto simp: c'_def wt_quic_congestion_on_loss_def Let_def word_less_nat_alt congestion_constants
        unat_div max_def)
  have "congestion_step c' e = c'" if "e \<in> set burst" for e
    using assms(4) that rec
    by (auto simp: wt_quic_congestion_on_ack_def wt_quic_congestion_on_loss_def
        wt_quic_congestion_in_recovery_at_def)
  then have "foldl congestion_step c' burst = c'"
    by (induction burst) auto
  then show "foldl congestion_step c (LOST t now # burst) = congestion_step c (LOST t now)"
    "unat (wt_quic_congestion_window (foldl congestion_step c (LOST t now # burst))) =
           max (unat (cc_cwnd c) div 2) (2 * unat (cc_max_datagram_size c))"
    by (simp_all add: c'_def [symmetric] win wt_quic_congestion_window_def del: congestion_step.simps)
qed

text \<open>One congestion event moves the window once. The loss that starts a recovery period halves the
  window (down to the two-datagram floor), and whatever is then acknowledged or lost among the packets
  sent up to the start of that period leaves the controller exactly as it is.\<close>

lemma wt_quic_congestion_burst_once:
  assumes "\<not> wt_quic_congestion_in_recovery_at c t"
    and "unat (cc_max_datagram_size c) \<le> 65535" "2 * unat (cc_max_datagram_size c) \<le> unat (cc_cwnd c)"
    and "\<forall>e \<in> set burst. (\<exists>n s. e = ACKED n s \<and> s \<le> now) \<or> (\<exists>s n. e = LOST s n \<and> s \<le> now)"
  shows "(unat (wt_quic_congestion_window (foldl congestion_step c (LOST t now # burst))) =
           max (unat (cc_cwnd c) div 2) (2 * unat (cc_max_datagram_size c))) \<and>
    (foldl congestion_step c (LOST t now # burst) = congestion_step c (LOST t now))"
  using wt_quic_congestion_burst_once_parts [OF assms] by blast

end
