(* ===== verification/Loss.thy ===== *)
theory Loss
  imports Pn_Space "HOL-Library.Multiset"
begin

text \<open>
  Loss detection and probe timeouts (\<open>C99/src/quic/loss.c\<close>). The array of sent packets with its
  \<open>count\<close> is the list of its first \<open>count\<close> entries; a visitor callback is the list of the packets it is
  called with, in call order.
\<close>

definition WT_QUIC_PTO_MAX_BACKOFF :: u64 where "WT_QUIC_PTO_MAX_BACKOFF = 16"
definition WT_QUIC_SENT_PACKETS_MAX :: nat where "WT_QUIC_SENT_PACKETS_MAX = 64"
definition WT_QUIC_PACKET_THRESHOLD :: u64 where "WT_QUIC_PACKET_THRESHOLD = 3"
definition WT_QUIC_TIME_THRESHOLD_NUMERATOR :: u64 where "WT_QUIC_TIME_THRESHOLD_NUMERATOR = 9"
definition WT_QUIC_TIME_THRESHOLD_DENOMINATOR :: u64 where "WT_QUIC_TIME_THRESHOLD_DENOMINATOR = 8"

record wt_quic_sent_packet =
  sp_packet_number_space :: u8
  sp_packet_number :: u64
  sp_time_sent :: u64
  sp_size :: u64
  sp_tag :: u64
  sp_ack_eliciting :: bool
  sp_in_flight :: bool

record wt_quic_loss =
  ls_sent :: "wt_quic_sent_packet list"
  ls_bytes_in_flight :: u64
  ls_ack_eliciting_in_flight :: u64
  ls_pto_count :: u64
  ls_loss_time :: u64

definition wt_quic_loss_init :: wt_quic_loss where
  "wt_quic_loss_init =
     \<lparr>ls_sent = [], ls_bytes_in_flight = 0, ls_ack_eliciting_in_flight = 0, ls_pto_count = 0,
      ls_loss_time = 0\<rparr>"

definition wt_quic_loss_count :: "wt_quic_loss \<Rightarrow> nat" where
  "wt_quic_loss_count loss = length (ls_sent loss)"

fun find_packet_from :: "wt_quic_sent_packet list \<Rightarrow> u8 \<Rightarrow> u64 \<Rightarrow> nat" where
  "find_packet_from [] space pn = 0"
| "find_packet_from (p # ps) space pn =
     (if sp_packet_number_space p = space \<and> sp_packet_number p = pn then 0
      else Suc (find_packet_from ps space pn))"

definition find_packet :: "wt_quic_loss \<Rightarrow> u8 \<Rightarrow> u64 \<Rightarrow> nat" where
  "find_packet loss space pn = find_packet_from (ls_sent loss) space pn"

definition wt_quic_loss_on_sent :: "wt_quic_loss \<Rightarrow> wt_quic_sent_packet \<Rightarrow> wt_status \<times> wt_quic_loss" where
  "wt_quic_loss_on_sent loss packet =
     (if find_packet loss (sp_packet_number_space packet) (sp_packet_number packet) \<noteq> wt_quic_loss_count loss
      then (WT_ERR_INVALID_ARGUMENT, loss)
      else if wt_quic_loss_count loss = WT_QUIC_SENT_PACKETS_MAX then (WT_ERR_LIMIT, loss)
      else
        let l1 = loss\<lparr>ls_sent := ls_sent loss @ [packet]\<rparr>;
            l2 = (if sp_in_flight packet
                  then l1\<lparr>ls_bytes_in_flight := ls_bytes_in_flight l1 + sp_size packet\<rparr> else l1);
            l3 = (if sp_ack_eliciting packet
                  then l2\<lparr>ls_ack_eliciting_in_flight := ls_ack_eliciting_in_flight l2 + 1\<rparr> else l2)
        in (WT_OK, l3))"

definition remove_packet :: "wt_quic_loss \<Rightarrow> nat \<Rightarrow> wt_quic_loss" where
  "remove_packet loss at =
     (let packet = ls_sent loss ! at;
          l1 = (if sp_in_flight packet
                then loss\<lparr>ls_bytes_in_flight := ls_bytes_in_flight loss -
                       (if ls_bytes_in_flight loss \<ge> sp_size packet then sp_size packet
                        else ls_bytes_in_flight loss)\<rparr>
                else loss);
          l2 = (if sp_ack_eliciting packet \<and> ls_ack_eliciting_in_flight l1 > 0
                then l1\<lparr>ls_ack_eliciting_in_flight := ls_ack_eliciting_in_flight l1 - 1\<rparr> else l1)
      in l2\<lparr>ls_sent := take at (ls_sent loss) @ drop (at + 1) (ls_sent loss)\<rparr>)"

text \<open>The status, whether the packet was newly acknowledged, and the state.\<close>

definition wt_quic_loss_on_ack :: "wt_quic_loss \<Rightarrow> u8 \<Rightarrow> u64 \<Rightarrow> wt_status \<times> bool \<times> wt_quic_loss" where
  "wt_quic_loss_on_ack loss space pn =
     (let at = find_packet loss space pn
      in if at = wt_quic_loss_count loss then (WT_OK, False, loss)
         else
           let was_ack_eliciting = sp_ack_eliciting (ls_sent loss ! at);
               l1 = remove_packet loss at
           in (WT_OK, True, if was_ack_eliciting then l1\<lparr>ls_pto_count := 0\<rparr> else l1))"

definition loss_delay :: "wt_quic_rtt option \<Rightarrow> u64" where
  "loss_delay rtt =
     (case rtt of None \<Rightarrow> 0
      | Some r \<Rightarrow>
          if \<not> rtt_has_sample r then 0
          else
            let base = (if rtt_smoothed r > rtt_latest r then rtt_smoothed r else rtt_latest r)
            in (base * WT_QUIC_TIME_THRESHOLD_NUMERATOR) div WT_QUIC_TIME_THRESHOLD_DENOMINATOR)"

text \<open>\<open>if (earliest == 0 || when < earliest) earliest = when\<close>, along a list of deadlines.\<close>

definition earliest_step :: "u64 \<Rightarrow> u64 \<Rightarrow> u64" where
  "earliest_step earliest at = (if earliest = 0 \<or> at < earliest then at else earliest)"

definition time_candidate :: "u8 \<Rightarrow> u64 \<Rightarrow> wt_quic_sent_packet \<Rightarrow> bool" where
  "time_candidate space largest_acked p \<longleftrightarrow>
     sp_packet_number_space p = space \<and> \<not> sp_packet_number p > largest_acked \<and>
     \<not> largest_acked \<ge> sp_packet_number p + WT_QUIC_PACKET_THRESHOLD"

definition wt_quic_loss_time :: "wt_quic_loss \<Rightarrow> u8 \<Rightarrow> wt_quic_rtt option \<Rightarrow> u64 \<Rightarrow> u64" where
  "wt_quic_loss_time loss space rtt largest_acked =
     (let delay = loss_delay rtt
      in if delay = 0 then 0
         else foldl (\<lambda>earliest p. if time_candidate space largest_acked p
                                  then earliest_step earliest (sp_time_sent p + delay) else earliest)
                0 (ls_sent loss))"

text \<open>
  The removal loop of \<open>wt_quic_loss_detect\<close> and \<open>wt_quic_loss_discard_space\<close>: the index stays put when
  a packet is removed, since the next one moves into its place.
\<close>

lemma length_remove_packet:
  "at < length (ls_sent loss) \<Longrightarrow> length (ls_sent (remove_packet loss at)) = length (ls_sent loss) - 1"
  by (simp add: remove_packet_def Let_def)

function remove_loop ::
  "(wt_quic_sent_packet \<Rightarrow> bool) \<Rightarrow> nat \<Rightarrow> wt_quic_loss \<Rightarrow> wt_quic_sent_packet list \<Rightarrow>
   wt_quic_loss \<times> wt_quic_sent_packet list" where
  "remove_loop gone i loss visited =
     (if i < wt_quic_loss_count loss
      then if \<not> gone (ls_sent loss ! i) then remove_loop gone (Suc i) loss visited
           else remove_loop gone i (remove_packet loss i) (visited @ [ls_sent loss ! i])
      else (loss, visited))"
  by pat_completeness auto
termination
  by (relation "measure (\<lambda>(gone, i, loss, visited). wt_quic_loss_count loss - i)")
    (auto simp: wt_quic_loss_count_def length_remove_packet)

declare remove_loop.simps [simp del]

definition packet_lost :: "u8 \<Rightarrow> u64 \<Rightarrow> u64 \<Rightarrow> u64 \<Rightarrow> wt_quic_sent_packet \<Rightarrow> bool" where
  "packet_lost space delay lost_send_time largest_acked p \<longleftrightarrow>
     (if sp_packet_number_space p = space \<and> sp_packet_number p \<le> largest_acked then
        if largest_acked \<ge> sp_packet_number p + WT_QUIC_PACKET_THRESHOLD then True
        else delay \<noteq> 0 \<and> sp_time_sent p \<le> lost_send_time
      else False)"

definition wt_quic_loss_detect ::
  "wt_quic_loss \<Rightarrow> u8 \<Rightarrow> wt_quic_rtt option \<Rightarrow> u64 \<Rightarrow> u64 \<Rightarrow> wt_quic_loss \<times> wt_quic_sent_packet list" where
  "wt_quic_loss_detect loss space rtt now largest_acked =
     (let delay = loss_delay rtt;
          lost_send_time = (if now > delay then now - delay else 0)
      in case remove_loop (packet_lost space delay lost_send_time largest_acked) 0 loss [] of
           (l1, visited) \<Rightarrow>
             (l1\<lparr>ls_loss_time := wt_quic_loss_time l1 space rtt largest_acked\<rparr>, visited))"

definition wt_quic_loss_pto :: "wt_quic_loss \<Rightarrow> u8 \<Rightarrow> wt_quic_rtt \<Rightarrow> u64 \<Rightarrow> u64 wt_result" where
  "wt_quic_loss_pto loss space rtt max_ack_delay =
     (if ls_ack_eliciting_in_flight loss = 0 then Inl WT_ERR_STATE
      else case wt_quic_rtt_pto rtt max_ack_delay of
        Inl status \<Rightarrow> Inl status
      | Inr base_pto \<Rightarrow>
          let base_pto = ((\<lambda>b. b * 2) ^^ min (unat (ls_pto_count loss)) (unat WT_QUIC_PTO_MAX_BACKOFF)) base_pto;
              earliest = foldl (\<lambda>earliest p. if sp_packet_number_space p \<noteq> space then earliest
                                             else if \<not> sp_ack_eliciting p then earliest
                                             else earliest_step earliest (sp_time_sent p + base_pto))
                           0 (ls_sent loss)
          in if earliest = 0 then Inl WT_ERR_STATE else Inr earliest)"

definition wt_quic_loss_on_pto :: "wt_quic_loss \<Rightarrow> wt_quic_loss" where
  "wt_quic_loss_on_pto loss =
     (if ls_pto_count loss < WT_QUIC_PTO_MAX_BACKOFF then loss\<lparr>ls_pto_count := ls_pto_count loss + 1\<rparr>
      else loss)"

definition wt_quic_loss_bytes_in_flight :: "wt_quic_loss \<Rightarrow> u64" where
  "wt_quic_loss_bytes_in_flight loss = ls_bytes_in_flight loss"

definition wt_quic_loss_ack_eliciting_in_flight :: "wt_quic_loss \<Rightarrow> u64" where
  "wt_quic_loss_ack_eliciting_in_flight loss = ls_ack_eliciting_in_flight loss"

text \<open>The number discarded, the packets visited, and the state.\<close>

definition wt_quic_loss_discard_space ::
  "wt_quic_loss \<Rightarrow> u8 \<Rightarrow> nat \<times> wt_quic_sent_packet list \<times> wt_quic_loss" where
  "wt_quic_loss_discard_space loss space =
     (case remove_loop (\<lambda>p. sp_packet_number_space p = space) 0 loss [] of
        (l1, visited) \<Rightarrow>
          (length visited, visited, if length visited > 0 then l1\<lparr>ls_loss_time := 0\<rparr> else l1))"

lemmas loss_constants =
  WT_QUIC_PTO_MAX_BACKOFF_def WT_QUIC_SENT_PACKETS_MAX_def WT_QUIC_PACKET_THRESHOLD_def
  WT_QUIC_TIME_THRESHOLD_NUMERATOR_def WT_QUIC_TIME_THRESHOLD_DENOMINATOR_def

subsection \<open>Accounting invariant\<close>

abbreviation packet_key :: "wt_quic_sent_packet \<Rightarrow> u8 \<times> u64" where
  "packet_key p \<equiv> (sp_packet_number_space p, sp_packet_number p)"

definition flight_bytes :: "wt_quic_sent_packet list \<Rightarrow> nat" where
  "flight_bytes ps = sum_list (map (\<lambda>p. if sp_in_flight p then unat (sp_size p) else 0) ps)"

definition eliciting_count :: "wt_quic_sent_packet list \<Rightarrow> nat" where
  "eliciting_count ps = length (filter sp_ack_eliciting ps)"

definition loss_inv :: "wt_quic_loss \<Rightarrow> bool" where
  "loss_inv l \<longleftrightarrow>
     length (ls_sent l) \<le> WT_QUIC_SENT_PACKETS_MAX \<and>
     distinct (map packet_key (ls_sent l)) \<and>
     (\<forall>p\<in>set (ls_sent l). unat (sp_size p) \<le> 2 ^ 32) \<and>
     unat (ls_bytes_in_flight l) = flight_bytes (ls_sent l) \<and>
     unat (ls_ack_eliciting_in_flight l) = eliciting_count (ls_sent l)"

lemma flight_bytes_append [simp]: "flight_bytes (ps @ qs) = flight_bytes ps + flight_bytes qs"
  by (simp add: flight_bytes_def)

lemma flight_bytes_Cons [simp]:
  "flight_bytes (p # ps) = (if sp_in_flight p then unat (sp_size p) else 0) + flight_bytes ps"
  by (simp add: flight_bytes_def)

lemma eliciting_count_append [simp]: "eliciting_count (ps @ qs) = eliciting_count ps + eliciting_count qs"
  by (simp add: eliciting_count_def)

lemma eliciting_count_Cons [simp]:
  "eliciting_count (p # ps) = (if sp_ack_eliciting p then 1 else 0) + eliciting_count ps"
  by (simp add: eliciting_count_def)

lemma flight_bytes_bound:
  "\<forall>p\<in>set ps. unat (sp_size p) \<le> 2 ^ 32 \<Longrightarrow> flight_bytes ps \<le> length ps * 2 ^ 32"
  by (induction ps) (auto simp: flight_bytes_def)

lemma eliciting_count_bound: "eliciting_count ps \<le> length ps"
  by (simp add: eliciting_count_def)

lemma loss_inv_init: "loss_inv wt_quic_loss_init"
  by (simp add: loss_inv_def wt_quic_loss_init_def flight_bytes_def eliciting_count_def)

lemma find_packet_from_le: "find_packet_from ps space pn \<le> length ps"
  by (induction ps) auto

lemma find_packet_from_absent:
  "find_packet_from ps space pn = length ps \<longleftrightarrow> (space, pn) \<notin> packet_key ` set ps"
  by (induction ps) auto

lemma find_packet_from_found:
  "find_packet_from ps space pn < length ps \<Longrightarrow> packet_key (ps ! find_packet_from ps space pn) = (space, pn)"
  by (induction ps) (auto split: if_splits)

lemma remove_packet_split:
  assumes "at < length (ls_sent l)"
  shows "ls_sent l = take at (ls_sent l) @ ls_sent l ! at # drop (Suc at) (ls_sent l)"
    and "ls_sent (remove_packet l at) = take at (ls_sent l) @ drop (Suc at) (ls_sent l)"
  using assms by (auto simp: id_take_nth_drop remove_packet_def Let_def)

lemma remove_packet_other [simp]:
  "ls_pto_count (remove_packet l at) = ls_pto_count l" "ls_loss_time (remove_packet l at) = ls_loss_time l"
  by (simp_all add: remove_packet_def Let_def)

lemma loss_inv_remove:
  assumes inv: "loss_inv l" and at: "at < length (ls_sent l)"
  shows "loss_inv (remove_packet l at)"
proof -
  define p where "p = ls_sent l ! at"
  obtain qs rs where split: "ls_sent l = qs @ p # rs" "ls_sent (remove_packet l at) = qs @ rs"
    using remove_packet_split [OF at] unfolding p_def by blast
  have size: "sp_in_flight p \<Longrightarrow> sp_size p \<le> ls_bytes_in_flight l"
    using inv split by (simp add: loss_inv_def word_le_nat_alt)
  have pos: "sp_ack_eliciting p \<Longrightarrow> ls_ack_eliciting_in_flight l > 0"
    using inv split by (simp add: loss_inv_def word_less_nat_alt)
  have "ls_bytes_in_flight (remove_packet l at) =
      (if sp_in_flight p then ls_bytes_in_flight l - sp_size p else ls_bytes_in_flight l)"
    using size by (auto simp: remove_packet_def Let_def p_def)
  then have "unat (ls_bytes_in_flight (remove_packet l at)) = flight_bytes (qs @ rs)"
    using inv size split by (auto simp: loss_inv_def unat_sub_le)
  moreover have "ls_ack_eliciting_in_flight (remove_packet l at) =
      (if sp_ack_eliciting p then ls_ack_eliciting_in_flight l - 1 else ls_ack_eliciting_in_flight l)"
    using pos by (auto simp: remove_packet_def Let_def p_def)
  then have "unat (ls_ack_eliciting_in_flight (remove_packet l at)) = eliciting_count (qs @ rs)"
    using inv pos split by (auto simp: loss_inv_def unat_minus_one)
  moreover have "length (qs @ rs) \<le> WT_QUIC_SENT_PACKETS_MAX" "distinct (map packet_key (qs @ rs))"
      "\<forall>p\<in>set (qs @ rs). unat (sp_size p) \<le> 2 ^ 32"
    using inv split by (auto simp: loss_inv_def)
  ultimately show ?thesis
    unfolding loss_inv_def split(2) by blast
qed

lemma loss_inv_on_sent:
  assumes inv: "loss_inv l" and size: "unat (sp_size p) \<le> 2 ^ 32"
  shows "loss_inv (snd (wt_quic_loss_on_sent l p))"
proof (cases "fst (wt_quic_loss_on_sent l p) = WT_OK")
  case False
  then have "snd (wt_quic_loss_on_sent l p) = l"
    by (auto simp: wt_quic_loss_on_sent_def Let_def split: if_splits)
  with inv show ?thesis by simp
next
  case True
  then have new: "packet_key p \<notin> packet_key ` set (ls_sent l)"
    and room: "length (ls_sent l) \<noteq> WT_QUIC_SENT_PACKETS_MAX"
    by (auto simp: wt_quic_loss_on_sent_def find_packet_def wt_quic_loss_count_def find_packet_from_absent
        Let_def split: if_splits)
  then have len: "length (ls_sent l) < 64" using inv by (simp add: loss_inv_def loss_constants)
  have fb: "flight_bytes (ls_sent l) \<le> 64 * 2 ^ 32" and ec: "eliciting_count (ls_sent l) \<le> 64"
    using inv flight_bytes_bound [of "ls_sent l"] eliciting_count_bound [of "ls_sent l"] len
    by (auto simp: loss_inv_def)
  define l' where "l' = snd (wt_quic_loss_on_sent l p)"
  have l': "ls_sent l' = ls_sent l @ [p]"
    "ls_bytes_in_flight l' = ls_bytes_in_flight l + (if sp_in_flight p then sp_size p else 0)"
    "ls_ack_eliciting_in_flight l' = ls_ack_eliciting_in_flight l + (if sp_ack_eliciting p then 1 else 0)"
    using new room
    by (auto simp: l'_def wt_quic_loss_on_sent_def find_packet_def wt_quic_loss_count_def
        find_packet_from_absent Let_def)
  have "unat (ls_bytes_in_flight l') = flight_bytes (ls_sent l')"
    using inv fb size by (auto simp: l' loss_inv_def unat_add_no_wrap flight_bytes_def)
  moreover have "unat (ls_ack_eliciting_in_flight l') = eliciting_count (ls_sent l')"
    using inv ec by (auto simp: l' loss_inv_def unat_add_no_wrap eliciting_count_def)
  moreover have "length (ls_sent l') \<le> WT_QUIC_SENT_PACKETS_MAX" "distinct (map packet_key (ls_sent l'))"
      "\<forall>p\<in>set (ls_sent l'). unat (sp_size p) \<le> 2 ^ 32"
    using inv len new size by (auto simp: l' loss_inv_def loss_constants)
  ultimately show ?thesis
    unfolding l'_def [symmetric] loss_inv_def by blast
qed

text \<open>The index loop is a partition of the list, in order.\<close>

lemma remove_loop_spec:
  "i \<le> length (ls_sent l) \<Longrightarrow>
   ls_sent (fst (remove_loop gone i l visited)) =
     take i (ls_sent l) @ filter (\<lambda>p. \<not> gone p) (drop i (ls_sent l)) \<and>
   snd (remove_loop gone i l visited) = visited @ filter gone (drop i (ls_sent l)) \<and>
   ls_pto_count (fst (remove_loop gone i l visited)) = ls_pto_count l \<and>
   ls_loss_time (fst (remove_loop gone i l visited)) = ls_loss_time l \<and>
   (loss_inv l \<longrightarrow> loss_inv (fst (remove_loop gone i l visited)))"
proof (induction gone i l visited rule: remove_loop.induct)
  case (1 gone i l visited)
  show ?case
  proof (cases "i < length (ls_sent l)")
    case False
    then have "remove_loop gone i l visited = (l, visited)"
      by (simp add: remove_loop.simps [of gone i] wt_quic_loss_count_def)
    with False 1(3) show ?thesis by simp
  next
    case True
    then have d: "drop i (ls_sent l) = ls_sent l ! i # drop (Suc i) (ls_sent l)"
      and t: "take (Suc i) (ls_sent l) = take i (ls_sent l) @ [ls_sent l ! i]"
      by (simp_all add: Cons_nth_drop_Suc take_Suc_conv_app_nth)
    show ?thesis
    proof (cases "gone (ls_sent l ! i)")
      case False
      with True have "remove_loop gone i l visited = remove_loop gone (Suc i) l visited"
        by (simp add: remove_loop.simps [of gone i] wt_quic_loss_count_def)
      with 1(1) True False show ?thesis by (simp add: wt_quic_loss_count_def d t)
    next
      case gone: True
      with True have "remove_loop gone i l visited =
          remove_loop gone i (remove_packet l i) (visited @ [ls_sent l ! i])"
        by (simp add: remove_loop.simps [of gone i l] wt_quic_loss_count_def)
      with 1(2) True gone loss_inv_remove [of l i] show ?thesis
        by (simp add: wt_quic_loss_count_def remove_packet_split(2) d)
    qed
  qed
qed

lemmas remove_loop_all = remove_loop_spec [of 0, simplified]

subsection \<open>Deadlines\<close>

text \<open>The running minimum with 0 for none is the minimum of the deadlines, when none of them is 0.\<close>

lemma earliest_fold:
  assumes "\<forall>p\<in>set ps. P p \<longrightarrow> f p \<noteq> 0"
  shows "foldl (\<lambda>e p. if P p then earliest_step e (f p) else e) 0 ps =
           (if filter P ps = [] then 0 else Min (f ` set (filter P ps)))"
  using assms
proof (induction ps rule: rev_induct)
  case (snoc p ps)
  let ?M = "Min (f ` set (filter P ps))"
  show ?case
  proof (cases "P p \<and> filter P ps \<noteq> []")
    case True
    then have "?M \<in> f ` set (filter P ps)" by (intro Min_in) (auto simp: filter_empty_conv)
    with snoc.prems have "?M \<noteq> 0" by auto
    moreover have "Min (f ` set (filter P (ps @ [p]))) = min (f p) ?M"
      using True by (auto simp: filter_empty_conv intro!: Min_insert)
    moreover have "foldl (\<lambda>e p. if P p then earliest_step e (f p) else e) 0 (ps @ [p]) = earliest_step ?M (f p)"
      using True snoc by simp
    ultimately show ?thesis
      using True by (simp add: earliest_step_def min_def not_le le_less)
  next
    case False
    then have "P p \<Longrightarrow> f ` set (filter P (ps @ [p])) = {f p}" by auto
    with False snoc show ?thesis by (auto simp: earliest_step_def simp del: set_filter)
  qed
qed simp

subsection \<open>Runs\<close>

datatype loss_op =
    SENT wt_quic_sent_packet
  | ACK u8 u64
  | DETECT u8 "wt_quic_rtt option" u64 u64
  | DISCARD u8
  | PTO

fun loss_step :: "wt_quic_loss \<Rightarrow> loss_op \<Rightarrow> wt_quic_loss" where
  "loss_step l (SENT p) = snd (wt_quic_loss_on_sent l p)"
| "loss_step l (ACK space pn) = snd (snd (wt_quic_loss_on_ack l space pn))"
| "loss_step l (DETECT space rtt now la) = fst (wt_quic_loss_detect l space rtt now la)"
| "loss_step l (DISCARD space) = snd (snd (wt_quic_loss_discard_space l space))"
| "loss_step l PTO = wt_quic_loss_on_pto l"

lemma loss_inv_update [simp]:
  "loss_inv (l\<lparr>ls_pto_count := n\<rparr>) = loss_inv l" "loss_inv (l\<lparr>ls_loss_time := t\<rparr>) = loss_inv l"
  by (simp_all add: loss_inv_def)

lemma loss_inv_step:
  assumes "loss_inv l" "\<forall>p. op = SENT p \<longrightarrow> unat (sp_size p) \<le> 2 ^ 32"
  shows "loss_inv (loss_step l op)"
proof (cases op)
  case (ACK space pn)
  with assms(1) find_packet_from_le [of "ls_sent l" space pn] show ?thesis
    by (auto simp: wt_quic_loss_on_ack_def Let_def find_packet_def wt_quic_loss_count_def
        intro!: loss_inv_remove)
next
  case (DETECT space rtt now la)
  with assms(1) remove_loop_all show ?thesis
    by (simp add: wt_quic_loss_detect_def Let_def split_beta)
next
  case (DISCARD space)
  with assms(1) remove_loop_all show ?thesis
    by (simp add: wt_quic_loss_discard_space_def split_beta)
qed (use assms in \<open>simp_all add: loss_inv_on_sent wt_quic_loss_on_pto_def\<close>)

lemma loss_inv_run:
  assumes "loss_inv l" "\<forall>p. SENT p \<in> set ops \<longrightarrow> unat (sp_size p) \<le> 2 ^ 32"
  shows "loss_inv (foldl loss_step l ops)"
  using assms by (induction ops arbitrary: l) (auto simp: loss_inv_step)

subsection \<open>Properties\<close>

lemma wt_quic_loss_accounting_parts:
  fixes ops :: "loss_op list"
  defines "l \<equiv> foldl loss_step wt_quic_loss_init ops"
  assumes "\<forall>p. SENT p \<in> set ops \<longrightarrow> unat (sp_size p) \<le> 2 ^ 32"
  shows "unat (wt_quic_loss_bytes_in_flight l) =
           sum_list (map (\<lambda>p. unat (sp_size p)) (filter sp_in_flight (ls_sent l)))"
    and "unat (wt_quic_loss_ack_eliciting_in_flight l) = length (filter sp_ack_eliciting (ls_sent l))"
    and "distinct (map (\<lambda>p. (sp_packet_number_space p, sp_packet_number p)) (ls_sent l))"
    and "wt_quic_loss_count l \<le> 64"
proof -
  have "loss_inv l"
    unfolding l_def using assms(2) by (intro loss_inv_run loss_inv_init) simp
  moreover have "flight_bytes ps = sum_list (map (\<lambda>p. unat (sp_size p)) (filter sp_in_flight ps))" for ps
    by (simp add: flight_bytes_def sum_list_map_filter')
  ultimately show "unat (wt_quic_loss_bytes_in_flight l) =
           sum_list (map (\<lambda>p. unat (sp_size p)) (filter sp_in_flight (ls_sent l)))"
    "unat (wt_quic_loss_ack_eliciting_in_flight l) = length (filter sp_ack_eliciting (ls_sent l))"
    "distinct (map (\<lambda>p. (sp_packet_number_space p, sp_packet_number p)) (ls_sent l))"
    "wt_quic_loss_count l \<le> 64"
    by (simp_all add: loss_inv_def wt_quic_loss_bytes_in_flight_def wt_quic_loss_count_def loss_constants
        wt_quic_loss_ack_eliciting_in_flight_def eliciting_count_def)
qed

definition sample_packet :: "u64 \<Rightarrow> u64 \<Rightarrow> wt_quic_sent_packet" where
  "sample_packet pn t = \<lparr>sp_packet_number_space = 2, sp_packet_number = pn, sp_time_sent = t, sp_size = 1200,
     sp_tag = 0, sp_ack_eliciting = True, sp_in_flight = True\<rparr>"

text \<open>C13: Over any history of sent packets (each at most \<open>2^32\<close> bytes), acknowledgements, loss detections,
  discarded spaces and probe timeouts, the bytes in flight are exactly the sum of the sizes of the
  recorded in-flight packets and the ack-eliciting counter exactly their number, no packet is recorded
  twice, and at most 64 are.\<close>

theorem wt_quic_loss_accounting:
  fixes ops :: "loss_op list"
  defines "l \<equiv> foldl loss_step wt_quic_loss_init ops"
  assumes "\<forall>p. SENT p \<in> set ops \<longrightarrow> unat (sp_size p) \<le> 2 ^ 32"
  shows "(unat (wt_quic_loss_bytes_in_flight l) =
           sum_list (map (\<lambda>p. unat (sp_size p)) (filter sp_in_flight (ls_sent l)))) \<and>
    (unat (wt_quic_loss_ack_eliciting_in_flight l) = length (filter sp_ack_eliciting (ls_sent l))) \<and>
    (distinct (map (\<lambda>p. (sp_packet_number_space p, sp_packet_number p)) (ls_sent l))) \<and>
    (wt_quic_loss_count l \<le> 64)"
  unfolding l_def using wt_quic_loss_accounting_parts [OF assms(2)] by blast

theorem wt_quic_loss_accounting_witness:
  "unat (wt_quic_loss_bytes_in_flight
     (foldl loss_step wt_quic_loss_init
        [SENT (sample_packet 0 10), SENT (sample_packet 1 20), ACK 2 1])) = 1200"
  by (subst wt_quic_loss_accounting [THEN conjunct1])
    (auto simp: sample_packet_def wt_quic_loss_init_def wt_quic_loss_on_sent_def Let_def find_packet_def
      wt_quic_loss_count_def wt_quic_loss_on_ack_def remove_packet_def loss_constants)

lemma wt_quic_loss_detect_exact_parts:
  fixes delay now :: u64
  assumes "delay = loss_delay rtt"
    and "wt_quic_loss_detect l space rtt now la = (l', visited)"
    and "unat la + 3 < 2 ^ 64"
    and "delay \<noteq> 0 \<longrightarrow> delay < now" "\<forall>p\<in>set (ls_sent l). unat (sp_time_sent p) + unat delay < 2 ^ 64"
  defines "lost \<equiv> \<lambda>p. sp_packet_number_space p = space \<and> unat (sp_packet_number p) \<le> unat la \<and>
      (unat (sp_packet_number p) + 3 \<le> unat la \<or> delay \<noteq> 0 \<and> unat (sp_time_sent p) + unat delay \<le> unat now)"
  shows "visited = filter lost (ls_sent l)"
    and "ls_sent l' = filter (\<lambda>p. \<not> lost p) (ls_sent l)"
    and "ls_loss_time l' =
           (let ds = (\<lambda>p. sp_time_sent p + delay) `
                  {p \<in> set (ls_sent l'). sp_packet_number_space p = space \<and> sp_packet_number p \<le> la}
            in if delay = 0 \<or> ds = {} then 0 else Min ds)"
proof -
  define lst where "lst = (if now > delay then now - delay else 0)"
  have lost: "packet_lost space delay lst la p = lost p" if "p \<in> set (ls_sent l)" for p
  proof -
    have "sp_time_sent p \<le> lst \<longleftrightarrow> unat (sp_time_sent p) + unat delay \<le> unat now" if "delay \<noteq> 0"
      using assms(4) that by (auto simp: lst_def word_le_nat_alt word_less_nat_alt unat_sub_le)
    moreover have "la \<ge> sp_packet_number p + 3 \<longleftrightarrow> unat (sp_packet_number p) + 3 \<le> unat la"
      if "unat (sp_packet_number p) \<le> unat la"
      using that assms(3) by (simp add: word_le_nat_alt unat_add_no_wrap)
    ultimately show ?thesis
      using assms(4) by (auto simp: packet_lost_def lost_def loss_constants word_le_nat_alt)
  qed
  define res where "res = remove_loop (packet_lost space delay lst la) 0 l []"
  have l': "l' = (fst res)\<lparr>ls_loss_time := wt_quic_loss_time (fst res) space rtt la\<rparr>" "visited = snd res"
    using assms(2) by (auto simp: wt_quic_loss_detect_def Let_def split_beta assms(1) [symmetric]
        lst_def [symmetric] res_def [symmetric])
  note res = remove_loop_all [where l = l and gone = "packet_lost space delay lst la" and visited = "[]", folded res_def]
  show "visited = filter lost (ls_sent l)" "ls_sent l' = filter (\<lambda>p. \<not> lost p) (ls_sent l)"
    using res lost by (simp_all add: l' cong: filter_cong)
  then have kept: "p \<in> set (ls_sent l') \<Longrightarrow> p \<in> set (ls_sent l) \<and> \<not> lost p" for p by auto
  have cand: "time_candidate space la p \<longleftrightarrow> sp_packet_number_space p = space \<and> sp_packet_number p \<le> la"
    if "p \<in> set (ls_sent l')" for p
  proof -
    have "\<not> unat (sp_packet_number p) + 3 \<le> unat la" if "sp_packet_number_space p = space" "sp_packet_number p \<le> la"
      using kept [OF \<open>p \<in> set (ls_sent l')\<close>] that by (auto simp: lost_def word_le_nat_alt)
    then show ?thesis
      using assms(3)
      by (auto simp: time_candidate_def loss_constants not_less word_le_nat_alt unat_add_no_wrap)
  qed
  have nz: "sp_time_sent p + delay \<noteq> 0" if "p \<in> set (ls_sent l')" "delay \<noteq> 0" for p
  proof -
    have "unat (sp_time_sent p + delay) = unat (sp_time_sent p) + unat delay"
      using kept [OF that(1)] assms(5) by (intro unat_add_no_wrap) auto
    with that(2) show ?thesis by (metis add_is_0 unat_0 unat_eq_zero)
  qed
  have "ls_loss_time l' = (if delay = 0 then 0 else foldl (\<lambda>e p. if time_candidate space la p
      then earliest_step e (sp_time_sent p + delay) else e) 0 (ls_sent l'))"
    by (simp add: l' wt_quic_loss_time_def assms(1) [symmetric] Let_def)
  also have "\<dots> = (if delay = 0 \<or> filter (time_candidate space la) (ls_sent l') = [] then 0
      else Min ((\<lambda>p. sp_time_sent p + delay) ` set (filter (time_candidate space la) (ls_sent l'))))"
    using nz earliest_fold [of "ls_sent l'" "time_candidate space la" "\<lambda>p. sp_time_sent p + delay"] by auto
  also have "set (filter (time_candidate space la) (ls_sent l')) =
      {p \<in> set (ls_sent l'). sp_packet_number_space p = space \<and> sp_packet_number p \<le> la}"
    using cand by auto
  finally show "ls_loss_time l' =
           (let ds = (\<lambda>p. sp_time_sent p + delay) `
                  {p \<in> set (ls_sent l'). sp_packet_number_space p = space \<and> sp_packet_number p \<le> la}
            in if delay = 0 \<or> ds = {} then 0 else Min ds)"
    using cand by (auto simp: Let_def filter_empty_conv)
qed

text \<open>C14: Loss detection reports, in sending order and each exactly once, exactly the packets of the given
  space at or below the largest acknowledged that lie at least three numbers below it or were sent at
  least one loss delay ago; exactly those are removed, all others are kept in order, and the loss timer
  is the earliest time at which one of the remaining packets of the space crosses the time threshold.\<close>

theorem wt_quic_loss_detect_exact:
  fixes delay now :: u64
  assumes "delay = loss_delay rtt"
    and "wt_quic_loss_detect l space rtt now la = (l', visited)"
    and "unat la + 3 < 2 ^ 64"
    and "delay \<noteq> 0 \<longrightarrow> delay < now" "\<forall>p\<in>set (ls_sent l). unat (sp_time_sent p) + unat delay < 2 ^ 64"
  defines "lost \<equiv> \<lambda>p. sp_packet_number_space p = space \<and> unat (sp_packet_number p) \<le> unat la \<and>
      (unat (sp_packet_number p) + 3 \<le> unat la \<or> delay \<noteq> 0 \<and> unat (sp_time_sent p) + unat delay \<le> unat now)"
  shows "(visited = filter lost (ls_sent l)) \<and>
    (ls_sent l' = filter (\<lambda>p. \<not> lost p) (ls_sent l)) \<and>
    (ls_loss_time l' =
           (let ds = (\<lambda>p. sp_time_sent p + delay) `
                  {p \<in> set (ls_sent l'). sp_packet_number_space p = space \<and> sp_packet_number p \<le> la}
            in if delay = 0 \<or> ds = {} then 0 else Min ds))"
  unfolding lost_def using wt_quic_loss_detect_exact_parts [OF assms(1-5)] by blast

theorem wt_quic_loss_detect_exact_witness:
  "ls_sent (fst (wt_quic_loss_detect
       (wt_quic_loss_init\<lparr>ls_sent := [sample_packet 0 950, sample_packet 3 920, sample_packet 4 890]\<rparr>)
       2 (Some (wt_quic_rtt_update wt_quic_rtt_init 80 0 0 True)) 1000 4)) = [sample_packet 3 920]"
proof -
  let ?rtt = "Some (wt_quic_rtt_update wt_quic_rtt_init 80 0 0 True)"
  have delay: "90 = loss_delay ?rtt"
    by (simp add: loss_delay_def wt_quic_rtt_update_def wt_quic_rtt_init_def rtt_adjusted_def loss_constants)
  show ?thesis
    by (subst wt_quic_loss_detect_exact [OF delay prod.collapse [symmetric], THEN conjunct2, THEN conjunct1])
      (simp_all add: sample_packet_def wt_quic_loss_init_def)
qed

lemma unat_doubled:
  "unat b * 2 ^ k < 2 ^ 64 \<Longrightarrow> unat (((\<lambda>b::u64. b * 2) ^^ k) b) = unat b * 2 ^ k"
proof (induction k)
  case (Suc k)
  then have "unat (((\<lambda>b::u64. b * 2) ^^ k) b) = unat b * 2 ^ k" by simp
  with Suc.prems show ?case by (simp add: unat_word_ariths mult.commute)
qed simp

lemma Min_add_unat:
  assumes "finite S" "S \<noteq> {}" "\<forall>p\<in>S. unat (t p) + unat B < 2 ^ 64"
  shows "Min ((\<lambda>p. t p + (B::u64)) ` S) = of_nat (Min ((\<lambda>p. unat (t p)) ` S) + unat B)"
proof (rule Min_eqI)
  have "Min ((\<lambda>p. unat (t p)) ` S) \<in> (\<lambda>p. unat (t p)) ` S" using assms by (intro Min_in) auto
  then obtain q where q: "q \<in> S" "Min ((\<lambda>p. unat (t p)) ` S) = unat (t q)" by auto
  then show "of_nat (Min ((\<lambda>p. unat (t p)) ` S) + unat B) \<in> (\<lambda>p. t p + B) ` S" by auto
  fix y assume "y \<in> (\<lambda>p. t p + B) ` S"
  then obtain p where p: "p \<in> S" "y = t p + B" by auto
  with assms have "Min ((\<lambda>p. unat (t p)) ` S) \<le> unat (t p)" by (intro Min_le) auto
  with p q assms show "of_nat (Min ((\<lambda>p. unat (t p)) ` S) + unat B) \<le> y"
    by (simp add: word_le_nat_alt unat_add_no_wrap)
qed (use assms in auto)

text \<open>The probe timeout of a space is the earliest send time among its ack-eliciting packets plus the
  estimator's timeout doubled once per consecutive expiry, at most 16 times; without an ack-eliciting
  packet in flight or a round trip sample there is no timeout. (The clock is below \<open>2^62\<close> microseconds and
  the estimator's timeout positive and below \<open>2^44\<close>.)\<close>

lemma wt_quic_loss_pto_exact:
  fixes b :: u64 and space :: u8
  assumes "loss_inv l" "\<forall>p\<in>set (ls_sent l). unat (sp_time_sent p) < 2 ^ 62"
    and "rtt_has_sample rtt \<longrightarrow> wt_quic_rtt_pto rtt mad = Inr b" "0 < unat b" "unat b < 2 ^ 44"
  defines "ps \<equiv> filter (\<lambda>p. sp_packet_number_space p = space \<and> sp_ack_eliciting p) (ls_sent l)"
  shows "wt_quic_loss_pto l space rtt mad =
    (if \<not> rtt_has_sample rtt \<or> ps = [] then Inl WT_ERR_STATE
     else Inr (of_nat (Min ((\<lambda>p. unat (sp_time_sent p)) ` set ps) +
                       unat b * 2 ^ min (unat (ls_pto_count l)) 16)))"
proof (cases "rtt_has_sample rtt \<and> ls_ack_eliciting_in_flight l \<noteq> 0")
  case False
  have "ps = []" if "ls_ack_eliciting_in_flight l = 0"
    using that assms(1) by (auto simp: loss_inv_def eliciting_count_def ps_def filter_empty_conv)
  with False show ?thesis
    by (auto simp: wt_quic_loss_pto_def wt_quic_rtt_pto_def)
next
  case True
  define B where "B = ((\<lambda>b. b * 2) ^^ min (unat (ls_pto_count l)) 16) b"
  have k: "unat b * 2 ^ min (unat (ls_pto_count l)) 16 < 2 ^ 44 * 2 ^ 16"
    using assms(5) by (intro mult_less_le_imp_less power_increasing) simp_all
  then have B: "unat B = unat b * 2 ^ min (unat (ls_pto_count l)) 16"
    unfolding B_def by (intro unat_doubled) simp
  with k have small: "unat B < 2 ^ 60" by simp
  have ov: "\<forall>p\<in>set (ls_sent l). unat (sp_time_sent p) + unat B < 2 ^ 64"
    using assms(2) small by fastforce
  have "unat B \<noteq> 0" using B assms(4) by simp
  then have nz: "\<forall>p\<in>set (ls_sent l). sp_time_sent p + B \<noteq> 0"
    using ov by (metis add_is_0 unat_0 unat_add_no_wrap)
  let ?P = "\<lambda>p. sp_packet_number_space p = space \<and> sp_ack_eliciting p"
  have "foldl (\<lambda>e p. if sp_packet_number_space p \<noteq> space then e
      else if \<not> sp_ack_eliciting p then e else earliest_step e (sp_time_sent p + B)) 0 (ls_sent l) =
      foldl (\<lambda>e p. if ?P p then earliest_step e (sp_time_sent p + B) else e) 0 (ls_sent l)"
    by (intro foldl_cong) auto
  also have "\<dots> = (if ps = [] then 0 else Min ((\<lambda>p. sp_time_sent p + B) ` set ps))"
    unfolding ps_def using nz by (intro earliest_fold) auto
  finally have e: "foldl (\<lambda>e p. if sp_packet_number_space p \<noteq> space then e
      else if \<not> sp_ack_eliciting p then e else earliest_step e (sp_time_sent p + B)) 0 (ls_sent l) =
      (if ps = [] then 0 else Min ((\<lambda>p. sp_time_sent p + B) ` set ps))" .
  have sub: "set ps \<subseteq> set (ls_sent l)" by (auto simp: ps_def)
  have m: "Min ((\<lambda>p. sp_time_sent p + B) ` set ps) \<in> (\<lambda>p. sp_time_sent p + B) ` set ps" if "ps \<noteq> []"
    using that by (intro Min_in) auto
  have "Min ((\<lambda>p. sp_time_sent p + B) ` set ps) \<noteq> 0" if "ps \<noteq> []"
    using m [OF that] sub nz by auto
  moreover have "wt_quic_loss_pto l space rtt mad =
      (if (if ps = [] then 0 else Min ((\<lambda>p. sp_time_sent p + B) ` set ps)) = 0 then Inl WT_ERR_STATE
       else Inr (if ps = [] then 0 else Min ((\<lambda>p. sp_time_sent p + B) ` set ps)))"
    using True assms(3) by (simp add: wt_quic_loss_pto_def loss_constants Let_def B_def [symmetric] e)
  moreover have "Min ((\<lambda>p. sp_time_sent p + B) ` set ps) =
      of_nat (Min ((\<lambda>p. unat (sp_time_sent p)) ` set ps) + unat B)" if "ps \<noteq> []"
    using that ov sub by (intro Min_add_unat) auto
  ultimately show ?thesis
    using True by (auto simp: B)
qed

end
