(* ===== verification/Packet_Header.thy ===== *)
theory Packet_Header
  imports Quic_Frame Packet_Number
begin

text \<open>
  QUIC packet headers (\<open>C99/src/quic/packet.c\<close>, \<open>packet_encode.c\<close>, \<open>packet_internal.h\<close>): the long,
  short and Retry shapes in both directions, the kind of a datagram, the two partial readers a
  listener uses, and the walk that finds the packet number of a header that is still protected.
  A pointer with its length is the list of those bytes; a datagram is the list of its bytes. The
  decoders fail with a status and, where the code stores one, a transport error code.
\<close>

definition WT_QUIC_MAX_CID_LEN :: nat where "WT_QUIC_MAX_CID_LEN = 20"
definition WT_QUIC_RETRY_INTEGRITY_TAG_LEN :: nat where "WT_QUIC_RETRY_INTEGRITY_TAG_LEN = 16"
definition WT_QUIC_VERSION_1 :: u32 where "WT_QUIC_VERSION_1 = 1"
definition WT_QUIC_VERSION_NEGOTIATION :: u32 where "WT_QUIC_VERSION_NEGOTIATION = 0"
definition WT_QUIC_FIXED_BIT :: u8 where "WT_QUIC_FIXED_BIT = 0x40"
definition WT_QUIC_LONG_HEADER_BIT :: u8 where "WT_QUIC_LONG_HEADER_BIT = 0x80"
definition WT_QUIC_KEY_PHASE_BIT :: u8 where "WT_QUIC_KEY_PHASE_BIT = 0x04"
definition WT_QUIC_SPIN_BIT :: u8 where "WT_QUIC_SPIN_BIT = 0x20"

datatype wt_quic_packet_type =
    WT_QUIC_PACKET_INITIAL
  | WT_QUIC_PACKET_ZERO_RTT
  | WT_QUIC_PACKET_HANDSHAKE
  | WT_QUIC_PACKET_RETRY

text \<open>The enumeration's values, and the conversion of the two type bits.\<close>

fun packet_type_bits :: "wt_quic_packet_type \<Rightarrow> u8" where
  "packet_type_bits WT_QUIC_PACKET_INITIAL = 0"
| "packet_type_bits WT_QUIC_PACKET_ZERO_RTT = 1"
| "packet_type_bits WT_QUIC_PACKET_HANDSHAKE = 2"
| "packet_type_bits WT_QUIC_PACKET_RETRY = 3"

definition packet_type_of :: "u8 \<Rightarrow> wt_quic_packet_type" where
  "packet_type_of type_bits =
     (if type_bits = 0 then WT_QUIC_PACKET_INITIAL else if type_bits = 1 then WT_QUIC_PACKET_ZERO_RTT
      else if type_bits = 2 then WT_QUIC_PACKET_HANDSHAKE else WT_QUIC_PACKET_RETRY)"

record wt_quic_long_header =
  lh_type :: wt_quic_packet_type
  lh_version :: u32
  lh_destination_connection_id :: "u8 list"
  lh_source_connection_id :: "u8 list"
  lh_token :: "u8 list"
  lh_packet_number :: u64
  lh_packet_number_len :: nat
  lh_payload :: "u8 list"
  lh_header :: "u8 list"
  lh_total_len :: nat
  lh_reserved_bits_set :: bool

record wt_quic_short_header =
  sh_key_phase :: bool
  sh_spin :: bool
  sh_reserved_bits_set :: bool
  sh_destination_connection_id :: "u8 list"
  sh_packet_number :: u64
  sh_packet_number_len :: nat
  sh_payload :: "u8 list"
  sh_header :: "u8 list"
  sh_total_len :: nat

record wt_quic_retry_packet =
  rp_version :: u32
  rp_destination_connection_id :: "u8 list"
  rp_source_connection_id :: "u8 list"
  rp_token :: "u8 list"
  rp_integrity_tag :: "u8 list"
  rp_header :: "u8 list"
  rp_total_len :: nat

datatype wt_quic_packet_kind =
    WT_QUIC_PACKET_KIND_LONG
  | WT_QUIC_PACKET_KIND_SHORT
  | WT_QUIC_PACKET_KIND_VERSION_NEGOTIATION

fun wt_quic_packet_type_name :: "wt_quic_packet_type \<Rightarrow> string" where
  "wt_quic_packet_type_name WT_QUIC_PACKET_INITIAL = ''initial''"
| "wt_quic_packet_type_name WT_QUIC_PACKET_ZERO_RTT = ''0-rtt''"
| "wt_quic_packet_type_name WT_QUIC_PACKET_HANDSHAKE = ''handshake''"
| "wt_quic_packet_type_name WT_QUIC_PACKET_RETRY = ''retry''"

definition packet_kind :: "u8 list \<Rightarrow> wt_quic_packet_kind wt_result" where
  "packet_kind data =
     (if length data = 0 then Inl WT_ERR_TRUNCATED
      else if data ! 0 AND WT_QUIC_LONG_HEADER_BIT = 0 then Inr WT_QUIC_PACKET_KIND_SHORT
      else if length data < 5 then Inl WT_ERR_TRUNCATED
      else if wt_load_be32 (drop 1 data) = WT_QUIC_VERSION_NEGOTIATION
      then Inr WT_QUIC_PACKET_KIND_VERSION_NEGOTIATION
      else Inr WT_QUIC_PACKET_KIND_LONG)"

subsection \<open>Reading\<close>

definition wt_quic_packet_fail :: "wt_quic_error \<Rightarrow> wt_status \<Rightarrow> 'a frame_reader" where
  "wt_quic_packet_fail code status = rfail (status, Some code)"

text \<open>A view of \<open>n\<close> bytes where NULL is a truncation only if some were asked for.\<close>

definition id_view :: "u64 \<Rightarrow> u8 list frame_reader" where
  "id_view n c =
     (case wt_cursor_bytes c n of
        (None, c') \<Rightarrow> if n \<noteq> 0 then (Inl (WT_ERR_TRUNCATED, None), c') else (Inr [], c')
      | (Some bs, c') \<Rightarrow> (Inr bs, c'))"

definition wt_quic_read_connection_id :: "u8 list frame_reader" where
  "wt_quic_read_connection_id =
     rbind (frame_bytes_view 1) (\<lambda>length_byte.
     let len = length_byte ! 0 in
     if unat len > WT_QUIC_MAX_CID_LEN then wt_quic_packet_fail WT_QUIC_PROTOCOL_VIOLATION WT_ERR_PROTOCOL
     else id_view (ucast len))"

text \<open>\<open>first = wt_cursor_u8(c); if (wt_cursor_failed(c)) return WT_ERR_TRUNCATED;\<close>\<close>

definition packet_first :: "u8 frame_reader" where
  "packet_first c =
     (case wt_cursor_u8 c of
        (first, c') \<Rightarrow> if wt_cursor_failed c' then (Inl (WT_ERR_TRUNCATED, None), c') else (Inr first, c'))"

text \<open>The bytes of a length read from the wire, with the failure of the narrowing to \<open>size_t\<close>.\<close>

definition packet_take :: "frame_fail \<Rightarrow> u64 \<Rightarrow> u8 list frame_reader" where
  "packet_take too_large n c =
     (case wt_checked_narrow_u64_to_size n of
        Inl _ \<Rightarrow> (Inl too_large, c)
      | Inr narrowed \<Rightarrow>
          if narrowed > wt_cursor_remaining c then (Inl (WT_ERR_TRUNCATED, None), c)
          else (case wt_cursor_bytes c narrowed of
                  (p, c') \<Rightarrow> (Inr (case p of None \<Rightarrow> [] | Some bs \<Rightarrow> bs), c')))"

definition reader_offset :: "u64 frame_reader" where
  "reader_offset c = (Inr (cur_offset c), c)"

text \<open>\<open>if (call(...) != WT_OK) return status;\<close> and nothing about the failure is kept.\<close>

definition failing_as :: "'e \<Rightarrow> ('f, 'a) xreader \<Rightarrow> ('e, 'a) xreader" where
  "failing_as e m c = (case m c of (Inl _, c') \<Rightarrow> (Inl e, c') | (Inr x, c') \<Rightarrow> (Inr x, c'))"

definition initial_token_walk :: "u8 list wt_reader" where
  "initial_token_walk =
     rbind (\<lambda>c. (Inr (), snd (wt_cursor_u8 c))) (\<lambda>_.
     rbind (rbytes 4) (\<lambda>version.
     if wt_load_be32 version = WT_QUIC_VERSION_NEGOTIATION then rfail WT_ERR_PROTOCOL
     else
       rbind (failing_as WT_ERR_TRUNCATED wt_quic_read_connection_id) (\<lambda>_.
       rbind (failing_as WT_ERR_TRUNCATED wt_quic_read_connection_id) (\<lambda>_.
       rbind (failing_as WT_ERR_TRUNCATED wt_quic_varint_decode) (\<lambda>token_length.
       if token_length = 0 then rreturn []
       else (\<lambda>c. if cur_offset c > cur_len c \<or> token_length > cur_len c - cur_offset c
                 then (Inl WT_ERR_TRUNCATED, c) else rbytes token_length c))))))"

definition wt_quic_initial_token :: "u8 list \<Rightarrow> u8 list wt_result" where
  "wt_quic_initial_token data =
     (if length data = 0 then Inl WT_ERR_TRUNCATED
      else
        let first = data ! 0
        in if first AND WT_QUIC_LONG_HEADER_BIT = 0 \<or> first AND WT_QUIC_FIXED_BIT = 0
           then Inl WT_ERR_PROTOCOL
           else if packet_type_of (drop_bit 4 (first AND 0x30)) \<noteq> WT_QUIC_PACKET_INITIAL
           then Inl WT_ERR_PROTOCOL
           else fst (initial_token_walk (cursor_of data)))"

definition connection_ids_walk :: "(u8 list \<times> u8 list) wt_reader" where
  "connection_ids_walk =
     rbind (\<lambda>c. (Inr (), snd (wt_cursor_u8 c))) (\<lambda>_.
     rbind (rbytes 4) (\<lambda>_.
     rbind (failing_as WT_ERR_TRUNCATED wt_quic_read_connection_id) (\<lambda>destination.
     rbind (failing_as WT_ERR_TRUNCATED wt_quic_read_connection_id) (\<lambda>source.
     rreturn (destination, source)))))"

definition wt_quic_long_header_connection_ids :: "u8 list \<Rightarrow> (u8 list \<times> u8 list) wt_result" where
  "wt_quic_long_header_connection_ids data =
     (if length data = 0 then Inl WT_ERR_TRUNCATED
      else
        let first = data ! 0
        in if first AND WT_QUIC_LONG_HEADER_BIT = 0 then Inl WT_ERR_PROTOCOL
           else if first AND WT_QUIC_FIXED_BIT = 0 then Inl WT_ERR_PROTOCOL
           else fst (connection_ids_walk (cursor_of data)))"

text \<open>The long form of the walk; the result is the offset of the packet number and the packet's length.\<close>

definition protected_walk :: "u8 \<Rightarrow> (u64 \<times> u64) frame_reader" where
  "protected_walk first =
     rbind (\<lambda>c. (Inr (), snd (wt_cursor_u8 c))) (\<lambda>_.
     rbind (frame_bytes_view 4) (\<lambda>version.
     if wt_load_be32 version = WT_QUIC_VERSION_NEGOTIATION then rfail (WT_ERR_INVALID_ARGUMENT, None)
     else
       let type = packet_type_of (drop_bit 4 first AND 0x03)
       in if type = WT_QUIC_PACKET_RETRY then rfail (WT_ERR_INVALID_ARGUMENT, None)
          else
            rbind wt_quic_read_connection_id (\<lambda>_.
            rbind wt_quic_read_connection_id (\<lambda>_.
            rbind (if type = WT_QUIC_PACKET_INITIAL
                   then rbind wt_quic_read_varint (packet_take (WT_ERR_OVERFLOW, None)) else rreturn []) (\<lambda>_.
            rbind wt_quic_read_varint (\<lambda>length_field.
            case wt_checked_narrow_u64_to_size length_field of
              Inl _ \<Rightarrow> rfail (WT_ERR_OVERFLOW, None)
            | Inr narrowed \<Rightarrow>
                (\<lambda>c. if narrowed > cur_len c - cur_offset c then (Inl (WT_ERR_TRUNCATED, None), c)
                     else (Inr (cur_offset c, cur_offset c + narrowed), c))))))))"

text \<open>The offset, the total length and the short-header flag.\<close>

definition wt_quic_protected_pn_offset :: "u8 list \<Rightarrow> nat \<Rightarrow> (nat \<times> nat \<times> bool) wt_result" where
  "wt_quic_protected_pn_offset data local_connection_id_len =
     (if length data = 0 then Inl WT_ERR_TRUNCATED
      else
        let first = data ! 0
        in if first AND WT_QUIC_LONG_HEADER_BIT = 0 then
             if local_connection_id_len > WT_QUIC_MAX_CID_LEN then Inl WT_ERR_INVALID_ARGUMENT
             else if length data < 1 + local_connection_id_len + 1 then Inl WT_ERR_TRUNCATED
             else Inr (1 + local_connection_id_len, length data, True)
           else
             (case protected_walk first (cursor_of data) of
                (Inl (status, _), _) \<Rightarrow> Inl status
              | (Inr (offset, total_len), _) \<Rightarrow> Inr (unat offset, unat total_len, False)))"

text \<open>The body behind the first byte; \<open>start\<close> is the cursor's offset when the decoder was entered.\<close>

definition long_header_body :: "u64 \<Rightarrow> u8 \<Rightarrow> wt_quic_long_header frame_reader" where
  "long_header_body start first =
     (let type = packet_type_of (drop_bit 4 first AND 0x03);
          packet_number_len = unat (first AND 0x03) + 1
      in if type = WT_QUIC_PACKET_RETRY then wt_quic_packet_fail WT_QUIC_PROTOCOL_VIOLATION WT_ERR_PROTOCOL
         else
           rbind (frame_bytes_view 4) (\<lambda>version.
           rbind wt_quic_read_connection_id (\<lambda>destination.
           rbind wt_quic_read_connection_id (\<lambda>source.
           rbind (if type = WT_QUIC_PACKET_INITIAL
                  then rbind wt_quic_read_varint
                         (packet_take (WT_ERR_OVERFLOW, Some WT_QUIC_FRAME_ENCODING_ERROR))
                  else rreturn []) (\<lambda>token.
           rbind wt_quic_read_varint (\<lambda>length_field.
           rbind (frame_bytes_view packet_number_len) (\<lambda>packet_number.
           rbind reader_offset (\<lambda>offset.
           if length_field < of_nat packet_number_len
           then wt_quic_packet_fail WT_QUIC_FRAME_ENCODING_ERROR WT_ERR_PROTOCOL
           else
             rbind (packet_take (WT_ERR_OVERFLOW, Some WT_QUIC_FRAME_ENCODING_ERROR)
                      (length_field - of_nat packet_number_len)) (\<lambda>payload. \<lambda>c.
             (Inr \<lparr>lh_type = type, lh_version = wt_load_be32 version,
                   lh_destination_connection_id = destination, lh_source_connection_id = source,
                   lh_token = token, lh_packet_number = foldl shift_or 0 packet_number,
                   lh_packet_number_len = packet_number_len, lh_payload = payload,
                   lh_header = (case cur_data c of None \<Rightarrow> []
                                | Some d \<Rightarrow> take (unat (offset - start)) (drop (unat start) d)),
                   lh_total_len = unat (offset - start) + length payload,
                   lh_reserved_bits_set = (first AND 0x0c \<noteq> 0)\<rparr>, c))))))))))"

definition wt_quic_long_header_decode :: "wt_quic_long_header frame_reader" where
  "wt_quic_long_header_decode c =
     (let start = cur_offset c
      in rbind packet_first (\<lambda>first.
         if first AND WT_QUIC_LONG_HEADER_BIT = 0
         then wt_quic_packet_fail WT_QUIC_PROTOCOL_VIOLATION WT_ERR_PROTOCOL
         else if first AND WT_QUIC_FIXED_BIT = 0
         then wt_quic_packet_fail WT_QUIC_PROTOCOL_VIOLATION WT_ERR_PROTOCOL
         else long_header_body start first) c)"

definition wt_quic_short_header_decode :: "nat \<Rightarrow> wt_quic_short_header frame_reader" where
  "wt_quic_short_header_decode destination_connection_id_len c =
     (if destination_connection_id_len > WT_QUIC_MAX_CID_LEN then (Inl (WT_ERR_INVALID_ARGUMENT, None), c)
      else
        let start = cur_offset c
        in rbind packet_first (\<lambda>first.
           if first AND WT_QUIC_LONG_HEADER_BIT \<noteq> 0
           then wt_quic_packet_fail WT_QUIC_PROTOCOL_VIOLATION WT_ERR_PROTOCOL
           else if first AND WT_QUIC_FIXED_BIT = 0
           then wt_quic_packet_fail WT_QUIC_PROTOCOL_VIOLATION WT_ERR_PROTOCOL
           else
             let packet_number_len = unat (first AND 0x03) + 1 in
             rbind (id_view (of_nat destination_connection_id_len)) (\<lambda>destination.
             rbind (frame_bytes_view packet_number_len) (\<lambda>packet_number.
             rbind decode_rest (\<lambda>payload. \<lambda>c.
             let header_len = packet_number_len + 1 + destination_connection_id_len in
             (Inr \<lparr>sh_key_phase = (first AND WT_QUIC_KEY_PHASE_BIT \<noteq> 0),
                   sh_spin = (first AND WT_QUIC_SPIN_BIT \<noteq> 0),
                   sh_reserved_bits_set = (first AND 0x18 \<noteq> 0),
                   sh_destination_connection_id = destination,
                   sh_packet_number = foldl shift_or 0 packet_number,
                   sh_packet_number_len = packet_number_len, sh_payload = payload,
                   sh_header = (case cur_data c of None \<Rightarrow> []
                                | Some d \<Rightarrow> take header_len (drop (unat start) d)),
                   sh_total_len = header_len + length payload\<rparr>, c))))) c)"

definition retry_walk :: "u8 list \<Rightarrow> wt_quic_retry_packet frame_reader" where
  "retry_walk data =
     rbind (\<lambda>c. case wt_cursor_u8 c of (first, c') \<Rightarrow> (Inr first, c')) (\<lambda>first.
     if first AND WT_QUIC_LONG_HEADER_BIT = 0 \<or> first AND WT_QUIC_FIXED_BIT = 0
     then wt_quic_packet_fail WT_QUIC_PROTOCOL_VIOLATION WT_ERR_PROTOCOL
     else if packet_type_of (drop_bit 4 first AND 0x03) \<noteq> WT_QUIC_PACKET_RETRY
     then wt_quic_packet_fail WT_QUIC_PROTOCOL_VIOLATION WT_ERR_PROTOCOL
     else
       rbind (frame_bytes_view 4) (\<lambda>version.
       rbind wt_quic_read_connection_id (\<lambda>destination.
       rbind wt_quic_read_connection_id (\<lambda>source.
       rbind reader_offset (\<lambda>offset.
       let header_len = unat offset in
       if length data < header_len + WT_QUIC_RETRY_INTEGRITY_TAG_LEN then rfail (WT_ERR_TRUNCATED, None)
       else rreturn \<lparr>rp_version = wt_load_be32 version, rp_destination_connection_id = destination,
              rp_source_connection_id = source,
              rp_token = take (length data - header_len - WT_QUIC_RETRY_INTEGRITY_TAG_LEN) (drop header_len data),
              rp_integrity_tag = drop (length data - WT_QUIC_RETRY_INTEGRITY_TAG_LEN) data,
              rp_header = take header_len data, rp_total_len = length data\<rparr>)))))"

definition wt_quic_retry_packet_decode :: "u8 list \<Rightarrow> frame_fail + wt_quic_retry_packet" where
  "wt_quic_retry_packet_decode data =
     (if length data < 1 + 4 + 1 + 1 + WT_QUIC_RETRY_INTEGRITY_TAG_LEN then Inl (WT_ERR_TRUNCATED, None)
      else fst (retry_walk data (cursor_of data)))"

subsection \<open>Writing\<close>

definition wt_quic_write_connection_id :: "u8 list \<Rightarrow> wt_writer \<Rightarrow> wt_writer" where
  "wt_quic_write_connection_id cid w = wt_writer_bytes cid (wt_writer_u8 (of_nat (length cid)) w)"

definition long_header_encode ::
  "wt_quic_packet_type \<Rightarrow> u32 \<Rightarrow> u8 list \<Rightarrow> u8 list \<Rightarrow> u8 list \<Rightarrow> u64 \<Rightarrow> nat \<Rightarrow> u8 list \<Rightarrow> u64 \<Rightarrow> bool \<Rightarrow>
   wt_writer \<Rightarrow> wt_status \<times> wt_writer" where
  "long_header_encode type version destination source token packet_number packet_number_len payload
     payload_len with_payload w =
     (if type = WT_QUIC_PACKET_RETRY then (WT_ERR_INVALID_ARGUMENT, w)
      else if length destination > WT_QUIC_MAX_CID_LEN \<or> length source > WT_QUIC_MAX_CID_LEN
      then (WT_ERR_INVALID_ARGUMENT, w)
      else if packet_number_len = 0 \<or> packet_number_len > 4 then (WT_ERR_INVALID_ARGUMENT, w)
      else if type \<noteq> WT_QUIC_PACKET_INITIAL \<and> length token \<noteq> 0 then (WT_ERR_INVALID_ARGUMENT, w)
      else
        let first = WT_QUIC_LONG_HEADER_BIT OR WT_QUIC_FIXED_BIT OR push_bit 4 (packet_type_bits type)
                    OR of_nat (packet_number_len - 1);
            packet_number_bytes = wt_quic_packet_number_encode packet_number packet_number_len
        in if packet_number_len \<noteq> length packet_number_bytes then (WT_ERR_INVALID_ARGUMENT, w)
           else case wt_checked_add_size (of_nat packet_number_len) payload_len of
             Inl _ \<Rightarrow> (WT_ERR_OVERFLOW, w)
           | Inr length_field \<Rightarrow>
               if wt_quic_varint_size length_field = 0 then (WT_ERR_OVERFLOW, w)
               else
                 emit_status
                   ([wt_writer_u8 first, wt_writer_u32 version, wt_quic_write_connection_id destination,
                     wt_quic_write_connection_id source] @
                    (if type = WT_QUIC_PACKET_INITIAL
                     then [put_varint (of_nat (length token)), wt_writer_bytes token] else []) @
                    [put_varint length_field, wt_writer_bytes packet_number_bytes] @
                    (if with_payload then [wt_writer_bytes payload] else [])) w)"

definition wt_quic_long_header_encode ::
  "wt_quic_packet_type \<Rightarrow> u32 \<Rightarrow> u8 list \<Rightarrow> u8 list \<Rightarrow> u8 list \<Rightarrow> u64 \<Rightarrow> nat \<Rightarrow> u8 list \<Rightarrow>
   wt_writer \<Rightarrow> wt_status \<times> wt_writer" where
  "wt_quic_long_header_encode type version destination source token packet_number packet_number_len payload =
     long_header_encode type version destination source token packet_number packet_number_len payload
       (of_nat (length payload)) True"

definition wt_quic_long_header_encode_prefix ::
  "wt_quic_packet_type \<Rightarrow> u32 \<Rightarrow> u8 list \<Rightarrow> u8 list \<Rightarrow> u8 list \<Rightarrow> u64 \<Rightarrow> nat \<Rightarrow> u64 \<Rightarrow>
   wt_writer \<Rightarrow> wt_status \<times> wt_writer" where
  "wt_quic_long_header_encode_prefix type version destination source token packet_number packet_number_len
     payload_len =
     long_header_encode type version destination source token packet_number packet_number_len []
       payload_len False"

definition wt_quic_short_header_encode ::
  "u8 list \<Rightarrow> u64 \<Rightarrow> nat \<Rightarrow> bool \<Rightarrow> bool \<Rightarrow> u8 list \<Rightarrow> wt_writer \<Rightarrow> wt_status \<times> wt_writer" where
  "wt_quic_short_header_encode destination packet_number packet_number_len key_phase spin payload w =
     (if length destination > WT_QUIC_MAX_CID_LEN then (WT_ERR_INVALID_ARGUMENT, w)
      else if packet_number_len = 0 \<or> packet_number_len > 4 then (WT_ERR_INVALID_ARGUMENT, w)
      else
        let packet_number_bytes = wt_quic_packet_number_encode packet_number packet_number_len
        in if length packet_number_bytes \<noteq> packet_number_len then (WT_ERR_INVALID_ARGUMENT, w)
           else
             let first = WT_QUIC_FIXED_BIT OR of_nat (packet_number_len - 1);
                 first = (if spin then first OR WT_QUIC_SPIN_BIT else first);
                 first = (if key_phase then first OR WT_QUIC_KEY_PHASE_BIT else first)
             in emit_status [wt_writer_u8 first, wt_writer_bytes destination,
                  wt_writer_bytes packet_number_bytes, wt_writer_bytes payload] w)"

definition wt_quic_retry_packet_encode ::
  "u32 \<Rightarrow> u8 list \<Rightarrow> u8 list \<Rightarrow> u8 list \<Rightarrow> u8 list \<Rightarrow> wt_writer \<Rightarrow> wt_status \<times> wt_writer" where
  "wt_quic_retry_packet_encode version destination source token integrity_tag w =
     (if length destination > WT_QUIC_MAX_CID_LEN \<or> length source > WT_QUIC_MAX_CID_LEN
      then (WT_ERR_INVALID_ARGUMENT, w)
      else if length source = 0 then (WT_ERR_INVALID_ARGUMENT, w)
      else
        emit_status
          [wt_writer_u8 (WT_QUIC_LONG_HEADER_BIT OR WT_QUIC_FIXED_BIT OR
             push_bit 4 (packet_type_bits WT_QUIC_PACKET_RETRY)),
           wt_writer_u32 version, wt_quic_write_connection_id destination,
           wt_quic_write_connection_id source, wt_writer_bytes token, wt_writer_bytes integrity_tag] w)"

lemmas packet_constants =
  WT_QUIC_MAX_CID_LEN_def WT_QUIC_RETRY_INTEGRITY_TAG_LEN_def WT_QUIC_VERSION_NEGOTIATION_def
  WT_QUIC_FIXED_BIT_def WT_QUIC_LONG_HEADER_BIT_def WT_QUIC_KEY_PHASE_BIT_def WT_QUIC_SPIN_BIT_def

subsection \<open>Running readers from a given cursor\<close>

text \<open>Like \<open>reads\<close>, for one starting cursor: decoders that look at their own offset need it.\<close>

definition reads_from :: "wt_cursor \<Rightarrow> ('e, 'a) xreader \<Rightarrow> u8 list \<Rightarrow> 'a \<Rightarrow> bool" where
  "reads_from c m bs x \<longleftrightarrow>
     (\<forall>rest. cursor_ready c \<and> cursor_view c = bs @ rest \<longrightarrow> m c = (Inr x, cursor_advance c (length bs)))"

lemma reads_from_bind:
  assumes "reads m as x" "reads_from (cursor_advance c (length as)) (f x) bs y"
  shows "reads_from c (rbind m f) (as @ bs) y"
  unfolding reads_from_def
proof (intro allI impI)
  fix rest assume c: "cursor_ready c \<and> cursor_view c = (as @ bs) @ rest"
  then have "m c = (Inr x, cursor_advance c (length as))"
    using readsD [OF assms(1), of c "bs @ rest"] by simp
  moreover have "f x (cursor_advance c (length as)) =
      (Inr y, cursor_advance (cursor_advance c (length as)) (length bs))"
    using assms(2) c cursor_ready_advance [of c "length as"] by (auto simp: reads_from_def)
  ultimately show "rbind m f c = (Inr y, cursor_advance c (length (as @ bs)))"
    by (simp add: rbind_def cursor_advance_add)
qed

lemma rbind_Inr: "m c = (Inr x, c') \<Longrightarrow> rbind m f c = f x c'"
  by (simp add: rbind_def)

lemma rbindE:
  assumes "rbind m f c = (Inr y, c')"
  obtains x c1 where "m c = (Inr x, c1)" "f x c1 = (Inr y, c')"
  using assms by (auto simp: rbind_def split: prod.splits sum.splits)

subsection \<open>Fields\<close>

definition cid_bytes :: "u8 list \<Rightarrow> u8 list" where
  "cid_bytes cid = of_nat (length cid) # cid"

abbreviation cid_valid :: "u8 list \<Rightarrow> bool" where
  "cid_valid cid \<equiv> length cid \<le> WT_QUIC_MAX_CID_LEN"

lemma length_cid_bytes [simp]: "length (cid_bytes cid) = Suc (length cid)"
  by (simp add: cid_bytes_def)

lemma reads_id_view: "length bs < 2 ^ 64 \<Longrightarrow> reads (id_view (of_nat (length bs))) bs bs"
  by (simp add: reads_def id_view_def wt_cursor_bytes_def cursor_take_advance)

lemma reads_connection_id: "cid_valid cid \<Longrightarrow> reads wt_quic_read_connection_id (cid_bytes cid) cid"
proof -
  assume v: "cid_valid cid"
  then have len: "unat (of_nat (length cid) :: u8) = length cid"
    by (simp add: packet_constants unat_of_nat)
  then have "(ucast (of_nat (length cid) :: u8) :: u64) = of_nat (length cid)"
    by (metis of_nat_unat unat_ucast_u8_u64 word_of_nat_eqI)
  with v len reads_id_view [of cid] show ?thesis
    unfolding wt_quic_read_connection_id_def cid_bytes_def
    by (auto simp: Let_def packet_constants intro!: reads_byte_field)
qed

lemma reads_packet_first: "reads packet_first [b] b"
proof -
  have "wt_cursor_u8 c = (b, cursor_advance c 1)" "\<not> cur_failed (cursor_advance c 1)"
    if "cursor_ready c" "cursor_view c = b # rest" for c rest
    using cursor_take_advance [OF that(1), of 1] that cursor_ready_advance [of c 1]
    by (simp_all add: wt_cursor_u8_def cursor_ready_def)
  then show ?thesis
    by (auto simp: reads_def packet_first_def wt_cursor_failed_def)
qed

lemma reads_packet_take: "length bs < 2 ^ 64 \<Longrightarrow> reads (packet_take e (of_nat (length bs))) bs bs"
proof -
  assume len: "length bs < 2 ^ 64"
  have "\<not> of_nat (length bs) > wt_cursor_remaining c" if "cursor_ready c" "cursor_view c = bs @ rest" for c rest
    using that cursor_fits_iff [of c "of_nat (length bs)"] len
    by (auto simp: cursor_ready_def wt_cursor_remaining_def not_less unat_of_nat_u64)
  with len show ?thesis
    by (auto simp: reads_def packet_take_def wt_cursor_bytes_def cursor_take_advance)
qed

lemma reads_token:
  "bytes_valid token \<Longrightarrow>
   reads (rbind wt_quic_read_varint (packet_take e)) (varint_bytes (of_nat (length token)) @ token) token"
  by (rule reads_bind [OF reads_read_varint], erule varint_valid_length, rule reads_packet_take)
    (simp add: bytes_valid_def)

lemma load_store_be32 [simp]: "wt_load_be32 (wt_store_be32 v) = v"
  using unat_u32_less [of v] by (simp add: word_unat_eq_iff unat_wt_load wt_store_be_bytes)

subsection \<open>The first byte\<close>

definition long_first :: "wt_quic_packet_type \<Rightarrow> nat \<Rightarrow> u8" where
  "long_first type n = WT_QUIC_LONG_HEADER_BIT OR WT_QUIC_FIXED_BIT OR push_bit 4 (packet_type_bits type)
     OR of_nat (n - 1)"

lemma pn_len_cases: "1 \<le> n \<Longrightarrow> n \<le> 4 \<Longrightarrow> (n::nat) = 1 \<or> n = 2 \<or> n = 3 \<or> n = 4"
  by linarith

lemma long_first_bits:
  assumes "1 \<le> n" "n \<le> 4"
  shows "long_first type n AND WT_QUIC_LONG_HEADER_BIT \<noteq> 0" "long_first type n AND WT_QUIC_FIXED_BIT \<noteq> 0"
    "packet_type_of (drop_bit 4 (long_first type n) AND 0x03) = type"
    "unat (long_first type n AND 0x03) + 1 = n" "long_first type n AND 0x0c = 0"
  using pn_len_cases [OF assms]
  by (cases type; elim disjE; simp add: long_first_def packet_constants packet_type_of_def)+

definition short_first :: "nat \<Rightarrow> bool \<Rightarrow> bool \<Rightarrow> u8" where
  "short_first n spin key_phase =
     (let first = WT_QUIC_FIXED_BIT OR of_nat (n - 1);
          first = (if spin then first OR WT_QUIC_SPIN_BIT else first)
      in if key_phase then first OR WT_QUIC_KEY_PHASE_BIT else first)"

lemma short_first_bits:
  assumes "1 \<le> n" "n \<le> 4"
  shows "short_first n spin kp AND WT_QUIC_LONG_HEADER_BIT = 0" "short_first n spin kp AND WT_QUIC_FIXED_BIT \<noteq> 0"
    "short_first n spin kp AND WT_QUIC_SPIN_BIT \<noteq> 0 \<longleftrightarrow> spin"
    "short_first n spin kp AND WT_QUIC_KEY_PHASE_BIT \<noteq> 0 \<longleftrightarrow> kp"
    "unat (short_first n spin kp AND 0x03) + 1 = n" "short_first n spin kp AND 0x18 = 0"
  using pn_len_cases [OF assms]
  by (cases spin; cases kp; elim disjE; simp add: short_first_def packet_constants)+

lemma foldl_packet_number:
  assumes "1 \<le> n" "n \<le> 4"
  shows "foldl shift_or (0::u64) (wt_quic_packet_number_encode pn n) = of_nat (unat pn mod 256 ^ n)"
proof (rule word_of_nat_eqI)
  have "(256::nat) ^ n \<le> 256 ^ 4" using assms by (intro power_increasing) auto
  then show "unat (foldl shift_or (0::u64) (wt_quic_packet_number_encode pn n)) = unat pn mod 256 ^ n"
    using assms by (subst unat_foldl_shift_or) (simp_all add: packet_number_encode_nat)
qed

lemma length_packet_number_encode: "1 \<le> n \<Longrightarrow> n \<le> 4 \<Longrightarrow> length (wt_quic_packet_number_encode pn n) = n"
  by (simp add: packet_number_encode_nat)

subsection \<open>The long header\<close>

definition long_prefix_bytes ::
  "wt_quic_packet_type \<Rightarrow> u32 \<Rightarrow> u8 list \<Rightarrow> u8 list \<Rightarrow> u8 list \<Rightarrow> u64 \<Rightarrow> nat \<Rightarrow> nat \<Rightarrow> u8 list" where
  "long_prefix_bytes type version dcid scid token pn n payload_len =
     [long_first type n] @ wt_store_be32 version @ cid_bytes dcid @ cid_bytes scid @
     (if type = WT_QUIC_PACKET_INITIAL then varint_bytes (of_nat (length token)) @ token else []) @
     varint_bytes (of_nat (n + payload_len)) @ wt_quic_packet_number_encode pn n"

definition long_valid ::
  "wt_quic_packet_type \<Rightarrow> u8 list \<Rightarrow> u8 list \<Rightarrow> u8 list \<Rightarrow> nat \<Rightarrow> nat \<Rightarrow> bool" where
  "long_valid type dcid scid token n payload_len \<longleftrightarrow>
     type \<noteq> WT_QUIC_PACKET_RETRY \<and> cid_valid dcid \<and> cid_valid scid \<and> 1 \<le> n \<and> n \<le> 4 \<and>
     (type = WT_QUIC_PACKET_INITIAL \<or> token = []) \<and> bytes_valid token \<and> n + payload_len < 2 ^ 62"

lemma writes_write_cid: "writes (wt_quic_write_connection_id cid) (cid_bytes cid)"
  using writes_comp [OF writes_put [of "[of_nat (length cid)]"] writes_put [of cid]]
  by (simp add: wt_quic_write_connection_id_def [abs_def] wire_defs cid_bytes_def)

lemma checked_add_size_ok:
  "m + n < 2 ^ 64 \<Longrightarrow> wt_checked_add_size (of_nat m) (of_nat n) = Inr (of_nat (m + n))"
proof -
  assume h: "m + n < 2 ^ 64"
  have "unat ((- 1) - (of_nat m :: u64)) = 2 ^ 64 - 1 - m"
    using h by (subst unat_sub_le) (simp_all add: unat_of_nat_u64 unsigned_minus_1_eq_mask mask_eq_exp_minus_1)
  then have "\<not> (of_nat n :: u64) > (- 1) - of_nat m"
    using h by (simp add: word_less_nat_alt unat_of_nat_u64)
  then show ?thesis by (simp add: wt_checked_add_size_def)
qed

lemma long_header_encode_writes:
  fixes version :: u32 and pn :: u64
  assumes v: "long_valid type dcid scid token n plen" and p: "with_payload \<Longrightarrow> plen = length payload"
  defines "e \<equiv> long_header_encode type version dcid scid token pn n payload (of_nat plen) with_payload"
    and "bs \<equiv> long_prefix_bytes type version dcid scid token pn n plen @ (if with_payload then payload else [])"
  shows "writes (\<lambda>w. snd (e w)) bs" "fst (e w) = writer_status (snd (e w))"
proof -
  let ?fs = "[wt_writer_u8 (long_first type n), wt_writer_u32 version, wt_quic_write_connection_id dcid,
      wt_quic_write_connection_id scid] @
      (if type = WT_QUIC_PACKET_INITIAL then [put_varint (of_nat (length token)), wt_writer_bytes token] else []) @
      [put_varint (of_nat (n + plen)), wt_writer_bytes (wt_quic_packet_number_encode pn n)] @
      (if with_payload then [wt_writer_bytes payload] else [])"
  let ?bss = "[[long_first type n], wt_store_be32 version, cid_bytes dcid, cid_bytes scid] @
      (if type = WT_QUIC_PACKET_INITIAL then [varint_bytes (of_nat (length token)), token] else []) @
      [varint_bytes (of_nat (n + plen)), wt_quic_packet_number_encode pn n] @
      (if with_payload then [payload] else [])"
  have lf: "varint_valid (of_nat (n + plen))"
    using v unat_of_nat_u64 [of "n + plen"] by (simp add: long_valid_def varint_valid_unat)
  have e: "e = emit_status ?fs"
    using v lf checked_add_size_ok [of n plen]
    by (auto simp: e_def fun_eq_iff long_header_encode_def long_valid_def Let_def not_le
        length_packet_number_encode varint_size_pos long_first_def)
  have "list_all2 writes ?fs ?bss"
    using v lf by (auto simp: writes_write_cid wire_defs writes_varint varint_valid_length long_valid_def)
  from emit_status_writes [OF this] have w: "writes (\<lambda>w. snd (e w)) (concat ?bss)" unfolding e .
  have "concat ?bss = bs" by (simp add: bs_def long_prefix_bytes_def)
  with w show "writes (\<lambda>w. snd (e w)) bs" by metis
  show "fst (e w) = writer_status (snd (e w))" unfolding e by (rule emit_status_fst)
qed

lemma reads_from_final:
  assumes "reads m as x" "\<And>rest. cursor_ready c \<Longrightarrow> cursor_view c = as @ rest \<Longrightarrow>
     f x (cursor_advance c (length as)) = (Inr y, cursor_advance c (length as))"
  shows "reads_from c (rbind m f) as y"
  unfolding reads_from_def
proof (intro allI impI)
  fix rest assume c: "cursor_ready c \<and> cursor_view c = as @ rest"
  with readsD [OF assms(1), of c rest] assms(2) [of rest]
  show "rbind m f c = (Inr y, cursor_advance c (length as))" by (simp add: rbind_def)
qed

lemma reads_from_offset:
  "reads_from c (f (cur_offset c)) bs y \<Longrightarrow> reads_from c (rbind reader_offset f) bs y"
  by (simp add: reads_from_def rbind_def reader_offset_def)

text \<open>The bytes a decoder has passed, as it views them afterwards.\<close>

lemma cursor_passed:
  assumes "cursor_ready c" "k \<le> length (cursor_view c)"
  shows "(case cur_data (cursor_advance c m) of None \<Rightarrow> []
          | Some d \<Rightarrow> take k (drop (unat (cur_offset c)) d)) = take k (cursor_view c)"
    and "unat (cur_offset (cursor_advance c k) - cur_offset c) = k"
proof -
  have k: "k < 2 ^ 64" using assms cursor_view_less [of c] by (simp add: cursor_ready_def)
  obtain d where d: "cur_data c = Some d" using assms(1) by (auto simp: cursor_ready_def)
  have "k \<le> unat (cur_len c) - unat (cur_offset c)"
    using assms by (simp add: cursor_ready_def length_cursor_view)
  with d show "(case cur_data (cursor_advance c m) of None \<Rightarrow> []
          | Some d \<Rightarrow> take k (drop (unat (cur_offset c)) d)) = take k (cursor_view c)"
    by (simp add: cursor_advance_def cursor_view_def drop_take min_def)
  show "unat (cur_offset (cursor_advance c k) - cur_offset c) = k"
    using k by (simp add: cursor_advance_def unat_of_nat_u64)
qed

definition long_header_of ::
  "wt_quic_packet_type \<Rightarrow> u32 \<Rightarrow> u8 list \<Rightarrow> u8 list \<Rightarrow> u8 list \<Rightarrow> u64 \<Rightarrow> nat \<Rightarrow> u8 list \<Rightarrow> wt_quic_long_header" where
  "long_header_of type version dcid scid token pn n payload =
     (let header = long_prefix_bytes type version dcid scid token pn n (length payload)
      in \<lparr>lh_type = type, lh_version = version, lh_destination_connection_id = dcid,
          lh_source_connection_id = scid, lh_token = token,
          lh_packet_number = of_nat (unat pn mod 256 ^ n), lh_packet_number_len = n, lh_payload = payload,
          lh_header = header, lh_total_len = length header + length payload, lh_reserved_bits_set = False\<rparr>)"

lemma reads_long_header:
  assumes v: "long_valid type dcid scid token n (length payload)"
  shows "reads wt_quic_long_header_decode
     (long_prefix_bytes type version dcid scid token pn n (length payload) @ payload)
     (long_header_of type version dcid scid token pn n payload)"
  unfolding reads_def
proof (intro allI impI, elim conjE)
  fix c rest
  let ?pre = "long_prefix_bytes type version dcid scid token pn n (length payload)"
  assume c: "cursor_ready c" and view: "cursor_view c = (?pre @ payload) @ rest"
  have n: "1 \<le> n" "n \<le> 4" using v by (simp_all add: long_valid_def)
  have lf: "varint_valid (of_nat (n + length payload))" "unat (of_nat (n + length payload) :: u64) = n + length payload"
    using v unat_of_nat_u64 [of "n + length payload"] by (simp_all add: long_valid_def varint_valid_unat)
  have sub: "of_nat (n + length payload) - of_nat n = (of_nat (length payload) :: u64)" by simp
  have nlt: "\<not> (of_nat (n + length payload) :: u64) < of_nat n"
    using lf(2) n by (simp add: word_less_nat_alt unat_of_nat_u64 del: of_nat_add)
  note fb = long_first_bits [OF n]
  let ?tok = "if type = WT_QUIC_PACKET_INITIAL then varint_bytes (of_nat (length token)) @ token else []"
  have tok: "reads (if type = WT_QUIC_PACKET_INITIAL
        then rbind wt_quic_read_varint (packet_take e) else rreturn []) ?tok token" for e
    using v reads_token [of token e] by (auto simp: long_valid_def)
  let ?h = "long_header_of type version dcid scid token pn n payload"
  let ?pn = "wt_quic_packet_number_encode pn n"
  have pn: "length ?pn = n" using n by (rule length_packet_number_encode)
  have k: "cursor_advance c (length ?pre) = cursor_advance (cursor_advance (cursor_advance (cursor_advance
      (cursor_advance (cursor_advance (cursor_advance c (length [long_first type n]))
      (length (wt_store_be32 version))) (length (cid_bytes dcid))) (length (cid_bytes scid))) (length ?tok))
      (length (varint_bytes (of_nat (n + length payload))))) (length ?pn)"
    by (simp add: cursor_advance_add long_prefix_bytes_def add.assoc)
  have len: "length ?pre \<le> length (cursor_view c)" using view by simp
  have header: "(case cur_data (cursor_advance c m) of None \<Rightarrow> [] | Some d \<Rightarrow>
      take (length ?pre) (drop (unat (cur_offset c)) d)) = ?pre" for m
    using cursor_passed(1) [OF c len, of m] view by simp
  note hlen = cursor_passed(2) [OF c len]
  have plen: "length payload < 2 ^ 64" using v by (simp add: long_valid_def)
  have nr: "(type = WT_QUIC_PACKET_RETRY) = False" using v by (simp add: long_valid_def)
  have r: "reads (frame_bytes_view 4) (wt_store_be32 version) (wt_store_be32 version)"
    "reads wt_quic_read_connection_id (cid_bytes dcid) dcid"
    "reads wt_quic_read_connection_id (cid_bytes scid) scid"
    "reads wt_quic_read_varint (varint_bytes (of_nat (n + length payload))) (of_nat (n + length payload))"
    "reads (frame_bytes_view n) ?pn ?pn"
    "reads (packet_take e (of_nat (length payload))) payload payload"
    "wt_load_be32 (wt_store_be32 version) = version"
    "foldl shift_or (0::u64) ?pn = of_nat (unat pn mod 256 ^ n)" for e
    using v reads_view [of "wt_store_be32 version"] reads_view [of ?pn] lf
    by (simp_all add: long_valid_def reads_connection_id reads_read_varint pn reads_packet_take
        foldl_packet_number del: of_nat_add)
  have "reads_from c (rbind packet_first (\<lambda>first.
         if first AND WT_QUIC_LONG_HEADER_BIT = 0
         then wt_quic_packet_fail WT_QUIC_PROTOCOL_VIOLATION WT_ERR_PROTOCOL
         else if first AND WT_QUIC_FIXED_BIT = 0
         then wt_quic_packet_fail WT_QUIC_PROTOCOL_VIOLATION WT_ERR_PROTOCOL
         else long_header_body (cur_offset c) first)) (?pre @ payload) ?h"
    unfolding long_prefix_bytes_def append_assoc
    apply (rule reads_from_bind [OF reads_packet_first])
    apply (simp only: fb if_False long_header_body_def Let_def nr)
    apply (rule reads_from_bind [OF r(1)] reads_from_bind [OF r(2)] reads_from_bind [OF r(3)]
        reads_from_bind [OF tok] reads_from_bind [OF r(4)] reads_from_bind [OF r(5)])+
    apply (rule reads_from_offset)
    apply (simp only: nlt if_False sub k [symmetric])
    apply (rule reads_from_final [OF r(6)])
    apply (simp only: cursor_advance_add hlen header r(7,8))
    apply (simp add: long_header_of_def Let_def)
    done
  with c view show "wt_quic_long_header_decode c = (Inr ?h, cursor_advance c (length (?pre @ payload)))"
    by (auto simp: reads_from_def wt_quic_long_header_decode_def Let_def)
qed

subsection \<open>Inversion of the readers\<close>

text \<open>What a successful read of \<open>n\<close> bytes says about the cursors before and after it.\<close>

definition took :: "wt_cursor \<Rightarrow> nat \<Rightarrow> u8 list \<Rightarrow> wt_cursor \<Rightarrow> bool" where
  "took c n bs c' \<longleftrightarrow> cursor_inv c' \<and> cur_data c' = cur_data c \<and> cur_len c' = cur_len c \<and>
     length bs = n \<and> cursor_view c = bs @ cursor_view c' \<and>
     unat (cur_offset c') = unat (cur_offset c) + n"

lemma took_take:
  assumes "cursor_inv c" "wt_cursor_take c n = (Some bs, c')"
  shows "took c (unat n) bs c'"
proof -
  note s = cursor_take_Some [OF assms]
  have "cursor_step c c'" using cursor_step_take [OF assms(1), of n] assms(2) by simp
  moreover have "length (cursor_view c) = unat n + length (cursor_view c')" using s by simp
  ultimately have "unat (cur_offset c') = unat (cur_offset c) + unat n"
    using assms(1) by (auto simp: cursor_step_def length_cursor_view word_le_nat_alt cursor_inv_def)
  with s \<open>cursor_step c c'\<close> show ?thesis by (simp add: took_def cursor_step_def)
qed

lemma took_view: "cursor_inv c \<Longrightarrow> n < 2 ^ 64 \<Longrightarrow> frame_bytes_view n c = (Inr bs, c') \<Longrightarrow> took c n bs c'"
  using took_take [of c "of_nat n" bs c']
  by (auto simp: frame_bytes_view_def wt_cursor_bytes_def unat_of_nat_u64 split: prod.splits option.splits)

lemma took_zero: "cursor_inv c \<Longrightarrow> took c 0 [] c"
  by (simp add: took_def)

lemma took_packet_take:
  assumes "cursor_inv c" "packet_take e n c = (Inr bs, c')"
  shows "took c (unat n) bs c'"
proof -
  from assms obtain p where p: "wt_cursor_take c n = (p, c')" "bs = (case p of None \<Rightarrow> [] | Some bs \<Rightarrow> bs)"
    and le: "n \<le> wt_cursor_remaining c"
    by (auto simp: packet_take_def wt_cursor_bytes_def not_less split: if_splits prod.splits)
  show ?thesis
  proof (cases p)
    case (Some bs')
    with p took_take [OF assms(1), of n bs' c'] show ?thesis by simp
  next
    case None
    then have "n = 0 \<and> c' = c"
      using p(1) le assms(1)
      by (auto simp: wt_cursor_take_def wt_cursor_remaining_def cursor_inv_def split: if_splits)
    with None p(2) assms(1) show ?thesis by (simp add: took_zero)
  qed
qed

lemma took_first: "cursor_inv c \<Longrightarrow> packet_first c = (Inr b, c') \<Longrightarrow> took c 1 [b] c' \<and> wt_cursor_u8 c = (b, c')"
proof -
  assume inv: "cursor_inv c" and r: "packet_first c = (Inr b, c')"
  then have u: "wt_cursor_u8 c = (b, c')" "\<not> cur_failed c'"
    by (auto simp: packet_first_def wt_cursor_failed_def split: prod.splits if_splits)
  obtain p where p: "wt_cursor_take c 1 = (p, c')"
    using u(1) by (auto simp: wt_cursor_u8_def split: prod.splits)
  have "p \<noteq> None"
    using p u(2) inv
    by (cases "cur_data c") (auto simp: wt_cursor_take_def cursor_inv_def split: if_splits)
  then obtain bs where bs: "p = Some bs" by auto
  with p u(1) have "b = bs ! 0" by (simp add: wt_cursor_u8_def)
  moreover have "took c 1 bs c'" using took_take [OF inv p [unfolded bs]] by simp
  ultimately show ?thesis
    using u(1) by (cases bs) (auto simp: took_def)
qed

lemma took_cid:
  assumes "cursor_inv c" "wt_quic_read_connection_id c = (Inr cid, c')"
  shows "took c (Suc (length cid)) (cid_bytes cid) c'" "cid_valid cid"
proof -
  from assms(2) obtain b c1 where b: "frame_bytes_view 1 c = (Inr b, c1)"
    and i: "\<not> unat (b ! 0) > WT_QUIC_MAX_CID_LEN" "id_view (ucast (b ! 0)) c1 = (Inr cid, c')"
    unfolding wt_quic_read_connection_id_def
    by (elim rbindE) (auto simp: Let_def wt_quic_packet_fail_def rfail_def split: if_splits)
  from took_view [OF assms(1) _ b] have t: "took c 1 b c1" by simp
  then have inv1: "cursor_inv c1" by (simp add: took_def)
  have t2: "took c1 (unat (b ! 0)) cid c'"
  proof (cases "wt_cursor_take c1 (ucast (b ! 0))")
    case (Pair p c2)
    show ?thesis
    proof (cases p)
      case None
      then have "ucast (b ! 0) = (0::u64) \<and> cid = [] \<and> c2 = c'"
        using i(2) Pair by (auto simp: id_view_def wt_cursor_bytes_def split: if_splits)
      then have "b ! 0 = 0 \<and> cid = [] \<and> c2 = c'"
        by (metis unat_ucast_u8_u64 unat_0 unat_eq_zero)
      moreover have "c2 = c1"
        using Pair None calculation inv1 by (auto simp: wt_cursor_take_def split: if_splits)
      ultimately show ?thesis using inv1 by (simp add: took_zero)
    next
      case (Some bs)
      then have "bs = cid \<and> c2 = c'" using i(2) Pair by (auto simp: id_view_def wt_cursor_bytes_def)
      with took_take [OF inv1, of "ucast (b ! 0)" bs c2] Pair Some show ?thesis by simp
    qed
  qed
  have "b = [b ! 0]" using t by (cases b) (auto simp: took_def)
  moreover have "of_nat (length cid) = b ! 0" using t2 by (simp add: took_def)
  ultimately have "b = [of_nat (length cid)]" by simp
  with t t2 show "took c (Suc (length cid)) (cid_bytes cid) c'" by (auto simp: took_def cid_bytes_def)
  show "cid_valid cid" using t2 i(1) by (simp add: took_def)
qed

lemma took_varint:
  assumes "cursor_inv c" "wt_quic_read_varint c = (Inr v, c')"
  shows "\<exists>n bs. took c n bs c' \<and> varint_valid v"
proof -
  have step: "cursor_step c c'" using reader_safeD [OF reader_safe_read_varint assms(1)] assms(2) by simp
  then have "took c (unat (cur_offset c') - unat (cur_offset c))
      (take (unat (cur_offset c') - unat (cur_offset c)) (cursor_view c)) c'"
    using cursor_step_view [OF assms(1) step] cursor_step_length [OF assms(1) step] assms(1)
    by (auto simp: took_def cursor_step_def length_cursor_view word_le_nat_alt cursor_inv_def)
  moreover have "varint_valid v" using yieldsD [OF yields_read_varint assms] .
  ultimately show ?thesis by blast
qed

lemma took_trans: "took a m as b \<Longrightarrow> took b n bs c \<Longrightarrow> took a (m + n) (as @ bs) c"
  by (simp add: took_def)

lemma tookD: "took c n bs c' \<Longrightarrow> cursor_inv c'"
  by (simp add: took_def)

text \<open>The reads of a successful long header, in order.\<close>

lemma long_header_steps:
  assumes "wt_quic_long_header_decode c = (Inr h, c')"
  obtains first version dcid scid token lf pn payload c1 c2 c3 c4 c5 c6 c7 where
    "packet_first c = (Inr first, c1)"
    "first AND WT_QUIC_LONG_HEADER_BIT \<noteq> 0" "first AND WT_QUIC_FIXED_BIT \<noteq> 0"
    "packet_type_of (drop_bit 4 first AND 0x03) \<noteq> WT_QUIC_PACKET_RETRY"
    "frame_bytes_view 4 c1 = (Inr version, c2)"
    "wt_quic_read_connection_id c2 = (Inr dcid, c3)" "wt_quic_read_connection_id c3 = (Inr scid, c4)"
    "(if packet_type_of (drop_bit 4 first AND 0x03) = WT_QUIC_PACKET_INITIAL
      then rbind wt_quic_read_varint (packet_take (WT_ERR_OVERFLOW, Some WT_QUIC_FRAME_ENCODING_ERROR))
      else rreturn []) c4 = (Inr token, c5)"
    "wt_quic_read_varint c5 = (Inr lf, c6)"
    "frame_bytes_view (unat (first AND 0x03) + 1) c6 = (Inr pn, c7)"
    "\<not> lf < of_nat (unat (first AND 0x03) + 1)"
    "packet_take (WT_ERR_OVERFLOW, Some WT_QUIC_FRAME_ENCODING_ERROR)
       (lf - of_nat (unat (first AND 0x03) + 1)) c7 = (Inr payload, c')"
    "h = \<lparr>lh_type = packet_type_of (drop_bit 4 first AND 0x03), lh_version = wt_load_be32 version,
          lh_destination_connection_id = dcid, lh_source_connection_id = scid, lh_token = token,
          lh_packet_number = foldl shift_or 0 pn, lh_packet_number_len = unat (first AND 0x03) + 1,
          lh_payload = payload,
          lh_header = (case cur_data c' of None \<Rightarrow> []
             | Some d \<Rightarrow> take (unat (cur_offset c7 - cur_offset c)) (drop (unat (cur_offset c)) d)),
          lh_total_len = unat (cur_offset c7 - cur_offset c) + length payload,
          lh_reserved_bits_set = (first AND 0x0c \<noteq> 0)\<rparr>"
proof -
  from assms obtain first c1 where 1: "packet_first c = (Inr first, c1)"
    and b: "first AND WT_QUIC_LONG_HEADER_BIT \<noteq> 0" "first AND WT_QUIC_FIXED_BIT \<noteq> 0"
      "long_header_body (cur_offset c) first c1 = (Inr h, c')"
    unfolding wt_quic_long_header_decode_def Let_def
    by (elim rbindE) (auto simp: wt_quic_packet_fail_def rfail_def split: if_splits)
  have nr: "packet_type_of (drop_bit 4 first AND 0x03) \<noteq> WT_QUIC_PACKET_RETRY"
    using b(3) by (auto simp: long_header_body_def wt_quic_packet_fail_def rfail_def Let_def)
  note body = b(3) [unfolded long_header_body_def Let_def if_not_P [OF nr]]
  from body show thesis
    apply (elim rbindE)
    subgoal premises p for version c2 dcid c3 scid c4 token c5 lf c6 pn c7 off c8
    proof -
      have off: "off = cur_offset c7" "c8 = c7"
        using p(7) by (auto simp: reader_offset_def)
      have lt: "\<not> lf < of_nat (unat (first AND 0x03) + 1)"
        using p(8) by (auto simp: wt_quic_packet_fail_def rfail_def)
      from p(8) [unfolded if_not_P [OF lt] off] show thesis
        by (elim rbindE) (rule that [OF 1 b(1,2) nr p(1-6) lt], auto)
    qed
    done
qed

lemma cursor_taken:
  assumes "cursor_inv c" "took c n bs c'" "cur_data c'' = cur_data c"
  shows "(case cur_data c'' of None \<Rightarrow> []
     | Some d \<Rightarrow> take (unat (cur_offset c' - cur_offset c)) (drop (unat (cur_offset c)) d)) = bs"
    "unat (cur_offset c' - cur_offset c) = n"
proof -
  show n: "unat (cur_offset c' - cur_offset c) = n"
    using assms(2) by (simp add: took_def unat_sub_le word_le_nat_alt)
  have "n \<le> length (cursor_view c)" "take n (cursor_view c) = bs" using assms(2) by (auto simp: took_def)
  moreover have "n \<le> unat (cur_len c) - unat (cur_offset c)"
    using calculation(1) assms(1) by (simp add: length_cursor_view)
  ultimately show "(case cur_data c'' of None \<Rightarrow> []
     | Some d \<Rightarrow> take (unat (cur_offset c' - cur_offset c)) (drop (unat (cur_offset c)) d)) = bs"
    using assms(3) n by (auto simp: cursor_view_def drop_take min_def split: option.splits)
qed

lemma token_step:
  assumes "cursor_inv c"
    "(if t then rbind wt_quic_read_varint (packet_take e) else rreturn []) c = (Inr token, c')"
  shows "\<exists>n bs. took c n bs c'"
    "(if t then rbind wt_quic_read_varint (packet_take e') else rreturn []) c = (Inr token, c')"
proof -
  have "packet_take e n x = (Inr r, y) \<longleftrightarrow> packet_take e' n x = (Inr r, y)" for n x r y
    by (auto simp: packet_take_def split: if_splits)
  then show "(if t then rbind wt_quic_read_varint (packet_take e') else rreturn []) c = (Inr token, c')"
    using assms(2) by (auto simp: rbind_def split: prod.splits sum.splits if_splits)
  show "\<exists>n bs. took c n bs c'"
    using assms took_zero [of c]
    by (auto simp: rreturn_def split: if_splits elim!: rbindE dest!: took_varint dest: tookD)
      (metis took_packet_take took_trans tookD)
qed

lemma pn_bits_less: "unat ((first::u8) AND 0x03) < 4"
proof -
  have "first AND 0x03 = take_bit 2 first" by (simp add: take_bit_eq_mask mask_eq_exp_minus_1)
  then have "unat (first AND 0x03) = take_bit 2 (unat first)" by (simp only: unsigned_take_bit_eq)
  then show ?thesis by (simp add: take_bit_eq_mod)
qed

lemma long_header_sound:
  assumes inv: "cursor_inv c" and dec: "wt_quic_long_header_decode c = (Inr h, c')"
  obtains first off end' c6 where
    "cursor_view c = lh_header h @ lh_payload h @ cursor_view c'" "cursor_inv c'"
    "lh_total_len h = length (lh_header h) + length (lh_payload h)"
    "cid_valid (lh_destination_connection_id h)" "cid_valid (lh_source_connection_id h)"
    "1 \<le> lh_packet_number_len h" "lh_packet_number_len h \<le> 4" "cursor_view c \<noteq> []"
    "cursor_view c ! 0 = first" "first AND WT_QUIC_LONG_HEADER_BIT \<noteq> 0"
    "lh_packet_number h = foldl shift_or 0
       (drop (length (lh_header h) - lh_packet_number_len h) (lh_header h))"
    "lh_packet_number_len h \<le> length (lh_header h)"
    "lh_version h \<noteq> WT_QUIC_VERSION_NEGOTIATION \<longrightarrow> protected_walk first c = (Inr (off, end'), c6)"
    "unat off = unat (cur_offset c) + (length (lh_header h) - lh_packet_number_len h)"
    "unat end' = unat (cur_offset c) + lh_total_len h"
proof -
  let ?type = "packet_type_of (drop_bit 4 first AND 0x03)"
  obtain first version dcid scid token lf pn payload c1 c2 c3 c4 c5 c6 c7 where
    s: "packet_first c = (Inr first, c1)" "first AND WT_QUIC_LONG_HEADER_BIT \<noteq> 0"
    "packet_type_of (drop_bit 4 first AND 0x03) \<noteq> WT_QUIC_PACKET_RETRY"
    "frame_bytes_view 4 c1 = (Inr version, c2)"
    "wt_quic_read_connection_id c2 = (Inr dcid, c3)" "wt_quic_read_connection_id c3 = (Inr scid, c4)"
    and tok: "(if packet_type_of (drop_bit 4 first AND 0x03) = WT_QUIC_PACKET_INITIAL
      then rbind wt_quic_read_varint (packet_take (WT_ERR_OVERFLOW, Some WT_QUIC_FRAME_ENCODING_ERROR))
      else rreturn []) c4 = (Inr token, c5)"
    and lf: "wt_quic_read_varint c5 = (Inr lf, c6)"
    and pn: "frame_bytes_view (unat (first AND 0x03) + 1) c6 = (Inr pn, c7)"
    and ge: "\<not> lf < of_nat (unat (first AND 0x03) + 1)"
    and pl: "packet_take (WT_ERR_OVERFLOW, Some WT_QUIC_FRAME_ENCODING_ERROR)
       (lf - of_nat (unat (first AND 0x03) + 1)) c7 = (Inr payload, c')"
    and h: "h = \<lparr>lh_type = packet_type_of (drop_bit 4 first AND 0x03), lh_version = wt_load_be32 version,
          lh_destination_connection_id = dcid, lh_source_connection_id = scid, lh_token = token,
          lh_packet_number = foldl shift_or 0 pn, lh_packet_number_len = unat (first AND 0x03) + 1,
          lh_payload = payload,
          lh_header = (case cur_data c' of None \<Rightarrow> []
             | Some d \<Rightarrow> take (unat (cur_offset c7 - cur_offset c)) (drop (unat (cur_offset c)) d)),
          lh_total_len = unat (cur_offset c7 - cur_offset c) + length payload,
          lh_reserved_bits_set = (first AND 0x0c \<noteq> 0)\<rparr>"
    using dec by (rule long_header_steps)
  define n where "n = unat (first AND 0x03) + 1"
  have n: "1 \<le> n" "n \<le> 4" using pn_bits_less [of first] by (simp_all add: n_def)
  from took_first [OF inv s(1)] have t1: "took c 1 [first] c1" and u8: "wt_cursor_u8 c = (first, c1)" by simp_all
  note t2 = took_view [OF tookD [OF t1] _ s(4), simplified]
  note t3 = took_cid [OF tookD [OF t2] s(5)]
  note t4 = took_cid [OF tookD [OF t3(1)] s(6)]
  obtain nt tb where t5: "took c4 nt tb c5" using token_step(1) [OF tookD [OF t4(1)] tok] by blast
  obtain nl lb where t6: "took c5 nl lb c6" and vlf: "varint_valid lf"
    using took_varint [OF tookD [OF t5] lf] by blast
  note t7 = took_view [OF tookD [OF t6] _ pn, folded n_def]
  have t7: "took c6 n pn c7" using t7 n by simp
  note t8 = took_packet_take [OF tookD [OF t7] pl, folded n_def]
  define pre where "pre = [first] @ version @ cid_bytes dcid @ cid_bytes scid @ tb @ lb"
  have "took c (length pre) pre c6"
    using took_trans [OF t1 took_trans [OF t2 took_trans [OF t3(1) took_trans [OF t4(1) took_trans [OF t5 t6]]]]]
    by (simp add: pre_def took_def)
  note t16 = this and t17 = took_trans [OF this t7]
  have data: "cur_data c' = cur_data c" using t17 t8 by (simp add: took_def)
  note header = cursor_taken [OF inv t17 data]
  have lfn: "unat (lf - of_nat n) = unat lf - n" "n \<le> unat lf"
    using ge [folded n_def] n by (simp_all add: not_less word_le_nat_alt unat_sub_le unat_of_nat_u64)
  have hh: "lh_header h = pre @ pn" "lh_payload h = payload" "lh_packet_number_len h = n"
    "lh_total_len h = length pre + n + length payload" "lh_packet_number h = foldl shift_or 0 pn"
    "lh_version h = wt_load_be32 version"
    using header by (simp_all add: h n_def)
  have len: "length pn = n" "length payload = unat lf - n"
    using t7 t8 lfn by (simp_all add: took_def)
  have room: "unat (cur_offset c6) + unat lf \<le> unat (cur_len c6)"
    using t7 t8 lfn len by (auto simp: took_def cursor_inv_def word_le_nat_alt)
  then have lfok: "\<not> lf > cur_len c6 - cur_offset c6" "unat (cur_offset c6 + lf) = unat (cur_offset c6) + unat lf"
    using unat_u64_less [of "cur_len c6"]
    by (simp_all add: not_less word_le_nat_alt unat_sub_le unat_add_no_wrap)
  have walk: "protected_walk first c = (Inr (cur_offset c6, cur_offset c6 + lf), c6)"
    if "wt_load_be32 version \<noteq> WT_QUIC_VERSION_NEGOTIATION"
  proof -
    let ?t = "if packet_type_of (drop_bit 4 first AND 0x03) = WT_QUIC_PACKET_INITIAL
      then rbind wt_quic_read_varint (packet_take (WT_ERR_OVERFLOW, None)) else rreturn []"
    have tok': "rbind ?t f c4 = f token c5" for f :: "u8 list \<Rightarrow> (u64 \<times> u64) frame_reader"
      by (rule rbind_Inr) (rule token_step(2) [OF tookD [OF t4(1)] tok])
    show ?thesis
      using that s(3) lfok(1)
      unfolding protected_walk_def Let_def if_not_P [OF s(3)]
      by (simp add: rbind_Inr u8 s(4-6) tok' lf)
  qed
  show thesis
  proof (rule that [of first "cur_offset c6" "cur_offset c6 + lf" c6])
    show "cursor_view c = lh_header h @ lh_payload h @ cursor_view c'" "cursor_inv c'"
      using t17 t8 by (simp_all add: hh took_def)
    show "cursor_view c \<noteq> []" "cursor_view c ! 0 = first"
      using t1 by (simp_all add: took_def)
    show "unat (cur_offset c6 + lf) = unat (cur_offset c) + lh_total_len h"
      using t16 lfok(2) lfn(2) by (simp add: hh len took_def)
  qed (use n s(2) t3(2) t4(2) t16 walk in \<open>simp_all add: hh len took_def\<close>, simp_all add: h)
qed

subsection \<open>Short headers and Retry packets\<close>

lemma decode_rest_all:
  assumes "cursor_ready c"
  shows "decode_rest c = (Inr (cursor_view c), cursor_advance c (length (cursor_view c)))"
proof -
  have inv: "cursor_inv c" "\<not> cur_failed c" using assms by (simp_all add: cursor_ready_def)
  obtain d where d: "cur_data c = Some d" using assms by (auto simp: cursor_ready_def)
  have len: "unat (cur_len c - cur_offset c) = length (cursor_view c)"
    using inv by (simp add: length_cursor_view cursor_inv_def unat_sub_le)
  then have of: "cur_len c - cur_offset c = of_nat (length (cursor_view c))" by (rule word_of_nat_eqI)
  have view: "take (length (cursor_view c)) (drop (unat (cur_offset c)) d) = cursor_view c"
    using inv d by (simp add: length_cursor_view) (simp add: cursor_view_def drop_take)
  have skip: "wt_cursor_skip c (of_nat (length (cursor_view c))) = (WT_OK, cursor_advance c (length (cursor_view c)))"
    using assms by (simp add: wt_cursor_skip_def cursor_take_advance)
  have zero: "length (cursor_view c) = 0" if "of_nat (length (cursor_view c)) = (0::u64)"
    using that len of by (metis unat_0)
  show ?thesis
    using inv d view skip len zero by (auto simp: decode_rest_def wt_cursor_rest_def of)
qed

definition short_bytes :: "u8 list \<Rightarrow> u64 \<Rightarrow> nat \<Rightarrow> bool \<Rightarrow> bool \<Rightarrow> u8 list" where
  "short_bytes dcid pn n key_phase spin =
     [short_first n spin key_phase] @ dcid @ wt_quic_packet_number_encode pn n"

definition short_header_of :: "u8 list \<Rightarrow> u64 \<Rightarrow> nat \<Rightarrow> bool \<Rightarrow> bool \<Rightarrow> u8 list \<Rightarrow> wt_quic_short_header" where
  "short_header_of dcid pn n key_phase spin payload =
     \<lparr>sh_key_phase = key_phase, sh_spin = spin, sh_reserved_bits_set = False,
      sh_destination_connection_id = dcid, sh_packet_number = of_nat (unat pn mod 256 ^ n),
      sh_packet_number_len = n, sh_payload = payload, sh_header = short_bytes dcid pn n key_phase spin,
      sh_total_len = n + 1 + length dcid + length payload\<rparr>"

lemma short_header_decode_bytes:
  assumes c: "cursor_ready c" and view: "cursor_view c = short_bytes dcid pn n kp spin @ payload"
    and v: "cid_valid dcid" "1 \<le> n" "n \<le> 4"
  shows "wt_quic_short_header_decode (length dcid) c =
    (Inr (short_header_of dcid pn n kp spin payload), cursor_advance c (length (cursor_view c)))"
proof -
  let ?pn = "wt_quic_packet_number_encode pn n"
  let ?c1 = "cursor_advance c 1" and ?c2 = "cursor_advance c (1 + length dcid)"
  let ?c3 = "cursor_advance c (1 + length dcid + n)"
  note fb = short_first_bits [OF v(2,3)]
  have pn: "length ?pn = n" using v(2,3) by (rule length_packet_number_encode)
  have r1: "packet_first c = (Inr (short_first n spin kp), ?c1)"
    using readsD [OF reads_packet_first c, of "short_first n spin kp"] view by (simp add: short_bytes_def)
  note a1 = cursor_ready_advance [OF c, of 1] and a2 = cursor_ready_advance [OF c, of "1 + length dcid"]
    and a3 = cursor_ready_advance [OF c, of "1 + length dcid + n"]
  have r2: "id_view (of_nat (length dcid)) ?c1 = (Inr dcid, ?c2)"
    using readsD [OF reads_id_view, of dcid ?c1 "?pn @ payload"] a1 view v(1)
    by (simp add: short_bytes_def cursor_advance_add packet_constants)
  have r3: "frame_bytes_view n ?c2 = (Inr ?pn, ?c3)"
    using readsD [OF reads_view, of ?pn ?c2 payload] a2 view v pn
    by (simp add: short_bytes_def cursor_advance_add)
  have v3: "cursor_view ?c3 = payload" "cursor_ready ?c3" using a3 view pn by (simp_all add: short_bytes_def)
  have r4: "decode_rest ?c3 = (Inr payload, cursor_advance c (length (cursor_view c)))"
    using decode_rest_all [OF v3(2)] v3(1) view pn by (simp add: cursor_advance_add short_bytes_def add.assoc)
  have k: "n + 1 + length dcid \<le> length (cursor_view c)" "take (n + 1 + length dcid) (cursor_view c) =
      short_bytes dcid pn n kp spin"
    using view pn by (simp_all add: short_bytes_def)
  note hdr = cursor_passed(1) [OF c k(1), unfolded k(2)]
  have len: "\<not> length dcid > WT_QUIC_MAX_CID_LEN" using v(1) by simp
  show ?thesis
    unfolding wt_quic_short_header_decode_def Let_def if_not_P [OF len] short_header_of_def
    by (simp only: rbind_Inr r1 fb if_False simp_thms r2 r3 r4 hdr
        foldl_packet_number [OF v(2,3)])
qed

lemma short_header_encode_writes:
  assumes v: "cid_valid dcid" "1 \<le> n" "n \<le> 4"
  shows "writes (\<lambda>w. snd (wt_quic_short_header_encode dcid pn n kp spin payload w))
      (short_bytes dcid pn n kp spin @ payload)"
    and "fst (wt_quic_short_header_encode dcid pn n kp spin payload w) =
      writer_status (snd (wt_quic_short_header_encode dcid pn n kp spin payload w))"
proof -
  let ?fs = "[wt_writer_u8 (short_first n spin kp), wt_writer_bytes dcid,
      wt_writer_bytes (wt_quic_packet_number_encode pn n), wt_writer_bytes payload]"
  have e: "wt_quic_short_header_encode dcid pn n kp spin payload w = emit_status ?fs w" for w
    using v by (simp add: wt_quic_short_header_encode_def length_packet_number_encode short_first_def Let_def)
  have "list_all2 writes ?fs [[short_first n spin kp], dcid, wt_quic_packet_number_encode pn n, payload]"
    by (simp add: wire_defs)
  from emit_status_writes [OF this]
  show "writes (\<lambda>w. snd (wt_quic_short_header_encode dcid pn n kp spin payload w))
      (short_bytes dcid pn n kp spin @ payload)"
    by (simp add: e short_bytes_def)
  show "fst (wt_quic_short_header_encode dcid pn n kp spin payload w) =
      writer_status (snd (wt_quic_short_header_encode dcid pn n kp spin payload w))"
    unfolding e by (rule emit_status_fst)
qed

definition retry_header_bytes :: "u32 \<Rightarrow> u8 list \<Rightarrow> u8 list \<Rightarrow> u8 list" where
  "retry_header_bytes version dcid scid =
     [0xF0] @ wt_store_be32 version @ cid_bytes dcid @ cid_bytes scid"

lemma retry_encode_writes:
  assumes "cid_valid dcid" "cid_valid scid" "scid \<noteq> []"
  shows "writes (\<lambda>w. snd (wt_quic_retry_packet_encode version dcid scid token tag w))
      (retry_header_bytes version dcid scid @ token @ tag)"
    and "fst (wt_quic_retry_packet_encode version dcid scid token tag w) =
      writer_status (snd (wt_quic_retry_packet_encode version dcid scid token tag w))"
proof -
  let ?fs = "[wt_writer_u8 0xF0, wt_writer_u32 version, wt_quic_write_connection_id dcid,
      wt_quic_write_connection_id scid, wt_writer_bytes token, wt_writer_bytes tag]"
  have e: "wt_quic_retry_packet_encode version dcid scid token tag w = emit_status ?fs w" for w
    using assms by (simp add: wt_quic_retry_packet_encode_def packet_constants)
  have "list_all2 writes ?fs [[0xF0], wt_store_be32 version, cid_bytes dcid, cid_bytes scid, token, tag]"
    by (simp add: wire_defs writes_write_cid)
  from emit_status_writes [OF this]
  show "writes (\<lambda>w. snd (wt_quic_retry_packet_encode version dcid scid token tag w))
      (retry_header_bytes version dcid scid @ token @ tag)"
    by (simp add: e retry_header_bytes_def)
  show "fst (wt_quic_retry_packet_encode version dcid scid token tag w) =
      writer_status (snd (wt_quic_retry_packet_encode version dcid scid token tag w))"
    unfolding e by (rule emit_status_fst)
qed

lemma retry_decode_bytes:
  assumes v: "cid_valid dcid" "cid_valid scid" "length tag = WT_QUIC_RETRY_INTEGRITY_TAG_LEN"
    and len: "length (retry_header_bytes version dcid scid @ token @ tag) < 2 ^ 64"
  shows "wt_quic_retry_packet_decode (retry_header_bytes version dcid scid @ token @ tag) =
    Inr \<lparr>rp_version = version, rp_destination_connection_id = dcid, rp_source_connection_id = scid,
         rp_token = token, rp_integrity_tag = tag, rp_header = retry_header_bytes version dcid scid,
         rp_total_len = length (retry_header_bytes version dcid scid) + length token + length tag\<rparr>"
proof -
  let ?h = "retry_header_bytes version dcid scid"
  let ?data = "?h @ token @ tag"
  let ?c = "cursor_of ?data"
  have c: "cursor_ready ?c" "cursor_view ?c = ?data" using len by simp_all
  let ?first = "\<lambda>c. (case wt_cursor_u8 c of (first, c') \<Rightarrow> (Inr first :: frame_fail + u8, c'))"
  have r1: "reads ?first [0xF0] 0xF0"
  proof -
    have "wt_cursor_u8 c = (0xF0, cursor_advance c 1)" if "cursor_ready c" "cursor_view c = 0xF0 # rest" for c rest
      using cursor_take_advance [OF that(1), of 1] that by (simp add: wt_cursor_u8_def)
    then show ?thesis by (auto simp: reads_def)
  qed
  have r2: "reads (frame_bytes_view 4) (wt_store_be32 version) (wt_store_be32 version)"
    using reads_view [of "wt_store_be32 version"] by simp
  have off: "cur_offset (cursor_advance ?c (length ?h)) = of_nat (length ?h)"
    by (simp add: cursor_advance_def cursor_of_def wt_cursor_init_def)
  have hlen: "unat (of_nat (length ?h) :: u64) = length ?h" using len by (intro unat_of_nat_u64) simp
  have flags: "(0xF0::u8) AND WT_QUIC_LONG_HEADER_BIT \<noteq> 0" "(0xF0::u8) AND WT_QUIC_FIXED_BIT \<noteq> 0"
    "packet_type_of (drop_bit 4 0xF0 AND 0x03) = WT_QUIC_PACKET_RETRY"
    by (simp_all add: packet_constants packet_type_of_def)
  have adv: "cursor_advance (cursor_advance (cursor_advance (cursor_advance ?c (length [0xF0::u8]))
      (length (wt_store_be32 version))) (length (cid_bytes dcid))) (length (cid_bytes scid)) =
      cursor_advance ?c (length ?h)"
    by (simp add: cursor_advance_add retry_header_bytes_def add.assoc)
  let ?rp = "\<lparr>rp_version = version, rp_destination_connection_id = dcid, rp_source_connection_id = scid,
         rp_token = token, rp_integrity_tag = tag, rp_header = ?h,
         rp_total_len = length ?h + length token + length tag\<rparr>"
  have "reads_from ?c (retry_walk ?data) ([0xF0] @ wt_store_be32 version @ cid_bytes dcid @ cid_bytes scid @ []) ?rp"
    unfolding retry_walk_def
    apply (rule reads_from_bind [OF r1])
    apply (simp only: flags if_False simp_thms)
    apply (rule reads_from_bind [OF r2] reads_from_bind [OF reads_connection_id [OF v(1)]]
        reads_from_bind [OF reads_connection_id [OF v(2)]])+
    apply (rule reads_from_offset)
    apply (simp only: adv off hlen Let_def)
    using v(3) apply (simp add: reads_from_def rreturn_def)
    done
  then show ?thesis
    using c v by (auto simp: reads_from_def wt_quic_retry_packet_decode_def retry_header_bytes_def packet_constants)
qed

subsection \<open>Properties\<close>

lemma wt_quic_long_header_round_trip_parts:
  assumes v: "long_valid type dcid scid token n (length payload)" and cap: "unat cap \<le> length d"
    and w: "wt_quic_long_header_encode type version dcid scid token pn n payload (wt_writer_init (Some d) cap) = (st, w)"
    and rest: "unat cap + length rest < 2 ^ 64"
  shows "st = (if length (long_prefix_bytes type version dcid scid token pn n (length payload)) + length payload
               \<le> unat cap then WT_OK else WT_ERR_LIMIT)"
    and "st = WT_OK \<Longrightarrow> \<exists>h c'.
      wt_quic_long_header_decode (cursor_of (writer_out w @ rest)) = (Inr h, c') \<and> cursor_view c' = rest \<and>
      lh_type h = type \<and> lh_version h = version \<and> lh_destination_connection_id h = dcid \<and>
      lh_source_connection_id h = scid \<and> lh_token h = token \<and> lh_packet_number_len h = n \<and>
      unat (lh_packet_number h) = unat pn mod 256 ^ n \<and> lh_payload h = payload \<and>
      lh_header h @ payload = writer_out w \<and> lh_total_len h = length (writer_out w) \<and>
      \<not> lh_reserved_bits_set h"
proof -
  let ?bs = "long_prefix_bytes type version dcid scid token pn n (length payload) @ payload"
  have n: "1 \<le> n" "n \<le> 4" using v by (simp_all add: long_valid_def)
  note e = long_header_encode_writes [OF v, of True payload version pn, simplified,
      folded wt_quic_long_header_encode_def]
  note i = writes_init [OF e(1) cap, unfolded w snd_conv]
  show st: "st = (if length (long_prefix_bytes type version dcid scid token pn n (length payload)) + length payload
               \<le> unat cap then WT_OK else WT_ERR_LIMIT)"
    using e(2) [of "wt_writer_init (Some d) cap"] i(1) w by (simp add: writer_status_def)
  assume "st = WT_OK"
  then have fit: "length ?bs \<le> unat cap" using st by (simp split: if_splits)
  then have out: "writer_out w = ?bs" by (rule i(2))
  have len: "length (?bs @ rest) < 2 ^ 64" using fit rest by simp
  have "(256::nat) ^ n \<le> 256 ^ 4" using n by (intro power_increasing) auto
  moreover have "unat pn mod 256 ^ n < 256 ^ n" by simp
  ultimately have "unat pn mod 256 ^ n < 2 ^ 64" by (elim less_le_trans order_trans) simp
  then have pn: "unat (of_nat (unat pn mod 256 ^ n) :: u64) = unat pn mod 256 ^ n"
    by (rule unat_of_nat_u64)
  from reads_of [OF reads_long_header [OF v] len] cursor_ready_advance [of "cursor_of (?bs @ rest)" "length ?bs"] len
  show "\<exists>h c'. wt_quic_long_header_decode (cursor_of (writer_out w @ rest)) = (Inr h, c') \<and> cursor_view c' = rest \<and>
      lh_type h = type \<and> lh_version h = version \<and> lh_destination_connection_id h = dcid \<and>
      lh_source_connection_id h = scid \<and> lh_token h = token \<and> lh_packet_number_len h = n \<and>
      unat (lh_packet_number h) = unat pn mod 256 ^ n \<and> lh_payload h = payload \<and>
      lh_header h @ payload = writer_out w \<and> lh_total_len h = length (writer_out w) \<and>
      \<not> lh_reserved_bits_set h"
    unfolding out by (auto simp: long_header_of_def Let_def pn)
qed

text \<open>C10: A long header packet that the encoder accepts decodes back. For Initial, 0-RTT and Handshake packets
  with connection IDs of at most 20 bytes, a token only on an Initial and a packet number of 1 to 4 bytes,
  the encoder succeeds exactly when the destination can hold the packet; then, whatever coalesced bytes
  follow it in the datagram, the decoder returns the same fields, the truncated packet number and the
  header bytes, stops exactly at the end of the packet and reports no reserved bits.\<close>

theorem wt_quic_long_header_round_trip:
  assumes v: "long_valid type dcid scid token n (length payload)" and cap: "unat cap \<le> length d"
    and w: "wt_quic_long_header_encode type version dcid scid token pn n payload (wt_writer_init (Some d) cap) = (st, w)"
    and rest: "unat cap + length rest < 2 ^ 64"
  shows "(st = (if length (long_prefix_bytes type version dcid scid token pn n (length payload)) + length payload
               \<le> unat cap then WT_OK else WT_ERR_LIMIT)) \<and>
    (st = WT_OK \<longrightarrow> (\<exists>h c'.
      wt_quic_long_header_decode (cursor_of (writer_out w @ rest)) = (Inr h, c') \<and> cursor_view c' = rest \<and>
      lh_type h = type \<and> lh_version h = version \<and> lh_destination_connection_id h = dcid \<and>
      lh_source_connection_id h = scid \<and> lh_token h = token \<and> lh_packet_number_len h = n \<and>
      unat (lh_packet_number h) = unat pn mod 256 ^ n \<and> lh_payload h = payload \<and>
      lh_header h @ payload = writer_out w \<and> lh_total_len h = length (writer_out w) \<and>
      \<not> lh_reserved_bits_set h))"
  using wt_quic_long_header_round_trip_parts [OF assms] by blast

theorem wt_quic_long_header_round_trip_witness:
  "fst (wt_quic_long_header_encode WT_QUIC_PACKET_INITIAL 1 [1, 2] [3] [9] 7 2 [5, 6]
      (wt_writer_init (Some (replicate 30 0)) 30)) = WT_OK"
proof -
  let ?r = "wt_quic_long_header_encode WT_QUIC_PACKET_INITIAL 1 [1, 2] [3] [9] 7 2 [5, 6]
      (wt_writer_init (Some (replicate 30 0)) 30)"
  have v: "long_valid WT_QUIC_PACKET_INITIAL [1, 2] [3] [9] 2 (length [5, 6 :: u8])"
    by (simp add: long_valid_def packet_constants bytes_valid_def)
  have l: "length (long_prefix_bytes WT_QUIC_PACKET_INITIAL 1 [1, 2] [3] [9] 7 2 (length [5, 6 :: u8])) \<le> 28"
    by (simp add: long_prefix_bytes_def length_packet_number_encode length_varint_bytes varint_valid_unat
        varint_size_nat)
  show ?thesis
    using wt_quic_long_header_round_trip [OF v, of 30 "replicate 30 0" 1 7 "fst ?r" "snd ?r" "[]", THEN conjunct1] l by simp
qed

lemma wt_quic_protected_pn_offset_agrees_parts:
  assumes len: "length data < 2 ^ 64"
    and dec: "wt_quic_long_header_decode (cursor_of data) = (Inr h, c')"
    and version: "lh_version h \<noteq> WT_QUIC_VERSION_NEGOTIATION"
  shows "wt_quic_protected_pn_offset data local_len =
      Inr (length (lh_header h) - lh_packet_number_len h, lh_total_len h, False)"
    and "take (lh_total_len h) data = lh_header h @ lh_payload h" "lh_total_len h \<le> length data"
    and "unat (lh_packet_number h) =
      be_nat (drop (length (lh_header h) - lh_packet_number_len h) (lh_header h))"
    and "lh_packet_number_len h \<in> {1..4}"
proof -
  have inv: "cursor_inv (cursor_of data)" and view: "cursor_view (cursor_of data) = data"
    using len cursor_ready_of [of data] by (simp_all add: cursor_ready_def)
  have off: "cur_offset (cursor_of data) = 0" by (simp add: cursor_of_def wt_cursor_init_def)
  obtain first off' end' c6 where
    f: "cursor_view (cursor_of data) = lh_header h @ lh_payload h @ cursor_view c'" "cursor_inv c'"
    "lh_total_len h = length (lh_header h) + length (lh_payload h)"
    "cid_valid (lh_destination_connection_id h)" "cid_valid (lh_source_connection_id h)"
    "1 \<le> lh_packet_number_len h" "lh_packet_number_len h \<le> 4" "cursor_view (cursor_of data) \<noteq> []"
    "cursor_view (cursor_of data) ! 0 = first" "first AND WT_QUIC_LONG_HEADER_BIT \<noteq> 0"
    "lh_packet_number h = foldl shift_or 0
       (drop (length (lh_header h) - lh_packet_number_len h) (lh_header h))"
    "lh_packet_number_len h \<le> length (lh_header h)"
    "lh_version h \<noteq> WT_QUIC_VERSION_NEGOTIATION \<longrightarrow> protected_walk first (cursor_of data) = (Inr (off', end'), c6)"
    "unat off' = unat (cur_offset (cursor_of data)) + (length (lh_header h) - lh_packet_number_len h)"
    "unat end' = unat (cur_offset (cursor_of data)) + lh_total_len h"
    using inv dec by (rule long_header_sound)
  show "wt_quic_protected_pn_offset data local_len =
      Inr (length (lh_header h) - lh_packet_number_len h, lh_total_len h, False)"
    using f(8-10,14,15) f(13) version by (simp add: wt_quic_protected_pn_offset_def Let_def view off)
  show "take (lh_total_len h) data = lh_header h @ lh_payload h" "lh_total_len h \<le> length data"
    using arg_cong [OF f(1), of "take (lh_total_len h)"] arg_cong [OF f(1), of length] f(3) by (simp_all add: view)
  show "lh_packet_number_len h \<in> {1..4}" using f(6,7) by simp
  have "(256::nat) ^ lh_packet_number_len h \<le> 256 ^ 4" using f(7) by (intro power_increasing) auto
  then show "unat (lh_packet_number h) =
      be_nat (drop (length (lh_header h) - lh_packet_number_len h) (lh_header h))"
    using f(12) unfolding f(11) by (subst unat_foldl_shift_or) simp_all
qed

text \<open>The walk over a header that is still protected agrees with the decoder. Whenever a datagram begins
  with a long header packet that decodes (and is not a Version Negotiation), the walk finds the packet
  number exactly at the end of the header minus its length and the same packet length; the decoder's
  header and payload are the first bytes of the datagram, and the packet number is the value of the
  header's last bytes.\<close>

lemma wt_quic_protected_pn_offset_agrees:
  assumes len: "length data < 2 ^ 64"
    and dec: "wt_quic_long_header_decode (cursor_of data) = (Inr h, c')"
    and version: "lh_version h \<noteq> WT_QUIC_VERSION_NEGOTIATION"
  shows "(wt_quic_protected_pn_offset data local_len =
      Inr (length (lh_header h) - lh_packet_number_len h, lh_total_len h, False)) \<and>
    (take (lh_total_len h) data = lh_header h @ lh_payload h) \<and>
    (lh_total_len h \<le> length data) \<and>
    (unat (lh_packet_number h) =
      be_nat (drop (length (lh_header h) - lh_packet_number_len h) (lh_header h))) \<and>
    (lh_packet_number_len h \<in> {1..4})"
  using wt_quic_protected_pn_offset_agrees_parts [OF assms] by blast

lemma wt_quic_short_retry_round_trip_parts:
  assumes v: "cid_valid dcid" "1 \<le> n" "n \<le> 4" and cap: "unat cap \<le> length d"
    and s: "cid_valid scid" "scid \<noteq> []" "length tag = WT_QUIC_RETRY_INTEGRITY_TAG_LEN"
  shows "wt_quic_short_header_encode dcid pn n kp spin payload (wt_writer_init (Some d) cap) = (WT_OK, w) \<Longrightarrow>
      fst (wt_quic_short_header_decode (length dcid) (cursor_of (writer_out w))) =
        Inr (short_header_of dcid pn n kp spin payload)"
    and "wt_quic_retry_packet_encode version dcid scid token tag (wt_writer_init (Some d) cap) = (WT_OK, w) \<Longrightarrow>
      wt_quic_retry_packet_decode (writer_out w) =
        Inr \<lparr>rp_version = version, rp_destination_connection_id = dcid, rp_source_connection_id = scid,
             rp_token = token, rp_integrity_tag = tag,
             rp_header = take (length (writer_out w) - length token - length tag) (writer_out w),
             rp_total_len = length (writer_out w)\<rparr>"
proof -
  let ?w0 = "wt_writer_init (Some d) cap"
  have ok: "wt_writer_ok w'" if "writer_status w' = WT_OK" for w'
    using that by (simp add: writer_status_def split: if_splits)
  { assume e: "wt_quic_short_header_encode dcid pn n kp spin payload ?w0 = (WT_OK, w)"
    let ?bs = "short_bytes dcid pn n kp spin @ payload"
    note i = writes_init [OF short_header_encode_writes(1) [OF v] cap, of pn kp spin payload, unfolded e snd_conv]
    have fit: "length ?bs \<le> unat cap"
      using i(1) ok short_header_encode_writes(2) [OF v, of pn kp spin payload ?w0] e by simp
    then have out: "writer_out w = ?bs" by (rule i(2))
    have "length ?bs < 2 ^ 64" using fit unat_u64_less [of cap] by simp
    then have "cursor_ready (cursor_of ?bs)" "cursor_view (cursor_of ?bs) = ?bs" by simp_all
    from short_header_decode_bytes [OF this v]
    show "fst (wt_quic_short_header_decode (length dcid) (cursor_of (writer_out w))) =
        Inr (short_header_of dcid pn n kp spin payload)"
      unfolding out by simp }
  { assume e: "wt_quic_retry_packet_encode version dcid scid token tag ?w0 = (WT_OK, w)"
    let ?bs = "retry_header_bytes version dcid scid @ token @ tag"
    note wr = retry_encode_writes [OF v(1) s(1,2)]
    note i = writes_init [OF wr(1) cap, of version token tag, unfolded e snd_conv]
    have fit: "length ?bs \<le> unat cap"
      using i(1) ok wr(2) [of version token tag ?w0] e by simp
    then have out: "writer_out w = ?bs" by (rule i(2))
    have "length ?bs < 2 ^ 64" using fit unat_u64_less [of cap] by simp
    from retry_decode_bytes [OF v(1) s(1,3) this]
    show "wt_quic_retry_packet_decode (writer_out w) =
        Inr \<lparr>rp_version = version, rp_destination_connection_id = dcid, rp_source_connection_id = scid,
             rp_token = token, rp_integrity_tag = tag,
             rp_header = take (length (writer_out w) - length token - length tag) (writer_out w),
             rp_total_len = length (writer_out w)\<rparr>"
      unfolding out by simp }
qed

text \<open>The other two packet forms round-trip as well: a short header packet that the encoder accepts
  decodes, given the connection ID length the wire does not carry, to the same flags, connection ID,
  truncated packet number and payload, taking the rest of the datagram; and a Retry packet decodes to
  its version, connection IDs, token and integrity tag.\<close>

lemma wt_quic_short_retry_round_trip:
  assumes v: "cid_valid dcid" "1 \<le> n" "n \<le> 4" and cap: "unat cap \<le> length d"
    and s: "cid_valid scid" "scid \<noteq> []" "length tag = WT_QUIC_RETRY_INTEGRITY_TAG_LEN"
  shows "(wt_quic_short_header_encode dcid pn n kp spin payload (wt_writer_init (Some d) cap) = (WT_OK, w) \<longrightarrow>
      fst (wt_quic_short_header_decode (length dcid) (cursor_of (writer_out w))) =
        Inr (short_header_of dcid pn n kp spin payload)) \<and>
    (wt_quic_retry_packet_encode version dcid scid token tag (wt_writer_init (Some d) cap) = (WT_OK, w) \<longrightarrow>
      wt_quic_retry_packet_decode (writer_out w) =
        Inr \<lparr>rp_version = version, rp_destination_connection_id = dcid, rp_source_connection_id = scid,
             rp_token = token, rp_integrity_tag = tag,
             rp_header = take (length (writer_out w) - length token - length tag) (writer_out w),
             rp_total_len = length (writer_out w)\<rparr>)"
  using wt_quic_short_retry_round_trip_parts [OF assms] by blast

end
