(* ===== verification/Transport_Parameters.thy ===== *)
theory Transport_Parameters
  imports Quic_Frame
begin

text \<open>
  QUIC transport parameters (\<open>C99/src/quic/transport_parameters.c\<close>): the bounded parameter list with
  its sorted flag and binary search, the wire codec, the value rules and the list an endpoint sends.
  The array with its count is the list of its used entries; an entry holds the bytes its view shows
  (for an integer parameter, the bytes of its slot of \<open>integer_storage\<close>, which no later call rewrites).
\<close>

abbreviation WT_QUIC_TP_ORIGINAL_DESTINATION_CONNECTION_ID :: u64 where
  "WT_QUIC_TP_ORIGINAL_DESTINATION_CONNECTION_ID \<equiv> 0x00"
abbreviation WT_QUIC_TP_MAX_IDLE_TIMEOUT :: u64 where "WT_QUIC_TP_MAX_IDLE_TIMEOUT \<equiv> 0x01"
abbreviation WT_QUIC_TP_STATELESS_RESET_TOKEN :: u64 where "WT_QUIC_TP_STATELESS_RESET_TOKEN \<equiv> 0x02"
abbreviation WT_QUIC_TP_MAX_UDP_PAYLOAD_SIZE :: u64 where "WT_QUIC_TP_MAX_UDP_PAYLOAD_SIZE \<equiv> 0x03"
abbreviation WT_QUIC_TP_INITIAL_MAX_DATA :: u64 where "WT_QUIC_TP_INITIAL_MAX_DATA \<equiv> 0x04"
abbreviation WT_QUIC_TP_INITIAL_MAX_STREAM_DATA_BIDI_LOCAL :: u64 where
  "WT_QUIC_TP_INITIAL_MAX_STREAM_DATA_BIDI_LOCAL \<equiv> 0x05"
abbreviation WT_QUIC_TP_INITIAL_MAX_STREAM_DATA_BIDI_REMOTE :: u64 where
  "WT_QUIC_TP_INITIAL_MAX_STREAM_DATA_BIDI_REMOTE \<equiv> 0x06"
abbreviation WT_QUIC_TP_INITIAL_MAX_STREAM_DATA_UNI :: u64 where
  "WT_QUIC_TP_INITIAL_MAX_STREAM_DATA_UNI \<equiv> 0x07"
abbreviation WT_QUIC_TP_INITIAL_MAX_STREAMS_BIDI :: u64 where "WT_QUIC_TP_INITIAL_MAX_STREAMS_BIDI \<equiv> 0x08"
abbreviation WT_QUIC_TP_INITIAL_MAX_STREAMS_UNI :: u64 where "WT_QUIC_TP_INITIAL_MAX_STREAMS_UNI \<equiv> 0x09"
abbreviation WT_QUIC_TP_ACK_DELAY_EXPONENT :: u64 where "WT_QUIC_TP_ACK_DELAY_EXPONENT \<equiv> 0x0a"
abbreviation WT_QUIC_TP_MAX_ACK_DELAY :: u64 where "WT_QUIC_TP_MAX_ACK_DELAY \<equiv> 0x0b"
abbreviation WT_QUIC_TP_DISABLE_ACTIVE_MIGRATION :: u64 where "WT_QUIC_TP_DISABLE_ACTIVE_MIGRATION \<equiv> 0x0c"
abbreviation WT_QUIC_TP_PREFERRED_ADDRESS :: u64 where "WT_QUIC_TP_PREFERRED_ADDRESS \<equiv> 0x0d"
abbreviation WT_QUIC_TP_ACTIVE_CONNECTION_ID_LIMIT :: u64 where "WT_QUIC_TP_ACTIVE_CONNECTION_ID_LIMIT \<equiv> 0x0e"
abbreviation WT_QUIC_TP_RESET_STREAM_AT :: u64 where "WT_QUIC_TP_RESET_STREAM_AT \<equiv> 0x1d"
abbreviation WT_QUIC_TP_INITIAL_SOURCE_CONNECTION_ID :: u64 where "WT_QUIC_TP_INITIAL_SOURCE_CONNECTION_ID \<equiv> 0x0f"
abbreviation WT_QUIC_TP_RETRY_SOURCE_CONNECTION_ID :: u64 where "WT_QUIC_TP_RETRY_SOURCE_CONNECTION_ID \<equiv> 0x10"
abbreviation WT_QUIC_TP_MAX_DATAGRAM_FRAME_SIZE :: u64 where "WT_QUIC_TP_MAX_DATAGRAM_FRAME_SIZE \<equiv> 0x20"
abbreviation WT_QUIC_TP_GREASE_QUIC_BIT :: u64 where "WT_QUIC_TP_GREASE_QUIC_BIT \<equiv> 0x2ab2"

definition WT_QUIC_MIN_MAX_UDP_PAYLOAD_SIZE :: u64 where "WT_QUIC_MIN_MAX_UDP_PAYLOAD_SIZE = 1200"
definition WT_QUIC_MAX_TRANSPORT_PARAMETERS :: nat where "WT_QUIC_MAX_TRANSPORT_PARAMETERS = 32"

definition wt_quic_transport_parameter_name :: "u64 \<Rightarrow> string" where
  "wt_quic_transport_parameter_name id' =
     (if id' = WT_QUIC_TP_ORIGINAL_DESTINATION_CONNECTION_ID then ''original_destination_connection_id''
      else if id' = WT_QUIC_TP_MAX_IDLE_TIMEOUT then ''max_idle_timeout''
      else if id' = WT_QUIC_TP_STATELESS_RESET_TOKEN then ''stateless_reset_token''
      else if id' = WT_QUIC_TP_MAX_UDP_PAYLOAD_SIZE then ''max_udp_payload_size''
      else if id' = WT_QUIC_TP_INITIAL_MAX_DATA then ''initial_max_data''
      else if id' = WT_QUIC_TP_INITIAL_MAX_STREAM_DATA_BIDI_LOCAL then ''initial_max_stream_data_bidi_local''
      else if id' = WT_QUIC_TP_INITIAL_MAX_STREAM_DATA_BIDI_REMOTE then ''initial_max_stream_data_bidi_remote''
      else if id' = WT_QUIC_TP_INITIAL_MAX_STREAM_DATA_UNI then ''initial_max_stream_data_uni''
      else if id' = WT_QUIC_TP_INITIAL_MAX_STREAMS_BIDI then ''initial_max_streams_bidi''
      else if id' = WT_QUIC_TP_INITIAL_MAX_STREAMS_UNI then ''initial_max_streams_uni''
      else if id' = WT_QUIC_TP_ACK_DELAY_EXPONENT then ''ack_delay_exponent''
      else if id' = WT_QUIC_TP_MAX_ACK_DELAY then ''max_ack_delay''
      else if id' = WT_QUIC_TP_DISABLE_ACTIVE_MIGRATION then ''disable_active_migration''
      else if id' = WT_QUIC_TP_PREFERRED_ADDRESS then ''preferred_address''
      else if id' = WT_QUIC_TP_ACTIVE_CONNECTION_ID_LIMIT then ''active_connection_id_limit''
      else if id' = WT_QUIC_TP_INITIAL_SOURCE_CONNECTION_ID then ''initial_source_connection_id''
      else if id' = WT_QUIC_TP_RETRY_SOURCE_CONNECTION_ID then ''retry_source_connection_id''
      else if id' = WT_QUIC_TP_MAX_DATAGRAM_FRAME_SIZE then ''max_datagram_frame_size''
      else if id' = WT_QUIC_TP_GREASE_QUIC_BIT then ''grease_quic_bit''
      else ''unknown'')"

record wt_quic_transport_parameter =
  tp_id :: u64
  tp_value :: "u8 list"

record wt_quic_transport_parameters =
  tps_entries :: "wt_quic_transport_parameter list"
  tps_integer_slots_used :: nat
  tps_sorted :: bool

definition wt_quic_transport_parameters_init :: wt_quic_transport_parameters where
  "wt_quic_transport_parameters_init =
     \<lparr>tps_entries = [], tps_integer_slots_used = 0, tps_sorted = True\<rparr>"

subsection \<open>Lookup\<close>

function lower_bound_loop :: "wt_quic_transport_parameter list \<Rightarrow> u64 \<Rightarrow> nat \<Rightarrow> nat \<Rightarrow> nat" where
  "lower_bound_loop es id' low high =
     (if low < high then
        let mid = low + (high - low) div 2
        in if tp_id (es ! mid) < id' then lower_bound_loop es id' (mid + 1) high
           else lower_bound_loop es id' low mid
      else low)"
  by pat_completeness auto
termination by (relation "measure (\<lambda>(es, id', low, high). high - low)") auto

declare lower_bound_loop.simps [simp del]

definition wt_quic_tp_lower_bound :: "wt_quic_transport_parameters \<Rightarrow> u64 \<Rightarrow> nat" where
  "wt_quic_tp_lower_bound p id' = lower_bound_loop (tps_entries p) id' 0 (length (tps_entries p))"

definition wt_quic_tp_entry :: "wt_quic_transport_parameters \<Rightarrow> u64 \<Rightarrow> wt_quic_transport_parameter option" where
  "wt_quic_tp_entry params id' =
     (if tps_sorted params then
        let at = wt_quic_tp_lower_bound params id'
        in if at < length (tps_entries params) \<and> tp_id (tps_entries params ! at) = id'
           then Some (tps_entries params ! at) else None
      else find (\<lambda>e. tp_id e = id') (tps_entries params))"

definition wt_quic_transport_parameters_get ::
  "wt_quic_transport_parameters \<Rightarrow> u64 \<Rightarrow> u8 list wt_result" where
  "wt_quic_transport_parameters_get params id' =
     (case wt_quic_tp_entry params id' of
        None \<Rightarrow> Inl WT_ERR_INVALID_ARGUMENT
      | Some e \<Rightarrow> Inr (tp_value e))"

definition wt_quic_transport_parameters_integer ::
  "wt_quic_transport_parameters \<Rightarrow> u64 \<Rightarrow> u64 wt_result" where
  "wt_quic_transport_parameters_integer params id' =
     (case wt_quic_transport_parameters_get params id' of
        Inl _ \<Rightarrow> Inl WT_ERR_INVALID_ARGUMENT
      | Inr value \<Rightarrow>
          if length value = 0 then Inl WT_ERR_TRUNCATED
          else (case wt_quic_varint_decode (cursor_of value) of
                  (Inl _, _) \<Rightarrow> Inl WT_ERR_TRUNCATED
                | (Inr v, c) \<Rightarrow> if \<not> wt_cursor_at_end c then Inl WT_ERR_TRUNCATED else Inr v))"

subsection \<open>Decoding\<close>

definition tp_fail :: "'a frame_reader" where
  "tp_fail = rfail (WT_ERR_PROTOCOL, Some WT_QUIC_TRANSPORT_PARAMETER_ERROR)"

text \<open>One parameter: identifier, length (minimally encoded), value.\<close>

definition tp_read_entry :: "wt_quic_transport_parameter frame_reader" where
  "tp_read_entry =
     rbind wt_quic_read_varint (\<lambda>id'.
     rbind (\<lambda>c. case wt_quic_varint_decode_sized c of
              (Inl _, c') \<Rightarrow> (Inl (WT_ERR_TRUNCATED, None), c')
            | (Inr x, c') \<Rightarrow> (Inr x, c')) (\<lambda>(value_len, value_len_size).
     if \<not> wt_quic_varint_is_minimal value_len value_len_size then tp_fail
     else
       rbind (\<lambda>c. case wt_checked_narrow_u64_to_size value_len of
                Inl _ \<Rightarrow> (Inl (WT_ERR_TRUNCATED, None), c)
              | Inr narrowed \<Rightarrow>
                  if narrowed > wt_cursor_remaining c then (Inl (WT_ERR_TRUNCATED, None), c)
                  else (case wt_cursor_bytes c narrowed of
                          (p, c') \<Rightarrow> (Inr (case p of None \<Rightarrow> [] | Some bs \<Rightarrow> bs), c'))) (\<lambda>value.
       rreturn \<lparr>tp_id = id', tp_value = value\<rparr>)))"

text \<open>Appending an entry; the sorted flag is cleared by the first descent.\<close>

definition tp_append :: "wt_quic_transport_parameters \<Rightarrow> wt_quic_transport_parameter \<Rightarrow> wt_quic_transport_parameters" where
  "tp_append out e =
     (let es = tps_entries out @ [e]
      in out\<lparr>tps_entries := es,
             tps_sorted := (if length es > 1 \<and> tp_id (es ! (length es - 2)) > tp_id (es ! (length es - 1))
                            then False else tps_sorted out)\<rparr>)"

text \<open>
  The walk over the extension. Every round appends an entry, so it ends by the bound of 32.
\<close>

function tp_decode_loop ::
  "wt_quic_transport_parameters \<Rightarrow> wt_quic_transport_parameters frame_reader" where
  "tp_decode_loop out c =
     (if wt_cursor_remaining c > 0 then
        if length (tps_entries out) \<ge> WT_QUIC_MAX_TRANSPORT_PARAMETERS then tp_fail c
        else (case tp_read_entry c of
                (Inl e, c') \<Rightarrow> (Inl e, c')
              | (Inr e, c') \<Rightarrow> tp_decode_loop (tp_append out e) c')
      else (Inr out, c))"
  by pat_completeness auto
termination
  by (relation "measure (\<lambda>(out, c). WT_QUIC_MAX_TRANSPORT_PARAMETERS - length (tps_entries out))")
    (auto simp: tp_append_def Let_def)

declare tp_decode_loop.simps [simp del]

text \<open>The double loop over the identifiers.\<close>

fun has_duplicate :: "wt_quic_transport_parameter list \<Rightarrow> bool" where
  "has_duplicate [] = False"
| "has_duplicate (e # es) = ((\<exists>f\<in>set es. tp_id e = tp_id f) \<or> has_duplicate es)"

definition wt_quic_transport_parameters_decode ::
  "u8 list option \<Rightarrow> u64 \<Rightarrow> frame_fail + wt_quic_transport_parameters" where
  "wt_quic_transport_parameters_decode data len =
     (if data = None \<and> len \<noteq> 0 then Inl (WT_ERR_INVALID_ARGUMENT, None)
      else case fst (tp_decode_loop wt_quic_transport_parameters_init (wt_cursor_init data len)) of
        Inl e \<Rightarrow> Inl e
      | Inr out \<Rightarrow>
          if has_duplicate (tps_entries out)
          then Inl (WT_ERR_PROTOCOL, Some WT_QUIC_TRANSPORT_PARAMETER_ERROR) else Inr out)"

subsection \<open>The value rules\<close>

definition reject_integer ::
  "wt_quic_transport_parameters \<Rightarrow> u64 \<Rightarrow> (u64 \<Rightarrow> bool) \<Rightarrow> u64 option" where
  "reject_integer params id' bad =
     (case wt_quic_transport_parameters_integer params id' of
        Inl _ \<Rightarrow> None
      | Inr v \<Rightarrow> if bad v then Some id' else None)"

definition reject_length ::
  "wt_quic_transport_parameters \<Rightarrow> u64 \<Rightarrow> (nat \<Rightarrow> bool) \<Rightarrow> u64 option" where
  "reject_length params id' bad =
     (case wt_quic_transport_parameters_get params id' of
        Inl _ \<Rightarrow> None
      | Inr value \<Rightarrow> if bad (length value) then Some id' else None)"

text \<open>The first rejection of a sequence of checks.\<close>

fun first_reject :: "u64 option list \<Rightarrow> u64 option" where
  "first_reject [] = None"
| "first_reject (Some id' # rs) = Some id'"
| "first_reject (None # rs) = first_reject rs"

definition tp_rules :: "wt_quic_transport_parameters \<Rightarrow> bool \<Rightarrow> u64 option list" where
  "tp_rules params peer_is_client =
     [reject_integer params WT_QUIC_TP_MAX_UDP_PAYLOAD_SIZE (\<lambda>v. v < WT_QUIC_MIN_MAX_UDP_PAYLOAD_SIZE),
      reject_integer params WT_QUIC_TP_ACK_DELAY_EXPONENT (\<lambda>v. v > 20),
      reject_length params WT_QUIC_TP_RESET_STREAM_AT (\<lambda>n. n \<noteq> 0),
      reject_integer params WT_QUIC_TP_MAX_ACK_DELAY (\<lambda>v. v \<ge> push_bit 14 1),
      reject_integer params WT_QUIC_TP_ACTIVE_CONNECTION_ID_LIMIT (\<lambda>v. v < 2),
      reject_integer params WT_QUIC_TP_INITIAL_MAX_STREAMS_BIDI (\<lambda>v. v > push_bit 60 1),
      reject_integer params WT_QUIC_TP_INITIAL_MAX_STREAMS_UNI (\<lambda>v. v > push_bit 60 1),
      reject_length params WT_QUIC_TP_STATELESS_RESET_TOKEN (\<lambda>n. n \<noteq> 16),
      reject_length params WT_QUIC_TP_STATELESS_RESET_TOKEN (\<lambda>n. peer_is_client),
      reject_length params WT_QUIC_TP_ORIGINAL_DESTINATION_CONNECTION_ID (\<lambda>n. n = 0 \<or> n > 20),
      reject_length params WT_QUIC_TP_INITIAL_SOURCE_CONNECTION_ID (\<lambda>n. n > 20),
      reject_length params WT_QUIC_TP_RETRY_SOURCE_CONNECTION_ID (\<lambda>n. n > 20)]"

text \<open>\<open>None\<close> is \<open>WT_OK\<close>; otherwise \<open>WT_ERR_PROTOCOL\<close>, the error code and the offending identifier.\<close>

definition wt_quic_transport_parameters_check ::
  "wt_quic_transport_parameters \<Rightarrow> bool \<Rightarrow> (wt_status \<times> wt_quic_error \<times> u64) option" where
  "wt_quic_transport_parameters_check params peer_is_client =
     (case first_reject (tp_rules params peer_is_client) of
        None \<Rightarrow> None
      | Some id' \<Rightarrow> Some (WT_ERR_PROTOCOL, WT_QUIC_TRANSPORT_PARAMETER_ERROR, id'))"

subsection \<open>Encoding and building\<close>

definition wt_quic_transport_parameters_encode ::
  "wt_quic_transport_parameters \<Rightarrow> wt_writer \<Rightarrow> wt_status \<times> wt_writer" where
  "wt_quic_transport_parameters_encode params w =
     (if length (tps_entries params) > WT_QUIC_MAX_TRANSPORT_PARAMETERS then (WT_ERR_INVALID_ARGUMENT, w)
      else if has_duplicate (tps_entries params) then (WT_ERR_INVALID_ARGUMENT, w)
      else emit_status (concat (map (\<lambda>e. [put_varint (tp_id e), put_varint (of_nat (length (tp_value e))),
                                           wt_writer_bytes (tp_value e)]) (tps_entries params))) w)"

definition wt_quic_tp_insert ::
  "wt_quic_transport_parameters \<Rightarrow> u64 \<Rightarrow> u8 list \<Rightarrow> wt_status \<times> wt_quic_transport_parameters" where
  "wt_quic_tp_insert params id' value =
     (let es = tps_entries params; count = length es in
      if count \<ge> WT_QUIC_MAX_TRANSPORT_PARAMETERS then (WT_ERR_LIMIT, params)
      else if tps_sorted params then
        let at = wt_quic_tp_lower_bound params id'
        in if at < count \<and> tp_id (es ! at) = id' then (WT_ERR_INVALID_ARGUMENT, params)
           else (WT_OK, params\<lparr>tps_entries := take at es @ [\<lparr>tp_id = id', tp_value = value\<rparr>] @ drop at es\<rparr>)
      else if \<exists>e\<in>set es. tp_id e = id' then (WT_ERR_INVALID_ARGUMENT, params)
      else (WT_OK, params\<lparr>tps_entries := es @ [\<lparr>tp_id = id', tp_value = value\<rparr>]\<rparr>))"

definition wt_quic_transport_parameters_add_integer ::
  "wt_quic_transport_parameters \<Rightarrow> u64 \<Rightarrow> u64 \<Rightarrow> wt_status \<times> wt_quic_transport_parameters" where
  "wt_quic_transport_parameters_add_integer params id' value =
     (if tps_integer_slots_used params \<ge> WT_QUIC_MAX_TRANSPORT_PARAMETERS then (WT_ERR_LIMIT, params)
      else
        let written = wt_quic_varint_encode value 8
        in if length written = 0 then (WT_ERR_OVERFLOW, params)
           else
             (case wt_quic_tp_insert params id' written of
                (status, p) \<Rightarrow>
                  (status, if status = WT_OK
                           then p\<lparr>tps_integer_slots_used := tps_integer_slots_used p + 1\<rparr> else p)))"

definition wt_quic_transport_parameters_add_bytes ::
  "wt_quic_transport_parameters \<Rightarrow> u64 \<Rightarrow> u8 list \<Rightarrow> wt_status \<times> wt_quic_transport_parameters" where
  "wt_quic_transport_parameters_add_bytes params id' value = wt_quic_tp_insert params id' value"

text \<open>\<open>status = call(...); if (status != WT_OK) return status;\<close>\<close>

definition tp_then ::
  "wt_status \<times> wt_quic_transport_parameters \<Rightarrow>
   (wt_quic_transport_parameters \<Rightarrow> wt_status \<times> wt_quic_transport_parameters) \<Rightarrow>
   wt_status \<times> wt_quic_transport_parameters" where
  "tp_then r f = (case r of (status, p) \<Rightarrow> if status \<noteq> WT_OK then (status, p) else f p)"

definition wt_quic_transport_parameters_build ::
  "wt_quic_transport_parameters \<Rightarrow> bool \<Rightarrow> u8 list \<Rightarrow> u8 list \<Rightarrow> bool \<Rightarrow> u8 list \<Rightarrow>
   wt_status \<times> wt_quic_transport_parameters" where
  "wt_quic_transport_parameters_build params is_server source original retried retry_source =
     (if length source = 0 then (WT_ERR_INVALID_ARGUMENT, params)
      else if is_server \<and> length original = 0 then (WT_ERR_INVALID_ARGUMENT, params)
      else if retried \<and> (\<not> is_server \<or> length retry_source = 0) then (WT_ERR_INVALID_ARGUMENT, params)
      else if \<not> retried \<and> length retry_source \<noteq> 0 then (WT_ERR_INVALID_ARGUMENT, params)
      else
        tp_then (wt_quic_transport_parameters_add_bytes wt_quic_transport_parameters_init
                   WT_QUIC_TP_INITIAL_SOURCE_CONNECTION_ID source) (\<lambda>p.
        tp_then (if is_server
                 then wt_quic_transport_parameters_add_bytes p
                        WT_QUIC_TP_ORIGINAL_DESTINATION_CONNECTION_ID original
                 else (WT_OK, p)) (\<lambda>p.
        tp_then (if retried
                 then wt_quic_transport_parameters_add_bytes p WT_QUIC_TP_RETRY_SOURCE_CONNECTION_ID retry_source
                 else (WT_OK, p)) (\<lambda>p.
        tp_then (wt_quic_transport_parameters_add_integer p WT_QUIC_TP_INITIAL_MAX_DATA 100000) (\<lambda>p.
        tp_then (wt_quic_transport_parameters_add_integer p WT_QUIC_TP_INITIAL_MAX_STREAM_DATA_BIDI_LOCAL 4096) (\<lambda>p.
        tp_then (wt_quic_transport_parameters_add_integer p WT_QUIC_TP_INITIAL_MAX_STREAM_DATA_BIDI_REMOTE 4096) (\<lambda>p.
        tp_then (wt_quic_transport_parameters_add_integer p WT_QUIC_TP_INITIAL_MAX_STREAM_DATA_UNI 4096) (\<lambda>p.
        tp_then (wt_quic_transport_parameters_add_integer p WT_QUIC_TP_INITIAL_MAX_STREAMS_BIDI 8) (\<lambda>p.
        tp_then (wt_quic_transport_parameters_add_integer p WT_QUIC_TP_INITIAL_MAX_STREAMS_UNI 8) (\<lambda>p.
        tp_then (wt_quic_transport_parameters_add_bytes p WT_QUIC_TP_RESET_STREAM_AT []) (\<lambda>p.
        wt_quic_transport_parameters_add_integer p WT_QUIC_TP_MAX_DATAGRAM_FRAME_SIZE 1200)))))))))))"

subsection \<open>Binary search and lookup\<close>

definition tp_ids :: "wt_quic_transport_parameters \<Rightarrow> u64 list" where
  "tp_ids p = map tp_id (tps_entries p)"

definition tp_ok :: "wt_quic_transport_parameters \<Rightarrow> bool" where
  "tp_ok p \<longleftrightarrow> length (tps_entries p) \<le> WT_QUIC_MAX_TRANSPORT_PARAMETERS \<and> distinct (tp_ids p) \<and>
     (tps_sorted p \<longrightarrow> sorted (tp_ids p))"

text \<open>The list as a finite map.\<close>

definition tp_map :: "wt_quic_transport_parameters \<Rightarrow> u64 \<rightharpoonup> u8 list" where
  "tp_map p = map_of (map (\<lambda>e. (tp_id e, tp_value e)) (tps_entries p))"

lemma has_duplicate_distinct: "has_duplicate es \<longleftrightarrow> \<not> distinct (map tp_id es)"
  by (induction es) auto

lemma lower_bound_loop_spec:
  assumes "sorted (map tp_id es)" "high \<le> length es" "low \<le> high"
    and "\<forall>i<low. tp_id (es ! i) < k" "\<forall>i. high \<le> i \<and> i < length es \<longrightarrow> k \<le> tp_id (es ! i)"
  shows "lower_bound_loop es k low high \<le> length es \<and>
    (\<forall>i<lower_bound_loop es k low high. tp_id (es ! i) < k) \<and>
    (\<forall>i. lower_bound_loop es k low high \<le> i \<and> i < length es \<longrightarrow> k \<le> tp_id (es ! i))"
  using assms
proof (induction es k low high rule: lower_bound_loop.induct)
  case (1 es k low high)
  define mid where "mid = low + (high - low) div 2"
  show ?case
  proof (cases "low < high")
    case False
    then have "lower_bound_loop es k low high = low" by (simp add: lower_bound_loop.simps [of es])
    moreover from False 1(5) have "low = high" by simp
    ultimately show ?thesis using 1(4,6,7) by simp
  next
    case True
    then have mid: "low \<le> mid" "mid < high" by (auto simp: mid_def)
    have mono: "tp_id (es ! i) \<le> tp_id (es ! j)" if "i \<le> j" "j < length es" for i j
      using sorted_nth_mono [OF 1(3), of i j] that by simp
    show ?thesis
    proof (cases "tp_id (es ! mid) < k")
      case lt: True
      then have eq: "lower_bound_loop es k low high = lower_bound_loop es k (mid + 1) high"
        using True by (subst lower_bound_loop.simps) (simp add: mid_def Let_def)
      have below: "\<forall>i<mid + 1. tp_id (es ! i) < k"
      proof (intro allI impI)
        fix i assume "i < mid + 1"
        then have "tp_id (es ! i) \<le> tp_id (es ! mid)" using mid 1(4) by (intro mono) simp_all
        with lt show "tp_id (es ! i) < k" by (rule le_less_trans [rotated])
      qed
      show ?thesis
        unfolding eq by (rule 1(1) [OF True mid_def lt 1(3,4) _ below 1(7)]) (use mid in \<open>simp only: Suc_leI Suc_eq_plus1 [symmetric]\<close>)
    next
      case ge: False
      then have eq: "lower_bound_loop es k low high = lower_bound_loop es k low mid"
        using True by (subst lower_bound_loop.simps) (simp add: mid_def Let_def)
      have above: "\<forall>i. mid \<le> i \<and> i < length es \<longrightarrow> k \<le> tp_id (es ! i)"
      proof (intro allI impI)
        fix i assume "mid \<le> i \<and> i < length es"
        then have "tp_id (es ! mid) \<le> tp_id (es ! i)" by (intro mono) simp_all
        with ge show "k \<le> tp_id (es ! i)" by (simp add: not_less)
      qed
      show ?thesis
        unfolding eq by (rule 1(2) [OF True mid_def ge 1(3) _ mid(1) 1(6) above])
          (rule less_imp_le [OF less_le_trans [OF mid(2) 1(4)]])
    qed
  qed
qed

lemma lower_bound_spec:
  assumes "sorted (tp_ids p)"
  shows "wt_quic_tp_lower_bound p k \<le> length (tps_entries p)"
    "\<And>i. i < wt_quic_tp_lower_bound p k \<Longrightarrow> tp_id (tps_entries p ! i) < k"
    "\<And>i. wt_quic_tp_lower_bound p k \<le> i \<Longrightarrow> i < length (tps_entries p) \<Longrightarrow> k \<le> tp_id (tps_entries p ! i)"
proof -
  have "wt_quic_tp_lower_bound p k \<le> length (tps_entries p) \<and>
    (\<forall>i<wt_quic_tp_lower_bound p k. tp_id (tps_entries p ! i) < k) \<and>
    (\<forall>i. wt_quic_tp_lower_bound p k \<le> i \<and> i < length (tps_entries p) \<longrightarrow> k \<le> tp_id (tps_entries p ! i))"
    unfolding wt_quic_tp_lower_bound_def using assms
    by (intro lower_bound_loop_spec) (auto simp: tp_ids_def)
  then show "wt_quic_tp_lower_bound p k \<le> length (tps_entries p)"
    "\<And>i. i < wt_quic_tp_lower_bound p k \<Longrightarrow> tp_id (tps_entries p ! i) < k"
    "\<And>i. wt_quic_tp_lower_bound p k \<le> i \<Longrightarrow> i < length (tps_entries p) \<Longrightarrow> k \<le> tp_id (tps_entries p ! i)"
    by blast+
qed

lemma tp_map_Some:
  "distinct (tp_ids p) \<Longrightarrow> tp_map p k = Some v \<longleftrightarrow> (\<exists>e\<in>set (tps_entries p). tp_id e = k \<and> tp_value e = v)"
  by (auto simp: tp_map_def tp_ids_def comp_def)

lemma tp_map_None: "tp_map p k = None \<longleftrightarrow> k \<notin> set (tp_ids p)"
  by (auto simp: tp_map_def tp_ids_def map_of_eq_None_iff image_image)

lemma tp_map_scan: "tp_map p k = map_option tp_value (find (\<lambda>e. tp_id e = k) (tps_entries p))"
proof -
  have "map_of (map (\<lambda>e. (tp_id e, tp_value e)) es) k = map_option tp_value (find (\<lambda>e. tp_id e = k) es)"
    for es :: "wt_quic_transport_parameter list"
    by (induction es) auto
  then show ?thesis by (simp add: tp_map_def)
qed

text \<open>Both search strategies find the entry of the map.\<close>

lemma tp_entry_map:
  assumes "tp_ok p"
  shows "map_option tp_value (wt_quic_tp_entry p k) = tp_map p k"
proof (cases "tps_sorted p")
  case False
  then show ?thesis by (simp add: wt_quic_tp_entry_def tp_map_scan)
next
  case True
  let ?n = "wt_quic_tp_lower_bound p k"
  have s: "sorted (tp_ids p)" and d: "distinct (tp_ids p)" using assms True by (simp_all add: tp_ok_def)
  note lb = lower_bound_spec [OF s, where k = k]
  show ?thesis
  proof (cases "?n < length (tps_entries p) \<and> tp_id (tps_entries p ! ?n) = k")
    case found: True
    then have "tp_map p k = Some (tp_value (tps_entries p ! ?n))"
      using tp_map_Some [OF d] nth_mem by blast
    with True found show ?thesis by (simp add: wt_quic_tp_entry_def Let_def)
  next
    case absent: False
    have "tp_id e \<noteq> k" if "e \<in> set (tps_entries p)" for e
    proof -
      obtain i where i: "i < length (tps_entries p)" "e = tps_entries p ! i"
        using \<open>e \<in> set (tps_entries p)\<close> by (metis in_set_conv_nth)
      consider "i < ?n" | "i = ?n" | "?n < i" by linarith
      then show ?thesis
      proof cases
        case 3
        then have "k \<le> tp_id (tps_entries p ! ?n)" "tp_id (tps_entries p ! ?n) \<le> tp_id e"
          using lb(3) i sorted_nth_mono [OF s, of ?n i] by (simp_all add: tp_ids_def)
        with absent 3 i show ?thesis by auto
      qed (use lb(2) i absent in auto)
    qed
    then have "tp_map p k = None" by (auto simp: tp_map_None tp_ids_def)
    with True absent show ?thesis by (auto simp: wt_quic_tp_entry_def Let_def)
  qed
qed

lemma tp_get_map:
  "tp_ok p \<Longrightarrow> wt_quic_transport_parameters_get p k =
     (case tp_map p k of None \<Rightarrow> Inl WT_ERR_INVALID_ARGUMENT | Some v \<Rightarrow> Inr v)"
  using tp_entry_map [of p k]
  by (cases "wt_quic_tp_entry p k") (auto simp: wt_quic_transport_parameters_get_def dest!: sym [of _ "tp_map p k"])

subsection \<open>The list as a bounded store\<close>

text \<open>What a bounded keyed store promises: an insertion under a fresh key is accepted while there is room and
  adds exactly that binding; any other insertion is refused and changes nothing.\<close>

fun insert_run :: "('s \<Rightarrow> 'k \<Rightarrow> 'v \<Rightarrow> wt_status \<times> 's) \<Rightarrow> ('k \<times> 'v) list \<Rightarrow> 's \<Rightarrow> 's" where
  "insert_run put [] s = s"
| "insert_run put ((k, v) # kvs) s = insert_run put kvs (snd (put s k v))"

locale bounded_store =
  fixes lookup :: "'s \<Rightarrow> 'k \<Rightarrow> 'v option"
    and put :: "'s \<Rightarrow> 'k \<Rightarrow> 'v \<Rightarrow> wt_status \<times> 's"
    and count :: "'s \<Rightarrow> nat"
    and ok :: "'s \<Rightarrow> bool"
    and limit :: nat
  assumes put_fresh: "ok s \<Longrightarrow> count s < limit \<Longrightarrow> lookup s k = None \<Longrightarrow>
      fst (put s k v) = WT_OK \<and> ok (snd (put s k v)) \<and> count (snd (put s k v)) = Suc (count s) \<and>
      lookup (snd (put s k v)) = (lookup s)(k \<mapsto> v)"
    and put_refused: "ok s \<Longrightarrow> \<not> (count s < limit \<and> lookup s k = None) \<Longrightarrow>
      fst (put s k v) \<noteq> WT_OK \<and> snd (put s k v) = s"
begin

lemma put_ok: "ok s \<Longrightarrow> ok (snd (put s k v))"
  using put_fresh put_refused by metis

lemma put_ok_iff: "ok s \<Longrightarrow> fst (put s k v) = WT_OK \<longleftrightarrow> count s < limit \<and> lookup s k = None"
  using put_fresh put_refused by metis

lemma put_keeps: "ok s \<Longrightarrow> lookup s \<subseteq>\<^sub>m lookup (snd (put s k v))"
  using put_fresh [of s k v] put_refused [of s k v]
  by (cases "count s < limit \<and> lookup s k = None") (auto simp: map_le_def dom_def)

lemma insert_run_ok: "ok s \<Longrightarrow> ok (insert_run put kvs s)"
  by (induction kvs arbitrary: s) (auto simp: put_ok)

lemma insert_run_keeps: "ok s \<Longrightarrow> lookup s \<subseteq>\<^sub>m lookup (insert_run put kvs s)"
proof (induction kvs arbitrary: s)
  case (Cons kv kvs)
  obtain k v where kv: "kv = (k, v)" by fastforce
  from Cons.IH [OF put_ok [OF Cons.prems], of k v] put_keeps [OF Cons.prems, of k v]
  show ?case unfolding kv by (auto intro: map_le_trans)
qed simp

lemma insert_run_all:
  "ok s \<Longrightarrow> distinct (map fst kvs) \<Longrightarrow> \<forall>k\<in>set (map fst kvs). lookup s k = None \<Longrightarrow>
   count s + length kvs \<le> limit \<Longrightarrow> lookup (insert_run put kvs s) = lookup s ++ map_of kvs"
proof (induction kvs arbitrary: s)
  case (Cons kv kvs)
  obtain k v where kv: "kv = (k, v)" by fastforce
  define s' where "s' = snd (put s k v)"
  have s': "ok s'" "count s' = Suc (count s)" "lookup s' = (lookup s)(k \<mapsto> v)"
    using put_fresh [OF Cons.prems(1), of k v] Cons.prems kv by (simp_all add: s'_def)
  have "lookup (insert_run put kvs s') = lookup s' ++ map_of kvs"
    using Cons.prems kv s' by (intro Cons.IH) auto
  moreover have "map_of kvs k = None" using Cons.prems(2) kv by (simp add: map_of_eq_None_iff)
  ultimately show ?case
    by (auto simp: kv s'_def [symmetric] s'(3) map_add_def fun_eq_iff split: option.splits)
qed simp

end

lemma tp_map_fresh:
  assumes "set (tps_entries p') = insert \<lparr>tp_id = k, tp_value = v\<rparr> (set (tps_entries p))"
    and "distinct (tp_ids p)" "distinct (tp_ids p')"
    and "k \<notin> set (tp_ids p)"
  shows "tp_map p' = (tp_map p)(k \<mapsto> v)"
proof -
  let ?ps = "\<lambda>p. map (\<lambda>e. (tp_id e, tp_value e)) (tps_entries p)"
  have "map_of (?ps p') = map_of ((k, v) # ?ps p)"
    using assms by (subst map_of_inject_set) (auto simp: tp_ids_def comp_def)
  then show ?thesis by (simp add: tp_map_def)
qed

lemma distinct_insert_at: "distinct xs \<Longrightarrow> k \<notin> set xs \<Longrightarrow> distinct (take n xs @ k # drop n xs)"
  using set_take_disj_set_drop_if_distinct [of xs n n]
  by (auto dest: in_set_takeD in_set_dropD)

lemma sorted_insert_at:
  fixes k :: "'a::linorder"
  assumes "sorted xs" "\<forall>x\<in>set (take n xs). x < k" "\<forall>x\<in>set (drop n xs). k \<le> x"
  shows "sorted (take n xs @ k # drop n xs)"
proof -
  have "x \<le> y" if "x \<in> set (take n xs)" "y \<in> insert k (set (drop n xs))" for x y
    using assms(2,3) that by fastforce
  with assms show ?thesis by (simp add: sorted_append)
qed

lemma tp_insert_fresh:
  fixes v :: "u8 list"
  assumes ok: "tp_ok p" and room: "length (tps_entries p) < WT_QUIC_MAX_TRANSPORT_PARAMETERS"
    and fresh: "tp_map p k = None"
  defines "r \<equiv> wt_quic_tp_insert p k v"
  shows "fst r = WT_OK \<and> tp_ok (snd r) \<and> length (tps_entries (snd r)) = Suc (length (tps_entries p)) \<and>
    tp_map (snd r) = (tp_map p)(k \<mapsto> v) \<and> tps_integer_slots_used (snd r) = tps_integer_slots_used p"
proof -
  let ?es = "tps_entries p" and ?e = "\<lparr>tp_id = k, tp_value = v\<rparr>"
  have d: "distinct (tp_ids p)" using ok by (simp add: tp_ok_def)
  have k: "k \<notin> set (tp_ids p)" using fresh by (simp add: tp_map_None)
  obtain at where r: "r = (WT_OK, p\<lparr>tps_entries := take at ?es @ [?e] @ drop at ?es\<rparr>)" "at \<le> length ?es"
    and at: "tps_sorted p \<Longrightarrow> at = wt_quic_tp_lower_bound p k"
  proof (cases "tps_sorted p")
    case True
    then have "sorted (tp_ids p)" using ok by (simp add: tp_ok_def)
    note lb = lower_bound_spec(1) [OF this, of k]
    have "\<not> (wt_quic_tp_lower_bound p k < length ?es \<and> tp_id (?es ! wt_quic_tp_lower_bound p k) = k)"
      using k by (metis imageI nth_mem set_map tp_ids_def)
    with True room lb show ?thesis
      by (intro that [of "wt_quic_tp_lower_bound p k"]) (simp_all add: r_def wt_quic_tp_insert_def Let_def)
  next
    case False
    have "\<not> (\<exists>e\<in>set ?es. tp_id e = k)" using k by (auto simp: tp_ids_def)
    with False room show ?thesis
      by (intro that [of "length ?es"]) (simp_all add: r_def wt_quic_tp_insert_def Let_def)
  qed
  have ids: "tp_ids (snd r) = take at (tp_ids p) @ k # drop at (tp_ids p)"
    by (simp add: r tp_ids_def take_map drop_map)
  have dist: "distinct (tp_ids (snd r))"
    unfolding ids using d k by (rule distinct_insert_at)
  have "sorted (tp_ids (snd r))" if s: "tps_sorted p"
  proof -
    have so: "sorted (tp_ids p)" using ok s by (simp add: tp_ok_def)
    note lb = lower_bound_spec [OF so, where k = k, folded at [OF s]]
    have "\<forall>x\<in>set (take at (tp_ids p)). x < k"
      using lb(2) r(2) by (auto simp: in_set_conv_nth tp_ids_def)
    moreover have "\<forall>x\<in>set (drop at (tp_ids p)). k \<le> x"
      using lb(3) by (auto simp: in_set_conv_nth tp_ids_def)
    ultimately show ?thesis unfolding ids by (rule sorted_insert_at [OF so])
  qed
  then have "tp_ok (snd r)"
    using ok room dist r by (auto simp: tp_ok_def)
  moreover have "set (tps_entries (snd r)) = insert ?e (set ?es)"
    using set_append [of "take at ?es" "drop at ?es"] by (simp add: r)
  with d dist k have "tp_map (snd r) = (tp_map p)(k \<mapsto> v)"
    by (intro tp_map_fresh)
  ultimately show ?thesis using r by simp
qed

lemma tp_insert_refused:
  assumes ok: "tp_ok p" and "\<not> (length (tps_entries p) < WT_QUIC_MAX_TRANSPORT_PARAMETERS \<and> tp_map p k = None)"
  shows "fst (wt_quic_tp_insert p k v) \<noteq> WT_OK \<and> snd (wt_quic_tp_insert p k v) = p"
proof (cases "length (tps_entries p) < WT_QUIC_MAX_TRANSPORT_PARAMETERS")
  case True
  with assms(2) have k: "k \<in> set (tp_ids p)" by (auto simp: tp_map_None)
  then have "\<exists>e\<in>set (tps_entries p). tp_id e = k" by (auto simp: tp_ids_def)
  moreover have "wt_quic_tp_entry p k \<noteq> None"
    using tp_entry_map [OF ok, of k] assms(2) True by auto
  ultimately show ?thesis
    using True by (auto simp: wt_quic_tp_insert_def wt_quic_tp_entry_def Let_def split: if_splits)
qed (simp add: wt_quic_tp_insert_def)

interpretation tp_store: bounded_store tp_map wt_quic_tp_insert "\<lambda>p. length (tps_entries p)" tp_ok
  WT_QUIC_MAX_TRANSPORT_PARAMETERS
  by unfold_locales (simp_all add: tp_insert_fresh tp_insert_refused)

lemma tp_ok_init: "tp_ok wt_quic_transport_parameters_init"
  by (simp add: tp_ok_def tp_ids_def wt_quic_transport_parameters_init_def)

lemma tp_map_init: "tp_map wt_quic_transport_parameters_init = Map.empty"
  by (simp add: tp_map_def wt_quic_transport_parameters_init_def)

subsection \<open>The wire format\<close>

definition tp_entry_bytes :: "wt_quic_transport_parameter \<Rightarrow> u8 list" where
  "tp_entry_bytes e = varint_bytes (tp_id e) @ varint_bytes (of_nat (length (tp_value e))) @ tp_value e"

definition tp_entry_valid :: "wt_quic_transport_parameter \<Rightarrow> bool" where
  "tp_entry_valid e \<longleftrightarrow> varint_valid (tp_id e) \<and> bytes_valid (tp_value e)"

definition tp_bytes :: "wt_quic_transport_parameter list \<Rightarrow> u8 list" where
  "tp_bytes es = concat (map tp_entry_bytes es)"

lemma reads_tp_entry: "tp_entry_valid e \<Longrightarrow> reads tp_read_entry (tp_entry_bytes e) e"
proof -
  assume v: "tp_entry_valid e"
  let ?n = "of_nat (length (tp_value e)) :: u64"
  have n: "varint_valid ?n" using v by (simp add: tp_entry_valid_def varint_valid_length)
  have len: "length (tp_value e) < 2 ^ 64" using v by (simp add: tp_entry_valid_def bytes_valid_def)
  have size: "reads (\<lambda>c. case wt_quic_varint_decode_sized c of
        (Inl _, c') \<Rightarrow> (Inl (WT_ERR_TRUNCATED, None) :: frame_fail + (u64 \<times> nat), c')
      | (Inr x, c') \<Rightarrow> (Inr x, c')) (varint_bytes ?n) (?n, wt_quic_varint_size ?n)"
    using reads_varint_sized [OF n] by (simp add: reads_def length_varint_bytes n)
  have val: "reads (\<lambda>c. case wt_checked_narrow_u64_to_size ?n of
        Inl _ \<Rightarrow> (Inl (WT_ERR_TRUNCATED, None) :: frame_fail + u8 list, c)
      | Inr narrowed \<Rightarrow>
          if narrowed > wt_cursor_remaining c then (Inl (WT_ERR_TRUNCATED, None), c)
          else (case wt_cursor_bytes c narrowed of
                  (p, c') \<Rightarrow> (Inr (case p of None \<Rightarrow> [] | Some bs \<Rightarrow> bs), c'))) (tp_value e) (tp_value e)"
  proof -
    have "\<not> ?n > wt_cursor_remaining c" if "cursor_ready c" "cursor_view c = tp_value e @ rest" for c rest
      using that cursor_fits_iff [of c ?n] len
      by (auto simp: cursor_ready_def wt_cursor_remaining_def not_less unat_of_nat_u64)
    with len show ?thesis
      by (auto simp: reads_def wt_cursor_bytes_def cursor_take_advance)
  qed
  have id': "reads wt_quic_read_varint (varint_bytes (tp_id e)) (tp_id e)"
    using v by (simp add: reads_read_varint tp_entry_valid_def)
  show ?thesis
    unfolding tp_read_entry_def tp_entry_bytes_def
    apply (rule reads_bind [OF id'])
    apply (rule reads_bind [OF size])
    apply (simp only: prod.case wt_quic_varint_is_minimal_def not_True_eq_False if_False simp_thms)
    apply (rule reads_bind_end [OF val])
    apply (rule reads_returnI, simp)
    done
qed

lemma tp_entry_bytes_nonempty: "tp_entry_valid e \<Longrightarrow> tp_entry_bytes e \<noteq> []"
  by (simp add: tp_entry_bytes_def tp_entry_valid_def varint_bytes_nonempty)

lemma tp_decode_loop_reads:
  assumes "list_all tp_entry_valid es" "length (tps_entries out) + length es \<le> WT_QUIC_MAX_TRANSPORT_PARAMETERS"
    and "cursor_ready c" "cursor_view c = tp_bytes es"
  shows "fst (tp_decode_loop out c) = Inr (foldl tp_append out es)"
  using assms
proof (induction es arbitrary: out c)
  case Nil
  then have "wt_cursor_remaining c = 0"
    using cursor_remaining_view [of c] by (simp add: cursor_ready_def unat_eq_0 tp_bytes_def)
  then show ?case by (simp add: tp_decode_loop.simps)
next
  case (Cons e es)
  let ?c = "cursor_advance c (length (tp_entry_bytes e))"
  have d: "tp_read_entry c = (Inr e, ?c)"
    using Cons.prems by (intro readsD [OF reads_tp_entry, of e c "tp_bytes es"]) (simp_all add: tp_bytes_def)
  have "cursor_view c \<noteq> []"
    using Cons.prems tp_entry_bytes_nonempty [of e] by (simp add: tp_bytes_def)
  then have "wt_cursor_remaining c > 0"
    using cursor_remaining_view [of c] Cons.prems(3) by (auto simp: cursor_ready_def word_neq_0_conv [symmetric])
  moreover have "cursor_ready ?c" "cursor_view ?c = tp_bytes es"
    using cursor_ready_advance [of c "length (tp_entry_bytes e)"] Cons.prems by (simp_all add: tp_bytes_def)
  moreover have "length (tps_entries (tp_append out e)) = Suc (length (tps_entries out))"
    by (simp add: tp_append_def Let_def)
  ultimately show ?case
    using Cons.IH [where c = ?c and out = "tp_append out e"] Cons.prems(1,2) d
    by (subst tp_decode_loop.simps) simp
qed

text \<open>The walk appends, and its flag records whether the identifiers ascend.\<close>

lemma tp_append_sorted:
  assumes "tps_sorted out \<longleftrightarrow> sorted (tp_ids out)"
  shows "tps_sorted (tp_append out e) \<longleftrightarrow> sorted (tp_ids (tp_append out e))"
proof (cases "tps_entries out" rule: rev_cases)
  case (snoc xs x)
  have "sorted (tp_ids (tp_append out e)) \<longleftrightarrow> sorted (tp_ids out) \<and> tp_id x \<le> tp_id e"
    by (auto simp: tp_ids_def tp_append_def Let_def snoc sorted_append)
  with assms show ?thesis by (auto simp: tp_append_def Let_def snoc nth_append not_le)
qed (use assms in \<open>simp add: tp_ids_def tp_append_def\<close>)

lemma foldl_tp_append:
  "tps_entries (foldl tp_append out es) = tps_entries out @ es"
  "tps_integer_slots_used (foldl tp_append out es) = tps_integer_slots_used out"
  "(tps_sorted out \<longleftrightarrow> sorted (tp_ids out)) \<Longrightarrow>
   tps_sorted (foldl tp_append out es) \<longleftrightarrow> sorted (tp_ids (foldl tp_append out es))"
proof -
  show "tps_entries (foldl tp_append out es) = tps_entries out @ es"
    "tps_integer_slots_used (foldl tp_append out es) = tps_integer_slots_used out"
    by (induction es arbitrary: out) (simp_all add: tp_append_def Let_def)
  show "tps_sorted (foldl tp_append out es) \<longleftrightarrow> sorted (tp_ids (foldl tp_append out es))"
    if "tps_sorted out \<longleftrightarrow> sorted (tp_ids out)"
    using that by (induction es arbitrary: out) (simp_all add: tp_append_sorted)
qed

lemma tp_decode_loop_sound:
  assumes "tp_decode_loop out c = (Inr p, c')" "length (tps_entries out) \<le> WT_QUIC_MAX_TRANSPORT_PARAMETERS"
    and "tps_sorted out \<longleftrightarrow> sorted (tp_ids out)"
  shows "length (tps_entries p) \<le> WT_QUIC_MAX_TRANSPORT_PARAMETERS \<and> (tps_sorted p \<longleftrightarrow> sorted (tp_ids p)) \<and>
    tps_integer_slots_used p = tps_integer_slots_used out"
  using assms
proof (induction out c rule: tp_decode_loop.induct)
  case (1 out c)
  from 1(2) consider "wt_cursor_remaining c = 0" "p = out"
    | e d where "wt_cursor_remaining c > 0" "length (tps_entries out) < WT_QUIC_MAX_TRANSPORT_PARAMETERS"
      "tp_read_entry c = (Inr e, d)" "tp_decode_loop (tp_append out e) d = (Inr p, c')"
    unfolding tp_decode_loop.simps [of out c]
    by (auto simp: tp_fail_def rfail_def word_neq_0_conv [symmetric] not_le split: if_splits prod.splits sum.splits)
  then show ?case
  proof cases
    case (2 e d)
    from 2(2) have "length (tps_entries (tp_append out e)) \<le> WT_QUIC_MAX_TRANSPORT_PARAMETERS"
      "tps_integer_slots_used (tp_append out e) = tps_integer_slots_used out"
      by (simp_all add: tp_append_def Let_def)
    with 1(1) [OF 2(1) _ 2(3) [symmetric] refl 2(4) _ tp_append_sorted [OF 1(4)]] 2(2) show ?thesis
      by simp
  qed (use 1 in simp)
qed

lemma tp_decode_sound:
  assumes "wt_quic_transport_parameters_decode data len = Inr p"
  shows "tp_ok p" "tps_integer_slots_used p = 0"
proof -
  obtain c' where loop: "tp_decode_loop wt_quic_transport_parameters_init (wt_cursor_init data len) = (Inr p, c')"
    and dup: "\<not> has_duplicate (tps_entries p)"
    using assms by (cases "tp_decode_loop wt_quic_transport_parameters_init (wt_cursor_init data len)")
      (auto simp: wt_quic_transport_parameters_decode_def split: if_splits sum.splits)
  have init: "tps_entries wt_quic_transport_parameters_init = []" "tps_sorted wt_quic_transport_parameters_init"
    "tps_integer_slots_used wt_quic_transport_parameters_init = 0"
    by (simp_all add: wt_quic_transport_parameters_init_def)
  from tp_decode_loop_sound [OF loop] dup
  show "tp_ok p" "tps_integer_slots_used p = 0"
    by (simp_all add: init tp_ids_def has_duplicate_distinct tp_ok_def)
qed

lemma tp_encode_writes:
  assumes "tp_ok p" "list_all tp_entry_valid (tps_entries p)"
  shows "writes (\<lambda>w. snd (wt_quic_transport_parameters_encode p w)) (tp_bytes (tps_entries p))"
    "fst (wt_quic_transport_parameters_encode p w) = writer_status (snd (wt_quic_transport_parameters_encode p w))"
proof -
  let ?fs = "\<lambda>e. [put_varint (tp_id e), put_varint (of_nat (length (tp_value e))), wt_writer_bytes (tp_value e)]"
  let ?bs = "\<lambda>e. [varint_bytes (tp_id e), varint_bytes (of_nat (length (tp_value e))), tp_value e]"
  have eq: "wt_quic_transport_parameters_encode p = emit_status (concat (map ?fs (tps_entries p)))"
    using assms(1) by (auto simp: wt_quic_transport_parameters_encode_def tp_ok_def tp_ids_def has_duplicate_distinct)
  have "list_all2 writes (concat (map ?fs es)) (concat (map ?bs es))" if "list_all tp_entry_valid es" for es
    using that by (induction es) (auto simp: tp_entry_valid_def writes_varint varint_valid_length)
  moreover have "concat (concat (map ?bs es)) = tp_bytes es" for es
    by (induction es) (simp_all add: tp_bytes_def tp_entry_bytes_def)
  ultimately show "writes (\<lambda>w. snd (wt_quic_transport_parameters_encode p w)) (tp_bytes (tps_entries p))"
    using emit_status_writes [of "concat (map ?fs (tps_entries p))" "concat (map ?bs (tps_entries p))"] assms(2)
    by (simp add: eq)
  show "fst (wt_quic_transport_parameters_encode p w) = writer_status (snd (wt_quic_transport_parameters_encode p w))"
    by (simp add: eq emit_status_fst)
qed

lemma tp_decode_bytes:
  assumes "tp_ok p" "list_all tp_entry_valid (tps_entries p)" "length (tp_bytes (tps_entries p)) < 2 ^ 64"
  shows "wt_quic_transport_parameters_decode (Some (tp_bytes (tps_entries p))) (of_nat (length (tp_bytes (tps_entries p))))
    = Inr (foldl tp_append wt_quic_transport_parameters_init (tps_entries p))"
proof -
  have "fst (tp_decode_loop wt_quic_transport_parameters_init (cursor_of (tp_bytes (tps_entries p))))
      = Inr (foldl tp_append wt_quic_transport_parameters_init (tps_entries p))"
    using assms by (intro tp_decode_loop_reads) (simp_all add: tp_ok_def wt_quic_transport_parameters_init_def)
  moreover have "\<not> has_duplicate (tps_entries (foldl tp_append wt_quic_transport_parameters_init (tps_entries p)))"
    using assms(1) by (simp add: foldl_tp_append has_duplicate_distinct tp_ok_def tp_ids_def
        wt_quic_transport_parameters_init_def)
  ultimately show ?thesis
    by (simp add: wt_quic_transport_parameters_decode_def cursor_of_def)
qed

subsection \<open>Reachable lists\<close>

text \<open>The lists an endpoint works with: empty, decoded, or extended by the two adding calls.\<close>

inductive tp_reachable :: "wt_quic_transport_parameters \<Rightarrow> bool" where
  init: "tp_reachable wt_quic_transport_parameters_init"
| decoded: "wt_quic_transport_parameters_decode data len = Inr p \<Longrightarrow> tp_reachable p"
| add_bytes: "tp_reachable p \<Longrightarrow> tp_reachable (snd (wt_quic_transport_parameters_add_bytes p k v))"
| add_integer: "tp_reachable p \<Longrightarrow> tp_reachable (snd (wt_quic_transport_parameters_add_integer p k n))"

lemma tp_ok_slots [simp]: "tp_ok (p\<lparr>tps_integer_slots_used := s\<rparr>) = tp_ok p"
  "tp_map (p\<lparr>tps_integer_slots_used := s\<rparr>) = tp_map p"
  by (simp_all add: tp_ok_def tp_ids_def tp_map_def)

lemma tp_ok_add_integer: "tp_ok p \<Longrightarrow> tp_ok (snd (wt_quic_transport_parameters_add_integer p k n))"
  using tp_store.put_ok [of p k "wt_quic_varint_encode n 8"]
  by (auto simp: wt_quic_transport_parameters_add_integer_def Let_def split: prod.splits)

lemma tp_reachable_ok: "tp_reachable p \<Longrightarrow> tp_ok p"
  by (induction rule: tp_reachable.induct)
    (simp_all add: tp_ok_init tp_decode_sound tp_ok_add_integer tp_store.put_ok wt_quic_transport_parameters_add_bytes_def)

subsection \<open>Building the list\<close>

text \<open>A call succeeded and left the list with these bindings, at most \<open>n\<close> entries and slots used.\<close>

definition tp_built :: "wt_status \<times> wt_quic_transport_parameters \<Rightarrow> (u64 \<rightharpoonup> u8 list) \<Rightarrow> nat \<Rightarrow> bool" where
  "tp_built r m n \<longleftrightarrow> fst r = WT_OK \<and> tp_ok (snd r) \<and> tp_map (snd r) = m \<and>
     length (tps_entries (snd r)) \<le> n \<and> tps_integer_slots_used (snd r) \<le> n"

lemma tp_built_then:
  "tp_built r m n \<Longrightarrow> (\<And>p. tp_built (WT_OK, p) m n \<Longrightarrow> tp_built (f p) m' n') \<Longrightarrow> tp_built (tp_then r f) m' n'"
  by (cases r) (simp add: tp_then_def tp_built_def)

lemma tp_built_insert:
  assumes "tp_built (WT_OK, p) m n" "n < WT_QUIC_MAX_TRANSPORT_PARAMETERS" "m k = None"
  shows "tp_built (wt_quic_tp_insert p k v) (m(k \<mapsto> v)) (Suc n)"
    "tps_integer_slots_used (snd (wt_quic_tp_insert p k v)) \<le> n"
  using tp_insert_fresh [of p k v] assms by (simp_all add: tp_built_def)

lemma tp_built_bytes:
  "tp_built (WT_OK, p) m n \<Longrightarrow> n < WT_QUIC_MAX_TRANSPORT_PARAMETERS \<Longrightarrow> m k = None \<Longrightarrow>
   tp_built (wt_quic_transport_parameters_add_bytes p k v) (m(k \<mapsto> v)) (Suc n)"
  by (simp add: wt_quic_transport_parameters_add_bytes_def tp_built_insert)

lemma tp_built_bytes_if:
  assumes "tp_built (WT_OK, p) m n" "n < WT_QUIC_MAX_TRANSPORT_PARAMETERS" "m k = None"
  shows "tp_built (if b then wt_quic_transport_parameters_add_bytes p k v else (WT_OK, p))
     (if b then m(k \<mapsto> v) else m) (Suc n)"
  using tp_built_bytes [OF assms] assms(1) by (simp add: tp_built_def)

lemma tp_built_integer:
  assumes "tp_built (WT_OK, p) m n" "n < WT_QUIC_MAX_TRANSPORT_PARAMETERS" "m k = None" "varint_valid v"
  shows "tp_built (wt_quic_transport_parameters_add_integer p k v) (m(k \<mapsto> varint_bytes v)) (Suc n)"
proof -
  have "wt_quic_varint_encode v 8 = varint_bytes v" by (simp add: varint_bytes_def)
  with tp_built_insert [OF assms(1-3), of "varint_bytes v"] assms(1,2) varint_bytes_nonempty [OF assms(4)]
  show ?thesis
    by (auto simp: wt_quic_transport_parameters_add_integer_def Let_def tp_built_def split: prod.splits)
qed

lemma tp_integer_map:
  assumes "tp_ok p" "tp_map p k = Some (varint_bytes v)" "varint_valid v"
  shows "wt_quic_transport_parameters_integer p k = Inr v"
proof -
  let ?c = "cursor_of (varint_bytes v)"
  have "wt_quic_varint_size v \<le> 8" using assms(3) by (simp add: varint_size_nat)
  then have "wt_quic_varint_decode ?c = (Inr v, cursor_advance ?c (length (varint_bytes v)))"
    using reads_of [OF reads_varint, of v "[]"] assms(3) length_varint_bytes [of v] by simp
  moreover have "wt_cursor_at_end (cursor_advance ?c (length (varint_bytes v)))"
    by (simp add: wt_cursor_at_end_def wt_cursor_remaining_def cursor_advance_def cursor_of_def wt_cursor_init_def)
  ultimately show ?thesis
    using assms varint_bytes_nonempty [of v] by (simp add: wt_quic_transport_parameters_integer_def tp_get_map)
qed

text \<open>The bindings an endpoint advertises.\<close>

definition advertised :: "bool \<Rightarrow> u8 list \<Rightarrow> u8 list \<Rightarrow> bool \<Rightarrow> u8 list \<Rightarrow> u64 \<rightharpoonup> u8 list" where
  "advertised is_server source original retried retry_source =
     (let ids = [WT_QUIC_TP_INITIAL_SOURCE_CONNECTION_ID \<mapsto> source];
          ids = (if is_server then ids(WT_QUIC_TP_ORIGINAL_DESTINATION_CONNECTION_ID \<mapsto> original) else ids);
          ids = (if retried then ids(WT_QUIC_TP_RETRY_SOURCE_CONNECTION_ID \<mapsto> retry_source) else ids)
      in ids(WT_QUIC_TP_INITIAL_MAX_DATA \<mapsto> varint_bytes 100000,
             WT_QUIC_TP_INITIAL_MAX_STREAM_DATA_BIDI_LOCAL \<mapsto> varint_bytes 4096,
             WT_QUIC_TP_INITIAL_MAX_STREAM_DATA_BIDI_REMOTE \<mapsto> varint_bytes 4096,
             WT_QUIC_TP_INITIAL_MAX_STREAM_DATA_UNI \<mapsto> varint_bytes 4096,
             WT_QUIC_TP_INITIAL_MAX_STREAMS_BIDI \<mapsto> varint_bytes 8,
             WT_QUIC_TP_INITIAL_MAX_STREAMS_UNI \<mapsto> varint_bytes 8,
             WT_QUIC_TP_RESET_STREAM_AT \<mapsto> [],
             WT_QUIC_TP_MAX_DATAGRAM_FRAME_SIZE \<mapsto> varint_bytes 1200))"

definition build_args_ok :: "bool \<Rightarrow> u8 list \<Rightarrow> u8 list \<Rightarrow> bool \<Rightarrow> u8 list \<Rightarrow> bool" where
  "build_args_ok is_server source original retried retry_source \<longleftrightarrow>
     source \<noteq> [] \<and> (is_server \<longrightarrow> original \<noteq> []) \<and> (retried \<longrightarrow> is_server) \<and> (retried \<longleftrightarrow> retry_source \<noteq> [])"

lemma tp_build_built:
  assumes "build_args_ok is_server source original retried retry_source"
  shows "tp_built (wt_quic_transport_parameters_build params is_server source original retried retry_source)
    (advertised is_server source original retried retry_source) 11"
proof -
  have init: "tp_built (WT_OK, wt_quic_transport_parameters_init) Map.empty 0"
    by (simp add: tp_built_def tp_ok_init tp_map_init) (simp add: wt_quic_transport_parameters_init_def)
  have guards: "length source = 0 \<longleftrightarrow> False" "is_server \<and> length original = 0 \<longleftrightarrow> False"
    "retried \<and> (\<not> is_server \<or> length retry_source = 0) \<longleftrightarrow> False" "\<not> retried \<and> length retry_source \<noteq> 0 \<longleftrightarrow> False"
    using assms by (auto simp: build_args_ok_def)
  have eleven: "(11::nat) = Suc (Suc (Suc (Suc (Suc (Suc (Suc (Suc (Suc (Suc (Suc 0))))))))))" by simp
  have valid: "varint_valid 100000" "varint_valid 4096" "varint_valid 8" "varint_valid 1200"
    by (simp_all add: varint_valid_def WT_QUIC_VARINT_MAX_def)
  show ?thesis
    unfolding wt_quic_transport_parameters_build_def advertised_def Let_def guards if_False eleven
    apply (rule tp_built_then, rule tp_built_bytes [OF init], simp add: WT_QUIC_MAX_TRANSPORT_PARAMETERS_def, simp)
    apply (rule tp_built_then, rule tp_built_bytes_if, assumption, simp add: WT_QUIC_MAX_TRANSPORT_PARAMETERS_def, simp)+
    apply (rule tp_built_then, (rule tp_built_bytes tp_built_integer, assumption),
        simp add: WT_QUIC_MAX_TRANSPORT_PARAMETERS_def, simp split: if_split, (rule valid)?)+
    apply (rule tp_built_integer, assumption, simp add: WT_QUIC_MAX_TRANSPORT_PARAMETERS_def, simp, rule valid)
    done
qed

lemma advertised_check:
  assumes ok: "tp_ok p" and m: "tp_map p = advertised is_server source original retried retry_source"
    and "length source \<le> 20" "is_server \<Longrightarrow> original \<noteq> [] \<and> length original \<le> 20" "length retry_source \<le> 20"
  shows "wt_quic_transport_parameters_check p (\<not> is_server) = None"
proof -
  have absent: "reject_integer p k bad = None" "reject_length p k bad' = None" if "tp_map p k = None" for k bad bad'
    using that ok by (simp_all add: reject_integer_def reject_length_def wt_quic_transport_parameters_integer_def tp_get_map)
  have none: "tp_map p WT_QUIC_TP_MAX_UDP_PAYLOAD_SIZE = None" "tp_map p WT_QUIC_TP_ACK_DELAY_EXPONENT = None"
    "tp_map p WT_QUIC_TP_MAX_ACK_DELAY = None" "tp_map p WT_QUIC_TP_ACTIVE_CONNECTION_ID_LIMIT = None"
    "tp_map p WT_QUIC_TP_STATELESS_RESET_TOKEN = None"
    by (simp_all add: m advertised_def Let_def)
  have streams: "reject_integer p k (\<lambda>v. v > push_bit 60 1) = None"
    if "tp_map p k = Some (varint_bytes 8)" for k
    using tp_integer_map [OF ok that]
    by (simp add: reject_integer_def varint_valid_def WT_QUIC_VARINT_MAX_def push_bit_eq_mult)
  have eight: "tp_map p WT_QUIC_TP_INITIAL_MAX_STREAMS_BIDI = Some (varint_bytes 8)"
    "tp_map p WT_QUIC_TP_INITIAL_MAX_STREAMS_UNI = Some (varint_bytes 8)"
    by (simp_all add: m advertised_def Let_def)
  have "reject_length p WT_QUIC_TP_RESET_STREAM_AT (\<lambda>n. n \<noteq> 0) = None"
    by (simp add: reject_length_def tp_get_map ok m advertised_def Let_def)
  moreover have "reject_length p WT_QUIC_TP_ORIGINAL_DESTINATION_CONNECTION_ID (\<lambda>n. n = 0 \<or> n > 20) = None"
    using assms(4) by (cases is_server) (simp_all add: reject_length_def tp_get_map ok m advertised_def Let_def)
  moreover have "reject_length p WT_QUIC_TP_INITIAL_SOURCE_CONNECTION_ID (\<lambda>n. n > 20) = None"
    "reject_length p WT_QUIC_TP_RETRY_SOURCE_CONNECTION_ID (\<lambda>n. n > 20) = None"
    using assms(3,5) by (simp_all add: reject_length_def tp_get_map ok m advertised_def Let_def)
  ultimately show ?thesis
    unfolding wt_quic_transport_parameters_check_def tp_rules_def
    by (simp only: absent [OF none(1)] absent [OF none(2)] absent [OF none(3)] absent [OF none(4)] absent [OF none(5)]
        streams [OF eight(1)] streams [OF eight(2)] first_reject.simps option.case)
qed

subsection \<open>Properties\<close>

lemma wt_quic_transport_parameters_lookup_parts:
  assumes "tp_reachable p"
  shows "wt_quic_transport_parameters_get p k =
      (case find (\<lambda>e. tp_id e = k) (tps_entries p) of
         None \<Rightarrow> Inl WT_ERR_INVALID_ARGUMENT | Some e \<Rightarrow> Inr (tp_value e))"
    and "fst (wt_quic_transport_parameters_add_bytes p k v) = WT_OK \<longleftrightarrow>
      length (tps_entries p) < WT_QUIC_MAX_TRANSPORT_PARAMETERS \<and> (\<forall>e\<in>set (tps_entries p). tp_id e \<noteq> k)"
    and "wt_quic_transport_parameters_get (snd (wt_quic_transport_parameters_add_bytes p k v)) k' =
      (if fst (wt_quic_transport_parameters_add_bytes p k v) = WT_OK \<and> k' = k then Inr v
       else wt_quic_transport_parameters_get p k')"
proof -
  have ok: "tp_ok p" using assms by (rule tp_reachable_ok)
  have "tp_map p k = map_option tp_value (find (\<lambda>e. tp_id e = k) (tps_entries p))"
    by (simp add: tp_map_scan)
  then show "wt_quic_transport_parameters_get p k =
      (case find (\<lambda>e. tp_id e = k) (tps_entries p) of
         None \<Rightarrow> Inl WT_ERR_INVALID_ARGUMENT | Some e \<Rightarrow> Inr (tp_value e))"
    by (simp add: tp_get_map ok split: option.splits)
  show "fst (wt_quic_transport_parameters_add_bytes p k v) = WT_OK \<longleftrightarrow>
      length (tps_entries p) < WT_QUIC_MAX_TRANSPORT_PARAMETERS \<and> (\<forall>e\<in>set (tps_entries p). tp_id e \<noteq> k)"
    using tp_store.put_ok_iff [OF ok, of k v]
    by (auto simp: wt_quic_transport_parameters_add_bytes_def tp_map_None tp_ids_def)
  show "wt_quic_transport_parameters_get (snd (wt_quic_transport_parameters_add_bytes p k v)) k' =
      (if fst (wt_quic_transport_parameters_add_bytes p k v) = WT_OK \<and> k' = k then Inr v
       else wt_quic_transport_parameters_get p k')"
  proof (cases "length (tps_entries p) < WT_QUIC_MAX_TRANSPORT_PARAMETERS \<and> tp_map p k = None")
    case True
    with tp_store.put_fresh [OF ok, of k v] show ?thesis
      by (simp add: wt_quic_transport_parameters_add_bytes_def tp_get_map ok)
  next
    case False
    from tp_store.put_refused [OF ok this, of v] show ?thesis
      by (simp add: wt_quic_transport_parameters_add_bytes_def)
  qed
qed

text \<open>C16: Transport parameter lookup. However a list came about (empty, decoded from a peer, extended by
  any mix of adding calls, accepted or refused), the lookup, which is a binary search on a sorted list and a
  scan on another, finds exactly what a scan of the entries finds; an addition is accepted exactly when there
  is room and the identifier is new, then changes the lookup of that identifier alone, and a refused one
  changes nothing.\<close>

theorem wt_quic_transport_parameters_lookup:
  assumes "tp_reachable p"
  shows "(wt_quic_transport_parameters_get p k =
      (case find (\<lambda>e. tp_id e = k) (tps_entries p) of
         None \<Rightarrow> Inl WT_ERR_INVALID_ARGUMENT | Some e \<Rightarrow> Inr (tp_value e))) \<and>
    (fst (wt_quic_transport_parameters_add_bytes p k v) = WT_OK \<longleftrightarrow>
      length (tps_entries p) < WT_QUIC_MAX_TRANSPORT_PARAMETERS \<and> (\<forall>e\<in>set (tps_entries p). tp_id e \<noteq> k)) \<and>
    (wt_quic_transport_parameters_get (snd (wt_quic_transport_parameters_add_bytes p k v)) k' =
      (if fst (wt_quic_transport_parameters_add_bytes p k v) = WT_OK \<and> k' = k then Inr v
       else wt_quic_transport_parameters_get p k'))"
  using wt_quic_transport_parameters_lookup_parts [OF assms] by blast

theorem wt_quic_transport_parameters_lookup_witness:
  "wt_quic_transport_parameters_get (snd (wt_quic_transport_parameters_add_bytes wt_quic_transport_parameters_init 3 [7])) 3
   = Inr [7]"
  using wt_quic_transport_parameters_lookup [OF tp_reachable.init, of 3 "[7]" 3]
  by (simp add: wt_quic_transport_parameters_init_def WT_QUIC_MAX_TRANSPORT_PARAMETERS_def)

lemma wt_quic_transport_parameters_round_trip_parts:
  assumes "tp_reachable p" "list_all tp_entry_valid (tps_entries p)" "unat cap \<le> length d"
  shows "fst (wt_quic_transport_parameters_encode p (wt_writer_init (Some d) cap)) = WT_OK \<longleftrightarrow>
      length (tp_bytes (tps_entries p)) \<le> unat cap"
    and "fst (wt_quic_transport_parameters_encode p (wt_writer_init (Some d) cap)) = WT_OK \<longrightarrow>
      (let bs = writer_out (snd (wt_quic_transport_parameters_encode p (wt_writer_init (Some d) cap)))
       in \<exists>q. wt_quic_transport_parameters_decode (Some bs) (of_nat (length bs)) = Inr q \<and>
            tps_entries q = tps_entries p \<and>
            (\<forall>k. wt_quic_transport_parameters_get q k = wt_quic_transport_parameters_get p k))"
proof -
  let ?w = "wt_writer_init (Some d) cap" and ?bs = "tp_bytes (tps_entries p)"
  have ok: "tp_ok p" using assms(1) by (rule tp_reachable_ok)
  note w = writes_init [OF tp_encode_writes(1) [OF ok assms(2)] assms(3)]
  show fits: "fst (wt_quic_transport_parameters_encode p ?w) = WT_OK \<longleftrightarrow> length ?bs \<le> unat cap"
    using w(1) tp_encode_writes(2) [OF ok assms(2), of ?w] by (simp add: writer_status_def)
  have "wt_quic_transport_parameters_get q k = wt_quic_transport_parameters_get p k"
    if "tp_ok q" "tps_entries q = tps_entries p" for q k
    using that ok by (simp add: tp_get_map tp_map_def)
  moreover have "length ?bs < 2 ^ 64" if "length ?bs \<le> unat cap"
    using that unat_u64_less [of cap] by simp
  ultimately show "fst (wt_quic_transport_parameters_encode p ?w) = WT_OK \<longrightarrow>
      (let bs = writer_out (snd (wt_quic_transport_parameters_encode p ?w))
       in \<exists>q. wt_quic_transport_parameters_decode (Some bs) (of_nat (length bs)) = Inr q \<and>
            tps_entries q = tps_entries p \<and>
            (\<forall>k. wt_quic_transport_parameters_get q k = wt_quic_transport_parameters_get p k))"
    using fits w(2) tp_decode_bytes [OF ok assms(2)] tp_decode_sound(1) [OF tp_decode_bytes [OF ok assms(2)]]
    by (auto simp: Let_def foldl_tp_append wt_quic_transport_parameters_init_def)
qed

text \<open>Round trip of the transport parameters extension. Encoding a reachable list whose identifiers fit
  a variable-length integer succeeds exactly when the bytes fit the buffer; decoding the bytes written gives
  the same entries in the same order, hence the same answer to every lookup.\<close>

lemma wt_quic_transport_parameters_round_trip:
  assumes "tp_reachable p" "list_all tp_entry_valid (tps_entries p)" "unat cap \<le> length d"
  shows "(fst (wt_quic_transport_parameters_encode p (wt_writer_init (Some d) cap)) = WT_OK \<longleftrightarrow>
      length (tp_bytes (tps_entries p)) \<le> unat cap) \<and>
    (fst (wt_quic_transport_parameters_encode p (wt_writer_init (Some d) cap)) = WT_OK \<longrightarrow>
      (let bs = writer_out (snd (wt_quic_transport_parameters_encode p (wt_writer_init (Some d) cap)))
       in \<exists>q. wt_quic_transport_parameters_decode (Some bs) (of_nat (length bs)) = Inr q \<and>
            tps_entries q = tps_entries p \<and>
            (\<forall>k. wt_quic_transport_parameters_get q k = wt_quic_transport_parameters_get p k)))"
  using wt_quic_transport_parameters_round_trip_parts [OF assms] by blast

lemma wt_quic_transport_parameters_build_accepted_parts:
  assumes "build_args_ok is_server source original retried retry_source"
    and "length source \<le> 20" "length original \<le> 20" "length retry_source \<le> 20"
  shows "fst (wt_quic_transport_parameters_build params is_server source original retried retry_source) = WT_OK"
    and "wt_quic_transport_parameters_get
        (snd (wt_quic_transport_parameters_build params is_server source original retried retry_source)) k =
      (case advertised is_server source original retried retry_source k of
         None \<Rightarrow> Inl WT_ERR_INVALID_ARGUMENT | Some v \<Rightarrow> Inr v)"
    and "wt_quic_transport_parameters_check
        (snd (wt_quic_transport_parameters_build params is_server source original retried retry_source)) (\<not> is_server) = None"
proof -
  note b = tp_build_built [OF assms(1), of params, unfolded tp_built_def]
  show "fst (wt_quic_transport_parameters_build params is_server source original retried retry_source) = WT_OK"
    using b by simp
  show "wt_quic_transport_parameters_get
        (snd (wt_quic_transport_parameters_build params is_server source original retried retry_source)) k =
      (case advertised is_server source original retried retry_source k of
         None \<Rightarrow> Inl WT_ERR_INVALID_ARGUMENT | Some v \<Rightarrow> Inr v)"
    using b by (simp add: tp_get_map)
  show "wt_quic_transport_parameters_check
        (snd (wt_quic_transport_parameters_build params is_server source original retried retry_source)) (\<not> is_server) = None"
    using b assms by (intro advertised_check [of _ is_server source original retried retry_source])
      (simp_all add: build_args_ok_def)
qed

text \<open>The parameters an endpoint sends. With connection IDs of legal length and a Retry source exactly
  when there was a Retry, building the list succeeds whatever the structure held; the list carries exactly the
  advertised bindings (for a server its original destination, after a Retry its Retry source, no other), and
  the peer's check of its values accepts it.\<close>

lemma wt_quic_transport_parameters_build_accepted:
  assumes "build_args_ok is_server source original retried retry_source"
    and "length source \<le> 20" "length original \<le> 20" "length retry_source \<le> 20"
  shows "(fst (wt_quic_transport_parameters_build params is_server source original retried retry_source) = WT_OK) \<and>
    (wt_quic_transport_parameters_get
        (snd (wt_quic_transport_parameters_build params is_server source original retried retry_source)) k =
      (case advertised is_server source original retried retry_source k of
         None \<Rightarrow> Inl WT_ERR_INVALID_ARGUMENT | Some v \<Rightarrow> Inr v)) \<and>
    (wt_quic_transport_parameters_check
        (snd (wt_quic_transport_parameters_build params is_server source original retried retry_source)) (\<not> is_server) = None)"
  using wt_quic_transport_parameters_build_accepted_parts [OF assms] by blast

end
