(* ===== verification/Http3_Frame.thy ===== *)
theory Http3_Frame
  imports Quic_Frame
begin

text \<open>
  HTTP/3 frames, the frames each stream may carry and the order of a request stream
  (\<open>C99/src/http3/frame.c\<close>, \<open>streams.c\<close>, \<open>request.c\<close>). A failing call returns its status with the
  HTTP/3 error code it leaves in \<open>out_error\<close>; payload and length together are one byte list.
\<close>

text \<open>The enumeration of frame.h; a number cast to the type without being one of its members is
  \<open>WT_HTTP3_ERROR_CAST\<close>.\<close>

datatype wt_http3_error =
  WT_HTTP3_NO_ERROR | WT_HTTP3_GENERAL_PROTOCOL_ERROR | WT_HTTP3_INTERNAL_ERROR
| WT_HTTP3_STREAM_CREATION_ERROR | WT_HTTP3_CLOSED_CRITICAL_STREAM | WT_HTTP3_FRAME_UNEXPECTED
| WT_HTTP3_FRAME_ERROR | WT_HTTP3_EXCESSIVE_LOAD | WT_HTTP3_ID_ERROR | WT_HTTP3_SETTINGS_ERROR
| WT_HTTP3_MISSING_SETTINGS | WT_HTTP3_REQUEST_REJECTED | WT_HTTP3_REQUEST_CANCELLED
| WT_HTTP3_REQUEST_INCOMPLETE | WT_HTTP3_MESSAGE_ERROR | WT_HTTP3_CONNECT_ERROR
| WT_HTTP3_VERSION_FALLBACK | WT_HTTP3_DATAGRAM_ERROR | WT_HTTP3_ERROR_CAST u64

type_synonym http3_fail = "wt_status \<times> wt_http3_error"

definition WT_HTTP3_FRAME_DATA :: u64 where "WT_HTTP3_FRAME_DATA = 0x00"
definition WT_HTTP3_FRAME_HEADERS :: u64 where "WT_HTTP3_FRAME_HEADERS = 0x01"
definition WT_HTTP3_FRAME_CANCEL_PUSH :: u64 where "WT_HTTP3_FRAME_CANCEL_PUSH = 0x03"
definition WT_HTTP3_FRAME_SETTINGS :: u64 where "WT_HTTP3_FRAME_SETTINGS = 0x04"
definition WT_HTTP3_FRAME_PUSH_PROMISE :: u64 where "WT_HTTP3_FRAME_PUSH_PROMISE = 0x05"
definition WT_HTTP3_FRAME_GOAWAY :: u64 where "WT_HTTP3_FRAME_GOAWAY = 0x07"
definition WT_HTTP3_FRAME_MAX_PUSH_ID :: u64 where "WT_HTTP3_FRAME_MAX_PUSH_ID = 0x0d"
definition WT_HTTP3_STREAM_CONTROL :: u64 where "WT_HTTP3_STREAM_CONTROL = 0x00"
definition WT_HTTP3_STREAM_PUSH :: u64 where "WT_HTTP3_STREAM_PUSH = 0x01"
definition WT_HTTP3_STREAM_QPACK_ENCODER :: u64 where "WT_HTTP3_STREAM_QPACK_ENCODER = 0x02"
definition WT_HTTP3_STREAM_QPACK_DECODER :: u64 where "WT_HTTP3_STREAM_QPACK_DECODER = 0x03"
definition WT_HTTP3_FRAME_DATA_HEADER_MAX :: nat where "WT_HTTP3_FRAME_DATA_HEADER_MAX = 9"

lemmas http3_types = WT_HTTP3_FRAME_DATA_def WT_HTTP3_FRAME_HEADERS_def WT_HTTP3_FRAME_CANCEL_PUSH_def
  WT_HTTP3_FRAME_SETTINGS_def WT_HTTP3_FRAME_PUSH_PROMISE_def WT_HTTP3_FRAME_GOAWAY_def
  WT_HTTP3_FRAME_MAX_PUSH_ID_def WT_HTTP3_STREAM_CONTROL_def WT_HTTP3_STREAM_PUSH_def
  WT_HTTP3_STREAM_QPACK_ENCODER_def WT_HTTP3_STREAM_QPACK_DECODER_def

record wt_http3_frame =
  hf_type :: u64
  hf_payload :: "u8 list"

definition wt_http3_frame_make :: "u64 \<Rightarrow> wt_http3_frame" where
  "wt_http3_frame_make type = \<lparr>hf_type = type, hf_payload = []\<rparr>"

definition wt_http3_frame_type_name :: "u64 \<Rightarrow> string" where
  "wt_http3_frame_type_name type =
     (if type = WT_HTTP3_FRAME_DATA then ''data''
      else if type = WT_HTTP3_FRAME_HEADERS then ''headers''
      else if type = WT_HTTP3_FRAME_CANCEL_PUSH then ''cancel-push''
      else if type = WT_HTTP3_FRAME_SETTINGS then ''settings''
      else if type = WT_HTTP3_FRAME_PUSH_PROMISE then ''push-promise''
      else if type = WT_HTTP3_FRAME_GOAWAY then ''goaway''
      else if type = WT_HTTP3_FRAME_MAX_PUSH_ID then ''max-push-id''
      else ''unknown'')"

definition wt_http3_frame_type_is_reserved :: "u64 \<Rightarrow> bool" where
  "wt_http3_frame_type_is_reserved type \<longleftrightarrow> type = 0x02 \<or> type = 0x06 \<or> type = 0x08 \<or> type = 0x09"

definition wt_http3_frame_type_is_exerciser :: "u64 \<Rightarrow> bool" where
  "wt_http3_frame_type_is_exerciser type = (if type < 0x21 then False else (type - 0x21) mod 0x1f = 0)"

definition wt_http3_frame_type_is_known :: "u64 \<Rightarrow> bool" where
  "wt_http3_frame_type_is_known type \<longleftrightarrow>
     type \<in> {WT_HTTP3_FRAME_DATA, WT_HTTP3_FRAME_HEADERS, WT_HTTP3_FRAME_CANCEL_PUSH, WT_HTTP3_FRAME_SETTINGS,
             WT_HTTP3_FRAME_PUSH_PROMISE, WT_HTTP3_FRAME_GOAWAY, WT_HTTP3_FRAME_MAX_PUSH_ID}"

subsection \<open>The frame codec\<close>

definition wt_http3_frame_encode :: "wt_http3_frame \<Rightarrow> wt_writer \<Rightarrow> wt_status \<times> wt_writer" where
  "wt_http3_frame_encode frame w =
     (if hf_type frame > WT_QUIC_VARINT_MAX then (WT_ERR_INVALID_ARGUMENT, w)
      else if of_nat (length (hf_payload frame)) > WT_QUIC_VARINT_MAX then (WT_ERR_INVALID_ARGUMENT, w)
      else
        emit_status
          ([put_varint (hf_type frame), put_varint (of_nat (length (hf_payload frame)))] @
           (if length (hf_payload frame) \<noteq> 0 then [wt_writer_bytes (hf_payload frame)] else [])) w)"

definition wt_http3_frame_encoded_size :: "wt_http3_frame \<Rightarrow> u64 wt_result" where
  "wt_http3_frame_encoded_size frame =
     (let len = of_nat (length (hf_payload frame)) in
      if hf_type frame > WT_QUIC_VARINT_MAX then Inl WT_ERR_INVALID_ARGUMENT
      else if len > WT_QUIC_VARINT_MAX then Inl WT_ERR_INVALID_ARGUMENT
      else
        let total = of_nat (wt_quic_varint_size (hf_type frame)) + of_nat (wt_quic_varint_size len)
        in if total > - 1 - len then Inl WT_ERR_OVERFLOW else Inr (total + len))"

definition wt_http3_frame_data_writer :: "u8 list option \<Rightarrow> u64 \<Rightarrow> wt_writer" where
  "wt_http3_frame_data_writer buffer capacity =
     (case buffer of
        None \<Rightarrow> wt_writer_init None 0
      | Some d \<Rightarrow>
          if capacity < of_nat WT_HTTP3_FRAME_DATA_HEADER_MAX then wt_writer_init (Some d) 0
          else wt_writer_init (Some (drop WT_HTTP3_FRAME_DATA_HEADER_MAX d))
                 (capacity - of_nat WT_HTTP3_FRAME_DATA_HEADER_MAX))"

text \<open>The buffer after the call and the size of the frame in it (\<open>*out_length\<close>, 0 on failure).\<close>

definition wt_http3_frame_wrap_data_in_place ::
  "u8 list \<Rightarrow> u64 \<Rightarrow> u64 \<Rightarrow> wt_status \<times> u8 list \<times> u64" where
  "wt_http3_frame_wrap_data_in_place buffer capacity payload_length =
     (if payload_length > WT_QUIC_VARINT_MAX then (WT_ERR_INVALID_ARGUMENT, buffer, 0)
      else if capacity < of_nat WT_HTTP3_FRAME_DATA_HEADER_MAX \<or>
              payload_length > capacity - of_nat WT_HTTP3_FRAME_DATA_HEADER_MAX
      then (WT_ERR_LIMIT, buffer, 0)
      else
        let length_bytes = wt_quic_varint_encode payload_length (WT_HTTP3_FRAME_DATA_HEADER_MAX - 1);
            header = ucast WT_HTTP3_FRAME_DATA # length_bytes
        in if length length_bytes = 0 then (WT_ERR_INVALID_ARGUMENT, buffer, 0)
           else if of_nat (length header) > capacity - payload_length then (WT_ERR_LIMIT, buffer, 0)
           else
             let moved = overwrite (length header)
                   (take (unat payload_length) (drop WT_HTTP3_FRAME_DATA_HEADER_MAX buffer)) buffer
             in (WT_OK, overwrite 0 header moved, of_nat (length header) + payload_length))"

text \<open>\<open>if (wt_quic_varint_decode(c, &v) != WT_OK) fail\<close>, and a view whose NULL means failure unless it is empty.\<close>

definition varint_or :: "'e \<Rightarrow> ('e, u64) xreader" where
  "varint_or e c = (case wt_quic_varint_decode c of (Inl _, c') \<Rightarrow> (Inl e, c') | (Inr v, c') \<Rightarrow> (Inr v, c'))"

definition view_or :: "'e \<Rightarrow> u64 \<Rightarrow> ('e, u8 list) xreader" where
  "view_or e n c =
     (case wt_cursor_bytes c n of
        (None, c') \<Rightarrow> if n \<noteq> 0 then (Inl e, c') else (Inr [], c')
      | (Some bs, c') \<Rightarrow> (Inr bs, c'))"

definition frame_decode_at :: "(http3_fail, wt_http3_frame) xreader" where
  "frame_decode_at =
     rbind (varint_or (WT_ERR_TRUNCATED, WT_HTTP3_FRAME_ERROR)) (\<lambda>type.
     rbind (varint_or (WT_ERR_TRUNCATED, WT_HTTP3_FRAME_ERROR)) (\<lambda>len.
     rbind (view_or (WT_ERR_TRUNCATED, WT_HTTP3_FRAME_ERROR) len) (\<lambda>payload.
     rreturn \<lparr>hf_type = type, hf_payload = payload\<rparr>)))"

text \<open>A frame that fails to decode gives its bytes back.\<close>

definition wt_http3_frame_decode :: "(http3_fail, wt_http3_frame) xreader" where
  "wt_http3_frame_decode c =
     (case frame_decode_at c of
        (Inl e, c') \<Rightarrow> (Inl e, c)
      | (Inr frame, c') \<Rightarrow> (Inr frame, c'))"

definition wt_http3_frame_decode_prefix ::
  "u8 list option \<Rightarrow> u64 \<Rightarrow> http3_fail + (wt_http3_frame \<times> u64)" where
  "wt_http3_frame_decode_prefix data len =
     (if data = None \<and> len \<noteq> 0 then Inl (WT_ERR_INVALID_ARGUMENT, WT_HTTP3_NO_ERROR)
      else case frame_decode_at (wt_cursor_init data len) of
        (Inl e, c') \<Rightarrow> Inl e
      | (Inr frame, c') \<Rightarrow> Inr (frame, len - wt_cursor_remaining c'))"

definition wt_http3_stream_type_read :: "(http3_fail, u64) xreader" where
  "wt_http3_stream_type_read c =
     (case wt_quic_varint_decode c of
        (Inl _, c') \<Rightarrow> (Inl (WT_ERR_TRUNCATED, WT_HTTP3_STREAM_CREATION_ERROR), c)
      | (Inr type, c') \<Rightarrow> (Inr type, c'))"

subsection \<open>Which frame on which stream (streams.c)\<close>

datatype wt_http3_role = WT_HTTP3_ROLE_CLIENT | WT_HTTP3_ROLE_SERVER

datatype wt_http3_stream_kind =
  WT_HTTP3_STREAM_KIND_CONTROL | WT_HTTP3_STREAM_KIND_REQUEST | WT_HTTP3_STREAM_KIND_PUSH
| WT_HTTP3_STREAM_KIND_QPACK_ENCODER | WT_HTTP3_STREAM_KIND_QPACK_DECODER

text \<open>\<open>None\<close> is \<open>WT_OK\<close>.\<close>

definition wt_http3_frame_allowed ::
  "wt_http3_role \<Rightarrow> wt_http3_stream_kind \<Rightarrow> u64 \<Rightarrow> http3_fail option" where
  "wt_http3_frame_allowed receiver kind type =
     (let refused = Some (WT_ERR_PROTOCOL, WT_HTTP3_FRAME_UNEXPECTED) in
      if wt_http3_frame_type_is_reserved type then refused
      else if kind = WT_HTTP3_STREAM_KIND_QPACK_ENCODER \<or> kind = WT_HTTP3_STREAM_KIND_QPACK_DECODER then refused
      else if kind = WT_HTTP3_STREAM_KIND_CONTROL then
        if type = WT_HTTP3_FRAME_DATA \<or> type = WT_HTTP3_FRAME_HEADERS \<or> type = WT_HTTP3_FRAME_PUSH_PROMISE
        then refused
        else if type = WT_HTTP3_FRAME_MAX_PUSH_ID \<and> receiver = WT_HTTP3_ROLE_CLIENT then refused
        else None
      else if kind = WT_HTTP3_STREAM_KIND_REQUEST then
        if type = WT_HTTP3_FRAME_SETTINGS \<or> type = WT_HTTP3_FRAME_GOAWAY \<or>
           type = WT_HTTP3_FRAME_MAX_PUSH_ID \<or> type = WT_HTTP3_FRAME_CANCEL_PUSH then refused
        else if type = WT_HTTP3_FRAME_PUSH_PROMISE \<and> receiver = WT_HTTP3_ROLE_SERVER then refused
        else None
      else
        if type = WT_HTTP3_FRAME_SETTINGS \<or> type = WT_HTTP3_FRAME_GOAWAY \<or>
           type = WT_HTTP3_FRAME_MAX_PUSH_ID \<or> type = WT_HTTP3_FRAME_CANCEL_PUSH \<or>
           type = WT_HTTP3_FRAME_PUSH_PROMISE then refused
        else None)"

definition wt_http3_stream_kind_for_type :: "u64 \<Rightarrow> wt_http3_stream_kind wt_result" where
  "wt_http3_stream_kind_for_type stream_type =
     (if stream_type = WT_HTTP3_STREAM_CONTROL then Inr WT_HTTP3_STREAM_KIND_CONTROL
      else if stream_type = WT_HTTP3_STREAM_QPACK_ENCODER then Inr WT_HTTP3_STREAM_KIND_QPACK_ENCODER
      else if stream_type = WT_HTTP3_STREAM_QPACK_DECODER then Inr WT_HTTP3_STREAM_KIND_QPACK_DECODER
      else if stream_type = WT_HTTP3_STREAM_PUSH then Inr WT_HTTP3_STREAM_KIND_PUSH
      else Inl WT_ERR_STATE)"

subsection \<open>The order of a request stream (request.c)\<close>

datatype wt_http3_request_state =
  WT_HTTP3_REQUEST_EXPECT_HEADERS | WT_HTTP3_REQUEST_BODY | WT_HTTP3_REQUEST_COMPLETE

record wt_http3_request_stream =
  rq_state :: wt_http3_request_state
  rq_ended :: bool

definition wt_http3_request_init :: wt_http3_request_stream where
  "wt_http3_request_init = \<lparr>rq_state = WT_HTTP3_REQUEST_EXPECT_HEADERS, rq_ended = False\<rparr>"

definition wt_http3_request_on_frame ::
  "wt_http3_request_stream \<Rightarrow> u64 \<Rightarrow> http3_fail option \<times> wt_http3_request_stream" where
  "wt_http3_request_on_frame request type =
     (if rq_ended request then (Some (WT_ERR_STATE, WT_HTTP3_NO_ERROR), request)
      else
        let refused = (Some (WT_ERR_PROTOCOL, WT_HTTP3_FRAME_UNEXPECTED), request) in
        case rq_state request of
          WT_HTTP3_REQUEST_EXPECT_HEADERS \<Rightarrow>
            if type = WT_HTTP3_FRAME_HEADERS then (None, request\<lparr>rq_state := WT_HTTP3_REQUEST_BODY\<rparr>)
            else refused
        | WT_HTTP3_REQUEST_BODY \<Rightarrow>
            if type = WT_HTTP3_FRAME_DATA then (None, request)
            else if type = WT_HTTP3_FRAME_HEADERS then (None, request\<lparr>rq_state := WT_HTTP3_REQUEST_COMPLETE\<rparr>)
            else refused
        | WT_HTTP3_REQUEST_COMPLETE \<Rightarrow> refused)"

definition wt_http3_request_on_end ::
  "wt_http3_request_stream \<Rightarrow> http3_fail option \<times> wt_http3_request_stream" where
  "wt_http3_request_on_end request =
     (if rq_ended request then (Some (WT_ERR_STATE, WT_HTTP3_NO_ERROR), request)
      else
        (if rq_state request = WT_HTTP3_REQUEST_EXPECT_HEADERS
         then Some (WT_ERR_PROTOCOL, WT_HTTP3_REQUEST_INCOMPLETE) else None,
         request\<lparr>rq_ended := True\<rparr>))"

definition wt_http3_request_on_reset :: "wt_http3_request_stream \<Rightarrow> wt_status \<times> wt_http3_request_stream" where
  "wt_http3_request_on_reset request = (WT_OK, request\<lparr>rq_ended := True\<rparr>)"

subsection \<open>The readers\<close>

lemma varint_or_safe [simp]: "reader_safe (varint_or e)"
  using reader_safe_varint unfolding reader_safe_def varint_or_def
  by (fastforce split: prod.splits sum.splits)

lemma view_or_safe [simp]: "reader_safe (view_or e n)"
  unfolding reader_safe_def view_or_def wt_cursor_bytes_def
  by (auto split: prod.splits option.splits dest: cursor_step_take) (metis cursor_step_take snd_conv)+

lemma view_or_shrinks [simp]: "reader_shrinks (view_or e n)"
proof -
  have "wt_cursor_remaining (snd (view_or e n c)) = wt_cursor_remaining (snd (wt_cursor_take c n))" for c
    by (simp add: view_or_def wt_cursor_bytes_def split: prod.splits option.splits)
  then show ?thesis by (simp add: reader_shrinks_def cursor_take_shrinks)
qed

lemma varint_or_shrinks [simp]: "reader_shrinks (varint_or e)"
  unfolding reader_shrinks_def varint_or_def
  by (auto split: prod.splits sum.splits intro: reader_shrinksD [OF reader_shrinks_varint])

lemma varint_or_progress:
  assumes "varint_or e c = (Inr v, c')"
  shows "wt_cursor_remaining c' < wt_cursor_remaining c"
proof -
  obtain r where r: "wt_quic_varint_decode_sized c = (r, c')" "\<exists>x. r = Inr x"
    using assms by (auto simp: varint_or_def wt_quic_varint_decode_def split: prod.splits sum.splits)
  from varint_sized_progress [OF r(1)] r(2) show ?thesis by auto
qed

lemma reads_varint_or [reads_intros]: "varint_valid v \<Longrightarrow> reads (varint_or e) (varint_bytes v) v"
  using reads_varint [of v] by (simp add: reads_def varint_or_def)

lemma cursor_at_end_view: "cursor_ready c \<Longrightarrow> wt_cursor_at_end c \<longleftrightarrow> cursor_view c = []"
  using cursor_remaining_view [of c] length_0_conv [of "cursor_view c"]
  by (auto simp: cursor_ready_def wt_cursor_at_end_def wt_cursor_remaining_def unat_eq_0)

lemma reads_view_or: "length bs < 2 ^ 64 \<Longrightarrow> reads (view_or e (of_nat (length bs))) bs bs"
  by (auto simp: reads_def view_or_def wt_cursor_bytes_def cursor_take_advance)

subsection \<open>The frame format\<close>

definition http3_frame_bytes :: "wt_http3_frame \<Rightarrow> u8 list" where
  "http3_frame_bytes f = varint_bytes (hf_type f) @ varint_bytes (of_nat (length (hf_payload f))) @ hf_payload f"

definition http3_frame_valid :: "wt_http3_frame \<Rightarrow> bool" where
  "http3_frame_valid f \<longleftrightarrow> varint_valid (hf_type f) \<and> bytes_valid (hf_payload f)"

lemma reads_frame_decode_at: "http3_frame_valid f \<Longrightarrow> reads frame_decode_at (http3_frame_bytes f) f"
  unfolding frame_decode_at_def http3_frame_bytes_def http3_frame_valid_def
  by (rule reads_bind, rule reads_varint_or, simp, rule reads_bind, rule reads_varint_or, simp add: varint_valid_length,
      rule reads_bind_end, rule reads_view_or, simp add: bytes_valid_def, rule reads_returnI, simp)

lemma reads_http3_frame: "http3_frame_valid f \<Longrightarrow> reads wt_http3_frame_decode (http3_frame_bytes f) f"
  using reads_frame_decode_at by (fastforce simp: reads_def wt_http3_frame_decode_def)

lemma frame_decode_at_safe: "reader_safe frame_decode_at"
  unfolding frame_decode_at_def by (intro reader_safe_bind) simp_all

lemma http3_frame_safe: "reader_safe wt_http3_frame_decode"
  using frame_decode_at_safe unfolding reader_safe_def wt_http3_frame_decode_def
  by (fastforce split: prod.splits sum.splits)

lemma http3_frame_encode_emit:
  "http3_frame_valid f \<Longrightarrow> wt_http3_frame_encode f =
     emit_status ([put_varint (hf_type f), put_varint (of_nat (length (hf_payload f)))] @
           (if hf_payload f \<noteq> [] then [wt_writer_bytes (hf_payload f)] else []))"
  using varint_valid_length [of "hf_payload f"]
  by (auto simp: wt_http3_frame_encode_def http3_frame_valid_def varint_valid_def fun_eq_iff not_less)

lemma writes_http3_frame:
  assumes "http3_frame_valid f"
  shows "writes (\<lambda>w. snd (wt_http3_frame_encode f w)) (http3_frame_bytes f)"
    "fst (wt_http3_frame_encode f w) = writer_status (snd (wt_http3_frame_encode f w))"
proof -
  let ?pre = "[varint_bytes (hf_type f), varint_bytes (of_nat (length (hf_payload f)))]"
  have "writes (\<lambda>w. snd (wt_http3_frame_encode f w))
      (concat (?pre @ (if hf_payload f \<noteq> [] then [hf_payload f] else [])))"
    unfolding http3_frame_encode_emit [OF assms]
    using assms by (intro emit_status_writes) (auto simp: http3_frame_valid_def writes_varint varint_valid_length)
  moreover have "concat (?pre @ (if hf_payload f \<noteq> [] then [hf_payload f] else [])) = http3_frame_bytes f"
    by (simp add: http3_frame_bytes_def)
  ultimately show "writes (\<lambda>w. snd (wt_http3_frame_encode f w)) (http3_frame_bytes f)" by simp
  show "fst (wt_http3_frame_encode f w) = writer_status (snd (wt_http3_frame_encode f w))"
    unfolding http3_frame_encode_emit [OF assms] by (rule emit_status_fst)
qed

interpretation http3_frame: wire_format http3_frame_bytes wt_http3_frame_decode http3_frame_valid
  "\<lambda>frame w. snd (wt_http3_frame_encode frame w)"
  by unfold_locales (simp_all add: reads_http3_frame http3_frame_safe writes_http3_frame)

subsection \<open>A DATA frame built in place\<close>

lemma overwrite_0: "length bs \<le> length d \<Longrightarrow> overwrite 0 bs d = bs @ drop (length bs) d"
  by (simp add: overwrite_def)

lemma wrap_data_bytes:
  assumes "length payload + 9 \<le> length buffer" "length buffer < 2 ^ 62"
    and "take (length payload) (drop 9 buffer) = payload"
    and "wt_http3_frame_wrap_data_in_place buffer (of_nat (length buffer)) (of_nat (length payload)) = (st, out, n)"
  shows "st = WT_OK \<and> length out = length buffer \<and> unat n = length (http3_frame_bytes \<lparr>hf_type = WT_HTTP3_FRAME_DATA, hf_payload = payload\<rparr>) \<and>
    take (unat n) out = http3_frame_bytes \<lparr>hf_type = WT_HTTP3_FRAME_DATA, hf_payload = payload\<rparr>"
proof -
  let ?n = "of_nat (length payload) :: u64" and ?h = "ucast WT_HTTP3_FRAME_DATA # varint_bytes (of_nat (length payload))"
  have n: "unat ?n = length payload" "unat (of_nat (length buffer) :: u64) = length buffer"
    using assms(1,2) by (simp_all add: unat_of_nat_u64)
  have v: "varint_valid ?n" using assms(1,2) by (intro varint_valid_length) (simp add: bytes_valid_def)
  have enc: "wt_quic_varint_encode ?n (WT_HTTP3_FRAME_DATA_HEADER_MAX - 1) = varint_bytes ?n"
    by (simp add: varint_bytes_def WT_HTTP3_FRAME_DATA_HEADER_MAX_def)
  have len: "0 < length (varint_bytes ?n)" "length ?h \<le> 9"
    using varint_size_pos [of ?n] varint_size_le [of ?n] v by (simp_all add: length_varint_bytes)
  have guards: "\<not> ?n > WT_QUIC_VARINT_MAX"
    "\<not> (of_nat (length buffer) < (of_nat WT_HTTP3_FRAME_DATA_HEADER_MAX :: u64))"
    "\<not> ?n > of_nat (length buffer) - of_nat WT_HTTP3_FRAME_DATA_HEADER_MAX"
    "\<not> of_nat (length ?h) > (of_nat (length buffer) - ?n :: u64)"
  proof -
    have nine: "unat (of_nat WT_HTTP3_FRAME_DATA_HEADER_MAX :: u64) = 9" by (simp add: WT_HTTP3_FRAME_DATA_HEADER_MAX_def)
    have h: "unat (of_nat (length ?h) :: u64) = length ?h" using len(2) by (intro unat_of_nat_u64) simp
    have le: "of_nat WT_HTTP3_FRAME_DATA_HEADER_MAX \<le> (of_nat (length buffer) :: u64)" "?n \<le> of_nat (length buffer)"
      using assms(1) n nine by (simp_all add: word_le_nat_alt)
    show "\<not> ?n > WT_QUIC_VARINT_MAX" using v by (simp add: varint_valid_def)
    show "\<not> (of_nat (length buffer) < (of_nat WT_HTTP3_FRAME_DATA_HEADER_MAX :: u64))" using le by simp
    show "\<not> ?n > of_nat (length buffer) - of_nat WT_HTTP3_FRAME_DATA_HEADER_MAX"
      using le(1) assms(1) n nine by (simp add: word_less_nat_alt unat_sub_le)
    show "\<not> of_nat (length ?h) > (of_nat (length buffer) - ?n :: u64)"
      using le(2) assms(1) n h len(2) by (simp add: word_less_nat_alt unat_sub_le del: of_nat_Suc)
  qed
  have moved: "take (length payload) (drop WT_HTTP3_FRAME_DATA_HEADER_MAX buffer) = payload"
    using assms(3) by (simp add: WT_HTTP3_FRAME_DATA_HEADER_MAX_def)
  define mv where "mv = overwrite (length ?h) payload buffer"
  have res: "(st, out, n) = (WT_OK, overwrite 0 ?h mv, of_nat (length ?h) + ?n)"
    unfolding assms(4) [symmetric] wt_http3_frame_wrap_data_in_place_def Let_def enc mv_def
    using guards len(1) n moved by (simp del: of_nat_Suc)
  have lens: "length mv = length buffer" "take (length ?h + length payload) mv = take (length ?h) buffer @ payload"
    unfolding mv_def by (rule length_overwrite take_overwrite, use assms(1) len(2) in linarith)+
  have nn: "unat n = length ?h + length payload"
    using res len(2) assms(1,2) n by (auto simp: unat_add_no_wrap unat_of_nat_u64 simp del: of_nat_Suc)
  have bytes: "http3_frame_bytes \<lparr>hf_type = WT_HTTP3_FRAME_DATA, hf_payload = payload\<rparr> = ?h @ payload"
    by (simp add: http3_frame_bytes_def WT_HTTP3_FRAME_DATA_def varint_bytes_def wt_quic_varint_encode_def
        wt_quic_varint_size_def)
  have out: "out = ?h @ drop (length ?h) mv"
    using res lens(1) len(2) assms(1) by (simp add: overwrite_0 del: of_nat_Suc)
  have "take (length payload) (drop (length ?h) mv) = drop (length ?h) (take (length ?h + length payload) mv)"
    by (simp only: drop_take diff_add_inverse)
  also have "\<dots> = payload"
    unfolding lens(2) using assms(1) len(2) by simp
  finally have "take (unat n) out = ?h @ payload"
    by (simp only: out nn take_append take_all_iff le_add1 diff_add_inverse if_True length_append append_same_eq)
  with res lens(1) out len(2) assms(1) nn show ?thesis by (simp add: bytes)
qed

subsection \<open>The language of a request stream\<close>

definition request_run :: "u64 list \<Rightarrow> wt_http3_request_stream \<Rightarrow> wt_http3_request_stream" where
  "request_run types r = foldl (\<lambda>r t. snd (wt_http3_request_on_frame r t)) r types"

fun request_accepts :: "wt_http3_request_stream \<Rightarrow> u64 list \<Rightarrow> bool" where
  "request_accepts r [] = True"
| "request_accepts r (t # ts) =
     (fst (wt_http3_request_on_frame r t) = None \<and> request_accepts (snd (wt_http3_request_on_frame r t)) ts)"

lemma request_accepts_complete:
  "request_accepts \<lparr>rq_state = WT_HTTP3_REQUEST_COMPLETE, rq_ended = False\<rparr> ts \<longleftrightarrow> ts = []"
  by (cases ts) (auto simp: wt_http3_request_on_frame_def Let_def)

lemma request_accepts_body:
  "request_accepts \<lparr>rq_state = WT_HTTP3_REQUEST_BODY, rq_ended = False\<rparr> ts \<longleftrightarrow>
   (\<exists>n. ts = replicate n WT_HTTP3_FRAME_DATA \<or> ts = replicate n WT_HTTP3_FRAME_DATA @ [WT_HTTP3_FRAME_HEADERS])"
proof (induction ts)
  case (Cons t ts)
  have shift: "(\<exists>n. t # ts = replicate n d \<or> t # ts = replicate n d @ [h]) \<longleftrightarrow>
      t = d \<and> (\<exists>n. ts = replicate n d \<or> ts = replicate n d @ [h]) \<or> t = h \<and> ts = []"
    if "d \<noteq> h" for d h :: u64
  proof
    assume "\<exists>n. t # ts = replicate n d \<or> t # ts = replicate n d @ [h]"
    then obtain n where n: "t # ts = replicate n d \<or> t # ts = replicate n d @ [h]" by blast
    then show "t = d \<and> (\<exists>n. ts = replicate n d \<or> ts = replicate n d @ [h]) \<or> t = h \<and> ts = []"
      by (cases n) auto
  next
    assume "t = d \<and> (\<exists>n. ts = replicate n d \<or> ts = replicate n d @ [h]) \<or> t = h \<and> ts = []"
    then show "\<exists>n. t # ts = replicate n d \<or> t # ts = replicate n d @ [h]"
      by (metis append_Cons append_Nil replicate_0 replicate_Suc)
  qed
  have ne: "WT_HTTP3_FRAME_DATA \<noteq> WT_HTTP3_FRAME_HEADERS" by (simp add: http3_types)
  have step: "request_accepts \<lparr>rq_state = WT_HTTP3_REQUEST_BODY, rq_ended = False\<rparr> (t # ts) \<longleftrightarrow>
      t = WT_HTTP3_FRAME_DATA \<and> request_accepts \<lparr>rq_state = WT_HTTP3_REQUEST_BODY, rq_ended = False\<rparr> ts \<or>
      t = WT_HTTP3_FRAME_HEADERS \<and> ts = []"
    using ne request_accepts_complete [of ts] by (auto simp: wt_http3_request_on_frame_def Let_def)
  show ?case unfolding step shift [OF ne] Cons.IH ..
qed simp

subsection \<open>Properties\<close>

text \<open>A frame built in place. A capsule or body written behind the reservation of nine bytes and wrapped in
  place becomes, at the front of the same buffer, exactly the DATA frame that carries it: the buffer keeps its
  size, the reported length is that of the frame, the decoder reads the payload back from it and leaves whatever
  follows, and no header of another frame type can be read from these bytes.\<close>

lemma wt_http3_data_frame_in_place:
  assumes "length payload + 9 \<le> length buffer" "length buffer < 2 ^ 62"
    and "take (length payload) (drop 9 buffer) = payload"
    and "wt_http3_frame_wrap_data_in_place buffer (of_nat (length buffer)) (of_nat (length payload)) = (st, out, n)"
    and "length rest < 2 ^ 62"
  shows "st = WT_OK \<and> length out = length buffer \<and> unat n \<le> length payload + 9 \<and>
    (let f = \<lparr>hf_type = WT_HTTP3_FRAME_DATA, hf_payload = payload\<rparr> in
     fst (wt_http3_frame_decode (cursor_of (take (unat n) out @ rest))) = Inr f \<and>
     cursor_view (snd (wt_http3_frame_decode (cursor_of (take (unat n) out @ rest)))) = rest \<and>
     (\<forall>g s. http3_frame_valid g \<longrightarrow> take (unat n) out @ rest = http3_frame_bytes g @ s \<longrightarrow> g = f))"
proof -
  let ?f = "\<lparr>hf_type = WT_HTTP3_FRAME_DATA, hf_payload = payload\<rparr>"
  note w = wrap_data_bytes [OF assms(1-4)]
  have v: "http3_frame_valid ?f"
    using assms(1,2) by (simp add: http3_frame_valid_def bytes_valid_def http3_types varint_valid_unat)
  have vn: "varint_valid (of_nat (length payload))" using v by (intro varint_valid_length) (simp add: http3_frame_valid_def)
  have "length (varint_bytes (of_nat (length payload))) \<le> 8"
    unfolding length_varint_bytes [OF vn] by (rule varint_size_le)
  moreover have "length (varint_bytes 0) = 1"
    by (simp add: length_varint_bytes varint_valid_unat wt_quic_varint_size_def)
  ultimately have len: "length (http3_frame_bytes ?f) \<le> length payload + 9"
    by (simp add: http3_frame_bytes_def http3_types)
  then have fits: "length (http3_frame_bytes ?f @ rest) < 2 ^ 64"
    using assms(1,2,5) by simp
  have dec: "wt_http3_frame_decode (cursor_of (http3_frame_bytes ?f @ rest)) =
      (Inr ?f, cursor_advance (cursor_of (http3_frame_bytes ?f @ rest)) (length (http3_frame_bytes ?f)))"
    using reads_of [OF reads_http3_frame [OF v] fits] .
  have "cursor_view (cursor_advance (cursor_of (http3_frame_bytes ?f @ rest)) (length (http3_frame_bytes ?f))) = rest"
    using cursor_ready_advance [of "cursor_of (http3_frame_bytes ?f @ rest)" "length (http3_frame_bytes ?f)"] fits by simp
  moreover have "g = ?f" if "http3_frame_valid g" "http3_frame_bytes ?f @ rest = http3_frame_bytes g @ s" for g s
    using http3_frame.enc_prefix_free [OF v that(1,2) fits] by simp
  ultimately show ?thesis
    using w len dec by (auto simp: Let_def)
qed

text \<open>C17: The request machine accepts exactly the message grammar of RFC 9114 section 4.1. From its initial
  state a sequence of frame types is accepted as a whole exactly when it is empty, or HEADERS followed by any
  number of DATA frames and at most one final HEADERS; ending the stream is then an error exactly when nothing
  arrived; and every accepted frame is one the stream rules allow a server to receive on a request stream.\<close>

theorem wt_http3_request_language:
  "(request_accepts wt_http3_request_init ts \<longleftrightarrow>
      ts = [] \<or> (\<exists>n. ts = WT_HTTP3_FRAME_HEADERS # replicate n WT_HTTP3_FRAME_DATA \<or>
                     ts = WT_HTTP3_FRAME_HEADERS # replicate n WT_HTTP3_FRAME_DATA @ [WT_HTTP3_FRAME_HEADERS])) \<and>
   (request_accepts wt_http3_request_init ts \<longrightarrow>
      (fst (wt_http3_request_on_end (request_run ts wt_http3_request_init)) = None \<longleftrightarrow> ts \<noteq> []) \<and>
      (\<forall>t\<in>set ts. wt_http3_frame_allowed WT_HTTP3_ROLE_SERVER WT_HTTP3_STREAM_KIND_REQUEST t = None))"
proof -
  have lang: "request_accepts wt_http3_request_init ts \<longleftrightarrow>
      ts = [] \<or> (\<exists>n. ts = WT_HTTP3_FRAME_HEADERS # replicate n WT_HTTP3_FRAME_DATA \<or>
                     ts = WT_HTTP3_FRAME_HEADERS # replicate n WT_HTTP3_FRAME_DATA @ [WT_HTTP3_FRAME_HEADERS])"
  proof (cases ts)
    case (Cons t us)
    have "request_accepts wt_http3_request_init ts \<longleftrightarrow> t = WT_HTTP3_FRAME_HEADERS \<and>
        request_accepts \<lparr>rq_state = WT_HTTP3_REQUEST_BODY, rq_ended = False\<rparr> us"
      by (simp add: Cons wt_http3_request_init_def wt_http3_request_on_frame_def Let_def)
    then show ?thesis unfolding request_accepts_body Cons by blast
  qed simp
  have started: "rq_state (request_run ts r) \<noteq> WT_HTTP3_REQUEST_EXPECT_HEADERS \<and> \<not> rq_ended (request_run ts r)"
    if "rq_state r \<noteq> WT_HTTP3_REQUEST_EXPECT_HEADERS \<and> \<not> rq_ended r" for ts r
    using that by (induction ts arbitrary: r)
      (auto simp: request_run_def wt_http3_request_on_frame_def Let_def split: wt_http3_request_state.splits)
  have "fst (wt_http3_request_on_end (request_run ts wt_http3_request_init)) = None \<longleftrightarrow> ts \<noteq> []"
    if "request_accepts wt_http3_request_init ts"
  proof (cases ts)
    case Nil
    then show ?thesis by (simp add: request_run_def wt_http3_request_on_end_def wt_http3_request_init_def)
  next
    case (Cons t us)
    with that have "request_run ts wt_http3_request_init =
        request_run us \<lparr>rq_state = WT_HTTP3_REQUEST_BODY, rq_ended = False\<rparr>"
      by (simp add: request_run_def wt_http3_request_init_def wt_http3_request_on_frame_def Let_def split: if_splits)
    with started [of "\<lparr>rq_state = WT_HTTP3_REQUEST_BODY, rq_ended = False\<rparr>" us] Cons show ?thesis
      by (simp add: wt_http3_request_on_end_def)
  qed
  moreover have "\<forall>t\<in>set ts. wt_http3_frame_allowed WT_HTTP3_ROLE_SERVER WT_HTTP3_STREAM_KIND_REQUEST t = None"
    if "request_accepts wt_http3_request_init ts"
  proof -
    have "set ts \<subseteq> {WT_HTTP3_FRAME_HEADERS, WT_HTTP3_FRAME_DATA}"
      using that unfolding lang by (elim disjE exE) (simp_all add: subset_iff)
    moreover have "wt_http3_frame_allowed WT_HTTP3_ROLE_SERVER WT_HTTP3_STREAM_KIND_REQUEST WT_HTTP3_FRAME_HEADERS = None"
      "wt_http3_frame_allowed WT_HTTP3_ROLE_SERVER WT_HTTP3_STREAM_KIND_REQUEST WT_HTTP3_FRAME_DATA = None"
      by (simp_all add: wt_http3_frame_allowed_def wt_http3_frame_type_is_reserved_def http3_types)
    ultimately show ?thesis by blast
  qed
  ultimately show ?thesis using lang by blast
qed

theorem wt_http3_request_language_witness:
  "request_accepts wt_http3_request_init [WT_HTTP3_FRAME_HEADERS, WT_HTTP3_FRAME_DATA, WT_HTTP3_FRAME_HEADERS] \<and>
   fst (wt_http3_request_on_end (request_run [WT_HTTP3_FRAME_HEADERS, WT_HTTP3_FRAME_DATA, WT_HTTP3_FRAME_HEADERS]
     wt_http3_request_init)) = None"
proof -
  let ?ts = "[WT_HTTP3_FRAME_HEADERS, WT_HTTP3_FRAME_DATA, WT_HTTP3_FRAME_HEADERS]"
  have "?ts = WT_HTTP3_FRAME_HEADERS # replicate 1 WT_HTTP3_FRAME_DATA @ [WT_HTTP3_FRAME_HEADERS]" by simp
  then show ?thesis using wt_http3_request_language [of ?ts] by blast
qed

end
