(* ===== verification/Http3_Headers.thy ===== *)
theory Http3_Headers
  imports Http3_Frame
begin

text \<open>
  The rules of an HTTP/3 header section (\<open>C99/src/http3/headers.c\<close>): the field by field validator, the check at
  the end of the section, and their equivalence with a declarative description of a well-formed section.
\<close>

text \<open>The bytes of a C string literal.\<close>

definition ascii :: "string \<Rightarrow> u8 list" where
  "ascii s = map of_char s"

subsection \<open>The validator\<close>

datatype wt_http3_header_message = WT_HTTP3_HEADER_REQUEST | WT_HTTP3_HEADER_RESPONSE

definition WT_HTTP3_PSEUDO_METHOD :: u32 where "WT_HTTP3_PSEUDO_METHOD = push_bit 0 1"
definition WT_HTTP3_PSEUDO_SCHEME :: u32 where "WT_HTTP3_PSEUDO_SCHEME = push_bit 1 1"
definition WT_HTTP3_PSEUDO_PATH :: u32 where "WT_HTTP3_PSEUDO_PATH = push_bit 2 1"
definition WT_HTTP3_PSEUDO_AUTHORITY :: u32 where "WT_HTTP3_PSEUDO_AUTHORITY = push_bit 3 1"
definition WT_HTTP3_PSEUDO_STATUS :: u32 where "WT_HTTP3_PSEUDO_STATUS = push_bit 4 1"
definition WT_HTTP3_PSEUDO_PROTOCOL :: u32 where "WT_HTTP3_PSEUDO_PROTOCOL = push_bit 5 1"

lemmas pseudo_bits = WT_HTTP3_PSEUDO_METHOD_def WT_HTTP3_PSEUDO_SCHEME_def WT_HTTP3_PSEUDO_PATH_def
  WT_HTTP3_PSEUDO_AUTHORITY_def WT_HTTP3_PSEUDO_STATUS_def WT_HTTP3_PSEUDO_PROTOCOL_def

record wt_http3_header_validation =
  hv_message :: wt_http3_header_message
  hv_saw_regular :: bool
  hv_pseudo_seen :: u32
  hv_is_connect :: bool

definition wt_http3_header_validation_init :: "wt_http3_header_message \<Rightarrow> wt_http3_header_validation" where
  "wt_http3_header_validation_init message =
     \<lparr>hv_message = message, hv_saw_regular = False, hv_pseudo_seen = 0, hv_is_connect = False\<rparr>"

definition field_name_char :: "u8 \<Rightarrow> bool" where
  "field_name_char c \<longleftrightarrow>
     0x61 \<le> c \<and> c \<le> 0x7a \<or> 0x30 \<le> c \<and> c \<le> 0x39 \<or>
     c \<in> set (ascii ''!#$%&'' @ [0x27] @ ascii ''*+-.^_'' @ [0x60] @ ascii ''|~'')"

fun field_name_chars :: "u8 list \<Rightarrow> bool" where
  "field_name_chars [] = True"
| "field_name_chars (c # cs) = (if field_name_char c then field_name_chars cs else False)"

definition field_name_is_valid :: "u8 list \<Rightarrow> bool" where
  "field_name_is_valid name = (if name = [] then False else field_name_chars name)"

fun field_value_is_valid :: "u8 list \<Rightarrow> bool" where
  "field_value_is_valid [] = True"
| "field_value_is_valid (c # cs) =
     (if c = 0x09 \<or> c = 0x20 then field_value_is_valid cs
      else if c < 0x21 \<or> c = 0x7f then False
      else field_value_is_valid cs)"

definition is_connection_specific :: "u8 list \<Rightarrow> bool" where
  "is_connection_specific name \<longleftrightarrow>
     name = ascii ''connection'' \<or> name = ascii ''transfer-encoding'' \<or> name = ascii ''keep-alive'' \<or>
     name = ascii ''upgrade'' \<or> name = ascii ''proxy-connection''"

text \<open>The bit of a pseudo-header that the message type defines, or 0.\<close>

definition pseudo_bit :: "wt_http3_header_message \<Rightarrow> u8 list \<Rightarrow> u32" where
  "pseudo_bit message name =
     (case message of
        WT_HTTP3_HEADER_REQUEST \<Rightarrow>
          if name = ascii '':method'' then WT_HTTP3_PSEUDO_METHOD
          else if name = ascii '':scheme'' then WT_HTTP3_PSEUDO_SCHEME
          else if name = ascii '':path'' then WT_HTTP3_PSEUDO_PATH
          else if name = ascii '':authority'' then WT_HTTP3_PSEUDO_AUTHORITY
          else if name = ascii '':protocol'' then WT_HTTP3_PSEUDO_PROTOCOL
          else 0
      | WT_HTTP3_HEADER_RESPONSE \<Rightarrow> if name = ascii '':status'' then WT_HTTP3_PSEUDO_STATUS else 0)"

definition header_error :: http3_fail where
  "header_error = (WT_ERR_PROTOCOL, WT_HTTP3_MESSAGE_ERROR)"

definition wt_http3_header_validate ::
  "wt_http3_header_validation \<Rightarrow> u8 list \<Rightarrow> u8 list \<Rightarrow> http3_fail option \<times> wt_http3_header_validation" where
  "wt_http3_header_validate v name val =
     (if name \<noteq> [] \<and> hd name = 0x3a then
        if hv_saw_regular v then (Some header_error, v)
        else
          let bit = pseudo_bit (hv_message v) name;
              v1 = (if hv_message v = WT_HTTP3_HEADER_REQUEST \<and> bit = WT_HTTP3_PSEUDO_METHOD \<and> val = ascii ''CONNECT''
                    then v\<lparr>hv_is_connect := True\<rparr> else v)
          in if bit = 0 then (Some header_error, v1)
             else if hv_pseudo_seen v1 AND bit \<noteq> 0 then (Some header_error, v1)
             else if \<not> field_value_is_valid val then (Some header_error, v1)
             else (None, v1\<lparr>hv_pseudo_seen := hv_pseudo_seen v1 OR bit\<rparr>)
      else if \<not> field_name_is_valid name \<or> \<not> field_value_is_valid val then (Some header_error, v)
      else if is_connection_specific name then (Some header_error, v)
      else if name = ascii ''te'' \<and> val \<noteq> ascii ''trailers'' then (Some header_error, v)
      else (None, v\<lparr>hv_saw_regular := True\<rparr>))"

definition wt_http3_header_finish :: "wt_http3_header_validation \<Rightarrow> http3_fail option" where
  "wt_http3_header_finish v =
     (if hv_message v = WT_HTTP3_HEADER_RESPONSE then
        if hv_pseudo_seen v AND WT_HTTP3_PSEUDO_STATUS = 0 then Some header_error else None
      else if hv_pseudo_seen v AND WT_HTTP3_PSEUDO_METHOD = 0 then Some header_error
      else if hv_is_connect v then
        if hv_pseudo_seen v AND WT_HTTP3_PSEUDO_AUTHORITY = 0 then Some header_error else None
      else if hv_pseudo_seen v AND (WT_HTTP3_PSEUDO_SCHEME OR WT_HTTP3_PSEUDO_PATH) \<noteq> WT_HTTP3_PSEUDO_SCHEME OR WT_HTTP3_PSEUDO_PATH
      then Some header_error else None)"

subsection \<open>A whole section\<close>

fun header_run :: "wt_http3_header_validation \<Rightarrow> (u8 list \<times> u8 list) list \<Rightarrow> http3_fail option \<times> wt_http3_header_validation" where
  "header_run v [] = (None, v)"
| "header_run v ((name, val) # fs) =
     (case wt_http3_header_validate v name val of
        (None, v') \<Rightarrow> header_run v' fs
      | (Some e, v') \<Rightarrow> (Some e, v'))"

definition header_section :: "wt_http3_header_message \<Rightarrow> (u8 list \<times> u8 list) list \<Rightarrow> http3_fail option" where
  "header_section message fs =
     (case header_run (wt_http3_header_validation_init message) fs of
        (None, v) \<Rightarrow> wt_http3_header_finish v
      | (Some e, v) \<Rightarrow> Some e)"

text \<open>The description of RFC 9114 section 4: pseudo-headers first, each at most once, only those of the message
  type, then regular fields with lower case names that are not connection-specific.\<close>

definition pseudo_names :: "wt_http3_header_message \<Rightarrow> u8 list list" where
  "pseudo_names message =
     (case message of
        WT_HTTP3_HEADER_REQUEST \<Rightarrow> map ascii ['':method'', '':scheme'', '':path'', '':authority'', '':protocol'']
      | WT_HTTP3_HEADER_RESPONSE \<Rightarrow> [ascii '':status''])"

definition value_chars :: "u8 set" where
  "value_chars = {c. c = 9 \<or> 0x20 \<le> c \<and> c \<noteq> 0x7f}"

definition name_chars :: "u8 set" where
  "name_chars = set (ascii ''abcdefghijklmnopqrstuvwxyz0123456789!#$%&*+-.^_|~'') \<union> {0x27, 0x60}"

definition regular_field :: "u8 list \<times> u8 list \<Rightarrow> bool" where
  "regular_field f \<longleftrightarrow>
     fst f \<noteq> [] \<and> set (fst f) \<subseteq> name_chars \<and> set (snd f) \<subseteq> value_chars \<and>
     fst f \<notin> set (map ascii [''connection'', ''transfer-encoding'', ''keep-alive'', ''upgrade'', ''proxy-connection'']) \<and>
     (fst f = ascii ''te'' \<longrightarrow> snd f = ascii ''trailers'')"

definition pseudo_field :: "wt_http3_header_message \<Rightarrow> u8 list \<times> u8 list \<Rightarrow> bool" where
  "pseudo_field message f \<longleftrightarrow> fst f \<in> set (pseudo_names message) \<and> set (snd f) \<subseteq> value_chars"

definition section_required :: "wt_http3_header_message \<Rightarrow> (u8 list \<times> u8 list) list \<Rightarrow> bool" where
  "section_required message ps \<longleftrightarrow>
     (case message of
        WT_HTTP3_HEADER_RESPONSE \<Rightarrow> ascii '':status'' \<in> fst ` set ps
      | WT_HTTP3_HEADER_REQUEST \<Rightarrow>
          ascii '':method'' \<in> fst ` set ps \<and>
          (if (ascii '':method'', ascii ''CONNECT'') \<in> set ps then ascii '':authority'' \<in> fst ` set ps
           else ascii '':scheme'' \<in> fst ` set ps \<and> ascii '':path'' \<in> fst ` set ps))"

lemma byte_range:
  fixes c :: u8
  assumes "n < 256" and that: "m \<le> n"
  shows "of_nat m \<le> c \<and> c \<le> of_nat n \<longleftrightarrow> c \<in> set (map of_nat [m..<Suc n])"
proof
  assume c: "of_nat m \<le> c \<and> c \<le> of_nat n"
  have "unat (of_nat m :: u8) = m" "unat (of_nat n :: u8) = n" using assms by (simp_all add: unat_of_nat take_bit_nat_eq_self_iff)
  with c have "unat c \<in> set [m..<Suc n]" by (auto simp: word_le_nat_alt)
  then show "c \<in> set (map of_nat [m..<Suc n])" by (metis image_eqI list.set_map of_nat_unat ucast_id)
next
  assume "c \<in> set (map of_nat [m..<Suc n])"
  then obtain k where k: "m \<le> k" "k \<le> n" "c = of_nat k" by auto
  have "unat (of_nat m :: u8) = m" "unat (of_nat n :: u8) = n" "unat (of_nat k :: u8) = k"
    using assms k by (simp_all add: unat_of_nat take_bit_nat_eq_self_iff)
  with k show "of_nat m \<le> c \<and> c \<le> of_nat n" by (simp add: word_le_nat_alt)
qed

lemma field_value_valid_iff: "field_value_is_valid val \<longleftrightarrow> set val \<subseteq> value_chars"
proof (induction val)
  case (Cons c cs)
  have "\<not> c < 0x21 \<longleftrightarrow> 0x20 \<le> c \<and> c \<noteq> 0x20"
    by (auto simp: word_less_nat_alt word_le_nat_alt word_unat_eq_iff)
  then have "(c = 9 \<or> c = 0x20 \<or> \<not> (c < 0x21 \<or> c = 0x7f)) \<longleftrightarrow> c \<in> value_chars"
    by (auto simp: value_chars_def)
  with Cons show ?case by auto
qed simp

lemma field_name_char_iff: "field_name_char c \<longleftrightarrow> c \<in> name_chars"
proof -
  have lower: "ascii ''abcdefghijklmnopqrstuvwxyz'' = map of_nat [97..<Suc 122]"
    and digits: "ascii ''0123456789'' = map of_nat [48..<Suc 57]"
    by (simp_all add: ascii_def upt_rec)
  have "0x61 \<le> c \<and> c \<le> 0x7a \<longleftrightarrow> c \<in> set (ascii ''abcdefghijklmnopqrstuvwxyz'')"
    "0x30 \<le> c \<and> c \<le> 0x39 \<longleftrightarrow> c \<in> set (ascii ''0123456789'')"
    unfolding lower digits using byte_range [of 122 97 c] byte_range [of 57 48 c] by simp_all
  then show ?thesis by (auto simp: field_name_char_def name_chars_def ascii_def)
qed

lemma field_name_valid_iff: "field_name_is_valid name \<longleftrightarrow> name \<noteq> [] \<and> set name \<subseteq> name_chars"
proof -
  have "field_name_chars cs \<longleftrightarrow> set cs \<subseteq> name_chars" for cs
    by (induction cs) (simp_all add: field_name_char_iff)
  then show ?thesis by (simp add: field_name_is_valid_def)
qed

lemma colon_not_name_char: "0x3a \<notin> name_chars"
  by (simp add: name_chars_def ascii_def)

text \<open>Every regular field is taken by the second half of the validator, every pseudo-header by the first.\<close>

lemma regular_field_no_colon: "regular_field (name, val) \<Longrightarrow> \<not> (name \<noteq> [] \<and> hd name = 0x3a)"
  using colon_not_name_char hd_in_set [of name] unfolding regular_field_def by (metis fst_conv subsetD)

lemma pseudo_name_colon: "name \<in> set (pseudo_names message) \<Longrightarrow> name \<noteq> [] \<and> hd name = 0x3a"
  by (cases message) (auto simp: pseudo_names_def ascii_def)

lemma validate_regular:
  "\<not> (name \<noteq> [] \<and> hd name = 0x3a) \<Longrightarrow>
   wt_http3_header_validate v name val =
     (if regular_field (name, val) then (None, v\<lparr>hv_saw_regular := True\<rparr>) else (Some header_error, v))"
  by (auto simp: wt_http3_header_validate_def regular_field_def field_name_valid_iff field_value_valid_iff
      is_connection_specific_def)

subsection \<open>The set of pseudo-headers seen\<close>

definition pseudo_index :: "u8 list \<Rightarrow> nat" where
  "pseudo_index name =
     (if name = ascii '':method'' then 0 else if name = ascii '':scheme'' then 1 else if name = ascii '':path'' then 2
      else if name = ascii '':authority'' then 3 else if name = ascii '':status'' then 4 else 5)"

definition seen_ok :: "u32 \<Rightarrow> u8 list set \<Rightarrow> bool" where
  "seen_ok seen names \<longleftrightarrow>
     (\<forall>name \<in> set (pseudo_names WT_HTTP3_HEADER_REQUEST) \<union> set (pseudo_names WT_HTTP3_HEADER_RESPONSE).
        bit seen (pseudo_index name) \<longleftrightarrow> name \<in> names)"

lemma pseudo_bit_index:
  "pseudo_bit message name = (if name \<in> set (pseudo_names message) then push_bit (pseudo_index name) 1 else 0)"
  by (cases message) (simp_all add: pseudo_bit_def pseudo_names_def pseudo_index_def pseudo_bits ascii_def)

lemma and_single_bit: "w AND push_bit n 1 = 0 \<longleftrightarrow> \<not> bit w n" if "n < 32" for w :: u32
proof -
  have "bit (w AND push_bit n 1) k \<longleftrightarrow> bit w n \<and> k = n" for k using that by (auto simp: bit_simps)
  then show ?thesis by (metis bit_0_eq bit_eqI bot_apply bot_bool_def)
qed

lemma pseudo_index_inj:
  "name \<in> set (pseudo_names m) \<Longrightarrow> name' \<in> set (pseudo_names m') \<Longrightarrow> pseudo_index name = pseudo_index name' \<longleftrightarrow> name = name'"
  by (cases m; cases m') (auto simp: pseudo_names_def pseudo_index_def ascii_def)

lemma pseudo_index_less: "pseudo_index name < 6"
  by (simp add: pseudo_index_def)

lemma seen_ok_insert:
  assumes "seen_ok seen names" "name \<in> set (pseudo_names m)"
  shows "seen_ok (seen OR push_bit (pseudo_index name) 1) (insert name names)"
  unfolding seen_ok_def
proof (intro ballI)
  fix other assume o: "other \<in> set (pseudo_names WT_HTTP3_HEADER_REQUEST) \<union> set (pseudo_names WT_HTTP3_HEADER_RESPONSE)"
  then have "bit seen (pseudo_index other) \<longleftrightarrow> other \<in> names" using assms(1) by (simp add: seen_ok_def)
  moreover have "pseudo_index other = pseudo_index name \<longleftrightarrow> other = name" using o pseudo_index_inj [OF _ assms(2)] by blast
  ultimately show "bit (seen OR push_bit (pseudo_index name) 1) (pseudo_index other) \<longleftrightarrow> other \<in> insert name names"
    using pseudo_index_less [of other] by (auto simp: bit_simps)
qed

lemma seen_ok_bit: "seen_ok seen names \<Longrightarrow> name \<in> set (pseudo_names m) \<Longrightarrow> bit seen (pseudo_index name) \<longleftrightarrow> name \<in> names"
  by (cases m) (simp_all add: seen_ok_def)

lemma validate_pseudo:
  assumes "name \<noteq> [] \<and> hd name = 0x3a" "seen_ok (hv_pseudo_seen v) names" "\<not> hv_saw_regular v"
  shows "if pseudo_field (hv_message v) (name, val) \<and> name \<notin> names
    then wt_http3_header_validate v name val =
      (None, v\<lparr>hv_is_connect := hv_is_connect v \<or> name = ascii '':method'' \<and> val = ascii ''CONNECT'',
               hv_pseudo_seen := hv_pseudo_seen v OR push_bit (pseudo_index name) 1\<rparr>)
    else fst (wt_http3_header_validate v name val) = Some header_error"
proof (cases "name \<in> set (pseudo_names (hv_message v))")
  case False
  then show ?thesis using assms by (simp add: wt_http3_header_validate_def Let_def pseudo_bit_index pseudo_field_def)
next
  case True
  have m: "hv_message v = WT_HTTP3_HEADER_REQUEST \<and> pseudo_bit (hv_message v) name = WT_HTTP3_PSEUDO_METHOD \<longleftrightarrow> name = ascii '':method''"
    using True by (cases "hv_message v") (auto simp: pseudo_bit_def pseudo_names_def pseudo_bits ascii_def)
  have ne: "push_bit (pseudo_index name) (1 :: u32) \<noteq> 0"
  proof
    assume "push_bit (pseudo_index name) (1 :: u32) = 0"
    then show False using pseudo_index_less [of name] by simp
  qed
  show ?thesis
    using assms True m ne seen_ok_bit [OF assms(2) True] and_single_bit [of "pseudo_index name" "hv_pseudo_seen v"] pseudo_index_less [of name]
    by (auto simp: wt_http3_header_validate_def Let_def pseudo_bit_index pseudo_field_def field_value_valid_iff)
qed

subsection \<open>The language of the validator\<close>

definition is_pseudo :: "u8 list \<times> u8 list \<Rightarrow> bool" where
  "is_pseudo f \<longleftrightarrow> fst f \<noteq> [] \<and> hd (fst f) = 0x3a"

definition section_shape :: "wt_http3_header_message \<Rightarrow> (u8 list \<times> u8 list) list \<Rightarrow> (u8 list \<times> u8 list) list \<Rightarrow> bool" where
  "section_shape message ps rs \<longleftrightarrow>
     list_all (pseudo_field message) ps \<and> distinct (map fst ps) \<and> list_all regular_field rs"

lemma regular_not_pseudo: "regular_field f \<Longrightarrow> \<not> is_pseudo f"
  using regular_field_no_colon [of "fst f" "snd f"] by (simp add: is_pseudo_def)

lemma pseudo_field_is_pseudo: "pseudo_field message f \<Longrightarrow> is_pseudo f"
  using pseudo_name_colon [of "fst f" message] by (simp add: pseudo_field_def is_pseudo_def)

lemma header_run_regular:
  "hv_saw_regular v \<Longrightarrow> (list_all regular_field fs \<longrightarrow> header_run v fs = (None, v)) \<and>
     (fst (header_run v fs) = None \<longleftrightarrow> list_all regular_field fs) \<and>
     (fst (header_run v fs) \<noteq> None \<longrightarrow> fst (header_run v fs) = Some header_error)"
proof (induction fs)
  case (Cons f fs)
  obtain name val where f: "f = (name, val)" by fastforce
  show ?case
  proof (cases "is_pseudo f")
    case True
    then have "wt_http3_header_validate v name val = (Some header_error, v)"
      using Cons.prems by (simp add: f is_pseudo_def wt_http3_header_validate_def)
    moreover have "\<not> regular_field f" using True regular_not_pseudo by blast
    ultimately show ?thesis by (simp add: f)
  next
    case False
    then have "wt_http3_header_validate v name val =
        (if regular_field f then (None, v) else (Some header_error, v))"
      using validate_regular [of name v val] Cons.prems by (simp add: f is_pseudo_def)
    then show ?thesis using Cons.IH [OF Cons.prems] by (simp add: f)
  qed
qed simp

lemma header_run_exact:
  assumes "seen_ok (hv_pseudo_seen v) names" "\<not> hv_saw_regular v"
  defines "P fs \<equiv> takeWhile is_pseudo fs" and "R fs \<equiv> dropWhile is_pseudo fs"
  shows "if section_shape (hv_message v) (P fs) (R fs) \<and> fst ` set (P fs) \<inter> names = {}
    then \<exists>v'. header_run v fs = (None, v') \<and> hv_message v' = hv_message v \<and>
      seen_ok (hv_pseudo_seen v') (names \<union> fst ` set (P fs)) \<and>
      (hv_is_connect v' \<longleftrightarrow> hv_is_connect v \<or> (ascii '':method'', ascii ''CONNECT'') \<in> set (P fs))
    else fst (header_run v fs) = Some header_error"
  using assms(1,2)
proof (induction fs arbitrary: v names)
  case Nil
  then show ?case by (simp add: P_def R_def section_shape_def)
next
  case (Cons f fs)
  obtain name val where f: "f = (name, val)" by fastforce
  show ?case
  proof (cases "is_pseudo f")
    case False
    then have PR: "P (f # fs) = []" "R (f # fs) = f # fs" by (simp_all add: P_def R_def)
    let ?v = "v\<lparr>hv_saw_regular := True\<rparr>"
    have step: "wt_http3_header_validate v name val = (if regular_field f then (None, ?v) else (Some header_error, v))"
      using validate_regular [of name v val] False by (simp add: f is_pseudo_def)
    show ?thesis
      using step header_run_regular [of ?v fs] Cons.prems(1) unfolding PR section_shape_def
      by (auto simp: f split: if_splits)
  next
    case True
    then have PR: "P (f # fs) = f # P fs" "R (f # fs) = R fs" by (simp_all add: P_def R_def)
    note step = validate_pseudo [OF _ Cons.prems, of name val]
    show ?thesis
    proof (cases "pseudo_field (hv_message v) f \<and> name \<notin> names")
      case False
      then have "fst (wt_http3_header_validate v name val) = Some header_error"
        using step True unfolding f is_pseudo_def by simp
      then have "fst (header_run v (f # fs)) = Some header_error" by (auto simp: f split: prod.splits)
      then show ?thesis using False unfolding PR section_shape_def by (auto simp: f)
    next
      case ok: True
      let ?v = "v\<lparr>hv_is_connect := hv_is_connect v \<or> name = ascii '':method'' \<and> val = ascii ''CONNECT'',
               hv_pseudo_seen := hv_pseudo_seen v OR push_bit (pseudo_index name) 1\<rparr>"
      have v: "wt_http3_header_validate v name val = (None, ?v)" using step True ok unfolding f is_pseudo_def by simp
      have "name \<in> set (pseudo_names (hv_message v))" using ok by (simp add: f pseudo_field_def)
      from seen_ok_insert [OF Cons.prems(1) this] have seen: "seen_ok (hv_pseudo_seen ?v) (insert name names)" by simp
      have run: "header_run v (f # fs) = header_run ?v fs" using v by (simp add: f)
      have sh: "section_shape (hv_message v) (f # P fs) (R fs) \<and> fst ` set (f # P fs) \<inter> names = {} \<longleftrightarrow>
          section_shape (hv_message ?v) (P fs) (R fs) \<and> fst ` set (P fs) \<inter> insert name names = {}"
        using ok by (auto simp: section_shape_def f)
      have "names \<union> fst ` set (f # P fs) = insert name names \<union> fst ` set (P fs)" by (auto simp: f)
      note un = this
      have r: "\<not> hv_saw_regular ?v" using Cons.prems(2) by simp
      note IH = Cons.IH [OF seen r]
      show ?thesis
      proof (cases "section_shape (hv_message ?v) (P fs) (R fs) \<and> fst ` set (P fs) \<inter> insert name names = {}")
        case True
        with IH obtain v' where v': "header_run ?v fs = (None, v')" "hv_message v' = hv_message v"
          "seen_ok (hv_pseudo_seen v') (insert name names \<union> fst ` set (P fs))"
          "hv_is_connect v' \<longleftrightarrow> (hv_is_connect v \<or> name = ascii '':method'' \<and> val = ascii ''CONNECT'') \<or>
             (ascii '':method'', ascii ''CONNECT'') \<in> set (P fs)" by auto
        have "hv_is_connect v' \<longleftrightarrow> hv_is_connect v \<or> (ascii '':method'', ascii ''CONNECT'') \<in> set (f # P fs)"
          using v'(4) by (auto simp: f)
        with True v'(1-3) show ?thesis unfolding PR run sh un by simp
      next
        case False
        then show ?thesis using IH unfolding PR run sh by (simp only: if_False simp_thms)
      qed
    qed
  qed
qed

lemma header_finish_exact:
  assumes "seen_ok (hv_pseudo_seen v) (fst ` set ps)" "hv_is_connect v \<longleftrightarrow> (ascii '':method'', ascii ''CONNECT'') \<in> set ps"
  shows "wt_http3_header_finish v = (if section_required (hv_message v) ps then None else Some header_error)"
proof -
  have bits: "bit (hv_pseudo_seen v) (pseudo_index name) \<longleftrightarrow> name \<in> fst ` set ps"
    if "name \<in> set (pseudo_names WT_HTTP3_HEADER_REQUEST) \<union> set (pseudo_names WT_HTTP3_HEADER_RESPONSE)" for name
    using assms(1) that by (simp add: seen_ok_def)
  have idx: "pseudo_index (ascii '':method'') = 0" "pseudo_index (ascii '':scheme'') = 1" "pseudo_index (ascii '':path'') = 2"
    "pseudo_index (ascii '':authority'') = 3" "pseudo_index (ascii '':status'') = 4"
    by (simp_all add: pseudo_index_def ascii_def)
  note b = bits [of "ascii '':method''"] bits [of "ascii '':scheme''"] bits [of "ascii '':path''"]
    bits [of "ascii '':authority''"] bits [of "ascii '':status''"]
  have e: "bit (push_bit 1 1 OR push_bit 2 1 :: u32) n \<longleftrightarrow> n = 1 \<or> n = 2" for n
    unfolding bit_or_iff bit_push_bit_iff bit_1_iff by auto
  have two: "w AND (push_bit 1 1 OR push_bit 2 1) = push_bit 1 1 OR push_bit 2 1 \<longleftrightarrow> bit w 1 \<and> bit w 2" for w :: u32
  proof
    assume eq: "w AND (push_bit 1 1 OR push_bit 2 1) = push_bit 1 1 OR push_bit 2 1"
    have "bit w n" if "n = 1 \<or> n = 2" for n
      using e [of n] that eq [THEN arg_cong, of "\<lambda>x. bit x n"] by (simp only: bit_and_iff simp_thms)
    then show "bit w 1 \<and> bit w 2" by blast
  next
    assume "bit w 1 \<and> bit w 2"
    then show "w AND (push_bit 1 1 OR push_bit 2 1) = push_bit 1 1 OR push_bit 2 1"
      by (intro bit_eqI) (unfold bit_and_iff e, blast)
  qed
  have one: "hv_pseudo_seen v AND WT_HTTP3_PSEUDO_METHOD = 0 \<longleftrightarrow> \<not> bit (hv_pseudo_seen v) 0"
    "hv_pseudo_seen v AND WT_HTTP3_PSEUDO_AUTHORITY = 0 \<longleftrightarrow> \<not> bit (hv_pseudo_seen v) 3"
    "hv_pseudo_seen v AND WT_HTTP3_PSEUDO_STATUS = 0 \<longleftrightarrow> \<not> bit (hv_pseudo_seen v) 4"
    "hv_pseudo_seen v AND (WT_HTTP3_PSEUDO_SCHEME OR WT_HTTP3_PSEUDO_PATH) = WT_HTTP3_PSEUDO_SCHEME OR WT_HTTP3_PSEUDO_PATH \<longleftrightarrow>
       bit (hv_pseudo_seen v) 1 \<and> bit (hv_pseudo_seen v) 2"
    unfolding pseudo_bits by (rule and_single_bit two, simp?)+
  show ?thesis
    using assms(2) b unfolding idx
    by (cases "hv_message v") (auto simp: wt_http3_header_finish_def section_required_def one pseudo_names_def)
qed

text \<open>The validator in terms of the leading run of names with a colon.\<close>

lemma header_section_shape:
  "header_section message fs =
     (if section_shape message (takeWhile is_pseudo fs) (dropWhile is_pseudo fs) \<and>
         section_required message (takeWhile is_pseudo fs)
      then None else Some header_error)"
proof -
  let ?v = "wt_http3_header_validation_init message" and ?P = "takeWhile is_pseudo fs" and ?R = "dropWhile is_pseudo fs"
  have v: "seen_ok (hv_pseudo_seen ?v) {}" "\<not> hv_saw_regular ?v" "hv_message ?v = message" "\<not> hv_is_connect ?v"
    by (simp_all add: wt_http3_header_validation_init_def seen_ok_def)
  note run = header_run_exact [OF v(1,2), of fs, unfolded v(3)]
  show ?thesis
  proof (cases "section_shape message ?P ?R")
    case True
    with run obtain v' where v': "header_run ?v fs = (None, v')" "hv_message v' = message"
      "seen_ok (hv_pseudo_seen v') (fst ` set ?P)" "hv_is_connect v' \<longleftrightarrow> (ascii '':method'', ascii ''CONNECT'') \<in> set ?P"
      using v(4) by auto
    with header_finish_exact [OF v'(3,4)] True show ?thesis by (simp add: header_section_def)
  next
    case False
    with run have "fst (header_run ?v fs) = Some header_error" by simp
    with False show ?thesis by (auto simp: header_section_def split: prod.splits option.splits)
  qed
qed

subsection \<open>Properties\<close>

text \<open>C22: The header validator decides exactly the well-formed sections. Over any list of fields, calling the
  validator for each and then the final check succeeds exactly when the list is a run of pseudo-headers that the
  message type defines, each at most once and with legal values, followed only by regular fields with legal lower
  case names and values, none connection-specific and \<open>te\<close> only for trailers, and when the required
  pseudo-headers are there: the status of a response; the method of a request with scheme and path, or with the
  authority for CONNECT. Anything else is a message error.\<close>

theorem wt_http3_header_section_exact:
  "header_section message fs =
     (if \<exists>ps rs. fs = ps @ rs \<and> list_all (pseudo_field message) ps \<and> distinct (map fst ps) \<and>
           list_all regular_field rs \<and> section_required message ps
      then None else Some (WT_ERR_PROTOCOL, WT_HTTP3_MESSAGE_ERROR))"
proof -
  let ?P = "takeWhile is_pseudo fs" and ?R = "dropWhile is_pseudo fs"
  have split: "ps = ?P \<and> rs = ?R" if "fs = ps @ rs" "list_all (pseudo_field message) ps" "list_all regular_field rs" for ps rs
  proof -
    have p: "\<forall>f\<in>set ps. is_pseudo f" using that(2) pseudo_field_is_pseudo by (auto simp: list_all_iff)
    have r: "takeWhile is_pseudo rs = []" "dropWhile is_pseudo rs = rs"
      using that(3) regular_not_pseudo by (cases rs; auto)+
    show ?thesis using p r by (simp add: that(1))
  qed
  have "(\<exists>ps rs. fs = ps @ rs \<and> list_all (pseudo_field message) ps \<and> distinct (map fst ps) \<and>
      list_all regular_field rs \<and> section_required message ps) \<longleftrightarrow>
      section_shape message ?P ?R \<and> section_required message ?P"
    using split unfolding section_shape_def by (metis takeWhile_dropWhile_id)
  then show ?thesis unfolding header_section_shape header_error_def by simp
qed

end
