(* ===== verification/Http3_Control.thy ===== *)
theory Http3_Control
  imports Http3_Frame "HOL-Library.Multiset"
begin

text \<open>
  The connection-management half of HTTP/3: SETTINGS, GOAWAY and the peer's control stream
  (\<open>C99/src/http3/settings.c\<close>, \<open>goaway.c\<close>, \<open>control.c\<close>). The two parallel arrays of a settings table are
  one list of identifier and value; the control stream's reassembly buffer is the list of its bytes.
\<close>

subsection \<open>SETTINGS (settings.c)\<close>

definition WT_HTTP3_SETTING_ENABLE_CONNECT_PROTOCOL :: u64 where "WT_HTTP3_SETTING_ENABLE_CONNECT_PROTOCOL = 0x08"
definition WT_HTTP3_SETTING_H3_DATAGRAM :: u64 where "WT_HTTP3_SETTING_H3_DATAGRAM = 0x33"
definition WT_HTTP3_SETTINGS_MAX_ENTRIES :: nat where "WT_HTTP3_SETTINGS_MAX_ENTRIES = 16"

record wt_http3_settings =
  hs_entries :: "(u64 \<times> u64) list"

definition wt_http3_settings_init :: wt_http3_settings where
  "wt_http3_settings_init = \<lparr>hs_entries = []\<rparr>"

definition wt_http3_setting_is_reserved_http2 :: "u64 \<Rightarrow> bool" where
  "wt_http3_setting_is_reserved_http2 i \<longleftrightarrow> i = 0x02 \<or> i = 0x03 \<or> i = 0x04 \<or> i = 0x05"

definition wt_http3_setting_is_exerciser :: "u64 \<Rightarrow> bool" where
  "wt_http3_setting_is_exerciser i = (if i < 0x21 then False else (i - 0x21) mod 0x1f = 0)"

definition wt_http3_settings_set :: "wt_http3_settings \<Rightarrow> u64 \<Rightarrow> u64 \<Rightarrow> wt_status \<times> wt_http3_settings" where
  "wt_http3_settings_set settings i v =
     (if i > WT_QUIC_VARINT_MAX \<or> v > WT_QUIC_VARINT_MAX then (WT_ERR_INVALID_ARGUMENT, settings)
      else if wt_http3_setting_is_reserved_http2 i then (WT_ERR_INVALID_ARGUMENT, settings)
      else if i = WT_HTTP3_SETTING_ENABLE_CONNECT_PROTOCOL \<and> v > 1 then (WT_ERR_INVALID_ARGUMENT, settings)
      else if i = WT_HTTP3_SETTING_H3_DATAGRAM \<and> v > 1 then (WT_ERR_INVALID_ARGUMENT, settings)
      else if \<exists>e\<in>set (hs_entries settings). fst e = i then (WT_ERR_STATE, settings)
      else if length (hs_entries settings) \<ge> WT_HTTP3_SETTINGS_MAX_ENTRIES then (WT_ERR_LIMIT, settings)
      else (WT_OK, settings\<lparr>hs_entries := hs_entries settings @ [(i, v)]\<rparr>))"

text \<open>The value (0 when absent) and \<open>*out_present\<close>.\<close>

definition wt_http3_settings_get :: "wt_http3_settings \<Rightarrow> u64 \<Rightarrow> u64 \<times> bool" where
  "wt_http3_settings_get settings i =
     (case find (\<lambda>e. fst e = i) (hs_entries settings) of
        None \<Rightarrow> (0, False)
      | Some e \<Rightarrow> (snd e, True))"

text \<open>One identifier and value, then the rules a received setting must satisfy: \<open>parsed\<close> after it.\<close>

definition read_setting :: "(http3_fail, u64 \<times> u64) xreader" where
  "read_setting =
     rbind (varint_or (WT_ERR_TRUNCATED, WT_HTTP3_SETTINGS_ERROR)) (\<lambda>i.
     rbind (varint_or (WT_ERR_TRUNCATED, WT_HTTP3_SETTINGS_ERROR)) (\<lambda>v.
     rreturn (i, v)))"

definition on_setting :: "wt_http3_settings \<Rightarrow> u64 \<Rightarrow> u64 \<Rightarrow> http3_fail + wt_http3_settings" where
  "on_setting parsed i v =
     (if wt_http3_setting_is_reserved_http2 i then Inl (WT_ERR_PROTOCOL, WT_HTTP3_SETTINGS_ERROR)
      else if wt_http3_setting_is_exerciser i then Inr parsed
      else if i = WT_HTTP3_SETTING_ENABLE_CONNECT_PROTOCOL \<and> v > 1
      then Inl (WT_ERR_PROTOCOL, WT_HTTP3_SETTINGS_ERROR)
      else if i = WT_HTTP3_SETTING_H3_DATAGRAM \<and> v > 1 then Inl (WT_ERR_PROTOCOL, WT_HTTP3_SETTINGS_ERROR)
      else
        case wt_http3_settings_set parsed i v of
          (status, parsed') \<Rightarrow>
            if status = WT_ERR_LIMIT then Inl (status, WT_HTTP3_EXCESSIVE_LOAD)
            else if status = WT_ERR_STATE then Inl (WT_ERR_PROTOCOL, WT_HTTP3_SETTINGS_ERROR)
            else if status \<noteq> WT_OK then Inl (status, WT_HTTP3_SETTINGS_ERROR)
            else Inr parsed')"

lemma read_setting_progress:
  assumes "read_setting c = (Inr x, c')"
  shows "wt_cursor_remaining c' < wt_cursor_remaining c"
proof -
  obtain i d where 1: "varint_or (WT_ERR_TRUNCATED, WT_HTTP3_SETTINGS_ERROR) c = (Inr i, d)"
    and 2: "rbind (varint_or (WT_ERR_TRUNCATED, WT_HTTP3_SETTINGS_ERROR)) (\<lambda>v. rreturn (i, v)) d = (Inr x, c')"
    using assms by (auto simp: read_setting_def rbind_def split: prod.splits sum.splits)
  obtain v where 3: "varint_or (WT_ERR_TRUNCATED, WT_HTTP3_SETTINGS_ERROR) d = (Inr v, c')"
    using 2 by (auto simp: rbind_def rreturn_def split: prod.splits sum.splits)
  from varint_or_progress [OF 3] varint_or_progress [OF 1] show ?thesis by (rule less_trans)
qed

function settings_loop :: "wt_http3_settings \<Rightarrow> wt_cursor \<Rightarrow> http3_fail + wt_http3_settings" where
  "settings_loop parsed c =
     (if \<not> wt_cursor_at_end c then
        (case read_setting c of
           (Inl e, c') \<Rightarrow> Inl e
         | (Inr (i, v), c') \<Rightarrow>
             (case on_setting parsed i v of
                Inl e \<Rightarrow> Inl e
              | Inr parsed' \<Rightarrow> settings_loop parsed' c'))
      else Inr parsed)"
  by pat_completeness auto
termination
  by (relation "measure (\<lambda>(_, c). unat (wt_cursor_remaining c))")
    (auto simp: word_less_nat_alt [symmetric] intro: read_setting_progress [OF sym])

declare settings_loop.simps [simp del]

definition wt_http3_settings_parse :: "u8 list option \<Rightarrow> u64 \<Rightarrow> http3_fail + wt_http3_settings" where
  "wt_http3_settings_parse payload len =
     (if payload = None \<and> len \<noteq> 0 then Inl (WT_ERR_INVALID_ARGUMENT, WT_HTTP3_NO_ERROR)
      else settings_loop wt_http3_settings_init (wt_cursor_init payload len))"

text \<open>The index of the smallest identifier not yet written, or the count.\<close>

definition settings_best :: "(u64 \<times> u64) list \<Rightarrow> bool list \<Rightarrow> nat" where
  "settings_best es emitted =
     foldl (\<lambda>best i. if emitted ! i then best
                     else if best = length es \<or> fst (es ! i) < fst (es ! best) then i else best)
       (length es) [0..<length es]"

text \<open>The selection loop with \<open>n\<close> entries left to write.\<close>

fun settings_select :: "nat \<Rightarrow> (u64 \<times> u64) list \<Rightarrow> bool list \<Rightarrow> wt_writer \<Rightarrow> wt_writer" where
  "settings_select 0 es emitted w = w"
| "settings_select (Suc n) es emitted w =
     (let best = settings_best es emitted in
      if best = length es then w
      else settings_select n es (emitted[best := True])
             (emit [put_varint (fst (es ! best)), put_varint (snd (es ! best))] w))"

definition wt_http3_settings_encode_payload :: "wt_http3_settings \<Rightarrow> wt_writer \<Rightarrow> wt_status \<times> wt_writer" where
  "wt_http3_settings_encode_payload settings w =
     (let es = hs_entries settings;
          w' = settings_select (length es) es (replicate WT_HTTP3_SETTINGS_MAX_ENTRIES False) w
      in (writer_status w', w'))"

subsection \<open>GOAWAY (goaway.c)\<close>

definition WT_HTTP3_GOAWAY_SERVER_MAXIMUM :: u64 where "WT_HTTP3_GOAWAY_SERVER_MAXIMUM = 0x3ffffffffffffffc"
definition WT_HTTP3_GOAWAY_CLIENT_MAXIMUM :: u64 where "WT_HTTP3_GOAWAY_CLIENT_MAXIMUM = 0x3fffffffffffffff"

record wt_http3_goaway =
  ga_received :: bool
  ga_identifier :: u64
  ga_sender :: wt_http3_role

definition wt_http3_goaway_init :: wt_http3_goaway where
  "wt_http3_goaway_init = \<lparr>ga_received = False, ga_identifier = 0, ga_sender = WT_HTTP3_ROLE_SERVER\<rparr>"

definition wt_http3_goaway_maximum_identifier :: "wt_http3_role \<Rightarrow> u64" where
  "wt_http3_goaway_maximum_identifier sender =
     (if sender = WT_HTTP3_ROLE_SERVER then WT_HTTP3_GOAWAY_SERVER_MAXIMUM else WT_HTTP3_GOAWAY_CLIENT_MAXIMUM)"

definition wt_http3_goaway_encode_payload :: "u64 \<Rightarrow> wt_writer \<Rightarrow> wt_status \<times> wt_writer" where
  "wt_http3_goaway_encode_payload identifier w =
     (if identifier > WT_QUIC_VARINT_MAX then (WT_ERR_INVALID_ARGUMENT, w)
      else emit_status [put_varint identifier] w)"

definition wt_http3_goaway_decode_payload :: "u8 list option \<Rightarrow> u64 \<Rightarrow> http3_fail + u64" where
  "wt_http3_goaway_decode_payload payload len =
     (if payload = None \<and> len \<noteq> 0 then Inl (WT_ERR_INVALID_ARGUMENT, WT_HTTP3_NO_ERROR)
      else case wt_quic_varint_decode (wt_cursor_init payload len) of
        (Inl _, c) \<Rightarrow> Inl (WT_ERR_TRUNCATED, WT_HTTP3_FRAME_ERROR)
      | (Inr identifier, c) \<Rightarrow>
          if \<not> wt_cursor_at_end c then Inl (WT_ERR_PROTOCOL, WT_HTTP3_FRAME_ERROR) else Inr identifier)"

definition wt_http3_goaway_on_received ::
  "wt_http3_goaway \<Rightarrow> wt_http3_role \<Rightarrow> u64 \<Rightarrow> http3_fail option \<times> wt_http3_goaway" where
  "wt_http3_goaway_on_received goaway sender identifier =
     (if sender = WT_HTTP3_ROLE_SERVER \<and> identifier AND 0x03 \<noteq> 0
      then (Some (WT_ERR_PROTOCOL, WT_HTTP3_ID_ERROR), goaway)
      else if ga_received goaway \<and> identifier > ga_identifier goaway
      then (Some (WT_ERR_PROTOCOL, WT_HTTP3_ID_ERROR), goaway)
      else (None, \<lparr>ga_received = True, ga_identifier = identifier, ga_sender = sender\<rparr>))"

definition wt_http3_goaway_rejects_stream :: "wt_http3_goaway \<Rightarrow> u64 \<Rightarrow> bool" where
  "wt_http3_goaway_rejects_stream goaway stream_id =
     (if \<not> ga_received goaway then False else stream_id \<ge> ga_identifier goaway)"

definition wt_http3_goaway_allows_new_requests :: "wt_http3_goaway \<Rightarrow> bool" where
  "wt_http3_goaway_allows_new_requests goaway \<longleftrightarrow> \<not> ga_received goaway"

subsection \<open>The peer's control stream (control.c)\<close>

definition WT_HTTP3_CONTROL_SETTINGS_MAX :: nat where "WT_HTTP3_CONTROL_SETTINGS_MAX = 512"

record wt_http3_control_stream =
  ct_opened :: bool
  ct_settings_received :: bool
  ct_closed :: bool
  ct_settings_payload :: "u8 list"
  ct_settings_failed :: bool

definition wt_http3_control_init :: wt_http3_control_stream where
  "wt_http3_control_init =
     \<lparr>ct_opened = False, ct_settings_received = False, ct_closed = False, ct_settings_payload = [],
      ct_settings_failed = False\<rparr>"

definition wt_http3_control_peer_opened ::
  "wt_http3_control_stream \<Rightarrow> http3_fail option \<times> wt_http3_control_stream" where
  "wt_http3_control_peer_opened control =
     (if ct_opened control then (Some (WT_ERR_PROTOCOL, WT_HTTP3_STREAM_CREATION_ERROR), control)
      else (None, control\<lparr>ct_opened := True\<rparr>))"

definition wt_http3_control_on_frame ::
  "wt_http3_control_stream \<Rightarrow> u64 \<Rightarrow> http3_fail option \<times> wt_http3_control_stream" where
  "wt_http3_control_on_frame control type =
     (if \<not> ct_opened control \<or> ct_closed control then (Some (WT_ERR_STATE, WT_HTTP3_NO_ERROR), control)
      else if \<not> ct_settings_received control then
        if type = WT_HTTP3_FRAME_SETTINGS
        then (None, control\<lparr>ct_settings_received := True, ct_settings_payload := [], ct_settings_failed := False\<rparr>)
        else (Some (WT_ERR_PROTOCOL, WT_HTTP3_MISSING_SETTINGS), control)
      else if wt_http3_frame_type_is_reserved type
      then (Some (WT_ERR_PROTOCOL, WT_HTTP3_FRAME_UNEXPECTED), control)
      else if type = WT_HTTP3_FRAME_SETTINGS then (Some (WT_ERR_PROTOCOL, WT_HTTP3_FRAME_UNEXPECTED), control)
      else if type = WT_HTTP3_FRAME_DATA \<or> type = WT_HTTP3_FRAME_HEADERS \<or> type = WT_HTTP3_FRAME_PUSH_PROMISE
      then (Some (WT_ERR_PROTOCOL, WT_HTTP3_FRAME_UNEXPECTED), control)
      else (None, control))"

definition wt_http3_control_on_frame_payload ::
  "wt_http3_control_stream \<Rightarrow> u64 \<Rightarrow> u8 list \<Rightarrow> bool \<Rightarrow> http3_fail option \<times> wt_http3_control_stream" where
  "wt_http3_control_on_frame_payload control type payload last' =
     (if type \<noteq> WT_HTTP3_FRAME_SETTINGS then (None, control)
      else if \<not> ct_settings_received control then (Some (WT_ERR_STATE, WT_HTTP3_NO_ERROR), control)
      else if ct_settings_failed control then (Some (WT_ERR_LIMIT, WT_HTTP3_EXCESSIVE_LOAD), control)
      else if length payload > WT_HTTP3_CONTROL_SETTINGS_MAX - length (ct_settings_payload control)
      then (Some (WT_ERR_LIMIT, WT_HTTP3_EXCESSIVE_LOAD),
            control\<lparr>ct_settings_failed := True, ct_settings_payload := []\<rparr>)
      else
        let buffer = ct_settings_payload control @ payload in
        if \<not> last' then (None, control\<lparr>ct_settings_payload := buffer\<rparr>)
        else
          (case wt_http3_settings_parse (Some buffer) (of_nat (length buffer)) of
             Inl e \<Rightarrow> Some e
           | Inr _ \<Rightarrow> None,
           control\<lparr>ct_settings_payload := []\<rparr>))"

definition wt_http3_control_on_closed ::
  "wt_http3_control_stream \<Rightarrow> http3_fail option \<times> wt_http3_control_stream" where
  "wt_http3_control_on_closed control =
     (if \<not> ct_opened control \<or> ct_closed control then (Some (WT_ERR_STATE, WT_HTTP3_NO_ERROR), control)
      else (Some (WT_ERR_PROTOCOL, WT_HTTP3_CLOSED_CRITICAL_STREAM), control\<lparr>ct_closed := True\<rparr>))"

subsection \<open>A settings table\<close>

definition setting_ok :: "u64 \<times> u64 \<Rightarrow> bool" where
  "setting_ok e \<longleftrightarrow> varint_valid (fst e) \<and> varint_valid (snd e) \<and> \<not> wt_http3_setting_is_reserved_http2 (fst e) \<and>
     (fst e = WT_HTTP3_SETTING_ENABLE_CONNECT_PROTOCOL \<or> fst e = WT_HTTP3_SETTING_H3_DATAGRAM \<longrightarrow> snd e \<le> 1)"

definition settings_ok :: "wt_http3_settings \<Rightarrow> bool" where
  "settings_ok s \<longleftrightarrow> list_all setting_ok (hs_entries s) \<and> distinct (map fst (hs_entries s)) \<and>
     length (hs_entries s) \<le> WT_HTTP3_SETTINGS_MAX_ENTRIES"

lemma settings_ok_init: "settings_ok wt_http3_settings_init"
  by (simp add: settings_ok_def wt_http3_settings_init_def)

lemma settings_set_cases:
  "fst (wt_http3_settings_set s i v) = WT_OK \<and> setting_ok (i, v) \<and> i \<notin> fst ` set (hs_entries s) \<and>
     length (hs_entries s) < WT_HTTP3_SETTINGS_MAX_ENTRIES \<and>
     snd (wt_http3_settings_set s i v) = s\<lparr>hs_entries := hs_entries s @ [(i, v)]\<rparr> \<or>
   fst (wt_http3_settings_set s i v) \<noteq> WT_OK \<and> snd (wt_http3_settings_set s i v) = s"
  by (auto simp: wt_http3_settings_set_def setting_ok_def varint_valid_def not_less)

lemma settings_ok_set: "settings_ok s \<Longrightarrow> settings_ok (snd (wt_http3_settings_set s i v))"
  using settings_set_cases [of s i v] by (auto simp: settings_ok_def)

lemma settings_set_ok:
  "setting_ok (i, v) \<Longrightarrow> i \<notin> fst ` set (hs_entries s) \<Longrightarrow> length (hs_entries s) < WT_HTTP3_SETTINGS_MAX_ENTRIES \<Longrightarrow>
   wt_http3_settings_set s i v = (WT_OK, s\<lparr>hs_entries := hs_entries s @ [(i, v)]\<rparr>)"
  by (auto simp: wt_http3_settings_set_def setting_ok_def varint_valid_def not_less)

subsection \<open>The selection order\<close>

definition unwritten :: "(u64 \<times> u64) list \<Rightarrow> bool list \<Rightarrow> nat set" where
  "unwritten es emitted = {i. i < length es \<and> \<not> emitted ! i}"

lemma settings_best_prefix:
  fixes es :: "(u64 \<times> u64) list"
  assumes "k \<le> length es"
  shows "let b = foldl (\<lambda>best i. if emitted ! i then best
                     else if best = length es \<or> fst (es ! i) < fst (es ! best) then i else best)
       (length es) [0..<k] in
     (b = length es \<longleftrightarrow> (\<forall>i<k. emitted ! i)) \<and>
     (b \<noteq> length es \<longrightarrow> b < k \<and> \<not> emitted ! b \<and> (\<forall>i<k. \<not> emitted ! i \<longrightarrow> fst (es ! b) \<le> fst (es ! i)))"
  using assms
proof (induction k)
  case (Suc k)
  define b where "b = foldl (\<lambda>best i. if emitted ! i then best
                     else if best = length es \<or> fst (es ! i) < fst (es ! best) then i else best)
       (length es) [0..<k]"
  have IH: "b = length es \<longleftrightarrow> (\<forall>i<k. emitted ! i)"
    "b \<noteq> length es \<longrightarrow> b < k \<and> \<not> emitted ! b \<and> (\<forall>i<k. \<not> emitted ! i \<longrightarrow> fst (es ! b) \<le> fst (es ! i))"
    using Suc.IH Suc.prems unfolding b_def [symmetric] Let_def by simp_all
  define b' where "b' = (if emitted ! k then b
                     else if b = length es \<or> fst (es ! k) < fst (es ! b) then k else b)"
  have step: "foldl (\<lambda>best i. if emitted ! i then best
                     else if best = length es \<or> fst (es ! i) < fst (es ! best) then i else best)
       (length es) [0..<Suc k] = b'"
    by (simp add: b_def b'_def)
  have ex: "(\<forall>i<Suc k. P i) \<longleftrightarrow> (\<forall>i<k. P i) \<and> P k" for P :: "nat \<Rightarrow> bool"
    by (auto simp: less_Suc_eq)
  show ?case
    unfolding step Let_def ex using IH Suc.prems
    by (auto simp: b'_def not_less intro: order.trans [OF less_imp_le])
qed simp

lemma settings_best_spec:
  "settings_best es emitted = length es \<longleftrightarrow> unwritten es emitted = {}"
  "unwritten es emitted \<noteq> {} \<Longrightarrow> settings_best es emitted \<in> unwritten es emitted \<and>
     (\<forall>i\<in>unwritten es emitted. fst (es ! settings_best es emitted) \<le> fst (es ! i))"
  using settings_best_prefix [of "length es" es emitted]
  unfolding settings_best_def [symmetric] Let_def unwritten_def by auto

fun settings_order :: "nat \<Rightarrow> (u64 \<times> u64) list \<Rightarrow> bool list \<Rightarrow> nat list" where
  "settings_order 0 es emitted = []"
| "settings_order (Suc n) es emitted =
     (let best = settings_best es emitted in
      if best = length es then [] else best # settings_order n es (emitted[best := True]))"

lemma settings_order_spec:
  assumes "length es \<le> length emitted" "card (unwritten es emitted) = n"
  shows "set (settings_order n es emitted) = unwritten es emitted \<and> distinct (settings_order n es emitted) \<and>
    sorted (map (\<lambda>i. fst (es ! i)) (settings_order n es emitted))"
  using assms
proof (induction n arbitrary: emitted)
  case 0
  have "finite (unwritten es emitted)" by (simp add: unwritten_def)
  with 0 show ?case by simp
next
  case (Suc n)
  let ?b = "settings_best es emitted"
  have ne: "unwritten es emitted \<noteq> {}" using Suc.prems(2) by auto
  note b = settings_best_spec(2) [OF ne]
  then have bl: "?b < length es" "?b \<noteq> length es" by (auto simp: unwritten_def)
  have rest: "unwritten es (emitted[?b := True]) = unwritten es emitted - {?b}"
    using bl Suc.prems(1) by (auto simp: unwritten_def nth_list_update)
  have "card (unwritten es (emitted[?b := True])) = n"
    using b Suc.prems(2) unfolding rest by simp
  with Suc.IH [of "emitted[?b := True]"] Suc.prems(1) show ?case
    using b bl by (auto simp: Let_def rest)
qed

definition settings_sorted :: "wt_http3_settings \<Rightarrow> (u64 \<times> u64) list" where
  "settings_sorted s = sort_key fst (hs_entries s)"

lemma settings_order_sorted:
  assumes "settings_ok s"
  shows "map ((!) (hs_entries s)) (settings_order (length (hs_entries s)) (hs_entries s)
           (replicate WT_HTTP3_SETTINGS_MAX_ENTRIES False)) = settings_sorted s"
proof -
  let ?es = "hs_entries s" and ?em = "replicate WT_HTTP3_SETTINGS_MAX_ENTRIES False"
  let ?o = "settings_order (length ?es) ?es ?em"
  have len: "length ?es \<le> WT_HTTP3_SETTINGS_MAX_ENTRIES" using assms by (simp add: settings_ok_def)
  then have un: "unwritten ?es ?em = {0..<length ?es}" by (auto simp: unwritten_def)
  have o: "set ?o = {0..<length ?es}" "distinct ?o" "sorted (map (\<lambda>i. fst (?es ! i)) ?o)"
    using settings_order_spec [of ?es ?em "length ?es"] len by (simp_all add: un)
  have "mset ?o = mset [0..<length ?es]" using o set_eq_iff_mset_eq_distinct [of ?o "[0..<length ?es]"] by simp
  then have "mset (map ((!) ?es) ?o) = mset (map ((!) ?es) [0..<length ?es])" by (simp only: mset_map)
  then have "mset ?es = mset (map ((!) ?es) ?o)" by (simp add: map_nth)
  moreover have "inj_on fst (set ?es)" using assms by (simp add: settings_ok_def distinct_map)
  ultimately show ?thesis
    unfolding settings_sorted_def using o(3)
    by (intro sort_key_inj_key_eq [symmetric]) (simp_all add: comp_def)
qed

subsection \<open>The SETTINGS payload\<close>

definition setting_bytes :: "u64 \<times> u64 \<Rightarrow> u8 list" where
  "setting_bytes e = varint_bytes (fst e) @ varint_bytes (snd e)"

definition settings_bytes :: "wt_http3_settings \<Rightarrow> u8 list" where
  "settings_bytes s = concat (map setting_bytes (settings_sorted s))"

lemma settings_select_emit:
  "settings_select n es emitted w =
     emit (concat (map (\<lambda>i. [put_varint (fst (es ! i)), put_varint (snd (es ! i))]) (settings_order n es emitted))) w"
  by (induction n es emitted w rule: settings_select.induct) (simp_all add: Let_def)

lemma settings_encode_writes:
  assumes "settings_ok s"
  shows "writes (\<lambda>w. snd (wt_http3_settings_encode_payload s w)) (settings_bytes s)"
    "fst (wt_http3_settings_encode_payload s w) = writer_status (snd (wt_http3_settings_encode_payload s w))"
proof -
  let ?put = "\<lambda>e. [put_varint (fst e), put_varint (snd e)]" and ?bs = "\<lambda>e. [varint_bytes (fst e), varint_bytes (snd e)]"
  have eq: "snd (wt_http3_settings_encode_payload s w) = emit (concat (map ?put (settings_sorted s))) w" for w
    by (simp add: wt_http3_settings_encode_payload_def Let_def settings_select_emit
        settings_order_sorted [OF assms, symmetric] comp_def)
  have "list_all2 writes (concat (map ?put es)) (concat (map ?bs es))" if "\<forall>e\<in>set es. setting_ok e" for es
    using that by (induction es) (auto simp: setting_ok_def writes_varint)
  moreover have "\<forall>e\<in>set (settings_sorted s). setting_ok e"
    using assms by (simp add: settings_sorted_def settings_ok_def list_all_iff)
  moreover have "concat (concat (map ?bs es)) = concat (map setting_bytes es)" for es
    by (induction es) (simp_all add: setting_bytes_def)
  ultimately show "writes (\<lambda>w. snd (wt_http3_settings_encode_payload s w)) (settings_bytes s)"
    using writes_emit [of "concat (map ?put (settings_sorted s))" "concat (map ?bs (settings_sorted s))"]
    by (simp add: eq settings_bytes_def)
  show "fst (wt_http3_settings_encode_payload s w) = writer_status (snd (wt_http3_settings_encode_payload s w))"
    by (simp add: wt_http3_settings_encode_payload_def Let_def)
qed

lemma reads_read_setting: "setting_ok e \<Longrightarrow> reads read_setting (setting_bytes e) e"
  unfolding read_setting_def setting_bytes_def setting_ok_def
  by (rule reads_bind, rule reads_varint_or, simp, rule reads_bind_end, rule reads_varint_or, simp,
      rule reads_returnI, simp)

lemma setting_bytes_nonempty: "setting_ok e \<Longrightarrow> setting_bytes e \<noteq> []"
  by (simp add: setting_bytes_def setting_ok_def varint_bytes_nonempty)

definition meaningful :: "(u64 \<times> u64) list \<Rightarrow> (u64 \<times> u64) list" where
  "meaningful es = filter (\<lambda>e. \<not> wt_http3_setting_is_exerciser (fst e)) es"

lemma on_setting_ok:
  assumes "setting_ok e" "fst e \<notin> fst ` set (hs_entries p)" "length (hs_entries p) < WT_HTTP3_SETTINGS_MAX_ENTRIES"
  shows "on_setting p (fst e) (snd e) = Inr (p\<lparr>hs_entries := hs_entries p @ meaningful [e]\<rparr>)"
  using assms settings_set_ok [of "fst e" "snd e" p]
  by (auto simp: on_setting_def setting_ok_def meaningful_def not_less)

lemma settings_loop_reads:
  assumes "\<forall>e\<in>set es. setting_ok e" "distinct (map fst es)" "fst ` set es \<inter> fst ` set (hs_entries p) = {}"
    and "length (hs_entries p) + length es \<le> WT_HTTP3_SETTINGS_MAX_ENTRIES"
    and "cursor_ready c" "cursor_view c = concat (map setting_bytes es)"
  shows "settings_loop p c = Inr (p\<lparr>hs_entries := hs_entries p @ meaningful es\<rparr>)"
  using assms
proof (induction es arbitrary: p c)
  case Nil
  then show ?case by (subst settings_loop.simps) (simp add: cursor_at_end_view meaningful_def)
next
  case (Cons e es)
  let ?c = "cursor_advance c (length (setting_bytes e))" and ?p = "p\<lparr>hs_entries := hs_entries p @ meaningful [e]\<rparr>"
  have "reads read_setting (setting_bytes e) e" using Cons.prems(1) by (intro reads_read_setting) simp
  then have d: "read_setting c = (Inr e, ?c)"
    using Cons.prems(5,6) by (intro readsD) simp_all
  have ne: "\<not> wt_cursor_at_end c"
    using Cons.prems setting_bytes_nonempty [of e] by (simp add: cursor_at_end_view)
  have "on_setting p (fst e) (snd e) = Inr ?p"
    using Cons.prems by (intro on_setting_ok) auto
  then have "settings_loop p c = settings_loop ?p ?c"
    using d ne by (subst settings_loop.simps) (simp add: case_prod_beta)
  also have "\<dots> = Inr (?p\<lparr>hs_entries := hs_entries ?p @ meaningful es\<rparr>)"
  proof (rule Cons.IH)
    show "fst ` set es \<inter> fst ` set (hs_entries ?p) = {}"
      using Cons.prems(2,3) by (auto simp: meaningful_def)
    show "length (hs_entries ?p) + length es \<le> WT_HTTP3_SETTINGS_MAX_ENTRIES"
      using Cons.prems(4) by (simp add: meaningful_def)
    show "cursor_ready ?c" "cursor_view ?c = concat (map setting_bytes es)"
      using cursor_ready_advance [of c "length (setting_bytes e)"] Cons.prems by simp_all
  qed (use Cons.prems in simp_all)
  finally show ?case by (simp add: meaningful_def)
qed

lemma settings_sorted_distinct: "settings_ok s \<Longrightarrow> distinct (map fst (settings_sorted s))"
  using mset_eq_imp_distinct_iff [of "map fst (settings_sorted s)" "map fst (hs_entries s)"]
  by (simp add: settings_sorted_def settings_ok_def)

lemma settings_parse_bytes:
  assumes "settings_ok s" "length (settings_bytes s) < 2 ^ 64"
  shows "wt_http3_settings_parse (Some (settings_bytes s)) (of_nat (length (settings_bytes s))) =
    Inr \<lparr>hs_entries = meaningful (settings_sorted s)\<rparr>"
proof -
  have s: "\<forall>e\<in>set (settings_sorted s). setting_ok e" "length (settings_sorted s) \<le> WT_HTTP3_SETTINGS_MAX_ENTRIES"
    using assms(1) by (simp_all add: settings_sorted_def settings_ok_def list_all_iff)
  have "settings_loop wt_http3_settings_init (cursor_of (settings_bytes s)) =
      Inr (wt_http3_settings_init\<lparr>hs_entries := hs_entries wt_http3_settings_init @ meaningful (settings_sorted s)\<rparr>)"
    using s assms settings_sorted_distinct by (intro settings_loop_reads) (simp_all add: settings_bytes_def wt_http3_settings_init_def)
  then show ?thesis
    by (simp add: wt_http3_settings_parse_def cursor_of_def wt_http3_settings_init_def)
qed

lemma settings_get_map:
  "wt_http3_settings_get s i = (case map_of (hs_entries s) i of None \<Rightarrow> (0, False) | Some v \<Rightarrow> (v, True))"
proof -
  have "find (\<lambda>e. fst e = i) es = map_option (Pair i) (map_of es i)" for es :: "(u64 \<times> u64) list"
    by (induction es) auto
  then show ?thesis by (simp add: wt_http3_settings_get_def split: option.splits)
qed

lemma meaningful_get:
  assumes "settings_ok s" "\<not> wt_http3_setting_is_exerciser i"
  shows "map_of (meaningful (settings_sorted s)) i = map_of (hs_entries s) i"
proof -
  have "map_of (meaningful es) i = map_of es i" for es
    using assms(2) by (induction es) (auto simp: meaningful_def)
  moreover have "map_of (settings_sorted s) = map_of (hs_entries s)"
    using assms(1) settings_sorted_distinct [OF assms(1)]
    by (subst map_of_inject_set) (auto simp: settings_sorted_def settings_ok_def)
  ultimately show ?thesis by simp
qed

subsection \<open>GOAWAY and the control stream over time\<close>

definition goaway_run :: "(wt_http3_role \<times> u64) list \<Rightarrow> wt_http3_goaway \<Rightarrow> wt_http3_goaway" where
  "goaway_run gs g = foldl (\<lambda>g (sender, i). snd (wt_http3_goaway_on_received g sender i)) g gs"

lemma goaway_run_simps [simp]:
  "goaway_run [] g = g"
  "goaway_run ((sender, i) # gs) g = goaway_run gs (snd (wt_http3_goaway_on_received g sender i))"
  by (simp_all add: goaway_run_def)

lemma goaway_step_shrinks:
  "ga_received g \<Longrightarrow> ga_received (snd (wt_http3_goaway_on_received g sender i)) \<and>
     ga_identifier (snd (wt_http3_goaway_on_received g sender i)) \<le> ga_identifier g"
  by (auto simp: wt_http3_goaway_on_received_def not_less)

lemma goaway_run_shrinks:
  "ga_received g \<Longrightarrow> ga_received (goaway_run gs g) \<and> ga_identifier (goaway_run gs g) \<le> ga_identifier g"
proof (induction gs arbitrary: g)
  case (Cons x gs)
  obtain sender i where x: "x = (sender, i)" by fastforce
  note s = goaway_step_shrinks [OF Cons.prems, of sender i]
  with Cons.IH [of "snd (wt_http3_goaway_on_received g sender i)"] show ?case
    by (auto simp: x intro: order.trans)
qed simp

text \<open>A SETTINGS frame's payload delivered in pieces, the last one marked, until one is refused.\<close>

fun control_feed :: "wt_http3_control_stream \<Rightarrow> u8 list list \<Rightarrow> http3_fail option \<times> wt_http3_control_stream" where
  "control_feed control [] = (None, control)"
| "control_feed control [p] = wt_http3_control_on_frame_payload control WT_HTTP3_FRAME_SETTINGS p True"
| "control_feed control (p # ps) =
     (case wt_http3_control_on_frame_payload control WT_HTTP3_FRAME_SETTINGS p False of
        (None, control') \<Rightarrow> control_feed control' ps
      | (Some e, control') \<Rightarrow> (Some e, control'))"

definition settings_answer :: "u8 list \<Rightarrow> http3_fail option" where
  "settings_answer bs =
     (case wt_http3_settings_parse (Some bs) (of_nat (length bs)) of Inl e \<Rightarrow> Some e | Inr _ \<Rightarrow> None)"

lemma control_feed_answer:
  assumes "ct_settings_received c" "\<not> ct_settings_failed c"
    and "length (ct_settings_payload c) \<le> WT_HTTP3_CONTROL_SETTINGS_MAX" "ps \<noteq> []"
  shows "fst (control_feed c ps) =
    (if length (ct_settings_payload c @ concat ps) \<le> WT_HTTP3_CONTROL_SETTINGS_MAX
     then settings_answer (ct_settings_payload c @ concat ps) else Some (WT_ERR_LIMIT, WT_HTTP3_EXCESSIVE_LOAD))"
  using assms
proof (induction c ps rule: control_feed.induct)
  case (2 c p)
  then show ?case
    by (auto simp: wt_http3_control_on_frame_payload_def settings_answer_def Let_def)
next
  case (3 c p q ps)
  let ?r = "wt_http3_control_on_frame_payload c WT_HTTP3_FRAME_SETTINGS p False"
  show ?case
  proof (cases "length p > WT_HTTP3_CONTROL_SETTINGS_MAX - length (ct_settings_payload c)")
    case True
    then have "?r = (Some (WT_ERR_LIMIT, WT_HTTP3_EXCESSIVE_LOAD), c\<lparr>ct_settings_failed := True, ct_settings_payload := []\<rparr>)"
      using 3(2,3) by (simp add: wt_http3_control_on_frame_payload_def)
    moreover have "\<not> length (ct_settings_payload c @ concat (p # q # ps)) \<le> WT_HTTP3_CONTROL_SETTINGS_MAX"
      using True 3(4) by simp
    ultimately show ?thesis by simp
  next
    case False
    then have r: "?r = (None, c\<lparr>ct_settings_payload := ct_settings_payload c @ p\<rparr>)"
      using 3(2,3) by (simp add: wt_http3_control_on_frame_payload_def Let_def)
    from 3(1) [OF r [symmetric] refl] False 3 show ?thesis by (simp add: r)
  qed
qed simp

subsection \<open>Properties\<close>

text \<open>Round trip of SETTINGS. Whatever sequence of settings a caller tries to set, accepted or refused, the
  table encodes exactly when the bytes fit; the bytes carry the identifiers in ascending order and depend only on
  the set of settings, not on the order they were set in; and the peer's parser accepts them and answers every
  lookup of an identifier that is not an exerciser as the sender's table does, ignoring the exercisers.\<close>

lemma wt_http3_settings_round_trip:
  assumes "s = foldl (\<lambda>s (i, v). snd (wt_http3_settings_set s i v)) wt_http3_settings_init ops"
    and "s' = foldl (\<lambda>s (i, v). snd (wt_http3_settings_set s i v)) wt_http3_settings_init ops'"
    and "unat cap \<le> length d"
    and "wt_http3_settings_encode_payload s (wt_writer_init (Some d) cap) = (st, w)"
  shows "(st = WT_OK \<longleftrightarrow> length (settings_bytes s) \<le> unat cap) \<and>
    (set (hs_entries s) = set (hs_entries s') \<longrightarrow> settings_bytes s = settings_bytes s') \<and>
    (st = WT_OK \<longrightarrow> (\<exists>q. wt_http3_settings_parse (Some (writer_out w)) (of_nat (length (writer_out w))) = Inr q \<and>
       sorted (map fst (hs_entries q)) \<and>
       (\<forall>i. wt_http3_settings_get q i =
          (if wt_http3_setting_is_exerciser i then (0, False) else wt_http3_settings_get s i))))"
proof -
  have run: "settings_ok (foldl (\<lambda>s (i, v). snd (wt_http3_settings_set s i v)) s0 ops)" if "settings_ok s0" for ops s0
    using that by (induction ops arbitrary: s0) (auto simp: settings_ok_set)
  have ok: "settings_ok s" "settings_ok s'" using assms(1,2) run settings_ok_init by simp_all
  note w = writes_init [OF settings_encode_writes(1) [OF ok(1)] assms(3), unfolded assms(4) snd_conv]
  have fits: "st = WT_OK \<longleftrightarrow> length (settings_bytes s) \<le> unat cap"
    using w(1) settings_encode_writes(2) [OF ok(1), of "wt_writer_init (Some d) cap"] assms(4)
    by (simp add: writer_status_def)
  have same: "settings_bytes s = settings_bytes s'" if "set (hs_entries s) = set (hs_entries s')"
  proof -
    have "distinct (hs_entries s)" "distinct (hs_entries s')" "inj_on fst (set (hs_entries s))"
      using ok by (auto simp: settings_ok_def distinct_map)
    with that have "sort_key fst (hs_entries s) = sort_key fst (hs_entries s')"
      by (intro sort_key_inj_key_eq) (simp_all add: set_eq_iff_mset_eq_distinct)
    then show ?thesis by (simp add: settings_bytes_def settings_sorted_def)
  qed
  have "map_of (meaningful es) i = None" if "wt_http3_setting_is_exerciser i" for es i
    using that by (auto simp: map_of_eq_None_iff meaningful_def)
  then have get: "wt_http3_settings_get \<lparr>hs_entries = meaningful (settings_sorted s)\<rparr> i =
      (if wt_http3_setting_is_exerciser i then (0, False) else wt_http3_settings_get s i)" for i
    using meaningful_get [OF ok(1)] by (simp add: settings_get_map)
  have "sorted (map fst (meaningful (settings_sorted s)))"
    unfolding meaningful_def settings_sorted_def by (intro sorted_filter) simp
  moreover have "wt_http3_settings_parse (Some (settings_bytes s)) (of_nat (length (settings_bytes s))) =
      Inr \<lparr>hs_entries = meaningful (settings_sorted s)\<rparr>" if "length (settings_bytes s) \<le> unat cap"
    using that unat_u64_less [of cap] by (intro settings_parse_bytes [OF ok(1)]) simp
  ultimately show ?thesis using fits same w(2) get by auto
qed

text \<open>A GOAWAY is never taken back. Over any further frames, from either role, accepted or refused, a stream the
  peer has rejected stays rejected and no new request is ever allowed again; an accepted frame rejects at
  least the streams rejected before, and one from a server names a client-initiated bidirectional stream.\<close>

lemma wt_http3_goaway_final:
  "(wt_http3_goaway_rejects_stream g sid \<longrightarrow> wt_http3_goaway_rejects_stream (goaway_run gs g) sid) \<and>
   (\<not> wt_http3_goaway_allows_new_requests g \<longrightarrow> \<not> wt_http3_goaway_allows_new_requests (goaway_run gs g)) \<and>
   (fst (wt_http3_goaway_on_received g sender i) = None \<longrightarrow>
      \<not> wt_http3_goaway_allows_new_requests (snd (wt_http3_goaway_on_received g sender i)) \<and>
      (wt_http3_goaway_rejects_stream (snd (wt_http3_goaway_on_received g sender i)) sid \<longleftrightarrow> i \<le> sid) \<and>
      (sender = WT_HTTP3_ROLE_SERVER \<longrightarrow> unat i mod 4 = 0))"
proof -
  have mod4: "unat i mod 4 = unat (i AND 3)" for i :: u64
  proof -
    have "i AND 3 = take_bit 2 i" by (simp add: take_bit_eq_mask mask_eq_exp_minus_1)
    then have "unat (i AND 3) = take_bit 2 (unat i)" by (simp only: unsigned_take_bit_eq)
    then show ?thesis by (simp add: take_bit_eq_mod)
  qed
  have "unat i mod 4 = 0" if "sender = WT_HTTP3_ROLE_SERVER" "fst (wt_http3_goaway_on_received g sender i) = None"
    using that by (auto simp: wt_http3_goaway_on_received_def mod4 split: if_splits)
  moreover have "wt_http3_goaway_rejects_stream (goaway_run gs g) sid" if "wt_http3_goaway_rejects_stream g sid"
    using that goaway_run_shrinks [of g gs]
    by (auto simp: wt_http3_goaway_rejects_stream_def split: if_splits intro: order.trans)
  ultimately show ?thesis
    using goaway_run_shrinks [of g gs]
    by (auto simp: wt_http3_goaway_allows_new_requests_def wt_http3_goaway_rejects_stream_def
        wt_http3_goaway_on_received_def split: if_splits)
qed

text \<open>SETTINGS on the control stream. The first frame of an open control stream is accepted only if it is
  SETTINGS; however its payload is then cut into pieces, the answer is the one the parser gives for the whole
  payload when it fits 512 bytes, and a refusal for excessive load otherwise; and no later SETTINGS frame,
  DATA, HEADERS or PUSH_PROMISE is ever accepted.\<close>

lemma wt_http3_control_settings_first:
  assumes "ct_opened c" "\<not> ct_closed c" "\<not> ct_settings_received c"
  shows "(fst (wt_http3_control_on_frame c type) = None \<longleftrightarrow> type = WT_HTTP3_FRAME_SETTINGS) \<and>
    (type \<noteq> WT_HTTP3_FRAME_SETTINGS \<longrightarrow>
       wt_http3_control_on_frame c type = (Some (WT_ERR_PROTOCOL, WT_HTTP3_MISSING_SETTINGS), c)) \<and>
    (let c' = snd (wt_http3_control_on_frame c WT_HTTP3_FRAME_SETTINGS) in
     (ps \<noteq> [] \<longrightarrow> fst (control_feed c' ps) =
        (if length (concat ps) \<le> WT_HTTP3_CONTROL_SETTINGS_MAX then settings_answer (concat ps)
         else Some (WT_ERR_LIMIT, WT_HTTP3_EXCESSIVE_LOAD))) \<and>
     (\<forall>t\<in>{WT_HTTP3_FRAME_SETTINGS, WT_HTTP3_FRAME_DATA, WT_HTTP3_FRAME_HEADERS, WT_HTTP3_FRAME_PUSH_PROMISE}.
        fst (wt_http3_control_on_frame (snd (control_feed c' ps)) t) = Some (WT_ERR_PROTOCOL, WT_HTTP3_FRAME_UNEXPECTED)))"
proof -
  define c' where "c' = snd (wt_http3_control_on_frame c WT_HTTP3_FRAME_SETTINGS)"
  have c': "ct_settings_received c'" "\<not> ct_settings_failed c'" "ct_settings_payload c' = []" "ct_opened c'" "\<not> ct_closed c'"
    using assms by (simp_all add: c'_def wt_http3_control_on_frame_def)
  have keep: "ct_settings_received (snd (wt_http3_control_on_frame_payload k ty p l)) = ct_settings_received k \<and>
      ct_opened (snd (wt_http3_control_on_frame_payload k ty p l)) = ct_opened k \<and>
      ct_closed (snd (wt_http3_control_on_frame_payload k ty p l)) = ct_closed k" for k ty p l
    by (simp add: wt_http3_control_on_frame_payload_def Let_def)
  have feed: "ct_settings_received (snd (control_feed k ps)) = ct_settings_received k \<and>
      ct_opened (snd (control_feed k ps)) = ct_opened k \<and> ct_closed (snd (control_feed k ps)) = ct_closed k" for k
  proof (induction k ps rule: control_feed.induct)
    case (3 k p q ps)
    with keep [of k WT_HTTP3_FRAME_SETTINGS p False] show ?case
      by (auto split: prod.splits option.splits)
  qed (simp_all add: keep)
  have later: "fst (wt_http3_control_on_frame (snd (control_feed c' ps)) t) = Some (WT_ERR_PROTOCOL, WT_HTTP3_FRAME_UNEXPECTED)"
    if "t \<in> {WT_HTTP3_FRAME_SETTINGS, WT_HTTP3_FRAME_DATA, WT_HTTP3_FRAME_HEADERS, WT_HTTP3_FRAME_PUSH_PROMISE}" for t
    using that feed [of c'] c' by (auto simp: wt_http3_control_on_frame_def)
  have "fst (control_feed c' ps) =
      (if length (concat ps) \<le> WT_HTTP3_CONTROL_SETTINGS_MAX then settings_answer (concat ps)
       else Some (WT_ERR_LIMIT, WT_HTTP3_EXCESSIVE_LOAD))" if "ps \<noteq> []"
    using control_feed_answer [OF c'(1,2) _ that] c'(3) by simp
  with assms later show ?thesis
    unfolding c'_def [symmetric] Let_def by (auto simp: wt_http3_control_on_frame_def)
qed

end
