(* ===== verification/Webtransport_Request.thy ===== *)
theory Webtransport_Request
  imports Http3_Headers Http3_Control
begin

text \<open>
  Opening a session: the sub-protocol lists of the \<open>wt-protocol\<close> fields (\<open>C99/src/webtransport/protocol.c\<close>) and
  the decision about a CONNECT request (\<open>C99/src/webtransport/session_request.c\<close>). A token is its bytes, a list
  the tokens below its count.
\<close>

subsection \<open>Tokens and lists (protocol.c)\<close>

definition WT_WEBTRANSPORT_PROTOCOL_MAX :: nat where "WT_WEBTRANSPORT_PROTOCOL_MAX = 16"
definition WT_WEBTRANSPORT_PROTOCOL_TOKEN_MAX :: nat where "WT_WEBTRANSPORT_PROTOCOL_TOKEN_MAX = 64"

lemmas protocol_limits = WT_WEBTRANSPORT_PROTOCOL_MAX_def WT_WEBTRANSPORT_PROTOCOL_TOKEN_MAX_def

definition token_byte :: "u8 \<Rightarrow> bool" where
  "token_byte byte \<longleftrightarrow> \<not> (byte < 0x21 \<or> byte > 0x7e \<or> byte = 0x22 \<or> byte = 0x2c \<or> byte = 0x5c)"

definition wt_webtransport_protocol_token_valid :: "u8 list \<Rightarrow> bool" where
  "wt_webtransport_protocol_token_valid token =
     (if length token = 0 \<or> length token > WT_WEBTRANSPORT_PROTOCOL_TOKEN_MAX then False else list_all token_byte token)"

text \<open>The two nested loops: each token is valid and differs from those before it.\<close>

fun validate_loop :: "u8 list list \<Rightarrow> u8 list list \<Rightarrow> wt_status" where
  "validate_loop before [] = WT_OK"
| "validate_loop before (t # ts) =
     (if \<not> wt_webtransport_protocol_token_valid t then WT_ERR_PROTOCOL
      else if t \<in> set before then WT_ERR_PROTOCOL
      else validate_loop (before @ [t]) ts)"

definition wt_webtransport_protocol_validate :: "u8 list list \<Rightarrow> wt_status" where
  "wt_webtransport_protocol_validate ts =
     (if length ts > WT_WEBTRANSPORT_PROTOCOL_MAX then WT_ERR_LIMIT else validate_loop [] ts)"

definition wt_webtransport_protocol_encode_item :: "u8 list \<Rightarrow> wt_writer \<Rightarrow> wt_status \<times> wt_writer" where
  "wt_webtransport_protocol_encode_item token w =
     (if \<not> wt_webtransport_protocol_token_valid token then (WT_ERR_PROTOCOL, w)
      else emit_status [wt_writer_u8 0x22, wt_writer_bytes token, wt_writer_u8 0x22] w)"

fun encode_list_loop :: "bool \<Rightarrow> u8 list list \<Rightarrow> wt_writer \<Rightarrow> wt_status \<times> wt_writer" where
  "encode_list_loop first [] w = (WT_OK, w)"
| "encode_list_loop first (t # ts) w =
     (case wt_webtransport_protocol_encode_item t (if first then w else wt_writer_bytes (ascii '', '') w) of
        (status, w') \<Rightarrow> if status \<noteq> WT_OK then (status, w') else encode_list_loop False ts w')"

definition wt_webtransport_protocol_encode_list :: "u8 list list \<Rightarrow> wt_writer \<Rightarrow> wt_status \<times> wt_writer" where
  "wt_webtransport_protocol_encode_list ts w =
     (let status = wt_webtransport_protocol_validate ts in
      if status \<noteq> WT_OK then (status, w) else encode_list_loop True ts w)"

definition wt_webtransport_protocol_decode_item :: "u8 list \<Rightarrow> u8 list wt_result" where
  "wt_webtransport_protocol_decode_item v =
     (if length v < 2 \<or> hd v \<noteq> 0x22 \<or> last v \<noteq> 0x22 then Inl WT_ERR_PROTOCOL
      else
        let inner = butlast (tl v) in
        if length inner > WT_WEBTRANSPORT_PROTOCOL_TOKEN_MAX then Inl WT_ERR_LIMIT
        else if 0x5c \<in> set inner then Inl WT_ERR_PROTOCOL
        else if 0x22 \<in> set inner then Inl WT_ERR_PROTOCOL
        else if \<not> wt_webtransport_protocol_token_valid inner then Inl WT_ERR_PROTOCOL
        else Inr inner)"

definition skip_space :: "u8 list \<Rightarrow> u8 list" where
  "skip_space = dropWhile (\<lambda>c. c = 0x20 \<or> c = 0x09)"

lemma skip_space_length: "length (skip_space v) \<le> length v"
  by (simp add: skip_space_def length_dropWhile_le)

text \<open>
  The loop over the items, on the bytes from the current position on. \<open>inner\<close> are the bytes up to the closing
  quote and \<open>rest\<close> starts at it.
\<close>

function decode_list_loop :: "u8 list \<Rightarrow> u8 list list \<Rightarrow> u8 list list wt_result" where
  "decode_list_loop v ts =
     (case skip_space v of
        [] \<Rightarrow> Inl WT_ERR_PROTOCOL
      | c # body \<Rightarrow>
          if c \<noteq> 0x22 then Inl WT_ERR_PROTOCOL
          else
            let inner = takeWhile (\<lambda>c. c \<noteq> 0x22) body; rest = dropWhile (\<lambda>c. c \<noteq> 0x22) body in
            if 0x5c \<in> set inner then Inl WT_ERR_PROTOCOL
            else if rest = [] then Inl WT_ERR_PROTOCOL
            else if length ts \<ge> WT_WEBTRANSPORT_PROTOCOL_MAX then Inl WT_ERR_LIMIT
            else if length inner + 2 > WT_WEBTRANSPORT_PROTOCOL_TOKEN_MAX + 2 then Inl WT_ERR_LIMIT
            else
              (case wt_webtransport_protocol_decode_item (0x22 # inner @ [0x22]) of
                Inl status \<Rightarrow> Inl status
              | Inr token \<Rightarrow>
                  (case skip_space (tl rest) of
                     [] \<Rightarrow> Inr (ts @ [token])
                   | d # after \<Rightarrow> if d \<noteq> 0x2c then Inl WT_ERR_PROTOCOL else decode_list_loop after (ts @ [token]))))"
  by pat_completeness auto
termination
proof (relation "measure (\<lambda>(v, ts). length v)")
  fix v ts :: "u8 list" and us c body inner rest token d after
  fix tss :: "u8 list list"
  assume a: "skip_space v = c # body" "rest = dropWhile (\<lambda>c. c \<noteq> 0x22) body" "\<not> rest = []" "skip_space (tl rest) = d # after"
  have "length (d # after) \<le> length (tl rest)" using skip_space_length [of "tl rest"] a(4) by simp
  moreover have "length rest \<le> length body" unfolding a(2) by (rule length_dropWhile_le)
  moreover have "length (c # body) \<le> length v" using skip_space_length [of v] a(1) by simp
  ultimately show "((after, tss @ [token]), v, tss) \<in> measure (\<lambda>(v, ts). length v)" by simp
qed simp

declare decode_list_loop.simps [simp del]

definition wt_webtransport_protocol_decode_list :: "u8 list \<Rightarrow> u8 list list wt_result" where
  "wt_webtransport_protocol_decode_list v =
     (case decode_list_loop v [] of
        Inl status \<Rightarrow> Inl status
      | Inr ts \<Rightarrow> if wt_webtransport_protocol_validate ts \<noteq> WT_OK then Inl (wt_webtransport_protocol_validate ts) else Inr ts)"

text \<open>The first token offered that is supported.\<close>

fun wt_webtransport_protocol_select :: "u8 list list \<Rightarrow> u8 list list \<Rightarrow> u8 list option" where
  "wt_webtransport_protocol_select [] supported = None"
| "wt_webtransport_protocol_select (t # requested) supported =
     (if t \<in> set supported then Some t else wt_webtransport_protocol_select requested supported)"

text \<open>A string is its bytes up to the terminator, \<open>None\<close> a null pointer.\<close>

fun list_from_strings_loop :: "u8 list option list \<Rightarrow> u8 list list \<Rightarrow> wt_status \<times> u8 list list" where
  "list_from_strings_loop [] ts = (WT_OK, ts)"
| "list_from_strings_loop (None # ps) ts = (WT_ERR_INVALID_ARGUMENT, ts)"
| "list_from_strings_loop (Some p # ps) ts =
     (if \<not> wt_webtransport_protocol_token_valid p then (WT_ERR_PROTOCOL, ts) else list_from_strings_loop ps (ts @ [p]))"

definition wt_webtransport_protocol_list_from_strings :: "u8 list option list option \<Rightarrow> nat \<Rightarrow> wt_status \<times> u8 list list" where
  "wt_webtransport_protocol_list_from_strings protocols n =
     (if n = 0 then (WT_OK, [])
      else case protocols of
        None \<Rightarrow> (WT_ERR_INVALID_ARGUMENT, [])
      | Some ps \<Rightarrow>
          if n > WT_WEBTRANSPORT_PROTOCOL_MAX then (WT_ERR_LIMIT, []) else list_from_strings_loop (take n ps) [])"

subsection \<open>The session request (session_request.c)\<close>

definition WT_WEBTRANSPORT_PROTOCOL_TOKEN :: "u8 list" where "WT_WEBTRANSPORT_PROTOCOL_TOKEN = ascii ''webtransport-h3''"
definition WT_WEBTRANSPORT_PROTOCOL_TOKEN_LEGACY :: "u8 list" where "WT_WEBTRANSPORT_PROTOCOL_TOKEN_LEGACY = ascii ''webtransport''"
definition WT_HTTP3_SETTING_WT_ENABLED :: u64 where "WT_HTTP3_SETTING_WT_ENABLED = 0x2c7cf000"
definition WT_HTTP3_SETTING_WT_MAX_SESSIONS :: u64 where "WT_HTTP3_SETTING_WT_MAX_SESSIONS = 0xc671706a"
definition WT_HTTP3_SETTING_WT_ENABLE_DEPRECATED :: u64 where "WT_HTTP3_SETTING_WT_ENABLE_DEPRECATED = 0x2b603742"
definition WT_HTTP3_SETTING_WT_MAX_SESSIONS_DEPRECATED :: u64 where "WT_HTTP3_SETTING_WT_MAX_SESSIONS_DEPRECATED = 0x2b603743"
definition WT_HTTP3_SETTING_WT_INITIAL_MAX_DATA :: u64 where "WT_HTTP3_SETTING_WT_INITIAL_MAX_DATA = 0x2b61"
definition WT_HTTP3_SETTING_WT_INITIAL_MAX_STREAMS_UNI :: u64 where "WT_HTTP3_SETTING_WT_INITIAL_MAX_STREAMS_UNI = 0x2b64"
definition WT_HTTP3_SETTING_WT_INITIAL_MAX_STREAMS_BIDI :: u64 where "WT_HTTP3_SETTING_WT_INITIAL_MAX_STREAMS_BIDI = 0x2b65"
definition WT_WEBTRANSPORT_REJECT_NOT_FOUND :: u32 where "WT_WEBTRANSPORT_REJECT_NOT_FOUND = 404"
definition WT_WEBTRANSPORT_REJECT_NOT_IMPLEMENTED :: u32 where "WT_WEBTRANSPORT_REJECT_NOT_IMPLEMENTED = 501"
definition WT_WEBTRANSPORT_REJECT_PROTOCOL_REQUIRED :: u32 where "WT_WEBTRANSPORT_REJECT_PROTOCOL_REQUIRED = 400"

lemmas wt_settings = WT_HTTP3_SETTING_WT_ENABLED_def WT_HTTP3_SETTING_WT_MAX_SESSIONS_def
  WT_HTTP3_SETTING_WT_ENABLE_DEPRECATED_def WT_HTTP3_SETTING_WT_MAX_SESSIONS_DEPRECATED_def
  WT_HTTP3_SETTING_WT_INITIAL_MAX_DATA_def WT_HTTP3_SETTING_WT_INITIAL_MAX_STREAMS_UNI_def
  WT_HTTP3_SETTING_WT_INITIAL_MAX_STREAMS_BIDI_def

datatype wt_webtransport_upgrade_token = WT_WEBTRANSPORT_UPGRADE_TOKEN_DRAFT16 | WT_WEBTRANSPORT_UPGRADE_TOKEN_LEGACY

definition wt_webtransport_upgrade_token_value :: "wt_webtransport_upgrade_token \<Rightarrow> u8 list" where
  "wt_webtransport_upgrade_token_value token =
     (if token = WT_WEBTRANSPORT_UPGRADE_TOKEN_LEGACY then WT_WEBTRANSPORT_PROTOCOL_TOKEN_LEGACY
      else WT_WEBTRANSPORT_PROTOCOL_TOKEN)"

text \<open>The parts of a decoded message that the decision reads; an absent pseudo-header is empty.\<close>

record wt_http3_message =
  ms_type :: wt_http3_header_message
  ms_method :: "u8 list"
  ms_scheme :: "u8 list"
  ms_path :: "u8 list"
  ms_authority :: "u8 list"
  ms_protocol :: "u8 list"

datatype wt_webtransport_request_outcome =
    WT_WEBTRANSPORT_REQUEST_ACCEPT
  | WT_WEBTRANSPORT_REQUEST_NOT_WEBTRANSPORT
  | WT_WEBTRANSPORT_REQUEST_REJECT

record wt_webtransport_request_policy =
  po_authority :: "u8 list option"
  po_path :: "u8 list option"
  po_wt_enabled :: bool

record wt_webtransport_session_request =
  sr_outcome :: wt_webtransport_request_outcome
  sr_authority :: "u8 list"
  sr_path :: "u8 list"
  sr_status :: u32
  sr_selected_protocol :: "u8 list option"

definition lower :: "u8 \<Rightarrow> u8" where
  "lower c = (if 0x41 \<le> c \<and> c \<le> 0x5a then c + 32 else c)"

definition scheme_is_https :: "u8 list \<Rightarrow> bool" where
  "scheme_is_https bytes = (if length bytes \<noteq> 5 then False else map lower bytes = ascii ''https'')"

text \<open>The position of the last occurrence of a byte, searched from the end.\<close>

fun last_index :: "u8 \<Rightarrow> u8 list \<Rightarrow> nat option" where
  "last_index c [] = None"
| "last_index c (b # bs) =
     (case last_index c bs of Some i \<Rightarrow> Some (Suc i) | None \<Rightarrow> if b = c then Some 0 else None)"

definition authority_matches :: "u8 list \<Rightarrow> u8 list option \<Rightarrow> bool" where
  "authority_matches bytes expected =
     (if expected = None \<or> expected = Some [] then True
      else
        let bracket = last_index 0x5d bytes;
            host_length = (case last_index 0x3a bytes of
              None \<Rightarrow> length bytes
            | Some i \<Rightarrow> if bracket = None \<or> i > the bracket then i else length bytes)
        in Some (take host_length bytes) = expected)"

text \<open>The settings are set one after the other; the first failure is returned.\<close>

fun settings_apply_all :: "wt_http3_settings \<Rightarrow> (u64 \<times> u64) list \<Rightarrow> wt_status \<times> wt_http3_settings" where
  "settings_apply_all settings [] = (WT_OK, settings)"
| "settings_apply_all settings ((i, v) # es) =
     (case wt_http3_settings_set settings i v of
        (status, s') \<Rightarrow> if status \<noteq> WT_OK then (status, s') else settings_apply_all s' es)"

definition wt_webtransport_settings_apply :: "wt_http3_settings \<Rightarrow> bool \<Rightarrow> wt_status \<times> wt_http3_settings" where
  "wt_webtransport_settings_apply settings is_server =
     settings_apply_all settings
       ([(WT_HTTP3_SETTING_H3_DATAGRAM, 1), (WT_HTTP3_SETTING_WT_ENABLED, 1),
         (WT_HTTP3_SETTING_WT_INITIAL_MAX_DATA, 100000), (WT_HTTP3_SETTING_WT_INITIAL_MAX_STREAMS_BIDI, 8),
         (WT_HTTP3_SETTING_WT_INITIAL_MAX_STREAMS_UNI, 8), (WT_HTTP3_SETTING_WT_MAX_SESSIONS, 1),
         (WT_HTTP3_SETTING_WT_ENABLE_DEPRECATED, 1)] @
        (if is_server
         then [(WT_HTTP3_SETTING_WT_MAX_SESSIONS_DEPRECATED, 1), (WT_HTTP3_SETTING_ENABLE_CONNECT_PROTOCOL, 1)] else []))"

definition wt_webtransport_session_request_validate ::
  "wt_http3_message \<Rightarrow> wt_webtransport_request_policy \<Rightarrow> wt_webtransport_session_request" where
  "wt_webtransport_session_request_validate message policy =
     (let out = \<lparr>sr_outcome = WT_WEBTRANSPORT_REQUEST_ACCEPT, sr_authority = [], sr_path = [],
                 sr_status = WT_WEBTRANSPORT_REJECT_NOT_FOUND, sr_selected_protocol = None\<rparr>;
          reject = (\<lambda>status. out\<lparr>sr_outcome := WT_WEBTRANSPORT_REQUEST_REJECT, sr_status := status\<rparr>)
      in if ms_type message \<noteq> WT_HTTP3_HEADER_REQUEST \<or> ms_method message \<noteq> ascii ''CONNECT''
         then out\<lparr>sr_outcome := WT_WEBTRANSPORT_REQUEST_NOT_WEBTRANSPORT\<rparr>
         else if length (ms_protocol message) = 0 \<or>
                 \<not> (ms_protocol message = WT_WEBTRANSPORT_PROTOCOL_TOKEN \<or> ms_protocol message = WT_WEBTRANSPORT_PROTOCOL_TOKEN_LEGACY)
         then out\<lparr>sr_outcome := WT_WEBTRANSPORT_REQUEST_NOT_WEBTRANSPORT\<rparr>
         else if length (ms_scheme message) = 0 \<or> length (ms_authority message) = 0 \<or> length (ms_path message) = 0
         then reject WT_WEBTRANSPORT_REJECT_NOT_FOUND
         else if \<not> scheme_is_https (ms_scheme message) then reject WT_WEBTRANSPORT_REJECT_NOT_FOUND
         else if \<not> po_wt_enabled policy then reject WT_WEBTRANSPORT_REJECT_NOT_IMPLEMENTED
         else if \<not> authority_matches (ms_authority message) (po_authority policy) \<or>
                 (po_path policy \<noteq> None \<and> po_path policy \<noteq> Some [] \<and> Some (ms_path message) \<noteq> po_path policy)
         then reject WT_WEBTRANSPORT_REJECT_NOT_FOUND
         else out\<lparr>sr_outcome := WT_WEBTRANSPORT_REQUEST_ACCEPT, sr_authority := ms_authority message, sr_path := ms_path message\<rparr>)"

definition wt_webtransport_session_request_negotiate ::
  "wt_webtransport_session_request \<Rightarrow> u8 list list \<Rightarrow> u8 list list \<Rightarrow> bool \<Rightarrow> wt_status \<times> wt_webtransport_session_request" where
  "wt_webtransport_session_request_negotiate decision offered supported require_selection =
     (if wt_webtransport_protocol_validate offered \<noteq> WT_OK then (wt_webtransport_protocol_validate offered, decision)
      else if wt_webtransport_protocol_validate supported \<noteq> WT_OK then (wt_webtransport_protocol_validate supported, decision)
      else if sr_outcome decision \<noteq> WT_WEBTRANSPORT_REQUEST_ACCEPT then (WT_OK, decision)
      else case wt_webtransport_protocol_select offered supported of
        Some selected \<Rightarrow> (WT_OK, decision\<lparr>sr_selected_protocol := Some selected\<rparr>)
      | None \<Rightarrow>
          if require_selection
          then (WT_OK, decision\<lparr>sr_outcome := WT_WEBTRANSPORT_REQUEST_REJECT,
                       sr_status := WT_WEBTRANSPORT_REJECT_PROTOCOL_REQUIRED, sr_selected_protocol := None\<rparr>)
          else (WT_OK, decision))"

definition wt_webtransport_session_response_selected_protocol :: "u8 list \<Rightarrow> u8 list list \<Rightarrow> u8 list wt_result" where
  "wt_webtransport_session_response_selected_protocol v offered =
     (case wt_webtransport_protocol_decode_item v of
        Inl status \<Rightarrow> Inl status
      | Inr selected \<Rightarrow> if selected \<in> set offered then Inr selected else Inl WT_ERR_PROTOCOL)"

subsection \<open>The list syntax\<close>

definition item_bytes :: "u8 list \<Rightarrow> u8 list" where
  "item_bytes t = 0x22 # t @ [0x22]"

fun list_bytes :: "bool \<Rightarrow> u8 list list \<Rightarrow> u8 list" where
  "list_bytes first [] = []"
| "list_bytes first (t # ts) = (if first then [] else ascii '', '') @ item_bytes t @ list_bytes False ts"

fun list_pieces :: "bool \<Rightarrow> u8 list list \<Rightarrow> (wt_writer \<Rightarrow> wt_writer) list" where
  "list_pieces first [] = []"
| "list_pieces first (t # ts) =
     (if first then [] else [wt_writer_bytes (ascii '', '')]) @ [wt_writer_u8 0x22, wt_writer_bytes t, wt_writer_u8 0x22] @ list_pieces False ts"

lemma emit_append: "emit (fs @ gs) w = emit gs (emit fs w)"
  by (simp add: emit_def)

lemma writes_u8 [simp]: "writes (wt_writer_u8 b) [b]"
  by (simp add: wt_writer_u8_def)

lemma writes_list_pieces: "writes (emit (list_pieces first ts)) (list_bytes first ts)"
proof -
  have "\<exists>bss. list_all2 writes (list_pieces first ts) bss \<and> concat bss = list_bytes first ts"
  proof (induction ts arbitrary: first)
    case (Cons t ts)
    from Cons.IH [of False] obtain bss where b: "list_all2 writes (list_pieces False ts) bss" "concat bss = list_bytes False ts"
      by blast
    show ?case
      by (rule exI [of _ "(if first then [] else [ascii '', '']) @ [[0x22], t, [0x22]] @ bss"]) (simp add: b item_bytes_def)
  qed simp
  then show ?thesis using writes_emit by metis
qed

lemma encode_list_loop_emits:
  assumes "list_all wt_webtransport_protocol_token_valid ts" "writer_inv w" "wt_writer_ok w"
  shows "(fst (encode_list_loop first ts w) = WT_OK \<longleftrightarrow> wt_writer_ok (emit (list_pieces first ts) w)) \<and>
    (fst (encode_list_loop first ts w) = WT_OK \<longrightarrow> snd (encode_list_loop first ts w) = emit (list_pieces first ts) w)"
  using assms
proof (induction ts arbitrary: first w)
  case (Cons t ts)
  let ?w0 = "if first then w else wt_writer_bytes (ascii '', '') w"
  let ?w1 = "emit [wt_writer_u8 0x22, wt_writer_bytes t, wt_writer_u8 0x22] ?w0"
  have w0: "writer_inv ?w0" using Cons.prems(2) writes_safe(1) [OF writes_bytes] by simp
  have item: "writes (emit [wt_writer_u8 0x22, wt_writer_bytes t, wt_writer_u8 0x22]) (concat [[0x22], t, [0x22]])"
    by (rule writes_emit) simp
  have w1: "writer_inv ?w1" by (rule writes_safe(1) [OF item w0])
  have enc: "wt_webtransport_protocol_encode_item t ?w0 = (writer_status ?w1, ?w1)"
    using Cons.prems(1) by (simp add: wt_webtransport_protocol_encode_item_def emit_status_def Let_def)
  have all: "emit (list_pieces first (t # ts)) w = emit (list_pieces False ts) ?w1"
    by (cases first) simp_all
  show ?case
  proof (cases "wt_writer_ok ?w1")
    case True
    then have "encode_list_loop first (t # ts) w = encode_list_loop False ts ?w1"
      using enc by (simp add: writer_status_def del: emit_simps)
    with Cons.IH [OF _ w1 True, of False] Cons.prems(1) show ?thesis unfolding all by simp
  next
    case False
    then have "fst (encode_list_loop first (t # ts) w) \<noteq> WT_OK"
      using enc by (simp add: writer_status_def del: emit_simps)
    moreover have "emit (list_pieces False ts) ?w1 = ?w1"
      using writesD [OF writes_list_pieces w1] False by (simp add: wt_writer_ok_def del: emit_simps)
    ultimately show ?thesis using False unfolding all by simp
  qed
qed simp

lemma validate_loop_ok: "validate_loop before ts = WT_OK \<longleftrightarrow>
    list_all wt_webtransport_protocol_token_valid ts \<and> distinct ts \<and> set before \<inter> set ts = {}"
  by (induction ts arbitrary: before) auto

lemma protocol_validate_ok: "wt_webtransport_protocol_validate ts = WT_OK \<longleftrightarrow>
    length ts \<le> 16 \<and> list_all wt_webtransport_protocol_token_valid ts \<and> distinct ts"
  by (auto simp: wt_webtransport_protocol_validate_def validate_loop_ok protocol_limits)

lemma token_valid_facts:
  assumes "wt_webtransport_protocol_token_valid t"
  shows "0x22 \<notin> set t" "0x5c \<notin> set t" "length t \<le> 64" "0 < length t"
  using assms by (auto simp: wt_webtransport_protocol_token_valid_def token_byte_def list_all_iff protocol_limits split: if_splits)

lemma decode_item_of: "wt_webtransport_protocol_token_valid t \<Longrightarrow> wt_webtransport_protocol_decode_item (item_bytes t) = Inr t"
  using token_valid_facts [of t] by (simp add: wt_webtransport_protocol_decode_item_def item_bytes_def Let_def protocol_limits)

lemma decode_item_Inr:
  assumes "wt_webtransport_protocol_decode_item v = Inr t"
  shows "v = item_bytes t \<and> wt_webtransport_protocol_token_valid t"
proof -
  from assms have v: "2 \<le> length v" "hd v = 0x22" "last v = 0x22" "t = butlast (tl v)" "wt_webtransport_protocol_token_valid t"
    by (auto simp: wt_webtransport_protocol_decode_item_def Let_def split: if_splits)
  obtain a r where r: "v = a # r" "r \<noteq> []" using v(1) by (cases v; cases "tl v") simp_all
  have "butlast r @ [last r] = r" using r(2) by simp
  moreover have "last r = 0x22" "t = butlast r" "a = 0x22" using v(2-4) r by simp_all
  ultimately show ?thesis using v(5) r(1) by (simp add: item_bytes_def)
qed

lemma skip_space_quote: "skip_space (0x22 # v) = 0x22 # v" "skip_space (0x2c # v) = 0x2c # v" "skip_space (0x20 # v) = skip_space v"
  by (simp_all add: skip_space_def)

lemma decode_list_of:
  assumes "list_all wt_webtransport_protocol_token_valid ts" "ts \<noteq> []" "length (acc @ ts) \<le> 16"
    "skip_space v = list_bytes True ts"
  shows "decode_list_loop v acc = Inr (acc @ ts)"
  using assms
proof (induction ts arbitrary: v acc)
  case (Cons t ts)
  note t = token_valid_facts [of t] decode_item_of [of t]
  have valid: "wt_webtransport_protocol_token_valid t" using Cons.prems(1) by simp
  have sp: "skip_space v = 0x22 # (t @ 0x22 # list_bytes False ts)" using Cons.prems(4) by (simp add: item_bytes_def)
  have tw: "takeWhile (\<lambda>c. c \<noteq> 0x22) (t @ 0x22 # r) = t" "dropWhile (\<lambda>c. c \<noteq> 0x22) (t @ 0x22 # r) = 0x22 # r" for r
    using t(1) valid by (auto simp: takeWhile_append dropWhile_append)
  have step: "decode_list_loop v acc = (case skip_space (list_bytes False ts) of [] \<Rightarrow> Inr (acc @ [t])
      | d # after \<Rightarrow> if d \<noteq> 0x2c then Inl WT_ERR_PROTOCOL else decode_list_loop after (acc @ [t]))"
    using Cons.prems(3) t valid
    by (subst decode_list_loop.simps) (simp add: sp tw Let_def protocol_limits item_bytes_def [symmetric])
  show ?case
  proof (cases ts)
    case Nil
    then show ?thesis by (simp add: step skip_space_def)
  next
    case (Cons t2 ts2)
    have "skip_space (list_bytes False ts) = 0x2c # 0x20 # list_bytes True ts"
      by (simp add: Cons ascii_def skip_space_quote)
    moreover have "skip_space (0x20 # list_bytes True ts) = list_bytes True ts"
      by (simp add: Cons item_bytes_def skip_space_quote)
    ultimately show ?thesis
      using Cons.IH [of "acc @ [t]" "0x20 # list_bytes True ts"] Cons.prems Cons by (simp add: step)
  qed
qed simp

lemma select_find: "wt_webtransport_protocol_select offered supported = find (\<lambda>t. t \<in> set supported) offered"
  by (induction offered) simp_all

lemma select_none: "wt_webtransport_protocol_select offered supported = None \<longleftrightarrow> set offered \<inter> set supported = {}"
  by (induction offered) auto

text \<open>What an endpoint announces about itself: every setting is accepted, and only a server announces the extended
  CONNECT.\<close>

lemma wt_webtransport_settings_announced:
  "case wt_webtransport_settings_apply wt_http3_settings_init is_server of (status, settings) \<Rightarrow>
     status = WT_OK \<and> wt_http3_settings_get settings WT_HTTP3_SETTING_H3_DATAGRAM = (1, True) \<and>
     wt_http3_settings_get settings WT_HTTP3_SETTING_WT_ENABLED = (1, True) \<and>
     wt_http3_settings_get settings WT_HTTP3_SETTING_WT_INITIAL_MAX_DATA = (100000, True) \<and>
     wt_http3_settings_get settings WT_HTTP3_SETTING_ENABLE_CONNECT_PROTOCOL = (if is_server then (1, True) else (0, False))"
  by (simp add: wt_webtransport_settings_apply_def wt_http3_settings_set_def wt_http3_settings_init_def wt_settings
      wt_http3_settings_get_def wt_http3_setting_is_reserved_http2_def WT_HTTP3_SETTING_H3_DATAGRAM_def
      WT_HTTP3_SETTING_ENABLE_CONNECT_PROTOCOL_def WT_HTTP3_SETTINGS_MAX_ENTRIES_def WT_QUIC_VARINT_MAX_def)

subsection \<open>Properties\<close>

text \<open>A list of sub-protocols survives the field it travels in. A valid list, at most sixteen different tokens
  of one to 64 visible bytes without quote, comma or backslash, is written exactly when the buffer holds its
  bytes, and what was written decodes to the same list in the same order; whatever a decoded list holds is valid
  again, so both ends negotiate over lists that pass the same check.\<close>

lemma wt_webtransport_protocol_list_round_trip:
  assumes "wt_webtransport_protocol_validate ts = WT_OK" "ts \<noteq> []" "unat cap \<le> length d"
    "wt_webtransport_protocol_encode_list ts (wt_writer_init (Some d) cap) = (st, w)"
  shows "(st = WT_OK \<longleftrightarrow> length (list_bytes True ts) \<le> unat cap) \<and>
    (st = WT_OK \<longrightarrow> wt_webtransport_protocol_decode_list (writer_out w) = Inr ts) \<and>
    (\<forall>v us. wt_webtransport_protocol_decode_list v = Inr us \<longrightarrow> wt_webtransport_protocol_validate us = WT_OK)"
proof -
  let ?w = "wt_writer_init (Some d) cap"
  have ok: "length ts \<le> 16" "list_all wt_webtransport_protocol_token_valid ts" using assms(1) by (simp_all add: protocol_validate_ok)
  have w: "writer_inv ?w" "wt_writer_ok ?w"
    using assms(3) by (simp_all add: writer_inv_def wt_writer_init_def wt_writer_ok_def)
  note loop = encode_list_loop_emits [OF ok(2) w, of True] and out = writes_init [OF writes_list_pieces assms(3), of True ts]
  have enc: "encode_list_loop True ts ?w = (st, w)"
    using assms(1,4) by (simp add: wt_webtransport_protocol_encode_list_def)
  have "decode_list_loop (list_bytes True ts) [] = Inr ([] @ ts)"
    using ok assms(2) by (intro decode_list_of) (cases ts; simp add: item_bytes_def skip_space_quote)+
  then have dec: "wt_webtransport_protocol_decode_list (list_bytes True ts) = Inr ts"
    using assms(1) by (simp add: wt_webtransport_protocol_decode_list_def)
  have "st = WT_OK \<longleftrightarrow> length (list_bytes True ts) \<le> unat cap" using loop enc out(1) by simp
  moreover have "wt_webtransport_protocol_decode_list (writer_out w) = Inr ts" if "st = WT_OK"
    using loop enc out(1,2) that dec by simp
  moreover have "wt_webtransport_protocol_validate us = WT_OK" if "wt_webtransport_protocol_decode_list v = Inr us" for v us
    using that by (auto simp: wt_webtransport_protocol_decode_list_def split: sum.splits if_splits)
  ultimately show ?thesis by blast
qed

text \<open>C23: Both ends agree on the sub-protocol. When the server has accepted a request and negotiates it, the
  selected token is the first one the client offered that the server supports; the field value the server writes
  for it is accepted by the client that made this offer, with the same token; a value the client accepts always
  names a token it offered; and when nothing matches, the request is refused with 400 if a selection is required
  and goes on without one otherwise.\<close>

theorem wt_webtransport_negotiation_agrees:
  assumes "sr_outcome decision = WT_WEBTRANSPORT_REQUEST_ACCEPT" "sr_selected_protocol decision = None"
    "wt_webtransport_session_request_negotiate decision offered supported required = (WT_OK, d')"
  shows "(case sr_selected_protocol d' of
      Some t \<Rightarrow>
        (\<exists>i<length offered. offered ! i = t \<and> t \<in> set supported \<and> (\<forall>j<i. offered ! j \<notin> set supported)) \<and>
        sr_outcome d' = WT_WEBTRANSPORT_REQUEST_ACCEPT \<and>
        wt_webtransport_session_response_selected_protocol (item_bytes t) offered = Inr t \<and>
        writes (\<lambda>w. snd (wt_webtransport_protocol_encode_item t w)) (item_bytes t)
    | None \<Rightarrow>
        set offered \<inter> set supported = {} \<and>
        (if required then sr_outcome d' = WT_WEBTRANSPORT_REQUEST_REJECT \<and> sr_status d' = 400 else d' = decision)) \<and>
    (\<forall>v t. wt_webtransport_session_response_selected_protocol v offered = Inr t \<longrightarrow> t \<in> set offered \<and> v = item_bytes t)"
proof -
  have v: "wt_webtransport_protocol_validate offered = WT_OK" "wt_webtransport_protocol_validate supported = WT_OK"
    using assms(3) by (auto simp: wt_webtransport_session_request_negotiate_def split: if_splits)
  have client: "\<forall>v t. wt_webtransport_session_response_selected_protocol v offered = Inr t \<longrightarrow> t \<in> set offered \<and> v = item_bytes t"
    using decode_item_Inr
    by (auto simp: wt_webtransport_session_response_selected_protocol_def split: sum.splits if_splits)
  show ?thesis
  proof (cases "wt_webtransport_protocol_select offered supported")
    case None
    then have "d' = (if required then decision\<lparr>sr_outcome := WT_WEBTRANSPORT_REQUEST_REJECT,
        sr_status := WT_WEBTRANSPORT_REJECT_PROTOCOL_REQUIRED, sr_selected_protocol := None\<rparr> else decision)"
      using assms(1,3) v by (simp add: wt_webtransport_session_request_negotiate_def split: if_splits)
    with None select_none [of offered supported] assms(2) show ?thesis
      by - (rule conjI, simp add: WT_WEBTRANSPORT_REJECT_PROTOCOL_REQUIRED_def, rule client)
  next
    case (Some t)
    then have d': "d' = decision\<lparr>sr_selected_protocol := Some t\<rparr>"
      using assms(1,3) v by (simp add: wt_webtransport_session_request_negotiate_def)
    from Some obtain i where i: "i < length offered" "offered ! i \<in> set supported" "t = offered ! i"
      "\<forall>j<i. offered ! j \<notin> set supported" unfolding select_find find_Some_iff by blast
    have "t \<in> set offered" using i by simp
    with v(1) have t: "wt_webtransport_protocol_token_valid t" by (auto simp: protocol_validate_ok list_all_iff)
    have "writes (\<lambda>w. snd (emit_status [wt_writer_u8 0x22, wt_writer_bytes t, wt_writer_u8 0x22] w)) (concat [[0x22], t, [0x22]])"
      by (rule emit_status_writes) simp
    then have "writes (\<lambda>w. snd (wt_webtransport_protocol_encode_item t w)) (item_bytes t)"
      using t by (simp add: wt_webtransport_protocol_encode_item_def item_bytes_def)
    moreover have "wt_webtransport_session_response_selected_protocol (item_bytes t) offered = Inr t"
      using decode_item_of [OF t] \<open>t \<in> set offered\<close> by (simp add: wt_webtransport_session_response_selected_protocol_def)
    moreover have "\<exists>i<length offered. offered ! i = t \<and> t \<in> set supported \<and> (\<forall>j<i. offered ! j \<notin> set supported)"
      using i by blast
    ultimately show ?thesis using d' assms(1) by - (rule conjI, simp, rule client)
  qed
qed

theorem wt_webtransport_negotiation_agrees_witness:
  "\<exists>d'. wt_webtransport_session_request_negotiate
     \<lparr>sr_outcome = WT_WEBTRANSPORT_REQUEST_ACCEPT, sr_authority = [], sr_path = [], sr_status = 404, sr_selected_protocol = None\<rparr>
     [ascii ''b'', ascii ''a''] [ascii ''a'', ascii ''b''] True = (WT_OK, d') \<and>
     sr_selected_protocol d' = Some (ascii ''b'') \<and>
     wt_webtransport_session_response_selected_protocol (item_bytes (ascii ''b'')) [ascii ''b'', ascii ''a''] = Inr (ascii ''b'')"
proof -
  let ?d = "\<lparr>sr_outcome = WT_WEBTRANSPORT_REQUEST_ACCEPT, sr_authority = [], sr_path = [], sr_status = 404, sr_selected_protocol = None\<rparr>"
  let ?o = "[ascii ''b'', ascii ''a'']" and ?s = "[ascii ''a'', ascii ''b'']"
  have v: "wt_webtransport_protocol_validate ?o = WT_OK" "wt_webtransport_protocol_validate ?s = WT_OK"
    by (simp_all add: protocol_validate_ok wt_webtransport_protocol_token_valid_def token_byte_def ascii_def protocol_limits)
  then have n: "wt_webtransport_session_request_negotiate ?d ?o ?s True = (WT_OK, ?d\<lparr>sr_selected_protocol := Some (ascii ''b'')\<rparr>)"
    by (simp add: wt_webtransport_session_request_negotiate_def)
  from wt_webtransport_negotiation_agrees [OF _ _ n] n show ?thesis by simp
qed

text \<open>Which requests open a session. A request is left to other handlers exactly when it is not a CONNECT for one
  of the two WebTransport tokens. Among the others it is accepted, with the authority and path it named, exactly
  when it has an https scheme, an authority and a path, the server has announced WebTransport, the host part of
  the authority is the configured one and the path is the configured one, where an absent or empty configuration
  admits everything; a refusal is 501 exactly when a well-formed request meets a server that has not announced
  WebTransport, and 404 otherwise.\<close>

lemma wt_webtransport_request_decision:
  fixes m :: wt_http3_message and p :: wt_webtransport_request_policy
  defines "wt \<equiv> ms_type m = WT_HTTP3_HEADER_REQUEST \<and> ms_method m = ascii ''CONNECT'' \<and>
      ms_protocol m \<in> {ascii ''webtransport-h3'', ascii ''webtransport''}"
    and "formed \<equiv> map lower (ms_scheme m) = ascii ''https'' \<and> ms_authority m \<noteq> [] \<and> ms_path m \<noteq> []"
    and "served \<equiv> authority_matches (ms_authority m) (po_authority p) \<and> po_path p \<in> {None, Some [], Some (ms_path m)}"
    and "out \<equiv> wt_webtransport_session_request_validate m p"
  shows "sr_outcome out =
      (if \<not> wt then WT_WEBTRANSPORT_REQUEST_NOT_WEBTRANSPORT
       else if formed \<and> po_wt_enabled p \<and> served then WT_WEBTRANSPORT_REQUEST_ACCEPT
       else WT_WEBTRANSPORT_REQUEST_REJECT) \<and>
    sr_status out = (if wt \<and> formed \<and> \<not> po_wt_enabled p then 501 else 404) \<and>
    (if sr_outcome out = WT_WEBTRANSPORT_REQUEST_ACCEPT then sr_authority out = ms_authority m \<and> sr_path out = ms_path m
     else sr_authority out = [] \<and> sr_path out = [])"
proof -
  have https: "ms_scheme m \<noteq> [] \<and> scheme_is_https (ms_scheme m) \<longleftrightarrow> map lower (ms_scheme m) = ascii ''https''"
  proof -
    have "length (ms_scheme m) = 5" if "map lower (ms_scheme m) = ascii ''https''"
      using arg_cong [OF that, of length] by (simp add: ascii_def)
    then show ?thesis by (auto simp: scheme_is_https_def)
  qed
  have tok: "ms_protocol m = [] \<or> \<not> (ms_protocol m = WT_WEBTRANSPORT_PROTOCOL_TOKEN \<or> ms_protocol m = WT_WEBTRANSPORT_PROTOCOL_TOKEN_LEGACY)
      \<longleftrightarrow> ms_protocol m \<notin> {ascii ''webtransport-h3'', ascii ''webtransport''}"
    by (auto simp: WT_WEBTRANSPORT_PROTOCOL_TOKEN_def WT_WEBTRANSPORT_PROTOCOL_TOKEN_LEGACY_def ascii_def)
  have path: "po_path p \<noteq> None \<and> po_path p \<noteq> Some [] \<and> Some (ms_path m) \<noteq> po_path p \<longleftrightarrow> po_path p \<notin> {None, Some [], Some (ms_path m)}"
    by auto
  have formed: "formed \<longleftrightarrow> \<not> (ms_scheme m = [] \<or> ms_authority m = [] \<or> ms_path m = []) \<and> scheme_is_https (ms_scheme m)"
    using https by (auto simp: formed_def)
  have wt: "wt \<longleftrightarrow> \<not> (ms_type m \<noteq> WT_HTTP3_HEADER_REQUEST \<or> ms_method m \<noteq> ascii ''CONNECT'') \<and>
      \<not> (ms_protocol m = [] \<or> \<not> (ms_protocol m = WT_WEBTRANSPORT_PROTOCOL_TOKEN \<or> ms_protocol m = WT_WEBTRANSPORT_PROTOCOL_TOKEN_LEGACY))"
    unfolding tok wt_def by blast
  have served: "served \<longleftrightarrow> \<not> (\<not> authority_matches (ms_authority m) (po_authority p) \<or>
      (po_path p \<noteq> None \<and> po_path p \<noteq> Some [] \<and> Some (ms_path m) \<noteq> po_path p))"
    unfolding path served_def by blast
  show ?thesis
    unfolding wt formed served out_def wt_webtransport_session_request_validate_def Let_def length_0_conv
    by (simp only: if_split_asm split: if_split)
      (simp add: WT_WEBTRANSPORT_REJECT_NOT_FOUND_def WT_WEBTRANSPORT_REJECT_NOT_IMPLEMENTED_def)
qed

end
