(* ===== verification/Utf8.thy ===== *)
theory Utf8
  imports Wire_Core
begin

text \<open>
  The check of the close reason, \<open>utf8_is_well_formed\<close> of \<open>C99/src/webtransport/capsule.c\<close>, and its
  equivalence with the definition of UTF-8: the loop accepts exactly the concatenations of encoded
  Unicode scalar values.
\<close>

text \<open>The lead byte fixes how many continuation bytes follow and the first bits of the code point.\<close>

definition utf8_lead :: "u8 \<Rightarrow> (nat \<times> u32) option" where
  "utf8_lead lead =
     (if lead AND 0xe0 = 0xc0 then Some (1, ucast (lead AND 0x1f))
      else if lead AND 0xf0 = 0xe0 then Some (2, ucast (lead AND 0x0f))
      else if lead AND 0xf8 = 0xf0 then Some (3, ucast (lead AND 0x07))
      else None)"

definition utf8_push :: "u32 \<Rightarrow> u8 \<Rightarrow> u32" where
  "utf8_push v b = push_bit 6 v OR ucast (b AND 0x3f)"

text \<open>The continuation bytes added to the value, or \<open>None\<close> at one that is not \<open>10xxxxxx\<close>.\<close>

fun utf8_continue :: "u32 \<Rightarrow> u8 list \<Rightarrow> u32 option" where
  "utf8_continue v [] = Some v"
| "utf8_continue v (b # bs) =
     (if b AND 0xc0 \<noteq> 0x80 then None else utf8_continue (utf8_push v b) bs)"

definition utf8_scalar_ok :: "nat \<Rightarrow> u32 \<Rightarrow> bool" where
  "utf8_scalar_ok extra v =
     (if extra = 1 \<and> v < 0x80 then False
      else if extra = 2 \<and> v < 0x800 then False
      else if extra = 3 \<and> v < 0x10000 then False
      else if v \<ge> 0xd800 \<and> v \<le> 0xdfff then False
      else if v > 0x10ffff then False
      else True)"

function utf8_is_well_formed :: "u8 list \<Rightarrow> bool" where
  "utf8_is_well_formed [] = True"
| "utf8_is_well_formed (lead # bs) =
     (if lead < 0x80 then utf8_is_well_formed bs
      else case utf8_lead lead of
        None \<Rightarrow> False
      | Some (extra, v) \<Rightarrow>
          if length (lead # bs) < extra + 1 then False
          else (case utf8_continue v (take extra bs) of
                  None \<Rightarrow> False
                | Some v' \<Rightarrow> if \<not> utf8_scalar_ok extra v' then False else utf8_is_well_formed (drop extra bs)))"
  by pat_completeness auto
termination by (relation "measure length") auto

declare utf8_is_well_formed.simps(2) [simp del]

subsection \<open>The encoding\<close>

text \<open>The reference: Unicode scalar values and their encoding (RFC 3629).\<close>

definition unicode_scalar :: "nat \<Rightarrow> bool" where
  "unicode_scalar cp \<longleftrightarrow> cp \<le> 0x10FFFF \<and> \<not> (0xD800 \<le> cp \<and> cp \<le> 0xDFFF)"

definition utf8_encode :: "nat \<Rightarrow> u8 list" where
  "utf8_encode cp =
     map of_nat
       (if cp < 0x80 then [cp]
        else if cp < 0x800 then [192 + cp div 64, 128 + cp mod 64]
        else if cp < 0x10000 then [224 + cp div 4096, 128 + cp div 64 mod 64, 128 + cp mod 64]
        else [240 + cp div 262144, 128 + cp div 4096 mod 64, 128 + cp div 64 mod 64, 128 + cp mod 64])"

lemma unat_and_high: "unat (w AND NOT (mask k) :: 'a::len word) = unat w - unat w mod 2 ^ k"
proof -
  have "w AND NOT (mask k) = push_bit k (drop_bit k w)"
    by (rule bit_eqI) (auto simp: bit_simps)
  then have sum: "(w AND NOT (mask k)) + take_bit k w = w"
    using bits_ident [of k w] by simp
  then have "w AND NOT (mask k) = w - take_bit k w" by (simp add: eq_diff_eq)
  moreover have "unat (take_bit k w) = take_bit k (unat w)" by (rule unsigned_take_bit_eq)
  then have t: "unat (take_bit k w) = unat w mod 2 ^ k" by (simp only: take_bit_eq_mod)
  then have "take_bit k w \<le> w" by (simp only: word_le_nat_alt mod_less_eq_dividend)
  ultimately show ?thesis by (simp add: unat_sub t)
qed

text \<open>Clearing or keeping the low bits splits the numbers into blocks of a power of two.\<close>

lemma block_start:
  fixes x k q :: nat
  assumes "0 < k"
  shows "x - x mod k = k * q \<longleftrightarrow> k * q \<le> x \<and> x < k * q + k"
proof -
  have "x - x mod k = k * q \<longleftrightarrow> x div k = q"
    using assms by (simp add: minus_mod_eq_mult_div)
  also have "\<dots> \<longleftrightarrow> k * q \<le> x \<and> x < k * q + k"
    using assms dividend_less_times_div [of k x] by (auto intro: div_nat_eqI simp: mult.commute)
  finally show ?thesis .
qed

lemma block_offset: "k * q \<le> x \<Longrightarrow> x < k * q + k \<Longrightarrow> x mod k = x - k * q" for x k q :: nat
  by (metis add_diff_inverse_nat add_less_cancel_left linorder_not_less mod_less mod_mult_self4)

lemma byte_classes:
  fixes b :: u8
  shows "b AND 0xe0 = 0xc0 \<longleftrightarrow> 192 \<le> unat b \<and> unat b < 224"
    "b AND 0xf0 = 0xe0 \<longleftrightarrow> 224 \<le> unat b \<and> unat b < 240"
    "b AND 0xf8 = 0xf0 \<longleftrightarrow> 240 \<le> unat b \<and> unat b < 248"
    "b AND 0xc0 = 0x80 \<longleftrightarrow> 128 \<le> unat b \<and> unat b < 192"
proof -
  have m: "(0xe0 :: u8) = NOT (mask 5)" "(0xf0 :: u8) = NOT (mask 4)" "(0xf8 :: u8) = NOT (mask 3)" "(0xc0 :: u8) = NOT (mask 6)"
    by (simp_all add: mask_eq_exp_minus_1)
  have "unat b - unat b mod 32 = 192 \<longleftrightarrow> 192 \<le> unat b \<and> unat b < 224"
    "unat b - unat b mod 16 = 224 \<longleftrightarrow> 224 \<le> unat b \<and> unat b < 240"
    "unat b - unat b mod 8 = 240 \<longleftrightarrow> 240 \<le> unat b \<and> unat b < 248"
    "unat b - unat b mod 64 = 128 \<longleftrightarrow> 128 \<le> unat b \<and> unat b < 192"
    using block_start [of 32 "unat b" 6] block_start [of 16 "unat b" 14] block_start [of 8 "unat b" 30]
      block_start [of 64 "unat b" 2] by simp_all
  then show "b AND 0xe0 = 0xc0 \<longleftrightarrow> 192 \<le> unat b \<and> unat b < 224"
    "b AND 0xf0 = 0xe0 \<longleftrightarrow> 224 \<le> unat b \<and> unat b < 240"
    "b AND 0xf8 = 0xf0 \<longleftrightarrow> 240 \<le> unat b \<and> unat b < 248"
    "b AND 0xc0 = 0x80 \<longleftrightarrow> 128 \<le> unat b \<and> unat b < 192"
    using unat_and_high [of b 5] unat_and_high [of b 4] unat_and_high [of b 3] unat_and_high [of b 6]
    by (simp_all only: word_unat_eq_iff m [symmetric]) simp_all
qed

lemma unat_low_bits:
  fixes b :: u8
  shows "unat (ucast (b AND 0x1f) :: u32) = unat b mod 32" "unat (ucast (b AND 0x0f) :: u32) = unat b mod 16"
    "unat (ucast (b AND 0x07) :: u32) = unat b mod 8" "unat (ucast (b AND 0x3f) :: u32) = unat b mod 64"
proof -
  have low: "unat (ucast (b AND mask k) :: u32) = unat b mod 2 ^ k" for k
  proof -
    have "unat (b AND mask k) = take_bit k (unat b)"
      by (simp only: take_bit_eq_mask [symmetric] unsigned_take_bit_eq)
    then show ?thesis by (simp add: unat_ucast_u8 take_bit_eq_mod)
  qed
  show "unat (ucast (b AND 0x1f) :: u32) = unat b mod 32" "unat (ucast (b AND 0x0f) :: u32) = unat b mod 16"
    "unat (ucast (b AND 0x07) :: u32) = unat b mod 8" "unat (ucast (b AND 0x3f) :: u32) = unat b mod 64"
    using low [of 5] low [of 4] low [of 3] low [of 6] by (simp_all add: mask_eq_exp_minus_1)
qed

lemma utf8_continue_step:
  fixes v :: u32 and b :: u8
  assumes "unat v < 1048576"
  shows "unat (utf8_push v b) = unat v * 64 + unat b mod 64"
proof -
  have sh: "unat (push_bit 6 v) = unat v * 64"
    using assms by (simp add: push_bit_eq_mult unat_word_ariths)
  have "push_bit 6 v AND ucast (b AND 0x3f) = 0"
  proof (rule bit_eqI)
    fix n
    have m: "(0x3f :: u8) = mask 6" by (simp add: mask_eq_exp_minus_1)
    show "bit (push_bit 6 v AND ucast (b AND 0x3f)) n = bit (0::u32) n"
      unfolding m by (auto simp: bit_simps)
  qed
  then have "push_bit 6 v OR ucast (b AND 0x3f) = push_bit 6 v + ucast (b AND 0x3f)"
    by (simp add: disjunctive_add_eq_or)
  moreover have "unat (push_bit 6 v + ucast (b AND 0x3f) :: u32) = unat v * 64 + unat b mod 64"
    using sh assms unat_low_bits(4) [of b] mod_less_divisor [of 64 "unat b"]
    by (subst unat_word_ariths) (simp del: mod_less_divisor)
  ultimately show ?thesis by (simp add: utf8_push_def)
qed

definition continuation :: "u8 \<Rightarrow> bool" where
  "continuation b \<longleftrightarrow> 128 \<le> unat b \<and> unat b < 192"

lemma digit64: "r < 64 \<Longrightarrow> (x * 64 + r) div 64 = x" "r < 64 \<Longrightarrow> (x * 64 + r) mod 64 = r" for x r :: nat
  by simp_all

lemma continuationE: "continuation b \<Longrightarrow> \<exists>n<64. unat b = 128 + n"
  by (rule exI [of _ "unat b - 128"]) (auto simp: continuation_def)

lemma utf8_continue_Cons:
  "utf8_continue v (b # bs) = (if continuation b then utf8_continue (utf8_push v b) bs else None)"
  by (simp add: continuation_def byte_classes(4))

lemma continuation_mod: "continuation b \<Longrightarrow> unat b mod 64 = unat b - 128"
  using block_offset [of 64 2 "unat b"] by (simp add: continuation_def)

text \<open>What the loop does on each class of lead byte, in natural numbers.\<close>

lemma utf8_multi:
  assumes "128 \<le> unat lead" "utf8_lead lead = Some (extra, v)"
  shows "utf8_is_well_formed (lead # bs) \<longleftrightarrow> extra \<le> length bs \<and>
    (\<exists>v'. utf8_continue v (take extra bs) = Some v' \<and> utf8_scalar_ok extra v' \<and> utf8_is_well_formed (drop extra bs))"
  using assms by (auto simp: utf8_is_well_formed.simps(2) word_less_nat_alt split: option.splits)

lemma utf8_two:
  assumes "192 \<le> unat lead" "unat lead < 224"
  shows "utf8_is_well_formed (lead # bs) \<longleftrightarrow>
    (\<exists>b rest. bs = b # rest \<and> continuation b \<and> 128 \<le> (unat lead - 192) * 64 + (unat b - 128) \<and> utf8_is_well_formed rest)"
proof -
  let ?v = "ucast (lead AND 0x1f) :: u32"
  have v: "unat ?v = unat lead - 192" unfolding unat_low_bits using assms block_offset [of 32 6] by simp
  have w: "unat (utf8_push ?v b) = (unat lead - 192) * 64 + (unat b - 128)" if "continuation b" for b
    using utf8_continue_step [of ?v b] assms that by (simp add: v continuation_mod)
  have ok: "utf8_scalar_ok 1 x \<longleftrightarrow> 128 \<le> unat x" if "unat x < 2048" for x
    using that by (simp add: utf8_scalar_ok_def word_less_nat_alt word_le_nat_alt)
  have "utf8_lead lead = Some (1, ?v)" using assms by (simp add: utf8_lead_def byte_classes)
  note m = utf8_multi [OF _ this, of bs]
  show ?thesis
  proof (cases bs)
    case (Cons b rest)
    have "unat (utf8_push ?v b) < 2048" if "continuation b"
      unfolding w [OF that] using assms that unfolding continuation_def by linarith
    with m assms w ok show ?thesis
      by (auto simp: Cons utf8_continue_Cons simp del: utf8_continue.simps(2))
  qed (use m assms in auto)
qed

lemma utf8_three:
  assumes "224 \<le> unat lead" "unat lead < 240"
  defines "val b c \<equiv> (unat lead - 224) * 4096 + (unat b - 128) * 64 + (unat c - 128)"
  shows "utf8_is_well_formed (lead # bs) \<longleftrightarrow>
    (\<exists>b c rest. bs = b # c # rest \<and> continuation b \<and> continuation c \<and> 2048 \<le> val b c \<and> unicode_scalar (val b c) \<and>
       utf8_is_well_formed rest)"
proof -
  let ?v = "ucast (lead AND 0x0f) :: u32"
  let ?f = utf8_push
  have v: "unat ?v = unat lead - 224" unfolding unat_low_bits using assms(1,2) block_offset [of 16 14] by simp
  have w1: "unat (?f ?v b) = (unat lead - 224) * 64 + (unat b - 128)" if "continuation b" for b
    using utf8_continue_step [of ?v b] assms(1,2) that by (simp add: v continuation_mod)
  have w: "unat (?f (?f ?v b) c) = val b c" if "continuation b" "continuation c" for b c
  proof -
    have "unat (?f ?v b) < 1048576" unfolding w1 [OF that(1)] using assms(1,2) that unfolding continuation_def by linarith
    then show ?thesis by (simp add: utf8_continue_step w1 that continuation_mod val_def)
  qed
  have ok: "utf8_scalar_ok 2 x \<longleftrightarrow> 2048 \<le> unat x \<and> unicode_scalar (unat x)" if "unat x < 65536" for x
    using that by (auto simp: utf8_scalar_ok_def word_less_nat_alt word_le_nat_alt unicode_scalar_def)
  have lt: "val b c < 65536" if "continuation b" "continuation c" for b c
    using assms(1,2) that unfolding continuation_def val_def by linarith
  have "utf8_lead lead = Some (2, ?v)" using assms(1,2) by (simp add: utf8_lead_def byte_classes)
  note m = utf8_multi [OF _ this, of bs]
  show ?thesis
  proof (cases "2 \<le> length bs")
    case True
    then obtain b c rest where bs: "bs = b # c # rest"
      by (cases bs; cases "tl bs") auto
    have "utf8_is_well_formed (lead # bs) \<longleftrightarrow>
      continuation b \<and> continuation c \<and> utf8_scalar_ok 2 (?f (?f ?v b) c) \<and> utf8_is_well_formed rest"
      using m assms(1) by (auto simp: bs utf8_continue_Cons numeral_2_eq_2 simp del: utf8_continue.simps(2))
    with ok [of "?f (?f ?v b) c"] w lt show ?thesis by (auto simp: bs)
  qed (use m assms(1) in auto)
qed

lemma utf8_four:
  assumes "240 \<le> unat lead" "unat lead < 248"
  defines "val b c d \<equiv> (unat lead - 240) * 262144 + (unat b - 128) * 4096 + (unat c - 128) * 64 + (unat d - 128)"
  shows "utf8_is_well_formed (lead # bs) \<longleftrightarrow>
    (\<exists>b c d rest. bs = b # c # d # rest \<and> continuation b \<and> continuation c \<and> continuation d \<and> 65536 \<le> val b c d \<and>
       unicode_scalar (val b c d) \<and> utf8_is_well_formed rest)"
proof -
  let ?v = "ucast (lead AND 0x07) :: u32"
  let ?f = utf8_push
  have v: "unat ?v = unat lead - 240" unfolding unat_low_bits using assms(1,2) block_offset [of 8 30] by simp
  have w1: "unat (?f ?v b) = (unat lead - 240) * 64 + (unat b - 128)" if "continuation b" for b
    using utf8_continue_step [of ?v b] assms(1,2) that by (simp add: v continuation_mod)
  have w2: "unat (?f (?f ?v b) c) = (unat lead - 240) * 4096 + (unat b - 128) * 64 + (unat c - 128)"
    if "continuation b" "continuation c" for b c
  proof -
    have "unat (?f ?v b) < 1048576" unfolding w1 [OF that(1)] using assms(1,2) that unfolding continuation_def by linarith
    then show ?thesis by (simp add: utf8_continue_step w1 that continuation_mod)
  qed
  have w: "unat (?f (?f (?f ?v b) c) d) = val b c d" if "continuation b" "continuation c" "continuation d" for b c d
  proof -
    have "unat (?f (?f ?v b) c) < 1048576"
      unfolding w2 [OF that(1,2)] using assms(1,2) that unfolding continuation_def by linarith
    then show ?thesis by (simp add: utf8_continue_step w2 that continuation_mod val_def)
  qed
  have ok: "utf8_scalar_ok 3 x \<longleftrightarrow> 65536 \<le> unat x \<and> unicode_scalar (unat x)" for x
    by (auto simp: utf8_scalar_ok_def word_less_nat_alt word_le_nat_alt unicode_scalar_def)
  have "utf8_lead lead = Some (3, ?v)" using assms(1,2) by (simp add: utf8_lead_def byte_classes)
  note m = utf8_multi [OF _ this, of bs]
  show ?thesis
  proof (cases "3 \<le> length bs")
    case True
    then obtain b c d rest where bs: "bs = b # c # d # rest"
      by (cases bs; cases "tl bs"; cases "tl (tl bs)") auto
    have "utf8_is_well_formed (lead # bs) \<longleftrightarrow> continuation b \<and> continuation c \<and> continuation d \<and>
        utf8_scalar_ok 3 (?f (?f (?f ?v b) c) d) \<and> utf8_is_well_formed rest"
      using m assms(1) by (auto simp: bs utf8_continue_Cons numeral_3_eq_3 simp del: utf8_continue.simps(2))
    with ok [of "?f (?f (?f ?v b) c) d"] w show ?thesis by (auto simp: bs)
  qed (use m assms(1) in auto)
qed

lemma byte_eq_nat: "n < 256 \<Longrightarrow> (b :: u8) = of_nat n \<longleftrightarrow> unat b = n"
  by (metis unat_u8_of_nat_mod mod_less word_unat_eq_iff)

lemma utf8_encode_cases:
  "cp < 128 \<Longrightarrow> utf8_encode cp = [of_nat cp]"
  "128 \<le> cp \<Longrightarrow> cp < 2048 \<Longrightarrow> utf8_encode cp = [of_nat (192 + cp div 64), of_nat (128 + cp mod 64)]"
  "2048 \<le> cp \<Longrightarrow> cp < 65536 \<Longrightarrow>
     utf8_encode cp = [of_nat (224 + cp div 4096), of_nat (128 + cp div 64 mod 64), of_nat (128 + cp mod 64)]"
  "65536 \<le> cp \<Longrightarrow> utf8_encode cp = [of_nat (240 + cp div 262144), of_nat (128 + cp div 4096 mod 64),
     of_nat (128 + cp div 64 mod 64), of_nat (128 + cp mod 64)]"
  by (simp_all add: utf8_encode_def del: of_nat_add)

lemma unat_of_small: "n < 256 \<Longrightarrow> unat (of_nat n :: u8) = n"
  using byte_eq_nat [of n "of_nat n"] by simp

lemma continuation_of: "continuation (of_nat (128 + k mod 64))" "unat (of_nat (128 + k mod 64) :: u8) = 128 + k mod 64"
proof -
  have "k mod 64 < 64" by simp
  then show u: "unat (of_nat (128 + k mod 64) :: u8) = 128 + k mod 64" by (intro unat_of_small) linarith
  show "continuation (of_nat (128 + k mod 64))"
    unfolding continuation_def u using \<open>k mod 64 < 64\<close> by linarith
qed

text \<open>One step of the loop takes exactly one encoded scalar value off the string.\<close>

lemma utf8_step_encode:
  assumes "unicode_scalar cp"
  shows "utf8_is_well_formed (utf8_encode cp @ rest) \<longleftrightarrow> utf8_is_well_formed rest"
proof -
  consider "cp < 128" | "128 \<le> cp" "cp < 2048" | "2048 \<le> cp" "cp < 65536" | "65536 \<le> cp" by linarith
  then show ?thesis
  proof cases
    case 1
    then show ?thesis
      by (simp add: utf8_encode_cases utf8_is_well_formed.simps(2) word_less_nat_alt unat_of_small)
  next
    case 2
    have lt: "192 + cp div 64 < 224" using 2 by (simp add: less_mult_imp_div_less)
    then have u: "unat (of_nat (192 + cp div 64) :: u8) = 192 + cp div 64" by (intro unat_of_small) linarith
    have "cp div 64 * 64 + cp mod 64 = cp" by simp
    with 2 show ?thesis
      using utf8_two [of "of_nat (192 + cp div 64)" "of_nat (128 + cp mod 64) # rest"] lt
      by (simp add: utf8_encode_cases u continuation_of del: of_nat_add)
  next
    case 3
    have lt: "224 + cp div 4096 < 240" using 3 by (simp add: less_mult_imp_div_less)
    then have u: "unat (of_nat (224 + cp div 4096) :: u8) = 224 + cp div 4096" by (intro unat_of_small) linarith
    have d: "cp div 4096 = cp div 64 div 64" using div_mult2_eq [of cp 64 64] by simp
    have "cp div 4096 * 4096 + cp div 64 mod 64 * 64 + cp mod 64 = cp"
      unfolding d using mult_div_mod_eq [of 64 "cp div 64"] mult_div_mod_eq [of 64 cp] by linarith
    with 3 assms show ?thesis
      using utf8_three [of "of_nat (224 + cp div 4096)" "of_nat (128 + cp div 64 mod 64) # of_nat (128 + cp mod 64) # rest"] lt
      by (simp add: utf8_encode_cases u continuation_of del: of_nat_add)
  next
    case 4
    have lt: "240 + cp div 262144 < 248" using assms by (simp add: unicode_scalar_def less_mult_imp_div_less)
    then have u: "unat (of_nat (240 + cp div 262144) :: u8) = 240 + cp div 262144" by (intro unat_of_small) linarith
    have d: "cp div 4096 = cp div 64 div 64" "cp div 262144 = cp div 64 div 64 div 64"
      using div_mult2_eq [of cp 64 64] div_mult2_eq [of cp 4096 64] by simp_all
    have "cp div 262144 * 262144 + cp div 4096 mod 64 * 4096 + cp div 64 mod 64 * 64 + cp mod 64 = cp"
      unfolding d using mult_div_mod_eq [of 64 "cp div 64 div 64"] mult_div_mod_eq [of 64 "cp div 64"]
        mult_div_mod_eq [of 64 cp] by linarith
    with 4 assms show ?thesis
      using utf8_four [of "of_nat (240 + cp div 262144)" "of_nat (128 + cp div 4096 mod 64) #
          of_nat (128 + cp div 64 mod 64) # of_nat (128 + cp mod 64) # rest"] lt
      by (simp add: utf8_encode_cases u continuation_of del: of_nat_add)
  qed
qed

lemma utf8_step_decode:
  assumes "utf8_is_well_formed (lead # bs)"
  shows "\<exists>cp rest. unicode_scalar cp \<and> lead # bs = utf8_encode cp @ rest \<and> length rest \<le> length bs"
proof -
  have byte: "of_nat n = b" if "unat b = n" for n and b :: u8
    using that by (metis word_of_nat_eqI)
  have some: "utf8_lead lead \<noteq> None" if "128 \<le> unat lead"
    using assms that by (cases "utf8_lead lead") (simp_all add: utf8_is_well_formed.simps(2) word_less_nat_alt)
  have none: "utf8_lead lead = None"
    if "\<not> (192 \<le> unat lead \<and> unat lead < 224)" "\<not> (224 \<le> unat lead \<and> unat lead < 240)"
      "\<not> (240 \<le> unat lead \<and> unat lead < 248)"
    using that by (simp only: utf8_lead_def byte_classes if_False)
  consider "unat lead < 128" | "192 \<le> unat lead" "unat lead < 224" | "224 \<le> unat lead" "unat lead < 240"
    | "240 \<le> unat lead" "unat lead < 248"
    using some none by (meson not_le_imp_less)
  then show ?thesis
  proof cases
    case 1
    then have "utf8_encode (unat lead) = [lead]" "unicode_scalar (unat lead)"
      by (simp_all add: utf8_encode_cases unicode_scalar_def)
    then show ?thesis by (intro exI [of _ "unat lead"] exI [of _ bs]) simp
  next
    case 2
    from utf8_two [OF 2, of bs] assms obtain b rest where b: "bs = b # rest" "continuation b"
      "128 \<le> (unat lead - 192) * 64 + (unat b - 128)" by blast
    let ?cp = "(unat lead - 192) * 64 + (unat b - 128)"
    obtain q n where c: "unat lead = 192 + q" "unat b = 128 + n" "n < 64"
      using 2 continuationE [OF b(2)] le_Suc_ex by metis
    have "192 + ?cp div 64 = unat lead" "128 + ?cp mod 64 = unat b" using c by simp_all
    moreover have "?cp < 2048" using 2 c by simp
    ultimately have "utf8_encode ?cp = [lead, b]" "unicode_scalar ?cp"
      using b(3) by (simp_all add: utf8_encode_cases(2) byte unicode_scalar_def del: of_nat_add)
    then show ?thesis unfolding b(1) by (intro exI [of _ ?cp] exI [of _ rest]) simp
  next
    case 3
    from utf8_three [OF 3, of bs] assms obtain b c rest where b: "bs = b # c # rest" "continuation b" "continuation c"
      "2048 \<le> (unat lead - 224) * 4096 + (unat b - 128) * 64 + (unat c - 128)"
      "unicode_scalar ((unat lead - 224) * 4096 + (unat b - 128) * 64 + (unat c - 128))" by blast
    let ?cp = "(unat lead - 224) * 4096 + (unat b - 128) * 64 + (unat c - 128)"
    obtain q n m where c: "unat lead = 224 + q" "unat b = 128 + n" "n < 64" "unat c = 128 + m" "m < 64"
      using 3 continuationE [OF b(2)] continuationE [OF b(3)] le_Suc_ex by metis
    have eq: "?cp = (q * 64 + n) * 64 + m" using c by simp
    have "?cp div 64 = q * 64 + n" "?cp mod 64 = m" unfolding eq using c by (simp_all only: digit64)
    moreover from this have "?cp div 4096 = q" using c div_mult2_eq [of ?cp 64 64] by simp
    ultimately have e: "224 + ?cp div 4096 = unat lead" "128 + ?cp div 64 mod 64 = unat b" "128 + ?cp mod 64 = unat c"
      using c by simp_all
    have "?cp < 65536" using 3 c by simp
    then have "utf8_encode ?cp = [lead, b, c]"
      by (simp only: utf8_encode_cases(3) [OF b(4)] e byte [OF refl])
    with b(5) show ?thesis unfolding b(1) by (intro exI [of _ ?cp] exI [of _ rest]) simp
  next
    case 4
    from utf8_four [OF 4, of bs] assms obtain b c d rest
      where b: "bs = b # c # d # rest" "continuation b" "continuation c" "continuation d"
      "65536 \<le> (unat lead - 240) * 262144 + (unat b - 128) * 4096 + (unat c - 128) * 64 + (unat d - 128)"
      "unicode_scalar ((unat lead - 240) * 262144 + (unat b - 128) * 4096 + (unat c - 128) * 64 + (unat d - 128))" by blast
    let ?cp = "(unat lead - 240) * 262144 + (unat b - 128) * 4096 + (unat c - 128) * 64 + (unat d - 128)"
    obtain q n m k where c: "unat lead = 240 + q" "unat b = 128 + n" "n < 64" "unat c = 128 + m" "m < 64"
      "unat d = 128 + k" "k < 64"
      using 4 continuationE [OF b(2)] continuationE [OF b(3)] continuationE [OF b(4)] le_Suc_ex by metis
    have eq: "?cp = ((q * 64 + n) * 64 + m) * 64 + k" using c by simp
    have e: "?cp div 64 = (q * 64 + n) * 64 + m" "?cp mod 64 = k" unfolding eq using c by (simp_all only: digit64)
    have d: "?cp div 4096 = ?cp div 64 div 64" "?cp div 262144 = ?cp div 4096 div 64"
      using div_mult2_eq [of ?cp 64 64] div_mult2_eq [of ?cp 4096 64] by simp_all
    have f: "?cp div 4096 = q * 64 + n" "?cp div 64 mod 64 = m" using c unfolding d(1) e by (simp_all only: digit64)
    have "?cp div 262144 = q" "?cp div 4096 mod 64 = n" using c unfolding d(2) f by (simp_all only: digit64)
    with e f c have g: "240 + ?cp div 262144 = unat lead" "128 + ?cp div 4096 mod 64 = unat b"
      "128 + ?cp div 64 mod 64 = unat c" "128 + ?cp mod 64 = unat d" by (simp_all only:)
    have "utf8_encode ?cp = [lead, b, c, d]"
      by (simp only: utf8_encode_cases(4) [OF b(5)] g byte [OF refl])
    with b(6) show ?thesis unfolding b(1) by (intro exI [of _ ?cp] exI [of _ rest]) simp
  qed
qed

lemma utf8_well_formed_iff:
  "utf8_is_well_formed bs \<longleftrightarrow> (\<exists>cps. list_all unicode_scalar cps \<and> bs = concat (map utf8_encode cps))"
proof
  show "\<exists>cps. list_all unicode_scalar cps \<and> bs = concat (map utf8_encode cps)" if "utf8_is_well_formed bs"
    using that
  proof (induction "length bs" arbitrary: bs rule: less_induct)
    case less
    show ?case
    proof (cases bs)
      case Nil
      then show ?thesis by (intro exI [of _ "[]"]) simp
    next
      case (Cons lead rest')
      from utf8_step_decode [of lead rest'] less.prems Cons
      obtain cp rest where r: "unicode_scalar cp" "bs = utf8_encode cp @ rest" "length rest < length bs"
        by (metis le_imp_less_Suc length_Cons)
      moreover from this less.prems have "utf8_is_well_formed rest" by (simp add: utf8_step_encode)
      ultimately obtain cps where "list_all unicode_scalar cps" "rest = concat (map utf8_encode cps)"
        using less.hyps [of rest] by blast
      with r show ?thesis by (intro exI [of _ "cp # cps"]) simp
    qed
  qed
next
  show "utf8_is_well_formed bs" if "\<exists>cps. list_all unicode_scalar cps \<and> bs = concat (map utf8_encode cps)"
  proof -
    from that obtain cps where "list_all unicode_scalar cps" "bs = concat (map utf8_encode cps)" by blast
    then show ?thesis by (induction cps arbitrary: bs) (simp_all add: utf8_step_encode)
  qed
qed

end
