(* ===== verification/Webtransport_Framing.thy ===== *)
theory Webtransport_Framing
  imports Http3_Frame Utf8
begin

text \<open>
  WebTransport on HTTP/3: the error code mapping, the stream and datagram prefixes and the capsules of the
  CONNECT stream (\<open>C99/src/webtransport/error.c\<close>, \<open>framing.c\<close>, \<open>capsule.c\<close>).
\<close>

subsection \<open>Error codes (error.c)\<close>

definition WT_WEBTRANSPORT_ERROR_STRIDE_OUT :: u64 where "WT_WEBTRANSPORT_ERROR_STRIDE_OUT = 0x1e"
definition WT_WEBTRANSPORT_ERROR_STRIDE_IN :: u64 where "WT_WEBTRANSPORT_ERROR_STRIDE_IN = 0x1f"
definition WT_WEBTRANSPORT_ERROR_RESERVED_RESIDUE :: u64 where "WT_WEBTRANSPORT_ERROR_RESERVED_RESIDUE = 0x21"
definition WT_WEBTRANSPORT_APPLICATION_ERROR_FIRST :: u64 where
  "WT_WEBTRANSPORT_APPLICATION_ERROR_FIRST = 0x52e4a40fa8db"
definition WT_WEBTRANSPORT_APPLICATION_ERROR_LAST :: u64 where
  "WT_WEBTRANSPORT_APPLICATION_ERROR_LAST = 0x52e5ac983162"
definition WT_WEBTRANSPORT_ERROR_FLOW_CONTROL :: u64 where "WT_WEBTRANSPORT_ERROR_FLOW_CONTROL = 0x045d4487"

lemmas wt_error_constants = WT_WEBTRANSPORT_ERROR_STRIDE_OUT_def WT_WEBTRANSPORT_ERROR_STRIDE_IN_def
  WT_WEBTRANSPORT_ERROR_RESERVED_RESIDUE_def WT_WEBTRANSPORT_APPLICATION_ERROR_FIRST_def
  WT_WEBTRANSPORT_APPLICATION_ERROR_LAST_def

definition wt_webtransport_error_is_application_range :: "u64 \<Rightarrow> bool" where
  "wt_webtransport_error_is_application_range e =
     (if e < WT_WEBTRANSPORT_APPLICATION_ERROR_FIRST \<or> e > WT_WEBTRANSPORT_APPLICATION_ERROR_LAST then False
      else if (e - WT_WEBTRANSPORT_ERROR_RESERVED_RESIDUE) mod WT_WEBTRANSPORT_ERROR_STRIDE_IN = 0 then False
      else True)"

definition wt_webtransport_error_to_http3 :: "u32 \<Rightarrow> u64" where
  "wt_webtransport_error_to_http3 application_error =
     (let v = ucast application_error
      in WT_WEBTRANSPORT_APPLICATION_ERROR_FIRST + v + v div WT_WEBTRANSPORT_ERROR_STRIDE_OUT)"

definition wt_webtransport_error_from_http3 :: "u64 \<Rightarrow> u32 wt_result" where
  "wt_webtransport_error_from_http3 e =
     (if \<not> wt_webtransport_error_is_application_range e then Inl WT_ERR_INVALID_ARGUMENT
      else
        let shifted = e - WT_WEBTRANSPORT_APPLICATION_ERROR_FIRST
        in Inr (ucast (shifted - shifted div WT_WEBTRANSPORT_ERROR_STRIDE_IN)))"

subsection \<open>Stream and datagram prefixes (framing.c)\<close>

definition WT_WEBTRANSPORT_STREAM_BIDI :: u64 where "WT_WEBTRANSPORT_STREAM_BIDI = 0x41"
definition WT_WEBTRANSPORT_STREAM_UNI :: u64 where "WT_WEBTRANSPORT_STREAM_UNI = 0x54"

definition wt_webtransport_is_session_stream_id :: "u64 \<Rightarrow> bool" where
  "wt_webtransport_is_session_stream_id stream_id \<longleftrightarrow> stream_id AND 0x03 = 0"

definition wt_webtransport_session_id_from_quarter :: "u64 \<Rightarrow> u64" where
  "wt_webtransport_session_id_from_quarter q = q * 4"

definition wt_webtransport_quarter_stream_id :: "u64 \<Rightarrow> u64" where
  "wt_webtransport_quarter_stream_id session_id = session_id div 4"

definition wt_webtransport_stream_prefix_write :: "bool \<Rightarrow> u64 \<Rightarrow> wt_writer \<Rightarrow> wt_status \<times> wt_writer" where
  "wt_webtransport_stream_prefix_write unidirectional session_id w =
     (if \<not> wt_webtransport_is_session_stream_id session_id then (WT_ERR_INVALID_ARGUMENT, w)
      else emit_status [put_varint (if unidirectional then WT_WEBTRANSPORT_STREAM_UNI else WT_WEBTRANSPORT_STREAM_BIDI),
                        put_varint session_id] w)"

text \<open>Whether the stream is unidirectional, and its session.\<close>

definition wt_webtransport_stream_prefix_parse :: "(http3_fail, bool \<times> u64) xreader" where
  "wt_webtransport_stream_prefix_parse =
     rbind (varint_or (WT_ERR_TRUNCATED, WT_HTTP3_NO_ERROR)) (\<lambda>type.
     if type \<noteq> WT_WEBTRANSPORT_STREAM_BIDI \<and> type \<noteq> WT_WEBTRANSPORT_STREAM_UNI
     then rfail (WT_ERR_PROTOCOL, WT_HTTP3_FRAME_UNEXPECTED)
     else
       rbind (varint_or (WT_ERR_TRUNCATED, WT_HTTP3_NO_ERROR)) (\<lambda>session_id.
       if \<not> wt_webtransport_is_session_stream_id session_id then rfail (WT_ERR_PROTOCOL, WT_HTTP3_ID_ERROR)
       else rreturn (type = WT_WEBTRANSPORT_STREAM_UNI, session_id)))"

definition wt_webtransport_datagram_write :: "u64 \<Rightarrow> u8 list \<Rightarrow> wt_writer \<Rightarrow> wt_status \<times> wt_writer" where
  "wt_webtransport_datagram_write quarter payload w =
     (if quarter > WT_QUIC_VARINT_MAX then (WT_ERR_INVALID_ARGUMENT, w)
      else emit_status ([put_varint quarter] @ (if length payload \<noteq> 0 then [wt_writer_bytes payload] else [])) w)"

definition wt_webtransport_datagram_parse :: "u8 list option \<Rightarrow> u64 \<Rightarrow> http3_fail + (u64 \<times> u8 list)" where
  "wt_webtransport_datagram_parse data len =
     (if data = None \<and> len \<noteq> 0 then Inl (WT_ERR_INVALID_ARGUMENT, WT_HTTP3_NO_ERROR)
      else case wt_quic_varint_decode (wt_cursor_init data len) of
        (Inl _, c) \<Rightarrow> Inl (WT_ERR_PROTOCOL, WT_HTTP3_DATAGRAM_ERROR)
      | (Inr quarter, c) \<Rightarrow>
          if quarter > (- 1) div 4 then Inl (WT_ERR_PROTOCOL, WT_HTTP3_DATAGRAM_ERROR)
          else Inr (quarter, case wt_cursor_rest c of (rest, n) \<Rightarrow> take (unat (wt_cursor_remaining c)) (case rest of None \<Rightarrow> [] | Some bs \<Rightarrow> bs)))"

subsection \<open>Capsules (capsule.c)\<close>

definition WT_CAPSULE_DRAIN_SESSION :: u64 where "WT_CAPSULE_DRAIN_SESSION = 0x78ae"
definition WT_CAPSULE_CLOSE_WEBTRANSPORT_SESSION :: u64 where "WT_CAPSULE_CLOSE_WEBTRANSPORT_SESSION = 0x2843"
definition WT_CAPSULE_MAX_DATA :: u64 where "WT_CAPSULE_MAX_DATA = 0x190b4d3d"
definition WT_CAPSULE_MAX_STREAM_DATA :: u64 where "WT_CAPSULE_MAX_STREAM_DATA = 0x190b4d3e"
definition WT_CAPSULE_MAX_STREAMS_BIDI :: u64 where "WT_CAPSULE_MAX_STREAMS_BIDI = 0x190b4d3f"
definition WT_CAPSULE_MAX_STREAMS_UNI :: u64 where "WT_CAPSULE_MAX_STREAMS_UNI = 0x190b4d40"
definition WT_CAPSULE_DATA_BLOCKED :: u64 where "WT_CAPSULE_DATA_BLOCKED = 0x190b4d41"
definition WT_CAPSULE_STREAM_DATA_BLOCKED :: u64 where "WT_CAPSULE_STREAM_DATA_BLOCKED = 0x190b4d42"
definition WT_CAPSULE_STREAMS_BLOCKED_BIDI :: u64 where "WT_CAPSULE_STREAMS_BLOCKED_BIDI = 0x190b4d43"
definition WT_CAPSULE_STREAMS_BLOCKED_UNI :: u64 where "WT_CAPSULE_STREAMS_BLOCKED_UNI = 0x190b4d44"
definition WT_CAPSULE_CLOSE_MAX_REASON :: nat where "WT_CAPSULE_CLOSE_MAX_REASON = 1024"
definition WT_WEBTRANSPORT_MAX_STREAMS_VALUE :: u64 where "WT_WEBTRANSPORT_MAX_STREAMS_VALUE = push_bit 60 1"

lemmas capsule_types = WT_CAPSULE_DRAIN_SESSION_def WT_CAPSULE_CLOSE_WEBTRANSPORT_SESSION_def
  WT_CAPSULE_MAX_DATA_def WT_CAPSULE_MAX_STREAM_DATA_def WT_CAPSULE_MAX_STREAMS_BIDI_def
  WT_CAPSULE_MAX_STREAMS_UNI_def WT_CAPSULE_DATA_BLOCKED_def WT_CAPSULE_STREAM_DATA_BLOCKED_def
  WT_CAPSULE_STREAMS_BLOCKED_BIDI_def WT_CAPSULE_STREAMS_BLOCKED_UNI_def

record wt_webtransport_capsule =
  cp_type :: u64
  cp_value :: "u8 list"
  cp_bytes_consumed :: u64

text \<open>An incomplete capsule is \<open>WT_ERR_TRUNCATED\<close> with no HTTP/3 error: the caller waits.\<close>

definition wt_webtransport_capsule_decode :: "u64 \<Rightarrow> (http3_fail, wt_webtransport_capsule) xreader" where
  "wt_webtransport_capsule_decode max_length c =
     rbind (varint_or (WT_ERR_TRUNCATED, WT_HTTP3_NO_ERROR)) (\<lambda>type.
     rbind (varint_or (WT_ERR_TRUNCATED, WT_HTTP3_NO_ERROR)) (\<lambda>len.
     if len > max_length then rfail (WT_ERR_LIMIT, WT_HTTP3_EXCESSIVE_LOAD)
     else
       rbind (view_or (WT_ERR_TRUNCATED, WT_HTTP3_NO_ERROR) len) (\<lambda>v c'.
       (Inr \<lparr>cp_type = type, cp_value = v,
             cp_bytes_consumed = wt_cursor_remaining c - wt_cursor_remaining c'\<rparr>, c')))) c"

definition wt_webtransport_capsule_encode :: "wt_webtransport_capsule \<Rightarrow> wt_writer \<Rightarrow> wt_status \<times> wt_writer" where
  "wt_webtransport_capsule_encode capsule w =
     (if cp_type capsule > WT_QUIC_VARINT_MAX then (WT_ERR_INVALID_ARGUMENT, w)
      else if of_nat (length (cp_value capsule)) > WT_QUIC_VARINT_MAX then (WT_ERR_INVALID_ARGUMENT, w)
      else
        emit_status
          ([put_varint (cp_type capsule), put_varint (of_nat (length (cp_value capsule)))] @
           (if length (cp_value capsule) \<noteq> 0 then [wt_writer_bytes (cp_value capsule)] else [])) w)"

definition close_code_bytes :: "u32 \<Rightarrow> u8 list" where
  "close_code_bytes error_code =
     [ucast (drop_bit 24 error_code), ucast (drop_bit 16 error_code AND 0xff),
      ucast (drop_bit 8 error_code AND 0xff), ucast (error_code AND 0xff)]"

definition wt_webtransport_close_session_write :: "u32 \<Rightarrow> u8 list \<Rightarrow> wt_writer \<Rightarrow> wt_status \<times> wt_writer" where
  "wt_webtransport_close_session_write error_code reason w =
     (if length reason > WT_CAPSULE_CLOSE_MAX_REASON then (WT_ERR_LIMIT, w)
      else
        emit_status
          ([put_varint WT_CAPSULE_CLOSE_WEBTRANSPORT_SESSION, put_varint (4 + of_nat (length reason)),
            wt_writer_bytes (close_code_bytes error_code)] @
           (if length reason \<noteq> 0 then [wt_writer_bytes reason] else [])) w)"

text \<open>The error code and the reason.\<close>

definition wt_webtransport_close_session_parse :: "wt_webtransport_capsule \<Rightarrow> http3_fail + (u32 \<times> u8 list)" where
  "wt_webtransport_close_session_parse capsule =
     (let v = cp_value capsule in
      if cp_type capsule \<noteq> WT_CAPSULE_CLOSE_WEBTRANSPORT_SESSION
      then Inl (WT_ERR_INVALID_ARGUMENT, WT_HTTP3_MESSAGE_ERROR)
      else if length v < 4 then Inl (WT_ERR_PROTOCOL, WT_HTTP3_MESSAGE_ERROR)
      else if length v - 4 > WT_CAPSULE_CLOSE_MAX_REASON then Inl (WT_ERR_PROTOCOL, WT_HTTP3_MESSAGE_ERROR)
      else if \<not> utf8_is_well_formed (drop 4 v) then Inl (WT_ERR_PROTOCOL, WT_HTTP3_MESSAGE_ERROR)
      else Inr (push_bit 24 (ucast (v ! 0)) OR push_bit 16 (ucast (v ! 1)) OR push_bit 8 (ucast (v ! 2)) OR ucast (v ! 3),
                drop 4 v))"

definition wt_webtransport_drain_session_write :: "wt_writer \<Rightarrow> wt_status \<times> wt_writer" where
  "wt_webtransport_drain_session_write w = emit_status [put_varint WT_CAPSULE_DRAIN_SESSION, put_varint 0] w"

subsection \<open>Flow control capsules (capsule.c)\<close>

definition parse_one :: "wt_webtransport_capsule \<Rightarrow> u64 \<Rightarrow> http3_fail + u64" where
  "parse_one capsule expected_type =
     (if cp_type capsule \<noteq> expected_type then Inl (WT_ERR_INVALID_ARGUMENT, WT_HTTP3_MESSAGE_ERROR)
      else case wt_quic_varint_decode (cursor_of (cp_value capsule)) of
        (Inl _, c) \<Rightarrow> Inl (WT_ERR_PROTOCOL, WT_HTTP3_MESSAGE_ERROR)
      | (Inr v, c) \<Rightarrow>
          if \<not> wt_cursor_at_end c then Inl (WT_ERR_PROTOCOL, WT_HTTP3_MESSAGE_ERROR) else Inr v)"

definition parse_two :: "wt_webtransport_capsule \<Rightarrow> u64 \<Rightarrow> http3_fail + (u64 \<times> u64)" where
  "parse_two capsule expected_type =
     (if cp_type capsule \<noteq> expected_type then Inl (WT_ERR_INVALID_ARGUMENT, WT_HTTP3_MESSAGE_ERROR)
      else
        case rbind (varint_or (WT_ERR_PROTOCOL, WT_HTTP3_MESSAGE_ERROR)) (\<lambda>first.
             rbind (varint_or (WT_ERR_PROTOCOL, WT_HTTP3_MESSAGE_ERROR)) (\<lambda>second. rreturn (first, second)))
             (cursor_of (cp_value capsule)) of
          (Inl e, c) \<Rightarrow> Inl e
        | (Inr p, c) \<Rightarrow>
            if \<not> wt_cursor_at_end c then Inl (WT_ERR_PROTOCOL, WT_HTTP3_MESSAGE_ERROR) else Inr p)"

definition write_one :: "u64 \<Rightarrow> u64 \<Rightarrow> wt_writer \<Rightarrow> wt_status \<times> wt_writer" where
  "write_one type v w =
     (if type > WT_QUIC_VARINT_MAX \<or> v > WT_QUIC_VARINT_MAX then (WT_ERR_INVALID_ARGUMENT, w)
      else emit_status [put_varint type, put_varint (of_nat (wt_quic_varint_size v)), put_varint v] w)"

definition write_two :: "u64 \<Rightarrow> u64 \<Rightarrow> u64 \<Rightarrow> wt_writer \<Rightarrow> wt_status \<times> wt_writer" where
  "write_two type first second w =
     (let inner = emit [put_varint first, put_varint second] (wt_writer_init (Some (replicate 16 0)) 16) in
      if \<not> wt_writer_ok inner then (WT_ERR_LIMIT, w)
      else emit_status [put_varint type, put_varint (wt_writer_offset inner),
                        wt_writer_bytes (take (unat (wt_writer_offset inner)) (wr_data inner))] w)"

definition stream_count_within_ceiling :: "u64 \<Rightarrow> bool" where
  "stream_count_within_ceiling v \<longleftrightarrow> v \<le> WT_WEBTRANSPORT_MAX_STREAMS_VALUE"

definition parse_stream_count :: "wt_webtransport_capsule \<Rightarrow> http3_fail + u64" where
  "parse_stream_count capsule =
     (case parse_one capsule (cp_type capsule) of
        Inl e \<Rightarrow> Inl e
      | Inr v \<Rightarrow>
          if \<not> stream_count_within_ceiling v
          then Inl (WT_ERR_PROTOCOL, WT_HTTP3_ERROR_CAST WT_WEBTRANSPORT_ERROR_FLOW_CONTROL) else Inr v)"

definition wt_webtransport_max_data_write :: "u64 \<Rightarrow> wt_writer \<Rightarrow> wt_status \<times> wt_writer" where
  "wt_webtransport_max_data_write maximum = write_one WT_CAPSULE_MAX_DATA maximum"

definition wt_webtransport_max_stream_data_write :: "u64 \<Rightarrow> u64 \<Rightarrow> wt_writer \<Rightarrow> wt_status \<times> wt_writer" where
  "wt_webtransport_max_stream_data_write stream_id maximum = write_two WT_CAPSULE_MAX_STREAM_DATA stream_id maximum"

definition wt_webtransport_max_streams_write :: "bool \<Rightarrow> u64 \<Rightarrow> wt_writer \<Rightarrow> wt_status \<times> wt_writer" where
  "wt_webtransport_max_streams_write bidirectional maximum w =
     (if \<not> stream_count_within_ceiling maximum then (WT_ERR_LIMIT, w)
      else write_one (if bidirectional then WT_CAPSULE_MAX_STREAMS_BIDI else WT_CAPSULE_MAX_STREAMS_UNI) maximum w)"

definition wt_webtransport_data_blocked_write :: "u64 \<Rightarrow> wt_writer \<Rightarrow> wt_status \<times> wt_writer" where
  "wt_webtransport_data_blocked_write maximum = write_one WT_CAPSULE_DATA_BLOCKED maximum"

definition wt_webtransport_stream_data_blocked_write :: "u64 \<Rightarrow> u64 \<Rightarrow> wt_writer \<Rightarrow> wt_status \<times> wt_writer" where
  "wt_webtransport_stream_data_blocked_write stream_id maximum =
     write_two WT_CAPSULE_STREAM_DATA_BLOCKED stream_id maximum"

definition wt_webtransport_streams_blocked_write :: "bool \<Rightarrow> u64 \<Rightarrow> wt_writer \<Rightarrow> wt_status \<times> wt_writer" where
  "wt_webtransport_streams_blocked_write bidirectional maximum w =
     (if \<not> stream_count_within_ceiling maximum then (WT_ERR_LIMIT, w)
      else write_one (if bidirectional then WT_CAPSULE_STREAMS_BLOCKED_BIDI else WT_CAPSULE_STREAMS_BLOCKED_UNI)
             maximum w)"

definition wt_webtransport_max_data_parse :: "wt_webtransport_capsule \<Rightarrow> http3_fail + u64" where
  "wt_webtransport_max_data_parse capsule = parse_one capsule WT_CAPSULE_MAX_DATA"

definition wt_webtransport_data_blocked_parse :: "wt_webtransport_capsule \<Rightarrow> http3_fail + u64" where
  "wt_webtransport_data_blocked_parse capsule = parse_one capsule WT_CAPSULE_DATA_BLOCKED"

definition wt_webtransport_max_streams_parse :: "wt_webtransport_capsule \<Rightarrow> http3_fail + u64" where
  "wt_webtransport_max_streams_parse capsule =
     (if cp_type capsule = WT_CAPSULE_MAX_STREAMS_BIDI \<or> cp_type capsule = WT_CAPSULE_MAX_STREAMS_UNI
      then parse_stream_count capsule else Inl (WT_ERR_INVALID_ARGUMENT, WT_HTTP3_MESSAGE_ERROR))"

definition wt_webtransport_max_stream_data_parse :: "wt_webtransport_capsule \<Rightarrow> http3_fail + (u64 \<times> u64)" where
  "wt_webtransport_max_stream_data_parse capsule = parse_two capsule WT_CAPSULE_MAX_STREAM_DATA"

definition wt_webtransport_stream_data_blocked_parse :: "wt_webtransport_capsule \<Rightarrow> http3_fail + (u64 \<times> u64)" where
  "wt_webtransport_stream_data_blocked_parse capsule = parse_two capsule WT_CAPSULE_STREAM_DATA_BLOCKED"

definition wt_webtransport_streams_blocked_parse :: "wt_webtransport_capsule \<Rightarrow> http3_fail + u64" where
  "wt_webtransport_streams_blocked_parse capsule =
     (if cp_type capsule = WT_CAPSULE_STREAMS_BLOCKED_BIDI \<or> cp_type capsule = WT_CAPSULE_STREAMS_BLOCKED_UNI
      then parse_stream_count capsule else Inl (WT_ERR_INVALID_ARGUMENT, WT_HTTP3_MESSAGE_ERROR))"

record wt_webtransport_flow_limits =
  wl_max_data :: u64
  wl_max_data_set :: bool
  wl_max_streams_bidi :: u64
  wl_max_streams_bidi_set :: bool
  wl_max_streams_uni :: u64
  wl_max_streams_uni_set :: bool

definition wt_webtransport_flow_limits_init :: wt_webtransport_flow_limits where
  "wt_webtransport_flow_limits_init =
     \<lparr>wl_max_data = 0, wl_max_data_set = False, wl_max_streams_bidi = 0, wl_max_streams_bidi_set = False,
      wl_max_streams_uni = 0, wl_max_streams_uni_set = False\<rparr>"

text \<open>A refusal carries \<open>*out_error\<close>; \<open>None\<close> is \<open>WT_OK\<close>.\<close>

definition wt_webtransport_flow_on_max_data ::
  "wt_webtransport_flow_limits \<Rightarrow> u64 \<Rightarrow> (wt_status \<times> u64) option \<times> wt_webtransport_flow_limits" where
  "wt_webtransport_flow_on_max_data limits maximum =
     (if wl_max_data_set limits \<and> maximum \<le> wl_max_data limits
      then (Some (WT_ERR_PROTOCOL, WT_WEBTRANSPORT_ERROR_FLOW_CONTROL), limits)
      else (None, limits\<lparr>wl_max_data := maximum, wl_max_data_set := True\<rparr>))"

definition wt_webtransport_flow_on_max_streams ::
  "wt_webtransport_flow_limits \<Rightarrow> bool \<Rightarrow> u64 \<Rightarrow> (wt_status \<times> u64) option \<times> wt_webtransport_flow_limits" where
  "wt_webtransport_flow_on_max_streams limits bidirectional maximum =
     (let refused = (Some (WT_ERR_PROTOCOL, WT_WEBTRANSPORT_ERROR_FLOW_CONTROL), limits) in
      if maximum > WT_WEBTRANSPORT_MAX_STREAMS_VALUE then refused
      else if bidirectional then
        if wl_max_streams_bidi_set limits \<and> maximum \<le> wl_max_streams_bidi limits then refused
        else (None, limits\<lparr>wl_max_streams_bidi := maximum, wl_max_streams_bidi_set := True\<rparr>)
      else
        if wl_max_streams_uni_set limits \<and> maximum \<le> wl_max_streams_uni limits then refused
        else (None, limits\<lparr>wl_max_streams_uni := maximum, wl_max_streams_uni_set := True\<rparr>))"

subsection \<open>The error code mapping is a bijection\<close>

text \<open>The mapping over the natural numbers: every thirty codes skip one reserved codepoint.\<close>

lemma unat_to_http3:
  "unat (wt_webtransport_error_to_http3 a) = 0x52e4a40fa8db + unat a + unat a div 30"
proof -
  have v: "unat (ucast a :: u64) = unat a" by simp
  have d: "unat (ucast a div (0x1e :: u64)) = unat a div 30" by (simp add: unat_div v)
  have lt: "unat a < 4294967296" by (rule unat_u32_less)
  have dl: "unat a div 30 \<le> unat a" by simp
  have "unat ((0x52e4a40fa8db :: u64) + ucast a) = 0x52e4a40fa8db + unat a"
    using lt by (subst unat_add_no_wrap) (simp_all add: v)
  then show ?thesis
    using lt dl by (simp add: wt_webtransport_error_to_http3_def Let_def wt_error_constants)
      (subst unat_add_no_wrap, simp_all add: d)
qed

lemma error_range_nat:
  "wt_webtransport_error_is_application_range e \<longleftrightarrow>
     0x52e4a40fa8db \<le> unat e \<and> unat e \<le> 0x52e5ac983162 \<and> (unat e - 0x21) mod 31 \<noteq> 0"
proof -
  have "unat (e - 0x21) = unat e - 0x21" if "0x52e4a40fa8db \<le> unat e"
    using that by (subst unat_sub) (simp_all add: word_le_nat_alt)
  then show ?thesis
    by (auto simp: wt_webtransport_error_is_application_range_def wt_error_constants word_less_nat_alt
        unat_eq_zero [symmetric] unat_mod)
qed

lemma skip_inverse:
  fixes s n :: nat
  shows "s mod 31 \<noteq> 30 \<longleftrightarrow> (\<exists>m. s = m + m div 30)" "s = n + n div 30 \<Longrightarrow> s - s div 31 = n"
proof -
  have inv: "(n + n div 30) div 31 = n div 30 \<and> (n + n div 30) mod 31 = n mod 30" for n :: nat
  proof -
    have eq: "n + n div 30 = 31 * (n div 30) + n mod 30"
      using mult_div_mod_eq [of 30 n] by linarith
    have "n mod 30 < 31" using mod_less_divisor [of 30 n] by linarith
    then have "(31 * (n div 30) + n mod 30) div 31 = n div 30 \<and> (31 * (n div 30) + n mod 30) mod 31 = n mod 30" by simp
    then show ?thesis unfolding eq .
  qed
  show "s - s div 31 = n" if "s = n + n div 30"
    using that inv [of n] by simp
  show "s mod 31 \<noteq> 30 \<longleftrightarrow> (\<exists>m. s = m + m div 30)"
  proof
    assume r: "s mod 31 \<noteq> 30"
    define m where "m = 30 * (s div 31) + s mod 31"
    have "s mod 31 < 30" using r mod_less_divisor [of 31 s] by linarith
    then have "m div 30 = s div 31" by (simp add: m_def)
    then have "s = m + m div 30" using mult_div_mod_eq [of 31 s] by (simp add: m_def)
    then show "\<exists>m. s = m + m div 30" by blast
  next
    assume "\<exists>m. s = m + m div 30"
    then obtain m where "s = m + m div 30" by blast
    then show "s mod 31 \<noteq> 30" using inv [of m] mod_less_divisor [of 30 m] by simp
  qed
qed

lemma error_from_http3_nat:
  "wt_webtransport_error_from_http3 e = Inr a \<longleftrightarrow> e = wt_webtransport_error_to_http3 a"
proof -
  define s where "s = unat e - 0x52e4a40fa8db"
  have reserved: "(unat e - 0x21) mod 31 \<noteq> 0 \<longleftrightarrow> s mod 31 \<noteq> 30" if "0x52e4a40fa8db \<le> unat e"
  proof -
    have "unat e - 0x21 = s + 1 + 31 * 2940063177767" using that by (simp add: s_def)
    then have "(unat e - 0x21) mod 31 = (s + 1) mod 31" by (simp only: mod_mult_self2)
    then show ?thesis by (simp add: mod_Suc split: if_splits)
  qed
  have sub: "unat (e - WT_WEBTRANSPORT_APPLICATION_ERROR_FIRST) = s" if "0x52e4a40fa8db \<le> unat e"
    using that by (subst unat_sub) (simp_all add: word_le_nat_alt wt_error_constants s_def)
  show ?thesis
  proof
    assume "wt_webtransport_error_from_http3 e = Inr a"
    then have r: "wt_webtransport_error_is_application_range e"
      and a: "a = ucast ((e - WT_WEBTRANSPORT_APPLICATION_ERROR_FIRST) -
        (e - WT_WEBTRANSPORT_APPLICATION_ERROR_FIRST) div WT_WEBTRANSPORT_ERROR_STRIDE_IN)"
      by (simp_all add: wt_webtransport_error_from_http3_def Let_def split: if_splits)
    have le: "0x52e4a40fa8db \<le> unat e" "s \<le> 4438132871" using r by (auto simp: error_range_nat s_def)
    obtain m where m: "s = m + m div 30"
      using skip_inverse(1) [of s] r reserved le(1) by (auto simp: error_range_nat)
    have "m < 4294967296"
    proof (rule ccontr)
      assume "\<not> m < 4294967296"
      then have "4294967296 div 30 \<le> m div 30" by (intro div_le_mono) simp
      then show False using m le(2) \<open>\<not> m < 4294967296\<close> by simp
    qed
    moreover have "unat ((e - WT_WEBTRANSPORT_APPLICATION_ERROR_FIRST) -
        (e - WT_WEBTRANSPORT_APPLICATION_ERROR_FIRST) div WT_WEBTRANSPORT_ERROR_STRIDE_IN) = m"
      using sub [OF le(1)] skip_inverse(2) [OF m]
      by (subst unat_sub) (simp_all add: unat_div wt_error_constants word_le_nat_alt)
    ultimately have "unat a = m" by (simp add: a unsigned_ucast_eq take_bit_nat_eq_self_iff)
    then have "unat e = unat (wt_webtransport_error_to_http3 a)"
      using m le(1) by (simp add: unat_to_http3 s_def)
    then show "e = wt_webtransport_error_to_http3 a" by (rule word_unat_eq_iff [THEN iffD2])
  next
    assume e: "e = wt_webtransport_error_to_http3 a"
    have s: "s = unat a + unat a div 30" by (simp add: s_def e unat_to_http3)
    have "unat a \<le> 4294967295" using unat_u32_less [of a] by simp
    moreover from this have "unat a div 30 \<le> 4294967295 div 30" by (rule div_le_mono)
    ultimately have "wt_webtransport_error_is_application_range e"
      using reserved skip_inverse(1) [of s] s by (auto simp: error_range_nat e unat_to_http3)
    moreover have le: "0x52e4a40fa8db \<le> unat e" by (simp add: e unat_to_http3)
    have "unat ((e - WT_WEBTRANSPORT_APPLICATION_ERROR_FIRST) -
        (e - WT_WEBTRANSPORT_APPLICATION_ERROR_FIRST) div WT_WEBTRANSPORT_ERROR_STRIDE_IN) = unat a"
      using sub [OF le] skip_inverse(2) [OF s]
      by (subst unat_sub) (simp_all add: unat_div wt_error_constants word_le_nat_alt)
    then have "ucast ((e - WT_WEBTRANSPORT_APPLICATION_ERROR_FIRST) -
        (e - WT_WEBTRANSPORT_APPLICATION_ERROR_FIRST) div WT_WEBTRANSPORT_ERROR_STRIDE_IN) = a"
      using unat_u32_less [of a] by (simp add: word_unat_eq_iff unsigned_ucast_eq take_bit_nat_eq_self_iff)
    ultimately show "wt_webtransport_error_from_http3 e = Inr a"
      by (simp add: wt_webtransport_error_from_http3_def Let_def)
  qed
qed

subsection \<open>The capsule format\<close>

definition capsule_of :: "u64 \<Rightarrow> u8 list \<Rightarrow> wt_webtransport_capsule" where
  "capsule_of type v = \<lparr>cp_type = type, cp_value = v, cp_bytes_consumed =
     of_nat (length (varint_bytes type @ varint_bytes (of_nat (length v)) @ v))\<rparr>"

definition capsule_bytes :: "u64 \<Rightarrow> u8 list \<Rightarrow> u8 list" where
  "capsule_bytes type v = varint_bytes type @ varint_bytes (of_nat (length v)) @ v"

lemma varint_bytes_prefix:
  assumes "varint_valid v" "varint_bytes v = b # bs"
  shows "length bs = 2 ^ (unat b div 64) - 1"
proof -
  have len: "length (varint_bytes v) \<le> 8" using assms(1) varint_size_le by (simp add: length_varint_bytes)
  then have "wt_quic_varint_decode_sized (cursor_of (varint_bytes v @ [])) =
      (Inr (v, wt_quic_varint_size v), cursor_advance (cursor_of (varint_bytes v @ [])) (length (varint_bytes v)))"
    by (intro reads_of reads_varint_sized assms) simp
  moreover have "cursor_ready (cursor_of (varint_bytes v))" "cursor_view (cursor_of (varint_bytes v)) = b # bs"
    using len assms(2) by simp_all
  note varint_decode_cases [OF this]
  ultimately have "2 ^ (unat b div 64) = wt_quic_varint_size v" by (simp split: if_splits)
  with length_varint_bytes [OF assms(1)] assms(2) show ?thesis by simp
qed

lemma varint_truncated:
  assumes "varint_valid v" "k < length (varint_bytes v)" "cursor_ready c" "cursor_view c = take k (varint_bytes v)"
  shows "fst (varint_or e c) = Inl e"
proof (cases "varint_bytes v")
  case (Cons b bs)
  note len = varint_bytes_prefix [OF assms(1) Cons]
  show ?thesis
  proof (cases k)
    case 0
    then have "wt_cursor_remaining c = 0"
      using assms(3,4) cursor_remaining_view [of c] by (simp add: cursor_ready_def unat_eq_0)
    then show ?thesis by (simp add: varint_or_def wt_quic_varint_decode_def wt_quic_varint_decode_sized_def)
  next
    case (Suc m)
    then have "cursor_view c = b # take m bs" "m < length bs" using assms(2,4) Cons by simp_all
    with varint_decode_cases [OF assms(3), of b "take m bs"] len show ?thesis
      by (simp add: varint_or_def wt_quic_varint_decode_def)
  qed
qed (use assms in simp)

lemma view_truncated:
  "cursor_ready c \<Longrightarrow> length (cursor_view c) < length v \<Longrightarrow> length v < 2 ^ 64 \<Longrightarrow>
   fst (view_or e (of_nat (length v)) c) = Inl e"
  using cursor_take_short [of c "length v"] unat_of_nat_u64 [of "length v"]
  by (auto simp: view_or_def wt_cursor_bytes_def)

lemma remaining_advance:
  assumes "cursor_ready c" "n \<le> length (cursor_view c)"
  shows "wt_cursor_remaining c - wt_cursor_remaining (cursor_advance c n) = of_nat n"
proof -
  note r = cursor_ready_advance [OF assms]
  have "unat (wt_cursor_remaining c) = length (cursor_view c)"
    "unat (wt_cursor_remaining (cursor_advance c n)) = length (cursor_view c) - n"
    using assms(1) r by (simp_all add: cursor_ready_def cursor_remaining_view)
  moreover have "n < 2 ^ 64" using assms cursor_view_less [of c] by (simp add: cursor_ready_def)
  ultimately show ?thesis
    using assms(2) by (intro word_unat_eq_iff [THEN iffD2]) (simp add: unat_sub word_le_nat_alt unat_of_nat_u64)
qed

lemma rbind_step: "m c = (Inr x, c') \<Longrightarrow> fst (f x c') = Inl e \<Longrightarrow> fst (rbind m f c) = Inl e"
  by (simp add: rbind_def)

lemma rbind_stop: "fst (m c) = Inl e \<Longrightarrow> fst (rbind m f c) = Inl e"
  by (auto simp: rbind_def split: prod.splits sum.splits)

lemma capsule_decode_full:
  assumes "varint_valid type" "bytes_valid v" "of_nat (length v) \<le> max_length"
    and "cursor_ready c" "cursor_view c = capsule_bytes type v @ rest"
  shows "wt_webtransport_capsule_decode max_length c =
    (Inr (capsule_of type v), cursor_advance c (length (capsule_bytes type v)))"
proof -
  let ?t = "varint_bytes type" and ?n = "varint_bytes (of_nat (length v))"
  let ?c1 = "cursor_advance c (length ?t)" and ?c2 = "cursor_advance c (length ?t + length ?n)"
  have view: "cursor_view c = ?t @ ?n @ v @ rest" using assms(5) by (simp add: capsule_bytes_def)
  have c1: "cursor_ready ?c1" "cursor_view ?c1 = ?n @ v @ rest"
    using cursor_ready_advance [OF assms(4), of "length ?t"] view by simp_all
  have c2: "cursor_ready ?c2" "cursor_view ?c2 = v @ rest"
    using cursor_ready_advance [OF assms(4), of "length ?t + length ?n"] view by simp_all
  have "varint_or e c = (Inr type, ?c1)" for e :: http3_fail by (rule readsD [OF reads_varint_or assms(4) view]) (rule assms)
  moreover have "varint_or e ?c1 = (Inr (of_nat (length v)), ?c2)" for e :: http3_fail
    using readsD [OF reads_varint_or [OF varint_valid_length [OF assms(2)]] c1] by (simp add: cursor_advance_add)
  moreover have "view_or e (of_nat (length v)) ?c2 = (Inr v, cursor_advance c (length (capsule_bytes type v)))" for e :: http3_fail
    using readsD [OF reads_view_or c2] assms(2)
    by (simp add: bytes_valid_def cursor_advance_add capsule_bytes_def add.assoc)
  moreover have "wt_cursor_remaining c - wt_cursor_remaining (cursor_advance c (length (capsule_bytes type v))) =
      of_nat (length (capsule_bytes type v))"
    using assms(4,5) by (intro remaining_advance) simp_all
  ultimately show ?thesis
    using assms(3) by (simp add: wt_webtransport_capsule_decode_def rbind_def not_less [symmetric] capsule_of_def capsule_bytes_def [symmetric])
qed

lemma capsule_decode_short:
  assumes "varint_valid type" "bytes_valid v" "of_nat (length v) \<le> max_length"
    and "cursor_ready c" "cursor_view c = take k (capsule_bytes type v)" "k < length (capsule_bytes type v)"
  shows "fst (wt_webtransport_capsule_decode max_length c) = Inl (WT_ERR_TRUNCATED, WT_HTTP3_NO_ERROR)"
proof -
  let ?t = "varint_bytes type" and ?n = "varint_bytes (of_nat (length v))"
  let ?c1 = "cursor_advance c (length ?t)" and ?c2 = "cursor_advance c (length ?t + length ?n)"
  have vn: "varint_valid (of_nat (length v))" by (rule varint_valid_length) (rule assms)
  have view: "cursor_view c = take k (?t @ ?n @ v)" using assms(5) by (simp add: capsule_bytes_def)
  consider "k < length ?t" | "length ?t \<le> k" "k < length ?t + length ?n" | "length ?t + length ?n \<le> k" by linarith
  then show ?thesis
  proof cases
    case 1
    then have "fst (varint_or e c) = Inl e" for e :: http3_fail
      using view by (intro varint_truncated [OF assms(1) _ assms(4), of k]) simp_all
    then show ?thesis unfolding wt_webtransport_capsule_decode_def by (rule rbind_stop)
  next
    case 2
    have "cursor_view c = ?t @ take (k - length ?t) ?n" using view 2 by simp
    note first = readsD [OF reads_varint_or [OF assms(1)] assms(4) this]
    have "cursor_ready ?c1" "cursor_view ?c1 = take (k - length ?t) ?n"
      using cursor_ready_advance [OF assms(4), of "length ?t"] view 2 by simp_all
    then have stop: "fst (varint_or e ?c1) = Inl e" for e :: http3_fail
      using 2 by (intro varint_truncated [OF vn, of "k - length ?t"]) simp_all
    show ?thesis
      unfolding wt_webtransport_capsule_decode_def by (rule rbind_step, rule first, rule rbind_stop, rule stop)
  next
    case 3
    let ?r = "take (k - length ?t - length ?n) v"
    have v3: "cursor_view c = ?t @ ?n @ ?r" using view 3 by (simp add: diff_diff_left)
    note first = readsD [OF reads_varint_or [OF assms(1)] assms(4) v3]
    have "cursor_ready ?c1" "cursor_view ?c1 = ?n @ ?r"
      using cursor_ready_advance [OF assms(4), of "length ?t"] v3 by simp_all
    note second = readsD [OF reads_varint_or [OF vn] this]
    have "cursor_ready ?c2" "cursor_view ?c2 = ?r"
      using cursor_ready_advance [OF assms(4), of "length ?t + length ?n"] v3 by simp_all
    moreover have "length ?r < length v" using assms(6) 3 by (simp add: capsule_bytes_def)
    moreover have "length v < 2 ^ 64" using assms(2) by (simp add: bytes_valid_def)
    ultimately have stop: "fst (view_or e (of_nat (length v)) ?c2) = Inl e" for e :: http3_fail
      by (intro view_truncated) simp_all
    have "\<not> of_nat (length v) > max_length" using assms(3) by simp
    then have limit: "(if max_length < of_nat (length v) then a else b) = b" for a b :: "('q, 'p) xreader" by simp
    show ?thesis
      unfolding wt_webtransport_capsule_decode_def
      by (rule rbind_step, rule first, rule rbind_step, rule second, unfold limit cursor_advance_add, rule rbind_stop, rule stop)
  qed
qed

subsection \<open>The capsule writers\<close>

text \<open>A writer of capsules: its bytes and its status.\<close>

definition writes_capsule :: "(wt_writer \<Rightarrow> wt_status \<times> wt_writer) \<Rightarrow> u64 \<Rightarrow> u8 list \<Rightarrow> bool" where
  "writes_capsule f type v \<longleftrightarrow>
     writes (\<lambda>w. snd (f w)) (capsule_bytes type v) \<and> (\<forall>w. fst (f w) = writer_status (snd (f w)))"

lemma writes_capsule_emit:
  "f = emit_status fs \<Longrightarrow> list_all2 writes fs bss \<Longrightarrow> concat bss = capsule_bytes type v \<Longrightarrow> writes_capsule f type v"
  using emit_status_writes [of fs bss] by (simp add: writes_capsule_def emit_status_fst)

lemma writes_capsule_cong: "writes_capsule f type v \<Longrightarrow> (\<And>w. f w = g w) \<Longrightarrow> writes_capsule g type v"
  by (simp add: writes_capsule_def)

lemma writes_capsule_init:
  assumes "writes_capsule f type v" "unat cap \<le> length d"
  shows "fst (f (wt_writer_init (Some d) cap)) = WT_OK \<longleftrightarrow> length (capsule_bytes type v) \<le> unat cap"
    "fst (f (wt_writer_init (Some d) cap)) = WT_OK \<Longrightarrow> writer_out (snd (f (wt_writer_init (Some d) cap))) = capsule_bytes type v"
proof -
  have w: "writes (\<lambda>w. snd (f w)) (capsule_bytes type v)" using assms(1) by (simp add: writes_capsule_def)
  have ok: "fst (f (wt_writer_init (Some d) cap)) = WT_OK \<longleftrightarrow> wt_writer_ok (snd (f (wt_writer_init (Some d) cap)))"
    using assms(1) by (simp add: writes_capsule_def writer_status_def)
  then show eq: "fst (f (wt_writer_init (Some d) cap)) = WT_OK \<longleftrightarrow> length (capsule_bytes type v) \<le> unat cap"
    using writes_init(1) [OF w assms(2)] by simp
  show "writer_out (snd (f (wt_writer_init (Some d) cap))) = capsule_bytes type v"
    if "fst (f (wt_writer_init (Some d) cap)) = WT_OK"
    using writes_init(2) [OF w assms(2)] that eq by simp
qed

lemma writes_capsule_encode:
  assumes "varint_valid (cp_type cp)" "bytes_valid (cp_value cp)"
  shows "writes_capsule (wt_webtransport_capsule_encode cp) (cp_type cp) (cp_value cp)"
proof (rule writes_capsule_emit)
  show "wt_webtransport_capsule_encode cp = emit_status ([put_varint (cp_type cp), put_varint (of_nat (length (cp_value cp)))] @
      (if length (cp_value cp) \<noteq> 0 then [wt_writer_bytes (cp_value cp)] else []))"
    using assms varint_valid_length [OF assms(2)]
    by (auto simp: wt_webtransport_capsule_encode_def varint_valid_def fun_eq_iff not_less)
  show "list_all2 writes ([put_varint (cp_type cp), put_varint (of_nat (length (cp_value cp)))] @
      (if length (cp_value cp) \<noteq> 0 then [wt_writer_bytes (cp_value cp)] else []))
      ([varint_bytes (cp_type cp), varint_bytes (of_nat (length (cp_value cp)))] @
       (if length (cp_value cp) \<noteq> 0 then [cp_value cp] else []))"
    using assms varint_valid_length by (auto simp: writes_varint)
qed (simp add: capsule_bytes_def)

lemma writes_capsule_close:
  assumes "length reason \<le> 1024"
  shows "writes_capsule (wt_webtransport_close_session_write code reason) WT_CAPSULE_CLOSE_WEBTRANSPORT_SESSION
    (close_code_bytes code @ reason)"
proof (rule writes_capsule_emit)
  let ?tail = "\<lambda>x. if length reason \<noteq> 0 then [x] else []"
  have n: "4 + of_nat (length reason) = (of_nat (length (close_code_bytes code @ reason)) :: u64)"
    by (simp add: close_code_bytes_def)
  have v: "varint_valid (of_nat (length (close_code_bytes code @ reason)))"
    using assms by (intro varint_valid_length) (simp add: bytes_valid_def close_code_bytes_def)
  show "wt_webtransport_close_session_write code reason = emit_status ([put_varint WT_CAPSULE_CLOSE_WEBTRANSPORT_SESSION,
      put_varint (of_nat (length (close_code_bytes code @ reason))), wt_writer_bytes (close_code_bytes code)] @
      ?tail (wt_writer_bytes reason))"
    using assms by (simp add: wt_webtransport_close_session_write_def n WT_CAPSULE_CLOSE_MAX_REASON_def fun_eq_iff)
  show "list_all2 writes ([put_varint WT_CAPSULE_CLOSE_WEBTRANSPORT_SESSION,
      put_varint (of_nat (length (close_code_bytes code @ reason))), wt_writer_bytes (close_code_bytes code)] @
      ?tail (wt_writer_bytes reason))
     ([varint_bytes WT_CAPSULE_CLOSE_WEBTRANSPORT_SESSION, varint_bytes (of_nat (length (close_code_bytes code @ reason))),
       close_code_bytes code] @ ?tail reason)"
    using v by (auto simp: writes_varint varint_valid_unat capsule_types simp del: of_nat_add length_append)
qed (simp add: capsule_bytes_def)

lemma writes_capsule_one:
  assumes "varint_valid type" "varint_valid x"
  shows "writes_capsule (write_one type x) type (varint_bytes x)"
proof (rule writes_capsule_emit)
  have "bytes_valid (varint_bytes x)"
    using varint_size_le [of x] assms(2) by (simp add: bytes_valid_def length_varint_bytes)
  note v = varint_valid_length [OF this]
  show "write_one type x = emit_status [put_varint type, put_varint (of_nat (length (varint_bytes x))), put_varint x]"
    using assms by (auto simp: write_one_def varint_valid_def fun_eq_iff not_less length_varint_bytes)
  show "list_all2 writes [put_varint type, put_varint (of_nat (length (varint_bytes x))), put_varint x]
      [varint_bytes type, varint_bytes (of_nat (length (varint_bytes x))), varint_bytes x]"
    using assms v by (simp add: writes_varint)
qed (simp add: capsule_bytes_def)

lemma writes_capsule_two:
  assumes "varint_valid type" "varint_valid x" "varint_valid y"
  shows "writes_capsule (write_two type x y) type (varint_bytes x @ varint_bytes y)"
proof (rule writes_capsule_emit)
  let ?p = "varint_bytes x @ varint_bytes y"
  let ?inner = "emit [put_varint x, put_varint y] (wt_writer_init (Some (replicate 16 0)) 16)"
  have len: "length ?p \<le> 16"
    using varint_size_le [of x] varint_size_le [of y] assms by (simp add: length_varint_bytes)
  note v = varint_valid_length [of ?p]
  have w: "writes (emit [put_varint x, put_varint y]) ?p"
    using writes_emit [of "[put_varint x, put_varint y]" "[varint_bytes x, varint_bytes y]"] assms
    by (simp add: writes_varint del: emit_simps)
  have ok: "wt_writer_ok ?inner" "writer_out ?inner = ?p"
    using writes_init [OF w, of 16 "replicate 16 0"] len by simp_all
  have "unat (wt_writer_offset ?inner) = length ?p" "length ?p < 2 ^ 64"
    using writes_init(3) [OF w, of 16 "replicate 16 0"] len by simp_all
  then have off: "wt_writer_offset ?inner = of_nat (length ?p)"
    by (intro word_unat_eq_iff [THEN iffD2]) (simp add: unat_of_nat_u64 del: length_append)
  have out: "take (unat (wt_writer_offset ?inner)) (wr_data ?inner) = ?p"
    using ok(2) by (simp only: writer_out_def wt_writer_offset_def)
  show "write_two type x y = emit_status [put_varint type, put_varint (of_nat (length ?p)), wt_writer_bytes ?p]"
    unfolding write_two_def Let_def fun_eq_iff out unfolding off using ok(1) by (simp only: not_True_eq_False if_False simp_thms)
  show "list_all2 writes [put_varint type, put_varint (of_nat (length ?p)), wt_writer_bytes ?p]
      [varint_bytes type, varint_bytes (of_nat (length ?p)), ?p]"
    using assms v len by (auto simp: writes_varint bytes_valid_def simp del: of_nat_add length_append)
qed (simp add: capsule_bytes_def)

subsection \<open>The capsule parsers\<close>

lemma at_end_advance:
  "length bs < 2 ^ 64 \<Longrightarrow> wt_cursor_at_end (cursor_advance (cursor_of bs) (length bs))"
  using cursor_ready_advance [of "cursor_of bs" "length bs"] by (simp add: cursor_at_end_view)

lemma parse_one_varint:
  assumes "varint_valid x" "cp_type cp = type" "cp_value cp = varint_bytes x"
  shows "parse_one cp type = Inr x"
proof -
  have len: "length (varint_bytes x) < 2 ^ 64" using varint_size_le [of x] assms(1) by (simp add: length_varint_bytes)
  have "wt_quic_varint_decode (cursor_of (varint_bytes x)) =
      (Inr x, cursor_advance (cursor_of (varint_bytes x)) (length (varint_bytes x)))"
    using reads_of [OF reads_varint [OF assms(1)], of "[]"] len by simp
  then show ?thesis using assms(2,3) len by (simp add: parse_one_def at_end_advance)
qed

lemma parse_two_varints:
  assumes "varint_valid x" "varint_valid y" "cp_type cp = type" "cp_value cp = varint_bytes x @ varint_bytes y"
  shows "parse_two cp type = Inr (x, y)"
proof -
  let ?p = "varint_bytes x @ varint_bytes y"
  have len: "length ?p < 2 ^ 64"
    using varint_size_le [of x] varint_size_le [of y] assms(1,2) by (simp add: length_varint_bytes)
  have "reads (rbind (varint_or e) (\<lambda>first. rbind (varint_or e) (\<lambda>second. rreturn (first, second)))) ?p (x, y)"
    for e :: http3_fail
    by (rule reads_bind, rule reads_varint_or, rule assms, rule reads_bind_end, rule reads_varint_or, rule assms, rule reads_return)
  from reads_of [OF this, of "[]"] len
  have "rbind (varint_or e) (\<lambda>first. rbind (varint_or e) (\<lambda>second. rreturn (first, second))) (cursor_of ?p) =
      (Inr (x, y), cursor_advance (cursor_of ?p) (length ?p))" for e :: http3_fail by simp
  with assms(3,4) at_end_advance [OF len] show ?thesis by (simp add: parse_two_def)
qed

text \<open>The four octets of an error code, most significant first.\<close>

lemma close_code_round_trip:
  fixes code :: u32
  shows "push_bit 24 (ucast (ucast (drop_bit 24 code) :: u8)) OR push_bit 16 (ucast (ucast (drop_bit 16 code AND 0xff) :: u8)) OR
    push_bit 8 (ucast (ucast (drop_bit 8 code AND 0xff) :: u8)) OR ucast (ucast (code AND 0xff) :: u8) = code"
proof -
  have m: "(0xff :: u32) = mask 8" by (simp add: mask_eq_exp_minus_1)
  show ?thesis unfolding m
  proof (rule bit_eqI)
    fix n assume "possible_bit TYPE(u32) n"
    then have "n < 32" by simp
    then consider "n < 8" | "8 \<le> n" "n < 16" | "16 \<le> n" "n < 24" | "24 \<le> n" "n < 32" by linarith
    then show "bit (push_bit 24 (ucast (ucast (drop_bit 24 code) :: u8)) OR
        push_bit 16 (ucast (ucast (drop_bit 16 code AND mask 8) :: u8)) OR
        push_bit 8 (ucast (ucast (drop_bit 8 code AND mask 8) :: u8)) OR ucast (ucast (code AND mask 8) :: u8) :: u32) n = bit code n"
      by cases (auto simp: bit_simps)
  qed
qed

lemma close_session_parse_of:
  assumes "cp_type cp = WT_CAPSULE_CLOSE_WEBTRANSPORT_SESSION" "cp_value cp = close_code_bytes code @ reason"
    "length reason \<le> 1024"
  shows "wt_webtransport_close_session_parse cp =
    (if utf8_is_well_formed reason then Inr (code, reason) else Inl (WT_ERR_PROTOCOL, WT_HTTP3_MESSAGE_ERROR))"
  using assms close_code_round_trip [of code]
  by (simp add: wt_webtransport_close_session_parse_def Let_def close_code_bytes_def WT_CAPSULE_CLOSE_MAX_REASON_def
      numeral_2_eq_2 numeral_3_eq_3)

text \<open>What the peer decodes from a capsule a writer has put into a buffer.\<close>

definition capsule_sent :: "(wt_writer \<Rightarrow> wt_status \<times> wt_writer) \<Rightarrow> u8 list \<Rightarrow> u64 \<Rightarrow> u64 \<Rightarrow> http3_fail + wt_webtransport_capsule" where
  "capsule_sent f d cap max_length =
     fst (wt_webtransport_capsule_decode max_length (cursor_of (writer_out (snd (f (wt_writer_init (Some d) cap))))))"

lemma capsule_sent_of:
  assumes "writes_capsule f type v" "unat cap \<le> length d" "fst (f (wt_writer_init (Some d) cap)) = WT_OK"
    and "varint_valid type" "bytes_valid v" "of_nat (length v) \<le> max_length"
  shows "capsule_sent f d cap max_length = Inr (capsule_of type v)"
proof -
  note w = writes_capsule_init [OF assms(1,2)]
  have "length (capsule_bytes type v) < 2 ^ 64" using w(1) assms(3) unat_u64_less [of cap] by simp
  then show ?thesis
    using capsule_decode_full [OF assms(4-6), of "cursor_of (capsule_bytes type v)" "[]"]
    by (simp add: capsule_sent_def w(2) [OF assms(3)])
qed

subsection \<open>Sessions named by streams and datagrams\<close>

lemma is_session_stream_id_iff: "wt_webtransport_is_session_stream_id s \<longleftrightarrow> unat s mod 4 = 0"
proof -
  have "s AND 3 = take_bit 2 s" by (simp add: take_bit_eq_mask mask_eq_exp_minus_1)
  moreover have "unat (take_bit 2 s) = unat s mod 4"
    by (simp add: take_bit_eq_mod unat_mod)
  ultimately show ?thesis by (simp add: wt_webtransport_is_session_stream_id_def unat_eq_0 [symmetric])
qed

lemma quarter_round_trip:
  "wt_webtransport_is_session_stream_id s \<Longrightarrow>
   wt_webtransport_session_id_from_quarter (wt_webtransport_quarter_stream_id s) = s"
proof -
  assume "wt_webtransport_is_session_stream_id s"
  then have "unat s div 4 * 4 = unat s" unfolding is_session_stream_id_iff by auto
  then have "unat (s div 4 * 4) = unat s"
    using unat_u64_less [of s] by (simp add: unat_word_ariths unat_div)
  then show ?thesis
    by (simp add: wt_webtransport_session_id_from_quarter_def wt_webtransport_quarter_stream_id_def word_unat_eq_iff)
qed

lemma quarter_session:
  assumes "varint_valid q"
  shows "unat (wt_webtransport_session_id_from_quarter q) = 4 * unat q"
    "wt_webtransport_is_session_stream_id (wt_webtransport_session_id_from_quarter q)"
proof -
  show eq: "unat (wt_webtransport_session_id_from_quarter q) = 4 * unat q"
    using assms by (simp add: wt_webtransport_session_id_from_quarter_def varint_valid_unat unat_word_ariths)
  show "wt_webtransport_is_session_stream_id (wt_webtransport_session_id_from_quarter q)"
    unfolding is_session_stream_id_iff eq by simp
qed

lemma reads_stream_prefix:
  assumes "varint_valid s" "wt_webtransport_is_session_stream_id s"
  shows "reads wt_webtransport_stream_prefix_parse
    (varint_bytes (if uni then WT_WEBTRANSPORT_STREAM_UNI else WT_WEBTRANSPORT_STREAM_BIDI) @ varint_bytes s) (uni, s)"
  unfolding wt_webtransport_stream_prefix_parse_def
proof (rule reads_bind, rule reads_varint_or)
  let ?t = "if uni then WT_WEBTRANSPORT_STREAM_UNI else WT_WEBTRANSPORT_STREAM_BIDI"
  show "varint_valid ?t" by (simp add: varint_valid_unat WT_WEBTRANSPORT_STREAM_UNI_def WT_WEBTRANSPORT_STREAM_BIDI_def)
  have "reads (rbind (varint_or e) (\<lambda>session_id. if \<not> wt_webtransport_is_session_stream_id session_id then rfail e'
      else rreturn (?t = WT_WEBTRANSPORT_STREAM_UNI, session_id))) (varint_bytes s) (uni, s)" for e e' :: http3_fail
    using assms by (intro reads_bind_end [OF reads_varint_or])
      (simp_all add: WT_WEBTRANSPORT_STREAM_UNI_def WT_WEBTRANSPORT_STREAM_BIDI_def)
  then show "reads (if ?t \<noteq> WT_WEBTRANSPORT_STREAM_BIDI \<and> ?t \<noteq> WT_WEBTRANSPORT_STREAM_UNI
     then rfail (WT_ERR_PROTOCOL, WT_HTTP3_FRAME_UNEXPECTED)
     else rbind (varint_or (WT_ERR_TRUNCATED, WT_HTTP3_NO_ERROR)) (\<lambda>session_id.
       if \<not> wt_webtransport_is_session_stream_id session_id then rfail (WT_ERR_PROTOCOL, WT_HTTP3_ID_ERROR)
       else rreturn (?t = WT_WEBTRANSPORT_STREAM_UNI, session_id))) (varint_bytes s) (uni, s)" by simp
qed

lemma status_writer_out:
  assumes "f = emit_status fs" "list_all2 writes fs bss" "unat cap \<le> length d"
    "f (wt_writer_init (Some d) cap) = (WT_OK, w)"
  shows "writer_out w = concat bss \<and> length (concat bss) < 2 ^ 64"
proof -
  note p = writes_init [OF emit_status_writes [OF assms(2)] assms(3)]
  have "wt_writer_ok w"
    using assms(1,4) emit_status_fst [of fs "wt_writer_init (Some d) cap"]
    by (auto simp: writer_status_def split: if_splits)
  with p assms(1,4) unat_u64_less [of cap] show ?thesis by simp
qed

lemma datagram_write_out:
  assumes "varint_valid q" "unat cap \<le> length d" "wt_webtransport_datagram_write q payload (wt_writer_init (Some d) cap) = (WT_OK, w)"
  shows "writer_out w = varint_bytes q @ payload \<and> length (varint_bytes q @ payload) < 2 ^ 64"
proof -
  have e: "wt_webtransport_datagram_write q payload =
      emit_status ([put_varint q] @ (if length payload \<noteq> 0 then [wt_writer_bytes payload] else []))"
    using assms by (auto simp: wt_webtransport_datagram_write_def varint_valid_def fun_eq_iff)
  have "list_all2 writes ([put_varint q] @ (if length payload \<noteq> 0 then [wt_writer_bytes payload] else []))
      ([varint_bytes q] @ (if length payload \<noteq> 0 then [payload] else []))"
    using assms(1) by (simp add: writes_varint)
  from status_writer_out [OF e this assms(2,3)] show ?thesis by (cases "payload = []") simp_all
qed

lemma datagram_parse_valid:
  assumes "wt_webtransport_datagram_parse bs n = Inr (q, p)"
  shows "varint_valid q"
proof -
  have "\<not> q > (- 1) div 4"
    using assms by (auto simp: wt_webtransport_datagram_parse_def split: if_splits sum.splits prod.splits)
  then show ?thesis by (simp add: varint_valid_unat word_less_nat_alt unat_div)
qed

lemma datagram_parse_of:
  assumes "varint_valid q" "length (varint_bytes q @ payload) < 2 ^ 64"
  shows "wt_webtransport_datagram_parse (Some (varint_bytes q @ payload)) (of_nat (length (varint_bytes q @ payload))) =
    Inr (q, payload)"
proof -
  let ?c = "cursor_of (varint_bytes q @ payload)" and ?n = "length (varint_bytes q)"
  note dec = reads_of [OF reads_varint [OF assms(1)] assms(2)]
  have r: "cursor_ready (cursor_advance ?c ?n)" "cursor_view (cursor_advance ?c ?n) = payload"
    using cursor_ready_advance [of ?c ?n] assms(2) by simp_all
  then have rem: "unat (wt_cursor_remaining (cursor_advance ?c ?n)) = length payload"
    using cursor_remaining_view by (simp add: cursor_ready_def)
  have rest: "fst (wt_cursor_rest (cursor_advance ?c ?n)) = Some payload"
  proof -
    have "?n < 2 ^ 64" using assms(2) by simp
    then show ?thesis
      by (simp add: wt_cursor_rest_def cursor_advance_def cursor_of_def wt_cursor_init_def unat_of_nat_u64)
  qed
  have le: "\<not> q > (- 1) div 4"
    using assms(1) by (simp add: varint_valid_unat word_less_nat_alt unat_div)
  show ?thesis
    unfolding wt_webtransport_datagram_parse_def cursor_of_def [symmetric] dec
    using rem rest le by (cases "wt_cursor_rest (cursor_advance ?c ?n)") simp
qed

subsection \<open>Properties\<close>

text \<open>The application error mapping of draft-ietf-webtrans-http3 section 4.6 is an order-preserving bijection
  onto the codes the range test accepts: the decoder inverts the encoder and nothing else decodes, a code is in
  the range exactly when it is the image of an application error, the images keep the order of the errors, and
  none of them is a reserved codepoint of the form 0x1f * n + 0x21.\<close>

lemma wt_webtransport_error_bijection:
  "(wt_webtransport_error_from_http3 e = Inr a \<longleftrightarrow> e = wt_webtransport_error_to_http3 a) \<and>
   (wt_webtransport_error_is_application_range e \<longleftrightarrow> e \<in> range wt_webtransport_error_to_http3) \<and>
   (wt_webtransport_error_to_http3 a < wt_webtransport_error_to_http3 b \<longleftrightarrow> a < b) \<and>
   unat (wt_webtransport_error_to_http3 a) mod 0x1f \<noteq> 0x21 mod 0x1f"
proof (intro conjI)
  have "wt_webtransport_error_is_application_range e \<longleftrightarrow> (\<exists>a. wt_webtransport_error_from_http3 e = Inr a)" for e
    by (simp add: wt_webtransport_error_from_http3_def Let_def)
  then show range: "wt_webtransport_error_is_application_range e \<longleftrightarrow> e \<in> range wt_webtransport_error_to_http3" for e
    by (auto simp: error_from_http3_nat)
  have mono: "unat a < unat b \<Longrightarrow> unat a + unat a div 30 < unat b + unat b div 30" for a b :: u32
    using div_le_mono [of "unat a" "unat b" 30] by linarith
  show "wt_webtransport_error_to_http3 a < wt_webtransport_error_to_http3 b \<longleftrightarrow> a < b"
    using mono [of a b] mono [of b a] by (auto simp: word_less_nat_alt unat_to_http3 not_less_iff_gr_or_eq)
  show "unat (wt_webtransport_error_to_http3 a) mod 0x1f \<noteq> 0x21 mod 0x1f"
  proof
    assume "unat (wt_webtransport_error_to_http3 a) mod 0x1f = 0x21 mod 0x1f"
    moreover have r: "wt_webtransport_error_is_application_range (wt_webtransport_error_to_http3 a)"
      using range by blast
    ultimately have "(unat (wt_webtransport_error_to_http3 a) - 0x21) mod 31 = 0"
      by (intro mod_eq_dvd_iff_nat [THEN iffD1, THEN dvd_imp_mod_0]) (simp_all add: error_range_nat)
    with r show False by (simp add: error_range_nat)
  qed
qed (rule error_from_http3_nat)

text \<open>Capsules arrive in pieces. Of the bytes of a capsule and whatever follows it, a prefix that holds the
  whole capsule decodes to it and reports exactly its length as consumed; a shorter prefix is always the
  incomplete status with no HTTP/3 error, never a capsule and never a protocol error, so a caller that waits for
  more bytes loses nothing. The bytes are those the encoder writes when the buffer holds them.\<close>

lemma wt_webtransport_capsule_streaming:
  assumes "varint_valid (cp_type cp)" "bytes_valid (cp_value cp)" "of_nat (length (cp_value cp)) \<le> max_length"
    and "unat cap \<le> length d" "length rest < 2 ^ 62"
  shows "let r = wt_webtransport_capsule_encode cp (wt_writer_init (Some d) cap); bs = writer_out (snd r) in
    (fst r = WT_OK \<longleftrightarrow> length (capsule_bytes (cp_type cp) (cp_value cp)) \<le> unat cap) \<and>
    (fst r = WT_OK \<longrightarrow>
      (\<forall>k. case fst (wt_webtransport_capsule_decode max_length (cursor_of (take k (bs @ rest)))) of
         Inl e \<Rightarrow> k < length bs \<and> e = (WT_ERR_TRUNCATED, WT_HTTP3_NO_ERROR)
       | Inr out \<Rightarrow> length bs \<le> k \<and> cp_type out = cp_type cp \<and> cp_value out = cp_value cp \<and>
                    cp_bytes_consumed out = of_nat (length bs)))"
proof -
  let ?r = "wt_webtransport_capsule_encode cp (wt_writer_init (Some d) cap)"
  let ?bs = "capsule_bytes (cp_type cp) (cp_value cp)"
  note w = writes_capsule_init [OF writes_capsule_encode [OF assms(1,2)] assms(4)]
  have "case fst (wt_webtransport_capsule_decode max_length (cursor_of (take k (?bs @ rest)))) of
         Inl e \<Rightarrow> k < length ?bs \<and> e = (WT_ERR_TRUNCATED, WT_HTTP3_NO_ERROR)
       | Inr out \<Rightarrow> length ?bs \<le> k \<and> cp_type out = cp_type cp \<and> cp_value out = cp_value cp \<and>
                    cp_bytes_consumed out = of_nat (length ?bs)" for k
  proof -
    have "length ?bs \<le> 16 + length (cp_value cp)"
      using varint_size_le [of "cp_type cp"] varint_size_le [of "of_nat (length (cp_value cp))"] assms(1)
        varint_valid_length [OF assms(2)] by (simp add: capsule_bytes_def length_varint_bytes)
    then have "length (?bs @ rest) < 2 ^ 64" using assms(2,5) by (simp add: bytes_valid_def)
    then have len: "length (take k (?bs @ rest)) < 2 ^ 64"
      by (simp only: length_take min_less_iff_disj simp_thms)
    show ?thesis
    proof (cases "k < length ?bs")
      case True
      then have "fst (wt_webtransport_capsule_decode max_length (cursor_of (take k (?bs @ rest)))) =
          Inl (WT_ERR_TRUNCATED, WT_HTTP3_NO_ERROR)"
        using capsule_decode_short [OF assms(1-3) cursor_ready_of [OF len] _ True] len by simp
      with True show ?thesis by simp
    next
      case False
      then have "fst (wt_webtransport_capsule_decode max_length (cursor_of (take k (?bs @ rest)))) =
          Inr (capsule_of (cp_type cp) (cp_value cp))"
        using capsule_decode_full [OF assms(1-3) cursor_ready_of [OF len], of "take (k - length ?bs) rest"] len by simp
      with False show ?thesis by (simp add: capsule_of_def capsule_bytes_def)
    qed
  qed
  note main = this
  show ?thesis
    unfolding Let_def by (intro conjI impI allI, rule w(1), simp only: w(2), rule main)
qed

text \<open>C18: Closing a session. A close capsule with a reason of at most 1024 bytes that fits the buffer decodes,
  under any limit of at least 1028 bytes, to a capsule the close parser answers with the same error code and
  reason exactly when the reason is UTF-8, that is, a concatenation of encoded Unicode scalar values; any other
  reason is a message error. A longer reason is refused before anything is written.\<close>

theorem wt_webtransport_close_session_exchange:
  assumes "unat cap \<le> length d" "1028 \<le> max_length"
  shows "let r = wt_webtransport_close_session_write code reason (wt_writer_init (Some d) cap) in
    (1024 < length reason \<longrightarrow> r = (WT_ERR_LIMIT, wt_writer_init (Some d) cap)) \<and>
    (fst r = WT_OK \<longrightarrow>
      (\<exists>cp. capsule_sent (wt_webtransport_close_session_write code reason) d cap max_length = Inr cp \<and>
        wt_webtransport_close_session_parse cp =
          (if \<exists>cps. list_all unicode_scalar cps \<and> reason = concat (map utf8_encode cps)
           then Inr (code, reason) else Inl (WT_ERR_PROTOCOL, WT_HTTP3_MESSAGE_ERROR))))"
proof (cases "length reason \<le> 1024")
  case False
  then show ?thesis by (simp add: wt_webtransport_close_session_write_def WT_CAPSULE_CLOSE_MAX_REASON_def Let_def)
next
  case True
  let ?v = "close_code_bytes code @ reason" and ?t = WT_CAPSULE_CLOSE_WEBTRANSPORT_SESSION
  have v: "bytes_valid ?v" "varint_valid ?t" "of_nat (length ?v) \<le> max_length"
  proof -
    have len: "length ?v \<le> 1028" using True by (simp add: close_code_bytes_def)
    then show "bytes_valid ?v" by (simp only: bytes_valid_def) simp
    show "varint_valid ?t" by (simp add: varint_valid_unat capsule_types)
    have "unat (of_nat (length ?v) :: u64) \<le> unat (1028 :: u64)" using len by (subst unat_of_nat_u64) simp_all
    with assms(2) show "of_nat (length ?v) \<le> max_length" unfolding word_le_nat_alt by linarith
  qed
  show ?thesis
    using True capsule_sent_of [OF writes_capsule_close [OF True] assms(1) _ v(2,1,3)]
      close_session_parse_of [of "capsule_of ?t ?v" code reason]
    by (simp add: capsule_of_def Let_def utf8_well_formed_iff)
qed

theorem wt_webtransport_close_session_exchange_witness:
  "\<exists>cp. capsule_sent (wt_webtransport_close_session_write 7 [0xc3, 0xa9]) (replicate 16 0) 16 2000 = Inr cp \<and>
     wt_webtransport_close_session_parse cp = Inr (7, [0xc3, 0xa9])"
proof -
  have "fst (wt_webtransport_close_session_write 7 [0xc3, 0xa9] (wt_writer_init (Some (replicate 16 0)) 16)) = WT_OK"
    using writes_capsule_init(1) [OF writes_capsule_close [of "[0xc3, 0xa9]" 7], of 16 "replicate 16 0"]
    by (simp add: capsule_bytes_def close_code_bytes_def capsule_types varint_bytes_def wt_quic_varint_encode_def
        wt_quic_varint_size_def)
  moreover have "list_all unicode_scalar [233] \<and> [0xc3, 0xa9] = concat (map utf8_encode [233])"
    by (simp add: unicode_scalar_def utf8_encode_def)
  then have "\<exists>cps. list_all unicode_scalar cps \<and> [0xc3, 0xa9] = concat (map utf8_encode cps)" by blast
  ultimately show ?thesis
    using wt_webtransport_close_session_exchange [of 16 "replicate 16 0" 2000 7 "[0xc3, 0xa9]"] by (simp add: Let_def)
qed

text \<open>The flow control capsules. Whatever limits the session advertises or reports as blocking, the peer that
  decodes the capsule and calls the matching parser reads the same values, for the session's data, a stream's data
  and the two stream counts, the direction of which travels in the capsule type; a stream count above 2^60 is
  refused by the writer before anything is written.\<close>

lemma wt_webtransport_flow_capsules_exchange:
  assumes "unat cap \<le> length d" "16 \<le> max_length" "varint_valid m" "varint_valid s"
  defines "ok f \<equiv> fst (f (wt_writer_init (Some d) cap)) = WT_OK"
    and "sent f P \<equiv> \<exists>cp. capsule_sent f d cap max_length = Inr cp \<and> P cp"
  shows "(ok (wt_webtransport_max_data_write m) \<longrightarrow>
           sent (wt_webtransport_max_data_write m) (\<lambda>cp. wt_webtransport_max_data_parse cp = Inr m)) \<and>
     (ok (wt_webtransport_data_blocked_write m) \<longrightarrow>
           sent (wt_webtransport_data_blocked_write m) (\<lambda>cp. wt_webtransport_data_blocked_parse cp = Inr m)) \<and>
     (ok (wt_webtransport_max_stream_data_write s m) \<longrightarrow>
           sent (wt_webtransport_max_stream_data_write s m) (\<lambda>cp. wt_webtransport_max_stream_data_parse cp = Inr (s, m))) \<and>
     (ok (wt_webtransport_stream_data_blocked_write s m) \<longrightarrow>
           sent (wt_webtransport_stream_data_blocked_write s m)
             (\<lambda>cp. wt_webtransport_stream_data_blocked_parse cp = Inr (s, m))) \<and>
     (ok (wt_webtransport_max_streams_write bidi m) \<longrightarrow> m \<le> WT_WEBTRANSPORT_MAX_STREAMS_VALUE \<and>
           sent (wt_webtransport_max_streams_write bidi m) (\<lambda>cp. wt_webtransport_max_streams_parse cp = Inr m \<and>
             (cp_type cp = WT_CAPSULE_MAX_STREAMS_BIDI \<longleftrightarrow> bidi))) \<and>
     (ok (wt_webtransport_streams_blocked_write bidi m) \<longrightarrow> m \<le> WT_WEBTRANSPORT_MAX_STREAMS_VALUE \<and>
           sent (wt_webtransport_streams_blocked_write bidi m) (\<lambda>cp. wt_webtransport_streams_blocked_parse cp = Inr m \<and>
             (cp_type cp = WT_CAPSULE_STREAMS_BLOCKED_BIDI \<longleftrightarrow> bidi)))"
proof -
  have types: "varint_valid WT_CAPSULE_MAX_DATA" "varint_valid WT_CAPSULE_DATA_BLOCKED" "varint_valid WT_CAPSULE_MAX_STREAM_DATA"
    "varint_valid WT_CAPSULE_STREAM_DATA_BLOCKED" "varint_valid WT_CAPSULE_MAX_STREAMS_BIDI"
    "varint_valid WT_CAPSULE_MAX_STREAMS_UNI" "varint_valid WT_CAPSULE_STREAMS_BLOCKED_BIDI" "varint_valid WT_CAPSULE_STREAMS_BLOCKED_UNI"
    by (simp_all add: varint_valid_unat capsule_types)
  have small: "bytes_valid v \<and> of_nat (length v) \<le> max_length" if "length v \<le> 16" for v :: "u8 list"
  proof -
    have "unat (of_nat (length v) :: u64) \<le> unat (16 :: u64)" using that by (subst unat_of_nat_u64) simp_all
    with assms(2) that show ?thesis unfolding word_le_nat_alt bytes_valid_def by simp
  qed
  have len: "length (varint_bytes m) \<le> 16" "length (varint_bytes s @ varint_bytes m) \<le> 16"
    using varint_size_le [of m] varint_size_le [of s] assms(3,4) by (simp_all add: length_varint_bytes)
  have one: "sent (write_one type m) P" if "ok (write_one type m)" "varint_valid type" "P (capsule_of type (varint_bytes m))"
    for type P
    using capsule_sent_of [OF writes_capsule_one [OF that(2) assms(3)] assms(1) that(1) [unfolded ok_def] that(2)]
      small [OF len(1)] that(3) by (simp add: sent_def)
  have two: "sent (write_two type s m) P"
    if "ok (write_two type s m)" "varint_valid type" "P (capsule_of type (varint_bytes s @ varint_bytes m))" for type P
    using capsule_sent_of [OF writes_capsule_two [OF that(2) assms(4,3)] assms(1) that(1) [unfolded ok_def] that(2)]
      small [OF len(2)] that(3) by (simp add: sent_def)
  have p1: "parse_one (capsule_of type (varint_bytes m)) type = Inr m"
    and p2: "parse_two (capsule_of type (varint_bytes s @ varint_bytes m)) type = Inr (s, m)"
    and t: "cp_type (capsule_of type v) = type" for type v
    by (rule parse_one_varint parse_two_varints; simp add: capsule_of_def assms)+ (simp add: capsule_of_def)
  have count: "m \<le> WT_WEBTRANSPORT_MAX_STREAMS_VALUE \<and> sent f P"
    if "ok f" "\<And>w. f w = (if \<not> stream_count_within_ceiling m then (WT_ERR_LIMIT, w) else write_one type m w)"
      "varint_valid type" "stream_count_within_ceiling m \<Longrightarrow> P (capsule_of type (varint_bytes m))" for f type P
  proof -
    have c: "stream_count_within_ceiling m" using that(1,2) by (auto simp: ok_def split: if_splits)
    then have "f = write_one type m" using that(2) by (simp add: fun_eq_iff)
    with one that c show ?thesis by (simp add: stream_count_within_ceiling_def)
  qed
  have bidi: "(ok (wt_webtransport_max_streams_write bidi m) \<longrightarrow> m \<le> WT_WEBTRANSPORT_MAX_STREAMS_VALUE \<and>
      sent (wt_webtransport_max_streams_write bidi m) (\<lambda>cp. wt_webtransport_max_streams_parse cp = Inr m \<and>
        (cp_type cp = WT_CAPSULE_MAX_STREAMS_BIDI \<longleftrightarrow> bidi)))"
    by (rule impI, rule count [of _ "if bidi then WT_CAPSULE_MAX_STREAMS_BIDI else WT_CAPSULE_MAX_STREAMS_UNI"])
      (simp_all add: wt_webtransport_max_streams_write_def wt_webtransport_max_streams_parse_def parse_stream_count_def
        p1 t varint_valid_unat capsule_types)
  have blocked: "(ok (wt_webtransport_streams_blocked_write bidi m) \<longrightarrow> m \<le> WT_WEBTRANSPORT_MAX_STREAMS_VALUE \<and>
      sent (wt_webtransport_streams_blocked_write bidi m) (\<lambda>cp. wt_webtransport_streams_blocked_parse cp = Inr m \<and>
        (cp_type cp = WT_CAPSULE_STREAMS_BLOCKED_BIDI \<longleftrightarrow> bidi)))"
    by (rule impI, rule count [of _ "if bidi then WT_CAPSULE_STREAMS_BLOCKED_BIDI else WT_CAPSULE_STREAMS_BLOCKED_UNI"])
      (simp_all add: wt_webtransport_streams_blocked_write_def wt_webtransport_streams_blocked_parse_def
        parse_stream_count_def p1 t varint_valid_unat capsule_types)
  show ?thesis
    using bidi blocked one [OF _ types(1)] one [OF _ types(2)] two [OF _ types(3)] two [OF _ types(4)]
    by (simp add: wt_webtransport_max_data_write_def wt_webtransport_data_blocked_write_def
        wt_webtransport_max_stream_data_write_def wt_webtransport_stream_data_blocked_write_def
        wt_webtransport_max_data_parse_def wt_webtransport_data_blocked_parse_def
        wt_webtransport_max_stream_data_parse_def wt_webtransport_stream_data_blocked_parse_def p1 p2)
qed

text \<open>Streams and datagrams name the same session. The prefix written for a session's stream parses back to
  the direction and the session; the quarter identifier a datagram carries parses back with the payload and
  multiplies to the session again; and whatever quarter identifier a datagram brings, the product does not wrap
  and names a client-initiated bidirectional stream.\<close>

lemma wt_webtransport_session_association:
  assumes "varint_valid s" "wt_webtransport_is_session_stream_id s" "unat cap \<le> length d"
    and "wt_webtransport_stream_prefix_write uni s (wt_writer_init (Some d) cap) = (st1, w1)"
    and "wt_webtransport_datagram_write (wt_webtransport_quarter_stream_id s) payload (wt_writer_init (Some d) cap) = (st2, w2)"
  shows "(st1 = WT_OK \<longrightarrow> fst (wt_webtransport_stream_prefix_parse (cursor_of (writer_out w1))) = Inr (uni, s)) \<and>
    (st2 = WT_OK \<longrightarrow> wt_webtransport_datagram_parse (Some (writer_out w2)) (of_nat (length (writer_out w2))) =
        Inr (wt_webtransport_quarter_stream_id s, payload)) \<and>
    wt_webtransport_session_id_from_quarter (wt_webtransport_quarter_stream_id s) = s \<and>
    (\<forall>bs n q p. wt_webtransport_datagram_parse bs n = Inr (q, p) \<longrightarrow>
       unat (wt_webtransport_session_id_from_quarter q) = 4 * unat q \<and>
       wt_webtransport_is_session_stream_id (wt_webtransport_session_id_from_quarter q))"
proof (intro conjI impI allI)
  let ?t = "if uni then WT_WEBTRANSPORT_STREAM_UNI else WT_WEBTRANSPORT_STREAM_BIDI" and ?q = "wt_webtransport_quarter_stream_id s"
  have vt: "varint_valid ?t" by (simp add: varint_valid_unat WT_WEBTRANSPORT_STREAM_UNI_def WT_WEBTRANSPORT_STREAM_BIDI_def)
  have vq: "varint_valid ?q"
    using assms(1) by (simp add: varint_valid_unat wt_webtransport_quarter_stream_id_def unat_div)
  have e1: "wt_webtransport_stream_prefix_write uni s = emit_status [put_varint ?t, put_varint s]"
    using assms(2) by (simp add: wt_webtransport_stream_prefix_write_def fun_eq_iff)
  have l1: "list_all2 writes [put_varint ?t, put_varint s] [varint_bytes ?t, varint_bytes s]"
    using vt assms(1) by (simp add: writes_varint)
  show "fst (wt_webtransport_stream_prefix_parse (cursor_of (writer_out w1))) = Inr (uni, s)" if "st1 = WT_OK"
    using status_writer_out [OF e1 l1 assms(3)] assms(4) that
      reads_of [OF reads_stream_prefix [OF assms(1,2), of uni], of "[]"] by simp
  show "wt_webtransport_datagram_parse (Some (writer_out w2)) (of_nat (length (writer_out w2))) = Inr (?q, payload)"
    if "st2 = WT_OK"
  proof -
    note o = datagram_write_out [OF vq assms(3), of payload w2]
    show ?thesis using o assms(5) that datagram_parse_of [OF vq] by simp
  qed
  show "wt_webtransport_session_id_from_quarter ?q = s" by (rule quarter_round_trip) (rule assms)
  show "unat (wt_webtransport_session_id_from_quarter q) = 4 * unat q"
    "wt_webtransport_is_session_stream_id (wt_webtransport_session_id_from_quarter q)"
    if "wt_webtransport_datagram_parse bs n = Inr (q, p)" for bs n q p
    using quarter_session datagram_parse_valid [OF that] by blast+
qed

end
