(* ===== verification/Webtransport_Session.thy ===== *)
theory Webtransport_Session
  imports Webtransport_Framing
begin

text \<open>
  The lifecycle of a session and the walk over the capsules of its CONNECT stream
  (\<open>C99/src/webtransport/session.c\<close>): the operations, the step relation they generate, and the proof that the
  walk does not depend on how the bytes are cut into deliveries.
\<close>

subsection \<open>The session (session.c)\<close>

datatype wt_webtransport_session_state =
    WT_WEBTRANSPORT_SESSION_ESTABLISHING
  | WT_WEBTRANSPORT_SESSION_ESTABLISHED
  | WT_WEBTRANSPORT_SESSION_DRAINING
  | WT_WEBTRANSPORT_SESSION_CLOSED

record wt_webtransport_session =
  ss_state :: wt_webtransport_session_state
  ss_close_error_code :: u32
  ss_close_error_set :: bool
  ss_drain_sent :: bool
  ss_drain_received :: bool
  ss_close_sent :: bool
  ss_close_received :: bool

definition wt_webtransport_session_init :: wt_webtransport_session where
  "wt_webtransport_session_init =
     \<lparr>ss_state = WT_WEBTRANSPORT_SESSION_ESTABLISHING, ss_close_error_code = 0, ss_close_error_set = False,
      ss_drain_sent = False, ss_drain_received = False, ss_close_sent = False, ss_close_received = False\<rparr>"

definition wt_webtransport_session_established :: "wt_webtransport_session \<Rightarrow> wt_status \<times> wt_webtransport_session" where
  "wt_webtransport_session_established s =
     (if ss_state s \<noteq> WT_WEBTRANSPORT_SESSION_ESTABLISHING then (WT_ERR_STATE, s)
      else (WT_OK, s\<lparr>ss_state := WT_WEBTRANSPORT_SESSION_ESTABLISHED\<rparr>))"

definition wt_webtransport_session_on_drain ::
  "wt_webtransport_session \<Rightarrow> bool \<Rightarrow> wt_status \<times> wt_webtransport_session" where
  "wt_webtransport_session_on_drain s sent =
     (if ss_state s = WT_WEBTRANSPORT_SESSION_CLOSED then (WT_ERR_STATE, s)
      else
        let s1 = (if sent then s\<lparr>ss_drain_sent := True\<rparr> else s\<lparr>ss_drain_received := True\<rparr>)
        in (WT_OK, if ss_state s1 = WT_WEBTRANSPORT_SESSION_ESTABLISHED
                   then s1\<lparr>ss_state := WT_WEBTRANSPORT_SESSION_DRAINING\<rparr> else s1))"

definition wt_webtransport_session_on_close ::
  "wt_webtransport_session \<Rightarrow> bool \<Rightarrow> u32 \<Rightarrow> wt_status \<times> wt_webtransport_session" where
  "wt_webtransport_session_on_close s sent error_code =
     (let s1 = (if sent then s\<lparr>ss_close_sent := True\<rparr> else s\<lparr>ss_close_received := True\<rparr>);
          s2 = (if \<not> ss_close_error_set s1
                then s1\<lparr>ss_close_error_code := error_code, ss_close_error_set := True\<rparr> else s1)
      in (WT_OK, s2\<lparr>ss_state := WT_WEBTRANSPORT_SESSION_CLOSED\<rparr>))"

definition wt_webtransport_session_on_stream_end :: "wt_webtransport_session \<Rightarrow> wt_status \<times> wt_webtransport_session" where
  "wt_webtransport_session_on_stream_end s =
     (if ss_state s = WT_WEBTRANSPORT_SESSION_CLOSED then (WT_ERR_STATE, s)
      else (WT_OK, s\<lparr>ss_state := WT_WEBTRANSPORT_SESSION_CLOSED\<rparr>))"

definition wt_webtransport_session_allows_new_streams :: "wt_webtransport_session \<Rightarrow> bool" where
  "wt_webtransport_session_allows_new_streams s \<longleftrightarrow> ss_state s = WT_WEBTRANSPORT_SESSION_ESTABLISHED"

definition wt_webtransport_session_write_drain ::
  "wt_webtransport_session \<Rightarrow> wt_writer \<Rightarrow> wt_status \<times> wt_webtransport_session \<times> wt_writer" where
  "wt_webtransport_session_write_drain s w =
     (if ss_state s = WT_WEBTRANSPORT_SESSION_CLOSED then (WT_ERR_STATE, s, w)
      else case wt_webtransport_drain_session_write w of
        (status, w') \<Rightarrow>
          if status \<noteq> WT_OK then (status, s, w')
          else case wt_webtransport_session_on_drain s True of (st, s') \<Rightarrow> (st, s', w'))"

definition wt_webtransport_session_write_close ::
  "wt_webtransport_session \<Rightarrow> wt_writer \<Rightarrow> u32 \<Rightarrow> u8 list \<Rightarrow> wt_status \<times> wt_webtransport_session \<times> wt_writer" where
  "wt_webtransport_session_write_close s w error_code reason =
     (if ss_state s = WT_WEBTRANSPORT_SESSION_CLOSED then (WT_ERR_STATE, s, w)
      else if ss_state s = WT_WEBTRANSPORT_SESSION_ESTABLISHING then (WT_ERR_STATE, s, w)
      else case wt_webtransport_close_session_write error_code reason w of
        (status, w') \<Rightarrow>
          if status \<noteq> WT_OK then (status, s, w')
          else case wt_webtransport_session_on_close s True error_code of (st, s') \<Rightarrow> (st, s', w'))"

text \<open>
  The caller's observer and its context are parameters: it answers \<open>None\<close> for \<open>WT_OK\<close>, or its status and the
  HTTP/3 error it set.
\<close>

type_synonym 'k wt_webtransport_capsule_fn = "'k \<Rightarrow> wt_webtransport_capsule \<Rightarrow> http3_fail option \<times> 'k"

text \<open>What one complete capsule does; \<open>ahead\<close> is the cursor behind it.\<close>

definition on_capsule ::
  "'k wt_webtransport_capsule_fn option \<Rightarrow> wt_cursor \<Rightarrow> wt_webtransport_capsule \<Rightarrow>
   wt_webtransport_session \<times> 'k \<Rightarrow> http3_fail option \<times> wt_webtransport_session \<times> 'k" where
  "on_capsule observe ahead capsule = (\<lambda>(s, k).
     if cp_type capsule = WT_CAPSULE_DRAIN_SESSION then
       if length (cp_value capsule) \<noteq> 0 then (Some (WT_ERR_PROTOCOL, WT_HTTP3_MESSAGE_ERROR), s, k)
       else case wt_webtransport_session_on_drain s False of
         (st, s') \<Rightarrow> (if st = WT_OK then None else Some (st, WT_HTTP3_NO_ERROR), s', k)
     else if cp_type capsule = WT_CAPSULE_CLOSE_WEBTRANSPORT_SESSION then
       case wt_webtransport_close_session_parse capsule of
         Inl e \<Rightarrow> (Some e, s, k)
       | Inr (code, reason) \<Rightarrow>
           (case wt_webtransport_session_on_close s False code of
              (st, s') \<Rightarrow>
                if st = WT_OK \<and> wt_cursor_remaining ahead > 0 then (Some (WT_ERR_PROTOCOL, WT_HTTP3_MESSAGE_ERROR), s', k)
                else (if st = WT_OK then None else Some (st, WT_HTTP3_NO_ERROR), s', k))
     else case observe of
       Some f \<Rightarrow> (case f k capsule of (r, k') \<Rightarrow> (r, s, k'))
     | None \<Rightarrow> (None, s, k))"

text \<open>The walk ends because a decoded capsule has taken at least its type from the cursor.\<close>

lemma capsule_decode_progress:
  assumes "wt_webtransport_capsule_decode max_length c = (Inr cp, c')"
  shows "wt_cursor_remaining c' < wt_cursor_remaining c"
proof -
  obtain t c1 n c2 v where r: "varint_or (WT_ERR_TRUNCATED, WT_HTTP3_NO_ERROR) c = (Inr t, c1)"
    "varint_or (WT_ERR_TRUNCATED, WT_HTTP3_NO_ERROR) c1 = (Inr n, c2)"
    "view_or (WT_ERR_TRUNCATED, WT_HTTP3_NO_ERROR) n c2 = (Inr v, c')"
    using assms by (auto simp: wt_webtransport_capsule_decode_def rbind_def rfail_def
        split: prod.splits sum.splits if_splits)
  have "wt_cursor_remaining c' \<le> wt_cursor_remaining c2"
    using reader_shrinksD [OF view_or_shrinks r(3)] .
  with varint_or_progress [OF r(1)] varint_or_progress [OF r(2)] show ?thesis by order
qed

function capsule_walk ::
  "'k wt_webtransport_capsule_fn option \<Rightarrow> u64 \<Rightarrow> wt_cursor \<Rightarrow> wt_webtransport_session \<times> 'k \<Rightarrow>
   http3_fail option \<times> wt_cursor \<times> wt_webtransport_session \<times> 'k" where
  "capsule_walk observe max_bytes cursor sk =
     (if wt_cursor_remaining cursor = 0 then (None, cursor, sk)
      else case wt_webtransport_capsule_decode max_bytes cursor of
        (Inl (status, error), ahead) \<Rightarrow>
          if status = WT_ERR_TRUNCATED then (Some (WT_ERR_TRUNCATED, WT_HTTP3_NO_ERROR), cursor, sk)
          else (Some (status, error), cursor, sk)
      | (Inr capsule, ahead) \<Rightarrow>
          (case on_capsule observe ahead capsule sk of
             (Some e, sk') \<Rightarrow> (Some e, cursor, sk')
           | (None, sk') \<Rightarrow> capsule_walk observe max_bytes ahead sk'))"
  by pat_completeness auto
termination
  by (relation "measure (\<lambda>(observe, max_bytes, cursor, sk). unat (wt_cursor_remaining cursor))")
    (auto simp: word_less_nat_alt [symmetric] intro: capsule_decode_progress [OF sym])

declare capsule_walk.simps [simp del]

definition wt_webtransport_session_on_capsule_bytes ::
  "'k wt_webtransport_capsule_fn option \<Rightarrow> u64 \<Rightarrow> wt_cursor \<Rightarrow> wt_webtransport_session \<times> 'k \<Rightarrow>
   http3_fail option \<times> wt_cursor \<times> wt_webtransport_session \<times> 'k" where
  "wt_webtransport_session_on_capsule_bytes observe max_bytes cursor sk =
     (if ss_state (fst sk) = WT_WEBTRANSPORT_SESSION_CLOSED \<and> wt_cursor_remaining cursor > 0
      then (Some (WT_ERR_PROTOCOL, WT_HTTP3_MESSAGE_ERROR), cursor, sk)
      else capsule_walk observe max_bytes cursor sk)"

subsection \<open>Decoding does not depend on the bytes behind\<close>

text \<open>
  A reader is stable when more bytes behind the cursor change nothing but the answer \<open>t\<close>, the one that says
  that the bytes have run out.
\<close>

definition prefix_stable :: "'e \<Rightarrow> ('e, 'a) xreader \<Rightarrow> bool" where
  "prefix_stable t m \<longleftrightarrow>
     (\<forall>c d b. cursor_ready c \<and> cursor_ready d \<and> cursor_view d = cursor_view c @ b \<longrightarrow>
        (case m c of
           (Inl e, c') \<Rightarrow> e = t \<or> fst (m d) = Inl e
         | (Inr x, c') \<Rightarrow> \<exists>n \<le> length (cursor_view c). c' = cursor_advance c n \<and> m d = (Inr x, cursor_advance d n)))"

lemma stableD:
  assumes "prefix_stable t m" "cursor_ready c" "cursor_ready d" "cursor_view d = cursor_view c @ b"
  shows "m c = (Inl e, c') \<Longrightarrow> e = t \<or> fst (m d) = Inl e"
    "m c = (Inr x, c') \<Longrightarrow> \<exists>n \<le> length (cursor_view c). c' = cursor_advance c n \<and> m d = (Inr x, cursor_advance d n)"
proof -
  have "case m c of (Inl e, c') \<Rightarrow> e = t \<or> fst (m d) = Inl e
    | (Inr x, c') \<Rightarrow> \<exists>n \<le> length (cursor_view c). c' = cursor_advance c n \<and> m d = (Inr x, cursor_advance d n)"
    by (rule assms(1) [unfolded prefix_stable_def, rule_format, OF conjI [OF assms(2) conjI [OF assms(3,4)]]])
  then show "m c = (Inl e, c') \<Longrightarrow> e = t \<or> fst (m d) = Inl e"
    "m c = (Inr x, c') \<Longrightarrow> \<exists>n \<le> length (cursor_view c). c' = cursor_advance c n \<and> m d = (Inr x, cursor_advance d n)"
    by simp_all
qed

lemma stable_fail: "prefix_stable t (rfail e)"
  by (simp add: prefix_stable_def rfail_def)

lemma stable_return: "prefix_stable t (rreturn x)"
  unfolding prefix_stable_def rreturn_def by (auto intro!: exI [of _ 0])

lemma stable_bind:
  assumes "prefix_stable t m" "\<And>x. prefix_stable t (f x)"
  shows "prefix_stable t (rbind m f)"
  unfolding prefix_stable_def
proof (intro allI impI)
  fix c d b assume r: "cursor_ready c \<and> cursor_ready d \<and> cursor_view d = cursor_view c @ b"
  show "case rbind m f c of (Inl e, c') \<Rightarrow> e = t \<or> fst (rbind m f d) = Inl e
    | (Inr x, c') \<Rightarrow> \<exists>n \<le> length (cursor_view c). c' = cursor_advance c n \<and> rbind m f d = (Inr x, cursor_advance d n)"
  proof (cases "m c")
    case (Pair o1 c1)
    show ?thesis
    proof (cases o1)
      case (Inl e)
      then show ?thesis
        using stableD(1) [OF assms(1), of c d b e c1] r Pair rbind_stop [of m d e f] by (auto simp: rbind_def)
    next
      case (Inr x)
      then obtain n where n: "n \<le> length (cursor_view c)" "c1 = cursor_advance c n" "m d = (Inr x, cursor_advance d n)"
        using stableD(2) [OF assms(1), of c d b x c1] r Pair by auto
      have c1: "cursor_ready c1" "cursor_view c1 = drop n (cursor_view c)"
        using cursor_ready_advance [of c n] r n by simp_all
      have d1: "cursor_ready (cursor_advance d n)" "cursor_view (cursor_advance d n) = cursor_view c1 @ b"
        using cursor_ready_advance [of d n] r n c1(2) by simp_all
      note st = stableD [OF assms(2) c1(1) d1, of x]
      have eq: "rbind m f c = f x c1" "rbind m f d = f x (cursor_advance d n)"
        using Pair Inr n(3) by (simp_all add: rbind_def)
      show ?thesis
      proof (cases "f x c1")
        case (Pair o2 c2)
        show ?thesis
        proof (cases o2)
          case (Inl e)
          then show ?thesis using st(1) Pair by (simp add: eq)
        next
          case (Inr y)
          then obtain k where "k \<le> length (cursor_view c1)" "c2 = cursor_advance c1 k"
            "f x (cursor_advance d n) = (Inr y, cursor_advance (cursor_advance d n) k)"
            using st(2) Pair by blast
          then show ?thesis using n(1,2) c1(2) Pair Inr
            by (auto simp: eq cursor_advance_add intro!: exI [of _ "n + k"])
        qed
      qed
    qed
  qed
qed

lemma stable_if: "prefix_stable t x \<Longrightarrow> prefix_stable t y \<Longrightarrow> prefix_stable t (if p then x else y)"
  by simp

lemma stable_varint_or: "prefix_stable t (varint_or t)"
  unfolding prefix_stable_def
proof (intro allI impI)
  fix c d b assume r: "cursor_ready c \<and> cursor_ready d \<and> cursor_view d = cursor_view c @ b"
  show "case varint_or t c of (Inl e, c') \<Rightarrow> e = t \<or> fst (varint_or t d) = Inl e
    | (Inr x, c') \<Rightarrow> \<exists>n \<le> length (cursor_view c). c' = cursor_advance c n \<and> varint_or t d = (Inr x, cursor_advance d n)"
  proof (cases "cursor_view c")
    case Nil
    then have "wt_cursor_remaining c = 0" using r cursor_remaining_view [of c] by (simp add: cursor_ready_def unat_eq_0)
    then show ?thesis by (simp add: varint_or_def wt_quic_varint_decode_def wt_quic_varint_decode_sized_def)
  next
    case (Cons x xs)
    let ?n = "2 ^ (unat x div 64) :: nat"
    have d: "cursor_view d = x # (xs @ b)" using r Cons by simp
    have tk: "take ?n (x # xs) = take ?n (x # (xs @ b))" if "?n - 1 \<le> length xs"
      using that by (cases ?n) auto
    show ?thesis
      using varint_decode_cases [OF _ Cons] varint_decode_cases [OF _ d] r tk Cons
      by (auto simp: varint_or_def wt_quic_varint_decode_def split: if_splits intro!: exI [of _ ?n])
  qed
qed

lemma stable_view_or: "prefix_stable t (view_or t n)"
  unfolding prefix_stable_def
proof (intro allI impI)
  fix c d b assume r: "cursor_ready c \<and> cursor_ready d \<and> cursor_view d = cursor_view c @ b"
  have n: "of_nat (unat n) = n" "unat n < 2 ^ 64" using unat_u64_less [of n] by simp_all
  show "case view_or t n c of (Inl e, c') \<Rightarrow> e = t \<or> fst (view_or t n d) = Inl e
    | (Inr x, c') \<Rightarrow> \<exists>k \<le> length (cursor_view c). c' = cursor_advance c k \<and> view_or t n d = (Inr x, cursor_advance d k)"
  proof (cases "unat n \<le> length (cursor_view c)")
    case True
    then show ?thesis
      using cursor_take_advance [of c "unat n"] cursor_take_advance [of d "unat n"] r n(1)
      by (auto simp: view_or_def wt_cursor_bytes_def intro!: exI [of _ "unat n"])
  next
    case False
    then have "n \<noteq> 0" by auto
    with False show ?thesis
      using cursor_take_short [of c "unat n"] r n by (simp add: view_or_def wt_cursor_bytes_def)
  qed
qed

lemmas stable_intros = stable_bind stable_if stable_fail stable_return stable_varint_or stable_view_or

text \<open>The capsule decoder reads the type and the value and measures what it took.\<close>

definition capsule_fields :: "u64 \<Rightarrow> (http3_fail, u64 \<times> u8 list) xreader" where
  "capsule_fields max_length =
     rbind (varint_or (WT_ERR_TRUNCATED, WT_HTTP3_NO_ERROR)) (\<lambda>type.
     rbind (varint_or (WT_ERR_TRUNCATED, WT_HTTP3_NO_ERROR)) (\<lambda>len.
     if len > max_length then rfail (WT_ERR_LIMIT, WT_HTTP3_EXCESSIVE_LOAD)
     else rbind (view_or (WT_ERR_TRUNCATED, WT_HTTP3_NO_ERROR) len) (\<lambda>v. rreturn (type, v))))"

lemma capsule_decode_fields:
  "wt_webtransport_capsule_decode max_length c =
     (case capsule_fields max_length c of
        (Inl e, c') \<Rightarrow> (Inl e, c')
      | (Inr (type, v), c') \<Rightarrow>
          (Inr \<lparr>cp_type = type, cp_value = v,
                cp_bytes_consumed = wt_cursor_remaining c - wt_cursor_remaining c'\<rparr>, c'))"
  by (simp add: wt_webtransport_capsule_decode_def capsule_fields_def rbind_def rfail_def rreturn_def
      split: prod.splits sum.splits)

lemma stable_capsule_fields: "prefix_stable (WT_ERR_TRUNCATED, WT_HTTP3_NO_ERROR) (capsule_fields max_length)"
  unfolding capsule_fields_def by (intro stable_intros)

lemma stable_capsule_decode: "prefix_stable (WT_ERR_TRUNCATED, WT_HTTP3_NO_ERROR) (wt_webtransport_capsule_decode max_length)"
  unfolding prefix_stable_def
proof (intro allI impI)
  fix c d b assume r: "cursor_ready c \<and> cursor_ready d \<and> cursor_view d = cursor_view c @ b"
  note st = stableD [OF stable_capsule_fields [of max_length], of c d b]
  show "case wt_webtransport_capsule_decode max_length c of
      (Inl e, c') \<Rightarrow> e = (WT_ERR_TRUNCATED, WT_HTTP3_NO_ERROR) \<or> fst (wt_webtransport_capsule_decode max_length d) = Inl e
    | (Inr x, c') \<Rightarrow> \<exists>n \<le> length (cursor_view c). c' = cursor_advance c n \<and>
        wt_webtransport_capsule_decode max_length d = (Inr x, cursor_advance d n)"
  proof (cases "capsule_fields max_length c")
    case (Pair o1 c1)
    show ?thesis
    proof (cases o1)
      case (Inl e)
      then show ?thesis using st(1) [of e c1] r Pair
        by (auto simp: capsule_decode_fields split: prod.splits sum.splits)
    next
      case (Inr p)
      then obtain n where n: "n \<le> length (cursor_view c)" "c1 = cursor_advance c n"
        "capsule_fields max_length d = (Inr p, cursor_advance d n)"
        using st(2) [of p c1] r Pair by auto
      have "wt_cursor_remaining c - wt_cursor_remaining (cursor_advance c n) =
          wt_cursor_remaining d - wt_cursor_remaining (cursor_advance d n)"
        using remaining_advance [of c n] remaining_advance [of d n] r n(1) by simp
      then show ?thesis using n Pair Inr by (cases p) (auto simp: capsule_decode_fields)
    qed
  qed
qed

subsection \<open>The walk over the capsules\<close>

text \<open>An observer must not use the status by which the walk says that it waits for bytes.\<close>

definition observer_decides :: "'k wt_webtransport_capsule_fn option \<Rightarrow> bool" where
  "observer_decides observe \<longleftrightarrow> (\<forall>f k cp e. observe = Some f \<longrightarrow> fst (f k cp) \<noteq> Some (WT_ERR_TRUNCATED, e))"

text \<open>The walk stopped for want of bytes.\<close>

definition waits :: "http3_fail option \<Rightarrow> bool" where
  "waits r \<longleftrightarrow> r = None \<or> r = Some (WT_ERR_TRUNCATED, WT_HTTP3_NO_ERROR)"

text \<open>Two walks agree: same answer, same session and context, and the same bytes left when both wait.\<close>

definition walks_agree ::
  "http3_fail option \<times> wt_cursor \<times> 'a \<Rightarrow> http3_fail option \<times> wt_cursor \<times> 'a \<Rightarrow> bool" where
  "walks_agree x y \<longleftrightarrow> fst x = fst y \<and> snd (snd x) = snd (snd y) \<and>
     (waits (fst x) \<longrightarrow> cursor_view (fst (snd x)) = cursor_view (fst (snd y)))"

lemma remaining_0_iff: "cursor_ready c \<Longrightarrow> wt_cursor_remaining c = 0 \<longleftrightarrow> cursor_view c = []"
  using cursor_remaining_view [of c] by (auto simp: cursor_ready_def unat_eq_0)

lemma remaining_pos_iff: "cursor_ready c \<Longrightarrow> 0 < wt_cursor_remaining c \<longleftrightarrow> cursor_view c \<noteq> []"
  using remaining_0_iff [of c] by (simp add: word_neq_0_conv [symmetric])

text \<open>An observed capsule acts in the same way whatever follows it, except that nothing may follow a close.\<close>

lemma on_capsule_ahead:
  assumes "on_capsule observe ahead cp sk = (r, sk')" "0 < wt_cursor_remaining ahead \<Longrightarrow> 0 < wt_cursor_remaining ahead'"
  shows "on_capsule observe ahead' cp sk = (r, sk') \<or>
    r = None \<and> ss_state (fst sk') = WT_WEBTRANSPORT_SESSION_CLOSED \<and> \<not> 0 < wt_cursor_remaining ahead \<and>
    0 < wt_cursor_remaining ahead' \<and>
    on_capsule observe ahead' cp sk = (Some (WT_ERR_PROTOCOL, WT_HTTP3_MESSAGE_ERROR), sk')"
  using assms
  by (auto simp: on_capsule_def wt_webtransport_session_on_close_def Let_def split: prod.splits sum.splits option.splits if_splits)

lemma on_capsule_closes:
  assumes "on_capsule observe ahead cp sk = (None, sk')" "ss_state (fst sk) \<noteq> WT_WEBTRANSPORT_SESSION_CLOSED"
    "ss_state (fst sk') = WT_WEBTRANSPORT_SESSION_CLOSED"
  shows "\<not> 0 < wt_cursor_remaining ahead"
  using assms
  by (auto simp: on_capsule_def wt_webtransport_session_on_drain_def Let_def split: prod.splits sum.splits option.splits if_splits)

lemma on_capsule_answers:
  assumes "on_capsule observe ahead cp sk = (Some e, sk')" "observer_decides observe"
    "ss_state (fst sk) \<noteq> WT_WEBTRANSPORT_SESSION_CLOSED"
  shows "\<not> waits (Some e)"
proof -
  have parse: "fst e' \<noteq> WT_ERR_TRUNCATED" if "wt_webtransport_close_session_parse cp = Inl e'" for e'
    using that by (auto simp: wt_webtransport_close_session_parse_def Let_def split: if_splits)
  have obs: "fst e \<noteq> WT_ERR_TRUNCATED" if "observe = Some f" "f k cp = (Some e, k')" for f k k'
    using assms(2) that unfolding observer_decides_def by (metis fst_conv prod.collapse)
  obtain s k where sk: "sk = (s, k)" by fastforce
  have "fst e \<noteq> WT_ERR_TRUNCATED"
    using assms(1,3) parse obs
    by (auto simp: sk on_capsule_def wt_webtransport_session_on_drain_def wt_webtransport_session_on_close_def Let_def
        split: prod.splits sum.splits option.splits if_splits)
  then show ?thesis by (auto simp: waits_def)
qed

lemma capsule_decode_fails:
  "wt_webtransport_capsule_decode max_length c = (Inl (st, e), c') \<Longrightarrow>
   (st, e) = (WT_ERR_TRUNCATED, WT_HTTP3_NO_ERROR) \<or> (st, e) = (WT_ERR_LIMIT, WT_HTTP3_EXCESSIVE_LOAD)"
  by (auto simp: wt_webtransport_capsule_decode_def rbind_def rfail_def varint_or_def view_or_def
      split: prod.splits sum.splits option.splits if_splits)

text \<open>The walk sees nothing of the cursor but the bytes it has left.\<close>

lemma capsule_decode_view:
  assumes "cursor_ready c" "cursor_ready d" "cursor_view d = cursor_view c"
  shows "wt_webtransport_capsule_decode max_length c = (Inr cp, c') \<Longrightarrow>
      \<exists>n \<le> length (cursor_view c). c' = cursor_advance c n \<and> wt_webtransport_capsule_decode max_length d = (Inr cp, cursor_advance d n)"
    "wt_webtransport_capsule_decode max_length c = (Inl e, c') \<Longrightarrow> \<exists>d'. wt_webtransport_capsule_decode max_length d = (Inl e, d')"
proof -
  note s = stableD [OF stable_capsule_decode assms(1,2), of "[]"]
  note s' = stableD [OF stable_capsule_decode assms(2,1), of "[]"]
  show "wt_webtransport_capsule_decode max_length c = (Inr cp, c') \<Longrightarrow>
      \<exists>n \<le> length (cursor_view c). c' = cursor_advance c n \<and> wt_webtransport_capsule_decode max_length d = (Inr cp, cursor_advance d n)"
    using s(2) assms(3) by simp
  assume c: "wt_webtransport_capsule_decode max_length c = (Inl e, c')"
  show "\<exists>d'. wt_webtransport_capsule_decode max_length d = (Inl e, d')"
  proof (cases "wt_webtransport_capsule_decode max_length d")
    case (Pair od d')
    show ?thesis
    proof (cases od)
      case (Inl e')
      then show ?thesis
        using s(1) [of max_length e c'] s'(1) [of max_length e' d'] c Pair assms(3) by auto
    next
      case (Inr y)
      then show ?thesis using s'(2) [of max_length y d'] c Pair assms(3) by auto
    qed
  qed
qed

lemma capsule_walk_view:
  assumes "cursor_ready c" "cursor_ready d" "cursor_view d = cursor_view c"
  shows "fst (capsule_walk observe max_bytes c sk) = fst (capsule_walk observe max_bytes d sk) \<and>
    snd (snd (capsule_walk observe max_bytes c sk)) = snd (snd (capsule_walk observe max_bytes d sk)) \<and>
    cursor_view (fst (snd (capsule_walk observe max_bytes c sk))) = cursor_view (fst (snd (capsule_walk observe max_bytes d sk)))"
  using assms
proof (induction observe max_bytes c sk arbitrary: d rule: capsule_walk.induct)
  case (1 observe max_bytes c sk)
  have rem: "wt_cursor_remaining c = 0 \<longleftrightarrow> wt_cursor_remaining d = 0"
    using "1.prems" by (simp add: remaining_0_iff)
  show ?case
  proof (cases "wt_cursor_remaining c = 0")
    case True
    with rem "1.prems" show ?thesis by (simp add: capsule_walk.simps [of _ _ c] capsule_walk.simps [of _ _ d])
  next
    case False
    note ne = this
    obtain oc c' where c: "wt_webtransport_capsule_decode max_bytes c = (oc, c')" by fastforce
    show ?thesis
    proof (cases oc)
      case (Inl e)
      then obtain d' where "wt_webtransport_capsule_decode max_bytes d = (Inl e, d')"
        using capsule_decode_view(2) [OF "1.prems"] c by blast
      with Inl c ne rem "1.prems" show ?thesis
        by (simp add: capsule_walk.simps [of _ _ c] capsule_walk.simps [of _ _ d] split: prod.splits)
    next
      case (Inr cp)
      then obtain n where n: "n \<le> length (cursor_view c)" "c' = cursor_advance c n"
        "wt_webtransport_capsule_decode max_bytes d = (Inr cp, cursor_advance d n)"
        using capsule_decode_view(1) [OF "1.prems"] c by blast
      have r: "cursor_ready c'" "cursor_ready (cursor_advance d n)" "cursor_view (cursor_advance d n) = cursor_view c'"
        using cursor_ready_advance [of c n] cursor_ready_advance [of d n] n "1.prems" by simp_all
      have "wt_cursor_remaining c' = wt_cursor_remaining (cursor_advance d n)"
        using r cursor_remaining_view [of c'] cursor_remaining_view [of "cursor_advance d n"]
        by (simp add: cursor_ready_def word_unat_eq_iff)
      then have same: "on_capsule observe (cursor_advance d n) cp = on_capsule observe c' cp"
        unfolding on_capsule_def by (simp only:)
      obtain r1 sk1 where on: "on_capsule observe c' cp sk = (r1, sk1)" by (meson surj_pair)
      show ?thesis
      proof (cases r1)
        case None
        have "capsule_walk observe max_bytes c sk = capsule_walk observe max_bytes c' sk1"
          "capsule_walk observe max_bytes d sk = capsule_walk observe max_bytes (cursor_advance d n) sk1"
          using ne rem c Inr n(3) on None same
          by (simp_all add: capsule_walk.simps [of _ _ c] capsule_walk.simps [of _ _ d])
        with "1.IH" [OF ne c [symmetric] Inr on [symmetric] None r] show ?thesis by simp
      next
        case (Some e)
        with ne rem c Inr n(3) on same "1.prems" show ?thesis
          by (simp add: capsule_walk.simps [of _ _ c] capsule_walk.simps [of _ _ d])
      qed
    qed
  qed
qed

text \<open>
  A walk over the first bytes and, when it waits, a second one over what it left with the rest behind, is a walk
  over all the bytes.
\<close>

definition resumes ::
  "'k wt_webtransport_capsule_fn option \<Rightarrow> u64 \<Rightarrow> u8 list \<Rightarrow> http3_fail option \<times> wt_cursor \<times> wt_webtransport_session \<times> 'k \<Rightarrow>
   http3_fail option \<times> wt_cursor \<times> wt_webtransport_session \<times> 'k \<Rightarrow> bool" where
  "resumes observe max_bytes b first whole \<longleftrightarrow>
     (if waits (fst first)
      then \<forall>d. cursor_ready d \<and> cursor_view d = cursor_view (fst (snd first)) @ b \<longrightarrow>
        walks_agree (wt_webtransport_session_on_capsule_bytes observe max_bytes d (snd (snd first))) whole
      else fst whole = fst first \<and> snd (snd whole) = snd (snd first))"

lemma resumes_start:
  assumes "ss_state (fst sk) \<noteq> WT_WEBTRANSPORT_SESSION_CLOSED" "waits r"
    "cursor_ready d" "cursor_view d = cursor_view c @ b"
  shows "resumes observe max_bytes b (r, c, sk) (capsule_walk observe max_bytes d sk)"
proof -
  have "walks_agree (wt_webtransport_session_on_capsule_bytes observe max_bytes d' sk) (capsule_walk observe max_bytes d sk)"
    if "cursor_ready d'" "cursor_view d' = cursor_view c @ b" for d'
    using capsule_walk_view [OF that(1) assms(3), of observe max_bytes sk] assms that
    by (simp add: walks_agree_def wt_webtransport_session_on_capsule_bytes_def)
  then show ?thesis using assms(2) by (simp add: resumes_def)
qed

lemma capsule_walk_resumes:
  assumes "observer_decides observe" "cursor_ready c" "cursor_ready d" "cursor_view d = cursor_view c @ b"
    "ss_state (fst sk) \<noteq> WT_WEBTRANSPORT_SESSION_CLOSED"
  shows "resumes observe max_bytes b (capsule_walk observe max_bytes c sk) (capsule_walk observe max_bytes d sk)"
  using assms
proof (induction observe max_bytes c sk arbitrary: d rule: capsule_walk.induct)
  case (1 observe max_bytes c sk)
  note p = "1.prems"
  show ?case
  proof (cases "wt_cursor_remaining c = 0")
    case True
    then have "capsule_walk observe max_bytes c sk = (None, c, sk)" by (simp add: capsule_walk.simps [of _ _ c])
    then show ?thesis using resumes_start [OF p(5) _ p(3,4)] by (simp add: waits_def)
  next
    case ne: False
    then have ned: "wt_cursor_remaining d \<noteq> 0" using p by (simp add: remaining_0_iff)
    obtain oc c' where c: "wt_webtransport_capsule_decode max_bytes c = (oc, c')" by fastforce
    show ?thesis
    proof (cases oc)
      case (Inl e)
      show ?thesis
      proof (cases "e = (WT_ERR_TRUNCATED, WT_HTTP3_NO_ERROR)")
        case True
        then have "capsule_walk observe max_bytes c sk = (Some e, c, sk)"
          using ne c Inl by (simp add: capsule_walk.simps [of _ _ c])
        then show ?thesis using resumes_start [OF p(5) _ p(3,4)] True by (simp add: waits_def)
      next
        case False
        obtain d' where d: "wt_webtransport_capsule_decode max_bytes d = (Inl e, d')"
          using stableD(1) [OF stable_capsule_decode p(2-4)] c Inl False by (metis prod.collapse)
        have "fst e \<noteq> WT_ERR_TRUNCATED"
          using c Inl False capsule_decode_fails [of max_bytes c "fst e" "snd e" c'] by auto
        then show ?thesis using ne ned c d Inl
          by (cases e) (simp add: resumes_def waits_def capsule_walk.simps [of _ _ c] capsule_walk.simps [of _ _ d])
      qed
    next
      case (Inr cp)
      then obtain n where n: "n \<le> length (cursor_view c)" "c' = cursor_advance c n"
        "wt_webtransport_capsule_decode max_bytes d = (Inr cp, cursor_advance d n)"
        using stableD(2) [OF stable_capsule_decode p(2-4)] c by blast
      have r: "cursor_ready c'" "cursor_ready (cursor_advance d n)" "cursor_view (cursor_advance d n) = cursor_view c' @ b"
        using cursor_ready_advance [of c n] cursor_ready_advance [of d n] n p by simp_all
      obtain r1 sk1 where on: "on_capsule observe c' cp sk = (r1, sk1)" by (meson surj_pair)
      have wc: "capsule_walk observe max_bytes c sk =
          (case r1 of Some e \<Rightarrow> (Some e, c, sk1) | None \<Rightarrow> capsule_walk observe max_bytes c' sk1)"
        using ne c Inr on by (simp add: capsule_walk.simps [of _ _ c])
      have wd: "capsule_walk observe max_bytes d sk =
          (case on_capsule observe (cursor_advance d n) cp sk of (Some e, sk2) \<Rightarrow> (Some e, d, sk2)
           | (None, sk2) \<Rightarrow> capsule_walk observe max_bytes (cursor_advance d n) sk2)"
        using ned n(3) by (simp add: capsule_walk.simps [of _ _ d])
      have "0 < wt_cursor_remaining c' \<Longrightarrow> 0 < wt_cursor_remaining (cursor_advance d n)"
        using r by (simp add: remaining_pos_iff)
      from on_capsule_ahead [OF on this] consider (same) "on_capsule observe (cursor_advance d n) cp sk = (r1, sk1)"
        | (close) "r1 = None" "ss_state (fst sk1) = WT_WEBTRANSPORT_SESSION_CLOSED" "\<not> 0 < wt_cursor_remaining c'"
          "0 < wt_cursor_remaining (cursor_advance d n)"
          "on_capsule observe (cursor_advance d n) cp sk = (Some (WT_ERR_PROTOCOL, WT_HTTP3_MESSAGE_ERROR), sk1)" by blast
      then show ?thesis
      proof cases
        case same
        show ?thesis
        proof (cases r1)
          case (Some e)
          with on_capsule_answers [OF _ p(1,5)] on wc wd same show ?thesis by (simp add: resumes_def)
        next
          case None
          show ?thesis
          proof (cases "ss_state (fst sk1) = WT_WEBTRANSPORT_SESSION_CLOSED")
            case False
            from "1.IH" [OF ne c [symmetric] Inr on [symmetric] None p(1) r False] show ?thesis
              using wc wd same None by simp
          next
            case True
            with on_capsule_closes [OF _ p(5), of observe c' cp sk1] on None have "\<not> 0 < wt_cursor_remaining c'" by simp
            moreover have "\<not> 0 < wt_cursor_remaining (cursor_advance d n)"
              using on_capsule_closes [OF _ p(5) True] same None by blast
            ultimately show ?thesis using wc wd same None True r
              by (auto simp: resumes_def waits_def walks_agree_def wt_webtransport_session_on_capsule_bytes_def
                  remaining_pos_iff remaining_0_iff capsule_walk.simps)
          qed
        qed
      next
        case close
        then have "wt_cursor_remaining c' = 0" by (simp add: word_neq_0_conv [symmetric])
        with wc close have "capsule_walk observe max_bytes c sk = (None, c', sk1)" by (simp add: capsule_walk.simps)
        then show ?thesis using wd close r
          by (auto simp: resumes_def waits_def walks_agree_def wt_webtransport_session_on_capsule_bytes_def
              remaining_pos_iff)
      qed
    qed
  qed
qed

subsection \<open>The lifecycle\<close>

inductive session_step :: "wt_webtransport_session \<Rightarrow> wt_webtransport_session \<Rightarrow> bool" where
  established: "wt_webtransport_session_established s = (WT_OK, s') \<Longrightarrow> session_step s s'"
| drain: "wt_webtransport_session_on_drain s sent = (WT_OK, s') \<Longrightarrow> session_step s s'"
| close: "wt_webtransport_session_on_close s sent code = (WT_OK, s') \<Longrightarrow> session_step s s'"
| stream_end: "wt_webtransport_session_on_stream_end s = (WT_OK, s') \<Longrightarrow> session_step s s'"

lemmas session_defs = wt_webtransport_session_established_def wt_webtransport_session_on_drain_def
  wt_webtransport_session_on_close_def wt_webtransport_session_on_stream_end_def Let_def

fun session_rank :: "wt_webtransport_session_state \<Rightarrow> nat" where
  "session_rank WT_WEBTRANSPORT_SESSION_ESTABLISHING = 0"
| "session_rank WT_WEBTRANSPORT_SESSION_ESTABLISHED = 1"
| "session_rank WT_WEBTRANSPORT_SESSION_DRAINING = 2"
| "session_rank WT_WEBTRANSPORT_SESSION_CLOSED = 3"

lemma session_rank_closed: "3 \<le> session_rank st \<longleftrightarrow> st = WT_WEBTRANSPORT_SESSION_CLOSED"
  by (cases st) simp_all

text \<open>What never happens again once it has happened.\<close>

definition session_ahead :: "wt_webtransport_session \<Rightarrow> wt_webtransport_session \<Rightarrow> bool" where
  "session_ahead s t \<longleftrightarrow>
     session_rank (ss_state s) \<le> session_rank (ss_state t) \<and>
     (ss_close_error_set s \<longrightarrow> ss_close_error_set t \<and> ss_close_error_code t = ss_close_error_code s) \<and>
     (ss_drain_sent s \<longrightarrow> ss_drain_sent t) \<and> (ss_drain_received s \<longrightarrow> ss_drain_received t) \<and>
     (ss_close_sent s \<longrightarrow> ss_close_sent t) \<and> (ss_close_received s \<longrightarrow> ss_close_received t)"

lemma session_rank_bounds: "session_rank st \<le> 3" "st \<noteq> WT_WEBTRANSPORT_SESSION_ESTABLISHED \<or> session_rank st = 1"
  by (cases st; simp)+

lemma session_step_ahead: "session_step s t \<Longrightarrow> session_ahead s t"
  by (induction rule: session_step.induct)
    (auto simp: session_ahead_def session_defs session_rank_bounds(1) split: if_splits)

lemma session_ahead_trans: "session_ahead r s \<Longrightarrow> session_ahead s t \<Longrightarrow> session_ahead r t"
  unfolding session_ahead_def by auto

lemma session_steps_ahead: "session_step\<^sup>*\<^sup>* s t \<Longrightarrow> session_ahead s t"
proof (induction rule: rtranclp_induct)
  case base
  show ?case by (simp add: session_ahead_def)
next
  case (step t u)
  from step.IH session_step_ahead [OF step.hyps(2)] show ?case by (rule session_ahead_trans)
qed

definition session_inv :: "wt_webtransport_session \<Rightarrow> bool" where
  "session_inv s \<longleftrightarrow>
     (ss_close_error_set s \<longleftrightarrow> ss_close_sent s \<or> ss_close_received s) \<and>
     (ss_close_error_set s \<longrightarrow> ss_state s = WT_WEBTRANSPORT_SESSION_CLOSED) \<and>
     (ss_state s = WT_WEBTRANSPORT_SESSION_DRAINING \<longrightarrow> ss_drain_sent s \<or> ss_drain_received s)"

lemma session_steps_inv: "session_step\<^sup>*\<^sup>* s t \<Longrightarrow> session_inv s \<Longrightarrow> session_inv t"
proof (induction rule: rtranclp_induct)
  case (step t u)
  from step.hyps(2) step.IH [OF step.prems] show ?case
    by (cases rule: session_step.cases) (auto simp: session_inv_def session_defs split: if_splits)
qed

text \<open>The capsules and the two writers move the session only along these steps.\<close>

lemma on_capsule_steps:
  assumes "on_capsule observe ahead cp sk = (r, sk')"
  shows "session_step\<^sup>*\<^sup>* (fst sk) (fst sk')"
proof -
  have drain: "session_step\<^sup>*\<^sup>* s s'" if "wt_webtransport_session_on_drain s b = (st, s')" for s s' b st
    using that session_step.drain [of s b s']
    by (auto simp: wt_webtransport_session_on_drain_def Let_def split: if_splits)
  have close: "session_step\<^sup>*\<^sup>* s s'" if "wt_webtransport_session_on_close s b c = (st, s')" for s s' b c st
    using that session_step.close [of s b c s']
    by (auto simp: wt_webtransport_session_on_close_def Let_def)
  show ?thesis
    using assms by (auto simp: on_capsule_def split: prod.splits sum.splits option.splits if_splits intro: drain close)
qed

lemma capsule_walk_steps: "session_step\<^sup>*\<^sup>* (fst sk) (fst (snd (snd (capsule_walk observe max_bytes c sk))))"
proof (induction observe max_bytes c sk rule: capsule_walk.induct)
  case (1 observe max_bytes c sk)
  show ?case
  proof (cases "wt_cursor_remaining c = 0")
    case False
    obtain oc c' where c: "wt_webtransport_capsule_decode max_bytes c = (oc, c')" by fastforce
    show ?thesis
    proof (cases oc)
      case (Inr cp)
      obtain r1 sk1 where on: "on_capsule observe c' cp sk = (r1, sk1)" by (meson surj_pair)
      show ?thesis
      proof (cases r1)
        case None
        with "1.IH" [OF False c [symmetric] Inr on [symmetric] None] on_capsule_steps [OF on] False c Inr on
        show ?thesis by (simp add: capsule_walk.simps [of _ _ c])
      next
        case (Some e)
        with on_capsule_steps [OF on] False c Inr on show ?thesis by (simp add: capsule_walk.simps [of _ _ c])
      qed
    qed (use False c in \<open>simp add: capsule_walk.simps [of _ _ c] split: prod.splits\<close>)
  qed (simp add: capsule_walk.simps [of _ _ c])
qed

lemma session_write_steps:
  "session_step\<^sup>*\<^sup>* s (fst (snd (wt_webtransport_session_write_drain s w)))"
  "session_step\<^sup>*\<^sup>* s (fst (snd (wt_webtransport_session_write_close s w code reason)))"
proof -
  have "wt_webtransport_session_on_drain s True = (WT_OK, snd (wt_webtransport_session_on_drain s True))"
    if "ss_state s \<noteq> WT_WEBTRANSPORT_SESSION_CLOSED"
    using that by (simp add: wt_webtransport_session_on_drain_def Let_def)
  from session_step.drain [OF this]
  show "session_step\<^sup>*\<^sup>* s (fst (snd (wt_webtransport_session_write_drain s w)))"
    by (auto simp: wt_webtransport_session_write_drain_def split: prod.splits)
  have "wt_webtransport_session_on_close s True code = (WT_OK, snd (wt_webtransport_session_on_close s True code))"
    by (simp add: wt_webtransport_session_on_close_def Let_def)
  from session_step.close [OF this]
  show "session_step\<^sup>*\<^sup>* s (fst (snd (wt_webtransport_session_write_close s w code reason)))"
    by (auto simp: wt_webtransport_session_write_close_def split: prod.splits)
qed

text \<open>A drain that comes before the session is established is recorded, and new streams are allowed all the same.\<close>

lemma early_drain_forgotten:
  "\<exists>s. session_step\<^sup>*\<^sup>* wt_webtransport_session_init s \<and> ss_drain_received s \<and> wt_webtransport_session_allows_new_streams s"
proof -
  define s1 where "s1 = wt_webtransport_session_init\<lparr>ss_drain_received := True\<rparr>"
  define s2 where "s2 = s1\<lparr>ss_state := WT_WEBTRANSPORT_SESSION_ESTABLISHED\<rparr>"
  have "session_step wt_webtransport_session_init s1"
    by (rule session_step.drain [of _ False]) (simp add: session_defs wt_webtransport_session_init_def s1_def)
  moreover have "session_step s1 s2"
    by (rule session_step.established) (simp add: session_defs wt_webtransport_session_init_def s1_def s2_def)
  ultimately have "session_step\<^sup>*\<^sup>* wt_webtransport_session_init s2" by simp
  moreover have "ss_drain_received s2" "wt_webtransport_session_allows_new_streams s2"
    by (simp_all add: s1_def s2_def wt_webtransport_session_allows_new_streams_def)
  ultimately show ?thesis by blast
qed

lemma capsule_walk_suffix:
  assumes "cursor_ready c"
  shows "length (cursor_view (fst (snd (capsule_walk observe max_bytes c sk)))) \<le> length (cursor_view c)"
  using assms
proof (induction observe max_bytes c sk rule: capsule_walk.induct)
  case (1 observe max_bytes c sk)
  show ?case
  proof (cases "wt_cursor_remaining c = 0")
    case False
    obtain oc c' where c: "wt_webtransport_capsule_decode max_bytes c = (oc, c')" by fastforce
    show ?thesis
    proof (cases oc)
      case (Inr cp)
      then obtain n where n: "n \<le> length (cursor_view c)" "c' = cursor_advance c n"
        using stableD(2) [OF stable_capsule_decode "1.prems" "1.prems", of "[]" max_bytes cp c'] c by auto
      note r = cursor_ready_advance [OF "1.prems" n(1), folded n(2)]
      obtain r1 sk1 where on: "on_capsule observe c' cp sk = (r1, sk1)" by (meson surj_pair)
      show ?thesis
      proof (cases r1)
        case None
        with "1.IH" [OF False c [symmetric] Inr on [symmetric] None r(1)] r(2) False c Inr on
        show ?thesis by (simp add: capsule_walk.simps [of _ _ c])
      next
        case (Some e)
        with False c Inr on show ?thesis by (simp add: capsule_walk.simps [of _ _ c])
      qed
    qed (use False c in \<open>simp add: capsule_walk.simps [of _ _ c] split: prod.splits\<close>)
  qed (simp add: capsule_walk.simps [of _ _ c])
qed

lemma capsule_bytes_view:
  assumes "cursor_ready c" "cursor_ready d" "cursor_view d = cursor_view c"
  shows "walks_agree (wt_webtransport_session_on_capsule_bytes observe max_bytes c sk)
    (wt_webtransport_session_on_capsule_bytes observe max_bytes d sk)"
  using capsule_walk_view [OF assms, of observe max_bytes sk] assms
  by (simp add: walks_agree_def wt_webtransport_session_on_capsule_bytes_def remaining_pos_iff)

subsection \<open>Properties\<close>

text \<open>C19: Delivery boundaries do not matter. The bytes of a CONNECT stream may be handed over in any two pieces:
  if the first call waits, calling again with the bytes it left and the second piece behind them gives the
  answer, the session and the observer's context that a single call with all the bytes gives, and leaves the same
  bytes when that call waits too; if the first call refuses, the single call refuses with the same error. Bytes
  behind a close are refused whether they come with it or later. The observer is arbitrary, as long as it does
  not answer with the status by which the walk waits.\<close>

theorem wt_webtransport_session_delivery:
  assumes "observer_decides observe" "length (a @ b) < 2 ^ 64"
    "wt_webtransport_session_on_capsule_bytes observe max_bytes (cursor_of a) sk = (r, c, sk')"
    "wt_webtransport_session_on_capsule_bytes observe max_bytes (cursor_of (a @ b)) sk = (r_all, c_all, sk_all)"
    "wt_webtransport_session_on_capsule_bytes observe max_bytes (cursor_of (cursor_view c @ b)) sk' = (r2, c2, sk2)"
  shows "if r = None \<or> r = Some (WT_ERR_TRUNCATED, WT_HTTP3_NO_ERROR)
    then r2 = r_all \<and> sk2 = sk_all \<and>
      (r_all = None \<or> r_all = Some (WT_ERR_TRUNCATED, WT_HTTP3_NO_ERROR) \<longrightarrow> cursor_view c2 = cursor_view c_all)
    else r_all = r \<and> sk_all = sk'"
proof -
  have ready: "cursor_ready (cursor_of a)" "cursor_ready (cursor_of (a @ b))" "cursor_view (cursor_of (a @ b)) = cursor_view (cursor_of a) @ b"
    using assms(2) by simp_all
  have "length (cursor_view c) \<le> length a"
    using assms(2,3) capsule_walk_suffix [OF ready(1), of observe max_bytes sk]
    by (auto simp: wt_webtransport_session_on_capsule_bytes_def split: if_splits)
  then have ready2: "cursor_ready (cursor_of (cursor_view c @ b))" "cursor_view (cursor_of (cursor_view c @ b)) = cursor_view c @ b"
    using assms(2) by simp_all
  have "resumes observe max_bytes b (r, c, sk') (r_all, c_all, sk_all)"
  proof (cases "ss_state (fst sk) = WT_WEBTRANSPORT_SESSION_CLOSED")
    case False
    with capsule_walk_resumes [OF assms(1) ready False, of max_bytes] assms(3,4) show ?thesis
      by (simp add: wt_webtransport_session_on_capsule_bytes_def)
  next
    case True
    show ?thesis
    proof (cases "a = []")
      case False
      then have "0 < wt_cursor_remaining (cursor_of a)" "0 < wt_cursor_remaining (cursor_of (a @ b))"
        using ready assms(2) by (simp_all add: remaining_pos_iff)
      with True assms(3,4) show ?thesis
        by (auto simp: resumes_def waits_def wt_webtransport_session_on_capsule_bytes_def)
    next
      case Nil: True
      then have "wt_cursor_remaining (cursor_of a) = 0" using ready(1) by (simp add: remaining_0_iff)
      then have first: "(r, c, sk') = (None, cursor_of a, sk)"
        using assms(3) by (simp add: wt_webtransport_session_on_capsule_bytes_def capsule_walk.simps)
      have "walks_agree (wt_webtransport_session_on_capsule_bytes observe max_bytes d sk) (r_all, c_all, sk_all)"
        if "cursor_ready d" "cursor_view d = b" for d
        using capsule_bytes_view [OF that(1) ready(2), of observe max_bytes sk] that ready(3) assms(4) Nil by simp
      then show ?thesis using first ready(3) Nil by (simp add: resumes_def waits_def)
    qed
  qed
  moreover have "walks_agree (r2, c2, sk2) (r_all, c_all, sk_all)" if "waits r"
    using calculation that ready2 assms(5) unfolding resumes_def by (metis fst_conv snd_conv)
  ultimately show ?thesis
    unfolding waits_def [symmetric] by (cases "waits r") (simp_all add: resumes_def walks_agree_def)
qed

theorem wt_webtransport_session_delivery_witness:
  "fst (wt_webtransport_session_on_capsule_bytes None 16 (cursor_of [0x80, 0x00]) (wt_webtransport_session_init, ())) =
     Some (WT_ERR_TRUNCATED, WT_HTTP3_NO_ERROR) \<and>
   ss_drain_received (fst (snd (snd (wt_webtransport_session_on_capsule_bytes None 16
     (cursor_of [0x80, 0x00, 0x78, 0xae, 0x00]) (wt_webtransport_session_init, ())))))"
proof -
  let ?on = "\<lambda>bs sk. wt_webtransport_session_on_capsule_bytes None 16 (cursor_of bs) sk"
    and ?sk = "(wt_webtransport_session_init, ())"
  let ?a = "[0x80, 0x00] :: u8 list" and ?b = "[0x78, 0xae, 0x00] :: u8 list"
  have bytes: "capsule_bytes WT_CAPSULE_DRAIN_SESSION [] = ?a @ ?b"
    by (simp add: capsule_bytes_def capsule_types varint_bytes_def wt_quic_varint_encode_def wt_quic_varint_size_def
        wt_store_be32_def)
  have v: "varint_valid WT_CAPSULE_DRAIN_SESSION" "bytes_valid []" "of_nat (length ([] :: u8 list)) \<le> (16 :: u64)"
    by (simp_all add: varint_valid_unat capsule_types bytes_valid_def)
  have ne: "wt_cursor_remaining (cursor_of ?a) \<noteq> 0" "wt_cursor_remaining (cursor_of (?a @ ?b)) \<noteq> 0"
    by (simp_all add: remaining_0_iff)
  have "fst (wt_webtransport_capsule_decode 16 (cursor_of ?a)) = Inl (WT_ERR_TRUNCATED, WT_HTTP3_NO_ERROR)"
    by (rule capsule_decode_short [OF v, of _ 2]) (simp_all add: bytes)
  then obtain c' where short: "wt_webtransport_capsule_decode 16 (cursor_of ?a) = (Inl (WT_ERR_TRUNCATED, WT_HTTP3_NO_ERROR), c')"
    by (metis prod.collapse)
  have first: "?on ?a ?sk = (Some (WT_ERR_TRUNCATED, WT_HTTP3_NO_ERROR), cursor_of ?a, ?sk)"
    using ne short by (simp add: wt_webtransport_session_on_capsule_bytes_def wt_webtransport_session_init_def
        capsule_walk.simps [of _ _ "cursor_of ?a"])
  have full: "wt_webtransport_capsule_decode 16 (cursor_of (?a @ ?b)) =
      (Inr (capsule_of WT_CAPSULE_DRAIN_SESSION []), cursor_advance (cursor_of (?a @ ?b)) (length (?a @ ?b)))"
    unfolding bytes [symmetric] by (rule capsule_decode_full [OF v, of _ "[]"]) (simp_all add: bytes)
  have "wt_cursor_remaining (cursor_advance (cursor_of (?a @ ?b)) (length (?a @ ?b))) = 0"
    using cursor_ready_advance [of "cursor_of (?a @ ?b)" "length (?a @ ?b)"] by (simp add: remaining_0_iff)
  then have second: "?on (?a @ ?b) ?sk = (None, cursor_advance (cursor_of (?a @ ?b)) (length (?a @ ?b)),
      (wt_webtransport_session_init\<lparr>ss_drain_received := True\<rparr>, ()))"
    using ne(2) full
    by (simp add: wt_webtransport_session_on_capsule_bytes_def wt_webtransport_session_init_def on_capsule_def
        capsule_walk.simps capsule_of_def wt_webtransport_session_on_drain_def)
  have "observer_decides None" by (simp add: observer_decides_def)
  from wt_webtransport_session_delivery [OF this, of ?a ?b 16 ?sk] first second
  have "\<exists>c2. ?on (?a @ ?b) ?sk = (None, c2, (wt_webtransport_session_init\<lparr>ss_drain_received := True\<rparr>, ()))"
    by simp
  with first show ?thesis by auto
qed

text \<open>C20: The lifecycle of a session. Whatever sequence of calls a session goes through, establishment, drains and
  closes in either direction, the end of the stream, the two capsule writers and the walk over received capsules
  with any observer, its state only moves forward; a closed session stays closed and a draining one never allows
  a new stream again; the code of the first close is the one it keeps; the recorded directions are never
  forgotten; and from the initial state on a code is recorded exactly when a close was sent or received, which
  only a closed session has.\<close>

theorem wt_webtransport_session_lifecycle:
  assumes "session_step\<^sup>*\<^sup>* wt_webtransport_session_init s" "session_step\<^sup>*\<^sup>* s t"
  shows "session_inv s \<and> session_ahead s t \<and>
    (ss_state s = WT_WEBTRANSPORT_SESSION_CLOSED \<longrightarrow> ss_state t = WT_WEBTRANSPORT_SESSION_CLOSED) \<and>
    (ss_state s \<in> {WT_WEBTRANSPORT_SESSION_DRAINING, WT_WEBTRANSPORT_SESSION_CLOSED} \<longrightarrow>
       \<not> wt_webtransport_session_allows_new_streams t) \<and>
    session_step\<^sup>*\<^sup>* t (fst (snd (wt_webtransport_session_write_drain t w))) \<and>
    session_step\<^sup>*\<^sup>* t (fst (snd (wt_webtransport_session_write_close t w code reason))) \<and>
    session_step\<^sup>*\<^sup>* t (fst (snd (snd (wt_webtransport_session_on_capsule_bytes observe max_bytes c (t, k)))))"
proof -
  have "session_inv wt_webtransport_session_init" by (simp add: session_inv_def wt_webtransport_session_init_def)
  with session_steps_inv [OF assms(1)] have inv: "session_inv s" .
  have ahead: "session_ahead s t" by (rule session_steps_ahead) (rule assms)
  then have rank: "session_rank (ss_state s) \<le> session_rank (ss_state t)" by (simp add: session_ahead_def)
  then have closed: "ss_state t = WT_WEBTRANSPORT_SESSION_CLOSED" if "ss_state s = WT_WEBTRANSPORT_SESSION_CLOSED"
    using that session_rank_closed by simp
  have streams: "\<not> wt_webtransport_session_allows_new_streams t" if "2 \<le> session_rank (ss_state s)"
    using that rank by (auto simp: wt_webtransport_session_allows_new_streams_def)
  show ?thesis
    using inv ahead closed streams session_write_steps capsule_walk_steps [of "(t, k)"]
    by (auto simp: wt_webtransport_session_on_capsule_bytes_def)
qed

theorem wt_webtransport_session_lifecycle_witness:
  "let s = snd (wt_webtransport_session_on_close wt_webtransport_session_init True 7);
       t = snd (wt_webtransport_session_on_close s False 9) in
   session_inv s \<and> session_ahead s t \<and> ss_close_error_code t = 7"
proof -
  define s where "s = snd (wt_webtransport_session_on_close wt_webtransport_session_init True 7)"
  define t where "t = snd (wt_webtransport_session_on_close s False 9)"
  have "session_step wt_webtransport_session_init s" "session_step s t"
    by (rule session_step.close [of _ True 7] session_step.close [of _ False 9];
        simp add: s_def t_def wt_webtransport_session_on_close_def Let_def)+
  then have steps: "session_step\<^sup>*\<^sup>* wt_webtransport_session_init s" "session_step\<^sup>*\<^sup>* s t" by simp_all
  note life = wt_webtransport_session_lifecycle [OF steps, where k = "()"]
  have "session_inv s \<and> session_ahead s t"
    by (rule conjI [OF life [THEN conjunct1] life [THEN conjunct2, THEN conjunct1]])
  moreover have "ss_close_error_set s" "ss_close_error_code s = 7"
    by (simp_all add: s_def wt_webtransport_session_on_close_def wt_webtransport_session_init_def Let_def)
  ultimately show ?thesis by (simp add: s_def t_def session_ahead_def Let_def)
qed

end
