(* ===== verification/Webtransport_Buffered.thy ===== *)
theory Webtransport_Buffered
  imports Webtransport_Framing
begin

text \<open>
  The holding area for streams and datagrams that arrive before their session
  (\<open>C99/src/webtransport/buffered.c\<close>). The used entries of the two tables are lists in arrival order; an entry
  holds exactly the bytes that its length field covers.
\<close>

subsection \<open>State\<close>

definition WT_WEBTRANSPORT_BUFFERED_STREAMS_MAX :: nat where "WT_WEBTRANSPORT_BUFFERED_STREAMS_MAX = 4"
definition WT_WEBTRANSPORT_BUFFERED_STREAM_BYTES_MAX :: nat where "WT_WEBTRANSPORT_BUFFERED_STREAM_BYTES_MAX = 1024"
definition WT_WEBTRANSPORT_BUFFERED_DATAGRAMS_MAX :: nat where "WT_WEBTRANSPORT_BUFFERED_DATAGRAMS_MAX = 4"
definition WT_QUIC_DATAGRAM_MAX :: nat where "WT_QUIC_DATAGRAM_MAX = 1200"
definition WT_WEBTRANSPORT_BUFFERED_DATAGRAM_BYTES_MAX :: nat where
  "WT_WEBTRANSPORT_BUFFERED_DATAGRAM_BYTES_MAX = WT_QUIC_DATAGRAM_MAX"

lemmas buffered_limits = WT_WEBTRANSPORT_BUFFERED_STREAMS_MAX_def WT_WEBTRANSPORT_BUFFERED_STREAM_BYTES_MAX_def
  WT_WEBTRANSPORT_BUFFERED_DATAGRAMS_MAX_def WT_WEBTRANSPORT_BUFFERED_DATAGRAM_BYTES_MAX_def WT_QUIC_DATAGRAM_MAX_def

record wt_webtransport_buffered_stream =
  bf_stream_id :: u64
  bf_session_id :: u64
  bf_unidirectional :: bool
  bf_bytes :: "u8 list"

record wt_webtransport_buffered_datagram =
  bd_quarter_stream_id :: u64
  bd_bytes :: "u8 list"

record wt_webtransport_buffered =
  bu_streams :: "wt_webtransport_buffered_stream list"
  bu_datagrams :: "wt_webtransport_buffered_datagram list"
  bu_streams_rejected :: u64
  bu_datagrams_dropped :: u64
  bu_last_rejected_stream_id :: u64

definition wt_webtransport_buffered_init :: wt_webtransport_buffered where
  "wt_webtransport_buffered_init =
     \<lparr>bu_streams = [], bu_datagrams = [], bu_streams_rejected = 0, bu_datagrams_dropped = 0, bu_last_rejected_stream_id = 0\<rparr>"

subsection \<open>Parking\<close>

text \<open>The entries behind the dropped one move up by one place.\<close>

definition drop_stream :: "nat \<Rightarrow> wt_webtransport_buffered \<Rightarrow> wt_webtransport_buffered" where
  "drop_stream index b = b\<lparr>bu_streams := take index (bu_streams b) @ drop (Suc index) (bu_streams b)\<rparr>"

definition reject_stream :: "u64 \<Rightarrow> wt_webtransport_buffered \<Rightarrow> wt_status \<times> wt_webtransport_buffered" where
  "reject_stream stream_id b =
     (WT_ERR_LIMIT, b\<lparr>bu_streams_rejected := bu_streams_rejected b + 1, bu_last_rejected_stream_id := stream_id\<rparr>)"

fun find_stream_from :: "u64 \<Rightarrow> wt_webtransport_buffered_stream list \<Rightarrow> nat option" where
  "find_stream_from stream_id [] = None"
| "find_stream_from stream_id (p # ps) =
     (if bf_stream_id p = stream_id then Some 0 else map_option Suc (find_stream_from stream_id ps))"

definition find_stream :: "wt_webtransport_buffered \<Rightarrow> u64 \<Rightarrow> nat option" where
  "find_stream b stream_id = find_stream_from stream_id (bu_streams b)"

definition wt_webtransport_buffered_park_stream ::
  "u64 \<Rightarrow> u64 \<Rightarrow> bool \<Rightarrow> u8 list \<Rightarrow> wt_webtransport_buffered \<Rightarrow> wt_status \<times> wt_webtransport_buffered" where
  "wt_webtransport_buffered_park_stream stream_id session_id unidirectional data b =
     (case find_stream b stream_id of
        None \<Rightarrow>
          if length (bu_streams b) \<ge> WT_WEBTRANSPORT_BUFFERED_STREAMS_MAX then reject_stream stream_id b
          else if length data > WT_WEBTRANSPORT_BUFFERED_STREAM_BYTES_MAX then reject_stream stream_id b
          else (WT_OK, b\<lparr>bu_streams := bu_streams b @
                 [\<lparr>bf_stream_id = stream_id, bf_session_id = session_id, bf_unidirectional = unidirectional, bf_bytes = data\<rparr>]\<rparr>)
      | Some i \<Rightarrow>
          let parked = bu_streams b ! i in
          if length data > WT_WEBTRANSPORT_BUFFERED_STREAM_BYTES_MAX - length (bf_bytes parked)
          then reject_stream (bf_stream_id parked) (drop_stream i b)
          else (WT_OK, b\<lparr>bu_streams := (bu_streams b)[i := parked\<lparr>bf_bytes := bf_bytes parked @ data\<rparr>]\<rparr>))"

definition wt_webtransport_buffered_park_datagram ::
  "u64 \<Rightarrow> u8 list \<Rightarrow> wt_webtransport_buffered \<Rightarrow> bool \<times> wt_webtransport_buffered" where
  "wt_webtransport_buffered_park_datagram quarter payload b =
     (let dropped = (False, b\<lparr>bu_datagrams_dropped := bu_datagrams_dropped b + 1\<rparr>) in
      if length payload > WT_WEBTRANSPORT_BUFFERED_DATAGRAM_BYTES_MAX then dropped
      else if length (bu_datagrams b) \<ge> WT_WEBTRANSPORT_BUFFERED_DATAGRAMS_MAX then dropped
      else (True, b\<lparr>bu_datagrams := bu_datagrams b @ [\<lparr>bd_quarter_stream_id = quarter, bd_bytes = payload\<rparr>]\<rparr>))"

subsection \<open>Draining\<close>

text \<open>
  The loop of both drains: the entries that name the session are offered to the callback in order, the others are
  counted as dropped, a refusal stops it. The callback and its context are parameters. The result is the status,
  the number delivered, the number dropped and the context.
\<close>

fun drain_loop ::
  "('i \<Rightarrow> bool) \<Rightarrow> ('k \<Rightarrow> 'i \<Rightarrow> wt_status \<times> 'k) option \<Rightarrow> 'i list \<Rightarrow> nat \<Rightarrow> nat \<Rightarrow> 'k \<Rightarrow> wt_status \<times> nat \<times> nat \<times> 'k" where
  "drain_loop mine deliver [] delivered dropped k = (WT_OK, delivered, dropped, k)"
| "drain_loop mine deliver (p # ps) delivered dropped k =
     (if \<not> mine p then drain_loop mine deliver ps delivered (Suc dropped) k
      else case deliver of
        None \<Rightarrow> drain_loop mine deliver ps (Suc delivered) dropped k
      | Some f \<Rightarrow>
          (case f k p of (status, k') \<Rightarrow>
             if status \<noteq> WT_OK then (status, delivered, dropped, k')
             else drain_loop mine deliver ps (Suc delivered) dropped k'))"

type_synonym 'k wt_webtransport_buffered_stream_fn = "'k \<Rightarrow> u64 \<Rightarrow> bool \<Rightarrow> u8 list \<Rightarrow> wt_status \<times> 'k"
type_synonym 'k wt_webtransport_buffered_datagram_fn = "'k \<Rightarrow> u64 \<Rightarrow> u8 list \<Rightarrow> wt_status \<times> 'k"

definition wt_webtransport_buffered_drain_streams ::
  "u64 \<Rightarrow> 'k wt_webtransport_buffered_stream_fn option \<Rightarrow> 'k \<Rightarrow> wt_webtransport_buffered \<Rightarrow>
   (wt_status \<times> nat \<times> nat \<times> 'k) \<times> wt_webtransport_buffered" where
  "wt_webtransport_buffered_drain_streams session_id deliver k b =
     (drain_loop (\<lambda>p. bf_session_id p = session_id)
        (map_option (\<lambda>f k p. f k (bf_stream_id p) (bf_unidirectional p) (bf_bytes p)) deliver)
        (bu_streams b) 0 0 k,
      b\<lparr>bu_streams := []\<rparr>)"

definition wt_webtransport_buffered_drain_datagrams ::
  "u64 \<Rightarrow> 'k wt_webtransport_buffered_datagram_fn option \<Rightarrow> 'k \<Rightarrow> wt_webtransport_buffered \<Rightarrow>
   (wt_status \<times> nat \<times> nat \<times> 'k) \<times> wt_webtransport_buffered" where
  "wt_webtransport_buffered_drain_datagrams quarter deliver k b =
     (drain_loop (\<lambda>p. bd_quarter_stream_id p = quarter)
        (map_option (\<lambda>f k p. f k (bd_quarter_stream_id p) (bd_bytes p)) deliver)
        (bu_datagrams b) 0 0 k,
      b\<lparr>bu_datagrams := []\<rparr>)"

definition wt_webtransport_buffered_stream_count :: "wt_webtransport_buffered \<Rightarrow> nat" where
  "wt_webtransport_buffered_stream_count b = length (bu_streams b)"

definition wt_webtransport_buffered_datagram_count :: "wt_webtransport_buffered \<Rightarrow> nat" where
  "wt_webtransport_buffered_datagram_count b = length (bu_datagrams b)"

definition wt_webtransport_buffered_streams_rejected :: "wt_webtransport_buffered \<Rightarrow> u64" where
  "wt_webtransport_buffered_streams_rejected b = bu_streams_rejected b"

definition wt_webtransport_buffered_datagrams_dropped :: "wt_webtransport_buffered \<Rightarrow> u64" where
  "wt_webtransport_buffered_datagrams_dropped b = bu_datagrams_dropped b"

definition wt_webtransport_buffered_last_rejected_stream_id :: "wt_webtransport_buffered \<Rightarrow> u64" where
  "wt_webtransport_buffered_last_rejected_stream_id b = bu_last_rejected_stream_id b"

subsection \<open>The bounds\<close>

definition buffered_inv :: "wt_webtransport_buffered \<Rightarrow> bool" where
  "buffered_inv b \<longleftrightarrow>
     length (bu_streams b) \<le> 4 \<and> distinct (map bf_stream_id (bu_streams b)) \<and>
     list_all (\<lambda>p. length (bf_bytes p) \<le> 1024) (bu_streams b) \<and>
     length (bu_datagrams b) \<le> 4 \<and> list_all (\<lambda>p. length (bd_bytes p) \<le> 1200) (bu_datagrams b)"

lemma find_stream_from_None: "find_stream_from i ps = None \<longleftrightarrow> i \<notin> bf_stream_id ` set ps"
  by (induction ps) auto

lemma find_stream_from_Some: "find_stream_from i ps = Some n \<Longrightarrow> n < length ps \<and> bf_stream_id (ps ! n) = i"
  by (induction ps arbitrary: n) (auto split: if_splits)

text \<open>Parking one piece, as a function on the lists.\<close>

definition others :: "u64 \<Rightarrow> wt_webtransport_buffered \<Rightarrow> wt_webtransport_buffered_stream list" where
  "others i b = filter (\<lambda>p. bf_stream_id p \<noteq> i) (bu_streams b)"

definition held :: "u64 \<Rightarrow> wt_webtransport_buffered \<Rightarrow> wt_webtransport_buffered_stream list" where
  "held i b = filter (\<lambda>p. bf_stream_id p = i) (bu_streams b)"

lemma filter_drop_nth: "n < length ps \<Longrightarrow> \<not> P (ps ! n) \<Longrightarrow> filter P (take n ps @ drop (Suc n) ps) = filter P ps"
  by (subst (3) id_take_nth_drop [of n ps]) simp_all

lemma filter_update_nth: "n < length ps \<Longrightarrow> \<not> P (ps ! n) \<Longrightarrow> \<not> P x \<Longrightarrow> filter P (ps[n := x]) = filter P ps"
  by (subst (2) id_take_nth_drop [of n ps]) (simp_all add: upd_conv_take_nth_drop)

lemma filter_at_nth:
  assumes "n < length xs" "P (xs ! n)"
  shows "filter P xs = filter P (take n xs) @ xs ! n # filter P (drop (Suc n) xs)"
  using arg_cong [OF id_take_nth_drop [OF assms(1)], of "filter P"] assms(2) by simp

lemma distinct_filter_nth:
  assumes "distinct (map f ps)" "n < length ps"
  shows "filter (\<lambda>p. f p = f (ps ! n)) ps = [ps ! n]"
proof -
  have split: "ps = take n ps @ ps ! n # drop (Suc n) ps" using assms(2) by (rule id_take_nth_drop)
  have d: "distinct (map f (take n ps) @ f (ps ! n) # map f (drop (Suc n) ps))"
    using assms(1) by (subst (asm) split) simp
  then have "filter (\<lambda>p. f p = f (ps ! n)) (take n ps) = []" "filter (\<lambda>p. f p = f (ps ! n)) (drop (Suc n) ps) = []"
    by (force simp: filter_empty_conv image_iff)+
  then show ?thesis by (subst (2) split) simp
qed

lemma set_remove_nth: "set (take n xs @ drop (Suc n) xs) \<subseteq> set xs"
  using set_take_subset [of n xs] set_drop_subset [of "Suc n" xs] by simp

lemma distinct_remove_nth:
  assumes "distinct (map f xs)" "n < length xs"
  shows "distinct (map f (take n xs @ drop (Suc n) xs))"
  using assms(1) by (subst (asm) id_take_nth_drop [OF assms(2)]) auto

lemma held_find:
  assumes "distinct (map bf_stream_id (bu_streams b))"
  shows "held i b = (case find_stream b i of None \<Rightarrow> [] | Some n \<Rightarrow> [bu_streams b ! n])"
proof (cases "find_stream b i")
  case None
  then have "i \<notin> bf_stream_id ` set (bu_streams b)" by (simp add: find_stream_def find_stream_from_None)
  with None show ?thesis by (force simp: held_def filter_empty_conv image_iff)
next
  case (Some n)
  then have n: "n < length (bu_streams b)" "bf_stream_id (bu_streams b ! n) = i"
    using find_stream_from_Some by (auto simp: find_stream_def)
  with Some distinct_filter_nth [OF assms n(1)] show ?thesis by (simp add: held_def)
qed

lemma park_stream_new:
  assumes "find_stream b i = None"
  shows "wt_webtransport_buffered_park_stream i s u d b =
    (if length (bu_streams b) < 4 \<and> length d \<le> 1024
     then (WT_OK, b\<lparr>bu_streams := bu_streams b @ [\<lparr>bf_stream_id = i, bf_session_id = s, bf_unidirectional = u, bf_bytes = d\<rparr>]\<rparr>)
     else reject_stream i b)"
  using assms by (auto simp: wt_webtransport_buffered_park_stream_def buffered_limits)

lemma park_stream_more:
  assumes "find_stream b i = Some n" "buffered_inv b"
  shows "wt_webtransport_buffered_park_stream i s u d b =
    (let p = bu_streams b ! n in
     if length (bf_bytes p) + length d \<le> 1024
     then (WT_OK, b\<lparr>bu_streams := (bu_streams b)[n := p\<lparr>bf_bytes := bf_bytes p @ d\<rparr>]\<rparr>)
     else reject_stream i (drop_stream n b))"
proof -
  have n: "n < length (bu_streams b)" "bf_stream_id (bu_streams b ! n) = i"
    using assms(1) find_stream_from_Some by (auto simp: find_stream_def)
  with assms(2) have "length (bf_bytes (bu_streams b ! n)) \<le> 1024" by (auto simp: buffered_inv_def list_all_length)
  then show ?thesis
    using assms(1) n by (auto simp: wt_webtransport_buffered_park_stream_def Let_def buffered_limits)
qed

lemma map_id_update: "n < length xs \<Longrightarrow> f x = f (xs ! n) \<Longrightarrow> map f (xs[n := x]) = map f xs"
  by (metis list_update_id map_update nth_map)

lemma park_stream_inv:
  assumes "buffered_inv b" "wt_webtransport_buffered_park_stream i s u d b = (st, b')"
  shows "buffered_inv b'"
proof (cases "find_stream b i")
  case None
  then have "i \<notin> bf_stream_id ` set (bu_streams b)" by (simp add: find_stream_def find_stream_from_None)
  with None assms park_stream_new [OF None] show ?thesis
    by (auto simp: buffered_inv_def reject_stream_def split: if_splits)
next
  case (Some n)
  have n: "n < length (bu_streams b)" "bf_stream_id (bu_streams b ! n) = i"
    using Some find_stream_from_Some by (auto simp: find_stream_def)
  let ?x = "(bu_streams b ! n)\<lparr>bf_bytes := bf_bytes (bu_streams b ! n) @ d\<rparr>"
  have upd: "map bf_stream_id ((bu_streams b)[n := ?x]) = map bf_stream_id (bu_streams b)"
    using n by (intro map_id_update) simp_all
  have "distinct (map bf_stream_id (take n (bu_streams b) @ drop (Suc n) (bu_streams b)))"
    using assms(1) unfolding buffered_inv_def by (intro distinct_remove_nth [OF _ n(1)]) blast
  note drop = this set_remove_nth [of n "bu_streams b"]
  from park_stream_more [OF Some assms(1)] assms n upd drop show ?thesis
    by (auto simp: buffered_inv_def Let_def reject_stream_def drop_stream_def list_all_iff subset_iff dest!: set_update_subset_insert [THEN subsetD]
        split: if_splits)
qed

subsection \<open>A flight parked and drained\<close>

text \<open>A piece of a stream: its number, the session and direction of its prefix, and the bytes.\<close>

type_synonym piece = "u64 \<times> u64 \<times> bool \<times> u8 list"

fun park_run :: "piece list \<Rightarrow> wt_webtransport_buffered \<Rightarrow> bool \<times> wt_webtransport_buffered" where
  "park_run [] b = (True, b)"
| "park_run ((i, s, u, d) # ps) b =
     (case wt_webtransport_buffered_park_stream i s u d b of
        (st, b') \<Rightarrow> if st = WT_OK then park_run ps b' else (False, b'))"

text \<open>What the pieces amount to: each stream once, in the order of its first piece, with that piece's session and
  direction and the bytes of all its pieces.\<close>

definition first_ids :: "piece list \<Rightarrow> u64 list" where
  "first_ids ps = rev (remdups (rev (map fst ps)))"

definition whole_stream :: "piece list \<Rightarrow> u64 \<Rightarrow> wt_webtransport_buffered_stream" where
  "whole_stream ps i =
     (let q = hd (filter (\<lambda>p. fst p = i) ps) in
      \<lparr>bf_stream_id = i, bf_session_id = fst (snd q), bf_unidirectional = fst (snd (snd q)),
       bf_bytes = concat (map (\<lambda>p. snd (snd (snd p))) (filter (\<lambda>p. fst p = i) ps))\<rparr>)"

definition whole_streams :: "piece list \<Rightarrow> wt_webtransport_buffered_stream list" where
  "whole_streams ps = map (whole_stream ps) (first_ids ps)"

lemma first_ids_snoc: "first_ids (ps @ [p]) = (if fst p \<in> fst ` set ps then first_ids ps else first_ids ps @ [fst p])"
  by (simp add: first_ids_def)

lemma set_first_ids [simp]: "set (first_ids ps) = fst ` set ps" "distinct (first_ids ps)"
  by (simp_all add: first_ids_def)

lemma whole_stream_other: "fst p \<noteq> i \<Longrightarrow> whole_stream (ps @ [p]) i = whole_stream ps i"
  by (simp add: whole_stream_def)

lemma whole_stream_more:
  assumes "i \<in> fst ` set ps"
  shows "whole_stream (ps @ [(i, s, u, d)]) i = (whole_stream ps i)\<lparr>bf_bytes := bf_bytes (whole_stream ps i) @ d\<rparr>"
proof -
  have "filter (\<lambda>p. fst p = i) ps \<noteq> []" using assms by (force simp: filter_empty_conv)
  then show ?thesis by (simp add: whole_stream_def Let_def)
qed

lemma whole_stream_new:
  "i \<notin> fst ` set ps \<Longrightarrow>
   whole_stream (ps @ [(i, s, u, d)]) i = \<lparr>bf_stream_id = i, bf_session_id = s, bf_unidirectional = u, bf_bytes = d\<rparr>"
proof -
  assume "i \<notin> fst ` set ps"
  then have "filter (\<lambda>p. fst p = i) ps = []" by (force simp: filter_empty_conv)
  then show ?thesis by (simp add: whole_stream_def)
qed

lemma whole_streams_ids: "map bf_stream_id (whole_streams ps) = first_ids ps"
  by (simp add: whole_streams_def whole_stream_def comp_def Let_def)

lemma park_stream_appends:
  assumes "bu_streams b = whole_streams ps" "buffered_inv b" "wt_webtransport_buffered_park_stream i s u d b = (WT_OK, b')"
  shows "bu_streams b' = whole_streams (ps @ [(i, s, u, d)])"
proof (cases "find_stream b i")
  case None
  then have "i \<notin> set (map bf_stream_id (whole_streams ps))"
    using assms(1) by (simp add: find_stream_def find_stream_from_None)
  then have i: "i \<notin> fst ` set ps" by (simp only: whole_streams_ids set_first_ids) simp
  have "map (whole_stream (ps @ [(i, s, u, d)])) (first_ids ps) = map (whole_stream ps) (first_ids ps)"
    using i by (intro map_cong refl whole_stream_other) (auto simp: image_iff)
  with None assms i park_stream_new [OF None, of s u d] show ?thesis
    by (auto simp: whole_streams_def first_ids_snoc whole_stream_new reject_stream_def split: if_splits)
next
  case (Some n)
  then have n: "n < length (bu_streams b)" "bf_stream_id (bu_streams b ! n) = i"
    using find_stream_from_Some by (auto simp: find_stream_def)
  have len: "n < length (first_ids ps)" using n(1) assms(1) by (simp add: whole_streams_def)
  have nth: "first_ids ps ! n = i"
    using n assms(1) whole_streams_ids [of ps] by (metis len length_map nth_map)
  then have i: "i \<in> fst ` set ps" using len nth_mem set_first_ids(1) by metis
  have at: "bu_streams b ! n = whole_stream ps i" using assms(1) len nth by (simp add: whole_streams_def)
  have "bu_streams b' = (whole_streams ps)[n := whole_stream (ps @ [(i, s, u, d)]) i]"
    using park_stream_more [OF Some assms(2), of s u d] assms(1,3) at
    by (auto simp: Let_def reject_stream_def whole_stream_more [OF i] split: if_splits)
  also have "\<dots> = whole_streams (ps @ [(i, s, u, d)])"
  proof (rule nth_equalityI)
    show "length ((whole_streams ps)[n := whole_stream (ps @ [(i, s, u, d)]) i]) = length (whole_streams (ps @ [(i, s, u, d)]))"
      using i by (simp add: whole_streams_def first_ids_snoc)
    fix m assume "m < length ((whole_streams ps)[n := whole_stream (ps @ [(i, s, u, d)]) i])"
    then have m: "m < length (first_ids ps)" by (simp add: whole_streams_def)
    consider "m = n" | "m \<noteq> n" "first_ids ps ! m \<noteq> i" using m nth len nth_eq_iff_index_eq [OF set_first_ids(2)] by metis
    then show "(whole_streams ps)[n := whole_stream (ps @ [(i, s, u, d)]) i] ! m = whole_streams (ps @ [(i, s, u, d)]) ! m"
      by cases (use i m nth in \<open>simp_all add: whole_streams_def first_ids_snoc whole_stream_other\<close>)
  qed
  finally show ?thesis .
qed

lemma park_run_streams:
  assumes "park_run qs b = (True, b')" "bu_streams b = whole_streams ps" "buffered_inv b"
  shows "bu_streams b' = whole_streams (ps @ qs) \<and> buffered_inv b'"
  using assms
proof (induction qs arbitrary: b ps)
  case (Cons q qs)
  obtain i s u d where q: "q = (i, s, u, d)" by (cases q)
  obtain b1 where st: "wt_webtransport_buffered_park_stream i s u d b = (WT_OK, b1)" and run: "park_run qs b1 = (True, b')"
    using Cons.prems(1) by (auto simp: q split: prod.splits if_splits)
  from Cons.IH [OF run park_stream_appends [OF Cons.prems(2,3) st] park_stream_inv [OF Cons.prems(3) st]]
  show ?case by (simp add: q)
qed simp

text \<open>The drain loop offers the matching entries in order, up to the first refusal.\<close>

fun deliver_all :: "('k \<Rightarrow> 'i \<Rightarrow> wt_status \<times> 'k) \<Rightarrow> 'k \<Rightarrow> 'i list \<Rightarrow> wt_status \<times> nat \<times> 'k" where
  "deliver_all f k [] = (WT_OK, 0, k)"
| "deliver_all f k (p # ps) =
     (case f k p of (st, k') \<Rightarrow>
        if st \<noteq> WT_OK then (st, 0, k') else (case deliver_all f k' ps of (st', n, k'') \<Rightarrow> (st', Suc n, k'')))"

lemma drain_loop_delivers:
  assumes "drain_loop mine (Some f) ps delivered dropped k = (st, n, m, k')"
  shows "deliver_all f k (filter mine ps) = (st, n - delivered, k') \<and> delivered \<le> n \<and>
    (st = WT_OK \<longrightarrow> m = dropped + length (filter (\<lambda>p. \<not> mine p) ps))"
  using assms
proof (induction ps arbitrary: delivered dropped k)
  case (Cons p ps)
  show ?case
  proof (cases "mine p")
    case False
    with Cons.prems Cons.IH [of delivered "Suc dropped" k] show ?thesis by simp
  next
    case True
    obtain st1 k1 where f: "f k p = (st1, k1)" by fastforce
    show ?thesis
    proof (cases "st1 = WT_OK")
      case True
      with Cons.prems f \<open>mine p\<close> Cons.IH [of "Suc delivered" dropped k1] show ?thesis by auto
    next
      case False
      with Cons.prems f \<open>mine p\<close> show ?thesis by simp
    qed
  qed
qed auto

lemma deliver_all_record:
  "deliver_all (\<lambda>k p. (WT_OK, k @ [g p])) k ps = (WT_OK, length ps, k @ map g ps)"
  by (induction ps arbitrary: k) simp_all

lemma deliver_all_count: "deliver_all f k ps = (WT_OK, n, k') \<Longrightarrow> n = length ps"
  by (induction f k ps arbitrary: n rule: deliver_all.induct) (auto split: prod.splits if_splits)

lemma drain_streams_delivers:
  assumes "bu_streams b = ps" "fst (wt_webtransport_buffered_drain_streams sid (Some g) k b) = (st, n, m, k')"
  shows "deliver_all (\<lambda>k p. g k (bf_stream_id p) (bf_unidirectional p) (bf_bytes p)) k
      (filter (\<lambda>p. bf_session_id p = sid) ps) = (st, n, k') \<and>
    (st = WT_OK \<longrightarrow> m = length (filter (\<lambda>p. bf_session_id p \<noteq> sid) ps))"
  using drain_loop_delivers [of "\<lambda>p. bf_session_id p = sid"
      "\<lambda>k p. g k (bf_stream_id p) (bf_unidirectional p) (bf_bytes p)" ps 0 0 k st n m k'] assms
  by (simp add: wt_webtransport_buffered_drain_streams_def)

subsection \<open>Properties\<close>

text \<open>Parking a piece of a stream. From a state within the bounds (at most four streams with different numbers
  and 1024 bytes each, at most four datagrams of 1200 bytes), the call keeps the bounds and every other stream
  with its place in the order. It succeeds exactly when the stream is held and the piece still fits, or is new
  and there is room: then the stream holds its earlier bytes followed by the piece. Otherwise the answer is the
  limit, the stream is no longer held at all, and the call has recorded which one to reset.\<close>

lemma wt_webtransport_buffered_park_exact:
  assumes "buffered_inv b" "wt_webtransport_buffered_park_stream i s u d b = (st, b')"
  shows "buffered_inv b' \<and> others i b' = others i b \<and> bu_datagrams b' = bu_datagrams b \<and>
    (st = WT_OK \<longleftrightarrow> (case held i b of [] \<Rightarrow> length (bu_streams b) < 4 \<and> length d \<le> 1024
                                | p # _ \<Rightarrow> length (bf_bytes p) + length d \<le> 1024)) \<and>
    (if st = WT_OK then
       held i b' = (case held i b of
          [] \<Rightarrow> [\<lparr>bf_stream_id = i, bf_session_id = s, bf_unidirectional = u, bf_bytes = d\<rparr>]
        | p # _ \<Rightarrow> [p\<lparr>bf_bytes := bf_bytes p @ d\<rparr>]) \<and>
       bu_streams_rejected b' = bu_streams_rejected b
     else st = WT_ERR_LIMIT \<and> held i b' = [] \<and> bu_last_rejected_stream_id b' = i \<and>
       bu_streams_rejected b' = bu_streams_rejected b + 1)"
proof (cases "find_stream b i")
  case None
  then have h: "held i b = []" using assms(1) by (simp add: held_find buffered_inv_def)
  note inv = park_stream_inv [OF assms]
  show ?thesis
  proof (cases "length (bu_streams b) < 4 \<and> length d \<le> 1024")
    case True
    then have "st = WT_OK" "b' = b\<lparr>bu_streams := bu_streams b @ [\<lparr>bf_stream_id = i, bf_session_id = s, bf_unidirectional = u, bf_bytes = d\<rparr>]\<rparr>"
      using park_stream_new [OF None, of s u d] assms(2) by simp_all
    with True h inv show ?thesis by (simp add: others_def held_def)
  next
    case False
    have "(st, b') = reject_stream i b"
      using assms(2) unfolding park_stream_new [OF None] if_not_P [OF False] by (rule sym)
    with False h inv show ?thesis by (simp add: others_def held_def reject_stream_def)
  qed
next
  case (Some n)
  have n: "n < length (bu_streams b)" "bf_stream_id (bu_streams b ! n) = i"
    using Some find_stream_from_Some by (auto simp: find_stream_def)
  have h: "held i b = [bu_streams b ! n]" using Some assms(1) by (simp add: held_find buffered_inv_def)
  let ?p = "bu_streams b ! n"
  let ?x = "?p\<lparr>bf_bytes := bf_bytes ?p @ d\<rparr>"
  have upd: "filter (\<lambda>p. bf_stream_id p = i) ((bu_streams b)[n := ?x]) = [?x]"
  proof -
    have "distinct (map bf_stream_id ((bu_streams b)[n := ?x]))"
      using assms(1) n by (subst map_id_update) (simp_all add: buffered_inv_def)
    from distinct_filter_nth [OF this, of n] n show ?thesis by simp
  qed
  have drop: "filter (\<lambda>p. bf_stream_id p = i) (take n (bu_streams b) @ drop (Suc n) (bu_streams b)) = []"
  proof -
    have "filter (\<lambda>p. bf_stream_id p = i) (take n (bu_streams b)) @ ?p # filter (\<lambda>p. bf_stream_id p = i) (drop (Suc n) (bu_streams b)) = [?p]"
      using h n(2) filter_at_nth [OF n(1), of "\<lambda>p. bf_stream_id p = i"] by (simp only: held_def)
    then show ?thesis by (simp add: append_eq_Cons_conv)
  qed
  have other: "filter (\<lambda>p. bf_stream_id p \<noteq> i) ((bu_streams b)[n := ?x]) = filter (\<lambda>p. bf_stream_id p \<noteq> i) (bu_streams b)"
    "filter (\<lambda>p. bf_stream_id p \<noteq> i) (take n (bu_streams b) @ drop (Suc n) (bu_streams b)) = filter (\<lambda>p. bf_stream_id p \<noteq> i) (bu_streams b)"
    using n by (intro filter_update_nth filter_drop_nth; simp)+
  show ?thesis
  proof (cases "length (bf_bytes ?p) + length d \<le> 1024")
    case True
    then have "st = WT_OK" "b' = b\<lparr>bu_streams := (bu_streams b)[n := ?x]\<rparr>"
      using park_stream_more [OF Some assms(1), of s u d] assms(2) by (simp_all add: Let_def)
    with True h upd other(1) park_stream_inv [OF assms] show ?thesis by (simp add: others_def held_def)
  next
    case False
    then have "(st, b') = reject_stream i (drop_stream n b)"
      using park_stream_more [OF Some assms(1), of s u d] assms(2) by (simp add: Let_def)
    with False h drop other(2) park_stream_inv [OF assms] show ?thesis
      by (simp add: others_def held_def reject_stream_def drop_stream_def del: filter_append)
  qed
qed

text \<open>C21: An early flight is delivered as it was sent. When every piece of a flight that arrived before its session
  could be parked, draining for the session hands the callback, in the order in which the streams first appeared,
  exactly the streams whose prefix named it, each once with its direction and all its bytes in order; it counts
  the others as dropped and leaves nothing parked. With a callback that refuses, the streams up to the refusal
  are delivered, its status is the result, and the buffer is empty all the same.\<close>

theorem wt_webtransport_buffered_flight:
  assumes "park_run ps wt_webtransport_buffered_init = (True, b)"
    "wt_webtransport_buffered_drain_streams sid (Some f) k b = ((st, n, m, k'), b')"
  shows "let mine = filter (\<lambda>p. bf_session_id p = sid) (whole_streams ps) in
    deliver_all (\<lambda>k p. f k (bf_stream_id p) (bf_unidirectional p) (bf_bytes p)) k mine = (st, n, k') \<and>
    (st = WT_OK \<longrightarrow> n + m = length (first_ids ps)) \<and>
    wt_webtransport_buffered_stream_count b' = 0 \<and>
    fst (wt_webtransport_buffered_drain_streams sid (Some (\<lambda>k i u bs. (WT_OK, k @ [(i, u, bs)]))) [] b) =
      (WT_OK, length mine, length (whole_streams ps) - length mine,
       map (\<lambda>p. (bf_stream_id p, bf_unidirectional p, bf_bytes p)) mine)"
proof -
  have init: "bu_streams wt_webtransport_buffered_init = whole_streams []" "buffered_inv wt_webtransport_buffered_init"
    by (simp_all add: wt_webtransport_buffered_init_def whole_streams_def first_ids_def buffered_inv_def)
  from park_run_streams [OF assms(1) init] have b: "bu_streams b = whole_streams ps" by simp
  let ?mine = "\<lambda>p. bf_session_id p = sid"
  have sum: "length (filter ?mine xs) + length (filter (\<lambda>p. \<not> ?mine p) xs) = length xs" for xs :: "wt_webtransport_buffered_stream list"
    by (rule sum_length_filter_compl)
  note d = drain_streams_delivers [OF b]
  have d1: "deliver_all (\<lambda>k p. f k (bf_stream_id p) (bf_unidirectional p) (bf_bytes p)) k (filter ?mine (whole_streams ps)) = (st, n, k') \<and>
      (st = WT_OK \<longrightarrow> m = length (filter (\<lambda>p. bf_session_id p \<noteq> sid) (whole_streams ps)))"
    by (rule d) (simp add: assms(2))
  have all: "n = length (filter ?mine (whole_streams ps))" if "st = WT_OK"
    using deliver_all_count [OF d1 [THEN conjunct1, unfolded that]] .
  obtain st2 n2 m2 k2 where rec: "fst (wt_webtransport_buffered_drain_streams sid (Some (\<lambda>k i u bs. (WT_OK, k @ [(i, u, bs)]))) [] b) =
      (st2, n2, m2, k2)" by (rule prod_cases4)
  from d [OF rec] have "st2 = WT_OK \<and> n2 = length (filter ?mine (whole_streams ps)) \<and>
      m2 = length (filter (\<lambda>p. \<not> ?mine p) (whole_streams ps)) \<and>
      k2 = map (\<lambda>p. (bf_stream_id p, bf_unidirectional p, bf_bytes p)) (filter ?mine (whole_streams ps))"
    by (simp add: deliver_all_record)
  moreover have "b' = b\<lparr>bu_streams := []\<rparr>" using assms(2) by (simp add: wt_webtransport_buffered_drain_streams_def)
  moreover have "length (whole_streams ps) = length (first_ids ps)" by (simp add: whole_streams_def)
  ultimately show ?thesis
    using d1 all rec sum [of "whole_streams ps"] by (auto simp: Let_def wt_webtransport_buffered_stream_count_def)
qed

theorem wt_webtransport_buffered_flight_witness:
  "let b = snd (park_run [(8, 4, True, [1]), (12, 0, False, [9]), (8, 4, True, [2])] wt_webtransport_buffered_init) in
   snd (snd (snd (fst (wt_webtransport_buffered_drain_streams 4 (Some (\<lambda>k i u bs. (WT_OK, k @ [(i, u, bs)]))) [] b)))) =
     [(8, True, [1, 2])]"
proof -
  let ?ps = "[(8, 4, True, [1]), (12, 0, False, [9]), (8, 4, True, [2])] :: piece list"
  let ?f = "\<lambda>k i u bs. (WT_OK, k @ [(i, u, bs)])"
  obtain b where run: "park_run ?ps wt_webtransport_buffered_init = (True, b)"
    by (simp add: wt_webtransport_buffered_park_stream_def find_stream_def wt_webtransport_buffered_init_def buffered_limits Let_def)
  obtain r b' where dr: "wt_webtransport_buffered_drain_streams 4 (Some ?f) [] b = (r, b')" by (rule prod.exhaust)
  obtain st n m k' where r: "r = (st, n, m, k')" by (rule prod_cases4)
  have "filter (\<lambda>p. bf_session_id p = 4) (whole_streams ?ps) =
      [\<lparr>bf_stream_id = 8, bf_session_id = 4, bf_unidirectional = True, bf_bytes = [1, 2]\<rparr>]"
    by (simp add: whole_streams_def first_ids_def whole_stream_def)
  with wt_webtransport_buffered_flight [OF run dr [unfolded r]]
  have "k' = [(8, True, [1, 2])]" by (simp add: Let_def)
  then show ?thesis unfolding run Let_def snd_conv dr fst_conv r .
qed

end
