(* ===== verification/Qpack_Huffman_Table.thy ===== *)
theory Qpack_Huffman_Table
  imports Wire_Core
begin

text \<open>
  The tables of QPACK's Huffman code (\<open>C99/src/http3/qpack_huffman_table.h\<close>), entry by entry, and
  what the header says of them, checked by evaluation: the ranges are those of a canonical code
  that is complete at thirty bits, every entry of the decoder's table stands in the block of its
  length at the place of its code, and it names the symbol the encoder's table gives that code.
  From there on the code is known by \<open>huffman_word\<close>, the bit string of a symbol, with three laws:
  a proper prefix of a code word is not a code word, every code word is found in the ranges, and
  what is found in the ranges is a code word.
\<close>

subsection \<open>The tables (qpack_huffman_table.h)\<close>

datatype wt_rfc7541_huffman_code = HUFFMAN_CODE (hc_code: u32) (hc_bits: u8)

datatype wt_rfc7541_huffman_entry = HUFFMAN_ENTRY (he_code: u32) (he_bits: u8) (he_symbol: u16)

datatype wt_rfc7541_huffman_range = HUFFMAN_RANGE (hr_first_code: u32) (hr_offset: u16) (hr_count: u16)

definition WT_RFC7541_HUFFMAN_EOS :: u16 where
  "WT_RFC7541_HUFFMAN_EOS = 256"

definition WT_RFC7541_HUFFMAN_MAX_BITS :: nat where
  "WT_RFC7541_HUFFMAN_MAX_BITS = 30"

definition WT_RFC7541_HUFFMAN_CODES :: "wt_rfc7541_huffman_code list" where
  "WT_RFC7541_HUFFMAN_CODES =
    [
     HUFFMAN_CODE 0x1FF8 13, HUFFMAN_CODE 0x7FFFD8 23, HUFFMAN_CODE 0xFFFFFE2 28,
     HUFFMAN_CODE 0xFFFFFE3 28, HUFFMAN_CODE 0xFFFFFE4 28, HUFFMAN_CODE 0xFFFFFE5 28,
     HUFFMAN_CODE 0xFFFFFE6 28, HUFFMAN_CODE 0xFFFFFE7 28, HUFFMAN_CODE 0xFFFFFE8 28,
     HUFFMAN_CODE 0xFFFFEA 24, HUFFMAN_CODE 0x3FFFFFFC 30, HUFFMAN_CODE 0xFFFFFE9 28,
     HUFFMAN_CODE 0xFFFFFEA 28, HUFFMAN_CODE 0x3FFFFFFD 30, HUFFMAN_CODE 0xFFFFFEB 28,
     HUFFMAN_CODE 0xFFFFFEC 28, HUFFMAN_CODE 0xFFFFFED 28, HUFFMAN_CODE 0xFFFFFEE 28,
     HUFFMAN_CODE 0xFFFFFEF 28, HUFFMAN_CODE 0xFFFFFF0 28, HUFFMAN_CODE 0xFFFFFF1 28,
     HUFFMAN_CODE 0xFFFFFF2 28, HUFFMAN_CODE 0x3FFFFFFE 30, HUFFMAN_CODE 0xFFFFFF3 28,
     HUFFMAN_CODE 0xFFFFFF4 28, HUFFMAN_CODE 0xFFFFFF5 28, HUFFMAN_CODE 0xFFFFFF6 28,
     HUFFMAN_CODE 0xFFFFFF7 28, HUFFMAN_CODE 0xFFFFFF8 28, HUFFMAN_CODE 0xFFFFFF9 28,
     HUFFMAN_CODE 0xFFFFFFA 28, HUFFMAN_CODE 0xFFFFFFB 28, HUFFMAN_CODE 0x14 6,
     HUFFMAN_CODE 0x3F8 10, HUFFMAN_CODE 0x3F9 10, HUFFMAN_CODE 0xFFA 12,
     HUFFMAN_CODE 0x1FF9 13, HUFFMAN_CODE 0x15 6, HUFFMAN_CODE 0xF8 8,
     HUFFMAN_CODE 0x7FA 11, HUFFMAN_CODE 0x3FA 10, HUFFMAN_CODE 0x3FB 10,
     HUFFMAN_CODE 0xF9 8, HUFFMAN_CODE 0x7FB 11, HUFFMAN_CODE 0xFA 8,
     HUFFMAN_CODE 0x16 6, HUFFMAN_CODE 0x17 6, HUFFMAN_CODE 0x18 6,
     HUFFMAN_CODE 0x0 5, HUFFMAN_CODE 0x1 5, HUFFMAN_CODE 0x2 5,
     HUFFMAN_CODE 0x19 6, HUFFMAN_CODE 0x1A 6, HUFFMAN_CODE 0x1B 6,
     HUFFMAN_CODE 0x1C 6, HUFFMAN_CODE 0x1D 6, HUFFMAN_CODE 0x1E 6,
     HUFFMAN_CODE 0x1F 6, HUFFMAN_CODE 0x5C 7, HUFFMAN_CODE 0xFB 8,
     HUFFMAN_CODE 0x7FFC 15, HUFFMAN_CODE 0x20 6, HUFFMAN_CODE 0xFFB 12,
     HUFFMAN_CODE 0x3FC 10, HUFFMAN_CODE 0x1FFA 13, HUFFMAN_CODE 0x21 6,
     HUFFMAN_CODE 0x5D 7, HUFFMAN_CODE 0x5E 7, HUFFMAN_CODE 0x5F 7,
     HUFFMAN_CODE 0x60 7, HUFFMAN_CODE 0x61 7, HUFFMAN_CODE 0x62 7,
     HUFFMAN_CODE 0x63 7, HUFFMAN_CODE 0x64 7, HUFFMAN_CODE 0x65 7,
     HUFFMAN_CODE 0x66 7, HUFFMAN_CODE 0x67 7, HUFFMAN_CODE 0x68 7,
     HUFFMAN_CODE 0x69 7, HUFFMAN_CODE 0x6A 7, HUFFMAN_CODE 0x6B 7,
     HUFFMAN_CODE 0x6C 7, HUFFMAN_CODE 0x6D 7, HUFFMAN_CODE 0x6E 7,
     HUFFMAN_CODE 0x6F 7, HUFFMAN_CODE 0x70 7, HUFFMAN_CODE 0x71 7,
     HUFFMAN_CODE 0x72 7, HUFFMAN_CODE 0xFC 8, HUFFMAN_CODE 0x73 7,
     HUFFMAN_CODE 0xFD 8, HUFFMAN_CODE 0x1FFB 13, HUFFMAN_CODE 0x7FFF0 19,
     HUFFMAN_CODE 0x1FFC 13, HUFFMAN_CODE 0x3FFC 14, HUFFMAN_CODE 0x22 6,
     HUFFMAN_CODE 0x7FFD 15, HUFFMAN_CODE 0x3 5, HUFFMAN_CODE 0x23 6,
     HUFFMAN_CODE 0x4 5, HUFFMAN_CODE 0x24 6, HUFFMAN_CODE 0x5 5,
     HUFFMAN_CODE 0x25 6, HUFFMAN_CODE 0x26 6, HUFFMAN_CODE 0x27 6,
     HUFFMAN_CODE 0x6 5, HUFFMAN_CODE 0x74 7, HUFFMAN_CODE 0x75 7,
     HUFFMAN_CODE 0x28 6, HUFFMAN_CODE 0x29 6, HUFFMAN_CODE 0x2A 6,
     HUFFMAN_CODE 0x7 5, HUFFMAN_CODE 0x2B 6, HUFFMAN_CODE 0x76 7,
     HUFFMAN_CODE 0x2C 6, HUFFMAN_CODE 0x8 5, HUFFMAN_CODE 0x9 5,
     HUFFMAN_CODE 0x2D 6, HUFFMAN_CODE 0x77 7, HUFFMAN_CODE 0x78 7,
     HUFFMAN_CODE 0x79 7, HUFFMAN_CODE 0x7A 7, HUFFMAN_CODE 0x7B 7,
     HUFFMAN_CODE 0x7FFE 15, HUFFMAN_CODE 0x7FC 11, HUFFMAN_CODE 0x3FFD 14,
     HUFFMAN_CODE 0x1FFD 13, HUFFMAN_CODE 0xFFFFFFC 28, HUFFMAN_CODE 0xFFFE6 20,
     HUFFMAN_CODE 0x3FFFD2 22, HUFFMAN_CODE 0xFFFE7 20, HUFFMAN_CODE 0xFFFE8 20,
     HUFFMAN_CODE 0x3FFFD3 22, HUFFMAN_CODE 0x3FFFD4 22, HUFFMAN_CODE 0x3FFFD5 22,
     HUFFMAN_CODE 0x7FFFD9 23, HUFFMAN_CODE 0x3FFFD6 22, HUFFMAN_CODE 0x7FFFDA 23,
     HUFFMAN_CODE 0x7FFFDB 23, HUFFMAN_CODE 0x7FFFDC 23, HUFFMAN_CODE 0x7FFFDD 23,
     HUFFMAN_CODE 0x7FFFDE 23, HUFFMAN_CODE 0xFFFFEB 24, HUFFMAN_CODE 0x7FFFDF 23,
     HUFFMAN_CODE 0xFFFFEC 24, HUFFMAN_CODE 0xFFFFED 24, HUFFMAN_CODE 0x3FFFD7 22,
     HUFFMAN_CODE 0x7FFFE0 23, HUFFMAN_CODE 0xFFFFEE 24, HUFFMAN_CODE 0x7FFFE1 23,
     HUFFMAN_CODE 0x7FFFE2 23, HUFFMAN_CODE 0x7FFFE3 23, HUFFMAN_CODE 0x7FFFE4 23,
     HUFFMAN_CODE 0x1FFFDC 21, HUFFMAN_CODE 0x3FFFD8 22, HUFFMAN_CODE 0x7FFFE5 23,
     HUFFMAN_CODE 0x3FFFD9 22, HUFFMAN_CODE 0x7FFFE6 23, HUFFMAN_CODE 0x7FFFE7 23,
     HUFFMAN_CODE 0xFFFFEF 24, HUFFMAN_CODE 0x3FFFDA 22, HUFFMAN_CODE 0x1FFFDD 21,
     HUFFMAN_CODE 0xFFFE9 20, HUFFMAN_CODE 0x3FFFDB 22, HUFFMAN_CODE 0x3FFFDC 22,
     HUFFMAN_CODE 0x7FFFE8 23, HUFFMAN_CODE 0x7FFFE9 23, HUFFMAN_CODE 0x1FFFDE 21,
     HUFFMAN_CODE 0x7FFFEA 23, HUFFMAN_CODE 0x3FFFDD 22, HUFFMAN_CODE 0x3FFFDE 22,
     HUFFMAN_CODE 0xFFFFF0 24, HUFFMAN_CODE 0x1FFFDF 21, HUFFMAN_CODE 0x3FFFDF 22,
     HUFFMAN_CODE 0x7FFFEB 23, HUFFMAN_CODE 0x7FFFEC 23, HUFFMAN_CODE 0x1FFFE0 21,
     HUFFMAN_CODE 0x1FFFE1 21, HUFFMAN_CODE 0x3FFFE0 22, HUFFMAN_CODE 0x1FFFE2 21,
     HUFFMAN_CODE 0x7FFFED 23, HUFFMAN_CODE 0x3FFFE1 22, HUFFMAN_CODE 0x7FFFEE 23,
     HUFFMAN_CODE 0x7FFFEF 23, HUFFMAN_CODE 0xFFFEA 20, HUFFMAN_CODE 0x3FFFE2 22,
     HUFFMAN_CODE 0x3FFFE3 22, HUFFMAN_CODE 0x3FFFE4 22, HUFFMAN_CODE 0x7FFFF0 23,
     HUFFMAN_CODE 0x3FFFE5 22, HUFFMAN_CODE 0x3FFFE6 22, HUFFMAN_CODE 0x7FFFF1 23,
     HUFFMAN_CODE 0x3FFFFE0 26, HUFFMAN_CODE 0x3FFFFE1 26, HUFFMAN_CODE 0xFFFEB 20,
     HUFFMAN_CODE 0x7FFF1 19, HUFFMAN_CODE 0x3FFFE7 22, HUFFMAN_CODE 0x7FFFF2 23,
     HUFFMAN_CODE 0x3FFFE8 22, HUFFMAN_CODE 0x1FFFFEC 25, HUFFMAN_CODE 0x3FFFFE2 26,
     HUFFMAN_CODE 0x3FFFFE3 26, HUFFMAN_CODE 0x3FFFFE4 26, HUFFMAN_CODE 0x7FFFFDE 27,
     HUFFMAN_CODE 0x7FFFFDF 27, HUFFMAN_CODE 0x3FFFFE5 26, HUFFMAN_CODE 0xFFFFF1 24,
     HUFFMAN_CODE 0x1FFFFED 25, HUFFMAN_CODE 0x7FFF2 19, HUFFMAN_CODE 0x1FFFE3 21,
     HUFFMAN_CODE 0x3FFFFE6 26, HUFFMAN_CODE 0x7FFFFE0 27, HUFFMAN_CODE 0x7FFFFE1 27,
     HUFFMAN_CODE 0x3FFFFE7 26, HUFFMAN_CODE 0x7FFFFE2 27, HUFFMAN_CODE 0xFFFFF2 24,
     HUFFMAN_CODE 0x1FFFE4 21, HUFFMAN_CODE 0x1FFFE5 21, HUFFMAN_CODE 0x3FFFFE8 26,
     HUFFMAN_CODE 0x3FFFFE9 26, HUFFMAN_CODE 0xFFFFFFD 28, HUFFMAN_CODE 0x7FFFFE3 27,
     HUFFMAN_CODE 0x7FFFFE4 27, HUFFMAN_CODE 0x7FFFFE5 27, HUFFMAN_CODE 0xFFFEC 20,
     HUFFMAN_CODE 0xFFFFF3 24, HUFFMAN_CODE 0xFFFED 20, HUFFMAN_CODE 0x1FFFE6 21,
     HUFFMAN_CODE 0x3FFFE9 22, HUFFMAN_CODE 0x1FFFE7 21, HUFFMAN_CODE 0x1FFFE8 21,
     HUFFMAN_CODE 0x7FFFF3 23, HUFFMAN_CODE 0x3FFFEA 22, HUFFMAN_CODE 0x3FFFEB 22,
     HUFFMAN_CODE 0x1FFFFEE 25, HUFFMAN_CODE 0x1FFFFEF 25, HUFFMAN_CODE 0xFFFFF4 24,
     HUFFMAN_CODE 0xFFFFF5 24, HUFFMAN_CODE 0x3FFFFEA 26, HUFFMAN_CODE 0x7FFFF4 23,
     HUFFMAN_CODE 0x3FFFFEB 26, HUFFMAN_CODE 0x7FFFFE6 27, HUFFMAN_CODE 0x3FFFFEC 26,
     HUFFMAN_CODE 0x3FFFFED 26, HUFFMAN_CODE 0x7FFFFE7 27, HUFFMAN_CODE 0x7FFFFE8 27,
     HUFFMAN_CODE 0x7FFFFE9 27, HUFFMAN_CODE 0x7FFFFEA 27, HUFFMAN_CODE 0x7FFFFEB 27,
     HUFFMAN_CODE 0xFFFFFFE 28, HUFFMAN_CODE 0x7FFFFEC 27, HUFFMAN_CODE 0x7FFFFED 27,
     HUFFMAN_CODE 0x7FFFFEE 27, HUFFMAN_CODE 0x7FFFFEF 27, HUFFMAN_CODE 0x7FFFFF0 27,
     HUFFMAN_CODE 0x3FFFFEE 26, HUFFMAN_CODE 0x3FFFFFFF 30]"

definition WT_RFC7541_HUFFMAN_BY_CODE :: "wt_rfc7541_huffman_entry list" where
  "WT_RFC7541_HUFFMAN_BY_CODE =
    [
     HUFFMAN_ENTRY 0x0 5 48, HUFFMAN_ENTRY 0x1 5 49, HUFFMAN_ENTRY 0x2 5 50,
     HUFFMAN_ENTRY 0x3 5 97, HUFFMAN_ENTRY 0x4 5 99, HUFFMAN_ENTRY 0x5 5 101,
     HUFFMAN_ENTRY 0x6 5 105, HUFFMAN_ENTRY 0x7 5 111, HUFFMAN_ENTRY 0x8 5 115,
     HUFFMAN_ENTRY 0x9 5 116, HUFFMAN_ENTRY 0x14 6 32, HUFFMAN_ENTRY 0x15 6 37,
     HUFFMAN_ENTRY 0x16 6 45, HUFFMAN_ENTRY 0x17 6 46, HUFFMAN_ENTRY 0x18 6 47,
     HUFFMAN_ENTRY 0x19 6 51, HUFFMAN_ENTRY 0x1A 6 52, HUFFMAN_ENTRY 0x1B 6 53,
     HUFFMAN_ENTRY 0x1C 6 54, HUFFMAN_ENTRY 0x1D 6 55, HUFFMAN_ENTRY 0x1E 6 56,
     HUFFMAN_ENTRY 0x1F 6 57, HUFFMAN_ENTRY 0x20 6 61, HUFFMAN_ENTRY 0x21 6 65,
     HUFFMAN_ENTRY 0x22 6 95, HUFFMAN_ENTRY 0x23 6 98, HUFFMAN_ENTRY 0x24 6 100,
     HUFFMAN_ENTRY 0x25 6 102, HUFFMAN_ENTRY 0x26 6 103, HUFFMAN_ENTRY 0x27 6 104,
     HUFFMAN_ENTRY 0x28 6 108, HUFFMAN_ENTRY 0x29 6 109, HUFFMAN_ENTRY 0x2A 6 110,
     HUFFMAN_ENTRY 0x2B 6 112, HUFFMAN_ENTRY 0x2C 6 114, HUFFMAN_ENTRY 0x2D 6 117,
     HUFFMAN_ENTRY 0x5C 7 58, HUFFMAN_ENTRY 0x5D 7 66, HUFFMAN_ENTRY 0x5E 7 67,
     HUFFMAN_ENTRY 0x5F 7 68, HUFFMAN_ENTRY 0x60 7 69, HUFFMAN_ENTRY 0x61 7 70,
     HUFFMAN_ENTRY 0x62 7 71, HUFFMAN_ENTRY 0x63 7 72, HUFFMAN_ENTRY 0x64 7 73,
     HUFFMAN_ENTRY 0x65 7 74, HUFFMAN_ENTRY 0x66 7 75, HUFFMAN_ENTRY 0x67 7 76,
     HUFFMAN_ENTRY 0x68 7 77, HUFFMAN_ENTRY 0x69 7 78, HUFFMAN_ENTRY 0x6A 7 79,
     HUFFMAN_ENTRY 0x6B 7 80, HUFFMAN_ENTRY 0x6C 7 81, HUFFMAN_ENTRY 0x6D 7 82,
     HUFFMAN_ENTRY 0x6E 7 83, HUFFMAN_ENTRY 0x6F 7 84, HUFFMAN_ENTRY 0x70 7 85,
     HUFFMAN_ENTRY 0x71 7 86, HUFFMAN_ENTRY 0x72 7 87, HUFFMAN_ENTRY 0x73 7 89,
     HUFFMAN_ENTRY 0x74 7 106, HUFFMAN_ENTRY 0x75 7 107, HUFFMAN_ENTRY 0x76 7 113,
     HUFFMAN_ENTRY 0x77 7 118, HUFFMAN_ENTRY 0x78 7 119, HUFFMAN_ENTRY 0x79 7 120,
     HUFFMAN_ENTRY 0x7A 7 121, HUFFMAN_ENTRY 0x7B 7 122, HUFFMAN_ENTRY 0xF8 8 38,
     HUFFMAN_ENTRY 0xF9 8 42, HUFFMAN_ENTRY 0xFA 8 44, HUFFMAN_ENTRY 0xFB 8 59,
     HUFFMAN_ENTRY 0xFC 8 88, HUFFMAN_ENTRY 0xFD 8 90, HUFFMAN_ENTRY 0x3F8 10 33,
     HUFFMAN_ENTRY 0x3F9 10 34, HUFFMAN_ENTRY 0x3FA 10 40, HUFFMAN_ENTRY 0x3FB 10 41,
     HUFFMAN_ENTRY 0x3FC 10 63, HUFFMAN_ENTRY 0x7FA 11 39, HUFFMAN_ENTRY 0x7FB 11 43,
     HUFFMAN_ENTRY 0x7FC 11 124, HUFFMAN_ENTRY 0xFFA 12 35, HUFFMAN_ENTRY 0xFFB 12 62,
     HUFFMAN_ENTRY 0x1FF8 13 0, HUFFMAN_ENTRY 0x1FF9 13 36, HUFFMAN_ENTRY 0x1FFA 13 64,
     HUFFMAN_ENTRY 0x1FFB 13 91, HUFFMAN_ENTRY 0x1FFC 13 93, HUFFMAN_ENTRY 0x1FFD 13 126,
     HUFFMAN_ENTRY 0x3FFC 14 94, HUFFMAN_ENTRY 0x3FFD 14 125, HUFFMAN_ENTRY 0x7FFC 15 60,
     HUFFMAN_ENTRY 0x7FFD 15 96, HUFFMAN_ENTRY 0x7FFE 15 123, HUFFMAN_ENTRY 0x7FFF0 19 92,
     HUFFMAN_ENTRY 0x7FFF1 19 195, HUFFMAN_ENTRY 0x7FFF2 19 208, HUFFMAN_ENTRY 0xFFFE6 20 128,
     HUFFMAN_ENTRY 0xFFFE7 20 130, HUFFMAN_ENTRY 0xFFFE8 20 131, HUFFMAN_ENTRY 0xFFFE9 20 162,
     HUFFMAN_ENTRY 0xFFFEA 20 184, HUFFMAN_ENTRY 0xFFFEB 20 194, HUFFMAN_ENTRY 0xFFFEC 20 224,
     HUFFMAN_ENTRY 0xFFFED 20 226, HUFFMAN_ENTRY 0x1FFFDC 21 153, HUFFMAN_ENTRY 0x1FFFDD 21 161,
     HUFFMAN_ENTRY 0x1FFFDE 21 167, HUFFMAN_ENTRY 0x1FFFDF 21 172, HUFFMAN_ENTRY 0x1FFFE0 21 176,
     HUFFMAN_ENTRY 0x1FFFE1 21 177, HUFFMAN_ENTRY 0x1FFFE2 21 179, HUFFMAN_ENTRY 0x1FFFE3 21 209,
     HUFFMAN_ENTRY 0x1FFFE4 21 216, HUFFMAN_ENTRY 0x1FFFE5 21 217, HUFFMAN_ENTRY 0x1FFFE6 21 227,
     HUFFMAN_ENTRY 0x1FFFE7 21 229, HUFFMAN_ENTRY 0x1FFFE8 21 230, HUFFMAN_ENTRY 0x3FFFD2 22 129,
     HUFFMAN_ENTRY 0x3FFFD3 22 132, HUFFMAN_ENTRY 0x3FFFD4 22 133, HUFFMAN_ENTRY 0x3FFFD5 22 134,
     HUFFMAN_ENTRY 0x3FFFD6 22 136, HUFFMAN_ENTRY 0x3FFFD7 22 146, HUFFMAN_ENTRY 0x3FFFD8 22 154,
     HUFFMAN_ENTRY 0x3FFFD9 22 156, HUFFMAN_ENTRY 0x3FFFDA 22 160, HUFFMAN_ENTRY 0x3FFFDB 22 163,
     HUFFMAN_ENTRY 0x3FFFDC 22 164, HUFFMAN_ENTRY 0x3FFFDD 22 169, HUFFMAN_ENTRY 0x3FFFDE 22 170,
     HUFFMAN_ENTRY 0x3FFFDF 22 173, HUFFMAN_ENTRY 0x3FFFE0 22 178, HUFFMAN_ENTRY 0x3FFFE1 22 181,
     HUFFMAN_ENTRY 0x3FFFE2 22 185, HUFFMAN_ENTRY 0x3FFFE3 22 186, HUFFMAN_ENTRY 0x3FFFE4 22 187,
     HUFFMAN_ENTRY 0x3FFFE5 22 189, HUFFMAN_ENTRY 0x3FFFE6 22 190, HUFFMAN_ENTRY 0x3FFFE7 22 196,
     HUFFMAN_ENTRY 0x3FFFE8 22 198, HUFFMAN_ENTRY 0x3FFFE9 22 228, HUFFMAN_ENTRY 0x3FFFEA 22 232,
     HUFFMAN_ENTRY 0x3FFFEB 22 233, HUFFMAN_ENTRY 0x7FFFD8 23 1, HUFFMAN_ENTRY 0x7FFFD9 23 135,
     HUFFMAN_ENTRY 0x7FFFDA 23 137, HUFFMAN_ENTRY 0x7FFFDB 23 138, HUFFMAN_ENTRY 0x7FFFDC 23 139,
     HUFFMAN_ENTRY 0x7FFFDD 23 140, HUFFMAN_ENTRY 0x7FFFDE 23 141, HUFFMAN_ENTRY 0x7FFFDF 23 143,
     HUFFMAN_ENTRY 0x7FFFE0 23 147, HUFFMAN_ENTRY 0x7FFFE1 23 149, HUFFMAN_ENTRY 0x7FFFE2 23 150,
     HUFFMAN_ENTRY 0x7FFFE3 23 151, HUFFMAN_ENTRY 0x7FFFE4 23 152, HUFFMAN_ENTRY 0x7FFFE5 23 155,
     HUFFMAN_ENTRY 0x7FFFE6 23 157, HUFFMAN_ENTRY 0x7FFFE7 23 158, HUFFMAN_ENTRY 0x7FFFE8 23 165,
     HUFFMAN_ENTRY 0x7FFFE9 23 166, HUFFMAN_ENTRY 0x7FFFEA 23 168, HUFFMAN_ENTRY 0x7FFFEB 23 174,
     HUFFMAN_ENTRY 0x7FFFEC 23 175, HUFFMAN_ENTRY 0x7FFFED 23 180, HUFFMAN_ENTRY 0x7FFFEE 23 182,
     HUFFMAN_ENTRY 0x7FFFEF 23 183, HUFFMAN_ENTRY 0x7FFFF0 23 188, HUFFMAN_ENTRY 0x7FFFF1 23 191,
     HUFFMAN_ENTRY 0x7FFFF2 23 197, HUFFMAN_ENTRY 0x7FFFF3 23 231, HUFFMAN_ENTRY 0x7FFFF4 23 239,
     HUFFMAN_ENTRY 0xFFFFEA 24 9, HUFFMAN_ENTRY 0xFFFFEB 24 142, HUFFMAN_ENTRY 0xFFFFEC 24 144,
     HUFFMAN_ENTRY 0xFFFFED 24 145, HUFFMAN_ENTRY 0xFFFFEE 24 148, HUFFMAN_ENTRY 0xFFFFEF 24 159,
     HUFFMAN_ENTRY 0xFFFFF0 24 171, HUFFMAN_ENTRY 0xFFFFF1 24 206, HUFFMAN_ENTRY 0xFFFFF2 24 215,
     HUFFMAN_ENTRY 0xFFFFF3 24 225, HUFFMAN_ENTRY 0xFFFFF4 24 236, HUFFMAN_ENTRY 0xFFFFF5 24 237,
     HUFFMAN_ENTRY 0x1FFFFEC 25 199, HUFFMAN_ENTRY 0x1FFFFED 25 207, HUFFMAN_ENTRY 0x1FFFFEE 25 234,
     HUFFMAN_ENTRY 0x1FFFFEF 25 235, HUFFMAN_ENTRY 0x3FFFFE0 26 192, HUFFMAN_ENTRY 0x3FFFFE1 26 193,
     HUFFMAN_ENTRY 0x3FFFFE2 26 200, HUFFMAN_ENTRY 0x3FFFFE3 26 201, HUFFMAN_ENTRY 0x3FFFFE4 26 202,
     HUFFMAN_ENTRY 0x3FFFFE5 26 205, HUFFMAN_ENTRY 0x3FFFFE6 26 210, HUFFMAN_ENTRY 0x3FFFFE7 26 213,
     HUFFMAN_ENTRY 0x3FFFFE8 26 218, HUFFMAN_ENTRY 0x3FFFFE9 26 219, HUFFMAN_ENTRY 0x3FFFFEA 26 238,
     HUFFMAN_ENTRY 0x3FFFFEB 26 240, HUFFMAN_ENTRY 0x3FFFFEC 26 242, HUFFMAN_ENTRY 0x3FFFFED 26 243,
     HUFFMAN_ENTRY 0x3FFFFEE 26 255, HUFFMAN_ENTRY 0x7FFFFDE 27 203, HUFFMAN_ENTRY 0x7FFFFDF 27 204,
     HUFFMAN_ENTRY 0x7FFFFE0 27 211, HUFFMAN_ENTRY 0x7FFFFE1 27 212, HUFFMAN_ENTRY 0x7FFFFE2 27 214,
     HUFFMAN_ENTRY 0x7FFFFE3 27 221, HUFFMAN_ENTRY 0x7FFFFE4 27 222, HUFFMAN_ENTRY 0x7FFFFE5 27 223,
     HUFFMAN_ENTRY 0x7FFFFE6 27 241, HUFFMAN_ENTRY 0x7FFFFE7 27 244, HUFFMAN_ENTRY 0x7FFFFE8 27 245,
     HUFFMAN_ENTRY 0x7FFFFE9 27 246, HUFFMAN_ENTRY 0x7FFFFEA 27 247, HUFFMAN_ENTRY 0x7FFFFEB 27 248,
     HUFFMAN_ENTRY 0x7FFFFEC 27 250, HUFFMAN_ENTRY 0x7FFFFED 27 251, HUFFMAN_ENTRY 0x7FFFFEE 27 252,
     HUFFMAN_ENTRY 0x7FFFFEF 27 253, HUFFMAN_ENTRY 0x7FFFFF0 27 254, HUFFMAN_ENTRY 0xFFFFFE2 28 2,
     HUFFMAN_ENTRY 0xFFFFFE3 28 3, HUFFMAN_ENTRY 0xFFFFFE4 28 4, HUFFMAN_ENTRY 0xFFFFFE5 28 5,
     HUFFMAN_ENTRY 0xFFFFFE6 28 6, HUFFMAN_ENTRY 0xFFFFFE7 28 7, HUFFMAN_ENTRY 0xFFFFFE8 28 8,
     HUFFMAN_ENTRY 0xFFFFFE9 28 11, HUFFMAN_ENTRY 0xFFFFFEA 28 12, HUFFMAN_ENTRY 0xFFFFFEB 28 14,
     HUFFMAN_ENTRY 0xFFFFFEC 28 15, HUFFMAN_ENTRY 0xFFFFFED 28 16, HUFFMAN_ENTRY 0xFFFFFEE 28 17,
     HUFFMAN_ENTRY 0xFFFFFEF 28 18, HUFFMAN_ENTRY 0xFFFFFF0 28 19, HUFFMAN_ENTRY 0xFFFFFF1 28 20,
     HUFFMAN_ENTRY 0xFFFFFF2 28 21, HUFFMAN_ENTRY 0xFFFFFF3 28 23, HUFFMAN_ENTRY 0xFFFFFF4 28 24,
     HUFFMAN_ENTRY 0xFFFFFF5 28 25, HUFFMAN_ENTRY 0xFFFFFF6 28 26, HUFFMAN_ENTRY 0xFFFFFF7 28 27,
     HUFFMAN_ENTRY 0xFFFFFF8 28 28, HUFFMAN_ENTRY 0xFFFFFF9 28 29, HUFFMAN_ENTRY 0xFFFFFFA 28 30,
     HUFFMAN_ENTRY 0xFFFFFFB 28 31, HUFFMAN_ENTRY 0xFFFFFFC 28 127, HUFFMAN_ENTRY 0xFFFFFFD 28 220,
     HUFFMAN_ENTRY 0xFFFFFFE 28 249, HUFFMAN_ENTRY 0x3FFFFFFC 30 10, HUFFMAN_ENTRY 0x3FFFFFFD 30 13,
     HUFFMAN_ENTRY 0x3FFFFFFE 30 22, HUFFMAN_ENTRY 0x3FFFFFFF 30 256]"

definition WT_RFC7541_HUFFMAN_RANGES :: "wt_rfc7541_huffman_range list" where
  "WT_RFC7541_HUFFMAN_RANGES =
    [
     HUFFMAN_RANGE 0x0 0 0, HUFFMAN_RANGE 0x0 0 0, HUFFMAN_RANGE 0x0 0 0,
     HUFFMAN_RANGE 0x0 0 0, HUFFMAN_RANGE 0x0 0 10, HUFFMAN_RANGE 0x14 10 26,
     HUFFMAN_RANGE 0x5C 36 32, HUFFMAN_RANGE 0xF8 68 6, HUFFMAN_RANGE 0x1FC 74 0,
     HUFFMAN_RANGE 0x3F8 74 5, HUFFMAN_RANGE 0x7FA 79 3, HUFFMAN_RANGE 0xFFA 82 2,
     HUFFMAN_RANGE 0x1FF8 84 6, HUFFMAN_RANGE 0x3FFC 90 2, HUFFMAN_RANGE 0x7FFC 92 3,
     HUFFMAN_RANGE 0xFFFE 95 0, HUFFMAN_RANGE 0x1FFFC 95 0, HUFFMAN_RANGE 0x3FFF8 95 0,
     HUFFMAN_RANGE 0x7FFF0 95 3, HUFFMAN_RANGE 0xFFFE6 98 8, HUFFMAN_RANGE 0x1FFFDC 106 13,
     HUFFMAN_RANGE 0x3FFFD2 119 26, HUFFMAN_RANGE 0x7FFFD8 145 29, HUFFMAN_RANGE 0xFFFFEA 174 12,
     HUFFMAN_RANGE 0x1FFFFEC 186 4, HUFFMAN_RANGE 0x3FFFFE0 190 15, HUFFMAN_RANGE 0x7FFFFDE 205 19,
     HUFFMAN_RANGE 0xFFFFFE2 224 29, HUFFMAN_RANGE 0x1FFFFFFE 253 0, HUFFMAN_RANGE 0x3FFFFFFC 253 4]"

subsection \<open>Bit strings\<close>

text \<open>The number a bit string denotes, most significant bit first, and the low \<open>n\<close> bits of a word.\<close>

definition bits_nat :: "bool list \<Rightarrow> nat" where
  "bits_nat bs = foldl (\<lambda>v b. 2 * v + of_bool b) 0 bs"

definition word_bits :: "nat \<Rightarrow> 'a::len word \<Rightarrow> bool list" where
  "word_bits n w = map (bit w) (rev [0..<n])"

text \<open>The code word of a symbol.\<close>

definition huffman_word :: "nat \<Rightarrow> bool list" where
  "huffman_word s =
     word_bits (unat (hc_bits (WT_RFC7541_HUFFMAN_CODES ! s))) (hc_code (WT_RFC7541_HUFFMAN_CODES ! s))"

lemma bits_nat_Nil [simp]: "bits_nat [] = 0"
  by (simp add: bits_nat_def)

lemma bits_nat_snoc [simp]: "bits_nat (bs @ [b]) = 2 * bits_nat bs + of_bool b"
  by (simp add: bits_nat_def)

lemma bits_nat_append: "bits_nat (as @ bs) = bits_nat as * 2 ^ length bs + bits_nat bs"
proof (induction bs rule: rev_induct)
  case (snoc b bs)
  then show ?case by (simp add: append_assoc [symmetric] del: append_assoc)
qed simp

lemma bits_nat_Cons [simp]: "bits_nat (b # bs) = of_bool b * 2 ^ length bs + bits_nat bs"
  using bits_nat_append [of "[b]" bs] by (simp add: bits_nat_def)

lemma bits_nat_less: "bits_nat bs < 2 ^ length bs"
  by (induction bs) auto

lemma bits_nat_inject:
  "length as = length bs \<Longrightarrow> bits_nat as = bits_nat bs \<longleftrightarrow> as = bs"
proof (induction as bs rule: list_induct2)
  case (Cons a as b bs)
  with bits_nat_less [of as] bits_nat_less [of bs] show ?case
    by (cases a; cases b) auto
qed simp

lemma bits_nat_ones: "bits_nat (replicate k True) = 2 ^ k - 1"
  by (induction k) auto

lemma less_8_cases:
  "(n::nat) < 8 \<Longrightarrow> n = 0 \<or> n = 1 \<or> n = 2 \<or> n = 3 \<or> n = 4 \<or> n = 5 \<or> n = 6 \<or> n = 7"
  by arith

lemma length_word_bits [simp]: "length (word_bits n w) = n"
  by (simp add: word_bits_def)

lemma word_bits_Suc: "word_bits (Suc n) w = bit w n # word_bits n w"
  by (simp add: word_bits_def)

lemma word_bits_add:
  "word_bits (m + n) w = map (\<lambda>i. bit w (m + n - 1 - i)) [0..<m] @ word_bits n w"
proof (induction m)
  case (Suc m)
  have "map (\<lambda>i. bit w (Suc m + n - 1 - i)) [0..<Suc m] =
      bit w (m + n) # map (\<lambda>i. bit w (m + n - 1 - i)) [0..<m]"
    by (simp add: upt_conv_Cons map_Suc_upt [symmetric] del: upt_Suc)
  with Suc show ?case by (simp add: word_bits_Suc)
qed (simp add: word_bits_def)

lemma bits_nat_word_bits: "bits_nat (word_bits n w) = take_bit n (unat w)"
proof (induction n)
  case (Suc n)
  then show ?case
    by (simp add: word_bits_Suc take_bit_Suc_from_most bit_unsigned_iff bit_imp_le_length)
qed (simp add: word_bits_def)

subsection \<open>What the tables hold\<close>

text \<open>The number of words of \<open>j\<close> bits, counted from zero, that begin with a code word of at most
  \<open>j\<close> bits: a canonical code gives its words of \<open>j + 1\<close> bits from twice that number on.\<close>

definition range_limit :: "nat \<Rightarrow> nat" where
  "range_limit j = (if j = 0 then 0
     else unat (hr_first_code (WT_RFC7541_HUFFMAN_RANGES ! (j - 1))) +
       unat (hr_count (WT_RFC7541_HUFFMAN_RANGES ! (j - 1))))"

lemma length_huffman_ranges [simp]: "length WT_RFC7541_HUFFMAN_RANGES = 30"
  by (simp add: WT_RFC7541_HUFFMAN_RANGES_def)

fun ranges_canonical :: "nat \<Rightarrow> nat \<Rightarrow> wt_rfc7541_huffman_range list \<Rightarrow> bool" where
  "ranges_canonical first offset [] = True"
| "ranges_canonical first offset (r # rs) =
     (unat (hr_first_code r) = first \<and> unat (hr_offset r) = offset \<and>
      ranges_canonical (2 * (first + unat (hr_count r))) (offset + unat (hr_count r)) rs)"

lemma huffman_ranges_canonical: "ranges_canonical 0 0 WT_RFC7541_HUFFMAN_RANGES"
  by (simp add: WT_RFC7541_HUFFMAN_RANGES_def)

lemma ranges_canonical_step:
  "ranges_canonical f off rs \<Longrightarrow> Suc j < length rs \<Longrightarrow>
   unat (hr_first_code (rs ! Suc j)) = 2 * (unat (hr_first_code (rs ! j)) + unat (hr_count (rs ! j))) \<and>
   unat (hr_offset (rs ! Suc j)) = unat (hr_offset (rs ! j)) + unat (hr_count (rs ! j))"
proof (induction rs arbitrary: f off j)
  case (Cons r rs)
  then show ?case
    by (cases j; cases rs) auto
qed simp

lemma ranges_first:
  "j < 30 \<Longrightarrow> unat (hr_first_code (WT_RFC7541_HUFFMAN_RANGES ! j)) = 2 * range_limit j"
proof (cases j)
  case 0
  then show ?thesis by (simp add: range_limit_def WT_RFC7541_HUFFMAN_RANGES_def)
next
  case (Suc i)
  assume "j < 30"
  with ranges_canonical_step [OF huffman_ranges_canonical, of i] Suc show ?thesis
    by (simp add: range_limit_def)
qed

lemma ranges_offset:
  "j < 30 \<Longrightarrow> unat (hr_offset (WT_RFC7541_HUFFMAN_RANGES ! j)) =
     (\<Sum>i<j. unat (hr_count (WT_RFC7541_HUFFMAN_RANGES ! i)))"
proof (induction j)
  case 0
  then show ?case by (simp add: WT_RFC7541_HUFFMAN_RANGES_def)
next
  case (Suc j)
  with ranges_canonical_step [OF huffman_ranges_canonical, of j] show ?case by simp
qed

lemma range_limit_Suc:
  "j < 30 \<Longrightarrow> range_limit (Suc j) = 2 * range_limit j + unat (hr_count (WT_RFC7541_HUFFMAN_RANGES ! j))"
  using ranges_first [of j] by (simp add: range_limit_def)

lemma range_limit_complete: "range_limit 30 = 2 ^ 30"
  by (simp add: range_limit_def WT_RFC7541_HUFFMAN_RANGES_def)

lemma range_limit_ones_all: "list_all (\<lambda>j. range_limit j < 2 ^ j) [0, 1, 2, 3, 4, 5, 6, 7]"
  by (simp add: range_limit_def WT_RFC7541_HUFFMAN_RANGES_def)

lemma range_limit_ones: "j < 8 \<Longrightarrow> range_limit j < 2 ^ j"
  using range_limit_ones_all by (auto simp: list_all_iff dest: less_8_cases)

text \<open>Every entry stands in the block of its length, at the place its code has there.\<close>

definition entry_placed :: "nat \<times> wt_rfc7541_huffman_entry \<Rightarrow> bool" where
  "entry_placed = (\<lambda>(i, e). let r = WT_RFC7541_HUFFMAN_RANGES ! (unat (he_bits e) - 1) in
     unat (he_bits e) \<noteq> 0 \<and> unat (he_bits e) \<le> 30 \<and>
     unat (hr_offset r) \<le> i \<and> i < unat (hr_offset r) + unat (hr_count r) \<and>
     unat (he_code e) + unat (hr_offset r) = unat (hr_first_code r) + i)"

lemma huffman_ranges_nth:
  "WT_RFC7541_HUFFMAN_RANGES ! 4 = HUFFMAN_RANGE 0x0 0 10"
  "WT_RFC7541_HUFFMAN_RANGES ! 5 = HUFFMAN_RANGE 0x14 10 26"
  "WT_RFC7541_HUFFMAN_RANGES ! 6 = HUFFMAN_RANGE 0x5C 36 32"
  "WT_RFC7541_HUFFMAN_RANGES ! 7 = HUFFMAN_RANGE 0xF8 68 6"
  "WT_RFC7541_HUFFMAN_RANGES ! 9 = HUFFMAN_RANGE 0x3F8 74 5"
  "WT_RFC7541_HUFFMAN_RANGES ! 10 = HUFFMAN_RANGE 0x7FA 79 3"
  "WT_RFC7541_HUFFMAN_RANGES ! 11 = HUFFMAN_RANGE 0xFFA 82 2"
  "WT_RFC7541_HUFFMAN_RANGES ! 12 = HUFFMAN_RANGE 0x1FF8 84 6"
  "WT_RFC7541_HUFFMAN_RANGES ! 13 = HUFFMAN_RANGE 0x3FFC 90 2"
  "WT_RFC7541_HUFFMAN_RANGES ! 14 = HUFFMAN_RANGE 0x7FFC 92 3"
  "WT_RFC7541_HUFFMAN_RANGES ! 18 = HUFFMAN_RANGE 0x7FFF0 95 3"
  "WT_RFC7541_HUFFMAN_RANGES ! 19 = HUFFMAN_RANGE 0xFFFE6 98 8"
  "WT_RFC7541_HUFFMAN_RANGES ! 20 = HUFFMAN_RANGE 0x1FFFDC 106 13"
  "WT_RFC7541_HUFFMAN_RANGES ! 21 = HUFFMAN_RANGE 0x3FFFD2 119 26"
  "WT_RFC7541_HUFFMAN_RANGES ! 22 = HUFFMAN_RANGE 0x7FFFD8 145 29"
  "WT_RFC7541_HUFFMAN_RANGES ! 23 = HUFFMAN_RANGE 0xFFFFEA 174 12"
  "WT_RFC7541_HUFFMAN_RANGES ! 24 = HUFFMAN_RANGE 0x1FFFFEC 186 4"
  "WT_RFC7541_HUFFMAN_RANGES ! 25 = HUFFMAN_RANGE 0x3FFFFE0 190 15"
  "WT_RFC7541_HUFFMAN_RANGES ! 26 = HUFFMAN_RANGE 0x7FFFFDE 205 19"
  "WT_RFC7541_HUFFMAN_RANGES ! 27 = HUFFMAN_RANGE 0xFFFFFE2 224 29"
  "WT_RFC7541_HUFFMAN_RANGES ! 29 = HUFFMAN_RANGE 0x3FFFFFFC 253 4"
  by (simp_all add: WT_RFC7541_HUFFMAN_RANGES_def)

lemma by_code_placed_all: "list_all entry_placed (enumerate 0 WT_RFC7541_HUFFMAN_BY_CODE)"
  unfolding entry_placed_def
  by (simp add: WT_RFC7541_HUFFMAN_BY_CODE_def huffman_ranges_nth)

lemma by_code_symbol_all:
  "list_all (\<lambda>e. WT_RFC7541_HUFFMAN_CODES ! unat (he_symbol e) = HUFFMAN_CODE (he_code e) (he_bits e))
     WT_RFC7541_HUFFMAN_BY_CODE"
  by (simp add: WT_RFC7541_HUFFMAN_CODES_def WT_RFC7541_HUFFMAN_BY_CODE_def)

lemma by_code_symbol_less_all: "list_all (\<lambda>e. he_symbol e \<le> 256) WT_RFC7541_HUFFMAN_BY_CODE"
  by (simp add: WT_RFC7541_HUFFMAN_BY_CODE_def)

lemma length_huffman_by_code [simp]: "length WT_RFC7541_HUFFMAN_BY_CODE = 257"
  by (simp add: WT_RFC7541_HUFFMAN_BY_CODE_def)

lemma length_huffman_codes [simp]: "length WT_RFC7541_HUFFMAN_CODES = 257"
  by (simp add: WT_RFC7541_HUFFMAN_CODES_def)
lemma by_code_entry:
  assumes "i < 257"
  shows "WT_RFC7541_HUFFMAN_CODES ! unat (he_symbol (WT_RFC7541_HUFFMAN_BY_CODE ! i)) =
      HUFFMAN_CODE (he_code (WT_RFC7541_HUFFMAN_BY_CODE ! i)) (he_bits (WT_RFC7541_HUFFMAN_BY_CODE ! i))"
    "unat (he_symbol (WT_RFC7541_HUFFMAN_BY_CODE ! i)) < 257"
    "entry_placed (i, WT_RFC7541_HUFFMAN_BY_CODE ! i)"
proof -
  have mem: "WT_RFC7541_HUFFMAN_BY_CODE ! i \<in> set WT_RFC7541_HUFFMAN_BY_CODE"
    using assms by simp
  with by_code_symbol_all show "WT_RFC7541_HUFFMAN_CODES ! unat (he_symbol (WT_RFC7541_HUFFMAN_BY_CODE ! i)) =
      HUFFMAN_CODE (he_code (WT_RFC7541_HUFFMAN_BY_CODE ! i)) (he_bits (WT_RFC7541_HUFFMAN_BY_CODE ! i))"
    unfolding list_all_iff by blast
  from mem by_code_symbol_less_all have "he_symbol (WT_RFC7541_HUFFMAN_BY_CODE ! i) \<le> 256"
    unfolding list_all_iff by blast
  then show "unat (he_symbol (WT_RFC7541_HUFFMAN_BY_CODE ! i)) < 257"
    by (simp add: word_le_nat_alt)
  have "(i, WT_RFC7541_HUFFMAN_BY_CODE ! i) \<in> set (enumerate 0 WT_RFC7541_HUFFMAN_BY_CODE)"
    using assms by (simp add: in_set_enumerate_eq)
  with by_code_placed_all show "entry_placed (i, WT_RFC7541_HUFFMAN_BY_CODE ! i)"
    unfolding list_all_iff by blast
qed

lemma offset_mono:
  "i < j \<Longrightarrow> j < 30 \<Longrightarrow>
   unat (hr_offset (WT_RFC7541_HUFFMAN_RANGES ! i)) + unat (hr_count (WT_RFC7541_HUFFMAN_RANGES ! i))
     \<le> unat (hr_offset (WT_RFC7541_HUFFMAN_RANGES ! j))"
proof -
  assume "i < j" "j < 30"
  moreover have "sum f {..<Suc i} \<le> sum f {..<j}" if "i < j" for f :: "nat \<Rightarrow> nat"
    using that by (intro sum_mono2) auto
  ultimately show ?thesis
    using ranges_offset [of i] ranges_offset [of j] by force
qed

text \<open>What the decoder finds at a code inside a range.\<close>

lemma by_code_block:
  assumes j: "j < 30" and k: "k < unat (hr_count (WT_RFC7541_HUFFMAN_RANGES ! j))"
  defines "i \<equiv> unat (hr_offset (WT_RFC7541_HUFFMAN_RANGES ! j)) + k"
  assumes i: "i < 257"
  shows "unat (he_bits (WT_RFC7541_HUFFMAN_BY_CODE ! i)) = Suc j"
    "unat (he_code (WT_RFC7541_HUFFMAN_BY_CODE ! i)) = 2 * range_limit j + k"
proof -
  define b where "b = unat (he_bits (WT_RFC7541_HUFFMAN_BY_CODE ! i)) - 1"
  from by_code_entry(3) [OF i]
  have p: "unat (he_bits (WT_RFC7541_HUFFMAN_BY_CODE ! i)) = Suc b" "b < 30"
    "unat (hr_offset (WT_RFC7541_HUFFMAN_RANGES ! b)) \<le> i"
    "i < unat (hr_offset (WT_RFC7541_HUFFMAN_RANGES ! b)) + unat (hr_count (WT_RFC7541_HUFFMAN_RANGES ! b))"
    "unat (he_code (WT_RFC7541_HUFFMAN_BY_CODE ! i)) + unat (hr_offset (WT_RFC7541_HUFFMAN_RANGES ! b)) =
      unat (hr_first_code (WT_RFC7541_HUFFMAN_RANGES ! b)) + i"
    by (auto simp: entry_placed_def Let_def b_def)
  have "b = j"
    using p(2-4) j k offset_mono [of b j] offset_mono [of j b]
    by (cases b j rule: linorder_cases) (auto simp: i_def)
  with p ranges_first [of j] j show "unat (he_bits (WT_RFC7541_HUFFMAN_BY_CODE ! i)) = Suc j"
    "unat (he_code (WT_RFC7541_HUFFMAN_BY_CODE ! i)) = 2 * range_limit j + k"
    by (simp_all add: i_def)
qed

lemma range_total: "j < 30 \<Longrightarrow>
  unat (hr_offset (WT_RFC7541_HUFFMAN_RANGES ! j)) + unat (hr_count (WT_RFC7541_HUFFMAN_RANGES ! j)) \<le> 257"
proof -
  assume "j < 30"
  have "unat (hr_offset (WT_RFC7541_HUFFMAN_RANGES ! 29)) + unat (hr_count (WT_RFC7541_HUFFMAN_RANGES ! 29)) = 257"
    by (simp add: huffman_ranges_nth)
  with \<open>j < 30\<close> offset_mono [of j 29] show ?thesis
    by (cases "j = 29") auto
qed

text \<open>Distinct places hold distinct symbols, so every symbol has its place.\<close>

lemma symbol_has_place: "s < 257 \<Longrightarrow> \<exists>i<257. unat (he_symbol (WT_RFC7541_HUFFMAN_BY_CODE ! i)) = s"
proof -
  let ?sym = "\<lambda>i. unat (he_symbol (WT_RFC7541_HUFFMAN_BY_CODE ! i))"
  have "i = j" if "i < 257" "j < 257" "?sym i = ?sym j" for i j
  proof -
    have eq: "HUFFMAN_CODE (he_code (WT_RFC7541_HUFFMAN_BY_CODE ! i)) (he_bits (WT_RFC7541_HUFFMAN_BY_CODE ! i)) =
      HUFFMAN_CODE (he_code (WT_RFC7541_HUFFMAN_BY_CODE ! j)) (he_bits (WT_RFC7541_HUFFMAN_BY_CODE ! j))"
      by (rule trans [OF by_code_entry(1) [OF that(1), symmetric, unfolded that(3)] by_code_entry(1) [OF that(2)]])
    note eq = eq [unfolded wt_rfc7541_huffman_code.inject, THEN conjunct1]
      eq [unfolded wt_rfc7541_huffman_code.inject, THEN conjunct2]
    from by_code_entry(3) [OF that(1)] by_code_entry(3) [OF that(2)] show "i = j"
      unfolding entry_placed_def Let_def prod.case eq by linarith
  qed
  then have "inj_on ?sym {..<257}" by (intro inj_onI) simp
  moreover have "?sym ` {..<257} \<subseteq> {..<257}" using by_code_entry(2) by (intro image_subsetI) simp
  ultimately have "?sym ` {..<257} = {..<257}"
    by (intro endo_inj_surj) (rule finite_lessThan)
  then have "s \<in> ?sym ` {..<257}" if "s < 257" using that by (simp only: lessThan_iff)
  then show "s < 257 \<Longrightarrow> \<exists>i<257. ?sym i = s" unfolding image_iff Bex_def lessThan_iff by metis
qed

subsection \<open>Code words\<close>

lemma range_limit_shift: "i \<le> j \<Longrightarrow> j \<le> 30 \<Longrightarrow> range_limit i * 2 ^ (j - i) \<le> range_limit j"
proof (induction "j - i" arbitrary: j)
  case (Suc n)
  then obtain k where k: "j = Suc k" "i \<le> k" by (cases j) auto
  with Suc have "range_limit i * 2 ^ (k - i) \<le> range_limit k" by simp
  moreover have "2 * range_limit k \<le> range_limit j"
    using range_limit_Suc [of k] k Suc.prems by simp
  ultimately show ?case using k by (simp add: Suc_diff_le)
qed simp

lemma range_limit_le: "j \<le> 30 \<Longrightarrow> range_limit j \<le> 2 ^ j"
proof -
  assume j: "j \<le> 30"
  have "range_limit j * 2 ^ (30 - j) \<le> 2 ^ j * 2 ^ (30 - j)"
    using range_limit_shift [of j 30] j
    by (simp add: range_limit_complete power_add [symmetric] del: power_numeral)
  then show ?thesis by simp
qed

text \<open>A symbol's code word, by its place.\<close>

lemma huffman_word_at:
  assumes j: "j < 30" and k: "k < unat (hr_count (WT_RFC7541_HUFFMAN_RANGES ! j))"
  defines "s \<equiv> unat (he_symbol (WT_RFC7541_HUFFMAN_BY_CODE !
      (unat (hr_offset (WT_RFC7541_HUFFMAN_RANGES ! j)) + k)))"
  shows "s < 257" "length (huffman_word s) = Suc j" "bits_nat (huffman_word s) = 2 * range_limit j + k"
proof -
  have i: "unat (hr_offset (WT_RFC7541_HUFFMAN_RANGES ! j)) + k < 257"
    using range_total [OF j] k by simp
  note e = by_code_entry [OF i] by_code_block [OF j k i]
  have "2 * range_limit j + k < 2 ^ Suc j"
    using range_limit_Suc [OF j] k range_limit_le [of "Suc j"] j by linarith
  with e show "s < 257" "length (huffman_word s) = Suc j" "bits_nat (huffman_word s) = 2 * range_limit j + k"
    by (simp_all add: s_def huffman_word_def bits_nat_word_bits take_bit_nat_eq_self)
qed

lemma huffman_word_place:
  assumes "s < 257"
  obtains j k where "j < 30" "k < unat (hr_count (WT_RFC7541_HUFFMAN_RANGES ! j))"
    "s = unat (he_symbol (WT_RFC7541_HUFFMAN_BY_CODE ! (unat (hr_offset (WT_RFC7541_HUFFMAN_RANGES ! j)) + k)))"
proof -
  obtain i where i: "i < 257" "unat (he_symbol (WT_RFC7541_HUFFMAN_BY_CODE ! i)) = s"
    using symbol_has_place [OF assms] by blast
  define j where "j = unat (he_bits (WT_RFC7541_HUFFMAN_BY_CODE ! i)) - 1"
  from by_code_entry(3) [OF i(1)]
  have "j < 30" "unat (hr_offset (WT_RFC7541_HUFFMAN_RANGES ! j)) \<le> i"
    "i < unat (hr_offset (WT_RFC7541_HUFFMAN_RANGES ! j)) + unat (hr_count (WT_RFC7541_HUFFMAN_RANGES ! j))"
    by (auto simp: entry_placed_def Let_def j_def)
  with i that [of j "i - unat (hr_offset (WT_RFC7541_HUFFMAN_RANGES ! j))"] show thesis by auto
qed

text \<open>The bits read so far do not complete a code word.\<close>

definition unresolved :: "bool list \<Rightarrow> bool" where
  "unresolved p \<longleftrightarrow> length p \<le> 30 \<and> range_limit (length p) \<le> bits_nat p"

lemma unresolved_Nil [simp]: "unresolved []"
  by (simp add: unresolved_def range_limit_def)

lemma unresolved_short: "unresolved p \<Longrightarrow> length p < 30"
proof -
  assume "unresolved p"
  then have "range_limit (length p) < 2 ^ length p" "length p \<le> 30"
    using bits_nat_less [of p] by (simp_all add: unresolved_def)
  then show ?thesis
    using range_limit_complete by (cases "length p = 30") auto
qed

lemma unresolved_ones: "k \<le> 7 \<Longrightarrow> unresolved (replicate k True)"
  using range_limit_ones [of k] by (simp add: unresolved_def bits_nat_ones)

lemma unresolved_prefix: "unresolved (p @ q) \<Longrightarrow> unresolved p"
proof -
  assume u: "unresolved (p @ q)"
  then have "range_limit (length p) * 2 ^ length q \<le> range_limit (length (p @ q))"
    using range_limit_shift [of "length p" "length (p @ q)"] by (simp add: unresolved_def)
  also have "\<dots> \<le> bits_nat p * 2 ^ length q + bits_nat q"
    using u by (simp add: unresolved_def bits_nat_append)
  also have "\<dots> < (bits_nat p + 1) * 2 ^ length q"
    using bits_nat_less [of q] by simp
  finally have "range_limit (length p) * 2 ^ length q < (bits_nat p + 1) * 2 ^ length q" .
  then have "range_limit (length p) < bits_nat p + 1"
    by (simp only: mult_less_cancel2)
  with u show ?thesis by (simp add: unresolved_def)
qed

lemma huffman_word_prefix:
  assumes "s < 257" "huffman_word s = p @ b # q"
  shows "unresolved p"
proof -
  obtain j k where jk: "j < 30" "k < unat (hr_count (WT_RFC7541_HUFFMAN_RANGES ! j))"
    "s = unat (he_symbol (WT_RFC7541_HUFFMAN_BY_CODE ! (unat (hr_offset (WT_RFC7541_HUFFMAN_RANGES ! j)) + k)))"
    using huffman_word_place [OF assms(1)] by metis
  define w where "w = butlast (huffman_word s)"
  have w: "huffman_word s = w @ [last (huffman_word s)]"
    using huffman_word_at(2) [OF jk(1,2)] jk(3) append_butlast_last_id [of "huffman_word s"]
    by (fastforce simp: w_def)
  have "length w = j" using huffman_word_at(2) [OF jk(1,2)] jk(3) by (simp add: w_def)
  moreover have "2 * range_limit j \<le> 2 * bits_nat w + 1"
    using huffman_word_at(3) [OF jk(1,2)] jk(3) w bits_nat_snoc [of w "last (huffman_word s)"]
    by (cases "last (huffman_word s)") auto
  ultimately have "unresolved w" using jk(1) by (simp add: unresolved_def)
  moreover have "\<exists>r. w = p @ r"
    using assms(2) by (simp add: w_def butlast_append)
  ultimately show ?thesis using unresolved_prefix by blast
qed
lemma huffman_word_nonempty: "s < 257 \<Longrightarrow> huffman_word s \<noteq> []"
  using huffman_word_place [of s] huffman_word_at(2) by (metis list.size(3) nat.distinct(1))

lemma huffman_word_inject: "s < 257 \<Longrightarrow> t < 257 \<Longrightarrow> huffman_word s = huffman_word t \<Longrightarrow> s = t"
proof -
  assume s: "s < 257" and t: "t < 257" and eq: "huffman_word s = huffman_word t"
  obtain j k where jk: "j < 30" "k < unat (hr_count (WT_RFC7541_HUFFMAN_RANGES ! j))"
    "s = unat (he_symbol (WT_RFC7541_HUFFMAN_BY_CODE ! (unat (hr_offset (WT_RFC7541_HUFFMAN_RANGES ! j)) + k)))"
    using huffman_word_place [OF s] by metis
  obtain j' k' where jk': "j' < 30" "k' < unat (hr_count (WT_RFC7541_HUFFMAN_RANGES ! j'))"
    "t = unat (he_symbol (WT_RFC7541_HUFFMAN_BY_CODE ! (unat (hr_offset (WT_RFC7541_HUFFMAN_RANGES ! j')) + k')))"
    using huffman_word_place [OF t] by metis
  note a = huffman_word_at [OF jk(1,2), folded jk(3)] and b = huffman_word_at [OF jk'(1,2), folded jk'(3)]
  from a(2) b(2) eq have "j = j'" by simp
  moreover with a(3) b(3) eq have "k = k'" by simp
  ultimately show "s = t" using jk(3) jk'(3) by simp
qed

lemma huffman_word_resolved: "s < 257 \<Longrightarrow> \<not> unresolved (huffman_word s)"
proof -
  assume s: "s < 257"
  obtain j k where jk: "j < 30" "k < unat (hr_count (WT_RFC7541_HUFFMAN_RANGES ! j))"
    "s = unat (he_symbol (WT_RFC7541_HUFFMAN_BY_CODE ! (unat (hr_offset (WT_RFC7541_HUFFMAN_RANGES ! j)) + k)))"
    using huffman_word_place [OF s] by metis
  show ?thesis
    using huffman_word_at [OF jk(1,2), folded jk(3)] range_limit_Suc [OF jk(1)] jk(2)
    by (simp add: unresolved_def)
qed


end
