(* ===== verification/Qpack_Huffman.thy ===== *)
theory Qpack_Huffman
  imports Qpack_Huffman_Table
begin

text \<open>
  The Huffman coding of QPACK strings (\<open>C99/src/http3/qpack_huffman.c\<close>): the bit-by-bit decoder,
  the size computation and the encoder that packs code words into bytes. The decoder is shown to
  accept exactly the concatenations of code words followed by at most seven one bits, and the
  encoder to produce exactly such a string, so that decoding gives the encoded bytes back.
\<close>

subsection \<open>The decoder\<close>

text \<open>The local variables of the decoder: the code read so far, the number of its bits, and the bytes
  \<open>out[0 .. produced)\<close>.\<close>

record huffman_decoder =
  hd_code :: u32
  hd_bits :: nat
  hd_out :: "u8 list"

text \<open>One round of the inner loop, for one bit of the coded string.\<close>

definition huffman_decode_bit :: "u64 \<Rightarrow> huffman_decoder \<Rightarrow> bool \<Rightarrow> huffman_decoder wt_result" where
  "huffman_decode_bit capacity d b =
     (let code = push_bit 1 (hd_code d) OR (if b then 1 else 0); bits = Suc (hd_bits d) in
      if bits > WT_RFC7541_HUFFMAN_MAX_BITS then Inl WT_ERR_PROTOCOL
      else let range = WT_RFC7541_HUFFMAN_RANGES ! (bits - 1) in
        if hr_count range = 0 \<or> code < hr_first_code range
        then Inr (d\<lparr>hd_code := code, hd_bits := bits\<rparr>)
        else let offset = code - hr_first_code range in
          if offset \<ge> ucast (hr_count range)
          then Inr (d\<lparr>hd_code := code, hd_bits := bits\<rparr>)
          else let symbol = he_symbol (WT_RFC7541_HUFFMAN_BY_CODE ! (unat (hr_offset range) + unat offset)) in
            if symbol = WT_RFC7541_HUFFMAN_EOS then Inl WT_ERR_PROTOCOL
            else if length (hd_out d) = unat capacity then Inl WT_ERR_LIMIT
            else Inr \<lparr>hd_code = 0, hd_bits = 0, hd_out = hd_out d @ [ucast symbol]\<rparr>)"

text \<open>The bits of a byte in the order of \<open>for (bit = 0x80; bit != 0; bit >>= 1)\<close>, and both loops.\<close>

definition byte_bits :: "u8 \<Rightarrow> bool list" where
  "byte_bits byte = map (\<lambda>m. byte AND m \<noteq> 0) [0x80, 0x40, 0x20, 0x10, 0x08, 0x04, 0x02, 0x01]"

fun huffman_decode_bits :: "u64 \<Rightarrow> huffman_decoder \<Rightarrow> bool list \<Rightarrow> huffman_decoder wt_result" where
  "huffman_decode_bits capacity d [] = Inr d"
| "huffman_decode_bits capacity d (b # bs) =
     (case huffman_decode_bit capacity d b of
        Inl e \<Rightarrow> Inl e
      | Inr d' \<Rightarrow> huffman_decode_bits capacity d' bs)"

definition wt_qpack_huffman_decode :: "u8 list \<Rightarrow> u64 \<Rightarrow> u8 list wt_result" where
  "wt_qpack_huffman_decode coded capacity =
     (case huffman_decode_bits capacity \<lparr>hd_code = 0, hd_bits = 0, hd_out = []\<rparr>
             (concat (map byte_bits coded)) of
        Inl e \<Rightarrow> Inl e
      | Inr d \<Rightarrow>
          if hd_bits d > 7 then Inl WT_ERR_PROTOCOL
          else if hd_bits d \<noteq> 0 \<and> hd_code d \<noteq> push_bit (hd_bits d) 1 - 1 then Inl WT_ERR_PROTOCOL
          else Inr (hd_out d))"

subsection \<open>The encoder\<close>

fun huffman_size_loop :: "u64 \<Rightarrow> u8 list \<Rightarrow> u64 wt_result" where
  "huffman_size_loop bits [] = Inr bits"
| "huffman_size_loop bits (b # bs) =
     (let bits' = bits + ucast (hc_bits (WT_RFC7541_HUFFMAN_CODES ! unat b)) in
      if bits' > (- 1) - 7 then Inl WT_ERR_OVERFLOW else huffman_size_loop bits' bs)"

definition wt_qpack_huffman_encoded_size :: "u8 list \<Rightarrow> u64 wt_result" where
  "wt_qpack_huffman_encoded_size bytes =
     (case huffman_size_loop 0 bytes of Inl e \<Rightarrow> Inl e | Inr bits \<Rightarrow> Inr ((bits + 7) div 8))"

text \<open>The local variables of the encoder: the bits written, the whole bytes written, and the output
  buffer.\<close>

record huffman_encoder =
  hn_used :: u64
  hn_produced :: u64
  hn_out :: "u8 list"

text \<open>\<open>while (remaining != 0)\<close>, the loop that writes one code.\<close>

function huffman_put_code :: "u64 \<Rightarrow> u32 \<Rightarrow> nat \<Rightarrow> huffman_encoder \<Rightarrow> huffman_encoder wt_result" where
  "huffman_put_code capacity code remaining e =
     (if remaining = 0 then Inr e
      else if hn_produced e = capacity then Inl WT_ERR_LIMIT
      else let free_bits = 8 - unat (hn_used e mod 8);
          take = (if remaining < free_bits then remaining else free_bits);
          chunk = drop_bit (remaining - take) code AND (push_bit take 1 - 1);
          p = unat (hn_produced e);
          used = hn_used e + of_nat take in
        huffman_put_code capacity code (remaining - take)
          \<lparr>hn_used = used,
           hn_produced = (if used mod 8 = 0 then hn_produced e + 1 else hn_produced e),
           hn_out = (hn_out e)[p := hn_out e ! p OR ucast (push_bit (free_bits - take) chunk)]\<rparr>)"
  by auto

termination huffman_put_code
proof (relation "measure (\<lambda>(capacity, code, remaining, e). remaining)", goal_cases)
  case (2 capacity code remaining e free_bits take chunk p used)
  have "unat (hn_used e mod 8) < 8"
    by (simp add: unat_mod)
  with 2 show ?case by (auto split: if_splits)
qed simp

declare huffman_put_code.simps [simp del]

fun huffman_put_codes :: "u64 \<Rightarrow> u8 list \<Rightarrow> huffman_encoder \<Rightarrow> huffman_encoder wt_result" where
  "huffman_put_codes capacity [] e = Inr e"
| "huffman_put_codes capacity (b # bs) e =
     (let entry = WT_RFC7541_HUFFMAN_CODES ! unat b in
      case huffman_put_code capacity (hc_code entry) (unat (hc_bits entry)) e of
        Inl err \<Rightarrow> Inl err
      | Inr e' \<Rightarrow> huffman_put_codes capacity bs e')"

text \<open>The result is the first \<open>*out_length\<close> bytes of the buffer.\<close>

definition wt_qpack_huffman_encode :: "u8 list \<Rightarrow> u64 \<Rightarrow> u8 list wt_result" where
  "wt_qpack_huffman_encode bytes capacity =
     (case huffman_put_codes capacity bytes
             \<lparr>hn_used = 0, hn_produced = 0, hn_out = replicate (unat capacity) 0\<rparr> of
        Inl err \<Rightarrow> Inl err
      | Inr e \<Rightarrow>
          if hn_used e mod 8 \<noteq> 0 then
            let free_bits = 8 - unat (hn_used e mod 8);
                padding = push_bit free_bits 1 - 1 :: u32;
                p = unat (hn_produced e) in
            if hn_produced e = capacity then Inl WT_ERR_LIMIT
            else Inr (take (unat (hn_produced e + 1)) ((hn_out e)[p := hn_out e ! p OR ucast padding]))
          else Inr (take (unat (hn_produced e)) (hn_out e)))"

subsection \<open>Bits of bytes\<close>

abbreviation bits_of :: "u8 list \<Rightarrow> bool list" where
  "bits_of bs \<equiv> concat (map byte_bits bs)"

definition huffman_string :: "u8 list \<Rightarrow> bool list" where
  "huffman_string bytes = concat (map (\<lambda>b. huffman_word (unat b)) bytes)"

lemma byte_bits_map: "byte_bits b = map (bit b) [7, 6, 5, 4, 3, 2, 1, 0]"
  using and_exp_eq_0_iff_not_bit [of b 7] and_exp_eq_0_iff_not_bit [of b 6]
    and_exp_eq_0_iff_not_bit [of b 5] and_exp_eq_0_iff_not_bit [of b 4]
    and_exp_eq_0_iff_not_bit [of b 3] and_exp_eq_0_iff_not_bit [of b 2]
    and_exp_eq_0_iff_not_bit [of b 1] and_exp_eq_0_iff_not_bit [of b 0]
  by (simp add: byte_bits_def)

lemma length_byte_bits [simp]: "length (byte_bits b) = 8"
  by (simp add: byte_bits_def)

lemma byte_bits_nth: "k < 8 \<Longrightarrow> byte_bits b ! k = bit b (7 - k)"
  by (auto simp: byte_bits_map less_Suc_eq numeral_eq_Suc)

lemma length_bits_of [simp]: "length (bits_of bs) = 8 * length bs"
  by (induction bs) simp_all

lemma bits_of_nth: "i < 8 * length bs \<Longrightarrow> bits_of bs ! i = bit (bs ! (i div 8)) (7 - i mod 8)"
proof (induction bs arbitrary: i)
  case (Cons b bs)
  show ?case
  proof (cases "i < 8")
    case False
    then have "i div 8 = Suc ((i - 8) div 8)" "i mod 8 = (i - 8) mod 8"
      by (simp_all add: le_div_geq le_mod_geq)
    with Cons False show ?thesis by (simp add: nth_append)
  qed (simp add: nth_append byte_bits_nth)
qed simp

lemma bits_of_inject: "length as = length bs \<Longrightarrow> bits_of as = bits_of bs \<longleftrightarrow> as = bs"
proof (induction as bs rule: list_induct2)
  case (Cons a as b bs)
  have "byte_bits a = byte_bits b \<longleftrightarrow> a = b"
  proof
    assume "byte_bits a = byte_bits b"
    then show "a = b"
      by (intro bit_word_eqI) (auto simp: byte_bits_map dest: less_8_cases)
  qed simp
  with Cons show ?case by simp
qed simp

subsection \<open>The decoder accepts exactly the code\<close>

text \<open>The decoder between two bits: the bits read since the last symbol, and the output.\<close>

definition decoder_at :: "bool list \<Rightarrow> u8 list \<Rightarrow> huffman_decoder" where
  "decoder_at p out = \<lparr>hd_code = of_nat (bits_nat p), hd_bits = length p, hd_out = out\<rparr>"

lemma shift_in_bit:
  assumes "length p < 30"
  shows "push_bit 1 (of_nat (bits_nat p) :: u32) OR (if b then 1 else 0) = of_nat (bits_nat (p @ [b]))"
    "unat (of_nat (bits_nat (p @ [b])) :: u32) = bits_nat (p @ [b])"
proof -
  have "bits_nat (p @ [b]) < 2 ^ Suc (length p)" using bits_nat_less [of "p @ [b]"] by simp
  also have "\<dots> \<le> 2 ^ 30" using assms by (intro power_increasing) auto
  finally have "bits_nat (p @ [b]) < 2 ^ 30" .
  then show "unat (of_nat (bits_nat (p @ [b])) :: u32) = bits_nat (p @ [b])"
    by (simp add: unat_of_nat del: bits_nat_snoc)
  have "push_bit 1 (of_nat (bits_nat p) :: u32) OR (if b then 1 else 0) =
      push_bit 1 (of_nat (bits_nat p)) + (if b then 1 else 0)"
    by (intro or_eq_add) (simp add: and_one_eq push_bit_eq_mult mod_2_eq_odd)
  also have "\<dots> = of_nat (bits_nat (p @ [b]))"
    by (simp add: push_bit_eq_mult)
  finally show "push_bit 1 (of_nat (bits_nat p) :: u32) OR (if b then 1 else 0) = of_nat (bits_nat (p @ [b]))" .
qed

text \<open>One bit either leaves the word open or completes the word of a symbol; the refusal of a
  thirty-first bit is never taken.\<close>

lemma decode_bit_cases:
  assumes u: "unresolved p"
  shows "(unresolved (p @ [b]) \<and> huffman_decode_bit capacity (decoder_at p out) b = Inr (decoder_at (p @ [b]) out)) \<or>
    (\<exists>s<257. huffman_word s = p @ [b] \<and> \<not> unresolved (p @ [b]) \<and>
       huffman_decode_bit capacity (decoder_at p out) b =
         (if s = 256 then Inl WT_ERR_PROTOCOL
          else if length out = unat capacity then Inl WT_ERR_LIMIT
          else Inr (decoder_at [] (out @ [of_nat s]))))"
proof -
  let ?j = "length p" and ?v = "bits_nat (p @ [b])"
  let ?r = "WT_RFC7541_HUFFMAN_RANGES ! ?j"
  have j: "?j < 30" using u by (rule unresolved_short)
  note code = shift_in_bit [OF j, of b]
  have first: "unat (hr_first_code ?r) \<le> ?v" "unat (hr_first_code ?r) = 2 * range_limit ?j"
    using ranges_first [OF j] u by (simp_all add: unresolved_def)
  have off: "unat (of_nat ?v - hr_first_code ?r) = ?v - 2 * range_limit ?j"
    using first code(2) by (simp add: unat_sub_le word_le_nat_alt)
  have cnt: "unat (ucast (hr_count ?r) :: u32) = unat (hr_count ?r)"
    by (simp add: unsigned_ucast_eq take_bit_nat_eq_self_iff less_trans [OF unsigned_less])
  have lt: "\<not> of_nat ?v < hr_first_code ?r"
    using first code(2) by (simp add: word_less_nat_alt)
  have step: "huffman_decode_bit capacity (decoder_at p out) b =
      (if hr_count ?r = 0 \<or> unat (hr_count ?r) \<le> ?v - 2 * range_limit ?j then Inr (decoder_at (p @ [b]) out)
       else let symbol = he_symbol (WT_RFC7541_HUFFMAN_BY_CODE !
           (unat (hr_offset ?r) + (?v - 2 * range_limit ?j))) in
         if symbol = WT_RFC7541_HUFFMAN_EOS then Inl WT_ERR_PROTOCOL
         else if length out = unat capacity then Inl WT_ERR_LIMIT
         else Inr (decoder_at [] (out @ [ucast symbol])))"
    unfolding huffman_decode_bit_def decoder_at_def huffman_decoder.simps code(1)
    using j lt off by (simp add: Let_def WT_RFC7541_HUFFMAN_MAX_BITS_def word_le_nat_alt cnt)
  show ?thesis
  proof (cases "unat (hr_count ?r) \<le> ?v - 2 * range_limit ?j")
    case True
    with first j u have "unresolved (p @ [b])"
      using range_limit_Suc [OF j] by (simp add: unresolved_def)
    with True step show ?thesis by simp
  next
    case False
    then have k: "?v - 2 * range_limit ?j < unat (hr_count ?r)" by simp
    define symbol where
      "symbol = he_symbol (WT_RFC7541_HUFFMAN_BY_CODE ! (unat (hr_offset ?r) + (?v - 2 * range_limit ?j)))"
    note at = huffman_word_at [OF j k, folded symbol_def]
    have "huffman_word (unat symbol) = p @ [b]"
      using at first by (intro bits_nat_inject [THEN iffD1]) simp_all
    moreover have "\<not> unresolved (p @ [b])"
      using k first range_limit_Suc [OF j] by (cases b) (auto simp: unresolved_def)
    moreover have "hr_count ?r \<noteq> 0" using k by auto
    moreover have "symbol = WT_RFC7541_HUFFMAN_EOS \<longleftrightarrow> unat symbol = 256"
      by (simp add: WT_RFC7541_HUFFMAN_EOS_def word_unat_eq_iff)
    moreover have "(ucast symbol :: u8) = of_nat (unat symbol)" by simp
    ultimately show ?thesis
      using False step at(1) unfolding symbol_def [symmetric] Let_def
      by (intro disjI2 exI [of _ "unat symbol"]) simp
  qed
qed

lemma decode_bits_append:
  "huffman_decode_bits capacity d (as @ bs) =
     (case huffman_decode_bits capacity d as of Inl e \<Rightarrow> Inl e | Inr d' \<Rightarrow> huffman_decode_bits capacity d' bs)"
  by (induction as arbitrary: d) (auto split: sum.splits)

lemma decode_unresolved:
  "unresolved (p @ q) \<Longrightarrow> huffman_decode_bits capacity (decoder_at p out) q = Inr (decoder_at (p @ q) out)"
proof (induction q arbitrary: p)
  case (Cons b q)
  have u: "unresolved (p @ [b])" "unresolved p"
    using Cons.prems unresolved_prefix [of "p @ [b]" q] unresolved_prefix [of p "b # q"] by simp_all
  with decode_bit_cases [OF u(2), of b capacity out] Cons.IH [of "p @ [b]"] Cons.prems show ?case
    by auto
qed simp

lemma decode_word:
  assumes "s < 257"
  shows "huffman_decode_bits capacity (decoder_at [] out) (huffman_word s) =
    (if s = 256 then Inl WT_ERR_PROTOCOL
     else if length out = unat capacity then Inl WT_ERR_LIMIT
     else Inr (decoder_at [] (out @ [of_nat s])))"
proof -
  obtain p b where w: "huffman_word s = p @ [b]"
    using huffman_word_nonempty [OF assms] by (cases "huffman_word s" rule: rev_cases) auto
  have u: "unresolved p" using huffman_word_prefix [OF assms, of p b "[]"] w by simp
  have nu: "\<not> unresolved (p @ [b])"
    using huffman_word_resolved [OF assms] w by simp
  have run: "huffman_decode_bits capacity (decoder_at [] out) p = Inr (decoder_at p out)"
    using decode_unresolved [of "[]" p] u by simp
  from decode_bit_cases [OF u, of b capacity out] nu obtain t where t: "t < 257" "huffman_word t = p @ [b]"
    "huffman_decode_bit capacity (decoder_at p out) b =
         (if t = 256 then Inl WT_ERR_PROTOCOL
          else if length out = unat capacity then Inl WT_ERR_LIMIT
          else Inr (decoder_at [] (out @ [of_nat t])))" by blast
  with huffman_word_inject [OF assms] w have "t = s" by metis
  with t(3) run show ?thesis by (simp add: w decode_bits_append)
qed

text \<open>What the decoder has read when it stops: code words and an open rest.\<close>

lemma decode_bits_sound:
  "huffman_decode_bits capacity (decoder_at p out) bs = Inr d \<Longrightarrow> unresolved p \<Longrightarrow>
   length out \<le> unat capacity \<Longrightarrow>
   \<exists>ss q. p @ bs = huffman_string ss @ q \<and> unresolved q \<and> d = decoder_at q (out @ ss) \<and>
     length (out @ ss) \<le> unat capacity"
proof (induction bs arbitrary: p out)
  case Nil
  then show ?case by (intro exI [of _ "[]"] exI [of _ p]) (simp add: huffman_string_def)
next
  case (Cons b bs)
  from decode_bit_cases [OF Cons.prems(2), of b capacity out] show ?case
  proof (elim disjE exE conjE)
    assume "unresolved (p @ [b])" "huffman_decode_bit capacity (decoder_at p out) b = Inr (decoder_at (p @ [b]) out)"
    with Cons.IH [of "p @ [b]" out] Cons.prems show ?thesis by simp
  next
    fix s assume s: "s < 257" "huffman_word s = p @ [b]"
      "huffman_decode_bit capacity (decoder_at p out) b =
         (if s = 256 then Inl WT_ERR_PROTOCOL
          else if length out = unat capacity then Inl WT_ERR_LIMIT
          else Inr (decoder_at [] (out @ [of_nat s])))"
    with Cons.prems(1) have 1: "s < 256" "length out \<noteq> unat capacity"
      and run: "huffman_decode_bits capacity (decoder_at [] (out @ [of_nat s])) bs = Inr d"
      by (auto split: if_splits)
    from Cons.IH [OF run] 1 Cons.prems(3) obtain ss q where
      "bs = huffman_string ss @ q" "unresolved q" "d = decoder_at q ((out @ [of_nat s]) @ ss)"
      "length ((out @ [of_nat s]) @ ss) \<le> unat capacity" by auto
    moreover have "unat (of_nat s :: u8) = s" using 1 by (simp add: unat_of_nat)
    ultimately show ?thesis
      using s(2) by (intro exI [of _ "of_nat s # ss"] exI [of _ q]) (simp add: huffman_string_def)
  qed
qed

lemma decode_string:
  "length (out @ ss) \<le> unat capacity \<Longrightarrow>
   huffman_decode_bits capacity (decoder_at [] out) (huffman_string ss @ q) =
     huffman_decode_bits capacity (decoder_at [] (out @ ss)) q"
proof (induction ss arbitrary: out)
  case (Cons s ss)
  have "unat s < 256" by (rule unat_u8_less)
  with Cons.prems decode_word [of "unat s" capacity out]
  have "huffman_decode_bits capacity (decoder_at [] out) (huffman_word (unat s)) =
      Inr (decoder_at [] (out @ [s]))" by simp
  with Cons.IH [of "out @ [s]"] Cons.prems show ?case
    by (simp add: huffman_string_def decode_bits_append)
qed (simp add: huffman_string_def)

text \<open>The padding test of the decoder.\<close>

lemma padding_ones:
  assumes "length q \<le> 7"
  shows "(length q \<noteq> 0 \<and> of_nat (bits_nat q) \<noteq> push_bit (length q) 1 - (1::u32)) \<longleftrightarrow> q \<noteq> replicate (length q) True"
proof -
  have "2 ^ length q \<le> (2::nat) ^ 7" using assms by (intro power_increasing) auto
  then have lt: "bits_nat q < 2 ^ 32" "2 ^ length q - 1 < (2::nat) ^ 32"
    using bits_nat_less [of q] by simp_all
  have "push_bit (length q) 1 - (1::u32) = of_nat (2 ^ length q - 1)"
    by (simp add: push_bit_eq_mult)
  then have "of_nat (bits_nat q) = push_bit (length q) 1 - (1::u32) \<longleftrightarrow> bits_nat q = 2 ^ length q - 1"
    using lt by (simp add: word_unat_eq_iff unat_of_nat del: of_nat_diff of_nat_power)
  also have "\<dots> \<longleftrightarrow> q = replicate (length q) True"
    using bits_nat_inject [of q "replicate (length q) True"] by (simp add: bits_nat_ones)
  finally show ?thesis by auto
qed

lemma wt_qpack_huffman_decode_iff:
  "wt_qpack_huffman_decode coded capacity = Inr out \<longleftrightarrow>
     length out \<le> unat capacity \<and> (\<exists>k\<le>7. bits_of coded = huffman_string out @ replicate k True)"
proof -
  have init: "\<lparr>hd_code = 0, hd_bits = 0, hd_out = []\<rparr> = decoder_at [] []" by (simp add: decoder_at_def)
  let ?run = "huffman_decode_bits capacity (decoder_at [] []) (bits_of coded)"
  have "wt_qpack_huffman_decode coded capacity = Inr out \<longleftrightarrow>
      (\<exists>q. length q \<le> 7 \<and> q = replicate (length q) True \<and> ?run = Inr (decoder_at q out))"
    (is "?l \<longleftrightarrow> ?r")
  proof
    assume l: ?l
    then obtain d where d: "?run = Inr d"
      unfolding wt_qpack_huffman_decode_def init by (auto split: sum.splits)
    from decode_bits_sound [OF this] obtain ss q where q: "d = decoder_at q ss" by auto
    from l d q padding_ones [of q] show ?r
      unfolding wt_qpack_huffman_decode_def init
      by (intro exI [of _ q]) (auto simp: decoder_at_def split: if_splits)
  next
    assume ?r
    then obtain q where q: "length q \<le> 7" "q = replicate (length q) True" "?run = Inr (decoder_at q out)" by blast
    with padding_ones [of q] show ?l
      unfolding wt_qpack_huffman_decode_def init by (auto simp: decoder_at_def)
  qed
  also have "\<dots> \<longleftrightarrow> length out \<le> unat capacity \<and> (\<exists>k\<le>7. bits_of coded = huffman_string out @ replicate k True)"
  proof (intro iffI; elim exE conjE)
    fix q assume q: "length q \<le> 7" "q = replicate (length q) True" "?run = Inr (decoder_at q out)"
    from decode_bits_sound [OF q(3)] obtain ss p where p: "bits_of coded = huffman_string ss @ p"
      "decoder_at q out = decoder_at p ss" "length ss \<le> unat capacity" "unresolved p" by auto
    then have "out = ss" "length p = length q" "(of_nat (bits_nat q) :: u32) = of_nat (bits_nat p)"
      by (simp_all add: decoder_at_def)
    moreover from this have "p = q"
      using padding_ones [of q] padding_ones [of p] q(1,2) by (metis length_0_conv)
    ultimately show "length out \<le> unat capacity \<and> (\<exists>k\<le>7. bits_of coded = huffman_string out @ replicate k True)"
      using p q by (metis (no_types))
  next
    fix k assume k: "length out \<le> unat capacity" "k \<le> 7" "bits_of coded = huffman_string out @ replicate k True"
    from decode_string [of "[]" out] k decode_unresolved [of "[]" "replicate k True"] unresolved_ones [OF k(2)]
    have "?run = Inr (decoder_at (replicate k True) out)" by simp
    with k(2) show "\<exists>q. length q \<le> 7 \<and> q = replicate (length q) True \<and> ?run = Inr (decoder_at q out)"
      by (intro exI [of _ "replicate k True"]) simp
  qed
  finally show ?thesis .
qed

subsection \<open>The encoder packs the code words\<close>

text \<open>The encoder with the bits \<open>E\<close> written into a buffer of \<open>n\<close> bytes.\<close>

definition encoder_at :: "nat \<Rightarrow> bool list \<Rightarrow> huffman_encoder \<Rightarrow> bool" where
  "encoder_at n E e \<longleftrightarrow>
     length E \<le> 8 * n \<and> length (hn_out e) = n \<and> hn_used e = of_nat (length E) \<and>
     hn_produced e = of_nat (length E div 8) \<and>
     bits_of (hn_out e) = E @ replicate (8 * n - length E) False"

lemma used_mod_8: "unat ((of_nat n :: u64) mod 8) = n mod 8"
proof -
  have "unat ((of_nat n :: u64) mod 8) = n mod 2 ^ 64 mod 8" by (simp add: unat_mod unat_of_nat)
  also have "\<dots> = n mod 8" by (rule mod_mod_cancel) simp
  finally show ?thesis .
qed

lemma used_mod_8_eq_0: "(of_nat n :: u64) mod 8 = 0 \<longleftrightarrow> n mod 8 = 0"
  using used_mod_8 [of n] by (metis unat_eq_zero)

text \<open>Writing the bits \<open>C\<close> under those already in the current byte.\<close>

lemma bits_of_or:
  assumes len: "length out = n" and E: "bits_of out = E @ replicate (8 * n - length E) False"
    and lt: "length E < 8 * n" and fit: "length E mod 8 + length C \<le> 8"
    and C: "\<And>k. k < 8 \<Longrightarrow> bit c (7 - k) \<longleftrightarrow>
      length E mod 8 \<le> k \<and> k < length E mod 8 + length C \<and> C ! (k - length E mod 8)"
  shows "bits_of (out[length E div 8 := out ! (length E div 8) OR c]) =
    E @ C @ replicate (8 * n - length (E @ C)) False"
proof (rule nth_equalityI)
  let ?p = "length E div 8" and ?m = "length E mod 8"
  have p: "?p < n" using lt by (simp add: less_mult_imp_div_less mult.commute)
  have E8: "length E = 8 * ?p + ?m" by simp
  have fits: "length E + length C \<le> 8 * n" using p fit E8 by linarith
  then show "length (bits_of (out[?p := out ! ?p OR c])) = length (E @ C @ replicate (8 * n - length (E @ C)) False)"
    using len by simp
  fix i assume "i < length (bits_of (out[?p := out ! ?p OR c]))"
  then have i: "i < 8 * n" using len by simp
  have old: "bit (out ! (i div 8)) (7 - i mod 8) \<longleftrightarrow> i < length E \<and> E ! i"
  proof (cases "i < length E")
    case True
    then show ?thesis using bits_of_nth [of i out] i len unfolding E by (simp add: nth_append)
  next
    case False
    then have "i - length E < 8 * n - length E" using i by linarith
    with False show ?thesis using bits_of_nth [of i out] i len unfolding E by (simp add: nth_append)
  qed
  have i8: "i = 8 * (i div 8) + i mod 8" by simp
  have new: "bits_of (out[?p := out ! ?p OR c]) ! i \<longleftrightarrow>
      i < length E \<and> E ! i \<or> i div 8 = ?p \<and> bit c (7 - i mod 8)"
  proof (cases "i div 8 = ?p")
    case True
    then have "out[?p := out ! ?p OR c] ! (i div 8) = out ! (i div 8) OR c" using len p by simp
    with True show ?thesis
      using bits_of_nth [of i "out[?p := out ! ?p OR c]"] i len old by (simp add: bit_or_iff)
  next
    case False
    then have "out[?p := out ! ?p OR c] ! (i div 8) = out ! (i div 8)" by simp
    with False show ?thesis
      using bits_of_nth [of i "out[?p := out ! ?p OR c]"] i len old by simp
  qed
  have rhs: "(E @ C @ replicate (8 * n - length (E @ C)) False) ! i \<longleftrightarrow>
      (if i < length E then E ! i else i - length E < length C \<and> C ! (i - length E))"
  proof (cases "i < length E + length C")
    case False
    then have "\<not> i < length E" "\<not> i - length E < length C"
      "i - length E - length C < 8 * n - (length E + length C)" using i by linarith+
    then show ?thesis by (simp add: nth_append)
  qed (auto simp: nth_append)
  show "bits_of (out[?p := out ! ?p OR c]) ! i = (E @ C @ replicate (8 * n - length (E @ C)) False) ! i"
    unfolding new rhs
  proof (cases "i div 8 = ?p")
    case True
    then have k: "i < length E \<longleftrightarrow> i mod 8 < ?m" "i - length E = i mod 8 - ?m"
      using E8 i8 by linarith+
    have "bit c (7 - i mod 8) \<longleftrightarrow> ?m \<le> i mod 8 \<and> i mod 8 - ?m < length C \<and> C ! (i mod 8 - ?m)"
      using C [of "i mod 8"] by auto
    with True show "(i < length E \<and> E ! i \<or> i div 8 = ?p \<and> bit c (7 - i mod 8)) =
        (if i < length E then E ! i else i - length E < length C \<and> C ! (i - length E))"
      unfolding k by auto
  next
    case False
    have "i < length E \<or> length E + length C \<le> i"
    proof (cases "i div 8 < ?p")
      case True
      then show ?thesis using E8 i8 mod_less_divisor [of 8 i] by linarith
    next
      case False': False
      then have "Suc ?p \<le> i div 8" using False by simp
      then show ?thesis using E8 i8 fit by linarith
    qed
    with False show "(i < length E \<and> E ! i \<or> i div 8 = ?p \<and> bit c (7 - i mod 8)) =
        (if i < length E then E ! i else i - length E < length C \<and> C ! (i - length E))"
      by auto
  qed
qed

lemma encoder_at_put:
  assumes e: "encoder_at n E e" and n: "n < 2 ^ 64" and lt: "length E < 8 * n"
    and C: "C \<noteq> []" "length E mod 8 + length C \<le> 8"
      "\<And>k. k < 8 \<Longrightarrow> bit c (7 - k) \<longleftrightarrow>
        length E mod 8 \<le> k \<and> k < length E mod 8 + length C \<and> C ! (k - length E mod 8)"
  shows "encoder_at n (E @ C)
    \<lparr>hn_used = hn_used e + of_nat (length C),
     hn_produced = (if (hn_used e + of_nat (length C)) mod 8 = 0 then hn_produced e + 1 else hn_produced e),
     hn_out = (hn_out e)[unat (hn_produced e) := hn_out e ! unat (hn_produced e) OR c]\<rparr>"
proof -
  let ?p = "length E div 8"
  have p: "?p < n" using lt by (simp add: less_mult_imp_div_less mult.commute)
  then have up: "unat (hn_produced e) = ?p"
    using e n by (simp add: encoder_at_def unat_of_nat_u64)
  have used: "hn_used e + of_nat (length C) = of_nat (length (E @ C))"
    using e by (simp add: encoder_at_def)
  have E8: "length E = 8 * ?p + length E mod 8" by simp
  have m: "length (E @ C) mod 8 = 0 \<longleftrightarrow> length E mod 8 + length C = 8"
    "length (E @ C) div 8 = (if length E mod 8 + length C = 8 then Suc ?p else ?p)"
  proof -
    let ?x = "length E mod 8 + length C"
    have x: "length (E @ C) = ?x + 8 * ?p" using E8 by simp
    have "length (E @ C) mod 8 = ?x mod 8" "length (E @ C) div 8 = ?p + ?x div 8"
      by (subst x, simp only: mod_mult_self2) (subst x, rule div_mult_self2, simp)
    moreover have "?x = 8 \<or> ?x < 8" "?x \<noteq> 0" using C(1,2) by auto
    ultimately show "length (E @ C) mod 8 = 0 \<longleftrightarrow> ?x = 8"
      "length (E @ C) div 8 = (if ?x = 8 then Suc ?p else ?p)" by auto
  qed
  have "length (E @ C) \<le> 8 * n"
    using p C(2) E8 unfolding length_append by linarith
  moreover have "bits_of ((hn_out e)[?p := hn_out e ! ?p OR c]) =
      E @ C @ replicate (8 * n - length (E @ C)) False"
    using e lt C by (intro bits_of_or) (auto simp: encoder_at_def)
  ultimately show ?thesis
    using e m used_mod_8_eq_0 [of "length (E @ C)"]
    unfolding used up by (simp add: encoder_at_def)
qed

text \<open>The bits of a code that one round of the loop takes.\<close>

lemma chunk_bits:
  fixes code :: u32
  assumes "m < 8" "0 < t" "t \<le> 8 - m" "t \<le> r" "k < 8"
  shows "bit (ucast (push_bit (8 - m - t) (drop_bit (r - t) code AND (push_bit t 1 - 1))) :: u8) (7 - k) \<longleftrightarrow>
    m \<le> k \<and> k < m + t \<and> bit code (r - 1 - (k - m))"
proof -
  have "push_bit t 1 - 1 = (mask t :: u32)"
    by (simp add: mask_eq_exp_minus_1 push_bit_eq_mult)
  then have "bit (ucast (push_bit (8 - m - t) (drop_bit (r - t) code AND (push_bit t 1 - 1))) :: u8) (7 - k) \<longleftrightarrow>
      8 - m - t \<le> 7 - k \<and> 7 - k - (8 - m - t) < t \<and> bit code (r - t + (7 - k - (8 - m - t)))"
    using assms(5) by (auto simp: bit_simps)
  moreover have "8 - m - t \<le> 7 - k \<longleftrightarrow> k < m + t" using assms by auto
  moreover have "k < m + t \<Longrightarrow> 7 - k - (8 - m - t) < t \<longleftrightarrow> m \<le> k" using assms by auto
  moreover have "k < m + t \<Longrightarrow> m \<le> k \<Longrightarrow> r - t + (7 - k - (8 - m - t)) = r - 1 - (k - m)"
    using assms by auto
  ultimately show ?thesis by auto
qed

lemma put_code_exact:
  "encoder_at (unat capacity) E e \<Longrightarrow>
   if length E + remaining \<le> 8 * unat capacity
   then \<exists>e'. huffman_put_code capacity code remaining e = Inr e' \<and>
     encoder_at (unat capacity) (E @ word_bits remaining code) e'
   else huffman_put_code capacity code remaining e = Inl WT_ERR_LIMIT"
proof (induction remaining arbitrary: E e rule: less_induct)
  case (less r)
  let ?n = "unat capacity" and ?m = "length E mod 8"
  show ?case
  proof (cases "r = 0")
    case True
    with less.prems show ?thesis
      by (simp add: huffman_put_code.simps word_bits_def encoder_at_def)
  next
    case False
    have le: "length E \<le> 8 * ?n" using less.prems by (simp add: encoder_at_def)
    have prod: "hn_produced e = capacity \<longleftrightarrow> length E = 8 * ?n"
    proof -
      have "length E div 8 \<le> ?n" using le by simp
      then have "unat (hn_produced e) = length E div 8"
        using less.prems unat_u64_less [of capacity] by (simp add: encoder_at_def unat_of_nat_u64)
      then show ?thesis using le by (auto simp: word_unat_eq_iff)
    qed
    show ?thesis
    proof (cases "length E = 8 * ?n")
      case True
      with False prod show ?thesis by (simp add: huffman_put_code.simps)
    next
      case not_full: False
      define t where "t = (if r < 8 - ?m then r else 8 - ?m)"
      have t: "0 < t" "t \<le> 8 - ?m" "t \<le> r" "?m < 8" using False by (auto simp: t_def)
      define C where "C = map (\<lambda>i. bit code (r - 1 - i)) [0..<t]"
      have wb: "word_bits r code = C @ word_bits (r - t) code"
        using word_bits_add [of t "r - t" code] t by (simp add: C_def)
      have C: "length C = t" by (simp add: C_def)
      let ?c = "ucast (push_bit (8 - ?m - t) (drop_bit (r - t) code AND (push_bit t 1 - 1))) :: u8"
      define e' where "e' =
        \<lparr>hn_used = hn_used e + of_nat (length C),
         hn_produced = (if (hn_used e + of_nat (length C)) mod 8 = 0 then hn_produced e + 1 else hn_produced e),
         hn_out = (hn_out e)[unat (hn_produced e) := hn_out e ! unat (hn_produced e) OR ?c]\<rparr>"
      have "encoder_at ?n (E @ C) e'"
        unfolding e'_def
      proof (rule encoder_at_put [OF less.prems])
        show "?n < 2 ^ 64" using unat_u64_less [of capacity] by simp
        show "length E < 8 * ?n" using le not_full by simp
        show "C \<noteq> []" "?m + length C \<le> 8" using C t by auto
        fix k :: nat assume "k < 8"
        with chunk_bits [of ?m t r k code] t C show "bit ?c (7 - k) \<longleftrightarrow>
          ?m \<le> k \<and> k < ?m + length C \<and> C ! (k - ?m)" by (auto simp: C_def)
      qed
      from less.IH [OF _ this, of "r - t"] t(1,3) False
      have ih: "if length (E @ C) + (r - t) \<le> 8 * ?n
        then \<exists>e''. huffman_put_code capacity code (r - t) e' = Inr e'' \<and>
          encoder_at ?n ((E @ C) @ word_bits (r - t) code) e''
        else huffman_put_code capacity code (r - t) e' = Inl WT_ERR_LIMIT" by simp
      have "huffman_put_code capacity code r e = huffman_put_code capacity code (r - t) e'"
        using False not_full prod less.prems used_mod_8 [of "length E"]
        by (subst huffman_put_code.simps) (simp add: Let_def e'_def C t_def encoder_at_def)
      with ih C t show ?thesis by (auto simp: wb)
    qed
  qed
qed

lemma put_codes_exact:
  "encoder_at (unat capacity) E e \<Longrightarrow>
   if length (E @ huffman_string bytes) \<le> 8 * unat capacity
   then \<exists>e'. huffman_put_codes capacity bytes e = Inr e' \<and>
     encoder_at (unat capacity) (E @ huffman_string bytes) e'
   else huffman_put_codes capacity bytes e = Inl WT_ERR_LIMIT"
proof (induction bytes arbitrary: E e)
  case Nil
  then show ?case by (simp add: huffman_string_def encoder_at_def)
next
  case (Cons b bytes)
  have hs: "huffman_string (b # bytes) = huffman_word (unat b) @ huffman_string bytes"
    by (simp add: huffman_string_def)
  let ?entry = "WT_RFC7541_HUFFMAN_CODES ! unat b"
  note put = put_code_exact [OF Cons.prems, of "unat (hc_bits ?entry)" "hc_code ?entry",
      folded huffman_word_def]
  have len: "length (huffman_word (unat b)) = unat (hc_bits ?entry)" by (simp add: huffman_word_def)
  show ?case
  proof (cases "length E + unat (hc_bits ?entry) \<le> 8 * unat capacity")
    case True
    then obtain e' where "huffman_put_code capacity (hc_code ?entry) (unat (hc_bits ?entry)) e = Inr e'"
      "encoder_at (unat capacity) (E @ huffman_word (unat b)) e'" using put by auto
    with Cons.IH [of "E @ huffman_word (unat b)" e'] show ?thesis
      unfolding hs by auto
  next
    case False
    then have "\<not> length (E @ huffman_string (b # bytes)) \<le> 8 * unat capacity"
      unfolding hs by (simp add: len)
    with put False show ?thesis by simp
  qed
qed

text \<open>The number of bytes a string takes.\<close>

definition huffman_size :: "u8 list \<Rightarrow> nat" where
  "huffman_size bytes = (length (huffman_string bytes) + 7) div 8"

lemma huffman_size_le: "huffman_size bytes \<le> n \<longleftrightarrow> length (huffman_string bytes) \<le> 8 * n"
  unfolding huffman_size_def by linarith

lemma padded_size: "length E mod 8 \<noteq> 0 \<Longrightarrow> (length E + 7) div 8 = Suc (length E div 8)"
  "length E mod 8 = 0 \<Longrightarrow> (length E + 7) div 8 = length E div 8"
  using div_mult_mod_eq [of "length E" 8] by linarith+

lemma bits_of_take: "k \<le> length bs \<Longrightarrow> bits_of (take k bs) = take (8 * k) (bits_of bs)"
proof (induction bs arbitrary: k)
  case (Cons b bs)
  then show ?case by (cases k) simp_all
qed simp

lemma byte_fill: "(x::nat) * 8 + y = z \<Longrightarrow> y < 8 \<Longrightarrow> 8 * Suc x = z + (8 - y)"
  by simp

lemma wt_qpack_huffman_encode_exact:
  "if huffman_size bytes \<le> unat capacity
   then \<exists>coded. wt_qpack_huffman_encode bytes capacity = Inr coded \<and> length coded = huffman_size bytes \<and>
     bits_of coded = huffman_string bytes @
       replicate (8 * huffman_size bytes - length (huffman_string bytes)) True
   else wt_qpack_huffman_encode bytes capacity = Inl WT_ERR_LIMIT"
proof -
  let ?n = "unat capacity" and ?E = "huffman_string bytes"
  have zero: "concat (replicate k (byte_bits 0)) = replicate (8 * k) False" for k
  proof (induction k)
    case (Suc k)
    have "byte_bits 0 = replicate 8 False" by (simp add: byte_bits_def numeral_eq_Suc)
    with Suc show ?case by (simp add: replicate_add [symmetric])
  qed simp
  have "encoder_at ?n [] \<lparr>hn_used = 0, hn_produced = 0, hn_out = replicate ?n 0\<rparr>"
    by (simp add: encoder_at_def zero)
  note put = put_codes_exact [OF this, of bytes, simplified]
  show ?thesis
  proof (cases "length ?E \<le> 8 * ?n")
    case False
    with put show ?thesis by (simp add: wt_qpack_huffman_encode_def huffman_size_le)
  next
    case True
    then obtain e where run: "huffman_put_codes capacity bytes
        \<lparr>hn_used = 0, hn_produced = 0, hn_out = replicate ?n 0\<rparr> = Inr e"
      and e: "encoder_at ?n ?E e" using put by auto
    let ?p = "length ?E div 8" and ?m = "length ?E mod 8"
    have up: "unat (hn_produced e) = ?p"
      using e True unat_u64_less [of capacity]
      by (simp add: encoder_at_def unat_of_nat_u64 le_less_trans [of "length ?E div 8" ?n])
    have used: "unat (hn_used e mod 8) = ?m" "hn_used e mod 8 = 0 \<longleftrightarrow> ?m = 0"
      using e used_mod_8 [of "length ?E"] used_mod_8_eq_0 [of "length ?E"] by (simp_all add: encoder_at_def)
    show ?thesis
    proof (cases "?m = 0")
      case aligned: True
      then have sz: "huffman_size bytes = ?p" "8 * ?p = length ?E"
        using padded_size(2) [of ?E] by (auto simp: huffman_size_def)
      then have le: "?p \<le> ?n" using True by linarith
      have "bits_of (take ?p (hn_out e)) = ?E"
        using e le sz(2) by (simp add: bits_of_take encoder_at_def)
      moreover have "wt_qpack_huffman_encode bytes capacity = Inr (take ?p (hn_out e))"
        using aligned used(2) by (simp add: wt_qpack_huffman_encode_def run up)
      moreover have "length (hn_out e) = ?n" using e by (simp add: encoder_at_def)
      ultimately show ?thesis using le sz by simp
    next
      case False
      have m8: "?m < 8" by simp
      have lt: "length ?E < 8 * ?n" using True False by (metis le_neq_implies_less mod_mult_self1_is_0)
      have p: "?p < ?n" using lt by (simp add: less_mult_imp_div_less mult.commute)
      have sz: "huffman_size bytes = Suc ?p" using padded_size(1) [OF False] by (simp add: huffman_size_def)
      let ?c = "ucast (push_bit (8 - ?m) 1 - 1 :: u32) :: u8"
      have "bits_of ((hn_out e)[?p := hn_out e ! ?p OR ?c]) =
          ?E @ replicate (8 - ?m) True @ replicate (8 * ?n - length (?E @ replicate (8 - ?m) True)) False"
      proof (rule bits_of_or)
        fix k :: nat assume "k < 8"
        have "push_bit (8 - ?m) 1 - 1 = (mask (8 - ?m) :: u32)"
          by (simp add: mask_eq_exp_minus_1 push_bit_eq_mult)
        then show "bit ?c (7 - k) \<longleftrightarrow> ?m \<le> k \<and> k < ?m + length (replicate (8 - ?m) True) \<and>
            replicate (8 - ?m) True ! (k - ?m)"
          using \<open>k < 8\<close> by (auto simp: bit_simps)
      qed (use e lt in \<open>auto simp: encoder_at_def\<close>)
      moreover have "8 * Suc ?p = length (?E @ replicate (8 - ?m) True)"
        using byte_fill [OF div_mult_mod_eq [of "length ?E" 8] m8] by simp
      ultimately have "bits_of (take (Suc ?p) ((hn_out e)[?p := hn_out e ! ?p OR ?c])) =
          ?E @ replicate (8 - ?m) True"
        using p e by (simp add: bits_of_take encoder_at_def)
      moreover have "8 * Suc ?p - length ?E = 8 - ?m"
        unfolding byte_fill [OF div_mult_mod_eq [of "length ?E" 8] m8] by simp
      moreover have "unat (hn_produced e + 1) = Suc ?p" "hn_produced e \<noteq> capacity"
        using up p unat_u64_less [of capacity] unat_add_no_wrap [of "hn_produced e" 1] by auto
      moreover have "wt_qpack_huffman_encode bytes capacity =
          Inr (take (unat (hn_produced e + 1)) ((hn_out e)[?p := hn_out e ! ?p OR ?c]))"
        if "hn_produced e \<noteq> capacity"
        using False used that by (simp add: wt_qpack_huffman_encode_def run up Let_def)
      moreover have "length (hn_out e) = ?n" using e by (simp add: encoder_at_def)
      ultimately show ?thesis using p sz by simp
    qed
  qed
qed

text \<open>The size the callers ask for first is the size the encoder produces.\<close>

lemma huffman_size_loop_exact:
  "unat bits + length (huffman_string bytes) < 2 ^ 64 - 7 \<Longrightarrow>
   huffman_size_loop bits bytes = Inr (bits + of_nat (length (huffman_string bytes)))"
proof (induction bytes arbitrary: bits)
  case Nil
  then show ?case by (simp add: huffman_string_def)
next
  case (Cons b bytes)
  let ?k = "ucast (hc_bits (WT_RFC7541_HUFFMAN_CODES ! unat b)) :: u64"
  have k: "unat ?k = length (huffman_word (unat b))" by (simp add: huffman_word_def)
  have hs: "length (huffman_string (b # bytes)) = unat ?k + length (huffman_string bytes)"
    unfolding k by (simp add: huffman_string_def)
  have u: "unat (bits + ?k) = unat bits + unat ?k"
    using Cons.prems hs by (intro unat_add_no_wrap) linarith
  have "\<not> bits + ?k > (- 1) - 7"
    using Cons.prems hs u by (simp add: word_less_nat_alt)
  moreover from Cons.IH [of "bits + ?k"] Cons.prems hs u
  have "huffman_size_loop (bits + ?k) bytes = Inr (bits + ?k + of_nat (length (huffman_string bytes)))" by simp
  ultimately show ?case
    unfolding hs of_nat_add by (simp add: Let_def add.assoc)
qed

lemma wt_qpack_huffman_encoded_size_exact:
  assumes "length (huffman_string bytes) < 2 ^ 64 - 7"
  shows "wt_qpack_huffman_encoded_size bytes = Inr (of_nat (huffman_size bytes))"
proof -
  let ?n = "length (huffman_string bytes)"
  have "unat ((of_nat ?n + 7 :: u64) div 8) = huffman_size bytes"
    using assms unat_add_no_wrap [of "of_nat ?n" 7] unat_of_nat_u64 [of ?n]
    by (simp add: unat_div huffman_size_def)
  with huffman_size_loop_exact [of 0 bytes] assms show ?thesis
    by (simp add: wt_qpack_huffman_encoded_size_def word_of_nat_eqI)
qed

text \<open>No code word has more than thirty bits.\<close>

lemma length_huffman_string: "length (huffman_string bytes) \<le> 30 * length bytes"
proof (induction bytes)
  case (Cons b bytes)
  have "unat b < 257" using unat_u8_less [of b] by simp
  from huffman_word_place [OF this] obtain j k where "j < 30" "k < unat (hr_count (WT_RFC7541_HUFFMAN_RANGES ! j))"
    "unat b = unat (he_symbol (WT_RFC7541_HUFFMAN_BY_CODE ! (unat (hr_offset (WT_RFC7541_HUFFMAN_RANGES ! j)) + k)))"
    by metis
  then have "length (huffman_word (unat b)) \<le> 30"
    using huffman_word_at(2) [of j k] by simp
  with Cons show ?case by (simp add: huffman_string_def)
qed (simp add: huffman_string_def)

lemma huffman_decode_encode:
  assumes "wt_qpack_huffman_encode bytes capacity = Inr coded" "length bytes \<le> unat capacity'"
  shows "wt_qpack_huffman_decode coded capacity' = Inr bytes"
proof -
  let ?n = "huffman_size bytes" and ?E = "huffman_string bytes"
  from assms(1) wt_qpack_huffman_encode_exact [of bytes capacity]
  have "bits_of coded = ?E @ replicate (8 * ?n - length ?E) True" by (auto split: if_splits)
  moreover have "8 * ?n - length ?E \<le> 7" unfolding huffman_size_def by linarith
  ultimately show ?thesis using assms(2) by (auto simp: wt_qpack_huffman_decode_iff)
qed

subsection \<open>Properties of the string coding\<close>

text \<open>C35: The Huffman decoder is exact. It returns a string precisely when the coded bits are the
  code words of that string, in order, followed by at most seven one bits, and the string fits the
  caller's buffer. So a decoder that refuses refuses every other input, an EOS symbol and a padding
  that is too long or not all ones among them, and no two strings decode from the same bytes.\<close>

theorem wt_qpack_huffman_decode_language:
  "wt_qpack_huffman_decode coded capacity = Inr out \<longleftrightarrow>
     length out \<le> unat capacity \<and> (\<exists>k\<le>7. bits_of coded = huffman_string out @ replicate k True)"
  by (rule wt_qpack_huffman_decode_iff)

text \<open>C36: Huffman coding loses nothing, and the size announced is the size written. For every string that
  can be addressed the announced size is the length of one fixed coding of the string; the encoder
  produces that coding in every buffer of at least the announced size and refuses every smaller one; and
  the decoder reads the coding back as the string exactly when its output buffer can hold the string.\<close>

theorem wt_qpack_huffman_round_trip:
  assumes "length bytes < 2 ^ 59"
  shows "\<exists>size_out coded. wt_qpack_huffman_encoded_size bytes = Inr size_out \<and> length coded = unat size_out \<and>
    (\<forall>capacity. wt_qpack_huffman_encode bytes capacity = (if size_out \<le> capacity then Inr coded else Inl WT_ERR_LIMIT)) \<and>
    (\<forall>capacity. wt_qpack_huffman_decode coded capacity = Inr bytes \<longleftrightarrow> length bytes \<le> unat capacity)"
proof -
  let ?n = "huffman_size bytes" and ?E = "huffman_string bytes"
  have E: "length ?E < 2 ^ 64 - 7" using length_huffman_string [of bytes] assms by simp
  then have n: "?n < 2 ^ 64" "unat (of_nat ?n :: u64) = ?n"
    using huffman_size_le [of bytes "2 ^ 61"] by (simp_all add: unat_of_nat_u64)
  let ?coding = "\<lambda>coded. length coded = ?n \<and> bits_of coded = ?E @ replicate (8 * ?n - length ?E) True"
  have enc: "if ?n \<le> unat capacity then \<exists>coded. wt_qpack_huffman_encode bytes capacity = Inr coded \<and> ?coding coded
      else wt_qpack_huffman_encode bytes capacity = Inl WT_ERR_LIMIT" for capacity
    by (rule wt_qpack_huffman_encode_exact)
  from enc [of "of_nat ?n"] n(2) obtain coded where
    c: "wt_qpack_huffman_encode bytes (of_nat ?n) = Inr coded" "?coding coded" by auto
  have same: "coded' = coded" if "?coding coded'" for coded'
    using that c(2) bits_of_inject [of coded' coded] by simp
  have "wt_qpack_huffman_encode bytes capacity = (if of_nat ?n \<le> capacity then Inr coded else Inl WT_ERR_LIMIT)" for capacity
    using enc [of capacity] n(2) same by (auto simp: word_le_nat_alt split: if_splits)
  moreover have "wt_qpack_huffman_decode coded capacity = Inr bytes \<longleftrightarrow> length bytes \<le> unat capacity" for capacity
    using huffman_decode_encode [OF c(1)] wt_qpack_huffman_decode_iff by blast
  ultimately show ?thesis
    using wt_qpack_huffman_encoded_size_exact [OF E] c(2) n(2) by auto
qed

theorem wt_qpack_huffman_round_trip_witness:
  "wt_qpack_huffman_encoded_size [0x61] = Inr 1 \<and> wt_qpack_huffman_encode [0x61] 1 = Inr [0x1F] \<and>
   wt_qpack_huffman_encode [0x61] 0 = Inl WT_ERR_LIMIT \<and> wt_qpack_huffman_decode [0x1F] 1 = Inr [0x61]"
proof -
  have code: "WT_RFC7541_HUFFMAN_CODES ! 97 = HUFFMAN_CODE 3 5"
    by (simp add: WT_RFC7541_HUFFMAN_CODES_def)
  have put: "huffman_put_code 1 3 5 \<lparr>hn_used = 0, hn_produced = 0, hn_out = [0]\<rparr> =
      Inr \<lparr>hn_used = 5, hn_produced = 0, hn_out = [0x18]\<rparr>"
    by (subst huffman_put_code.simps, simp, subst huffman_put_code.simps, simp)
  have 1: "wt_qpack_huffman_encode [0x61] 1 = Inr [0x1F]"
    by (simp add: wt_qpack_huffman_encode_def code put)
  have 2: "wt_qpack_huffman_encoded_size [0x61] = Inr 1"
    by (simp add: wt_qpack_huffman_encoded_size_def code)
  from wt_qpack_huffman_round_trip [of "[0x61]"] 2 obtain coded where
    c: "\<forall>capacity. wt_qpack_huffman_encode [0x61] capacity = (if 1 \<le> capacity then Inr coded else Inl WT_ERR_LIMIT)"
      "\<forall>capacity. wt_qpack_huffman_decode coded capacity = Inr [0x61] \<longleftrightarrow> length [0x61 :: u8] \<le> unat capacity" by auto
  have "coded = [0x1F]" using spec [OF c(1), of 1] 1 by simp
  with spec [OF c(2), of 1] spec [OF c(1), of 0] 1 2 show ?thesis by simp
qed

end
