(* ===== verification/Qpack_Primitives.thy ===== *)
theory Qpack_Primitives
  imports Http3_Frame Qpack_Huffman
begin

text \<open>
  QPACK's prefixed integers and strings (\<open>C99/src/http3/qpack_primitives.c\<close>) and its error codes.
  An integer shares its first byte with the flag bits of the representation it belongs to, so the
  readers built on it look at that byte first (\<open>rpeek\<close>, the use of \<open>wt_cursor_rest\<close>) and then let
  the integer decoder read it again. Encoders return a status and the writer; \<open>wseq\<close> is the C
  sequence that answers \<open>WT_ERR_LIMIT\<close> when its first half fails, and \<open>appends f bs\<close> says that \<open>f\<close>
  appends exactly \<open>bs\<close> and reports whether they fitted.
\<close>

subsection \<open>Error codes and the first byte\<close>

datatype wt_qpack_error =
  WT_QPACK_ERROR_NONE
| WT_QPACK_ERROR_DECOMPRESSION_FAILED
| WT_QPACK_ERROR_ENCODER_STREAM
| WT_QPACK_ERROR_DECODER_STREAM

text \<open>A status that is not \<open>WT_OK\<close> and the code in \<open>*out_error\<close>.\<close>

type_synonym qpack_fail = "wt_status \<times> wt_qpack_error"

definition first_byte :: "wt_cursor \<Rightarrow> u8 option" where
  "first_byte c =
     (case wt_cursor_rest c of
        (None, available) \<Rightarrow> None
      | (Some rest, available) \<Rightarrow> if available = 0 then None else Some (rest ! 0))"

definition rpeek :: "'e \<Rightarrow> ('e, u8) xreader" where
  "rpeek e c = (case first_byte c of None \<Rightarrow> (Inl e, c) | Some b \<Rightarrow> (Inr b, c))"

subsection \<open>Prefixed integers\<close>

abbreviation WT_QPACK_INTEGER_MAX :: u64 where
  "WT_QPACK_INTEGER_MAX \<equiv> WT_QUIC_VARINT_MAX"

function integer_loop :: "u64 \<Rightarrow> nat \<Rightarrow> u64 wt_reader" where
  "integer_loop v shift c =
     (let (byte, c') = wt_cursor_u8 c in
      if wt_cursor_failed c' then (Inl WT_ERR_TRUNCATED, c')
      else if shift \<ge> 63 then (Inl WT_ERR_PROTOCOL, c')
      else let v' = v + push_bit shift (ucast byte AND 0x7F) in
        if v' > WT_QPACK_INTEGER_MAX then (Inl WT_ERR_PROTOCOL, c')
        else if byte AND 0x80 = 0 then (Inr v', c')
        else integer_loop v' (shift + 7) c')"
  by auto

termination integer_loop
  by (relation "measure (\<lambda>(v, shift, c). 63 - shift)") auto

declare integer_loop.simps [simp del]

definition wt_qpack_integer_decode :: "nat \<Rightarrow> u64 wt_reader" where
  "wt_qpack_integer_decode prefix_bits c =
     (if prefix_bits = 0 \<or> prefix_bits > 8 then (Inl WT_ERR_INVALID_ARGUMENT, c)
      else
        let prefix_max = push_bit prefix_bits 1 - 1;
            (first, c') = wt_cursor_u8 c
        in if wt_cursor_failed c' then (Inl WT_ERR_TRUNCATED, c')
           else let v = ucast first AND prefix_max in
             if v < prefix_max then (Inr v, c') else integer_loop v 0 c')"

text \<open>\<open>while (value >= 128)\<close> and the last byte.\<close>

function integer_tail :: "u64 \<Rightarrow> wt_writer \<Rightarrow> wt_writer" where
  "integer_tail v w =
     (if v \<ge> 128 then integer_tail (drop_bit 7 v) (wt_writer_u8 (ucast ((v AND 0x7F) OR 0x80)) w)
      else wt_writer_u8 (ucast v) w)"
  by auto

termination integer_tail
proof (relation "measure (\<lambda>(v, w). unat v)", goal_cases)
  case (2 v w)
  then have "128 \<le> unat v" by (simp add: word_le_nat_alt)
  then show ?case by (simp add: unat_shiftr)
qed simp

declare integer_tail.simps [simp del]

definition wt_qpack_integer_encode :: "nat \<Rightarrow> u8 \<Rightarrow> u64 \<Rightarrow> wt_writer \<Rightarrow> wt_status \<times> wt_writer" where
  "wt_qpack_integer_encode prefix_bits prefix_flags v w =
     (if prefix_bits = 0 \<or> prefix_bits > 8 then (WT_ERR_INVALID_ARGUMENT, w)
      else if v > WT_QPACK_INTEGER_MAX then (WT_ERR_INVALID_ARGUMENT, w)
      else if prefix_bits < 8 \<and> prefix_flags AND (push_bit prefix_bits 1 - 1) \<noteq> 0
      then (WT_ERR_INVALID_ARGUMENT, w)
      else
        let prefix_max = push_bit prefix_bits 1 - 1 in
        if v < prefix_max
        then let w' = wt_writer_u8 (prefix_flags OR ucast v) w in (writer_status w', w')
        else
          let w' = integer_tail (v - prefix_max) (wt_writer_u8 (prefix_flags OR ucast prefix_max) w)
          in (writer_status w', w'))"

subsection \<open>Strings\<close>

text \<open>The bytes on the wire and whether they are Huffman-coded.\<close>

definition wt_qpack_string_decode :: "(u8 list \<times> bool) wt_reader" where
  "wt_qpack_string_decode =
     rbind (rpeek WT_ERR_TRUNCATED) (\<lambda>first.
     rbind (wt_qpack_integer_decode 7) (\<lambda>len.
     if len > - 1 then rfail WT_ERR_LIMIT
     else rbind (view_or WT_ERR_TRUNCATED len) (\<lambda>bytes.
       rreturn (bytes, first AND 0x80 \<noteq> 0))))"

text \<open>The string as it goes on the wire: coded into the caller's scratch buffer, or as it is.\<close>

definition wire_string :: "u8 list \<Rightarrow> bool \<Rightarrow> u64 \<Rightarrow> u8 list wt_result" where
  "wire_string bytes huffman scratch_capacity =
     (if huffman then
        (case wt_qpack_huffman_encoded_size bytes of
           Inl e \<Rightarrow> Inl e
         | Inr needed \<Rightarrow>
             if needed > scratch_capacity then Inl WT_ERR_LIMIT
             else wt_qpack_huffman_encode bytes scratch_capacity)
      else Inr bytes)"

text \<open>\<open>if (first(w) != WT_OK) return WT_ERR_LIMIT;\<close> followed by \<open>return second(w);\<close>\<close>

definition wseq ::
  "(wt_writer \<Rightarrow> wt_status \<times> wt_writer) \<Rightarrow> (wt_writer \<Rightarrow> wt_status \<times> wt_writer) \<Rightarrow>
   wt_writer \<Rightarrow> wt_status \<times> wt_writer" where
  "wseq f g w = (case f w of (s, w') \<Rightarrow> if s = WT_OK then g w' else (WT_ERR_LIMIT, w'))"

definition put_bytes :: "u8 list \<Rightarrow> wt_writer \<Rightarrow> wt_status \<times> wt_writer" where
  "put_bytes bytes w =
     (let w' = (if length bytes \<noteq> 0 then wt_writer_bytes bytes w else w) in (writer_status w', w'))"

definition wt_qpack_string_encode_coded ::
  "u8 list \<Rightarrow> bool \<Rightarrow> u64 \<Rightarrow> wt_writer \<Rightarrow> wt_status \<times> wt_writer" where
  "wt_qpack_string_encode_coded bytes huffman scratch_capacity w =
     (if length bytes > unat WT_QPACK_INTEGER_MAX then (WT_ERR_INVALID_ARGUMENT, w)
      else case wire_string bytes huffman scratch_capacity of
        Inl e \<Rightarrow> (e, w)
      | Inr wire \<Rightarrow>
          wseq (wt_qpack_integer_encode 7 (if huffman then 0x80 else 0) (of_nat (length wire)))
            (put_bytes wire) w)"

definition wt_qpack_string_encode :: "u8 list \<Rightarrow> wt_writer \<Rightarrow> wt_status \<times> wt_writer" where
  "wt_qpack_string_encode bytes = wt_qpack_string_encode_coded bytes False 0"

subsection \<open>Encoders that append\<close>

definition appends :: "(wt_writer \<Rightarrow> wt_status \<times> wt_writer) \<Rightarrow> u8 list \<Rightarrow> bool" where
  "appends f bs \<longleftrightarrow> writes (\<lambda>w. snd (f w)) bs \<and> (\<forall>w. fst (f w) = writer_status (snd (f w)))"

lemma writes_inv: "writes e bs \<Longrightarrow> writer_inv w \<Longrightarrow> writer_inv (e w)"
  by (rule writes_safe)

lemma appendsI:
  "writes e bs \<Longrightarrow> (\<And>w. f w = (writer_status (e w), e w)) \<Longrightarrow> appends f bs"
  by (simp add: appends_def)

lemma appends_put_bytes: "appends (put_bytes bs) bs"
proof (rule appendsI)
  show "writes (\<lambda>w. if length bs \<noteq> 0 then wt_writer_bytes bs w else w) bs"
    by (cases "bs = []") simp_all
qed (simp add: put_bytes_def Let_def)

lemma writes_cong: "(\<And>w. writer_inv w \<Longrightarrow> e w = f w) \<Longrightarrow> writes e bs = writes f bs"
  by (simp add: writes_def)

lemma writes_overflow: "writes e bs \<Longrightarrow> writer_inv w \<Longrightarrow> wr_overflow w \<Longrightarrow> e w = w"
  by (simp add: writes_def)

lemma writer_status_OK: "writer_status w = WT_OK \<longleftrightarrow> \<not> wr_overflow w"
  by (simp add: writer_status_def wt_writer_ok_def)

lemma appends_wseq:
  assumes f: "appends f as" and g: "appends g bs"
  shows "appends (wseq f g) (as @ bs)"
proof -
  have st: "fst (f w) = writer_status (snd (f w))" "fst (g w) = writer_status (snd (g w))" for w
    using f g by (simp_all add: appends_def)
  have "snd (wseq f g w) = snd (g (snd (f w)))" if "writer_inv w" for w
  proof (cases "wr_overflow (snd (f w))")
    case True
    have "writer_inv (snd (f w))"
      using f that writes_inv [of "\<lambda>w. snd (f w)" as w] by (simp add: appends_def)
    with True g have "snd (g (snd (f w))) = snd (f w)"
      using writes_overflow [of "\<lambda>w. snd (g w)" bs "snd (f w)"] by (simp add: appends_def)
    with True st(1) [of w] show ?thesis
      by (simp add: wseq_def case_prod_beta writer_status_OK)
  next
    case False
    with st(1) [of w] show ?thesis by (simp add: wseq_def case_prod_beta writer_status_OK)
  qed
  then have "writes (\<lambda>w. snd (wseq f g w)) (as @ bs) = writes (\<lambda>w. snd (g (snd (f w)))) (as @ bs)"
    by (rule writes_cong)
  moreover have "writes (\<lambda>w. snd (g (snd (f w)))) (as @ bs)"
    using f g by (intro writes_comp) (simp_all add: appends_def)
  moreover have "fst (wseq f g w) = writer_status (snd (wseq f g w))" for w
    using st(1) [of w] st(2) by (auto simp: wseq_def case_prod_beta writer_status_def)
  ultimately show ?thesis by (simp add: appends_def)
qed

lemma appends_init:
  assumes "appends f bs" "unat cap \<le> length d"
  shows "fst (f (wt_writer_init (Some d) cap)) = (if length bs \<le> unat cap then WT_OK else WT_ERR_LIMIT)"
    "length bs \<le> unat cap \<Longrightarrow> writer_out (snd (f (wt_writer_init (Some d) cap))) = bs"
  using writes_init [of "\<lambda>w. snd (f w)" bs cap d] assms by (simp_all add: appends_def writer_status_def)

subsection \<open>Looking ahead\<close>

lemma first_byte_ready: "cursor_ready c \<Longrightarrow> cursor_view c = b # rest \<Longrightarrow> first_byte c = Some b"
proof -
  assume c: "cursor_ready c" and v: "cursor_view c = b # rest"
  then obtain d where d: "cur_data c = Some d" "cursor_inv c" "\<not> cur_failed c"
    by (auto simp: cursor_ready_def)
  have "unat (cur_len c - cur_offset c) = length (cursor_view c)"
    using cursor_remaining_view [of c] d by (simp add: wt_cursor_remaining_def)
  then have "cur_len c - cur_offset c \<noteq> 0" using v by (metis length_0_conv list.distinct(1) unat_0)
  moreover have "drop (unat (cur_offset c)) d ! 0 = b"
    using v d by (simp add: cursor_view_def) (metis d(1) drop_take nth_Cons_0 nth_take take_eq_Nil
        list.distinct(1) not_gr_zero option.simps(5))
  ultimately show ?thesis using d by (simp add: first_byte_def wt_cursor_rest_def)
qed

lemma reads_peek: "reads (f b) (b # bs) x \<Longrightarrow> reads (rbind (rpeek e) f) (b # bs) x"
  by (simp add: reads_def rbind_def rpeek_def first_byte_ready)

lemma rpeek_safe [simp]: "reader_safe (rpeek e)"
  by (simp add: reader_safe_def rpeek_def split: option.splits)

lemma rpeek_shrinks [simp]: "reader_shrinks (rpeek e)"
  by (simp add: reader_shrinks_def rpeek_def split: option.splits)


subsection \<open>The bytes of an integer\<close>

fun tail_bytes :: "nat \<Rightarrow> u8 list" where
  "tail_bytes n = (if n \<ge> 128 then of_nat (n mod 128 + 128) # tail_bytes (n div 128) else [of_nat n])"

declare tail_bytes.simps [simp del]

definition integer_bytes :: "nat \<Rightarrow> u8 \<Rightarrow> u64 \<Rightarrow> u8 list" where
  "integer_bytes prefix_bits flags v =
     (let m = 2 ^ prefix_bits - 1 in
      if unat v < m then [flags OR of_nat (unat v)]
      else (flags OR of_nat m) # tail_bytes (unat v - m))"

definition prefix_ok :: "nat \<Rightarrow> u8 \<Rightarrow> bool" where
  "prefix_ok prefix_bits flags \<longleftrightarrow>
     0 < prefix_bits \<and> prefix_bits \<le> 8 \<and> flags AND (push_bit prefix_bits 1 - 1) = 0"

lemma u64_low7: "(x::u64) AND 0x7F = take_bit 7 x"
  by (simp add: take_bit_eq_mask mask_eq_exp_minus_1)

lemma unat_low7: "unat (ucast (b::u8) AND 0x7F :: u64) = unat b mod 128"
  unfolding u64_low7 unsigned_take_bit_eq unat_ucast_u8_u64 by (simp add: take_bit_eq_mod)

lemma high_bit_clear: "(b::u8) AND 0x80 = 0 \<longleftrightarrow> unat b < 128"
proof -
  have "b AND 0x80 = 0 \<longleftrightarrow> \<not> bit b 7" using and_exp_eq_0_iff_not_bit [of b 7] by simp
  also have "bit b 7 \<longleftrightarrow> odd (unat b div 128)"
    using bit_unsigned_iff [of b 7, where 'a = nat] by (simp add: bit_iff_odd)
  also have "odd (unat b div 128) \<longleftrightarrow> \<not> unat b < 128"
    using unat_u8_less [of b] by (cases "unat b < 128") (simp_all add: le_div_geq not_less)
  finally show ?thesis by simp
qed

lemma continuation_byte: "(ucast ((v::u64) AND 0x7F OR 0x80) :: u8) = of_nat (unat v mod 128 + 128)"
proof -
  have "take_bit 7 v AND 0x80 = 0"
    using and_exp_eq_0_iff_not_bit [of "take_bit 7 v" 7] by (simp add: bit_take_bit_iff)
  then have "take_bit 7 v OR 0x80 = take_bit 7 v + 0x80" by (rule or_eq_add)
  moreover have t: "unat (take_bit 7 v) = unat v mod 128"
    unfolding unsigned_take_bit_eq by (simp add: take_bit_eq_mod)
  moreover have "unat (take_bit 7 v + 0x80) = unat (take_bit 7 v) + unat (0x80::u64)"
    by (rule unat_add_no_wrap) (simp only: t, simp)
  ultimately have "unat (take_bit 7 v OR 0x80) = unat v mod 128 + 128"
    by (simp only:) simp
  moreover have "(ucast x :: u8) = of_nat (unat x)" for x :: u64 by simp
  ultimately show ?thesis by (simp only: u64_low7)
qed

lemma writes_integer_tail: "writes (integer_tail v) (tail_bytes (unat v))"
proof (induction "unat v" arbitrary: v rule: less_induct)
  case less
  show ?case
  proof (cases "v \<ge> 128")
    case True
    then have ge: "unat v \<ge> 128" by (simp add: word_le_nat_alt)
    have d: "unat (drop_bit 7 v) = unat v div 128" by (simp add: unat_shiftr)
    with ge less have "writes (integer_tail (drop_bit 7 v)) (tail_bytes (unat v div 128))"
      by (metis div_less_dividend gr0I one_less_numeral_iff semiring_norm(76) zero_less_numeral not_numeral_le_zero)
    from writes_comp [OF writes_put this, of "[of_nat (unat v mod 128 + 128)]"]
    have "writes (\<lambda>w. integer_tail (drop_bit 7 v) (wt_writer_u8 (ucast ((v AND 0x7F) OR 0x80)) w))
        (tail_bytes (unat v))"
      using ge by (simp add: wt_writer_u8_def continuation_byte tail_bytes.simps [of "unat v"])
    then show ?thesis
      by (rule writes_cong [THEN iffD1, rotated]) (simp add: integer_tail.simps [of v] True)
  next
    case False
    then have "unat v < 128" by (simp add: word_less_nat_alt not_le)
    then have "writes (wt_writer_u8 (ucast v)) (tail_bytes (unat v))"
      by (simp add: wt_writer_u8_def tail_bytes.simps)
    then show ?thesis
      by (rule writes_cong [THEN iffD1, rotated]) (simp add: integer_tail.simps [of v] False)
  qed
qed

lemma cursor_u8_ready:
  assumes "cursor_ready c" "cursor_view c = b # rest"
  shows "wt_cursor_u8 c = (b, cursor_advance c (Suc 0))" "cursor_ready (cursor_advance c (Suc 0))"
    "cursor_view (cursor_advance c (Suc 0)) = rest" "\<not> wt_cursor_failed (cursor_advance c (Suc 0))"
  using assms cursor_take_advance [of c 1] cursor_ready_advance [of c 1]
  by (simp_all add: wt_cursor_u8_def wt_cursor_failed_def cursor_ready_def)

lemma reads_integer_loop:
  "(n = 0 \<Longrightarrow> shift = 0) \<Longrightarrow> unat v + n * 2 ^ shift < 2 ^ 62 \<Longrightarrow>
   reads (integer_loop v shift) (tail_bytes n) (of_nat (unat v + n * 2 ^ shift))"
proof (induction n arbitrary: v shift rule: less_induct)
  case (less n)
  have shift: "shift < 63"
  proof (rule ccontr)
    assume "\<not> shift < 63"
    then have "(2::nat) ^ 63 \<le> 2 ^ shift" "n \<noteq> 0"
      using less.prems(1) power_increasing [of 63 shift "2::nat"] by auto
    then have "2 ^ 63 \<le> n * 2 ^ shift" by (metis dual_order.trans mult_le_mono1 nat_mult_1 One_nat_def Suc_leI gr0I)
    with less.prems(2) show False by simp
  qed
  let ?m = "n mod 128"
  have split: "n * 2 ^ shift = ?m * 2 ^ shift + (n div 128) * 2 ^ (shift + 7)"
  proof -
    have "n * 2 ^ shift = (n div 128 * 128 + ?m) * 2 ^ shift" unfolding div_mult_mod_eq ..
    also have "\<dots> = ?m * 2 ^ shift + (n div 128) * (2 ^ shift * 128)"
      by (simp only: add_mult_distrib add_mult_distrib2 ac_simps)
    finally show ?thesis by (simp add: power_add)
  qed
  have sh: "unat (push_bit shift (of_nat ?m :: u64)) = ?m * 2 ^ shift"
    using less.prems(2) split by (subst unat_shiftl) (simp_all add: unat_of_nat_u64)
  have v': "unat (v + push_bit shift (of_nat ?m)) = unat v + ?m * 2 ^ shift"
    using less.prems(2) split sh by (subst unat_add_no_wrap) simp_all
  then have le: "\<not> v + push_bit shift (of_nat ?m) > WT_QPACK_INTEGER_MAX"
    using less.prems(2) split by (simp add: word_less_nat_alt WT_QUIC_VARINT_MAX_def)
  have low: "ucast b AND 0x7F = (of_nat (unat b mod 128) :: u64)" for b :: u8
    using unat_low7 [of b] by (rule word_of_nat_eqI)
  show ?case
  proof (cases "n < 128")
    case True
    then have b: "unat (of_nat n :: u8) = n" by (simp add: unat_of_nat)
    show ?thesis
      unfolding reads_def
    proof (intro allI impI)
      fix c rest assume "cursor_ready c \<and> cursor_view c = tail_bytes n @ rest"
      then have c: "cursor_ready c" "cursor_view c = of_nat n # rest"
        using True by (simp_all add: tail_bytes.simps)
      from v' True have "v + push_bit shift (of_nat ?m) = of_nat (unat v + n * 2 ^ shift)"
        by (intro word_of_nat_eqI) simp
      with shift le True b show "integer_loop v shift c =
          (Inr (of_nat (unat v + n * 2 ^ shift)), cursor_advance c (length (tail_bytes n)))"
        by (simp add: integer_loop.simps cursor_u8_ready [OF c] low high_bit_clear Let_def tail_bytes.simps
            del: of_nat_add of_nat_mult)
    qed
  next
    case False
    let ?b = "of_nat (?m + 128) :: u8" and ?v = "v + push_bit shift (of_nat ?m) :: u64"
    have b: "unat ?b = ?m + 128" by (simp add: unat_of_nat del: of_nat_add)
    have ih: "reads (integer_loop ?v (shift + 7)) (tail_bytes (n div 128))
        (of_nat (unat ?v + n div 128 * 2 ^ (shift + 7)))"
      using False less.prems(2) split v' by (intro less.IH) auto
    have total: "unat ?v + n div 128 * 2 ^ (shift + 7) = unat v + n * 2 ^ shift"
      using v' split by simp
    have bytes: "tail_bytes n = ?b # tail_bytes (n div 128)" using False by (subst tail_bytes.simps) simp
    show ?thesis
      unfolding reads_def bytes
    proof (intro allI impI)
      fix c rest assume "cursor_ready c \<and> cursor_view c = (?b # tail_bytes (n div 128)) @ rest"
      then have c: "cursor_ready c" "cursor_view c = ?b # (tail_bytes (n div 128) @ rest)" by simp_all
      from readsD [OF ih cursor_u8_ready(2,3) [OF c]]
      show "integer_loop v shift c =
          (Inr (of_nat (unat v + n * 2 ^ shift)), cursor_advance c (length (?b # tail_bytes (n div 128))))"
        unfolding total
        using shift le b
        by (simp add: integer_loop.simps [of v] cursor_u8_ready [OF c] low high_bit_clear Let_def
            cursor_advance_add del: of_nat_add of_nat_mult)
    qed
  qed
qed


text \<open>Flags above the prefix do not disturb the value, and the value does not disturb the flags.\<close>

lemma prefix_mask: "n \<le> 8 \<Longrightarrow> push_bit n 1 - 1 = (mask n :: 'a::len word)"
  by (simp add: mask_eq_exp_minus_1 push_bit_eq_mult)

lemma unat_prefix_mask: "n \<le> 8 \<Longrightarrow> unat (push_bit n 1 - 1 :: u64) = 2 ^ n - 1"
proof -
  assume n: "n \<le> 8"
  then have "(2::nat) ^ n \<le> 2 ^ 8" by (intro power_increasing) auto
  then have "(2::nat) ^ n - 1 < 2 ^ 64" by simp
  moreover have "(push_bit n 1 - 1 :: u64) = of_nat (2 ^ n - 1)"
    by (simp add: push_bit_eq_mult)
  ultimately show ?thesis by (simp only: unat_of_nat_u64)
qed

lemma first_byte_value:
  assumes "prefix_ok n flags" "m < 2 ^ n"
  shows "unat (ucast (flags OR of_nat m) AND (push_bit n 1 - 1) :: u64) = m"
proof -
  have n8: "n \<le> 8" using assms(1) by (simp add: prefix_ok_def)
  have n: "n \<le> 8" "flags AND mask n = 0"
    using assms(1) unfolding prefix_ok_def prefix_mask [OF n8] by blast+
  then have "(2::nat) ^ n \<le> 2 ^ 8" by (intro power_increasing) auto
  with assms(2) have m: "m < 256" by simp
  have "unat (of_nat m :: u8) < 2 ^ n" using assms(2) m by (simp add: unat_of_nat)
  then have "take_bit n (of_nat m :: u8) = of_nat m" by (rule take_bit_word_id)
  moreover have "take_bit n flags = 0" using n(2) by (simp add: take_bit_eq_mask)
  ultimately have "take_bit n (flags OR of_nat m) = of_nat m" by simp
  moreover have "(ucast (flags OR of_nat m) AND (push_bit n 1 - 1) :: u64) = take_bit n (ucast (flags OR of_nat m))"
    unfolding prefix_mask [OF n(1)] by (simp only: take_bit_eq_mask)
  moreover have "unat (take_bit n (ucast (flags OR of_nat m) :: u64)) = unat (take_bit n (flags OR of_nat m))"
    by (simp only: unsigned_take_bit_eq unat_ucast_u8_u64)
  ultimately show ?thesis using m by (simp add: unat_of_nat)
qed

lemma first_byte_flag:
  assumes "prefix_ok n flags" "m < 2 ^ n" "n \<le> i" "i < 8"
  shows "(flags OR of_nat m) AND 2 ^ i = 0 \<longleftrightarrow> flags AND 2 ^ i = 0"
proof -
  have "\<not> bit (of_nat m :: u8) i"
  proof
    assume "bit (of_nat m :: u8) i"
    then have "bit m i" by (simp only: bit_of_nat_iff)
    then have "odd (m div 2 ^ i)" by (simp add: bit_iff_odd)
    moreover have "m < 2 ^ i" by (rule less_le_trans [OF assms(2) power_increasing [OF assms(3)]]) simp
    ultimately show False by simp
  qed
  then show ?thesis by (simp add: and_exp_eq_0_iff_not_bit bit_or_iff)
qed

lemma reads_integer:
  assumes p: "prefix_ok n flags" and v: "v \<le> WT_QPACK_INTEGER_MAX"
  shows "reads (wt_qpack_integer_decode n) (integer_bytes n flags v) v"
proof -
  let ?m = "2 ^ n - 1 :: nat"
  have n: "0 < n" "n \<le> 8" using p by (auto simp: prefix_ok_def)
  have v62: "unat v < 2 ^ 62" using v by (simp add: word_le_nat_alt WT_QUIC_VARINT_MAX_def)
  have mask: "unat (push_bit n 1 - 1 :: u64) = ?m" by (rule unat_prefix_mask [OF n(2)])
  show ?thesis
    unfolding reads_def
  proof (intro allI impI)
    fix c rest assume c: "cursor_ready c \<and> cursor_view c = integer_bytes n flags v @ rest"
    show "wt_qpack_integer_decode n c = (Inr v, cursor_advance c (length (integer_bytes n flags v)))"
    proof (cases "unat v < ?m")
      case True
      then have view: "cursor_ready c" "cursor_view c = (flags OR of_nat (unat v)) # rest"
        using c by (simp_all add: integer_bytes_def Let_def)
      have "unat v < 2 ^ n" using True by simp
      from first_byte_value [OF p this]
      have val: "ucast (flags OR of_nat (unat v)) AND (push_bit n 1 - 1) = v"
        by (simp add: word_unat_eq_iff)
      have "v < push_bit n 1 - 1" using True mask by (simp only: word_less_nat_alt)
      with n True show ?thesis
        unfolding wt_qpack_integer_decode_def cursor_u8_ready(1) [OF view]
        by (simp only: Let_def prod.case val cursor_u8_ready(4) [OF view])
          (simp add: integer_bytes_def Let_def)
    next
      case False
      let ?t = "tail_bytes (unat v - ?m)"
      have view: "cursor_ready c" "cursor_view c = (flags OR of_nat ?m) # (?t @ rest)"
        using c False by (simp_all add: integer_bytes_def Let_def)
      have "?m < 2 ^ n" by simp
      from first_byte_value [OF p this] mask
      have val: "ucast (flags OR of_nat ?m) AND (push_bit n 1 - 1) = (push_bit n 1 - 1 :: u64)"
        by (simp only: word_unat_eq_iff)
      have "reads (integer_loop (push_bit n 1 - 1) 0) ?t (of_nat (unat (push_bit n 1 - 1 :: u64) + (unat v - ?m) * 2 ^ 0))"
        using v62 False by (intro reads_integer_loop) (simp_all only: mask, simp_all)
      then have "reads (integer_loop (push_bit n 1 - 1) 0) ?t v"
        using False by (simp only: mask) simp
      from readsD [OF this cursor_u8_ready(2,3) [OF view]]
      have "integer_loop (push_bit n 1 - 1) 0 (cursor_advance c (Suc 0)) =
          (Inr v, cursor_advance (cursor_advance c (Suc 0)) (length ?t))" .
      with n False show ?thesis
        unfolding wt_qpack_integer_decode_def cursor_u8_ready(1) [OF view]
        by (simp only: Let_def prod.case val cursor_u8_ready(4) [OF view] less_irrefl if_False)
          (simp add: integer_bytes_def Let_def cursor_advance_add)
    qed
  qed
qed

lemma appends_integer:
  assumes p: "prefix_ok n flags" and v: "v \<le> WT_QPACK_INTEGER_MAX"
  shows "appends (wt_qpack_integer_encode n flags v) (integer_bytes n flags v)"
proof -
  let ?m = "push_bit n 1 - 1 :: u64"
  have n: "0 < n" "n \<le> 8" "flags AND (push_bit n 1 - 1) = 0" using p by (auto simp: prefix_ok_def)
  note mask = unat_prefix_mask [OF n(2)]
  have nv: "\<not> v > WT_QPACK_INTEGER_MAX" using v by simp
  have ucast8: "(ucast x :: u8) = of_nat (unat x)" for x :: u64 by simp
  show ?thesis
  proof (cases "v < ?m")
    case True
    then have lt: "unat v < 2 ^ n - 1" using mask by (simp only: word_less_nat_alt)
    show ?thesis
    proof (rule appendsI)
      show "writes (wt_writer_u8 (flags OR ucast v)) (integer_bytes n flags v)"
        using lt by (simp add: integer_bytes_def Let_def wt_writer_u8_def)
      show "wt_qpack_integer_encode n flags v w =
          (writer_status (wt_writer_u8 (flags OR ucast v) w), wt_writer_u8 (flags OR ucast v) w)" for w
        using n nv True by (simp only: wt_qpack_integer_encode_def Let_def) simp
    qed
  next
    case False
    then have ge: "\<not> unat v < 2 ^ n - 1" "unat (v - ?m) = unat v - (2 ^ n - 1)"
      using mask unat_sub_le [of ?m v] by (simp_all only: word_less_nat_alt not_less word_le_nat_alt)
    show ?thesis
    proof (rule appendsI)
      have "writes (\<lambda>w. integer_tail (v - ?m) (wt_writer_put [flags OR of_nat (2 ^ n - 1)] w))
          ([flags OR of_nat (2 ^ n - 1)] @ tail_bytes (unat v - (2 ^ n - 1)))"
        using writes_comp [OF writes_put writes_integer_tail [of "v - ?m"]] unfolding ge(2) .
      then show "writes (\<lambda>w. integer_tail (v - ?m) (wt_writer_u8 (flags OR ucast ?m) w)) (integer_bytes n flags v)"
        using ge(1) unfolding wt_writer_u8_def ucast8 mask by (simp add: integer_bytes_def Let_def)
      show "wt_qpack_integer_encode n flags v w =
          (writer_status (integer_tail (v - ?m) (wt_writer_u8 (flags OR ucast ?m) w)),
           integer_tail (v - ?m) (wt_writer_u8 (flags OR ucast ?m) w))" for w
        using n nv False by (simp only: wt_qpack_integer_encode_def Let_def) simp
    qed
  qed
qed


subsection \<open>Safety and progress of the integer decoder\<close>

lemma cursor_u8_step: "cursor_inv c \<Longrightarrow> wt_cursor_u8 c = (b, c') \<Longrightarrow> cursor_step c c'"
  using cursor_step_take [of c 1] by (auto simp: wt_cursor_u8_def split: prod.splits)

lemma cursor_u8_shrinks:
  assumes "wt_cursor_u8 c = (b, c')"
  shows "wt_cursor_remaining c' \<le> wt_cursor_remaining c"
    "\<not> wt_cursor_failed c' \<Longrightarrow> wt_cursor_remaining c' < wt_cursor_remaining c"
proof -
  have c': "c' = snd (wt_cursor_take c 1)"
    using assms by (auto simp: wt_cursor_u8_def split: prod.splits)
  then show "wt_cursor_remaining c' \<le> wt_cursor_remaining c"
    using cursor_take_shrinks [of c 1] by simp
  assume ok: "\<not> wt_cursor_failed c'"
  have "wt_cursor_remaining c \<noteq> 0"
  proof
    assume "wt_cursor_remaining c = 0"
    with ok show False
      by (auto simp: c' wt_cursor_take_def wt_cursor_remaining_def wt_cursor_failed_def split: if_splits)
  qed
  then show "wt_cursor_remaining c' < wt_cursor_remaining c"
    unfolding c' by (intro cursor_take_shrinks_strict) simp_all
qed

lemma integer_loop_step: "cursor_inv c \<Longrightarrow> cursor_step c (snd (integer_loop v shift c))"
proof (induction v shift c rule: integer_loop.induct)
  case (1 v shift c)
  obtain b c' where u: "wt_cursor_u8 c = (b, c')" by (meson surj_pair)
  have step: "cursor_step c c'" using 1(2) u by (rule cursor_u8_step)
  note ih = 1(1) [OF refl u [symmetric], OF _ _ refl, OF _ _ _ _ cursor_step_inv [OF step]]
  show ?case
    using step ih by (subst integer_loop.simps) (auto simp: u Let_def intro: cursor_step_trans)
qed

lemma integer_loop_shrinks: "wt_cursor_remaining (snd (integer_loop v shift c)) \<le> wt_cursor_remaining c"
proof (induction v shift c rule: integer_loop.induct)
  case (1 v shift c)
  obtain b c' where u: "wt_cursor_u8 c = (b, c')" by (meson surj_pair)
  note ih = 1 [OF refl u [symmetric], OF _ _ refl]
  show ?case
    using cursor_u8_shrinks(1) [OF u] ih
    by (subst integer_loop.simps) (auto simp: u Let_def intro: order_trans)
qed

lemma integer_loop_result:
  "integer_loop v shift c = (r, c') \<Longrightarrow>
   case r of Inl e \<Rightarrow> e = WT_ERR_TRUNCATED \<or> e = WT_ERR_PROTOCOL | Inr x \<Rightarrow> x \<le> WT_QPACK_INTEGER_MAX"
proof (induction v shift c rule: integer_loop.induct)
  case (1 v shift c)
  obtain b c1 where u: "wt_cursor_u8 c = (b, c1)" by (meson surj_pair)
  note ih = 1(1) [OF refl u [symmetric], OF _ _ refl]
  from 1(2) show ?case
    by (subst (asm) integer_loop.simps) (auto simp: u Let_def not_less split: if_splits dest: ih)
qed

lemma integer_decode_cases:
  assumes "wt_qpack_integer_decode n c = (r, c')"
  shows "case r of Inl e \<Rightarrow> e = WT_ERR_TRUNCATED \<or> e = WT_ERR_PROTOCOL \<or> e = WT_ERR_INVALID_ARGUMENT
    | Inr v \<Rightarrow> v \<le> WT_QPACK_INTEGER_MAX \<and> wt_cursor_remaining c' < wt_cursor_remaining c"
proof (cases "n = 0 \<or> n > 8")
  case True
  with assms show ?thesis by (auto simp: wt_qpack_integer_decode_def)
next
  case False
  obtain b c1 where u: "wt_cursor_u8 c = (b, c1)" by (meson surj_pair)
  have small: "x < push_bit n 1 - 1 \<Longrightarrow> x \<le> WT_QPACK_INTEGER_MAX" for x :: u64
  proof -
    assume "x < push_bit n 1 - 1"
    then have "unat x < 2 ^ n - 1" using unat_prefix_mask [of n] False by (simp only: word_less_nat_alt) simp
    moreover have "(2::nat) ^ n \<le> 2 ^ 8" using False by (intro power_increasing) auto
    ultimately show ?thesis by (simp add: word_le_nat_alt WT_QUIC_VARINT_MAX_def)
  qed
  let ?m = "push_bit n 1 - 1 :: u64"
  let ?v = "ucast b AND ?m"
  have run: "wt_qpack_integer_decode n c =
      (if wt_cursor_failed c1 then (Inl WT_ERR_TRUNCATED, c1)
       else if ?v < ?m then (Inr ?v, c1) else integer_loop ?v 0 c1)"
    unfolding wt_qpack_integer_decode_def u Let_def prod.case using False by (simp only: if_False)
  consider "wt_cursor_failed c1" | "\<not> wt_cursor_failed c1" "?v < ?m" | "\<not> wt_cursor_failed c1" "\<not> ?v < ?m"
    by blast
  then show ?thesis
  proof cases
    case 1
    with assms run show ?thesis by auto
  next
    case 2
    with assms run small cursor_u8_shrinks(2) [OF u] show ?thesis by auto
  next
    case 3
    then have loop: "integer_loop ?v 0 c1 = (r, c')" using assms run by (simp only: if_False)
    have "wt_cursor_remaining c' \<le> wt_cursor_remaining c1"
      using integer_loop_shrinks [of ?v 0 c1] unfolding loop by simp
    with integer_loop_result [OF loop] cursor_u8_shrinks(2) [OF u 3(1)] show ?thesis
      by (cases r) auto
  qed
qed

lemma integer_safe [simp]: "reader_safe (wt_qpack_integer_decode n)"
  unfolding reader_safe_def
proof (intro allI impI)
  fix c assume inv: "cursor_inv c"
  obtain b c1 where u: "wt_cursor_u8 c = (b, c1)" by (meson surj_pair)
  have step: "cursor_step c c1" using inv u by (rule cursor_u8_step)
  then show "cursor_step c (snd (wt_qpack_integer_decode n c))"
    using inv cursor_step_trans [OF step integer_loop_step [OF cursor_step_inv [OF step]]]
    by (simp add: wt_qpack_integer_decode_def u Let_def)
qed


lemma integer_shrinks [simp]: "reader_shrinks (wt_qpack_integer_decode n)"
  unfolding reader_shrinks_def
proof
  fix c
  obtain b c1 where u: "wt_cursor_u8 c = (b, c1)" by (meson surj_pair)
  show "wt_cursor_remaining (snd (wt_qpack_integer_decode n c)) \<le> wt_cursor_remaining c"
    using cursor_u8_shrinks(1) [OF u] order_trans [OF integer_loop_shrinks cursor_u8_shrinks(1) [OF u]]
    by (simp add: wt_qpack_integer_decode_def u Let_def)
qed

lemma integer_yields: "yields (wt_qpack_integer_decode n) (\<lambda>v. v \<le> WT_QPACK_INTEGER_MAX)"
  unfolding yields_def using integer_decode_cases by fastforce

lemma integer_fails:
  "fails_with (wt_qpack_integer_decode n)
     (\<lambda>e. e = WT_ERR_TRUNCATED \<or> e = WT_ERR_PROTOCOL \<or> e = WT_ERR_INVALID_ARGUMENT)"
  unfolding fails_with_def using integer_decode_cases by fastforce

lemma integer_progress:
  "wt_qpack_integer_decode n c = (Inr v, c') \<Longrightarrow> wt_cursor_remaining c' < wt_cursor_remaining c"
  using integer_decode_cases [of n c "Inr v" c'] by simp

lemma integer_bytes_first:
  obtains m t where "integer_bytes n flags v = (flags OR of_nat m) # t" "m < 2 ^ n"
proof (cases "unat v < 2 ^ n - 1")
  case True
  with that [of "unat v" "[]"] show thesis by (simp add: integer_bytes_def Let_def)
next
  case False
  with that [of "2 ^ n - 1" "tail_bytes (unat v - (2 ^ n - 1))"] show thesis
    by (simp add: integer_bytes_def Let_def)
qed

text \<open>A reader that branches on a flag above the prefix of the integer it then reads.\<close>

lemma reads_peek_integer:
  assumes "prefix_ok n flags"
    and "\<And>m. m < 2 ^ n \<Longrightarrow> reads (f (flags OR of_nat m)) (integer_bytes n flags v @ bs) x"
  shows "reads (rbind (rpeek e) f) (integer_bytes n flags v @ bs) x"
proof -
  obtain m t where mt: "integer_bytes n flags v = (flags OR of_nat m) # t" "m < 2 ^ n"
    by (rule integer_bytes_first)
  from assms(2) [OF mt(2)] show ?thesis unfolding mt(1) append_Cons by (rule reads_peek)
qed

subsection \<open>The bytes of a string\<close>

definition huffman_coded :: "u8 list \<Rightarrow> u8 list" where
  "huffman_coded bytes =
     (case wt_qpack_huffman_encode bytes (of_nat (huffman_size bytes)) of Inl _ \<Rightarrow> [] | Inr coded \<Rightarrow> coded)"

definition string_wire :: "bool \<Rightarrow> u8 list \<Rightarrow> u8 list" where
  "string_wire huffman bytes = (if huffman then huffman_coded bytes else bytes)"

definition wire_bytes :: "bool \<Rightarrow> u8 list \<Rightarrow> u8 list" where
  "wire_bytes huffman wire =
     integer_bytes 7 (if huffman then 0x80 else 0) (of_nat (length wire)) @ wire"

definition string_ok :: "bool \<Rightarrow> u8 list \<Rightarrow> bool" where
  "string_ok huffman bytes \<longleftrightarrow>
     length bytes < 2 ^ 62 \<and> (huffman \<longrightarrow> length (huffman_string bytes) < 2 ^ 64 - 7)"

lemma prefix_ok_string: "prefix_ok 7 (if huffman then 0x80 else 0)"
  by (simp add: prefix_ok_def)

lemma of_nat_integer: "n < 2 ^ 62 \<Longrightarrow> (of_nat n :: u64) \<le> WT_QPACK_INTEGER_MAX"
  by (simp add: word_le_nat_alt WT_QUIC_VARINT_MAX_def unat_of_nat_u64)

lemma huffman_coded_encode:
  assumes "huffman_size bytes \<le> unat capacity"
  shows "wt_qpack_huffman_encode bytes capacity = Inr (huffman_coded bytes)"
    "length (huffman_coded bytes) = huffman_size bytes"
proof -
  have u: "unat (of_nat (huffman_size bytes) :: u64) = huffman_size bytes"
    using assms unat_u64_less [of capacity] by (intro unat_of_nat_u64) simp
  from wt_qpack_huffman_encode_exact [of bytes capacity] assms obtain coded where
    c: "wt_qpack_huffman_encode bytes capacity = Inr coded" "length coded = huffman_size bytes"
      "bits_of coded = huffman_string bytes @ replicate (8 * huffman_size bytes - length (huffman_string bytes)) True"
    by auto
  from wt_qpack_huffman_encode_exact [of bytes "of_nat (huffman_size bytes)"] u obtain coded' where
    c': "wt_qpack_huffman_encode bytes (of_nat (huffman_size bytes)) = Inr coded'"
      "length coded' = huffman_size bytes"
      "bits_of coded' = huffman_string bytes @ replicate (8 * huffman_size bytes - length (huffman_string bytes)) True"
    by auto
  have "coded = coded'" using c c' bits_of_inject [of coded coded'] by simp
  with c c' show "wt_qpack_huffman_encode bytes capacity = Inr (huffman_coded bytes)"
    "length (huffman_coded bytes) = huffman_size bytes"
    by (simp_all add: huffman_coded_def)
qed

lemma string_ok_size:
  "string_ok True bytes \<Longrightarrow> huffman_size bytes < 2 ^ 62 \<and>
   wt_qpack_huffman_encoded_size bytes = Inr (of_nat (huffman_size bytes)) \<and>
   unat (of_nat (huffman_size bytes) :: u64) = huffman_size bytes"
proof -
  assume ok: "string_ok True bytes"
  then have lt: "length (huffman_string bytes) < 2 ^ 64 - 7" by (simp add: string_ok_def)
  then have "huffman_size bytes < 2 ^ 62" by (simp add: huffman_size_def div_less_iff_less_mult)
  then show ?thesis
    using wt_qpack_huffman_encoded_size_exact [OF lt] by (simp add: unat_of_nat_u64)
qed

lemma string_wire_length: "string_ok huffman bytes \<Longrightarrow> length (string_wire huffman bytes) < 2 ^ 62"
  using string_ok_size [of bytes] huffman_coded_encode(2) [of bytes "of_nat (huffman_size bytes)"]
  by (cases huffman) (simp_all add: string_wire_def string_ok_def)

lemma reads_string:
  assumes "length wire < 2 ^ 62"
  shows "reads wt_qpack_string_decode (wire_bytes huffman wire) (wire, huffman)"
  unfolding wt_qpack_string_decode_def wire_bytes_def
proof (rule reads_peek_integer [OF prefix_ok_string])
  fix m :: nat assume "m < 2 ^ 7"
  let ?b = "(if huffman then 0x80 else 0) OR of_nat m :: u8" and ?n = "of_nat (length wire) :: u64"
  have flag: "?b AND 0x80 \<noteq> 0 \<longleftrightarrow> huffman"
    using first_byte_flag [OF prefix_ok_string [of huffman] \<open>m < 2 ^ 7\<close>, of 7] by simp
  show "reads (rbind (wt_qpack_integer_decode 7) (\<lambda>len. if len > - 1 then rfail WT_ERR_LIMIT
      else rbind (view_or WT_ERR_TRUNCATED len) (\<lambda>bytes. rreturn (bytes, ?b AND 0x80 \<noteq> 0))))
    (integer_bytes 7 (if huffman then 0x80 else 0) ?n @ wire) (wire, huffman)"
  proof (rule reads_bind)
    show "reads (wt_qpack_integer_decode 7) (integer_bytes 7 (if huffman then 0x80 else 0) ?n) ?n"
      using prefix_ok_string of_nat_integer [OF assms] by (rule reads_integer)
    have "\<not> ?n > - 1" by (simp add: not_less)
    moreover have "reads (rbind (view_or WT_ERR_TRUNCATED ?n) (\<lambda>bytes. rreturn (bytes, huffman))) wire (wire, huffman)"
      using assms by (intro reads_bind_end [OF reads_view_or]) simp_all
    ultimately show "reads (if ?n > - 1 then rfail WT_ERR_LIMIT
      else rbind (view_or WT_ERR_TRUNCATED ?n) (\<lambda>bytes. rreturn (bytes, ?b AND 0x80 \<noteq> 0))) wire (wire, huffman)"
      by (simp only: if_False flag)
  qed
qed

lemma wire_string_ok:
  assumes "string_ok huffman bytes" "huffman \<Longrightarrow> huffman_size bytes \<le> unat capacity"
  shows "wire_string bytes huffman capacity = Inr (string_wire huffman bytes)"
  using assms string_ok_size [of bytes] huffman_coded_encode(1) [of bytes capacity]
  by (cases huffman) (simp_all add: wire_string_def string_wire_def word_less_nat_alt)

lemma appends_string:
  assumes "string_ok huffman bytes" "huffman \<Longrightarrow> huffman_size bytes \<le> unat capacity"
  shows "appends (wt_qpack_string_encode_coded bytes huffman capacity)
    (wire_bytes huffman (string_wire huffman bytes))"
proof -
  have "\<not> length bytes > unat WT_QPACK_INTEGER_MAX"
    using assms(1) by (simp add: string_ok_def WT_QUIC_VARINT_MAX_def)
  with wire_string_ok [OF assms] have "wt_qpack_string_encode_coded bytes huffman capacity =
      wseq (wt_qpack_integer_encode 7 (if huffman then 0x80 else 0) (of_nat (length (string_wire huffman bytes))))
        (put_bytes (string_wire huffman bytes))"
    by (intro ext) (simp add: wt_qpack_string_encode_coded_def)
  moreover have "appends (wt_qpack_integer_encode 7 (if huffman then 0x80 else 0) (of_nat (length (string_wire huffman bytes))))
      (integer_bytes 7 (if huffman then 0x80 else 0) (of_nat (length (string_wire huffman bytes))))"
    using prefix_ok_string of_nat_integer [OF string_wire_length [OF assms(1)]] by (rule appends_integer)
  ultimately show ?thesis
    unfolding wire_bytes_def using appends_wseq appends_put_bytes by metis
qed

lemma string_safe [simp]: "reader_safe wt_qpack_string_decode"
  unfolding wt_qpack_string_decode_def by (intro reader_safe_bind reader_safe_if) simp_all

subsection \<open>Properties of the primitives\<close>

text \<open>Prefixed integers survive the wire. For every prefix width from one to eight bits, every flag
  pattern above the prefix and every value of at most 62 bits, what the encoder wrote into a buffer
  is read back as that value, whatever follows it.\<close>

lemma wt_qpack_integer_round_trip:
  assumes "0 < n" "n \<le> 8" "flags AND (push_bit n 1 - 1) = 0" "v \<le> WT_QUIC_VARINT_MAX"
    and "unat cap \<le> length d"
    and "wt_qpack_integer_encode n flags v (wt_writer_init (Some d) cap) = (WT_OK, w)"
    and "length (writer_out w @ rest) < 2 ^ 64"
  shows "fst (wt_qpack_integer_decode n (cursor_of (writer_out w @ rest))) = Inr v"
proof -
  have p: "prefix_ok n flags" using assms(1-3) by (simp add: prefix_ok_def)
  note enc = appends_init [OF appends_integer [OF p assms(4)] assms(5)]
  have "writer_out w = integer_bytes n flags v"
    using enc assms(6) by (auto split: if_splits)
  with reads_of [OF reads_integer [OF p assms(4)], of rest] assms(7) show ?thesis by simp
qed

end
