(* ===== verification/Qpack_Table.thy ===== *)
theory Qpack_Table
  imports Http3_Headers Qpack_Primitives
begin

text \<open>
  The two tables of QPACK: the static one (\<open>C99/src/http3/qpack.c\<close> and \<open>qpack_static_table.h\<close>) and
  the dynamic one (\<open>qpack_dynamic.c\<close>), a fixed array of entry descriptors over a fixed byte arena that
  is compacted at every eviction. Pointers into the arena are values of their own (\<open>VIEW_ARENA\<close>), so
  that an insertion whose name or value is a view of the table it changes reads what the code reads.

  The dynamic table is refined against a list: \<open>dyn_rel t es\<close> says that \<open>t\<close> stores the entries \<open>es\<close>,
  oldest first, in consecutive arena bytes with the right descriptors, sizes and absolute indices.
  Every operation is shown to be the obvious operation on that list, and the interface \<open>indexed_log\<close>
  draws the consequence its clients need: an absolute index never changes its meaning.
\<close>

subsection \<open>The static table (qpack_static_table.h)\<close>

abbreviation quoted :: "string \<Rightarrow> string" where
  "quoted s \<equiv> CHR 0x27 # s @ [CHR 0x27]"

definition WT_RFC9204_STATIC_TABLE :: "(string \<times> string) list" where
  "WT_RFC9204_STATIC_TABLE =
    [
     ('':authority'', ''''), ('':path'', ''/''), (''age'', ''0''), (''content-disposition'', ''''),
     (''content-length'', ''0''), (''cookie'', ''''), (''date'', ''''), (''etag'', ''''),
     (''if-modified-since'', ''''), (''if-none-match'', ''''), (''last-modified'', ''''),
     (''link'', ''''), (''location'', ''''), (''referer'', ''''), (''set-cookie'', ''''),
     ('':method'', ''CONNECT''), ('':method'', ''DELETE''), ('':method'', ''GET''),
     ('':method'', ''HEAD''), ('':method'', ''OPTIONS''), ('':method'', ''POST''),
     ('':method'', ''PUT''), ('':scheme'', ''http''), ('':scheme'', ''https''), ('':status'', ''103''),
     ('':status'', ''200''), ('':status'', ''304''), ('':status'', ''404''), ('':status'', ''503''),
     (''accept'', ''*/*''), (''accept'', ''application/dns-message''),
     (''accept-encoding'', ''gzip, deflate, br''), (''accept-ranges'', ''bytes''),
     (''access-control-allow-headers'', ''cache-control''),
     (''access-control-allow-headers'', ''content-type''), (''access-control-allow-origin'', ''*''),
     (''cache-control'', ''max-age=0''), (''cache-control'', ''max-age=2592000''),
     (''cache-control'', ''max-age=604800''), (''cache-control'', ''no-cache''),
     (''cache-control'', ''no-store''), (''cache-control'', ''public, max-age=31536000''),
     (''content-encoding'', ''br''), (''content-encoding'', ''gzip''),
     (''content-type'', ''application/dns-message''), (''content-type'', ''application/javascript''),
     (''content-type'', ''application/json''),
     (''content-type'', ''application/x-www-form-urlencoded''), (''content-type'', ''image/gif''),
     (''content-type'', ''image/jpeg''), (''content-type'', ''image/png''),
     (''content-type'', ''text/css''), (''content-type'', ''text/html; charset=utf-8''),
     (''content-type'', ''text/plain''), (''content-type'', ''text/plain;charset=utf-8''),
     (''range'', ''bytes=0-''), (''strict-transport-security'', ''max-age=31536000''),
     (''strict-transport-security'', ''max-age=31536000; includesubdomains''),
     (''strict-transport-security'', ''max-age=31536000; includesubdomains; preload''),
     (''vary'', ''accept-encoding''), (''vary'', ''origin''),
     (''x-content-type-options'', ''nosniff''), (''x-xss-protection'', ''1; mode=block''),
     ('':status'', ''100''), ('':status'', ''204''), ('':status'', ''206''), ('':status'', ''302''),
     ('':status'', ''400''), ('':status'', ''403''), ('':status'', ''421''), ('':status'', ''425''),
     ('':status'', ''500''), (''accept-language'', ''''),
     (''access-control-allow-credentials'', ''FALSE''),
     (''access-control-allow-credentials'', ''TRUE''), (''access-control-allow-headers'', ''*''),
     (''access-control-allow-methods'', ''get''),
     (''access-control-allow-methods'', ''get, post, options''),
     (''access-control-allow-methods'', ''options''),
     (''access-control-expose-headers'', ''content-length''),
     (''access-control-request-headers'', ''content-type''),
     (''access-control-request-method'', ''get''), (''access-control-request-method'', ''post''),
     (''alt-svc'', ''clear''), (''authorization'', ''''),
     (''content-security-policy'', ''script-src '' @ quoted ''none'' @ ''; object-src '' @ quoted ''none'' @ ''; base-uri '' @ quoted ''none''),
     (''early-data'', ''1''), (''expect-ct'', ''''), (''forwarded'', ''''), (''if-range'', ''''),
     (''origin'', ''''), (''purpose'', ''prefetch''), (''server'', ''''),
     (''timing-allow-origin'', ''*''), (''upgrade-insecure-requests'', ''1''), (''user-agent'', ''''),
     (''x-forwarded-for'', ''''), (''x-frame-options'', ''deny''),
     (''x-frame-options'', ''sameorigin'')]"

definition WT_QPACK_STATIC_TABLE_SIZE :: nat where
  "WT_QPACK_STATIC_TABLE_SIZE = 99"

subsection \<open>Lookups in the static table (qpack.c)\<close>

record wt_qpack_static_entry_t =
  se_name :: "u8 list"
  se_value :: "u8 list"

definition static_view :: "nat \<Rightarrow> wt_qpack_static_entry_t" where
  "static_view index =
     \<lparr>se_name = ascii (fst (WT_RFC9204_STATIC_TABLE ! index)),
      se_value = ascii (snd (WT_RFC9204_STATIC_TABLE ! index))\<rparr>"

definition wt_qpack_static_entry :: "u64 \<Rightarrow> wt_qpack_static_entry_t wt_result" where
  "wt_qpack_static_entry index =
     (if unat index \<ge> WT_QPACK_STATIC_TABLE_SIZE then Inl WT_ERR_LIMIT else Inr (static_view (unat index)))"

text \<open>\<open>for (i = 0; i < WT_QPACK_STATIC_TABLE_SIZE; i++)\<close> with the comparison of its caller.\<close>

function static_loop :: "(wt_qpack_static_entry_t \<Rightarrow> bool) \<Rightarrow> nat \<Rightarrow> u64 wt_result" where
  "static_loop found i =
     (if i < WT_QPACK_STATIC_TABLE_SIZE then
        if found (static_view i) then Inr (of_nat i) else static_loop found (Suc i)
      else Inl WT_ERR_CLOSED)"
  by auto

termination static_loop
  by (relation "measure (\<lambda>(found, i). WT_QPACK_STATIC_TABLE_SIZE - i)") auto

declare static_loop.simps [simp del]

definition wt_qpack_static_find :: "u8 list \<Rightarrow> u8 list \<Rightarrow> u64 wt_result" where
  "wt_qpack_static_find name val =
     static_loop (\<lambda>entry. se_name entry = name \<and> se_value entry = val) 0"

definition wt_qpack_static_find_name :: "u8 list \<Rightarrow> u64 wt_result" where
  "wt_qpack_static_find_name name = static_loop (\<lambda>entry. se_name entry = name) 0"

subsection \<open>The dynamic table (qpack_dynamic.c)\<close>

definition WT_QPACK_DYNAMIC_MAX_ENTRIES :: nat where
  "WT_QPACK_DYNAMIC_MAX_ENTRIES = 32"

definition WT_QPACK_DYNAMIC_MAX_BYTES :: nat where
  "WT_QPACK_DYNAMIC_MAX_BYTES = 4096"

definition WT_QPACK_DYNAMIC_ENTRY_OVERHEAD :: u64 where
  "WT_QPACK_DYNAMIC_ENTRY_OVERHEAD = 32"

record wt_qpack_dynamic_entry_meta =
  dm_absolute_index :: u64
  dm_offset :: u32
  dm_name_length :: u16
  dm_value_length :: u16

record wt_qpack_dynamic_table =
  dt_entries :: "wt_qpack_dynamic_entry_meta list"
  dt_bytes :: "u8 list"
  dt_used :: u64
  dt_count :: u64
  dt_size :: u64
  dt_capacity :: u64
  dt_insert_count :: u64
  dt_dropped :: u64

text \<open>A pointer and a length a caller hands in: bytes of its own, or a range of the table's arena.\<close>

datatype byte_view = VIEW_BYTES "u8 list" | VIEW_ARENA nat nat

fun view_length :: "byte_view \<Rightarrow> nat" where
  "view_length (VIEW_BYTES bs) = length bs"
| "view_length (VIEW_ARENA off len) = len"

fun view_read :: "wt_qpack_dynamic_table \<Rightarrow> byte_view \<Rightarrow> u8 list" where
  "view_read t (VIEW_BYTES bs) = bs"
| "view_read t (VIEW_ARENA off len) = take len (drop off (dt_bytes t))"

definition zero_meta :: wt_qpack_dynamic_entry_meta where
  "zero_meta = \<lparr>dm_absolute_index = 0, dm_offset = 0, dm_name_length = 0, dm_value_length = 0\<rparr>"

definition wt_qpack_dynamic_init :: "u64 \<Rightarrow> wt_qpack_dynamic_table" where
  "wt_qpack_dynamic_init capacity =
     \<lparr>dt_entries = replicate WT_QPACK_DYNAMIC_MAX_ENTRIES zero_meta,
      dt_bytes = replicate WT_QPACK_DYNAMIC_MAX_BYTES 0,
      dt_used = 0, dt_count = 0, dt_size = 0, dt_capacity = capacity, dt_insert_count = 0, dt_dropped = 0\<rparr>"

definition meta_bytes :: "wt_qpack_dynamic_entry_meta \<Rightarrow> u64" where
  "meta_bytes m = ucast (dm_name_length m) + ucast (dm_value_length m)"

text \<open>The two \<open>memmove\<close>s and the loop that moves the offsets of the surviving entries.\<close>

definition drop_oldest :: "wt_qpack_dynamic_table \<Rightarrow> wt_qpack_dynamic_table" where
  "drop_oldest t =
     (if dt_count t = 0 then t
      else
        let gone = meta_bytes (dt_entries t ! 0);
            entry_size = gone + WT_QPACK_DYNAMIC_ENTRY_OVERHEAD;
            survivors = take (unat (dt_count t - 1)) (drop 1 (dt_entries t))
        in t\<lparr>dt_size := dt_size t - entry_size,
             dt_bytes := overwrite 0 (take (unat (dt_used t - gone)) (drop (unat gone) (dt_bytes t))) (dt_bytes t),
             dt_used := dt_used t - gone,
             dt_entries := overwrite 0 (map (\<lambda>m. m\<lparr>dm_offset := dm_offset m - ucast gone\<rparr>) survivors)
               (dt_entries t),
             dt_count := dt_count t - 1,
             dt_dropped := dt_dropped t + 1\<rparr>)"

text \<open>\<open>while (count != 0 && size + entry_size > capacity)\<close>; the entry size is 0 when the capacity changes.\<close>

function evict_for :: "u64 \<Rightarrow> wt_qpack_dynamic_table \<Rightarrow> wt_qpack_dynamic_table" where
  "evict_for entry_size t =
     (if dt_count t \<noteq> 0 \<and> dt_size t + entry_size > dt_capacity t
      then evict_for entry_size (drop_oldest t) else t)"
  by auto

termination evict_for
proof (relation "measure (\<lambda>(entry_size, t). unat (dt_count t))", goal_cases)
  case (2 entry_size t)
  then have "unat (dt_count t - 1) < unat (dt_count t)"
    using unat_gt_0 [of "dt_count t"] by (subst unat_sub_le) (auto simp: word_le_nat_alt)
  with 2 show ?case by (simp add: drop_oldest_def Let_def)
qed simp

declare evict_for.simps [simp del]

definition wt_qpack_dynamic_set_capacity ::
  "wt_qpack_dynamic_table \<Rightarrow> u64 \<Rightarrow> wt_qpack_dynamic_table" where
  "wt_qpack_dynamic_set_capacity t capacity = evict_for 0 (t\<lparr>dt_capacity := capacity\<rparr>)"

definition aliases_arena :: "byte_view \<Rightarrow> bool" where
  "aliases_arena v = (case v of VIEW_BYTES _ \<Rightarrow> False | VIEW_ARENA _ len \<Rightarrow> len \<noteq> 0)"

text \<open>The copy at the end of an insertion: the bytes, the descriptor and the counters.\<close>

definition store_entry ::
  "wt_qpack_dynamic_table \<Rightarrow> u8 list \<Rightarrow> u8 list \<Rightarrow> u64 \<Rightarrow> wt_qpack_dynamic_table" where
  "store_entry t name val entry_size =
     t\<lparr>dt_bytes := overwrite (unat (dt_used t) + length name) val
         (overwrite (unat (dt_used t)) name (dt_bytes t)),
       dt_entries := (dt_entries t)[unat (dt_count t) :=
         \<lparr>dm_absolute_index = dt_insert_count t, dm_offset = ucast (dt_used t),
          dm_name_length = of_nat (length name), dm_value_length = of_nat (length val)\<rparr>],
       dt_count := dt_count t + 1,
       dt_used := dt_used t + of_nat (length name + length val),
       dt_size := dt_size t + entry_size,
       dt_insert_count := dt_insert_count t + 1\<rparr>"

definition wt_qpack_dynamic_insert ::
  "wt_qpack_dynamic_table \<Rightarrow> byte_view \<Rightarrow> byte_view \<Rightarrow> u64 wt_result \<times> wt_qpack_dynamic_table" where
  "wt_qpack_dynamic_insert t name val =
     (let nl = of_nat (view_length name) :: u64; vl = of_nat (view_length val) :: u64 in
      if nl > 0xFFFF \<or> vl > 0xFFFF then (Inl WT_ERR_LIMIT, t)
      else if nl > (- 1) - vl - WT_QPACK_DYNAMIC_ENTRY_OVERHEAD then (Inl WT_ERR_OVERFLOW, t)
      else
        let entry_size = nl + vl + WT_QPACK_DYNAMIC_ENTRY_OVERHEAD in
        if entry_size > dt_capacity t then (Inl WT_ERR_LIMIT, t)
        else if unat (dt_count t) \<ge> WT_QPACK_DYNAMIC_MAX_ENTRIES then (Inl WT_ERR_LIMIT, t)
        else if unat (nl + vl) > WT_QPACK_DYNAMIC_MAX_BYTES then (Inl WT_ERR_LIMIT, t)
        else
          let (name, val) =
                (if aliases_arena name \<or> aliases_arena val
                 then (VIEW_BYTES (view_read t name), VIEW_BYTES (view_read t val)) else (name, val));
              t' = evict_for entry_size t
          in if unat (dt_used t' + nl + vl) > WT_QPACK_DYNAMIC_MAX_BYTES then (Inl WT_ERR_LIMIT, t')
             else (Inr (dt_insert_count t'), store_entry t' (view_read t' name) (view_read t' val) entry_size))"

text \<open>The name and the value as views of the arena.\<close>

definition wt_qpack_dynamic_entry ::
  "wt_qpack_dynamic_table \<Rightarrow> u64 \<Rightarrow> (byte_view \<times> byte_view) wt_result" where
  "wt_qpack_dynamic_entry t absolute_index =
     (if absolute_index < dt_dropped t \<or> absolute_index \<ge> dt_insert_count t then Inl WT_ERR_CLOSED
      else
        let m = dt_entries t ! unat (absolute_index - dt_dropped t);
            off = unat (dm_offset m); nl = unat (dm_name_length m); vl = unat (dm_value_length m)
        in Inr (VIEW_ARENA off nl, VIEW_ARENA (off + nl) vl))"


subsection \<open>The static table as a list\<close>

lemma length_static_table [simp]: "length WT_RFC9204_STATIC_TABLE = WT_QPACK_STATIC_TABLE_SIZE"
  by (simp add: WT_RFC9204_STATIC_TABLE_def WT_QPACK_STATIC_TABLE_SIZE_def)

lemma static_loop_spec:
  "case static_loop found i of
     Inr k \<Rightarrow> i \<le> unat k \<and> unat k < WT_QPACK_STATIC_TABLE_SIZE \<and> found (static_view (unat k)) \<and>
       (\<forall>j. i \<le> j \<and> j < unat k \<longrightarrow> \<not> found (static_view j))
   | Inl e \<Rightarrow> e = WT_ERR_CLOSED \<and> (\<forall>j. i \<le> j \<and> j < WT_QPACK_STATIC_TABLE_SIZE \<longrightarrow> \<not> found (static_view j))"
proof (induction found i rule: static_loop.induct)
  case (1 found i)
  show ?case
  proof (cases "i < WT_QPACK_STATIC_TABLE_SIZE \<and> \<not> found (static_view i)")
    case True
    then have run: "static_loop found i = static_loop found (Suc i)" by (subst static_loop.simps) simp
    have le: "j = i \<or> Suc i \<le> j" if "i \<le> j" for j using that by auto
    show ?thesis
    proof (cases "static_loop found (Suc i)")
      case (Inl e)
      with 1 True le show ?thesis unfolding run by (simp only: sum.case) blast
    next
      case (Inr k)
      with 1 True have "Suc i \<le> unat k" "unat k < WT_QPACK_STATIC_TABLE_SIZE" "found (static_view (unat k))"
        "\<forall>j. Suc i \<le> j \<and> j < unat k \<longrightarrow> \<not> found (static_view j)" by simp_all
      with Inr True le show ?thesis unfolding run by (simp only: sum.case) (metis Suc_leD)
    qed
  next
    case False
    then show ?thesis
      by (subst static_loop.simps)
        (auto simp: unat_of_nat_u64 WT_QPACK_STATIC_TABLE_SIZE_def)
  qed
qed

text \<open>What the finders return is an entry the table has, and what they deny it has not.\<close>

lemma static_find_entry:
  "wt_qpack_static_find name val = Inr i \<Longrightarrow>
   wt_qpack_static_entry i = Inr \<lparr>se_name = name, se_value = val\<rparr>"
  using static_loop_spec [of 0 "\<lambda>entry. se_name entry = name \<and> se_value entry = val"]
  by (auto simp: wt_qpack_static_find_def wt_qpack_static_entry_def split: sum.splits)

lemma static_find_name_entry:
  "wt_qpack_static_find_name name = Inr i \<Longrightarrow>
   \<exists>entry. wt_qpack_static_entry i = Inr entry \<and> se_name entry = name"
  using static_loop_spec [of 0 "\<lambda>entry. se_name entry = name"]
  by (auto simp: wt_qpack_static_find_name_def wt_qpack_static_entry_def split: sum.splits)

lemma static_find_closed:
  "wt_qpack_static_find name val = Inl e \<longleftrightarrow>
   e = WT_ERR_CLOSED \<and> (\<forall>i. wt_qpack_static_entry i \<noteq> Inr \<lparr>se_name = name, se_value = val\<rparr>)"
proof
  assume "wt_qpack_static_find name val = Inl e"
  with static_loop_spec [of 0 "\<lambda>entry. se_name entry = name \<and> se_value entry = val"]
  show "e = WT_ERR_CLOSED \<and> (\<forall>i. wt_qpack_static_entry i \<noteq> Inr \<lparr>se_name = name, se_value = val\<rparr>)"
    by (fastforce simp: wt_qpack_static_find_def wt_qpack_static_entry_def not_le split: if_splits)
next
  assume r: "e = WT_ERR_CLOSED \<and> (\<forall>i. wt_qpack_static_entry i \<noteq> Inr \<lparr>se_name = name, se_value = val\<rparr>)"
  then obtain e' where "wt_qpack_static_find name val = Inl e'"
    using static_find_entry by (cases "wt_qpack_static_find name val") auto
  with r static_loop_spec [of 0 "\<lambda>entry. se_name entry = name \<and> se_value entry = val"]
  show "wt_qpack_static_find name val = Inl e"
    by (auto simp: wt_qpack_static_find_def)
qed

subsection \<open>The dynamic table as a list of entries\<close>

type_synonym field = "u8 list \<times> u8 list"

definition entry_bytes :: "field \<Rightarrow> u8 list" where
  "entry_bytes f = fst f @ snd f"

definition flat :: "field list \<Rightarrow> u8 list" where
  "flat es = concat (map entry_bytes es)"

definition field_size :: "field \<Rightarrow> nat" where
  "field_size f = length (fst f) + length (snd f) + 32"

definition fields_size :: "field list \<Rightarrow> nat" where
  "fields_size es = sum_list (map field_size es)"

text \<open>The descriptors of consecutive entries, from an absolute index and an arena offset on.\<close>

fun describes :: "nat \<Rightarrow> nat \<Rightarrow> field list \<Rightarrow> wt_qpack_dynamic_entry_meta list \<Rightarrow> bool" where
  "describes index off [] ms \<longleftrightarrow> ms = []"
| "describes index off (f # es) ms \<longleftrightarrow>
     (case ms of [] \<Rightarrow> False
      | m # ms' \<Rightarrow>
          unat (dm_absolute_index m) = index \<and> unat (dm_offset m) = off \<and>
          unat (dm_name_length m) = length (fst f) \<and> unat (dm_value_length m) = length (snd f) \<and>
          describes (Suc index) (off + length (entry_bytes f)) es ms')"

definition dyn_rep :: "wt_qpack_dynamic_table \<Rightarrow> field list \<Rightarrow> bool" where
  "dyn_rep t es \<longleftrightarrow>
     length (dt_entries t) = WT_QPACK_DYNAMIC_MAX_ENTRIES \<and> length (dt_bytes t) = WT_QPACK_DYNAMIC_MAX_BYTES \<and>
     unat (dt_count t) = length es \<and> length es \<le> WT_QPACK_DYNAMIC_MAX_ENTRIES \<and>
     describes (unat (dt_dropped t)) 0 es (take (length es) (dt_entries t)) \<and>
     length (flat es) \<le> WT_QPACK_DYNAMIC_MAX_BYTES \<and> take (length (flat es)) (dt_bytes t) = flat es \<and>
     unat (dt_used t) = length (flat es) \<and> unat (dt_size t) = fields_size es \<and>
     unat (dt_insert_count t) = unat (dt_dropped t) + length es"

definition dyn_rel :: "wt_qpack_dynamic_table \<Rightarrow> field list \<Rightarrow> bool" where
  "dyn_rel t es \<longleftrightarrow> dyn_rep t es \<and> fields_size es \<le> unat (dt_capacity t)"

text \<open>Eviction on the list: the oldest entries go until the rest fits.\<close>

fun evict :: "nat \<Rightarrow> field list \<Rightarrow> field list" where
  "evict room [] = []"
| "evict room (f # es) = (if fields_size (f # es) > room then evict room es else f # es)"

lemma flat_simps [simp]:
  "flat [] = []" "flat (f # es) = entry_bytes f @ flat es" "flat (es @ fs) = flat es @ flat fs"
  by (simp_all add: flat_def)

lemma fields_size_simps [simp]:
  "fields_size [] = 0" "fields_size (f # es) = field_size f + fields_size es"
  "fields_size (es @ fs) = fields_size es + fields_size fs"
  by (simp_all add: fields_size_def)

lemma length_entry_bytes: "length (entry_bytes f) + 32 = field_size f"
  by (simp add: entry_bytes_def field_size_def)

lemma length_flat_le: "length (flat es) + 32 * length es = fields_size es"
  by (induction es) (simp_all add: length_entry_bytes [symmetric])

lemma evict_suffix: "\<exists>k. evict room es = drop k es"
proof (induction es)
  case (Cons f es)
  then obtain k where "evict room es = drop k es" by blast
  then have "evict room (f # es) = drop (if fields_size (f # es) > room then Suc k else 0) (f # es)" by simp
  then show ?case by blast
qed simp

lemma evict_fits: "fields_size (evict room es) \<le> room"
  by (induction es) auto

lemma describes_append:
  "describes i off (es @ fs) ms \<longleftrightarrow>
   length es \<le> length ms \<and> describes i off es (take (length es) ms) \<and>
   describes (i + length es) (off + length (flat es)) fs (drop (length es) ms)"
proof (induction es arbitrary: i off ms)
  case (Cons f es)
  then show ?case by (cases ms) (auto simp: add.assoc)
qed simp

lemma describes_nth:
  "describes i off es ms \<Longrightarrow> k < length es \<Longrightarrow>
   unat (dm_absolute_index (ms ! k)) = i + k \<and> unat (dm_offset (ms ! k)) = off + length (flat (take k es)) \<and>
   unat (dm_name_length (ms ! k)) = length (fst (es ! k)) \<and> unat (dm_value_length (ms ! k)) = length (snd (es ! k))"
proof (induction es arbitrary: i off ms k)
  case (Cons f es)
  from Cons.prems(1) obtain m ms' where ms: "ms = m # ms'" by (cases ms) auto
  show ?case
  proof (cases k)
    case (Suc j)
    with Cons.IH [of "Suc i" "off + length (entry_bytes f)" ms' j] Cons.prems ms show ?thesis
      by simp
  qed (use Cons.prems ms in simp)
qed simp

lemma describes_shift:
  "describes i (off + g) es ms \<Longrightarrow> unat gone = g \<Longrightarrow>
   describes i off es (map (\<lambda>m. m\<lparr>dm_offset := dm_offset m - gone\<rparr>) ms)"
proof (induction es arbitrary: i off ms)
  case (Cons f es)
  from Cons.prems(1) obtain m ms' where ms: "ms = m # ms'" by (cases ms) auto
  have "unat (dm_offset m) = off + g" using Cons.prems ms by simp
  then have "unat (dm_offset m - gone) = off"
    using Cons.prems(2) unat_sub_le [of gone "dm_offset m"] by (simp add: word_le_nat_alt)
  moreover have "describes (Suc i) (off + length (entry_bytes f) + g) es ms'"
    using Cons.prems(1) ms by (simp add: ac_simps)
  ultimately show ?case
    using Cons.IH [of "Suc i" "off + length (entry_bytes f)" ms'] Cons.prems ms by simp
qed simp

subsection \<open>Eviction\<close>

lemma overwrite_take0: "length bs \<le> length d \<Longrightarrow> take (length bs) (overwrite 0 bs d) = bs"
  by (simp add: overwrite_def)

lemma drop_oldest_rep:
  assumes rep: "dyn_rep t (f # es)"
  shows "dyn_rep (drop_oldest t) es" "dt_capacity (drop_oldest t) = dt_capacity t"
    "dt_insert_count (drop_oldest t) = dt_insert_count t" "unat (dt_dropped (drop_oldest t)) = Suc (unat (dt_dropped t))"
proof -
  let ?g = "length (entry_bytes f)"
  have cnt: "unat (dt_count t) = Suc (length es)" using rep by (simp add: dyn_rep_def)
  then have nz: "dt_count t \<noteq> 0" by auto
  have c1: "unat (dt_count t - 1) = length es" using cnt by (subst unat_sub_le) (simp_all add: word_le_nat_alt)
  obtain m ms where ent: "dt_entries t = m # ms"
    using rep by (cases "dt_entries t") (auto simp: dyn_rep_def WT_QPACK_DYNAMIC_MAX_ENTRIES_def)
  have desc: "unat (dm_name_length m) = length (fst f)" "unat (dm_value_length m) = length (snd f)"
    "describes (Suc (unat (dt_dropped t))) ?g es (take (length es) ms)"
  proof -
    have "describes (unat (dt_dropped t)) 0 (f # es) (m # take (length es) ms)"
      using rep ent by (simp add: dyn_rep_def)
    then show "unat (dm_name_length m) = length (fst f)" "unat (dm_value_length m) = length (snd f)"
      "describes (Suc (unat (dt_dropped t))) ?g es (take (length es) ms)" by simp_all
  qed
  have u16: "unat (ucast (x::u16) :: u64) = unat x" "unat x < 65536" for x
    using unsigned_less [of x, where 'a = nat]
    by (simp_all add: unsigned_ucast_eq take_bit_nat_eq_self_iff less_trans [OF unsigned_less])
  have gone: "unat (meta_bytes m) = ?g"
    unfolding meta_bytes_def using desc u16 [of "dm_name_length m"] u16 [of "dm_value_length m"]
    by (subst unat_add_no_wrap) (simp_all add: entry_bytes_def)
  have g32: "?g < 131072"
    using desc u16(2) [of "dm_name_length m"] u16(2) [of "dm_value_length m"] by (simp add: entry_bytes_def)
  have size: "unat (meta_bytes m + WT_QPACK_DYNAMIC_ENTRY_OVERHEAD) = field_size f"
    using gone g32 by (subst unat_add_no_wrap)
      (simp_all add: WT_QPACK_DYNAMIC_ENTRY_OVERHEAD_def length_entry_bytes [symmetric])
  have used: "unat (dt_used t - meta_bytes m) = length (flat es)"
    using rep gone by (subst unat_sub_le) (simp_all add: word_le_nat_alt dyn_rep_def)
  have left: "unat (dt_size t - (meta_bytes m + WT_QPACK_DYNAMIC_ENTRY_OVERHEAD)) = fields_size es"
    using rep size by (subst unat_sub_le) (simp_all add: word_le_nat_alt dyn_rep_def)
  have ic: "unat (dt_insert_count t) = unat (dt_dropped t) + Suc (length es)" using rep by (simp add: dyn_rep_def)
  then have dr: "unat (dt_dropped t + 1) = Suc (unat (dt_dropped t))"
    using unat_u64_less [of "dt_insert_count t"] by (subst unat_add_no_wrap) simp_all
  have g: "unat (ucast (meta_bytes m) :: u32) = ?g"
    using gone g32 by (simp add: unsigned_ucast_eq take_bit_nat_eq_self_iff)
  let ?ms = "map (\<lambda>x. x\<lparr>dm_offset := dm_offset x - ucast (meta_bytes m)\<rparr>) (take (length es) ms)"
  have len: "length es \<le> length ms" "length (dt_entries t) = Suc (length ms)"
    using rep ent by (simp_all add: dyn_rep_def)
  have desc': "describes (Suc (unat (dt_dropped t))) 0 es ?ms"
    using describes_shift [of _ 0 ?g es _ "ucast (meta_bytes m)"] desc(3) g by simp
  have bytes: "take (length (flat es)) (drop ?g (dt_bytes t)) = flat es" (is "?b = _")
  proof -
    have "take (?g + length (flat es)) (dt_bytes t) = entry_bytes f @ flat es"
      using rep by (simp add: dyn_rep_def)
    then have "drop ?g (take (?g + length (flat es)) (dt_bytes t)) = flat es" by simp
    then show ?thesis by (simp add: drop_take)
  qed
  have t': "drop_oldest t =
      t\<lparr>dt_size := dt_size t - (meta_bytes m + WT_QPACK_DYNAMIC_ENTRY_OVERHEAD),
        dt_bytes := overwrite 0 (flat es) (dt_bytes t), dt_used := dt_used t - meta_bytes m,
        dt_entries := overwrite 0 ?ms (dt_entries t), dt_count := dt_count t - 1,
        dt_dropped := dt_dropped t + 1\<rparr>"
    using nz ent by (simp add: drop_oldest_def Let_def c1 used gone bytes)
  have "take (length es) (overwrite 0 ?ms (dt_entries t)) = ?ms"
    using overwrite_take0 [of ?ms "dt_entries t"] len by simp
  moreover have "take (length (flat es)) (overwrite 0 (flat es) (dt_bytes t)) = flat es"
    using rep by (intro overwrite_take0) (simp add: dyn_rep_def)
  ultimately show "dyn_rep (drop_oldest t) es"
    using rep c1 used left desc' dr ic len unfolding t' by (simp add: dyn_rep_def)
  show "dt_capacity (drop_oldest t) = dt_capacity t" "dt_insert_count (drop_oldest t) = dt_insert_count t"
    "unat (dt_dropped (drop_oldest t)) = Suc (unat (dt_dropped t))"
    unfolding t' using dr by simp_all
qed

lemma evict_for_rep:
  assumes "dyn_rep t es" "unat (dt_size t) + unat n < 2 ^ 64" "unat n \<le> unat (dt_capacity t)"
  shows "dyn_rep (evict_for n t) (evict (unat (dt_capacity t) - unat n) es) \<and>
    dt_capacity (evict_for n t) = dt_capacity t \<and> dt_insert_count (evict_for n t) = dt_insert_count t"
  using assms
proof (induction es arbitrary: t)
  case Nil
  then have "dt_count t = 0" by (simp add: dyn_rep_def unat_eq_zero)
  with Nil show ?case by (subst (1 2 3) evict_for.simps) simp
next
  case (Cons f es)
  have nz: "dt_count t \<noteq> 0" using Cons.prems(1) by (auto simp: dyn_rep_def)
  have "unat (dt_size t + n) = fields_size (f # es) + unat n"
    using Cons.prems(1,2) by (subst unat_add_no_wrap) (simp_all add: dyn_rep_def)
  then have test: "dt_size t + n > dt_capacity t \<longleftrightarrow> fields_size (f # es) > unat (dt_capacity t) - unat n"
    using Cons.prems(3) by (auto simp: word_less_nat_alt)
  note d = drop_oldest_rep [OF Cons.prems(1)]
  show ?case
  proof (cases "dt_size t + n > dt_capacity t")
    case True
    have "unat (dt_size (drop_oldest t)) + unat n < 2 ^ 64"
      using d(1) Cons.prems(1,2) by (simp add: dyn_rep_def)
    with Cons.IH [OF d(1)] Cons.prems(3) d True nz test show ?thesis
      by (subst (1 2 3) evict_for.simps) simp
  next
    case False
    with Cons.prems(1) test show ?thesis by (subst (1 2 3) evict_for.simps) simp
  qed
qed

subsection \<open>Insertion, capacity and lookup\<close>

definition view_ok :: "wt_qpack_dynamic_table \<Rightarrow> byte_view \<Rightarrow> bool" where
  "view_ok t v = (case v of VIEW_BYTES bs \<Rightarrow> length bs < 2 ^ 64
     | VIEW_ARENA off len \<Rightarrow> off + len \<le> length (dt_bytes t) \<and> len < 2 ^ 64)"

lemma view_ok_length: "view_ok t v \<Longrightarrow> view_length v = length (view_read t v) \<and> view_length v < 2 ^ 64"
  by (cases v) (auto simp: view_ok_def)

lemma dyn_rel_init: "dyn_rel (wt_qpack_dynamic_init capacity) []"
  by (simp add: dyn_rel_def dyn_rep_def wt_qpack_dynamic_init_def)

lemma set_capacity_rel:
  assumes "dyn_rep t es"
  shows "dyn_rel (wt_qpack_dynamic_set_capacity t capacity) (evict (unat capacity) es)"
    "dt_capacity (wt_qpack_dynamic_set_capacity t capacity) = capacity"
    "dt_insert_count (wt_qpack_dynamic_set_capacity t capacity) = dt_insert_count t"
proof -
  have "dyn_rep (t\<lparr>dt_capacity := capacity\<rparr>) es" using assms by (simp add: dyn_rep_def)
  from evict_for_rep [OF this, of 0] unat_u64_less [of "dt_size t"]
  have "dyn_rep (wt_qpack_dynamic_set_capacity t capacity) (evict (unat capacity) es)"
    and c: "dt_capacity (wt_qpack_dynamic_set_capacity t capacity) = capacity"
    and i: "dt_insert_count (wt_qpack_dynamic_set_capacity t capacity) = dt_insert_count t"
    by (simp_all add: wt_qpack_dynamic_set_capacity_def)
  then show "dyn_rel (wt_qpack_dynamic_set_capacity t capacity) (evict (unat capacity) es)"
    using evict_fits by (simp add: dyn_rel_def)
  show "dt_capacity (wt_qpack_dynamic_set_capacity t capacity) = capacity"
    "dt_insert_count (wt_qpack_dynamic_set_capacity t capacity) = dt_insert_count t" using c i .
qed

lemma store_entry_rep:
  assumes rep: "dyn_rep t es" and room: "length es < WT_QPACK_DYNAMIC_MAX_ENTRIES"
      "length (flat es) + length n + length v \<le> WT_QPACK_DYNAMIC_MAX_BYTES"
    and size: "unat sz = field_size (n, v)" "fields_size es + field_size (n, v) < 2 ^ 64"
    and ic: "unat (dt_insert_count t) < 2 ^ 64 - 1"
  shows "dyn_rep (store_entry t n v sz) (es @ [(n, v)])"
proof -
  let ?o = "length (flat es)" and ?m =
    "\<lparr>dm_absolute_index = dt_insert_count t, dm_offset = ucast (dt_used t),
      dm_name_length = of_nat (length n), dm_value_length = of_nat (length v)\<rparr> :: wt_qpack_dynamic_entry_meta"
  note r = rep [unfolded dyn_rep_def]
  have used: "unat (dt_used t) = ?o" "length (dt_bytes t) = 4096" "length (dt_entries t) = 32"
    "unat (dt_count t) = length es"
    using r by (simp_all add: WT_QPACK_DYNAMIC_MAX_BYTES_def WT_QPACK_DYNAMIC_MAX_ENTRIES_def)
  have fit: "?o + length (n @ v) \<le> length (dt_bytes t)"
    using room(2) used(2) by (simp add: WT_QPACK_DYNAMIC_MAX_BYTES_def)
  have bytes: "overwrite (?o + length n) v (overwrite ?o n (dt_bytes t)) = overwrite ?o (n @ v) (dt_bytes t)"
    using fit by (intro overwrite_append) simp
  have arena: "take (?o + length (n @ v)) (overwrite ?o (n @ v) (dt_bytes t)) = flat es @ n @ v"
    using r by (subst take_overwrite [OF fit]) simp
  have "unat (ucast (dt_used t) :: u32) = ?o" "unat (of_nat (length n) :: u16) = length n"
    "unat (of_nat (length v) :: u16) = length v"
    using used room(2)
    by (simp_all add: unsigned_ucast_eq take_bit_nat_eq_self_iff unat_of_nat WT_QPACK_DYNAMIC_MAX_BYTES_def)
  then have "describes (unat (dt_dropped t) + length es) ?o [(n, v)] [?m]"
    using r by simp
  moreover have "take (Suc (length es)) ((dt_entries t)[length es := ?m]) = take (length es) (dt_entries t) @ [?m]"
    using room(1) used(3) by (simp add: take_Suc_conv_app_nth WT_QPACK_DYNAMIC_MAX_ENTRIES_def)
  moreover have "length (take (length es) (dt_entries t)) = length es"
    using room(1) used(3) by (simp add: WT_QPACK_DYNAMIC_MAX_ENTRIES_def)
  ultimately have desc: "describes (unat (dt_dropped t)) 0 (es @ [(n, v)])
      (take (length (es @ [(n, v)])) ((dt_entries t)[length es := ?m]))"
    using r unfolding describes_append by simp
  have cnt: "unat (dt_count t + 1) = Suc (length es)" "unat (dt_insert_count t + 1) = Suc (unat (dt_insert_count t))"
    "unat (dt_used t + of_nat (length n + length v)) = ?o + (length n + length v)"
    "unat (dt_size t + sz) = fields_size es + field_size (n, v)"
  proof -
    show "unat (dt_count t + 1) = Suc (length es)"
      using used(4) room(1) unat_add_no_wrap [of "dt_count t" 1] by (simp add: WT_QPACK_DYNAMIC_MAX_ENTRIES_def)
    show "unat (dt_insert_count t + 1) = Suc (unat (dt_insert_count t))"
      using ic unat_add_no_wrap [of "dt_insert_count t" 1] by simp
    show "unat (dt_used t + of_nat (length n + length v)) = ?o + (length n + length v)"
      using fit used(1,2) by (subst unat_add_of_nat) simp_all
    show "unat (dt_size t + sz) = fields_size es + field_size (n, v)"
      using r size by (subst unat_add_no_wrap) simp_all
  qed
  show ?thesis
    unfolding dyn_rep_def store_entry_def used(1) used(4) bytes
    using r room cnt desc arena fit used by (simp add: entry_bytes_def WT_QPACK_DYNAMIC_MAX_BYTES_def)
qed

text \<open>The bounds an insertion is refused for before anything changes.\<close>

definition insert_refused :: "wt_qpack_dynamic_table \<Rightarrow> field list \<Rightarrow> field \<Rightarrow> bool" where
  "insert_refused t es f \<longleftrightarrow>
     length (fst f) > 0xFFFF \<or> length (snd f) > 0xFFFF \<or> field_size f > unat (dt_capacity t) \<or>
     length es \<ge> WT_QPACK_DYNAMIC_MAX_ENTRIES \<or> length (entry_bytes f) > WT_QPACK_DYNAMIC_MAX_BYTES"

lemma view_stage: "\<not> aliases_arena v \<Longrightarrow> view_read t' v = view_read t v"
  by (cases v) (auto simp: aliases_arena_def)

lemma insert_exact:
  assumes rel: "dyn_rel t es" and ok: "view_ok t name" "view_ok t val"
    and ic: "unat (dt_insert_count t) < 2 ^ 64 - 1"
  defines "f \<equiv> (view_read t name, view_read t val)"
  defines "es' \<equiv> evict (unat (dt_capacity t) - field_size f) es"
  shows "\<exists>t'. wt_qpack_dynamic_insert t name val =
       (if insert_refused t es f then (Inl WT_ERR_LIMIT, t)
        else if length (flat es') + length (entry_bytes f) > WT_QPACK_DYNAMIC_MAX_BYTES then (Inl WT_ERR_LIMIT, t')
        else (Inr (dt_insert_count t), t')) \<and>
     (\<not> insert_refused t es f \<longrightarrow> dt_capacity t' = dt_capacity t \<and>
       dt_insert_count t' = (if length (flat es') + length (entry_bytes f) > WT_QPACK_DYNAMIC_MAX_BYTES
         then dt_insert_count t else dt_insert_count t + 1) \<and>
       dyn_rel t' (if length (flat es') + length (entry_bytes f) > WT_QPACK_DYNAMIC_MAX_BYTES then es' else es' @ [f]))"
proof -
  let ?nl = "of_nat (view_length name) :: u64" and ?vl = "of_nat (view_length val) :: u64"
  let ?A = "length (fst f)" and ?B = "length (snd f)"
  let ?sz = "?nl + ?vl + WT_QPACK_DYNAMIC_ENTRY_OVERHEAD"
  have u: "unat ?nl = ?A" "unat ?vl = ?B"
    using view_ok_length [OF ok(1)] view_ok_length [OF ok(2)] by (simp_all add: f_def unat_of_nat_u64)
  have big: "?nl > 0xFFFF \<longleftrightarrow> ?A > 0xFFFF" "?vl > 0xFFFF \<longleftrightarrow> ?B > 0xFFFF"
    using u by (simp_all add: word_less_nat_alt)
  have rep: "dyn_rep t es" and fit: "fields_size es \<le> unat (dt_capacity t)" using rel by (simp_all add: dyn_rel_def)
  have cnt: "unat (dt_count t) = length es" "unat (dt_size t) = fields_size es" using rep by (simp_all add: dyn_rep_def)
  show ?thesis
  proof (cases "?A > 0xFFFF \<or> ?B > 0xFFFF")
    case True
    with big show ?thesis by (auto simp: wt_qpack_dynamic_insert_def insert_refused_def Let_def)
  next
    case False
    then have AB: "?A \<le> 65535" "?B \<le> 65535" by auto
    have sum: "unat (?nl + ?vl) = ?A + ?B" using u AB by (subst unat_add_no_wrap) simp_all
    have size: "unat ?sz = field_size f"
      using sum AB by (subst unat_add_no_wrap) (simp_all add: WT_QPACK_DYNAMIC_ENTRY_OVERHEAD_def field_size_def)
    have small: "field_size f \<le> 131102" using AB by (simp add: field_size_def)
    have no_over: "\<not> ?nl > (- 1) - ?vl - WT_QPACK_DYNAMIC_ENTRY_OVERHEAD"
    proof -
      have "unat (- 1 :: u64) = 2 ^ 64 - 1" by (simp add: unsigned_minus_1_eq_mask mask_eq_exp_minus_1)
      then have "unat ((- 1) - ?vl) = 2 ^ 64 - 1 - ?B" using u by (subst unat_sub_le) simp_all
      then have "unat ((- 1) - ?vl - WT_QPACK_DYNAMIC_ENTRY_OVERHEAD) = 2 ^ 64 - 1 - ?B - 32"
        using AB by (subst unat_sub_le) (simp_all add: WT_QPACK_DYNAMIC_ENTRY_OVERHEAD_def word_le_nat_alt)
      with u AB show ?thesis by (simp add: word_less_nat_alt)
    qed
    have tests: "?sz > dt_capacity t \<longleftrightarrow> field_size f > unat (dt_capacity t)"
      using size by (simp add: word_less_nat_alt)
    let ?t = "evict_for ?sz t"
    let ?r = "if unat (dt_used ?t + ?nl + ?vl) > WT_QPACK_DYNAMIC_MAX_BYTES then (Inl WT_ERR_LIMIT, ?t)
      else (Inr (dt_insert_count ?t), store_entry ?t (fst f) (snd f) ?sz)"
    have stage: "view_read ?t (if aliases_arena name \<or> aliases_arena val then VIEW_BYTES (view_read t name) else name) = fst f"
      "view_read ?t (if aliases_arena name \<or> aliases_arena val then VIEW_BYTES (view_read t val) else val) = snd f"
      using view_stage [of name ?t t] view_stage [of val ?t t] by (simp_all add: f_def)
    have run: "wt_qpack_dynamic_insert t name val = (if insert_refused t es f then (Inl WT_ERR_LIMIT, t) else ?r)"
    proof -
      have "wt_qpack_dynamic_insert t name val =
          (if insert_refused t es f then (Inl WT_ERR_LIMIT, t)
           else if unat (dt_used ?t + ?nl + ?vl) > WT_QPACK_DYNAMIC_MAX_BYTES then (Inl WT_ERR_LIMIT, ?t)
           else (Inr (dt_insert_count ?t), store_entry ?t
             (view_read ?t (if aliases_arena name \<or> aliases_arena val then VIEW_BYTES (view_read t name) else name))
             (view_read ?t (if aliases_arena name \<or> aliases_arena val then VIEW_BYTES (view_read t val) else val)) ?sz))"
        using False big no_over tests sum cnt
        by (simp add: wt_qpack_dynamic_insert_def Let_def insert_refused_def entry_bytes_def)
      then show ?thesis unfolding stage .
    qed
    show ?thesis
    proof (cases "insert_refused t es f")
      case True
      then show ?thesis using run by auto
    next
      case ok': False
      then have le: "field_size f \<le> unat (dt_capacity t)" "length es < WT_QPACK_DYNAMIC_MAX_ENTRIES"
        by (auto simp: insert_refused_def)
      have total: "unat (dt_size t) + unat ?sz < 2 ^ 64"
      proof -
        have "length (flat es) \<le> 4096" "length es \<le> 32"
          using rep by (simp_all add: dyn_rep_def WT_QPACK_DYNAMIC_MAX_BYTES_def WT_QPACK_DYNAMIC_MAX_ENTRIES_def)
        with length_flat_le [of es] have "fields_size es \<le> 5120" by linarith
        with cnt(2) size small show ?thesis by simp
      qed
      from evict_for_rep [OF rep total] le size
      have ev: "dyn_rep ?t es'" "dt_capacity ?t = dt_capacity t" "dt_insert_count ?t = dt_insert_count t"
        by (simp_all add: es'_def)
      have fits': "fields_size es' + field_size f \<le> unat (dt_capacity t)"
        using evict_fits [of "unat (dt_capacity t) - field_size f" es] le by (simp add: es'_def)
      have len': "length es' \<le> length es"
        using evict_suffix [of "unat (dt_capacity t) - field_size f" es] by (auto simp: es'_def)
      have used: "unat (dt_used ?t + ?nl + ?vl) = length (flat es') + length (entry_bytes f)"
      proof -
        have "unat (dt_used ?t) = length (flat es')" "length (flat es') \<le> 4096"
          using ev(1) by (simp_all add: dyn_rep_def WT_QPACK_DYNAMIC_MAX_BYTES_def)
        then show ?thesis
          using u AB by (simp add: unat_word_ariths entry_bytes_def)
      qed
      show ?thesis
      proof (cases "length (flat es') + length (entry_bytes f) > WT_QPACK_DYNAMIC_MAX_BYTES")
        case True
        then show ?thesis
          using run used ok' ev fits' by (intro exI [of _ ?t]) (simp add: dyn_rel_def)
      next
        case room: False
        have "dyn_rep (store_entry ?t (fst f) (snd f) ?sz) (es' @ [(fst f, snd f)])"
        proof (rule store_entry_rep [OF ev(1)])
          show "length es' < WT_QPACK_DYNAMIC_MAX_ENTRIES" using len' le(2) by simp
          show "length (flat es') + length (fst f) + length (snd f) \<le> WT_QPACK_DYNAMIC_MAX_BYTES"
            using room by (simp add: entry_bytes_def)
          show "unat ?sz = field_size (fst f, snd f)" using size by simp
          show "fields_size es' + field_size (fst f, snd f) < 2 ^ 64"
            using fits' unat_u64_less [of "dt_capacity t"] by simp
          show "unat (dt_insert_count ?t) < 2 ^ 64 - 1" using ic ev(3) by simp
        qed
        then show ?thesis
          using run used ok' room ev fits'
          by (intro exI [of _ "store_entry ?t (fst f) (snd f) ?sz"]) (simp add: dyn_rel_def store_entry_def)
      qed
    qed
  qed
qed

lemma entry_exact:
  assumes "dyn_rel t es" "unat (dt_dropped t) \<le> unat i" "unat i < unat (dt_insert_count t)"
  shows "\<exists>n v. wt_qpack_dynamic_entry t i = Inr (n, v) \<and> view_ok t n \<and> view_ok t v \<and>
    (view_read t n, view_read t v) = es ! (unat i - unat (dt_dropped t))"
proof -
  let ?k = "unat i - unat (dt_dropped t)"
  note r = assms(1) [unfolded dyn_rel_def dyn_rep_def]
  have k: "?k < length es" using assms r by auto
  have ik: "unat (i - dt_dropped t) = ?k" using assms(2) by (simp add: unat_sub_le word_le_nat_alt)
  define m where "m = dt_entries t ! ?k"
  have m: "take (length es) (dt_entries t) ! ?k = m" using k by (simp add: m_def)
  have d: "unat (dm_offset m) = length (flat (take ?k es))" "unat (dm_name_length m) = length (fst (es ! ?k))"
    "unat (dm_value_length m) = length (snd (es ! ?k))"
    using describes_nth [of "unat (dt_dropped t)" 0 es "take (length es) (dt_entries t)" ?k] r k m by auto
  let ?n = "fst (es ! ?k)" and ?v = "snd (es ! ?k)" and ?o = "length (flat (take ?k es))"
  have split: "flat es = flat (take ?k es) @ ?n @ ?v @ flat (drop (Suc ?k) es)"
    using k by (subst id_take_nth_drop [OF k]) (simp add: entry_bytes_def)
  have arena: "dt_bytes t = flat es @ drop (length (flat es)) (dt_bytes t)"
    using r by (metis append_take_drop_id)
  have len: "?o + length ?n + length ?v \<le> length (flat es)" "length (flat es) \<le> length (dt_bytes t)"
    using split r by (simp_all add: split)
  have "take (length ?n) (drop ?o (dt_bytes t)) = ?n"
    "take (length ?v) (drop (?o + length ?n) (dt_bytes t)) = ?v"
    by (subst arena, subst split, simp)+
  moreover have "length (dt_bytes t) < 2 ^ 64" using r by (simp add: WT_QPACK_DYNAMIC_MAX_BYTES_def)
  moreover have "wt_qpack_dynamic_entry t i =
      Inr (VIEW_ARENA ?o (length ?n), VIEW_ARENA (?o + length ?n) (length ?v))"
    using assms(2,3) d ik
    by (simp add: wt_qpack_dynamic_entry_def Let_def word_less_nat_alt word_le_nat_alt not_less m_def [symmetric])
  ultimately show ?thesis
    using len by (auto simp: view_ok_def)
qed

lemma entry_closed:
  "unat i < unat (dt_dropped t) \<or> unat (dt_insert_count t) \<le> unat i \<Longrightarrow>
   wt_qpack_dynamic_entry t i = Inl WT_ERR_CLOSED"
  by (auto simp: wt_qpack_dynamic_entry_def word_less_nat_alt word_le_nat_alt)

subsection \<open>An absolute index never changes its meaning\<close>

text \<open>
  What the clients of the table rely on: a log of entries with absolute indices, of which a suffix is
  still there. A step appends or forgets; it never rewrites.
\<close>

locale indexed_log =
  fixes entry_at :: "'t \<Rightarrow> nat \<Rightarrow> 'e option"
    and count_of :: "'t \<Rightarrow> nat"
    and good :: "'t \<Rightarrow> bool"
    and step :: "'t \<Rightarrow> 't \<Rightarrow> bool"
  assumes step_good: "good t \<Longrightarrow> step t t' \<Longrightarrow> good t'"
    and step_count: "good t \<Longrightarrow> step t t' \<Longrightarrow> count_of t \<le> count_of t'"
    and step_entry: "good t \<Longrightarrow> step t t' \<Longrightarrow> i < count_of t \<Longrightarrow> entry_at t' i = Some e \<Longrightarrow> entry_at t i = Some e"
begin

lemma run_good: "step\<^sup>*\<^sup>* t t' \<Longrightarrow> good t \<Longrightarrow> good t'"
  by (induction rule: rtranclp_induct) (auto intro: step_good)

lemma run_count: "step\<^sup>*\<^sup>* t t' \<Longrightarrow> good t \<Longrightarrow> count_of t \<le> count_of t'"
proof (induction rule: rtranclp_induct)
  case (step t' t'')
  with step_count [OF run_good [OF step.hyps(1) step.prems] step.hyps(2)] show ?case by simp
qed simp

lemma run_entry:
  "step\<^sup>*\<^sup>* t t' \<Longrightarrow> good t \<Longrightarrow> i < count_of t \<Longrightarrow> entry_at t' i = Some e \<Longrightarrow> entry_at t i = Some e"
proof (induction rule: rtranclp_induct)
  case (step t' t'')
  have "i < count_of t'" using run_count [OF step.hyps(1) step.prems(1)] step.prems(2) by simp
  with step_entry [OF run_good [OF step.hyps(1) step.prems(1)] step.hyps(2)] step show ?case by blast
qed simp

end

definition entry_of :: "wt_qpack_dynamic_table \<Rightarrow> nat \<Rightarrow> field option" where
  "entry_of t i =
     (if i < 2 ^ 64 then
        (case wt_qpack_dynamic_entry t (of_nat i) of
           Inl _ \<Rightarrow> None
         | Inr (n, v) \<Rightarrow> Some (view_read t n, view_read t v))
      else None)"

text \<open>One change of the table: an insertion, accepted or refused, or a new capacity.\<close>

inductive table_step :: "wt_qpack_dynamic_table \<Rightarrow> wt_qpack_dynamic_table \<Rightarrow> bool" where
  insert_step: "view_ok t n \<Longrightarrow> view_ok t v \<Longrightarrow> unat (dt_insert_count t) < 2 ^ 64 - 1 \<Longrightarrow>
    wt_qpack_dynamic_insert t n v = (r, t') \<Longrightarrow> table_step t t'"
| capacity_step: "table_step t (wt_qpack_dynamic_set_capacity t capacity)"

definition table_good :: "wt_qpack_dynamic_table \<Rightarrow> bool" where
  "table_good t \<longleftrightarrow> (\<exists>es. dyn_rel t es)"

lemma entry_of_rel:
  assumes "dyn_rel t es"
  shows "entry_of t i = (if unat (dt_dropped t) \<le> i \<and> i < unat (dt_insert_count t)
    then Some (es ! (i - unat (dt_dropped t))) else None)"
proof (cases "i < 2 ^ 64")
  case True
  then have u: "unat (of_nat i :: u64) = i" by (rule unat_of_nat_u64)
  show ?thesis
  proof (cases "unat (dt_dropped t) \<le> i \<and> i < unat (dt_insert_count t)")
    case inside: True
    with entry_exact [OF assms, of "of_nat i"] u True show ?thesis by (auto simp: entry_of_def)
  next
    case False
    with entry_closed [of "of_nat i" t] u show ?thesis by (auto simp: entry_of_def)
  qed
next
  case False
  with unat_u64_less [of "dt_insert_count t"] show ?thesis by (simp add: entry_of_def)
qed

text \<open>A suffix of the entries with later ones behind it has the old entries at the old indices.\<close>

lemma entry_of_suffix:
  assumes "dyn_rel t es" "dyn_rel t' (drop k es @ fs)" "k \<le> length es"
    and "unat (dt_insert_count t') = unat (dt_insert_count t) + length fs"
    and "i < unat (dt_insert_count t)" "entry_of t' i = Some e"
  shows "entry_of t i = Some e"
proof -
  have "unat (dt_insert_count t) = unat (dt_dropped t) + length es"
    "unat (dt_insert_count t') = unat (dt_dropped t') + (length es - k) + length fs"
    using assms(1,2) by (simp_all add: dyn_rel_def dyn_rep_def)
  then have d: "unat (dt_dropped t') = unat (dt_dropped t) + k" using assms(3,4) by linarith
  let ?j = "i - unat (dt_dropped t')"
  have j: "unat (dt_dropped t') \<le> i" "e = (drop k es @ fs) ! ?j"
    using entry_of_rel [OF assms(2), of i] assms(6) by (auto split: if_splits)
  have "?j < length (drop k es)"
    using d j(1) assms(3,5) \<open>unat (dt_insert_count t) = unat (dt_dropped t) + length es\<close> by auto
  then have "e = es ! (k + ?j)" using j(2) assms(3) by (simp add: nth_append)
  moreover have "k + ?j = i - unat (dt_dropped t)" using d j(1) by simp
  ultimately show ?thesis
    using entry_of_rel [OF assms(1), of i] d j(1) assms(5) by simp
qed

lemma table_step_cases:
  assumes "table_step t t'" "dyn_rel t es"
  shows "\<exists>k fs. k \<le> length es \<and> dyn_rel t' (drop k es @ fs) \<and>
    unat (dt_insert_count t') = unat (dt_insert_count t) + length fs"
  using assms(1)
proof cases
  case (capacity_step capacity)
  obtain k where "evict (unat capacity) es = drop k es" using evict_suffix by blast
  moreover have "drop k es = drop (min k (length es)) es" by (simp add: min_def)
  ultimately show ?thesis
    using set_capacity_rel [of t es capacity] assms(2) capacity_step
    by (intro exI [of _ "min k (length es)"] exI [of _ "[]"]) (simp add: dyn_rel_def)
next
  case (insert_step n v r)
  let ?f = "(view_read t n, view_read t v)"
  let ?es = "evict (unat (dt_capacity t) - field_size ?f) es"
  obtain k where "?es = drop k es" using evict_suffix by blast
  then have k: "?es = drop (min k (length es)) es" by (simp add: min_def)
  let ?over = "length (flat ?es) + length (entry_bytes ?f) > WT_QPACK_DYNAMIC_MAX_BYTES"
  obtain t1 where i: "wt_qpack_dynamic_insert t n v =
       (if insert_refused t es ?f then (Inl WT_ERR_LIMIT, t)
        else if ?over then (Inl WT_ERR_LIMIT, t1) else (Inr (dt_insert_count t), t1))"
    and rel: "\<not> insert_refused t es ?f \<Longrightarrow>
       dt_insert_count t1 = (if ?over then dt_insert_count t else dt_insert_count t + 1) \<and>
       dyn_rel t1 (if ?over then ?es else ?es @ [?f])"
    using insert_exact [OF assms(2) insert_step(1-3)] by blast
  consider "insert_refused t es ?f" | "\<not> insert_refused t es ?f" "?over" | "\<not> insert_refused t es ?f" "\<not> ?over"
    by blast
  then show ?thesis
  proof cases
    case 1
    then show ?thesis using i insert_step(4) assms(2) by (intro exI [of _ 0] exI [of _ "[]"]) simp
  next
    case 2
    then have "t' = t1" using i insert_step(4) by simp
    with 2 rel k show ?thesis by (intro exI [of _ "min k (length es)"] exI [of _ "[]"]) simp
  next
    case 3
    then have t1: "t' = t1" using i insert_step(4) by simp
    have "unat (dt_insert_count t + 1) = Suc (unat (dt_insert_count t))"
      using insert_step(3) unat_add_no_wrap [of "dt_insert_count t" 1] by simp
    with 3 rel k t1 show ?thesis by (intro exI [of _ "min k (length es)"] exI [of _ "[?f]"]) simp
  qed
qed

interpretation dyn: indexed_log entry_of "\<lambda>t. unat (dt_insert_count t)" table_good table_step
proof unfold_locales
  fix t t' i e assume good: "table_good t" and step: "table_step t t'"
  then obtain es where es: "dyn_rel t es" by (auto simp: table_good_def)
  from table_step_cases [OF step es] obtain k fs where k: "k \<le> length es" "dyn_rel t' (drop k es @ fs)"
    "unat (dt_insert_count t') = unat (dt_insert_count t) + length fs" by blast
  then show "table_good t'" "unat (dt_insert_count t) \<le> unat (dt_insert_count t')"
    by (auto simp: table_good_def)
  show "i < unat (dt_insert_count t) \<Longrightarrow> entry_of t' i = Some e \<Longrightarrow> entry_of t i = Some e"
    by (rule entry_of_suffix [OF es k(2,1,3)])
qed

subsection \<open>Properties of the dynamic table\<close>

lemma run_rel: "table_step\<^sup>*\<^sup>* (wt_qpack_dynamic_init capacity) t \<Longrightarrow> \<exists>es. dyn_rel t es"
  using dyn.run_good [of "wt_qpack_dynamic_init capacity" t] dyn_rel_init [of capacity]
  by (auto simp: table_good_def)

lemma insert_stored:
  assumes es: "dyn_rel t es" and "view_ok t name" "view_ok t val" "unat (dt_insert_count t) < 2 ^ 64 - 1"
    and "wt_qpack_dynamic_insert t name val = (Inr i, t')"
  shows "i = dt_insert_count t" "entry_of t' (unat i) = Some (view_read t name, view_read t val)"
    "unat (dt_insert_count t') = Suc (unat (dt_insert_count t))"
proof -
  let ?f = "(view_read t name, view_read t val)"
  let ?es = "evict (unat (dt_capacity t) - field_size ?f) es"
  from insert_exact [OF assms(1-4)] assms(5)
  show i: "i = dt_insert_count t"
    by (auto split: if_splits)
  from insert_exact [OF assms(1-4)] assms(5)
  have rel: "dyn_rel t' (?es @ [?f])" and c: "dt_insert_count t' = dt_insert_count t + 1"
    by (auto split: if_splits)
  have suc: "unat (dt_insert_count t + 1) = Suc (unat (dt_insert_count t))"
    using assms(4) unat_add_no_wrap [of "dt_insert_count t" 1] by simp
  with c show "unat (dt_insert_count t') = Suc (unat (dt_insert_count t))" by simp
  moreover have "unat (dt_insert_count t') = unat (dt_dropped t') + Suc (length ?es)"
    using rel by (simp add: dyn_rel_def dyn_rep_def)
  ultimately have "unat (dt_insert_count t) = unat (dt_dropped t') + length ?es" by simp
  then show "entry_of t' (unat i) = Some (view_read t name, view_read t val)"
    using entry_of_rel [OF rel, of "unat (dt_insert_count t)"] c i suc by simp
qed

text \<open>C31: Insert, then look up. In every table that insertions and capacity changes can produce, an
  accepted insertion returns an index under which the table then has exactly the name and the value
  that were handed in, as they read before the call, even when they are views into the table's own
  arena and the insertion evicts the entry they point at.\<close>

theorem wt_qpack_dynamic_insert_lookup:
  assumes "table_step\<^sup>*\<^sup>* (wt_qpack_dynamic_init capacity) t"
    and "view_ok t name" "view_ok t val" "unat (dt_insert_count t) < 2 ^ 64 - 1"
    and "wt_qpack_dynamic_insert t name val = (Inr i, t')"
  shows "entry_of t' (unat i) = Some (view_read t name, view_read t val)"
  using run_rel [OF assms(1)] insert_stored(2) [OF _ assms(2-5)] by blast

theorem wt_qpack_dynamic_insert_lookup_witness:
  "let t = snd (wt_qpack_dynamic_insert (wt_qpack_dynamic_init 34) (VIEW_BYTES [1]) (VIEW_BYTES [2]));
       r = wt_qpack_dynamic_insert t (VIEW_ARENA 0 1) (VIEW_ARENA 1 1) in
   fst r = Inr 1 \<and> entry_of (snd r) 1 = Some ([1], [2])"
proof -
  let ?i = "wt_qpack_dynamic_init 34" and ?n = "VIEW_BYTES [1]" and ?v = "VIEW_BYTES [2]"
  define t where "t = snd (wt_qpack_dynamic_insert ?i ?n ?v)"
  have i0: "dt_insert_count ?i = 0" "dt_capacity ?i = 34" by (simp_all add: wt_qpack_dynamic_init_def)
  have ok: "view_ok ?i ?n" "view_ok ?i ?v" by (simp_all add: view_ok_def)
  have ref: "\<not> insert_refused ?i [] ([1], [2])"
    by (simp add: insert_refused_def i0 field_size_def entry_bytes_def WT_QPACK_DYNAMIC_MAX_ENTRIES_def
        WT_QPACK_DYNAMIC_MAX_BYTES_def)
  from insert_exact [OF dyn_rel_init ok] i0 ref
  have 1: "wt_qpack_dynamic_insert ?i ?n ?v = (Inr 0, t)" "dyn_rel t [([1], [2])]"
    "dt_capacity t = 34" "dt_insert_count t = 1"
    by (auto simp: t_def entry_bytes_def WT_QPACK_DYNAMIC_MAX_BYTES_def)
  then have step: "table_step\<^sup>*\<^sup>* ?i t"
    using table_step.insert_step [OF ok, of "Inr 0" t] i0 by auto
  have rep: "take 2 (dt_bytes t) = [1, 2]" "length (dt_bytes t) = 4096"
    using 1(2) by (simp_all add: dyn_rel_def dyn_rep_def entry_bytes_def WT_QPACK_DYNAMIC_MAX_BYTES_def numeral_2_eq_2)
  then obtain bs where bs: "dt_bytes t = 1 # 2 # bs"
    by (cases "dt_bytes t"; cases "tl (dt_bytes t)") (auto simp: numeral_2_eq_2)
  have ok': "view_ok t (VIEW_ARENA 0 1)" "view_ok t (VIEW_ARENA 1 1)" using rep by (simp_all add: view_ok_def)
  have read: "view_read t (VIEW_ARENA 0 1) = [1]" "view_read t (VIEW_ARENA 1 1) = [2]" by (simp_all add: bs)
  have ref': "\<not> insert_refused t [([1], [2])] ([1], [2])"
    by (simp add: insert_refused_def 1 field_size_def entry_bytes_def WT_QPACK_DYNAMIC_MAX_ENTRIES_def
        WT_QPACK_DYNAMIC_MAX_BYTES_def)
  have ev: "evict (unat (34::u64) - field_size ([1], [2])) [([1], [2])] = []"
    by (simp add: field_size_def)
  from insert_exact [OF 1(2) ok'] 1 ref' ev read
  have 2: "fst (wt_qpack_dynamic_insert t (VIEW_ARENA 0 1) (VIEW_ARENA 1 1)) = Inr 1"
    by (auto simp: entry_bytes_def WT_QPACK_DYNAMIC_MAX_BYTES_def)
  have "entry_of (snd (wt_qpack_dynamic_insert t (VIEW_ARENA 0 1) (VIEW_ARENA 1 1))) (unat (1::u64)) =
      Some (view_read t (VIEW_ARENA 0 1), view_read t (VIEW_ARENA 1 1))"
    by (rule wt_qpack_dynamic_insert_lookup [OF step ok'])
      (use 1(4) 2 in \<open>simp_all add: prod_eq_iff\<close>)
  with 2 read show ?thesis unfolding Let_def t_def [symmetric] by simp
qed

text \<open>C32: An absolute index never changes its meaning. Whatever insertions, evictions and capacity changes
  follow, an index that already named an entry either still names the same name and value or is refused;
  it is never reused for another entry.\<close>

theorem wt_qpack_dynamic_index_stable:
  assumes "table_step\<^sup>*\<^sup>* (wt_qpack_dynamic_init capacity) t" "table_step\<^sup>*\<^sup>* t t'"
    and "i < unat (dt_insert_count t)" "entry_of t' i = Some e"
  shows "entry_of t i = Some e"
  using dyn.run_entry [OF assms(2) _ assms(3,4)] run_rel [OF assms(1)] by (auto simp: table_good_def)

theorem wt_qpack_dynamic_index_stable_witness:
  "let t = snd (wt_qpack_dynamic_insert (wt_qpack_dynamic_init 34) (VIEW_BYTES [1]) (VIEW_BYTES [2])) in
   entry_of (wt_qpack_dynamic_set_capacity t 40) 0 = Some ([1], [2]) \<and> entry_of t 0 = Some ([1], [2])"
proof -
  let ?i = "wt_qpack_dynamic_init 34" and ?n = "VIEW_BYTES [1]" and ?v = "VIEW_BYTES [2]"
  define t where "t = snd (wt_qpack_dynamic_insert ?i ?n ?v)"
  have i0: "dt_insert_count ?i = 0" "dt_capacity ?i = 34" by (simp_all add: wt_qpack_dynamic_init_def)
  have ok: "view_ok ?i ?n" "view_ok ?i ?v" by (simp_all add: view_ok_def)
  have ref: "\<not> insert_refused ?i [] ([1], [2])"
    by (simp add: insert_refused_def i0 field_size_def entry_bytes_def WT_QPACK_DYNAMIC_MAX_ENTRIES_def
        WT_QPACK_DYNAMIC_MAX_BYTES_def)
  from insert_exact [OF dyn_rel_init ok] i0 ref
  have 1: "wt_qpack_dynamic_insert ?i ?n ?v = (Inr 0, t)" "dyn_rel t [([1], [2])]" "dt_insert_count t = 1"
    by (auto simp: t_def entry_bytes_def WT_QPACK_DYNAMIC_MAX_BYTES_def)
  then have step: "table_step\<^sup>*\<^sup>* ?i t"
    using table_step.insert_step [OF ok, of "Inr 0" t] i0 by auto
  have rel: "dyn_rel (wt_qpack_dynamic_set_capacity t 40) [([1], [2])]"
    "dt_insert_count (wt_qpack_dynamic_set_capacity t 40) = 1"
    using set_capacity_rel [of t "[([1], [2])]" 40] 1 by (simp_all add: dyn_rel_def field_size_def)
  then have "unat (dt_dropped (wt_qpack_dynamic_set_capacity t 40)) = 0"
    by (simp add: dyn_rel_def dyn_rep_def)
  with entry_of_rel [OF rel(1), of 0] rel(2)
  have e: "entry_of (wt_qpack_dynamic_set_capacity t 40) 0 = Some ([1], [2])" by simp
  have "entry_of t 0 = Some ([1], [2])"
    by (rule wt_qpack_dynamic_index_stable [OF step _ _ e]) (simp_all add: 1 table_step.capacity_step r_into_rtranclp)
  with e show ?thesis by (simp add: Let_def t_def)
qed
end

