(* ===== verification/Qpack_Field.thy ===== *)
theory Qpack_Field
  imports Qpack_Table
begin

text \<open>
  QPACK's field lines (\<open>C99/src/http3/qpack_field.c\<close>) and the prefix of a field section
  (\<open>qpack_header_prefix.c\<close>). A line is decoded by looking at the flag bits of its first byte, which
  also carries the prefix of its index or of the length of its name; its encoder writes the same
  bits. The section prefix sends the required insert count modulo twice the table's size, and the
  decoder recovers it from the number of insertions it has seen.
\<close>

subsection \<open>Field lines\<close>

datatype wt_qpack_field_kind =
  WT_QPACK_FIELD_INDEXED_STATIC
| WT_QPACK_FIELD_INDEXED_DYNAMIC
| WT_QPACK_FIELD_LITERAL_NAME_REF_STATIC
| WT_QPACK_FIELD_LITERAL_NAME_REF_DYNAMIC
| WT_QPACK_FIELD_LITERAL_LITERAL_NAME
| WT_QPACK_FIELD_POST_BASE_INDEX
| WT_QPACK_FIELD_POST_BASE_NAME_REF

record wt_qpack_field_line =
  fl_kind :: wt_qpack_field_kind
  fl_never_indexed :: bool
  fl_index :: u64
  fl_name_huffman :: bool
  fl_name :: "u8 list"
  fl_value :: "u8 list"
  fl_value_huffman :: bool
  fl_bytes_consumed :: u64

text \<open>The line as the decoder clears it before it knows its form.\<close>

definition blank_line :: "wt_qpack_field_kind \<Rightarrow> wt_qpack_field_line" where
  "blank_line kind =
     \<lparr>fl_kind = kind, fl_never_indexed = False, fl_index = 0, fl_name_huffman = False, fl_name = [],
      fl_value = [], fl_value_huffman = False, fl_bytes_consumed = 0\<rparr>"

definition line_value :: "wt_qpack_field_line \<Rightarrow> wt_qpack_field_line wt_reader" where
  "line_value line =
     rbind wt_qpack_string_decode (\<lambda>(bytes, huffman).
     rreturn (line\<lparr>fl_value := bytes, fl_value_huffman := huffman\<rparr>))"

definition line_body :: "u8 \<Rightarrow> wt_qpack_field_line wt_reader" where
  "line_body first =
     (if first AND 0x80 \<noteq> 0 then
        rbind (wt_qpack_integer_decode 6) (\<lambda>index.
        rreturn ((blank_line (if first AND 0x40 \<noteq> 0 then WT_QPACK_FIELD_INDEXED_STATIC
            else WT_QPACK_FIELD_INDEXED_DYNAMIC))\<lparr>fl_index := index\<rparr>))
      else if first AND 0x40 \<noteq> 0 then
        rbind (wt_qpack_integer_decode 4) (\<lambda>index.
        line_value ((blank_line (if first AND 0x10 \<noteq> 0 then WT_QPACK_FIELD_LITERAL_NAME_REF_STATIC
            else WT_QPACK_FIELD_LITERAL_NAME_REF_DYNAMIC))
          \<lparr>fl_index := index, fl_never_indexed := (first AND 0x20 \<noteq> 0)\<rparr>))
      else if first AND 0x20 \<noteq> 0 then
        rbind (wt_qpack_integer_decode 3) (\<lambda>name_length.
        case wt_checked_narrow_u64_to_size name_length of
          Inl _ \<Rightarrow> rfail WT_ERR_PROTOCOL
        | Inr len \<Rightarrow>
            rbind (view_or WT_ERR_TRUNCATED len) (\<lambda>name.
            line_value ((blank_line WT_QPACK_FIELD_LITERAL_LITERAL_NAME)
              \<lparr>fl_never_indexed := (first AND 0x10 \<noteq> 0), fl_name_huffman := (first AND 0x08 \<noteq> 0),
               fl_name := name\<rparr>)))
      else if first AND 0x10 \<noteq> 0 then
        rbind (wt_qpack_integer_decode 4) (\<lambda>index.
        rreturn ((blank_line WT_QPACK_FIELD_POST_BASE_INDEX)\<lparr>fl_index := index\<rparr>))
      else
        rbind (wt_qpack_integer_decode 3) (\<lambda>index.
        line_value ((blank_line WT_QPACK_FIELD_POST_BASE_NAME_REF)
          \<lparr>fl_index := index, fl_never_indexed := (first AND 0x08 \<noteq> 0)\<rparr>)))"

definition wt_qpack_field_line_decode :: "wt_qpack_field_line wt_reader" where
  "wt_qpack_field_line_decode c =
     (case rbind (rpeek WT_ERR_TRUNCATED) line_body c of
        (Inl e, c') \<Rightarrow> (Inl e, c')
      | (Inr line, c') \<Rightarrow>
          (Inr (line\<lparr>fl_bytes_consumed := wt_cursor_remaining c - wt_cursor_remaining c'\<rparr>), c'))"

text \<open>The name of a literal line, coded into the scratch buffer when the line asks for it; every
  refusal is \<open>WT_ERR_LIMIT\<close>.\<close>

definition line_encode_name ::
  "wt_qpack_field_line \<Rightarrow> u8 \<Rightarrow> u64 \<Rightarrow> wt_writer \<Rightarrow> wt_status \<times> wt_writer" where
  "line_encode_name line flags scratch_capacity w =
     (case wire_string (fl_name line) (fl_name_huffman line) scratch_capacity of
        Inl _ \<Rightarrow> (WT_ERR_LIMIT, w)
      | Inr wire \<Rightarrow>
          wseq (wt_qpack_integer_encode 3 (if fl_name_huffman line then flags OR 0x08 else flags)
              (of_nat (length wire)))
            (put_bytes wire) w)"

definition wt_qpack_field_line_encode_coded ::
  "wt_qpack_field_line \<Rightarrow> u64 \<Rightarrow> wt_writer \<Rightarrow> wt_status \<times> wt_writer" where
  "wt_qpack_field_line_encode_coded line scratch_capacity =
     (let put_value = wt_qpack_string_encode_coded (fl_value line) (fl_value_huffman line) scratch_capacity in
      case fl_kind line of
        WT_QPACK_FIELD_INDEXED_STATIC \<Rightarrow> wt_qpack_integer_encode 6 0xC0 (fl_index line)
      | WT_QPACK_FIELD_INDEXED_DYNAMIC \<Rightarrow> wt_qpack_integer_encode 6 0x80 (fl_index line)
      | WT_QPACK_FIELD_LITERAL_NAME_REF_STATIC \<Rightarrow>
          wseq (wt_qpack_integer_encode 4
              (if fl_never_indexed line then 0x40 OR 0x10 OR 0x20 else 0x40 OR 0x10) (fl_index line)) put_value
      | WT_QPACK_FIELD_LITERAL_NAME_REF_DYNAMIC \<Rightarrow>
          wseq (wt_qpack_integer_encode 4 (if fl_never_indexed line then 0x40 OR 0x20 else 0x40) (fl_index line))
            put_value
      | WT_QPACK_FIELD_LITERAL_LITERAL_NAME \<Rightarrow>
          wseq (line_encode_name line (if fl_never_indexed line then 0x20 OR 0x10 else 0x20) scratch_capacity)
            put_value
      | WT_QPACK_FIELD_POST_BASE_INDEX \<Rightarrow> wt_qpack_integer_encode 4 0x10 (fl_index line)
      | WT_QPACK_FIELD_POST_BASE_NAME_REF \<Rightarrow>
          wseq (wt_qpack_integer_encode 3 (if fl_never_indexed line then 0x08 else 0) (fl_index line)) put_value)"

definition wt_qpack_field_line_encode :: "wt_qpack_field_line \<Rightarrow> wt_writer \<Rightarrow> wt_status \<times> wt_writer" where
  "wt_qpack_field_line_encode line w =
     (if fl_name_huffman line \<or> fl_value_huffman line then (WT_ERR_STATE, w)
      else wt_qpack_field_line_encode_coded line 0 w)"

definition wt_qpack_field_line_static_name :: "wt_qpack_field_line \<Rightarrow> u8 list wt_result" where
  "wt_qpack_field_line_static_name line =
     (if fl_kind line = WT_QPACK_FIELD_LITERAL_LITERAL_NAME then Inr (fl_name line)
      else if fl_kind line = WT_QPACK_FIELD_INDEXED_STATIC \<or>
              fl_kind line = WT_QPACK_FIELD_LITERAL_NAME_REF_STATIC then
        (case wt_qpack_static_entry (fl_index line) of
           Inl _ \<Rightarrow> Inl WT_ERR_PROTOCOL
         | Inr entry \<Rightarrow> Inr (se_name entry))
      else Inl WT_ERR_STATE)"

subsection \<open>The section prefix\<close>

record wt_qpack_header_prefix =
  hp_required_insert_count :: u64
  hp_base :: u64

definition wt_qpack_max_entries :: "u64 \<Rightarrow> u64" where
  "wt_qpack_max_entries capacity = capacity div WT_QPACK_DYNAMIC_ENTRY_OVERHEAD"

definition wt_qpack_header_prefix_encode ::
  "u64 \<Rightarrow> u64 \<Rightarrow> u64 \<Rightarrow> wt_writer \<Rightarrow> wt_status \<times> wt_writer" where
  "wt_qpack_header_prefix_encode required_insert_count base max_entries w =
     (let full_range = 2 * max_entries in
      if max_entries > 0 \<and> full_range < max_entries then (WT_ERR_OVERFLOW, w)
      else if required_insert_count \<noteq> 0 \<and> max_entries = 0 then (WT_ERR_INVALID_ARGUMENT, w)
      else
        let encoded = (if required_insert_count = 0 then 0 else required_insert_count mod full_range + 1) in
        if base \<ge> required_insert_count then
          let delta = base - required_insert_count in
          if delta > 0x3fffffffffffffff then (WT_ERR_INVALID_ARGUMENT, w)
          else wseq (wt_qpack_integer_encode 8 0 encoded) (wt_qpack_integer_encode 7 0x00 delta) w
        else
          let delta = required_insert_count - base - 1 in
          if delta > 0x3fffffffffffffff then (WT_ERR_INVALID_ARGUMENT, w)
          else wseq (wt_qpack_integer_encode 8 0 encoded) (wt_qpack_integer_encode 7 0x80 delta) w)"

text \<open>An incomplete integer is \<open>WT_ERR_TRUNCATED\<close> without a code, any other failure the given code.\<close>

definition integer_or :: "wt_qpack_error \<Rightarrow> nat \<Rightarrow> (qpack_fail, u64) xreader" where
  "integer_or e n c =
     (case wt_qpack_integer_decode n c of
        (Inl s, c') \<Rightarrow>
          (Inl (if s = WT_ERR_TRUNCATED then (WT_ERR_TRUNCATED, WT_QPACK_ERROR_NONE) else (WT_ERR_PROTOCOL, e)), c')
      | (Inr v, c') \<Rightarrow> (Inr v, c'))"

definition required_insert_count :: "u64 \<Rightarrow> u64 \<Rightarrow> u64 \<Rightarrow> u64 option" where
  "required_insert_count max_entries known_insert_count encoded =
     (let full_range = 2 * max_entries in
      if encoded = 0 then Some 0
      else if encoded > full_range then None
      else
        let max_value = known_insert_count + max_entries;
            max_wrapped = (max_value div full_range) * full_range;
            required = max_wrapped + encoded - 1
        in if required > max_value then
             if required \<le> full_range then None
             else if required - full_range = 0 then None else Some (required - full_range)
           else if required = 0 then None else Some required)"

definition prefix_base :: "u64 \<Rightarrow> bool \<Rightarrow> u64 \<Rightarrow> u64 option" where
  "prefix_base required negative delta =
     (if negative then if delta \<ge> required then None else Some (required - delta - 1)
      else if delta > (- 1) - required then None else Some (required + delta))"

definition wt_qpack_header_prefix_decode ::
  "u64 \<Rightarrow> u64 \<Rightarrow> (qpack_fail, wt_qpack_header_prefix) xreader" where
  "wt_qpack_header_prefix_decode max_entries known_insert_count =
     (let failed = rfail (WT_ERR_PROTOCOL, WT_QPACK_ERROR_DECOMPRESSION_FAILED) in
      if max_entries > 0 \<and> 2 * max_entries < max_entries then failed
      else
        rbind (integer_or WT_QPACK_ERROR_DECOMPRESSION_FAILED 8) (\<lambda>encoded.
        rbind (rpeek (WT_ERR_TRUNCATED, WT_QPACK_ERROR_NONE)) (\<lambda>first.
        rbind (integer_or WT_QPACK_ERROR_DECOMPRESSION_FAILED 7) (\<lambda>delta.
        case required_insert_count max_entries known_insert_count encoded of
          None \<Rightarrow> failed
        | Some required \<Rightarrow>
            (case prefix_base required (first AND 0x80 \<noteq> 0) delta of
               None \<Rightarrow> failed
             | Some base \<Rightarrow> rreturn \<lparr>hp_required_insert_count = required, hp_base = base\<rparr>)))))"

subsection \<open>The bytes of a field line\<close>

fun line_prefix :: "wt_qpack_field_kind \<Rightarrow> nat" where
  "line_prefix WT_QPACK_FIELD_INDEXED_STATIC = 6"
| "line_prefix WT_QPACK_FIELD_INDEXED_DYNAMIC = 6"
| "line_prefix WT_QPACK_FIELD_LITERAL_NAME_REF_STATIC = 4"
| "line_prefix WT_QPACK_FIELD_LITERAL_NAME_REF_DYNAMIC = 4"
| "line_prefix WT_QPACK_FIELD_LITERAL_LITERAL_NAME = 3"
| "line_prefix WT_QPACK_FIELD_POST_BASE_INDEX = 4"
| "line_prefix WT_QPACK_FIELD_POST_BASE_NAME_REF = 3"

text \<open>The pattern of RFC 9204 section 4.5 for each form: T, N and H bits in place.\<close>

fun line_pattern :: "wt_qpack_field_kind \<Rightarrow> bool \<Rightarrow> bool \<Rightarrow> u8" where
  "line_pattern WT_QPACK_FIELD_INDEXED_STATIC n h = 0xC0"
| "line_pattern WT_QPACK_FIELD_INDEXED_DYNAMIC n h = 0x80"
| "line_pattern WT_QPACK_FIELD_LITERAL_NAME_REF_STATIC n h = (if n then 0x70 else 0x50)"
| "line_pattern WT_QPACK_FIELD_LITERAL_NAME_REF_DYNAMIC n h = (if n then 0x60 else 0x40)"
| "line_pattern WT_QPACK_FIELD_LITERAL_LITERAL_NAME n h =
     (if n then if h then 0x38 else 0x30 else if h then 0x28 else 0x20)"
| "line_pattern WT_QPACK_FIELD_POST_BASE_INDEX n h = 0x10"
| "line_pattern WT_QPACK_FIELD_POST_BASE_NAME_REF n h = (if n then 0x08 else 0)"

abbreviation line_flags :: "wt_qpack_field_line \<Rightarrow> u8" where
  "line_flags l \<equiv> line_pattern (fl_kind l) (fl_never_indexed l) (fl_name_huffman l)"

abbreviation has_value :: "wt_qpack_field_kind \<Rightarrow> bool" where
  "has_value k \<equiv> k \<notin> {WT_QPACK_FIELD_INDEXED_STATIC, WT_QPACK_FIELD_INDEXED_DYNAMIC, WT_QPACK_FIELD_POST_BASE_INDEX}"

abbreviation literal_name :: "wt_qpack_field_kind \<Rightarrow> bool" where
  "literal_name k \<equiv> k = WT_QPACK_FIELD_LITERAL_LITERAL_NAME"

abbreviation name_wire :: "wt_qpack_field_line \<Rightarrow> u8 list" where
  "name_wire l \<equiv> string_wire (fl_name_huffman l) (fl_name l)"

abbreviation value_wire :: "wt_qpack_field_line \<Rightarrow> u8 list" where
  "value_wire l \<equiv> string_wire (fl_value_huffman l) (fl_value l)"

definition line_bytes :: "wt_qpack_field_line \<Rightarrow> u8 list" where
  "line_bytes l =
     integer_bytes (line_prefix (fl_kind l)) (line_flags l)
       (if literal_name (fl_kind l) then of_nat (length (name_wire l)) else fl_index l) @
     (if literal_name (fl_kind l) then name_wire l else []) @
     (if has_value (fl_kind l) then wire_bytes (fl_value_huffman l) (value_wire l) else [])"

text \<open>A line that has only the parts its form carries, with strings that can be written.\<close>

definition line_ok :: "wt_qpack_field_line \<Rightarrow> bool" where
  "line_ok l \<longleftrightarrow>
     fl_index l \<le> WT_QPACK_INTEGER_MAX \<and>
     string_ok (fl_name_huffman l) (fl_name l) \<and> string_ok (fl_value_huffman l) (fl_value l) \<and>
     (literal_name (fl_kind l) \<longrightarrow> fl_index l = 0) \<and>
     (\<not> literal_name (fl_kind l) \<longrightarrow> fl_name l = [] \<and> \<not> fl_name_huffman l) \<and>
     (\<not> has_value (fl_kind l) \<longrightarrow> fl_value l = [] \<and> \<not> fl_value_huffman l \<and> \<not> fl_never_indexed l)"

definition scratch_fits :: "wt_qpack_field_line \<Rightarrow> u64 \<Rightarrow> bool" where
  "scratch_fits l capacity \<longleftrightarrow>
     (fl_name_huffman l \<longrightarrow> huffman_size (fl_name l) \<le> unat capacity) \<and>
     (fl_value_huffman l \<longrightarrow> huffman_size (fl_value l) \<le> unat capacity)"

text \<open>The line a decoder reports: the strings as they are on the wire and the bytes it took.\<close>

definition wire_line :: "wt_qpack_field_line \<Rightarrow> wt_qpack_field_line" where
  "wire_line l = l\<lparr>fl_name := name_wire l, fl_value := value_wire l,
     fl_bytes_consumed := of_nat (length (line_bytes l))\<rparr>"

lemma line_prefix_ok: "prefix_ok (line_prefix k) (line_pattern k n h)"
  by (cases k) (auto simp: prefix_ok_def)

lemma appends_line_name:
  assumes "fl_kind l = WT_QPACK_FIELD_LITERAL_LITERAL_NAME" "line_ok l" "scratch_fits l capacity"
  shows "appends (line_encode_name l (if fl_never_indexed l then 0x20 OR 0x10 else 0x20) capacity)
    (integer_bytes 3 (line_flags l) (of_nat (length (name_wire l))) @ name_wire l)"
proof -
  have "wire_string (fl_name l) (fl_name_huffman l) capacity = Inr (name_wire l)"
    using assms by (intro wire_string_ok) (simp_all add: line_ok_def scratch_fits_def)
  moreover have "(if fl_name_huffman l then (if fl_never_indexed l then 0x20 OR 0x10 else 0x20) OR 0x08
      else if fl_never_indexed l then 0x20 OR 0x10 else 0x20) = line_flags l"
    using assms(1) by simp
  ultimately have "line_encode_name l (if fl_never_indexed l then 0x20 OR 0x10 else 0x20) capacity =
      wseq (wt_qpack_integer_encode 3 (line_flags l) (of_nat (length (name_wire l)))) (put_bytes (name_wire l))"
    by (intro ext) (simp only: line_encode_name_def sum.case)
  moreover have "appends (wt_qpack_integer_encode 3 (line_flags l) (of_nat (length (name_wire l))))
      (integer_bytes 3 (line_flags l) (of_nat (length (name_wire l))))"
    using line_prefix_ok [of "fl_kind l"] assms(1,2) string_wire_length [of "fl_name_huffman l" "fl_name l"]
    by (intro appends_integer of_nat_integer) (metis line_prefix.simps(5), simp add: line_ok_def)
  ultimately show ?thesis using appends_wseq appends_put_bytes by metis
qed

lemma appends_line:
  assumes "line_ok l" "scratch_fits l capacity"
  shows "appends (wt_qpack_field_line_encode_coded l capacity) (line_bytes l)"
proof -
  have i: "appends (wt_qpack_integer_encode (line_prefix (fl_kind l)) (line_flags l) (fl_index l))
      (integer_bytes (line_prefix (fl_kind l)) (line_flags l) (fl_index l))"
    using assms(1) line_prefix_ok by (intro appends_integer) (simp_all add: line_ok_def)
  have v: "appends (wt_qpack_string_encode_coded (fl_value l) (fl_value_huffman l) capacity)
      (wire_bytes (fl_value_huffman l) (value_wire l))"
    using assms by (intro appends_string) (simp_all add: line_ok_def scratch_fits_def)
  show ?thesis
  proof (cases "fl_kind l")
    case WT_QPACK_FIELD_LITERAL_LITERAL_NAME
    with appends_wseq [OF appends_line_name [OF _ assms] v] show ?thesis
      by (simp add: wt_qpack_field_line_encode_coded_def line_bytes_def)
  qed (use i v appends_wseq [OF i v] in
      \<open>auto simp: wt_qpack_field_line_encode_coded_def line_bytes_def split: if_splits\<close>)
qed

lemma reads_line_value:
  "length wire < 2 ^ 62 \<Longrightarrow>
   reads (line_value l) (wire_bytes huffman wire) (l\<lparr>fl_value := wire, fl_value_huffman := huffman\<rparr>)"
  unfolding line_value_def by (rule reads_bind_end [OF reads_string]) simp_all

lemma string_wire_plain [simp]: "string_wire False bytes = bytes"
  by (simp add: string_wire_def)

lemma first_byte_flags:
  assumes "prefix_ok n flags" "m < 2 ^ n"
  shows "n \<le> 7 \<Longrightarrow> (flags OR of_nat m) AND 0x80 = 0 \<longleftrightarrow> flags AND 0x80 = 0"
    "n \<le> 6 \<Longrightarrow> (flags OR of_nat m) AND 0x40 = 0 \<longleftrightarrow> flags AND 0x40 = 0"
    "n \<le> 5 \<Longrightarrow> (flags OR of_nat m) AND 0x20 = 0 \<longleftrightarrow> flags AND 0x20 = 0"
    "n \<le> 4 \<Longrightarrow> (flags OR of_nat m) AND 0x10 = 0 \<longleftrightarrow> flags AND 0x10 = 0"
    "n \<le> 3 \<Longrightarrow> (flags OR of_nat m) AND 0x08 = 0 \<longleftrightarrow> flags AND 0x08 = 0"
  using first_byte_flag [OF assms, of 7] first_byte_flag [OF assms, of 6] first_byte_flag [OF assms, of 5]
    first_byte_flag [OF assms, of 4] first_byte_flag [OF assms, of 3] by simp_all

lemma reads_consumed:
  assumes "reads m bs x"
  shows "reads (\<lambda>c. case m c of (Inl e, c') \<Rightarrow> (Inl e, c')
      | (Inr l, c') \<Rightarrow> (Inr (l\<lparr>fl_bytes_consumed := wt_cursor_remaining c - wt_cursor_remaining c'\<rparr>), c'))
    bs (x\<lparr>fl_bytes_consumed := of_nat (length bs)\<rparr>)"
  unfolding reads_def
proof (intro allI impI)
  fix c rest assume c: "cursor_ready c \<and> cursor_view c = bs @ rest"
  have "wt_cursor_remaining c - wt_cursor_remaining (cursor_advance c (length bs)) = of_nat (length bs)"
    using c by (simp add: wt_cursor_remaining_def cursor_advance_def cursor_ready_def)
  with readsD [OF assms, of c rest] c
  show "(case m c of (Inl e, c') \<Rightarrow> (Inl e, c')
      | (Inr l, c') \<Rightarrow> (Inr (l\<lparr>fl_bytes_consumed := wt_cursor_remaining c - wt_cursor_remaining c'\<rparr>), c')) =
    (Inr (x\<lparr>fl_bytes_consumed := of_nat (length bs)\<rparr>), cursor_advance c (length bs))" by simp
qed

lemma reads_index:
  "fl_index l \<le> WT_QPACK_INTEGER_MAX \<Longrightarrow> reads (f (fl_index l)) bs x \<Longrightarrow>
   prefix_ok n flags \<Longrightarrow> reads (rbind (wt_qpack_integer_decode n) f) (integer_bytes n flags (fl_index l) @ bs) x"
  by (rule reads_bind [OF reads_integer])

text \<open>A decoded line before its byte count is filled in.\<close>

abbreviation bare_line :: "wt_qpack_field_line \<Rightarrow> wt_qpack_field_line" where
  "bare_line l \<equiv> l\<lparr>fl_name := name_wire l, fl_value := value_wire l, fl_bytes_consumed := 0\<rparr>"

lemma bare_line_blank:
  "bare_line l = (blank_line (fl_kind l))\<lparr>fl_index := fl_index l, fl_never_indexed := fl_never_indexed l,
     fl_name_huffman := fl_name_huffman l, fl_name := name_wire l,
     fl_value := value_wire l, fl_value_huffman := fl_value_huffman l\<rparr>"
  by (cases l) (simp add: blank_line_def)

lemma line_ok_lengths:
  "line_ok l \<Longrightarrow> length (name_wire l) < 2 ^ 62" "line_ok l \<Longrightarrow> length (value_wire l) < 2 ^ 62"
  using string_wire_length [of "fl_name_huffman l" "fl_name l"]
    string_wire_length [of "fl_value_huffman l" "fl_value l"] by (simp_all add: line_ok_def)

lemma reads_indexed_body:
  assumes ok: "line_ok l" and m: "m < 2 ^ line_prefix (fl_kind l)"
    and kind: "fl_kind l \<in> {WT_QPACK_FIELD_INDEXED_STATIC, WT_QPACK_FIELD_INDEXED_DYNAMIC, WT_QPACK_FIELD_POST_BASE_INDEX}"
  shows "reads (line_body (line_flags l OR of_nat m)) (line_bytes l) (bare_line l)"
proof -
  note flags = first_byte_flags [OF line_prefix_ok [of "fl_kind l" "fl_never_indexed l" "fl_name_huffman l"] m]
  note p = line_prefix_ok [of "fl_kind l" "fl_never_indexed l" "fl_name_huffman l"]
  have idx: "fl_index l \<le> WT_QPACK_INTEGER_MAX" using ok by (simp add: line_ok_def)
  from kind consider (1) "fl_kind l = WT_QPACK_FIELD_INDEXED_STATIC" | (2) "fl_kind l = WT_QPACK_FIELD_INDEXED_DYNAMIC" | (3) "fl_kind l = WT_QPACK_FIELD_POST_BASE_INDEX" by blast
  then show ?thesis
  proof cases
    case 1
    have "reads (rbind (wt_qpack_integer_decode 6) (\<lambda>index.
        rreturn ((blank_line WT_QPACK_FIELD_INDEXED_STATIC)\<lparr>fl_index := index\<rparr>)))
      (integer_bytes 6 0xC0 (fl_index l) @ []) ((blank_line WT_QPACK_FIELD_INDEXED_STATIC)\<lparr>fl_index := fl_index l\<rparr>)"
      using p 1 by (intro reads_index [OF idx]) simp_all
    with flags(1,2) 1 ok show ?thesis
      unfolding bare_line_blank by (simp add: line_body_def line_bytes_def line_ok_def blank_line_def)
  next
    case 2
    have "reads (rbind (wt_qpack_integer_decode 6) (\<lambda>index.
        rreturn ((blank_line WT_QPACK_FIELD_INDEXED_DYNAMIC)\<lparr>fl_index := index\<rparr>)))
      (integer_bytes 6 0x80 (fl_index l) @ []) ((blank_line WT_QPACK_FIELD_INDEXED_DYNAMIC)\<lparr>fl_index := fl_index l\<rparr>)"
      using p 2 by (intro reads_index [OF idx]) simp_all
    with flags(1,2) 2 ok show ?thesis
      unfolding bare_line_blank by (simp add: line_body_def line_bytes_def line_ok_def blank_line_def)
  next
    case 3
    have "reads (rbind (wt_qpack_integer_decode 4) (\<lambda>index.
        rreturn ((blank_line WT_QPACK_FIELD_POST_BASE_INDEX)\<lparr>fl_index := index\<rparr>)))
      (integer_bytes 4 0x10 (fl_index l) @ []) ((blank_line WT_QPACK_FIELD_POST_BASE_INDEX)\<lparr>fl_index := fl_index l\<rparr>)"
      using p 3 by (intro reads_index [OF idx]) simp_all
    with flags(1-4) 3 ok show ?thesis
      unfolding bare_line_blank by (simp add: line_body_def line_bytes_def line_ok_def blank_line_def)
  qed
qed

lemma reads_name_ref_body:
  assumes ok: "line_ok l" and m: "m < 2 ^ line_prefix (fl_kind l)"
    and kind: "fl_kind l \<in> {WT_QPACK_FIELD_LITERAL_NAME_REF_STATIC, WT_QPACK_FIELD_LITERAL_NAME_REF_DYNAMIC, WT_QPACK_FIELD_POST_BASE_NAME_REF}"
  shows "reads (line_body (line_flags l OR of_nat m)) (line_bytes l) (bare_line l)"
proof -
  note flags = first_byte_flags [OF line_prefix_ok [of "fl_kind l" "fl_never_indexed l" "fl_name_huffman l"] m]
  note p = line_prefix_ok [of "fl_kind l" "fl_never_indexed l" "fl_name_huffman l"]
  have idx: "fl_index l \<le> WT_QPACK_INTEGER_MAX" using ok by (simp add: line_ok_def)
  note val = reads_line_value [OF line_ok_lengths(2) [OF ok], of _ "fl_value_huffman l"]
  from kind consider (1) "fl_kind l = WT_QPACK_FIELD_LITERAL_NAME_REF_STATIC" | (2) "fl_kind l = WT_QPACK_FIELD_LITERAL_NAME_REF_DYNAMIC" | (3) "fl_kind l = WT_QPACK_FIELD_POST_BASE_NAME_REF" by blast
  then show ?thesis
  proof cases
    case 1
    have "reads (rbind (wt_qpack_integer_decode 4) (\<lambda>index.
        line_value ((blank_line WT_QPACK_FIELD_LITERAL_NAME_REF_STATIC)
          \<lparr>fl_index := index, fl_never_indexed := fl_never_indexed l\<rparr>)))
      (integer_bytes 4 (line_flags l) (fl_index l) @ wire_bytes (fl_value_huffman l) (value_wire l))
      ((blank_line WT_QPACK_FIELD_LITERAL_NAME_REF_STATIC)\<lparr>fl_index := fl_index l, fl_never_indexed := fl_never_indexed l,
        fl_value := value_wire l, fl_value_huffman := fl_value_huffman l\<rparr>)"
      using p 1 by (intro reads_index [OF idx] val) simp_all
    with flags(1-4) 1 ok show ?thesis
      unfolding bare_line_blank
      by (cases "fl_never_indexed l")
        (simp_all add: line_body_def line_bytes_def line_ok_def blank_line_def)
  next
    case 2
    have "reads (rbind (wt_qpack_integer_decode 4) (\<lambda>index.
        line_value ((blank_line WT_QPACK_FIELD_LITERAL_NAME_REF_DYNAMIC)
          \<lparr>fl_index := index, fl_never_indexed := fl_never_indexed l\<rparr>)))
      (integer_bytes 4 (line_flags l) (fl_index l) @ wire_bytes (fl_value_huffman l) (value_wire l))
      ((blank_line WT_QPACK_FIELD_LITERAL_NAME_REF_DYNAMIC)\<lparr>fl_index := fl_index l, fl_never_indexed := fl_never_indexed l,
        fl_value := value_wire l, fl_value_huffman := fl_value_huffman l\<rparr>)"
      using p 2 by (intro reads_index [OF idx] val) simp_all
    with flags(1-4) 2 ok show ?thesis
      unfolding bare_line_blank
      by (cases "fl_never_indexed l")
        (simp_all add: line_body_def line_bytes_def line_ok_def blank_line_def)
  next
    case 3
    have "reads (rbind (wt_qpack_integer_decode 3) (\<lambda>index.
        line_value ((blank_line WT_QPACK_FIELD_POST_BASE_NAME_REF)
          \<lparr>fl_index := index, fl_never_indexed := fl_never_indexed l\<rparr>)))
      (integer_bytes 3 (line_flags l) (fl_index l) @ wire_bytes (fl_value_huffman l) (value_wire l))
      ((blank_line WT_QPACK_FIELD_POST_BASE_NAME_REF)\<lparr>fl_index := fl_index l, fl_never_indexed := fl_never_indexed l,
        fl_value := value_wire l, fl_value_huffman := fl_value_huffman l\<rparr>)"
      using p 3 by (intro reads_index [OF idx] val) simp_all
    with flags 3 ok show ?thesis
      unfolding bare_line_blank
      by (cases "fl_never_indexed l")
        (simp_all add: line_body_def line_bytes_def line_ok_def blank_line_def)
  qed
qed

lemma reads_literal_body:
  assumes ok: "line_ok l" and m: "m < 2 ^ line_prefix (fl_kind l)"
    and kind: "fl_kind l = WT_QPACK_FIELD_LITERAL_LITERAL_NAME"
  shows "reads (line_body (line_flags l OR of_nat m)) (line_bytes l) (bare_line l)"
proof -
  note flags = first_byte_flags [OF line_prefix_ok [of "fl_kind l" "fl_never_indexed l" "fl_name_huffman l"] m]
  note p = line_prefix_ok [of "fl_kind l" "fl_never_indexed l" "fl_name_huffman l"]
  note val = reads_line_value [OF line_ok_lengths(2) [OF ok], of _ "fl_value_huffman l"]
  let ?n = "of_nat (length (name_wire l)) :: u64"
  let ?l = "(blank_line WT_QPACK_FIELD_LITERAL_LITERAL_NAME)
    \<lparr>fl_never_indexed := fl_never_indexed l, fl_name_huffman := fl_name_huffman l, fl_name := name_wire l\<rparr>"
  have "reads (view_or WT_ERR_TRUNCATED ?n) (name_wire l) (name_wire l)"
    using line_ok_lengths(1) [OF ok] by (intro reads_view_or) simp
  from reads_bind [OF this val, of "\<lambda>name. (blank_line WT_QPACK_FIELD_LITERAL_LITERAL_NAME)
    \<lparr>fl_never_indexed := fl_never_indexed l, fl_name_huffman := fl_name_huffman l, fl_name := name\<rparr>"]
  have "reads (rbind (wt_qpack_integer_decode 3) (\<lambda>len. rbind (view_or WT_ERR_TRUNCATED len) (\<lambda>name.
      line_value ((blank_line WT_QPACK_FIELD_LITERAL_LITERAL_NAME)
        \<lparr>fl_never_indexed := fl_never_indexed l, fl_name_huffman := fl_name_huffman l, fl_name := name\<rparr>))))
    (integer_bytes 3 (line_flags l) ?n @ name_wire l @ wire_bytes (fl_value_huffman l) (value_wire l))
    (?l\<lparr>fl_value := value_wire l, fl_value_huffman := fl_value_huffman l\<rparr>)"
    using p kind of_nat_integer [OF line_ok_lengths(1) [OF ok]]
    by (intro reads_bind [OF reads_integer]) simp_all
  with flags kind ok show ?thesis
    unfolding bare_line_blank
    by (cases "fl_never_indexed l"; cases "fl_name_huffman l")
      (simp_all add: line_body_def line_bytes_def line_ok_def blank_line_def)
qed

lemma reads_line_body:
  assumes "line_ok l" "m < 2 ^ line_prefix (fl_kind l)"
  shows "reads (line_body (line_flags l OR of_nat m)) (line_bytes l) (bare_line l)"
  using reads_indexed_body [OF assms] reads_name_ref_body [OF assms] reads_literal_body [OF assms]
  by (cases "fl_kind l") simp_all

lemma reads_line:
  assumes "line_ok l"
  shows "reads wt_qpack_field_line_decode (line_bytes l) (wire_line l)"
proof -
  have "reads (rbind (rpeek WT_ERR_TRUNCATED) line_body) (line_bytes l) (bare_line l)"
    using reads_line_body [OF assms] unfolding line_bytes_def
    by (intro reads_peek_integer [OF line_prefix_ok]) simp
  from reads_consumed [OF this] show ?thesis
    by (simp add: wt_qpack_field_line_decode_def [abs_def] wire_line_def)
qed

lemma line_safe [simp]: "reader_safe wt_qpack_field_line_decode"
proof -
  have v: "reader_safe (line_value l)" for l
    unfolding line_value_def by (intro reader_safe_bind) (simp_all add: case_prod_beta)
  have "reader_safe (line_body b)" for b
    unfolding line_body_def narrow_u64_to_size sum.case
    by (intro reader_safe_if reader_safe_bind v) simp_all
  then have "reader_safe (rbind (rpeek WT_ERR_TRUNCATED) line_body)"
    by (intro reader_safe_bind) simp_all
  then show ?thesis
    by (simp add: reader_safe_def wt_qpack_field_line_decode_def split: prod.splits sum.splits) force
qed

subsection \<open>The section prefix on the wire\<close>

lemma reads_integer_or:
  "prefix_ok n flags \<Longrightarrow> v \<le> WT_QPACK_INTEGER_MAX \<Longrightarrow> reads (integer_or e n) (integer_bytes n flags v) v"
  using reads_integer [of n flags v] by (simp add: reads_def integer_or_def)

lemma integer_or_safe [simp]: "reader_safe (integer_or e n)"
  using integer_safe [of n] unfolding reader_safe_def integer_or_def
  by (fastforce split: prod.splits sum.splits)

text \<open>The count modulo the full range determines the count within one full range below the maximum.\<close>

lemma wrapped_count:
  fixes r v m :: nat
  assumes "0 < m" "r \<le> v" "v < r + m"
  shows "v div m * m + r mod m = (if r mod m \<le> v mod m then r else r + m)"
    "r mod m \<le> v mod m \<longleftrightarrow> v div m * m + r mod m \<le> v"
proof -
  have "r div m \<le> v div m" using assms(2) by (rule div_le_mono)
  moreover have "v div m \<le> (r + m) div m" using assms(3) by (intro div_le_mono) simp
  moreover have "(r + m) div m = Suc (r div m)" using assms(1) div_add_self2 [of m r] by simp
  ultimately have q: "v div m = r div m \<or> v div m = Suc (r div m)" by linarith
  note r = div_mult_mod_eq [of r m] and v = div_mult_mod_eq [of v m]
  show "r mod m \<le> v mod m \<longleftrightarrow> v div m * m + r mod m \<le> v" using v by linarith
  show "v div m * m + r mod m = (if r mod m \<le> v mod m then r else r + m)"
  proof (cases "v div m = r div m")
    case True
    then have "r mod m \<le> v mod m" using r v assms(2) by (metis nat_add_left_cancel_le)
    with True r show ?thesis by simp
  next
    case False
    with q have s: "v div m = Suc (r div m)" by simp
    then have v': "v = r div m * m + m + v mod m" using v by (metis add.commute mult_Suc)
    then have "\<not> r mod m \<le> v mod m" using r assms(3) by linarith
    with s r show ?thesis by simp
  qed
qed

lemma required_insert_count_window:
  assumes "V = known + max_entries" "f = 2 * max_entries" "m = V div f * f" "e + 1 \<noteq> 0" "\<not> e + 1 > f"
  shows "required_insert_count max_entries known (e + 1) =
    (if m + e > V then if m + e \<le> f then None else if m + e - f = 0 then None else Some (m + e - f)
     else if m + e = 0 then None else Some (m + e))"
proof -
  have eq: "m + (e + 1) - 1 = m + e" by simp
  show ?thesis
    unfolding required_insert_count_def Let_def if_not_P [OF assms(4)] assms(1-3) [symmetric]
      if_not_P [OF assms(5)] eq ..
qed

lemma required_insert_count_exact:
  assumes "ric \<noteq> 0" "unat known + 3 * unat max_entries < 2 ^ 64"
    and "unat ric \<le> unat known + unat max_entries" "unat known < unat ric + unat max_entries"
  shows "required_insert_count max_entries known (ric mod (2 * max_entries) + 1) = Some ric"
proof -
  let ?M = "unat max_entries" and ?F = "2 * unat max_entries" and ?V = "unat known + unat max_entries"
  have M: "0 < ?M" using assms(3,4) by linarith
  have F: "unat (2 * max_entries) = ?F" using assms(2) by (simp add: unat_word_ariths)
  have V: "unat (known + max_entries) = ?V" using assms(2) by (intro unat_add_no_wrap) simp
  have mod: "unat (ric mod (2 * max_entries)) = unat ric mod ?F" by (simp add: unat_mod F)
  have modlt: "unat ric mod ?F < ?F" using M by simp
  have enc: "unat (ric mod (2 * max_entries) + 1) = unat ric mod ?F + 1"
    using modlt assms(2) mod by (subst unat_add_no_wrap) simp_all
  have W: "unat ((known + max_entries) div (2 * max_entries) * (2 * max_entries)) = ?V div ?F * ?F"
  proof -
    have "?V div ?F * ?F \<le> ?V" by simp
    then have "?V div ?F * ?F < 2 ^ 64" using assms(2) by linarith
    then have "unat ((known + max_entries) div (2 * max_entries)) * unat (2 * max_entries) < 2 ^ LENGTH(64)"
      by (simp only: unat_div F V len_num0 len_num1 len_bit0 len_bit1) simp
    then have "unat ((known + max_entries) div (2 * max_entries) * (2 * max_entries)) =
        unat ((known + max_entries) div (2 * max_entries)) * unat (2 * max_entries)"
      by (rule unat_mult_lem [THEN iffD1])
    then show ?thesis by (simp add: unat_div F V)
  qed
  have R: "unat ((known + max_entries) div (2 * max_entries) * (2 * max_entries) +
      ric mod (2 * max_entries)) = ?V div ?F * ?F + unat ric mod ?F" (is "unat ?R = ?r")
  proof -
    have "?V div ?F * ?F \<le> ?V" by simp
    then have "unat ((known + max_entries) div (2 * max_entries) * (2 * max_entries)) +
        unat (ric mod (2 * max_entries)) < 2 ^ 64"
      unfolding W mod using modlt assms(2) by linarith
    from unat_add_no_wrap [OF this] show ?thesis unfolding W mod .
  qed
  have wrap: "?r = (if unat ric mod ?F \<le> ?V mod ?F then unat ric else unat ric + ?F)"
    "unat ric mod ?F \<le> ?V mod ?F \<longleftrightarrow> ?r \<le> ?V"
    using wrapped_count [of ?F "unat ric" ?V] M assms(3,4) by simp_all
  have ric: "0 < unat ric" using assms(1) by (simp add: unat_gt_0)
  have nz: "ric mod (2 * max_entries) + 1 \<noteq> 0" using enc by (metis add_is_0 one_neq_zero unat_0)
  have le: "\<not> ric mod (2 * max_entries) + 1 > 2 * max_entries"
    using enc F modlt by (simp add: word_less_nat_alt)
  note red = required_insert_count_window [OF refl refl refl nz le]
  show ?thesis
  proof (cases "?r \<le> ?V")
    case True
    with wrap(2) have "unat ric mod ?F \<le> ?V mod ?F" by (rule iffD2)
    with wrap(1) have "?r = unat ric" by (simp only: if_True)
    with R have eq: "?R = ric" by (simp only: word_unat_eq_iff)
    have "\<not> ric > known + max_entries" using V assms(3) by (simp only: word_less_nat_alt not_less)
    then show ?thesis unfolding red eq if_not_P [OF assms(1)] by (simp only: if_False)
  next
    case False
    with wrap(2) have "\<not> unat ric mod ?F \<le> ?V mod ?F" by blast
    with wrap(1) have "?r = unat ric + ?F" by (simp only: if_False)
    with R have r: "unat ?R = unat ric + ?F" by (rule trans)
    have gt: "?R > known + max_entries" and le: "\<not> ?R \<le> 2 * max_entries"
      using False R V F r ric by (simp_all only: word_less_nat_alt word_le_nat_alt not_le)
    have "?R - 2 * max_entries = ric"
      using r F by (simp only: word_unat_eq_iff unat_sub_le word_le_nat_alt)
    then show ?thesis unfolding red if_P [OF gt] if_not_P [OF le] using assms(1) by (simp only: if_False)
  qed
qed

definition prefix_bytes :: "u64 \<Rightarrow> u64 \<Rightarrow> u64 \<Rightarrow> u8 list" where
  "prefix_bytes ric base max_entries =
     integer_bytes 8 0 (if ric = 0 then 0 else ric mod (2 * max_entries) + 1) @
     (if base \<ge> ric then integer_bytes 7 0 (base - ric) else integer_bytes 7 0x80 (ric - base - 1))"

definition prefix_sendable :: "u64 \<Rightarrow> u64 \<Rightarrow> u64 \<Rightarrow> bool" where
  "prefix_sendable ric base max_entries \<longleftrightarrow>
     2 * unat max_entries < 2 ^ 62 \<and> (ric \<noteq> 0 \<longrightarrow> max_entries \<noteq> 0) \<and>
     (if base \<ge> ric then base - ric else ric - base - 1) \<le> WT_QPACK_INTEGER_MAX"

lemma prefix_encoded_le:
  assumes "prefix_sendable ric base max_entries"
  shows "(if ric = 0 then 0 else ric mod (2 * max_entries) + 1) \<le> WT_QPACK_INTEGER_MAX"
    "\<not> (max_entries > 0 \<and> 2 * max_entries < max_entries)"
proof -
  have F: "unat (2 * max_entries) = 2 * unat max_entries" and F62: "2 * unat max_entries < 2 ^ 62"
    using assms by (simp_all add: prefix_sendable_def unat_word_ariths)
  then show "\<not> (max_entries > 0 \<and> 2 * max_entries < max_entries)" by (simp add: word_less_nat_alt)
  have "unat (ric mod (2 * max_entries) + 1) \<le> 2 * unat max_entries" if "ric \<noteq> 0"
  proof -
    have "max_entries \<noteq> 0" using assms that by (simp add: prefix_sendable_def)
    then have "0 < unat max_entries" by (simp add: unat_gt_0)
    then have "unat (ric mod (2 * max_entries)) < 2 * unat max_entries" using F by (simp add: unat_mod)
    then show ?thesis using F62 by (subst unat_add_no_wrap) simp_all
  qed
  then show "(if ric = 0 then 0 else ric mod (2 * max_entries) + 1) \<le> WT_QPACK_INTEGER_MAX"
    using F62 by (cases "ric = 0") (simp_all add: word_le_nat_alt WT_QUIC_VARINT_MAX_def)
qed

lemma appends_prefix:
  assumes "prefix_sendable ric base max_entries"
  shows "appends (wt_qpack_header_prefix_encode ric base max_entries) (prefix_bytes ric base max_entries)"
proof -
  note le = prefix_encoded_le [OF assms]
  let ?e = "if ric = 0 then 0 else ric mod (2 * max_entries) + 1"
  have p: "prefix_ok 8 0" "prefix_ok 7 0" "prefix_ok 7 0x80" by (simp_all add: prefix_ok_def)
  have d: "(if base \<ge> ric then base - ric else ric - base - 1) \<le> WT_QPACK_INTEGER_MAX"
    using assms by (simp add: prefix_sendable_def)
  note e = appends_integer [OF p(1) le(1)]
  have "wt_qpack_header_prefix_encode ric base max_entries =
      wseq (wt_qpack_integer_encode 8 0 ?e)
        (wt_qpack_integer_encode 7 (if base \<ge> ric then 0 else 0x80) (if base \<ge> ric then base - ric else ric - base - 1))"
  proof (rule ext)
    fix w
    have max: "WT_QUIC_VARINT_MAX = 0x3fffffffffffffff" by (simp add: WT_QUIC_VARINT_MAX_def)
    have nz: "\<not> (ric \<noteq> 0 \<and> max_entries = 0)" using assms by (auto simp: prefix_sendable_def)
    show "wt_qpack_header_prefix_encode ric base max_entries w =
      wseq (wt_qpack_integer_encode 8 0 ?e)
        (wt_qpack_integer_encode 7 (if base \<ge> ric then 0 else 0x80) (if base \<ge> ric then base - ric else ric - base - 1)) w"
      unfolding wt_qpack_header_prefix_encode_def Let_def if_not_P [OF le(2)] if_not_P [OF nz]
      using d unfolding max by (cases "base \<ge> ric") (auto dest: leD)
  qed
  then show ?thesis
    using appends_wseq [OF e appends_integer [OF p(2), of "base - ric"]]
      appends_wseq [OF e appends_integer [OF p(3), of "ric - base - 1"]] d
    by (simp add: prefix_bytes_def split: if_splits)
qed

lemma prefix_base_exact:
  "base \<ge> ric \<Longrightarrow> prefix_base ric False (base - ric) = Some base"
  "\<not> base \<ge> ric \<Longrightarrow> prefix_base ric True (ric - base - 1) = Some base"
proof -
  assume ge: "base \<ge> ric"
  have "base - ric \<le> (- 1) - ric"
    using ge unat_u64_less [of base]
    by (simp add: word_le_nat_alt unat_sub_le unsigned_minus_1_eq_mask mask_eq_exp_minus_1)
  then show "prefix_base ric False (base - ric) = Some base" by (simp add: prefix_base_def)
next
  assume lt: "\<not> base \<ge> ric"
  then have b: "unat base < unat ric" by (simp add: word_le_nat_alt)
  then have "unat (ric - base) = unat ric - unat base" by (simp add: unat_sub_le word_le_nat_alt)
  moreover from this b have "unat (ric - base - 1) = unat ric - unat base - 1"
    by (subst unat_sub_le) (simp_all add: word_le_nat_alt)
  ultimately have "\<not> ric - base - 1 \<ge> ric" using b by (simp add: word_le_nat_alt)
  then show "prefix_base ric True (ric - base - 1) = Some base" by (simp add: prefix_base_def)
qed

lemma reads_prefix:
  assumes send: "prefix_sendable ric base max_entries"
    and known: "unat known + 3 * unat max_entries < 2 ^ 64"
    and window: "ric \<noteq> 0 \<Longrightarrow> unat ric \<le> unat known + unat max_entries \<and> unat known < unat ric + unat max_entries"
  shows "reads (wt_qpack_header_prefix_decode max_entries known) (prefix_bytes ric base max_entries)
    \<lparr>hp_required_insert_count = ric, hp_base = base\<rparr>"
proof -
  note le = prefix_encoded_le [OF send]
  let ?e = "if ric = 0 then 0 else ric mod (2 * max_entries) + 1"
  let ?f = "if base \<ge> ric then 0 else 0x80 :: u8" and ?d = "if base \<ge> ric then base - ric else ric - base - 1"
  have p: "prefix_ok 8 0" "prefix_ok 7 ?f" by (simp_all add: prefix_ok_def)
  have d: "?d \<le> WT_QPACK_INTEGER_MAX" using send by (simp add: prefix_sendable_def)
  have req: "required_insert_count max_entries known ?e = Some ric"
    using required_insert_count_exact [OF _ known] window
    by (cases "ric = 0") (simp_all add: required_insert_count_def)
  have base: "prefix_base ric (?f \<noteq> 0) ?d = Some base" using prefix_base_exact by simp
  show ?thesis
    unfolding wt_qpack_header_prefix_decode_def Let_def
  proof (subst if_not_P [OF le(2)], rule reads_bindI [OF reads_integer_or [OF p(1) le(1)]])
    show "prefix_bytes ric base max_entries = integer_bytes 8 0 ?e @ integer_bytes 7 ?f ?d @ []"
      by (simp add: prefix_bytes_def)
    show "reads (rbind (rpeek (WT_ERR_TRUNCATED, WT_QPACK_ERROR_NONE)) (\<lambda>first.
        rbind (integer_or WT_QPACK_ERROR_DECOMPRESSION_FAILED 7) (\<lambda>delta.
        case required_insert_count max_entries known ?e of
          None \<Rightarrow> rfail (WT_ERR_PROTOCOL, WT_QPACK_ERROR_DECOMPRESSION_FAILED)
        | Some required \<Rightarrow>
            (case prefix_base required (first AND 0x80 \<noteq> 0) delta of
               None \<Rightarrow> rfail (WT_ERR_PROTOCOL, WT_QPACK_ERROR_DECOMPRESSION_FAILED)
             | Some base \<Rightarrow> rreturn \<lparr>hp_required_insert_count = required, hp_base = base\<rparr>))))
      (integer_bytes 7 ?f ?d @ []) \<lparr>hp_required_insert_count = ric, hp_base = base\<rparr>"
    proof (rule reads_peek_integer [OF p(2)], rule reads_bind [OF reads_integer_or [OF p(2) d]])
      fix m :: nat assume m: "m < 2 ^ 7"
      have "((?f OR of_nat m) AND 0x80 \<noteq> 0) = (?f \<noteq> 0)"
        using first_byte_flags(1) [OF p(2) m] by simp
      then show "reads (case required_insert_count max_entries known ?e of
          None \<Rightarrow> rfail (WT_ERR_PROTOCOL, WT_QPACK_ERROR_DECOMPRESSION_FAILED)
        | Some required \<Rightarrow>
            (case prefix_base required ((?f OR of_nat m) AND 0x80 \<noteq> 0) ?d of
               None \<Rightarrow> rfail (WT_ERR_PROTOCOL, WT_QPACK_ERROR_DECOMPRESSION_FAILED)
             | Some base \<Rightarrow> rreturn \<lparr>hp_required_insert_count = required, hp_base = base\<rparr>))
        [] \<lparr>hp_required_insert_count = ric, hp_base = base\<rparr>"
        by (simp only: req base option.case reads_return)
    qed
  qed
qed

subsection \<open>Properties of field lines and the section prefix\<close>

text \<open>Field lines survive the wire. A line of any of the seven forms, coded into a buffer with
  or without Huffman coding, decodes to the same form, flags and index, with the name and value as
  they stand on the wire and the exact number of bytes it took, whatever follows it.\<close>

lemma wt_qpack_field_line_round_trip:
  assumes "line_ok l" "scratch_fits l capacity" "unat cap \<le> length d"
    and "wt_qpack_field_line_encode_coded l capacity (wt_writer_init (Some d) cap) = (WT_OK, w)"
    and "length (writer_out w @ rest) < 2 ^ 64"
  shows "fst (wt_qpack_field_line_decode (cursor_of (writer_out w @ rest))) = Inr (wire_line l)"
proof -
  note enc = appends_init [OF appends_line [OF assms(1,2)] assms(3)]
  have "writer_out w = line_bytes l" using enc assms(4) by (auto split: if_splits)
  with reads_of [OF reads_line [OF assms(1)], of rest] assms(5) show ?thesis by simp
qed

text \<open>The section prefix survives the wire. A required insert count within one table size of the
  number of insertions the decoder knows is recovered from its value modulo twice the table size,
  together with the base, whichever side of the count the base lies on.\<close>

lemma wt_qpack_header_prefix_round_trip:
  assumes "prefix_sendable ric base max_entries" "unat known + 3 * unat max_entries < 2 ^ 64"
    and "ric \<noteq> 0 \<longrightarrow> unat ric \<le> unat known + unat max_entries \<and> unat known < unat ric + unat max_entries"
    and "unat cap \<le> length d"
    and "wt_qpack_header_prefix_encode ric base max_entries (wt_writer_init (Some d) cap) = (WT_OK, w)"
    and "length (writer_out w @ rest) < 2 ^ 64"
  shows "fst (wt_qpack_header_prefix_decode max_entries known (cursor_of (writer_out w @ rest))) =
    Inr \<lparr>hp_required_insert_count = ric, hp_base = base\<rparr>"
proof -
  note enc = appends_init [OF appends_prefix [OF assms(1)] assms(4)]
  have "writer_out w = prefix_bytes ric base max_entries" using enc assms(5) by (auto split: if_splits)
  with reads_of [OF reads_prefix [OF assms(1,2)], of rest] assms(3,6) show ?thesis by simp
qed

end
