(* ===== verification/Qpack_Streams.thy ===== *)
theory Qpack_Streams
  imports Qpack_Field
begin

text \<open>
  QPACK's two unidirectional streams and the encoder's bookkeeping: the instructions that fill the
  peer's dynamic table (\<open>C99/src/http3/qpack_encoder_stream.c\<close>), the acknowledgements that come back
  (\<open>qpack_decoder_stream.c\<close>), and the record of the sections still in flight
  (\<open>qpack_encoder_state.c\<close>). One call of \<open>wt_qpack_encoder_stream_apply\<close> reads one whole instruction
  (\<open>encoder_parse\<close>) and then carries it out (\<open>encoder_execute\<close>); a result \<open>None\<close> is \<open>WT_OK\<close>.
\<close>

subsection \<open>The encoder stream\<close>

record wt_qpack_encoder_stream =
  qs_table :: "wt_qpack_dynamic_table option"
  qs_max_capacity :: u64

definition wt_qpack_encoder_stream_init :: "wt_qpack_dynamic_table option \<Rightarrow> u64 \<Rightarrow> wt_qpack_encoder_stream" where
  "wt_qpack_encoder_stream_init table max_capacity = \<lparr>qs_table = table, qs_max_capacity = max_capacity\<rparr>"

definition resolve_relative :: "wt_qpack_dynamic_table \<Rightarrow> u64 \<Rightarrow> u64 wt_result" where
  "resolve_relative t relative =
     (if relative \<ge> dt_insert_count t then Inl WT_ERR_CLOSED
      else
        let absolute = dt_insert_count t - 1 - relative in
        if absolute < dt_dropped t then Inl WT_ERR_CLOSED else Inr absolute)"

definition apply_insert ::
  "wt_qpack_dynamic_table \<Rightarrow> byte_view \<Rightarrow> byte_view \<Rightarrow> qpack_fail option \<times> wt_qpack_dynamic_table" where
  "apply_insert t name val =
     (case wt_qpack_dynamic_insert t name val of
        (Inr _, t') \<Rightarrow> (None, t')
      | (Inl status, t') \<Rightarrow>
          (Some (if status = WT_ERR_LIMIT then WT_ERR_LIMIT else WT_ERR_PROTOCOL,
             WT_QPACK_ERROR_ENCODER_STREAM), t'))"

text \<open>The four instructions of RFC 9204 section 4.3, as the reader finds them.\<close>

datatype encoder_instruction =
  INSERT_NAME_REFERENCE bool u64 "u8 list"
| INSERT_LITERAL "u8 list" "u8 list"
| SET_CAPACITY u64
| DUPLICATE u64

definition string_or :: "wt_qpack_error \<Rightarrow> (qpack_fail, u8 list \<times> bool) xreader" where
  "string_or e c =
     (case wt_qpack_string_decode c of
        (Inl s, c') \<Rightarrow>
          (Inl (if s = WT_ERR_TRUNCATED then (WT_ERR_TRUNCATED, WT_QPACK_ERROR_NONE) else (WT_ERR_PROTOCOL, e)), c')
      | (Inr v, c') \<Rightarrow> (Inr v, c'))"

definition encoder_body :: "u8 \<Rightarrow> (qpack_fail, encoder_instruction) xreader" where
  "encoder_body first =
     (let e = WT_QPACK_ERROR_ENCODER_STREAM in
      if first AND 0x80 \<noteq> 0 then
        rbind (integer_or e 6) (\<lambda>index.
        rbind (string_or e) (\<lambda>(val, value_huffman).
        if value_huffman then rfail (WT_ERR_STATE, e)
        else rreturn (INSERT_NAME_REFERENCE (first AND 0x40 \<noteq> 0) index val)))
      else if first AND 0x40 \<noteq> 0 then
        rbind (integer_or e 5) (\<lambda>name_length.
        if name_length > - 1 then rfail (WT_ERR_LIMIT, e)
        else
          rbind (view_or (WT_ERR_TRUNCATED, WT_QPACK_ERROR_NONE) name_length) (\<lambda>name.
          rbind (string_or e) (\<lambda>(val, value_huffman).
          if first AND 0x20 \<noteq> 0 \<or> value_huffman then rfail (WT_ERR_STATE, e)
          else rreturn (INSERT_LITERAL name val))))
      else if first AND 0x20 \<noteq> 0 then
        rbind (integer_or e 5) (\<lambda>capacity. rreturn (SET_CAPACITY capacity))
      else
        rbind (integer_or e 5) (\<lambda>relative. rreturn (DUPLICATE relative)))"

definition encoder_parse :: "(qpack_fail, encoder_instruction) xreader" where
  "encoder_parse = rbind (rpeek (WT_ERR_TRUNCATED, WT_QPACK_ERROR_ENCODER_STREAM)) encoder_body"

text \<open>A relative index, resolved and looked up; the table's views are what an insertion copies from.\<close>

definition relative_entry :: "wt_qpack_dynamic_table \<Rightarrow> u64 \<Rightarrow> (byte_view \<times> byte_view) option" where
  "relative_entry t relative =
     (case resolve_relative t relative of
        Inl _ \<Rightarrow> None
      | Inr absolute \<Rightarrow> (case wt_qpack_dynamic_entry t absolute of Inl _ \<Rightarrow> None | Inr views \<Rightarrow> Some views))"

definition encoder_execute ::
  "u64 \<Rightarrow> encoder_instruction \<Rightarrow> wt_qpack_dynamic_table \<Rightarrow> qpack_fail option \<times> wt_qpack_dynamic_table" where
  "encoder_execute max_capacity instruction t =
     (let refused = Some (WT_ERR_PROTOCOL, WT_QPACK_ERROR_ENCODER_STREAM) in
      case instruction of
        INSERT_NAME_REFERENCE from_static index val \<Rightarrow>
          if from_static then
            (case wt_qpack_static_entry index of
               Inl _ \<Rightarrow> (refused, t)
             | Inr entry \<Rightarrow> apply_insert t (VIEW_BYTES (se_name entry)) (VIEW_BYTES val))
          else
            (case relative_entry t index of
               None \<Rightarrow> (refused, t)
             | Some (name, _) \<Rightarrow> apply_insert t name (VIEW_BYTES val))
      | INSERT_LITERAL name val \<Rightarrow> apply_insert t (VIEW_BYTES name) (VIEW_BYTES val)
      | SET_CAPACITY capacity \<Rightarrow>
          if capacity > max_capacity then (refused, t) else (None, wt_qpack_dynamic_set_capacity t capacity)
      | DUPLICATE relative \<Rightarrow>
          (case relative_entry t relative of
             None \<Rightarrow> (refused, t)
           | Some (name, val) \<Rightarrow> apply_insert t name val))"

definition wt_qpack_encoder_stream_apply ::
  "wt_qpack_encoder_stream \<Rightarrow> wt_cursor \<Rightarrow> qpack_fail option \<times> wt_qpack_encoder_stream \<times> wt_cursor" where
  "wt_qpack_encoder_stream_apply stream c =
     (case qs_table stream of
        None \<Rightarrow> (Some (WT_ERR_STATE, WT_QPACK_ERROR_NONE), stream, c)
      | Some t \<Rightarrow>
          (case encoder_parse c of
             (Inl e, c') \<Rightarrow> (Some e, stream, c')
           | (Inr instruction, c') \<Rightarrow>
               let (r, t') = encoder_execute (qs_max_capacity stream) instruction t
               in (r, stream\<lparr>qs_table := Some t'\<rparr>, c')))"

definition wt_qpack_encoder_stream_write_capacity :: "u64 \<Rightarrow> wt_writer \<Rightarrow> wt_status \<times> wt_writer" where
  "wt_qpack_encoder_stream_write_capacity capacity = wt_qpack_integer_encode 5 0x20 capacity"

definition wt_qpack_encoder_stream_write_insert_name_reference ::
  "bool \<Rightarrow> u64 \<Rightarrow> u8 list \<Rightarrow> wt_writer \<Rightarrow> wt_status \<times> wt_writer" where
  "wt_qpack_encoder_stream_write_insert_name_reference from_static index val =
     wseq (wt_qpack_integer_encode 6 (if from_static then 0xC0 else 0x80) index) (wt_qpack_string_encode val)"

definition wt_qpack_encoder_stream_write_insert_literal ::
  "u8 list \<Rightarrow> u8 list \<Rightarrow> wt_writer \<Rightarrow> wt_status \<times> wt_writer" where
  "wt_qpack_encoder_stream_write_insert_literal name val =
     wseq (wseq (wt_qpack_integer_encode 5 0x40 (of_nat (length name))) (put_bytes name)) (wt_qpack_string_encode val)"

definition wt_qpack_encoder_stream_write_duplicate :: "u64 \<Rightarrow> wt_writer \<Rightarrow> wt_status \<times> wt_writer" where
  "wt_qpack_encoder_stream_write_duplicate relative_index = wt_qpack_integer_encode 5 0x00 relative_index"

subsection \<open>The decoder stream\<close>

record wt_qpack_decoder_stream =
  ds_acknowledged_insert_count :: u64
  ds_sections_acknowledged :: u64
  ds_streams_cancelled :: u64

definition wt_qpack_decoder_stream_init :: wt_qpack_decoder_stream where
  "wt_qpack_decoder_stream_init =
     \<lparr>ds_acknowledged_insert_count = 0, ds_sections_acknowledged = 0, ds_streams_cancelled = 0\<rparr>"

text \<open>The increment rule of section 4.4.3, which both ends of the stream apply to their own count.\<close>

definition increment_refused :: "u64 \<Rightarrow> wt_qpack_dynamic_table option \<Rightarrow> u64 \<Rightarrow> bool" where
  "increment_refused acknowledged table increment \<longleftrightarrow>
     increment = 0 \<or> acknowledged > (- 1) - increment \<or>
     (case table of None \<Rightarrow> False | Some t \<Rightarrow> acknowledged + increment > dt_insert_count t)"

definition wt_qpack_decoder_stream_apply ::
  "wt_qpack_decoder_stream \<Rightarrow> wt_qpack_dynamic_table option \<Rightarrow> (qpack_fail, wt_qpack_decoder_stream) xreader" where
  "wt_qpack_decoder_stream_apply stream table =
     (let e = WT_QPACK_ERROR_DECODER_STREAM in
      rbind (rpeek (WT_ERR_TRUNCATED, e)) (\<lambda>first.
      if first AND 0x80 \<noteq> 0 then
        rbind (integer_or e 7) (\<lambda>section_id.
        rreturn (stream\<lparr>ds_sections_acknowledged := ds_sections_acknowledged stream + 1\<rparr>))
      else if first AND 0x40 \<noteq> 0 then
        rbind (integer_or e 6) (\<lambda>stream_id.
        rreturn (stream\<lparr>ds_streams_cancelled := ds_streams_cancelled stream + 1\<rparr>))
      else
        rbind (integer_or e 6) (\<lambda>increment.
        if increment_refused (ds_acknowledged_insert_count stream) table increment then rfail (WT_ERR_PROTOCOL, e)
        else rreturn (stream\<lparr>ds_acknowledged_insert_count := ds_acknowledged_insert_count stream + increment\<rparr>))))"

definition wt_qpack_decoder_stream_write_section_acknowledgement ::
  "u64 \<Rightarrow> wt_writer \<Rightarrow> wt_status \<times> wt_writer" where
  "wt_qpack_decoder_stream_write_section_acknowledgement section_id = wt_qpack_integer_encode 7 0x80 section_id"

definition wt_qpack_decoder_stream_write_stream_cancellation ::
  "u64 \<Rightarrow> wt_writer \<Rightarrow> wt_status \<times> wt_writer" where
  "wt_qpack_decoder_stream_write_stream_cancellation stream_id = wt_qpack_integer_encode 6 0x40 stream_id"

definition wt_qpack_decoder_stream_write_insert_count_increment ::
  "u64 \<Rightarrow> wt_writer \<Rightarrow> wt_status \<times> wt_writer" where
  "wt_qpack_decoder_stream_write_insert_count_increment increment w =
     (if increment = 0 then (WT_ERR_INVALID_ARGUMENT, w) else wt_qpack_integer_encode 6 0x00 increment w)"

subsection \<open>The encoder's bookkeeping\<close>

definition WT_QPACK_MAX_OUTSTANDING_SECTIONS :: nat where
  "WT_QPACK_MAX_OUTSTANDING_SECTIONS = 16"

record wt_qpack_outstanding_section =
  os_in_use :: bool
  os_stream_id :: u64
  os_required_insert_count :: u64

record wt_qpack_encoder_state =
  qe_table :: "wt_qpack_dynamic_table option"
  qe_known_received_count :: u64
  qe_outstanding :: "wt_qpack_outstanding_section list"
  qe_outstanding_count :: u64

definition free_section :: wt_qpack_outstanding_section where
  "free_section = \<lparr>os_in_use = False, os_stream_id = 0, os_required_insert_count = 0\<rparr>"

definition wt_qpack_encoder_state_init :: "wt_qpack_dynamic_table option \<Rightarrow> wt_qpack_encoder_state" where
  "wt_qpack_encoder_state_init table =
     \<lparr>qe_table = table, qe_known_received_count = 0,
      qe_outstanding = replicate WT_QPACK_MAX_OUTSTANDING_SECTIONS free_section, qe_outstanding_count = 0\<rparr>"

text \<open>The first slot that satisfies a test, as the loops over the table find it.\<close>

fun first_slot :: "('a \<Rightarrow> bool) \<Rightarrow> 'a list \<Rightarrow> nat option" where
  "first_slot found [] = None"
| "first_slot found (x # xs) = (if found x then Some 0 else map_option Suc (first_slot found xs))"

definition find_section :: "wt_qpack_encoder_state \<Rightarrow> u64 \<Rightarrow> nat option" where
  "find_section state stream_id =
     first_slot (\<lambda>section. os_in_use section \<and> os_stream_id section = stream_id) (qe_outstanding state)"

definition forget :: "wt_qpack_encoder_state \<Rightarrow> nat \<Rightarrow> wt_qpack_encoder_state" where
  "forget state slot =
     state\<lparr>qe_outstanding := (qe_outstanding state)[slot := free_section],
           qe_outstanding_count := qe_outstanding_count state - 1\<rparr>"

definition wt_qpack_encoder_state_begin_section ::
  "wt_qpack_encoder_state \<Rightarrow> u64 \<Rightarrow> bool \<Rightarrow> wt_qpack_header_prefix wt_result \<times> wt_qpack_encoder_state" where
  "wt_qpack_encoder_state_begin_section state stream_id references_dynamic =
     (case qe_table state of
        None \<Rightarrow> (Inl WT_ERR_STATE, state)
      | Some t \<Rightarrow>
          if \<not> references_dynamic then (Inr \<lparr>hp_required_insert_count = 0, hp_base = 0\<rparr>, state)
          else
            let state' = (case find_section state stream_id of None \<Rightarrow> state | Some i \<Rightarrow> forget state i) in
            (case first_slot (\<lambda>section. \<not> os_in_use section) (qe_outstanding state') of
              None \<Rightarrow> (Inl WT_ERR_LIMIT, state')
            | Some i \<Rightarrow>
                (Inr \<lparr>hp_required_insert_count = dt_insert_count t, hp_base = dt_insert_count t\<rparr>,
                 state'\<lparr>qe_outstanding := (qe_outstanding state')[i :=
                     \<lparr>os_in_use = True, os_stream_id = stream_id, os_required_insert_count = dt_insert_count t\<rparr>],
                   qe_outstanding_count := qe_outstanding_count state' + 1\<rparr>)))"

definition wt_qpack_encoder_state_section_acknowledged ::
  "wt_qpack_encoder_state \<Rightarrow> u64 \<Rightarrow> wt_status \<times> wt_qpack_encoder_state" where
  "wt_qpack_encoder_state_section_acknowledged state stream_id =
     (case find_section state stream_id of
        None \<Rightarrow> (WT_ERR_CLOSED, state)
      | Some i \<Rightarrow> (WT_OK, forget state i))"

definition wt_qpack_encoder_state_stream_cancelled ::
  "wt_qpack_encoder_state \<Rightarrow> u64 \<Rightarrow> wt_status \<times> wt_qpack_encoder_state" where
  "wt_qpack_encoder_state_stream_cancelled state stream_id =
     (case find_section state stream_id of
        None \<Rightarrow> (WT_OK, state)
      | Some i \<Rightarrow> (WT_OK, forget state i))"

definition wt_qpack_encoder_state_on_insert_count_increment ::
  "wt_qpack_encoder_state \<Rightarrow> u64 \<Rightarrow> qpack_fail option \<times> wt_qpack_encoder_state" where
  "wt_qpack_encoder_state_on_insert_count_increment state increment =
     (if increment_refused (qe_known_received_count state) (qe_table state) increment
      then (Some (WT_ERR_PROTOCOL, WT_QPACK_ERROR_DECODER_STREAM), state)
      else (None, state\<lparr>qe_known_received_count := qe_known_received_count state + increment\<rparr>))"

definition wt_qpack_encoder_state_evictable_below :: "wt_qpack_encoder_state \<Rightarrow> u64" where
  "wt_qpack_encoder_state_evictable_below state =
     (case qe_table state of
        None \<Rightarrow> 0
      | Some t \<Rightarrow>
          fold (\<lambda>section below.
              if os_in_use section \<and> os_required_insert_count section < below
              then os_required_insert_count section else below)
            (qe_outstanding state) (dt_insert_count t))"

subsection \<open>The instructions on the wire\<close>

fun instruction_bytes :: "encoder_instruction \<Rightarrow> u8 list" where
  "instruction_bytes (INSERT_NAME_REFERENCE from_static index val) =
     integer_bytes 6 (if from_static then 0xC0 else 0x80) index @ wire_bytes False val"
| "instruction_bytes (INSERT_LITERAL name val) =
     (integer_bytes 5 0x40 (of_nat (length name)) @ name) @ wire_bytes False val"
| "instruction_bytes (SET_CAPACITY capacity) = integer_bytes 5 0x20 capacity"
| "instruction_bytes (DUPLICATE relative) = integer_bytes 5 0 relative"

fun instruction_ok :: "encoder_instruction \<Rightarrow> bool" where
  "instruction_ok (INSERT_NAME_REFERENCE from_static index val) \<longleftrightarrow>
     index \<le> WT_QPACK_INTEGER_MAX \<and> length val < 2 ^ 62"
| "instruction_ok (INSERT_LITERAL name val) \<longleftrightarrow> length name < 2 ^ 62 \<and> length val < 2 ^ 62"
| "instruction_ok (SET_CAPACITY capacity) \<longleftrightarrow> capacity \<le> WT_QPACK_INTEGER_MAX"
| "instruction_ok (DUPLICATE relative) \<longleftrightarrow> relative \<le> WT_QPACK_INTEGER_MAX"

text \<open>The writer of each instruction.\<close>

fun encoder_write :: "encoder_instruction \<Rightarrow> wt_writer \<Rightarrow> wt_status \<times> wt_writer" where
  "encoder_write (INSERT_NAME_REFERENCE from_static index val) =
     wt_qpack_encoder_stream_write_insert_name_reference from_static index val"
| "encoder_write (INSERT_LITERAL name val) = wt_qpack_encoder_stream_write_insert_literal name val"
| "encoder_write (SET_CAPACITY capacity) = wt_qpack_encoder_stream_write_capacity capacity"
| "encoder_write (DUPLICATE relative) = wt_qpack_encoder_stream_write_duplicate relative"

lemma instruction_prefix_ok:
  "prefix_ok 6 (if b then 0xC0 else 0x80)" "prefix_ok 5 0x40" "prefix_ok 5 0x20" "prefix_ok 5 0"
  by (simp_all add: prefix_ok_def)

lemma appends_plain_string: "length val < 2 ^ 62 \<Longrightarrow> appends (wt_qpack_string_encode val) (wire_bytes False val)"
  using appends_string [of False val 0] by (simp add: wt_qpack_string_encode_def string_ok_def string_wire_def)

lemma appends_instruction:
  assumes "instruction_ok i"
  shows "appends (encoder_write i) (instruction_bytes i)"
proof (cases i)
  case (INSERT_NAME_REFERENCE from_static index val)
  with assms show ?thesis
    by (simp add: wt_qpack_encoder_stream_write_insert_name_reference_def appends_wseq [OF appends_integer]
        instruction_prefix_ok appends_plain_string)
next
  case (INSERT_LITERAL name val)
  with assms show ?thesis
    by (simp only: encoder_write.simps instruction_bytes.simps wt_qpack_encoder_stream_write_insert_literal_def)
      (intro appends_wseq appends_integer appends_put_bytes appends_plain_string of_nat_integer
        instruction_prefix_ok, simp_all)
qed (use assms in \<open>simp_all add: wt_qpack_encoder_stream_write_capacity_def
  wt_qpack_encoder_stream_write_duplicate_def appends_integer instruction_prefix_ok\<close>)

lemma reads_string_or: "length wire < 2 ^ 62 \<Longrightarrow> reads (string_or e) (wire_bytes huffman wire) (wire, huffman)"
  using reads_string [of wire huffman] by (simp add: reads_def string_or_def)

lemma string_or_safe [simp]: "reader_safe (string_or e)"
  using string_safe unfolding reader_safe_def string_or_def
  by (fastforce split: prod.splits sum.splits)

lemma reads_name_reference:
  assumes "index \<le> WT_QPACK_INTEGER_MAX" "length val < 2 ^ 62" "m < 2 ^ 6"
  shows "reads (encoder_body ((if from_static then 0xC0 else 0x80) OR of_nat m))
    (integer_bytes 6 (if from_static then 0xC0 else 0x80) index @ wire_bytes False val)
    (INSERT_NAME_REFERENCE from_static index val)"
proof -
  let ?f = "if from_static then 0xC0 else 0x80 :: u8"
  note flags = first_byte_flags [OF instruction_prefix_ok(1) assms(3)]
  have b: "((?f OR of_nat m) AND 0x80 \<noteq> 0) = True" "((?f OR of_nat m) AND 0x40 \<noteq> 0) = from_static"
    using flags(1,2) [of from_static] by (cases from_static; simp)+
  show ?thesis
    unfolding encoder_body_def Let_def b if_True
    by (rule reads_bind [OF reads_integer_or [OF instruction_prefix_ok(1) assms(1)]],
       rule reads_bind_end [OF reads_string_or [OF assms(2)]], simp)
qed

lemma reads_insert_literal:
  assumes "length name < 2 ^ 62" "length val < 2 ^ 62" "m < 2 ^ 5"
  shows "reads (encoder_body (0x40 OR of_nat m))
    (integer_bytes 5 0x40 (of_nat (length name)) @ name @ wire_bytes False val) (INSERT_LITERAL name val)"
proof -
  note flags = first_byte_flags [OF instruction_prefix_ok(2) assms(3)]
  have b: "((0x40 OR of_nat m :: u8) AND 0x80 \<noteq> 0) = False" "((0x40 OR of_nat m :: u8) AND 0x40 \<noteq> 0) = True"
    "((0x40 OR of_nat m :: u8) AND 0x20 \<noteq> 0) = False"
    using flags(1,2,3) by simp_all
  have n: "length name < 2 ^ 64" and max: "((of_nat (length name) :: u64) > - 1) = False"
    using assms(1) by (simp_all add: not_less)
  show ?thesis
    unfolding encoder_body_def Let_def b if_True if_False
    by (rule reads_bind [OF reads_integer_or [OF instruction_prefix_ok(2) of_nat_integer [OF assms(1)]]],
       simp only: max if_False, rule reads_bind [OF reads_view_or [OF n]],
       rule reads_bind_end [OF reads_string_or [OF assms(2)]], simp)
qed

lemma reads_instruction:
  assumes "instruction_ok i"
  shows "reads encoder_parse (instruction_bytes i) i"
  unfolding encoder_parse_def
proof (cases i)
  case (INSERT_NAME_REFERENCE from_static index val)
  with assms show "reads (rbind (rpeek (WT_ERR_TRUNCATED, WT_QPACK_ERROR_ENCODER_STREAM)) encoder_body) (instruction_bytes i) i"
    by (simp only: instruction_bytes.simps)
      (rule reads_peek_integer [OF instruction_prefix_ok(1)], rule reads_name_reference, simp_all)
next
  case (INSERT_LITERAL name val)
  with assms show "reads (rbind (rpeek (WT_ERR_TRUNCATED, WT_QPACK_ERROR_ENCODER_STREAM)) encoder_body) (instruction_bytes i) i"
    by (simp only: instruction_bytes.simps append_assoc)
      (rule reads_peek_integer [OF instruction_prefix_ok(2)], rule reads_insert_literal, simp_all)
next
  case (SET_CAPACITY capacity)
  have "reads (encoder_body (0x20 OR of_nat m)) (integer_bytes 5 0x20 capacity) (SET_CAPACITY capacity)"
    if "m < 2 ^ 5" for m :: nat
  proof -
    have b: "((0x20 OR of_nat m :: u8) AND 0x80 \<noteq> 0) = False" "((0x20 OR of_nat m :: u8) AND 0x40 \<noteq> 0) = False"
      "((0x20 OR of_nat m :: u8) AND 0x20 \<noteq> 0) = True"
      using first_byte_flags(1-3) [OF instruction_prefix_ok(3) that] by simp_all
    show ?thesis
      unfolding encoder_body_def Let_def b if_True if_False using assms SET_CAPACITY
      by (intro reads_bind_end [OF reads_integer_or [OF instruction_prefix_ok(3)]]) simp_all
  qed
  then show "reads (rbind (rpeek (WT_ERR_TRUNCATED, WT_QPACK_ERROR_ENCODER_STREAM)) encoder_body) (instruction_bytes i) i"
    using reads_peek_integer [OF instruction_prefix_ok(3), of encoder_body capacity "[]"] SET_CAPACITY by simp
next
  case (DUPLICATE relative)
  have "reads (encoder_body (0 OR of_nat m)) (integer_bytes 5 0 relative) (DUPLICATE relative)"
    if "m < 2 ^ 5" for m :: nat
  proof -
    have b: "((0 OR of_nat m :: u8) AND 0x80 \<noteq> 0) = False" "((0 OR of_nat m :: u8) AND 0x40 \<noteq> 0) = False"
      "((0 OR of_nat m :: u8) AND 0x20 \<noteq> 0) = False"
      using first_byte_flags(1-3) [OF instruction_prefix_ok(4) that] by simp_all
    show ?thesis
      unfolding encoder_body_def Let_def b if_True if_False using assms DUPLICATE
      by (intro reads_bind_end [OF reads_integer_or [OF instruction_prefix_ok(4)]]) simp_all
  qed
  then show "reads (rbind (rpeek (WT_ERR_TRUNCATED, WT_QPACK_ERROR_ENCODER_STREAM)) encoder_body) (instruction_bytes i) i"
    using reads_peek_integer [OF instruction_prefix_ok(4), of encoder_body relative "[]"] DUPLICATE by simp
qed

lemma encoder_body_safe [simp]: "reader_safe (encoder_body first)"
  unfolding encoder_body_def Let_def
  by (intro reader_safe_if reader_safe_bind) (simp_all add: case_prod_beta)

lemma encoder_parse_safe [simp]: "reader_safe encoder_parse"
  unfolding encoder_parse_def by (intro reader_safe_bind) simp_all

subsection \<open>What an instruction does to the table\<close>

text \<open>The entry an instruction adds, read from the table as it is before the instruction.\<close>

fun instruction_field :: "wt_qpack_dynamic_table \<Rightarrow> encoder_instruction \<Rightarrow> field option" where
  "instruction_field t (INSERT_NAME_REFERENCE from_static index val) =
     (if from_static then
        (case wt_qpack_static_entry index of Inl _ \<Rightarrow> None | Inr entry \<Rightarrow> Some (se_name entry, val))
      else map_option (\<lambda>f. (fst f, val)) (entry_of t (unat (dt_insert_count t) - 1 - unat index)))"
| "instruction_field t (INSERT_LITERAL name val) = Some (name, val)"
| "instruction_field t (SET_CAPACITY capacity) = None"
| "instruction_field t (DUPLICATE relative) = entry_of t (unat (dt_insert_count t) - 1 - unat relative)"

fun inserts :: "encoder_instruction \<Rightarrow> bool" where
  "inserts (SET_CAPACITY capacity) \<longleftrightarrow> False"
| "inserts i \<longleftrightarrow> True"

text \<open>An instruction whose strings are as short as a cursor can deliver.\<close>

fun instruction_small :: "encoder_instruction \<Rightarrow> bool" where
  "instruction_small (INSERT_NAME_REFERENCE from_static index val) \<longleftrightarrow> length val < 2 ^ 64"
| "instruction_small (INSERT_LITERAL name val) \<longleftrightarrow> length name < 2 ^ 64 \<and> length val < 2 ^ 64"
| "instruction_small i \<longleftrightarrow> True"

lemma instruction_ok_small: "instruction_ok i \<Longrightarrow> instruction_small i"
  by (cases i) auto

lemma static_name_short:
  assumes "wt_qpack_static_entry index = Inr entry"
  shows "length (se_name entry) < 64"
proof -
  have "\<forall>x \<in> set WT_RFC9204_STATIC_TABLE. length (fst x) < 64"
    by (simp add: WT_RFC9204_STATIC_TABLE_def)
  moreover have "unat index < length WT_RFC9204_STATIC_TABLE" "entry = static_view (unat index)"
    using assms by (auto simp: wt_qpack_static_entry_def split: if_splits)
  ultimately show ?thesis by (simp add: static_view_def ascii_def)
qed

lemma relative_entry_ok:
  assumes good: "table_good t" and rel: "relative_entry t relative = Some (name, val)"
  shows "view_ok t name \<and> view_ok t val \<and>
    entry_of t (unat (dt_insert_count t) - 1 - unat relative) = Some (view_read t name, view_read t val)"
proof -
  let ?i = "dt_insert_count t - 1 - relative"
  from rel have lt: "unat relative < unat (dt_insert_count t)" and d: "unat (dt_dropped t) \<le> unat ?i"
    and e: "wt_qpack_dynamic_entry t ?i = Inr (name, val)"
    by (auto simp: relative_entry_def resolve_relative_def Let_def word_le_nat_alt word_less_nat_alt not_less not_le
        split: sum.splits if_splits)
  have one: "unat (dt_insert_count t - 1) = unat (dt_insert_count t) - 1"
    using lt by (simp add: unat_sub_le word_le_nat_alt)
  then have u: "unat ?i = unat (dt_insert_count t) - 1 - unat relative"
    using lt by (simp add: unat_sub_le word_le_nat_alt)
  obtain es where es: "dyn_rel t es" using good by (auto simp: table_good_def)
  have "unat ?i < unat (dt_insert_count t)" using u lt by simp
  from entry_exact [OF es d this] e have "view_ok t name" "view_ok t val" by auto
  moreover have "entry_of t (unat ?i) = Some (view_read t name, view_read t val)"
    using e unat_u64_less [of ?i] by (simp add: entry_of_def)
  ultimately show ?thesis using u by simp
qed

text \<open>Every insertion instruction is one insertion of its field, or is refused with the table as it was.\<close>

lemma execute_insert:
  assumes "table_good t" "instruction_small i" "inserts i" "encoder_execute m i t = (r, t')"
  shows "(\<exists>n v. view_ok t n \<and> view_ok t v \<and> apply_insert t n v = (r, t') \<and>
      instruction_field t i = Some (view_read t n, view_read t v)) \<or>
    (r = Some (WT_ERR_PROTOCOL, WT_QPACK_ERROR_ENCODER_STREAM) \<and> t' = t)"
proof (cases i)
  case (INSERT_NAME_REFERENCE from_static index val)
  have ok: "view_ok t (VIEW_BYTES val)" using assms(2) INSERT_NAME_REFERENCE by (simp add: view_ok_def)
  show ?thesis
  proof (cases from_static)
    case True
    show ?thesis
    proof (cases "wt_qpack_static_entry index")
      case (Inr entry)
      then have "view_ok t (VIEW_BYTES (se_name entry))"
        using static_name_short [OF Inr] by (simp add: view_ok_def)
      with ok Inr True assms(4) INSERT_NAME_REFERENCE show ?thesis
        by (intro disjI1 exI [of _ "VIEW_BYTES (se_name entry)"] exI [of _ "VIEW_BYTES val"])
          (simp add: encoder_execute_def)
    qed (use True assms(4) INSERT_NAME_REFERENCE in \<open>simp add: encoder_execute_def\<close>)
  next
    case False
    show ?thesis
    proof (cases "relative_entry t index")
      case (Some nv)
      then obtain n v where nv: "relative_entry t index = Some (n, v)" by (cases nv) auto
      from relative_entry_ok [OF assms(1) nv] ok False assms(4) INSERT_NAME_REFERENCE nv show ?thesis
        by (intro disjI1 exI [of _ n] exI [of _ "VIEW_BYTES val"]) (simp add: encoder_execute_def)
    qed (use False assms(4) INSERT_NAME_REFERENCE in \<open>simp add: encoder_execute_def\<close>)
  qed
next
  case (INSERT_LITERAL name val)
  with assms(2,4) show ?thesis
    by (intro disjI1 exI [of _ "VIEW_BYTES name"] exI [of _ "VIEW_BYTES val"])
      (simp add: encoder_execute_def view_ok_def)
next
  case (DUPLICATE relative)
  show ?thesis
  proof (cases "relative_entry t relative")
    case (Some nv)
    then obtain n v where nv: "relative_entry t relative = Some (n, v)" by (cases nv) auto
    from relative_entry_ok [OF assms(1) nv] assms(4) DUPLICATE nv show ?thesis
      by (intro disjI1 exI [of _ n] exI [of _ v]) (simp add: encoder_execute_def)
  qed (use assms(4) DUPLICATE in \<open>simp add: encoder_execute_def\<close>)
qed (use assms(3) in simp)

text \<open>Insertions and capacity changes are the only things an instruction does.\<close>

lemma execute_step:
  assumes "table_good t" "instruction_small i" "unat (dt_insert_count t) < 2 ^ 64 - 1"
    and "encoder_execute m i t = (r, t')"
  shows "table_step\<^sup>*\<^sup>* t t'"
proof (cases "inserts i")
  case True
  from execute_insert [OF assms(1,2) True assms(4)] show ?thesis
  proof (elim disjE exE conjE)
    fix n v assume nv: "view_ok t n" "view_ok t v" "apply_insert t n v = (r, t')"
    then obtain s where "wt_qpack_dynamic_insert t n v = (s, t')"
      by (auto simp: apply_insert_def split: prod.splits sum.splits)
    with nv assms(3) show ?thesis by (blast intro: table_step.insert_step)
  qed simp
next
  case False
  then obtain capacity where "i = SET_CAPACITY capacity" by (cases i) auto
  with assms(4) table_step.capacity_step [of t capacity] show ?thesis
    by (auto simp: encoder_execute_def split: if_splits)
qed

lemma execute_coded:
  "encoder_execute m i t = (Some e, t') \<Longrightarrow> snd e = WT_QPACK_ERROR_ENCODER_STREAM"
  by (auto simp: encoder_execute_def apply_insert_def Let_def
      split: encoder_instruction.splits if_splits sum.splits option.splits prod.splits)

lemma execute_visible:
  assumes "table_good t" "instruction_small i" "inserts i" "unat (dt_insert_count t) < 2 ^ 64 - 1"
    and "encoder_execute m i t = (None, t')"
  shows "entry_of t' (unat (dt_insert_count t)) = instruction_field t i"
    "unat (dt_insert_count t') = Suc (unat (dt_insert_count t))"
proof -
  obtain es where es: "dyn_rel t es" using assms(1) by (auto simp: table_good_def)
  from execute_insert [OF assms(1-3,5)] obtain n v where nv: "view_ok t n" "view_ok t v"
    "apply_insert t n v = (None, t')" "instruction_field t i = Some (view_read t n, view_read t v)" by auto
  then obtain k where ins: "wt_qpack_dynamic_insert t n v = (Inr k, t')"
    by (auto simp: apply_insert_def split: prod.splits sum.splits)
  note stored = insert_stored [OF es nv(1,2) assms(4) ins]
  show "entry_of t' (unat (dt_insert_count t)) = instruction_field t i" using stored(1,2) nv(4) by simp
  show "unat (dt_insert_count t') = Suc (unat (dt_insert_count t))" using stored(3) .
qed

subsection \<open>The sections in flight as a map\<close>

lemma first_slot_Some: "first_slot P xs = Some i \<Longrightarrow> i < length xs \<and> P (xs ! i)"
  by (induction xs arbitrary: i) (auto split: if_splits)

lemma first_slot_None: "first_slot P xs = None \<longleftrightarrow> (\<forall>x \<in> set xs. \<not> P x)"
  by (induction xs) auto

definition sections :: "wt_qpack_outstanding_section list \<Rightarrow> (u64 \<times> u64) list" where
  "sections xs = map (\<lambda>x. (os_stream_id x, os_required_insert_count x)) (filter os_in_use xs)"

definition section_of :: "wt_qpack_encoder_state \<Rightarrow> u64 \<rightharpoonup> u64" where
  "section_of state stream_id =
     map_option (\<lambda>i. os_required_insert_count (qe_outstanding state ! i)) (find_section state stream_id)"

lemma sections_simps [simp]:
  "sections [] = []" "sections (xs @ ys) = sections xs @ sections ys"
  "sections (x # xs) = (if os_in_use x then [(os_stream_id x, os_required_insert_count x)] else []) @ sections xs"
  by (simp_all add: sections_def)

lemma section_of_map: "section_of state = map_of (sections (qe_outstanding state))"
proof
  fix id
  have "map_option (\<lambda>i. os_required_insert_count (xs ! i))
      (first_slot (\<lambda>s. os_in_use s \<and> os_stream_id s = id) xs) = map_of (sections xs) id" for xs
    by (induction xs) (auto simp: option.map_comp o_def)
  then show "section_of state id = map_of (sections (qe_outstanding state)) id"
    by (simp add: section_of_def find_section_def)
qed

lemma slot_split:
  assumes "i < length xs"
  obtains as bs where "xs = as @ xs ! i # bs" "\<And>y. xs[i := y] = as @ y # bs"
  using that [of "take i xs" "drop (Suc i) xs"] id_take_nth_drop [OF assms] upd_conv_take_nth_drop [OF assms]
  by simp

text \<open>What the bookkeeping keeps: sixteen slots, a count of those in use, one section per stream, and no
  count above the number of insertions.\<close>

definition encoder_inv :: "wt_qpack_encoder_state \<Rightarrow> bool" where
  "encoder_inv state \<longleftrightarrow>
     length (qe_outstanding state) = WT_QPACK_MAX_OUTSTANDING_SECTIONS \<and>
     unat (qe_outstanding_count state) = length (sections (qe_outstanding state)) \<and>
     distinct (map fst (sections (qe_outstanding state))) \<and>
     (case qe_table state of None \<Rightarrow> False
      | Some t \<Rightarrow> table_good t \<and> qe_known_received_count state \<le> dt_insert_count t \<and>
          (\<forall>s \<in> set (sections (qe_outstanding state)). snd s \<le> dt_insert_count t))"

lemma encoder_inv_init: "table_good t \<Longrightarrow> encoder_inv (wt_qpack_encoder_state_init (Some t))"
  by (simp add: encoder_inv_def wt_qpack_encoder_state_init_def sections_def free_section_def)

lemma find_section_Some:
  "find_section state stream_id = Some i \<Longrightarrow>
   i < length (qe_outstanding state) \<and> os_in_use (qe_outstanding state ! i) \<and>
   os_stream_id (qe_outstanding state ! i) = stream_id"
  unfolding find_section_def by (drule first_slot_Some) simp

lemma free_section_unused [simp]: "\<not> os_in_use free_section"
  by (simp add: free_section_def)

lemma forget_found:
  assumes inv: "encoder_inv state" and found: "find_section state stream_id = Some i"
  shows "encoder_inv (forget state i)" "section_of (forget state i) = (section_of state)(stream_id := None)"
    "qe_table (forget state i) = qe_table state"
proof -
  note f = find_section_Some [OF found]
  from f obtain as bs where xs: "qe_outstanding state = as @ (qe_outstanding state ! i) # bs"
      "\<And>y. (qe_outstanding state)[i := y] = as @ y # bs"
    by (meson slot_split)
  let ?r = "os_required_insert_count (qe_outstanding state ! i)"
  have old: "sections (qe_outstanding state) = sections as @ (stream_id, ?r) # sections bs"
    using f by (subst xs(1)) simp
  have new: "qe_outstanding (forget state i) = as @ free_section # bs" by (simp add: forget_def xs(2))
  have cnt: "unat (qe_outstanding_count state) = Suc (length (sections as @ sections bs))"
    using inv old by (simp add: encoder_inv_def)
  then have "unat (qe_outstanding_count state - 1) = length (sections as @ sections bs)"
    by (subst unat_sub_le) (simp_all add: word_le_nat_alt)
  moreover have "length (as @ free_section # bs) = length (qe_outstanding state)" by (subst xs(1)) simp
  ultimately show "encoder_inv (forget state i)"
    using inv unfolding encoder_inv_def new old by (auto simp: forget_def split: option.splits)
  have "map_of (sections as) stream_id = None" "map_of (sections bs) stream_id = None"
    using inv old by (auto simp: encoder_inv_def map_of_eq_None_iff)
  then show "section_of (forget state i) = (section_of state)(stream_id := None)"
    unfolding section_of_map new old
    by (intro ext) (auto simp: map_add_def split: option.split)
  show "qe_table (forget state i) = qe_table state" by (simp add: forget_def)
qed

lemma begin_released:
  fixes stream_id :: u64
  assumes "encoder_inv state"
  defines "state' \<equiv> (case find_section state stream_id of None \<Rightarrow> state | Some i \<Rightarrow> forget state i)"
  shows "encoder_inv state'" "section_of state' = (section_of state)(stream_id := None)"
    "qe_table state' = qe_table state"
proof -
  have none: "section_of state stream_id = None" if "find_section state stream_id = None"
    using that by (simp add: section_of_def)
  show "encoder_inv state'" "section_of state' = (section_of state)(stream_id := None)"
    "qe_table state' = qe_table state"
    using forget_found [OF assms(1)] assms(1) none
    by (auto simp: state'_def fun_upd_idem split: option.splits)
qed

lemma begin_recorded:
  fixes stream_id :: u64
  assumes inv: "encoder_inv state" and t: "qe_table state = Some t"
    and slot: "first_slot (\<lambda>section. \<not> os_in_use section) (qe_outstanding state) = Some i"
    and fresh: "section_of state stream_id = None"
  defines "state' \<equiv> state\<lparr>qe_outstanding := (qe_outstanding state)[i :=
      \<lparr>os_in_use = True, os_stream_id = stream_id, os_required_insert_count = dt_insert_count t\<rparr>],
    qe_outstanding_count := qe_outstanding_count state + 1\<rparr>"
  shows "encoder_inv state'" "section_of state' = (section_of state)(stream_id \<mapsto> dt_insert_count t)"
proof -
  let ?new = "\<lparr>os_in_use = True, os_stream_id = stream_id, os_required_insert_count = dt_insert_count t\<rparr>"
  from first_slot_Some [OF slot] have i: "i < length (qe_outstanding state)" "\<not> os_in_use (qe_outstanding state ! i)"
    by simp_all
  from i(1) obtain as bs where xs: "qe_outstanding state = as @ (qe_outstanding state ! i) # bs"
      "\<And>y. (qe_outstanding state)[i := y] = as @ y # bs"
    by (meson slot_split)
  have old: "sections (qe_outstanding state) = sections as @ sections bs"
    using i(2) by (subst xs(1)) simp
  have out: "qe_outstanding state' = as @ ?new # bs" by (simp add: state'_def xs(2))
  have new: "sections (qe_outstanding state') = sections as @ (stream_id, dt_insert_count t) # sections bs"
    by (simp add: out)
  have fresh': "stream_id \<notin> fst ` set (sections as)" "stream_id \<notin> fst ` set (sections bs)"
    using fresh unfolding section_of_map old by (auto simp: map_of_eq_None_iff)
  have len: "length (qe_outstanding state') = length (qe_outstanding state)" by (simp add: state'_def)
  have "length (sections as @ sections bs) \<le> length (qe_outstanding state)"
    unfolding old [symmetric] by (simp add: sections_def)
  then have "unat (qe_outstanding_count state + 1) = Suc (length (sections as @ sections bs))"
    using inv old by (subst unat_add_no_wrap) (simp_all add: encoder_inv_def WT_QPACK_MAX_OUTSTANDING_SECTIONS_def)
  then have "unat (qe_outstanding_count state') = length (sections (qe_outstanding state'))"
    by (simp add: new) (simp add: state'_def)
  moreover have "distinct (map fst (sections (qe_outstanding state')))"
    using inv old fresh' unfolding new by (auto simp: encoder_inv_def)
  moreover have "qe_table state' = Some t" "qe_known_received_count state' = qe_known_received_count state"
    using t by (simp_all add: state'_def)
  ultimately show "encoder_inv state'"
    using inv t len unfolding encoder_inv_def new old by auto
  show "section_of state' = (section_of state)(stream_id \<mapsto> dt_insert_count t)"
    using fresh' [folded map_of_eq_None_iff] unfolding section_of_map new old
    by (intro ext) (auto simp: map_add_def split: option.split)
qed

lemma begin_section_sections:
  assumes "encoder_inv state" "qe_table state = Some t"
  shows "encoder_inv (snd (wt_qpack_encoder_state_begin_section state stream_id True))"
    "wt_qpack_encoder_state_begin_section state stream_id True = (Inr p, state') \<Longrightarrow>
     section_of state' = (section_of state)(stream_id \<mapsto> dt_insert_count t) \<and> qe_table state' = Some t \<and>
     p = \<lparr>hp_required_insert_count = dt_insert_count t, hp_base = dt_insert_count t\<rparr>"
proof -
  define state1 where "state1 = (case find_section state stream_id of None \<Rightarrow> state | Some i \<Rightarrow> forget state i)"
  note r = begin_released [OF assms(1), of stream_id, folded state1_def]
  have t1: "qe_table state1 = Some t" and none: "section_of state1 stream_id = None" using r assms(2) by simp_all
  note rec = begin_recorded [OF r(1) t1 _ none]
  have run: "wt_qpack_encoder_state_begin_section state stream_id True =
      (case first_slot (\<lambda>section. \<not> os_in_use section) (qe_outstanding state1) of
         None \<Rightarrow> (Inl WT_ERR_LIMIT, state1)
       | Some i \<Rightarrow> (Inr \<lparr>hp_required_insert_count = dt_insert_count t, hp_base = dt_insert_count t\<rparr>,
           state1\<lparr>qe_outstanding := (qe_outstanding state1)[i :=
               \<lparr>os_in_use = True, os_stream_id = stream_id, os_required_insert_count = dt_insert_count t\<rparr>],
             qe_outstanding_count := qe_outstanding_count state1 + 1\<rparr>))"
    unfolding wt_qpack_encoder_state_begin_section_def assms(2) option.case Let_def state1_def [symmetric]
    by (simp only: not_True_eq_False if_False)
  show "encoder_inv (snd (wt_qpack_encoder_state_begin_section state stream_id True))"
    unfolding run using rec(1) r(1) by (simp split: option.split)
  show "wt_qpack_encoder_state_begin_section state stream_id True = (Inr p, state') \<Longrightarrow>
     section_of state' = (section_of state)(stream_id \<mapsto> dt_insert_count t) \<and> qe_table state' = Some t \<and>
     p = \<lparr>hp_required_insert_count = dt_insert_count t, hp_base = dt_insert_count t\<rparr>"
    unfolding run using rec(2) t1 r(2) by (auto split: option.splits)
qed

lemma increment_inv:
  assumes "encoder_inv state"
  shows "encoder_inv (snd (wt_qpack_encoder_state_on_insert_count_increment state increment))"
  using assms
  by (auto simp: encoder_inv_def wt_qpack_encoder_state_on_insert_count_increment_def increment_refused_def
      split: option.splits if_splits)

text \<open>Everything the encoder does: its calls, and the changes it makes to the table it shares.\<close>

inductive encoder_step :: "wt_qpack_encoder_state \<Rightarrow> wt_qpack_encoder_state \<Rightarrow> bool" where
  begin_step: "encoder_step s (snd (wt_qpack_encoder_state_begin_section s stream_id references_dynamic))"
| acknowledged_step: "encoder_step s (snd (wt_qpack_encoder_state_section_acknowledged s stream_id))"
| cancelled_step: "encoder_step s (snd (wt_qpack_encoder_state_stream_cancelled s stream_id))"
| increment_step: "encoder_step s (snd (wt_qpack_encoder_state_on_insert_count_increment s increment))"
| table_step: "qe_table s = Some t \<Longrightarrow> table_step t t' \<Longrightarrow> encoder_step s (s\<lparr>qe_table := Some t'\<rparr>)"

lemma encoder_step_inv: "encoder_step s s' \<Longrightarrow> encoder_inv s \<Longrightarrow> encoder_inv s'"
proof (induction rule: encoder_step.induct)
  case (begin_step s stream_id references_dynamic)
  then obtain t where t: "qe_table s = Some t" by (auto simp: encoder_inv_def split: option.splits)
  show ?case
  proof (cases references_dynamic)
    case True
    with begin_section_sections(1) [OF begin_step t] show ?thesis by simp
  qed (use begin_step t in \<open>simp add: wt_qpack_encoder_state_begin_section_def\<close>)
next
  case (acknowledged_step s stream_id)
  then show ?case
    using forget_found(1) by (auto simp: wt_qpack_encoder_state_section_acknowledged_def split: option.splits)
next
  case (cancelled_step s stream_id)
  then show ?case
    using forget_found(1) by (auto simp: wt_qpack_encoder_state_stream_cancelled_def split: option.splits)
next
  case (increment_step s increment)
  then show ?case by (rule increment_inv)
next
  case (table_step s t t')
  then have "table_good t" by (simp add: encoder_inv_def)
  with table_step(2) have "table_good t'" "dt_insert_count t \<le> dt_insert_count t'"
    using dyn.step_good dyn.step_count by (simp_all add: word_le_nat_alt)
  with table_step(1,3) show ?case by (force simp: encoder_inv_def intro: order_trans)
qed

lemma encoder_reach_inv:
  assumes "encoder_step\<^sup>*\<^sup>* (wt_qpack_encoder_state_init (Some (wt_qpack_dynamic_init capacity))) s"
  shows "encoder_inv s"
  using assms
proof (induction rule: rtranclp_induct)
  case base
  show ?case using dyn_rel_init by (intro encoder_inv_init) (auto simp: table_good_def)
qed (rule encoder_step_inv)

subsection \<open>The eviction bound\<close>

lemma evictable_fold:
  "fold (\<lambda>section below. if os_in_use section \<and> os_required_insert_count section < below
      then os_required_insert_count section else below) xs b =
   Min (insert b (snd ` set (sections xs)))"
proof (induction xs arbitrary: b)
  case (Cons x xs)
  let ?S = "snd ` set (sections xs)" and ?r = "os_required_insert_count x"
  have fin: "finite ?S" by simp
  show ?case
  proof (cases "os_in_use x")
    case True
    have "Min (insert (if ?r < b then ?r else b) ?S) = Min (insert b (insert ?r ?S))"
      using fin by (cases "?S = {}") (auto simp: min_def not_less)
    with True Cons.IH show ?thesis by simp
  qed (use Cons.IH in simp)
qed simp

lemma evictable_min:
  assumes "encoder_inv state" "qe_table state = Some t"
  shows "wt_qpack_encoder_state_evictable_below state = Min (insert (dt_insert_count t) (ran (section_of state)))"
proof -
  have "ran (section_of state) = snd ` set (sections (qe_outstanding state))"
    using assms(1) unfolding section_of_map by (intro ran_distinct) (simp add: encoder_inv_def)
  then show ?thesis
    using assms(2) evictable_fold by (simp add: wt_qpack_encoder_state_evictable_below_def)
qed

subsection \<open>A history of calls\<close>

text \<open>What the encoder does, call by call; a change of the table it shares is one of the calls.\<close>

datatype encoder_call =
    BEGIN_SECTION u64 bool
  | SECTION_ACKNOWLEDGED u64
  | STREAM_CANCELLED u64
  | COUNT_INCREMENT u64
  | TABLE_CHANGED wt_qpack_dynamic_table

fun call_effect :: "encoder_call \<Rightarrow> wt_qpack_encoder_state \<Rightarrow> wt_qpack_encoder_state" where
  "call_effect (BEGIN_SECTION stream_id references_dynamic) s =
     snd (wt_qpack_encoder_state_begin_section s stream_id references_dynamic)"
| "call_effect (SECTION_ACKNOWLEDGED stream_id) s = snd (wt_qpack_encoder_state_section_acknowledged s stream_id)"
| "call_effect (STREAM_CANCELLED stream_id) s = snd (wt_qpack_encoder_state_stream_cancelled s stream_id)"
| "call_effect (COUNT_INCREMENT increment) s = snd (wt_qpack_encoder_state_on_insert_count_increment s increment)"
| "call_effect (TABLE_CHANGED t) s = s\<lparr>qe_table := Some t\<rparr>"

inductive encoder_history :: "u64 \<Rightarrow> encoder_call list \<Rightarrow> wt_qpack_encoder_state \<Rightarrow> bool" for capacity where
  no_call: "encoder_history capacity [] (wt_qpack_encoder_state_init (Some (wt_qpack_dynamic_init capacity)))"
| one_call: "encoder_history capacity calls s \<Longrightarrow>
    (\<And>t t'. call = TABLE_CHANGED t' \<Longrightarrow> qe_table s = Some t \<Longrightarrow> table_step t t') \<Longrightarrow>
    encoder_history capacity (calls @ [call]) (call_effect call s)"

text \<open>The same history for a reader who keeps no slots: the number of insertions, and for each stream with a
  section in flight the insertions there were when the section was begun. A new section replaces the one
  of its stream, and at most sixteen streams have one.\<close>

fun in_flight :: "encoder_call \<Rightarrow> u64 \<times> (u64 \<rightharpoonup> u64) \<Rightarrow> u64 \<times> (u64 \<rightharpoonup> u64)" where
  "in_flight (BEGIN_SECTION stream_id references_dynamic) (inserted, open) =
     (inserted,
      if references_dynamic \<and> (stream_id \<in> dom open \<or> card (dom open) < WT_QPACK_MAX_OUTSTANDING_SECTIONS)
      then open(stream_id \<mapsto> inserted) else open)"
| "in_flight (SECTION_ACKNOWLEDGED stream_id) (inserted, open) = (inserted, open(stream_id := None))"
| "in_flight (STREAM_CANCELLED stream_id) (inserted, open) = (inserted, open(stream_id := None))"
| "in_flight (COUNT_INCREMENT increment) (inserted, open) = (inserted, open)"
| "in_flight (TABLE_CHANGED t) (inserted, open) = (dt_insert_count t, open)"

lemma sections_length: "length (sections xs) \<le> length xs" "length (sections xs) = length xs \<longleftrightarrow> (\<forall>x \<in> set xs. os_in_use x)"
  by (simp_all add: sections_def) (metis filter_True filter_id_conv length_filter_less nat_neq_iff)

lemma card_open: "encoder_inv s \<Longrightarrow> card (dom (section_of s)) = length (sections (qe_outstanding s))"
  unfolding section_of_map dom_map_of_conv_image_fst encoder_inv_def
  by (metis distinct_card length_map list.set_map)

lemma begin_in_flight:
  assumes "encoder_inv s" "qe_table s = Some t"
  shows "section_of (snd (wt_qpack_encoder_state_begin_section s stream_id True)) =
    (if stream_id \<in> dom (section_of s) \<or> card (dom (section_of s)) < WT_QPACK_MAX_OUTSTANDING_SECTIONS
     then (section_of s)(stream_id \<mapsto> dt_insert_count t) else section_of s)"
proof -
  define s1 where "s1 = (case find_section s stream_id of None \<Rightarrow> s | Some i \<Rightarrow> forget s i)"
  note r = begin_released [OF assms(1), of stream_id, folded s1_def]
  have len: "length (qe_outstanding s1) = WT_QPACK_MAX_OUTSTANDING_SECTIONS" using r(1) by (simp add: encoder_inv_def)
  have card: "card (dom (section_of s1)) = (if stream_id \<in> dom (section_of s) then card (dom (section_of s)) - 1 else card (dom (section_of s)))"
    by (simp add: r(2))
  have le: "card (dom (section_of s)) \<le> WT_QPACK_MAX_OUTSTANDING_SECTIONS"
    using card_open [OF assms(1)] sections_length(1) [of "qe_outstanding s"] assms(1) by (simp add: encoder_inv_def)
  have full: "first_slot (\<lambda>section. \<not> os_in_use section) (qe_outstanding s1) = None \<longleftrightarrow>
      stream_id \<notin> dom (section_of s) \<and> card (dom (section_of s)) = WT_QPACK_MAX_OUTSTANDING_SECTIONS"
    using card_open [OF r(1)] sections_length(2) [of "qe_outstanding s1"] len card le
    by (auto simp: first_slot_None WT_QPACK_MAX_OUTSTANDING_SECTIONS_def split: if_splits)
  show ?thesis
  proof (cases "wt_qpack_encoder_state_begin_section s stream_id True")
    case (Pair p s')
    have "p = Inl WT_ERR_LIMIT \<and> s' = s1 \<and> first_slot (\<lambda>section. \<not> os_in_use section) (qe_outstanding s1) = None \<or>
        (\<exists>q. p = Inr q) \<and> first_slot (\<lambda>section. \<not> os_in_use section) (qe_outstanding s1) \<noteq> None"
      using Pair assms(2) unfolding wt_qpack_encoder_state_begin_section_def option.case(2) Let_def s1_def [symmetric]
      by (auto split: option.splits)
    then show ?thesis
    proof (elim disjE conjE exE)
      assume "s' = s1" "first_slot (\<lambda>section. \<not> os_in_use section) (qe_outstanding s1) = None"
      with r(2) full Pair show ?thesis by (auto simp: domIff)
    next
      fix q assume "p = Inr q" "first_slot (\<lambda>section. \<not> os_in_use section) (qe_outstanding s1) \<noteq> None"
      with begin_section_sections(2) [OF assms, of stream_id q s'] full le Pair show ?thesis by auto
    qed
  qed
qed

lemma begin_table: "qe_table (snd (wt_qpack_encoder_state_begin_section s stream_id references_dynamic)) = qe_table s"
  by (simp add: wt_qpack_encoder_state_begin_section_def Let_def forget_def split: option.split)

lemma ended_in_flight:
  assumes "encoder_inv s"
  shows "section_of (snd (wt_qpack_encoder_state_section_acknowledged s stream_id)) = (section_of s)(stream_id := None)"
    "section_of (snd (wt_qpack_encoder_state_stream_cancelled s stream_id)) = (section_of s)(stream_id := None)"
  using begin_released(2) [OF assms, of stream_id]
  by (simp_all add: wt_qpack_encoder_state_section_acknowledged_def wt_qpack_encoder_state_stream_cancelled_def split: option.splits)

text \<open>The slots implement the map.\<close>

lemma call_in_flight:
  assumes "encoder_inv s" "qe_table s = Some t"
  shows "\<exists>t'. qe_table (call_effect call s) = Some t' \<and>
    (dt_insert_count t', section_of (call_effect call s)) = in_flight call (dt_insert_count t, section_of s)"
proof (cases call)
  case (BEGIN_SECTION stream_id references_dynamic)
  with begin_in_flight [OF assms] begin_table [of s stream_id True] assms(2) show ?thesis
    by (cases references_dynamic) (simp_all add: wt_qpack_encoder_state_begin_section_def)
next
  case (SECTION_ACKNOWLEDGED stream_id)
  with ended_in_flight(1) [OF assms(1)] assms(2) show ?thesis
    by (auto simp: wt_qpack_encoder_state_section_acknowledged_def forget_def split: option.splits)
next
  case (STREAM_CANCELLED stream_id)
  with ended_in_flight(2) [OF assms(1)] assms(2) show ?thesis
    by (auto simp: wt_qpack_encoder_state_stream_cancelled_def forget_def split: option.splits)
next
  case (COUNT_INCREMENT increment)
  with assms(2) show ?thesis
    by (simp add: wt_qpack_encoder_state_on_insert_count_increment_def section_of_map)
next
  case (TABLE_CHANGED t')
  then show ?thesis by (simp add: section_of_map)
qed

lemma call_step:
  "(\<And>t t'. call = TABLE_CHANGED t' \<Longrightarrow> qe_table s = Some t \<Longrightarrow> table_step t t') \<Longrightarrow> qe_table s \<noteq> None \<Longrightarrow>
   encoder_step s (call_effect call s)"
  by (cases call) (auto intro: encoder_step.intros)

lemma history_in_flight:
  assumes "encoder_history capacity calls s"
  shows "encoder_step\<^sup>*\<^sup>* (wt_qpack_encoder_state_init (Some (wt_qpack_dynamic_init capacity))) s \<and>
    (\<exists>t. qe_table s = Some t \<and> (dt_insert_count t, section_of s) = fold in_flight calls (0, Map.empty))"
  using assms
proof induction
  case no_call
  show ?case by (simp add: wt_qpack_encoder_state_init_def section_of_map sections_def wt_qpack_dynamic_init_def)
next
  case (one_call calls s call)
  then obtain t where t: "qe_table s = Some t" "(dt_insert_count t, section_of s) = fold in_flight calls (0, Map.empty)"
    and r: "encoder_step\<^sup>*\<^sup>* (wt_qpack_encoder_state_init (Some (wt_qpack_dynamic_init capacity))) s" by blast
  have "encoder_step s (call_effect call s)" using one_call.hyps(2) t(1) by (intro call_step) simp_all
  with r call_in_flight [OF encoder_reach_inv [OF r] t(1), of call] t(2) show ?case
    by (auto intro: rtranclp.rtrancl_into_rtrancl)
qed

subsection \<open>The decoder stream on the wire\<close>

lemma decoder_prefix_ok: "prefix_ok 7 0x80" "prefix_ok 6 0x40" "prefix_ok 6 0"
  by (simp_all add: prefix_ok_def)

lemma reads_decoder_instruction:
  assumes "v \<le> WT_QPACK_INTEGER_MAX"
  shows "reads (wt_qpack_decoder_stream_apply s table) (integer_bytes 7 0x80 v)
      (s\<lparr>ds_sections_acknowledged := ds_sections_acknowledged s + 1\<rparr>)"
    "reads (wt_qpack_decoder_stream_apply s table) (integer_bytes 6 0x40 v)
      (s\<lparr>ds_streams_cancelled := ds_streams_cancelled s + 1\<rparr>)"
    "\<not> increment_refused (ds_acknowledged_insert_count s) table v \<Longrightarrow>
     reads (wt_qpack_decoder_stream_apply s table) (integer_bytes 6 0 v)
      (s\<lparr>ds_acknowledged_insert_count := ds_acknowledged_insert_count s + v\<rparr>)"
proof -
  have b1: "((0x80 OR of_nat m :: u8) AND 0x80 \<noteq> 0) = True" if "m < 2 ^ 7" for m :: nat
    using first_byte_flags(1) [OF decoder_prefix_ok(1) that] by simp
  have b2: "((0x40 OR of_nat m :: u8) AND 0x80 \<noteq> 0) = False" "((0x40 OR of_nat m :: u8) AND 0x40 \<noteq> 0) = True"
    if "m < 2 ^ 6" for m :: nat
    using first_byte_flags(1,2) [OF decoder_prefix_ok(2) that] by simp_all
  have b3: "((0 OR of_nat m :: u8) AND 0x80 \<noteq> 0) = False" "((0 OR of_nat m :: u8) AND 0x40 \<noteq> 0) = False"
    if "m < 2 ^ 6" for m :: nat
    using first_byte_flags(1,2) [OF decoder_prefix_ok(3) that] by simp_all
  note read = reads_bind_end [OF reads_integer_or [OF _ assms]]
  note peek = reads_peek_integer [where bs = "[]", simplified append_Nil2]
  show "reads (wt_qpack_decoder_stream_apply s table) (integer_bytes 7 0x80 v)
      (s\<lparr>ds_sections_acknowledged := ds_sections_acknowledged s + 1\<rparr>)"
    unfolding wt_qpack_decoder_stream_apply_def Let_def
    by (rule peek [OF decoder_prefix_ok(1)], simp only: b1 if_True)
      (rule read [OF decoder_prefix_ok(1)], simp)
  show "reads (wt_qpack_decoder_stream_apply s table) (integer_bytes 6 0x40 v)
      (s\<lparr>ds_streams_cancelled := ds_streams_cancelled s + 1\<rparr>)"
    unfolding wt_qpack_decoder_stream_apply_def Let_def
    by (rule peek [OF decoder_prefix_ok(2)], simp only: b2 if_True if_False)
      (rule read [OF decoder_prefix_ok(2)], simp)
  assume "\<not> increment_refused (ds_acknowledged_insert_count s) table v"
  then show "reads (wt_qpack_decoder_stream_apply s table) (integer_bytes 6 0 v)
      (s\<lparr>ds_acknowledged_insert_count := ds_acknowledged_insert_count s + v\<rparr>)"
    unfolding wt_qpack_decoder_stream_apply_def Let_def
    by (intro peek [OF decoder_prefix_ok(3)], simp only: b3 if_False)
      (rule read [OF decoder_prefix_ok(3)], simp)
qed

text \<open>An increment that is accepted cannot wrap and cannot pass the number of insertions.\<close>

lemma increment_accepted:
  assumes "\<not> increment_refused acknowledged (Some t) increment"
  shows "unat (acknowledged + increment) = unat acknowledged + unat increment"
    "acknowledged + increment \<le> dt_insert_count t"
proof -
  have "unat ((- 1) - increment) = 2 ^ 64 - 1 - unat increment"
    by (subst unat_sub_le) (simp_all add: unsigned_minus_1_eq_mask mask_eq_exp_minus_1)
  then show "unat (acknowledged + increment) = unat acknowledged + unat increment"
    using assms unat_u64_less [of increment]
    by (intro unat_add_no_wrap) (auto simp: increment_refused_def word_less_nat_alt)
  show "acknowledged + increment \<le> dt_insert_count t" using assms by (simp add: increment_refused_def not_less)
qed

definition encoder_fail_ok :: "qpack_fail \<Rightarrow> bool" where
  "encoder_fail_ok e \<longleftrightarrow> fst e = WT_ERR_TRUNCATED \<or> snd e = WT_QPACK_ERROR_ENCODER_STREAM"

lemma fails_encoder_parse: "fails_with encoder_parse encoder_fail_ok"
proof -
  have base: "fails_with (integer_or WT_QPACK_ERROR_ENCODER_STREAM n) encoder_fail_ok"
    "fails_with (string_or WT_QPACK_ERROR_ENCODER_STREAM) encoder_fail_ok"
    "fails_with (view_or (WT_ERR_TRUNCATED, WT_QPACK_ERROR_NONE) len) encoder_fail_ok"
    "fails_with (rpeek (WT_ERR_TRUNCATED, WT_QPACK_ERROR_ENCODER_STREAM)) encoder_fail_ok" for n len
    by (auto simp: fails_with_def encoder_fail_ok_def integer_or_def string_or_def view_or_def rpeek_def
        split: prod.splits sum.splits option.splits if_splits)
  have "fails_with (encoder_body first) encoder_fail_ok" for first
    unfolding encoder_body_def Let_def
    by (auto simp: encoder_fail_ok_def [of "(_, WT_QPACK_ERROR_ENCODER_STREAM)"] base split: prod.split
        intro!: fails_with_bind)
  then show ?thesis unfolding encoder_parse_def by (intro fails_with_bind base) 
qed

subsection \<open>Properties of the streams and the bookkeeping\<close>

text \<open>C33: An insertion sent on the encoder stream arrives. When the reader accepts an insertion
  instruction that one of the writers wrote, the table it feeds has, under the next absolute index,
  exactly the entry the instruction describes: the name from the static table, from the entry the
  relative index named before the insertion, or from the instruction itself.\<close>

theorem wt_qpack_encoder_stream_insert_visible:
  assumes "table_step\<^sup>*\<^sup>* (wt_qpack_dynamic_init capacity) t" "unat (dt_insert_count t) < 2 ^ 64 - 1"
    and "instruction_ok i" "inserts i" "unat cap \<le> length d"
    and "encoder_write i (wt_writer_init (Some d) cap) = (WT_OK, w)" "length (writer_out w @ rest) < 2 ^ 64"
    and "wt_qpack_encoder_stream_apply (wt_qpack_encoder_stream_init (Some t) max_capacity)
           (cursor_of (writer_out w @ rest)) = (None, s', c')"
  shows "map_option (\<lambda>t'. entry_of t' (unat (dt_insert_count t))) (qs_table s') = Some (instruction_field t i)"
proof -
  have good: "table_good t" using run_rel [OF assms(1)] by (simp add: table_good_def)
  note enc = appends_init [OF appends_instruction [OF assms(3)] assms(5)]
  have "writer_out w = instruction_bytes i" using enc assms(6) by (auto split: if_splits)
  with reads_of [OF reads_instruction [OF assms(3)], of rest] assms(7)
  have "fst (encoder_parse (cursor_of (writer_out w @ rest))) = Inr i" by simp
  then obtain c1 where p: "encoder_parse (cursor_of (writer_out w @ rest)) = (Inr i, c1)" by (metis prod.collapse)
  obtain t' where x: "encoder_execute max_capacity i t = (None, t')" "qs_table s' = Some t'"
    using assms(8) p by (auto simp: wt_qpack_encoder_stream_apply_def wt_qpack_encoder_stream_init_def split: prod.splits)
  with execute_visible(1) [OF good instruction_ok_small [OF assms(3)] assms(4,2) x(1)] show ?thesis by simp
qed

text \<open>No instruction is lost in silence. A call that fails either waits for more bytes, with the
  table as it was, or reports QPACK_ENCODER_STREAM_ERROR.\<close>

lemma wt_qpack_encoder_stream_failure_coded:
  assumes "qs_table s = Some t" "wt_qpack_encoder_stream_apply s c = (Some (status, e), s', c')"
  shows "status = WT_ERR_TRUNCATED \<and> s' = s \<or> e = WT_QPACK_ERROR_ENCODER_STREAM"
proof (cases "encoder_parse c")
  case (Pair r c1)
  show ?thesis
  proof (cases r)
    case (Inl f)
    with Pair have "encoder_fail_ok f" using fails_withD [OF fails_encoder_parse, of c f c1] by simp
    with Inl Pair assms show ?thesis by (auto simp: wt_qpack_encoder_stream_apply_def encoder_fail_ok_def)
  next
    case (Inr i)
    with Pair assms obtain t' where "encoder_execute (qs_max_capacity s) i t = (Some (status, e), t')"
      by (auto simp: wt_qpack_encoder_stream_apply_def split: prod.splits)
    from execute_coded [OF this] show ?thesis by simp
  qed
qed

text \<open>The bookkeeping is a map from streams to counts. Whatever the encoder did before, beginning a
  section that may reference the table records, for its stream and no other, the number of
  insertions made so far.\<close>

lemma wt_qpack_encoder_state_begin_records:
  assumes "encoder_step\<^sup>*\<^sup>* (wt_qpack_encoder_state_init (Some (wt_qpack_dynamic_init capacity))) s"
    and "wt_qpack_encoder_state_begin_section s stream_id True = (Inr p, s')"
  shows "section_of s' = (section_of s)(stream_id \<mapsto> hp_required_insert_count p)"
proof -
  note inv = encoder_reach_inv [OF assms(1)]
  then obtain t where "qe_table s = Some t" by (auto simp: encoder_inv_def split: option.splits)
  from begin_section_sections(2) [OF inv this assms(2)] show ?thesis by simp
qed

text \<open>C34: The eviction bound is the smallest required insert count in flight. After any sequence of sections
  begun, acknowledged and cancelled, of count increments and of changes to the table, the bound is the
  least of the number of insertions and the counts of the sections begun and neither ended nor replaced
  since, each the number of insertions at the time it was begun; with none in flight it is the number of
  insertions. So a section in flight keeps the bound from passing its count until it is
  acknowledged or cancelled, whatever else is begun, ended or inserted.\<close>

theorem wt_qpack_evictable_below_smallest:
  assumes "encoder_history capacity calls s"
  shows "wt_qpack_encoder_state_evictable_below s =
    (case fold in_flight calls (0, Map.empty) of (inserted, open) \<Rightarrow> Min (insert inserted (ran open)))"
proof -
  from history_in_flight [OF assms] obtain t where
    t: "qe_table s = Some t" "(dt_insert_count t, section_of s) = fold in_flight calls (0, Map.empty)"
    and r: "encoder_step\<^sup>*\<^sup>* (wt_qpack_encoder_state_init (Some (wt_qpack_dynamic_init capacity))) s" by blast
  from evictable_min [OF encoder_reach_inv [OF r] t(1)] show ?thesis unfolding t(2) [symmetric] by simp
qed

text \<open>The inputs of the witnesses.\<close>

definition sample_table :: wt_qpack_dynamic_table where
  "sample_table = snd (wt_qpack_dynamic_insert (wt_qpack_dynamic_init 200) (VIEW_BYTES [1]) (VIEW_BYTES [2]))"

lemma sample_table:
  "table_step (wt_qpack_dynamic_init 200) sample_table" "dyn_rel sample_table [([1], [2])]"
  "dt_insert_count sample_table = 1" "dt_capacity sample_table = 200"
proof -
  let ?i = "wt_qpack_dynamic_init 200" and ?n = "VIEW_BYTES [1]" and ?v = "VIEW_BYTES [2]"
  have i0: "dt_insert_count ?i = 0" "dt_capacity ?i = 200" by (simp_all add: wt_qpack_dynamic_init_def)
  have ok: "view_ok ?i ?n" "view_ok ?i ?v" by (simp_all add: view_ok_def)
  have "\<not> insert_refused ?i [] ([1], [2])"
    by (simp add: insert_refused_def i0 field_size_def entry_bytes_def WT_QPACK_DYNAMIC_MAX_ENTRIES_def
        WT_QPACK_DYNAMIC_MAX_BYTES_def)
  with insert_exact [OF dyn_rel_init ok] i0
  have r: "wt_qpack_dynamic_insert ?i ?n ?v = (Inr 0, sample_table)"
    and "dyn_rel sample_table [([1], [2])]" "dt_insert_count sample_table = 1" "dt_capacity sample_table = 200"
    by (auto simp: sample_table_def entry_bytes_def WT_QPACK_DYNAMIC_MAX_BYTES_def)
  then show "dyn_rel sample_table [([1], [2])]" "dt_insert_count sample_table = 1" "dt_capacity sample_table = 200"
    by simp_all
  show "table_step ?i sample_table"
    using table_step.insert_step [OF ok _ r] i0 by auto
qed

lemma sample_duplicate:
  "\<exists>t'. encoder_execute 200 (DUPLICATE 0) sample_table = (None, t')"
proof -
  note s = sample_table
  have dr: "unat (dt_dropped sample_table) = 0" using s(2,3) by (simp add: dyn_rel_def dyn_rep_def)
  then have d: "dt_dropped sample_table = 0" by (simp add: unat_eq_zero)
  from entry_exact [OF s(2), of 0] s(3) dr obtain n v where
    e: "wt_qpack_dynamic_entry sample_table 0 = Inr (n, v)" "view_ok sample_table n" "view_ok sample_table v"
      "view_read sample_table n = [1]" "view_read sample_table v = [2]" by auto
  have ref: "\<not> insert_refused sample_table [([1], [2])] ([1], [2])"
    by (simp add: insert_refused_def s field_size_def entry_bytes_def WT_QPACK_DYNAMIC_MAX_ENTRIES_def
        WT_QPACK_DYNAMIC_MAX_BYTES_def)
  from insert_exact [OF s(2) e(2,3)] ref s e
  have "\<exists>t'. wt_qpack_dynamic_insert sample_table n v = (Inr 1, t')"
    by (auto simp: field_size_def entry_bytes_def WT_QPACK_DYNAMIC_MAX_BYTES_def split: if_splits)
  then show ?thesis
    using e(1) s(3) d
    by (auto simp: encoder_execute_def relative_entry_def resolve_relative_def apply_insert_def)
qed

theorem wt_qpack_encoder_stream_insert_visible_witness:
  "\<exists>s'. fst (wt_qpack_encoder_stream_apply (wt_qpack_encoder_stream_init (Some sample_table) 200) (cursor_of [0, 7])) = None \<and>
     fst (snd (wt_qpack_encoder_stream_apply (wt_qpack_encoder_stream_init (Some sample_table) 200) (cursor_of [0, 7]))) = s' \<and>
     map_option (\<lambda>t'. entry_of t' 1) (qs_table s') = Some (Some ([1], [2]))"
proof -
  let ?s = "wt_qpack_encoder_stream_init (Some sample_table) 200"
  let ?w = "\<lparr>wr_data = [0], wr_cap = 1, wr_offset = 1, wr_copy = True, wr_overflow = False\<rparr> :: wt_writer"
  have w: "encoder_write (DUPLICATE 0) (wt_writer_init (Some [0]) 1) = (WT_OK, ?w)"
    by (simp add: wt_qpack_encoder_stream_write_duplicate_def wt_qpack_integer_encode_def wt_writer_u8_def
        wt_writer_put_def wt_writer_init_def overwrite_def WT_QUIC_VARINT_MAX_def writer_status_def wt_writer_ok_def)
  have out: "writer_out ?w = [0]" by (simp add: writer_out_def)
  have "fst (encoder_parse (cursor_of [0, 7])) = Inr (DUPLICATE 0)"
    using reads_of [OF reads_instruction [of "DUPLICATE 0"], of "[7]"]
    by (simp add: integer_bytes_def WT_QUIC_VARINT_MAX_def)
  then obtain c1 where p: "encoder_parse (cursor_of [0, 7]) = (Inr (DUPLICATE 0), c1)" by (metis prod.collapse)
  obtain t' where x: "encoder_execute 200 (DUPLICATE 0) sample_table = (None, t')" using sample_duplicate by blast
  let ?s' = "?s\<lparr>qs_table := Some t'\<rparr>"
  have run: "wt_qpack_encoder_stream_apply ?s (cursor_of [0, 7]) = (None, ?s', c1)"
    using p x by (simp add: wt_qpack_encoder_stream_apply_def wt_qpack_encoder_stream_init_def)
  have "entry_of sample_table 0 = Some ([1], [2])"
    using entry_of_rel [OF sample_table(2), of 0] sample_table(2,3) by (simp add: dyn_rel_def dyn_rep_def)
  with wt_qpack_encoder_stream_insert_visible [OF r_into_rtranclp [of table_step, OF sample_table(1)] _ _ _ _ w, of "[7]" 200 ?s' c1] run out sample_table(3)
  show ?thesis by (simp add: WT_QUIC_VARINT_MAX_def)
qed

theorem wt_qpack_evictable_below_smallest_witness:
  "\<exists>s. encoder_history 200 [BEGIN_SECTION 4 True, TABLE_CHANGED sample_table, BEGIN_SECTION 8 True, SECTION_ACKNOWLEDGED 4] s \<and>
     wt_qpack_encoder_state_evictable_below s = 1"
proof -
  let ?init = "wt_qpack_encoder_state_init (Some (wt_qpack_dynamic_init 200))"
  let ?calls = "[BEGIN_SECTION 4 True, TABLE_CHANGED sample_table, BEGIN_SECTION 8 True, SECTION_ACKNOWLEDGED 4]"
  let ?s1 = "call_effect (BEGIN_SECTION 4 True) ?init"
  have h1: "encoder_history 200 [BEGIN_SECTION 4 True] ?s1"
    using one_call [OF no_call [of 200], of "BEGIN_SECTION 4 True"] by simp
  have "qe_table ?s1 = Some (wt_qpack_dynamic_init 200)"
    by (simp add: begin_table) (simp add: wt_qpack_encoder_state_init_def)
  then have h2: "encoder_history 200 [BEGIN_SECTION 4 True, TABLE_CHANGED sample_table] (call_effect (TABLE_CHANGED sample_table) ?s1)"
    using one_call [OF h1, of "TABLE_CHANGED sample_table"] sample_table(1) by auto
  from one_call [OF one_call [OF this, of "BEGIN_SECTION 8 True"], of "SECTION_ACKNOWLEDGED 4"]
  obtain s where s: "encoder_history 200 ?calls s" by auto
  from wt_qpack_evictable_below_smallest [OF s] sample_table(3)
  have "wt_qpack_encoder_state_evictable_below s = 1"
    by (simp add: WT_QPACK_MAX_OUTSTANDING_SECTIONS_def ran_def)
  with s show ?thesis by blast
qed

end
