(* ===== verification/Qpack_Section.thy ===== *)
theory Qpack_Section
  imports Qpack_Streams
begin

text \<open>
  Whole QPACK field sections: one line resolved against the tables
  (\<open>C99/src/http3/qpack_field_section.c\<close>) and a section begun, walked and written
  (\<open>qpack_field_section_codec.c\<close>). A resolved field is a pair of pointers, and where they point to
  matters: into the wire bytes or the static table, which do not change (\<open>FV_VIEW\<close> of bytes), into the
  arena of the dynamic table (\<open>FV_VIEW\<close> of an arena range), or into the caller's scratch buffer
  (\<open>FV_SCRATCH\<close>), which every Huffman-coded string of the section is decoded into. The scratch buffer is
  threaded through as its bytes; what a failing decoder leaves above its cursor is not represented,
  since no pointer reaches it.
\<close>

subsection \<open>One line (qpack_field_section.c)\<close>

datatype field_view = FV_VIEW byte_view | FV_SCRATCH nat nat

fun fv_read :: "wt_qpack_dynamic_table option \<Rightarrow> u8 list \<Rightarrow> field_view \<Rightarrow> u8 list" where
  "fv_read table scratch (FV_VIEW (VIEW_BYTES bytes)) = bytes"
| "fv_read table scratch (FV_VIEW (VIEW_ARENA off len)) =
     (case table of None \<Rightarrow> [] | Some t \<Rightarrow> view_read t (VIEW_ARENA off len))"
| "fv_read table scratch (FV_SCRATCH off len) = take len (drop off scratch)"

abbreviation fv_bytes :: "u8 list \<Rightarrow> field_view" where
  "fv_bytes bytes \<equiv> FV_VIEW (VIEW_BYTES bytes)"

record wt_qpack_resolved_field =
  rf_name :: field_view
  rf_value :: field_view

text \<open>The caller's scratch buffer and how much of it the section has used.\<close>

record scratch_state =
  sc_bytes :: "u8 list"
  sc_used :: u64

definition materialise ::
  "u8 list \<Rightarrow> bool \<Rightarrow> u64 \<Rightarrow> scratch_state \<Rightarrow> field_view wt_result \<times> scratch_state" where
  "materialise bytes huffman capacity sc =
     (if \<not> huffman then (Inr (fv_bytes bytes), sc)
      else if sc_used sc > capacity then (Inl WT_ERR_LIMIT, sc)
      else
        case wt_qpack_huffman_decode bytes (capacity - sc_used sc) of
          Inl status \<Rightarrow> (Inl status, sc)
        | Inr decoded \<Rightarrow>
            (Inr (FV_SCRATCH (unat (sc_used sc)) (length decoded)),
             sc\<lparr>sc_bytes := overwrite (unat (sc_used sc)) decoded (sc_bytes sc),
                sc_used := sc_used sc + of_nat (length decoded)\<rparr>))"

definition decompression_failed :: qpack_fail where
  "decompression_failed = (WT_ERR_PROTOCOL, WT_QPACK_ERROR_DECOMPRESSION_FAILED)"

text \<open>A string that cannot be decoded keeps its status; only this endpoint's own bound has no code.\<close>

definition materialise_fail :: "wt_status \<Rightarrow> qpack_fail" where
  "materialise_fail status =
     (status, if status = WT_ERR_LIMIT then WT_QPACK_ERROR_NONE else WT_QPACK_ERROR_DECOMPRESSION_FAILED)"

definition dynamic_lookup ::
  "wt_qpack_dynamic_table option \<Rightarrow> u64 \<Rightarrow> qpack_fail + (byte_view \<times> byte_view)" where
  "dynamic_lookup table absolute =
     (case table of
        None \<Rightarrow> Inl decompression_failed
      | Some t \<Rightarrow>
          (case wt_qpack_dynamic_entry t absolute of
             Inl _ \<Rightarrow> Inl decompression_failed
           | Inr views \<Rightarrow> Inr views))"

text \<open>The absolute index of a line that names a dynamic entry: down from the base, or up from it.\<close>

definition absolute_index :: "wt_qpack_header_prefix \<Rightarrow> bool \<Rightarrow> u64 \<Rightarrow> u64 option" where
  "absolute_index prefix post_base index =
     (if post_base then
        if index > (- 1) - hp_base prefix then None
        else
          let absolute = hp_base prefix + index in
          if absolute \<ge> hp_required_insert_count prefix then None else Some absolute
      else if index \<ge> hp_base prefix then None
      else
        let absolute = hp_base prefix - index - 1 in
        if absolute \<ge> hp_required_insert_count prefix then None else Some absolute)"

definition section_dynamic ::
  "wt_qpack_header_prefix \<Rightarrow> wt_qpack_dynamic_table option \<Rightarrow> bool \<Rightarrow> u64 \<Rightarrow> field_view option \<Rightarrow>
   qpack_fail + wt_qpack_resolved_field" where
  "section_dynamic prefix table post_base index inline_value =
     (case absolute_index prefix post_base index of
        None \<Rightarrow> Inl decompression_failed
      | Some absolute \<Rightarrow>
          (case dynamic_lookup table absolute of
             Inl e \<Rightarrow> Inl e
           | Inr (entry_name, entry_value) \<Rightarrow>
               Inr \<lparr>rf_name = FV_VIEW entry_name,
                    rf_value = (case inline_value of None \<Rightarrow> FV_VIEW entry_value | Some v \<Rightarrow> v)\<rparr>))"

definition section_static ::
  "u64 \<Rightarrow> field_view option \<Rightarrow> qpack_fail + wt_qpack_resolved_field" where
  "section_static index inline_value =
     (case wt_qpack_static_entry index of
        Inl _ \<Rightarrow> Inl decompression_failed
      | Inr entry \<Rightarrow>
          Inr \<lparr>rf_name = fv_bytes (se_name entry),
               rf_value = (case inline_value of None \<Rightarrow> fv_bytes (se_value entry) | Some v \<Rightarrow> v)\<rparr>)"

text \<open>The switch over the kinds, with the inline value already decoded.\<close>

definition section_resolve ::
  "wt_qpack_header_prefix \<Rightarrow> wt_qpack_dynamic_table option \<Rightarrow> u64 \<Rightarrow> wt_qpack_field_line \<Rightarrow> field_view \<Rightarrow>
   scratch_state \<Rightarrow> (qpack_fail + wt_qpack_resolved_field) \<times> scratch_state" where
  "section_resolve prefix table capacity line inline_value sc =
     (case fl_kind line of
        WT_QPACK_FIELD_INDEXED_STATIC \<Rightarrow> (section_static (fl_index line) None, sc)
      | WT_QPACK_FIELD_LITERAL_NAME_REF_STATIC \<Rightarrow> (section_static (fl_index line) (Some inline_value), sc)
      | WT_QPACK_FIELD_INDEXED_DYNAMIC \<Rightarrow> (section_dynamic prefix table False (fl_index line) None, sc)
      | WT_QPACK_FIELD_LITERAL_NAME_REF_DYNAMIC \<Rightarrow>
          (section_dynamic prefix table False (fl_index line) (Some inline_value), sc)
      | WT_QPACK_FIELD_POST_BASE_INDEX \<Rightarrow> (section_dynamic prefix table True (fl_index line) None, sc)
      | WT_QPACK_FIELD_POST_BASE_NAME_REF \<Rightarrow>
          (section_dynamic prefix table True (fl_index line) (Some inline_value), sc)
      | WT_QPACK_FIELD_LITERAL_LITERAL_NAME \<Rightarrow>
          (case materialise (fl_name line) (fl_name_huffman line) capacity sc of
             (Inl status, sc') \<Rightarrow> (Inl (materialise_fail status), sc')
           | (Inr name, sc') \<Rightarrow> (Inr \<lparr>rf_name = name, rf_value = inline_value\<rparr>, sc')))"

definition wt_qpack_field_section_next ::
  "wt_qpack_header_prefix \<Rightarrow> wt_qpack_dynamic_table option \<Rightarrow> u64 \<Rightarrow> wt_cursor \<Rightarrow> scratch_state \<Rightarrow>
   (qpack_fail + wt_qpack_resolved_field) \<times> wt_cursor \<times> scratch_state" where
  "wt_qpack_field_section_next prefix table capacity c sc =
     (if wt_cursor_at_end c then (Inl (WT_ERR_CLOSED, WT_QPACK_ERROR_NONE), c, sc)
      else
        case wt_qpack_field_line_decode c of
          (Inl status, c') \<Rightarrow>
            (Inl (if status = WT_ERR_TRUNCATED then (WT_ERR_TRUNCATED, WT_QPACK_ERROR_NONE)
                  else decompression_failed), c', sc)
        | (Inr line, c') \<Rightarrow>
            (case (if fl_kind line = WT_QPACK_FIELD_INDEXED_STATIC \<or> fl_kind line = WT_QPACK_FIELD_INDEXED_DYNAMIC
                   then (Inr (fv_bytes []), sc)
                   else materialise (fl_value line) (fl_value_huffman line) capacity sc) of
               (Inl status, sc') \<Rightarrow> (Inl (materialise_fail status), c', sc')
             | (Inr inline_value, sc') \<Rightarrow>
                 let (r, sc'') = section_resolve prefix table capacity line inline_value sc'
                 in (r, c', sc'')))"

subsection \<open>A section (qpack_field_section_codec.c)\<close>

record wt_qpack_field_section_decoder =
  sd_prefix :: wt_qpack_header_prefix
  sd_table :: "wt_qpack_dynamic_table option"
  sd_cursor :: wt_cursor
  sd_scratch_used :: u64

definition wt_qpack_field_section_begin ::
  "wt_qpack_dynamic_table option \<Rightarrow> u64 \<Rightarrow> u8 list \<Rightarrow> u64 \<Rightarrow> qpack_fail + wt_qpack_field_section_decoder" where
  "wt_qpack_field_section_begin table max_entries bytes known_insert_count =
     (case wt_qpack_header_prefix_decode max_entries known_insert_count (cursor_of bytes) of
        (Inl e, c) \<Rightarrow> Inl e
      | (Inr prefix, c) \<Rightarrow>
          if hp_required_insert_count prefix > known_insert_count then Inl (WT_ERR_AGAIN, WT_QPACK_ERROR_NONE)
          else Inr \<lparr>sd_prefix = prefix, sd_table = table, sd_cursor = c, sd_scratch_used = 0\<rparr>)"

definition wt_qpack_field_section_decoder_next ::
  "u64 \<Rightarrow> wt_qpack_field_section_decoder \<Rightarrow> u8 list \<Rightarrow>
   (qpack_fail + wt_qpack_resolved_field) \<times> wt_qpack_field_section_decoder \<times> u8 list" where
  "wt_qpack_field_section_decoder_next capacity decoder scratch =
     (let (r, c, sc) = wt_qpack_field_section_next (sd_prefix decoder) (sd_table decoder) capacity (sd_cursor decoder)
            \<lparr>sc_bytes = scratch, sc_used = sd_scratch_used decoder\<rparr>
      in (r, decoder\<lparr>sd_cursor := c, sd_scratch_used := sc_used sc\<rparr>, sc_bytes sc))"

fun section_encode_lines :: "wt_qpack_field_line list \<Rightarrow> u64 \<Rightarrow> wt_writer \<Rightarrow> wt_status \<times> wt_writer" where
  "section_encode_lines [] scratch_capacity w = (WT_OK, w)"
| "section_encode_lines (line # lines) scratch_capacity w =
     (case wt_qpack_field_line_encode_coded line scratch_capacity w of
        (status, w') \<Rightarrow>
          if status \<noteq> WT_OK then (status, w') else section_encode_lines lines scratch_capacity w')"

definition wt_qpack_field_section_encode ::
  "wt_qpack_header_prefix \<Rightarrow> u64 \<Rightarrow> wt_qpack_field_line list \<Rightarrow> u64 \<Rightarrow> wt_writer \<Rightarrow> wt_status \<times> wt_writer" where
  "wt_qpack_field_section_encode prefix max_entries lines scratch_capacity =
     wseq (wt_qpack_header_prefix_encode (hp_required_insert_count prefix) (hp_base prefix) max_entries)
       (section_encode_lines lines scratch_capacity)"

subsection \<open>A section on the wire\<close>

lemma appends_status: "appends f bs \<Longrightarrow> fst (f w) = WT_OK \<or> fst (f w) = WT_ERR_LIMIT"
  by (simp add: appends_def writer_status_def)

lemma wseq_assoc: "wseq f (wseq g h) = wseq (wseq f g) h"
  by (intro ext) (simp add: wseq_def split: prod.splits)

lemma wseq_done: "appends f bs \<Longrightarrow> wseq f (\<lambda>w. (WT_OK, w)) = f"
proof
  fix w assume "appends f bs"
  from appends_status [OF this, of w] show "wseq f (\<lambda>w. (WT_OK, w)) w = f w"
    by (cases "f w") (auto simp: wseq_def)
qed

lemma section_lines_Cons:
  assumes "appends (wt_qpack_field_line_encode_coded l capacity) bs"
  shows "section_encode_lines (l # lines) capacity =
    wseq (wt_qpack_field_line_encode_coded l capacity) (section_encode_lines lines capacity)"
proof
  fix w
  from appends_status [OF assms, of w]
  show "section_encode_lines (l # lines) capacity w =
    wseq (wt_qpack_field_line_encode_coded l capacity) (section_encode_lines lines capacity) w"
    by (cases "wt_qpack_field_line_encode_coded l capacity w") (auto simp: wseq_def)
qed

definition lines_bytes :: "wt_qpack_field_line list \<Rightarrow> u8 list" where
  "lines_bytes lines = concat (map line_bytes lines)"

lemma lines_bytes_simps [simp]: "lines_bytes [] = []" "lines_bytes (l # lines) = line_bytes l @ lines_bytes lines"
  by (simp_all add: lines_bytes_def)

lemma appends_lines:
  assumes "\<forall>l \<in> set lines. line_ok l \<and> scratch_fits l capacity" "appends g as"
  shows "appends (wseq g (section_encode_lines lines capacity)) (as @ lines_bytes lines)"
  using assms
proof (induction lines arbitrary: g as)
  case Nil
  have "section_encode_lines [] capacity = (\<lambda>w. (WT_OK, w))" by (intro ext) simp
  with Nil.prems(2) show ?case by (simp add: wseq_done)
next
  case (Cons l lines)
  then have l: "appends (wt_qpack_field_line_encode_coded l capacity) (line_bytes l)" by (simp add: appends_line)
  have "appends (wseq (wseq g (wt_qpack_field_line_encode_coded l capacity)) (section_encode_lines lines capacity))
      ((as @ line_bytes l) @ lines_bytes lines)"
    using Cons.prems(1) by (intro Cons.IH appends_wseq [OF Cons.prems(2) l]) simp
  then show ?case by (simp add: section_lines_Cons [OF l] wseq_assoc)
qed

definition section_bytes :: "wt_qpack_header_prefix \<Rightarrow> u64 \<Rightarrow> wt_qpack_field_line list \<Rightarrow> u8 list" where
  "section_bytes prefix max_entries lines =
     prefix_bytes (hp_required_insert_count prefix) (hp_base prefix) max_entries @ lines_bytes lines"

lemma appends_section:
  assumes "prefix_sendable (hp_required_insert_count prefix) (hp_base prefix) max_entries"
    and "\<forall>l \<in> set lines. line_ok l \<and> scratch_fits l capacity"
  shows "appends (wt_qpack_field_section_encode prefix max_entries lines capacity)
    (section_bytes prefix max_entries lines)"
  unfolding wt_qpack_field_section_encode_def section_bytes_def
  using appends_lines [OF assms(2) appends_prefix [OF assms(1)]] .

subsection \<open>Every line consumes bytes\<close>

lemma string_shrinks [simp]: "reader_shrinks wt_qpack_string_decode"
  unfolding wt_qpack_string_decode_def by (intro reader_shrinks_bind reader_shrinks_if) simp_all

lemma line_value_shrinks [simp]: "reader_shrinks (line_value l)"
  unfolding line_value_def by (intro reader_shrinks_bind) (simp_all add: case_prod_beta)

lemma integer_bind_progress:
  assumes "\<And>v. reader_shrinks (f v)" "rbind (wt_qpack_integer_decode n) f c = (Inr x, c')"
  shows "wt_cursor_remaining c' < wt_cursor_remaining c"
proof -
  from assms(2) obtain v c1 where i: "wt_qpack_integer_decode n c = (Inr v, c1)" "f v c1 = (Inr x, c')"
    by (auto simp: rbind_def split: prod.splits sum.splits)
  from integer_progress [OF i(1)] reader_shrinksD [OF assms(1) i(2)] show ?thesis by simp
qed

lemma line_body_progress:
  "line_body first c = (Inr l, c') \<Longrightarrow> wt_cursor_remaining c' < wt_cursor_remaining c"
  unfolding line_body_def narrow_u64_to_size sum.case
  by (auto split: if_splits elim!: integer_bind_progress [rotated] intro!: reader_shrinks_bind)

lemma line_progress:
  assumes "wt_qpack_field_line_decode c = (Inr l, c')"
  shows "wt_cursor_remaining c' < wt_cursor_remaining c"
  using assms
  by (auto simp: wt_qpack_field_line_decode_def rbind_def rpeek_def split: prod.splits sum.splits option.splits
      dest: line_body_progress)

lemma next_progress:
  assumes "wt_qpack_field_section_decoder_next capacity d scratch = (Inr f, d', scratch')"
  shows "wt_cursor_remaining (sd_cursor d') < wt_cursor_remaining (sd_cursor d)"
proof -
  obtain r c sc where n: "wt_qpack_field_section_next (sd_prefix d) (sd_table d) capacity (sd_cursor d)
      \<lparr>sc_bytes = scratch, sc_used = sd_scratch_used d\<rparr> = (r, c, sc)" by (metis prod_cases3)
  with assms have r: "r = Inr f" "sd_cursor d' = c" by (auto simp: wt_qpack_field_section_decoder_next_def)
  with n obtain l where "wt_qpack_field_line_decode (sd_cursor d) = (Inr l, c)"
    by (auto simp: wt_qpack_field_section_next_def Let_def split: if_splits prod.splits sum.splits)
  from line_progress [OF this] r show ?thesis by simp
qed

subsection \<open>What a line stands for\<close>

text \<open>The entry a dynamic index names (RFC 9204 section 3.2.5), on natural numbers.\<close>

definition indexed_field ::
  "wt_qpack_header_prefix \<Rightarrow> wt_qpack_dynamic_table option \<Rightarrow> bool \<Rightarrow> u64 \<Rightarrow> field option" where
  "indexed_field prefix table post_base index =
     (let base = unat (hp_base prefix); required = unat (hp_required_insert_count prefix);
          absolute = (if post_base then base + unat index else base - unat index - 1)
      in if (post_base \<or> unat index < base) \<and> absolute < required
         then Option.bind table (\<lambda>t. entry_of t absolute) else None)"

definition line_field :: "wt_qpack_header_prefix \<Rightarrow> wt_qpack_dynamic_table option \<Rightarrow> wt_qpack_field_line \<Rightarrow> field option" where
  "line_field prefix table line =
     (let static = (case wt_qpack_static_entry (fl_index line) of
            Inl _ \<Rightarrow> None | Inr entry \<Rightarrow> Some (se_name entry, se_value entry));
          with_value = map_option (\<lambda>f. (fst f, fl_value line))
      in case fl_kind line of
        WT_QPACK_FIELD_INDEXED_STATIC \<Rightarrow> static
      | WT_QPACK_FIELD_LITERAL_NAME_REF_STATIC \<Rightarrow> with_value static
      | WT_QPACK_FIELD_INDEXED_DYNAMIC \<Rightarrow> indexed_field prefix table False (fl_index line)
      | WT_QPACK_FIELD_LITERAL_NAME_REF_DYNAMIC \<Rightarrow> with_value (indexed_field prefix table False (fl_index line))
      | WT_QPACK_FIELD_POST_BASE_INDEX \<Rightarrow> indexed_field prefix table True (fl_index line)
      | WT_QPACK_FIELD_POST_BASE_NAME_REF \<Rightarrow> with_value (indexed_field prefix table True (fl_index line))
      | WT_QPACK_FIELD_LITERAL_LITERAL_NAME \<Rightarrow> Some (fl_name line, fl_value line))"

text \<open>The scratch a line takes: the decoded length of its Huffman-coded strings.\<close>

definition line_used :: "wt_qpack_field_line \<Rightarrow> nat" where
  "line_used l =
     (if fl_value_huffman l then length (fl_value l) else 0) + (if fl_name_huffman l then length (fl_name l) else 0)"

lemma absolute_index_nat:
  "absolute_index prefix post_base index =
     (let base = unat (hp_base prefix); required = unat (hp_required_insert_count prefix);
          absolute = (if post_base then base + unat index else base - unat index - 1)
      in if (post_base \<or> unat index < base) \<and> absolute < required then Some (of_nat absolute) else None)"
proof (cases post_base)
  case True
  let ?b = "hp_base prefix" and ?r = "hp_required_insert_count prefix"
  have m: "unat ((- 1) - ?b) = 2 ^ 64 - 1 - unat ?b"
    by (subst unat_sub_le) (simp_all add: unsigned_minus_1_eq_mask mask_eq_exp_minus_1)
  show ?thesis
  proof (cases "unat ?b + unat index < 2 ^ 64")
    case fits: True
    then have "\<not> index > (- 1) - ?b" using m by (simp add: word_less_nat_alt)
    moreover have "unat (?b + index) = unat ?b + unat index" using fits by (rule unat_add_no_wrap)
    ultimately show ?thesis
      using True by (simp add: absolute_index_def Let_def word_le_nat_alt)
  next
    case False
    then have "index > (- 1) - ?b" using m unat_u64_less [of ?b] by (simp add: word_less_nat_alt)
    moreover have "\<not> unat ?b + unat index < unat ?r" using False unat_u64_less [of ?r] by simp
    ultimately show ?thesis using True by (simp add: absolute_index_def Let_def)
  qed
next
  case False
  let ?b = "hp_base prefix"
  show ?thesis
  proof (cases "unat index < unat ?b")
    case True
    have "unat (?b - index) = unat ?b - unat index" using True by (simp add: unat_sub_le word_le_nat_alt)
    then have a: "unat (?b - index - 1) = unat ?b - unat index - 1"
      using True by (subst unat_sub_le) (simp_all add: word_le_nat_alt)
    have w: "of_nat (unat ?b - unat index - 1) = ?b - index - 1" by (simp only: a [symmetric] of_nat_unat ucast_id)
    show ?thesis
      unfolding absolute_index_def Let_def word_le_nat_alt if_not_P [OF False] a w
      using True by (cases "unat ?b - unat index - 1 < unat (hp_required_insert_count prefix)")
        (simp_all only: linorder_not_less [symmetric] simp_thms if_False if_True False)
  qed (use False in \<open>simp add: absolute_index_def word_le_nat_alt\<close>)
qed

definition reads_as ::
  "wt_qpack_dynamic_table option \<Rightarrow> scratch_state \<Rightarrow> field_view \<Rightarrow> u8 list \<Rightarrow> bool" where
  "reads_as table sc v bytes \<longleftrightarrow>
     (\<forall>s. take (unat (sc_used sc)) s = take (unat (sc_used sc)) (sc_bytes sc) \<longrightarrow> fv_read table s v = bytes)"

text \<open>What the scratch buffer does while a section is read: it keeps what it has.\<close>

definition scratch_grows :: "scratch_state \<Rightarrow> nat \<Rightarrow> scratch_state \<Rightarrow> bool" where
  "scratch_grows sc n sc' \<longleftrightarrow>
     length (sc_bytes sc') = length (sc_bytes sc) \<and> unat (sc_used sc') = unat (sc_used sc) + n \<and>
     take (unat (sc_used sc)) (sc_bytes sc') = take (unat (sc_used sc)) (sc_bytes sc)"

lemma scratch_grows_refl: "scratch_grows sc 0 sc"
  by (simp add: scratch_grows_def)

lemma scratch_grows_trans:
  assumes "scratch_grows a m b" "scratch_grows b n c"
  shows "scratch_grows a (m + n) c"
proof -
  have "take (unat (sc_used a)) (take (unat (sc_used b)) (sc_bytes c)) =
      take (unat (sc_used a)) (take (unat (sc_used b)) (sc_bytes b))"
    using assms(2) by (simp add: scratch_grows_def)
  then show ?thesis using assms by (simp add: scratch_grows_def min_def)
qed

lemma reads_as_grows:
  assumes "reads_as table sc v bytes" "scratch_grows sc n sc'"
  shows "reads_as table sc' v bytes"
  unfolding reads_as_def
proof (intro allI impI)
  fix s assume s: "take (unat (sc_used sc')) s = take (unat (sc_used sc')) (sc_bytes sc')"
  have le: "unat (sc_used sc) \<le> unat (sc_used sc')" using assms(2) by (simp add: scratch_grows_def)
  then have "take (unat (sc_used sc)) s = take (unat (sc_used sc)) (take (unat (sc_used sc')) s)" by (simp add: min_def)
  also have "\<dots> = take (unat (sc_used sc)) (sc_bytes sc)"
    using s assms(2) le by (simp add: scratch_grows_def min_def)
  finally show "fv_read table s v = bytes" using assms(1) by (simp add: reads_as_def)
qed

lemma reads_as_bytes [simp]: "reads_as table sc (fv_bytes bytes) bytes' \<longleftrightarrow> bytes = bytes'"
  by (auto simp: reads_as_def)

lemma reads_as_view: "reads_as (Some t) sc (FV_VIEW v) (view_read t v)"
  by (cases v) (simp_all add: reads_as_def)

lemma materialise_reads:
  assumes ok: "string_ok huffman bytes" and cap: "unat capacity \<le> length (sc_bytes sc)"
    and room: "unat (sc_used sc) + (if huffman then length bytes else 0) \<le> unat capacity"
  obtains v sc' where "materialise (string_wire huffman bytes) huffman capacity sc = (Inr v, sc')"
    "scratch_grows sc (if huffman then length bytes else 0) sc'" "reads_as table sc' v bytes"
proof (cases huffman)
  case False
  with that [of "fv_bytes bytes" sc] show thesis by (simp add: materialise_def scratch_grows_refl)
next
  case True
  let ?u = "sc_used sc"
  have u: "unat ?u + length bytes \<le> unat capacity" using room True by simp
  have ncap: "\<not> ?u > capacity" using u by (simp add: word_less_nat_alt)
  have sub: "unat (capacity - ?u) = unat capacity - unat ?u" using u by (simp add: unat_sub_le word_le_nat_alt)
  have enc: "wt_qpack_huffman_encode bytes (of_nat (huffman_size bytes)) = Inr (huffman_coded bytes)"
    using string_ok_size ok True by (intro huffman_coded_encode) simp
  have dec: "wt_qpack_huffman_decode (huffman_coded bytes) (capacity - ?u) = Inr bytes"
    using u sub by (intro huffman_decode_encode [OF enc]) simp
  let ?sc = "sc\<lparr>sc_bytes := overwrite (unat ?u) bytes (sc_bytes sc), sc_used := ?u + of_nat (length bytes)\<rparr>"
  have fit: "unat ?u + length bytes \<le> length (sc_bytes sc)" using u cap by simp
  have used: "unat (?u + of_nat (length bytes)) = unat ?u + length bytes"
    using u unat_u64_less [of capacity] by (subst unat_add_of_nat) simp_all
  have new: "take (unat ?u + length bytes) (overwrite (unat ?u) bytes (sc_bytes sc)) = take (unat ?u) (sc_bytes sc) @ bytes"
    using fit by (rule take_overwrite)
  have "take (unat ?u) (overwrite (unat ?u) bytes (sc_bytes sc)) =
      take (unat ?u) (take (unat ?u + length bytes) (overwrite (unat ?u) bytes (sc_bytes sc)))" by (simp add: min_def)
  also have "\<dots> = take (unat ?u) (sc_bytes sc)" unfolding new using fit by simp
  finally have grows: "scratch_grows sc (length bytes) ?sc"
    using used fit by (simp add: scratch_grows_def)
  have "reads_as table ?sc (FV_SCRATCH (unat ?u) (length bytes)) bytes"
    unfolding reads_as_def
  proof (intro allI impI)
    fix s assume "take (unat (sc_used ?sc)) s = take (unat (sc_used ?sc)) (sc_bytes ?sc)"
    then have "take (unat ?u + length bytes) s = take (unat ?u) (sc_bytes sc) @ bytes" using used new by simp
    then have "drop (unat ?u) (take (unat ?u + length bytes) s) = bytes" using fit by simp
    then show "fv_read table s (FV_SCRATCH (unat ?u) (length bytes)) = bytes" by (simp add: drop_take)
  qed
  with that [of "FV_SCRATCH (unat ?u) (length bytes)" ?sc] grows dec ncap True show thesis
    by (simp add: materialise_def string_wire_def)
qed

subsection \<open>Reading a line\<close>

definition table_ok :: "wt_qpack_dynamic_table option \<Rightarrow> bool" where
  "table_ok table \<longleftrightarrow> (case table of None \<Rightarrow> True | Some t \<Rightarrow> table_good t)"

definition field_reads ::
  "wt_qpack_dynamic_table option \<Rightarrow> scratch_state \<Rightarrow> wt_qpack_resolved_field \<Rightarrow> field \<Rightarrow> bool" where
  "field_reads table sc r f \<longleftrightarrow> reads_as table sc (rf_name r) (fst f) \<and> reads_as table sc (rf_value r) (snd f)"

lemma entry_of_views:
  assumes "entry_of t n = Some f"
  obtains en ev where "wt_qpack_dynamic_entry t (of_nat n) = Inr (en, ev)" "view_read t en = fst f" "view_read t ev = snd f"
proof (cases "wt_qpack_dynamic_entry t (of_nat n)")
  case (Inl e)
  then show thesis using assms by (cases "n < 2 ^ 64") (simp_all only: entry_of_def if_True if_False sum.case option.distinct)
next
  case (Inr views)
  obtain en ev where v: "views = (en, ev)" by (cases views)
  have "Some (view_read t en, view_read t ev) = Some f"
    using assms Inr v by (cases "n < 2 ^ 64") (simp_all only: entry_of_def if_True if_False sum.case prod.case option.distinct)
  then show thesis using that Inr v by auto
qed

lemma section_dynamic_reads:
  assumes f: "indexed_field prefix table post_base index = Some f"
    and v: "case inline of None \<Rightarrow> val = snd f | Some v \<Rightarrow> reads_as table sc v val"
  obtains r where "section_dynamic prefix table post_base index inline = Inr r" "field_reads table sc r (fst f, val)"
proof -
  define n where "n = (if post_base then unat (hp_base prefix) + unat index else unat (hp_base prefix) - unat index - 1)"
  let ?in = "(post_base \<or> unat index < unat (hp_base prefix)) \<and> n < unat (hp_required_insert_count prefix)"
  have i: "indexed_field prefix table post_base index = (if ?in then Option.bind table (\<lambda>t. entry_of t n) else None)"
    and a: "absolute_index prefix post_base index = (if ?in then Some (of_nat n) else None)"
    unfolding indexed_field_def absolute_index_nat Let_def n_def by (rule refl)+
  from f i have ?in by (auto split: if_splits)
  with f i a have abs: "absolute_index prefix post_base index = Some (of_nat n)"
    and "Option.bind table (\<lambda>t. entry_of t n) = Some f" by (simp_all only: if_True simp_thms)
  then obtain t where t: "table = Some t" "entry_of t n = Some f" by (cases table) simp_all
  from entry_of_views [OF t(2)] obtain en ev where e: "wt_qpack_dynamic_entry t (of_nat n) = Inr (en, ev)"
    "view_read t en = fst f" "view_read t ev = snd f" .
  have "reads_as table sc (FV_VIEW en) (fst f)" "reads_as table sc (FV_VIEW ev) (snd f)"
    using reads_as_view [of t sc en] reads_as_view [of t sc ev] e(2,3) t(1) by simp_all
  with that v abs e(1) t(1) show thesis
    by (cases inline) (simp_all add: section_dynamic_def dynamic_lookup_def field_reads_def)
qed

lemma section_static_reads:
  assumes "wt_qpack_static_entry index = Inr entry"
    and "case inline of None \<Rightarrow> val = se_value entry | Some v \<Rightarrow> reads_as table sc v val"
  obtains r where "section_static index inline = Inr r" "field_reads table sc r (se_name entry, val)"
  using assms that by (cases inline) (auto simp: section_static_def field_reads_def)

lemma resolve_reads:
  assumes ok: "line_ok l" and f: "line_field prefix table l = Some f"
    and v: "has_value (fl_kind l) \<Longrightarrow> reads_as table sc v (fl_value l)"
    and cap: "unat capacity \<le> length (sc_bytes sc)"
    and room: "unat (sc_used sc) + (if fl_name_huffman l then length (fl_name l) else 0) \<le> unat capacity"
  obtains r sc' where "section_resolve prefix table capacity (wire_line l) v sc = (Inr r, sc')"
    "scratch_grows sc (if fl_name_huffman l then length (fl_name l) else 0) sc'" "field_reads table sc' r f"
proof (cases "fl_kind l")
  case WT_QPACK_FIELD_LITERAL_LITERAL_NAME
  have "string_ok (fl_name_huffman l) (fl_name l)" using ok by (simp add: line_ok_def)
  from materialise_reads [OF this cap room] obtain name sc' where
    m: "materialise (name_wire l) (fl_name_huffman l) capacity sc = (Inr name, sc')"
      "scratch_grows sc (if fl_name_huffman l then length (fl_name l) else 0) sc'" "reads_as table sc' name (fl_name l)" .
  have "reads_as table sc' v (fl_value l)"
    using v WT_QPACK_FIELD_LITERAL_LITERAL_NAME by (intro reads_as_grows [OF _ m(2)]) simp
  with that [of "\<lparr>rf_name = name, rf_value = v\<rparr>" sc'] m f WT_QPACK_FIELD_LITERAL_LITERAL_NAME show thesis
    by (auto simp: section_resolve_def wire_line_def line_field_def field_reads_def)
next
  case WT_QPACK_FIELD_INDEXED_STATIC
  with f obtain entry where e: "wt_qpack_static_entry (fl_index l) = Inr entry" "f = (se_name entry, se_value entry)"
    by (auto simp: line_field_def Let_def split: sum.splits)
  from section_static_reads [OF e(1), where inline = None and val = "se_value entry" and table = table and sc = sc] obtain r where
    "section_static (fl_index l) None = Inr r" "field_reads table sc r f" using e(2) by auto
  with that [of r sc] ok WT_QPACK_FIELD_INDEXED_STATIC show thesis
    by (simp add: section_resolve_def wire_line_def line_ok_def scratch_grows_refl)
next
  case WT_QPACK_FIELD_LITERAL_NAME_REF_STATIC
  with f obtain entry where e: "wt_qpack_static_entry (fl_index l) = Inr entry" "f = (se_name entry, fl_value l)"
    by (auto simp: line_field_def Let_def split: sum.splits)
  have "reads_as table sc v (fl_value l)" using v WT_QPACK_FIELD_LITERAL_NAME_REF_STATIC by simp
  with section_static_reads [OF e(1), where inline = "Some v" and val = "fl_value l" and table = table and sc = sc] obtain r where
    "section_static (fl_index l) (Some v) = Inr r" "field_reads table sc r f" using e(2) by auto
  with that [of r sc] ok WT_QPACK_FIELD_LITERAL_NAME_REF_STATIC show thesis
    by (simp add: section_resolve_def wire_line_def line_ok_def scratch_grows_refl)
next
  case WT_QPACK_FIELD_INDEXED_DYNAMIC
  with f have i: "indexed_field prefix table False (fl_index l) = Some f" by (simp add: line_field_def)
  from section_dynamic_reads [OF i, where inline = None and val = "snd f" and sc = sc] obtain r where
    "section_dynamic prefix table False (fl_index l) None = Inr r" "field_reads table sc r f" by auto
  with that [of r sc] ok WT_QPACK_FIELD_INDEXED_DYNAMIC show thesis
    by (simp add: section_resolve_def wire_line_def line_ok_def scratch_grows_refl)
next
  case WT_QPACK_FIELD_POST_BASE_INDEX
  with f have i: "indexed_field prefix table True (fl_index l) = Some f" by (simp add: line_field_def)
  from section_dynamic_reads [OF i, where inline = None and val = "snd f" and sc = sc] obtain r where
    "section_dynamic prefix table True (fl_index l) None = Inr r" "field_reads table sc r f" by auto
  with that [of r sc] ok WT_QPACK_FIELD_POST_BASE_INDEX show thesis
    by (simp add: section_resolve_def wire_line_def line_ok_def scratch_grows_refl)
next
  case WT_QPACK_FIELD_LITERAL_NAME_REF_DYNAMIC
  with f obtain g where g: "indexed_field prefix table False (fl_index l) = Some g" "f = (fst g, fl_value l)"
    by (auto simp: line_field_def)
  have "reads_as table sc v (fl_value l)" using v WT_QPACK_FIELD_LITERAL_NAME_REF_DYNAMIC by simp
  with section_dynamic_reads [OF g(1), where inline = "Some v" and val = "fl_value l" and sc = sc] obtain r where
    "section_dynamic prefix table False (fl_index l) (Some v) = Inr r" "field_reads table sc r f" using g(2) by auto
  with that [of r sc] ok WT_QPACK_FIELD_LITERAL_NAME_REF_DYNAMIC show thesis
    by (simp add: section_resolve_def wire_line_def line_ok_def scratch_grows_refl)
next
  case WT_QPACK_FIELD_POST_BASE_NAME_REF
  with f obtain g where g: "indexed_field prefix table True (fl_index l) = Some g" "f = (fst g, fl_value l)"
    by (auto simp: line_field_def)
  have "reads_as table sc v (fl_value l)" using v WT_QPACK_FIELD_POST_BASE_NAME_REF by simp
  with section_dynamic_reads [OF g(1), where inline = "Some v" and val = "fl_value l" and sc = sc] obtain r where
    "section_dynamic prefix table True (fl_index l) (Some v) = Inr r" "field_reads table sc r f" using g(2) by auto
  with that [of r sc] ok WT_QPACK_FIELD_POST_BASE_NAME_REF show thesis
    by (simp add: section_resolve_def wire_line_def line_ok_def scratch_grows_refl)
qed

lemma field_reads_grows: "field_reads table sc r f \<Longrightarrow> scratch_grows sc n sc' \<Longrightarrow> field_reads table sc' r f"
  by (auto simp: field_reads_def intro: reads_as_grows)

lemma line_not_at_end:
  assumes "cursor_ready c" "cursor_view c = line_bytes l @ rest"
  shows "\<not> wt_cursor_at_end c"
proof -
  have "line_bytes l \<noteq> []"
    using integer_bytes_first [of "line_prefix (fl_kind l)" "line_flags l"] by (metis line_bytes_def Nil_is_append_conv list.distinct(1))
  then show ?thesis using assms by (auto simp: wt_cursor_at_end_def cursor_view_def cursor_ready_def)
qed

lemma section_next_reads:
  assumes ok: "line_ok l" and f: "line_field prefix table l = Some f"
    and c: "cursor_ready c" "cursor_view c = line_bytes l @ rest"
    and cap: "unat capacity \<le> length (sc_bytes sc)" and room: "unat (sc_used sc) + line_used l \<le> unat capacity"
  obtains r sc' where "wt_qpack_field_section_next prefix table capacity c sc =
      (Inr r, cursor_advance c (length (line_bytes l)), sc')"
    "scratch_grows sc (line_used l) sc'" "field_reads table sc' r f"
proof -
  have dec: "wt_qpack_field_line_decode c = (Inr (wire_line l), cursor_advance c (length (line_bytes l)))"
    using readsD [OF reads_line [OF ok] c] .
  have ne: "\<not> wt_cursor_at_end c" using line_not_at_end [OF c] .
  let ?bare = "fl_kind l = WT_QPACK_FIELD_INDEXED_STATIC \<or> fl_kind l = WT_QPACK_FIELD_INDEXED_DYNAMIC"
  obtain v sc1 where m: "(if ?bare then (Inr (fv_bytes []), sc)
      else materialise (value_wire l) (fl_value_huffman l) capacity sc) = (Inr v, sc1)"
    and g1: "scratch_grows sc (if fl_value_huffman l then length (fl_value l) else 0) sc1"
    and v: "has_value (fl_kind l) \<Longrightarrow> reads_as table sc1 v (fl_value l)"
  proof (cases ?bare)
    case True
    with ok that [of "fv_bytes []" sc] show thesis by (auto simp: line_ok_def scratch_grows_refl)
  next
    case False
    have "string_ok (fl_value_huffman l) (fl_value l)" using ok by (simp add: line_ok_def)
    from materialise_reads [OF this cap, of table] room False that show thesis
      by (auto simp: line_used_def split: if_splits)
  qed
  have "unat capacity \<le> length (sc_bytes sc1)"
    "unat (sc_used sc1) + (if fl_name_huffman l then length (fl_name l) else 0) \<le> unat capacity"
    using g1 cap room by (simp_all add: scratch_grows_def line_used_def)
  from resolve_reads [OF ok f v this] obtain r sc2 where
    r: "section_resolve prefix table capacity (wire_line l) v sc1 = (Inr r, sc2)"
      "scratch_grows sc1 (if fl_name_huffman l then length (fl_name l) else 0) sc2" "field_reads table sc2 r f" .
  have kind: "fl_kind (wire_line l) = fl_kind l" "fl_value (wire_line l) = value_wire l"
    "fl_value_huffman (wire_line l) = fl_value_huffman l" by (simp_all add: wire_line_def)
  have "scratch_grows sc (line_used l) sc2"
    using scratch_grows_trans [OF g1 r(2)] by (simp add: line_used_def)
  moreover have "wt_qpack_field_section_next prefix table capacity c sc =
      (Inr r, cursor_advance c (length (line_bytes l)), sc2)"
    unfolding wt_qpack_field_section_next_def if_not_P [OF ne] dec kind
    by (simp only: prod.case sum.case kind m r(1) Let_def)
  ultimately show thesis using that r(3) by blast
qed

subsection \<open>Whatever the peer sends\<close>

text \<open>No line, however it is coded, disturbs what an earlier one left in the scratch buffer.\<close>

definition scratch_safe ::
  "wt_qpack_dynamic_table option \<Rightarrow> u64 \<Rightarrow> scratch_state \<Rightarrow> field_view list \<Rightarrow> scratch_state \<Rightarrow> bool" where
  "scratch_safe table capacity sc vs sc' \<longleftrightarrow>
     (\<exists>n. scratch_grows sc n sc') \<and> unat (sc_used sc') \<le> unat capacity \<and>
     (\<forall>v \<in> set vs. reads_as table sc' v (fv_read table (sc_bytes sc') v))"

lemma scratch_safe_refl: "unat (sc_used sc) \<le> unat capacity \<Longrightarrow> scratch_safe table capacity sc [] sc"
  using scratch_grows_refl by (auto simp: scratch_safe_def)

lemma reads_as_same:
  assumes "reads_as table sc v bytes" "scratch_grows sc n sc'"
  shows "fv_read table (sc_bytes sc') v = bytes"
  using reads_as_grows [OF assms] by (simp add: reads_as_def)

lemma scratch_safe_trans:
  assumes "scratch_safe table capacity a vs b" "scratch_safe table capacity b us c"
  shows "scratch_safe table capacity a (vs @ us) c"
proof -
  obtain m n where g: "scratch_grows a m b" "scratch_grows b n c" using assms by (auto simp: scratch_safe_def)
  have "reads_as table c v (fv_read table (sc_bytes c) v)" if "v \<in> set vs" for v
    using assms(1) that reads_as_grows [OF _ g(2)] reads_as_same [OF _ g(2)] by (simp add: scratch_safe_def) metis
  with assms scratch_grows_trans [OF g] show ?thesis by (auto simp: scratch_safe_def)
qed

lemma materialise_safe:
  assumes "materialise bytes huffman capacity sc = (r, sc')"
    and "unat (sc_used sc) \<le> unat capacity" "unat capacity \<le> length (sc_bytes sc)"
  shows "scratch_safe table capacity sc (case r of Inl _ \<Rightarrow> [] | Inr v \<Rightarrow> [v]) sc'"
proof (cases "huffman \<and> (\<exists>out. wt_qpack_huffman_decode bytes (capacity - sc_used sc) = Inr out)")
  case False
  then have "sc' = sc \<and> (case r of Inl _ \<Rightarrow> True | Inr v \<Rightarrow> v = fv_bytes bytes)"
    using assms(1) by (auto simp: materialise_def split: if_splits sum.splits)
  then show ?thesis using scratch_safe_refl [OF assms(2)] by (auto simp: scratch_safe_def split: sum.splits)
next
  case True
  then obtain out where h: huffman and dec: "wt_qpack_huffman_decode bytes (capacity - sc_used sc) = Inr out" by blast
  let ?u = "sc_used sc"
  have ncap: "\<not> ?u > capacity" using assms(2) by (simp add: word_less_nat_alt)
  have "length out \<le> unat (capacity - ?u)" using dec by (simp add: wt_qpack_huffman_decode_iff)
  then have u: "unat ?u + length out \<le> unat capacity" using assms(2) by (simp add: unat_sub_le word_le_nat_alt)
  have fit: "unat ?u + length out \<le> length (sc_bytes sc)" using u assms(3) by simp
  have used: "unat (?u + of_nat (length out)) = unat ?u + length out"
    using u unat_u64_less [of capacity] by (subst unat_add_of_nat) simp_all
  have r: "r = Inr (FV_SCRATCH (unat ?u) (length out))"
    and sc': "sc' = sc\<lparr>sc_bytes := overwrite (unat ?u) out (sc_bytes sc), sc_used := ?u + of_nat (length out)\<rparr>"
    using assms(1) h dec ncap by (simp_all add: materialise_def)
  have new: "take (unat ?u + length out) (sc_bytes sc') = take (unat ?u) (sc_bytes sc) @ out"
    unfolding sc' using take_overwrite [OF fit] by simp
  have "take (unat ?u) (sc_bytes sc') = take (unat ?u) (take (unat ?u + length out) (sc_bytes sc'))" by (simp add: min_def)
  also have "\<dots> = take (unat ?u) (sc_bytes sc)" unfolding new using fit by simp
  finally have "scratch_grows sc (length out) sc'"
    using used fit by (simp add: scratch_grows_def) (simp add: sc')
  moreover have "take (length out) (drop (unat ?u) s) = out"
    if "take (unat (sc_used sc')) s = take (unat (sc_used sc')) (sc_bytes sc')" for s
  proof -
    have "take (unat ?u + length out) s = take (unat ?u) (sc_bytes sc) @ out" using that new used by (simp add: sc')
    then have "drop (unat ?u) (take (unat ?u + length out) s) = out" using fit by simp
    then show ?thesis by (simp add: drop_take)
  qed
  then have "reads_as table sc' (FV_SCRATCH (unat ?u) (length out)) (fv_read table (sc_bytes sc') (FV_SCRATCH (unat ?u) (length out)))"
    by (simp add: reads_as_def)
  ultimately show ?thesis using used u r by (auto simp: scratch_safe_def sc')
qed

definition field_views :: "qpack_fail + wt_qpack_resolved_field \<Rightarrow> field_view list" where
  "field_views r = (case r of Inl _ \<Rightarrow> [] | Inr f \<Rightarrow> [rf_name f, rf_value f])"

lemma reads_as_now: "reads_as table sc (FV_VIEW v) (fv_read table s (FV_VIEW v))"
  by (cases v) (simp_all add: reads_as_def)

lemma resolve_safe:
  assumes "section_resolve prefix table capacity line v sc = (r, sc')"
    and "unat (sc_used sc) \<le> unat capacity" "unat capacity \<le> length (sc_bytes sc)"
    and "reads_as table sc v (fv_read table (sc_bytes sc) v)"
  shows "scratch_safe table capacity sc (field_views r) sc'"
proof (cases "fl_kind line = WT_QPACK_FIELD_LITERAL_LITERAL_NAME")
  case True
  obtain n sc1 where m: "materialise (fl_name line) (fl_name_huffman line) capacity sc = (n, sc1)" by fastforce
  have safe: "scratch_safe table capacity sc ([v] @ (case n of Inl _ \<Rightarrow> [] | Inr v \<Rightarrow> [v])) sc1"
    by (rule scratch_safe_trans [OF _ materialise_safe [OF m assms(2,3)]])
      (use assms(2,4) scratch_grows_refl in \<open>auto simp: scratch_safe_def\<close>)
  have "sc' = sc1" "set (field_views r) \<subseteq> set ([v] @ (case n of Inl _ \<Rightarrow> [] | Inr v \<Rightarrow> [v]))"
    using assms(1) True m by (auto simp: section_resolve_def field_views_def split: sum.splits)
  with safe show ?thesis by (auto simp: scratch_safe_def)
next
  case False
  have "\<forall>f. r = Inr f \<longrightarrow> (\<exists>a b. rf_name f = FV_VIEW a \<and> (rf_value f = FV_VIEW b \<or> rf_value f = v))"
    and "sc' = sc"
    using assms(1) False
    by (auto simp: section_resolve_def section_static_def section_dynamic_def
        split: wt_qpack_field_kind.splits sum.splits option.splits prod.splits)
  then show ?thesis
    using assms(2,4) scratch_grows_refl reads_as_now
    by (fastforce simp: scratch_safe_def field_views_def split: sum.splits)
qed

lemma section_next_safe:
  assumes "wt_qpack_field_section_next prefix table capacity c sc = (r, c', sc')"
    and "unat (sc_used sc) \<le> unat capacity" "unat capacity \<le> length (sc_bytes sc)"
  shows "scratch_safe table capacity sc (field_views r) sc'"
proof (cases "\<exists>line c1. \<not> wt_cursor_at_end c \<and> wt_qpack_field_line_decode c = (Inr line, c1)")
  case False
  then have "sc' = sc" "field_views r = []"
    using assms(1) by (auto simp: wt_qpack_field_section_next_def field_views_def split: if_splits prod.splits sum.splits)
  then show ?thesis using scratch_safe_refl [OF assms(2)] by simp
next
  case True
  then obtain line c1 where l: "\<not> wt_cursor_at_end c" "wt_qpack_field_line_decode c = (Inr line, c1)" by blast
  obtain iv sc1 where m: "(if fl_kind line = WT_QPACK_FIELD_INDEXED_STATIC \<or> fl_kind line = WT_QPACK_FIELD_INDEXED_DYNAMIC
      then (Inr (fv_bytes []), sc) else materialise (fl_value line) (fl_value_huffman line) capacity sc) = (iv, sc1)" by fastforce
  have s1: "scratch_safe table capacity sc (case iv of Inl _ \<Rightarrow> [] | Inr v \<Rightarrow> [v]) sc1"
  proof (cases "fl_kind line = WT_QPACK_FIELD_INDEXED_STATIC \<or> fl_kind line = WT_QPACK_FIELD_INDEXED_DYNAMIC")
    case True
    with m scratch_safe_refl [OF assms(2)] show ?thesis by (auto simp: scratch_safe_def)
  next
    case False
    with m show ?thesis using materialise_safe [OF _ assms(2,3)] by simp
  qed
  show ?thesis
  proof (cases iv)
    case (Inl status)
    then have "sc' = sc1" "field_views r = []"
      using assms(1) m l by (auto simp: wt_qpack_field_section_next_def field_views_def)
    with s1 Inl show ?thesis by simp
  next
    case (Inr v)
    obtain n where g: "scratch_grows sc n sc1" using s1 by (auto simp: scratch_safe_def)
    have "section_resolve prefix table capacity line v sc1 = (r, sc')"
      using assms(1) m l Inr by (auto simp: wt_qpack_field_section_next_def split: prod.splits)
    then have "scratch_safe table capacity sc1 (field_views r) sc'"
      by (rule resolve_safe) (use s1 g assms(3) Inr in \<open>auto simp: scratch_safe_def scratch_grows_def\<close>)
    from scratch_safe_trans [OF s1 this] show ?thesis by (auto simp: scratch_safe_def)
  qed
qed

subsection \<open>Reading a section to its end\<close>

text \<open>The walk of every caller: the next field until there is none, or until one is refused.\<close>

function section_all ::
  "u64 \<Rightarrow> wt_qpack_field_section_decoder \<Rightarrow> u8 list \<Rightarrow> wt_qpack_resolved_field list \<times> qpack_fail \<times> u8 list" where
  "section_all capacity d scratch =
     (case wt_qpack_field_section_decoder_next capacity d scratch of
        (Inl e, d', scratch') \<Rightarrow> ([], e, scratch')
      | (Inr r, d', scratch') \<Rightarrow>
          (case section_all capacity d' scratch' of (rs, e, scratch'') \<Rightarrow> (r # rs, e, scratch'')))"
  by pat_completeness auto

termination section_all
  by (relation "measure (\<lambda>(capacity, d, scratch). unat (wt_cursor_remaining (sd_cursor d)))")
    (auto simp: word_less_nat_alt [symmetric] dest!: next_progress [OF sym])

declare section_all.simps [simp del]

lemma cursor_view_empty: "cursor_ready c \<Longrightarrow> cursor_view c = [] \<Longrightarrow> wt_cursor_at_end c"
  by (auto simp: wt_cursor_at_end_def cursor_view_def cursor_ready_def cursor_inv_def word_unat_eq_iff word_le_nat_alt)

lemma cursor_read_past:
  assumes "cursor_ready c" "cursor_view c = bs @ rest"
  shows "cursor_ready (cursor_advance c (length bs)) \<and> cursor_view (cursor_advance c (length bs)) = rest"
  using cursor_ready_advance [of c "length bs"] assms by simp

lemma section_all_reads:
  assumes "\<forall>l \<in> set lines. line_ok l" "map (line_field (sd_prefix d) (sd_table d)) lines = map Some fds"
    and "cursor_ready (sd_cursor d)" "cursor_view (sd_cursor d) = lines_bytes lines"
    and "unat capacity \<le> length scratch"
    and "unat (sd_scratch_used d) + sum_list (map line_used lines) \<le> unat capacity"
  shows "\<exists>rs sc. section_all capacity d scratch = (rs, (WT_ERR_CLOSED, WT_QPACK_ERROR_NONE), sc_bytes sc) \<and>
    scratch_grows \<lparr>sc_bytes = scratch, sc_used = sd_scratch_used d\<rparr> (sum_list (map line_used lines)) sc \<and>
    list_all2 (field_reads (sd_table d) sc) rs fds"
  using assms
proof (induction lines arbitrary: d scratch fds)
  case Nil
  then have "wt_cursor_at_end (sd_cursor d)" by (intro cursor_view_empty) simp_all
  then have "section_all capacity d scratch = ([], (WT_ERR_CLOSED, WT_QPACK_ERROR_NONE), scratch)"
    by (subst section_all.simps)
      (simp add: wt_qpack_field_section_decoder_next_def wt_qpack_field_section_next_def)
  with Nil show ?case
    by (intro exI [of _ "[]"] exI [of _ "\<lparr>sc_bytes = scratch, sc_used = sd_scratch_used d\<rparr>"])
      (simp add: scratch_grows_refl)
next
  case (Cons l lines)
  let ?sc = "\<lparr>sc_bytes = scratch, sc_used = sd_scratch_used d\<rparr>"
  from Cons.prems(2) obtain f fs where f: "fds = f # fs" "line_field (sd_prefix d) (sd_table d) l = Some f"
    "map (line_field (sd_prefix d) (sd_table d)) lines = map Some fs" by (cases fds) auto
  have l: "line_ok l" using Cons.prems(1) by simp
  have c: "cursor_ready (sd_cursor d)" "cursor_view (sd_cursor d) = line_bytes l @ lines_bytes lines"
    using Cons.prems(3,4) by simp_all
  have cap: "unat capacity \<le> length (sc_bytes ?sc)" "unat (sc_used ?sc) + line_used l \<le> unat capacity"
    using Cons.prems(5,6) by simp_all
  from section_next_reads [OF l f(2) c cap] obtain r sc1 where
    n: "wt_qpack_field_section_next (sd_prefix d) (sd_table d) capacity (sd_cursor d) ?sc =
        (Inr r, cursor_advance (sd_cursor d) (length (line_bytes l)), sc1)"
      "scratch_grows ?sc (line_used l) sc1" "field_reads (sd_table d) sc1 r f" .
  let ?d = "d\<lparr>sd_cursor := cursor_advance (sd_cursor d) (length (line_bytes l)), sd_scratch_used := sc_used sc1\<rparr>"
  have step: "wt_qpack_field_section_decoder_next capacity d scratch = (Inr r, ?d, sc_bytes sc1)"
    by (simp add: wt_qpack_field_section_decoder_next_def n(1))
  have adv: "cursor_ready (sd_cursor ?d)" "cursor_view (sd_cursor ?d) = lines_bytes lines"
    using cursor_read_past [OF c] by simp_all
  have room: "unat capacity \<le> length (sc_bytes sc1)"
    "unat (sd_scratch_used ?d) + sum_list (map line_used lines) \<le> unat capacity"
    using n(2) Cons.prems(5,6) by (simp_all add: scratch_grows_def)
  have "\<exists>rs sc. section_all capacity ?d (sc_bytes sc1) = (rs, (WT_ERR_CLOSED, WT_QPACK_ERROR_NONE), sc_bytes sc) \<and>
      scratch_grows \<lparr>sc_bytes = sc_bytes sc1, sc_used = sd_scratch_used ?d\<rparr> (sum_list (map line_used lines)) sc \<and>
      list_all2 (field_reads (sd_table ?d) sc) rs fs"
    using Cons.prems(1) f(3) by (intro Cons.IH [OF _ _ adv room]) simp_all
  moreover have eta: "\<lparr>sc_bytes = sc_bytes sc1, sc_used = sd_scratch_used ?d\<rparr> = sc1" "sd_table ?d = sd_table d" by simp_all
  ultimately obtain rs sc where rest: "section_all capacity ?d (sc_bytes sc1) = (rs, (WT_ERR_CLOSED, WT_QPACK_ERROR_NONE), sc_bytes sc)"
    "scratch_grows sc1 (sum_list (map line_used lines)) sc" "list_all2 (field_reads (sd_table d) sc) rs fs"
    unfolding eta by blast
  have "section_all capacity d scratch = (r # rs, (WT_ERR_CLOSED, WT_QPACK_ERROR_NONE), sc_bytes sc)"
    by (subst section_all.simps) (simp add: step rest(1))
  moreover have "field_reads (sd_table d) sc r f" using n(3) rest(2) by (rule field_reads_grows)
  ultimately show ?case
    using scratch_grows_trans [OF n(2) rest(2)] rest(3) f(1) by (intro exI [of _ "r # rs"] exI [of _ sc]) simp
qed

lemma field_reads_now:
  "field_reads table sc r f \<Longrightarrow> (fv_read table (sc_bytes sc) (rf_name r), fv_read table (sc_bytes sc) (rf_value r)) = f"
  by (simp add: field_reads_def reads_as_def prod_eq_iff)

subsection \<open>Properties of field sections\<close>

text \<open>C30: Field sections survive the wire, and stay readable. A section of lines of any form, written with
  the section encoder, can be begun by a decoder that has seen the insertions it needs; walking it
  yields one field per line and then the end, and when the walk is over every field still reads as
  the name and value its line stands for: the static entry, the dynamic entry its index names, or the
  decoded string, which later strings decoded into the same scratch buffer have not overwritten.\<close>

theorem wt_qpack_field_section_round_trip:
  assumes "prefix_sendable (hp_required_insert_count prefix) (hp_base prefix) max_entries"
    and "unat known + 3 * unat max_entries < 2 ^ 64" "hp_required_insert_count prefix \<le> known"
    and "hp_required_insert_count prefix \<noteq> 0 \<longrightarrow> unat known < unat (hp_required_insert_count prefix) + unat max_entries"
    and "\<forall>l \<in> set lines. line_ok l \<and> scratch_fits l capacity"
    and "map (line_field prefix table) lines = map Some fds"
    and "sum_list (map line_used lines) \<le> unat capacity'" "unat capacity' \<le> length scratch"
    and "unat cap \<le> length d"
    and "wt_qpack_field_section_encode prefix max_entries lines capacity (wt_writer_init (Some d) cap) = (WT_OK, w)"
    and "length (writer_out w) < 2 ^ 64"
  shows "\<exists>decoder rs scratch'. wt_qpack_field_section_begin table max_entries (writer_out w) known = Inr decoder \<and>
    section_all capacity' decoder scratch = (rs, (WT_ERR_CLOSED, WT_QPACK_ERROR_NONE), scratch') \<and>
    map (\<lambda>r. (fv_read table scratch' (rf_name r), fv_read table scratch' (rf_value r))) rs = fds"
proof -
  let ?p = "prefix_bytes (hp_required_insert_count prefix) (hp_base prefix) max_entries"
  note enc = appends_init [OF appends_section [OF assms(1,5)] assms(9)]
  have out: "writer_out w = ?p @ lines_bytes lines"
    using enc assms(10) by (auto simp: section_bytes_def split: if_splits)
  have win: "unat (hp_required_insert_count prefix) \<le> unat known + unat max_entries \<and>
      unat known < unat (hp_required_insert_count prefix) + unat max_entries"
    if "hp_required_insert_count prefix \<noteq> 0"
    using assms(3,4) that by (simp add: word_le_nat_alt)
  let ?c = "cursor_of (writer_out w)"
  have c: "cursor_ready ?c" "cursor_view ?c = ?p @ lines_bytes lines"
    using assms(11) out by simp_all
  have pre: "wt_qpack_header_prefix_decode max_entries known ?c = (Inr prefix, cursor_advance ?c (length ?p))"
    using readsD [OF reads_prefix [OF assms(1,2) win] c] by simp
  let ?d = "\<lparr>sd_prefix = prefix, sd_table = table, sd_cursor = cursor_advance ?c (length ?p), sd_scratch_used = 0\<rparr>"
  have start: "wt_qpack_field_section_begin table max_entries (writer_out w) known = Inr ?d"
    using assms(3) by (simp add: wt_qpack_field_section_begin_def pre not_less)
  have "\<exists>rs sc. section_all capacity' ?d scratch = (rs, (WT_ERR_CLOSED, WT_QPACK_ERROR_NONE), sc_bytes sc) \<and>
      scratch_grows \<lparr>sc_bytes = scratch, sc_used = sd_scratch_used ?d\<rparr> (sum_list (map line_used lines)) sc \<and>
      list_all2 (field_reads (sd_table ?d) sc) rs fds"
    using assms(5-8) cursor_read_past [OF c] by (intro section_all_reads) simp_all
  then obtain rs sc where rs: "section_all capacity' ?d scratch = (rs, (WT_ERR_CLOSED, WT_QPACK_ERROR_NONE), sc_bytes sc)"
    "list_all2 (field_reads table sc) rs fds" by auto
  from rs(2) have "map (\<lambda>r. (fv_read table (sc_bytes sc) (rf_name r), fv_read table (sc_bytes sc) (rf_value r))) rs = fds"
    by (induction rule: list_all2_induct) (simp_all add: field_reads_now)
  with start rs(1) show ?thesis by blast
qed

theorem wt_qpack_field_section_round_trip_witness:
  "let p = \<lparr>hp_required_insert_count = 0, hp_base = 0\<rparr>;
       ls = [(blank_line WT_QPACK_FIELD_INDEXED_STATIC)\<lparr>fl_index := 17\<rparr>,
             (blank_line WT_QPACK_FIELD_LITERAL_LITERAL_NAME)\<lparr>fl_name := [0x61], fl_value := [0x62, 0x63]\<rparr>]
   in \<exists>w decoder rs scratch'.
        wt_qpack_field_section_encode p 0 ls 0 (wt_writer_init (Some (replicate 16 0)) 16) = (WT_OK, w) \<and>
        wt_qpack_field_section_begin None 0 (writer_out w) 0 = Inr decoder \<and>
        section_all 8 decoder (replicate 8 0) = (rs, (WT_ERR_CLOSED, WT_QPACK_ERROR_NONE), scratch') \<and>
        map (\<lambda>r. (fv_read None scratch' (rf_name r), fv_read None scratch' (rf_value r))) rs =
          [(ascii '':method'', ascii ''GET''), ([0x61], [0x62, 0x63])]"
proof -
  let ?p = "\<lparr>hp_required_insert_count = 0, hp_base = 0\<rparr>" and ?b = "replicate 16 (0 :: u8)" and ?s = "replicate 8 (0 :: u8)"
  let ?ls = "[(blank_line WT_QPACK_FIELD_INDEXED_STATIC)\<lparr>fl_index := 17\<rparr>,
    (blank_line WT_QPACK_FIELD_LITERAL_LITERAL_NAME)\<lparr>fl_name := [0x61], fl_value := [0x62, 0x63]\<rparr>]"
  let ?fs = "[(ascii '':method'', ascii ''GET''), ([0x61], [0x62, 0x63])]"
  have p: "prefix_sendable (hp_required_insert_count ?p) (hp_base ?p) 0"
    by (simp add: prefix_sendable_def WT_QUIC_VARINT_MAX_def)
  have ls: "\<forall>l \<in> set ?ls. line_ok l \<and> scratch_fits l 0"
    by (simp add: line_ok_def scratch_fits_def blank_line_def string_ok_def WT_QUIC_VARINT_MAX_def)
  have "wt_qpack_static_entry 17 = Inr \<lparr>se_name = ascii '':method'', se_value = ascii ''GET''\<rparr>"
    by (simp add: wt_qpack_static_entry_def static_view_def WT_QPACK_STATIC_TABLE_SIZE_def WT_RFC9204_STATIC_TABLE_def)
  then have fs: "map (line_field ?p None) ?ls = map Some ?fs" by (simp add: line_field_def blank_line_def)
  have used: "sum_list (map line_used ?ls) \<le> unat (8 :: u64)" by (simp add: line_used_def blank_line_def)
  note enc = appends_init [OF appends_section [OF p ls], of 16 ?b]
  have len: "length (section_bytes ?p 0 ?ls) = 8"
    by (simp add: section_bytes_def prefix_bytes_def line_bytes_def wire_bytes_def integer_bytes_def blank_line_def)
  let ?w = "snd (wt_qpack_field_section_encode ?p 0 ?ls 0 (wt_writer_init (Some ?b) 16))"
  have w: "wt_qpack_field_section_encode ?p 0 ?ls 0 (wt_writer_init (Some ?b) 16) = (WT_OK, ?w)"
    using enc(1) len by (simp add: prod_eq_iff)
  have out: "length (writer_out ?w) < 2 ^ 64" using enc(2) len by simp
  from wt_qpack_field_section_round_trip [OF p _ _ _ ls fs used _ _ w out, of 0 ?s] w
  show ?thesis unfolding Let_def by auto
qed

end
