(* ===== verification/Http3_Message.thy ===== *)
theory Http3_Message
  imports Qpack_Section Webtransport_Request
begin

text \<open>
  HTTP/3 requests and responses (\<open>C99/src/http3/message.c\<close>): a QPACK field section whose fields pass the
  header rules, with the pseudo-headers that identify the message kept as pointers. The record is
  polymorphic in what a pointer is: a \<open>field_view\<close> for a decoded message, whose values lie in the wire
  bytes, the tables or the caller's scratch buffer; the bytes themselves for a message to be sent. \<open>None\<close> is
  the null pointer.
\<close>

subsection \<open>The message\<close>

record 'p http3_message =
  hm_type :: wt_http3_header_message
  hm_method :: "'p option"
  hm_scheme :: "'p option"
  hm_path :: "'p option"
  hm_authority :: "'p option"
  hm_protocol :: "'p option"
  hm_status :: u64
  hm_has_status :: bool
  hm_validation :: wt_http3_header_validation

definition message_init :: "wt_http3_header_message \<Rightarrow> 'p http3_message" where
  "message_init type =
     \<lparr>hm_type = type, hm_method = None, hm_scheme = None, hm_path = None, hm_authority = None, hm_protocol = None,
      hm_status = 0, hm_has_status = False, hm_validation = wt_http3_header_validation_init type\<rparr>"

fun status_digits :: "u64 \<Rightarrow> u8 list \<Rightarrow> u64 option" where
  "status_digits status [] = Some status"
| "status_digits status (c # cs) =
     (if c < 0x30 \<or> c > 0x39 then None else status_digits (status * 10 + ucast (c - 0x30)) cs)"

definition parse_status :: "u8 list \<Rightarrow> u64 option" where
  "parse_status val =
     (if length val \<noteq> 3 then None
      else
        (case status_digits 0 val of
           None \<Rightarrow> None
         | Some status \<Rightarrow> if status < 100 \<or> status > 599 then None else Some status))"

definition wt_qpack_error_code :: "wt_qpack_error \<Rightarrow> u64" where
  "wt_qpack_error_code e =
     (case e of
        WT_QPACK_ERROR_NONE \<Rightarrow> 0
      | WT_QPACK_ERROR_DECOMPRESSION_FAILED \<Rightarrow> 0x0200
      | WT_QPACK_ERROR_ENCODER_STREAM \<Rightarrow> 0x0201
      | WT_QPACK_ERROR_DECODER_STREAM \<Rightarrow> 0x0202)"

definition map_qpack_error :: "wt_qpack_error \<Rightarrow> wt_http3_error" where
  "map_qpack_error from =
     (if from = WT_QPACK_ERROR_NONE then WT_HTTP3_NO_ERROR else WT_HTTP3_ERROR_CAST (wt_qpack_error_code from))"

subsection \<open>Decoding\<close>

text \<open>The values the rest of the stack needs; any other name is ordinary.\<close>

definition message_remember ::
  "u8 list \<Rightarrow> u8 list \<Rightarrow> 'p \<Rightarrow> 'p http3_message \<Rightarrow> http3_fail + 'p http3_message" where
  "message_remember name val p message =
     (if name = ascii '':method'' then Inr (message\<lparr>hm_method := Some p\<rparr>)
      else if name = ascii '':scheme'' then Inr (message\<lparr>hm_scheme := Some p\<rparr>)
      else if name = ascii '':path'' then Inr (message\<lparr>hm_path := Some p\<rparr>)
      else if name = ascii '':authority'' then Inr (message\<lparr>hm_authority := Some p\<rparr>)
      else if name = ascii '':protocol'' then Inr (message\<lparr>hm_protocol := Some p\<rparr>)
      else if name = ascii '':status'' then
        (case parse_status val of
           None \<Rightarrow> Inl (WT_ERR_PROTOCOL, WT_HTTP3_MESSAGE_ERROR)
         | Some status \<Rightarrow> Inr (message\<lparr>hm_status := status, hm_has_status := True\<rparr>))
      else Inr message)"

definition message_accept ::
  "u8 list \<Rightarrow> u8 list \<Rightarrow> 'p \<Rightarrow> 'p http3_message \<Rightarrow> http3_fail + 'p http3_message" where
  "message_accept name val p message =
     (case wt_http3_header_validate (hm_validation message) name val of
        (Some e, v) \<Rightarrow> Inl e
      | (None, v) \<Rightarrow> message_remember name val p (message\<lparr>hm_validation := v\<rparr>))"

text \<open>A failure of the section walk as the message layer reports it; \<open>None\<close> is the end of the section.\<close>

definition section_failure :: "qpack_fail \<Rightarrow> http3_fail option" where
  "section_failure e =
     (if fst e = WT_ERR_CLOSED then None
      else if fst e = WT_ERR_TRUNCATED then Some (WT_ERR_TRUNCATED, WT_HTTP3_NO_ERROR)
      else Some (fst e, map_qpack_error (snd e)))"

function message_loop ::
  "u64 \<Rightarrow> wt_qpack_field_section_decoder \<Rightarrow> u8 list \<Rightarrow> field_view http3_message \<Rightarrow>
   (http3_fail + field_view http3_message) \<times> u8 list" where
  "message_loop capacity d scratch message =
     (case wt_qpack_field_section_decoder_next capacity d scratch of
        (Inl e, d', scratch') \<Rightarrow>
          (case section_failure e of None \<Rightarrow> (Inr message, scratch') | Some f \<Rightarrow> (Inl f, scratch'))
      | (Inr field, d', scratch') \<Rightarrow>
          (case message_accept (fv_read (sd_table d) scratch' (rf_name field))
                  (fv_read (sd_table d) scratch' (rf_value field)) (rf_value field) message of
             Inl f \<Rightarrow> (Inl f, scratch')
           | Inr message' \<Rightarrow> message_loop capacity d' scratch' message'))"
  by pat_completeness auto

termination message_loop
  by (relation "measure (\<lambda>(capacity, d, scratch, message). unat (wt_cursor_remaining (sd_cursor d)))")
    (auto simp: word_less_nat_alt [symmetric] dest!: next_progress [OF sym])

declare message_loop.simps [simp del]

text \<open>What the presence rules leave open: the values that have to be there are not empty.\<close>

definition value_of :: "('p \<Rightarrow> u8 list) \<Rightarrow> 'p option \<Rightarrow> u8 list" where
  "value_of rd p = (case p of None \<Rightarrow> [] | Some v \<Rightarrow> rd v)"

definition message_content :: "('p \<Rightarrow> u8 list) \<Rightarrow> 'p http3_message \<Rightarrow> http3_fail option" where
  "message_content rd message =
     (if hm_type message = WT_HTTP3_HEADER_REQUEST then
        if value_of rd (hm_method message) = [] then Some (WT_ERR_PROTOCOL, WT_HTTP3_MESSAGE_ERROR)
        else if (value_of rd (hm_method message) \<noteq> ascii ''CONNECT'' \<or> value_of rd (hm_protocol message) \<noteq> []) \<and>
                (value_of rd (hm_scheme message) = [] \<or> value_of rd (hm_path message) = [])
        then Some (WT_ERR_PROTOCOL, WT_HTTP3_MESSAGE_ERROR)
        else None
      else None)"

definition wt_http3_message_decode ::
  "wt_http3_header_message \<Rightarrow> u8 list \<Rightarrow> wt_qpack_dynamic_table option \<Rightarrow> u64 \<Rightarrow> u64 \<Rightarrow> u64 \<Rightarrow> u8 list \<Rightarrow>
   (http3_fail + field_view http3_message) \<times> u8 list" where
  "wt_http3_message_decode type payload table max_entries known_insert_count capacity scratch =
     (case wt_qpack_field_section_begin table max_entries payload known_insert_count of
        Inl e \<Rightarrow> (Inl (fst e, map_qpack_error (snd e)), scratch)
      | Inr d \<Rightarrow>
          (case message_loop capacity d scratch (message_init type) of
             (Inl f, scratch') \<Rightarrow> (Inl f, scratch')
           | (Inr message, scratch') \<Rightarrow>
               (case wt_http3_header_finish (hm_validation message) of
                  Some f \<Rightarrow> (Inl f, scratch')
                | None \<Rightarrow>
                    (case message_content (fv_read table scratch') message of
                       Some f \<Rightarrow> (Inl f, scratch')
                     | None \<Rightarrow> (Inr message, scratch')))))"

subsection \<open>One field\<close>

text \<open>\<open>None\<close> is the null name, which no field has.\<close>

definition field_name_is :: "u8 list \<Rightarrow> u8 list option \<Rightarrow> bool" where
  "field_name_is field_name name = (case name of None \<Rightarrow> False | Some n \<Rightarrow> field_name = n)"

function field_loop ::
  "u8 list option \<Rightarrow> u64 \<Rightarrow> wt_qpack_field_section_decoder \<Rightarrow> u8 list \<Rightarrow> wt_http3_header_validation \<Rightarrow>
   (http3_fail + field_view) \<times> u8 list" where
  "field_loop name capacity d scratch validation =
     (case wt_qpack_field_section_decoder_next capacity d scratch of
        (Inl e, d', scratch') \<Rightarrow>
          (case section_failure e of
             None \<Rightarrow> (Inl (WT_ERR_STATE, WT_HTTP3_NO_ERROR), scratch')
           | Some f \<Rightarrow> (Inl f, scratch'))
      | (Inr field, d', scratch') \<Rightarrow>
          (case wt_http3_header_validate validation (fv_read (sd_table d) scratch' (rf_name field))
                  (fv_read (sd_table d) scratch' (rf_value field)) of
             (Some f, v) \<Rightarrow> (Inl f, scratch')
           | (None, v) \<Rightarrow>
               if field_name_is (fv_read (sd_table d) scratch' (rf_name field)) name
               then (Inr (rf_value field), scratch')
               else field_loop name capacity d' scratch' v))"
  by pat_completeness auto

termination field_loop
  by (relation "measure (\<lambda>(name, capacity, d, scratch, v). unat (wt_cursor_remaining (sd_cursor d)))")
    (auto simp: word_less_nat_alt [symmetric] dest!: next_progress [OF sym])

declare field_loop.simps [simp del]

definition wt_http3_message_field ::
  "u8 list option \<Rightarrow> u8 list \<Rightarrow> wt_qpack_dynamic_table option \<Rightarrow> u64 \<Rightarrow> u64 \<Rightarrow> u64 \<Rightarrow> u8 list \<Rightarrow>
   (http3_fail + field_view) \<times> u8 list" where
  "wt_http3_message_field name payload table max_entries known_insert_count capacity scratch =
     (case wt_qpack_field_section_begin table max_entries payload known_insert_count of
        Inl e \<Rightarrow> (Inl (fst e, map_qpack_error (snd e)), scratch)
      | Inr d \<Rightarrow> field_loop name capacity d scratch (wt_http3_header_validation_init WT_HTTP3_HEADER_REQUEST))"

subsection \<open>Encoding\<close>

definition set_line :: "string \<Rightarrow> u8 list \<Rightarrow> wt_qpack_field_line" where
  "set_line name val =
     \<lparr>fl_kind = WT_QPACK_FIELD_LITERAL_LITERAL_NAME, fl_never_indexed = False, fl_index = 0, fl_name_huffman = False,
      fl_name = ascii name, fl_value = val, fl_value_huffman = False, fl_bytes_consumed = 0\<rparr>"

definition add_pseudo :: "string \<Rightarrow> u8 list option \<Rightarrow> wt_qpack_field_line list \<Rightarrow> wt_qpack_field_line list" where
  "add_pseudo name val lines = (case val of None \<Rightarrow> lines | Some v \<Rightarrow> lines @ [set_line name v])"

definition status_text :: "u64 \<Rightarrow> u8 list" where
  "status_text status =
     [0x30 + ucast (status div 100 mod 10), 0x30 + ucast (status div 10 mod 10), 0x30 + ucast (status mod 10)]"

definition message_lines :: "u8 list http3_message \<Rightarrow> http3_fail + wt_qpack_field_line list" where
  "message_lines message =
     (if hm_type message = WT_HTTP3_HEADER_REQUEST then
        if hm_method message = None then Inl (WT_ERR_INVALID_ARGUMENT, WT_HTTP3_MESSAGE_ERROR)
        else
          Inr (add_pseudo '':protocol'' (hm_protocol message)
                (add_pseudo '':path'' (hm_path message)
                  (add_pseudo '':authority'' (hm_authority message)
                    (add_pseudo '':scheme'' (hm_scheme message)
                      (add_pseudo '':method'' (hm_method message) [])))))
      else if \<not> hm_has_status message then Inl (WT_ERR_INVALID_ARGUMENT, WT_HTTP3_MESSAGE_ERROR)
      else if hm_status message < 100 \<or> hm_status message > 599 then Inl (WT_ERR_LIMIT, WT_HTTP3_MESSAGE_ERROR)
      else Inr (add_pseudo '':status'' (Some (status_text (hm_status message))) []))"

text \<open>The status, the code and the writer.\<close>

definition wt_http3_message_encode ::
  "u8 list http3_message \<Rightarrow> u64 \<Rightarrow> wt_writer \<Rightarrow> http3_fail \<times> wt_writer" where
  "wt_http3_message_encode message max_entries w =
     (case message_lines message of
        Inl f \<Rightarrow> (f, w)
      | Inr lines \<Rightarrow>
          (case wt_qpack_field_section_encode \<lparr>hp_required_insert_count = 0, hp_base = 0\<rparr> max_entries lines 1 w of
             (status, w') \<Rightarrow> ((status, WT_HTTP3_NO_ERROR), w')))"

subsection \<open>A message on the wire\<close>

definition map_message :: "('p \<Rightarrow> 'q) \<Rightarrow> 'p http3_message \<Rightarrow> 'q http3_message" where
  "map_message f m =
     \<lparr>hm_type = hm_type m, hm_method = map_option f (hm_method m), hm_scheme = map_option f (hm_scheme m),
      hm_path = map_option f (hm_path m), hm_authority = map_option f (hm_authority m),
      hm_protocol = map_option f (hm_protocol m), hm_status = hm_status m, hm_has_status = hm_has_status m,
      hm_validation = hm_validation m\<rparr>"

definition line_pair :: "wt_qpack_field_line \<Rightarrow> field" where
  "line_pair l = (fl_name l, fl_value l)"

text \<open>The loop's work on the fields themselves.\<close>

fun accept_all :: "field list \<Rightarrow> field_view http3_message \<Rightarrow> http3_fail + field_view http3_message" where
  "accept_all [] m = Inr m"
| "accept_all ((name, val) # fs) m =
     (case message_accept name val (fv_bytes val) m of Inl f \<Rightarrow> Inl f | Inr m' \<Rightarrow> accept_all fs m')"

lemma set_line_ok: "length val < 2 ^ 62 \<Longrightarrow> length name < 2 ^ 62 \<Longrightarrow> line_ok (set_line name val) \<and> scratch_fits (set_line name val) n"
  by (simp add: set_line_def line_ok_def scratch_fits_def string_ok_def WT_QUIC_VARINT_MAX_def ascii_def)

lemma section_next_literal:
  assumes "line_ok (set_line name val)" "cursor_ready c" "cursor_view c = line_bytes (set_line name val) @ rest"
  shows "wt_qpack_field_section_next prefix table capacity c sc =
    (Inr \<lparr>rf_name = fv_bytes (ascii name), rf_value = fv_bytes val\<rparr>,
     cursor_advance c (length (line_bytes (set_line name val))), sc)"
proof -
  let ?l = "set_line name val"
  have dec: "wt_qpack_field_line_decode c = (Inr (wire_line ?l), cursor_advance c (length (line_bytes ?l)))"
    using readsD [OF reads_line [OF assms(1)] assms(2,3)] .
  have ne: "\<not> wt_cursor_at_end c" using line_not_at_end [OF assms(2,3)] .
  show ?thesis
    unfolding wt_qpack_field_section_next_def if_not_P [OF ne] dec
    by (simp add: wire_line_def set_line_def materialise_def section_resolve_def)
qed

lemma message_loop_literals:
  assumes "\<forall>l \<in> set lines. \<exists>name val. l = set_line name val \<and> line_ok l"
    and "cursor_ready (sd_cursor d)" "cursor_view (sd_cursor d) = lines_bytes lines"
  shows "message_loop capacity d scratch m = (accept_all (map line_pair lines) m, scratch)"
  using assms
proof (induction lines arbitrary: d m)
  case Nil
  then have "wt_cursor_at_end (sd_cursor d)" by (intro cursor_view_empty) simp_all
  then show ?case
    by (subst message_loop.simps)
      (simp add: wt_qpack_field_section_decoder_next_def wt_qpack_field_section_next_def section_failure_def)
next
  case (Cons l lines)
  then obtain name val where l: "l = set_line name val" "line_ok (set_line name val)" by auto
  have c: "cursor_ready (sd_cursor d)" "cursor_view (sd_cursor d) = line_bytes (set_line name val) @ lines_bytes lines"
    using Cons.prems(2,3) l(1) by simp_all
  let ?d = "d\<lparr>sd_cursor := cursor_advance (sd_cursor d) (length (line_bytes (set_line name val)))\<rparr>"
  have step: "wt_qpack_field_section_decoder_next capacity d scratch =
      (Inr \<lparr>rf_name = fv_bytes (ascii name), rf_value = fv_bytes val\<rparr>, ?d, scratch)"
    by (simp add: wt_qpack_field_section_decoder_next_def section_next_literal [OF l(2) c])
  have IH: "message_loop capacity ?d scratch m' = (accept_all (map line_pair lines) m', scratch)" for m'
    using Cons.prems(1) cursor_read_past [OF c] by (intro Cons.IH) simp_all
  have pair: "line_pair l = (ascii name, val)" by (simp add: l(1) line_pair_def set_line_def)
  show ?case
    by (subst message_loop.simps) (simp add: step pair IH split: sum.split)
qed

subsection \<open>The validator and the loop\<close>

fun remember_all :: "field list \<Rightarrow> field_view http3_message \<Rightarrow> field_view http3_message" where
  "remember_all [] m = m"
| "remember_all ((name, val) # fs) m =
     (case message_remember name val (fv_bytes val) m of Inl f \<Rightarrow> m | Inr m' \<Rightarrow> remember_all fs m')"

lemma message_remember_validation:
  "message_remember name val p (m\<lparr>hm_validation := v\<rparr>) =
     map_sum id (\<lambda>m. m\<lparr>hm_validation := v\<rparr>) (message_remember name val p m)"
  "message_remember name val p m = Inr m' \<Longrightarrow> hm_validation m' = hm_validation m"
  by (auto simp: message_remember_def split: option.splits if_splits)

lemma message_remember_total:
  "(name = ascii '':status'' \<longrightarrow> parse_status val \<noteq> None) \<Longrightarrow> \<exists>m'. message_remember name val p m = Inr m'"
  unfolding message_remember_def by (cases "parse_status val") (simp_all split: if_split)

lemma remember_all_validation:
  "(remember_all fs (m\<lparr>hm_validation := v1\<rparr>))\<lparr>hm_validation := v\<rparr> = (remember_all fs m)\<lparr>hm_validation := v\<rparr>"
proof (induction fs arbitrary: m)
  case (Cons f fs)
  then show ?case
    by (cases f) (auto simp: message_remember_validation(1) split: sum.splits)
qed simp

lemma accept_all_run:
  assumes "header_run (hm_validation m) fs = (None, v)"
    and "\<forall>f \<in> set fs. fst f = ascii '':status'' \<longrightarrow> parse_status (snd f) \<noteq> None"
  shows "accept_all fs m = Inr ((remember_all fs m)\<lparr>hm_validation := v\<rparr>)"
  using assms
proof (induction fs arbitrary: m)
  case Nil
  then show ?case by simp
next
  case (Cons f fs)
  obtain name val where f: "f = (name, val)" by (cases f)
  obtain v1 where v1: "wt_http3_header_validate (hm_validation m) name val = (None, v1)" "header_run v1 fs = (None, v)"
    using Cons.prems(1) f by (auto split: prod.splits option.splits)
  obtain m1 where m1: "message_remember name val (fv_bytes val) m = Inr m1"
    using message_remember_total [of name val] Cons.prems(2) f by fastforce
  have "accept_all fs (m1\<lparr>hm_validation := v1\<rparr>) = Inr ((remember_all fs (m1\<lparr>hm_validation := v1\<rparr>))\<lparr>hm_validation := v\<rparr>)"
    using v1(2) Cons.prems(2) by (intro Cons.IH) simp_all
  moreover have "(remember_all fs (m1\<lparr>hm_validation := v1\<rparr>))\<lparr>hm_validation := v\<rparr> = (remember_all fs m1)\<lparr>hm_validation := v\<rparr>"
    by (rule remember_all_validation)
  ultimately show ?case using f v1(1) m1 message_remember_validation(1) [of name val "fv_bytes val" v1 m]
    by (simp add: message_accept_def)
qed

subsection \<open>The status\<close>

lemma status_digit:
  assumes "d < 10"
  shows "\<not> (0x30 + ucast (d :: u64) :: u8) < 0x30" "\<not> (0x30 + ucast d :: u8) > 0x39"
    "ucast ((0x30 + ucast d :: u8) - 0x30) = d"
proof -
  have d: "unat d < 10" using assms by (simp add: word_less_nat_alt)
  then have u: "unat (ucast d :: u8) = unat d" by (simp add: unsigned_ucast_eq unsigned_take_bit_eq take_bit_nat_eq_self_iff)
  then have v: "unat (0x30 + ucast d :: u8) = 48 + unat d" using d by (simp add: unat_word_ariths)
  show "\<not> (0x30 + ucast d :: u8) < 0x30" "\<not> (0x30 + ucast d :: u8) > 0x39"
    using v d by (simp_all add: word_less_nat_alt)
  have "unat (ucast (ucast d :: u8) :: u64) = unat d" using u d by (simp add: unsigned_ucast_eq unsigned_take_bit_eq take_bit_nat_eq_self_iff)
  then show "ucast ((0x30 + ucast d :: u8) - 0x30) = d" by (simp add: word_unat_eq_iff)
qed

lemma parse_status_text:
  assumes "100 \<le> status" "status \<le> 599"
  shows "parse_status (status_text status) = Some status"
proof -
  let ?a = "status div 100 mod 10" and ?b = "status div 10 mod 10" and ?c = "status mod 10"
  have s: "unat status \<le> 599" using assms(2) by (simp add: word_le_nat_alt)
  have u: "unat ?a = unat status div 100 mod 10" "unat ?b = unat status div 10 mod 10" "unat ?c = unat status mod 10"
    by (simp_all add: unat_div unat_mod)
  have lt: "?a < 10" "?b < 10" "?c < 10" using u by (simp_all add: word_less_nat_alt)
  have n: "((n div 100 mod 10) * 10 + n div 10 mod 10) * 10 + n mod 10 = n" if "n \<le> 599" for n :: nat
  proof -
    have "n div 100 mod 10 = n div 10 div 10" using that by (simp add: div_mult2_eq [symmetric])
    then show ?thesis using div_mult_mod_eq [of n 10] div_mult_mod_eq [of "n div 10" 10] by simp
  qed
  have eq: "((0 * 10 + ?a) * 10 + ?b) * 10 + ?c = status"
  proof (rule word_unat_eq_iff [THEN iffD2])
    have "unat (((0 * 10 + ?a) * 10 + ?b) * 10 + ?c) =
        ((unat ?a * 10 + unat ?b) * 10 + unat ?c) mod 2 ^ 64"
      by (simp add: unat_word_ariths mod_simps)
    also have "\<dots> = unat status" unfolding u n [OF s] using unat_u64_less [of status] by simp
    finally show "unat (((0 * 10 + ?a) * 10 + ?b) * 10 + ?c) = unat status" .
  qed
  have "status_digits 0 (status_text status) = Some (((0 * 10 + ?a) * 10 + ?b) * 10 + ?c)"
    unfolding status_text_def by (simp only: status_digits.simps status_digit [OF lt(1)] status_digit [OF lt(2)]
        status_digit [OF lt(3)] simp_thms if_False)
  then have d: "status_digits 0 (status_text status) = Some status" unfolding eq .
  have "length (status_text status) = 3" by (simp add: status_text_def)
  with d assms show ?thesis by (simp add: parse_status_def not_less [symmetric])
qed

subsection \<open>The fields of a message\<close>

definition message_fields :: "u8 list http3_message \<Rightarrow> field list" where
  "message_fields m = (case message_lines m of Inl _ \<Rightarrow> [] | Inr ls \<Rightarrow> map line_pair ls)"

text \<open>A message whose decoded form can be itself: the values of its type and no others, none too long, and
  a section the header rules accept.\<close>

definition message_sendable :: "u8 list http3_message \<Rightarrow> bool" where
  "message_sendable m \<longleftrightarrow>
     header_section (hm_type m) (message_fields m) = None \<and> message_content id m = None \<and>
     (\<forall>f \<in> set (message_fields m). length (snd f) < 2 ^ 62) \<and>
     (case hm_type m of
        WT_HTTP3_HEADER_REQUEST \<Rightarrow> hm_method m \<noteq> None \<and> hm_status m = 0 \<and> \<not> hm_has_status m
      | WT_HTTP3_HEADER_RESPONSE \<Rightarrow>
          hm_has_status m \<and> 100 \<le> hm_status m \<and> hm_status m \<le> 599 \<and> hm_method m = None \<and> hm_scheme m = None \<and>
          hm_path m = None \<and> hm_authority m = None \<and> hm_protocol m = None)"

definition literal_line :: "wt_qpack_field_line \<Rightarrow> bool" where
  "literal_line l \<longleftrightarrow> (\<exists>name val. l = set_line name val \<and> length name < 64)"

lemma literal_set_line [simp]: "length name < 64 \<Longrightarrow> literal_line (set_line name val)"
  by (auto simp: literal_line_def)

lemma literal_add_pseudo [simp]:
  "length name < 64 \<Longrightarrow> list_all literal_line ls \<Longrightarrow> list_all literal_line (add_pseudo name val ls)"
  by (simp add: add_pseudo_def split: option.split)

lemma message_lines_literal:
  assumes "message_lines m = Inr ls" "l \<in> set ls"
  obtains name val where "l = set_line name val" "length name < 64" "(ascii name, val) \<in> set (message_fields m)"
proof -
  have "list_all literal_line ls" using assms(1) by (auto simp: message_lines_def split: if_splits)
  then obtain name val where l: "l = set_line name val" "length name < 64"
    using assms(2) by (auto simp: list_all_iff literal_line_def)
  have "line_pair l \<in> set (message_fields m)" using assms by (simp add: message_fields_def)
  with l that [of name val] show thesis by (simp add: line_pair_def set_line_def)
qed

lemma remember_names:
  "message_remember (ascii '':method'') val p m = Inr (m\<lparr>hm_method := Some p\<rparr>)"
  "message_remember (ascii '':scheme'') val p m = Inr (m\<lparr>hm_scheme := Some p\<rparr>)"
  "message_remember (ascii '':path'') val p m = Inr (m\<lparr>hm_path := Some p\<rparr>)"
  "message_remember (ascii '':authority'') val p m = Inr (m\<lparr>hm_authority := Some p\<rparr>)"
  "message_remember (ascii '':protocol'') val p m = Inr (m\<lparr>hm_protocol := Some p\<rparr>)"
  "message_remember (ascii '':status'') val p m =
     (case parse_status val of None \<Rightarrow> Inl (WT_ERR_PROTOCOL, WT_HTTP3_MESSAGE_ERROR)
      | Some status \<Rightarrow> Inr (m\<lparr>hm_status := status, hm_has_status := True\<rparr>))"
  by (simp_all add: message_remember_def ascii_def)

lemma message_lines_sendable:
  assumes "message_sendable m"
  obtains ls where "message_lines m = Inr ls" "message_fields m = map line_pair ls"
proof -
  obtain ls where "message_lines m = Inr ls"
    using assms by (cases "hm_type m") (auto simp: message_sendable_def message_lines_def not_less [symmetric])
  with that [of ls] show thesis by (simp add: message_fields_def)
qed

lemma remember_sendable:
  assumes "message_sendable m"
  shows "(remember_all (message_fields m) (message_init (hm_type m)))\<lparr>hm_validation := v\<rparr> =
    (map_message fv_bytes m)\<lparr>hm_validation := v\<rparr>"
proof (cases "hm_type m")
  case WT_HTTP3_HEADER_RESPONSE
  then have m: "hm_has_status m" "100 \<le> hm_status m" "hm_status m \<le> 599" "hm_method m = None" "hm_scheme m = None"
    "hm_path m = None" "hm_authority m = None" "hm_protocol m = None"
    using assms by (simp_all add: message_sendable_def)
  have f: "message_fields m = [(ascii '':status'', status_text (hm_status m))]"
    using m WT_HTTP3_HEADER_RESPONSE
    by (simp add: message_fields_def message_lines_def add_pseudo_def line_pair_def set_line_def not_less [symmetric])
  show ?thesis
    unfolding f using m WT_HTTP3_HEADER_RESPONSE parse_status_text [OF m(2,3)]
    by (simp add: remember_names message_init_def map_message_def)
next
  case WT_HTTP3_HEADER_REQUEST
  then have m: "hm_method m \<noteq> None" "hm_status m = 0" "\<not> hm_has_status m" using assms by (simp_all add: message_sendable_def)
  define opt where "opt = (\<lambda>name. case_option [] (\<lambda>v :: u8 list. [(ascii name, v)]))"
  have f: "message_fields m = opt '':method'' (hm_method m) @ opt '':scheme'' (hm_scheme m) @
      opt '':authority'' (hm_authority m) @ opt '':path'' (hm_path m) @ opt '':protocol'' (hm_protocol m)"
    using m(1) WT_HTTP3_HEADER_REQUEST
    by (auto simp: message_fields_def message_lines_def add_pseudo_def line_pair_def set_line_def opt_def split: option.split)
  then show ?thesis
    unfolding f using m WT_HTTP3_HEADER_REQUEST
    by (cases "hm_scheme m"; cases "hm_authority m"; cases "hm_path m"; cases "hm_protocol m"; cases "hm_method m";
        simp add: opt_def remember_names message_init_def map_message_def)
qed

subsection \<open>Decoding what was encoded\<close>

lemma message_encode_lines:
  assumes "message_sendable m" "2 * unat max_entries < 2 ^ 62"
  obtains ls where "message_lines m = Inr ls" "message_fields m = map line_pair ls"
    "\<forall>l \<in> set ls. line_ok l \<and> scratch_fits l 1" "\<forall>l \<in> set ls. \<exists>name val. l = set_line name val \<and> line_ok l"
    "prefix_sendable 0 0 max_entries"
proof -
  obtain ls where ls: "message_lines m = Inr ls" "message_fields m = map line_pair ls"
    using message_lines_sendable [OF assms(1)] .
  have "\<exists>name val. l = set_line name val \<and> line_ok l \<and> scratch_fits l 1" if "l \<in> set ls" for l
  proof -
    obtain name val where l: "l = set_line name val" "length name < 64" "(ascii name, val) \<in> set (message_fields m)"
      using message_lines_literal [OF ls(1) \<open>l \<in> set ls\<close>] .
    then have "length val < 2 ^ 62" using assms(1) unfolding message_sendable_def by fastforce
    with l set_line_ok [of val name 1] show ?thesis by auto
  qed
  then have ok: "\<forall>l \<in> set ls. line_ok l \<and> scratch_fits l 1" "\<forall>l \<in> set ls. \<exists>name val. l = set_line name val \<and> line_ok l"
    by blast+
  have "prefix_sendable 0 0 max_entries" using assms(2) by (simp add: prefix_sendable_def)
  with that ls ok show thesis by blast
qed

lemma value_of_map: "value_of (fv_read table scratch) (map_option fv_bytes v) = value_of id v"
  by (simp add: value_of_def option.case_eq_if option.map_sel)

lemma sendable_status:
  assumes "message_sendable m"
  shows "\<forall>f \<in> set (message_fields m). fst f = ascii '':status'' \<longrightarrow> parse_status (snd f) \<noteq> None"
proof (cases "hm_type m")
  case WT_HTTP3_HEADER_RESPONSE
  then have m: "hm_has_status m" "100 \<le> hm_status m" "hm_status m \<le> 599"
    using assms by (simp_all add: message_sendable_def)
  then have "message_fields m = [(ascii '':status'', status_text (hm_status m))]"
    using WT_HTTP3_HEADER_RESPONSE
    by (simp add: message_fields_def message_lines_def add_pseudo_def line_pair_def set_line_def not_less [symmetric])
  with parse_status_text [OF m(2,3)] show ?thesis by simp
next
  case WT_HTTP3_HEADER_REQUEST
  have "line_pair (set_line name val) = (ascii name, val)" for name val by (simp add: line_pair_def set_line_def)
  with WT_HTTP3_HEADER_REQUEST show ?thesis
    by (auto simp: message_fields_def message_lines_def add_pseudo_def ascii_def split: option.splits if_splits)
qed

lemma message_decode_encoded:
  assumes send: "message_sendable m" and max: "2 * unat max_entries < 2 ^ 62" "unat known + 3 * unat max_entries < 2 ^ 64"
    and cap: "unat cap \<le> length d"
    and enc: "wt_http3_message_encode m max_entries (wt_writer_init (Some d) cap) = ((WT_OK, e), w)"
    and len: "length (writer_out w) < 2 ^ 64"
  shows "\<exists>v. wt_http3_message_decode (hm_type m) (writer_out w) table max_entries known capacity scratch =
    (Inr ((map_message fv_bytes m)\<lparr>hm_validation := v\<rparr>), scratch)"
proof -
  let ?p = "\<lparr>hp_required_insert_count = 0, hp_base = 0\<rparr>" and ?b = "prefix_bytes 0 0 max_entries"
  obtain ls where ls: "message_lines m = Inr ls" "message_fields m = map line_pair ls"
    "\<forall>l \<in> set ls. line_ok l \<and> scratch_fits l 1" "\<forall>l \<in> set ls. \<exists>name val. l = set_line name val \<and> line_ok l"
    "prefix_sendable 0 0 max_entries" using message_encode_lines [OF send max(1)] .
  have "prefix_sendable (hp_required_insert_count ?p) (hp_base ?p) max_entries" using ls(5) by simp
  note app = appends_init [OF appends_section [OF this ls(3)] cap]
  have "wt_qpack_field_section_encode ?p max_entries ls 1 (wt_writer_init (Some d) cap) = (WT_OK, w)"
    using enc ls(1) by (auto simp: wt_http3_message_encode_def split: prod.splits)
  with app have out: "writer_out w = ?b @ lines_bytes ls" by (auto simp: section_bytes_def split: if_splits)
  let ?c = "cursor_of (writer_out w)"
  have c: "cursor_ready ?c" "cursor_view ?c = ?b @ lines_bytes ls" using len out by simp_all
  have "wt_qpack_header_prefix_decode max_entries known ?c = (Inr ?p, cursor_advance ?c (length ?b))"
    using readsD [OF reads_prefix [OF ls(5) max(2)] c] by simp
  then have start: "wt_qpack_field_section_begin table max_entries (writer_out w) known =
      Inr \<lparr>sd_prefix = ?p, sd_table = table, sd_cursor = cursor_advance ?c (length ?b), sd_scratch_used = 0\<rparr>"
    (is "_ = Inr ?d") by (simp add: wt_qpack_field_section_begin_def)
  have "header_section (hm_type m) (map line_pair ls) = None" using send ls(2) by (simp add: message_sendable_def)
  then obtain v where v: "header_run (wt_http3_header_validation_init (hm_type m)) (map line_pair ls) = (None, v)"
    "wt_http3_header_finish v = None" by (auto simp: header_section_def split: prod.splits option.splits)
  have status: "\<forall>f \<in> set (map line_pair ls). fst f = ascii '':status'' \<longrightarrow> parse_status (snd f) \<noteq> None"
    using sendable_status [OF send] ls(2) by simp
  have "message_loop capacity ?d scratch (message_init (hm_type m)) =
      (accept_all (map line_pair ls) (message_init (hm_type m)), scratch)"
    using ls(4) cursor_read_past [OF c] by (intro message_loop_literals) simp_all
  also have "accept_all (map line_pair ls) (message_init (hm_type m)) =
      Inr ((remember_all (map line_pair ls) (message_init (hm_type m)))\<lparr>hm_validation := v\<rparr>)"
    using v(1) status by (intro accept_all_run) (simp_all add: message_init_def)
  also have "(remember_all (map line_pair ls) (message_init (hm_type m)))\<lparr>hm_validation := v\<rparr> =
      (map_message fv_bytes m)\<lparr>hm_validation := v\<rparr>"
    using remember_sendable [OF send] ls(2) by simp
  finally have loop: "message_loop capacity ?d scratch (message_init (hm_type m)) =
      (Inr ((map_message fv_bytes m)\<lparr>hm_validation := v\<rparr>), scratch)" .
  have "message_content (fv_read table scratch) ((map_message fv_bytes m)\<lparr>hm_validation := v\<rparr>) = message_content id m"
    by (simp only: message_content_def map_message_def value_of_map http3_message.simps)
  then have content: "message_content (fv_read table scratch) ((map_message fv_bytes m)\<lparr>hm_validation := v\<rparr>) = None"
    using send by (simp add: message_sendable_def)
  show ?thesis
    unfolding wt_http3_message_decode_def start sum.case loop prod.case
    using v(2) content by auto
qed

subsection \<open>Decoding what a peer sent\<close>









definition field_views_of ::
  "wt_qpack_dynamic_table option \<Rightarrow> u8 list \<Rightarrow> wt_qpack_resolved_field list \<Rightarrow> (u8 list \<times> u8 list \<times> field_view) list" where
  "field_views_of table scratch rs =
     map (\<lambda>r. (fv_read table scratch (rf_name r), fv_read table scratch (rf_value r), rf_value r)) rs"

lemma field_views_of_simps [simp]:
  "field_views_of table scratch [] = []"
  "field_views_of table scratch (r # rs) =
     (fv_read table scratch (rf_name r), fv_read table scratch (rf_value r), rf_value r) # field_views_of table scratch rs"
  by (simp_all add: field_views_of_def)



























subsection \<open>Properties of messages\<close>





text \<open>Messages survive the wire. A request or a response that the header rules accept, written by the
  message encoder into a buffer, is decoded by a peer as the same type, the same pseudo-headers,
  absent ones included, and the same status, whatever dynamic table the peer keeps.\<close>

lemma wt_http3_message_round_trip:
  assumes "message_sendable m" "2 * unat max_entries < 2 ^ 62" "unat known + 3 * unat max_entries < 2 ^ 64"
    and "unat cap \<le> length d"
    and "wt_http3_message_encode m max_entries (wt_writer_init (Some d) cap) = ((WT_OK, e), w)"
    and "length (writer_out w) < 2 ^ 64"
  shows "\<exists>m' v. wt_http3_message_decode (hm_type m) (writer_out w) table max_entries known capacity scratch = (Inr m', scratch) \<and>
    map_message (fv_read table scratch) m' = m\<lparr>hm_validation := v\<rparr>"
proof -
  have "map_message (fv_read table scratch) ((map_message fv_bytes m)\<lparr>hm_validation := v\<rparr>) = m\<lparr>hm_validation := v\<rparr>" for v
    by (simp add: map_message_def option.map_comp o_def option.map_ident)
  with message_decode_encoded [OF assms, of table capacity scratch] show ?thesis by blast
qed



end
