(* ===== verification/Http3_Endpoint.thy ===== *)
theory Http3_Endpoint
  imports Http3_Message Webtransport_Framing
begin

text \<open>
  One endpoint of an HTTP/3 connection (\<open>C99/src/http3/endpoint.c\<close>): the peer's unidirectional streams
  with the once-only rules, the request streams with their ordering machines, the QPACK decoder state
  that the peer's encoder stream fills, and the HEADERS frames in both directions. The stream and request
  arrays are the lists of their live entries, those below \<open>stream_count\<close> and \<open>request_count\<close>; an entry is
  forgotten by moving the last one into its place. A result \<open>None\<close> is \<open>WT_OK\<close>.
\<close>

subsection \<open>The state\<close>

definition WT_HTTP3_ENDPOINT_STREAMS_MAX :: nat where "WT_HTTP3_ENDPOINT_STREAMS_MAX = 32"
definition WT_HTTP3_ENDPOINT_REQUESTS_MAX :: nat where "WT_HTTP3_ENDPOINT_REQUESTS_MAX = 8"

datatype wt_http3_endpoint_stream_kind =
  WT_HTTP3_ENDPOINT_STREAM_CONTROL
| WT_HTTP3_ENDPOINT_STREAM_PUSH
| WT_HTTP3_ENDPOINT_STREAM_QPACK_ENCODER
| WT_HTTP3_ENDPOINT_STREAM_QPACK_DECODER
| WT_HTTP3_ENDPOINT_STREAM_WEBTRANSPORT
| WT_HTTP3_ENDPOINT_STREAM_UNKNOWN

record wt_http3_endpoint_stream =
  ep_stream_id :: u64
  ep_kind :: wt_http3_endpoint_stream_kind
  ep_type :: u64

record wt_http3_endpoint_request =
  er_stream_id :: u64
  er_locally_opened :: bool
  er_response_seen :: bool
  er_request :: wt_http3_request_stream

record wt_http3_endpoint =
  he_role :: wt_http3_role
  he_peer_control :: wt_http3_control_stream
  he_peer_qpack_encoder_seen :: bool
  he_peer_qpack_decoder_seen :: bool
  he_peer_webtransport_streams_seen :: bool
  he_control_sent :: bool
  he_qpack_encoder_sent :: bool
  he_qpack_decoder_sent :: bool
  he_streams :: "wt_http3_endpoint_stream list"
  he_requests :: "wt_http3_endpoint_request list"
  he_decoder_table :: wt_qpack_dynamic_table
  he_decoder_insert_count :: u64
  he_decoder_acked_insert_count :: u64
  he_decoder_capacity_set :: bool

text \<open>\<open>decoder_acked_insert_count\<close> is not initialised; \<open>acked\<close> is what the memory held.\<close>

definition wt_http3_endpoint_init :: "wt_http3_role \<Rightarrow> u64 \<Rightarrow> wt_http3_endpoint" where
  "wt_http3_endpoint_init role acked =
     \<lparr>he_role = role, he_peer_control = wt_http3_control_init, he_peer_qpack_encoder_seen = False,
      he_peer_qpack_decoder_seen = False, he_peer_webtransport_streams_seen = False, he_control_sent = False,
      he_qpack_encoder_sent = False, he_qpack_decoder_sent = False, he_streams = [], he_requests = [],
      he_decoder_table = wt_qpack_dynamic_init 0, he_decoder_insert_count = 0,
      he_decoder_acked_insert_count = acked, he_decoder_capacity_set = False\<rparr>"

definition take_last :: "nat \<Rightarrow> 'a list \<Rightarrow> 'a list" where
  "take_last i xs = butlast (xs[i := last xs])"

subsection \<open>Request streams\<close>

definition find_request :: "wt_http3_endpoint \<Rightarrow> u64 \<Rightarrow> nat option" where
  "find_request e stream_id = first_slot (\<lambda>r. er_stream_id r = stream_id) (he_requests e)"

definition forget_request :: "wt_http3_endpoint \<Rightarrow> u64 \<Rightarrow> wt_http3_endpoint" where
  "forget_request e stream_id =
     (case find_request e stream_id of
        None \<Rightarrow> e
      | Some i \<Rightarrow> e\<lparr>he_requests := take_last i (he_requests e)\<rparr>)"

definition track_request :: "wt_http3_endpoint \<Rightarrow> u64 \<Rightarrow> bool \<Rightarrow> http3_fail option \<times> wt_http3_endpoint" where
  "track_request e stream_id locally_opened =
     (if find_request e stream_id \<noteq> None then (Some (WT_ERR_STATE, WT_HTTP3_NO_ERROR), e)
      else if length (he_requests e) \<ge> WT_HTTP3_ENDPOINT_REQUESTS_MAX then (Some (WT_ERR_LIMIT, WT_HTTP3_NO_ERROR), e)
      else
        (None, e\<lparr>he_requests := he_requests e @
           [\<lparr>er_stream_id = stream_id, er_locally_opened = locally_opened, er_response_seen = False,
             er_request = wt_http3_request_init\<rparr>]\<rparr>))"

definition wt_http3_endpoint_open_request ::
  "wt_http3_endpoint \<Rightarrow> u64 \<Rightarrow> http3_fail option \<times> wt_http3_endpoint" where
  "wt_http3_endpoint_open_request e stream_id =
     (if he_role e \<noteq> WT_HTTP3_ROLE_CLIENT then (Some (WT_ERR_STATE, WT_HTTP3_NO_ERROR), e)
      else track_request e stream_id True)"

definition wt_http3_endpoint_on_request_stream ::
  "wt_http3_endpoint \<Rightarrow> u64 \<Rightarrow> http3_fail option \<times> wt_http3_endpoint" where
  "wt_http3_endpoint_on_request_stream e stream_id =
     (if he_role e = WT_HTTP3_ROLE_CLIENT then (Some (WT_ERR_PROTOCOL, WT_HTTP3_STREAM_CREATION_ERROR), e)
      else track_request e stream_id False)"

definition wt_http3_endpoint_set_decoder_capacity ::
  "wt_http3_endpoint \<Rightarrow> u64 \<Rightarrow> wt_status \<times> wt_http3_endpoint" where
  "wt_http3_endpoint_set_decoder_capacity e capacity =
     (if he_decoder_capacity_set e then
        (if dt_capacity (he_decoder_table e) = capacity then WT_OK else WT_ERR_STATE, e)
      else
        (WT_OK, e\<lparr>he_decoder_table := wt_qpack_dynamic_init capacity, he_decoder_insert_count := 0,
                  he_decoder_acked_insert_count := 0, he_decoder_capacity_set := True\<rparr>))"

definition update_request ::
  "wt_http3_endpoint \<Rightarrow> nat \<Rightarrow> wt_http3_endpoint_request \<Rightarrow> wt_http3_endpoint" where
  "update_request e i r = e\<lparr>he_requests := (he_requests e)[i := r]\<rparr>"

definition wt_http3_endpoint_on_request_frame ::
  "wt_http3_endpoint \<Rightarrow> u64 \<Rightarrow> u64 \<Rightarrow> http3_fail option \<times> wt_http3_endpoint" where
  "wt_http3_endpoint_on_request_frame e stream_id type =
     (case find_request e stream_id of
        None \<Rightarrow> (Some (WT_ERR_STATE, WT_HTTP3_NO_ERROR), e)
      | Some i \<Rightarrow>
          (case wt_http3_request_on_frame (er_request (he_requests e ! i)) type of
             (r, request) \<Rightarrow> (r, update_request e i ((he_requests e ! i)\<lparr>er_request := request\<rparr>))))"

definition endpoint_decode ::
  "wt_http3_endpoint \<Rightarrow> wt_http3_header_message \<Rightarrow> u8 list \<Rightarrow> u64 \<Rightarrow> u8 list \<Rightarrow>
   (http3_fail + field_view http3_message) \<times> u8 list" where
  "endpoint_decode e type payload capacity scratch =
     wt_http3_message_decode type payload (Some (he_decoder_table e))
       (wt_qpack_max_entries (dt_capacity (he_decoder_table e))) (he_decoder_insert_count e) capacity scratch"

text \<open>The state before the frame: the loop keeps the last entry that matches.\<close>

definition request_before :: "wt_http3_endpoint \<Rightarrow> u64 \<Rightarrow> wt_http3_request_state" where
  "request_before e stream_id =
     (case find (\<lambda>r. er_stream_id r = stream_id) (rev (he_requests e)) of
        None \<Rightarrow> WT_HTTP3_REQUEST_EXPECT_HEADERS
      | Some r \<Rightarrow> rq_state (er_request r))"

definition wt_http3_endpoint_on_request_headers ::
  "wt_http3_endpoint \<Rightarrow> u64 \<Rightarrow> u8 list \<Rightarrow> u64 \<Rightarrow> u8 list \<Rightarrow>
   (http3_fail + field_view http3_message) \<times> wt_http3_endpoint \<times> u8 list" where
  "wt_http3_endpoint_on_request_headers e stream_id payload capacity scratch =
     (let before = request_before e stream_id in
      case wt_http3_endpoint_on_request_frame e stream_id WT_HTTP3_FRAME_HEADERS of
        (Some f, e') \<Rightarrow> (Inl f, e', scratch)
      | (None, e') \<Rightarrow>
          (case endpoint_decode e' WT_HTTP3_HEADER_REQUEST payload capacity scratch of
             (Inl f, scratch') \<Rightarrow> (Inl f, e', scratch')
           | (Inr m, scratch') \<Rightarrow>
               let size = (\<lambda>p. length (value_of (fv_read (Some (he_decoder_table e')) scratch') p)) in
               if before \<noteq> WT_HTTP3_REQUEST_EXPECT_HEADERS \<and>
                  (size (hm_method m) \<noteq> 0 \<or> size (hm_scheme m) \<noteq> 0 \<or> size (hm_path m) \<noteq> 0 \<or>
                   size (hm_authority m) \<noteq> 0 \<or> size (hm_protocol m) \<noteq> 0)
               then (Inl (WT_ERR_PROTOCOL, WT_HTTP3_MESSAGE_ERROR), e', scratch')
               else (Inr m, e', scratch')))"

definition wt_http3_endpoint_write_headers ::
  "u8 list http3_message \<Rightarrow> u64 \<Rightarrow> u8 list \<Rightarrow> u64 \<Rightarrow> wt_writer \<Rightarrow> http3_fail \<times> wt_writer" where
  "wt_http3_endpoint_write_headers message peer_max_entries scratch scratch_capacity w =
     (case wt_http3_message_encode message peer_max_entries (wt_writer_init (Some scratch) scratch_capacity) of
        (f, section) \<Rightarrow>
          if fst f \<noteq> WT_OK then (f, w)
          else if \<not> wt_writer_ok section then ((WT_ERR_LIMIT, WT_HTTP3_NO_ERROR), w)
          else
            (case wt_http3_frame_encode ((wt_http3_frame_make WT_HTTP3_FRAME_HEADERS)\<lparr>hf_payload := writer_out section\<rparr>) w of
               (status, w') \<Rightarrow>
                 ((status, if status \<noteq> WT_OK then WT_HTTP3_FRAME_ERROR else WT_HTTP3_NO_ERROR), w')))"

definition wt_http3_endpoint_on_response_headers ::
  "wt_http3_endpoint \<Rightarrow> u64 \<Rightarrow> u8 list \<Rightarrow> u64 \<Rightarrow> u8 list \<Rightarrow>
   (http3_fail + field_view http3_message) \<times> wt_http3_endpoint \<times> u8 list" where
  "wt_http3_endpoint_on_response_headers e stream_id payload capacity scratch =
     (let refused = (Inl (WT_ERR_STATE, WT_HTTP3_NO_ERROR), e, scratch) in
      case find_request e stream_id of
        None \<Rightarrow> refused
      | Some i \<Rightarrow>
          if rq_ended (er_request (he_requests e ! i)) then refused
          else if er_response_seen (he_requests e ! i) then refused
          else
            let e' = update_request e i ((he_requests e ! i)\<lparr>er_response_seen := True\<rparr>) in
            (case endpoint_decode e' WT_HTTP3_HEADER_RESPONSE payload capacity scratch of
               (r, scratch') \<Rightarrow> (r, e', scratch')))"

definition wt_http3_endpoint_on_request_end ::
  "wt_http3_endpoint \<Rightarrow> u64 \<Rightarrow> http3_fail option \<times> wt_http3_endpoint" where
  "wt_http3_endpoint_on_request_end e stream_id =
     (case find_request e stream_id of
        None \<Rightarrow> (Some (WT_ERR_STATE, WT_HTTP3_NO_ERROR), e)
      | Some i \<Rightarrow>
          (case wt_http3_request_on_end (er_request (he_requests e ! i)) of
             (r, request) \<Rightarrow>
               (r, forget_request (update_request e i ((he_requests e ! i)\<lparr>er_request := request\<rparr>)) stream_id)))"

definition wt_http3_endpoint_on_request_reset ::
  "wt_http3_endpoint \<Rightarrow> u64 \<Rightarrow> wt_status \<times> wt_http3_endpoint" where
  "wt_http3_endpoint_on_request_reset e stream_id =
     (case find_request e stream_id of
        None \<Rightarrow> (WT_ERR_STATE, e)
      | Some i \<Rightarrow>
          (case wt_http3_request_on_reset (er_request (he_requests e ! i)) of
             (_, request) \<Rightarrow>
               (WT_OK, forget_request (update_request e i ((he_requests e ! i)\<lparr>er_request := request\<rparr>)) stream_id)))"

definition wt_http3_endpoint_request_state :: "wt_http3_endpoint \<Rightarrow> u64 \<Rightarrow> wt_http3_request_state wt_result" where
  "wt_http3_endpoint_request_state e stream_id =
     (case find_request e stream_id of
        None \<Rightarrow> Inl WT_ERR_STATE
      | Some i \<Rightarrow> Inr (rq_state (er_request (he_requests e ! i))))"

definition wt_http3_endpoint_request_count :: "wt_http3_endpoint \<Rightarrow> nat" where
  "wt_http3_endpoint_request_count e = length (he_requests e)"

subsection \<open>Unidirectional streams\<close>

definition write_type_prefix :: "u64 \<Rightarrow> wt_writer \<Rightarrow> wt_status \<times> wt_writer" where
  "write_type_prefix type w =
     (let encoded = wt_quic_varint_encode type 8 in
      if length encoded = 0 then (WT_ERR_LIMIT, w)
      else let w' = wt_writer_bytes encoded w in (writer_status w', w'))"

definition wt_http3_endpoint_write_prefix ::
  "wt_http3_endpoint \<Rightarrow> wt_http3_endpoint_stream_kind \<Rightarrow> wt_writer \<Rightarrow> wt_status \<times> wt_http3_endpoint \<times> wt_writer" where
  "wt_http3_endpoint_write_prefix e kind w =
     (let once = (\<lambda>sent type e'.
            if sent then (WT_ERR_STATE, e, w)
            else case write_type_prefix type w of
              (status, w') \<Rightarrow> if status \<noteq> WT_OK then (status, e, w') else (WT_OK, e', w'))
      in case kind of
        WT_HTTP3_ENDPOINT_STREAM_CONTROL \<Rightarrow> once (he_control_sent e) WT_HTTP3_STREAM_CONTROL (e\<lparr>he_control_sent := True\<rparr>)
      | WT_HTTP3_ENDPOINT_STREAM_QPACK_ENCODER \<Rightarrow>
          once (he_qpack_encoder_sent e) WT_HTTP3_STREAM_QPACK_ENCODER (e\<lparr>he_qpack_encoder_sent := True\<rparr>)
      | WT_HTTP3_ENDPOINT_STREAM_QPACK_DECODER \<Rightarrow>
          once (he_qpack_decoder_sent e) WT_HTTP3_STREAM_QPACK_DECODER (e\<lparr>he_qpack_decoder_sent := True\<rparr>)
      | _ \<Rightarrow> (WT_ERR_INVALID_ARGUMENT, e, w))"

definition find_stream :: "wt_http3_endpoint \<Rightarrow> u64 \<Rightarrow> nat option" where
  "find_stream e stream_id = first_slot (\<lambda>s. ep_stream_id s = stream_id) (he_streams e)"

definition forget_stream :: "wt_http3_endpoint \<Rightarrow> u64 \<Rightarrow> wt_http3_endpoint" where
  "forget_stream e stream_id =
     (case find_stream e stream_id of
        None \<Rightarrow> e
      | Some i \<Rightarrow> e\<lparr>he_streams := take_last i (he_streams e)\<rparr>)"

definition wt_http3_endpoint_stream_count :: "wt_http3_endpoint \<Rightarrow> nat" where
  "wt_http3_endpoint_stream_count e = length (he_streams e)"

definition wt_http3_endpoint_stream_kind :: "wt_http3_endpoint \<Rightarrow> u64 \<Rightarrow> wt_http3_endpoint_stream_kind" where
  "wt_http3_endpoint_stream_kind e stream_id =
     (case find_stream e stream_id of
        None \<Rightarrow> WT_HTTP3_ENDPOINT_STREAM_UNKNOWN
      | Some i \<Rightarrow> ep_kind (he_streams e ! i))"

text \<open>The type decides the kind and what the connection remembers of it.\<close>

definition classify_uni_stream ::
  "wt_http3_endpoint \<Rightarrow> u64 \<Rightarrow> (http3_fail + wt_http3_endpoint_stream_kind) \<times> wt_http3_endpoint" where
  "classify_uni_stream e type =
     (if type = WT_WEBTRANSPORT_STREAM_UNI then
        (Inr WT_HTTP3_ENDPOINT_STREAM_WEBTRANSPORT, e\<lparr>he_peer_webtransport_streams_seen := True\<rparr>)
      else if type = WT_HTTP3_STREAM_CONTROL then
        (case wt_http3_control_peer_opened (he_peer_control e) of
           (Some f, control) \<Rightarrow> (Inl f, e\<lparr>he_peer_control := control\<rparr>)
         | (None, control) \<Rightarrow> (Inr WT_HTTP3_ENDPOINT_STREAM_CONTROL, e\<lparr>he_peer_control := control\<rparr>))
      else if type = WT_HTTP3_STREAM_QPACK_ENCODER then
        if he_peer_qpack_encoder_seen e then (Inl (WT_ERR_PROTOCOL, WT_HTTP3_STREAM_CREATION_ERROR), e)
        else (Inr WT_HTTP3_ENDPOINT_STREAM_QPACK_ENCODER, e\<lparr>he_peer_qpack_encoder_seen := True\<rparr>)
      else if type = WT_HTTP3_STREAM_QPACK_DECODER then
        if he_peer_qpack_decoder_seen e then (Inl (WT_ERR_PROTOCOL, WT_HTTP3_STREAM_CREATION_ERROR), e)
        else (Inr WT_HTTP3_ENDPOINT_STREAM_QPACK_DECODER, e\<lparr>he_peer_qpack_decoder_seen := True\<rparr>)
      else if type = WT_HTTP3_STREAM_PUSH then
        (Inl (WT_ERR_PROTOCOL,
           if he_role e = WT_HTTP3_ROLE_CLIENT then WT_HTTP3_ID_ERROR else WT_HTTP3_STREAM_CREATION_ERROR), e)
      else (Inr WT_HTTP3_ENDPOINT_STREAM_UNKNOWN, e))"

text \<open>The kind or the failure, the bytes of the prefix, and the endpoint.\<close>

definition wt_http3_endpoint_on_uni_stream ::
  "wt_http3_endpoint \<Rightarrow> u64 \<Rightarrow> u8 list \<Rightarrow> (http3_fail + wt_http3_endpoint_stream_kind) \<times> u64 \<times> wt_http3_endpoint" where
  "wt_http3_endpoint_on_uni_stream e stream_id bytes =
     (if find_stream e stream_id \<noteq> None then (Inl (WT_ERR_STATE, WT_HTTP3_NO_ERROR), 0, e)
      else
        case wt_quic_varint_decode (cursor_of bytes) of
          (Inl _, c) \<Rightarrow> (Inl (WT_ERR_TRUNCATED, WT_HTTP3_NO_ERROR), 0, e)
        | (Inr type, c) \<Rightarrow>
            let consumed = of_nat (length bytes) - wt_cursor_remaining c in
            (case classify_uni_stream e type of
               (Inl f, e') \<Rightarrow> (Inl f, consumed, e')
             | (Inr kind, e') \<Rightarrow>
                 if kind = WT_HTTP3_ENDPOINT_STREAM_UNKNOWN then (Inr kind, consumed, e')
                 else if length (he_streams e') \<ge> WT_HTTP3_ENDPOINT_STREAMS_MAX
                 then (Inl (WT_ERR_LIMIT, WT_HTTP3_NO_ERROR), consumed, e')
                 else
                   (Inr kind, consumed,
                    e'\<lparr>he_streams := he_streams e' @ [\<lparr>ep_stream_id = stream_id, ep_kind = kind, ep_type = type\<rparr>]\<rparr>)))"

definition wt_http3_endpoint_on_control_frame ::
  "wt_http3_endpoint \<Rightarrow> u64 \<Rightarrow> http3_fail option \<times> wt_http3_endpoint" where
  "wt_http3_endpoint_on_control_frame e type =
     (if type = WT_HTTP3_FRAME_MAX_PUSH_ID \<and> he_role e = WT_HTTP3_ROLE_CLIENT
      then (Some (WT_ERR_PROTOCOL, WT_HTTP3_FRAME_UNEXPECTED), e)
      else case wt_http3_control_on_frame (he_peer_control e) type of
        (r, control) \<Rightarrow> (r, e\<lparr>he_peer_control := control\<rparr>))"

definition wt_http3_endpoint_on_control_payload ::
  "wt_http3_endpoint \<Rightarrow> u64 \<Rightarrow> u8 list \<Rightarrow> bool \<Rightarrow> http3_fail option \<times> wt_http3_endpoint" where
  "wt_http3_endpoint_on_control_payload e type payload last_piece =
     (case wt_http3_control_on_frame_payload (he_peer_control e) type payload last_piece of
        (r, control) \<Rightarrow> (r, e\<lparr>he_peer_control := control\<rparr>))"

definition wt_http3_endpoint_on_uni_stream_end ::
  "wt_http3_endpoint \<Rightarrow> u64 \<Rightarrow> http3_fail option \<times> wt_http3_endpoint" where
  "wt_http3_endpoint_on_uni_stream_end e stream_id =
     (let kind = wt_http3_endpoint_stream_kind e stream_id in
      if kind = WT_HTTP3_ENDPOINT_STREAM_UNKNOWN then (None, e)
      else if kind = WT_HTTP3_ENDPOINT_STREAM_CONTROL then
        (case wt_http3_control_on_closed (he_peer_control e) of
           (r, control) \<Rightarrow> (r, forget_stream (e\<lparr>he_peer_control := control\<rparr>) stream_id))
      else if kind = WT_HTTP3_ENDPOINT_STREAM_QPACK_ENCODER \<or> kind = WT_HTTP3_ENDPOINT_STREAM_QPACK_DECODER then
        (Some (WT_ERR_PROTOCOL, WT_HTTP3_CLOSED_CRITICAL_STREAM), forget_stream e stream_id)
      else (None, forget_stream e stream_id))"

subsection \<open>The QPACK decoder\<close>

lemma integer_or_progress:
  assumes "integer_or err n c = (Inr v, c')"
  shows "wt_cursor_remaining c' < wt_cursor_remaining c"
  using assms integer_progress [of n c v c'] by (auto simp: integer_or_def split: prod.splits sum.splits)

lemma string_or_shrinks [simp]: "reader_shrinks (string_or err)"
  unfolding reader_shrinks_def string_or_def
  by (auto split: prod.splits sum.splits intro: reader_shrinksD [OF string_shrinks])

lemma integer_or_bind_progress:
  assumes "\<And>v. reader_shrinks (f v)" "rbind (integer_or err n) f c = (Inr x, c')"
  shows "wt_cursor_remaining c' < wt_cursor_remaining c"
proof -
  from assms(2) obtain v c1 where i: "integer_or err n c = (Inr v, c1)" "f v c1 = (Inr x, c')"
    by (auto simp: rbind_def split: prod.splits sum.splits)
  from integer_or_progress [OF i(1)] reader_shrinksD [OF assms(1) i(2)] show ?thesis by simp
qed

lemma encoder_body_progress:
  "encoder_body first c = (Inr i, c') \<Longrightarrow> wt_cursor_remaining c' < wt_cursor_remaining c"
  unfolding encoder_body_def Let_def
  by (auto split: if_splits elim!: integer_or_bind_progress [rotated] intro!: reader_shrinks_bind)

lemma encoder_apply_progress:
  assumes "wt_qpack_encoder_stream_apply s c = (None, s', c')"
  shows "wt_cursor_remaining c' < wt_cursor_remaining c"
  using assms
  by (auto simp: wt_qpack_encoder_stream_apply_def encoder_parse_def rbind_def rpeek_def
      split: prod.splits sum.splits option.splits dest: encoder_body_progress)

lemma cursor_rest_remaining: "snd (wt_cursor_rest c) = wt_cursor_remaining c"
  by (simp add: wt_cursor_rest_def wt_cursor_remaining_def)

text \<open>Whether an instruction was refused, the stream, and the bytes of the whole instructions applied.\<close>

function encoder_loop ::
  "wt_qpack_encoder_stream \<Rightarrow> wt_cursor \<Rightarrow> u64 \<Rightarrow> bool \<times> wt_qpack_encoder_stream \<times> u64" where
  "encoder_loop s c consumed =
     (let available = snd (wt_cursor_rest c) in
      if available > 0 then
        (case wt_qpack_encoder_stream_apply s c of
           (Some (status, err), s', c') \<Rightarrow> (status \<noteq> WT_ERR_TRUNCATED, s', consumed)
         | (None, s', c') \<Rightarrow> encoder_loop s' c' (consumed + (available - snd (wt_cursor_rest c'))))
      else (False, s, consumed))"
  by pat_completeness auto

termination encoder_loop
  by (relation "measure (\<lambda>(s, c, consumed). unat (wt_cursor_remaining c))")
    (auto simp: word_less_nat_alt [symmetric] dest!: encoder_apply_progress [OF sym])

declare encoder_loop.simps [simp del]

abbreviation encoder_stream_error :: http3_fail where
  "encoder_stream_error \<equiv> (WT_ERR_PROTOCOL, WT_HTTP3_ERROR_CAST 0x0201)"

text \<open>The result, the bytes consumed, the insert count reported, and the endpoint.\<close>

definition wt_http3_endpoint_on_qpack_encoder_bytes ::
  "wt_http3_endpoint \<Rightarrow> u8 list \<Rightarrow> http3_fail option \<times> u64 \<times> u64 \<times> wt_http3_endpoint" where
  "wt_http3_endpoint_on_qpack_encoder_bytes e bytes =
     (if \<not> he_peer_qpack_encoder_seen e then (Some (WT_ERR_PROTOCOL, WT_HTTP3_STREAM_CREATION_ERROR), 0, 0, e)
      else if \<not> he_decoder_capacity_set e then (Some encoder_stream_error, 0, 0, e)
      else
        case encoder_loop
               (wt_qpack_encoder_stream_init (Some (he_decoder_table e)) (dt_capacity (he_decoder_table e)))
               (cursor_of bytes) 0 of
          (refused, s, consumed) \<Rightarrow>
            let table = (case qs_table s of None \<Rightarrow> he_decoder_table e | Some t \<Rightarrow> t);
                e' = e\<lparr>he_decoder_table := table\<rparr>
            in if refused then (Some encoder_stream_error, consumed, 0, e')
               else (None, consumed, dt_insert_count table, e'\<lparr>he_decoder_insert_count := dt_insert_count table\<rparr>))"

definition wt_http3_endpoint_write_qpack_decoder_acks ::
  "wt_http3_endpoint \<Rightarrow> u64 \<Rightarrow> bool \<Rightarrow> wt_writer \<Rightarrow> wt_status \<times> wt_http3_endpoint \<times> wt_writer" where
  "wt_http3_endpoint_write_qpack_decoder_acks e section_stream_id acknowledge_section w =
     (let acknowledge = (\<lambda>e w.
            if acknowledge_section then
              (case wt_qpack_decoder_stream_write_section_acknowledgement section_stream_id w of
                 (status, w') \<Rightarrow> (status, e, w'))
            else (WT_OK, e, w))
      in if \<not> he_decoder_capacity_set e then (WT_ERR_STATE, e, w)
         else if he_decoder_insert_count e > he_decoder_acked_insert_count e then
           (case wt_qpack_decoder_stream_write_insert_count_increment
                   (he_decoder_insert_count e - he_decoder_acked_insert_count e) w of
              (status, w') \<Rightarrow>
                if status \<noteq> WT_OK then (status, e, w')
                else acknowledge (e\<lparr>he_decoder_acked_insert_count := he_decoder_insert_count e\<rparr>) w')
         else acknowledge e w)"

subsection \<open>The invariant of an endpoint\<close>

text \<open>Both arrays stay within their bounds, no stream is tracked twice, the decoder table is a table, and
  nothing is acknowledged that was not inserted.\<close>

definition endpoint_inv :: "wt_http3_endpoint \<Rightarrow> bool" where
  "endpoint_inv e \<longleftrightarrow>
     length (he_streams e) \<le> WT_HTTP3_ENDPOINT_STREAMS_MAX \<and> distinct (map ep_stream_id (he_streams e)) \<and>
     length (he_requests e) \<le> WT_HTTP3_ENDPOINT_REQUESTS_MAX \<and> distinct (map er_stream_id (he_requests e)) \<and>
     table_good (he_decoder_table e) \<and>
     unat (he_decoder_insert_count e) \<le> unat (dt_insert_count (he_decoder_table e)) \<and>
     (he_decoder_capacity_set e \<longrightarrow> he_decoder_acked_insert_count e \<le> he_decoder_insert_count e)"

lemma take_last_mset:
  assumes "i < length xs"
  shows "mset (take_last i xs @ [xs ! i]) = mset xs"
proof -
  have ne: "xs \<noteq> []" using assms by auto
  let ?ys = "xs[i := last xs]"
  have "?ys \<noteq> []" using ne by simp
  then have y: "mset (butlast ?ys) + {# last ?ys #} = mset ?ys"
    by (metis append_butlast_last_id mset.simps union_code mset_append)
  have l: "last ?ys = last xs"
    using ne assms by (cases "i = length xs - 1") (simp_all add: last_list_update last_conv_nth)
  have "mset ?ys + {# xs ! i #} = mset xs + {# last xs #}"
    using assms by (simp add: mset_update)
  then have "add_mset (last xs) (add_mset (xs ! i) (mset (butlast ?ys))) = add_mset (last xs) (mset xs)"
    unfolding add_mset_commute [of "last xs" "xs ! i"] using y l by simp
  then show ?thesis unfolding take_last_def by simp
qed

lemma take_last_keeps:
  assumes "i < length xs"
  shows "distinct (map f xs) \<Longrightarrow> distinct (map f (take_last i xs))" "Suc (length (take_last i xs)) = length xs"
    "set (take_last i xs) \<subseteq> set xs"
proof -
  note m = take_last_mset [OF assms]
  have mf: "mset (map f (take_last i xs @ [xs ! i])) = mset (map f xs)" using m by (metis mset_map)
  show "distinct (map f xs) \<Longrightarrow> distinct (map f (take_last i xs))"
    using mset_eq_imp_distinct_iff [OF mf] by simp
  show "Suc (length (take_last i xs)) = length xs" using assms by (simp add: take_last_def)
  show "set (take_last i xs) \<subseteq> set xs" using mset_eq_setD [OF m] by auto
qed

lemma find_request_Some:
  "find_request e stream_id = Some i \<Longrightarrow> i < length (he_requests e) \<and> er_stream_id (he_requests e ! i) = stream_id"
  unfolding find_request_def by (drule first_slot_Some) simp

lemma find_stream_Some:
  "find_stream e stream_id = Some i \<Longrightarrow> i < length (he_streams e) \<and> ep_stream_id (he_streams e ! i) = stream_id"
  unfolding find_stream_def by (drule first_slot_Some) simp

lemma forget_request_inv:
  assumes "endpoint_inv e"
  shows "endpoint_inv (forget_request e stream_id)"
proof (cases "find_request e stream_id")
  case (Some i)
  then have "i < length (he_requests e)" by (simp add: find_request_Some)
  from take_last_keeps(1,2) [OF this] assms Some show ?thesis
    by (fastforce simp: forget_request_def endpoint_inv_def)
qed (use assms in \<open>simp add: forget_request_def\<close>)

lemma forget_stream_inv:
  assumes "endpoint_inv e"
  shows "endpoint_inv (forget_stream e stream_id)"
proof (cases "find_stream e stream_id")
  case (Some i)
  then have "i < length (he_streams e)" by (simp add: find_stream_Some)
  from take_last_keeps(1,2) [OF this] assms Some show ?thesis
    by (fastforce simp: forget_stream_def endpoint_inv_def)
qed (use assms in \<open>simp add: forget_stream_def\<close>)

lemma map_update_same: "f y = f (xs ! i) \<Longrightarrow> map f (xs[i := y]) = map f xs"
  by (cases "i < length xs") (simp_all add: map_update list_update_same_conv list_update_beyond)

lemma update_request_inv:
  "endpoint_inv e \<Longrightarrow> er_stream_id r = er_stream_id (he_requests e ! i) \<Longrightarrow> endpoint_inv (update_request e i r)"
  by (simp add: endpoint_inv_def update_request_def map_update_same)

lemma track_request_inv: "endpoint_inv e \<Longrightarrow> endpoint_inv (snd (track_request e stream_id local))"
  by (auto simp: endpoint_inv_def track_request_def find_request_def first_slot_None)

lemma request_frame_inv:
  "endpoint_inv e \<Longrightarrow> endpoint_inv (snd (wt_http3_endpoint_on_request_frame e stream_id type))"
  by (auto simp: wt_http3_endpoint_on_request_frame_def split: option.split prod.split intro!: update_request_inv)

lemma control_inv: "endpoint_inv (e\<lparr>he_peer_control := control\<rparr>) \<longleftrightarrow> endpoint_inv e"
  by (simp add: endpoint_inv_def)

lemma classify_same:
  assumes "classify_uni_stream e type = (r, e')"
  shows "he_streams e' = he_streams e" "endpoint_inv e \<Longrightarrow> endpoint_inv e'"
  using assms
  by (auto simp: classify_uni_stream_def endpoint_inv_def split: if_splits prod.splits option.splits)

lemma uni_stream_inv:
  assumes "endpoint_inv e"
  shows "endpoint_inv (snd (snd (wt_http3_endpoint_on_uni_stream e stream_id bytes)))"
proof (cases "find_stream e stream_id")
  case None
  then have fresh: "stream_id \<notin> ep_stream_id ` set (he_streams e)"
    by (auto simp: find_stream_def first_slot_None)
  obtain r c where v: "wt_quic_varint_decode (cursor_of bytes) = (r, c)" by fastforce
  show ?thesis
  proof (cases r)
    case (Inr type)
    obtain k e' where k: "classify_uni_stream e type = (k, e')" by fastforce
    note s = classify_same [OF k]
    have "endpoint_inv e'" using s(2) assms .
    with None Inr v k fresh s(1) show ?thesis
      by (auto simp: wt_http3_endpoint_on_uni_stream_def Let_def endpoint_inv_def split: sum.splits)
  qed (use None v assms in \<open>simp add: wt_http3_endpoint_on_uni_stream_def\<close>)
qed (use assms in \<open>simp add: wt_http3_endpoint_on_uni_stream_def\<close>)

lemma uni_stream_end_inv:
  assumes "endpoint_inv e"
  shows "endpoint_inv (snd (wt_http3_endpoint_on_uni_stream_end e stream_id))"
  using assms forget_stream_inv
  by (auto simp: wt_http3_endpoint_on_uni_stream_end_def Let_def control_inv split: prod.split)

subsection \<open>The encoder stream of the peer\<close>

lemma view_or_length: "yields (view_or err n) (\<lambda>bs. length bs < 2 ^ 64)"
  unfolding yields_def view_or_def wt_cursor_bytes_def
  by (auto split: prod.splits option.splits if_splits dest!: cursor_take_Some(1) [rotated] simp: unat_u64_less)

lemma string_or_length: "yields (string_or err) (\<lambda>v. length (fst v) < 2 ^ 64)"
proof -
  have "yields wt_qpack_string_decode (\<lambda>v. length (fst v) < 2 ^ 64)"
    unfolding wt_qpack_string_decode_def
    by (intro yields_bind_any yields_if yields_bind [OF view_or_length]) simp_all
  then show ?thesis by (auto simp: yields_def string_or_def split: prod.splits sum.splits)
qed

lemma encoder_parse_small: "yields encoder_parse instruction_small"
proof -
  have "yields (encoder_body first) instruction_small" for first
    unfolding encoder_body_def Let_def case_prod_beta
    by (intro yields_bind_any yields_if yields_bind [OF string_or_length] yields_bind [OF view_or_length]) simp_all
  then show ?thesis unfolding encoder_parse_def by (intro yields_bind_any) simp_all
qed

lemma execute_count:
  assumes "table_good t" "instruction_small i" "unat (dt_insert_count t) < 2 ^ 64 - 1"
    and "encoder_execute m i t = (None, t')"
  shows "unat (dt_insert_count t') \<le> Suc (unat (dt_insert_count t))"
proof (cases "inserts i")
  case True
  then show ?thesis using execute_visible(2) [OF assms(1,2) True assms(3,4)] by simp
next
  case False
  then obtain capacity where "i = SET_CAPACITY capacity" by (cases i) auto
  moreover obtain es where "dyn_rel t es" using assms(1) by (auto simp: table_good_def)
  ultimately show ?thesis
    using assms(4) set_capacity_rel(3) [of t es capacity] by (auto simp: encoder_execute_def dyn_rel_def split: if_splits)
qed

text \<open>What one call of the loop does: the table moves on by its own steps.\<close>

lemma encoder_loop_steps:
  assumes "encoder_loop s c n = (r, s', n')" "qs_table s = Some t" "table_good t" "cursor_inv c"
    and "unat (dt_insert_count t) + unat (wt_cursor_remaining c) < 2 ^ 64 - 1"
  shows "\<exists>t'. qs_table s' = Some t' \<and> table_step\<^sup>*\<^sup>* t t'"
  using assms
proof (induction s c n arbitrary: t rule: encoder_loop.induct)
  case (1 s c n)
  show ?case
  proof (cases "wt_cursor_remaining c > 0")
    case pos: True
    obtain i c1 where p: "encoder_parse c = (i, c1)" by fastforce
    show ?thesis
    proof (cases i)
      case (Inl e)
      with p pos 1(2,3) show ?thesis
        by (subst (asm) encoder_loop.simps)
          (auto simp: cursor_rest_remaining wt_qpack_encoder_stream_apply_def split: prod.splits)
    next
      case (Inr i)
      obtain x t1 where x: "encoder_execute (qs_max_capacity s) i t = (x, t1)" by fastforce
      have small: "instruction_small i" using yieldsD [OF encoder_parse_small 1(5)] p Inr by simp
      have room: "unat (dt_insert_count t) < 2 ^ 64 - 1" using 1(6) by simp
      note steps = execute_step [OF 1(4) small room x]
      have a: "wt_qpack_encoder_stream_apply s c = (x, s\<lparr>qs_table := Some t1\<rparr>, c1)"
        using p Inr x 1(3) by (simp add: wt_qpack_encoder_stream_apply_def)
      show ?thesis
      proof (cases x)
        case (Some e)
        with a pos steps 1(2) show ?thesis
          by (subst (asm) encoder_loop.simps) (auto simp: cursor_rest_remaining split: prod.splits)
      next
        case None
        have less: "unat (wt_cursor_remaining c1) < unat (wt_cursor_remaining c)"
          using encoder_apply_progress a None by (simp add: word_less_nat_alt)
        have "encoder_loop (s\<lparr>qs_table := Some t1\<rparr>) c1 (n + (snd (wt_cursor_rest c) - snd (wt_cursor_rest c1))) = (r, s', n')"
          using 1(2) a pos None by (subst (asm) encoder_loop.simps) (simp add: cursor_rest_remaining)
        moreover have "cursor_inv c1"
          using reader_safeD [OF encoder_parse_safe 1(5)] p by (simp add: cursor_step_def)
        moreover have "unat (dt_insert_count t1) + unat (wt_cursor_remaining c1) < 2 ^ 64 - 1"
          using execute_count [OF 1(4) small room x [unfolded None]] less 1(6) by simp
        moreover have "table_good t1" using dyn.run_good [OF steps 1(4)] .
        ultimately obtain t' where "qs_table s' = Some t'" "table_step\<^sup>*\<^sup>* t1 t'"
          using 1(1) [OF refl _ a [unfolded None, symmetric] refl refl, of t1] pos by (auto simp: cursor_rest_remaining)
        then show ?thesis using rtranclp_trans [OF steps] by blast
      qed
    qed
  qed (use 1(2,3) in \<open>subst (asm) encoder_loop.simps, simp add: cursor_rest_remaining\<close>)
qed

lemma qpack_bytes_steps:
  assumes "wt_http3_endpoint_on_qpack_encoder_bytes e bytes = (r, n, k, e')" "endpoint_inv e" "length bytes < 2 ^ 64"
    and "unat (dt_insert_count (he_decoder_table e)) + length bytes < 2 ^ 64 - 1"
  shows "table_step\<^sup>*\<^sup>* (he_decoder_table e) (he_decoder_table e')" "endpoint_inv e'"
proof -
  let ?t = "he_decoder_table e"
  obtain f s m where l: "encoder_loop (wt_qpack_encoder_stream_init (Some ?t) (dt_capacity ?t)) (cursor_of bytes) 0 = (f, s, m)"
    by (metis prod_cases3)
  have c: "cursor_ready (cursor_of bytes)" using assms(3) by simp
  then have "unat (wt_cursor_remaining (cursor_of bytes)) = length bytes"
    using assms(3) cursor_remaining_view [of "cursor_of bytes"] by (simp add: cursor_ready_def)
  then obtain t' where t': "qs_table s = Some t'" "table_step\<^sup>*\<^sup>* ?t t'"
    using encoder_loop_steps [OF l, of ?t] assms(2,4) c
    by (auto simp: wt_qpack_encoder_stream_init_def endpoint_inv_def cursor_ready_def)
  have good: "table_good ?t" using assms(2) by (simp add: endpoint_inv_def)
  have e': "he_decoder_table e' = ?t \<and> e' = e \<or> e' = e\<lparr>he_decoder_table := t'\<rparr> \<or>
      e' = e\<lparr>he_decoder_table := t', he_decoder_insert_count := dt_insert_count t'\<rparr>"
    using assms(1) l t'(1) by (auto simp: wt_http3_endpoint_on_qpack_encoder_bytes_def Let_def split: if_splits)
  then show "table_step\<^sup>*\<^sup>* ?t (he_decoder_table e')" using t'(2) by auto
  from e' show "endpoint_inv e'"
    using assms(2) dyn.run_good [OF t'(2) good] dyn.run_count [OF t'(2) good]
    by (auto simp: endpoint_inv_def word_le_nat_alt intro: order_trans)
qed

subsection \<open>Every state an endpoint can reach\<close>

lemma request_headers_endpoint:
  "fst (snd (wt_http3_endpoint_on_request_headers e stream_id payload capacity scratch)) =
   snd (wt_http3_endpoint_on_request_frame e stream_id WT_HTTP3_FRAME_HEADERS)"
  by (simp add: wt_http3_endpoint_on_request_headers_def Let_def split: prod.split option.split sum.split)

lemma response_headers_inv:
  "endpoint_inv e \<Longrightarrow> endpoint_inv (fst (snd (wt_http3_endpoint_on_response_headers e stream_id payload capacity scratch)))"
  by (auto simp: wt_http3_endpoint_on_response_headers_def Let_def split: prod.split option.split
      intro!: update_request_inv)

lemma request_close_inv:
  assumes "endpoint_inv e"
  shows "endpoint_inv (snd (wt_http3_endpoint_on_request_end e stream_id))"
    "endpoint_inv (snd (wt_http3_endpoint_on_request_reset e stream_id))"
  using assms
  by (auto simp: wt_http3_endpoint_on_request_end_def wt_http3_endpoint_on_request_reset_def
      split: prod.split option.split intro!: forget_request_inv update_request_inv)

lemma control_frame_inv:
  assumes "endpoint_inv e"
  shows "endpoint_inv (snd (wt_http3_endpoint_on_control_frame e type))"
    "endpoint_inv (snd (wt_http3_endpoint_on_control_payload e type payload last_piece))"
  using assms
  by (simp_all add: wt_http3_endpoint_on_control_frame_def wt_http3_endpoint_on_control_payload_def control_inv
      split: prod.split)

lemma capacity_inv: "endpoint_inv e \<Longrightarrow> endpoint_inv (snd (wt_http3_endpoint_set_decoder_capacity e capacity))"
  using dyn_rel_init [of capacity]
  by (auto simp: wt_http3_endpoint_set_decoder_capacity_def endpoint_inv_def table_good_def wt_qpack_dynamic_init_def)

lemma open_request_inv:
  assumes "endpoint_inv e"
  shows "endpoint_inv (snd (wt_http3_endpoint_open_request e stream_id))"
    "endpoint_inv (snd (wt_http3_endpoint_on_request_stream e stream_id))"
  using assms track_request_inv
  by (simp_all add: wt_http3_endpoint_open_request_def wt_http3_endpoint_on_request_stream_def)

lemma write_prefix_inv: "endpoint_inv e \<Longrightarrow> endpoint_inv (fst (snd (wt_http3_endpoint_write_prefix e kind w)))"
  by (simp add: wt_http3_endpoint_write_prefix_def Let_def endpoint_inv_def
      split: wt_http3_endpoint_stream_kind.split prod.split)

lemma write_acks_inv:
  "endpoint_inv e \<Longrightarrow>
   endpoint_inv (fst (snd (wt_http3_endpoint_write_qpack_decoder_acks e stream_id acknowledge w)))"
  by (simp add: wt_http3_endpoint_write_qpack_decoder_acks_def Let_def endpoint_inv_def split: prod.split)

text \<open>One call on an endpoint, whatever it answered. A peer cannot fill the insert count, which would take
  more bytes than a stream has.\<close>

inductive endpoint_step :: "wt_http3_endpoint \<Rightarrow> wt_http3_endpoint \<Rightarrow> bool" where
  step_open_request: "endpoint_step e (snd (wt_http3_endpoint_open_request e stream_id))"
| step_request_stream: "endpoint_step e (snd (wt_http3_endpoint_on_request_stream e stream_id))"
| step_capacity: "endpoint_step e (snd (wt_http3_endpoint_set_decoder_capacity e capacity))"
| step_request_frame: "endpoint_step e (snd (wt_http3_endpoint_on_request_frame e stream_id type))"
| step_request_headers:
    "endpoint_step e (fst (snd (wt_http3_endpoint_on_request_headers e stream_id payload scratch_capacity scratch)))"
| step_response_headers:
    "endpoint_step e (fst (snd (wt_http3_endpoint_on_response_headers e stream_id payload scratch_capacity scratch)))"
| step_request_end: "endpoint_step e (snd (wt_http3_endpoint_on_request_end e stream_id))"
| step_request_reset: "endpoint_step e (snd (wt_http3_endpoint_on_request_reset e stream_id))"
| step_write_prefix: "endpoint_step e (fst (snd (wt_http3_endpoint_write_prefix e kind w)))"
| step_uni_stream: "endpoint_step e (snd (snd (wt_http3_endpoint_on_uni_stream e stream_id bytes)))"
| step_control_frame: "endpoint_step e (snd (wt_http3_endpoint_on_control_frame e type))"
| step_control_payload: "endpoint_step e (snd (wt_http3_endpoint_on_control_payload e type payload last_piece))"
| step_uni_stream_end: "endpoint_step e (snd (wt_http3_endpoint_on_uni_stream_end e stream_id))"
| step_qpack_bytes: "length bytes < 2 ^ 64 \<Longrightarrow>
    unat (dt_insert_count (he_decoder_table e)) + length bytes < 2 ^ 64 - 1 \<Longrightarrow>
    wt_http3_endpoint_on_qpack_encoder_bytes e bytes = (r, n, k, e') \<Longrightarrow> endpoint_step e e'"
| step_write_acks: "endpoint_step e (fst (snd (wt_http3_endpoint_write_qpack_decoder_acks e stream_id acknowledge w)))"

lemmas endpoint_call_inv =
  open_request_inv capacity_inv request_frame_inv response_headers_inv request_close_inv write_prefix_inv
  uni_stream_inv control_frame_inv uni_stream_end_inv write_acks_inv

lemma endpoint_step_inv: "endpoint_step e e' \<Longrightarrow> endpoint_inv e \<Longrightarrow> endpoint_inv e'"
  by (induction rule: endpoint_step.induct)
    (simp_all only: endpoint_call_inv request_headers_endpoint qpack_bytes_steps(2))

lemma endpoint_inv_init: "endpoint_inv (wt_http3_endpoint_init role acked)"
  using dyn_rel_init [of 0]
  by (auto simp: endpoint_inv_def wt_http3_endpoint_init_def table_good_def wt_qpack_dynamic_init_def)

lemma endpoint_reach_inv:
  "endpoint_step\<^sup>*\<^sup>* (wt_http3_endpoint_init role acked) e \<Longrightarrow> endpoint_inv e"
  by (induction rule: rtranclp_induct) (auto intro: endpoint_inv_init endpoint_step_inv)

subsection \<open>The header sections\<close>

lemma message_loop_type:
  "message_loop capacity d scratch m = (Inr m', scratch') \<Longrightarrow> hm_type m' = hm_type m"
proof (induction capacity d scratch m rule: message_loop.induct)
  case (1 capacity d scratch m)
  have "hm_type m1 = hm_type m" if "message_accept name val p m = Inr m1" for name val p m1
    using that by (auto simp: message_accept_def message_remember_def split: prod.splits option.splits if_splits)
  note accept = this
  obtain r d1 s1 where n: "wt_qpack_field_section_decoder_next capacity d scratch = (r, d1, s1)" by (metis prod_cases3)
  show ?case
  proof (cases r)
    case (Inl e)
    with 1(2) n show ?thesis by (subst (asm) message_loop.simps) (simp split: option.splits)
  next
    case (Inr field)
    let ?a = "message_accept (fv_read (sd_table d) s1 (rf_name field)) (fv_read (sd_table d) s1 (rf_value field)) (rf_value field) m"
    from 1(2) n Inr obtain m1 where m1: "?a = Inr m1" "message_loop capacity d1 s1 m1 = (Inr m', scratch')"
      by (subst (asm) message_loop.simps) (simp split: sum.splits)
    from 1(1) [OF n [unfolded Inr, symmetric] refl refl m1] accept [OF m1(1)] show ?thesis by simp
  qed
qed

lemma message_decode_method:
  assumes "wt_http3_message_decode WT_HTTP3_HEADER_REQUEST payload table max_entries known capacity scratch = (Inr m, scratch')"
  shows "value_of (fv_read table scratch') (hm_method m) \<noteq> []"
proof -
  from assms obtain d where "message_loop capacity d scratch (message_init WT_HTTP3_HEADER_REQUEST) = (Inr m, scratch')"
    and c: "message_content (fv_read table scratch') m = None"
    by (auto simp: wt_http3_message_decode_def split: sum.splits prod.splits option.splits)
  from message_loop_type [OF this(1)] c show ?thesis
    by (auto simp: message_content_def message_init_def split: if_splits)
qed

lemma request_before_found:
  assumes "distinct (map er_stream_id (he_requests e))" "find_request e stream_id = Some i"
  shows "request_before e stream_id = rq_state (er_request (he_requests e ! i))"
proof -
  note i = find_request_Some [OF assms(2)]
  then have "he_requests e ! i \<in> set (rev (he_requests e))" by simp
  then obtain r where r: "find (\<lambda>r. er_stream_id r = stream_id) (rev (he_requests e)) = Some r"
    using i by (cases "find (\<lambda>r. er_stream_id r = stream_id) (rev (he_requests e))") (auto simp: find_None_iff dest: nth_mem)
  then have "r \<in> set (he_requests e)" "er_stream_id r = stream_id" 
    by (auto simp: find_Some_iff rev_nth intro!: nth_mem)
  with i assms(1) have "r = he_requests e ! i" by (auto simp: distinct_map inj_on_def)
  with r show ?thesis by (simp add: request_before_def)
qed

fun execute_all ::
  "u64 \<Rightarrow> encoder_instruction list \<Rightarrow> wt_qpack_dynamic_table \<Rightarrow> qpack_fail option \<times> wt_qpack_dynamic_table" where
  "execute_all m [] t = (None, t)"
| "execute_all m (i # is) t =
     (case encoder_execute m i t of (Some e, t') \<Rightarrow> (Some e, t') | (None, t') \<Rightarrow> execute_all m is t')"

lemma instruction_bytes_nonempty: "instruction_bytes i \<noteq> []"
proof -
  have "integer_bytes n flags v \<noteq> []" for n flags v
    by (rule integer_bytes_first [of n flags v]) simp
  then show ?thesis by (cases i) simp_all
qed

lemma remaining_view: "cursor_ready c \<Longrightarrow> wt_cursor_remaining c = of_nat (length (cursor_view c))"
  using cursor_remaining_view [of c] of_nat_unat [of "wt_cursor_remaining c", where ?'a = "64 word"]
  by (simp add: cursor_ready_def)

lemma encoder_loop_executes:
  assumes "\<forall>i \<in> set is. instruction_ok i" "cursor_ready c" "cursor_view c = concat (map instruction_bytes is)"
    and "qs_table s = Some t" "execute_all (qs_max_capacity s) is t = (None, t')"
  shows "encoder_loop s c n = (False, s\<lparr>qs_table := Some t'\<rparr>, n + of_nat (length (cursor_view c)))"
  using assms
proof (induction "is" arbitrary: s c n t)
  case Nil
  then show ?case by (subst encoder_loop.simps) (simp add: cursor_rest_remaining remaining_view)
next
  case (Cons i "is")
  let ?c = "cursor_advance c (length (instruction_bytes i))"
  have v: "cursor_view c = instruction_bytes i @ concat (map instruction_bytes is)" using Cons.prems(3) by simp
  have p: "encoder_parse c = (Inr i, ?c)"
    using readsD [OF reads_instruction Cons.prems(2) v] Cons.prems(1) by simp
  obtain t1 where t1: "encoder_execute (qs_max_capacity s) i t = (None, t1)" "execute_all (qs_max_capacity s) is t1 = (None, t')"
    using Cons.prems(5) by (auto split: prod.splits option.splits)
  have c: "cursor_ready ?c" "cursor_view ?c = concat (map instruction_bytes is)"
    using cursor_read_past [OF Cons.prems(2) v] by simp_all
  have a: "wt_qpack_encoder_stream_apply s c = (None, s\<lparr>qs_table := Some t1\<rparr>, ?c)"
    using p t1(1) Cons.prems(4) by (simp add: wt_qpack_encoder_stream_apply_def)
  have pos: "wt_cursor_remaining c > 0"
    using cursor_remaining_view [of c] Cons.prems(2) v instruction_bytes_nonempty [of i]
    by (simp add: cursor_ready_def word_less_nat_alt)
  have "encoder_loop s c n = encoder_loop (s\<lparr>qs_table := Some t1\<rparr>) ?c (n + (wt_cursor_remaining c - wt_cursor_remaining ?c))"
    using a pos by (subst encoder_loop.simps) (simp add: cursor_rest_remaining)
  also have "n + (wt_cursor_remaining c - wt_cursor_remaining ?c) = n + of_nat (length (instruction_bytes i))"
    using remaining_advance [OF Cons.prems(2)] v by simp
  finally show ?case
    using Cons.IH [OF _ c, of "s\<lparr>qs_table := Some t1\<rparr>" t1] Cons.prems(1) t1(2) c(2) v by (simp add: add.assoc)
qed

subsection \<open>Properties of an endpoint\<close>

text \<open>C24: An endpoint stays within its bounds. In every state reached from initialisation by calls on the
  endpoint, whatever the peer sent and whether or not the calls succeeded, at most 32 streams and 8
  requests are tracked, each stream once, the decoder's dynamic table is well formed, and neither more
  insertions are known than the table has seen nor more acknowledged than known. Calls that would bring
  the number of insertions to 2^64, where the counter of the program wraps, are left out.\<close>

theorem wt_http3_endpoint_reachable_bounded:
  assumes "endpoint_step\<^sup>*\<^sup>* (wt_http3_endpoint_init role acked) e"
  shows "endpoint_inv e"
  using assms by (rule endpoint_reach_inv)

text \<open>A server that has heard one request open.\<close>

definition sample_endpoint :: wt_http3_endpoint where
  "sample_endpoint = snd (wt_http3_endpoint_on_request_stream (wt_http3_endpoint_init WT_HTTP3_ROLE_SERVER 0) 4)"

lemma sample_endpoint_reached: "endpoint_step\<^sup>*\<^sup>* (wt_http3_endpoint_init WT_HTTP3_ROLE_SERVER 0) sample_endpoint"
  unfolding sample_endpoint_def by (rule r_into_rtranclp) (rule step_request_stream)

lemma sample_endpoint_simps:
  "he_requests sample_endpoint =
     [\<lparr>er_stream_id = 4, er_locally_opened = False, er_response_seen = False, er_request = wt_http3_request_init\<rparr>]"
  "he_decoder_table sample_endpoint = wt_qpack_dynamic_init 0" "he_decoder_insert_count sample_endpoint = 0"
  by (simp_all add: sample_endpoint_def wt_http3_endpoint_on_request_stream_def track_request_def find_request_def
      wt_http3_endpoint_init_def WT_HTTP3_ENDPOINT_REQUESTS_MAX_def)

theorem wt_http3_endpoint_reachable_bounded_witness: "endpoint_inv sample_endpoint"
  by (rule wt_http3_endpoint_reachable_bounded [OF sample_endpoint_reached])

text \<open>C28: A request with trailers is never accepted. The second HEADERS frame of a request is decoded
  under the rules for requests, which demand \<open>:method\<close>, and is then refused for every pseudo-header it
  has: whatever the trailer section says, and although the ordering machine admits the frame, the call
  fails.\<close>

theorem wt_http3_endpoint_trailers_refused:
  assumes "endpoint_step\<^sup>*\<^sup>* (wt_http3_endpoint_init role acked) e"
    and "wt_http3_endpoint_request_state e stream_id = Inr WT_HTTP3_REQUEST_BODY"
  shows "\<exists>f. fst (wt_http3_endpoint_on_request_headers e stream_id payload capacity scratch) = Inl f"
proof -
  have d: "distinct (map er_stream_id (he_requests e))"
    using endpoint_reach_inv [OF assms(1)] by (simp add: endpoint_inv_def)
  obtain i where i: "find_request e stream_id = Some i" "rq_state (er_request (he_requests e ! i)) = WT_HTTP3_REQUEST_BODY"
    using assms(2) by (auto simp: wt_http3_endpoint_request_state_def split: option.splits)
  then have before: "request_before e stream_id = WT_HTTP3_REQUEST_BODY" using request_before_found [OF d i(1)] by simp
  show ?thesis
    using message_decode_method
    by (fastforce simp: wt_http3_endpoint_on_request_headers_def before Let_def endpoint_decode_def
        split: prod.splits option.splits sum.splits)
qed

theorem wt_http3_endpoint_trailers_refused_witness:
  "\<exists>e f. wt_http3_endpoint_on_request_frame sample_endpoint 4 WT_HTTP3_FRAME_HEADERS = (None, e) \<and>
     wt_http3_endpoint_request_state e 4 = Inr WT_HTTP3_REQUEST_BODY \<and>
     fst (wt_http3_endpoint_on_request_headers e 4 [0, 0] 0 []) = Inl f"
proof -
  let ?e = "snd (wt_http3_endpoint_on_request_frame sample_endpoint 4 WT_HTTP3_FRAME_HEADERS)"
  have ok: "fst (wt_http3_endpoint_on_request_frame sample_endpoint 4 WT_HTTP3_FRAME_HEADERS) = None"
    "wt_http3_endpoint_request_state ?e 4 = Inr WT_HTTP3_REQUEST_BODY"
    by (simp_all add: wt_http3_endpoint_on_request_frame_def find_request_def sample_endpoint_simps update_request_def
        wt_http3_request_on_frame_def wt_http3_request_init_def wt_http3_endpoint_request_state_def)
  have "endpoint_step\<^sup>*\<^sup>* (wt_http3_endpoint_init WT_HTTP3_ROLE_SERVER 0) ?e"
    by (rule rtranclp.rtrancl_into_rtrancl [OF sample_endpoint_reached]) (rule step_request_frame)
  from wt_http3_endpoint_trailers_refused [OF this ok(2), of "[0, 0]" 0 "[]"] ok show ?thesis
    by (metis prod.collapse)
qed

text \<open>C26: The decoder follows the peer's encoder. Given the bytes of any sequence of instructions that the
  peer's writers produced and that its table accepts one after the other, the endpoint consumes every
  byte, its table becomes exactly the table those instructions build, and it reports that table's
  insert count.\<close>

theorem wt_http3_endpoint_encoder_bytes_followed:
  assumes "he_peer_qpack_encoder_seen e" "he_decoder_capacity_set e"
    and "\<forall>i \<in> set is. instruction_ok i" "length (concat (map instruction_bytes is)) < 2 ^ 64"
    and "execute_all (dt_capacity (he_decoder_table e)) is (he_decoder_table e) = (None, t)"
  shows "wt_http3_endpoint_on_qpack_encoder_bytes e (concat (map instruction_bytes is)) =
    (None, of_nat (length (concat (map instruction_bytes is))), dt_insert_count t,
     e\<lparr>he_decoder_table := t, he_decoder_insert_count := dt_insert_count t\<rparr>)"
  using encoder_loop_executes [OF assms(3), of "cursor_of (concat (map instruction_bytes is))"
      "wt_qpack_encoder_stream_init (Some (he_decoder_table e)) (dt_capacity (he_decoder_table e))"
      "he_decoder_table e" t 0] assms
  by (simp add: wt_http3_endpoint_on_qpack_encoder_bytes_def wt_qpack_encoder_stream_init_def Let_def)

theorem wt_http3_endpoint_encoder_bytes_followed_witness:
  "\<exists>e. wt_http3_endpoint_on_qpack_encoder_bytes
         (sample_endpoint\<lparr>he_peer_qpack_encoder_seen := True, he_decoder_capacity_set := True\<rparr>) [0x20] = (None, 1, 0, e)"
proof -
  let ?e = "sample_endpoint\<lparr>he_peer_qpack_encoder_seen := True, he_decoder_capacity_set := True\<rparr>"
  let ?t = "wt_qpack_dynamic_set_capacity (wt_qpack_dynamic_init 0) 0"
  have b: "concat (map instruction_bytes [SET_CAPACITY 0]) = [0x20]" by (simp add: integer_bytes_def)
  have x: "execute_all (dt_capacity (he_decoder_table ?e)) [SET_CAPACITY 0] (he_decoder_table ?e) = (None, ?t)"
    by (simp add: sample_endpoint_simps encoder_execute_def)
  have "dt_insert_count ?t = 0"
    using set_capacity_rel(3) [of "wt_qpack_dynamic_init 0" "[]" 0] dyn_rel_init [of 0]
    by (simp add: dyn_rel_def wt_qpack_dynamic_init_def)
  with wt_http3_endpoint_encoder_bytes_followed [OF _ _ _ _ x] b show ?thesis by simp
qed

lemma encode_accepted: "fst (wt_qpack_integer_encode n flags v w) = WT_OK \<Longrightarrow> v \<le> WT_QPACK_INTEGER_MAX"
  by (auto simp: wt_qpack_integer_encode_def split: if_splits)

text \<open>The bytes of a call that has insertions to report.\<close>

lemma acks_written:
  fixes e :: wt_http3_endpoint and acknowledge :: bool and stream_id :: u64
  defines "i \<equiv> he_decoder_insert_count e - he_decoder_acked_insert_count e"
  defines "bytes \<equiv> integer_bytes 6 0 i @ (if acknowledge then integer_bytes 7 0x80 stream_id else [])"
  assumes "he_decoder_capacity_set e" "he_decoder_acked_insert_count e < he_decoder_insert_count e" "unat cap \<le> length d"
    and "wt_http3_endpoint_write_qpack_decoder_acks e stream_id acknowledge (wt_writer_init (Some d) cap) = (WT_OK, e', w)"
  shows "e' = e\<lparr>he_decoder_acked_insert_count := he_decoder_insert_count e\<rparr>" "writer_out w = bytes" "length bytes < 2 ^ 64"
    "i \<le> WT_QPACK_INTEGER_MAX" "acknowledge \<longrightarrow> stream_id \<le> WT_QPACK_INTEGER_MAX"
proof -
  let ?w = "wt_writer_init (Some d) cap" and ?f = "wt_qpack_integer_encode 6 0 i" and ?g = "wt_qpack_integer_encode 7 0x80 stream_id"
  have nz: "i \<noteq> 0" using assms(4) by (auto simp: i_def)
  have e: "e' = e\<lparr>he_decoder_acked_insert_count := he_decoder_insert_count e\<rparr>"
    and run: "(if acknowledge then wseq ?f ?g ?w else ?f ?w) = (WT_OK, w)" and f: "fst (?f ?w) = WT_OK"
    using assms(3,4,6) nz by (auto simp: wt_http3_endpoint_write_qpack_decoder_acks_def Let_def wseq_def i_def
        wt_qpack_decoder_stream_write_insert_count_increment_def
        wt_qpack_decoder_stream_write_section_acknowledgement_def split: prod.splits if_splits)
  show i: "i \<le> WT_QPACK_INTEGER_MAX" using encode_accepted [OF f] .
  have s: "stream_id \<le> WT_QPACK_INTEGER_MAX" if acknowledge
  proof -
    have "fst (?g (snd (?f ?w))) = WT_OK" using run that f by (simp add: wseq_def split: prod.splits)
    then show ?thesis by (rule encode_accepted)
  qed
  then show "acknowledge \<longrightarrow> stream_id \<le> WT_QPACK_INTEGER_MAX" by blast
  note inc = appends_integer [OF decoder_prefix_ok(3) i]
  have app: "appends (if acknowledge then wseq ?f ?g else ?f) bytes"
    using inc appends_wseq [OF inc appends_integer [OF decoder_prefix_ok(1) s]] by (simp add: bytes_def)
  have "(if acknowledge then wseq ?f ?g else ?f) ?w = (WT_OK, w)" using run by (simp split: if_splits)
  with appends_init [OF app assms(5)] unat_u64_less [of cap]
  show "writer_out w = bytes" "length bytes < 2 ^ 64" by (simp_all split: if_splits)
  show "e' = e\<lparr>he_decoder_acked_insert_count := he_decoder_insert_count e\<rparr>" by (rule e)
qed

text \<open>C27: Acknowledgements bring the peer's encoder up to date, once. What the endpoint writes on its decoder
  stream when it has processed insertions it has not yet reported is read to its last byte by a peer that
  has recorded the earlier reports and whose table has made those insertions: the peer's acknowledged insert
  count becomes the number of insertions this endpoint has processed, and if a section was to be
  acknowledged, one more section is. The endpoint then has nothing left to report: a further call writes
  no byte.\<close>

theorem wt_http3_endpoint_acks_delivered:
  fixes e :: wt_http3_endpoint
  assumes "he_decoder_capacity_set e" "he_decoder_acked_insert_count e < he_decoder_insert_count e"
    and "he_decoder_insert_count e \<le> dt_insert_count table"
    and "ds_acknowledged_insert_count peer = he_decoder_acked_insert_count e" "unat cap \<le> length d"
    and "wt_http3_endpoint_write_qpack_decoder_acks e stream_id acknowledge (wt_writer_init (Some d) cap) = (WT_OK, e', w)"
  defines "peer' \<equiv> peer\<lparr>ds_acknowledged_insert_count := he_decoder_insert_count e\<rparr>"
  shows "\<exists>c. wt_qpack_decoder_stream_apply peer (Some table) (cursor_of (writer_out w)) = (Inr peer', c) \<and>
    (if acknowledge
     then \<exists>c'. wt_qpack_decoder_stream_apply peer' (Some table) c =
            (Inr (peer'\<lparr>ds_sections_acknowledged := ds_sections_acknowledged peer + 1\<rparr>), c') \<and> wt_cursor_at_end c'
     else wt_cursor_at_end c) \<and>
    wt_http3_endpoint_write_qpack_decoder_acks e' later False w' = (WT_OK, e', w')"
proof -
  let ?i = "he_decoder_insert_count e - he_decoder_acked_insert_count e"
  let ?a = "integer_bytes 6 0 ?i" and ?b = "if acknowledge then integer_bytes 7 0x80 stream_id else []"
  let ?c = "cursor_of (?a @ ?b)" and ?c1 = "cursor_advance (cursor_of (?a @ ?b)) (length ?a)"
  note out = acks_written [OF assms(1,2,5,6)]
  have u: "unat ?i = unat (he_decoder_insert_count e) - unat (he_decoder_acked_insert_count e)"
    "unat (he_decoder_acked_insert_count e) < unat (he_decoder_insert_count e)"
    using assms(2) by (simp_all add: unat_sub_le word_less_nat_alt word_le_nat_alt)
  have "unat ((- 1) - ?i) = 2 ^ 64 - 1 - unat ?i"
    by (subst unat_sub_le) (simp_all add: unsigned_minus_1_eq_mask mask_eq_exp_minus_1)
  then have "\<not> increment_refused (ds_acknowledged_insert_count peer) (Some table) ?i"
    using u unat_u64_less [of "he_decoder_insert_count e"] assms(2-4)
    by (auto simp: increment_refused_def not_less word_le_nat_alt)
  from reads_of [OF reads_decoder_instruction(3) [OF out(4) this], of ?b] out(2,3) assms(4)
  have first: "wt_qpack_decoder_stream_apply peer (Some table) (cursor_of (writer_out w)) = (Inr peer', ?c1)"
    by (simp add: peer'_def)
  have c1: "cursor_ready ?c1" "cursor_view ?c1 = ?b @ []"
    using cursor_read_past [of ?c ?a ?b] out(3) by simp_all
  have rest: "if acknowledge then \<exists>c'. wt_qpack_decoder_stream_apply peer' (Some table) ?c1 =
        (Inr (peer'\<lparr>ds_sections_acknowledged := ds_sections_acknowledged peer + 1\<rparr>), c') \<and> wt_cursor_at_end c'
      else wt_cursor_at_end ?c1"
  proof (cases acknowledge)
    case True
    then have b: "cursor_view ?c1 = integer_bytes 7 0x80 stream_id @ []" using c1(2) by simp
    have "wt_cursor_at_end (cursor_advance ?c1 (length (integer_bytes 7 0x80 stream_id)))"
      using cursor_read_past [OF c1(1) b] by (intro cursor_view_empty) simp_all
    with readsD [OF reads_decoder_instruction(1) c1(1) b, of peer' "Some table"] out(5) True show ?thesis
      by (simp add: peer'_def)
  next
    case False
    then show ?thesis using c1 cursor_view_empty [of ?c1] by simp
  qed
  have "wt_http3_endpoint_write_qpack_decoder_acks e' later False w' = (WT_OK, e', w')"
    using assms(1) out(1) by (simp add: wt_http3_endpoint_write_qpack_decoder_acks_def)
  with first rest show ?thesis by blast
qed

lemma message_bytes_read:
  "map_message (fv_read table scratch) ((map_message fv_bytes m)\<lparr>hm_validation := v\<rparr>) = m\<lparr>hm_validation := v\<rparr>"
  by (simp add: map_message_def option.map_comp o_def option.map_ident)

text \<open>C25: Requests arrive whole. The HEADERS frame an endpoint writes for a request is, at the endpoint
  that receives it on a request stream it is tracking, a frame whose payload is accepted and decoded to
  the same pseudo-headers.\<close>

theorem wt_http3_endpoint_request_delivered:
  assumes "message_sendable m" "hm_type m = WT_HTTP3_HEADER_REQUEST"
    and "max_entries = wt_qpack_max_entries (dt_capacity (he_decoder_table e))"
    and "2 * unat max_entries < 2 ^ 62" "unat (he_decoder_insert_count e) + 3 * unat max_entries < 2 ^ 64"
    and "endpoint_step\<^sup>*\<^sup>* (wt_http3_endpoint_init role acked) e"
    and "find_request e stream_id = Some i" "er_request (he_requests e ! i) = wt_http3_request_init"
    and "unat scratch_cap \<le> length scratch" "unat cap \<le> length d"
    and "wt_http3_endpoint_write_headers m max_entries scratch scratch_cap (wt_writer_init (Some d) cap) = ((WT_OK, err), w)"
  shows "\<exists>payload m' e' v. fst (wt_http3_frame_decode (cursor_of (writer_out w))) =
      Inr \<lparr>hf_type = WT_HTTP3_FRAME_HEADERS, hf_payload = payload\<rparr> \<and>
    wt_http3_endpoint_on_request_headers e stream_id payload capacity buffer = (Inr m', e', buffer) \<and>
    map_message (fv_read (Some (he_decoder_table e')) buffer) m' = m\<lparr>hm_validation := v\<rparr>"
proof -
  obtain err1 sect where enc:
    "wt_http3_message_encode m max_entries (wt_writer_init (Some scratch) scratch_cap) = ((WT_OK, err1), sect)"
    and ok: "wt_writer_ok sect"
    and fr: "fst (wt_http3_frame_encode \<lparr>hf_type = WT_HTTP3_FRAME_HEADERS, hf_payload = writer_out sect\<rparr> (wt_writer_init (Some d) cap)) = WT_OK"
      "snd (wt_http3_frame_encode \<lparr>hf_type = WT_HTTP3_FRAME_HEADERS, hf_payload = writer_out sect\<rparr> (wt_writer_init (Some d) cap)) = w"
    using assms(11) by (auto simp: wt_http3_endpoint_write_headers_def wt_http3_frame_make_def split: prod.splits if_splits)
  let ?p = "writer_out sect"
  let ?f = "\<lparr>hf_type = WT_HTTP3_FRAME_HEADERS, hf_payload = ?p\<rparr>"
  have len: "length ?p < 2 ^ 64" using unat_u64_less [of "wr_offset sect"] by (simp add: writer_out_def)
  have "http3_frame_valid ?f"
    using fr(1) len by (auto simp: wt_http3_frame_encode_def http3_frame_valid_def bytes_valid_def varint_valid_def
        http3_types WT_QUIC_VARINT_MAX_def word_less_nat_alt word_le_nat_alt not_less unat_of_nat_u64 split: if_splits)
  moreover have "wt_writer_ok (snd (wt_http3_frame_encode ?f (wt_writer_init (Some d) cap)))"
    using fr(1) writes_http3_frame(2) [OF calculation, of "wt_writer_init (Some d) cap"]
    by (simp add: writer_status_def split: if_splits)
  ultimately have frame: "fst (wt_http3_frame_decode (cursor_of (writer_out w))) = Inr ?f"
    using http3_frame.round_trip [of ?f cap d] assms(10) fr(2) by simp
  have "request_before e stream_id = WT_HTTP3_REQUEST_EXPECT_HEADERS"
    using request_before_found [OF _ assms(7)] endpoint_reach_inv [OF assms(6)] assms(8)
    by (simp add: endpoint_inv_def wt_http3_request_init_def)
  moreover obtain e' where "wt_http3_endpoint_on_request_frame e stream_id WT_HTTP3_FRAME_HEADERS = (None, e')"
    "he_decoder_table e' = he_decoder_table e" "he_decoder_insert_count e' = he_decoder_insert_count e"
    using assms(7,8) by (simp add: wt_http3_endpoint_on_request_frame_def wt_http3_request_on_frame_def
        wt_http3_request_init_def update_request_def)
  moreover obtain v where "wt_http3_message_decode WT_HTTP3_HEADER_REQUEST ?p (Some (he_decoder_table e)) max_entries
      (he_decoder_insert_count e) capacity buffer = (Inr ((map_message fv_bytes m)\<lparr>hm_validation := v\<rparr>), buffer)"
    using message_decode_encoded [OF assms(1,4,5,9) enc len, of "Some (he_decoder_table e)" capacity buffer] assms(2) by auto
  ultimately have "wt_http3_endpoint_on_request_headers e stream_id ?p capacity buffer =
      (Inr ((map_message fv_bytes m)\<lparr>hm_validation := v\<rparr>), e', buffer)"
    using assms(3) by (simp add: wt_http3_endpoint_on_request_headers_def endpoint_decode_def Let_def)
  with frame message_bytes_read show ?thesis by blast
qed

text \<open>A request for \<open>/\<close>, and an endpoint with one insertion to acknowledge.\<close>

definition sample_request :: "u8 list http3_message" where
  "sample_request = (message_init WT_HTTP3_HEADER_REQUEST)\<lparr>hm_method := Some (ascii ''GET''),
     hm_scheme := Some (ascii ''https''), hm_path := Some (ascii ''/''), hm_authority := Some (ascii ''a'')\<rparr>"

definition sample_inserted :: wt_http3_endpoint where
  "sample_inserted = sample_endpoint\<lparr>he_decoder_capacity_set := True, he_decoder_insert_count := 1,
     he_decoder_acked_insert_count := 0\<rparr>"

theorem wt_http3_endpoint_acks_delivered_witness:
  "\<exists>e w. wt_http3_endpoint_write_qpack_decoder_acks sample_inserted 4 False (wt_writer_init (Some [0]) 1) = (WT_OK, e, w) \<and>
     fst (wt_qpack_decoder_stream_apply wt_qpack_decoder_stream_init (Some ((wt_qpack_dynamic_init 0)\<lparr>dt_insert_count := 1\<rparr>))
       (cursor_of (writer_out w))) = Inr (wt_qpack_decoder_stream_init\<lparr>ds_acknowledged_insert_count := 1\<rparr>)"
proof -
  let ?t = "(wt_qpack_dynamic_init 0)\<lparr>dt_insert_count := 1\<rparr>"
  have "fst (wt_qpack_integer_encode 6 0 1 (wt_writer_init (Some [0]) 1)) = WT_OK"
    using appends_init(1) [OF appends_integer [OF decoder_prefix_ok(3), of 1], of 1 "[0]"]
    by (simp add: integer_bytes_def WT_QUIC_VARINT_MAX_def)
  then obtain w where w: "wt_qpack_integer_encode 6 0 1 (wt_writer_init (Some [0]) 1) = (WT_OK, w)"
    by (metis prod.collapse)
  obtain e where e: "wt_http3_endpoint_write_qpack_decoder_acks sample_inserted 4 False (wt_writer_init (Some [0]) 1) = (WT_OK, e, w)"
    using w by (simp add: wt_http3_endpoint_write_qpack_decoder_acks_def sample_inserted_def
        wt_qpack_decoder_stream_write_insert_count_increment_def Let_def)
  from wt_http3_endpoint_acks_delivered [OF _ _ _ _ _ e, of ?t wt_qpack_decoder_stream_init 0 w]
  have "fst (wt_qpack_decoder_stream_apply wt_qpack_decoder_stream_init (Some ?t) (cursor_of (writer_out w))) =
     Inr (wt_qpack_decoder_stream_init\<lparr>ds_acknowledged_insert_count := 1\<rparr>)"
    by (auto simp: sample_inserted_def wt_qpack_decoder_stream_init_def)
  with e show ?thesis by blast
qed

abbreviation sample_lines :: "wt_qpack_field_line list" where
  "sample_lines \<equiv> [set_line '':method'' (ascii ''GET''), set_line '':scheme'' (ascii ''https''),
     set_line '':authority'' (ascii ''a''), set_line '':path'' (ascii ''/'')]"

lemma sample_request_lines: "message_lines sample_request = Inr sample_lines"
  by (simp add: sample_request_def message_lines_def message_init_def add_pseudo_def)

lemma sample_request_sendable: "message_sendable sample_request"
proof -
  have fs: "message_fields sample_request = [(ascii '':method'', ascii ''GET''), (ascii '':scheme'', ascii ''https''),
     (ascii '':authority'', ascii ''a''), (ascii '':path'', ascii ''/'')]"
    by (simp add: message_fields_def sample_request_lines line_pair_def set_line_def)
  have run: "header_section WT_HTTP3_HEADER_REQUEST (message_fields sample_request) = None"
    unfolding fs by (simp add: header_section_def wt_http3_header_validation_init_def wt_http3_header_validate_def pseudo_bit_def
        wt_http3_header_finish_def pseudo_bits ascii_def)
  have simps: "hm_type sample_request = WT_HTTP3_HEADER_REQUEST" "hm_method sample_request = Some (ascii ''GET'')"
    "hm_status sample_request = 0" "\<not> hm_has_status sample_request"
    by (simp_all add: sample_request_def message_init_def)
  have short: "\<forall>f \<in> set (message_fields sample_request). length (snd f) < 2 ^ 62"
    unfolding fs by (simp add: ascii_def)
  have "message_content id sample_request = None"
    by (simp add: sample_request_def message_init_def message_content_def value_of_def) (simp add: ascii_def)
  with run simps short show ?thesis unfolding message_sendable_def by simp
qed

lemma sample_request_written:
  "\<exists>err w. wt_http3_endpoint_write_headers sample_request 0 (replicate 80 0) 80 (wt_writer_init (Some (replicate 90 0)) 90) =
     ((WT_OK, err), w)"
proof -
  let ?p = "\<lparr>hp_required_insert_count = 0, hp_base = 0\<rparr>" and ?s = "wt_writer_init (Some (replicate 80 0)) 80"
  have ok: "\<forall>l \<in> set sample_lines. line_ok l \<and> scratch_fits l 1"
    using message_encode_lines [OF sample_request_sendable, of 0] sample_request_lines by auto
  have pre: "prefix_sendable (hp_required_insert_count ?p) (hp_base ?p) 0" by (simp add: prefix_sendable_def)
  note app = appends_section [OF pre ok]
  note enc = appends_init [OF app, of 80 "replicate 80 0"]
  have len: "length (section_bytes ?p 0 sample_lines) = 52"
    by (simp add: section_bytes_def prefix_bytes_def line_bytes_def set_line_def wire_bytes_def integer_bytes_def
        tail_bytes.simps ascii_def)
  let ?w = "snd (wt_qpack_field_section_encode ?p 0 sample_lines 1 ?s)"
  have w: "wt_http3_message_encode sample_request 0 ?s = ((WT_OK, WT_HTTP3_NO_ERROR), ?w)"
    using enc(1) len by (simp add: wt_http3_message_encode_def sample_request_lines case_prod_beta)
  have good: "wt_writer_ok ?w"
    using writes_init(1) [OF conjunct1 [OF app [unfolded appends_def]], of 80 "replicate 80 0"] len by simp
  let ?f = "\<lparr>hf_type = WT_HTTP3_FRAME_HEADERS, hf_payload = section_bytes ?p 0 sample_lines\<rparr>"
  have v: "http3_frame_valid ?f" using len by (simp add: http3_frame_valid_def bytes_valid_def varint_valid_def http3_types WT_QUIC_VARINT_MAX_def)
  have "length (http3_frame_bytes ?f) \<le> 90"
    using len by (simp add: http3_frame_bytes_def http3_types varint_bytes_def wt_quic_varint_encode_def wt_quic_varint_size_def)
  then have "fst (wt_http3_frame_encode ?f (wt_writer_init (Some (replicate 90 0)) 90)) = WT_OK"
    using writes_init(1) [OF writes_http3_frame(1) [OF v], of 90 "replicate 90 0"]
      writes_http3_frame(2) [OF v, of "wt_writer_init (Some (replicate 90 0)) 90"] by (simp add: writer_status_def)
  with w good enc(2) len show ?thesis
    by (simp add: wt_http3_endpoint_write_headers_def wt_http3_frame_make_def case_prod_beta)
qed

theorem wt_http3_endpoint_request_delivered_witness:
  "\<exists>err w payload m' e' v.
    wt_http3_endpoint_write_headers sample_request 0 (replicate 80 0) 80 (wt_writer_init (Some (replicate 90 0)) 90) =
      ((WT_OK, err), w) \<and>
    wt_http3_endpoint_on_request_headers sample_endpoint 4 payload 0 [] = (Inr m', e', []) \<and>
    map_message (fv_read (Some (he_decoder_table e')) []) m' = sample_request\<lparr>hm_validation := v\<rparr>"
proof -
  obtain err w where w: "wt_http3_endpoint_write_headers sample_request 0 (replicate 80 0) 80
      (wt_writer_init (Some (replicate 90 0)) 90) = ((WT_OK, err), w)" using sample_request_written by blast
  have f: "find_request sample_endpoint 4 = Some 0" "er_request (he_requests sample_endpoint ! 0) = wt_http3_request_init"
    by (simp_all add: find_request_def sample_endpoint_simps)
  have t: "hm_type sample_request = WT_HTTP3_HEADER_REQUEST" by (simp add: sample_request_def message_init_def)
  have m: "0 = wt_qpack_max_entries (dt_capacity (he_decoder_table sample_endpoint))"
    by (simp add: sample_endpoint_simps wt_qpack_max_entries_def wt_qpack_dynamic_init_def)
  from wt_http3_endpoint_request_delivered [OF sample_request_sendable t m _ _ sample_endpoint_reached f _ _ w, of 0 "[]"] w
  show ?thesis by (auto simp: sample_endpoint_simps)
qed

end
