(* ===== verification/Quic_Close.thy ===== *)
theory Quic_Close
  imports Quic_Frame
begin

text \<open>
  How a connection closes (\<open>C99/src/quic/close.c\<close>): the close state with its draining deadline, the
  CONNECTION_CLOSE frame it gives rise to, and the frames a closed endpoint still looks at. The reason
  phrase is the bytes it points at. Arithmetic on the clock wraps as in C.
\<close>

definition WT_QUIC_DRAINING_PERIOD_PTO_MULTIPLIER :: u64 where
  "WT_QUIC_DRAINING_PERIOD_PTO_MULTIPLIER = 3"

datatype wt_quic_close_kind = WT_QUIC_CLOSE_NONE | WT_QUIC_CLOSE_TRANSPORT | WT_QUIC_CLOSE_APPLICATION

record wt_quic_close_state =
  cl_kind :: wt_quic_close_kind
  cl_error_code :: u64
  cl_frame_type :: u64
  cl_reason :: "u8 list"
  cl_closed_at :: u64
  cl_draining_until :: u64
  cl_has_draining_deadline :: bool

definition wt_quic_close_state_init :: wt_quic_close_state where
  "wt_quic_close_state_init =
     \<lparr>cl_kind = WT_QUIC_CLOSE_NONE, cl_error_code = 0, cl_frame_type = 0, cl_reason = [], cl_closed_at = 0,
      cl_draining_until = 0, cl_has_draining_deadline = False\<rparr>"

definition close_common ::
  "wt_quic_close_state \<Rightarrow> u64 \<Rightarrow> u64 \<Rightarrow> u8 list \<Rightarrow> u64 \<Rightarrow> u64 \<Rightarrow> wt_status \<times> wt_quic_close_state" where
  "close_common state error_code cause reason now pto =
     (if cl_kind state \<noteq> WT_QUIC_CLOSE_NONE then (WT_ERR_STATE, state)
      else
        let state' = state\<lparr>cl_error_code := error_code, cl_frame_type := cause, cl_reason := reason,
                           cl_closed_at := now\<rparr>
        in (WT_OK,
            if pto \<noteq> 0 then
              state'\<lparr>cl_draining_until := now + WT_QUIC_DRAINING_PERIOD_PTO_MULTIPLIER * pto,
                     cl_has_draining_deadline := True\<rparr>
            else state'))"

definition wt_quic_close_transport ::
  "wt_quic_close_state \<Rightarrow> u64 \<Rightarrow> u64 \<Rightarrow> u8 list \<Rightarrow> u64 \<Rightarrow> u64 \<Rightarrow> wt_status \<times> wt_quic_close_state" where
  "wt_quic_close_transport state error_code cause reason now pto =
     (case close_common state error_code cause reason now pto of
        (status, state') \<Rightarrow>
          if status \<noteq> WT_OK then (status, state') else (WT_OK, state'\<lparr>cl_kind := WT_QUIC_CLOSE_TRANSPORT\<rparr>))"

definition wt_quic_close_application ::
  "wt_quic_close_state \<Rightarrow> u64 \<Rightarrow> u8 list \<Rightarrow> u64 \<Rightarrow> u64 \<Rightarrow> wt_status \<times> wt_quic_close_state" where
  "wt_quic_close_application state error_code reason now pto =
     (case close_common state error_code 0 reason now pto of
        (status, state') \<Rightarrow>
          if status \<noteq> WT_OK then (status, state') else (WT_OK, state'\<lparr>cl_kind := WT_QUIC_CLOSE_APPLICATION\<rparr>))"

definition wt_quic_close_is_closed :: "wt_quic_close_state \<Rightarrow> bool" where
  "wt_quic_close_is_closed state \<longleftrightarrow> cl_kind state \<noteq> WT_QUIC_CLOSE_NONE"

definition wt_quic_close_draining_expired :: "wt_quic_close_state \<Rightarrow> u64 \<Rightarrow> bool" where
  "wt_quic_close_draining_expired state now =
     (if cl_kind state = WT_QUIC_CLOSE_NONE then False
      else if \<not> cl_has_draining_deadline state then False
      else now \<ge> cl_draining_until state)"

definition wt_quic_close_frame :: "wt_quic_close_state \<Rightarrow> wt_quic_frame wt_result" where
  "wt_quic_close_frame state =
     (case cl_kind state of
        WT_QUIC_CLOSE_NONE \<Rightarrow> Inl WT_ERR_STATE
      | WT_QUIC_CLOSE_TRANSPORT \<Rightarrow>
          Inr (FRAME_CONNECTION_CLOSE_TRANSPORT
                 \<lparr>close_has_frame_type = True, close_error_code = cl_error_code state,
                  close_frame_type = cl_frame_type state, close_reason = cl_reason state\<rparr>)
      | WT_QUIC_CLOSE_APPLICATION \<Rightarrow>
          Inr (FRAME_CONNECTION_CLOSE_APPLICATION
                 \<lparr>close_has_frame_type = False, close_error_code = cl_error_code state,
                  close_frame_type = 0, close_reason = cl_reason state\<rparr>))"

definition wt_quic_close_accepts_frame_type :: "u64 \<Rightarrow> bool" where
  "wt_quic_close_accepts_frame_type type \<longleftrightarrow>
     type \<in> {WT_QUIC_FRAME_CONNECTION_CLOSE_TRANSPORT, WT_QUIC_FRAME_CONNECTION_CLOSE_APPLICATION,
                   WT_QUIC_FRAME_PADDING, WT_QUIC_FRAME_PING, WT_QUIC_FRAME_PATH_CHALLENGE,
                   WT_QUIC_FRAME_PATH_RESPONSE}"

subsection \<open>A connection closes once\<close>

text \<open>A request to close, by the transport or by the application, and a history of them.\<close>

datatype close_call =
  CLOSE_TRANSPORT u64 u64 "u8 list" u64 u64
| CLOSE_APPLICATION u64 "u8 list" u64 u64

fun close_step :: "close_call \<Rightarrow> wt_quic_close_state \<Rightarrow> wt_status \<times> wt_quic_close_state" where
  "close_step (CLOSE_TRANSPORT error_code cause reason now pto) state =
     wt_quic_close_transport state error_code cause reason now pto"
| "close_step (CLOSE_APPLICATION error_code reason now pto) state =
     wt_quic_close_application state error_code reason now pto"

definition close_history :: "close_call list \<Rightarrow> wt_quic_close_state \<Rightarrow> wt_quic_close_state" where
  "close_history calls state = fold (\<lambda>call s. snd (close_step call s)) calls state"

text \<open>The frame a call asks for, when it can be sent at all.\<close>

fun close_asks :: "close_call \<Rightarrow> wt_quic_frame" where
  "close_asks (CLOSE_TRANSPORT error_code cause reason now pto) =
     FRAME_CONNECTION_CLOSE_TRANSPORT
       \<lparr>close_has_frame_type = True, close_error_code = error_code, close_frame_type = cause, close_reason = reason\<rparr>"
| "close_asks (CLOSE_APPLICATION error_code reason now pto) =
     FRAME_CONNECTION_CLOSE_APPLICATION
       \<lparr>close_has_frame_type = False, close_error_code = error_code, close_frame_type = 0, close_reason = reason\<rparr>"

lemmas close_defs = wt_quic_close_transport_def wt_quic_close_application_def close_common_def Let_def

lemma close_refused:
  "wt_quic_close_is_closed state \<Longrightarrow> close_step call state = (WT_ERR_STATE, state)"
  by (cases call) (simp_all add: close_defs wt_quic_close_is_closed_def)

lemma close_first:
  assumes "\<not> wt_quic_close_is_closed state" "close_step call state = (status, state')"
  shows "status = WT_OK" "wt_quic_close_is_closed state'" "wt_quic_close_frame state' = Inr (close_asks call)"
  using assms by (cases call; auto simp: close_defs wt_quic_close_is_closed_def wt_quic_close_frame_def split: if_splits)+

lemma close_history_closed: "wt_quic_close_is_closed state \<Longrightarrow> close_history calls state = state"
  unfolding close_history_def by (induction calls arbitrary: state) (simp_all add: close_refused)

lemma close_history_first:
  "wt_quic_close_frame (close_history (call # calls) wt_quic_close_state_init) = Inr (close_asks call)"
proof -
  obtain status state where s: "close_step call wt_quic_close_state_init = (status, state)" by fastforce
  have "\<not> wt_quic_close_is_closed wt_quic_close_state_init"
    by (simp add: wt_quic_close_is_closed_def wt_quic_close_state_init_def)
  note first = close_first [OF this s]
  have "close_history (call # calls) wt_quic_close_state_init = close_history calls state"
    using s by (simp add: close_history_def)
  with close_history_closed [OF first(2)] first(3) show ?thesis by simp
qed

text \<open>The draining period is three probe timeouts, unless the clock wraps; without one it never ends.\<close>

lemma close_draining:
  assumes "\<not> wt_quic_close_is_closed state" "unat now + 3 * unat pto < 2 ^ 64"
    and "wt_quic_close_transport state error_code cause reason now pto = (WT_OK, state')"
    and "\<not> cl_has_draining_deadline state"
  shows "wt_quic_close_draining_expired state' later \<longleftrightarrow> pto \<noteq> 0 \<and> unat now + 3 * unat pto \<le> unat later"
proof -
  have "unat (3 * pto) = 3 * unat pto" using assms(2) by (simp add: unat_word_ariths)
  then have "unat (now + 3 * pto) = unat now + 3 * unat pto" using assms(2) by (simp add: unat_add_no_wrap)
  with assms(1,3,4) show ?thesis
    by (auto simp: close_defs wt_quic_close_is_closed_def wt_quic_close_draining_expired_def
        WT_QUIC_DRAINING_PERIOD_PTO_MULTIPLIER_def word_le_nat_alt split: if_splits)
qed

subsection \<open>Properties of closing\<close>

text \<open>C40: The first close is what the peer learns. However many transport and application closes are
  requested, the frame written for the close state, put on the wire and decoded by the peer, is the one
  the first request asked for, with its error code, frame type and reason.\<close>

theorem wt_quic_close_first_delivered:
  assumes "frame_valid (close_asks call)" "unat cap \<le> length d"
    and "wt_quic_close_frame (close_history (call # calls) wt_quic_close_state_init) = Inr frame"
    and "wt_writer_ok (snd (wt_quic_frame_encode frame (wt_writer_init (Some d) cap)))"
  shows "fst (wt_quic_frame_decode (cursor_of (writer_out (snd (wt_quic_frame_encode frame (wt_writer_init (Some d) cap)))))) =
    Inr (close_asks call)"
proof -
  have "frame = close_asks call" using close_history_first [of call calls] assms(3) by simp
  with quic_frame.round_trip [of "close_asks call" cap d] assms show ?thesis by simp
qed

theorem wt_quic_close_first_delivered_witness:
  "\<exists>w. wt_quic_frame_encode (close_asks (CLOSE_APPLICATION 7 [65] 0 0)) (wt_writer_init (Some (replicate 8 0)) 8) = (WT_OK, w) \<and>
     fst (wt_quic_frame_decode (cursor_of (writer_out w))) = Inr (close_asks (CLOSE_APPLICATION 7 [65] 0 0))"
proof -
  let ?call = "CLOSE_APPLICATION 7 [65] 0 0" and ?w = "wt_writer_init (Some (replicate 8 0)) 8"
  have v: "frame_valid (close_asks ?call)" by (simp add: varint_valid_unat bytes_valid_def)
  have f: "wt_quic_close_frame (close_history [?call, CLOSE_TRANSPORT 1 2 [] 5 1] wt_quic_close_state_init) = Inr (close_asks ?call)"
    by (rule close_history_first)
  have "length (frame_bytes (close_asks ?call)) \<le> 8"
    by (simp add: frame_bytes_def length_varint_bytes varint_valid_unat wt_quic_varint_size_def)
  then have ok: "wt_writer_ok (snd (wt_quic_frame_encode (close_asks ?call) ?w))"
    using writes_init(1) [OF writes_frame [OF v], of 8 "replicate 8 0"] by simp
  from frame_encode_status [OF v, of ?w] ok have "fst (wt_quic_frame_encode (close_asks ?call) ?w) = WT_OK" by simp
  with wt_quic_close_first_delivered [OF v _ f ok] show ?thesis
    by (intro exI [of _ "snd (wt_quic_frame_encode (close_asks ?call) ?w)"]) (simp add: prod_eq_iff)
qed

end
