(* ===== verification/Datagram_Queue.thy ===== *)
theory Datagram_Queue
  imports Varint
begin

text \<open>
  Unreliable datagrams (\<open>C99/src/quic/datagram.c\<close>): the largest payload that fits the peer's frame limit
  and the packet, and the queue of received datagrams, a ring of eight buffers of 1200 bytes with the
  counters of what arrived and what was discarded. A position in the ring is a natural number below
  eight; the counters wrap at 64 bits. The locale \<open>bounded_fifo\<close> states what a bounded queue promises,
  and the ring is an instance of it.
\<close>

definition WT_QUIC_DATAGRAM_MAX :: nat where "WT_QUIC_DATAGRAM_MAX = 1200"
definition WT_QUIC_DATAGRAM_QUEUE_MAX :: nat where "WT_QUIC_DATAGRAM_QUEUE_MAX = 8"

subsection \<open>The largest payload\<close>

text \<open>The loop that steps back from the largest candidate; 0 when no payload fits.\<close>

function payload_loop :: "u64 \<Rightarrow> u64 \<Rightarrow> u64" where
  "payload_loop limit len =
     (let needed = 1 + of_nat (wt_quic_varint_size len) + len in
      if needed \<le> limit then len
      else if needed - limit > len then 0
      else if len - (needed - limit) = 0 then 0
      else payload_loop limit (len - (needed - limit)))"
  by pat_completeness auto

termination payload_loop
proof (relation "measure (\<lambda>(limit, len). unat len)", simp, goal_cases)
  case (1 limit len needed)
  then have "0 < unat (needed - limit)" by (simp add: unat_gt_0)
  moreover have "needed - limit \<le> len" using 1(3) by (simp only: not_less)
  ultimately show ?case by (simp only: in_measure prod.case unat_sub word_le_nat_alt)
qed

declare payload_loop.simps [simp del]

definition wt_quic_datagram_max_payload :: "u64 \<Rightarrow> u64 \<Rightarrow> u64 \<Rightarrow> u64" where
  "wt_quic_datagram_max_payload peer_max_datagram_frame_size max_packet_size packet_overhead =
     (if max_packet_size \<le> packet_overhead then 0
      else if peer_max_datagram_frame_size = 0 then 0
      else
        let by_packet = max_packet_size - packet_overhead;
            by_frame = (if peer_max_datagram_frame_size > 1 then peer_max_datagram_frame_size - 1 else 0);
            len = payload_loop peer_max_datagram_frame_size by_frame
        in if len < by_packet then len else by_packet)"

subsection \<open>The queue\<close>

record wt_quic_datagram =
  dg_data :: "u8 list"
  dg_length :: u64
  dg_received_at :: u64

record wt_quic_datagram_queue =
  dq_entries :: "wt_quic_datagram list"
  dq_head :: nat
  dq_count :: nat
  dq_received :: u64
  dq_discarded :: u64

definition wt_quic_datagram_queue_init :: wt_quic_datagram_queue where
  "wt_quic_datagram_queue_init =
     \<lparr>dq_entries = replicate WT_QUIC_DATAGRAM_QUEUE_MAX
        \<lparr>dg_data = replicate WT_QUIC_DATAGRAM_MAX 0, dg_length = 0, dg_received_at = 0\<rparr>,
      dq_head = 0, dq_count = 0, dq_received = 0, dq_discarded = 0\<rparr>"

text \<open>The status, whether the datagram was discarded, and the queue.\<close>

definition wt_quic_datagram_queue_push ::
  "wt_quic_datagram_queue \<Rightarrow> u8 list \<Rightarrow> u64 \<Rightarrow> wt_status \<times> bool \<times> wt_quic_datagram_queue" where
  "wt_quic_datagram_queue_push queue data received_at =
     (if length data > WT_QUIC_DATAGRAM_MAX then (WT_ERR_LIMIT, False, queue)
      else
        let queue' = queue\<lparr>dq_received := dq_received queue + 1\<rparr> in
        if dq_count queue = WT_QUIC_DATAGRAM_QUEUE_MAX
        then (WT_OK, True, queue'\<lparr>dq_discarded := dq_discarded queue + 1\<rparr>)
        else
          let index = (dq_head queue + dq_count queue) mod WT_QUIC_DATAGRAM_QUEUE_MAX;
              entry = \<lparr>dg_data = overwrite 0 data (dg_data (dq_entries queue ! index)),
                       dg_length = of_nat (length data), dg_received_at = received_at\<rparr>
          in (WT_OK, False, queue'\<lparr>dq_entries := (dq_entries queue)[index := entry], dq_count := dq_count queue + 1\<rparr>))"

text \<open>The bytes copied out and when they came in, and the queue.\<close>

definition wt_quic_datagram_queue_pop ::
  "wt_quic_datagram_queue \<Rightarrow> u64 \<Rightarrow> (u8 list \<times> u64) wt_result \<times> wt_quic_datagram_queue" where
  "wt_quic_datagram_queue_pop queue capacity =
     (if dq_count queue = 0 then (Inl WT_ERR_AGAIN, queue)
      else
        let entry = dq_entries queue ! dq_head queue in
        if dg_length entry > capacity then (Inl WT_ERR_LIMIT, queue)
        else
          (Inr (take (unat (dg_length entry)) (dg_data entry), dg_received_at entry),
           queue\<lparr>dq_head := (dq_head queue + 1) mod WT_QUIC_DATAGRAM_QUEUE_MAX, dq_count := dq_count queue - 1\<rparr>))"

definition wt_quic_datagram_queue_count :: "wt_quic_datagram_queue \<Rightarrow> nat" where
  "wt_quic_datagram_queue_count queue = dq_count queue"

definition wt_quic_datagram_queue_received :: "wt_quic_datagram_queue \<Rightarrow> u64" where
  "wt_quic_datagram_queue_received queue = dq_received queue"

definition wt_quic_datagram_queue_discarded :: "wt_quic_datagram_queue \<Rightarrow> u64" where
  "wt_quic_datagram_queue_discarded queue = dq_discarded queue"

subsection \<open>The payload bound in closed form\<close>

lemma varint_size_mono: "v \<le> w \<Longrightarrow> varint_valid w \<Longrightarrow> wt_quic_varint_size v \<le> wt_quic_varint_size w"
  by (auto simp: wt_quic_varint_size_def varint_valid_def)

text \<open>One step back is enough: the width of the length field only shrinks with the length.\<close>

lemma payload_loop_closed:
  assumes "varint_valid limit" "1 < limit"
  shows "payload_loop limit (limit - 1) = limit - 1 - of_nat (wt_quic_varint_size (limit - 1))"
proof -
  let ?l = "limit - 1" and ?s = "wt_quic_varint_size (limit - 1)"
  have l: "unat ?l = unat limit - 1" "1 < unat limit" "unat limit < 2 ^ 62"
    using assms by (simp_all add: unat_sub_le word_less_nat_alt word_le_nat_alt varint_valid_unat)
  have v: "varint_valid ?l" using l by (simp add: varint_valid_unat)
  have s: "0 < ?s" "?s \<le> 8" "unat (of_nat ?s :: u64) = ?s"
    using v varint_size_pos [of ?l] varint_size_le [of ?l] by (simp_all add: unat_of_nat_u64)
  have small: "?s \<le> unat ?l" using l by (auto simp: wt_quic_varint_size_def word_less_nat_alt)
  have n: "1 + of_nat ?s + ?l = limit + of_nat ?s" by simp
  have u: "unat (limit + of_nat ?s) = unat limit + ?s"
    using s l by (subst unat_add_no_wrap) simp_all
  have first: "\<not> limit + of_nat ?s \<le> limit" "limit + of_nat ?s - limit = of_nat ?s" "\<not> of_nat ?s > ?l"
    using u s small by (simp_all add: word_le_nat_alt not_less)
  let ?r = "?l - of_nat ?s"
  have r: "unat ?r = unat ?l - ?s" using s small by (simp add: unat_sub word_le_nat_alt)
  have "wt_quic_varint_size ?r \<le> ?s"
    using varint_size_mono [OF _ v, of ?r] r by (simp add: word_le_nat_alt)
  then have "unat (1 + of_nat (wt_quic_varint_size ?r) + ?r) \<le> unat limit"
    using r s small l unat_of_nat_u64 [of "wt_quic_varint_size ?r"]
      unat_add_no_wrap [of 1 "of_nat (wt_quic_varint_size ?r)"] unat_add_no_wrap [of "1 + of_nat (wt_quic_varint_size ?r)" ?r]
    by simp
  then have "1 + of_nat (wt_quic_varint_size ?r) + ?r \<le> limit" by (simp add: word_le_nat_alt)
  then have "payload_loop limit ?r = ?r" by (subst payload_loop.simps) (simp add: Let_def)
  moreover have "payload_loop limit ?l = (if ?r = 0 then 0 else payload_loop limit ?r)"
    by (subst payload_loop.simps) (simp only: Let_def n first if_False)
  ultimately show ?thesis by simp
qed

lemma max_payload_closed:
  assumes "varint_valid limit"
  shows "wt_quic_datagram_max_payload limit packet overhead =
    (if packet \<le> overhead \<or> limit \<le> 1 then 0
     else min (packet - overhead) (limit - 1 - of_nat (wt_quic_varint_size (limit - 1))))"
proof (cases "1 < limit")
  case True
  then show ?thesis
    using payload_loop_closed [OF assms] by (auto simp: wt_quic_datagram_max_payload_def Let_def min_def not_le)
next
  case False
  then have "limit = 0 \<or> limit = 1" by (auto simp: word_unat_eq_iff word_less_nat_alt)
  moreover have "payload_loop 1 0 = 0" by (subst payload_loop.simps) (simp add: wt_quic_varint_size_def)
  ultimately show ?thesis by (auto simp: wt_quic_datagram_max_payload_def Let_def word_gt_0)
qed

lemma max_payload_fits:
  assumes "varint_valid limit" "wt_quic_datagram_max_payload limit packet overhead = len" "len \<noteq> 0"
  shows "1 + wt_quic_varint_size len + unat len \<le> unat limit \<and> unat len + unat overhead \<le> unat packet"
proof -
  let ?l = "limit - 1"
  have c: "overhead < packet" "1 < limit" "len = min (packet - overhead) (?l - of_nat (wt_quic_varint_size ?l))"
    using assms max_payload_closed [OF assms(1), of packet overhead] by (auto split: if_splits simp: not_le)
  have l: "unat ?l = unat limit - 1" "1 < unat limit" using c(2) by (simp_all add: unat_sub_le word_less_nat_alt word_le_nat_alt)
  have v: "varint_valid ?l" using l assms(1) by (simp add: varint_valid_unat)
  have s: "wt_quic_varint_size ?l \<le> unat ?l" "unat (of_nat (wt_quic_varint_size ?l) :: u64) = wt_quic_varint_size ?l"
    using l varint_size_le [of ?l] by (auto simp: wt_quic_varint_size_def word_less_nat_alt unat_of_nat_u64)
  have "unat len \<le> unat ?l - wt_quic_varint_size ?l"
    using c(3) s by (simp add: min_def unat_sub word_le_nat_alt split: if_splits)
  moreover from this have "wt_quic_varint_size len \<le> wt_quic_varint_size ?l"
    by (intro varint_size_mono v) (simp add: word_le_nat_alt)
  moreover have "unat len \<le> unat packet - unat overhead" 
    using c(1,3) by (simp add: min_def unat_sub_le word_le_nat_alt word_less_nat_alt split: if_splits)
  ultimately show ?thesis
    using l s(1) c(1) unfolding word_less_nat_alt by (intro conjI) arith+
qed

text \<open>A payload fits the peer's limit and the packet.\<close>

definition payload_fits :: "u64 \<Rightarrow> u64 \<Rightarrow> u64 \<Rightarrow> u64 \<Rightarrow> bool" where
  "payload_fits limit packet overhead len \<longleftrightarrow>
     1 + wt_quic_varint_size len + unat len \<le> unat limit \<and> unat len + unat overhead \<le> unat packet"

text \<open>The limits at which the largest candidate has a wider length field than the largest payload that fits.\<close>

definition wasteful_limit :: "nat \<Rightarrow> bool" where
  "wasteful_limit n \<longleftrightarrow> n = 65 \<or> 16385 \<le> n \<and> n \<le> 16387 \<or> 2 ^ 30 + 1 \<le> n \<and> n \<le> 2 ^ 30 + 7"

text \<open>The widths as natural numbers, and the largest length for a limit.\<close>

definition width :: "nat \<Rightarrow> nat" where
  "width n = (if n < 64 then 1 else if n < 16384 then 2 else if n < 2 ^ 30 then 4 else 8)"

lemma varint_size_width: "varint_valid v \<Longrightarrow> wt_quic_varint_size v = width (unat v)"
  by (auto simp: wt_quic_varint_size_def width_def varint_valid_unat word_less_nat_alt word_le_nat_alt WT_QUIC_VARINT_MAX_def)

lemma width_largest:
  assumes "\<not> wasteful_limit n" "1 + width l + l \<le> n"
  shows "l + width (n - 1) < n"
  using assms by (auto simp: width_def wasteful_limit_def split: if_splits)

lemma width_room: "wasteful_limit n \<Longrightarrow> width (n - 1) < n"
  by (auto simp: width_def wasteful_limit_def split: if_splits)

lemma width_longer:
  assumes "wasteful_limit n" "l + width (n - 1) + 1 = n"
  shows "1 + width (Suc l) + Suc l \<le> n"
  using assms by (auto simp: width_def wasteful_limit_def split: if_splits)

lemma max_payload_nat:
  assumes "varint_valid limit"
  shows "unat (wt_quic_datagram_max_payload limit packet overhead) =
    min (unat packet - unat overhead) (unat limit - 1 - width (unat limit - 1))"
proof (cases "packet \<le> overhead \<or> limit \<le> 1")
  case True
  then show ?thesis
    using max_payload_closed [OF assms, of packet overhead] by (auto simp: word_le_nat_alt width_def)
next
  case False
  let ?l = "limit - 1"
  have l: "unat ?l = unat limit - 1" "1 < unat limit" "unat overhead < unat packet"
    using False by (simp_all add: unat_sub_le word_le_nat_alt)
  have v: "varint_valid ?l" using l assms by (simp add: varint_valid_unat)
  have s: "wt_quic_varint_size ?l \<le> unat ?l" "unat (of_nat (wt_quic_varint_size ?l) :: u64) = wt_quic_varint_size ?l"
    using l varint_size_le [of ?l] by (auto simp: wt_quic_varint_size_def word_less_nat_alt unat_of_nat_u64)
  have "unat (?l - of_nat (wt_quic_varint_size ?l)) = unat limit - 1 - width (unat limit - 1)"
    using s l varint_size_width [OF v] by (simp add: unat_sub word_le_nat_alt)
  moreover have "unat (packet - overhead) = unat packet - unat overhead"
    using l(3) by (simp add: unat_sub_le word_le_nat_alt)
  ultimately show ?thesis
    using max_payload_closed [OF assms, of packet overhead] False by (simp add: min_def word_le_nat_alt)
qed

lemma max_payload_maximal:
  assumes "varint_valid limit"
  shows "(\<forall>longer. payload_fits limit packet overhead longer \<longrightarrow> longer \<le> wt_quic_datagram_max_payload limit packet overhead) \<longleftrightarrow>
    \<not> wasteful_limit (unat limit) \<or> unat packet - unat overhead \<le> unat (wt_quic_datagram_max_payload limit packet overhead)"
  (is "?maximal \<longleftrightarrow> ?exact")
proof -
  let ?n = "unat limit" and ?room = "unat packet - unat overhead"
  let ?len = "unat (wt_quic_datagram_max_payload limit packet overhead)"
  have n: "?n < 2 ^ 62" using assms by (simp add: varint_valid_unat)
  have closed: "?len = min ?room (?n - 1 - width (?n - 1))"
    by (rule max_payload_nat [OF assms])
  have fits: "payload_fits limit packet overhead l \<longleftrightarrow> 1 + width (unat l) + unat l \<le> ?n \<and> unat l + unat overhead \<le> unat packet" for l
    using n varint_size_width [of l] varint_size_pos [of l]
    by (cases "varint_valid l") (auto simp: payload_fits_def varint_valid_unat)
  show ?thesis
  proof
    assume ?exact
    then have "unat l \<le> ?len" if "payload_fits limit packet overhead l" for l
      using that width_largest [of ?n "unat l"] closed unfolding fits by linarith
    then show ?maximal by (simp add: word_le_nat_alt)
  next
    assume m: ?maximal
    show ?exact
    proof (rule ccontr)
      assume "\<not> ?exact"
      then have w: "wasteful_limit ?n" "?len < ?room" by simp_all
      have len: "?len + width (?n - 1) + 1 = ?n"
        using w(2) closed width_room [OF w(1)] by linarith
      have u: "unat (of_nat (Suc ?len) :: u64) = Suc ?len" 
        using le_less_trans [OF _ unat_u64_less [of packet], of "Suc ?len"] w(2) by (intro unat_of_nat_u64) simp
      have "payload_fits limit packet overhead (of_nat (Suc ?len))"
        unfolding fits u using width_longer [OF w(1) len] w(2) by linarith
      with m have "Suc ?len \<le> ?len" unfolding word_le_nat_alt using u by metis
      then show False by simp
    qed
  qed
qed

subsection \<open>Bounded queues\<close>

datatype ('a, 'c) queue_op = PUSH 'a | POP 'c

text \<open>What was accepted, what was delivered, and the queue in the end.\<close>

fun queue_run ::
  "('q \<Rightarrow> 'a \<Rightarrow> bool \<times> 'q) \<Rightarrow> ('q \<Rightarrow> 'c \<Rightarrow> 'a option \<times> 'q) \<Rightarrow> ('a, 'c) queue_op list \<Rightarrow> 'q \<Rightarrow>
   'a list \<times> 'a list \<times> 'q" where
  "queue_run push pop [] q = ([], [], q)"
| "queue_run push pop (PUSH a # ops) q =
     (case push q a of (ok, q1) \<Rightarrow>
        (case queue_run push pop ops q1 of (accepted, delivered, q2) \<Rightarrow> (if ok then a # accepted else accepted, delivered, q2)))"
| "queue_run push pop (POP c # ops) q =
     (case pop q c of (r, q1) \<Rightarrow>
        (case queue_run push pop ops q1 of (accepted, delivered, q2) \<Rightarrow>
           (accepted, case r of None \<Rightarrow> delivered | Some a \<Rightarrow> a # delivered, q2)))"

locale bounded_fifo =
  fixes inv :: "'q \<Rightarrow> bool"
    and contents :: "'q \<Rightarrow> 'a list"
    and push :: "'q \<Rightarrow> 'a \<Rightarrow> bool \<times> 'q"
    and pop :: "'q \<Rightarrow> 'c \<Rightarrow> 'a option \<times> 'q"
  assumes push_inv: "inv q \<Longrightarrow> push q a = (ok, q') \<Longrightarrow> inv q'"
    and push_contents: "inv q \<Longrightarrow> push q a = (ok, q') \<Longrightarrow> contents q' = contents q @ (if ok then [a] else [])"
    and pop_inv: "inv q \<Longrightarrow> pop q c = (r, q') \<Longrightarrow> inv q'"
    and pop_contents: "inv q \<Longrightarrow> pop q c = (r, q') \<Longrightarrow> contents q = (case r of None \<Rightarrow> [] | Some a \<Rightarrow> [a]) @ contents q'"
begin

lemma fifo_order:
  "inv q \<Longrightarrow> queue_run push pop ops q = (accepted, delivered, q') \<Longrightarrow>
   inv q' \<and> contents q @ accepted = delivered @ contents q'"
proof (induction ops arbitrary: q accepted delivered q')
  case (Cons op ops)
  show ?case
  proof (cases op)
    case (PUSH a)
    obtain ok q1 where p: "push q a = (ok, q1)" by fastforce
    obtain acc del q2 where r: "queue_run push pop ops q1 = (acc, del, q2)" by (metis prod_cases3)
    from Cons.IH [OF push_inv [OF Cons.prems(1) p] r] push_contents [OF Cons.prems(1) p] Cons.prems(2) PUSH p r
    show ?thesis by (auto split: if_splits)
  next
    case (POP c)
    obtain x q1 where p: "pop q c = (x, q1)" by fastforce
    obtain acc del q2 where r: "queue_run push pop ops q1 = (acc, del, q2)" by (metis prod_cases3)
    from Cons.IH [OF pop_inv [OF Cons.prems(1) p] r] pop_contents [OF Cons.prems(1) p] Cons.prems(2) POP p r
    show ?thesis by (auto split: option.splits)
  qed
qed simp

end

subsection \<open>The ring is a bounded queue\<close>

definition entry_view :: "wt_quic_datagram \<Rightarrow> u8 list \<times> u64" where
  "entry_view e = (take (unat (dg_length e)) (dg_data e), dg_received_at e)"

definition queue_contents :: "wt_quic_datagram_queue \<Rightarrow> (u8 list \<times> u64) list" where
  "queue_contents q =
     map (\<lambda>i. entry_view (dq_entries q ! ((dq_head q + i) mod WT_QUIC_DATAGRAM_QUEUE_MAX))) [0..<dq_count q]"

definition queue_inv :: "wt_quic_datagram_queue \<Rightarrow> bool" where
  "queue_inv q \<longleftrightarrow>
     length (dq_entries q) = WT_QUIC_DATAGRAM_QUEUE_MAX \<and> dq_head q < WT_QUIC_DATAGRAM_QUEUE_MAX \<and>
     dq_count q \<le> WT_QUIC_DATAGRAM_QUEUE_MAX \<and> (\<forall>e \<in> set (dq_entries q). length (dg_data e) = WT_QUIC_DATAGRAM_MAX)"

definition push_op :: "wt_quic_datagram_queue \<Rightarrow> u8 list \<times> u64 \<Rightarrow> bool \<times> wt_quic_datagram_queue" where
  "push_op q d =
     (case wt_quic_datagram_queue_push q (fst d) (snd d) of (status, discarded, q') \<Rightarrow> (status = WT_OK \<and> \<not> discarded, q'))"

definition pop_op :: "wt_quic_datagram_queue \<Rightarrow> u64 \<Rightarrow> (u8 list \<times> u64) option \<times> wt_quic_datagram_queue" where
  "pop_op q capacity =
     (case wt_quic_datagram_queue_pop q capacity of (Inl _, q') \<Rightarrow> (None, q') | (Inr d, q') \<Rightarrow> (Some d, q'))"

lemma ring_index_inj:
  assumes "i < WT_QUIC_DATAGRAM_QUEUE_MAX" "j < WT_QUIC_DATAGRAM_QUEUE_MAX"
    and "(h + i) mod WT_QUIC_DATAGRAM_QUEUE_MAX = (h + j) mod WT_QUIC_DATAGRAM_QUEUE_MAX"
  shows "i = j"
proof -
  have "i = j" if "i \<le> j" "j < n" "(h + i) mod n = (h + j) mod n" for i j n :: nat
    using that mod_eq_dvd_iff_nat [of "h + i" "h + j" n] dvd_imp_le [of n "j - i"] by fastforce
  from this [of i j] this [of j i] assms show ?thesis by (cases "i \<le> j") (metis, metis nat_le_linear)
qed

lemma ring_push:
  assumes "queue_inv q" "dq_count q < WT_QUIC_DATAGRAM_QUEUE_MAX" "length data \<le> WT_QUIC_DATAGRAM_MAX"
    and "q' = q\<lparr>dq_entries := (dq_entries q)[(dq_head q + dq_count q) mod WT_QUIC_DATAGRAM_QUEUE_MAX :=
               \<lparr>dg_data = overwrite 0 data (dg_data (dq_entries q ! ((dq_head q + dq_count q) mod WT_QUIC_DATAGRAM_QUEUE_MAX))),
                dg_length = of_nat (length data), dg_received_at = at\<rparr>], dq_count := dq_count q + 1\<rparr>"
  shows "queue_inv q'" "queue_contents q' = queue_contents q @ [(data, at)]"
proof -
  let ?n = "WT_QUIC_DATAGRAM_QUEUE_MAX" and ?i = "(dq_head q + dq_count q) mod WT_QUIC_DATAGRAM_QUEUE_MAX"
  let ?e = "dq_entries q ! ?i"
  have i: "?i < length (dq_entries q)" using assms(1) by (simp add: queue_inv_def WT_QUIC_DATAGRAM_QUEUE_MAX_def)
  then have d: "length (dg_data ?e) = WT_QUIC_DATAGRAM_MAX" using assms(1) by (simp add: queue_inv_def)
  show "queue_inv q'"
    using assms d i by (auto simp: queue_inv_def overwrite_def dest!: set_update_subset_insert [THEN subsetD])
  have "unat (of_nat (length data) :: u64) = length data"
    using assms(3) by (intro unat_of_nat_u64) (simp add: WT_QUIC_DATAGRAM_MAX_def)
  then have new: "entry_view (dq_entries q' ! ?i) = (data, at)"
    using i by (simp add: assms(4) entry_view_def overwrite_def)
  have "?i \<noteq> (dq_head q + j) mod ?n" if "j < dq_count q" for j
    using ring_index_inj [of j "dq_count q" "dq_head q"] that assms(2) by auto
  then have "dq_entries q' ! ((dq_head q + j) mod ?n) = dq_entries q ! ((dq_head q + j) mod ?n)" if "j < dq_count q" for j
    using that by (simp add: assms(4))
  then show "queue_contents q' = queue_contents q @ [(data, at)]"
    using new by (simp add: queue_contents_def) (simp add: assms(4))
qed

lemma ring_pop:
  assumes "queue_inv q" "dq_count q \<noteq> 0"
    and "q' = q\<lparr>dq_head := (dq_head q + 1) mod WT_QUIC_DATAGRAM_QUEUE_MAX, dq_count := dq_count q - 1\<rparr>"
  shows "queue_inv q'" "queue_contents q = entry_view (dq_entries q ! dq_head q) # queue_contents q'"
proof -
  show "queue_inv q'" using assms by (auto simp: queue_inv_def WT_QUIC_DATAGRAM_QUEUE_MAX_def)
  have "[0..<dq_count q] = 0 # map Suc [0..<dq_count q - 1]"
    using assms(2) by (cases "dq_count q") (simp_all add: upt_conv_Cons map_Suc_upt)
  then show "queue_contents q = entry_view (dq_entries q ! dq_head q) # queue_contents q'"
    using assms(1) by (simp add: queue_contents_def assms(3) queue_inv_def o_def mod_add_left_eq)
qed

interpretation ring: bounded_fifo queue_inv queue_contents push_op pop_op
proof unfold_locales
  fix q a ok q' assume q: "queue_inv q" and p: "push_op q a = (ok, q')"
  let ?q = "\<lambda>q. q\<lparr>dq_received := dq_received q + 1\<rparr>"
  have keep: "queue_inv (q\<lparr>dq_received := m\<rparr>) = queue_inv q" "queue_contents (q\<lparr>dq_received := m\<rparr>) = queue_contents q"
    "queue_inv (q\<lparr>dq_discarded := m\<rparr>) = queue_inv q" "queue_contents (q\<lparr>dq_discarded := m\<rparr>) = queue_contents q" for q m
    by (simp_all add: queue_inv_def queue_contents_def)
  have count: "dq_count q \<noteq> WT_QUIC_DATAGRAM_QUEUE_MAX \<Longrightarrow> dq_count (?q q) < WT_QUIC_DATAGRAM_QUEUE_MAX"
    using q by (simp add: queue_inv_def)
  note push = ring_push [of "?q q" "fst a" _ "snd a", OF _ _ _ refl, unfolded keep, OF q]
  show "queue_inv q'" "queue_contents q' = queue_contents q @ (if ok then [a] else [])"
    using p q push count by (auto simp: push_op_def wt_quic_datagram_queue_push_def Let_def keep split: if_splits)
next
  fix q c r q' assume q: "queue_inv q" and p: "pop_op q c = (r, q')"
  show "queue_inv q'" "queue_contents q = (case r of None \<Rightarrow> [] | Some a \<Rightarrow> [a]) @ queue_contents q'"
    using p ring_pop [OF q _ refl] q
    by (auto simp: pop_op_def wt_quic_datagram_queue_pop_def Let_def entry_view_def split: if_splits)
qed

subsection \<open>Properties of datagrams\<close>

text \<open>C38: The payload announced always fits, and for all but eleven limits it is the largest that fits. A
  length fits when the frame type, the length field and the payload together stay within the peer's limit
  and the payload within what the packet leaves. Every answer other than 0 fits. No longer payload fits,
  unless the limit lies just above a boundary of the integer encoding, at 65, 16385 to 16387 or
  2^30 + 1 to 2^30 + 7, and the packet does not decide; then, and only then, a longer payload fits.\<close>

theorem wt_quic_datagram_max_payload_largest:
  fixes limit packet overhead :: u64
  assumes "varint_valid limit"
  defines "len \<equiv> wt_quic_datagram_max_payload limit packet overhead"
  shows "(len \<noteq> 0 \<longrightarrow> payload_fits limit packet overhead len) \<and>
    ((\<forall>longer. payload_fits limit packet overhead longer \<longrightarrow> longer \<le> len) \<longleftrightarrow>
       \<not> wasteful_limit (unat limit) \<or> unat packet - unat overhead \<le> unat len)"
  unfolding len_def using max_payload_fits [OF assms(1) refl] max_payload_maximal [OF assms(1)]
  by (auto simp: payload_fits_def)

theorem wt_quic_datagram_max_payload_largest_witness:
  "wt_quic_datagram_max_payload 65 1200 40 = 62 \<and> (\<exists>longer. payload_fits 65 1200 40 longer \<and> \<not> longer \<le> 62) \<and>
   wt_quic_datagram_max_payload 1200 1200 40 = 1160 \<and> \<not> (\<exists>longer. payload_fits 1200 1200 40 longer \<and> \<not> longer \<le> 1160)"
proof -
  have v: "varint_valid 65" "varint_valid 1200" by (simp_all add: varint_valid_unat)
  have l: "wt_quic_datagram_max_payload 65 1200 40 = 62" "wt_quic_datagram_max_payload 1200 1200 40 = 1160"
    using max_payload_closed [OF v(1), of 1200 40] max_payload_closed [OF v(2), of 1200 40]
    by (simp_all add: wt_quic_varint_size_def min_def word_le_nat_alt)
  show ?thesis
    using wt_quic_datagram_max_payload_largest [OF v(1), of 1200 40] wt_quic_datagram_max_payload_largest [OF v(2), of 1200 40] l
    by (auto simp: wasteful_limit_def)
qed

text \<open>C37: Received datagrams are delivered in order and none is lost once accepted. After any sequence of
  arrivals and reads, whatever the buffers offered, the datagrams accepted so far are those delivered so
  far, byte for byte and with their times, followed by the ones the queue counts.\<close>

theorem wt_quic_datagram_queue_fifo:
  assumes "queue_run push_op pop_op ops wt_quic_datagram_queue_init = (accepted, delivered, q)"
  shows "\<exists>waiting. accepted = delivered @ waiting \<and> length waiting = wt_quic_datagram_queue_count q \<and>
    length waiting \<le> WT_QUIC_DATAGRAM_QUEUE_MAX"
proof -
  have "queue_inv wt_quic_datagram_queue_init"
    by (simp add: queue_inv_def wt_quic_datagram_queue_init_def WT_QUIC_DATAGRAM_QUEUE_MAX_def)
  from ring.fifo_order [OF this assms] have "queue_inv q" "accepted = delivered @ queue_contents q"
    by (simp_all add: queue_contents_def wt_quic_datagram_queue_init_def)
  moreover have "length (queue_contents q) = wt_quic_datagram_queue_count q"
    by (simp add: queue_contents_def wt_quic_datagram_queue_count_def)
  ultimately show ?thesis by (auto simp: queue_inv_def queue_contents_def)
qed

theorem wt_quic_datagram_queue_fifo_witness:
  "\<exists>accepted delivered q waiting.
     queue_run push_op pop_op [PUSH ([1, 2], 5), PUSH ([3], 6), POP 100] wt_quic_datagram_queue_init = (accepted, delivered, q) \<and>
     accepted = [([1, 2], 5), ([3], 6)] \<and> accepted = delivered @ waiting"
proof -
  let ?ops = "[PUSH ([1, 2], 5), PUSH ([3], 6), POP 100]"
  obtain accepted delivered q where
    r: "queue_run push_op pop_op ?ops wt_quic_datagram_queue_init = (accepted, delivered, q)" by (metis prod_cases3)
  then have "accepted = [([1, 2], 5), ([3], 6)]"
    by (auto simp: push_op_def pop_op_def wt_quic_datagram_queue_push_def Let_def wt_quic_datagram_queue_init_def
        WT_QUIC_DATAGRAM_MAX_def WT_QUIC_DATAGRAM_QUEUE_MAX_def split: prod.splits)
  with r wt_quic_datagram_queue_fifo [OF r] show ?thesis by blast
qed

end
