(* ===== verification/Connection_Ids.thy ===== *)
theory Connection_Ids
  imports Quic_Frame
begin

text \<open>
  The connection identifiers of a connection (\<open>C99/src/quic/connection_id.c\<close>): those this endpoint
  issued and those its peer supplied, in one array of eight. The array is the list of its live entries,
  those below \<open>count\<close>. A failure carries the error code the code reports through \<open>out_error\<close>, if any.
\<close>

definition WT_QUIC_CONNECTION_ID_LIMIT :: nat where "WT_QUIC_CONNECTION_ID_LIMIT = 8"

record wt_quic_connection_id =
  ci_sequence :: u64
  ci_id :: "u8 list"
  ci_issued :: bool
  ci_retired :: bool

record wt_quic_connection_id_store =
  cs_entries :: "wt_quic_connection_id list"
  cs_retire_prior_to :: u64
  cs_next_sequence :: u64
  cs_peer_limit :: u64
  cs_local_limit :: u64

definition wt_quic_connection_ids_init :: "u64 \<Rightarrow> u64 \<Rightarrow> wt_quic_connection_id_store" where
  "wt_quic_connection_ids_init peer_limit local_limit =
     (let local = (if local_limit < 2 then 2 else local_limit) in
      \<lparr>cs_entries = [], cs_retire_prior_to = 0, cs_next_sequence = 0,
       cs_peer_limit = (if peer_limit < 2 then 2 else peer_limit),
       cs_local_limit = (if local > of_nat WT_QUIC_CONNECTION_ID_LIMIT then of_nat WT_QUIC_CONNECTION_ID_LIMIT else local)\<rparr>)"

fun find_sequence_from :: "u64 \<Rightarrow> nat \<Rightarrow> wt_quic_connection_id list \<Rightarrow> nat option" where
  "find_sequence_from sequence i [] = None"
| "find_sequence_from sequence i (e # es) =
     (if ci_sequence e = sequence then Some i else find_sequence_from sequence (Suc i) es)"

definition wt_quic_cid_find_sequence :: "wt_quic_connection_id_store \<Rightarrow> u64 \<Rightarrow> nat option" where
  "wt_quic_cid_find_sequence store sequence = find_sequence_from sequence 0 (cs_entries store)"

definition wt_quic_connection_ids_active :: "wt_quic_connection_id_store \<Rightarrow> nat" where
  "wt_quic_connection_ids_active store = length (filter (\<lambda>e. \<not> ci_retired e) (cs_entries store))"

definition wt_quic_connection_ids_issueable :: "wt_quic_connection_id_store \<Rightarrow> u64" where
  "wt_quic_connection_ids_issueable store =
     (let issued = of_nat (length (filter (\<lambda>e. ci_issued e \<and> \<not> ci_retired e) (cs_entries store))) in
      if issued \<ge> cs_peer_limit store then 0 else cs_peer_limit store - issued)"

definition wt_quic_connection_ids_add_issued ::
  "wt_quic_connection_id_store \<Rightarrow> u8 list \<Rightarrow> u64 wt_result \<times> wt_quic_connection_id_store" where
  "wt_quic_connection_ids_add_issued store cid =
     (if length cid > WT_QUIC_MAX_CONNECTION_ID_LENGTH then (Inl WT_ERR_INVALID_ARGUMENT, store)
      else if length (cs_entries store) \<ge> WT_QUIC_CONNECTION_ID_LIMIT then (Inl WT_ERR_LIMIT, store)
      else if wt_quic_connection_ids_issueable store = 0 then (Inl WT_ERR_LIMIT, store)
      else
        (Inr (cs_next_sequence store),
         store\<lparr>cs_entries := cs_entries store @
           [\<lparr>ci_sequence = cs_next_sequence store, ci_id = cid, ci_issued = True, ci_retired = False\<rparr>],
           cs_next_sequence := cs_next_sequence store + 1\<rparr>))"

definition wt_quic_cid_retire_below :: "wt_quic_connection_id_store \<Rightarrow> u64 \<Rightarrow> wt_quic_connection_id_store" where
  "wt_quic_cid_retire_below store sequence =
     (let below = (if sequence > cs_retire_prior_to store then sequence else cs_retire_prior_to store) in
      store\<lparr>cs_retire_prior_to := below,
            cs_entries := map (\<lambda>e. if ci_sequence e < below then e\<lparr>ci_retired := True\<rparr> else e) (cs_entries store)\<rparr>)"

definition wt_quic_connection_ids_add_peer ::
  "wt_quic_connection_id_store \<Rightarrow> u64 \<Rightarrow> u64 \<Rightarrow> u8 list \<Rightarrow> frame_fail option \<times> wt_quic_connection_id_store" where
  "wt_quic_connection_ids_add_peer store sequence retire_prior_to cid =
     (if length cid > WT_QUIC_MAX_CONNECTION_ID_LENGTH then (Some (WT_ERR_PROTOCOL, Some WT_QUIC_PROTOCOL_VIOLATION), store)
      else if retire_prior_to > sequence then (Some (WT_ERR_PROTOCOL, Some WT_QUIC_FRAME_ENCODING_ERROR), store)
      else
        let store' = wt_quic_cid_retire_below store retire_prior_to in
        if wt_quic_cid_find_sequence store' sequence \<noteq> None then (None, store')
        else if of_nat (wt_quic_connection_ids_active store') \<ge> cs_local_limit store'
        then (Some (WT_ERR_LIMIT, Some WT_QUIC_CONNECTION_ID_LIMIT_ERROR), store')
        else if length (cs_entries store') \<ge> WT_QUIC_CONNECTION_ID_LIMIT
        then (Some (WT_ERR_LIMIT, Some WT_QUIC_CONNECTION_ID_LIMIT_ERROR), store')
        else
          (None, store'\<lparr>cs_entries := cs_entries store' @
             [\<lparr>ci_sequence = sequence, ci_id = cid, ci_issued = False, ci_retired = False\<rparr>]\<rparr>))"

definition wt_quic_connection_ids_retire ::
  "wt_quic_connection_id_store \<Rightarrow> u64 \<Rightarrow> frame_fail option \<times> wt_quic_connection_id_store" where
  "wt_quic_connection_ids_retire store sequence =
     (if sequence \<ge> cs_next_sequence store then (Some (WT_ERR_PROTOCOL, Some WT_QUIC_PROTOCOL_VIOLATION), store)
      else
        case wt_quic_cid_find_sequence store sequence of
          None \<Rightarrow> (None, store)
        | Some i \<Rightarrow> (None, store\<lparr>cs_entries := (cs_entries store)[i := (cs_entries store ! i)\<lparr>ci_retired := True\<rparr>]\<rparr>))"

fun find_id_from :: "u8 list \<Rightarrow> nat \<Rightarrow> wt_quic_connection_id list \<Rightarrow> (nat \<times> bool) wt_result" where
  "find_id_from cid i [] = Inl WT_ERR_CLOSED"
| "find_id_from cid i (e # es) = (if ci_id e = cid then Inr (i, ci_retired e) else find_id_from cid (Suc i) es)"

definition wt_quic_connection_ids_find :: "wt_quic_connection_id_store \<Rightarrow> u8 list \<Rightarrow> (nat \<times> bool) wt_result" where
  "wt_quic_connection_ids_find store cid =
     (if length cid > WT_QUIC_MAX_CONNECTION_ID_LENGTH then Inl WT_ERR_INVALID_ARGUMENT
      else find_id_from cid 0 (cs_entries store))"

subsection \<open>The invariant of the store\<close>

definition usable :: "bool \<Rightarrow> wt_quic_connection_id list \<Rightarrow> nat" where
  "usable issued es = length (filter (\<lambda>e. ci_issued e = issued \<and> \<not> ci_retired e) es)"

definition sequences :: "bool \<Rightarrow> wt_quic_connection_id list \<Rightarrow> u64 list" where
  "sequences issued es = map ci_sequence (filter (\<lambda>e. ci_issued e = issued) es)"

text \<open>The store is bounded, neither side provides more identifiers than the other allows, and no side's
  sequence number is stored twice.\<close>

definition cid_inv :: "wt_quic_connection_id_store \<Rightarrow> bool" where
  "cid_inv s \<longleftrightarrow>
     length (cs_entries s) \<le> WT_QUIC_CONNECTION_ID_LIMIT \<and>
     usable True (cs_entries s) \<le> unat (cs_peer_limit s) \<and> usable False (cs_entries s) \<le> unat (cs_local_limit s) \<and>
     unat (cs_local_limit s) \<le> WT_QUIC_CONNECTION_ID_LIMIT \<and>
     distinct (sequences True (cs_entries s)) \<and> distinct (sequences False (cs_entries s)) \<and>
     (\<forall>n \<in> set (sequences True (cs_entries s)). unat n < unat (cs_next_sequence s)) \<and>
     unat (cs_next_sequence s) = length (sequences True (cs_entries s))"

lemma usable_simps [simp]:
  "usable b [] = 0" "usable b (e # es) = (if ci_issued e = b \<and> \<not> ci_retired e then 1 else 0) + usable b es"
  "usable b (es @ fs) = usable b es + usable b fs"
  by (simp_all add: usable_def)

lemma sequences_simps [simp]:
  "sequences b [] = []" "sequences b (e # es) = (if ci_issued e = b then [ci_sequence e] else []) @ sequences b es"
  "sequences b (es @ fs) = sequences b es @ sequences b fs"
  by (simp_all add: sequences_def)

text \<open>Retiring entries keeps who issued what and makes fewer of them usable.\<close>

definition retires :: "wt_quic_connection_id \<Rightarrow> wt_quic_connection_id \<Rightarrow> bool" where
  "retires e e' \<longleftrightarrow> e' = e \<or> e' = e\<lparr>ci_retired := True\<rparr>"

lemma retires_all:
  "list_all2 retires es es' \<Longrightarrow> sequences b es' = sequences b es \<and> usable b es' \<le> usable b es \<and> length es' = length es"
  by (induction rule: list_all2_induct) (auto simp: retires_def)

lemma retires_refl [simp]: "list_all2 retires es es"
  by (simp add: list_all2_refl retires_def)

lemma retires_map: "list_all2 retires es (map (\<lambda>e. if P e then e\<lparr>ci_retired := True\<rparr> else e) es)"
  by (induction es) (simp_all add: retires_def)

lemma retires_update: "i < length es \<Longrightarrow> list_all2 retires es (es[i := (es ! i)\<lparr>ci_retired := True\<rparr>])"
  by (auto simp: list_all2_conv_all_nth nth_list_update retires_def)

lemma find_sequence_Some:
  "find_sequence_from n k es = Some i \<Longrightarrow> k \<le> i \<and> i < k + length es \<and> ci_sequence (es ! (i - k)) = n"
proof (induction es arbitrary: k)
  case (Cons e es)
  then show ?case by (fastforce simp: nth_Cons' split: if_splits)
qed simp

lemma find_sequence_None: "find_sequence_from n k es = None \<longleftrightarrow> n \<notin> ci_sequence ` set es"
  by (induction es arbitrary: k) auto

lemma cid_inv_retired:
  assumes "cid_inv s" "list_all2 retires (cs_entries s) es"
  shows "cid_inv (s\<lparr>cs_entries := es\<rparr>)"
  using assms(1) retires_all [OF assms(2), of True] retires_all [OF assms(2), of False]
  by (auto simp: cid_inv_def)

lemma cid_inv_init: "cid_inv (wt_quic_connection_ids_init peer_limit local_limit)"
  by (auto simp: cid_inv_def wt_quic_connection_ids_init_def Let_def WT_QUIC_CONNECTION_ID_LIMIT_def word_less_nat_alt not_less)

lemma cid_inv_retire: "cid_inv s \<Longrightarrow> cid_inv (snd (wt_quic_connection_ids_retire s n))"
  using find_sequence_Some [of n 0 "cs_entries s"]
  by (auto simp: wt_quic_connection_ids_retire_def wt_quic_cid_find_sequence_def split: option.split
      intro!: cid_inv_retired retires_update)

lemma cid_inv_retire_below: "cid_inv s \<Longrightarrow> cid_inv (wt_quic_cid_retire_below s n)"
proof -
  assume s: "cid_inv s"
  have "cid_inv (s\<lparr>cs_retire_prior_to := m\<rparr>) = cid_inv s" for s m by (simp add: cid_inv_def)
  with cid_inv_retired [OF s retires_map] show ?thesis
    unfolding wt_quic_cid_retire_below_def Let_def by (simp add: cid_inv_def)
qed

lemma usable_length: "usable b es \<le> length es"
  by (simp add: usable_def)

lemma usable_active: "usable b es \<le> length (filter (\<lambda>e. \<not> ci_retired e) es)"
  by (induction es) auto

lemma cid_inv_add_issued:
  assumes "cid_inv s"
  shows "cid_inv (snd (wt_quic_connection_ids_add_issued s cid))"
proof (cases "fst (wt_quic_connection_ids_add_issued s cid)")
  case (Inr n)
  let ?u = "usable True (cs_entries s)"
  have room: "length (cs_entries s) < 8" and i: "wt_quic_connection_ids_issueable s \<noteq> 0"
    using Inr by (auto simp: wt_quic_connection_ids_add_issued_def WT_QUIC_CONNECTION_ID_LIMIT_def split: if_splits)
  have "length (filter (\<lambda>e. ci_issued e \<and> \<not> ci_retired e) (cs_entries s)) = ?u" by (simp add: usable_def)
  moreover have "unat (of_nat ?u :: u64) = ?u" using room usable_length [of True "cs_entries s"] by (intro unat_of_nat_u64) simp
  ultimately have less: "?u < unat (cs_peer_limit s)"
    using i by (auto simp: wt_quic_connection_ids_issueable_def word_le_nat_alt split: if_splits)
  have "length (sequences True (cs_entries s)) \<le> length (cs_entries s)" by (simp add: sequences_def)
  then have "unat (cs_next_sequence s + 1) = Suc (unat (cs_next_sequence s))"
    using assms room by (subst unat_add_no_wrap) (simp_all add: cid_inv_def)
  with assms less room Inr show ?thesis
    by (auto simp: wt_quic_connection_ids_add_issued_def cid_inv_def WT_QUIC_CONNECTION_ID_LIMIT_def less_Suc_eq split: if_splits)
qed (auto simp: wt_quic_connection_ids_add_issued_def assms split: if_splits)

lemma cid_inv_add_peer:
  assumes "cid_inv s"
  shows "cid_inv (snd (wt_quic_connection_ids_add_peer s n prior cid))"
proof -
  let ?s = "wt_quic_cid_retire_below s prior"
  have inv: "cid_inv ?s" by (rule cid_inv_retire_below [OF assms])
  let ?e = "\<lparr>ci_sequence = n, ci_id = cid, ci_issued = False, ci_retired = False\<rparr>"
  have "cid_inv (?s\<lparr>cs_entries := cs_entries ?s @ [?e]\<rparr>)"
    if fresh: "wt_quic_cid_find_sequence ?s n = None"
      and room: "\<not> of_nat (wt_quic_connection_ids_active ?s) \<ge> cs_local_limit ?s"
      and space: "\<not> length (cs_entries ?s) \<ge> WT_QUIC_CONNECTION_ID_LIMIT"
  proof -
    have "n \<notin> set (sequences False (cs_entries ?s))"
      using fresh by (auto simp: wt_quic_cid_find_sequence_def find_sequence_None sequences_def)
    moreover have "wt_quic_connection_ids_active ?s \<le> length (cs_entries ?s)"
      by (simp add: wt_quic_connection_ids_active_def)
    then have "wt_quic_connection_ids_active ?s < unat (cs_local_limit ?s)"
      using room space by (simp add: word_le_nat_alt not_le WT_QUIC_CONNECTION_ID_LIMIT_def unat_of_nat_u64)
    moreover have "usable False (cs_entries ?s) \<le> wt_quic_connection_ids_active ?s"
      unfolding wt_quic_connection_ids_active_def by (rule usable_active)
    ultimately show ?thesis using inv space by (auto simp: cid_inv_def)
  qed
  with inv assms show ?thesis by (simp add: wt_quic_connection_ids_add_peer_def Let_def)
qed

inductive cid_step :: "wt_quic_connection_id_store \<Rightarrow> wt_quic_connection_id_store \<Rightarrow> bool" where
  cid_add_issued: "cid_step s (snd (wt_quic_connection_ids_add_issued s cid))"
| cid_add_peer: "cid_step s (snd (wt_quic_connection_ids_add_peer s n prior cid))"
| cid_retire: "cid_step s (snd (wt_quic_connection_ids_retire s n))"

lemma cid_step_inv: "cid_step s s' \<Longrightarrow> cid_inv s \<Longrightarrow> cid_inv s'"
  by (induction rule: cid_step.induct) (simp_all add: cid_inv_add_issued cid_inv_add_peer cid_inv_retire)

subsection \<open>Properties of the store\<close>

text \<open>C39: Neither side exceeds the other's limit. Whatever the endpoint issues and the peer sends, in any
  order, the store holds at most eight identifiers, those issued and still usable stay within the limit
  the peer advertised, those the peer supplied within the limit this endpoint advertised, and no side's
  sequence number is held twice.\<close>

theorem wt_quic_connection_ids_limits:
  assumes "cid_step\<^sup>*\<^sup>* (wt_quic_connection_ids_init peer_limit local_limit) s"
  shows "cid_inv s"
  using assms by (induction rule: rtranclp_induct) (auto intro: cid_inv_init cid_step_inv)

theorem wt_quic_connection_ids_limits_witness:
  "cid_inv (snd (wt_quic_connection_ids_add_issued (wt_quic_connection_ids_init 2 2) [1, 2]))"
  by (rule wt_quic_connection_ids_limits [of 2 2]) (rule r_into_rtranclp, rule cid_add_issued)

text \<open>The two numberings collide. Issued and supplied identifiers share one array and one search by
  sequence number, so an identifier the peer supplies under a number this endpoint has used for one of
  its own is answered with success and not stored.\<close>

lemma wt_quic_connection_ids_collision:
  assumes "wt_quic_connection_ids_add_issued store issued = (Inr n, store')" "length cid \<le> WT_QUIC_MAX_CONNECTION_ID_LENGTH"
    and "wt_quic_connection_ids_find store cid = Inl WT_ERR_CLOSED" "issued \<noteq> cid" "prior \<le> n"
    and "wt_quic_connection_ids_add_peer store' n prior cid = (r, store'')"
  shows "r = None \<and> wt_quic_connection_ids_find store'' cid = Inl WT_ERR_CLOSED"
proof -
  have miss: "find_id_from cid k es = Inl WT_ERR_CLOSED \<longleftrightarrow> cid \<notin> ci_id ` set es" for k es
    by (induction es arbitrary: k) auto
  let ?s = "wt_quic_cid_retire_below store' prior"
  have s': "cs_entries store' = cs_entries store @
      [\<lparr>ci_sequence = n, ci_id = issued, ci_issued = True, ci_retired = False\<rparr>]"
    using assms(1) by (auto simp: wt_quic_connection_ids_add_issued_def split: if_splits)
  have "map ci_sequence (cs_entries ?s) = map ci_sequence (cs_entries store')" "map ci_id (cs_entries ?s) = map ci_id (cs_entries store')"
    by (auto simp: wt_quic_cid_retire_below_def Let_def)
  from arg_cong [OF this(1), of set] arg_cong [OF this(2), of set]
  have seq: "ci_sequence ` set (cs_entries ?s) = ci_sequence ` set (cs_entries store')"
    and ids: "ci_id ` set (cs_entries ?s) = ci_id ` set (cs_entries store')" by simp_all
  have "wt_quic_cid_find_sequence ?s n \<noteq> None"
    unfolding wt_quic_cid_find_sequence_def find_sequence_None seq using s' by simp
  then have "r = None" "store'' = ?s" 
    using assms(2,6) leD [OF assms(5)] by (auto simp: wt_quic_connection_ids_add_peer_def Let_def)
  moreover have "cid \<notin> ci_id ` set (cs_entries ?s)"
    unfolding ids using s' assms(2,3,4) miss by (auto simp: wt_quic_connection_ids_find_def split: if_splits)
  ultimately show ?thesis using miss assms(2) by (simp add: wt_quic_connection_ids_find_def)
qed

end
