(* ===== verification/Webtransport_Protocol_Field.thy ===== *)
theory Webtransport_Protocol_Field
  imports Webtransport_Request Qpack_Section
begin

text \<open>
  The field that answers a sub-protocol offer (\<open>wt_webtransport_protocol_write_field\<close> in
  \<open>C99/src/webtransport/protocol.c\<close>): the quoted token as a literal QPACK field line.
\<close>

definition WT_WEBTRANSPORT_PROTOCOL_HEADER :: string where
  "WT_WEBTRANSPORT_PROTOCOL_HEADER = ''wt-protocol''"

definition wt_webtransport_protocol_write_field :: "u8 list \<Rightarrow> wt_writer \<Rightarrow> wt_status \<times> wt_writer" where
  "wt_webtransport_protocol_write_field token w =
     (let capacity = WT_WEBTRANSPORT_PROTOCOL_TOKEN_MAX + 2 in
      case wt_webtransport_protocol_encode_item token (wt_writer_init (Some (replicate capacity 0)) (of_nat capacity)) of
        (status, value_writer) \<Rightarrow>
          if status \<noteq> WT_OK then (status, w)
          else
            wt_qpack_field_line_encode
              \<lparr>fl_kind = WT_QPACK_FIELD_LITERAL_LITERAL_NAME, fl_never_indexed = False, fl_index = 0,
               fl_name_huffman = False, fl_name = ascii WT_WEBTRANSPORT_PROTOCOL_HEADER,
               fl_value = writer_out value_writer, fl_value_huffman = False, fl_bytes_consumed = 0\<rparr> w)"

definition protocol_line :: "u8 list \<Rightarrow> wt_qpack_field_line" where
  "protocol_line token =
     \<lparr>fl_kind = WT_QPACK_FIELD_LITERAL_LITERAL_NAME, fl_never_indexed = False, fl_index = 0,
      fl_name_huffman = False, fl_name = ascii WT_WEBTRANSPORT_PROTOCOL_HEADER,
      fl_value = item_bytes token, fl_value_huffman = False, fl_bytes_consumed = 0\<rparr>"

lemma appends_item:
  assumes "wt_webtransport_protocol_token_valid token"
  shows "appends (wt_webtransport_protocol_encode_item token) (item_bytes token)"
proof -
  let ?es = "[wt_writer_u8 0x22, wt_writer_bytes token, wt_writer_u8 0x22]"
  have e: "wt_webtransport_protocol_encode_item token = emit_status ?es"
    using assms by (simp add: wt_webtransport_protocol_encode_item_def fun_eq_iff)
  have "writes (\<lambda>w. snd (emit_status ?es w)) (concat [[0x22], token, [0x22]])"
    by (rule emit_status_writes) simp
  then show ?thesis by (simp add: e appends_def emit_status_fst item_bytes_def)
qed

text \<open>What the answer says on the wire: one literal line whose value is the quoted token.\<close>

lemma appends_protocol_field:
  assumes "wt_webtransport_protocol_token_valid token"
  shows "appends (wt_webtransport_protocol_write_field token) (line_bytes (protocol_line token))"
proof -
  note t = token_valid_facts [OF assms]
  let ?c = "WT_WEBTRANSPORT_PROTOCOL_TOKEN_MAX + 2"
  have cap: "unat (of_nat ?c :: u64) = 66" by (simp add: protocol_limits)
  have len: "length (item_bytes token) \<le> 66" using t by (simp add: item_bytes_def)
  note item = appends_init [OF appends_item [OF assms], of "of_nat ?c" "replicate ?c 0"]
  have "wt_webtransport_protocol_write_field token = wt_qpack_field_line_encode_coded (protocol_line token) 0"
    using item len cap
    by (auto simp: fun_eq_iff wt_webtransport_protocol_write_field_def Let_def case_prod_beta protocol_line_def
        wt_qpack_field_line_encode_def protocol_limits)
  moreover have "line_ok (protocol_line token)" "scratch_fits (protocol_line token) 0"
    using len by (simp_all add: line_ok_def protocol_line_def string_ok_def scratch_fits_def ascii_def
        WT_WEBTRANSPORT_PROTOCOL_HEADER_def)
  ultimately show ?thesis using appends_line by simp
qed

subsection \<open>The answer reaches the client\<close>

text \<open>A server's choice of sub-protocol reaches the client. The field line a server appends to its
  response, read back by the field line decoder wherever the section goes on, is the literal field
  \<open>wt-protocol\<close> with a value from which the token parser recovers exactly the token chosen.\<close>

lemma wt_webtransport_protocol_field_delivered:
  assumes "wt_webtransport_protocol_token_valid token" "unat cap \<le> length d"
    and "wt_webtransport_protocol_write_field token (wt_writer_init (Some d) cap) = (WT_OK, w)"
    and "length (writer_out w @ rest) < 2 ^ 64"
  shows "\<exists>line. fst (wt_qpack_field_line_decode (cursor_of (writer_out w @ rest))) = Inr line \<and>
    fl_kind line = WT_QPACK_FIELD_LITERAL_LITERAL_NAME \<and> fl_name line = ascii ''wt-protocol'' \<and>
    wt_webtransport_protocol_decode_item (fl_value line) = Inr token"
proof -
  have ok: "line_ok (protocol_line token)"
    using token_valid_facts [OF assms(1)] by (simp add: line_ok_def protocol_line_def string_ok_def item_bytes_def ascii_def
        WT_WEBTRANSPORT_PROTOCOL_HEADER_def)
  have "writer_out w = line_bytes (protocol_line token)"
    using appends_init [OF appends_protocol_field [OF assms(1)] assms(2)] assms(3) by (auto split: if_splits)
  with reads_of [OF reads_line [OF ok], of rest] assms(4)
  have "fst (wt_qpack_field_line_decode (cursor_of (writer_out w @ rest))) = Inr (wire_line (protocol_line token))" by simp
  then show ?thesis
    using decode_item_of [OF assms(1)]
    by (simp add: wire_line_def protocol_line_def WT_WEBTRANSPORT_PROTOCOL_HEADER_def)
qed

end
