(* ===== verification/Spec2Isabelle.thy ===== *)
theory Spec2Isabelle
  imports Packet_Number Quic_Frame Pn_Space Stream_Table Crypto_Stream Congestion Loss Packet_Header
    Transport_Parameters Webtransport_Request Webtransport_Session Webtransport_Buffered Http3_Endpoint
    Quic_Close Datagram_Queue Connection_Ids Webtransport_Protocol_Field
begin

text \<open>
  Verification of the WebTransport library for C99 (\<open>C99/src\<close>, \<open>C99/include/webtransport\<close>).

  \<^bold>\<open>The program.\<close> The library is a stack. \<open>core\<close> has the read cursor and the two-pass writer that every
  parser and encoder uses. \<open>quic\<close> has the codecs of packets, frames, integers and transport parameters, and
  the state machines of a connection: packet number spaces, streams and their flow control, the stream
  table, CRYPTO reassembly, congestion control, loss detection, closing, datagrams, connection
  identifiers. \<open>http3\<close> has frames, the control and request stream machines, SETTINGS and GOAWAY, QPACK,
  messages, and the endpoint that ties these together. \<open>webtransport\<close> has capsules, sessions, stream and
  datagram prefixes, early data, sub-protocols and the session request. Around them are a TLS engine over
  OpenSSL, the connection that drives packets through all of it, the HTTP/3 driver, sockets, a public
  interface and a command line.

  \<^bold>\<open>Theories and the source they model.\<close>
  \<^item> \<open>Prelude\<close>: the C integer types, \<open>memcpy\<close> as \<open>overwrite\<close>, lemmas on words, the lemma collections.
  \<^item> \<open>Wire_Core\<close>, \<open>Codec\<close>: \<open>core/cursor.c\<close>, \<open>writer.c\<close>, \<open>checked.c\<close>, \<open>endian.c\<close>; the calculus of readers and
    writers; the interfaces \<open>wire_codec\<close>, \<open>wire_encoder\<close> and \<open>wire_format\<close>.
  \<^item> \<open>Varint\<close>, \<open>Packet_Number\<close>, \<open>Quic_Frame\<close>, \<open>Packet_Header\<close>, \<open>Transport_Parameters\<close>: the QUIC codecs
    (\<open>quic/varint.c\<close>, \<open>packet_number.c\<close>, \<open>frame.c\<close>, \<open>frame_encode.c\<close>, \<open>frame_names.c\<close>, \<open>error.c\<close>,
    \<open>packet.c\<close>, \<open>packet_encode.c\<close>, \<open>transport_parameters.c\<close>).
  \<^item> \<open>Pn_Space\<close>, \<open>Stream\<close>, \<open>Stream_Table\<close>, \<open>Crypto_Stream\<close>, \<open>Congestion\<close>, \<open>Loss\<close>, \<open>Quic_Close\<close>,
    \<open>Datagram_Queue\<close>, \<open>Connection_Ids\<close>: the state of a connection (\<open>quic/pn_space.c\<close>, \<open>stream.c\<close>,
    \<open>crypto_stream.c\<close>, \<open>congestion.c\<close>, \<open>loss.c\<close>, \<open>close.c\<close>, \<open>datagram.c\<close>, \<open>connection_id.c\<close>).
  \<^item> \<open>Http3_Frame\<close>, \<open>Http3_Control\<close>, \<open>Http3_Headers\<close>, \<open>Http3_Message\<close>, \<open>Http3_Endpoint\<close>: \<open>http3/frame.c\<close>,
    \<open>streams.c\<close>, \<open>request.c\<close>, \<open>settings.c\<close>, \<open>goaway.c\<close>, \<open>control.c\<close>, \<open>headers.c\<close>, \<open>message.c\<close>,
    \<open>endpoint.c\<close>.
  \<^item> \<open>Qpack_Huffman_Table\<close>, \<open>Qpack_Huffman\<close>, \<open>Qpack_Primitives\<close>, \<open>Qpack_Table\<close>, \<open>Qpack_Field\<close>,
    \<open>Qpack_Streams\<close>, \<open>Qpack_Section\<close>: \<open>http3/qpack*.c\<close> and the two generated tables.
  \<^item> \<open>Utf8\<close>, \<open>Webtransport_Framing\<close>, \<open>Webtransport_Session\<close>, \<open>Webtransport_Buffered\<close>,
    \<open>Webtransport_Request\<close>, \<open>Webtransport_Protocol_Field\<close>: \<open>webtransport/error.c\<close>, \<open>framing.c\<close>,
    \<open>capsule.c\<close>, \<open>session.c\<close>, \<open>buffered.c\<close>, \<open>session_request.c\<close>, \<open>protocol.c\<close>.

  \<^bold>\<open>How C is rendered.\<close> \<open>uint64_t\<close> and \<open>size_t\<close> are 64-bit words, the other integers words of their width, and
  arithmetic wraps; sizes of arrays the code bounds itself are natural numbers. A struct is a record, an
  enum a datatype (an integer where the code casts to it), a tagged union a datatype. A pointer with a
  length is the list of bytes it reads. Where a pointer outlives a change of the memory behind it the view
  itself is modelled: \<open>byte_view\<close> into the arena of the QPACK table, \<open>field_view\<close> into the scratch buffer of
  a section. An array with a fill count is the list of its live entries when the code never looks past the
  count, and a list of full length otherwise. Every function returns its result and the state it leaves;
  errors are \<open>wt_status + 'a\<close>, or pairs of a status and a protocol error code (\<open>frame_fail\<close>, \<open>http3_fail\<close>,
  \<open>qpack_fail\<close>), and \<open>None\<close> as a result is \<open>WT_OK\<close>. A parser is a reader, a function from a cursor to a result
  and the cursor it leaves. Checks for NULL handles are left out: a model function has its arguments.
  Callbacks are parameters of the definitions and the theorems hold for every callback.

  \<^bold>\<open>What the lemmas show.\<close> For every codec: the decoder inverts the encoder, stays inside its bytes, and
  fails only with the codes it should (\<open>reads\<close>, \<open>writes\<close>, \<open>appends\<close>, \<open>reader_safe\<close>, \<open>yields\<close>, \<open>fails_with\<close>).
  For every state machine: an invariant, that each operation keeps it, and reachability by rule induction
  (\<open>stream_step\<close>, \<open>table_step\<close>, \<open>loss_step\<close>, \<open>session_step\<close>, \<open>encoder_step\<close>, \<open>endpoint_step\<close>, \<open>cid_step\<close>).
  Abstract contracts are locales, each interpreted on the definitions of the model: \<open>wire_format\<close> by
  integers, QUIC frames and HTTP/3 frames; \<open>stream_registry\<close> by the stream table; \<open>bounded_store\<close> by the
  transport parameters; \<open>indexed_log\<close> by the QPACK dynamic table, whose arena refines a list of fields
  (\<open>dyn_rel\<close>); \<open>bounded_fifo\<close> by the datagram ring. Optimised routines are compared with what they
  compute: binary search with a scan, ACK ranges and the arrival bitmap with sets, the Huffman tables with
  the code of RFC 7541, the eviction bound over the slots of the QPACK encoder with a map of the sections in
  flight (\<open>in_flight\<close>), message decoding with the fields of a walk over the whole section
  (\<open>message_acceptable\<close>, \<open>message_carries\<close>). Components are composed: a request written by one endpoint is decoded by another,
  encoder instructions written by one side rebuild the table of the other, the acknowledgements go back,
  a session stream may be cut into deliveries anywhere.

  \<^bold>\<open>Loops.\<close> Every loop is a total function. The measure is the unread part of the cursor for parsers and
  walks, the list for loops over arrays, the value for the integer encoder, the candidate for the datagram
  bound, the number of live entries for evictions; there is no fuel.

  \<^bold>\<open>Bounds in hypotheses.\<close> Buffers are shorter than \<open>2 ^ 64\<close> bytes, which is what a \<open>size_t\<close> can say, and
  string lengths below \<open>2 ^ 62\<close>, which is what the wire can say; strings for Huffman coding are below
  \<open>2 ^ 59\<close> bytes, so that their bits can be counted. Counters of insertions and packets are
  assumed not to have wrapped where a theorem says so.

  \<^bold>\<open>Not modelled.\<close> The connection (\<open>quic/connection*.c\<close>, \<open>handshake.c\<close>), packet protection and Retry tokens
  interleave with AEAD, HKDF and HMAC of OpenSSL, which is not part of the repository; so do the TLS engine
  and its trust decisions (\<open>tls\<close>, \<open>crypto\<close>). The HTTP/3 driver and \<open>quic_transport.c\<close> route events between
  that connection and the endpoint modelled here. The allocator, growable buffer, log and clock of \<open>core\<close>,
  the sockets of \<open>runtime\<close>, the public interface and the command line are glue over the platform. The Swift
  implementation is a second program.
\<close>

end
